(* ===== verification/ACU_Prelude.thy ===== *)
theory ACU_Prelude
  imports Main "HOL-Library.Word"
begin

text \<open>
  Shared vocabulary of the development: the widths of the firmware's integers, the faults a
  run of the C code can end in, the composition of operations that may fault, and arrays
  whose out-of-range accesses are faults rather than unspecified values. The generic
  lemmas the components use are collected in \<open>acu_simps\<close>.
\<close>

unbundle bit_operations_syntax

named_theorems acu_simps "rewrite rules for the fault-passing operations of the model"

section \<open>Machine integers of the firmware\<close>

type_synonym u8 = "8 word"
type_synonym u16 = "16 word"
type_synonym u32 = "32 word"

section \<open>Faults and their propagation\<close>

text \<open>
  \<open>Out_Of_Bounds\<close> is an access outside a C array, \<open>Bad_Pointer\<close> a dereference of a
  pointer that addresses no object of the model, \<open>Still_Running\<close> is what a loop with fuel
  returns when the fuel is used up before the loop has ended.
\<close>

datatype fault = Out_Of_Bounds | Bad_Pointer | Still_Running

definition ebind :: "fault + 'a \<Rightarrow> ('a \<Rightarrow> fault + 'b) \<Rightarrow> fault + 'b" where
  "ebind m f = (case m of Inl e \<Rightarrow> Inl e | Inr x \<Rightarrow> f x)"

lemma ebind_Inl [simp, acu_simps]: "ebind (Inl e) f = Inl e"
  by (simp add: ebind_def)

lemma ebind_Inr [simp, acu_simps]: "ebind (Inr x) f = f x"
  by (simp add: ebind_def)

lemma ebind_eq_Inr_iff: "ebind m f = Inr y \<longleftrightarrow> (\<exists>x. m = Inr x \<and> f x = Inr y)"
  by (cases m) auto

lemma ebind_eq_Inl_iff:
  "ebind m f = Inl e \<longleftrightarrow> m = Inl e \<or> (\<exists>x. m = Inr x \<and> f x = Inl e)"
  by (cases m) auto

lemma ebind_assoc: "ebind (ebind m f) g = ebind m (\<lambda>x. ebind (f x) g)"
  by (cases m) auto

lemma ebind_cong [fundef_cong]:
  "m = n \<Longrightarrow> (\<And>x. n = Inr x \<Longrightarrow> f x = g x) \<Longrightarrow> ebind m f = ebind n g"
  by (cases n) auto

section \<open>Arrays with checked indices\<close>

definition arr_get :: "'a list \<Rightarrow> nat \<Rightarrow> fault + 'a" where
  "arr_get xs i = (if i < length xs then Inr (xs ! i) else Inl Out_Of_Bounds)"

definition arr_set :: "'a list \<Rightarrow> nat \<Rightarrow> 'a \<Rightarrow> fault + 'a list" where
  "arr_set xs i v = (if i < length xs then Inr (xs[i := v]) else Inl Out_Of_Bounds)"

lemma arr_get_ok [simp, acu_simps]: "i < length xs \<Longrightarrow> arr_get xs i = Inr (xs ! i)"
  by (simp add: arr_get_def)

lemma arr_set_ok [simp, acu_simps]: "i < length xs \<Longrightarrow> arr_set xs i v = Inr (xs[i := v])"
  by (simp add: arr_set_def)

lemma arr_get_oob [simp, acu_simps]: "\<not> i < length xs \<Longrightarrow> arr_get xs i = Inl Out_Of_Bounds"
  by (simp add: arr_get_def)

lemma arr_set_oob [simp, acu_simps]: "\<not> i < length xs \<Longrightarrow> arr_set xs i v = Inl Out_Of_Bounds"
  by (simp add: arr_set_def)

lemma arr_get_eq_Inr_iff: "arr_get xs i = Inr v \<longleftrightarrow> i < length xs \<and> v = xs ! i"
  by (auto simp: arr_get_def)

lemma arr_set_eq_Inr_iff: "arr_set xs i v = Inr ys \<longleftrightarrow> i < length xs \<and> ys = xs[i := v]"
  by (auto simp: arr_set_def)

text \<open>Runs of consecutive loads and stores, as the code writes them one by one.\<close>

fun get_bytes :: "'a list \<Rightarrow> nat \<Rightarrow> nat \<Rightarrow> fault + 'a list" where
  "get_bytes xs i 0 = Inr []"
| "get_bytes xs i (Suc n) =
     ebind (arr_get xs i) (\<lambda>x. ebind (get_bytes xs (Suc i) n) (\<lambda>ys. Inr (x # ys)))"

fun put_bytes :: "'a list \<Rightarrow> nat \<Rightarrow> 'a list \<Rightarrow> fault + 'a list" where
  "put_bytes xs i [] = Inr xs"
| "put_bytes xs i (y # ys) = ebind (arr_set xs i y) (\<lambda>xs'. put_bytes xs' (Suc i) ys)"

lemma get_bytes_ok:
  "i + n \<le> length xs \<Longrightarrow> get_bytes xs i n = Inr (take n (drop i xs))"
proof (induction n arbitrary: i)
  case (Suc n)
  then have "take (Suc n) (drop i xs) = xs ! i # take n (drop (Suc i) xs)"
    by (simp add: Cons_nth_drop_Suc [symmetric])
  with Suc show ?case by simp
qed simp

lemma length_get_bytes: "get_bytes xs i n = Inr ys \<Longrightarrow> length ys = n"
  by (induction n arbitrary: i ys) (auto simp: ebind_eq_Inr_iff)

lemma put_bytes_ok:
  "i + length ys \<le> length xs \<Longrightarrow>
   put_bytes xs i ys = Inr (take i xs @ ys @ drop (i + length ys) xs)"
proof (induction ys arbitrary: i xs)
  case (Cons y ys)
  then have "take (Suc i) (xs[i := y]) = take i xs @ [y]"
    by (simp add: take_Suc_conv_app_nth)
  with Cons show ?case by simp
qed simp

lemma length_put_bytes: "put_bytes xs i ys = Inr zs \<Longrightarrow> length zs = length xs"
  by (induction ys arbitrary: i xs) (auto simp: ebind_eq_Inr_iff arr_set_eq_Inr_iff)

declare get_bytes.simps(2) [simp del] put_bytes.simps(2) [simp del]

lemma length_4E:
  assumes "length xs = 4"
  obtains a b c d where "xs = [a, b, c, d]"
  using assms by (auto simp: length_Suc_conv numeral_eq_Suc)

lemma replicate_small [acu_simps]:
  "replicate 2 x = [x, x]" "replicate 3 x = [x, x, x]" "replicate 4 x = [x, x, x, x]"
  "replicate 5 x = [x, x, x, x, x]" "replicate 6 x = [x, x, x, x, x, x]"
  "replicate 7 x = [x, x, x, x, x, x, x]" "replicate 8 x = [x, x, x, x, x, x, x, x]"
  by (simp_all add: eval_nat_numeral)

section \<open>Overwriting a range of a byte memory\<close>

definition overlay :: "nat \<Rightarrow> u8 list \<Rightarrow> u8 list \<Rightarrow> u8 list" where
  "overlay a bs m = take a m @ bs @ drop (a + length bs) m"

lemma length_overlay [simp]: "a + length bs \<le> length m \<Longrightarrow> length (overlay a bs m) = length m"
  by (simp add: overlay_def)

lemma nth_overlay:
  "a + length bs \<le> length m \<Longrightarrow> i < length m \<Longrightarrow>
   overlay a bs m ! i = (if a \<le> i \<and> i < a + length bs then bs ! (i - a) else m ! i)"
  by (auto simp: overlay_def nth_append)

lemma nth_overlay_out:
  "a + length bs \<le> length m \<Longrightarrow> i < length m \<Longrightarrow> i < a \<or> a + length bs \<le> i \<Longrightarrow>
   overlay a bs m ! i = m ! i"
  by (auto simp: nth_overlay)

lemma put_overlay: "i + length bs \<le> length rb \<Longrightarrow> put_bytes rb i bs = Inr (overlay i bs rb)"
  by (simp add: put_bytes_ok overlay_def)

lemma overlay_append:
  "a + length xs + length ys \<le> length m \<Longrightarrow> b = a + length xs \<Longrightarrow>
   overlay b ys (overlay a xs m) = overlay a (xs @ ys) m"
  by (rule nth_equalityI) (auto simp: nth_overlay nth_append)

lemma take_drop_eqI:
  "length m = length m' \<Longrightarrow> a + n \<le> length m \<Longrightarrow> \<forall>k < n. m ! (a + k) = m' ! (a + k) \<Longrightarrow>
   take n (drop a m) = take n (drop a m')"
  by (intro nth_equalityI) simp_all

lemma take_drop_overlay_same:
  "a + length bs \<le> length m \<Longrightarrow> take (length bs) (drop a (overlay a bs m)) = bs"
  by (simp add: overlay_def)

lemma take_drop_overlay_other:
  "a + length bs \<le> length m \<Longrightarrow> b + n \<le> length m \<Longrightarrow> b + n \<le> a \<or> a + length bs \<le> b \<Longrightarrow>
   take n (drop b (overlay a bs m)) = take n (drop b m)"
  by (rule take_drop_eqI) (auto simp: nth_overlay)

lemma upd_overlay: "i < length m \<Longrightarrow> m[i := v] = overlay i [v] m"
  by (simp add: overlay_def upd_conv_take_nth_drop)

lemma overlay_all: "length bs = length m \<Longrightarrow> overlay 0 bs m = bs"
  by (simp add: overlay_def)

section \<open>Facts about machine words the components share\<close>

lemma unat_u8_less [simp]: "unat (x :: u8) < 256"
  using unsigned_less [of x] by simp

lemma unat_u16_less [simp]: "unat (x :: u16) < 65536"
  using unsigned_less [of x] by simp

lemma unat_u32_less: "unat (x :: u32) < 4294967296"
  using unsigned_less [of x] by simp

lemma unat_of_nat_u8: "n < 256 \<Longrightarrow> unat (of_nat n :: u8) = n"
  by (simp add: unat_of_nat take_bit_eq_mod)

lemma unat_of_nat_u16: "n < 65536 \<Longrightarrow> unat (of_nat n :: u16) = n"
  by (simp add: unat_of_nat take_bit_eq_mod)

lemma unat_of_nat_u32: "n < 4294967296 \<Longrightarrow> unat (of_nat n :: u32) = n"
  by (simp add: unat_of_nat take_bit_eq_mod)

lemma unat_ucast_u8_u16 [simp]: "unat (ucast (b :: u8) :: u16) = unat b"
proof -
  have "unat b < 2 ^ 16" by (rule less_trans [OF unat_u8_less]) simp
  then show ?thesis by (simp add: unsigned_ucast_eq take_bit_nat_eq_self)
qed

lemma of_nat_u8_inject: "m < 256 \<Longrightarrow> n < 256 \<Longrightarrow> (of_nat m :: u8) = of_nat n \<longleftrightarrow> m = n"
  by (metis unat_of_nat_u8)

lemma u8_exhaust: "(\<exists>n < 256. x = (of_nat n :: u8))"
  by (rule exI [of _ "unat x"]) simp

lemma all_u8_iff: "(\<forall>x :: u8. P x) \<longleftrightarrow> (\<forall>n < 256. P (of_nat n))"
  by (metis u8_exhaust)

lemma xor_cancel_left [simp]: "a XOR (a XOR b) = (b :: 'a :: len word)"
  by (simp flip: xor.assoc)

lemma xor_eq_0_iff_eq: "a XOR b = 0 \<longleftrightarrow> a = (b :: 'a :: len word)"
  by (metis xor_cancel_left xor_self_eq xor.right_neutral)

lemma bit_0xFF:
  "bit (0xFF :: u8) n \<longleftrightarrow> n < 8" "bit (0xFF :: u16) n \<longleftrightarrow> n < 8" "bit (0xFF :: u32) n \<longleftrightarrow> n < 8"
proof -
  have "(0xFF :: u8) = mask 8" "(0xFF :: u16) = mask 8" "(0xFF :: u32) = mask 8"
    by (simp_all add: mask_eq_exp_minus_1)
  then show "bit (0xFF :: u8) n \<longleftrightarrow> n < 8" "bit (0xFF :: u16) n \<longleftrightarrow> n < 8"
    "bit (0xFF :: u32) n \<longleftrightarrow> n < 8"
    by (auto simp only: bit_mask_iff possible_bit_def) simp_all
qed

lemma bit_0xFF_int: "bit (0xFF :: int) n \<longleftrightarrow> n < 8"
proof -
  have "(0xFF :: int) = mask 8" by (simp add: mask_eq_exp_minus_1)
  then show ?thesis by (simp only: bit_mask_iff) simp
qed

lemma unat_Suc_less:
  fixes c n :: "'a :: len word"
  assumes "c < n"
  shows "unat (c + 1) = Suc (unat c)"
proof -
  from assms have "unat c < unat n" by (simp add: word_less_nat_alt)
  moreover have "unat n < 2 ^ LENGTH('a)" by (rule unsigned_less)
  ultimately have "unat c + 1 < 2 ^ LENGTH('a)" by linarith
  then show ?thesis using unat_add_lem [of c 1] by simp
qed

text \<open>A 16-bit value is its two bytes.\<close>

lemma u16_join_bytes:
  "push_bit 8 (ucast (of_nat (unat p div 256) :: u8)) OR ucast (of_nat (unat p mod 256) :: u8) = (p :: u16)"
proof -
  have hi: "bit (of_nat (unat p div 256) :: u8) n \<longleftrightarrow> n < 8 \<and> bit p (8 + n)" for n
  proof -
    have "(of_nat (unat p div 256) :: u8) = of_nat (drop_bit 8 (unat p))"
      by (simp add: drop_bit_eq_div)
    then show ?thesis by (auto simp: bit_of_nat_iff bit_drop_bit_eq bit_unsigned_iff bit_simps possible_bit_def)
  qed
  have lo: "bit (of_nat (unat p mod 256) :: u8) n \<longleftrightarrow> n < 8 \<and> bit p n" for n
  proof -
    have "(of_nat (unat p mod 256) :: u8) = of_nat (take_bit 8 (unat p))"
      by (simp add: take_bit_eq_mod)
    then show ?thesis by (auto simp: bit_of_nat_iff bit_take_bit_iff bit_unsigned_iff bit_simps possible_bit_def)
  qed
  show ?thesis
    by (rule bit_word_eqI) (auto simp: bit_or_iff bit_push_bit_iff bit_unsigned_iff hi lo possible_bit_def not_less)
qed
lemma u16_split_bytes:
  fixes a b :: u8
  defines "p \<equiv> push_bit 8 (ucast a) OR ucast b :: u16"
  shows "of_nat (unat p div 256) = a" and "of_nat (unat p mod 256) = b"
proof -
  have "of_nat (unat p div 256) = (of_nat (drop_bit 8 (unat p)) :: u8)"
    by (simp add: drop_bit_eq_div)
  also have "\<dots> = a"
    by (rule bit_word_eqI)
       (auto simp: bit_of_nat_iff bit_drop_bit_eq bit_unsigned_iff p_def bit_or_iff bit_push_bit_iff
          possible_bit_def dest: bit_imp_le_length)
  finally show "of_nat (unat p div 256) = a" .
  have "of_nat (unat p mod 256) = (of_nat (take_bit 8 (unat p)) :: u8)"
    by (simp add: take_bit_eq_mod)
  also have "\<dots> = b"
    by (rule bit_word_eqI)
       (auto simp: bit_of_nat_iff bit_take_bit_iff bit_unsigned_iff p_def bit_or_iff bit_push_bit_iff possible_bit_def)
  finally show "of_nat (unat p mod 256) = b" .
qed

section \<open>Bytes as bits, first bit on the wire first\<close>

definition byte_of_bits :: "bool list \<Rightarrow> u8" where
  "byte_of_bits bs = foldl (\<lambda>a b. 2 * a + of_bool b) 0 bs"

definition bits_of_byte :: "u8 \<Rightarrow> bool list" where
  "bits_of_byte b = map (bit b) [7, 6, 5, 4, 3, 2, 1, 0]"

lemma byte_of_bits_of_byte: "byte_of_bits (bits_of_byte b) = b"
proof -
  have "byte_of_bits (rev bs) = horner_sum of_bool 2 bs" for bs
    by (simp add: byte_of_bits_def horner_sum_foldr foldl_conv_foldr ac_simps)
  then have "byte_of_bits (rev (map (bit b) [0..<8])) = horner_sum of_bool 2 (map (bit b) [0..<8])" .
  also have "\<dots> = b"
    using take_bit_length_eq [of b] by (simp add: horner_sum_bit_eq_take_bit)
  finally show ?thesis by (simp add: bits_of_byte_def upt_conv_Cons eval_nat_numeral)
qed

lemma send_bit_eq: "drop_bit 7 (txd AND 0x80) \<noteq> 0 \<longleftrightarrow> bit (txd :: u8) 7"
proof -
  have "drop_bit 7 (txd AND 0x80) = 0 \<longleftrightarrow> \<not> bit txd 7"
  proof
    assume "drop_bit 7 (txd AND 0x80) = 0"
    then have "\<not> bit (drop_bit 7 (txd AND 0x80)) 0" by simp
    then show "\<not> bit txd 7" by (simp add: bit_simps)
  next
    assume "\<not> bit txd 7"
    show "drop_bit 7 (txd AND 0x80) = 0"
    proof (rule bit_word_eqI)
      fix n
      show "bit (drop_bit 7 (txd AND 0x80)) n = bit (0 :: u8) n"
        using \<open>\<not> bit txd 7\<close> by (cases n) (auto simp: bit_simps dest: bit_imp_le_length)
    qed
  qed
  then show ?thesis by simp
qed

lemma bit_push1: "0 < n \<Longrightarrow> n < 8 \<Longrightarrow> bit (push_bit 1 (x :: u8)) n = bit x (n - 1)"
  by (simp only: bit_push_bit_iff) (auto simp: possible_bit_def)

end
