(* ===== verification/Crc8.thy ===== *)
theory Crc8
  imports ACU_Prelude
begin

text \<open>
  The table-driven CRC-8 of HARDWARE/BSP/bsp_crc8.c, which guards the frames of the card
  reader bus and of the configuration port. \<open>crc_array\<close> and \<open>CRC8_Table\<close> are the
  code; \<open>crc8_poly\<close> is the bit-serial definition of the same code (reflected polynomial
  0x8C) that the table abbreviates.
\<close>

section \<open>The code\<close>

definition crc_array :: "u8 list" where
  "crc_array = [
    0x00, 0x5e, 0xbc, 0xe2, 0x61, 0x3f, 0xdd, 0x83,
    0xc2, 0x9c, 0x7e, 0x20, 0xa3, 0xfd, 0x1f, 0x41,
    0x9d, 0xc3, 0x21, 0x7f, 0xfc, 0xa2, 0x40, 0x1e,
    0x5f, 0x01, 0xe3, 0xbd, 0x3e, 0x60, 0x82, 0xdc,
    0x23, 0x7d, 0x9f, 0xc1, 0x42, 0x1c, 0xfe, 0xa0,
    0xe1, 0xbf, 0x5d, 0x03, 0x80, 0xde, 0x3c, 0x62,
    0xbe, 0xe0, 0x02, 0x5c, 0xdf, 0x81, 0x63, 0x3d,
    0x7c, 0x22, 0xc0, 0x9e, 0x1d, 0x43, 0xa1, 0xff,
    0x46, 0x18, 0xfa, 0xa4, 0x27, 0x79, 0x9b, 0xc5,
    0x84, 0xda, 0x38, 0x66, 0xe5, 0xbb, 0x59, 0x07,
    0xdb, 0x85, 0x67, 0x39, 0xba, 0xe4, 0x06, 0x58,
    0x19, 0x47, 0xa5, 0xfb, 0x78, 0x26, 0xc4, 0x9a,
    0x65, 0x3b, 0xd9, 0x87, 0x04, 0x5a, 0xb8, 0xe6,
    0xa7, 0xf9, 0x1b, 0x45, 0xc6, 0x98, 0x7a, 0x24,
    0xf8, 0xa6, 0x44, 0x1a, 0x99, 0xc7, 0x25, 0x7b,
    0x3a, 0x64, 0x86, 0xd8, 0x5b, 0x05, 0xe7, 0xb9,
    0x8c, 0xd2, 0x30, 0x6e, 0xed, 0xb3, 0x51, 0x0f,
    0x4e, 0x10, 0xf2, 0xac, 0x2f, 0x71, 0x93, 0xcd,
    0x11, 0x4f, 0xad, 0xf3, 0x70, 0x2e, 0xcc, 0x92,
    0xd3, 0x8d, 0x6f, 0x31, 0xb2, 0xec, 0x0e, 0x50,
    0xaf, 0xf1, 0x13, 0x4d, 0xce, 0x90, 0x72, 0x2c,
    0x6d, 0x33, 0xd1, 0x8f, 0x0c, 0x52, 0xb0, 0xee,
    0x32, 0x6c, 0x8e, 0xd0, 0x53, 0x0d, 0xef, 0xb1,
    0xf0, 0xae, 0x4c, 0x12, 0x91, 0xcf, 0x2d, 0x73,
    0xca, 0x94, 0x76, 0x28, 0xab, 0xf5, 0x17, 0x49,
    0x08, 0x56, 0xb4, 0xea, 0x69, 0x37, 0xd5, 0x8b,
    0x57, 0x09, 0xeb, 0xb5, 0x36, 0x68, 0x8a, 0xd4,
    0x95, 0xcb, 0x29, 0x77, 0xf4, 0xaa, 0x48, 0x16,
    0xe9, 0xb7, 0x55, 0x0b, 0x88, 0xd6, 0x34, 0x6a,
    0x2b, 0x75, 0x97, 0xc9, 0x4a, 0x14, 0xf6, 0xa8,
    0x74, 0x2a, 0xc8, 0x96, 0x15, 0x4b, 0xa9, 0xf7,
    0xb6, 0xe8, 0x0a, 0x54, 0xd7, 0x89, 0x6b, 0x35]"

definition crc8_step :: "u8 \<Rightarrow> u8 \<Rightarrow> u8" where
  "crc8_step crc8 b = crc_array ! unat (crc8 XOR b)"

text \<open>The loop of \<open>CRC8_Table\<close>: \<open>p\<close> is what the pointer still addresses.\<close>

fun CRC8_loop :: "u8 list \<Rightarrow> nat \<Rightarrow> u8 \<Rightarrow> fault + u8" where
  "CRC8_loop p 0 crc8 = Inr crc8"
| "CRC8_loop [] (Suc n) crc8 = Inl Out_Of_Bounds"
| "CRC8_loop (b # p) (Suc n) crc8 = CRC8_loop p n (crc8_step crc8 b)"

definition CRC8_Table :: "u8 list \<Rightarrow> u8 \<Rightarrow> fault + u8" where
  "CRC8_Table p counter = CRC8_loop p (unat counter) 0"

section \<open>Checksums whose step is a permutation in each argument\<close>

text \<open>
  What a table-driven checksum promises its clients: a changed byte is always visible in the
  sum. It needs no more than that one step is injective in the running sum and in the byte.
\<close>

locale checksum =
  fixes step :: "'c \<Rightarrow> 'b \<Rightarrow> 'c"
  assumes step_inj_sum: "step c b = step d b \<Longrightarrow> c = d"
    and step_inj_byte: "step c a = step c b \<Longrightarrow> a = b"
begin

lemma foldl_inj_sum: "foldl step c xs = foldl step d xs \<Longrightarrow> c = d"
  by (induction xs arbitrary: c d) (auto dest: step_inj_sum)

lemma single_byte_detected:
  assumes "i < length xs" and "foldl step c (xs[i := b]) = foldl step c xs"
  shows "b = xs ! i"
  using assms
proof (induction xs arbitrary: c i)
  case Nil
  then show ?case by simp
next
  case (Cons x xs)
  show ?case
  proof (cases i)
    case 0
    with Cons.prems have "foldl step (step c b) xs = foldl step (step c x) xs" by simp
    then have "step c b = step c x" by (rule foldl_inj_sum)
    with 0 show ?thesis by (auto dest: step_inj_byte)
  next
    case (Suc j)
    with Cons.prems Cons.IH [of j "step c x"] show ?thesis by simp
  qed
qed

end

section \<open>The bit-serial definition\<close>

definition crc8_bit :: "u8 \<Rightarrow> u8" where
  "crc8_bit c = (if bit c 0 then drop_bit 1 c XOR 0x8C else drop_bit 1 c)"

definition crc8_poly_step :: "u8 \<Rightarrow> u8 \<Rightarrow> u8" where
  "crc8_poly_step c b =
     crc8_bit (crc8_bit (crc8_bit (crc8_bit (crc8_bit (crc8_bit (crc8_bit (crc8_bit (c XOR b))))))))"

definition crc8_poly :: "u8 list \<Rightarrow> u8" where
  "crc8_poly bs = foldl crc8_poly_step 0 bs"

section \<open>The table is the bit-serial code\<close>

text \<open>All bytes in order, to check the table entry by entry.\<close>

lemma length_crc_array [simp]: "length crc_array = 256"
  by (simp add: crc_array_def)

definition bytes :: "u8 list" where
  "bytes = [0, 1, 2, 3, 4, 5, 6, 7, 8, 9, 10, 11, 12, 13, 14, 15, 16, 17, 18, 19, 20, 21, 22, 23, 24, 25, 26, 27, 28, 29, 30, 31, 32, 33, 34, 35, 36, 37, 38, 39, 40, 41, 42, 43, 44, 45, 46, 47, 48, 49, 50, 51, 52, 53, 54, 55, 56, 57, 58, 59, 60, 61, 62, 63, 64, 65, 66, 67, 68, 69, 70, 71, 72, 73, 74, 75, 76, 77, 78, 79, 80, 81, 82, 83, 84, 85, 86, 87, 88, 89, 90, 91, 92, 93, 94, 95, 96, 97, 98, 99, 100, 101, 102, 103, 104, 105, 106, 107, 108, 109, 110, 111, 112, 113, 114, 115, 116, 117, 118, 119, 120, 121, 122, 123, 124, 125, 126, 127, 128, 129, 130, 131, 132, 133, 134, 135, 136, 137, 138, 139, 140, 141, 142, 143, 144, 145, 146, 147, 148, 149, 150, 151, 152, 153, 154, 155, 156, 157, 158, 159, 160, 161, 162, 163, 164, 165, 166, 167, 168, 169, 170, 171, 172, 173, 174, 175, 176, 177, 178, 179, 180, 181, 182, 183, 184, 185, 186, 187, 188, 189, 190, 191, 192, 193, 194, 195, 196, 197, 198, 199, 200, 201, 202, 203, 204, 205, 206, 207, 208, 209, 210, 211, 212, 213, 214, 215, 216, 217, 218, 219, 220, 221, 222, 223, 224, 225, 226, 227, 228, 229, 230, 231, 232, 233, 234, 235, 236, 237, 238, 239, 240, 241, 242, 243, 244, 245, 246, 247, 248, 249, 250, 251, 252, 253, 254, 255]"

lemma bytes_eq: "bytes = map of_nat [0..<256]"
  by (simp add: bytes_def upt_conv_Cons)

lemma crc_array_poly_bytes: "map (crc8_poly_step 0) bytes = crc_array"
  by (simp add: crc8_poly_step_def crc8_bit_def crc_array_def bytes_def)

lemma crc_array_poly: "map (\<lambda>n. crc8_poly_step 0 (of_nat n)) [0..<256] = crc_array"
  using crc_array_poly_bytes by (simp add: bytes_eq comp_def)

lemma crc_array_nth: "n < 256 \<Longrightarrow> crc_array ! n = crc8_poly_step 0 (of_nat n)"
  by (simp flip: crc_array_poly)

lemma crc8_step_poly: "crc8_step c b = crc8_poly_step c b"
  by (simp add: crc8_step_def crc_array_nth crc8_poly_step_def)

lemma crc8_bit_xor: "crc8_bit (a XOR b) = crc8_bit a XOR crc8_bit b"
  by (simp add: crc8_bit_def bit_simps ac_simps)

lemma crc8_bit_eq_0: "crc8_bit a = 0 \<Longrightarrow> a = 0"
proof -
  assume *: "crc8_bit a = 0"
  have "bit (crc8_bit a) 7 = bit a 0"
    by (auto simp: crc8_bit_def bit_simps dest: bit_imp_le_length)
  with * have "\<not> bit a 0" by simp
  with * have "drop_bit 1 a = 0" by (simp add: crc8_bit_def)
  show "a = 0"
  proof (rule bit_eqI)
    fix n
    show "bit a n = bit (0 :: u8) n"
    proof (cases n)
      case 0
      with \<open>\<not> bit a 0\<close> show ?thesis by simp
    next
      case (Suc m)
      have "bit (drop_bit 1 a) m = bit a n" by (simp add: Suc bit_simps)
      with \<open>drop_bit 1 a = 0\<close> show ?thesis by simp
    qed
  qed
qed

lemma crc8_bit_inj: "crc8_bit a = crc8_bit b \<longleftrightarrow> a = b"
  using crc8_bit_eq_0 [of "a XOR b"] by (auto simp: crc8_bit_xor xor_eq_0_iff_eq)

interpretation crc8: checksum crc8_step
proof
  show "c = d" if "crc8_step c b = crc8_step d b" for c d b
  proof -
    from that have "c XOR b = d XOR b"
      by (simp add: crc8_step_poly crc8_poly_step_def crc8_bit_inj)
    then have "(c XOR b) XOR b = (d XOR b) XOR b" by simp
    then show ?thesis by (simp add: xor.assoc)
  qed
  show "a = b" if "crc8_step c a = crc8_step c b" for c a b
  proof -
    from that have "c XOR a = c XOR b"
      by (simp add: crc8_step_poly crc8_poly_step_def crc8_bit_inj)
    then have "c XOR (c XOR a) = c XOR (c XOR b)" by simp
    then show ?thesis by simp
  qed
qed

lemma crc8_step_self [simp]: "crc8_step c c = 0"
  by (simp add: crc8_step_poly crc8_poly_step_def crc8_bit_def)

lemma crc8_step_eq_0_iff: "crc8_step c b = 0 \<longleftrightarrow> b = c"
  using crc8.step_inj_byte [of c b c] by auto

lemma foldl_crc8_step: "foldl crc8_step 0 bs = crc8_poly bs"
proof -
  have "crc8_step = crc8_poly_step" by (intro ext) (rule crc8_step_poly)
  then show ?thesis by (simp add: crc8_poly_def)
qed

section \<open>What \<open>CRC8_Table\<close> computes\<close>

lemma CRC8_loop_eq:
  "CRC8_loop p n c = (if n \<le> length p then Inr (foldl crc8_step c (take n p)) else Inl Out_Of_Bounds)"
  by (induction p n c rule: CRC8_loop.induct) auto

lemma CRC8_Table_eq:
  "CRC8_Table p counter =
     (if unat counter \<le> length p then Inr (crc8_poly (take (unat counter) p)) else Inl Out_Of_Bounds)"
  by (simp add: CRC8_Table_def CRC8_loop_eq foldl_crc8_step)

lemma CRC8_Table_all: "length p < 256 \<Longrightarrow> CRC8_Table p (of_nat (length p)) = Inr (crc8_poly p)"
  by (simp add: CRC8_Table_eq unat_of_nat_u8)

lemma crc8_poly_snoc: "crc8_poly (bs @ [b]) = crc8_step (crc8_poly bs) b"
  by (simp add: crc8_poly_def crc8_step_poly)

lemma crc8_poly_update_neq:
  "i < length bs \<Longrightarrow> b \<noteq> bs ! i \<Longrightarrow> crc8_poly (bs[i := b]) \<noteq> crc8_poly bs"
  using crc8.single_byte_detected [of i bs 0 b] by (auto simp: foldl_crc8_step)

text \<open>
  C34. Within the buffer it is given, the table-driven \<open>CRC8_Table\<close> returns the remainder
  that the bit-serial definition with the reflected polynomial 0x8C gives for the first
  \<open>counter\<close> bytes; a \<open>counter\<close> larger than the buffer reads past its end.
\<close>

theorem CRC8_Table_is_polynomial_crc:
  "CRC8_Table p counter =
     (if length p < unat counter then Inl Out_Of_Bounds
      else Inr (crc8_poly (take (unat counter) p)))"
  by (simp add: CRC8_Table_eq)

text \<open>
  The frame check of the bus protocols: a frame of at most 255 bytes whose last byte is
  \<open>c\<close> has checksum 0 exactly when \<open>c\<close> is the checksum of the bytes before it.
\<close>

theorem CRC8_Table_frame_check:
  assumes "length bs < 255"
  shows "CRC8_Table (bs @ [c]) (of_nat (length bs + 1)) = Inr 0 \<longleftrightarrow>
         CRC8_Table bs (of_nat (length bs)) = Inr c"
proof -
  have "CRC8_Table (bs @ [c]) (of_nat (length (bs @ [c]))) = Inr (crc8_step (crc8_poly bs) c)"
    using assms by (subst CRC8_Table_all) (simp_all add: crc8_poly_snoc)
  moreover have "CRC8_Table bs (of_nat (length bs)) = Inr (crc8_poly bs)"
    using assms by (simp add: CRC8_Table_all)
  ultimately show ?thesis by (auto simp: crc8_step_eq_0_iff)
qed

lemma CRC8_Table_frame_check_witness:
  "length [0xF3, 0x05, 0x01 :: u8] < 255 \<and>
   CRC8_Table ([0xF3, 0x05, 0x01] @ [0xC8]) (of_nat (length [0xF3, 0x05, 0x01 :: u8] + 1)) = Inr 0"
proof -
  have h: "length [0xF3, 0x05, 0x01 :: u8] < 255" by simp
  have "CRC8_Table [0xF3, 0x05, 0x01] (of_nat (length [0xF3, 0x05, 0x01 :: u8])) = Inr 0xC8"
    by (simp add: CRC8_Table_all [of "[0xF3, 0x05, 0x01]", simplified] crc8_poly_def
        crc8_poly_step_def crc8_bit_def)
  with CRC8_Table_frame_check [OF h, of "0xC8"] h show ?thesis by blast
qed

text \<open>
  A frame in which one byte has been corrupted never passes the check: if exactly one of
  the bytes covered differs, \<open>CRC8_Table\<close> returns a different checksum.
\<close>

theorem CRC8_Table_detects_corrupted_byte:
  assumes "length bs < 256" and "i < length bs" and "b \<noteq> bs ! i"
  shows "CRC8_Table (bs[i := b]) (of_nat (length bs)) \<noteq> CRC8_Table bs (of_nat (length bs))"
  using assms CRC8_Table_all [of bs] CRC8_Table_all [of "bs[i := b]"]
  by (simp add: crc8_poly_update_neq)

lemma CRC8_Table_detects_corrupted_byte_witness:
  "CRC8_Table ([1, 2, 3][1 := 7]) (of_nat (length [1, 2, 3 :: u8])) \<noteq>
   CRC8_Table [1, 2, 3] (of_nat (length [1, 2, 3 :: u8]))"
  by (rule CRC8_Table_detects_corrupted_byte) simp_all

end
