(* ===== verification/Iic.thy ===== *)
theory Iic
  imports ACU_Prelude
begin

text \<open>
  The bit-banged I2C master of HARDWARE/BSP/bsp_myiic.c, at the level of the two pins. The
  state holds what the master drives (the output latches of PB6 and PB7 and the direction
  of PB7) and the device on the bus, which is a parameter: \<open>react\<close> is how the device moves
  when the levels of the lines change and \<open>drive\<close> whether it releases the data line. The
  delays between the edges are not modelled.
\<close>

section \<open>Pins and device\<close>

record 'd i2c_dev =
  react :: "bool \<Rightarrow> bool \<Rightarrow> 'd \<Rightarrow> 'd"   \<comment> \<open>levels of SCL and SDA\<close>
  drive :: "'d \<Rightarrow> bool"                \<comment> \<open>False: the device pulls SDA low\<close>

record 'd iic =
  IIC_SCL :: bool
  IIC_SDA :: bool      \<comment> \<open>output latch; selects the pull-up while PB7 is an input\<close>
  sda_out :: bool      \<comment> \<open>direction of PB7\<close>
  dev :: 'd

definition sda_line :: "'d i2c_dev \<Rightarrow> 'd iic \<Rightarrow> bool" where
  "sda_line D s = (if sda_out s then IIC_SDA s else IIC_SDA s \<and> drive D (dev s))"

definition settle :: "'d i2c_dev \<Rightarrow> 'd iic \<Rightarrow> 'd iic" where
  "settle D s = s\<lparr>dev := react D (IIC_SCL s) (sda_line D s) (dev s)\<rparr>"

definition set_SCL :: "'d i2c_dev \<Rightarrow> bool \<Rightarrow> 'd iic \<Rightarrow> 'd iic" where
  "set_SCL D b s = settle D (s\<lparr>IIC_SCL := b\<rparr>)"

definition set_SDA :: "'d i2c_dev \<Rightarrow> bool \<Rightarrow> 'd iic \<Rightarrow> 'd iic" where
  "set_SDA D b s = settle D (s\<lparr>IIC_SDA := b\<rparr>)"

definition SDA_IN :: "'d i2c_dev \<Rightarrow> 'd iic \<Rightarrow> 'd iic" where
  "SDA_IN D s = settle D (s\<lparr>sda_out := False\<rparr>)"

definition SDA_OUT :: "'d i2c_dev \<Rightarrow> 'd iic \<Rightarrow> 'd iic" where
  "SDA_OUT D s = settle D (s\<lparr>sda_out := True\<rparr>)"

section \<open>The code\<close>

definition IIC_Init :: "'d i2c_dev \<Rightarrow> 'd iic \<Rightarrow> 'd iic" where
  "IIC_Init D s = settle D (s\<lparr>IIC_SCL := True, IIC_SDA := True, sda_out := True\<rparr>)"

definition IIC_Start :: "'d i2c_dev \<Rightarrow> 'd iic \<Rightarrow> 'd iic" where
  "IIC_Start D s =
     set_SCL D False (set_SDA D False (set_SCL D True (set_SDA D True (SDA_OUT D s))))"

definition IIC_Stop :: "'d i2c_dev \<Rightarrow> 'd iic \<Rightarrow> 'd iic" where
  "IIC_Stop D s =
     set_SDA D True (set_SCL D True (set_SDA D False (set_SCL D False (SDA_OUT D s))))"

text \<open>The polling loop of \<open>IIC_Wait_Ack\<close>: the first argument counts the iterations left
  before \<open>ucErrTime\<close> exceeds 250. The line is sampled again in each of them; the device
  moves only on edges of the lines, so the sample is the same until the loop ends.\<close>

fun wait_ack_loop :: "nat \<Rightarrow> 'd i2c_dev \<Rightarrow> 'd iic \<Rightarrow> u8 \<times> 'd iic" where
  "wait_ack_loop 0 D s = (if sda_line D s then (1, IIC_Stop D s) else (0, set_SCL D False s))"
| "wait_ack_loop (Suc n) D s =
     (if sda_line D s then wait_ack_loop n D s else (0, set_SCL D False s))"

definition IIC_Wait_Ack :: "'d i2c_dev \<Rightarrow> 'd iic \<Rightarrow> u8 \<times> 'd iic" where
  "IIC_Wait_Ack D s = wait_ack_loop 250 D (set_SCL D True (set_SDA D True (SDA_IN D s)))"

definition IIC_Ack :: "'d i2c_dev \<Rightarrow> 'd iic \<Rightarrow> 'd iic" where
  "IIC_Ack D s =
     set_SCL D False (set_SCL D True (set_SDA D False (SDA_OUT D (set_SCL D False s))))"

definition IIC_NAck :: "'d i2c_dev \<Rightarrow> 'd iic \<Rightarrow> 'd iic" where
  "IIC_NAck D s =
     set_SCL D False (set_SCL D True (set_SDA D True (SDA_OUT D (set_SCL D False s))))"

fun send_loop :: "nat \<Rightarrow> 'd i2c_dev \<Rightarrow> u8 \<Rightarrow> 'd iic \<Rightarrow> 'd iic" where
  "send_loop 0 D txd s = s"
| "send_loop (Suc t) D txd s =
     (let s1 = set_SDA D (drop_bit 7 (txd AND 0x80) \<noteq> 0) s
      in send_loop t D (push_bit 1 txd) (set_SCL D False (set_SCL D True s1)))"

definition IIC_Send_Byte :: "'d i2c_dev \<Rightarrow> u8 \<Rightarrow> 'd iic \<Rightarrow> 'd iic" where
  "IIC_Send_Byte D txd s = send_loop 8 D txd (set_SCL D False (SDA_OUT D s))"

fun read_loop :: "nat \<Rightarrow> 'd i2c_dev \<Rightarrow> u8 \<Rightarrow> 'd iic \<Rightarrow> u8 \<times> 'd iic" where
  "read_loop 0 D receive s = (receive, s)"
| "read_loop (Suc i) D receive s =
     (let s1 = set_SCL D True (set_SCL D False s);
          receive1 = push_bit 1 receive
      in read_loop i D (if sda_line D s1 then receive1 + 1 else receive1) s1)"

definition IIC_Read_Byte :: "'d i2c_dev \<Rightarrow> u8 \<Rightarrow> 'd iic \<Rightarrow> u8 \<times> 'd iic" where
  "IIC_Read_Byte D ack s =
     (let (receive, s1) = read_loop 8 D 0 (SDA_IN D s)
      in (receive, if ack = 0 then IIC_NAck D s1 else IIC_Ack D s1))"

section \<open>The device: the wire protocol of the AT24C08\<close>

text \<open>
  What the data sheet of the memory says of its wire interface, as a transition system: a
  start condition begins a transfer, eight bits sampled at rising edges of SCL make a byte,
  the device acknowledges by pulling SDA low for the ninth clock; a write transfer is the
  device address 1010 A2 P1 P0 0 (A2 is wired low), the word address and data bytes, which
  are kept at the stop condition and within a 16-byte page; a read transfer shifts out the
  bytes from the word address on. The internal write cycle ends within the 10 ms the
  driver waits after each stop condition, so it is not a state here.
\<close>

datatype rx_kind = Rx_Dev | Rx_Addr nat | Rx_Data

datatype at_phase =
    At_Idle
  | At_Rx rx_kind "bool list"
  | At_Ack at_phase
  | At_Tx "bool list"
  | At_Tx_Ack "bool option"

record at24 =
  at_scl :: bool
  at_sda :: bool
  at_phase :: at_phase
  at_mem :: "u8 list"
  at_ptr :: nat
  at_buf :: "(nat \<times> u8) list"

definition at_received :: "rx_kind \<Rightarrow> u8 \<Rightarrow> at24 \<Rightarrow> at24" where
  "at_received k b c =
     (case k of
        Rx_Dev \<Rightarrow>
          if b AND 0xF8 \<noteq> 0xA0 then c\<lparr>at_phase := At_Idle\<rparr>
          else if bit b 0 then c\<lparr>at_phase := At_Ack (At_Tx (bits_of_byte (at_mem c ! at_ptr c)))\<rparr>
          else c\<lparr>at_phase := At_Ack (At_Rx (Rx_Addr (unat (drop_bit 1 b AND 3))) [])\<rparr>
      | Rx_Addr p \<Rightarrow>
          c\<lparr>at_ptr := p * 256 + unat b, at_buf := [], at_phase := At_Ack (At_Rx Rx_Data [])\<rparr>
      | Rx_Data \<Rightarrow>
          c\<lparr>at_buf := at_buf c @ [(at_ptr c, b)],
            at_ptr := at_ptr c div 16 * 16 + (at_ptr c + 1) mod 16,
            at_phase := At_Ack (At_Rx Rx_Data [])\<rparr>)"

definition at_rise :: "bool \<Rightarrow> at24 \<Rightarrow> at24" where
  "at_rise b c =
     (case at_phase c of
        At_Rx k bs \<Rightarrow> c\<lparr>at_phase := At_Rx k (bs @ [b])\<rparr>
      | At_Tx_Ack a \<Rightarrow> c\<lparr>at_phase := At_Tx_Ack (Some b)\<rparr>
      | _ \<Rightarrow> c)"

definition at_fall :: "at24 \<Rightarrow> at24" where
  "at_fall c =
     (case at_phase c of
        At_Rx k bs \<Rightarrow> if length bs = 8 then at_received k (byte_of_bits bs) c else c
      | At_Ack ph \<Rightarrow> c\<lparr>at_phase := ph\<rparr>
      | At_Tx (b # b' # bs) \<Rightarrow> c\<lparr>at_phase := At_Tx (b' # bs)\<rparr>
      | At_Tx _ \<Rightarrow> c\<lparr>at_phase := At_Tx_Ack None, at_ptr := (at_ptr c + 1) mod 1024\<rparr>
      | At_Tx_Ack (Some False) \<Rightarrow> c\<lparr>at_phase := At_Tx (bits_of_byte (at_mem c ! at_ptr c))\<rparr>
      | At_Tx_Ack _ \<Rightarrow> c\<lparr>at_phase := At_Idle\<rparr>
      | At_Idle \<Rightarrow> c)"

definition at_start :: "at24 \<Rightarrow> at24" where
  "at_start c = c\<lparr>at_phase := At_Rx Rx_Dev [], at_buf := []\<rparr>"

definition at_stop :: "at24 \<Rightarrow> at24" where
  "at_stop c =
     c\<lparr>at_phase := At_Idle, at_mem := foldl (\<lambda>m (a, d). m[a := d]) (at_mem c) (at_buf c), at_buf := []\<rparr>"

definition at24_react :: "bool \<Rightarrow> bool \<Rightarrow> at24 \<Rightarrow> at24" where
  "at24_react scl sda c =
     (let c' = (if at_scl c \<and> scl then
                  (if at_sda c \<and> \<not> sda then at_start c
                   else if \<not> at_sda c \<and> sda then at_stop c else c)
                else if \<not> at_scl c \<and> scl then at_rise sda c
                else if at_scl c \<and> \<not> scl then at_fall c
                else c)
      in c'\<lparr>at_scl := scl, at_sda := sda\<rparr>)"

definition at24_drive :: "at24 \<Rightarrow> bool" where
  "at24_drive c =
     (case at_phase c of At_Ack _ \<Rightarrow> False | At_Tx (b # _) \<Rightarrow> b | _ \<Rightarrow> True)"

definition at24_dev :: "at24 i2c_dev" where
  "at24_dev = \<lparr>react = at24_react, drive = at24_drive\<rparr>"

text \<open>A device is an AT24C08 when what the wires can see of it is a run of that system.\<close>

definition is_at24 :: "'d i2c_dev \<Rightarrow> ('d \<Rightarrow> at24) \<Rightarrow> bool" where
  "is_at24 D view \<longleftrightarrow>
     (\<forall>scl sda d. view (react D scl sda d) = at24_react scl sda (view d)) \<and>
     (\<forall>d. drive D d = at24_drive (view d))"

lemma is_at24_self: "is_at24 at24_dev (\<lambda>c. c)"
  by (simp add: is_at24_def at24_dev_def)

section \<open>Every device that is an AT24C08 can be replaced by the transition system\<close>

definition iic_view :: "('d \<Rightarrow> at24) \<Rightarrow> 'd iic \<Rightarrow> at24 iic" where
  "iic_view view s =
     \<lparr>IIC_SCL = IIC_SCL s, IIC_SDA = IIC_SDA s, sda_out = sda_out s, dev = view (dev s)\<rparr>"

lemma iic_view_settle:
  assumes "is_at24 D view"
  shows "iic_view view (settle D s) = settle at24_dev (iic_view view s)"
    and "sda_line D s = sda_line at24_dev (iic_view view s)"
  using assms by (simp_all add: iic_view_def settle_def sda_line_def is_at24_def at24_dev_def)

lemma iic_view_pins:
  assumes "is_at24 D view"
  shows "iic_view view (set_SCL D b s) = set_SCL at24_dev b (iic_view view s)"
    and "iic_view view (set_SDA D b s) = set_SDA at24_dev b (iic_view view s)"
    and "iic_view view (SDA_IN D s) = SDA_IN at24_dev (iic_view view s)"
    and "iic_view view (SDA_OUT D s) = SDA_OUT at24_dev (iic_view view s)"
  unfolding set_SCL_def set_SDA_def SDA_IN_def SDA_OUT_def iic_view_settle(1) [OF assms]
  by (simp_all add: iic_view_def)

lemma iic_view_ops:
  assumes "is_at24 D view"
  shows "iic_view view (IIC_Init D s) = IIC_Init at24_dev (iic_view view s)"
    and "iic_view view (IIC_Start D s) = IIC_Start at24_dev (iic_view view s)"
    and "iic_view view (IIC_Stop D s) = IIC_Stop at24_dev (iic_view view s)"
    and "iic_view view (IIC_Ack D s) = IIC_Ack at24_dev (iic_view view s)"
    and "iic_view view (IIC_NAck D s) = IIC_NAck at24_dev (iic_view view s)"
  unfolding IIC_Init_def IIC_Start_def IIC_Stop_def IIC_Ack_def IIC_NAck_def iic_view_pins [OF assms]
    iic_view_settle(1) [OF assms]
  by (simp_all add: iic_view_def)

lemma iic_view_send_loop:
  assumes "is_at24 D view"
  shows "iic_view view (send_loop n D txd s) = send_loop n at24_dev txd (iic_view view s)"
  by (induction n arbitrary: txd s) (simp_all add: iic_view_pins [OF assms] Let_def)

lemma iic_view_read_loop:
  assumes "is_at24 D view"
  shows "map_prod id (iic_view view) (read_loop n D r s) = read_loop n at24_dev r (iic_view view s)"
  by (induction n arbitrary: r s)
     (simp_all add: iic_view_pins [OF assms] iic_view_settle(2) [OF assms] Let_def)

lemma iic_view_wait_ack_loop:
  assumes "is_at24 D view"
  shows "map_prod id (iic_view view) (wait_ack_loop n D s) = wait_ack_loop n at24_dev (iic_view view s)"
  by (induction n arbitrary: s)
     (simp_all add: iic_view_pins [OF assms] iic_view_ops [OF assms] iic_view_settle(2) [OF assms])

lemma iic_view_bytes:
  assumes "is_at24 D view"
  shows "iic_view view (IIC_Send_Byte D b s) = IIC_Send_Byte at24_dev b (iic_view view s)"
    and "map_prod id (iic_view view) (IIC_Wait_Ack D s) = IIC_Wait_Ack at24_dev (iic_view view s)"
    and "map_prod id (iic_view view) (IIC_Read_Byte D a s) = IIC_Read_Byte at24_dev a (iic_view view s)"
proof -
  show "iic_view view (IIC_Send_Byte D b s) = IIC_Send_Byte at24_dev b (iic_view view s)"
    by (simp add: IIC_Send_Byte_def iic_view_send_loop [OF assms] iic_view_pins [OF assms])
  show "map_prod id (iic_view view) (IIC_Wait_Ack D s) = IIC_Wait_Ack at24_dev (iic_view view s)"
    by (simp add: IIC_Wait_Ack_def iic_view_wait_ack_loop [OF assms] iic_view_pins [OF assms])
  show "map_prod id (iic_view view) (IIC_Read_Byte D a s) = IIC_Read_Byte at24_dev a (iic_view view s)"
    using iic_view_read_loop [OF assms, of 8 0 "SDA_IN D s", symmetric]
    by (simp add: IIC_Read_Byte_def iic_view_pins [OF assms] iic_view_ops [OF assms]
        split: prod.split)
qed

section \<open>One byte on the wire\<close>

lemma at_received_sel [simp]:
  "at_scl (at_received k b c) = at_scl c" "at_sda (at_received k b c) = at_sda c"
  by (simp_all add: at_received_def split: rx_kind.split)

lemma at_received_update [simp]:
  "at_received k b (c\<lparr>at_scl := x\<rparr>) = (at_received k b c)\<lparr>at_scl := x\<rparr>"
  "at_received k b (c\<lparr>at_sda := x\<rparr>) = (at_received k b c)\<lparr>at_sda := x\<rparr>"
  "at_received k b (c\<lparr>at_phase := ph\<rparr>) = at_received k b c"
  by (simp_all add: at_received_def split: rx_kind.split)

text \<open>Between the clocks SCL is low for the master and for the device.\<close>

definition clock_low :: "at24 iic \<Rightarrow> bool" where
  "clock_low s \<longleftrightarrow> \<not> IIC_SCL s \<and> \<not> at_scl (dev s)"

lemmas pin_defs = set_SCL_def set_SDA_def SDA_IN_def SDA_OUT_def settle_def sda_line_def
  at24_dev_def at24_react_def Let_def

lemma send_clock:
  assumes "clock_low s" and "sda_out s" and "at_phase (dev s) = At_Rx k bs"
  shows "set_SCL at24_dev False (set_SCL at24_dev True (set_SDA at24_dev b s)) =
     s\<lparr>IIC_SDA := b,
       dev := (if length bs = 7 then at_received k (byte_of_bits (bs @ [b])) (dev s)
               else dev s\<lparr>at_phase := At_Rx k (bs @ [b])\<rparr>)\<lparr>at_scl := False, at_sda := b\<rparr>\<rparr>"
  using assms
  by (cases s) (auto simp: pin_defs clock_low_def at_rise_def at_fall_def)

lemma send_loop_chip:
  "clock_low s \<Longrightarrow> sda_out s \<Longrightarrow> at_phase (dev s) = At_Rx k bs \<Longrightarrow> length bs + Suc n = 8 \<Longrightarrow>
   send_loop (Suc n) at24_dev txd s =
     s\<lparr>IIC_SDA := bit txd (7 - n),
       dev := (at_received k (byte_of_bits (bs @ map (\<lambda>t. bit txd (7 - t)) [0..<Suc n])) (dev s))
         \<lparr>at_scl := False, at_sda := bit txd (7 - n)\<rparr>\<rparr>"
proof (induction n arbitrary: s bs txd)
  case 0
  then show ?case by (simp only: send_loop.simps send_bit_eq Let_def send_clock) simp
next
  case (Suc n)
  let ?s = "s\<lparr>IIC_SDA := bit txd 7,
    dev := (dev s)\<lparr>at_phase := At_Rx k (bs @ [bit txd 7]), at_scl := False, at_sda := bit txd 7\<rparr>\<rparr>"
  have clk: "set_SCL at24_dev False (set_SCL at24_dev True (set_SDA at24_dev (bit txd 7) s)) = ?s"
    using Suc.prems by (simp add: send_clock)
  have "send_loop (Suc (Suc n)) at24_dev txd s = send_loop (Suc n) at24_dev (push_bit 1 txd) ?s"
    by (simp only: send_loop.simps(2) [of "Suc n"] send_bit_eq Let_def clk)
  also have "\<dots> = ?s\<lparr>IIC_SDA := bit (push_bit 1 txd) (7 - n),
       dev := (at_received k (byte_of_bits ((bs @ [bit txd 7]) @
           map (\<lambda>t. bit (push_bit 1 txd) (7 - t)) [0..<Suc n])) (dev ?s))
         \<lparr>at_scl := False, at_sda := bit (push_bit 1 txd) (7 - n)\<rparr>\<rparr>"
    using Suc.prems by (intro Suc.IH) (simp_all add: clock_low_def)
  also have "map (\<lambda>t. bit (push_bit 1 txd) (7 - t)) [0..<Suc n] =
      map (\<lambda>t. bit txd (7 - Suc t)) [0..<Suc n]"
    using Suc.prems by (intro map_cong refl) (subst bit_push1; auto)
  also have "(bs @ [bit txd 7]) @ map (\<lambda>t. bit txd (7 - Suc t)) [0..<Suc n] =
      bs @ map (\<lambda>t. bit txd (7 - t)) [0..<Suc (Suc n)]"
    by (simp add: upt_conv_Cons map_Suc_upt [symmetric] comp_def del: upt_Suc map_Suc_upt)
  also have "bit (push_bit 1 txd) (7 - n) = bit txd (7 - Suc n)"
    using Suc.prems by (subst bit_push1; auto)
  finally show ?case by simp
qed

lemma send_byte_chip:
  assumes "clock_low s" and "at_phase (dev s) = At_Rx k []"
  shows "IIC_Send_Byte at24_dev b s =
     s\<lparr>sda_out := True, IIC_SDA := bit b 0,
       dev := (at_received k b (dev s))\<lparr>at_scl := False, at_sda := bit b 0\<rparr>\<rparr>"
proof -
  define s0 where "s0 = s\<lparr>sda_out := True, dev := dev s\<lparr>at_sda := IIC_SDA s\<rparr>\<rparr>"
  have s0: "set_SCL at24_dev False (SDA_OUT at24_dev s) = s0"
    using assms by (cases s) (auto simp: s0_def pin_defs clock_low_def)
  have low: "clock_low s0" "sda_out s0" "at_phase (dev s0) = At_Rx k []"
    using assms by (simp_all add: s0_def clock_low_def)
  have bits: "map (\<lambda>t. bit b (7 - t)) [0..<8] = bits_of_byte b"
    by (simp add: bits_of_byte_def upt_conv_Cons)
  have "send_loop (Suc 7) at24_dev b s0 =
     s0\<lparr>IIC_SDA := bit b 0,
       dev := (at_received k (byte_of_bits (bits_of_byte b)) (dev s0))
         \<lparr>at_scl := False, at_sda := bit b 0\<rparr>\<rparr>"
    using send_loop_chip [OF low, of 7 b] by (simp add: bits del: upt_Suc send_loop.simps)
  with s0 show ?thesis
    using assms by (simp add: IIC_Send_Byte_def byte_of_bits_of_byte s0_def del: send_loop.simps)
qed

lemma wait_ack_chip:
  assumes "clock_low s" and "at_phase (dev s) = At_Ack ph"
  shows "IIC_Wait_Ack at24_dev s =
     (0, s\<lparr>sda_out := False, IIC_SDA := True,
           dev := dev s\<lparr>at_phase := ph, at_scl := False, at_sda := False\<rparr>\<rparr>)"
  using assms
  by (cases s) (auto simp: IIC_Wait_Ack_def pin_defs clock_low_def at24_drive_def at_rise_def
      at_fall_def eval_nat_numeral)

lemma start_chip:
  assumes "clock_low s" and "case at_phase (dev s) of At_Rx k bs \<Rightarrow> length bs < 7 | _ \<Rightarrow> True"
  shows "IIC_Start at24_dev s =
     s\<lparr>IIC_SCL := False, IIC_SDA := False, sda_out := True,
       dev := dev s\<lparr>at_phase := At_Rx Rx_Dev [], at_buf := [], at_scl := False, at_sda := False\<rparr>\<rparr>"
  using assms
  by (cases s; cases "at_phase (dev s)")
     (simp_all add: IIC_Start_def pin_defs clock_low_def at_start_def at_rise_def at_fall_def)

lemma start_idle_chip:
  assumes "IIC_SCL s" "IIC_SDA s" "sda_out s" "at_scl (dev s)" "at_sda (dev s)"
  shows "IIC_Start at24_dev s =
     s\<lparr>IIC_SCL := False, IIC_SDA := False, sda_out := True,
       dev := dev s\<lparr>at_phase := At_Rx Rx_Dev [], at_buf := [], at_scl := False, at_sda := False\<rparr>\<rparr>"
  using assms
  by (cases s) (simp add: IIC_Start_def pin_defs at_start_def at_rise_def at_fall_def)

lemma stop_chip:
  assumes "clock_low s" and "case at_phase (dev s) of At_Rx k bs \<Rightarrow> length bs < 7 | _ \<Rightarrow> True"
  shows "IIC_Stop at24_dev s =
     s\<lparr>IIC_SCL := True, IIC_SDA := True, sda_out := True,
       dev := (at_stop (dev s))\<lparr>at_scl := True, at_sda := True\<rparr>\<rparr>"
  using assms
  by (cases s; cases "at_phase (dev s)")
     (simp_all add: IIC_Stop_def pin_defs clock_low_def at_stop_def at_rise_def at_fall_def)

lemma read_clock:
  assumes "clock_low s \<and> bs = b # bs' \<or> IIC_SCL s \<and> at_scl (dev s) \<and> bs = b0 # b # bs'"
    and "\<not> sda_out s" and "IIC_SDA s" and "at_phase (dev s) = At_Tx bs"
  shows "set_SCL at24_dev True (set_SCL at24_dev False s) =
     s\<lparr>IIC_SCL := True, dev := dev s\<lparr>at_phase := At_Tx (b # bs'), at_scl := True, at_sda := b\<rparr>\<rparr>"
    and "sda_line at24_dev
      (s\<lparr>IIC_SCL := True, dev := dev s\<lparr>at_phase := At_Tx (b # bs'), at_scl := True, at_sda := b\<rparr>\<rparr>) = b"
  using assms
  by (cases s; auto simp: pin_defs clock_low_def at_rise_def at_fall_def at24_drive_def)+

lemma read_loop_rest:
  "IIC_SCL s \<Longrightarrow> at_scl (dev s) \<Longrightarrow> \<not> sda_out s \<Longrightarrow> IIC_SDA s \<Longrightarrow>
   at_phase (dev s) = At_Tx (b0 # bs) \<Longrightarrow>
   read_loop (length bs) at24_dev r s =
     (foldl (\<lambda>a b. 2 * a + of_bool b) r bs,
      s\<lparr>dev := dev s\<lparr>at_phase := At_Tx [last (b0 # bs)],
        at_sda := (if bs = [] then at_sda (dev s) else last bs)\<rparr>\<rparr>)"
proof (induction bs arbitrary: s r b0)
  case Nil
  then show ?case by simp
next
  case (Cons b bs)
  let ?s = "s\<lparr>IIC_SCL := True, dev := dev s\<lparr>at_phase := At_Tx (b # bs), at_scl := True, at_sda := b\<rparr>\<rparr>"
  have ready: "clock_low s \<and> b0 # b # bs = b # bs \<or>
      IIC_SCL s \<and> at_scl (dev s) \<and> b0 # b # bs = b0 # b # bs"
    using Cons.prems by simp
  note clk = read_clock [OF ready Cons.prems(3-5)]
  have "read_loop (length (b # bs)) at24_dev r s =
      read_loop (length bs) at24_dev (2 * r + of_bool b) ?s"
    by (simp only: list.size add_0_right add_Suc_right read_loop.simps clk Let_def)
       (simp add: push_bit_eq_mult mult.commute)
  with Cons show ?case by simp
qed

lemma nack_chip:
  assumes "IIC_SCL s" "at_scl (dev s)" "\<not> sda_out s" "IIC_SDA s" "at_phase (dev s) = At_Tx [b]"
  shows "IIC_NAck at24_dev s =
     s\<lparr>IIC_SCL := False, IIC_SDA := True, sda_out := True,
       dev := dev s\<lparr>at_phase := At_Idle, at_ptr := (at_ptr (dev s) + 1) mod 1024,
         at_scl := False, at_sda := True\<rparr>\<rparr>"
  using assms
  by (cases s) (simp add: IIC_NAck_def pin_defs at_rise_def at_fall_def at24_drive_def)

lemma read_byte_chip:
  assumes "clock_low s" and "IIC_SDA s" and "at_phase (dev s) = At_Tx (bits_of_byte v)"
  shows "IIC_Read_Byte at24_dev 0 s =
     (v, s\<lparr>IIC_SCL := False, IIC_SDA := True, sda_out := True,
        dev := dev s\<lparr>at_phase := At_Idle, at_ptr := (at_ptr (dev s) + 1) mod 1024,
          at_scl := False, at_sda := True\<rparr>\<rparr>)"
proof -
  obtain b bs where bits: "bits_of_byte v = b # bs" and len: "length bs = 7"
    by (simp add: bits_of_byte_def)
  define s0 where "s0 = SDA_IN at24_dev s"
  have s0: "clock_low s0" "\<not> sda_out s0" "IIC_SDA s0" "at_phase (dev s0) = At_Tx (b # bs)"
    "s0 = s\<lparr>sda_out := False, dev := dev s\<lparr>at_sda := b\<rparr>\<rparr>"
    using assms bits
    by (cases s; auto simp: s0_def pin_defs clock_low_def at24_drive_def)+
  let ?s = "s0\<lparr>IIC_SCL := True, dev := dev s0\<lparr>at_phase := At_Tx (b # bs), at_scl := True, at_sda := b\<rparr>\<rparr>"
  have ready: "clock_low s0 \<and> b # bs = b # bs \<or>
      IIC_SCL s0 \<and> at_scl (dev s0) \<and> b # bs = b # b # bs"
    using s0(1) by simp
  note clk = read_clock [OF ready s0(2-4)]
  have "read_loop 8 at24_dev 0 s0 = read_loop (Suc (length bs)) at24_dev 0 s0"
    by (simp add: len)
  also have "\<dots> = read_loop (length bs) at24_dev (of_bool b) ?s"
    by (simp only: read_loop.simps clk Let_def) simp
  also have "\<dots> = (v, ?s\<lparr>dev := dev ?s\<lparr>at_phase := At_Tx [last bs], at_sda := last bs\<rparr>\<rparr>)"
    using s0 len byte_of_bits_of_byte [of v]
    by (subst read_loop_rest) (auto simp: byte_of_bits_def bits)
  finally have loop: "read_loop 8 at24_dev 0 s0 =
    (v, ?s\<lparr>dev := dev ?s\<lparr>at_phase := At_Tx [last bs], at_sda := last bs\<rparr>\<rparr>)" .
  have "IIC_Read_Byte at24_dev 0 s =
    (v, IIC_NAck at24_dev (?s\<lparr>dev := dev ?s\<lparr>at_phase := At_Tx [last bs], at_sda := last bs\<rparr>\<rparr>))"
    unfolding IIC_Read_Byte_def s0_def [symmetric] loop by simp
  then show ?thesis
    using s0(2,3) by (subst (asm) nack_chip [where b = "last bs"]) (simp_all add: s0(5))
qed

end
