(* ===== verification/Eeprom.thy ===== *)
theory Eeprom
  imports Iic
begin

text \<open>
  The byte driver of the AT24C08 configuration memory, HARDWARE/BSP/bsp_24cxx.c, on top of
  the I2C master, and the interface its clients rely on: a store of 1024 bytes.
\<close>

section \<open>The code\<close>

definition AT24C16 :: nat where "AT24C16 = 2047"
definition EE_TYPE :: nat where "EE_TYPE = 1023"

definition AT24CXX_Init :: "'d i2c_dev \<Rightarrow> 'd iic \<Rightarrow> 'd iic" where
  "AT24CXX_Init D s = IIC_Init D s"

definition AT24CXX_ReadOneByte :: "'d i2c_dev \<Rightarrow> u16 \<Rightarrow> 'd iic \<Rightarrow> u8 \<times> 'd iic" where
  "AT24CXX_ReadOneByte D ReadAddr s0 =
     (let s1 = IIC_Start D s0;
          s2 = (if EE_TYPE > AT24C16 then
                  snd (IIC_Wait_Ack D (IIC_Send_Byte D (ucast (drop_bit 8 ReadAddr))
                    (snd (IIC_Wait_Ack D (IIC_Send_Byte D 0xA0 s1)))))
                else IIC_Send_Byte D (of_nat (0xA0 + unat ReadAddr div 256 * 2)) s1);
          s3 = snd (IIC_Wait_Ack D s2);
          s4 = snd (IIC_Wait_Ack D (IIC_Send_Byte D (of_nat (unat ReadAddr mod 256)) s3));
          s5 = snd (IIC_Wait_Ack D (IIC_Send_Byte D 0xA1 (IIC_Start D s4)));
          (temp, s6) = IIC_Read_Byte D 0 s5
      in (temp, IIC_Stop D s6))"

definition AT24CXX_WriteOneByte :: "'d i2c_dev \<Rightarrow> u16 \<Rightarrow> u8 \<Rightarrow> 'd iic \<Rightarrow> 'd iic" where
  "AT24CXX_WriteOneByte D WriteAddr DataToWrite s0 =
     (let s1 = IIC_Start D s0;
          s2 = (if EE_TYPE > AT24C16 then
                  IIC_Send_Byte D (ucast (drop_bit 8 WriteAddr))
                    (snd (IIC_Wait_Ack D (IIC_Send_Byte D 0xA0 s1)))
                else IIC_Send_Byte D (of_nat (0xA0 + unat WriteAddr div 256 * 2)) s1);
          s3 = snd (IIC_Wait_Ack D s2);
          s4 = snd (IIC_Wait_Ack D (IIC_Send_Byte D (of_nat (unat WriteAddr mod 256)) s3));
          s5 = snd (IIC_Wait_Ack D (IIC_Send_Byte D DataToWrite s4))
      in IIC_Stop D s5)"

text \<open>The loops over consecutive addresses, on the byte operation they call.\<close>

fun rd_seq :: "(u16 \<Rightarrow> 's \<Rightarrow> u8 \<times> 's) \<Rightarrow> u16 \<Rightarrow> nat \<Rightarrow> 's \<Rightarrow> u8 list \<times> 's" where
  "rd_seq rd ReadAddr 0 s = ([], s)"
| "rd_seq rd ReadAddr (Suc NumToRead) s =
     (let (b, s1) = rd ReadAddr s; (bs, s2) = rd_seq rd (ReadAddr + 1) NumToRead s1 in (b # bs, s2))"

fun wr_seq :: "(u16 \<Rightarrow> u8 \<Rightarrow> 's \<Rightarrow> 's) \<Rightarrow> u16 \<Rightarrow> u8 list \<Rightarrow> 's \<Rightarrow> 's" where
  "wr_seq wr WriteAddr [] s = s"
| "wr_seq wr WriteAddr (b # pBuffer) s = wr_seq wr (WriteAddr + 1) pBuffer (wr WriteAddr b s)"

definition AT24CXX_Read :: "'d i2c_dev \<Rightarrow> u16 \<Rightarrow> u16 \<Rightarrow> 'd iic \<Rightarrow> u8 list \<times> 'd iic" where
  "AT24CXX_Read D ReadAddr NumToRead s =
     rd_seq (AT24CXX_ReadOneByte D) ReadAddr (unat NumToRead) s"

text \<open>\<open>pBuffer\<close> is the buffer from the pointer on.\<close>

definition AT24CXX_Write ::
  "'d i2c_dev \<Rightarrow> u16 \<Rightarrow> u8 list \<Rightarrow> u16 \<Rightarrow> 'd iic \<Rightarrow> fault + 'd iic" where
  "AT24CXX_Write D WriteAddr pBuffer NumToWrite s =
     (if length pBuffer < unat NumToWrite then Inl Out_Of_Bounds
      else Inr (wr_seq (AT24CXX_WriteOneByte D) WriteAddr (take (unat NumToWrite) pBuffer) s))"

fun write_len_loop :: "(u16 \<Rightarrow> u8 \<Rightarrow> 's \<Rightarrow> 's) \<Rightarrow> u16 \<Rightarrow> u32 \<Rightarrow> nat \<Rightarrow> nat \<Rightarrow> 's \<Rightarrow> 's" where
  "write_len_loop wr WriteAddr DataToWrite t 0 s = s"
| "write_len_loop wr WriteAddr DataToWrite t (Suc n) s =
     write_len_loop wr WriteAddr DataToWrite (Suc t) n
       (wr (WriteAddr + of_nat t) (ucast (drop_bit (8 * t) DataToWrite AND 0xFF)) s)"

definition AT24CXX_WriteLenByte :: "'d i2c_dev \<Rightarrow> u16 \<Rightarrow> u32 \<Rightarrow> u8 \<Rightarrow> 'd iic \<Rightarrow> 'd iic" where
  "AT24CXX_WriteLenByte D WriteAddr DataToWrite Len s =
     write_len_loop (AT24CXX_WriteOneByte D) WriteAddr DataToWrite 0 (unat Len) s"

fun read_len_loop :: "(u16 \<Rightarrow> 's \<Rightarrow> u8 \<times> 's) \<Rightarrow> u16 \<Rightarrow> nat \<Rightarrow> u32 \<Rightarrow> 's \<Rightarrow> u32 \<times> 's" where
  "read_len_loop rd ReadAddr 0 temp s = (temp, s)"
| "read_len_loop rd ReadAddr (Suc n) temp s =
     (let (b, s1) = rd (ReadAddr + of_nat n) s
      in read_len_loop rd ReadAddr n (push_bit 8 temp + ucast b) s1)"

text \<open>\<open>ReadAddr+Len-t-1\<close> runs from \<open>ReadAddr+Len-1\<close> down to \<open>ReadAddr\<close>.\<close>

definition AT24CXX_ReadLenByte :: "'d i2c_dev \<Rightarrow> u16 \<Rightarrow> u8 \<Rightarrow> 'd iic \<Rightarrow> u32 \<times> 'd iic" where
  "AT24CXX_ReadLenByte D ReadAddr Len s =
     read_len_loop (AT24CXX_ReadOneByte D) ReadAddr (unat Len) 0 s"

definition Delete_allDat :: "'d i2c_dev \<Rightarrow> 'd iic \<Rightarrow> 'd iic" where
  "Delete_allDat D s = wr_seq (AT24CXX_WriteOneByte D) 0 (replicate (EE_TYPE + 1) 0) s"

section \<open>One byte through the bus\<close>

definition bus_idle :: "at24 iic \<Rightarrow> bool" where
  "bus_idle s \<longleftrightarrow> IIC_SCL s \<and> IIC_SDA s \<and> sda_out s \<and> at_scl (dev s) \<and> at_sda (dev s) \<and>
     at_phase (dev s) = At_Idle \<and> at_buf (dev s) = [] \<and>
     length (at_mem (dev s)) = 1024"

lemma device_address:
  assumes "p < 4"
  shows "(of_nat (160 + p * 2) :: u8) AND 0xF8 = 0xA0" "\<not> bit (of_nat (160 + p * 2) :: u8) 0"
    "unat (drop_bit 1 (of_nat (160 + p * 2) :: u8) AND 3) = p"
proof -
  from assms have "p = 0 \<or> p = 1 \<or> p = 2 \<or> p = 3" by auto
  then show "(of_nat (160 + p * 2) :: u8) AND 0xF8 = 0xA0" "\<not> bit (of_nat (160 + p * 2) :: u8) 0"
    "unat (drop_bit 1 (of_nat (160 + p * 2) :: u8) AND 3) = p"
    by (elim disjE; simp)+
qed

text \<open>The common header of both transfers leaves the device waiting for data at \<open>a\<close>.\<close>

definition word_addressed :: "nat \<Rightarrow> at24 iic \<Rightarrow> at24 iic \<Rightarrow> bool" where
  "word_addressed a s s' \<longleftrightarrow> clock_low s' \<and> at_phase (dev s') = At_Rx Rx_Data [] \<and>
     at_ptr (dev s') = a \<and> at_buf (dev s') = [] \<and> at_mem (dev s') = at_mem (dev s)"

lemma header_chip:
  assumes "bus_idle s" and "unat a < 1024"
  shows "word_addressed (unat a) s
    (snd (IIC_Wait_Ack at24_dev (IIC_Send_Byte at24_dev (of_nat (unat a mod 256))
      (snd (IIC_Wait_Ack at24_dev (IIC_Send_Byte at24_dev (of_nat (160 + unat a div 256 * 2))
        (IIC_Start at24_dev s)))))))"
proof -
  have p: "unat a div 256 < 4" using assms(2) by simp
  have b: "unat (of_nat (unat a mod 256) :: u8) = unat a mod 256"
    by (rule unat_of_nat_u8) simp
  define d where "d = (of_nat (160 + unat a div 256 * 2) :: u8)"
  define l where "l = (of_nat (unat a mod 256) :: u8)"
  note addr = device_address [OF p, folded d_def]
  show ?thesis
    using assms(1) addr b unfolding d_def [symmetric] l_def [symmetric]
    by (simp add: bus_idle_def start_idle_chip send_byte_chip wait_ack_chip clock_low_def
        at_received_def word_addressed_def)
qed

lemma write_tail:
  assumes "word_addressed a s s4" and "bus_idle s" and "a < 1024"
  shows "bus_idle (IIC_Stop at24_dev (snd (IIC_Wait_Ack at24_dev (IIC_Send_Byte at24_dev v s4)))) \<and>
     at_mem (dev (IIC_Stop at24_dev (snd (IIC_Wait_Ack at24_dev (IIC_Send_Byte at24_dev v s4))))) =
       (at_mem (dev s))[a := v]"
  using assms(1,2)
  by (simp add: word_addressed_def send_byte_chip wait_ack_chip stop_chip clock_low_def
      at_received_def at_stop_def bus_idle_def)

lemma read_tail:
  assumes "word_addressed a s s4" and "bus_idle s" and "a < 1024"
  shows "\<exists>s6. IIC_Read_Byte at24_dev 0
       (snd (IIC_Wait_Ack at24_dev (IIC_Send_Byte at24_dev 0xA1 (IIC_Start at24_dev s4)))) =
       (at_mem (dev s) ! a, s6) \<and> bus_idle (IIC_Stop at24_dev s6) \<and>
     at_mem (dev (IIC_Stop at24_dev s6)) = at_mem (dev s)"
  using assms
  by (simp add: word_addressed_def start_chip send_byte_chip wait_ack_chip read_byte_chip
      stop_chip clock_low_def at_received_def at_stop_def bus_idle_def)

lemma write_chip:
  assumes "bus_idle s" and "unat a < 1024"
  shows "bus_idle (AT24CXX_WriteOneByte at24_dev a v s) \<and>
     at_mem (dev (AT24CXX_WriteOneByte at24_dev a v s)) = (at_mem (dev s))[unat a := v]"
  using write_tail [OF header_chip [OF assms] assms, of v]
  by (simp only: AT24CXX_WriteOneByte_def EE_TYPE_def AT24C16_def Let_def) simp

lemma read_chip:
  assumes "bus_idle s" and "unat a < 1024"
  shows "\<exists>s'. AT24CXX_ReadOneByte at24_dev a s = (at_mem (dev s) ! unat a, s') \<and>
     bus_idle s' \<and> at_mem (dev s') = at_mem (dev s)"
  using read_tail [OF header_chip [OF assms] assms]
  by (simp only: AT24CXX_ReadOneByte_def EE_TYPE_def AT24C16_def Let_def) auto

section \<open>The same for every AT24C08\<close>

lemma iic_view_wait:
  "is_at24 D view \<Longrightarrow> iic_view view (snd (IIC_Wait_Ack D s)) = snd (IIC_Wait_Ack at24_dev (iic_view view s))"
  by (simp flip: iic_view_bytes(2))

lemma iic_view_rb:
  assumes "is_at24 D view"
  shows "iic_view view (snd (IIC_Read_Byte D a s)) = snd (IIC_Read_Byte at24_dev a (iic_view view s))"
    and "fst (IIC_Read_Byte D a s) = fst (IIC_Read_Byte at24_dev a (iic_view view s))"
  by (simp_all flip: iic_view_bytes(3) [OF assms])

lemma iic_view_write:
  assumes "is_at24 D view"
  shows "iic_view view (AT24CXX_WriteOneByte D a v s) = AT24CXX_WriteOneByte at24_dev a v (iic_view view s)"
  by (simp add: AT24CXX_WriteOneByte_def Let_def iic_view_wait [OF assms] iic_view_ops [OF assms]
      iic_view_bytes(1) [OF assms])

lemma iic_view_read:
  assumes "is_at24 D view"
  shows "map_prod id (iic_view view) (AT24CXX_ReadOneByte D a s) =
     AT24CXX_ReadOneByte at24_dev a (iic_view view s)"
  by (simp add: AT24CXX_ReadOneByte_def Let_def iic_view_wait [OF assms] iic_view_ops [OF assms]
      iic_view_bytes(1) [OF assms] iic_view_rb [OF assms] split_beta map_prod_def)

definition ee_ok :: "'d i2c_dev \<Rightarrow> ('d \<Rightarrow> at24) \<Rightarrow> 'd iic \<Rightarrow> bool" where
  "ee_ok D view s \<longleftrightarrow> is_at24 D view \<and> bus_idle (iic_view view s)"

definition cells :: "('d \<Rightarrow> at24) \<Rightarrow> 'd iic \<Rightarrow> u8 list" where
  "cells view s = at_mem (view (dev s))"

lemma cells_view: "cells view s = at_mem (dev (iic_view view s))"
  by (simp add: cells_def iic_view_def)

section \<open>The interface: a store of bytes\<close>

text \<open>What the clients of the memory rely on: reading an address below 1024 returns its byte
  and changes nothing, writing one changes that byte only.\<close>

locale byte_store =
  fixes ok :: "'s \<Rightarrow> bool"
    and contents :: "'s \<Rightarrow> u8 list"
    and rd :: "u16 \<Rightarrow> 's \<Rightarrow> u8 \<times> 's"
    and wr :: "u16 \<Rightarrow> u8 \<Rightarrow> 's \<Rightarrow> 's"
  assumes contents_length: "ok s \<Longrightarrow> length (contents s) = 1024"
    and rd_law: "ok s \<Longrightarrow> unat a < 1024 \<Longrightarrow>
      \<exists>s'. rd a s = (contents s ! unat a, s') \<and> ok s' \<and> contents s' = contents s"
    and wr_law: "ok s \<Longrightarrow> unat a < 1024 \<Longrightarrow>
      ok (wr a v s) \<and> contents (wr a v s) = (contents s)[unat a := v]"
begin

lemma rd_seq_law:
  "ok s \<Longrightarrow> unat a + n \<le> 1024 \<Longrightarrow>
   \<exists>s'. rd_seq rd a n s = (take n (drop (unat a) (contents s)), s') \<and> ok s' \<and> contents s' = contents s"
proof (induction n arbitrary: a s)
  case 0
  then show ?case by simp
next
  case (Suc n)
  then have a: "unat a < 1024" by simp
  with Suc.prems(1) obtain s1 where s1: "rd a s = (contents s ! unat a, s1)" "ok s1"
    "contents s1 = contents s" using rd_law by blast
  have "a < 1024" using a by (simp add: word_less_nat_alt)
  then have a1: "unat (a + 1) = Suc (unat a)" by (rule unat_Suc_less)
  with Suc.prems(2) Suc.IH [OF s1(2), of "a + 1"] obtain s2 where
    "rd_seq rd (a + 1) n s1 = (take n (drop (Suc (unat a)) (contents s)), s2)" "ok s2"
    "contents s2 = contents s" using s1(3) by auto
  moreover have "take (Suc n) (drop (unat a) (contents s)) =
      contents s ! unat a # take n (drop (Suc (unat a)) (contents s))"
    using a contents_length [OF Suc.prems(1)] by (simp add: Cons_nth_drop_Suc [symmetric])
  ultimately show ?case using s1(1) by simp
qed

lemma wr_seq_law:
  "ok s \<Longrightarrow> unat a + length bs \<le> 1024 \<Longrightarrow>
   ok (wr_seq wr a bs s) \<and>
   contents (wr_seq wr a bs s) =
     take (unat a) (contents s) @ bs @ drop (unat a + length bs) (contents s)"
proof (induction bs arbitrary: a s)
  case Nil
  then show ?case by simp
next
  case (Cons b bs)
  then have a: "unat a < 1024" by simp
  then have "a < 1024" by (simp add: word_less_nat_alt)
  then have a1: "unat (a + 1) = Suc (unat a)" by (rule unat_Suc_less)
  have w: "ok (wr a b s)" "contents (wr a b s) = (contents s)[unat a := b]"
    using wr_law Cons.prems(1) a by blast+
  have "take (Suc (unat a)) ((contents s)[unat a := b]) = take (unat a) (contents s) @ [b]"
    using a contents_length [OF Cons.prems(1)] by (simp add: take_Suc_conv_app_nth)
  with Cons.IH [OF w(1), of "a + 1"] Cons.prems(2) a1 w(2) show ?case by simp
qed

lemma contents_after_wr_seq:
  assumes "ok s" and "unat a + length bs \<le> 1024" and "i < 1024"
  shows "contents (wr_seq wr a bs s) ! i =
     (if unat a \<le> i \<and> i < unat a + length bs then bs ! (i - unat a) else contents s ! i)"
  using wr_seq_law [OF assms(1,2)] contents_length [OF assms(1)] assms(2,3)
  by (auto simp: nth_append)

end

interpretation ee: byte_store "ee_ok D view" "cells view" "AT24CXX_ReadOneByte D" "AT24CXX_WriteOneByte D"
  for D :: "'d i2c_dev" and view :: "'d \<Rightarrow> at24"
proof
  fix s :: "'d iic" and a :: u16 and v :: u8
  assume ok: "ee_ok D view s"
  then have D: "is_at24 D view" and idle: "bus_idle (iic_view view s)" by (simp_all add: ee_ok_def)
  show "length (cells view s) = 1024" using idle by (simp add: bus_idle_def cells_view)
  assume a: "unat a < 1024"
  show "\<exists>s'. AT24CXX_ReadOneByte D a s = (cells view s ! unat a, s') \<and> ee_ok D view s' \<and>
      cells view s' = cells view s"
    using read_chip [OF idle a] D
    by (cases "AT24CXX_ReadOneByte D a s")
       (auto simp: ee_ok_def cells_view simp flip: iic_view_read [OF D])
  show "ee_ok D view (AT24CXX_WriteOneByte D a v s) \<and>
      cells view (AT24CXX_WriteOneByte D a v s) = (cells view s)[unat a := v]"
    using write_chip [OF idle a, of v] D by (simp add: ee_ok_def cells_view iic_view_write)
qed

section \<open>Values of several bytes\<close>

definition byte_at :: "nat \<Rightarrow> u32 \<Rightarrow> u8" where
  "byte_at t d = ucast (drop_bit (8 * t) d AND 0xFF)"

lemma bit_byte_at: "bit (byte_at t d) n \<longleftrightarrow> n < 8 \<and> bit d (8 * t + n)"
  unfolding byte_at_def bit_unsigned_iff bit_and_iff bit_0xFF bit_drop_bit_eq
  by (auto simp: possible_bit_def)

lemma take_bit_byte_at:
  "n < 4 \<Longrightarrow> push_bit (8 * n) (ucast (byte_at n d)) + take_bit (8 * n) d = take_bit (8 * Suc n) d"
proof -
  assume n: "n < 4"
  have "push_bit (8 * n) (ucast (byte_at n d)) + take_bit (8 * n) d =
      push_bit (8 * n) (ucast (byte_at n d)) OR take_bit (8 * n) d"
    by (rule disjunctive_add_eq_or) (auto intro!: bit_word_eqI simp: bit_simps)
  also have "\<dots> = take_bit (8 * Suc n) d"
    by (rule bit_word_eqI) (use n in \<open>auto simp: bit_simps bit_byte_at not_less\<close>)
  finally show ?thesis .
qed

lemma write_len_loop_seq:
  "write_len_loop wr a d t n s = wr_seq wr (a + of_nat t) (map (\<lambda>i. byte_at i d) [t..<t + n]) s"
proof (induction n arbitrary: t s)
  case (Suc n)
  have "[t..<t + Suc n] = t # [Suc t..<Suc t + n]" by (simp add: upt_conv_Cons)
  with Suc show ?case by (simp add: byte_at_def ac_simps)
qed simp

context byte_store
begin

lemma read_len_loop_law:
  "ok s \<Longrightarrow> unat a + n \<le> 1024 \<Longrightarrow> n \<le> 4 \<Longrightarrow> \<forall>t < n. contents s ! (unat a + t) = byte_at t d \<Longrightarrow>
   \<exists>s'. read_len_loop rd a n temp s = (push_bit (8 * n) temp + take_bit (8 * n) d, s') \<and>
     ok s' \<and> contents s' = contents s"
proof (induction n arbitrary: temp s)
  case 0
  then show ?case by simp
next
  case (Suc n)
  have addr: "unat (a + of_nat n) = unat a + n"
    using Suc.prems(2) by (simp add: unat_word_ariths unat_of_nat_u16)
  with Suc.prems(1,2) obtain s1 where s1: "rd (a + of_nat n) s = (contents s ! (unat a + n), s1)"
    "ok s1" "contents s1 = contents s"
    using rd_law [of s "a + of_nat n"] by auto
  from Suc.IH [OF s1(2), of "push_bit 8 temp + ucast (byte_at n d)"] Suc.prems(2-4) s1(3)
  obtain s2 where s2: "read_len_loop rd a n (push_bit 8 temp + ucast (byte_at n d)) s1 =
      (push_bit (8 * n) (push_bit 8 temp + ucast (byte_at n d)) + take_bit (8 * n) d, s2)"
    "ok s2" "contents s2 = contents s" by auto
  have "push_bit (8 * n) (push_bit 8 temp + ucast (byte_at n d)) + take_bit (8 * n) d =
      push_bit (8 * Suc n) temp + take_bit (8 * Suc n) d"
    using take_bit_byte_at [of n d] Suc.prems(3)
    by (simp add: push_bit_add ac_simps)
  with s1 s2 Suc.prems(4) show ?case by simp
qed

lemma len_roundtrip:
  assumes "ok s" and "unat a + n \<le> 1024" and "n \<le> 4"
  shows "fst (read_len_loop rd a n 0 (write_len_loop wr a d 0 n s)) = take_bit (8 * n) d"
proof -
  let ?bs = "map (\<lambda>i. byte_at i d) [0..<n]"
  have w: "write_len_loop wr a d 0 n s = wr_seq wr a ?bs s"
    by (simp add: write_len_loop_seq)
  have ok: "ok (wr_seq wr a ?bs s)" using wr_seq_law [OF assms(1), of a ?bs] assms(2) by simp
  have "\<forall>t < n. contents (wr_seq wr a ?bs s) ! (unat a + t) = byte_at t d"
    using contents_after_wr_seq [OF assms(1), of a ?bs] assms(2) by simp
  from read_len_loop_law [OF ok assms(2,3) this, of 0] show ?thesis by (auto simp: w)
qed

end

section \<open>Properties\<close>

text \<open>
  C31. Through the waveforms of the bit-banged bus, the byte driver makes every AT24C08 a
  memory: a byte read back after a write to an address below 1024 is the byte written, and
  every other address still reads as before.
\<close>

theorem AT24CXX_ReadOneByte_after_write:
  assumes "is_at24 D view" and "bus_idle (iic_view view s)" and "unat a < 1024" and "unat b < 1024"
  shows "fst (AT24CXX_ReadOneByte D b (AT24CXX_WriteOneByte D a v s)) =
     (if b = a then v else fst (AT24CXX_ReadOneByte D b s))"
proof -
  have ok: "ee_ok D view s" using assms(1,2) by (simp add: ee_ok_def)
  note w = ee.wr_law [OF ok assms(3), of v]
  have "fst (AT24CXX_ReadOneByte D b (AT24CXX_WriteOneByte D a v s)) =
      (cells view s)[unat a := v] ! unat b"
    using ee.rd_law [of D view "AT24CXX_WriteOneByte D a v s" b] w assms(4) by auto
  moreover have "fst (AT24CXX_ReadOneByte D b s) = cells view s ! unat b"
    using ee.rd_law [OF ok assms(4)] by auto
  ultimately show ?thesis
    using assms(3) ee.contents_length [OF ok] by (auto simp: nth_list_update word_unat_eq_iff)
qed

definition fresh_at24 :: at24 where
  "fresh_at24 = \<lparr>at_scl = True, at_sda = True, at_phase = At_Idle, at_mem = replicate 1024 0xFF,
     at_ptr = 0, at_buf = []\<rparr>"

definition fresh_bus :: "at24 iic" where
  "fresh_bus = \<lparr>IIC_SCL = True, IIC_SDA = True, sda_out = True, dev = fresh_at24\<rparr>"

lemma fresh_bus_idle: "bus_idle fresh_bus"
  by (simp add: bus_idle_def fresh_bus_def fresh_at24_def)

lemma iic_view_self: "iic_view (\<lambda>c. c) s = s"
  by (simp add: iic_view_def)

lemma AT24CXX_ReadOneByte_after_write_witness:
  "fst (AT24CXX_ReadOneByte at24_dev 300 (AT24CXX_WriteOneByte at24_dev 255 0x55 fresh_bus)) =
     (if (300 :: u16) = 255 then 0x55 else fst (AT24CXX_ReadOneByte at24_dev 300 fresh_bus))"
  by (rule AT24CXX_ReadOneByte_after_write [where view = "\<lambda>c. c"])
     (simp_all add: is_at24_self iic_view_self fresh_bus_idle)

text \<open>
  A value of up to four bytes written with \<open>AT24CXX_WriteLenByte\<close> is what
  \<open>AT24CXX_ReadLenByte\<close> returns for the same address and length: the low \<open>Len\<close> bytes of the
  32-bit value.
\<close>

theorem AT24CXX_ReadLenByte_WriteLenByte:
  assumes "is_at24 D view" and "bus_idle (iic_view view s)" and "Len \<le> 4"
    and "unat a + unat Len \<le> 1024"
  shows "fst (AT24CXX_ReadLenByte D a Len (AT24CXX_WriteLenByte D a d Len s)) =
     take_bit (8 * unat Len) d"
proof -
  have "unat Len \<le> 4" using assms(3) by (simp add: word_le_nat_alt)
  with assms(1,2,4) show ?thesis
    unfolding AT24CXX_ReadLenByte_def AT24CXX_WriteLenByte_def
    by (intro ee.len_roundtrip [where view = view]) (simp_all add: ee_ok_def)
qed

lemma AT24CXX_ReadLenByte_WriteLenByte_witness:
  "fst (AT24CXX_ReadLenByte at24_dev 1020 4 (AT24CXX_WriteLenByte at24_dev 1020 0x12345678 4 fresh_bus)) =
     take_bit (8 * unat (4 :: u8)) 0x12345678"
  by (rule AT24CXX_ReadLenByte_WriteLenByte [where view = "\<lambda>c. c"])
     (simp_all add: is_at24_self iic_view_self fresh_bus_idle)

lemma Delete_allDat_cells:
  assumes "ee_ok D view s"
  shows "ee_ok D view (Delete_allDat D s) \<and> cells view (Delete_allDat D s) = replicate 1024 0"
  using ee.wr_seq_law [OF assms, of 0 "replicate 1024 0"] ee.contents_length [OF assms]
  by (simp add: Delete_allDat_def EE_TYPE_def)

end
