(* ===== verification/CanBus.thy ===== *)
theory CanBus
  imports Crc8
begin

text \<open>
  The CAN bus between the controller and its card readers: the frame driver of
  HARDWARE/BSP/bsp_can.c (sending, polling for a received frame, the package layouts) and
  the request/answer exchanges of HARDWARE/BSP/bsp_canapp.c. The controller of the bus is a
  parameter: \<open>rx n\<close> is the frame pending when the driver polls for the n-th time, and
  \<open>tx_failed n i\<close> the i-th answer of \<open>CAN_TransmitStatus\<close> for the n-th frame sent. A frame counts as sent (\<open>sent\<close>) when it is handed to \<open>CAN_Transmit\<close>; that
  the library finds one of the three mailboxes of the controller free, and that the frame then gets through, is outside the model.
\<close>

section \<open>Frames and the state of the bus\<close>

datatype can_data = Can_Data u8 u8 u8 u8 u8 u8 u8 u8

fun data_bytes :: "can_data \<Rightarrow> u8 list" where
  "data_bytes (Can_Data a b c d e f g h) = [a, b, c, d, e, f, g, h]"

lemma length_data_bytes [simp]: "length (data_bytes x) = 8"
  by (cases x) simp

record can_rx_msg =
  rx_DLC :: u8
  rx_Data :: can_data

record can_tx_msg =
  StdId :: u32
  ExtId :: u32
  tx_DLC :: u8
  tx_Data :: "u8 list"

record can_env =
  rx :: "nat \<Rightarrow> can_rx_msg option"
  tx_failed :: "nat \<Rightarrow> nat \<Rightarrow> bool"

record can_bus =
  polls :: nat
  sent :: "can_tx_msg list"

section \<open>The driver\<close>

definition send_id :: "u8 list \<Rightarrow> u32" where
  "send_id msg =
     (if msg ! 0 = 0x01 \<or> msg ! 0 = 0x07 \<or> msg ! 0 = 0x08 \<or> msg ! 0 = 0x09
      then 0x200 OR ucast (msg ! 1) else 0x200)"

text \<open>\<open>tx_wait failed k i\<close>: the loop \<open>while((status==Failed)&&(i<0XFFF))i++\<close> with \<open>k\<close>
  increments left before \<open>i = 0XFFF\<close>; it returns the final \<open>i\<close>.\<close>

fun tx_wait :: "(nat \<Rightarrow> bool) \<Rightarrow> nat \<Rightarrow> nat \<Rightarrow> nat" where
  "tx_wait failed 0 i = i"
| "tx_wait failed (Suc k) i = (if failed i then tx_wait failed k (Suc i) else i)"

definition Can_Send_Msg :: "can_env \<Rightarrow> u8 list \<Rightarrow> u8 \<Rightarrow> can_bus \<Rightarrow> fault + (u8 \<times> can_bus)" where
  "Can_Send_Msg E msg len b =
     (if length msg < 8 then Inl Out_Of_Bounds
      else Inr (if tx_wait (tx_failed E (length (sent b))) 0xFFF 0 \<ge> 0xFFF then 1 else 0,
             b\<lparr>sent := sent b @ [\<lparr>StdId = send_id msg, ExtId = 0x1800F001, tx_DLC = len,
                                  tx_Data = take 8 msg\<rparr>]\<rparr>))"

text \<open>Returns the length of the frame, 0 if none was pending, and the buffer, which a poll
  that finds nothing leaves as it was.\<close>

definition Can_Receive_Msg :: "can_env \<Rightarrow> u8 list \<Rightarrow> can_bus \<Rightarrow> u8 \<times> u8 list \<times> can_bus" where
  "Can_Receive_Msg E buf b =
     (case rx E (polls b) of
        None \<Rightarrow> (0, buf, b\<lparr>polls := polls b + 1\<rparr>)
      | Some m \<Rightarrow> (rx_DLC m, data_bytes (rx_Data m), b\<lparr>polls := polls b + 1\<rparr>))"

definition fill_package :: "u8 \<Rightarrow> nat \<Rightarrow> u8 list \<Rightarrow> fault + u8 list" where
  "fill_package cmd n Package_Dat =
     ebind (get_bytes Package_Dat 0 n) (\<lambda>bs. Inr (cmd # bs @ replicate (7 - n) 0))"

definition package_buf :: "u8 \<Rightarrow> u8 list \<Rightarrow> fault + u8 list" where
  "package_buf mode Package_Dat =
     (if mode = 0x01 then Inr (0xA1 # 0xA1 # replicate 6 0)
      else if mode = 0x02 then fill_package 0xC1 5 Package_Dat
      else if mode = 0x03 then fill_package 0xA2 7 Package_Dat
      else if mode = 0x04 then fill_package 0xA3 2 Package_Dat
      else if mode = 0x05 then fill_package 0x01 1 Package_Dat
      else if mode = 0x06 then fill_package 0x07 6 Package_Dat
      else if mode = 0x08 then fill_package 0x08 6 Package_Dat
      else if mode = 0x09 then fill_package 0x09 7 Package_Dat
      else if mode = 0x11 then fill_package 0x11 6 Package_Dat
      else if mode = 0x13 then fill_package 0x13 7 Package_Dat
      else Inr (replicate 8 0))"

definition Package_Send :: "can_env \<Rightarrow> u8 \<Rightarrow> u8 list \<Rightarrow> can_bus \<Rightarrow> fault + can_bus" where
  "Package_Send E mode Package_Dat b =
     ebind (package_buf mode Package_Dat) (\<lambda>SendBuf.
     ebind (Can_Send_Msg E SendBuf 8 b) (\<lambda>(_, b'). Inr b'))"

section \<open>The exchanges with the readers\<close>

text \<open>
  The waiting loop the exchanges share. Each iteration polls; if byte \<open>idx\<close> of the buffer is
  not the address awaited it counts \<open>Overflow_Flag\<close> down, otherwise it goes straight to the
  loop test (\<open>continue\<close>), with \<open>res\<close> as the poll returned it. Nothing bounds the iterations
  of the second kind, so the loop has fuel.
\<close>

fun match_loop ::
  "nat \<Rightarrow> can_env \<Rightarrow> nat \<Rightarrow> u8 \<Rightarrow> u8 \<Rightarrow> u8 \<Rightarrow> u8 list \<Rightarrow> can_bus \<Rightarrow>
   fault + (u8 \<times> u8 \<times> u8 list \<times> can_bus)" where
  "match_loop 0 E idx adr res Overflow_Flag Recebuf b = Inl Still_Running"
| "match_loop (Suc fuel) E idx adr res Overflow_Flag Recebuf b =
     (if res = 0 \<and> Overflow_Flag > 0 then
        let (res1, buf1, b1) = Can_Receive_Msg E Recebuf b in
        if buf1 ! idx \<noteq> adr then match_loop fuel E idx adr 0 (Overflow_Flag - 1) buf1 b1
        else match_loop fuel E idx adr res1 Overflow_Flag buf1 b1
      else Inr (res, Overflow_Flag, Recebuf, b))"

definition zeros8 :: "u8 list" where "zeros8 = replicate 8 0"

definition Can_WriteLogitADD ::
  "nat \<Rightarrow> can_env \<Rightarrow> u8 \<Rightarrow> u8 list \<Rightarrow> can_bus \<Rightarrow> fault + (u8 \<times> can_bus)" where
  "Can_WriteLogitADD fuel E LogitADD PhysicalADD b =
     ebind (get_bytes PhysicalADD 0 4) (\<lambda>phys.
     let Runningbuf = phys @ [LogitADD, 0, 0, 0] in
     ebind (Package_Send E 0x02 Runningbuf b) (\<lambda>b1.
     ebind (match_loop fuel E 5 LogitADD 0 20 zeros8 b1) (\<lambda>(res, Overflow_Flag, Recebuf, b2).
       if res \<noteq> 0 then
         if Recebuf ! 0 = 0xC2 \<and> Recebuf ! 1 = Runningbuf ! 0 \<and> Recebuf ! 2 = Runningbuf ! 1 \<and>
            Recebuf ! 3 = Runningbuf ! 2 \<and> Recebuf ! 4 = Runningbuf ! 3 \<and>
            Recebuf ! 5 = Runningbuf ! 4
         then Inr (Recebuf ! 6, b2)
         else Inr (0, b2)
       else Inr (0, b2))))"

definition Can_SendBroadcast_Key :: "can_env \<Rightarrow> u8 list \<Rightarrow> can_bus \<Rightarrow> fault + can_bus" where
  "Can_SendBroadcast_Key E uBuff b =
     ebind (get_bytes uBuff 0 7) (\<lambda>key. Package_Send E 0x03 (key @ [0]) b)"

definition Can_UnregisteredBroadcast :: "can_env \<Rightarrow> can_bus \<Rightarrow> fault + can_bus" where
  "Can_UnregisteredBroadcast E b = Package_Send E 0x01 zeros8 b"

definition Can_SendBroadcast_Com :: "can_env \<Rightarrow> u8 \<Rightarrow> u8 \<Rightarrow> can_bus \<Rightarrow> fault + can_bus" where
  "Can_SendBroadcast_Com E WaterCost CostNum b =
     Package_Send E 0x04 ([WaterCost, CostNum] @ replicate 6 0) b"

text \<open>The waiting loop of \<open>Can_ReadUnregistered\<close>: every poll that finds nothing counts down.\<close>

fun any_loop :: "nat \<Rightarrow> can_env \<Rightarrow> u8 list \<Rightarrow> can_bus \<Rightarrow> u8 \<times> u8 list \<times> can_bus" where
  "any_loop 0 E Recebuf b = (0, Recebuf, b)"
| "any_loop (Suc Overflow_Flag) E Recebuf b =
     (let (res, buf, b1) = Can_Receive_Msg E Recebuf b
      in if res \<noteq> 0 then (res, buf, b1) else any_loop Overflow_Flag E buf b1)"

definition Can_ReadUnregistered ::
  "can_env \<Rightarrow> u8 list \<Rightarrow> can_bus \<Rightarrow> fault + (u8 \<times> u8 list \<times> can_bus)" where
  "Can_ReadUnregistered E uBuff b =
     (let (res, Recebuf, b1) = any_loop 20 E zeros8 b in
      if res \<noteq> 0 then
        if Recebuf ! 0 = 0xB3 then
          ebind (put_bytes uBuff 0 [Recebuf ! 1, Recebuf ! 2, Recebuf ! 3, Recebuf ! 4]) (\<lambda>uBuff1.
          ebind (CRC8_Table uBuff1 4) (\<lambda>CRC_Dat.
            if CRC_Dat = Recebuf ! 5 then Inr (1, uBuff1, b1) else Inr (0, uBuff1, b1)))
        else Inr (0, uBuff, b1)
      else Inr (0, uBuff, b1))"

text \<open>The bytes of the second data packet, from index 5 of the result on.\<close>

definition take_packet2 :: "u8 list \<Rightarrow> u8 list \<Rightarrow> can_bus \<Rightarrow> fault + (u8 \<times> u8 list \<times> can_bus)" where
  "take_packet2 uBuff Recebuf b =
     ebind (put_bytes uBuff 5 [Recebuf ! 2, Recebuf ! 3, Recebuf ! 4, Recebuf ! 5, Recebuf ! 6])
       (\<lambda>uBuff1. Inr (0xAA, uBuff1, b))"

definition take_packet1 :: "u8 \<Rightarrow> u8 list \<Rightarrow> u8 list \<Rightarrow> fault + u8 list" where
  "take_packet1 kind uBuff Recebuf =
     put_bytes uBuff 0 [kind, Recebuf ! 2, Recebuf ! 3, Recebuf ! 4, Recebuf ! 5]"

text \<open>
  The poll of reader \<open>uDat\<close>. The branch for a removed card (0x05) enters the second waiting
  loop with \<open>res\<close> as the first one left it, the branch for an inserted card (0x03) with
  \<open>res = 0\<close>; both with the buffer that still holds the first packet.
\<close>

definition Can_SendPBus_Com ::
  "nat \<Rightarrow> can_env \<Rightarrow> u8 \<Rightarrow> u8 list \<Rightarrow> can_bus \<Rightarrow> fault + (u8 \<times> u8 list \<times> can_bus)" where
  "Can_SendPBus_Com fuel E uDat uBuff b =
     ebind (Package_Send E 0x05 (uDat # replicate 7 0) b) (\<lambda>b1.
     ebind (match_loop fuel E 1 uDat 0 10 zeros8 b1) (\<lambda>(res, Overflow_Flag, Recebuf, b2).
       if res \<noteq> 0 then
         if Recebuf ! 1 = uDat \<and> Recebuf ! 0 = 0x02 then Inr (0x02, uBuff, b2)
         else if Recebuf ! 1 = uDat \<and> Recebuf ! 0 = 0x03 then
           ebind (take_packet1 0x05 uBuff Recebuf) (\<lambda>uBuff1.
           ebind (match_loop fuel E 1 uDat 0 10 Recebuf b2) (\<lambda>(res, Overflow_Flag, Recebuf, b3).
             if res \<noteq> 0 \<and> Recebuf ! 1 = uDat \<and> Recebuf ! 0 = 0x04
             then take_packet2 uBuff1 Recebuf b3
             else Inr (0x00, uBuff1, b3)))
         else if Recebuf ! 1 = uDat \<and> Recebuf ! 0 = 0x05 then
           ebind (take_packet1 0x06 uBuff Recebuf) (\<lambda>uBuff1.
           ebind (match_loop fuel E 1 uDat res 10 Recebuf b2) (\<lambda>(res, Overflow_Flag, Recebuf, b3).
             if res \<noteq> 0 \<and> Recebuf ! 1 = uDat \<and> Recebuf ! 0 = 0x06
             then take_packet2 uBuff1 Recebuf b3
             else Inr (0x00, uBuff1, b3)))
         else if Recebuf ! 1 = uDat \<and> Recebuf ! 0 = 0x04 then take_packet2 uBuff Recebuf b2
         else if Recebuf ! 1 = uDat \<and> Recebuf ! 0 = 0x06 then take_packet2 uBuff Recebuf b2
         else Inr (0x00, uBuff, b2)
       else Inr (0x00, uBuff, b2)))"

definition Can_ReadPBus_Succeed :: "can_env \<Rightarrow> u8 list \<Rightarrow> can_bus \<Rightarrow> fault + can_bus" where
  "Can_ReadPBus_Succeed E uBuff b =
     ebind (get_bytes uBuff 0 6) (\<lambda>bs. Package_Send E 0x06 (bs @ [0, 0]) b)"

definition Can_SendPBus_ErrCom :: "can_env \<Rightarrow> u8 list \<Rightarrow> can_bus \<Rightarrow> fault + can_bus" where
  "Can_SendPBus_ErrCom E uBuff b =
     ebind (get_bytes uBuff 0 6) (\<lambda>bs. Package_Send E 0x11 (take 5 bs @ [0, bs ! 5, 0]) b)"

section \<open>What the waiting loops return\<close>

lemma Can_Receive_Msg_cases:
  obtains (none) "rx E (polls b) = None" "Can_Receive_Msg E buf b = (0, buf, b\<lparr>polls := polls b + 1\<rparr>)"
  | (frame) m where "rx E (polls b) = Some m"
      "Can_Receive_Msg E buf b = (rx_DLC m, data_bytes (rx_Data m), b\<lparr>polls := polls b + 1\<rparr>)"
  by (cases "rx E (polls b)") (simp_all add: Can_Receive_Msg_def)

text \<open>A frame the loop waits for: it carries data, and byte \<open>idx\<close> is the address.\<close>

definition awaited :: "can_env \<Rightarrow> nat \<Rightarrow> u8 \<Rightarrow> nat \<Rightarrow> bool" where
  "awaited E idx adr n =
     (case rx E n of None \<Rightarrow> False | Some m \<Rightarrow> rx_DLC m \<noteq> 0 \<and> data_bytes (rx_Data m) ! idx = adr)"

definition frames_carry_data :: "can_env \<Rightarrow> bool" where
  "frames_carry_data E \<longleftrightarrow> (\<forall>n m. rx E n = Some m \<longrightarrow> rx_DLC m \<noteq> 0)"

lemma match_loop_Suc_done:
  "\<not> (res = 0 \<and> ov > 0) \<Longrightarrow> match_loop (Suc fuel) E idx adr res ov buf b = Inr (res, ov, buf, b)"
  by (subst match_loop.simps(2)) (rule if_not_P)

lemma match_loop_done:
  "res \<noteq> 0 \<or> ov = 0 \<Longrightarrow> 0 < fuel \<Longrightarrow> match_loop fuel E idx adr res ov buf b = Inr (res, ov, buf, b)"
proof -
  assume *: "res \<noteq> 0 \<or> ov = 0" "0 < fuel"
  then obtain f where f: "fuel = Suc f" by (cases fuel) simp_all
  from *(1) have "\<not> (res = 0 \<and> ov > 0)" by auto
  then show "match_loop fuel E idx adr res ov buf b = Inr (res, ov, buf, b)"
    unfolding f by (rule match_loop_Suc_done)
qed

declare match_loop.simps(2) [simp del]

lemma match_loop_sound:
  "match_loop fuel E idx adr 0 ov buf b = Inr (res, ov', buf', b') \<Longrightarrow> res \<noteq> 0 \<Longrightarrow>
   \<exists>n m. polls b \<le> n \<and> n < polls b' \<and> rx E n = Some m \<and> rx_DLC m = res \<and>
     buf' = data_bytes (rx_Data m) \<and> buf' ! idx = adr \<and> sent b' = sent b"
proof (induction fuel arbitrary: ov buf b)
  case 0
  then show ?case by simp
next
  case (Suc fuel)
  then have ov: "ov > 0" by (auto simp: match_loop.simps(2) split: if_splits)
  show ?case
  proof (cases rule: Can_Receive_Msg_cases [of E b buf])
    case none
    with Suc.prems ov obtain ov2 where
      "match_loop fuel E idx adr 0 ov2 buf (b\<lparr>polls := polls b + 1\<rparr>) = Inr (res, ov', buf', b')"
      by (auto simp: match_loop.simps(2) split: if_splits)
    with Suc.IH Suc.prems(2) show ?thesis by (fastforce dest: Suc_leD)
  next
    case (frame m)
    show ?thesis
    proof (cases "data_bytes (rx_Data m) ! idx = adr \<and> rx_DLC m \<noteq> 0")
      case True
      with Suc.prems ov frame have
        "match_loop fuel E idx adr (rx_DLC m) ov (data_bytes (rx_Data m)) (b\<lparr>polls := polls b + 1\<rparr>) =
          Inr (res, ov', buf', b')"
        by (simp add: match_loop.simps(2))
      with True have "res = rx_DLC m" "buf' = data_bytes (rx_Data m)"
        "b' = b\<lparr>polls := polls b + 1\<rparr>"
        by (cases fuel; simp add: match_loop.simps(2))+
      with True frame(1) show ?thesis by auto
    next
      case False
      with Suc.prems ov frame obtain ov2 where
        "match_loop fuel E idx adr 0 ov2 (data_bytes (rx_Data m)) (b\<lparr>polls := polls b + 1\<rparr>) =
          Inr (res, ov', buf', b')"
        by (auto simp: match_loop.simps(2) split: if_splits)
      with Suc.IH Suc.prems(2) show ?thesis by (fastforce dest: Suc_leD)
    qed
  qed
qed

lemma unat_pred: "0 < (x :: u8) \<Longrightarrow> unat (x - 1) = unat x - 1"
  by (rule unat_minus_one) auto

text \<open>When every frame carries data and the buffer does not yet match, the loop ends within
  \<open>Overflow_Flag\<close> polls, with the first frame awaited or empty-handed.\<close>

lemma match_loop_ends:
  "frames_carry_data E \<Longrightarrow> buf ! idx \<noteq> adr \<Longrightarrow> unat ov + 2 \<le> fuel \<Longrightarrow>
   (\<exists>k < unat ov. \<exists>m. (\<forall>j < k. \<not> awaited E idx adr (polls b + j)) \<and>
      rx E (polls b + k) = Some m \<and> awaited E idx adr (polls b + k) \<and>
      match_loop fuel E idx adr 0 ov buf b =
        Inr (rx_DLC m, ov - of_nat k, data_bytes (rx_Data m), b\<lparr>polls := polls b + k + 1\<rparr>)) \<or>
   ((\<forall>k < unat ov. \<not> awaited E idx adr (polls b + k)) \<and>
    (\<exists>buf'. buf' ! idx \<noteq> adr \<and>
      match_loop fuel E idx adr 0 ov buf b = Inr (0, 0, buf', b\<lparr>polls := polls b + unat ov\<rparr>)))"
proof (induction fuel arbitrary: ov buf b)
  case 0
  then show ?case by simp
next
  case (Suc fuel)
  show ?case
  proof (cases "ov = 0")
    case True
    with Suc.prems(2) show ?thesis by (auto simp: match_loop.simps(2))
  next
    case False
    then have pos: "0 < ov" by (simp add: word_gt_0)
    then have pred: "unat (ov - 1) = unat ov - 1" "0 < unat ov"
      by (simp_all add: unat_pred word_less_nat_alt)
    let ?b = "b\<lparr>polls := polls b + 1\<rparr>"
    show ?thesis
    proof (cases "awaited E idx adr (polls b)")
      case True
      then obtain m where m: "rx E (polls b) = Some m" "rx_DLC m \<noteq> 0"
        "data_bytes (rx_Data m) ! idx = adr"
        by (auto simp: awaited_def split: option.splits)
      with pos Suc.prems(3) have "match_loop (Suc fuel) E idx adr 0 ov buf b =
          Inr (rx_DLC m, ov, data_bytes (rx_Data m), ?b)"
        by (simp add: match_loop.simps(2) Can_Receive_Msg_def match_loop_done)
      with m True pred show ?thesis by (intro disjI1 exI [of _ 0]) auto
    next
      case False
      obtain buf1 where buf1: "buf1 ! idx \<noteq> adr"
        "match_loop (Suc fuel) E idx adr 0 ov buf b = match_loop fuel E idx adr 0 (ov - 1) buf1 ?b"
      proof (cases rule: Can_Receive_Msg_cases [of E b buf])
        case none
        with pos Suc.prems(2) that [of buf] show ?thesis by (simp add: match_loop.simps(2))
      next
        case (frame m)
        with False Suc.prems(1) have "data_bytes (rx_Data m) ! idx \<noteq> adr"
          by (auto simp: awaited_def frames_carry_data_def)
        with frame pos that [of "data_bytes (rx_Data m)"] show ?thesis
          by (simp add: match_loop.simps(2))
      qed
      have "unat (ov - 1) + 2 \<le> fuel" using Suc.prems(3) pred by simp
      from Suc.IH [OF Suc.prems(1) buf1(1) this, of ?b] show ?thesis
      proof (elim disjE exE conjE)
        fix k m
        assume k: "k < unat (ov - 1)" "\<forall>j < k. \<not> awaited E idx adr (polls ?b + j)"
          "rx E (polls ?b + k) = Some m" "awaited E idx adr (polls ?b + k)"
          "match_loop fuel E idx adr 0 (ov - 1) buf1 ?b =
            Inr (rx_DLC m, ov - 1 - of_nat k, data_bytes (rx_Data m), ?b\<lparr>polls := polls ?b + k + 1\<rparr>)"
        have "\<forall>j < Suc k. \<not> awaited E idx adr (polls b + j)"
          using k(2) False by (auto simp: less_Suc_eq_0_disj)
        with k pred buf1(2) show ?thesis
          by (intro disjI1 exI [of _ "Suc k"]) (auto simp: algebra_simps)
      next
        fix buf'
        assume k: "\<forall>k < unat (ov - 1). \<not> awaited E idx adr (polls ?b + k)" "buf' ! idx \<noteq> adr"
          "match_loop fuel E idx adr 0 (ov - 1) buf1 ?b = Inr (0, 0, buf', ?b\<lparr>polls := polls ?b + unat (ov - 1)\<rparr>)"
        have "\<forall>k < unat ov. \<not> awaited E idx adr (polls b + k)"
        proof (intro allI impI)
          fix j assume "j < unat ov"
          with k(1) False pred show "\<not> awaited E idx adr (polls b + j)"
            by (cases j) auto
        qed
        with k pred buf1(2) show ?thesis by (intro disjI2) auto
      qed
    qed
  qed
qed

text \<open>With the address already in the buffer and nothing more on the bus, it never ends.\<close>

lemma match_loop_stuck:
  "\<forall>n \<ge> polls b. rx E n = None \<Longrightarrow> buf ! idx = adr \<Longrightarrow> 0 < ov \<Longrightarrow>
   match_loop fuel E idx adr 0 ov buf b = Inl Still_Running"
  by (induction fuel arbitrary: b) (auto simp: match_loop.simps(2) Can_Receive_Msg_def)

lemma match_loop_spin:
  "\<forall>n. polls b \<le> n \<and> n < polls b + k \<longrightarrow> rx E n = None \<Longrightarrow> rx E (polls b + k) = Some m \<Longrightarrow>
   awaited E idx adr (polls b + k) \<Longrightarrow> buf ! idx = adr \<Longrightarrow> 0 < ov \<Longrightarrow> k + 2 \<le> fuel \<Longrightarrow>
   match_loop fuel E idx adr 0 ov buf b =
     Inr (rx_DLC m, ov, data_bytes (rx_Data m), b\<lparr>polls := polls b + k + 1\<rparr>)"
proof (induction k arbitrary: b fuel)
  case 0
  then obtain f where f: "fuel = Suc f" "0 < f" by (cases fuel) auto
  with 0 show ?case
    by (auto simp: match_loop.simps(2) Can_Receive_Msg_def awaited_def match_loop_done)
next
  case (Suc k)
  then obtain f where f: "fuel = Suc f" "k + 2 \<le> f" by (cases fuel) auto
  have none: "rx E (polls b) = None" using Suc.prems(1) by simp
  have "match_loop f E idx adr 0 ov buf (b\<lparr>polls := polls b + 1\<rparr>) =
      Inr (rx_DLC m, ov, data_bytes (rx_Data m),
        (b\<lparr>polls := polls b + 1\<rparr>)\<lparr>polls := polls (b\<lparr>polls := polls b + 1\<rparr>) + k + 1\<rparr>)"
    using Suc.prems f(2) by (intro Suc.IH) auto
  with none Suc.prems(4,5) show ?case
    by (simp add: f(1) match_loop.simps(2) Can_Receive_Msg_def)
qed

lemma match_loop_mono:
  "match_loop fuel E idx adr res ov buf b = Inr r \<Longrightarrow> match_loop (fuel + k) E idx adr res ov buf b = Inr r"
proof (induction fuel arbitrary: res ov buf b)
  case (Suc fuel)
  then show ?case
    by (auto simp: match_loop.simps(2) split: if_splits prod.splits)
qed simp

lemma match_loop_Inl: "match_loop fuel E idx adr res ov buf b = Inl e \<Longrightarrow> e = Still_Running"
proof (induction fuel arbitrary: res ov buf b)
  case (Suc fuel)
  then show ?case by (auto simp: match_loop.simps(2) split: if_splits prod.splits)
qed simp

lemma match_loop_any_fuel:
  assumes "match_loop fuel E idx adr res ov buf b = Inr r"
  shows "match_loop fuel' E idx adr res ov buf b = Inl Still_Running \<or>
         match_loop fuel' E idx adr res ov buf b = Inr r"
proof (cases "match_loop fuel' E idx adr res ov buf b")
  case (Inl e)
  then show ?thesis using match_loop_Inl by blast
next
  case (Inr r')
  have "match_loop (fuel + fuel') E idx adr res ov buf b = Inr r"
    using match_loop_mono [OF assms] .
  moreover have "match_loop (fuel' + fuel) E idx adr res ov buf b = Inr r'"
    using match_loop_mono [OF Inr] .
  ultimately show ?thesis using Inr by (simp add: add.commute)
qed

section \<open>The frames sent\<close>

definition frame_sent :: "u32 \<Rightarrow> u8 list \<Rightarrow> can_bus \<Rightarrow> can_bus" where
  "frame_sent sid bs b =
     b\<lparr>sent := sent b @ [\<lparr>StdId = sid, ExtId = 0x1800F001, tx_DLC = 8, tx_Data = bs\<rparr>]\<rparr>"

lemma polls_frame_sent [simp]: "polls (frame_sent sid bs b) = polls b"
  by (simp add: frame_sent_def)

lemma fill_package_ok:
  "n \<le> length dat \<Longrightarrow> fill_package cmd n dat = Inr (cmd # take n dat @ replicate (7 - n) 0)"
  by (simp add: fill_package_def get_bytes_ok)

lemma Can_Send_Msg_ok:
  "length msg = 8 \<Longrightarrow> \<exists>r. Can_Send_Msg E msg 8 b = Inr (r, frame_sent (send_id msg) msg b)"
  by (simp add: Can_Send_Msg_def frame_sent_def)

lemma Package_Send_ok:
  assumes "package_buf mode dat = Inr buf" and "length buf = 8"
  shows "Package_Send E mode dat b = Inr (frame_sent (send_id buf) buf b)"
  using Can_Send_Msg_ok [OF assms(2), of E b] assms(1) by (auto simp: Package_Send_def)

lemma Package_Send_poll:
  "Package_Send E 0x05 (u # replicate 7 0) b =
     Inr (frame_sent (0x200 OR ucast u) [0x01, u, 0, 0, 0, 0, 0, 0] b)"
  by (subst Package_Send_ok [where buf = "[0x01, u, 0, 0, 0, 0, 0, 0]"])
     (simp_all add: package_buf_def fill_package_ok send_id_def acu_simps)

lemma Package_Send_register:
  "Package_Send E 0x02 [p0, p1, p2, p3, a, 0, 0, 0] b =
     Inr (frame_sent 0x200 [0xC1, p0, p1, p2, p3, a, 0, 0] b)"
  by (subst Package_Send_ok [where buf = "[0xC1, p0, p1, p2, p3, a, 0, 0]"])
     (simp_all add: package_buf_def fill_package_ok send_id_def acu_simps)

lemma get_bytes_4: "get_bytes [p0, p1, p2, p3] 0 4 = Inr [p0, p1, p2, p3]"
  by (simp add: get_bytes_ok)

section \<open>Properties\<close>

lemma zeros8_nth: "i < 8 \<Longrightarrow> zeros8 ! i = 0"
  by (simp add: zeros8_def)

text \<open>The first frame from poll \<open>n0\<close> on, within \<open>limit\<close> polls, that carries the address.\<close>

definition first_awaited :: "can_env \<Rightarrow> nat \<Rightarrow> u8 \<Rightarrow> nat \<Rightarrow> nat \<Rightarrow> nat \<Rightarrow> can_rx_msg \<Rightarrow> bool" where
  "first_awaited E idx adr n0 limit k m \<longleftrightarrow>
     k < limit \<and> rx E (n0 + k) = Some m \<and> awaited E idx adr (n0 + k) \<and>
     (\<forall>j < k. \<not> awaited E idx adr (n0 + j))"

lemma first_awaited_unique:
  "first_awaited E idx adr n0 l k m \<Longrightarrow> first_awaited E idx adr n0 l' k' m' \<Longrightarrow> k = k' \<and> m = m'"
  by (auto simp: first_awaited_def) (metis linorder_neqE_nat option.inject)+

lemma match_loop_first:
  assumes "frames_carry_data E" and "adr \<noteq> 0" and "idx < 8" and "unat ov + 2 \<le> fuel"
    and "first_awaited E idx adr (polls b) (unat ov) k m"
  shows "match_loop fuel E idx adr 0 ov zeros8 b =
     Inr (rx_DLC m, ov - of_nat k, data_bytes (rx_Data m), b\<lparr>polls := polls b + k + 1\<rparr>)"
proof -
  have "zeros8 ! idx \<noteq> adr" using assms(2,3) by (simp add: zeros8_nth)
  from match_loop_ends [OF assms(1) this assms(4), of b] show ?thesis
  proof (elim disjE exE conjE)
    fix k' m'
    assume "k' < unat ov" "\<forall>j < k'. \<not> awaited E idx adr (polls b + j)"
      "rx E (polls b + k') = Some m'" "awaited E idx adr (polls b + k')"
      and eq: "match_loop fuel E idx adr 0 ov zeros8 b =
        Inr (rx_DLC m', ov - of_nat k', data_bytes (rx_Data m'), b\<lparr>polls := polls b + k' + 1\<rparr>)"
    then have "first_awaited E idx adr (polls b) (unat ov) k' m'" by (simp add: first_awaited_def)
    then have "k' = k" "m' = m" using assms(5) first_awaited_unique by blast+
    with eq show ?thesis by simp
  next
    assume "\<forall>k < unat ov. \<not> awaited E idx adr (polls b + k)"
    with assms(5) show ?thesis by (auto simp: first_awaited_def)
  qed
qed

definition poll_sent :: "u8 \<Rightarrow> can_bus \<Rightarrow> can_bus" where
  "poll_sent u b = frame_sent (0x200 OR ucast u) [0x01, u, 0, 0, 0, 0, 0, 0] b"

lemma polls_poll_sent [simp]: "polls (poll_sent u b) = polls b"
  by (simp add: poll_sent_def)

lemma take_packet1_ok:
  "5 \<le> length uBuff \<Longrightarrow>
   take_packet1 kind uBuff r = Inr ([kind, r ! 2, r ! 3, r ! 4, r ! 5] @ drop 5 uBuff)"
  by (simp add: take_packet1_def put_bytes_ok eval_nat_numeral)

lemma take_packet2_ok:
  "10 \<le> length uBuff \<Longrightarrow>
   take_packet2 uBuff r b =
     Inr (0xAA, take 5 uBuff @ [r ! 2, r ! 3, r ! 4, r ! 5, r ! 6] @ drop 10 uBuff, b)"
  by (simp add: take_packet2_def put_bytes_ok)

lemma poll_inserted:
  assumes "frames_carry_data E" and "u \<noteq> 0" and "10 \<le> length uBuff"
    and "12 \<le> fuel" and "l + 2 \<le> fuel"
    and "first_awaited E 1 u (polls b) 10 k m1"
    and "data_bytes (rx_Data m1) = [0x03, u, c1, c2, c3, c4, x1, x2]"
    and "\<forall>j < l. rx E (polls b + k + 1 + j) = None"
    and "rx E (polls b + k + 1 + l) = Some m2"
    and "data_bytes (rx_Data m2) = [0x04, u, a1, a2, a3, chk, com, x3]"
  shows "Can_SendPBus_Com fuel E u uBuff b =
     Inr (0xAA, [0x05, c1, c2, c3, c4, a1, a2, a3, chk, com] @ drop 10 uBuff,
          (poll_sent u b)\<lparr>polls := polls b + k + l + 2\<rparr>)"
proof -
  let ?b1 = "poll_sent u b" and ?b2 = "(poll_sent u b)\<lparr>polls := polls b + k + 1\<rparr>"
  have dlc: "rx_DLC m1 \<noteq> 0" "rx_DLC m2 \<noteq> 0"
    using assms(1,6,9) by (auto simp: first_awaited_def frames_carry_data_def)
  have one: "match_loop fuel E 1 u 0 10 zeros8 ?b1 =
      Inr (rx_DLC m1, 10 - of_nat k, data_bytes (rx_Data m1), ?b2)"
    using match_loop_first [OF assms(1,2), of 1 10 fuel ?b1 k m1] assms(4,6) by simp
  have two: "match_loop fuel E 1 u 0 10 (data_bytes (rx_Data m1)) ?b2 =
      Inr (rx_DLC m2, 10, data_bytes (rx_Data m2), ?b2\<lparr>polls := polls ?b2 + l + 1\<rparr>)"
  proof (rule match_loop_spin)
    show "\<forall>n. polls ?b2 \<le> n \<and> n < polls ?b2 + l \<longrightarrow> rx E n = None"
      using assms(8) by (auto dest!: le_Suc_ex)
    show "rx E (polls ?b2 + l) = Some m2" using assms(9) by simp
    show "awaited E 1 u (polls ?b2 + l)" using assms(9,10) dlc(2) by (simp add: awaited_def)
  qed (use assms(5,7) in simp_all)
  have len: "5 \<le> length uBuff" "10 \<le> length ([0x05, c1, c2, c3, c4] @ drop 5 uBuff)"
    using assms(3) by simp_all
  have p1: "take_packet1 0x05 uBuff (data_bytes (rx_Data m1)) = Inr ([0x05, c1, c2, c3, c4] @ drop 5 uBuff)"
    by (simp add: take_packet1_ok [OF len(1)] assms(7))
  show ?thesis
    unfolding Can_SendPBus_Com_def Package_Send_poll poll_sent_def [symmetric] ebind_Inr one
      prod.case using dlc two p1
    by (simp add: assms(7,10) take_packet2_ok [OF len(2), simplified] ac_simps)
qed

text \<open>
  Packet 1 of a removal (0x05) leaves \<open>res\<close> nonzero: the wait for packet 2 is skipped, and the
  poll returns 0 with only the first five bytes filled in, however promptly packet 2 follows.
\<close>

lemma poll_removal_packet1:
  assumes "frames_carry_data E" and "u \<noteq> 0" and "10 \<le> length uBuff" and "12 \<le> fuel"
    and "first_awaited E 1 u (polls b) 10 k m1"
    and "data_bytes (rx_Data m1) = [0x05, u, c1, c2, c3, c4, x1, x2]"
  shows "Can_SendPBus_Com fuel E u uBuff b =
     Inr (0x00, [0x06, c1, c2, c3, c4] @ drop 5 uBuff, (poll_sent u b)\<lparr>polls := polls b + k + 1\<rparr>)"
proof -
  let ?b1 = "poll_sent u b" and ?b2 = "(poll_sent u b)\<lparr>polls := polls b + k + 1\<rparr>"
  have dlc: "rx_DLC m1 \<noteq> 0"
    using assms(1,5) by (auto simp: first_awaited_def frames_carry_data_def)
  have one: "match_loop fuel E 1 u 0 10 zeros8 ?b1 =
      Inr (rx_DLC m1, 10 - of_nat k, data_bytes (rx_Data m1), ?b2)"
    using match_loop_first [OF assms(1,2), of 1 10 fuel ?b1 k m1] assms(4,5) by simp
  have two: "match_loop fuel E 1 u (rx_DLC m1) 10 (data_bytes (rx_Data m1)) ?b2 =
      Inr (rx_DLC m1, 10, data_bytes (rx_Data m1), ?b2)"
    using dlc assms(4) by (intro match_loop_done) auto
  have p1: "take_packet1 0x06 uBuff (data_bytes (rx_Data m1)) = Inr ([0x06, c1, c2, c3, c4] @ drop 5 uBuff)"
    using assms(3) by (simp add: take_packet1_ok assms(6))
  show ?thesis
    unfolding Can_SendPBus_Com_def Package_Send_poll poll_sent_def [symmetric] ebind_Inr one
      prod.case using dlc two p1 by (simp add: assms(6))
qed

text \<open>Packet 2 of a removal (or of an insertion) as the first answer to a poll.\<close>

lemma poll_packet2:
  assumes "frames_carry_data E" and "u \<noteq> 0" and "10 \<le> length uBuff" and "12 \<le> fuel"
    and "first_awaited E 1 u (polls b) 10 k m2"
    and "data_bytes (rx_Data m2) = [0x06, u, a1, a2, a3, chk, com, x3]"
  shows "Can_SendPBus_Com fuel E u uBuff b =
     Inr (0xAA, take 5 uBuff @ [a1, a2, a3, chk, com] @ drop 10 uBuff,
          (poll_sent u b)\<lparr>polls := polls b + k + 1\<rparr>)"
proof -
  have dlc: "rx_DLC m2 \<noteq> 0"
    using assms(1,5) by (auto simp: first_awaited_def frames_carry_data_def)
  have one: "match_loop fuel E 1 u 0 10 zeros8 (poll_sent u b) =
      Inr (rx_DLC m2, 10 - of_nat k, data_bytes (rx_Data m2), (poll_sent u b)\<lparr>polls := polls b + k + 1\<rparr>)"
    using match_loop_first [OF assms(1,2), of 1 10 fuel "poll_sent u b" k m2] assms(4,5) by simp
  show ?thesis
    unfolding Can_SendPBus_Com_def Package_Send_poll poll_sent_def [symmetric] ebind_Inr one
      prod.case using dlc by (simp add: assms(6) take_packet2_ok [OF assms(3), simplified])
qed

text \<open>A poll of a reader that does not answer, and of one that has nothing to report.\<close>

lemma poll_idle:
  assumes "frames_carry_data E" and "u \<noteq> 0" and "12 \<le> fuel"
    and "first_awaited E 1 u (polls b) 10 k m"
    and "data_bytes (rx_Data m) = [0x02, u, x1, x2, x3, x4, x5, x6]"
  shows "Can_SendPBus_Com fuel E u uBuff b =
     Inr (0x02, uBuff, (poll_sent u b)\<lparr>polls := polls b + k + 1\<rparr>)"
proof -
  have dlc: "rx_DLC m \<noteq> 0"
    using assms(1,4) by (auto simp: first_awaited_def frames_carry_data_def)
  have one: "match_loop fuel E 1 u 0 10 zeros8 (poll_sent u b) =
      Inr (rx_DLC m, 10 - of_nat k, data_bytes (rx_Data m), (poll_sent u b)\<lparr>polls := polls b + k + 1\<rparr>)"
    using match_loop_first [OF assms(1,2), of 1 10 fuel "poll_sent u b" k m] assms(3,4) by simp
  show ?thesis
    unfolding Can_SendPBus_Com_def Package_Send_poll poll_sent_def [symmetric] ebind_Inr one
      prod.case using dlc by (simp add: assms(5))
qed

text \<open>
  The insertion of a card is read in full: when the reader polled answers with packet 1
  (0x03 and the card number) within ten polls and its packet 2 (0x04 and the balance) is the
  next frame on the bus, \<open>Can_SendPBus_Com\<close> returns 0xAA with the ten bytes of the event in
  the caller's buffer, whatever the bus carries afterwards.
\<close>

theorem Can_SendPBus_Com_inserted:
  assumes "frames_carry_data E" and "u \<noteq> 0" and "10 \<le> length uBuff"
    and "12 \<le> fuel" and "l + 2 \<le> fuel"
    and "first_awaited E 1 u (polls b) 10 k m1"
    and "data_bytes (rx_Data m1) = [0x03, u, c1, c2, c3, c4, x1, x2]"
    and "\<forall>j < l. rx E (polls b + k + 1 + j) = None"
    and "rx E (polls b + k + 1 + l) = Some m2"
    and "data_bytes (rx_Data m2) = [0x04, u, a1, a2, a3, chk, com, x3]"
  shows "Can_SendPBus_Com fuel E u uBuff b =
     Inr (0xAA, [0x05, c1, c2, c3, c4, a1, a2, a3, chk, com] @ drop 10 uBuff,
          (poll_sent u b)\<lparr>polls := polls b + k + l + 2\<rparr>)"
  using assms by (rule poll_inserted)

text \<open>
  The wait for packet 2 has no timeout: after packet 1 of an inserted card the buffer
  already holds the address awaited, so a poll that finds nothing no longer counts, and if
  the reader sends nothing more \<open>Can_SendPBus_Com\<close> does not return, for any bound on the
  iterations.
\<close>

theorem Can_SendPBus_Com_hangs_without_packet2:
  assumes "frames_carry_data E" and "u \<noteq> 0" and "10 \<le> length uBuff"
    and "first_awaited E 1 u (polls b) 10 k m1"
    and "data_bytes (rx_Data m1) = [0x03, u, c1, c2, c3, c4, x1, x2]"
    and "\<forall>n > polls b + k. rx E n = None"
  shows "Can_SendPBus_Com fuel E u uBuff b = Inl Still_Running"
proof -
  let ?b1 = "poll_sent u b" and ?b2 = "(poll_sent u b)\<lparr>polls := polls b + k + 1\<rparr>"
  have dlc: "rx_DLC m1 \<noteq> 0"
    using assms(1,4) by (auto simp: first_awaited_def frames_carry_data_def)
  have "match_loop 12 E 1 u 0 10 zeros8 ?b1 =
      Inr (rx_DLC m1, 10 - of_nat k, data_bytes (rx_Data m1), ?b2)"
    using match_loop_first [OF assms(1,2), of 1 10 12 ?b1 k m1] assms(4) by simp
  from match_loop_any_fuel [OF this, of fuel]
  consider "match_loop fuel E 1 u 0 10 zeros8 ?b1 = Inl Still_Running"
    | "match_loop fuel E 1 u 0 10 zeros8 ?b1 =
        Inr (rx_DLC m1, 10 - of_nat k, data_bytes (rx_Data m1), ?b2)" by blast
  then show ?thesis
  proof cases
    case 1
    then show ?thesis
      unfolding Can_SendPBus_Com_def Package_Send_poll poll_sent_def [symmetric] by simp
  next
    case 2
    have stuck: "match_loop fuel E 1 u 0 10 (data_bytes (rx_Data m1)) ?b2 = Inl Still_Running"
      by (rule match_loop_stuck) (use assms(5,6) in auto)
    have p1: "take_packet1 0x05 uBuff (data_bytes (rx_Data m1)) = Inr ([0x05, c1, c2, c3, c4] @ drop 5 uBuff)"
      using assms(3) by (simp add: take_packet1_ok assms(5))
    show ?thesis
      unfolding Can_SendPBus_Com_def Package_Send_poll poll_sent_def [symmetric] ebind_Inr 2
        prod.case using dlc stuck p1 by (simp add: assms(5))
  qed
qed

text \<open>
  \<open>Can_WriteLogitADD\<close> reports a reader version only on an acknowledgement: if it returns
  a nonzero value, it sent the registration frame for this physical and logical address and
  received a frame 0xC2 that repeats both and carries that value.
\<close>

theorem Can_WriteLogitADD_sound:
  assumes "Can_WriteLogitADD fuel E a [p0, p1, p2, p3] b = Inr (v, b')" and "v \<noteq> 0"
  shows "sent b' = sent (frame_sent 0x200 [0xC1, p0, p1, p2, p3, a, 0, 0] b) \<and>
     (\<exists>n m x. polls b \<le> n \<and> n < polls b' \<and> rx E n = Some m \<and> rx_DLC m \<noteq> 0 \<and>
        data_bytes (rx_Data m) = [0xC2, p0, p1, p2, p3, a, v, x])"
proof -
  let ?b1 = "frame_sent 0x200 [0xC1, p0, p1, p2, p3, a, 0, 0] b"
  from assms obtain res ov buf where loop: "match_loop fuel E 5 a 0 20 zeros8 ?b1 = Inr (res, ov, buf, b')"
    and res: "res \<noteq> 0" and buf: "buf ! 0 = 0xC2" "buf ! 1 = p0" "buf ! 2 = p1" "buf ! 3 = p2"
      "buf ! 4 = p3" "buf ! 5 = a" "v = buf ! 6"
    by (auto simp: Can_WriteLogitADD_def get_bytes_4 Package_Send_register Let_def ebind_eq_Inr_iff
        split: if_splits)
  from match_loop_sound [OF loop res] obtain n m where n: "polls b \<le> n" "n < polls b'"
    "rx E n = Some m" "rx_DLC m = res" "buf = data_bytes (rx_Data m)" "sent b' = sent ?b1" by auto
  moreover have "\<exists>x. data_bytes (rx_Data m) = [0xC2, p0, p1, p2, p3, a, v, x]"
    using buf n(5) by (cases "rx_Data m") simp
  ultimately show ?thesis using res by blast
qed

text \<open>
  When every frame on the bus carries data and the logical address is not 0, a
  registration returns after at most 20 polls, with the version byte of the first frame that
  carries the address if that frame acknowledges the registration, and 0 otherwise.
\<close>

theorem Can_WriteLogitADD_terminates:
  assumes "frames_carry_data E" and "a \<noteq> 0" and "22 \<le> fuel"
  shows "\<exists>v b'. Can_WriteLogitADD fuel E a [p0, p1, p2, p3] b = Inr (v, b') \<and>
     polls b' \<le> polls b + 20 \<and>
     (v = 0 \<or> (\<exists>k m x. first_awaited E 5 a (polls b) 20 k m \<and>
        data_bytes (rx_Data m) = [0xC2, p0, p1, p2, p3, a, v, x]))"
proof -
  let ?b1 = "frame_sent 0x200 [0xC1, p0, p1, p2, p3, a, 0, 0] b"
  have "zeros8 ! 5 \<noteq> a" using assms(2) by (simp add: zeros8_nth)
  moreover have "unat (20 :: u8) + 2 \<le> fuel" using assms(3) by simp
  moreover note match_loop_ends [OF assms(1), of zeros8 5 a 20 fuel ?b1]
  ultimately obtain res ov buf b' where
    loop: "match_loop fuel E 5 a 0 20 zeros8 ?b1 = Inr (res, ov, buf, b')"
    "polls b' \<le> polls b + 20"
    "res = 0 \<or> (\<exists>k m. first_awaited E 5 a (polls b) 20 k m \<and> buf = data_bytes (rx_Data m))"
  proof (elim meta_impE disjE exE conjE)
    fix k m
    assume "k < unat (20 :: u8)" "\<forall>j < k. \<not> awaited E 5 a (polls ?b1 + j)"
      "rx E (polls ?b1 + k) = Some m" "awaited E 5 a (polls ?b1 + k)"
      "match_loop fuel E 5 a 0 20 zeros8 ?b1 =
        Inr (rx_DLC m, 20 - of_nat k, data_bytes (rx_Data m), ?b1\<lparr>polls := polls ?b1 + k + 1\<rparr>)"
    then show thesis
      by (intro that [of "rx_DLC m" "20 - of_nat k" "data_bytes (rx_Data m)"
            "?b1\<lparr>polls := polls ?b1 + k + 1\<rparr>"]) (auto simp: first_awaited_def)
  next
    fix buf'
    assume "match_loop fuel E 5 a 0 20 zeros8 ?b1 =
      Inr (0, 0, buf', ?b1\<lparr>polls := polls ?b1 + unat (20 :: u8)\<rparr>)"
    then show thesis
      by (intro that [of 0 0 buf' "?b1\<lparr>polls := polls ?b1 + unat (20 :: u8)\<rparr>"]) simp_all
  qed
  have eq: "Can_WriteLogitADD fuel E a [p0, p1, p2, p3] b =
      Inr (if res \<noteq> 0 \<and> buf ! 0 = 0xC2 \<and> buf ! 1 = p0 \<and> buf ! 2 = p1 \<and> buf ! 3 = p2 \<and>
             buf ! 4 = p3 \<and> buf ! 5 = a then buf ! 6 else 0, b')"
    by (auto simp: Can_WriteLogitADD_def get_bytes_4 Package_Send_register loop(1) Let_def)
  show ?thesis
  proof (cases "res \<noteq> 0 \<and> buf ! 0 = 0xC2 \<and> buf ! 1 = p0 \<and> buf ! 2 = p1 \<and> buf ! 3 = p2 \<and>
      buf ! 4 = p3 \<and> buf ! 5 = a")
    case True
    then obtain k m where km: "first_awaited E 5 a (polls b) 20 k m" "buf = data_bytes (rx_Data m)"
      using loop(3) by blast
    have "\<exists>x. data_bytes (rx_Data m) = [0xC2, p0, p1, p2, p3, a, buf ! 6, x]"
      using True km(2) by (cases "rx_Data m") simp
    with eq True km(1) loop(2) show ?thesis by auto
  next
    case False
    with eq loop(2) show ?thesis by auto
  qed
qed

lemma any_loop_first:
  "\<forall>j < k. \<forall>m. rx E (polls b + j) = Some m \<longrightarrow> rx_DLC m = 0 \<Longrightarrow> rx E (polls b + k) = Some m \<Longrightarrow>
   rx_DLC m \<noteq> 0 \<Longrightarrow> k < n \<Longrightarrow>
   any_loop n E buf b = (rx_DLC m, data_bytes (rx_Data m), b\<lparr>polls := polls b + k + 1\<rparr>)"
proof (induction n arbitrary: k buf b)
  case 0
  then show ?case by simp
next
  case (Suc n)
  show ?case
  proof (cases k)
    case 0
    with Suc.prems show ?thesis by (simp add: Can_Receive_Msg_def)
  next
    case (Suc k')
    have "any_loop (Suc n) E buf b = any_loop n E (fst (snd (Can_Receive_Msg E buf b)))
        (b\<lparr>polls := polls b + 1\<rparr>)"
    proof (cases rule: Can_Receive_Msg_cases [of E b buf])
      case (frame m')
      have "rx_DLC m' = 0" using Suc.prems(1) Suc frame(1) by (metis add_0_right zero_less_Suc)
      with frame show ?thesis by simp
    qed simp
    moreover have "\<forall>j < k'. \<forall>m. rx E (polls (b\<lparr>polls := polls b + 1\<rparr>) + j) = Some m \<longrightarrow> rx_DLC m = 0"
      using Suc.prems(1) Suc by (auto dest: spec [of _ "Suc _"])
    ultimately show ?thesis
      using Suc.IH [of k' "b\<lparr>polls := polls b + 1\<rparr>"] Suc.prems(2-4) Suc by simp
  qed
qed

text \<open>
  An unregistered reader is taken only with a valid checksum: when the first frame with
  data within 20 polls is \<open>[c, u0, u1, u2, u3, s, ..]\<close>, \<open>Can_ReadUnregistered\<close> returns 1 exactly
  if \<open>c\<close> is 0xB3 and \<open>s\<close> is the CRC-8 of the four address bytes, which are then in the
  caller's buffer; on any other frame it returns 0.
\<close>

theorem Can_ReadUnregistered_checks_crc:
  assumes "4 \<le> length uBuff" and "k < 20" and "rx E (polls b + k) = Some m" and "rx_DLC m \<noteq> 0"
    and "\<forall>j < k. \<forall>m. rx E (polls b + j) = Some m \<longrightarrow> rx_DLC m = 0"
    and "data_bytes (rx_Data m) = [c, u0, u1, u2, u3, s, x, y]"
  shows "Can_ReadUnregistered E uBuff b =
     Inr (if c = 0xB3 \<and> s = crc8_poly [u0, u1, u2, u3] then 1 else 0,
          if c = 0xB3 then [u0, u1, u2, u3] @ drop 4 uBuff else uBuff,
          b\<lparr>polls := polls b + k + 1\<rparr>)"
proof -
  have loop: "any_loop 20 E zeros8 b = (rx_DLC m, [c, u0, u1, u2, u3, s, x, y], b\<lparr>polls := polls b + k + 1\<rparr>)"
    using any_loop_first [OF assms(5,3,4,2)] assms(6) by simp
  have put: "put_bytes uBuff 0 [u0, u1, u2, u3] = Inr ([u0, u1, u2, u3] @ drop 4 uBuff)"
    using assms(1) by (simp add: put_bytes_ok eval_nat_numeral)
  have crc: "CRC8_Table (u0 # u1 # u2 # u3 # drop 4 uBuff) 4 = Inr (crc8_poly [u0, u1, u2, u3])"
    using assms(1) by (simp add: CRC8_Table_eq)
  show ?thesis
    using assms(4) by (auto simp: Can_ReadUnregistered_def loop put crc)
qed

section \<open>Witnesses\<close>

definition reader_env :: "(nat \<Rightarrow> can_data option) \<Rightarrow> can_env" where
  "reader_env f = \<lparr>rx = (\<lambda>n. map_option (\<lambda>d. \<lparr>rx_DLC = 8, rx_Data = d\<rparr>) (f n)), tx_failed = (\<lambda>n i. False)\<rparr>"

lemma reader_env_rx [simp]:
  "rx (reader_env f) n = map_option (\<lambda>d. \<lparr>rx_DLC = 8, rx_Data = d\<rparr>) (f n)"
  by (simp add: reader_env_def)

lemma reader_env_carry_data [simp]: "frames_carry_data (reader_env f)"
  by (auto simp: frames_carry_data_def)

definition quiet_bus :: can_bus where "quiet_bus = \<lparr>polls = 0, sent = []\<rparr>"

lemma polls_quiet_bus [simp]: "polls quiet_bus = 0"
  by (simp add: quiet_bus_def)

text \<open>Reader 7 answers poll 1 with packet 1 of kind \<open>k\<close> and poll 4 with packet 2.\<close>

definition card_at :: "u8 \<Rightarrow> nat \<Rightarrow> can_data option" where
  "card_at k n = (if n = 1 then Some (Can_Data k 7 0x11 0x22 0x33 0x44 0 0)
                  else if n = 4 then Some (Can_Data (k + 1) 7 0x00 0x01 0x90 0x5A 0x42 0) else None)"

lemma card_at_first:
  "first_awaited (reader_env (card_at k)) 1 7 0 10 1
     \<lparr>rx_DLC = 8, rx_Data = Can_Data k 7 0x11 0x22 0x33 0x44 0 0\<rparr>"
  by (simp add: first_awaited_def awaited_def card_at_def)

lemmas card_at_first' = card_at_first [unfolded One_nat_def]

lemma Can_SendPBus_Com_inserted_witness:
  "Can_SendPBus_Com 12 (reader_env (card_at 0x03)) 7 (replicate 10 0) quiet_bus =
     Inr (0xAA, [0x05, 0x11, 0x22, 0x33, 0x44, 0x00, 0x01, 0x90, 0x5A, 0x42] @ drop 10 (replicate 10 0),
          (poll_sent 7 quiet_bus)\<lparr>polls := polls quiet_bus + 1 + 2 + 2\<rparr>)"
  by (rule Can_SendPBus_Com_inserted [where
        ?m1.0 = "\<lparr>rx_DLC = 8, rx_Data = Can_Data 0x03 7 0x11 0x22 0x33 0x44 0 0\<rparr>" and
        ?m2.0 = "\<lparr>rx_DLC = 8, rx_Data = Can_Data 0x04 7 0x00 0x01 0x90 0x5A 0x42 0\<rparr>"])
     (simp_all add: card_at_first' card_at_def)

lemma Can_SendPBus_Com_hangs_without_packet2_witness:
  "Can_SendPBus_Com 1000 (reader_env (\<lambda>n. if n = 1 then card_at 0x03 1 else None)) 7 (replicate 10 0)
     quiet_bus = Inl Still_Running"
  by (rule Can_SendPBus_Com_hangs_without_packet2 [where k = 1 and
        ?m1.0 = "\<lparr>rx_DLC = 8, rx_Data = Can_Data 0x03 7 0x11 0x22 0x33 0x44 0 0\<rparr>"])
     (simp_all add: first_awaited_def awaited_def card_at_def)

definition ack_at :: "nat \<Rightarrow> can_data option" where
  "ack_at n = (if n = 2 then Some (Can_Data 0xC2 1 2 3 4 9 0x21 0) else None)"

lemma Can_WriteLogitADD_terminates_witness:
  "\<exists>v b'. Can_WriteLogitADD 22 (reader_env ack_at) 9 [1, 2, 3, 4] quiet_bus = Inr (v, b') \<and>
     polls b' \<le> polls quiet_bus + 20 \<and>
     (v = 0 \<or> (\<exists>k m x. first_awaited (reader_env ack_at) 5 9 (polls quiet_bus) 20 k m \<and>
        data_bytes (rx_Data m) = [0xC2, 1, 2, 3, 4, 9, v, x]))"
  by (rule Can_WriteLogitADD_terminates) simp_all

lemma ack_at_registers:
  "\<exists>b'. Can_WriteLogitADD 22 (reader_env ack_at) 9 [1, 2, 3, 4] quiet_bus = Inr (0x21, b')"
proof -
  let ?m = "\<lparr>rx_DLC = 8, rx_Data = Can_Data 0xC2 1 2 3 4 9 0x21 0\<rparr>"
  have "first_awaited (reader_env ack_at) 5 9 0 20 2 ?m"
    by (auto simp: first_awaited_def awaited_def ack_at_def)
  then show ?thesis
    using match_loop_first [of "reader_env ack_at" 9 5 20 22
        "frame_sent 0x200 [0xC1, 1, 2, 3, 4, 9, 0, 0] quiet_bus" 2 ?m]
    by (simp add: Can_WriteLogitADD_def get_bytes_4 Package_Send_register Let_def)
qed

lemma Can_WriteLogitADD_sound_witness:
  "\<exists>b' :: can_bus. sent b' = sent (frame_sent 0x200 [0xC1, 1, 2, 3, 4, 9, 0, 0] quiet_bus) \<and>
     (\<exists>n m x. polls quiet_bus \<le> n \<and> n < polls b' \<and> rx (reader_env ack_at) n = Some m \<and>
        rx_DLC m \<noteq> 0 \<and> data_bytes (rx_Data m) = [0xC2, 1, 2, 3, 4, 9, 0x21, x])"
proof -
  obtain b' where "Can_WriteLogitADD 22 (reader_env ack_at) 9 [1, 2, 3, 4] quiet_bus = Inr (0x21, b')"
    using ack_at_registers by blast
  note sound = Can_WriteLogitADD_sound [OF this]
  show ?thesis by (rule exI, rule sound) simp
qed

lemma Can_ReadUnregistered_checks_crc_witness:
  "Can_ReadUnregistered (reader_env (\<lambda>n. if n = 3 then Some (Can_Data 0xB3 1 2 3 4 0xF4 0 0) else None))
     (replicate 4 0) quiet_bus =
   Inr (if (0xB3 :: u8) = 0xB3 \<and> 0xF4 = crc8_poly [1, 2, 3, 4] then 1 else 0,
        if (0xB3 :: u8) = 0xB3 then [1, 2, 3, 4] @ drop 4 (replicate 4 0) else replicate 4 0,
        quiet_bus\<lparr>polls := polls quiet_bus + 3 + 1\<rparr>)"
  by (rule Can_ReadUnregistered_checks_crc [where
        m = "\<lparr>rx_DLC = 8, rx_Data = Can_Data 0xB3 1 2 3 4 0xF4 0 0\<rparr>"]) simp_all

end
