(* ===== verification/AddrTable.thy ===== *)
theory AddrTable
  imports Eeprom CanBus
begin

text \<open>
  The persistent data of the controller (HARDWARE/BSP/bsp_useadd.c and \<open>AT24CXX_Check\<close> of
  bsp_24cxx.c): the table that maps the physical addresses of the card readers to logical
  addresses 1 to 80, and the configuration block. Also the part of the controller's state
  that the tasks share (the globals of USER/main.c that these functions use).
\<close>

section \<open>The shared state\<close>

definition BUSNUM_SIZE :: nat where "BUSNUM_SIZE = 80"
definition ADD_SIZE :: nat where "ADD_SIZE = BUSNUM_SIZE"
definition Start_ADD :: nat where "Start_ADD = 0x0A"
definition COUNT_ADD :: u16 where "COUNT_ADD = 0x0001"
definition Logic_ADD :: u16 where "Logic_ADD = 0"
definition Physical_ADD1 :: u16 where "Physical_ADD1 = 1"

record 'd acu =
  ee :: "'d iic"
  can :: can_bus
  g_RUNDate :: "u8 list list"   \<comment> \<open>\<open>BUSNUM_SIZE+1\<close> rows of 14 bytes\<close>
  KJ_Versions :: "u8 list"      \<comment> \<open>\<open>BUSNUM_SIZE\<close> bytes\<close>
  FM1702_Key :: "u8 list"
  FM1702KeyCRC :: u8
  g_lwipADD :: "u8 list"
  g_lwipPort :: u16
  g_ACUSN :: "u8 list"
  g_ACUAdd :: "u8 list"
  g_Setip :: "u8 list"
  g_Setnetmask :: "u8 list"
  g_Setgateway :: "u8 list"
  g_CostNum :: u8
  g_WaterCost :: u8

definition run_get :: "'d acu \<Rightarrow> nat \<Rightarrow> nat \<Rightarrow> fault + u8" where
  "run_get s i j = ebind (arr_get (g_RUNDate s) i) (\<lambda>row. arr_get row j)"

definition run_set :: "'d acu \<Rightarrow> nat \<Rightarrow> nat \<Rightarrow> u8 \<Rightarrow> fault + 'd acu" where
  "run_set s i j v =
     ebind (arr_get (g_RUNDate s) i) (\<lambda>row.
     ebind (arr_set row j v) (\<lambda>row'.
     ebind (arr_set (g_RUNDate s) i row') (\<lambda>rows. Inr (s\<lparr>g_RUNDate := rows\<rparr>))))"

definition run_put :: "'d acu \<Rightarrow> nat \<Rightarrow> nat \<Rightarrow> u8 list \<Rightarrow> fault + 'd acu" where
  "run_put s i j vs =
     ebind (arr_get (g_RUNDate s) i) (\<lambda>row.
     ebind (put_bytes row j vs) (\<lambda>row'.
     ebind (arr_set (g_RUNDate s) i row') (\<lambda>rows. Inr (s\<lparr>g_RUNDate := rows\<rparr>))))"

definition set_version :: "'d acu \<Rightarrow> nat \<Rightarrow> u8 \<Rightarrow> fault + 'd acu" where
  "set_version s i v = ebind (arr_set (KJ_Versions s) i v) (\<lambda>vs. Inr (s\<lparr>KJ_Versions := vs\<rparr>))"

section \<open>The address table\<close>

definition entry_addr :: "nat \<Rightarrow> u16" where
  "entry_addr i = of_nat (Start_ADD + i * 5) OR Logic_ADD"

text \<open>First loop of \<open>Distribute_LogicADD\<close>: the entry that already holds this address.\<close>

fun find_assigned ::
  "'d i2c_dev \<Rightarrow> u8 list \<Rightarrow> nat \<Rightarrow> nat \<Rightarrow> 'd iic \<Rightarrow> nat option \<times> 'd iic" where
  "find_assigned D phys i 0 s = (None, s)"
| "find_assigned D phys i (Suc n) s =
     (let Temp = entry_addr i; (u8Temp, s1) = AT24CXX_ReadOneByte D Temp s in
      if u8Temp = of_nat i then
        let (Physical_Temp, s2) = AT24CXX_Read D (Temp + 1) 4 s1 in
        if phys ! 3 = Physical_Temp ! 3 \<and> phys ! 2 = Physical_Temp ! 2 \<and>
           phys ! 0 = Physical_Temp ! 0 \<and> phys ! 1 = Physical_Temp ! 1
        then (Some i, s2) else find_assigned D phys (Suc i) n s2
      else find_assigned D phys (Suc i) n s1)"

text \<open>Second loop: the first entry not in use is taken, and the number of entries counted.\<close>

fun take_free :: "'d i2c_dev \<Rightarrow> u8 list \<Rightarrow> nat \<Rightarrow> nat \<Rightarrow> 'd iic \<Rightarrow> nat option \<times> 'd iic" where
  "take_free D phys i 0 s = (None, s)"
| "take_free D phys i (Suc n) s =
     (let Temp = entry_addr i; (u8Temp, s1) = AT24CXX_ReadOneByte D Temp s in
      if u8Temp \<noteq> of_nat i then
        let s2 = AT24CXX_WriteOneByte D Temp (of_nat i) s1;
            s3 = AT24CXX_WriteOneByte D (Temp + 1) (phys ! 0) s2;
            s4 = AT24CXX_WriteOneByte D (Temp + 2) (phys ! 1) s3;
            s5 = AT24CXX_WriteOneByte D (Temp + 3) (phys ! 2) s4;
            s6 = AT24CXX_WriteOneByte D (Temp + 4) (phys ! 3) s5;
            (Logic_Count, s7) = AT24CXX_ReadOneByte D COUNT_ADD s6
        in (Some i, AT24CXX_WriteOneByte D COUNT_ADD (Logic_Count + 1) s7)
      else take_free D phys (Suc i) n s1)"

definition Distribute_LogicADD ::
  "'d i2c_dev \<Rightarrow> u8 list \<Rightarrow> 'd iic \<Rightarrow> fault + (u8 \<times> 'd iic)" where
  "Distribute_LogicADD D Physical_no s =
     ebind (get_bytes Physical_no 0 4) (\<lambda>phys.
       Inr (case find_assigned D phys 1 ADD_SIZE s of
              (Some i, s1) \<Rightarrow> (of_nat i, s1)
            | (None, s1) \<Rightarrow>
                (case take_free D phys 1 ADD_SIZE s1 of
                   (Some i, s2) \<Rightarrow> (of_nat i, s2)
                 | (None, s2) \<Rightarrow> (0xF3, s2))))"

text \<open>The loop of \<open>Delete_LogicADD\<close>. Note \<open>|\<close> where \<open>+\<close> is meant in the address of the
  physical bytes.\<close>

fun delete_loop :: "'d i2c_dev \<Rightarrow> u8 \<Rightarrow> nat \<Rightarrow> nat \<Rightarrow> 'd iic \<Rightarrow> 'd iic" where
  "delete_loop D Logic_no i 0 s = s"
| "delete_loop D Logic_no i (Suc n) s =
     (let (u, s1) = AT24CXX_ReadOneByte D (entry_addr i) s in
      if u = Logic_no then
        let s2 = wr_seq (AT24CXX_WriteOneByte D) (of_nat (Start_ADD + i * 5) OR Physical_ADD1)
                   [0, 0, 0, 0] s1;
            s3 = AT24CXX_WriteOneByte D (entry_addr i) 0x00 s2
        in delete_loop D Logic_no (Suc i) n s3
      else delete_loop D Logic_no (Suc i) n s1)"

definition Delete_LogicADD :: "'d i2c_dev \<Rightarrow> u8 \<Rightarrow> 'd acu \<Rightarrow> fault + (u8 \<times> 'd acu)" where
  "Delete_LogicADD D Logic_no s =
     (let e1 = delete_loop D Logic_no 1 ADD_SIZE (ee s) in
      ebind (run_set (s\<lparr>ee := e1\<rparr>) (unat Logic_no) 0 0x00) (\<lambda>s1.
      let (Logic_Count, e2) = AT24CXX_ReadOneByte D COUNT_ADD (ee s1);
          e3 = AT24CXX_WriteOneByte D COUNT_ADD (Logic_Count - 1) e2
      in Inr (Logic_Count - 1, s1\<lparr>ee := e3\<rparr>)))"

text \<open>What \<open>PowerUPLogitADDCheck\<close> does when a reader has acknowledged its address.\<close>

definition mark_present :: "nat \<Rightarrow> u8 list \<Rightarrow> 'd acu \<Rightarrow> fault + 'd acu" where
  "mark_present i phys s =
     ebind (run_get s 0 0) (\<lambda>n.
     ebind (run_set s 0 0 (n + 1)) (\<lambda>s1.
     ebind (run_set s1 i 0 0x80) (\<lambda>s2. run_put s2 i 1 phys)))"

definition register_entry ::
  "nat \<Rightarrow> 'd i2c_dev \<Rightarrow> can_env \<Rightarrow> nat \<Rightarrow> u8 list \<Rightarrow> 'd acu \<Rightarrow> fault + (u8 \<times> 'd acu)" where
  "register_entry fuel D E i phys s =
     ebind (Can_WriteLogitADD fuel E (of_nat i) phys (can s)) (\<lambda>(v, b).
     ebind (set_version (s\<lparr>can := b\<rparr>) i v) (\<lambda>s1. Inr (v, s1)))"

definition power_up_entry ::
  "nat \<Rightarrow> 'd i2c_dev \<Rightarrow> can_env \<Rightarrow> nat \<Rightarrow> 'd acu \<Rightarrow> fault + 'd acu" where
  "power_up_entry fuel D E i s =
     (let (u, e1) = AT24CXX_ReadOneByte D (entry_addr i) (ee s) in
      if u = of_nat i then
        let (phys, e2) = AT24CXX_Read D (entry_addr i + 1) 4 e1; s1 = s\<lparr>ee := e2\<rparr> in
        if phys ! 0 = 0 \<and> phys ! 1 = 0 \<and> phys ! 2 = 0 \<and> phys ! 3 = 0 then
          ebind (Delete_LogicADD D (of_nat i) s1) (\<lambda>(_, s2). set_version s2 i 0)
        else
          ebind (register_entry fuel D E i phys s1) (\<lambda>(v, s2).
            if v \<noteq> 0 then mark_present i phys s2
            else
              ebind (register_entry fuel D E i phys s2) (\<lambda>(v', s3).
                if v' \<noteq> 0 then mark_present i phys s3
                else ebind (Delete_LogicADD D (of_nat i) s3) (\<lambda>(_, s4). Inr s4)))
      else Inr (s\<lparr>ee := e1\<rparr>))"

fun power_up_loop ::
  "nat \<Rightarrow> 'd i2c_dev \<Rightarrow> can_env \<Rightarrow> nat \<Rightarrow> nat \<Rightarrow> 'd acu \<Rightarrow> fault + 'd acu" where
  "power_up_loop fuel D E i 0 s = Inr s"
| "power_up_loop fuel D E i (Suc n) s =
     ebind (power_up_entry fuel D E i s) (power_up_loop fuel D E (Suc i) n)"

definition PowerUPLogitADDCheck ::
  "nat \<Rightarrow> 'd i2c_dev \<Rightarrow> can_env \<Rightarrow> 'd acu \<Rightarrow> fault + 'd acu" where
  "PowerUPLogitADDCheck fuel D E s = power_up_loop fuel D E 1 ADD_SIZE s"

section \<open>The configuration block\<close>

definition Read_RFID_Key :: "'d i2c_dev \<Rightarrow> 'd iic \<Rightarrow> u8 list \<times> 'd iic" where
  "Read_RFID_Key D s = AT24CXX_Read D 230 7 s"

definition Write_RFID_Key :: "'d i2c_dev \<Rightarrow> u8 list \<Rightarrow> 'd iic \<Rightarrow> fault + 'd iic" where
  "Write_RFID_Key D t s =
     ebind (get_bytes t 0 7) (\<lambda>bs. Inr (wr_seq (AT24CXX_WriteOneByte D) 230 bs s))"

definition Read_IPAdd :: "'d i2c_dev \<Rightarrow> 'd iic \<Rightarrow> u8 list \<times> 'd iic" where
  "Read_IPAdd D s = AT24CXX_Read D 200 4 s"

definition Write_IPAdd :: "'d i2c_dev \<Rightarrow> u8 list \<Rightarrow> 'd iic \<Rightarrow> fault + 'd iic" where
  "Write_IPAdd D t s =
     ebind (get_bytes t 0 4) (\<lambda>bs. Inr (wr_seq (AT24CXX_WriteOneByte D) 200 bs s))"

definition Read_PortAdd :: "'d i2c_dev \<Rightarrow> 'd iic \<Rightarrow> u16 \<times> 'd iic" where
  "Read_PortAdd D s =
     (let (t, s1) = AT24CXX_Read D 204 2 s
      in (push_bit 8 (ucast (t ! 0)) OR ucast (t ! 1), s1))"

definition Write_PortAdd :: "'d i2c_dev \<Rightarrow> u16 \<Rightarrow> 'd iic \<Rightarrow> 'd iic" where
  "Write_PortAdd D p s =
     AT24CXX_WriteOneByte D 205 (of_nat (unat p mod 256))
       (AT24CXX_WriteOneByte D 204 (of_nat (unat p div 256)) s)"

definition Read_ACUSN :: "'d i2c_dev \<Rightarrow> 'd iic \<Rightarrow> u8 list \<times> 'd iic" where
  "Read_ACUSN D s = AT24CXX_Read D 206 4 s"

definition Write_ACUSN :: "'d i2c_dev \<Rightarrow> u8 list \<Rightarrow> 'd iic \<Rightarrow> fault + 'd iic" where
  "Write_ACUSN D t s =
     ebind (get_bytes t 0 4) (\<lambda>bs. Inr (wr_seq (AT24CXX_WriteOneByte D) 206 bs s))"

definition Read_ACUAdd :: "'d i2c_dev \<Rightarrow> 'd iic \<Rightarrow> u8 list \<times> 'd iic" where
  "Read_ACUAdd D s = AT24CXX_Read D 210 16 s"

definition Write_ACUAdd :: "'d i2c_dev \<Rightarrow> u8 list \<Rightarrow> 'd iic \<Rightarrow> fault + 'd iic" where
  "Write_ACUAdd D t s =
     ebind (get_bytes t 0 16) (\<lambda>bs. Inr (wr_seq (AT24CXX_WriteOneByte D) 210 bs s))"

definition Write_localIP :: "'d i2c_dev \<Rightarrow> u8 list \<Rightarrow> 'd iic \<Rightarrow> fault + 'd iic" where
  "Write_localIP D t s =
     ebind (get_bytes t 0 5) (\<lambda>bs. Inr (wr_seq (AT24CXX_WriteOneByte D) 239 bs s))"

definition Write_netmask :: "'d i2c_dev \<Rightarrow> u8 list \<Rightarrow> 'd iic \<Rightarrow> fault + 'd iic" where
  "Write_netmask D t s =
     ebind (get_bytes t 0 4) (\<lambda>bs. Inr (wr_seq (AT24CXX_WriteOneByte D) 244 bs s))"

definition Write_gateway :: "'d i2c_dev \<Rightarrow> u8 list \<Rightarrow> 'd iic \<Rightarrow> fault + 'd iic" where
  "Write_gateway D t s =
     ebind (get_bytes t 0 4) (\<lambda>bs. Inr (wr_seq (AT24CXX_WriteOneByte D) 248 bs s))"

definition Read_localIP :: "'d i2c_dev \<Rightarrow> 'd iic \<Rightarrow> u8 list \<times> 'd iic" where
  "Read_localIP D s = AT24CXX_Read D 239 5 s"

definition Read_netmask :: "'d i2c_dev \<Rightarrow> 'd iic \<Rightarrow> u8 list \<times> 'd iic" where
  "Read_netmask D s = AT24CXX_Read D 244 4 s"

definition Read_gateway :: "'d i2c_dev \<Rightarrow> 'd iic \<Rightarrow> u8 list \<times> 'd iic" where
  "Read_gateway D s = AT24CXX_Read D 248 4 s"

section \<open>The start-up check of the memory\<close>

definition default_RFID_Key :: "u8 list" where
  "default_RFID_Key = [0xFF, 0xFF, 0xFF, 0xFF, 0xFF, 0xF1, 0x29]"
definition default_ACUSN :: "u8 list" where "default_ACUSN = [0x20, 0x20, 0x01, 0x02]"
definition default_IPAdd :: "u8 list" where "default_IPAdd = [123, 57, 150, 25]"
definition default_PortAdd :: u16 where "default_PortAdd = 20000"
definition default_ACUAdd :: "u8 list" where
  "default_ACUAdd = [0x31, 0x30, 0x30, 0x30, 0x30, 0x30, 0x30, 0x2D,
                     0x62, 0x37, 0x36, 0x31, 0x63, 0x32, 0x62, 0x30]"

text \<open>The globals are filled from the memory as it was before the check.\<close>

definition load_config :: "'d i2c_dev \<Rightarrow> 'd acu \<Rightarrow> 'd acu" where
  "load_config D s =
     (let (key, e1) = Read_RFID_Key D (ee s);
          (ip, e2) = Read_IPAdd D e1;
          (port, e3) = Read_PortAdd D e2;
          (sn, e4) = Read_ACUSN D e3;
          (code, e5) = Read_ACUAdd D e4;
          (lip, e6) = Read_localIP D e5;
          s1 = s\<lparr>FM1702_Key := key, g_lwipADD := ip, g_lwipPort := port, g_ACUSN := sn,
                 g_ACUAdd := code, g_Setip := lip, ee := e6\<rparr>
      in if lip ! 0 = 0xAA then
           let (nm, e7) = Read_netmask D e6; (gw, e8) = Read_gateway D e7
           in s1\<lparr>g_Setnetmask := nm, g_Setgateway := gw, ee := e8\<rparr>
         else s1)"

definition write_defaults :: "'d i2c_dev \<Rightarrow> 'd iic \<Rightarrow> fault + 'd iic" where
  "write_defaults D e0 =
     ebind (Write_RFID_Key D default_RFID_Key (Delete_allDat D e0)) (\<lambda>e1.
     ebind (Write_IPAdd D default_IPAdd e1) (\<lambda>e2.
     ebind (Write_ACUSN D default_ACUSN (Write_PortAdd D default_PortAdd e2)) (\<lambda>e3.
     ebind (Write_ACUAdd D default_ACUAdd e3) (\<lambda>e4.
       Inr (AT24CXX_WriteOneByte D 255 0x55 e4)))))"

definition AT24CXX_Check :: "'d i2c_dev \<Rightarrow> 'd acu \<Rightarrow> fault + (u8 \<times> 'd acu)" where
  "AT24CXX_Check D s =
     (let s1 = load_config D s; (temp, e1) = AT24CXX_ReadOneByte D 255 (ee s1) in
      if temp = 0x55 then Inr (0, s1\<lparr>ee := e1\<rparr>)
      else
        ebind (write_defaults D e1) (\<lambda>e2.
        let (temp2, e3) = AT24CXX_ReadOneByte D 255 e2
        in Inr (if temp2 = 0x55 then 0 else 1, s1\<lparr>ee := e3\<rparr>)))"

section \<open>What a client of the memory sees\<close>

lemma ee_rd:
  assumes "ee_ok D view s" and "unat a < 1024"
  obtains s' where "AT24CXX_ReadOneByte D a s = (cells view s ! unat a, s')" "ee_ok D view s'"
    "cells view s' = cells view s"
  using ee.rd_law [OF assms] by blast

lemma ee_read:
  assumes "ee_ok D view s" and "unat a + unat n \<le> 1024"
  obtains s' where "AT24CXX_Read D a n s = (take (unat n) (drop (unat a) (cells view s)), s')"
    "ee_ok D view s'" "cells view s' = cells view s"
  using ee.rd_seq_law [OF assms] by (auto simp: AT24CXX_Read_def)

lemma ee_cells_length: "ee_ok D view s \<Longrightarrow> length (cells view s) = 1024"
  by (rule ee.contents_length)

lemma ee_wr_seq:
  assumes "ee_ok D view s" and "unat a + length bs \<le> 1024"
  shows "ee_ok D view (wr_seq (AT24CXX_WriteOneByte D) a bs s)"
    and "cells view (wr_seq (AT24CXX_WriteOneByte D) a bs s) = overlay (unat a) bs (cells view s)"
  using ee.wr_seq_law [OF assms] by (simp_all add: overlay_def)

lemma ee_wr:
  assumes "ee_ok D view s" and "unat a < 1024"
  shows "ee_ok D view (AT24CXX_WriteOneByte D a v s)"
    and "cells view (AT24CXX_WriteOneByte D a v s) = (cells view s)[unat a := v]"
  using ee.wr_law [OF assms] by simp_all

section \<open>The table as a map\<close>

text \<open>The specification: a map from logical addresses 1 to 80 to physical addresses, and the
  assignment of a logical address to a physical one.\<close>

type_synonym addr_map = "nat \<Rightarrow> u8 list option"

definition assign :: "addr_map \<Rightarrow> u8 list \<Rightarrow> nat option \<times> addr_map" where
  "assign T phys =
     (case find (\<lambda>j. T j = Some phys) [1..<81] of
        Some j \<Rightarrow> (Some j, T)
      | None \<Rightarrow>
          (case find (\<lambda>j. T j = None) [1..<81] of
             Some j \<Rightarrow> (Some j, T(j \<mapsto> phys))
           | None \<Rightarrow> (None, T)))"

definition table :: "u8 list \<Rightarrow> addr_map" where
  "table m j = (if 1 \<le> j \<and> j \<le> 80 \<and> m ! (10 + 5 * j) = of_nat j
                then Some (take 4 (drop (11 + 5 * j) m)) else None)"

lemma unat_entry_addr: "i \<le> 80 \<Longrightarrow> unat (entry_addr i) = 10 + 5 * i"
  unfolding entry_addr_def Start_ADD_def Logic_ADD_def or.right_neutral
  by (subst unat_of_nat_u16) simp_all

lemma unat_entry_addr_plus: "i \<le> 80 \<Longrightarrow> k < 10 \<Longrightarrow> unat (entry_addr i + of_nat k) = 10 + 5 * i + k"
  by (simp add: unat_word_ariths unat_entry_addr unat_of_nat_u16)

lemma phys_eq_iff:
  assumes "length (phys :: u8 list) = 4" and "length xs = 4"
  shows "(phys ! 3 = xs ! 3 \<and> phys ! 2 = xs ! 2 \<and> phys ! 0 = xs ! 0 \<and> phys ! 1 = xs ! 1) \<longleftrightarrow> xs = phys"
proof -
  have "\<exists>a b c d. zs = [a, b, c, d]" if "length zs = 4" for zs :: "u8 list"
    using that by (auto simp: length_Suc_conv numeral_eq_Suc)
  from this [OF assms(1)] this [OF assms(2)] show ?thesis by auto
qed

lemma find_assigned_spec:
  "ee_ok D view s \<Longrightarrow> length phys = 4 \<Longrightarrow> 1 \<le> i \<Longrightarrow> i + n \<le> 81 \<Longrightarrow>
   \<exists>s'. find_assigned D phys i n s = (find (\<lambda>j. table (cells view s) j = Some phys) [i..<i + n], s') \<and>
     ee_ok D view s' \<and> cells view s' = cells view s"
proof (induction n arbitrary: i s)
  case 0
  then show ?case by simp
next
  case (Suc n)
  let ?m = "cells view s"
  have i: "i \<le> 80" using Suc.prems by simp
  have ne: "[i..<i + Suc n] = i # [Suc i..<Suc i + n]" by (simp add: upt_conv_Cons)
  obtain s1 where s1: "AT24CXX_ReadOneByte D (entry_addr i) s = (?m ! (10 + 5 * i), s1)"
    "ee_ok D view s1" "cells view s1 = ?m"
    using ee_rd [OF Suc.prems(1), of "entry_addr i"] unat_entry_addr [OF i] i by auto
  show ?case
  proof (cases "?m ! (10 + 5 * i) = of_nat i")
    case False
    with s1 Suc.IH [OF s1(2) Suc.prems(2), of "Suc i"] Suc.prems show ?thesis
      unfolding ne by (simp add: Let_def table_def)
  next
    case True
    have a: "unat (entry_addr i + 1) = 11 + 5 * i" using unat_entry_addr_plus [OF i, of 1] by simp
    obtain s2 where s2: "AT24CXX_Read D (entry_addr i + 1) 4 s1 = (take 4 (drop (11 + 5 * i) ?m), s2)"
      "ee_ok D view s2" "cells view s2 = ?m"
      using ee_read [OF s1(2), of "entry_addr i + 1" 4] s1(3) a i by auto
    let ?t = "take 4 (drop (11 + 5 * i) ?m)"
    have len: "length ?t = 4" using ee_cells_length [OF Suc.prems(1)] i by simp
    have T: "table ?m i = Some ?t" using True i Suc.prems(3) by (simp add: table_def)
    have step: "find_assigned D phys i (Suc n) s =
        (if ?t = phys then (Some i, s2) else find_assigned D phys (Suc i) n s2)"
      using s1(1) True s2(1) phys_eq_iff [OF Suc.prems(2) len]
      by (simp add: Let_def)
    show ?thesis
    proof (cases "?t = phys")
      case True
      with T step s2 show ?thesis unfolding ne by simp
    next
      case False
      with T step s2 Suc.IH [OF s2(2) Suc.prems(2), of "Suc i"] Suc.prems show ?thesis
        unfolding ne by simp
    qed
  qed
qed

text \<open>Taking entry \<open>i\<close> writes its five bytes and the count.\<close>

definition entry_taken :: "nat \<Rightarrow> u8 list \<Rightarrow> u8 list \<Rightarrow> u8 list" where
  "entry_taken i phys m =
     (let m' = overlay (10 + 5 * i) (of_nat i # phys) m in m'[1 := m' ! 1 + 1])"

lemma take_entry:
  assumes "ee_ok D view s" and "i \<le> 80" and "length phys = 4"
  shows "\<exists>s'. (let Temp = entry_addr i;
            s2 = AT24CXX_WriteOneByte D Temp (of_nat i) s;
            s3 = AT24CXX_WriteOneByte D (Temp + 1) (phys ! 0) s2;
            s4 = AT24CXX_WriteOneByte D (Temp + 2) (phys ! 1) s3;
            s5 = AT24CXX_WriteOneByte D (Temp + 3) (phys ! 2) s4;
            s6 = AT24CXX_WriteOneByte D (Temp + 4) (phys ! 3) s5;
            (Logic_Count, s7) = AT24CXX_ReadOneByte D COUNT_ADD s6
        in (Some i, AT24CXX_WriteOneByte D COUNT_ADD (Logic_Count + 1) s7)) = (Some i, s') \<and>
     ee_ok D view s' \<and> cells view s' = entry_taken i phys (cells view s)"
proof -
  let ?a = "entry_addr i"
  obtain p0 p1 p2 p3 where phys: "phys = [p0, p1, p2, p3]"
    using assms(3) by (auto simp: length_Suc_conv numeral_eq_Suc)
  define s6 where "s6 = wr_seq (AT24CXX_WriteOneByte D) ?a (of_nat i # phys) s"
  have s6_eq: "AT24CXX_WriteOneByte D (?a + 4) (phys ! 3)
     (AT24CXX_WriteOneByte D (?a + 3) (phys ! 2)
     (AT24CXX_WriteOneByte D (?a + 2) (phys ! 1)
     (AT24CXX_WriteOneByte D (?a + 1) (phys ! 0)
     (AT24CXX_WriteOneByte D ?a (of_nat i) s)))) = s6"
    by (simp add: s6_def phys add.assoc)
  have s6: "ee_ok D view s6" "cells view s6 = overlay (10 + 5 * i) (of_nat i # phys) (cells view s)"
    using ee_wr_seq [OF assms(1), of ?a "of_nat i # phys"] unat_entry_addr [OF assms(2)] assms(2,3)
    by (simp_all add: s6_def)
  obtain s7 where s7: "AT24CXX_ReadOneByte D COUNT_ADD s6 = (cells view s6 ! 1, s7)"
    "ee_ok D view s7" "cells view s7 = cells view s6"
    using ee_rd [OF s6(1), of COUNT_ADD] by (auto simp: COUNT_ADD_def)
  have w: "ee_ok D view (AT24CXX_WriteOneByte D COUNT_ADD (cells view s6 ! 1 + 1) s7)"
    "cells view (AT24CXX_WriteOneByte D COUNT_ADD (cells view s6 ! 1 + 1) s7) =
       entry_taken i phys (cells view s)"
    using ee_wr [OF s7(2), of COUNT_ADD "cells view s6 ! 1 + 1"] s6(2) s7(3)
    by (simp_all add: COUNT_ADD_def entry_taken_def Let_def)
  show ?thesis
    unfolding Let_def s6_eq s7(1) prod.case using w by blast
qed

lemma take_free_spec:
  "ee_ok D view s \<Longrightarrow> length phys = 4 \<Longrightarrow> 1 \<le> i \<Longrightarrow> i + n \<le> 81 \<Longrightarrow>
   \<exists>s'. take_free D phys i n s = (find (\<lambda>j. table (cells view s) j = None) [i..<i + n], s') \<and>
     ee_ok D view s' \<and>
     cells view s' = (case find (\<lambda>j. table (cells view s) j = None) [i..<i + n] of
        None \<Rightarrow> cells view s | Some j \<Rightarrow> entry_taken j phys (cells view s))"
proof (induction n arbitrary: i s)
  case 0
  then show ?case by simp
next
  case (Suc n)
  let ?m = "cells view s"
  have i: "i \<le> 80" using Suc.prems by simp
  have ne: "[i..<i + Suc n] = i # [Suc i..<Suc i + n]" by (simp add: upt_conv_Cons)
  obtain s1 where s1: "AT24CXX_ReadOneByte D (entry_addr i) s = (?m ! (10 + 5 * i), s1)"
    "ee_ok D view s1" "cells view s1 = ?m"
    using ee_rd [OF Suc.prems(1), of "entry_addr i"] unat_entry_addr [OF i] i by auto
  show ?case
  proof (cases "?m ! (10 + 5 * i) = of_nat i")
    case True
    then obtain y where "table ?m i = Some y" using i Suc.prems(3) by (simp add: table_def)
    with True s1 Suc.IH [OF s1(2) Suc.prems(2), of "Suc i", unfolded s1(3)] Suc.prems show ?thesis
      unfolding ne by (simp add: Let_def del: upt_Suc)
  next
    case False
    then have "table ?m i = None" by (simp add: table_def)
    moreover have "take_free D phys i (Suc n) s = (let Temp = entry_addr i;
            s2 = AT24CXX_WriteOneByte D Temp (of_nat i) s1;
            s3 = AT24CXX_WriteOneByte D (Temp + 1) (phys ! 0) s2;
            s4 = AT24CXX_WriteOneByte D (Temp + 2) (phys ! 1) s3;
            s5 = AT24CXX_WriteOneByte D (Temp + 3) (phys ! 2) s4;
            s6 = AT24CXX_WriteOneByte D (Temp + 4) (phys ! 3) s5;
            (Logic_Count, s7) = AT24CXX_ReadOneByte D COUNT_ADD s6
        in (Some i, AT24CXX_WriteOneByte D COUNT_ADD (Logic_Count + 1) s7))"
      using s1(1) False by (simp add: Let_def)
    ultimately show ?thesis
      using take_entry [OF s1(2) i Suc.prems(2)] s1(3) unfolding ne by simp
  qed
qed

lemma nth_entry_taken:
  assumes "length m = 1024" and "1 \<le> i" and "i \<le> 80" and "length phys = 4" and "k < 1024" and "k \<noteq> 1"
  shows "entry_taken i phys m ! k =
     (if 10 + 5 * i \<le> k \<and> k < 15 + 5 * i then (of_nat i # phys) ! (k - (10 + 5 * i)) else m ! k)"
  using assms by (simp add: entry_taken_def Let_def nth_list_update nth_overlay)

lemma length_entry_taken [simp]:
  "length m = 1024 \<Longrightarrow> i \<le> 80 \<Longrightarrow> length phys = 4 \<Longrightarrow> length (entry_taken i phys m) = 1024"
  by (simp add: entry_taken_def Let_def)

lemma table_entry_taken:
  assumes "length m = 1024" and "1 \<le> i" and "i \<le> 80" and "length phys = 4"
  shows "table (entry_taken i phys m) = (table m)(i \<mapsto> phys)"
proof
  fix j
  note nth = nth_entry_taken [OF assms]
  show "table (entry_taken i phys m) j = ((table m)(i \<mapsto> phys)) j"
  proof (cases "1 \<le> j \<and> j \<le> 80")
    case j: True
    show ?thesis
    proof (cases "j = i")
      case True
      have "take 4 (drop (11 + 5 * i) (entry_taken i phys m)) = phys"
        using assms nth by (intro nth_equalityI) auto
      with True j nth show ?thesis by (simp add: table_def)
    next
      case False
      then have "15 + 5 * i \<le> 10 + 5 * j \<or> 15 + 5 * j \<le> 10 + 5 * i" by linarith
      then have same: "entry_taken i phys m ! (10 + 5 * j + k) = m ! (10 + 5 * j + k)" if "k < 5" for k
        using nth [of "10 + 5 * j + k"] that j by auto
      have "take 4 (drop (11 + 5 * j) (entry_taken i phys m)) = take 4 (drop (11 + 5 * j) m)"
      proof (rule take_drop_eqI)
        show "\<forall>k < 4. entry_taken i phys m ! (11 + 5 * j + k) = m ! (11 + 5 * j + k)"
        proof (intro allI impI)
          fix k :: nat assume "k < 4"
          then show "entry_taken i phys m ! (11 + 5 * j + k) = m ! (11 + 5 * j + k)"
            using same [of "Suc k"] by (simp add: add.assoc)
        qed
      qed (use assms j in simp_all)
      with False j same [of 0] show ?thesis by (simp add: table_def)
    qed
  next
    case False
    with assms show ?thesis by (auto simp: table_def)
  qed
qed

text \<open>\<open>Distribute_LogicADD\<close> implements \<open>assign\<close>.\<close>

lemma Distribute_LogicADD_refines:
  assumes "ee_ok D view s" and "length phys = 4"
  shows "\<exists>s'. Distribute_LogicADD D phys s =
       Inr (case fst (assign (table (cells view s)) phys) of Some j \<Rightarrow> of_nat j | None \<Rightarrow> 0xF3, s') \<and>
     ee_ok D view s' \<and> table (cells view s') = snd (assign (table (cells view s)) phys) \<and>
     cells view s' =
       (if fst (assign (table (cells view s)) phys) = None \<or>
           find (\<lambda>j. table (cells view s) j = Some phys) [1..<81] \<noteq> None
        then cells view s
        else entry_taken (the (fst (assign (table (cells view s)) phys))) phys (cells view s))"
proof -
  let ?m = "cells view s"
  have sz: "ADD_SIZE = 80" by (simp add: ADD_SIZE_def BUSNUM_SIZE_def)
  have phys: "get_bytes phys 0 4 = Inr phys" using assms(2) by (simp add: get_bytes_ok)
  from find_assigned_spec [OF assms, of 1 80] obtain s1 where
    s1: "find_assigned D phys 1 80 s = (find (\<lambda>j. table ?m j = Some phys) [1..<81], s1)"
      "ee_ok D view s1" "cells view s1 = ?m" by auto
  show ?thesis
  proof (cases "find (\<lambda>j. table ?m j = Some phys) [1..<81]")
    case (Some j)
    with s1 phys sz show ?thesis by (simp add: Distribute_LogicADD_def assign_def)
  next
    case None
    from take_free_spec [OF s1(2) assms(2), of 1 80, unfolded s1(3)] obtain s2 where
      s2: "take_free D phys 1 80 s1 = (find (\<lambda>j. table ?m j = None) [1..<81], s2)" "ee_ok D view s2"
        "cells view s2 = (case find (\<lambda>j. table ?m j = None) [1..<81] of
           None \<Rightarrow> ?m | Some j \<Rightarrow> entry_taken j phys ?m)" by auto
    have "table (entry_taken j phys ?m) = (table ?m)(j \<mapsto> phys)"
      if "find (\<lambda>j. table ?m j = None) [1..<81] = Some j" for j
      using that ee_cells_length [OF assms(1)] assms(2)
      by (intro table_entry_taken) (auto simp: find_Some_iff simp del: upt_Suc)
    with None s1 s2 phys sz show ?thesis
      by (auto simp: Distribute_LogicADD_def assign_def split: option.splits)
  qed
qed

lemma find_upt_SomeD: "find P [a..<b] = Some j \<Longrightarrow> P j \<and> a \<le> j \<and> j < b \<and> (\<forall>k. a \<le> k \<and> k < j \<longrightarrow> \<not> P k)"
proof (induction "b - a" arbitrary: a)
  case 0
  then show ?case by simp
next
  case (Suc n)
  then have ab: "a < b" by simp
  then have ne: "[a..<b] = a # [Suc a..<b]" by (simp add: upt_conv_Cons)
  show ?case
  proof (cases "P a")
    case True
    with Suc.prems ab show ?thesis unfolding ne by auto
  next
    case False
    with Suc.prems have "find P [Suc a..<b] = Some j" unfolding ne by simp
    with Suc.hyps(1) [of "Suc a"] Suc.hyps(2) have IH:
      "P j \<and> Suc a \<le> j \<and> j < b \<and> (\<forall>k. Suc a \<le> k \<and> k < j \<longrightarrow> \<not> P k)" by simp
    have "\<not> P k" if "a \<le> k" "k < j" for k
      using IH False that by (cases "k = a") auto
    with IH show ?thesis by auto
  qed
qed

lemma find_upt_NoneD: "find P [a..<b] = None \<Longrightarrow> a \<le> k \<Longrightarrow> k < b \<Longrightarrow> \<not> P k"
  by (auto simp: find_None_iff)

lemma find_upt_eq: "P j \<Longrightarrow> a \<le> j \<Longrightarrow> j < b \<Longrightarrow> \<forall>k. a \<le> k \<and> k < j \<longrightarrow> \<not> P k \<Longrightarrow> find P [a..<b] = Some j"
proof (cases "find P [a..<b]")
  case None
  moreover assume "P j" "a \<le> j" "j < b"
  ultimately show ?thesis using find_upt_NoneD [of P a b j] by blast
next
  case (Some i)
  moreover assume "P j" "a \<le> j" "j < b" "\<forall>k. a \<le> k \<and> k < j \<longrightarrow> \<not> P k"
  ultimately show ?thesis using find_upt_SomeD [of P a b i] by (metis linorder_neqE_nat)
qed

text \<open>What \<open>assign\<close> promises.\<close>

lemma assign_Some:
  assumes "assign T phys = (Some j, T')"
  shows "1 \<le> j \<and> j \<le> 80 \<and> T' j = Some phys \<and> (\<forall>k. 1 \<le> k \<and> k < j \<longrightarrow> T' k \<noteq> Some phys) \<and>
     (\<forall>k. k \<noteq> j \<longrightarrow> T' k = T k) \<and> (T j = None \<or> T' = T)"
proof (cases "find (\<lambda>j. T j = Some phys) [1..<81]")
  case (Some i)
  with assms have "i = j" "T' = T" by (simp_all add: assign_def)
  with find_upt_SomeD [OF Some] show ?thesis by auto
next
  case None
  with assms obtain i where i: "find (\<lambda>j. T j = None) [1..<81] = Some i" "j = i" "T' = T(i \<mapsto> phys)"
    by (auto simp: assign_def split: option.splits)
  with find_upt_SomeD [OF i(1)] find_upt_NoneD [OF None] show ?thesis by auto
qed

lemma assign_again:
  assumes "assign T phys = (Some j, T')"
  shows "assign T' phys = (Some j, T')"
proof -
  have "find (\<lambda>j. T' j = Some phys) [1..<81] = Some j"
    using assign_Some [OF assms] by (intro find_upt_eq) auto
  then show ?thesis by (simp add: assign_def)
qed

lemma assign_other:
  assumes "assign T phys = (Some j, T')" and "assign T' phys' = (Some k, T'')" and "phys' \<noteq> phys"
  shows "k \<noteq> j" and "T'' j = Some phys"
proof -
  note first = assign_Some [OF assms(1)] and second = assign_Some [OF assms(2)]
  show "k \<noteq> j"
  proof
    assume "k = j"
    with first second have "T'' = T'" by auto
    with first second assms(3) \<open>k = j\<close> show False by auto
  qed
  with first second show "T'' j = Some phys" by auto
qed

section \<open>Deleting an entry\<close>

lemma unat_or_1: "n < 65535 \<Longrightarrow> unat ((of_nat n :: u16) OR 1) = (if even n then n + 1 else n)"
proof -
  assume n: "n < 65535"
  have "unat ((of_nat n :: u16) OR 1) = unat (of_nat n :: u16) OR unat (1 :: u16)"
    by (rule unsigned_or_eq)
  also have "\<dots> = n OR 1" using n by (subst unat_of_nat_u16) simp_all
  also have "\<dots> = n + of_bool (even n)" by (rule or_one_eq)
  finally show ?thesis by simp
qed

definition entry_cleared :: "nat \<Rightarrow> u8 list \<Rightarrow> u8 list" where
  "entry_cleared i m =
     (overlay (if even i then 11 + 5 * i else 10 + 5 * i) [0, 0, 0, 0] m)[10 + 5 * i := 0]"

lemma nth_entry_cleared:
  "length m = 1024 \<Longrightarrow> i \<le> 80 \<Longrightarrow> k < 1024 \<Longrightarrow>
   entry_cleared i m ! k =
     (if 10 + 5 * i \<le> k \<and> k < 15 + 5 * i \<and> \<not> (odd i \<and> k = 14 + 5 * i) then 0 else m ! k)"
  by (auto simp: entry_cleared_def nth_list_update nth_overlay nth_Cons' split: if_splits)

lemma length_entry_cleared [simp]: "length m = 1024 \<Longrightarrow> i \<le> 80 \<Longrightarrow> length (entry_cleared i m) = 1024"
  by (simp add: entry_cleared_def)

lemma clear_entry:
  assumes "ee_ok D view s" and "i \<le> 80"
  shows "ee_ok D view (AT24CXX_WriteOneByte D (entry_addr i) 0
       (wr_seq (AT24CXX_WriteOneByte D) (of_nat (Start_ADD + i * 5) OR Physical_ADD1) [0, 0, 0, 0] s))"
    and "cells view (AT24CXX_WriteOneByte D (entry_addr i) 0
       (wr_seq (AT24CXX_WriteOneByte D) (of_nat (Start_ADD + i * 5) OR Physical_ADD1) [0, 0, 0, 0] s)) =
       entry_cleared i (cells view s)"
proof -
  let ?b = "of_nat (Start_ADD + i * 5) OR Physical_ADD1"
  let ?s = "wr_seq (AT24CXX_WriteOneByte D) ?b [0, 0, 0, 0] s"
  have b: "unat ?b = (if even i then 11 + 5 * i else 10 + 5 * i)"
    unfolding Physical_ADD1_def using assms(2) by (subst unat_or_1) (auto simp: Start_ADD_def)
  have w: "ee_ok D view ?s" "cells view ?s = overlay (unat ?b) [0, 0, 0, 0] (cells view s)"
    using ee_wr_seq [OF assms(1), of ?b "[0, 0, 0, 0]"] b assms(2) by (simp_all split: if_splits)
  note v = ee_wr [OF w(1), of "entry_addr i" 0] 
  show "ee_ok D view (AT24CXX_WriteOneByte D (entry_addr i) 0 ?s)"
    using v unat_entry_addr [OF assms(2)] assms(2) by simp
  show "cells view (AT24CXX_WriteOneByte D (entry_addr i) 0 ?s) = entry_cleared i (cells view s)"
    using v(2) w(2) b unat_entry_addr [OF assms(2)] assms(2) by (simp add: entry_cleared_def)
qed

text \<open>What the loop leaves of a memory \<open>m\<close> after visiting the entries \<open>i .. i + n - 1\<close>.\<close>

definition deleted_from :: "nat \<Rightarrow> nat \<Rightarrow> u8 \<Rightarrow> u8 list \<Rightarrow> u8 list \<Rightarrow> bool" where
  "deleted_from i n no m m' \<longleftrightarrow>
     (\<forall>j. i \<le> j \<and> j < i + n \<and> m ! (10 + 5 * j) = no \<longrightarrow>
        m' ! (10 + 5 * j) = 0 \<and> (odd j \<longrightarrow> m' ! (14 + 5 * j) = m ! (14 + 5 * j))) \<and>
     (\<forall>j k. j \<le> 80 \<and> \<not> (i \<le> j \<and> j < i + n \<and> m ! (10 + 5 * j) = no) \<and> k < 5 \<longrightarrow>
        m' ! (10 + 5 * j + k) = m ! (10 + 5 * j + k)) \<and>
     m' ! 1 = m ! 1"

lemma deleted_from_clear:
  assumes "length m = 1024" and "1 \<le> i" and "i + Suc n \<le> 81" and "m ! (10 + 5 * i) = no"
    and "deleted_from (Suc i) n no (entry_cleared i m) m'" and "no \<noteq> 0"
  shows "deleted_from i (Suc n) no m m'"
proof -
  have i: "i \<le> 80" using assms(3) by simp
  note nth = nth_entry_cleared [OF assms(1) i]
  have other: "entry_cleared i m ! (10 + 5 * j + k) = m ! (10 + 5 * j + k)"
    if "j \<le> 80" "j \<noteq> i" "k < 5" for j k
    using nth [of "10 + 5 * j + k"] that by auto
  have at_i: "m' ! (10 + 5 * i) = 0" "odd i \<Longrightarrow> m' ! (14 + 5 * i) = m ! (14 + 5 * i)"
  proof -
    have "m' ! (10 + 5 * i + k) = entry_cleared i m ! (10 + 5 * i + k)" if "k < 5" for k
      using assms(5) i that unfolding deleted_from_def by auto
    from this [of 0] this [of 4] show "m' ! (10 + 5 * i) = 0" "odd i \<Longrightarrow> m' ! (14 + 5 * i) = m ! (14 + 5 * i)"
      using nth [of "10 + 5 * i"] nth [of "14 + 5 * i"] i by auto
  qed
  have "m' ! (10 + 5 * j) = 0 \<and> (odd j \<longrightarrow> m' ! (14 + 5 * j) = m ! (14 + 5 * j))"
    if "i \<le> j" "j < i + Suc n" "m ! (10 + 5 * j) = no" for j
  proof (cases "j = i")
    case False
    with that assms(3) have "Suc i \<le> j" "j < Suc i + n" "j \<le> 80" by simp_all
    with assms(5) other [of j 0] other [of j 4] that False show ?thesis
      unfolding deleted_from_def by auto
  qed (use at_i in simp)
  moreover have "m' ! (10 + 5 * j + k) = m ! (10 + 5 * j + k)"
    if "j \<le> 80" "\<not> (i \<le> j \<and> j < i + Suc n \<and> m ! (10 + 5 * j) = no)" "k < 5" for j k
  proof -
    from that(2) assms(4) have "j \<noteq> i" by auto
    with that other [of j 0] have "\<not> (Suc i \<le> j \<and> j < Suc i + n \<and> entry_cleared i m ! (10 + 5 * j) = no)"
      by auto
    with assms(5) that(1,3) have "m' ! (10 + 5 * j + k) = entry_cleared i m ! (10 + 5 * j + k)"
      unfolding deleted_from_def by blast
    with other \<open>j \<noteq> i\<close> that show ?thesis by simp
  qed
  moreover have "m' ! 1 = m ! 1"
    using assms(5) nth [of 1] by (simp add: deleted_from_def)
  ultimately show ?thesis unfolding deleted_from_def by blast
qed

lemma deleted_from_skip:
  assumes "m ! (10 + 5 * i) \<noteq> no" and "deleted_from (Suc i) n no m m'"
  shows "deleted_from i (Suc n) no m m'"
proof -
  have "(i \<le> j \<and> j < i + Suc n \<and> m ! (10 + 5 * j) = no) \<longleftrightarrow>
      (Suc i \<le> j \<and> j < Suc i + n \<and> m ! (10 + 5 * j) = no)" for j
    using assms(1) by (cases "j = i") auto
  with assms(2) show ?thesis unfolding deleted_from_def by simp
qed

lemma delete_loop_spec:
  "ee_ok D view s \<Longrightarrow> no \<noteq> 0 \<Longrightarrow> 1 \<le> i \<Longrightarrow> i + n \<le> 81 \<Longrightarrow>
   ee_ok D view (delete_loop D no i n s) \<and>
   deleted_from i n no (cells view s) (cells view (delete_loop D no i n s))"
proof (induction n arbitrary: i s)
  case 0
  then show ?case by (simp add: deleted_from_def)
next
  case (Suc n)
  let ?m = "cells view s"
  have i: "i \<le> 80" using Suc.prems by simp
  obtain s1 where s1: "AT24CXX_ReadOneByte D (entry_addr i) s = (?m ! (10 + 5 * i), s1)"
    "ee_ok D view s1" "cells view s1 = ?m"
    using ee_rd [OF Suc.prems(1), of "entry_addr i"] unat_entry_addr [OF i] i by auto
  show ?case
  proof (cases "?m ! (10 + 5 * i) = no")
    case True
    note clr = clear_entry [OF s1(2) i]
    from Suc.IH [OF clr(1) Suc.prems(2), of "Suc i"] Suc.prems clr(2) s1
      deleted_from_clear [OF ee_cells_length [OF Suc.prems(1)] Suc.prems(3,4) True _ Suc.prems(2)] True
    show ?thesis by (simp add: Let_def)
  next
    case False
    from Suc.IH [OF s1(2) Suc.prems(2), of "Suc i"] Suc.prems s1 False
      deleted_from_skip [OF False, of n]
    show ?thesis by (simp add: Let_def)
  qed
qed

lemma table_deleted:
  assumes "deleted_from 1 80 (of_nat no) m m'" and "length m = 1024" and "length m' = 1024"
    and "1 \<le> no" and "no \<le> 80"
  shows "table m' = (table m)(no := None)"
proof
  fix j
  show "table m' j = ((table m)(no := None)) j"
  proof (cases "1 \<le> j \<and> j \<le> 80")
    case j: True
    have neq: "(of_nat j :: u8) = of_nat no \<longleftrightarrow> j = no" "(of_nat j :: u8) \<noteq> 0"
      using j assms(4,5) of_nat_u8_inject [of j no] of_nat_u8_inject [of j 0] by auto
    show ?thesis
    proof (cases "m ! (10 + 5 * j) = of_nat no")
      case True
      with assms(1) j have "m' ! (10 + 5 * j) = 0" by (auto simp: deleted_from_def)
      with True neq j show ?thesis by (auto simp: table_def)
    next
      case False
      have same: "m' ! (10 + 5 * j + k) = m ! (10 + 5 * j + k)" if "k < 5" for k
        using assms(1) j False that unfolding deleted_from_def by blast
      have "take 4 (drop (11 + 5 * j) m') = take 4 (drop (11 + 5 * j) m)"
      proof (rule take_drop_eqI)
        show "\<forall>k < 4. m' ! (11 + 5 * j + k) = m ! (11 + 5 * j + k)"
          using same [of "Suc _"] by (simp add: add.assoc)
      qed (use assms j in simp_all)
      with False same [of 0] neq j show ?thesis by (auto simp: table_def)
    qed
  next
    case False
    with assms(4,5) show ?thesis by (auto simp: table_def)
  qed
qed

section \<open>The configuration\<close>

lemma get_bytes_all: "length t = n \<Longrightarrow> get_bytes t 0 n = Inr t"
  by (simp add: get_bytes_ok)

text \<open>The fields of the block, their place and length.\<close>

lemmas config_defs = Read_RFID_Key_def Write_RFID_Key_def Read_IPAdd_def Write_IPAdd_def
  Read_ACUSN_def Write_ACUSN_def Read_ACUAdd_def Write_ACUAdd_def Read_localIP_def
  Write_localIP_def Read_netmask_def Write_netmask_def Read_gateway_def Write_gateway_def

lemma fst_ee_read:
  "ee_ok D view s \<Longrightarrow> unat a + unat n \<le> 1024 \<Longrightarrow>
   fst (AT24CXX_Read D a n s) = take (unat n) (drop (unat a) (cells view s))"
  by (metis ee_read fst_conv)

text \<open>Every field is written as one run of bytes.\<close>

definition field_write :: "'d i2c_dev \<Rightarrow> u16 \<Rightarrow> u8 list \<Rightarrow> 'd iic \<Rightarrow> 'd iic" where
  "field_write D a bs s = wr_seq (AT24CXX_WriteOneByte D) a bs s"

lemma Write_PortAdd_field:
  "Write_PortAdd D p s = field_write D 204 [of_nat (unat p div 256), of_nat (unat p mod 256)] s"
  by (simp add: Write_PortAdd_def field_write_def)

lemma field_write_ok:
  assumes "ee_ok D view s" and "unat a + length bs \<le> 1024"
  shows "ee_ok D view (field_write D a bs s)"
    and "cells view (field_write D a bs s) = overlay (unat a) bs (cells view s)"
  using ee_wr_seq [OF assms] by (simp_all add: field_write_def)

lemma field_roundtrip:
  assumes "ee_ok D view s" and "unat a + length bs \<le> 1024" and "unat n = length bs"
  shows "fst (AT24CXX_Read D a n (field_write D a bs s)) = bs"
  using field_write_ok [OF assms(1,2)] assms(2,3) ee_cells_length [OF assms(1)]
  by (simp add: fst_ee_read take_drop_overlay_same)

lemma field_frame:
  assumes "ee_ok D view s" and "unat a + length bs \<le> 1024" and "unat b + unat n \<le> 1024"
    and "unat b + unat n \<le> unat a \<or> unat a + length bs \<le> unat b"
  shows "fst (AT24CXX_Read D b n (field_write D a bs s)) = fst (AT24CXX_Read D b n s)"
  using field_write_ok [OF assms(1,2)] assms ee_cells_length [OF assms(1)]
  by (simp add: fst_ee_read take_drop_overlay_other)

section \<open>The start-up check\<close>

lemma load_config_ok:
  assumes "ee_ok D view (ee s)"
  shows "ee_ok D view (ee (load_config D s)) \<and> cells view (ee (load_config D s)) = cells view (ee s)"
proof -
  have rd: "ee_ok D view (snd (AT24CXX_Read D a n e)) \<and> cells view (snd (AT24CXX_Read D a n e)) = cells view e"
    if "ee_ok D view e" "unat a + unat n \<le> 1024" for a n e
    using ee_read [OF that] by (metis snd_conv)
  show ?thesis
    using assms by (simp add: load_config_def config_defs Read_PortAdd_def split_beta Let_def rd)
qed

definition default_image :: "u8 list" where
  "default_image = overlay 255 [0x55] (overlay 210 default_ACUAdd (overlay 206 default_ACUSN
     (overlay 204 [0x4E, 0x20] (overlay 200 default_IPAdd (overlay 230 default_RFID_Key
       (replicate 1024 0))))))"

lemma length_default_image [simp]: "length default_image = 1024"
  by (simp add: default_image_def default_ACUAdd_def default_ACUSN_def default_IPAdd_def
      default_RFID_Key_def)

lemma default_lengths [simp]:
  "length default_ACUAdd = 16" "length default_ACUSN = 4" "length default_IPAdd = 4"
  "length default_RFID_Key = 7"
  by (simp_all add: default_ACUAdd_def default_ACUSN_def default_IPAdd_def default_RFID_Key_def)

lemma write_defaults_ok:
  assumes "ee_ok D view e"
  shows "\<exists>e'. write_defaults D e = Inr e' \<and> ee_ok D view e' \<and> cells view e' = default_image"
proof -
  define e0 where "e0 = Delete_allDat D e"
  have e0: "ee_ok D view e0" "cells view e0 = replicate 1024 0"
    using Delete_allDat_cells [OF assms] by (simp_all add: e0_def)
  define e1 where "e1 = field_write D 230 default_RFID_Key e0"
  define e2 where "e2 = field_write D 200 default_IPAdd e1"
  define e3 where "e3 = field_write D 204 [0x4E, 0x20] e2"
  define e4 where "e4 = field_write D 206 default_ACUSN e3"
  define e5 where "e5 = field_write D 210 default_ACUAdd e4"
  have e1: "ee_ok D view e1" "cells view e1 = overlay 230 default_RFID_Key (cells view e0)"
    using field_write_ok [OF e0(1), of 230 default_RFID_Key] by (simp_all add: e1_def)
  have e2: "ee_ok D view e2" "cells view e2 = overlay 200 default_IPAdd (cells view e1)"
    using field_write_ok [OF e1(1), of 200 default_IPAdd] by (simp_all add: e2_def)
  have e3: "ee_ok D view e3" "cells view e3 = overlay 204 [0x4E, 0x20] (cells view e2)"
    using field_write_ok [OF e2(1), of 204 "[0x4E, 0x20]"] by (simp_all add: e3_def)
  have e4: "ee_ok D view e4" "cells view e4 = overlay 206 default_ACUSN (cells view e3)"
    using field_write_ok [OF e3(1), of 206 default_ACUSN] by (simp_all add: e4_def)
  have e5: "ee_ok D view e5" "cells view e5 = overlay 210 default_ACUAdd (cells view e4)"
    using field_write_ok [OF e4(1), of 210 default_ACUAdd] by (simp_all add: e5_def)
  define e6 where "e6 = field_write D 255 [0x55] e5"
  have e6: "ee_ok D view e6" "cells view e6 = overlay 255 [0x55] (cells view e5)"
    using field_write_ok [OF e5(1), of 255 "[0x55]"] by (simp_all add: e6_def)
  have port: "Write_PortAdd D default_PortAdd e2 = e3"
    by (simp add: Write_PortAdd_field default_PortAdd_def e3_def)
  have "write_defaults D e = Inr e6"
    unfolding write_defaults_def Write_RFID_Key_def Write_IPAdd_def Write_ACUSN_def Write_ACUAdd_def
      field_write_def [symmetric] e0_def [symmetric]
    by (simp add: get_bytes_all port flip: e1_def e2_def e4_def e5_def) (simp add: e6_def field_write_def)
  with e6 show ?thesis by (simp add: default_image_def e5(2) e4(2) e3(2) e2(2) e1(2) e0(2))
qed

lemma default_image_zero:
  "k < 1024 \<Longrightarrow> k < 200 \<or> 226 \<le> k \<Longrightarrow> k < 230 \<or> 237 \<le> k \<Longrightarrow> k \<noteq> 255 \<Longrightarrow> default_image ! k = 0"
proof -
  assume k: "k < 1024" "k < 200 \<or> 226 \<le> k" "k < 230 \<or> 237 \<le> k" "k \<noteq> 255"
  have out: "k < 255 \<or> 256 \<le> k" "k < 210 \<or> 226 \<le> k" "k < 206 \<or> 210 \<le> k"
    "k < 204 \<or> 206 \<le> k" "k < 200 \<or> 204 \<le> k" "k < 230 \<or> 237 \<le> k"
    using k(2-4) by linarith+
  show ?thesis using k(1) out by (simp add: default_image_def nth_overlay_out)
qed

lemma default_image_nth:
  "default_image ! 255 = 0x55"
  "1 \<le> j \<Longrightarrow> j \<le> 80 \<Longrightarrow> default_image ! (10 + 5 * j) \<noteq> of_nat j"
proof -
  show "default_image ! 255 = 0x55" by (simp add: default_image_def nth_overlay)
  assume j: "1 \<le> j" "j \<le> 80"
  show "default_image ! (10 + 5 * j) \<noteq> of_nat j"
  proof (cases "j \<in> {38, 39, 40, 41, 42, 43, 44, 45, 49}")
    case True
    then show ?thesis
      by (auto simp: default_image_def nth_overlay default_ACUAdd_def default_ACUSN_def
          default_IPAdd_def default_RFID_Key_def)
  next
    case False
    then have "j < 38 \<or> 45 < j" "j \<noteq> 49" by simp_all presburger
    then have "default_image ! (10 + 5 * j) = 0"
      using j by (intro default_image_zero) linarith+
    moreover have "(of_nat j :: u8) \<noteq> 0" using j of_nat_u8_inject [of j 0] by auto
    ultimately show ?thesis by simp
  qed
qed

lemma table_default_image: "table default_image = Map.empty"
  using default_image_nth(2) by (auto simp: table_def)

section \<open>Properties\<close>

text \<open>
  C22. On any working AT24C08 \<open>Distribute_LogicADD\<close> implements the assignment \<open>assign\<close> on the
  map from logical to physical addresses that the memory holds: it returns the lowest logical
  address that already has this physical address, else takes the lowest free one, else
  returns 0xF3, and changes the map in no other way.
\<close>

theorem Distribute_LogicADD_implements_assign:
  assumes "is_at24 D view" and "bus_idle (iic_view view s)" and "length phys = 4"
  shows "\<exists>r s'. Distribute_LogicADD D phys s = Inr (r, s') \<and> bus_idle (iic_view view s') \<and>
     r = (case fst (assign (table (cells view s)) phys) of Some j \<Rightarrow> of_nat j | None \<Rightarrow> 0xF3) \<and>
     table (cells view s') = snd (assign (table (cells view s)) phys)"
proof -
  have "ee_ok D view s" using assms(1,2) by (simp add: ee_ok_def)
  from Distribute_LogicADD_refines [OF this assms(3)] show ?thesis
    unfolding ee_ok_def by blast
qed

lemma Distribute_LogicADD_implements_assign_witness:
  "\<exists>r s'. Distribute_LogicADD at24_dev [1, 2, 3, 4] fresh_bus = Inr (r, s') \<and>
     bus_idle (iic_view (\<lambda>c. c) s') \<and>
     r = (case fst (assign (table (cells (\<lambda>c. c) fresh_bus)) [1, 2, 3, 4]) of
            Some j \<Rightarrow> of_nat j | None \<Rightarrow> 0xF3) \<and>
     table (cells (\<lambda>c. c) s') = snd (assign (table (cells (\<lambda>c. c) fresh_bus)) [1, 2, 3, 4])"
  by (rule Distribute_LogicADD_implements_assign)
     (simp_all add: is_at24_self iic_view_self fresh_bus_idle)

lemma of_nat_u8_F3: "j \<le> 80 \<Longrightarrow> (of_nat j :: u8) \<noteq> 0xF3"
  using of_nat_u8_inject [of j 243] by simp

text \<open>
  Logical addresses identify readers: after a reader has been given an address (anything
  but 0xF3), asking again for the same physical address returns the same number, and a reader
  with another physical address is never given that number, in either order of the calls.
\<close>

theorem Distribute_LogicADD_unique:
  assumes "is_at24 D view" and "bus_idle (iic_view view s)"
    and "length p = 4" and "length q = 4" and "p \<noteq> q"
    and "Distribute_LogicADD D p s = Inr (a, s1)" and "a \<noteq> 0xF3"
    and "Distribute_LogicADD D q s1 = Inr (b, s2)"
  shows "b \<noteq> a \<and> (\<exists>s3. Distribute_LogicADD D p s1 = Inr (a, s3)) \<and>
     (\<exists>s3. Distribute_LogicADD D p s2 = Inr (a, s3))"
proof -
  have ok: "ee_ok D view s" using assms(1,2) by (simp add: ee_ok_def)
  define T where "T = table (cells view s)"
  obtain T1 j where T1: "assign T p = (Some j, T1)" "a = of_nat j" "ee_ok D view s1" "table (cells view s1) = T1"
    using Distribute_LogicADD_refines [OF ok assms(3)] assms(6,7)
    by (cases "assign T p") (auto simp: T_def split: option.splits)
  obtain k T2 where T2: "assign T1 q = (k, T2)" "ee_ok D view s2" "table (cells view s2) = T2"
    "b = (case k of Some j \<Rightarrow> of_nat j | None \<Rightarrow> 0xF3)"
    using Distribute_LogicADD_refines [OF T1(3) assms(4)] assms(8) T1(4)
    by (cases "assign T1 q") auto
  note j = assign_Some [OF T1(1)]
  have same: "\<exists>s3. Distribute_LogicADD D p s1 = Inr (a, s3)"
    using Distribute_LogicADD_refines [OF T1(3) assms(3)] T1(2,4) assign_again [OF T1(1)] by auto
  show ?thesis
  proof (cases k)
    case None
    then have "T2 = T1" using T2(1) by (auto simp: assign_def split: option.splits)
    then have "assign T2 p = (Some j, T2)" using assign_again [OF T1(1)] by simp
    then have "\<exists>s3. Distribute_LogicADD D p s2 = Inr (a, s3)"
      using Distribute_LogicADD_refines [OF T2(2) assms(3)] T1(2) T2(3) by auto
    with None T2(4) assms(7) same show ?thesis by auto
  next
    case (Some i)
    with T2(1) have q: "assign T1 q = (Some i, T2)" by simp
    note i = assign_Some [OF this]
    have ij: "i \<noteq> j" "T2 j = Some p" using assign_other [OF T1(1) q] assms(5) by auto
    then have "b \<noteq> a" using T2(4) T1(2) Some i j of_nat_u8_inject [of i j] by auto
    have below: "T2 k \<noteq> Some p" if "1 \<le> k" "k < j" for k
      using i j that assms(5) by (cases "k = i") auto
    have "find (\<lambda>j. T2 j = Some p) [1..<81] = Some j"
      using ij j below by (intro find_upt_eq) auto
    then have "assign T2 p = (Some j, T2)" by (simp add: assign_def)
    then have "\<exists>s3. Distribute_LogicADD D p s2 = Inr (a, s3)"
      using Distribute_LogicADD_refines [OF T2(2) assms(3)] T1(2) T2(3) by auto
    with \<open>b \<noteq> a\<close> same show ?thesis by blast
  qed
qed

text \<open>
  The address table and the configuration overlap: a reader that is newly given logical
  address 38 has its entry written over the address of the server, so that \<open>Read_IPAdd\<close> then
  returns the number 38 and the first three bytes of the reader's physical address.
\<close>

theorem Distribute_LogicADD_overwrites_server_address:
  assumes "is_at24 D view" and "bus_idle (iic_view view s)" and "length phys = 4"
    and "table (cells view s) 38 = None" and "Distribute_LogicADD D phys s = Inr (38, s')"
  shows "fst (Read_IPAdd D s') = 38 # take 3 phys"
proof -
  have ok: "ee_ok D view s" using assms(1,2) by (simp add: ee_ok_def)
  let ?T = "table (cells view s)"
  obtain j where j: "fst (assign ?T phys) = Some j" "of_nat j = (38 :: u8)" "ee_ok D view s'"
    and cells: "cells view s' = (if find (\<lambda>j. ?T j = Some phys) [1..<81] \<noteq> None then cells view s
       else entry_taken j phys (cells view s))"
    using Distribute_LogicADD_refines [OF ok assms(3)] assms(5) by (auto split: option.splits)
  have "1 \<le> j" "j \<le> 80" using j(1) assign_Some [of ?T phys j "snd (assign ?T phys)"] by (auto simp: prod_eq_iff)
  with j(2) have j38: "j = 38" using of_nat_u8_inject [of j 38] by simp
  have "find (\<lambda>j. ?T j = Some phys) [1..<81] = None"
  proof (rule ccontr)
    assume "find (\<lambda>j. ?T j = Some phys) [1..<81] \<noteq> None"
    then obtain i where "find (\<lambda>j. ?T j = Some phys) [1..<81] = Some i" by auto
    with j(1) j38 assms(4) find_upt_SomeD [OF this] show False by (simp add: assign_def)
  qed
  with cells j38 have cells: "cells view s' = entry_taken 38 phys (cells view s)" by simp
  have "take 4 (drop 200 (cells view s')) = 38 # take 3 phys"
    using nth_entry_taken [of "cells view s" 38 phys] ee_cells_length [OF ok] assms(3)
    by (intro nth_equalityI) (auto simp: cells nth_Cons split: nat.split)
  then show ?thesis using fst_ee_read [OF j(3), of 200 4] by (simp add: Read_IPAdd_def)
qed

text \<open>A memory whose first \<open>n\<close> entries are in use, by readers with address 0.\<close>

definition filled_image :: "nat \<Rightarrow> u8 list" where
  "filled_image n = map (\<lambda>k. if 15 \<le> k \<and> k < 15 + 5 * n \<and> k mod 5 = 0
     then of_nat (k div 5 - 2) else 0) [0..<1024]"

definition bus_with :: "u8 list \<Rightarrow> at24 iic" where
  "bus_with m = fresh_bus\<lparr>dev := fresh_at24\<lparr>at_mem := m\<rparr>\<rparr>"

lemma length_filled_image [simp]: "length (filled_image n) = 1024"
  by (simp add: filled_image_def)

lemma bus_with_idle: "length m = 1024 \<Longrightarrow> bus_idle (bus_with m)"
  by (simp add: bus_idle_def bus_with_def fresh_bus_def fresh_at24_def)

lemma cells_bus_with [simp]: "cells (\<lambda>c. c) (bus_with m) = m"
  by (simp add: cells_def bus_with_def)

lemma table_filled_image:
  assumes "n \<le> 80"
  shows "table (filled_image n) j = (if 1 \<le> j \<and> j \<le> n then Some [0, 0, 0, 0] else None)"
proof (cases "1 \<le> j \<and> j \<le> 80")
  case j: True
  have head: "filled_image n ! (10 + 5 * j) = (if j \<le> n then of_nat j else 0)"
    using j assms by (simp add: filled_image_def)
  have rest: "filled_image n ! (11 + 5 * j + k) = 0" if "k < 4" for k
  proof -
    have "(11 + 5 * j + k) mod 5 \<noteq> 0" using that by presburger
    with j that show ?thesis by (simp add: filled_image_def)
  qed
  have "take 4 (drop (11 + 5 * j) (filled_image n)) = replicate 4 0"
  proof (rule nth_equalityI)
    show len: "length (take 4 (drop (11 + 5 * j) (filled_image n))) = length (replicate 4 (0 :: u8))"
      using j by (auto simp: min_def)
    fix k assume "k < length (take 4 (drop (11 + 5 * j) (filled_image n)))"
    then have "k < 4" by simp
    with rest [of k] j show "take 4 (drop (11 + 5 * j) (filled_image n)) ! k = replicate 4 0 ! k" by simp
  qed
  moreover have "(of_nat j :: u8) \<noteq> 0" using j of_nat_u8_inject [of j 0] by auto
  ultimately show ?thesis using head j by (simp add: table_def acu_simps)
qed (use assms in \<open>auto simp: table_def\<close>)

lemma assign_filled:
  assumes "n < 80" and "phys \<noteq> [0, 0, 0, 0]"
  shows "fst (assign (table (filled_image n)) phys) = Some (Suc n)"
proof -
  have none: "find (\<lambda>j. table (filled_image n) j = Some phys) [1..<81] = None"
    using assms by (auto simp: find_None_iff table_filled_image)
  have "find (\<lambda>j. table (filled_image n) j = None) [1..<81] = Some (Suc n)"
    using assms(1) by (intro find_upt_eq) (auto simp: table_filled_image)
  with none show ?thesis by (simp add: assign_def)
qed

lemma Distribute_filled:
  assumes "n < 80" and "length phys = 4" and "phys \<noteq> [0, 0, 0, 0]"
  shows "\<exists>s'. Distribute_LogicADD at24_dev phys (bus_with (filled_image n)) = Inr (of_nat (Suc n), s')"
proof -
  have ok: "ee_ok at24_dev (\<lambda>c. c) (bus_with (filled_image n))"
    by (simp add: ee_ok_def is_at24_self iic_view_self bus_with_idle filled_image_def)
  have "assign (table (cells (\<lambda>c. c) (bus_with (filled_image n)))) phys = (Some (Suc n),
      snd (assign (table (cells (\<lambda>c. c) (bus_with (filled_image n)))) phys))"
    using assign_filled [OF assms(1,3)] by (simp add: prod_eq_iff)
  then show ?thesis
    using Distribute_LogicADD_refines [OF ok assms(2)] assign_filled [OF assms(1,3)] by auto
qed

lemma Distribute_LogicADD_overwrites_server_address_witness:
  "\<exists>s'. Distribute_LogicADD at24_dev [1, 2, 3, 4] (bus_with (filled_image 37)) = Inr (38, s') \<and>
     fst (Read_IPAdd at24_dev s') = 38 # take 3 [1, 2, 3, 4]"
proof -
  obtain s' where s': "Distribute_LogicADD at24_dev [1, 2, 3, 4] (bus_with (filled_image 37)) = Inr (38, s')"
    using Distribute_filled [of 37 "[1, 2, 3, 4]"] by auto
  have "fst (Read_IPAdd at24_dev s') = 38 # take 3 [1, 2, 3, 4]"
    by (rule Distribute_LogicADD_overwrites_server_address [OF is_at24_self _ _ _ s'])
       (simp_all add: iic_view_self bus_with_idle table_filled_image) 
  with s' show ?thesis by blast
qed

lemma Distribute_LogicADD_unique_witness:
  "\<exists>s1 b s2. Distribute_LogicADD at24_dev [1, 2, 3, 4] (bus_with (filled_image 5)) = Inr (6, s1) \<and>
     Distribute_LogicADD at24_dev [5, 6, 7, 8] s1 = Inr (b, s2) \<and>
     b \<noteq> 6 \<and> (\<exists>s3. Distribute_LogicADD at24_dev [1, 2, 3, 4] s1 = Inr (6, s3)) \<and>
     (\<exists>s3. Distribute_LogicADD at24_dev [1, 2, 3, 4] s2 = Inr (6, s3))"
proof -
  obtain s1 where s1: "Distribute_LogicADD at24_dev [1, 2, 3, 4] (bus_with (filled_image 5)) = Inr (6, s1)"
    using Distribute_filled [of 5 "[1, 2, 3, 4]"] by auto
  obtain b s2 where s2: "Distribute_LogicADD at24_dev [5, 6, 7, 8] s1 = Inr (b, s2)"
    by (simp add: Distribute_LogicADD_def get_bytes_all prod_eq_iff)
  have "b \<noteq> 6 \<and> (\<exists>s3. Distribute_LogicADD at24_dev [1, 2, 3, 4] s1 = Inr (6, s3)) \<and>
     (\<exists>s3. Distribute_LogicADD at24_dev [1, 2, 3, 4] s2 = Inr (6, s3))"
    by (rule Distribute_LogicADD_unique [OF is_at24_self _ _ _ _ s1 _ s2])
       (simp_all add: iic_view_self bus_with_idle filled_image_def)
  with s1 s2 show ?thesis by blast
qed

text \<open>
  \<open>Delete_LogicADD\<close> removes the entry of the logical address it is given from the map and
  no other, clears the status byte of that reader, and decrements the entry count, whether or
  not an entry was removed. For an odd address the last byte of the physical address stays
  in the memory: the code combines the even offset 1 with an odd base by \<open>|\<close>.
\<close>

theorem Delete_LogicADD_removes:
  assumes "is_at24 D view" and "bus_idle (iic_view view (ee s))" and "1 \<le> no" and "no \<le> 80"
    and "length (g_RUNDate s) = 81" and "\<forall>row \<in> set (g_RUNDate s). length row = 14"
  shows "\<exists>s'. Delete_LogicADD D (of_nat no) s = Inr (cells view (ee s) ! 1 - 1, s') \<and>
     bus_idle (iic_view view (ee s')) \<and>
     table (cells view (ee s')) = (table (cells view (ee s)))(no := None) \<and>
     cells view (ee s') ! 1 = cells view (ee s) ! 1 - 1 \<and>
     g_RUNDate s' = (g_RUNDate s)[no := (g_RUNDate s ! no)[0 := 0]] \<and>
     (odd no \<and> table (cells view (ee s)) no \<noteq> None \<longrightarrow>
        cells view (ee s') ! (14 + 5 * no) = cells view (ee s) ! (14 + 5 * no))"
proof -
  let ?m = "cells view (ee s)"
  define e1 where "e1 = delete_loop D (of_nat no) 1 80 (ee s)"
  have ok: "ee_ok D view (ee s)" using assms(1,2) by (simp add: ee_ok_def)
  have nz: "(of_nat no :: u8) \<noteq> 0" using assms(3,4) of_nat_u8_inject [of no 0] by auto
  have e1: "ee_ok D view e1" "deleted_from 1 80 (of_nat no) ?m (cells view e1)"
    using delete_loop_spec [OF ok nz, of 1 80] by (simp_all add: e1_def)
  have row: "length (g_RUNDate s ! no) = 14" "unat (of_nat no :: u8) = no"
    using assms(4-6) by (simp_all add: unat_of_nat_u8)
  have rs: "run_set (s\<lparr>ee := e1\<rparr>) (unat (of_nat no :: u8)) 0 0 =
      Inr (s\<lparr>ee := e1, g_RUNDate := (g_RUNDate s)[no := (g_RUNDate s ! no)[0 := 0]]\<rparr>)"
    using row assms(4,5) by (simp add: run_set_def)
  obtain e2 where e2: "AT24CXX_ReadOneByte D COUNT_ADD e1 = (cells view e1 ! 1, e2)" "ee_ok D view e2"
    "cells view e2 = cells view e1"
    using ee_rd [OF e1(1), of COUNT_ADD] by (auto simp: COUNT_ADD_def)
  define e3 where "e3 = AT24CXX_WriteOneByte D COUNT_ADD (?m ! 1 - 1) e2"
  have cnt: "cells view e1 ! 1 = ?m ! 1" using e1(2) by (simp add: deleted_from_def)
  have e3: "ee_ok D view e3" "cells view e3 = (cells view e1)[1 := ?m ! 1 - 1]"
    using ee_wr [OF e2(2), of COUNT_ADD "?m ! 1 - 1"] e2(3) by (simp_all add: COUNT_ADD_def e3_def)
  have del: "Delete_LogicADD D (of_nat no) s = Inr (?m ! 1 - 1,
      s\<lparr>g_RUNDate := (g_RUNDate s)[no := (g_RUNDate s ! no)[0 := 0]], ee := e3\<rparr>)"
    unfolding Delete_LogicADD_def ADD_SIZE_def BUSNUM_SIZE_def e1_def [symmetric] e3_def
    using e2(1) cnt rs by simp
  have len: "length ?m = 1024" "length (cells view e1) = 1024"
    using ee_cells_length ok e1(1) by blast+
  have tab: "table (cells view e3) = table (cells view e1)"
    by (intro ext) (auto simp: table_def e3(2) drop_update_swap)
  have odd: "cells view e1 ! (14 + 5 * no) = ?m ! (14 + 5 * no)" if "odd no" "table ?m no \<noteq> None"
    using e1(2) that assms(4) by (auto simp: deleted_from_def table_def split: if_splits)
  show ?thesis
    using del e3 tab table_deleted [OF e1(2) len assms(3,4)] odd len
    by (auto simp: ee_ok_def)
qed

lemma config_fields:
  assumes "is_at24 D view" and "bus_idle (iic_view view s)"
    and "length key = 7" and "length ip = 4" and "length sn = 4" and "length code = 16"
    and "length lip = 5" and "length nm = 4" and "length gw = 4"
  shows "\<exists>s1. Write_RFID_Key D key s = Inr s1 \<and> fst (Read_RFID_Key D s1) = key"
    and "\<exists>s1. Write_IPAdd D ip s = Inr s1 \<and> fst (Read_IPAdd D s1) = ip"
    and "fst (Read_PortAdd D (Write_PortAdd D port s)) = port"
    and "\<exists>s1. Write_ACUSN D sn s = Inr s1 \<and> fst (Read_ACUSN D s1) = sn"
    and "\<exists>s1. Write_ACUAdd D code s = Inr s1 \<and> fst (Read_ACUAdd D s1) = code"
    and "\<exists>s1. Write_localIP D lip s = Inr s1 \<and> fst (Read_localIP D s1) = lip"
    and "\<exists>s1. Write_netmask D nm s = Inr s1 \<and> fst (Read_netmask D s1) = nm"
    and "\<exists>s1. Write_gateway D gw s = Inr s1 \<and> fst (Read_gateway D s1) = gw"
proof -
  have ok: "ee_ok D view s" using assms(1,2) by (simp add: ee_ok_def)
  note rt = field_roundtrip [OF ok]
  note fd = config_defs get_bytes_all field_write_def [symmetric]
  show "\<exists>s1. Write_RFID_Key D key s = Inr s1 \<and> fst (Read_RFID_Key D s1) = key"
    using assms(3) rt by (simp add: fd)
  show "\<exists>s1. Write_IPAdd D ip s = Inr s1 \<and> fst (Read_IPAdd D s1) = ip"
    using assms(4) rt by (simp add: fd)
  show "\<exists>s1. Write_ACUSN D sn s = Inr s1 \<and> fst (Read_ACUSN D s1) = sn"
    using assms(5) rt by (simp add: fd)
  show "\<exists>s1. Write_ACUAdd D code s = Inr s1 \<and> fst (Read_ACUAdd D s1) = code"
    using assms(6) rt by (simp add: fd)
  show "\<exists>s1. Write_localIP D lip s = Inr s1 \<and> fst (Read_localIP D s1) = lip"
    using assms(7) rt by (simp add: fd)
  show "\<exists>s1. Write_netmask D nm s = Inr s1 \<and> fst (Read_netmask D s1) = nm"
    using assms(8) rt by (simp add: fd)
  show "\<exists>s1. Write_gateway D gw s = Inr s1 \<and> fst (Read_gateway D s1) = gw"
    using assms(9) rt by (simp add: fd)
  show "fst (Read_PortAdd D (Write_PortAdd D port s)) = port"
    using rt [of 204 "[of_nat (unat port div 256), of_nat (unat port mod 256)]" 2] u16_join_bytes [of port]
    by (simp add: Read_PortAdd_def Write_PortAdd_field split_beta)
qed

text \<open>
  Each field of the configuration reads back as it was written: server address and port,
  serial number, communication code, reader key, local address, mask and gateway.
\<close>

theorem config_roundtrip:
  assumes "is_at24 D view" and "bus_idle (iic_view view s)"
    and "length key = 7" and "length ip = 4" and "length sn = 4" and "length code = 16"
    and "length lip = 5" and "length nm = 4" and "length gw = 4"
  shows "(\<exists>s1. Write_RFID_Key D key s = Inr s1 \<and> fst (Read_RFID_Key D s1) = key) \<and>
    (\<exists>s1. Write_IPAdd D ip s = Inr s1 \<and> fst (Read_IPAdd D s1) = ip) \<and>
    fst (Read_PortAdd D (Write_PortAdd D port s)) = port \<and>
    (\<exists>s1. Write_ACUSN D sn s = Inr s1 \<and> fst (Read_ACUSN D s1) = sn) \<and>
    (\<exists>s1. Write_ACUAdd D code s = Inr s1 \<and> fst (Read_ACUAdd D s1) = code) \<and>
    (\<exists>s1. Write_localIP D lip s = Inr s1 \<and> fst (Read_localIP D s1) = lip) \<and>
    (\<exists>s1. Write_netmask D nm s = Inr s1 \<and> fst (Read_netmask D s1) = nm) \<and>
    (\<exists>s1. Write_gateway D gw s = Inr s1 \<and> fst (Read_gateway D s1) = gw)"
  using config_fields [OF assms] by blast

lemma config_roundtrip_witness:
  "fst (Read_PortAdd at24_dev (Write_PortAdd at24_dev 20000 fresh_bus)) = 20000 \<and>
   (\<exists>s1. Write_IPAdd at24_dev [192, 168, 1, 1] fresh_bus = Inr s1 \<and>
     fst (Read_IPAdd at24_dev s1) = [192, 168, 1, 1])"
  using config_roundtrip [of at24_dev "\<lambda>c. c" fresh_bus default_RFID_Key "[192, 168, 1, 1]"
      default_ACUSN default_ACUAdd "[0, 0, 0, 0, 0]" "[0, 0, 0, 0]" "[0, 0, 0, 0]" 20000]
  by (simp add: is_at24_self iic_view_self fresh_bus_idle)

definition start_acu :: "at24 iic \<Rightarrow> at24 acu" where
  "start_acu e = \<lparr>ee = e, can = quiet_bus, g_RUNDate = replicate 81 (replicate 14 0),
     KJ_Versions = replicate 80 0, FM1702_Key = replicate 7 0, FM1702KeyCRC = 0,
     g_lwipADD = replicate 4 0, g_lwipPort = 0, g_ACUSN = replicate 4 0,
     g_ACUAdd = replicate 16 0, g_Setip = replicate 5 0, g_Setnetmask = replicate 4 0,
     g_Setgateway = replicate 4 0, g_CostNum = 29, g_WaterCost = 5\<rparr>"

lemma start_acu_sel [simp]:
  "ee (start_acu e) = e" "g_RUNDate (start_acu e) = replicate 81 (replicate 14 0)"
  "KJ_Versions (start_acu e) = replicate 80 0" "can (start_acu e) = quiet_bus"
  by (simp_all add: start_acu_def)

lemma Delete_LogicADD_removes_witness:
  "\<exists>s'. Delete_LogicADD at24_dev (of_nat 3) (start_acu (bus_with (filled_image 5))) =
       Inr (cells (\<lambda>c. c) (ee (start_acu (bus_with (filled_image 5)))) ! 1 - 1, s') \<and>
     bus_idle (iic_view (\<lambda>c. c) (ee s')) \<and>
     table (cells (\<lambda>c. c) (ee s')) =
       (table (cells (\<lambda>c. c) (ee (start_acu (bus_with (filled_image 5))))))(3 := None) \<and>
     cells (\<lambda>c. c) (ee s') ! 1 = cells (\<lambda>c. c) (ee (start_acu (bus_with (filled_image 5)))) ! 1 - 1 \<and>
     g_RUNDate s' = (g_RUNDate (start_acu (bus_with (filled_image 5))))
       [3 := (g_RUNDate (start_acu (bus_with (filled_image 5))) ! 3)[0 := 0]] \<and>
     (odd (3 :: nat) \<and> table (cells (\<lambda>c. c) (ee (start_acu (bus_with (filled_image 5))))) 3 \<noteq> None \<longrightarrow>
        cells (\<lambda>c. c) (ee s') ! (14 + 5 * 3) =
        cells (\<lambda>c. c) (ee (start_acu (bus_with (filled_image 5)))) ! (14 + 5 * 3))"
  by (rule Delete_LogicADD_removes)
     (simp_all add: is_at24_self iic_view_self bus_with_idle)

text \<open>
  The start-up check succeeds on every working AT24C08. If the flag byte 255 already holds
  0x55 the memory is left alone; otherwise the whole memory is erased and the factory
  configuration written, so that the map of registered readers is empty, while the globals
  keep the values that were in the memory before.
\<close>

theorem AT24CXX_Check_initialises:
  assumes "is_at24 D view" and "bus_idle (iic_view view (ee s))"
  shows "\<exists>s'. AT24CXX_Check D s = Inr (0, s') \<and> bus_idle (iic_view view (ee s')) \<and>
     g_lwipADD s' = take 4 (drop 200 (cells view (ee s))) \<and>
     (if cells view (ee s) ! 255 = 0x55 then cells view (ee s') = cells view (ee s)
      else cells view (ee s') = default_image \<and> table (cells view (ee s')) = Map.empty)"
proof -
  have ok: "ee_ok D view (ee s)" using assms by (simp add: ee_ok_def)
  let ?s1 = "load_config D s"
  have s1: "ee_ok D view (ee ?s1)" "cells view (ee ?s1) = cells view (ee s)"
    using load_config_ok [OF ok] by simp_all
  have ip: "g_lwipADD ?s1 = take 4 (drop 200 (cells view (ee s)))"
  proof -
    obtain e1 where e1: "Read_RFID_Key D (ee s) = (take 7 (drop 230 (cells view (ee s))), e1)"
      "ee_ok D view e1" "cells view e1 = cells view (ee s)"
      using ee_read [OF ok, of 230 7] by (auto simp: Read_RFID_Key_def)
    have "fst (Read_IPAdd D e1) = take 4 (drop 200 (cells view (ee s)))"
      using fst_ee_read [OF e1(2), of 200 4] e1(3) by (simp add: Read_IPAdd_def)
    then show ?thesis using e1(1) by (simp add: load_config_def split_beta Let_def)
  qed
  obtain e1 where e1: "AT24CXX_ReadOneByte D 255 (ee ?s1) = (cells view (ee s) ! 255, e1)"
    "ee_ok D view e1" "cells view e1 = cells view (ee s)"
    using ee_rd [OF s1(1), of 255] s1(2) by auto
  show ?thesis
  proof (cases "cells view (ee s) ! 255 = 0x55")
    case True
    with e1 ip show ?thesis by (simp add: AT24CXX_Check_def ee_ok_def)
  next
    case False
    obtain e2 where e2: "write_defaults D e1 = Inr e2" "ee_ok D view e2" "cells view e2 = default_image"
      using write_defaults_ok [OF e1(2)] by blast
    obtain e3 where e3: "AT24CXX_ReadOneByte D 255 e2 = (0x55, e3)" "ee_ok D view e3"
      "cells view e3 = default_image"
      using ee_rd [OF e2(2), of 255] e2(3) default_image_nth(1) by auto
    from False e1(1) e2(1) e3 ip table_default_image show ?thesis
      by (simp add: AT24CXX_Check_def ee_ok_def)
  qed
qed

lemma AT24CXX_Check_initialises_witness:
  "\<exists>s'. AT24CXX_Check at24_dev (start_acu fresh_bus) = Inr (0, s') \<and>
     bus_idle (iic_view (\<lambda>c. c) (ee s')) \<and>
     g_lwipADD s' = take 4 (drop 200 (cells (\<lambda>c. c) (ee (start_acu fresh_bus)))) \<and>
     (if cells (\<lambda>c. c) (ee (start_acu fresh_bus)) ! 255 = 0x55
      then cells (\<lambda>c. c) (ee s') = cells (\<lambda>c. c) (ee (start_acu fresh_bus))
      else cells (\<lambda>c. c) (ee s') = default_image \<and> table (cells (\<lambda>c. c) (ee s')) = Map.empty)"
  by (rule AT24CXX_Check_initialises) (simp_all add: is_at24_self iic_view_self fresh_bus_idle)

lemma Delete_LogicADD_versions:
  "Delete_LogicADD D no s = Inr (c, s') \<Longrightarrow> KJ_Versions s' = KJ_Versions s"
  by (auto simp: Delete_LogicADD_def run_set_def ebind_eq_Inr_iff Let_def split_beta)

text \<open>
  The array of reader versions is one element short: with 80 readers registered the
  start-up registration of entry 80 stores its version in \<open>KJ_Versions[80]\<close>, past the end of
  the array of \<open>BUSNUM_SIZE\<close> elements.
\<close>

theorem power_up_entry_80_out_of_bounds:
  assumes "is_at24 D view" and "bus_idle (iic_view view (ee s))" and "frames_carry_data E" and "22 \<le> fuel"
    and "length (KJ_Versions s) = 80" and "length (g_RUNDate s) = 81"
    and "\<forall>row \<in> set (g_RUNDate s). length row = 14"
    and "table (cells view (ee s)) 80 \<noteq> None"
  shows "power_up_entry fuel D E 80 s = Inl Out_Of_Bounds"
proof -
  have ok: "ee_ok D view (ee s)" using assms(1,2) by (simp add: ee_ok_def)
  let ?m = "cells view (ee s)"
  have used: "?m ! 410 = 80" using assms(8) by (auto simp: table_def split: if_splits)
  have a: "unat (entry_addr 80) = 410" "unat (entry_addr 80 + 1) = 411"
    using unat_entry_addr [of 80] unat_entry_addr_plus [of 80 1] by simp_all
  obtain e1 where e1: "AT24CXX_ReadOneByte D (entry_addr 80) (ee s) = (80, e1)" "ee_ok D view e1"
    "cells view e1 = ?m"
    using ee_rd [OF ok, of "entry_addr 80"] a used by auto
  obtain e2 where e2: "AT24CXX_Read D (entry_addr 80 + 1) 4 e1 = (take 4 (drop 411 ?m), e2)"
    "ee_ok D view e2"
    using ee_read [OF e1(2), of "entry_addr 80 + 1" 4] a e1(3) by auto
  have "length (take 4 (drop 411 ?m)) = 4" using ee_cells_length [OF ok] by simp
  then obtain p0 p1 p2 p3 where p: "take 4 (drop 411 ?m) = [p0, p1, p2, p3]"
    by (rule length_4E)
  let ?s1 = "s\<lparr>ee := e2\<rparr>"
  have reg: "register_entry fuel D E 80 [p0, p1, p2, p3] ?s1 = Inl Out_Of_Bounds"
    using Can_WriteLogitADD_terminates [OF assms(3) _ assms(4), of 80 p0 p1 p2 p3 "can s"] assms(5)
    by (auto simp: register_entry_def set_version_def)
  have del: "\<exists>c s2. Delete_LogicADD D 80 ?s1 = Inr (c, s2) \<and> KJ_Versions s2 = KJ_Versions s"
  proof -
    obtain c s2 where "Delete_LogicADD D 80 ?s1 = Inr (c, s2)"
      using Delete_LogicADD_removes [of D view ?s1 80] assms(6,7) e2(2) by (auto simp: ee_ok_def)
    with Delete_LogicADD_versions show ?thesis by fastforce
  qed
  show ?thesis
    using e1(1) e2(1) p reg del assms(5)
    by (auto simp: power_up_entry_def set_version_def Let_def)
qed

lemma power_up_entry_80_out_of_bounds_witness:
  "power_up_entry 22 at24_dev (reader_env (\<lambda>n. None)) 80 (start_acu (bus_with (filled_image 80))) =
     Inl Out_Of_Bounds"
  by (rule power_up_entry_80_out_of_bounds [where view = "\<lambda>c. c"])
     (simp_all add: is_at24_self iic_view_self bus_with_idle table_filled_image)

end
