(* ===== verification/Fifo.thy ===== *)
theory Fifo
  imports ACU_Prelude
begin

text \<open>
  Bounded queues: the list of messages a ring of an array stands for, and the contract of a queue that the serial
  ports (\<open>UartFifo\<close>) and the queues of the kernel (\<open>OsQueue\<close>) both keep.
\<close>

section \<open>Rings\<close>

definition ring_list :: "'a list \<Rightarrow> nat \<Rightarrow> nat \<Rightarrow> 'a list" where
  "ring_list buf r n = map (\<lambda>i. buf ! ((r + i) mod length buf)) [0..<n]"

lemma length_ring_list [simp]: "length (ring_list buf r n) = n"
  by (simp add: ring_list_def)

lemma ring_list_put:
  assumes "n < length buf"
  shows "ring_list (buf[(r + n) mod length buf := x]) r (Suc n) = ring_list buf r n @ [x]"
proof (rule nth_equalityI)
  fix i assume "i < length (ring_list (buf[(r + n) mod length buf := x]) r (Suc n))"
  then have i: "i \<le> n" by simp
  have pos: "0 < length buf" using assms by linarith
  show "ring_list (buf[(r + n) mod length buf := x]) r (Suc n) ! i = (ring_list buf r n @ [x]) ! i"
  proof (cases "i = n")
    case True
    with pos have "(r + n) mod length buf < length buf" by simp
    with True show ?thesis by (simp add: ring_list_def nth_append)
  next
    case False
    with i have "i < n" by simp
    have "(r + i) mod length buf \<noteq> (r + n) mod length buf"
    proof
      assume "(r + i) mod length buf = (r + n) mod length buf"
      then have "length buf dvd (r + n) - (r + i)"
        using \<open>i < n\<close> by (metis add_le_mono1 less_imp_le mod_eq_dvd_iff_nat nat_add_left_cancel_le)
      then have "length buf dvd n - i" by simp
      with \<open>i < n\<close> assms show False by (auto dest: dvd_imp_le)
    qed
    with \<open>i < n\<close> show ?thesis by (simp add: ring_list_def nth_append)
  qed
qed (use assms in simp)

lemma ring_list_take:
  assumes "0 < n" and "r < length buf"
  shows "ring_list buf r n = buf ! r # ring_list buf ((r + 1) mod length buf) (n - 1)"
proof -
  obtain k where n: "n = Suc k" using assms(1) by (cases n) auto
  have "map (\<lambda>i. buf ! ((r + i) mod length buf)) [0..<Suc k] =
      buf ! ((r + 0) mod length buf) # map (\<lambda>i. buf ! ((r + Suc i) mod length buf)) [0..<k]"
    by (simp add: upt_conv_Cons map_Suc_upt [symmetric] comp_def del: upt_Suc map_Suc_upt)
  moreover have "(r + Suc i) mod length buf = ((r + 1) mod length buf + i) mod length buf" for i
    by (simp add: mod_add_left_eq)
  ultimately show ?thesis using assms(2) by (simp add: ring_list_def n)
qed

section \<open>The contract\<close>

locale bounded_fifo =
  fixes ok :: "'s \<Rightarrow> bool"
    and contents :: "'s \<Rightarrow> 'a list"
    and capacity :: "'s \<Rightarrow> nat"
    and enq :: "'a \<Rightarrow> 's \<Rightarrow> fault + 's"
    and deq :: "'s \<Rightarrow> fault + ('a \<times> 's)"
  assumes enq: "ok s \<Longrightarrow> length (contents s) < capacity s \<Longrightarrow>
      \<exists>s'. enq x s = Inr s' \<and> ok s' \<and> contents s' = contents s @ [x] \<and> capacity s' = capacity s"
    and deq: "ok s \<Longrightarrow> contents s = x # xs \<Longrightarrow>
      \<exists>s'. deq s = Inr (x, s') \<and> ok s' \<and> contents s' = xs \<and> capacity s' = capacity s"
begin

fun enq_all :: "'a list \<Rightarrow> 's \<Rightarrow> fault + 's" where
  "enq_all [] s = Inr s"
| "enq_all (x # xs) s = ebind (enq x s) (enq_all xs)"

fun deq_n :: "nat \<Rightarrow> 's \<Rightarrow> fault + ('a list \<times> 's)" where
  "deq_n 0 s = Inr ([], s)"
| "deq_n (Suc n) s = ebind (deq s) (\<lambda>(x, s1). ebind (deq_n n s1) (\<lambda>(xs, s2). Inr (x # xs, s2)))"

lemma enq_all_ok:
  "ok s \<Longrightarrow> length (contents s) + length xs \<le> capacity s \<Longrightarrow>
   \<exists>s'. enq_all xs s = Inr s' \<and> ok s' \<and> contents s' = contents s @ xs \<and> capacity s' = capacity s"
proof (induction xs arbitrary: s)
  case (Cons x xs)
  then obtain s1 where s1: "enq x s = Inr s1" "ok s1" "contents s1 = contents s @ [x]"
      "capacity s1 = capacity s" using enq [of s x] by auto
  with Cons.prems Cons.IH [of s1] show ?case by auto
qed simp

lemma deq_n_ok:
  "ok s \<Longrightarrow> contents s = xs @ ys \<Longrightarrow>
   \<exists>s'. deq_n (length xs) s = Inr (xs, s') \<and> ok s' \<and> contents s' = ys \<and> capacity s' = capacity s"
proof (induction xs arbitrary: s)
  case (Cons x xs)
  then obtain s1 where "deq s = Inr (x, s1)" "ok s1" "contents s1 = xs @ ys" "capacity s1 = capacity s"
    using deq [of s x "xs @ ys"] by auto
  with Cons.IH [of s1] show ?case by auto
qed simp

lemma first_in_first_out:
  assumes "ok s" and "contents s = []" and "length xs \<le> capacity s"
  shows "\<exists>s'. ebind (enq_all xs s) (deq_n (length xs)) = Inr (xs, s') \<and> ok s' \<and> contents s' = []"
proof -
  obtain s1 where "enq_all xs s = Inr s1" "ok s1" "contents s1 = xs"
    using enq_all_ok [of s xs] assms by auto
  with deq_n_ok [of s1 xs "[]"] show ?thesis by auto
qed

end

end
