(* ===== verification/UartFifo.thy ===== *)
theory UartFifo
  imports Fifo
begin

text \<open>
  The interrupt-driven serial ports of SYSTEM/usart/bsp_uart_fifo.c: a transmit and a receive
  ring per port, filled and emptied by the tasks and by the interrupt handler. The registers
  of the port that the code uses are part of its record: the enable bits of the TXE and TC
  interrupts and the bytes handed to the transmitter so far. An interrupt is given by the
  flags pending when the handler runs. The two ports the build enables are modelled.
\<close>

section \<open>The state\<close>

record uart =
  pTxBuf :: "u8 list"
  pRxBuf :: "u8 list"
  usTxBufSize :: u16
  usRxBufSize :: u16
  usTxWrite :: u16
  usTxRead :: u16
  usTxCount :: u16
  usRxWrite :: u16
  usRxRead :: u16
  usRxCount :: u16
  it_txe :: bool         \<comment> \<open>\<open>USART_IT_TXE\<close> enabled\<close>
  it_tc :: bool          \<comment> \<open>\<open>USART_IT_TC\<close> enabled\<close>
  tx_line :: "u8 list"   \<comment> \<open>bytes written to the data register\<close>

datatype COM_PORT_E = COM1 | COM2 | COM3 | COM4 | COM5

record uarts =
  g_tUart1 :: uart
  g_tUart3 :: uart

text \<open>The pending flags: a received byte, the transmit register empty, transmission complete.\<close>

record irq =
  flag_rxne :: "u8 option"
  flag_txe :: bool
  flag_tc :: bool

section \<open>The code\<close>

definition UART_BUF_SIZE :: nat where "UART_BUF_SIZE = 512"

definition uart_init :: uart where
  "uart_init = \<lparr>pTxBuf = replicate UART_BUF_SIZE 0, pRxBuf = replicate UART_BUF_SIZE 0,
     usTxBufSize = of_nat UART_BUF_SIZE, usRxBufSize = of_nat UART_BUF_SIZE,
     usTxWrite = 0, usTxRead = 0, usTxCount = 0, usRxWrite = 0, usRxRead = 0, usRxCount = 0,
     it_txe = False, it_tc = False, tx_line = []\<rparr>"

definition UartVarInit :: uarts where
  "UartVarInit = \<lparr>g_tUart1 = uart_init, g_tUart3 = uart_init\<rparr>"

definition next_index :: "u16 \<Rightarrow> u16 \<Rightarrow> u16" where
  "next_index i sz = (if i + 1 \<ge> sz then 0 else i + 1)"

text \<open>The body of the loop of \<open>UartSend\<close> once there is room.\<close>

definition tx_put :: "u8 \<Rightarrow> uart \<Rightarrow> fault + uart" where
  "tx_put b u =
     ebind (arr_set (pTxBuf u) (unat (usTxWrite u)) b) (\<lambda>buf.
       Inr (u\<lparr>pTxBuf := buf, usTxWrite := next_index (usTxWrite u) (usTxBufSize u),
              usTxCount := usTxCount u + 1\<rparr>))"

definition tx_take :: "uart \<Rightarrow> fault + uart" where
  "tx_take u =
     ebind (arr_get (pTxBuf u) (unat (usTxRead u))) (\<lambda>b.
       Inr (u\<lparr>tx_line := tx_line u @ [b], usTxRead := next_index (usTxRead u) (usTxBufSize u),
              usTxCount := usTxCount u - 1\<rparr>))"

definition rx_put :: "u8 \<Rightarrow> uart \<Rightarrow> fault + uart" where
  "rx_put ch u =
     ebind (arr_set (pRxBuf u) (unat (usRxWrite u)) ch) (\<lambda>buf.
       Inr (u\<lparr>pRxBuf := buf, usRxWrite := next_index (usRxWrite u) (usRxBufSize u),
              usRxCount := (if usRxCount u < usRxBufSize u then usRxCount u + 1 else usRxCount u)\<rparr>))"

definition UartIRQ :: "irq \<Rightarrow> uart \<Rightarrow> fault + uart" where
  "UartIRQ q u =
     ebind (case flag_rxne q of None \<Rightarrow> Inr u | Some ch \<Rightarrow> rx_put ch u) (\<lambda>u1.
       if flag_txe q \<and> it_txe u1 then
         if usTxCount u1 = 0 then Inr (u1\<lparr>it_txe := False, it_tc := True\<rparr>)
         else tx_take u1
       else if flag_tc q \<and> it_tc u1 then
         if usTxCount u1 = 0 then Inr (u1\<lparr>it_tc := False\<rparr>)
         else tx_take u1
       else Inr u1)"

text \<open>\<open>None\<close>: no data.\<close>

definition UartGetChar :: "uart \<Rightarrow> fault + (u8 option \<times> uart)" where
  "UartGetChar u =
     (if usRxCount u = 0 then Inr (None, u)
      else
        ebind (arr_get (pRxBuf u) (unat (usRxRead u))) (\<lambda>b.
          Inr (Some b, u\<lparr>usRxRead := next_index (usRxRead u) (usRxBufSize u),
                         usRxCount := usRxCount u - 1\<rparr>)))"

text \<open>\<open>ev t\<close> is the interrupt, if any, that is served before the \<open>t\<close>-th look at \<open>usTxCount\<close>.
  The transmit interrupt is enabled only after the last byte has been stored.\<close>

fun tx_wait_room :: "nat \<Rightarrow> (nat \<Rightarrow> irq option) \<Rightarrow> nat \<Rightarrow> uart \<Rightarrow> fault + (nat \<times> uart)" where
  "tx_wait_room 0 ev t u = Inl Still_Running"
| "tx_wait_room (Suc fuel) ev t u =
     ebind (case ev t of None \<Rightarrow> Inr u | Some q \<Rightarrow> UartIRQ q u) (\<lambda>u1.
       if usTxCount u1 < usTxBufSize u1 then Inr (Suc t, u1)
       else tx_wait_room fuel ev (Suc t) u1)"

fun send_bytes :: "nat \<Rightarrow> (nat \<Rightarrow> irq option) \<Rightarrow> nat \<Rightarrow> u8 list \<Rightarrow> uart \<Rightarrow> fault + (nat \<times> uart)" where
  "send_bytes fuel ev t [] u = Inr (t, u)"
| "send_bytes fuel ev t (b # bs) u =
     ebind (tx_wait_room fuel ev t u) (\<lambda>(t1, u1).
     ebind (tx_put b u1) (\<lambda>u2. send_bytes fuel ev t1 bs u2))"

definition UartSend ::
  "nat \<Rightarrow> (nat \<Rightarrow> irq option) \<Rightarrow> u8 list \<Rightarrow> u16 \<Rightarrow> uart \<Rightarrow> fault + uart" where
  "UartSend fuel ev ucaBuf usLen u =
     ebind (get_bytes ucaBuf 0 (unat usLen)) (\<lambda>bs.
     ebind (send_bytes fuel ev 0 bs u) (\<lambda>(_, u1). Inr (u1\<lparr>it_txe := True\<rparr>)))"

definition ComToUart :: "COM_PORT_E \<Rightarrow> uarts \<Rightarrow> uart option" where
  "ComToUart port s =
     (case port of COM1 \<Rightarrow> Some (g_tUart1 s) | COM3 \<Rightarrow> Some (g_tUart3 s) | _ \<Rightarrow> None)"

definition set_uart :: "COM_PORT_E \<Rightarrow> uart \<Rightarrow> uarts \<Rightarrow> uarts" where
  "set_uart port u s =
     (case port of COM1 \<Rightarrow> s\<lparr>g_tUart1 := u\<rparr> | COM3 \<Rightarrow> s\<lparr>g_tUart3 := u\<rparr> | _ \<Rightarrow> s)"

definition comSendBuf ::
  "nat \<Rightarrow> (nat \<Rightarrow> irq option) \<Rightarrow> COM_PORT_E \<Rightarrow> u8 list \<Rightarrow> u16 \<Rightarrow> uarts \<Rightarrow> fault + uarts" where
  "comSendBuf fuel ev port ucaBuf usLen s =
     (case ComToUart port s of
        None \<Rightarrow> Inr s
      | Some u \<Rightarrow> ebind (UartSend fuel ev ucaBuf usLen u) (\<lambda>u1. Inr (set_uart port u1 s)))"

definition comSendChar ::
  "nat \<Rightarrow> (nat \<Rightarrow> irq option) \<Rightarrow> COM_PORT_E \<Rightarrow> u8 \<Rightarrow> uarts \<Rightarrow> fault + uarts" where
  "comSendChar fuel ev port ucByte s = comSendBuf fuel ev port [ucByte] 1 s"

definition comGetChar :: "COM_PORT_E \<Rightarrow> uarts \<Rightarrow> fault + (u8 option \<times> uarts)" where
  "comGetChar port s =
     (case ComToUart port s of
        None \<Rightarrow> Inr (None, s)
      | Some u \<Rightarrow> ebind (UartGetChar u) (\<lambda>(r, u1). Inr (r, set_uart port u1 s)))"

definition comClearTxFifo :: "COM_PORT_E \<Rightarrow> uarts \<Rightarrow> uarts" where
  "comClearTxFifo port s =
     (case ComToUart port s of
        None \<Rightarrow> s
      | Some u \<Rightarrow> set_uart port (u\<lparr>usTxWrite := 0, usTxRead := 0, usTxCount := 0\<rparr>) s)"

definition comClearRxFifo :: "COM_PORT_E \<Rightarrow> uarts \<Rightarrow> uarts" where
  "comClearRxFifo port s =
     (case ComToUart port s of
        None \<Rightarrow> s
      | Some u \<Rightarrow> set_uart port (u\<lparr>usRxWrite := 0, usRxRead := 0, usRxCount := 0\<rparr>) s)"

definition USART1_IRQHandler :: "irq \<Rightarrow> uarts \<Rightarrow> fault + uarts" where
  "USART1_IRQHandler q s = ebind (UartIRQ q (g_tUart1 s)) (\<lambda>u. Inr (s\<lparr>g_tUart1 := u\<rparr>))"

definition USART3_IRQHandler :: "irq \<Rightarrow> uarts \<Rightarrow> fault + uarts" where
  "USART3_IRQHandler q s = ebind (UartIRQ q (g_tUart3 s)) (\<lambda>u. Inr (s\<lparr>g_tUart3 := u\<rparr>))"

text \<open>The address switches of the RS485 port: \<open>low n\<close> says that input \<open>n\<close> reads 0.\<close>

fun add_bits :: "(nat \<Rightarrow> bool) \<Rightarrow> nat \<Rightarrow> u8 \<Rightarrow> u8" where
  "add_bits low 0 a = a"
| "add_bits low (Suc n) a =
     (let a1 = add_bits low n a
      in if low (n + 1) then a1 OR push_bit n 1 else a1 AND NOT (push_bit n 1))"

definition ADD_RS485 :: "(nat \<Rightarrow> bool) \<Rightarrow> u8" where
  "ADD_RS485 low = add_bits low 8 0"

section \<open>The indices of a ring\<close>

text \<open>The indices of a ring of \<open>sz\<close> elements.\<close>

definition ring_ok :: "'a list \<Rightarrow> u16 \<Rightarrow> u16 \<Rightarrow> u16 \<Rightarrow> u16 \<Rightarrow> bool" where
  "ring_ok buf sz w r n \<longleftrightarrow> 0 < sz \<and> length buf = unat sz \<and> unat r < unat sz \<and> unat n \<le> unat sz \<and>
     unat w = (unat r + unat n) mod unat sz"

lemma unat_next_index:
  assumes "unat i < unat sz"
  shows "unat (next_index i sz) = (unat i + 1) mod unat sz"
proof -
  have "i < sz" using assms by (simp add: word_less_nat_alt)
  then have suc: "unat (i + 1) = unat i + 1" using unat_Suc_less by auto
  show ?thesis
  proof (cases "unat i + 1 = unat sz")
    case True
    then have "i + 1 = sz" using suc by (simp add: word_unat_eq_iff)
    with True show ?thesis by (simp add: next_index_def)
  next
    case False
    with assms have "unat i + 1 < unat sz" by simp
    moreover from this have "\<not> i + 1 \<ge> sz" using suc by (simp add: word_le_nat_alt)
    ultimately show ?thesis using suc by (simp add: next_index_def)
  qed
qed

lemma ring_ok_put:
  assumes "ring_ok buf sz w r n" and "n < sz"
  shows "ring_ok (buf[unat w := x]) sz (next_index w sz) r (n + 1)"
    and "ring_list (buf[unat w := x]) (unat r) (unat (n + 1)) = ring_list buf (unat r) (unat n) @ [x]"
    and "unat w < length buf"
proof -
  have w: "unat w < unat sz" using assms(1) by (simp add: ring_ok_def)
  then show "unat w < length buf" using assms(1) by (simp add: ring_ok_def)
  have n: "unat (n + 1) = Suc (unat n)" using assms(2) by (rule unat_Suc_less)
  show "ring_list (buf[unat w := x]) (unat r) (unat (n + 1)) = ring_list buf (unat r) (unat n) @ [x]"
    using ring_list_put [of "unat n" buf "unat r" x] assms n by (simp add: ring_ok_def word_less_nat_alt)
  show "ring_ok (buf[unat w := x]) sz (next_index w sz) r (n + 1)"
    using assms w n unat_next_index [OF w]
    by (auto simp: ring_ok_def word_less_nat_alt mod_Suc_eq)
qed

lemma ring_ok_take:
  assumes "ring_ok buf sz w r n" and "n \<noteq> 0"
  shows "ring_ok buf sz w (next_index r sz) (n - 1)"
    and "ring_list buf (unat r) (unat n) =
      buf ! unat r # ring_list buf (unat (next_index r sz)) (unat (n - 1))"
    and "unat r < length buf"
proof -
  have r: "unat r < unat sz" "length buf = unat sz" using assms(1) by (simp_all add: ring_ok_def)
  then show "unat r < length buf" by simp
  have n: "unat (n - 1) = unat n - 1" using assms(2) by (rule unat_minus_one)
  have pos: "0 < unat n" using assms(2) by (simp add: unat_gt_0)
  show "ring_list buf (unat r) (unat n) =
      buf ! unat r # ring_list buf (unat (next_index r sz)) (unat (n - 1))"
    using ring_list_take [of "unat n" "unat r" buf] pos r n unat_next_index [OF r(1)] by simp
  have "((unat r + 1) mod unat sz + (unat n - 1)) mod unat sz = (unat r + 1 + (unat n - 1)) mod unat sz"
    by (rule mod_add_left_eq)
  also have "unat r + 1 + (unat n - 1) = unat r + unat n" using pos by simp
  finally have "((unat r + 1) mod unat sz + (unat n - 1)) mod unat sz = (unat r + unat n) mod unat sz" .
  then show "ring_ok buf sz w (next_index r sz) (n - 1)"
    using assms n pos unat_next_index [OF r(1)] by (auto simp: ring_ok_def)
qed

section \<open>The contents of the two rings\<close>

definition tx_ok :: "uart \<Rightarrow> bool" where
  "tx_ok u = ring_ok (pTxBuf u) (usTxBufSize u) (usTxWrite u) (usTxRead u) (usTxCount u)"

definition tx_fifo :: "uart \<Rightarrow> u8 list" where
  "tx_fifo u = ring_list (pTxBuf u) (unat (usTxRead u)) (unat (usTxCount u))"

definition rx_ok :: "uart \<Rightarrow> bool" where
  "rx_ok u = ring_ok (pRxBuf u) (usRxBufSize u) (usRxWrite u) (usRxRead u) (usRxCount u)"

definition rx_fifo :: "uart \<Rightarrow> u8 list" where
  "rx_fifo u = ring_list (pRxBuf u) (unat (usRxRead u)) (unat (usRxCount u))"

text \<open>What is left of \<open>rx_ok\<close> once bytes have been received into a full ring.\<close>

definition rx_safe :: "uart \<Rightarrow> bool" where
  "rx_safe u \<longleftrightarrow> length (pRxBuf u) = unat (usRxBufSize u) \<and> usRxWrite u < usRxBufSize u \<and>
     usRxRead u < usRxBufSize u \<and> usRxCount u \<le> usRxBufSize u"

text \<open>The part of the record the transmitter owns, and the part the receiver owns.\<close>

definition tx_part :: "uart \<Rightarrow> u8 list \<times> u16 \<times> u16 \<times> u16 \<times> u16 \<times> bool \<times> bool \<times> u8 list" where
  "tx_part u = (pTxBuf u, usTxBufSize u, usTxWrite u, usTxRead u, usTxCount u, it_txe u, it_tc u, tx_line u)"

definition rx_part :: "uart \<Rightarrow> u8 list \<times> u16 \<times> u16 \<times> u16 \<times> u16" where
  "rx_part u = (pRxBuf u, usRxBufSize u, usRxWrite u, usRxRead u, usRxCount u)"

lemma rx_part_cong: "rx_part u = rx_part v \<Longrightarrow>
  rx_ok u = rx_ok v \<and> rx_fifo u = rx_fifo v \<and> rx_safe u = rx_safe v"
  by (simp add: rx_part_def rx_ok_def rx_fifo_def rx_safe_def)

lemma tx_part_cong: "tx_part u = tx_part v \<Longrightarrow> tx_ok u = tx_ok v \<and> tx_fifo u = tx_fifo v \<and>
  tx_line u = tx_line v \<and> it_txe u = it_txe v \<and> it_tc u = it_tc v \<and>
  usTxCount u = usTxCount v \<and> usTxBufSize u = usTxBufSize v"
  by (simp add: tx_part_def tx_ok_def tx_fifo_def)

lemma length_tx_fifo [simp]: "length (tx_fifo u) = unat (usTxCount u)"
  by (simp add: tx_fifo_def)

lemma length_rx_fifo [simp]: "length (rx_fifo u) = unat (usRxCount u)"
  by (simp add: rx_fifo_def)

lemma rx_ok_safe: "rx_ok u \<Longrightarrow> rx_safe u"
  by (auto simp: rx_ok_def rx_safe_def ring_ok_def word_less_nat_alt word_le_nat_alt)

lemma next_index_less: "0 < sz \<Longrightarrow> next_index i sz < sz"
  by (auto simp: next_index_def not_le)

lemma tx_put_spec:
  assumes "tx_ok u" and "usTxCount u < usTxBufSize u"
  obtains u' where "tx_put b u = Inr u'" "tx_ok u'" "tx_fifo u' = tx_fifo u @ [b]"
    "rx_part u' = rx_part u" "tx_line u' = tx_line u" "usTxBufSize u' = usTxBufSize u"
    "usTxCount u' = usTxCount u + 1" "it_txe u' = it_txe u" "it_tc u' = it_tc u"
  using ring_ok_put [OF assms(1) [unfolded tx_ok_def] assms(2)]
  by (simp add: tx_put_def tx_ok_def tx_fifo_def rx_part_def)

lemma tx_take_spec:
  assumes "tx_ok u" and "usTxCount u \<noteq> 0"
  obtains u' where "tx_take u = Inr u'" "tx_ok u'" "tx_line u' @ tx_fifo u' = tx_line u @ tx_fifo u"
    "tx_line u' = tx_line u @ [hd (tx_fifo u)]" "tx_fifo u' = tl (tx_fifo u)"
    "rx_part u' = rx_part u" "usTxBufSize u' = usTxBufSize u" "usTxCount u' = usTxCount u - 1"
    "it_txe u' = it_txe u" "it_tc u' = it_tc u"
  using ring_ok_take [OF assms(1) [unfolded tx_ok_def] assms(2)]
  by (simp add: tx_take_def tx_ok_def tx_fifo_def rx_part_def)

lemma rx_put_spec:
  assumes "rx_ok u" and "usRxCount u < usRxBufSize u"
  obtains u' where "rx_put b u = Inr u'" "rx_ok u'" "rx_fifo u' = rx_fifo u @ [b]"
    "tx_part u' = tx_part u" "usRxBufSize u' = usRxBufSize u"
  using ring_ok_put [OF assms(1) [unfolded rx_ok_def] assms(2)] assms(2)
  by (simp add: rx_put_def rx_ok_def rx_fifo_def tx_part_def)

lemma rx_put_safe:
  assumes "rx_safe u"
  obtains u' where "rx_put b u = Inr u'" "rx_safe u'" "tx_part u' = tx_part u"
proof -
  have w: "unat (usRxWrite u) < length (pRxBuf u)" and sz: "0 < usRxBufSize u"
    using assms by (auto simp: rx_safe_def word_less_nat_alt)
  have "usRxCount u < usRxBufSize u \<Longrightarrow> usRxCount u + 1 \<le> usRxBufSize u"
    by (rule inc_le)
  with assms next_index_less [OF sz] have "rx_safe (u\<lparr>pRxBuf := (pRxBuf u)[unat (usRxWrite u) := b],
      usRxWrite := next_index (usRxWrite u) (usRxBufSize u),
      usRxCount := (if usRxCount u < usRxBufSize u then usRxCount u + 1 else usRxCount u)\<rparr>)"
    by (simp add: rx_safe_def)
  moreover have "tx_part (u\<lparr>pRxBuf := (pRxBuf u)[unat (usRxWrite u) := b],
      usRxWrite := next_index (usRxWrite u) (usRxBufSize u),
      usRxCount := (if usRxCount u < usRxBufSize u then usRxCount u + 1 else usRxCount u)\<rparr>) = tx_part u"
    by (simp add: tx_part_def)
  ultimately show ?thesis using w that by (simp add: rx_put_def)
qed

lemma UartGetChar_spec:
  assumes "rx_ok u" and "usRxCount u \<noteq> 0"
  obtains u' where "UartGetChar u = Inr (Some (hd (rx_fifo u)), u')" "rx_ok u'"
    "rx_fifo u' = tl (rx_fifo u)" "rx_fifo u = hd (rx_fifo u) # rx_fifo u'" "tx_part u' = tx_part u"
    "usRxBufSize u' = usRxBufSize u"
  using ring_ok_take [OF assms(1) [unfolded rx_ok_def] assms(2)] assms(2)
  by (simp add: UartGetChar_def rx_ok_def rx_fifo_def tx_part_def)

text \<open>The two rings keep the promise of a bounded queue.\<close>

definition tx_take_byte :: "uart \<Rightarrow> fault + (u8 \<times> uart)" where
  "tx_take_byte u = ebind (tx_take u) (\<lambda>u1. Inr (last (tx_line u1), u1))"

definition rx_get_byte :: "uart \<Rightarrow> fault + (u8 \<times> uart)" where
  "rx_get_byte u = ebind (UartGetChar u) (\<lambda>(r, u1). case r of Some b \<Rightarrow> Inr (b, u1) | None \<Rightarrow> Inl Bad_Pointer)"

lemma count_nonzero:
  "tx_fifo u = x # xs \<Longrightarrow> usTxCount u \<noteq> 0" "rx_fifo u = x # xs \<Longrightarrow> usRxCount u \<noteq> 0"
  using length_tx_fifo [of u] length_rx_fifo [of u] by auto

interpretation tx: bounded_fifo tx_ok tx_fifo "\<lambda>u. unat (usTxBufSize u)" tx_put tx_take_byte
proof (unfold_locales, goal_cases)
  case (1 u b)
  then have "usTxCount u < usTxBufSize u" by (simp add: word_less_nat_alt)
  with 1 show ?case by (elim tx_put_spec [of u b]) auto
next
  case (2 u b bs)
  then have "usTxCount u \<noteq> 0" by (elim count_nonzero)
  with 2 show ?case by (elim tx_take_spec [of u]) (auto simp: tx_take_byte_def)
qed

interpretation rx: bounded_fifo rx_ok rx_fifo "\<lambda>u. unat (usRxBufSize u)" rx_put rx_get_byte
proof (unfold_locales, goal_cases)
  case (1 u b)
  then have "usRxCount u < usRxBufSize u" by (simp add: word_less_nat_alt)
  with 1 show ?case by (elim rx_put_spec [of u b]) auto
next
  case (2 u b bs)
  then have "usRxCount u \<noteq> 0" by (elim count_nonzero)
  with 2 show ?case by (elim UartGetChar_spec [of u]) (auto simp: rx_get_byte_def)
qed

section \<open>Interrupts\<close>

lemma UartIRQ_tx:
  assumes "tx_ok u" and "rx_safe u"
  obtains u' where "UartIRQ q u = Inr u'" "tx_ok u'" "rx_safe u'"
    "tx_line u' @ tx_fifo u' = tx_line u @ tx_fifo u" "usTxCount u' \<le> usTxCount u"
    "usTxBufSize u' = usTxBufSize u"
proof -
  obtain u1 where u1: "(case flag_rxne q of None \<Rightarrow> Inr u | Some ch \<Rightarrow> rx_put ch u) = Inr u1"
      "rx_safe u1" "tx_part u1 = tx_part u"
    using assms by (cases "flag_rxne q") (auto elim: rx_put_safe)
  note tx = tx_part_cong [OF u1(3)]
  have dec: "usTxCount u1 \<noteq> 0 \<Longrightarrow> usTxCount u1 - 1 \<le> usTxCount u1"
    by (simp add: word_le_nat_alt unat_minus_one)
  show ?thesis
  proof (cases "(flag_txe q \<and> it_txe u1 \<or> flag_tc q \<and> it_tc u1) \<and> usTxCount u1 \<noteq> 0")
    case True
    have "tx_ok u1" "usTxCount u1 \<noteq> 0" using tx assms True by auto
    then obtain u2 where "tx_take u1 = Inr u2" "tx_ok u2" "tx_line u2 @ tx_fifo u2 = tx_line u1 @ tx_fifo u1"
        "rx_part u2 = rx_part u1" "usTxBufSize u2 = usTxBufSize u1" "usTxCount u2 = usTxCount u1 - 1"
      by (rule tx_take_spec)
    with True u1 tx dec rx_part_cong [of u2 u1] that [of u2] show ?thesis by (auto simp: UartIRQ_def)
  next
    case False
    then show ?thesis using u1 tx assms
        that [of "if flag_txe q \<and> it_txe u1 then u1\<lparr>it_txe := False, it_tc := True\<rparr>
                  else if flag_tc q \<and> it_tc u1 then u1\<lparr>it_tc := False\<rparr> else u1"]
      by (auto simp: UartIRQ_def tx_ok_def tx_fifo_def rx_safe_def split: if_splits)
  qed
qed

text \<open>The receive side of one interrupt.\<close>

lemma rx_part_tx_take: "tx_take u = Inr u' \<Longrightarrow> rx_part u' = rx_part u"
  by (auto simp: tx_take_def ebind_eq_Inr_iff rx_part_def)

lemma UartIRQ_rx_part:
  assumes "UartIRQ q u = Inr u'"
    and "(case flag_rxne q of None \<Rightarrow> Inr u | Some ch \<Rightarrow> rx_put ch u) = Inr u1"
  shows "rx_part u' = rx_part u1"
  using assms by (auto simp: UartIRQ_def rx_part_tx_take split: if_splits) (simp_all add: rx_part_def)

section \<open>Runs of a port\<close>

text \<open>
  Everything that can happen to a port: an interrupt, a task storing a byte in \<open>UartSend\<close> after
  it has found room, a task enabling the transmit interrupt, a task reading a byte. A run is
  \<open>lossless\<close> when every received byte finds room in its ring.
\<close>

datatype uart_op = Serve irq | Store u8 | Enable | Fetch

inductive uart_step :: "bool \<Rightarrow> uart \<Rightarrow> uart_op \<Rightarrow> u8 list \<Rightarrow> uart \<Rightarrow> bool" where
  serve: "(lossless \<longrightarrow> flag_rxne q = None \<or> usRxCount u < usRxBufSize u) \<Longrightarrow>
    UartIRQ q u = Inr u' \<Longrightarrow> uart_step lossless u (Serve q) [] u'"
| store: "usTxCount u < usTxBufSize u \<Longrightarrow> tx_put b u = Inr u' \<Longrightarrow>
    uart_step lossless u (Store b) [] u'"
| enable: "uart_step lossless u Enable [] (u\<lparr>it_txe := True\<rparr>)"
| fetch: "UartGetChar u = Inr (r, u') \<Longrightarrow>
    uart_step lossless u Fetch (case r of None \<Rightarrow> [] | Some b \<Rightarrow> [b]) u'"

inductive_cases serveE: "uart_step lossless u (Serve q) out u'"
inductive_cases storeE: "uart_step lossless u (Store b) out u'"
inductive_cases enableE: "uart_step lossless u Enable out u'"
inductive_cases fetchE: "uart_step lossless u Fetch out u'"

inductive uart_run :: "bool \<Rightarrow> uart \<Rightarrow> uart_op list \<Rightarrow> u8 list \<Rightarrow> uart \<Rightarrow> bool" where
  start: "uart_run lossless u [] [] u"
| more: "uart_run lossless u ops out u1 \<Longrightarrow> uart_step lossless u1 op out1 u2 \<Longrightarrow>
    uart_run lossless u (ops @ [op]) (out @ out1) u2"

definition stored :: "uart_op list \<Rightarrow> u8 list" where
  "stored ops = concat (map (\<lambda>op. case op of Store b \<Rightarrow> [b] | _ \<Rightarrow> []) ops)"

definition received :: "uart_op list \<Rightarrow> u8 list" where
  "received ops = concat (map (\<lambda>op. case op of
     Serve q \<Rightarrow> (case flag_rxne q of Some b \<Rightarrow> [b] | None \<Rightarrow> []) | _ \<Rightarrow> []) ops)"

lemma stored_snoc [simp]: "stored (ops @ [op]) = stored ops @ (case op of Store b \<Rightarrow> [b] | _ \<Rightarrow> [])"
  by (simp add: stored_def)

lemma received_snoc [simp]: "received (ops @ [op]) = received ops @
    (case op of Serve q \<Rightarrow> (case flag_rxne q of Some b \<Rightarrow> [b] | None \<Rightarrow> []) | _ \<Rightarrow> [])"
  by (simp add: received_def)

lemma UartGetChar_safe:
  assumes "rx_safe u"
  obtains r u' where "UartGetChar u = Inr (r, u')" "rx_safe u'" "tx_part u' = tx_part u"
proof (cases "usRxCount u = 0")
  case True
  then show ?thesis using assms that by (auto simp: UartGetChar_def)
next
  case False
  then have "usRxCount u - 1 \<le> usRxCount u" by (simp add: word_le_nat_alt unat_minus_one)
  moreover have "0 < usRxBufSize u" "unat (usRxRead u) < length (pRxBuf u)"
    using assms by (auto simp: rx_safe_def word_less_nat_alt)
  ultimately show ?thesis using False assms that next_index_less [of "usRxBufSize u" "usRxRead u"]
    by (auto simp: UartGetChar_def rx_safe_def tx_part_def)
qed

lemma uart_step_tx:
  assumes "uart_step l u op out u'" and "tx_ok u" and "rx_safe u"
  shows "tx_ok u' \<and> rx_safe u' \<and> tx_line u' @ tx_fifo u' =
    tx_line u @ tx_fifo u @ (case op of Store b \<Rightarrow> [b] | _ \<Rightarrow> [])"
proof (cases op)
  case (Serve q)
  then have "UartIRQ q u = Inr u'" using assms(1) by (auto elim: serveE)
  moreover obtain v where "UartIRQ q u = Inr v" "tx_ok v" "rx_safe v"
      "tx_line v @ tx_fifo v = tx_line u @ tx_fifo u"
    using assms(2,3) by (rule UartIRQ_tx)
  ultimately show ?thesis by (simp add: Serve)
next
  case (Store b)
  then have *: "tx_put b u = Inr u'" "usTxCount u < usTxBufSize u" using assms(1) by (auto elim: storeE)
  obtain v where "tx_put b u = Inr v" "tx_ok v" "tx_fifo v = tx_fifo u @ [b]" "rx_part v = rx_part u"
      "tx_line v = tx_line u"
    using assms(2) *(2) by (rule tx_put_spec)
  with * assms(3) show ?thesis by (auto simp: Store dest: rx_part_cong)
next
  case Enable
  then show ?thesis using assms by (auto simp: tx_ok_def tx_fifo_def rx_safe_def elim: enableE)
next
  case Fetch
  then obtain r where r: "UartGetChar u = Inr (r, u')" using assms(1) by (auto elim: fetchE)
  obtain r' v where "UartGetChar u = Inr (r', v)" "rx_safe v" "tx_part v = tx_part u"
    using assms(3) by (rule UartGetChar_safe)
  with r assms(2) show ?thesis by (auto simp: Fetch dest: tx_part_cong)
qed

lemma uart_step_rx:
  assumes "uart_step True u op out u'" and "rx_ok u"
  shows "rx_ok u' \<and> out @ rx_fifo u' = rx_fifo u @
    (case op of Serve q \<Rightarrow> (case flag_rxne q of Some b \<Rightarrow> [b] | None \<Rightarrow> []) | _ \<Rightarrow> [])"
proof (cases op)
  case (Serve q)
  then have *: "UartIRQ q u = Inr u'" "out = []" "flag_rxne q = None \<or> usRxCount u < usRxBufSize u"
    using assms(1) by (auto elim: serveE)
  show ?thesis
  proof (cases "flag_rxne q")
    case None
    then have "rx_part u' = rx_part u" by (intro UartIRQ_rx_part [OF *(1)]) simp
    then show ?thesis using * assms(2) by (auto simp: Serve None dest: rx_part_cong)
  next
    case (Some b)
    with * have "usRxCount u < usRxBufSize u" by simp
    from rx_put_spec [OF assms(2) this, of b] obtain u1 where
      u1: "rx_put b u = Inr u1" "rx_ok u1" "rx_fifo u1 = rx_fifo u @ [b]" .
    then have "rx_part u' = rx_part u1" by (intro UartIRQ_rx_part [OF *(1)]) (simp add: Some)
    then show ?thesis using * u1 by (auto simp: Serve Some dest: rx_part_cong)
  qed
next
  case (Store b)
  then have *: "tx_put b u = Inr u'" "out = []" using assms(1) by (auto elim: storeE)
  then have "rx_part u' = rx_part u" by (auto simp: tx_put_def ebind_eq_Inr_iff rx_part_def)
  then show ?thesis using * assms(2) by (auto simp: Store dest: rx_part_cong)
next
  case Enable
  then show ?thesis using assms by (auto simp: rx_ok_def rx_fifo_def elim: enableE)
next
  case Fetch
  then obtain r where r: "UartGetChar u = Inr (r, u')" "out = (case r of None \<Rightarrow> [] | Some b \<Rightarrow> [b])"
    using assms(1) by (auto elim: fetchE)
  show ?thesis
  proof (cases "usRxCount u = 0")
    case True
    then show ?thesis using r assms by (auto simp: Fetch UartGetChar_def)
  next
    case False
    obtain v where "UartGetChar u = Inr (Some (hd (rx_fifo u)), v)" "rx_ok v"
        "rx_fifo u = hd (rx_fifo u) # rx_fifo v"
      using assms(2) False by (rule UartGetChar_spec)
    with r show ?thesis by (auto simp: Fetch)
  qed
qed

lemma uart_run_tx:
  assumes "uart_run l u ops out u'" and "tx_ok u" and "rx_safe u"
  shows "tx_ok u' \<and> rx_safe u' \<and> tx_line u' @ tx_fifo u' = tx_line u @ tx_fifo u @ stored ops"
  using assms
proof (induction rule: uart_run.induct)
  case (start l u)
  then show ?case by (simp add: stored_def)
next
  case (more l u ops out u1 op out1 u2)
  then show ?case using uart_step_tx [OF more.hyps(2)] by auto
qed

lemma uart_run_rx:
  assumes "uart_run l u ops out u'" and "l" and "rx_ok u"
  shows "rx_ok u' \<and> out @ rx_fifo u' = rx_fifo u @ received ops"
  using assms
proof (induction rule: uart_run.induct)
  case (start l u)
  then show ?case by (simp add: received_def)
next
  case (more l u ops out u1 op out1 u2)
  then have "uart_step True u1 op out1 u2" by simp
  note step = uart_step_rx [OF this]
  have "(out @ out1) @ rx_fifo u2 = out @ (out1 @ rx_fifo u2)" by simp
  also have "\<dots> = (out @ rx_fifo u1) @ (case op of Serve q \<Rightarrow>
      (case flag_rxne q of Some b \<Rightarrow> [b] | None \<Rightarrow> []) | _ \<Rightarrow> [])"
    using step more by simp
  finally show ?case using step more by simp
qed

section \<open>Sending a buffer\<close>

lemma tx_wait_room_free:
  assumes "tx_ok u" and "rx_safe u" and "usTxCount u < usTxBufSize u"
  obtains v where "tx_wait_room (Suc fuel) ev t u = Inr (Suc t, v)" "tx_ok v" "rx_safe v"
    "tx_line v @ tx_fifo v = tx_line u @ tx_fifo u" "usTxCount v \<le> usTxCount u"
    "usTxBufSize v = usTxBufSize u"
proof (cases "ev t")
  case None
  then show ?thesis using assms that by simp
next
  case (Some q)
  obtain v where "UartIRQ q u = Inr v" "tx_ok v" "rx_safe v"
      "tx_line v @ tx_fifo v = tx_line u @ tx_fifo u" "usTxCount v \<le> usTxCount u"
      "usTxBufSize v = usTxBufSize u"
    using assms(1,2) by (rule UartIRQ_tx)
  moreover from this have "usTxCount v < usTxBufSize v" using assms(3) by simp
  ultimately show ?thesis using Some that by simp
qed

lemma send_bytes_free:
  assumes "tx_ok u" and "rx_safe u" and "unat (usTxCount u) + length bs \<le> unat (usTxBufSize u)"
  shows "\<exists>v. send_bytes (Suc fuel) ev t bs u = Inr (t + length bs, v) \<and> tx_ok v \<and> rx_safe v \<and>
    tx_line v @ tx_fifo v = tx_line u @ tx_fifo u @ bs"
  using assms
proof (induction bs arbitrary: u t)
  case (Cons b bs)
  then have "usTxCount u < usTxBufSize u" by (simp add: word_less_nat_alt)
  with Cons.prems(1,2) obtain v where v: "tx_wait_room (Suc fuel) ev t u = Inr (Suc t, v)" "tx_ok v"
      "rx_safe v" "tx_line v @ tx_fifo v = tx_line u @ tx_fifo u" "usTxCount v \<le> usTxCount u"
      "usTxBufSize v = usTxBufSize u"
    by (rule tx_wait_room_free)
  from v(5,6) \<open>usTxCount u < usTxBufSize u\<close> have less: "usTxCount v < usTxBufSize v" by simp
  with v(2) obtain w where w: "tx_put b v = Inr w" "tx_ok w" "tx_fifo w = tx_fifo v @ [b]"
      "rx_part w = rx_part v" "tx_line w = tx_line v" "usTxBufSize w = usTxBufSize v"
      "usTxCount w = usTxCount v + 1"
    by (rule tx_put_spec)
  have "unat (usTxCount w) + length bs \<le> unat (usTxBufSize w)"
    using Cons.prems(3) v(5,6) w(6,7) unat_Suc_less [OF less] by (simp add: word_le_nat_alt)
  moreover have "rx_safe w" using w(4) v(3) by (auto dest: rx_part_cong)
  ultimately obtain z where z: "send_bytes (Suc fuel) ev (Suc t) bs w = Inr (Suc t + length bs, z)"
      "tx_ok z" "rx_safe z" "tx_line z @ tx_fifo z = tx_line w @ tx_fifo w @ bs"
    using Cons.IH [of w "Suc t"] w(2) by auto
  have "tx_line w @ tx_fifo w @ bs = (tx_line v @ tx_fifo v) @ b # bs" using w by simp
  with z v w(1) show ?case by (auto simp del: tx_wait_room.simps)
qed simp

lemma UartSend_fits:
  assumes "tx_ok u" and "rx_safe u" and "unat usLen \<le> length ucaBuf"
    and "unat (usTxCount u) + unat usLen \<le> unat (usTxBufSize u)"
  shows "\<exists>v. UartSend (Suc fuel) ev ucaBuf usLen u = Inr v \<and> it_txe v \<and>
    tx_line v @ tx_fifo v = tx_line u @ tx_fifo u @ take (unat usLen) ucaBuf"
proof -
  have "get_bytes ucaBuf 0 (unat usLen) = Inr (take (unat usLen) ucaBuf)"
    using assms(3) by (simp add: get_bytes_ok)
  moreover obtain v where "send_bytes (Suc fuel) ev 0 (take (unat usLen) ucaBuf) u =
      Inr (length (take (unat usLen) ucaBuf), v)"
      "tx_line v @ tx_fifo v = tx_line u @ tx_fifo u @ take (unat usLen) ucaBuf"
    using send_bytes_free [of u "take (unat usLen) ucaBuf" fuel ev 0] assms by auto
  ultimately show ?thesis by (simp add: UartSend_def tx_fifo_def)
qed

text \<open>With both transmit interrupts disabled an interrupt leaves the transmitter alone.\<close>

lemma UartIRQ_tx_off:
  assumes "UartIRQ q u = Inr u'" and "\<not> it_txe u" and "\<not> it_tc u"
  shows "tx_part u' = tx_part u"
proof -
  obtain u1 where u1: "(case flag_rxne q of None \<Rightarrow> Inr u | Some ch \<Rightarrow> rx_put ch u) = Inr u1"
      "UartIRQ q u = (if flag_txe q \<and> it_txe u1 then
         if usTxCount u1 = 0 then Inr (u1\<lparr>it_txe := False, it_tc := True\<rparr>) else tx_take u1
       else if flag_tc q \<and> it_tc u1 then
         if usTxCount u1 = 0 then Inr (u1\<lparr>it_tc := False\<rparr>) else tx_take u1
       else Inr u1)"
    using assms(1) unfolding UartIRQ_def by (auto simp: ebind_eq_Inr_iff)
  have "tx_part u1 = tx_part u"
    using u1(1) by (cases "flag_rxne q") (auto simp: rx_put_def ebind_eq_Inr_iff tx_part_def)
  with u1(2) assms tx_part_cong [of u1 u] show ?thesis by simp
qed

lemma tx_wait_room_off:
  assumes "tx_wait_room fuel ev t u = Inr (t', v)" and "\<not> it_txe u" and "\<not> it_tc u"
  shows "tx_part v = tx_part u \<and> usTxCount u < usTxBufSize u"
  using assms
proof (induction fuel arbitrary: t u)
  case (Suc fuel)
  from Suc.prems(1) obtain u1 where u1:
      "(case ev t of None \<Rightarrow> Inr u | Some q \<Rightarrow> UartIRQ q u) = Inr u1"
      "(if usTxCount u1 < usTxBufSize u1 then Inr (Suc t, u1) else tx_wait_room fuel ev (Suc t) u1) = Inr (t', v)"
    by (auto simp: ebind_eq_Inr_iff)
  then have "tx_part u1 = tx_part u"
    using Suc.prems UartIRQ_tx_off by (auto split: option.splits)
  with u1(2) Suc.IH [of "Suc t" u1] Suc.prems(2,3) tx_part_cong [of u1 u]
  show ?case by (auto split: if_splits)
qed simp

lemma send_bytes_off:
  assumes "send_bytes fuel ev t bs u = Inr (t', v)" and "\<not> it_txe u" and "\<not> it_tc u"
  shows "unat (usTxCount v) = unat (usTxCount u) + length bs \<and> usTxBufSize v = usTxBufSize u \<and>
    (bs \<noteq> [] \<longrightarrow> usTxCount v \<le> usTxBufSize v)"
  using assms
proof (induction bs arbitrary: t u)
  case (Cons b bs)
  from Cons.prems(1) obtain t1 u1 u2 where u1: "tx_wait_room fuel ev t u = Inr (t1, u1)"
      "tx_put b u1 = Inr u2" "send_bytes fuel ev t1 bs u2 = Inr (t', v)"
    by (auto simp: ebind_eq_Inr_iff)
  have "tx_part u1 = tx_part u" "usTxCount u < usTxBufSize u"
    using tx_wait_room_off [OF u1(1)] Cons.prems(2,3) by auto
  note same = tx_part_cong [OF this(1)] this(2)
  have "usTxCount u2 = usTxCount u + 1" "usTxBufSize u2 = usTxBufSize u" "\<not> it_txe u2" "\<not> it_tc u2"
    using u1(2) same Cons.prems(2,3) by (auto simp: tx_put_def ebind_eq_Inr_iff)
  then show ?case using Cons.IH [OF u1(3)] unat_Suc_less [OF same(2)] inc_le [OF same(2)] u1(3)
    by (cases bs) auto
qed simp

section \<open>A port for the examples\<close>

definition demo_uart :: uart where
  "demo_uart = uart_init\<lparr>pTxBuf := [0, 0, 0, 0], pRxBuf := [0, 0, 0, 0], usTxBufSize := 4, usRxBufSize := 4\<rparr>"

lemma demo_uart_ok: "tx_ok demo_uart" "rx_ok demo_uart" "rx_safe demo_uart"
proof -
  show "tx_ok demo_uart" "rx_ok demo_uart"
    by (simp_all add: demo_uart_def uart_init_def tx_ok_def rx_ok_def ring_ok_def)
  then show "rx_safe demo_uart" by (simp add: rx_ok_safe)
qed

text \<open>A byte arrives, a byte is stored and sent, the received byte is read.\<close>

definition demo_ops :: "uart_op list" where
  "demo_ops = [Serve \<lparr>flag_rxne = Some 9, flag_txe = False, flag_tc = False\<rparr>, Store 7, Enable,
     Serve \<lparr>flag_rxne = None, flag_txe = True, flag_tc = False\<rparr>, Fetch]"

definition demo_end :: uart where
  "demo_end = demo_uart\<lparr>pTxBuf := [7, 0, 0, 0], pRxBuf := [9, 0, 0, 0], usTxWrite := 1, usTxRead := 1,
     usRxWrite := 1, usRxRead := 1, it_txe := True, tx_line := [7]\<rparr>"

lemma demo_run: "uart_run True demo_uart demo_ops [9] demo_end"
proof -
  define u1 where "u1 = demo_uart\<lparr>pRxBuf := [9, 0, 0, 0], usRxWrite := 1, usRxCount := 1\<rparr>"
  define u2 where "u2 = u1\<lparr>pTxBuf := [7, 0, 0, 0], usTxWrite := 1, usTxCount := 1\<rparr>"
  define u3 where "u3 = u2\<lparr>it_txe := True\<rparr>"
  define u4 where "u4 = u3\<lparr>tx_line := [7], usTxRead := 1, usTxCount := 0\<rparr>"
  note defs = u4_def u3_def u2_def u1_def demo_uart_def uart_init_def next_index_def
  have 1: "uart_step True demo_uart (demo_ops ! 0) [] u1"
    by (simp add: demo_ops_def, rule serve) (simp_all add: UartIRQ_def rx_put_def defs word_le_nat_alt)
  have 2: "uart_step True u1 (demo_ops ! 1) [] u2"
    by (simp add: demo_ops_def, rule store) (simp_all add: tx_put_def defs word_le_nat_alt)
  have 3: "uart_step True u2 (demo_ops ! 2) [] u3"
    by (simp add: demo_ops_def u3_def, rule enable)
  have 4: "uart_step True u3 (demo_ops ! 3) [] u4"
    by (simp add: demo_ops_def, rule serve) (simp_all add: UartIRQ_def tx_take_def defs word_le_nat_alt)
  have "UartGetChar u4 = Inr (Some 9, demo_end)"
    by (simp add: UartGetChar_def demo_end_def defs word_le_nat_alt)
  from fetch [OF this, of True] have 5: "uart_step True u4 (demo_ops ! 4) [9] demo_end"
    by (simp add: demo_ops_def)
  have "uart_run True demo_uart ([] @ [demo_ops ! 0] @ [demo_ops ! 1] @ [demo_ops ! 2] @ [demo_ops ! 3] @ [demo_ops ! 4])
      ([] @ [] @ [] @ [] @ [] @ [9]) demo_end"
    using more [OF more [OF more [OF more [OF more [OF start 1] 2] 3] 4] 5] by simp
  then show ?thesis by (simp add: demo_ops_def)
qed

lemma room_in_demo: "unat (usTxCount demo_uart) = 0" "unat (usTxBufSize demo_uart) = 4"
    "\<not> it_txe demo_uart" "\<not> it_tc demo_uart"
  by (simp_all add: demo_uart_def uart_init_def)

text \<open>
  A byte received into a full ring: the count stays and the write index moves past the read
  index, so the oldest unread byte is replaced and the newest one is read first.
\<close>

lemma rx_overrun_reads_newest_first:
  assumes "rx_ok u" and "usRxCount u = usRxBufSize u"
  shows "\<exists>v w. rx_put b u = Inr v \<and> usRxCount v = usRxCount u \<and> UartGetChar v = Inr (Some b, w)"
proof -
  have eq: "usRxWrite u = usRxRead u"
    using assms by (simp add: rx_ok_def ring_ok_def word_unat_eq_iff)
  have "unat (usRxRead u) < length (pRxBuf u)" "usRxCount u \<noteq> 0"
    using assms by (auto simp: rx_ok_def ring_ok_def)
  then show ?thesis using assms(2) by (simp add: rx_put_def UartGetChar_def eq)
qed

section \<open>Properties\<close>

text \<open>
  C25. Transmission is in order and loses nothing. Along every run of a port, whatever interrupts
  arrive and whatever the receive side loses, the bytes on the line followed by the bytes still
  in the transmit ring are the bytes that were there at the start followed by those the tasks
  stored, in that order. In every state a run reaches no operation leaves an array or fails otherwise: storing a byte when there is room,
  serving any interrupt, reading.
\<close>

theorem uart_run_transmits_in_order:
  assumes "uart_run lossless u ops out u'" and "tx_ok u" and "rx_safe u"
  shows "tx_line u' @ tx_fifo u' = tx_line u @ tx_fifo u @ stored ops \<and>
    (usTxCount u' < usTxBufSize u' \<longrightarrow> (\<forall>b. \<exists>v. tx_put b u' = Inr v \<and> tx_fifo v = tx_fifo u' @ [b])) \<and>
    (\<forall>q. \<exists>v. UartIRQ q u' = Inr v) \<and> (\<exists>r v. UartGetChar u' = Inr (r, v))"
proof -
  note * = uart_run_tx [OF assms]
  have "\<exists>v. tx_put b u' = Inr v \<and> tx_fifo v = tx_fifo u' @ [b]" if "usTxCount u' < usTxBufSize u'" for b
    using tx_put_spec [of u' b] * that by metis
  then show ?thesis using * UartIRQ_tx [of u'] UartGetChar_safe [of u'] by metis
qed

lemma uart_run_transmits_in_order_witness:
  "tx_line demo_end @ tx_fifo demo_end = [7 :: u8]"
proof -
  have "tx_line demo_end @ tx_fifo demo_end = tx_line demo_uart @ tx_fifo demo_uart @ stored demo_ops"
    using uart_run_transmits_in_order [OF demo_run demo_uart_ok(1,3)] by blast
  then show ?thesis
    by (simp add: stored_def demo_ops_def demo_uart_def uart_init_def tx_fifo_def ring_list_def)
qed

text \<open>
  C26. Reception is in order and loses nothing while there is room. Along every run in which each
  received byte finds the receive ring not full, the bytes the tasks have read followed by the
  bytes still in the ring are what the ring held at the start followed by the received bytes.
\<close>

theorem uart_run_receives_in_order:
  assumes "uart_run True u ops out u'" and "rx_ok u"
  shows "out @ rx_fifo u' = rx_fifo u @ received ops"
  using uart_run_rx [OF assms(1) TrueI assms(2)] by simp

lemma uart_run_receives_in_order_witness:
  "[9 :: u8] @ rx_fifo demo_end = [9]"
  using uart_run_receives_in_order [OF demo_run demo_uart_ok(2)]
  by (simp add: received_def demo_ops_def demo_uart_def uart_init_def rx_fifo_def ring_list_def)

text \<open>
  C29. A buffer that fits is sent. When the transmit ring has room for the \<open>usLen\<close> bytes,
  \<open>UartSend\<close> returns after one look at the ring per byte, whatever interrupts are served while
  it runs, with the bytes queued behind those already waiting and the transmit interrupt enabled.
\<close>

theorem UartSend_queues_a_buffer_that_fits:
  assumes "tx_ok u" and "rx_safe u" and "unat usLen \<le> length ucaBuf"
    and "unat (usTxCount u) + unat usLen \<le> unat (usTxBufSize u)"
  shows "\<exists>v. UartSend (Suc fuel) ev ucaBuf usLen u = Inr v \<and> it_txe v \<and>
    tx_line v @ tx_fifo v = tx_line u @ tx_fifo u @ take (unat usLen) ucaBuf"
  using UartSend_fits [OF assms] .

lemma UartSend_queues_a_buffer_that_fits_witness:
  "\<exists>v. UartSend (Suc 0) (\<lambda>_. None) [1, 2, 3] 3 demo_uart = Inr v \<and> it_txe v \<and>
    tx_line v @ tx_fifo v = [1, 2, 3]"
  using UartSend_queues_a_buffer_that_fits [of demo_uart 3 "[1, 2, 3]" 0 "\<lambda>_. None"]
  by (simp add: demo_uart_ok room_in_demo)
    (simp add: demo_uart_def uart_init_def tx_fifo_def ring_list_def)

text \<open>
  C30. A buffer that does not fit is never sent from an idle port. \<open>UartSend\<close> enables the transmit
  interrupt only after it has stored the last byte; with the interrupts disabled and more bytes
  than free places, the wait for room never ends, whatever interrupts are served and however
  long it waits.
\<close>

theorem UartSend_never_returns_when_full:
  assumes "\<not> it_txe u" and "\<not> it_tc u" and "0 < unat usLen"
    and "unat (usTxBufSize u) < unat (usTxCount u) + unat usLen"
  shows "UartSend fuel ev ucaBuf usLen u \<noteq> Inr v"
proof
  assume "UartSend fuel ev ucaBuf usLen u = Inr v"
  then obtain bs t w where *: "get_bytes ucaBuf 0 (unat usLen) = Inr bs"
      "send_bytes fuel ev 0 bs u = Inr (t, w)"
    by (auto simp: UartSend_def ebind_eq_Inr_iff)
  have "length bs = unat usLen" using *(1) by (rule length_get_bytes)
  with send_bytes_off [OF *(2) assms(1,2)] assms(3,4) show False
    by (auto simp: word_le_nat_alt)
qed

lemma UartSend_never_returns_when_full_witness:
  "UartSend 1000 (\<lambda>_. None) (replicate 513 0) 513 uart_init \<noteq> Inr uart_init"
  by (rule UartSend_never_returns_when_full) (simp_all add: uart_init_def UART_BUF_SIZE_def)

end
