(* ===== verification/SerialPort.thy ===== *)
theory SerialPort
  imports Crc8 AddrTable UartFifo
begin

text \<open>
  The configuration port: the receiver of command frames (\<open>ReceiveSerialDat\<close> of
  SYSTEM/usart/bsp_uart_fifo.c) and the command interpreter (\<open>SendSerialPort\<close> of
  HARDWARE/BSP/bsp_serialport.c). A frame is 0xF3, its length, a command, data and a CRC-8;
  a reply is the same with 0xF4 and the command plus one.
\<close>

section \<open>The receiver\<close>

record serial_rx =
  g_SerialDat :: "u8 list"    \<comment> \<open>32 bytes\<close>
  g_Serial_Count :: u8        \<comment> \<open>bit 7: a frame is complete\<close>

text \<open>\<open>g_SerialDat[g_Serial_Count-1]\<close>: the index is an \<open>int\<close> and -1 when the count is 0.\<close>

definition last_received :: "serial_rx \<Rightarrow> fault + u8" where
  "last_received s =
     (if g_Serial_Count s = 0 then Inl Out_Of_Bounds
      else arr_get (g_SerialDat s) (unat (g_Serial_Count s) - 1))"

definition ReceiveByte :: "u8 \<Rightarrow> serial_rx \<Rightarrow> fault + serial_rx" where
  "ReceiveByte read s =
     (if g_Serial_Count s AND 0x80 = 0 then
        ebind (arr_set (g_SerialDat s) (unat (g_Serial_Count s)) read) (\<lambda>buf.
        let n = g_Serial_Count s + 1;
            s1 = s\<lparr>g_SerialDat := buf, g_Serial_Count := (if n > 32 then 0 else n)\<rparr> in
        ebind (last_received s1) (\<lambda>b.
        if b = 0xF3 \<and> g_Serial_Count s1 < 3 then
          ebind (arr_set buf (unat (g_Serial_Count s1) - 1) 0xF3) (\<lambda>buf1.
            Inr (s1\<lparr>g_SerialDat := buf1, g_Serial_Count := 1\<rparr>))
        else
          ebind (arr_get buf 1) (\<lambda>len.
          if g_Serial_Count s1 \<ge> len then
            ebind (CRC8_Table buf (g_Serial_Count s1 - 1)) (\<lambda>CRC_Dat.
            if CRC_Dat = b then Inr (s1\<lparr>g_Serial_Count := g_Serial_Count s1 OR 0x80\<rparr>)
            else Inr (s1\<lparr>g_Serial_Count := 0\<rparr>))
          else Inr s1)))
      else Inr s)"

definition ReceiveSerialDat :: "uarts \<Rightarrow> serial_rx \<Rightarrow> fault + (uarts \<times> serial_rx)" where
  "ReceiveSerialDat p s =
     ebind (comGetChar COM3 p) (\<lambda>(r, p1).
       case r of None \<Rightarrow> Inr (p1, s)
       | Some read \<Rightarrow> ebind (ReceiveByte read s) (\<lambda>s1. Inr (p1, s1)))"

text \<open>A run of received bytes.\<close>

fun ReceiveBytes :: "u8 list \<Rightarrow> serial_rx \<Rightarrow> fault + serial_rx" where
  "ReceiveBytes [] s = Inr s"
| "ReceiveBytes (b # bs) s = ebind (ReceiveByte b s) (ReceiveBytes bs)"

section \<open>The command interpreter\<close>

definition VersionNo :: u8 where "VersionNo = 0x01"

definition cmd_set_address :: "'d i2c_dev \<Rightarrow> u8 list \<Rightarrow> u8 list \<Rightarrow> 'd acu \<Rightarrow> fault + (u8 list \<times> 'd acu)" where
  "cmd_set_address D SerialDat Runningbuf s =
     ebind (get_bytes SerialDat 3 6) (\<lambda>bs.
     ebind (put_bytes Runningbuf 3 bs) (\<lambda>rb.
     ebind (Write_IPAdd D (take 4 bs @ replicate 16 0) (ee s)) (\<lambda>e1.
       Inr (rb, s\<lparr>ee := Write_PortAdd D (push_bit 8 (ucast (bs ! 4)) OR ucast (bs ! 5)) e1\<rparr>))))"

definition cmd_get_address :: "'d i2c_dev \<Rightarrow> u8 list \<Rightarrow> 'd acu \<Rightarrow> fault + (u8 list \<times> 'd acu)" where
  "cmd_get_address D Runningbuf s =
     (let (ip, e1) = Read_IPAdd D (ee s); (port, e2) = Read_PortAdd D e1 in
      ebind (put_bytes Runningbuf 3 (ip @ [of_nat (unat port div 256), of_nat (unat port mod 256)])) (\<lambda>rb.
        Inr (rb, s\<lparr>ee := e2\<rparr>)))"

definition cmd_set_code :: "'d i2c_dev \<Rightarrow> u8 list \<Rightarrow> u8 list \<Rightarrow> 'd acu \<Rightarrow> fault + (u8 list \<times> 'd acu)" where
  "cmd_set_code D SerialDat Runningbuf s =
     ebind (get_bytes SerialDat 3 16) (\<lambda>bs.
     ebind (put_bytes Runningbuf 3 bs) (\<lambda>rb.
     ebind (Write_ACUAdd D (bs @ replicate 4 0) (ee s)) (\<lambda>e1. Inr (rb, s\<lparr>ee := e1\<rparr>))))"

definition cmd_get_code :: "'d i2c_dev \<Rightarrow> u8 list \<Rightarrow> 'd acu \<Rightarrow> fault + (u8 list \<times> 'd acu)" where
  "cmd_get_code D Runningbuf s =
     (let (code, e1) = Read_ACUAdd D (ee s) in
      ebind (put_bytes Runningbuf 3 code) (\<lambda>rb. Inr (rb, s\<lparr>ee := e1\<rparr>)))"

definition cmd_set_sn :: "'d i2c_dev \<Rightarrow> u8 list \<Rightarrow> u8 list \<Rightarrow> 'd acu \<Rightarrow> fault + (u8 list \<times> 'd acu)" where
  "cmd_set_sn D SerialDat Runningbuf s =
     ebind (get_bytes SerialDat 3 4) (\<lambda>bs.
     ebind (put_bytes Runningbuf 3 bs) (\<lambda>rb.
     ebind (Write_ACUSN D (bs @ replicate 16 0) (ee s)) (\<lambda>e1. Inr (rb, s\<lparr>ee := e1\<rparr>))))"

text \<open>The local address is stored in the globals, written, and read back into them.\<close>

definition cmd_set_static :: "'d i2c_dev \<Rightarrow> u8 list \<Rightarrow> u8 list \<Rightarrow> 'd acu \<Rightarrow> fault + (u8 list \<times> 'd acu)" where
  "cmd_set_static D SerialDat Runningbuf s =
     ebind (get_bytes SerialDat 3 5) (\<lambda>ip.
     ebind (get_bytes SerialDat 8 4) (\<lambda>nm.
     ebind (get_bytes SerialDat 12 4) (\<lambda>gw.
     ebind (put_bytes (g_Setip s) 0 ip) (\<lambda>ip1.
     ebind (put_bytes (g_Setnetmask s) 0 nm) (\<lambda>nm1.
     ebind (put_bytes (g_Setgateway s) 0 gw) (\<lambda>gw1.
     ebind (Write_localIP D ip1 (ee s)) (\<lambda>e1.
     ebind (Write_netmask D nm1 e1) (\<lambda>e2.
     ebind (Write_gateway D gw1 e2) (\<lambda>e3.
     let (ip2, e4) = Read_localIP D e3; (nm2, e5) = Read_netmask D e4; (gw2, e6) = Read_gateway D e5 in
     ebind (put_bytes Runningbuf 3 (ip2 @ nm2 @ gw2)) (\<lambda>rb.
       Inr (rb, s\<lparr>ee := e6, g_Setip := ip2, g_Setnetmask := nm2, g_Setgateway := gw2\<rparr>)))))))))))"

definition cmd_get_static :: "'d i2c_dev \<Rightarrow> u8 list \<Rightarrow> 'd acu \<Rightarrow> fault + (u8 list \<times> 'd acu)" where
  "cmd_get_static D Runningbuf s =
     (let (ip, e1) = Read_localIP D (ee s); (nm, e2) = Read_netmask D e1; (gw, e3) = Read_gateway D e2 in
      ebind (put_bytes Runningbuf 3 (ip @ nm @ gw)) (\<lambda>rb. Inr (rb, s\<lparr>ee := e3\<rparr>)))"

definition cmd_set_key :: "'d i2c_dev \<Rightarrow> u8 list \<Rightarrow> 'd acu \<Rightarrow> fault + 'd acu" where
  "cmd_set_key D SerialDat s =
     ebind (get_bytes SerialDat 3 6) (\<lambda>bs.
     ebind (arr_get SerialDat 10) (\<lambda>block.
     ebind (put_bytes (FM1702_Key s) 0 (bs @ [block])) (\<lambda>key.
     ebind (CRC8_Table key 0x07) (\<lambda>crc.
     ebind (Write_RFID_Key D key (ee s)) (\<lambda>e1.
       Inr (s\<lparr>FM1702_Key := key, FM1702KeyCRC := crc, ee := e1\<rparr>))))))"

definition cmd_get_key :: "'d i2c_dev \<Rightarrow> u8 list \<Rightarrow> u8 list \<Rightarrow> 'd acu \<Rightarrow> fault + (u8 list \<times> 'd acu)" where
  "cmd_get_key D SerialDat Runningbuf s =
     (let (key, e1) = Read_RFID_Key D (ee s) in
      ebind (arr_get SerialDat 9) (\<lambda>mode.
      ebind (put_bytes Runningbuf 3 (take 6 key @ [mode, key ! 6])) (\<lambda>rb. Inr (rb, s\<lparr>ee := e1\<rparr>))))"

text \<open>The \<open>switch\<close>: command 0x10 has no \<open>break\<close> and falls through to 0x12.\<close>

definition run_command :: "'d i2c_dev \<Rightarrow> u8 list \<Rightarrow> u8 list \<Rightarrow> 'd acu \<Rightarrow> fault + (u8 list \<times> 'd acu)" where
  "run_command D SerialDat Runningbuf s =
     ebind (arr_get SerialDat 2) (\<lambda>c.
      if c = 0x01 then
        ebind (get_bytes (g_ACUSN s) 0 4) (\<lambda>sn.
        ebind (put_bytes Runningbuf 3 (VersionNo # sn)) (\<lambda>rb. Inr (rb, s)))
      else if c = 0x03 then cmd_set_address D SerialDat Runningbuf s
      else if c = 0xC3 then cmd_get_address D Runningbuf s
      else if c = 0x05 then cmd_set_code D SerialDat Runningbuf s
      else if c = 0xC5 then cmd_get_code D Runningbuf s
      else if c = 0x07 then cmd_set_sn D SerialDat Runningbuf s
      else if c = 0x09 then cmd_set_static D SerialDat Runningbuf s
      else if c = 0xC9 then cmd_get_static D Runningbuf s
      else if c = 0x10 then
        ebind (cmd_set_key D SerialDat s) (cmd_get_key D SerialDat Runningbuf)
      else if c = 0x12 then cmd_get_key D SerialDat Runningbuf s
      else Inr (Runningbuf, s))"

text \<open>The reply is 20 bytes long; its length byte is the one of the command.\<close>

definition build_reply :: "'d i2c_dev \<Rightarrow> u8 list \<Rightarrow> 'd acu \<Rightarrow> fault + (u8 list \<times> 'd acu)" where
  "build_reply D SerialDat s =
     ebind (arr_get SerialDat 1) (\<lambda>len.
     ebind (arr_get SerialDat 2) (\<lambda>c.
     ebind (run_command D SerialDat ([0xF4, len, c + 1] @ replicate 17 0) s) (\<lambda>(rb, s1).
     ebind (CRC8_Table rb (len - 1)) (\<lambda>crc.
     ebind (if len = 0 then Inl Out_Of_Bounds else arr_set rb (unat len - 1) crc) (\<lambda>rb1.
       Inr (rb1, s1))))))"

definition SendSerialPort ::
  "nat \<Rightarrow> (nat \<Rightarrow> irq option) \<Rightarrow> 'd i2c_dev \<Rightarrow> u8 list \<Rightarrow> 'd acu \<times> uarts \<Rightarrow> fault + ('d acu \<times> uarts)" where
  "SendSerialPort fuel ev D SerialDat = (\<lambda>(s, p).
     ebind (build_reply D SerialDat s) (\<lambda>(rb, s1).
     ebind (arr_get rb 1) (\<lambda>len.
     ebind (comSendBuf fuel ev COM3 rb (ucast len) p) (\<lambda>p1. Inr (s1, p1)))))"

section \<open>Receiving a frame\<close>

lemma of_nat_u8_less_iff: "m < 256 \<Longrightarrow> n < 256 \<Longrightarrow> (of_nat m :: u8) < of_nat n \<longleftrightarrow> m < n"
  by (simp add: word_less_nat_alt unat_of_nat_u8)

lemma of_nat_u8_le_iff: "m < 256 \<Longrightarrow> n < 256 \<Longrightarrow> (of_nat m :: u8) \<le> of_nat n \<longleftrightarrow> m \<le> n"
  by (simp add: word_le_nat_alt unat_of_nat_u8)

lemma count_bit7: "n < 128 \<Longrightarrow> (of_nat n :: u8) AND 0x80 = 0"
proof (rule bit_word_eqI)
  fix i assume "n < 128" "i < LENGTH(8)"
  then have "bit (of_nat n :: u8) i \<Longrightarrow> i \<noteq> 7"
  proof -
    assume b: "bit (of_nat n :: u8) i"
    have "take_bit 7 n = n" using \<open>n < 128\<close> by (simp add: take_bit_nat_eq_self)
    moreover have "bit n i" using b by (simp add: bit_of_nat_iff)
    ultimately show "i \<noteq> 7" by (metis bit_take_bit_iff less_irrefl)
  qed
  moreover have "bit (0x80 :: u8) i \<longleftrightarrow> i = 7"
    using bit_push_bit_iff [of 7 "1 :: u8" i] by (auto simp: bit_1_iff)
  ultimately show "bit ((of_nat n :: u8) AND 0x80) i = bit (0 :: u8) i"
    by (auto simp: bit_and_iff)
qed

text \<open>The receiver after the first \<open>k\<close> bytes of a frame.\<close>

definition prefix_received :: "u8 list \<Rightarrow> nat \<Rightarrow> serial_rx \<Rightarrow> bool" where
  "prefix_received f k s \<longleftrightarrow> length (g_SerialDat s) = 32 \<and> g_Serial_Count s = of_nat k \<and>
     take k (g_SerialDat s) = take k f"

definition good_frame :: "u8 list \<Rightarrow> bool" where
  "good_frame f \<longleftrightarrow> 3 \<le> length f \<and> length f \<le> 32 \<and> f ! 0 = 0xF3 \<and> f ! 1 = of_nat (length f)"

lemma take_update_Suc:
  "take k xs = take k f \<Longrightarrow> k < length xs \<Longrightarrow> k < length f \<Longrightarrow>
   take (Suc k) (xs[k := f ! k]) = take (Suc k) f"
  by (simp add: take_Suc_conv_app_nth)

lemma first_byte:
  assumes "good_frame f" and "g_Serial_Count s = 0" and "length (g_SerialDat s) = 32"
  obtains s' where "ReceiveByte (f ! 0) s = Inr s'" "prefix_received f 1 s'"
proof -
  let ?s = "s\<lparr>g_SerialDat := (g_SerialDat s)[0 := 0xF3], g_Serial_Count := 1\<rparr>"
  have lt: "(1 :: u8) < 3" "\<not> 32 < (1 :: u8)" by (simp_all add: word_less_nat_alt)
  have "ReceiveByte (f ! 0) s = Inr ?s"
    using assms lt by (simp add: ReceiveByte_def good_frame_def last_received_def Let_def)
  moreover have "prefix_received f 1 ?s"
    using assms by (cases f; cases "g_SerialDat s") (auto simp: prefix_received_def good_frame_def)
  ultimately show ?thesis using that by blast
qed

lemma next_byte:
  assumes f: "good_frame f" and s: "prefix_received f k s" and k: "1 \<le> k" "k < length f"
  obtains s' where "ReceiveByte (f ! k) s = Inr s'" "length (g_SerialDat s') = 32"
    "take (Suc k) (g_SerialDat s') = take (Suc k) f"
    "g_Serial_Count s' = (if Suc k < length f then of_nat (Suc k)
       else if crc8_poly (take k f) = f ! k then of_nat (length f) OR 0x80 else 0)"
proof -
  let ?buf = "(g_SerialDat s)[k := f ! k]" and ?n = "of_nat (Suc k) :: u8"
  have len: "length (g_SerialDat s) = 32" "length f \<le> 32" and cnt: "g_Serial_Count s = of_nat k"
    using f s by (auto simp: good_frame_def prefix_received_def)
  have k32: "k < 32" using k len by simp
  have pre: "take (Suc k) ?buf = take (Suc k) f"
    using s k len by (intro take_update_Suc) (auto simp: prefix_received_def)
  have un: "unat (of_nat k :: u8) = k" "unat ?n = Suc k"
    using k32 unat_of_nat_u8 [of k] unat_of_nat_u8 [of "Suc k"] by simp_all
  have bit: "(of_nat k :: u8) AND 0x80 = 0" using k32 by (intro count_bit7) simp
  have no_wrap: "\<not> ?n > 32" "?n \<noteq> 0"
    using un k32 by (auto simp: word_less_nat_alt simp del: of_nat_Suc)
  have b1: "?buf ! 1 = of_nat (length f)"
    using arg_cong [OF pre, of "\<lambda>xs. xs ! 1"] k f by (simp add: good_frame_def)
  have bk: "?buf ! k = f ! k" using k32 len by simp
  have not_start: "\<not> (f ! k = 0xF3 \<and> ?n < 3)"
  proof
    assume a: "f ! k = 0xF3 \<and> ?n < 3"
    then have "k = 1" using un k by (simp add: word_less_nat_alt del: of_nat_Suc)
    with a f have "(of_nat (length f) :: u8) = of_nat 0xF3" by (simp add: good_frame_def)
    then show False using len of_nat_u8_inject [of "length f" "0xF3"] by simp
  qed
  have ge: "(of_nat (length f) \<le> ?n) = (length f \<le> Suc k)"
    using len k32 by (intro of_nat_u8_le_iff) auto
  have crc: "CRC8_Table ?buf (?n - 1) = Inr (crc8_poly (take k f))"
  proof -
    have "take k ?buf = take k f" using arg_cong [OF pre, of "take k"] by (simp add: min_def)
    then show ?thesis using un k32 len by (simp add: CRC8_Table_eq)
  qed
  have step: "ReceiveByte (f ! k) s =
      (if length f \<le> Suc k then
         Inr (s\<lparr>g_SerialDat := ?buf, g_Serial_Count :=
           (if crc8_poly (take k f) = f ! k then ?n OR 0x80 else 0)\<rparr>)
       else Inr (s\<lparr>g_SerialDat := ?buf, g_Serial_Count := ?n\<rparr>))"
    using cnt bit un len k32 no_wrap b1 bk not_start ge crc
    by (auto simp: ReceiveByte_def last_received_def Let_def add.commute)
  show ?thesis
  proof (cases "length f \<le> Suc k")
    case True
    with k have "Suc k = length f" by simp
    with True step pre len that show ?thesis by auto
  next
    case False
    with step pre len that show ?thesis by auto
  qed
qed

lemma ReceiveBytes_append: "ReceiveBytes (xs @ ys) s = ebind (ReceiveBytes xs s) (ReceiveBytes ys)"
proof (induction xs arbitrary: s)
  case (Cons x xs)
  then have "ReceiveBytes (xs @ ys) = (\<lambda>s. ebind (ReceiveBytes xs s) (ReceiveBytes ys))" by (rule ext)
  then show ?case by (simp add: ebind_assoc)
qed simp

lemma ReceiveBytes_prefix:
  assumes "good_frame f" and "g_Serial_Count s = 0" and "length (g_SerialDat s) = 32"
    and "1 \<le> k" and "k < length f"
  shows "\<exists>s'. ReceiveBytes (take k f) s = Inr s' \<and> prefix_received f k s'"
  using assms(4,5)
proof (induction k rule: dec_induct)
  case base
  have "f \<noteq> []" using assms(1) by (auto simp: good_frame_def)
  moreover obtain s' where "ReceiveByte (f ! 0) s = Inr s'" "prefix_received f 1 s'"
    using assms(1-3) by (rule first_byte)
  ultimately show ?case by (cases f) simp_all
next
  case (step k)
  then obtain s1 where s1: "ReceiveBytes (take k f) s = Inr s1" "prefix_received f k s1" by auto
  obtain s2 where s2: "ReceiveByte (f ! k) s1 = Inr s2" "length (g_SerialDat s2) = 32"
      "take (Suc k) (g_SerialDat s2) = take (Suc k) f" "g_Serial_Count s2 = of_nat (Suc k)"
    using next_byte [OF assms(1) s1(2)] step by auto
  then show ?case using s1 step(4)
    by (auto simp: take_Suc_conv_app_nth ReceiveBytes_append prefix_received_def)
qed

lemma ReceiveBytes_frame:
  assumes "good_frame f" and "g_Serial_Count s = 0" and "length (g_SerialDat s) = 32"
  shows "\<exists>s'. ReceiveBytes f s = Inr s' \<and> take (length f) (g_SerialDat s') = f \<and>
    length (g_SerialDat s') = 32 \<and>
    g_Serial_Count s' = (if crc8_poly (butlast f) = last f then of_nat (length f) OR 0x80 else 0)"
proof -
  define k where "k = length f - 1"
  have k: "1 \<le> k" "k < length f" "Suc k = length f" "f \<noteq> []"
    using assms(1) by (auto simp: k_def good_frame_def)
  obtain s1 where s1: "ReceiveBytes (take k f) s = Inr s1" "prefix_received f k s1"
    using ReceiveBytes_prefix [OF assms k(1,2)] by blast
  have f: "f = take k f @ [f ! k]" "butlast f = take k f" "last f = f ! k"
    using k by (simp_all add: take_Suc_conv_app_nth [symmetric] butlast_conv_take k_def last_conv_nth)
  obtain s2 where "ReceiveByte (f ! k) s1 = Inr s2" "length (g_SerialDat s2) = 32"
      "take (Suc k) (g_SerialDat s2) = take (Suc k) f"
      "g_Serial_Count s2 = (if crc8_poly (take k f) = f ! k then of_nat (length f) OR 0x80 else 0)"
    using next_byte [OF assms(1) s1(2) k(1,2)] k(3) by auto
  moreover have "ReceiveBytes f s = ebind (ReceiveBytes (take k f) s) (ReceiveBytes [f ! k])"
    by (subst f(1)) (rule ReceiveBytes_append)
  ultimately show ?thesis using s1(1) f(2,3) k(3) by auto
qed

text \<open>The receiver polls the port byte by byte.\<close>

fun poll_serial :: "nat \<Rightarrow> uarts \<Rightarrow> serial_rx \<Rightarrow> fault + (uarts \<times> serial_rx)" where
  "poll_serial 0 p s = Inr (p, s)"
| "poll_serial (Suc n) p s = ebind (ReceiveSerialDat p s) (\<lambda>(p1, s1). poll_serial n p1 s1)"

lemma poll_serial_reads:
  assumes "rx_ok (g_tUart3 p)" and "rx_fifo (g_tUart3 p) = bs @ rest" and "ReceiveBytes bs s = Inr s'"
  shows "\<exists>p'. poll_serial (length bs) p s = Inr (p', s') \<and> rx_ok (g_tUart3 p') \<and> rx_fifo (g_tUart3 p') = rest"
  using assms
proof (induction bs arbitrary: p s)
  case (Cons b bs)
  have "usRxCount (g_tUart3 p) \<noteq> 0"
    by (rule count_nonzero(2) [of _ b "bs @ rest"]) (simp add: Cons.prems(2))
  with Cons.prems(1) obtain u where u: "UartGetChar (g_tUart3 p) = Inr (Some (hd (rx_fifo (g_tUart3 p))), u)"
      "rx_ok u" "rx_fifo u = tl (rx_fifo (g_tUart3 p))"
    by (rule UartGetChar_spec)
  obtain s1 where s1: "ReceiveByte b s = Inr s1" "ReceiveBytes bs s1 = Inr s'"
    using Cons.prems(3) by (auto simp: ebind_eq_Inr_iff)
  have "ReceiveSerialDat p s = Inr (p\<lparr>g_tUart3 := u\<rparr>, s1)"
    using u s1 Cons.prems(2) by (simp add: ReceiveSerialDat_def comGetChar_def ComToUart_def set_uart_def)
  with Cons.IH [of "p\<lparr>g_tUart3 := u\<rparr>" s1] u s1 Cons.prems(2) show ?case by simp
qed simp

section \<open>The commands\<close>

lemma get_field: "i + n \<le> length f \<Longrightarrow> get_bytes f i n = Inr (take n (drop i f))"
  by (rule get_bytes_ok)

text \<open>
  A query command answers with a run of the configuration block; a setting command stores its
  data there and repeats them in the reply.
\<close>

definition answers ::
  "'d i2c_dev \<Rightarrow> ('d \<Rightarrow> at24) \<Rightarrow> u8 list \<Rightarrow> u8 list \<Rightarrow> u8 list \<Rightarrow> fault + (u8 list \<times> 'd acu) \<Rightarrow> bool" where
  "answers D view rb bs m res \<longleftrightarrow>
     (\<exists>s'. res = Inr (overlay 3 bs rb, s') \<and> ee_ok D view (ee s') \<and> cells view (ee s') = m)"

lemma read_field:
  assumes "ee_ok D view e" and "unat a + unat n \<le> 1024"
  shows "\<exists>e'. AT24CXX_Read D a n e = (take (unat n) (drop (unat a) (cells view e)), e') \<and>
    ee_ok D view e' \<and> cells view e' = cells view e"
  using ee_read [OF assms] by blast

lemma set_address_answers:
  assumes "ee_ok D view (ee s)" and "length f = 32" and "length rb = 20"
  shows "answers D view rb (take 6 (drop 3 f)) (overlay 200 (take 6 (drop 3 f)) (cells view (ee s)))
    (cmd_set_address D f rb s)"
proof -
  let ?bs = "take 6 (drop 3 f)"
  have len: "length ?bs = 6" using assms(2) by simp
  let ?e1 = "field_write D 200 (take 4 ?bs) (ee s)"
  let ?e2 = "field_write D 204 (drop 4 ?bs) ?e1"
  have "drop 4 ?bs = [?bs ! 4, ?bs ! 5]"
    using len by (intro nth_equalityI) (auto simp: less_2_cases_iff)
  then have port: "Write_PortAdd D (push_bit 8 (ucast (?bs ! 4)) OR ucast (?bs ! 5)) ?e1 = ?e2"
    unfolding Write_PortAdd_field u16_split_bytes by simp
  have ip: "Write_IPAdd D (take 4 ?bs @ replicate 16 0) (ee s) = Inr ?e1"
    using len by (simp add: Write_IPAdd_def get_bytes_ok field_write_def)
  have e1: "ee_ok D view ?e1" "cells view ?e1 = overlay 200 (take 4 ?bs) (cells view (ee s))"
    using field_write_ok [OF assms(1), of 200 "take 4 ?bs"] len by simp_all
  have e2: "ee_ok D view ?e2" "cells view ?e2 = overlay 204 (drop 4 ?bs) (cells view ?e1)"
    using field_write_ok [OF e1(1), of 204 "drop 4 ?bs"] len by simp_all
  have m: "length (cells view (ee s)) = 1024" using assms(1) by (rule ee_cells_length)
  have "cells view ?e2 = overlay 200 (take 4 ?bs @ drop 4 ?bs) (cells view (ee s))"
    unfolding e2(2) e1(2) using len m by (subst overlay_append) simp_all
  then have "cells view ?e2 = overlay 200 ?bs (cells view (ee s))" by (simp only: append_take_drop_id)
  moreover have "cmd_set_address D f rb s = Inr (overlay 3 ?bs rb, s\<lparr>ee := ?e2\<rparr>)"
    using assms(2,3) len ip port by (simp add: cmd_set_address_def get_field put_overlay)
  ultimately show ?thesis using e2(1) by (auto simp: answers_def)
qed

lemma get_address_answers:
  assumes "ee_ok D view (ee s)" and "length rb = 20"
  shows "answers D view rb (take 6 (drop 200 (cells view (ee s)))) (cells view (ee s)) (cmd_get_address D rb s)"
proof -
  let ?m = "cells view (ee s)"
  obtain e1 where e1: "AT24CXX_Read D 200 4 (ee s) = (take 4 (drop 200 ?m), e1)" "ee_ok D view e1"
      "cells view e1 = ?m"
    using read_field [OF assms(1), of 200 4] by auto
  obtain e2 where e2: "AT24CXX_Read D 204 2 e1 = (take 2 (drop 204 ?m), e2)" "ee_ok D view e2"
      "cells view e2 = ?m"
    using read_field [OF e1(2), of 204 2] e1(3) by auto
  have m: "length ?m = 1024" using assms(1) by (rule ee_cells_length)
  let ?t = "take 2 (drop 204 ?m)"
  have t: "?t = [?t ! 0, ?t ! 1]" using m by (intro nth_equalityI) (auto simp: less_2_cases_iff)
  have six: "take 6 (drop 200 ?m) = take 4 (drop 200 ?m) @ ?t"
    using take_add [of 4 2 "drop 200 ?m"] by simp
  let ?p = "push_bit 8 (ucast (?t ! 0)) OR ucast (?t ! 1) :: u16"
  have port: "Read_PortAdd D e1 = (?p, e2)" using e2(1) by (simp add: Read_PortAdd_def)
  have "cmd_get_address D rb s = Inr (overlay 3 (take 6 (drop 200 ?m)) rb, s\<lparr>ee := e2\<rparr>)"
    using assms(2) e1(1) m port t
    by (simp add: cmd_get_address_def Read_IPAdd_def u16_split_bytes six put_overlay)
  with e2 show ?thesis by (auto simp: answers_def)
qed

lemma set_code_answers:
  assumes "ee_ok D view (ee s)" and "length f = 32" and "length rb = 20"
  shows "answers D view rb (take 16 (drop 3 f)) (overlay 210 (take 16 (drop 3 f)) (cells view (ee s)))
    (cmd_set_code D f rb s)"
proof -
  let ?bs = "take 16 (drop 3 f)"
  have len: "length ?bs = 16" using assms(2) by simp
  have w: "Write_ACUAdd D (?bs @ replicate 4 0) (ee s) = Inr (field_write D 210 ?bs (ee s))"
    using len by (simp add: Write_ACUAdd_def get_bytes_ok field_write_def)
  have "cmd_set_code D f rb s = Inr (overlay 3 ?bs rb, s\<lparr>ee := field_write D 210 ?bs (ee s)\<rparr>)"
    using assms(2,3) len w by (simp add: cmd_set_code_def get_field put_overlay)
  then show ?thesis using field_write_ok [OF assms(1), of 210 ?bs] len by (auto simp: answers_def)
qed

lemma get_code_answers:
  assumes "ee_ok D view (ee s)" and "length rb = 20"
  shows "answers D view rb (take 16 (drop 210 (cells view (ee s)))) (cells view (ee s)) (cmd_get_code D rb s)"
proof -
  let ?m = "cells view (ee s)"
  obtain e1 where e1: "AT24CXX_Read D 210 16 (ee s) = (take 16 (drop 210 ?m), e1)" "ee_ok D view e1"
      "cells view e1 = ?m"
    using read_field [OF assms(1), of 210 16] by auto
  have "length ?m = 1024" using assms(1) by (rule ee_cells_length)
  then have "cmd_get_code D rb s = Inr (overlay 3 (take 16 (drop 210 ?m)) rb, s\<lparr>ee := e1\<rparr>)"
    using assms(2) e1(1) by (simp add: cmd_get_code_def Read_ACUAdd_def put_overlay)
  with e1 show ?thesis by (auto simp: answers_def)
qed

lemma set_static_answers:
  assumes "ee_ok D view (ee s)" and "length f = 32" and "length rb = 20"
    and "length (g_Setip s) = 5" and "length (g_Setnetmask s) = 4" and "length (g_Setgateway s) = 4"
  shows "answers D view rb (take 13 (drop 3 f)) (overlay 239 (take 13 (drop 3 f)) (cells view (ee s)))
    (cmd_set_static D f rb s)"
proof -
  let ?m = "cells view (ee s)"
  let ?ip = "take 5 (drop 3 f)" and ?nm = "take 4 (drop 8 f)" and ?gw = "take 4 (drop 12 f)"
  have m: "length ?m = 1024" using assms(1) by (rule ee_cells_length)
  have len: "length ?ip = 5" "length ?nm = 4" "length ?gw = 4" using assms(2) by simp_all
  have bs: "take 13 (drop 3 f) = ?ip @ ?nm @ ?gw"
    using take_add [of 5 8 "drop 3 f"] take_add [of 4 4 "drop 8 f"] by simp
  let ?e1 = "field_write D 239 ?ip (ee s)"
  let ?e2 = "field_write D 244 ?nm ?e1"
  let ?e3 = "field_write D 248 ?gw ?e2"
  have w: "Write_localIP D ?ip (ee s) = Inr ?e1" "Write_netmask D ?nm ?e1 = Inr ?e2"
      "Write_gateway D ?gw ?e2 = Inr ?e3"
    using len by (simp_all add: config_defs get_bytes_all field_write_def)
  have e1: "ee_ok D view ?e1" "cells view ?e1 = overlay 239 ?ip ?m"
    using field_write_ok [OF assms(1), of 239 ?ip] len by simp_all
  have e2: "ee_ok D view ?e2" "cells view ?e2 = overlay 239 (?ip @ ?nm) ?m"
    using field_write_ok [OF e1(1), of 244 ?nm] len m
    by (simp_all add: e1 overlay_append del: take_drop)
  have e3: "ee_ok D view ?e3" "cells view ?e3 = overlay 239 (?ip @ ?nm @ ?gw) ?m"
    using field_write_ok [OF e2(1), of 248 ?gw] len m
    by (simp_all add: e2 overlay_append)
  define m3 where "m3 = cells view ?e3"
  have fields: "take 5 (drop 239 m3) = ?ip" "take 4 (drop 244 m3) = ?nm" "take 4 (drop 248 m3) = ?gw"
    using m len by (simp_all add: m3_def e3(2) overlay_def)
  obtain e4 where e4: "AT24CXX_Read D 239 5 ?e3 = (?ip, e4)" "ee_ok D view e4" "cells view e4 = m3"
    using read_field [OF e3(1), of 239 5] fields(1) by (auto simp: m3_def)
  obtain e5 where e5: "AT24CXX_Read D 244 4 e4 = (?nm, e5)" "ee_ok D view e5" "cells view e5 = m3"
    using read_field [OF e4(2), of 244 4] fields(2) e4(3) by auto
  obtain e6 where e6: "AT24CXX_Read D 248 4 e5 = (?gw, e6)" "ee_ok D view e6" "cells view e6 = m3"
    using read_field [OF e5(2), of 248 4] fields(3) e5(3) by auto
  have "cmd_set_static D f rb s = Inr (overlay 3 (?ip @ ?nm @ ?gw) rb,
      s\<lparr>ee := e6, g_Setip := ?ip, g_Setnetmask := ?nm, g_Setgateway := ?gw\<rparr>)"
    using assms(2-6) len w e4(1) e5(1) e6(1)
    by (simp add: cmd_set_static_def get_field put_overlay overlay_all Read_localIP_def Read_netmask_def
        Read_gateway_def)
  with e6 e3(2) show ?thesis by (auto simp: answers_def bs m3_def)
qed

lemma get_static_answers:
  assumes "ee_ok D view (ee s)" and "length rb = 20"
  shows "answers D view rb (take 13 (drop 239 (cells view (ee s)))) (cells view (ee s)) (cmd_get_static D rb s)"
proof -
  let ?m = "cells view (ee s)"
  obtain e1 where e1: "AT24CXX_Read D 239 5 (ee s) = (take 5 (drop 239 ?m), e1)" "ee_ok D view e1"
      "cells view e1 = ?m"
    using read_field [OF assms(1), of 239 5] by auto
  obtain e2 where e2: "AT24CXX_Read D 244 4 e1 = (take 4 (drop 244 ?m), e2)" "ee_ok D view e2"
      "cells view e2 = ?m"
    using read_field [OF e1(2), of 244 4] e1(3) by auto
  obtain e3 where e3: "AT24CXX_Read D 248 4 e2 = (take 4 (drop 248 ?m), e3)" "ee_ok D view e3"
      "cells view e3 = ?m"
    using read_field [OF e2(2), of 248 4] e2(3) by auto
  have m: "length ?m = 1024" using assms(1) by (rule ee_cells_length)
  have bs: "take 13 (drop 239 ?m) = take 5 (drop 239 ?m) @ take 4 (drop 244 ?m) @ take 4 (drop 248 ?m)"
    using take_add [of 5 8 "drop 239 ?m"] take_add [of 4 4 "drop 244 ?m"] by simp
  have "cmd_get_static D rb s = Inr (overlay 3 (take 13 (drop 239 ?m)) rb, s\<lparr>ee := e3\<rparr>)"
    using assms(2) e1(1) e2(1) e3(1) m
    by (simp add: cmd_get_static_def Read_localIP_def Read_netmask_def Read_gateway_def put_overlay bs)
  with e3 show ?thesis by (auto simp: answers_def)
qed

lemma get_key_answers:
  assumes "ee_ok D view (ee s)" and "length q = 32" and "length rb = 20"
  shows "answers D view rb (take 6 (drop 230 (cells view (ee s))) @ [q ! 9, cells view (ee s) ! 236])
    (cells view (ee s)) (cmd_get_key D q rb s)"
proof -
  let ?m = "cells view (ee s)"
  obtain e1 where e1: "AT24CXX_Read D 230 7 (ee s) = (take 7 (drop 230 ?m), e1)" "ee_ok D view e1"
      "cells view e1 = ?m"
    using read_field [OF assms(1), of 230 7] by auto
  have "length ?m = 1024" using assms(1) by (rule ee_cells_length)
  then have "cmd_get_key D q rb s =
      Inr (overlay 3 (take 6 (drop 230 ?m) @ [q ! 9, ?m ! 236]) rb, s\<lparr>ee := e1\<rparr>)"
    using assms(2,3) e1(1) by (simp add: cmd_get_key_def Read_RFID_Key_def put_overlay)
  with e1 show ?thesis by (auto simp: answers_def)
qed

lemma set_key_ok:
  assumes "ee_ok D view (ee s)" and "length f = 32" and "length (FM1702_Key s) = 7"
  shows "\<exists>s'. cmd_set_key D f s = Inr s' \<and> ee_ok D view (ee s') \<and>
    cells view (ee s') = overlay 230 (take 6 (drop 3 f) @ [f ! 10]) (cells view (ee s)) \<and>
    FM1702_Key s' = take 6 (drop 3 f) @ [f ! 10] \<and> FM1702KeyCRC s' = crc8_poly (FM1702_Key s')"
proof -
  let ?k = "take 6 (drop 3 f) @ [f ! 10]"
  have len: "length ?k = 7" using assms(2) by simp
  have "cmd_set_key D f s = Inr (s\<lparr>FM1702_Key := ?k, FM1702KeyCRC := crc8_poly ?k,
      ee := field_write D 230 ?k (ee s)\<rparr>)"
    using assms(2,3) len by (simp add: cmd_set_key_def get_field put_overlay overlay_all CRC8_Table_eq
        Write_RFID_Key_def get_bytes_all field_write_def)
  with field_write_ok [OF assms(1), of 230 ?k] len show ?thesis by simp
qed

section \<open>Replies\<close>

lemma build_reply_ok:
  assumes "length f = 32" and "1 \<le> unat (f ! 1)" and "unat (f ! 1) \<le> 20"
    and "run_command D f ([0xF4, f ! 1, f ! 2 + 1] @ replicate 17 0) s = Inr (rb, s1)" and "length rb = 20"
  shows "build_reply D f s =
    Inr (rb[unat (f ! 1) - 1 := crc8_poly (take (unat (f ! 1) - 1) rb)], s1)"
proof -
  have "f ! 1 \<noteq> 0" using assms(2) by auto
  then have "unat (f ! 1 - 1) = unat (f ! 1) - 1" by (rule unat_minus_one)
  with assms \<open>f ! 1 \<noteq> 0\<close> show ?thesis by (simp add: build_reply_def CRC8_Table_eq)
qed

lemma set_sn_answers:
  assumes "ee_ok D view (ee s)" and "length f = 32" and "length rb = 20"
  shows "answers D view rb (take 4 (drop 3 f)) (overlay 206 (take 4 (drop 3 f)) (cells view (ee s)))
    (cmd_set_sn D f rb s)"
proof -
  let ?bs = "take 4 (drop 3 f)"
  have len: "length ?bs = 4" using assms(2) by simp
  have w: "Write_ACUSN D (?bs @ replicate 16 0) (ee s) = Inr (field_write D 206 ?bs (ee s))"
    using len by (simp add: Write_ACUSN_def get_bytes_ok field_write_def)
  have "cmd_set_sn D f rb s = Inr (overlay 3 ?bs rb, s\<lparr>ee := field_write D 206 ?bs (ee s)\<rparr>)"
    using assms(2,3) len w by (simp add: cmd_set_sn_def get_field put_overlay)
  then show ?thesis using field_write_ok [OF assms(1), of 206 ?bs] len by (auto simp: answers_def)
qed

text \<open>The sizes of the globals the interpreter uses.\<close>

definition globals_sized :: "'d acu \<Rightarrow> bool" where
  "globals_sized s \<longleftrightarrow> length (g_ACUSN s) = 4 \<and> length (FM1702_Key s) = 7 \<and>
     length (g_Setip s) = 5 \<and> length (g_Setnetmask s) = 4 \<and> length (g_Setgateway s) = 4"

lemmas command_answers = set_address_answers get_address_answers set_code_answers get_code_answers
  set_sn_answers set_static_answers get_static_answers get_key_answers

lemma answers_total:
  "answers D view rb bs m res \<Longrightarrow> length rb = 20 \<Longrightarrow> length bs \<le> 17 \<Longrightarrow>
   \<exists>rb1 s1. res = Inr (rb1, s1) \<and> length rb1 = 20 \<and> take 3 rb1 = take 3 rb"
  by (auto simp: answers_def overlay_def min_def)

lemma run_command_total:
  assumes "ee_ok D view (ee s)" and "length f = 32" and "length rb = 20" and "globals_sized s"
  shows "\<exists>rb1 s1. run_command D f rb s = Inr (rb1, s1) \<and> length rb1 = 20 \<and> take 3 rb1 = take 3 rb"
proof -
  note a = command_answers [OF assms(1)]
  note g = assms(4) [unfolded globals_sized_def]
  note t = answers_total [OF _ assms(3)]
  have r1: "\<exists>rb1 s1. cmd_set_address D f rb s = Inr (rb1, s1) \<and> length rb1 = 20 \<and> take 3 rb1 = take 3 rb"
    by (rule t [OF a(1)]) (simp_all add: assms)
  have r2: "\<exists>rb1 s1. cmd_get_address D rb s = Inr (rb1, s1) \<and> length rb1 = 20 \<and> take 3 rb1 = take 3 rb"
    by (rule t [OF a(2)]) (simp_all add: assms)
  have r3: "\<exists>rb1 s1. cmd_set_code D f rb s = Inr (rb1, s1) \<and> length rb1 = 20 \<and> take 3 rb1 = take 3 rb"
    by (rule t [OF a(3)]) (simp_all add: assms)
  have r4: "\<exists>rb1 s1. cmd_get_code D rb s = Inr (rb1, s1) \<and> length rb1 = 20 \<and> take 3 rb1 = take 3 rb"
    by (rule t [OF a(4)]) (simp_all add: assms)
  have r5: "\<exists>rb1 s1. cmd_set_sn D f rb s = Inr (rb1, s1) \<and> length rb1 = 20 \<and> take 3 rb1 = take 3 rb"
    by (rule t [OF a(5)]) (simp_all add: assms)
  have r6: "\<exists>rb1 s1. cmd_set_static D f rb s = Inr (rb1, s1) \<and> length rb1 = 20 \<and> take 3 rb1 = take 3 rb"
    by (rule t [OF a(6)]) (simp_all add: assms g)
  have r7: "\<exists>rb1 s1. cmd_get_static D rb s = Inr (rb1, s1) \<and> length rb1 = 20 \<and> take 3 rb1 = take 3 rb"
    by (rule t [OF a(7)]) (simp_all add: assms)
  have r8: "\<exists>rb1 s1. cmd_get_key D f rb s' = Inr (rb1, s1) \<and> length rb1 = 20 \<and> take 3 rb1 = take 3 rb"
    if "ee_ok D view (ee s')" for s' :: "'a acu"
    by (rule t [OF get_key_answers [OF that]]) (simp_all add: assms)
  obtain s2 where s2: "cmd_set_key D f s = Inr s2" "ee_ok D view (ee s2)"
    using set_key_ok [OF assms(1,2)] g by blast
  have r0: "put_bytes rb 3 (VersionNo # g_ACUSN s) = Inr (overlay 3 (VersionNo # g_ACUSN s) rb)"
    using g assms(3) by (simp add: put_overlay)
  show ?thesis
    unfolding run_command_def using assms(2,3) g r0 r1 r2 r3 r4 r5 r6 r7 r8 [OF assms(1)] r8 [OF s2(2)] s2(1)
    by (simp add: get_bytes_all) (simp add: overlay_def)
qed

lemma frame_check:
  assumes "4 \<le> n" and "n \<le> 20" and "length rb = 20"
  shows "CRC8_Table (take n (rb[n - 1 := crc8_poly (take (n - 1) rb)])) (of_nat n) = Inr 0"
proof -
  obtain k where n: "n = Suc k" using assms(1) by (cases n) auto
  have "take n (rb[n - 1 := crc8_poly (take (n - 1) rb)]) = take k rb @ [crc8_poly (take k rb)]"
    using assms by (simp add: n take_Suc_conv_app_nth)
  moreover have "length (take k rb) = k" using assms n by simp
  ultimately show ?thesis using assms(2) CRC8_Table_all [of "take k rb @ [crc8_poly (take k rb)]"]
    by (simp add: n crc8_poly_snoc)
qed

lemma set_then_query_commands:
  assumes ok: "ee_ok D view (ee s)" and g: "globals_sized s"
    and f: "length f = 32" and q: "length q = 32"
    and c: "(f ! 2, q ! 2, n) \<in> {(0x03, 0xC3, 6), (0x05, 0xC5, 16), (0x09, 0xC9, 13), (0x10, 0x12, 8)}"
    and mode: "n = 8 \<longrightarrow> q ! 9 = f ! 9"
    and rb: "length rf = 20" "length rq = 20"
  shows "\<exists>s1 s2. run_command D f rf s = Inr (overlay 3 (take n (drop 3 f)) rf, s1) \<and>
    run_command D q rq s1 = Inr (overlay 3 (take n (drop 3 f)) rq, s2)"
proof -
  note m = ee_cells_length [OF ok]
  have stored: "take n (drop a (overlay a (take n (drop 3 f)) (cells view (ee s)))) = take n (drop 3 f)"
    if "a + n \<le> 1024" "n \<le> 29" for a n
    using that m f take_drop_overlay_same [of a "take n (drop 3 f)"] by simp
  from c consider (ip) "f ! 2 = 0x03" "q ! 2 = 0xC3" "n = 6" | (code) "f ! 2 = 0x05" "q ! 2 = 0xC5" "n = 16"
    | (static) "f ! 2 = 0x09" "q ! 2 = 0xC9" "n = 13" | (key) "f ! 2 = 0x10" "q ! 2 = 0x12" "n = 8"
    by auto
  then show ?thesis
  proof cases
    case ip
    obtain s1 where s1: "run_command D f rf s = Inr (overlay 3 (take n (drop 3 f)) rf, s1)"
        "ee_ok D view (ee s1)" "cells view (ee s1) = overlay 200 (take n (drop 3 f)) (cells view (ee s))"
      using set_address_answers [OF ok f rb(1)] ip f by (auto simp: answers_def run_command_def)
    have "take 6 (drop 200 (cells view (ee s1))) = take n (drop 3 f)"
      using stored [of 200 6] s1(3) ip by simp
    with get_address_answers [OF s1(2) rb(2)] ip q s1(1) show ?thesis
      by (auto simp: answers_def run_command_def)
  next
    case code
    obtain s1 where s1: "run_command D f rf s = Inr (overlay 3 (take n (drop 3 f)) rf, s1)"
        "ee_ok D view (ee s1)" "cells view (ee s1) = overlay 210 (take n (drop 3 f)) (cells view (ee s))"
      using set_code_answers [OF ok f rb(1)] code f by (auto simp: answers_def run_command_def)
    have "take 16 (drop 210 (cells view (ee s1))) = take n (drop 3 f)"
      using stored [of 210 16] s1(3) code by simp
    with get_code_answers [OF s1(2) rb(2)] code q s1(1) show ?thesis
      by (auto simp: answers_def run_command_def)
  next
    case static
    obtain s1 where s1: "run_command D f rf s = Inr (overlay 3 (take n (drop 3 f)) rf, s1)"
        "ee_ok D view (ee s1)" "cells view (ee s1) = overlay 239 (take n (drop 3 f)) (cells view (ee s))"
      using set_static_answers [OF ok f rb(1)] static f g [unfolded globals_sized_def] by (auto simp: answers_def run_command_def)
    have "take 13 (drop 239 (cells view (ee s1))) = take n (drop 3 f)"
      using stored [of 239 13] s1(3) static by simp
    with get_static_answers [OF s1(2) rb(2)] static q s1(1) show ?thesis
      by (auto simp: answers_def run_command_def)
  next
    case key
    let ?k = "take 6 (drop 3 f) @ [f ! 10]"
    obtain s0 where s0: "cmd_set_key D f s = Inr s0" "ee_ok D view (ee s0)"
        "cells view (ee s0) = overlay 230 ?k (cells view (ee s))"
      using set_key_ok [OF ok f] g by (auto simp: globals_sized_def)
    have k: "take 6 (drop 230 (cells view (ee s0))) = take 6 (drop 3 f)" "cells view (ee s0) ! 236 = f ! 10"
      using m f by (simp_all add: s0(3) overlay_def nth_append)
    have bs: "take 8 (drop 3 f) = take 6 (drop 3 f) @ [f ! 9, f ! 10]"
    proof -
      have "take 2 (drop 9 f) = [f ! 9, f ! 10]"
        using f by (intro nth_equalityI) (auto simp: less_2_cases_iff)
      then show ?thesis using take_add [of 6 2 "drop 3 f"] by simp
    qed
    obtain s1 where s1: "cmd_get_key D f rf s0 = Inr (overlay 3 (take 8 (drop 3 f)) rf, s1)"
        "ee_ok D view (ee s1)" "cells view (ee s1) = cells view (ee s0)"
      using get_key_answers [OF s0(2) f rb(1)] k by (auto simp: answers_def bs)
    obtain s2 where s2: "cmd_get_key D q rq s1 = Inr (overlay 3 (take 8 (drop 3 f)) rq, s2)"
      using get_key_answers [OF s1(2) q rb(2)] k s1(3) mode key by (auto simp: answers_def bs)
    show ?thesis using key f q s0(1) s1(1) s2 by (auto simp: run_command_def)
  qed
qed

text \<open>The serial number is only written: the answer to 0x01 is the one read at the last start.\<close>

lemma set_then_query_number:
  assumes ok: "ee_ok D view (ee s)" and g: "globals_sized s" and f: "length f = 32" "f ! 2 = 0x07" and q: "length q = 32" "q ! 2 = 0x01"
    and rb: "length rf = 20" "length rq = 20"
  shows "\<exists>s1. run_command D f rf s = Inr (overlay 3 (take 4 (drop 3 f)) rf, s1) \<and>
    take 4 (drop 206 (cells view (ee s1))) = take 4 (drop 3 f) \<and>
    run_command D q rq s1 = Inr (overlay 3 (VersionNo # g_ACUSN s) rq, s1)"
proof -
  have n: "length (g_ACUSN s) = 4" using g by (simp add: globals_sized_def)
  obtain s1 where s1: "cmd_set_sn D f rf s = Inr (overlay 3 (take 4 (drop 3 f)) rf, s1)"
      "cells view (ee s1) = overlay 206 (take 4 (drop 3 f)) (cells view (ee s))" "g_ACUSN s1 = g_ACUSN s"
    using set_sn_answers [OF ok f(1) rb(1)] by (auto simp: answers_def cmd_set_sn_def ebind_eq_Inr_iff)
  have "take 4 (drop 206 (cells view (ee s1))) = take 4 (drop 3 f)"
    using ee_cells_length [OF ok] f(1) s1(2) take_drop_overlay_same [of 206 "take 4 (drop 3 f)"] by simp
  moreover have "put_bytes rq 3 (VersionNo # g_ACUSN s) = Inr (overlay 3 (VersionNo # g_ACUSN s) rq)"
    using n rb(2) by (simp add: put_overlay)
  ultimately show ?thesis using s1(1,3) f q n by (intro exI [of _ s1]) (simp add: run_command_def get_bytes_all)
qed

text \<open>The reply goes out as far as its length byte says.\<close>

lemma SendSerialPort_queues:
  assumes "build_reply D f s = Inr (r, s1)" and "length r = 20" and "r ! 1 = f ! 1" and "unat (f ! 1) \<le> 20"
    and "tx_ok (g_tUart3 p)" and "rx_safe (g_tUart3 p)" and "unat (usTxCount (g_tUart3 p)) + unat (f ! 1) \<le> unat (usTxBufSize (g_tUart3 p))"
  shows "\<exists>p1. SendSerialPort (Suc fuel) ev D f (s, p) = Inr (s1, p1) \<and>
    tx_line (g_tUart3 p1) @ tx_fifo (g_tUart3 p1) = tx_line (g_tUart3 p) @ tx_fifo (g_tUart3 p) @ take (unat (f ! 1)) r"
proof -
  have w: "unat (ucast (f ! 1) :: u16) = unat (f ! 1)" by simp
  have fits: "unat (usTxCount (g_tUart3 p)) + unat (ucast (f ! 1) :: u16) \<le> unat (usTxBufSize (g_tUart3 p))"
      "unat (ucast (f ! 1) :: u16) \<le> length r"
    using assms(2,4,7) w by simp_all
  obtain v where v: "UartSend (Suc fuel) ev r (ucast (f ! 1)) (g_tUart3 p) = Inr v"
      "tx_line v @ tx_fifo v = tx_line (g_tUart3 p) @ tx_fifo (g_tUart3 p) @ take (unat (f ! 1)) r"
    using UartSend_fits [OF assms(5,6) fits(2,1), of fuel ev] w by auto
  have "SendSerialPort (Suc fuel) ev D f (s, p) = Inr (s1, p\<lparr>g_tUart3 := v\<rparr>)"
    using assms(1-3) v(1) by (simp add: SendSerialPort_def comSendBuf_def ComToUart_def set_uart_def)
  then show ?thesis using v(2) by (intro exI [of _ "p\<lparr>g_tUart3 := v\<rparr>"]) simp
qed

text \<open>A command that puts \<open>bs\<close> into its reply, up to the frame that goes out.\<close>

lemma SendSerialPort_data:
  assumes r: "run_command D f ([0xF4, f ! 1, f ! 2 + 1] @ replicate 17 0) s =
      Inr (overlay 3 bs ([0xF4, f ! 1, f ! 2 + 1] @ replicate 17 0), s1)" and f: "length f = 32"
    and n: "length bs + 4 \<le> unat (f ! 1)" "unat (f ! 1) \<le> 20"
    and p: "tx_ok (g_tUart3 p)" "rx_safe (g_tUart3 p)" "unat (usTxCount (g_tUart3 p)) + unat (f ! 1) \<le> unat (usTxBufSize (g_tUart3 p))"
  shows "\<exists>p1 r. SendSerialPort (Suc fuel) ev D f (s, p) = Inr (s1, p1) \<and>
    tx_line (g_tUart3 p1) @ tx_fifo (g_tUart3 p1) = tx_line (g_tUart3 p) @ tx_fifo (g_tUart3 p) @ r \<and>
    take (3 + length bs) r = [0xF4, f ! 1, f ! 2 + 1] @ bs"
proof -
  let ?h = "[0xF4, f ! 1, f ! 2 + 1] @ replicate 17 0" and ?k = "unat (f ! 1)"
  let ?rb = "overlay 3 bs ?h"
  define R where "R = ?rb[?k - 1 := crc8_poly (take (?k - 1) ?rb)]"
  have len: "length ?rb = 20" using n by (simp add: overlay_def)
  have br: "build_reply D f s = Inr (R, s1)" using build_reply_ok [OF f _ n(2) r len] n(1) by (simp add: R_def)
  have "take (3 + length bs) ?rb = [0xF4, f ! 1, f ! 2 + 1] @ bs" using n by (simp add: overlay_def numeral_3_eq_3)
  then have data: "take (3 + length bs) R = [0xF4, f ! 1, f ! 2 + 1] @ bs" using n by (simp add: R_def)
  then have "take (3 + length bs) R ! 1 = f ! 1" by simp
  then have "R ! 1 = f ! 1" by simp
  moreover have "length R = 20" using len by (simp add: R_def)
  ultimately obtain p1 where "SendSerialPort (Suc fuel) ev D f (s, p) = Inr (s1, p1)"
      "tx_line (g_tUart3 p1) @ tx_fifo (g_tUart3 p1) = tx_line (g_tUart3 p) @ tx_fifo (g_tUart3 p) @ take ?k R"
    using SendSerialPort_queues [OF br _ _ n(2) p, of fuel ev] by blast
  moreover have "take (3 + length bs) (take ?k R) = [0xF4, f ! 1, f ! 2 + 1] @ bs"
    using data n(1) by (simp add: min_def)
  ultimately show ?thesis by blast
qed

section \<open>Properties\<close>

text \<open>
  C23. Frames are received exactly. From the idle state, polling the port while its ring holds a
  frame of 3 to 32 bytes (0xF3, its own length, then any bytes) stores the frame at the start of
  the buffer; it is announced (bit 7 of the count) exactly when its last byte is the CRC-8 of the
  others, and otherwise the receiver is idle again. Bytes 0xF3 inside the frame do not restart it.
\<close>

theorem serial_frame_received:
  assumes "good_frame f" and "g_Serial_Count s = 0" and "length (g_SerialDat s) = 32"
    and "rx_ok (g_tUart3 p)" and "rx_fifo (g_tUart3 p) = f @ rest"
  shows "\<exists>p' s'. poll_serial (length f) p s = Inr (p', s') \<and> rx_fifo (g_tUart3 p') = rest \<and>
    take (length f) (g_SerialDat s') = f \<and>
    g_Serial_Count s' =
      (if CRC8_Table f (of_nat (length f - 1)) = Inr (last f) then of_nat (length f) OR 0x80 else 0)"
proof -
  obtain s' where s': "ReceiveBytes f s = Inr s'" "take (length f) (g_SerialDat s') = f"
      "g_Serial_Count s' = (if crc8_poly (butlast f) = last f then of_nat (length f) OR 0x80 else 0)"
    using ReceiveBytes_frame [OF assms(1-3)] by blast
  have "unat (of_nat (length f - 1) :: u8) = length f - 1"
    using assms(1) by (intro unat_of_nat_u8) (auto simp: good_frame_def)
  then have "CRC8_Table f (of_nat (length f - 1)) = Inr (crc8_poly (butlast f))"
    by (simp add: CRC8_Table_eq butlast_conv_take)
  with s' poll_serial_reads [OF assms(4,5) s'(1)] show ?thesis by auto
qed

text \<open>
  C24. What the configuration port sets it also reports, up to the bytes queued for the port. For the server address and port
  (0x03, 0xC3), the communication code (0x05, 0xC5), the local address (0x09, 0xC9) and the
  reader key (0x10, 0x12, for the same mode byte), the setting command repeats its data in the
  reply, and a following query, whatever it holds otherwise, is answered with the same data. The serial number (0x07) is repeated in the reply and stored in the
  memory, but the query 0x01 still reports the one of the last start.
\<close>

theorem serial_set_then_query:
  assumes "is_at24 D view" and "bus_idle (iic_view view (ee s))" and "globals_sized s"
    and "length f = 32" and "length q = 32"
    and "(f ! 2, q ! 2, n, k) \<in> {(0x03, 0xC3, 6, 6), (0x05, 0xC5, 16, 16), (0x09, 0xC9, 13, 13), (0x10, 0x12, 8, 8), (0x07, 0x01, 4, 5)}"
    and "n = 8 \<longrightarrow> q ! 9 = f ! 9"
    and "n + 4 \<le> unat (f ! 1)" and "unat (f ! 1) \<le> 20" and "k + 4 \<le> unat (q ! 1)" and "unat (q ! 1) \<le> 20"
    and "tx_ok (g_tUart3 p)" and "rx_safe (g_tUart3 p)" and "unat (usTxCount (g_tUart3 p)) + unat (f ! 1) \<le> unat (usTxBufSize (g_tUart3 p))"
    and "tx_ok (g_tUart3 p')" and "rx_safe (g_tUart3 p')" and "unat (usTxCount (g_tUart3 p')) + unat (q ! 1) \<le> unat (usTxBufSize (g_tUart3 p'))"
  shows "\<exists>s1 p1 r1 s2 p2 r2.
    SendSerialPort (Suc fuel) ev D f (s, p) = Inr (s1, p1) \<and>
    tx_line (g_tUart3 p1) @ tx_fifo (g_tUart3 p1) = tx_line (g_tUart3 p) @ tx_fifo (g_tUart3 p) @ r1 \<and>
    take (3 + n) r1 = [0xF4, f ! 1, f ! 2 + 1] @ take n (drop 3 f) \<and>
    SendSerialPort (Suc fuel) ev' D q (s1, p') = Inr (s2, p2) \<and>
    tx_line (g_tUart3 p2) @ tx_fifo (g_tUart3 p2) = tx_line (g_tUart3 p') @ tx_fifo (g_tUart3 p') @ r2 \<and>
    take (3 + k) r2 = [0xF4, q ! 1, q ! 2 + 1] @ (if f ! 2 = 0x07 then VersionNo # g_ACUSN s else take n (drop 3 f)) \<and>
    (f ! 2 = 0x07 \<longrightarrow> take 4 (drop 206 (cells view (ee s1))) = take 4 (drop 3 f))"
proof -
  let ?hf = "[0xF4, f ! 1, f ! 2 + 1] @ replicate 17 0" and ?hq = "[0xF4, q ! 1, q ! 2 + 1] @ replicate 17 0"
  let ?bs = "take n (drop 3 f)"
  define cs where "cs = (if f ! 2 = 0x07 then VersionNo # g_ACUSN s else ?bs)"
  have ok: "ee_ok D view (ee s)" using assms(1,2) by (simp add: ee_ok_def)
  have "\<exists>s1 s2. run_command D f ?hf s = Inr (overlay 3 ?bs ?hf, s1) \<and> run_command D q ?hq s1 = Inr (overlay 3 cs ?hq, s2) \<and>
      (f ! 2 = 0x07 \<longrightarrow> take 4 (drop 206 (cells view (ee s1))) = take 4 (drop 3 f))"
  proof (cases "f ! 2 = 0x07")
    case True
    then have q2: "q ! 2 = 0x01" "n = 4" using assms(6) by auto
    show ?thesis using set_then_query_number [OF ok assms(3,4) True assms(5) q2(1), of ?hf ?hq] True q2(2) by (auto simp: cs_def)
  next
    case False
    then have c: "(f ! 2, q ! 2, n) \<in> {(0x03, 0xC3, 6), (0x05, 0xC5, 16), (0x09, 0xC9, 13), (0x10, 0x12, 8)}" using assms(6) by auto
    show ?thesis using set_then_query_commands [OF ok assms(3-5) c assms(7), of ?hf ?hq] False by (auto simp: cs_def)
  qed
  then obtain s1 s2 where s12: "run_command D f ?hf s = Inr (overlay 3 ?bs ?hf, s1)" "run_command D q ?hq s1 = Inr (overlay 3 cs ?hq, s2)"
      "f ! 2 = 0x07 \<longrightarrow> take 4 (drop 206 (cells view (ee s1))) = take 4 (drop 3 f)" by blast
  have n: "length ?bs = n" using assms(4,6) by auto
  have k: "length cs = k" using assms(3,6) n by (auto simp: cs_def globals_sized_def)
  obtain p1 r1 where 1: "SendSerialPort (Suc fuel) ev D f (s, p) = Inr (s1, p1)"
    "tx_line (g_tUart3 p1) @ tx_fifo (g_tUart3 p1) = tx_line (g_tUart3 p) @ tx_fifo (g_tUart3 p) @ r1"
    "take (3 + n) r1 = [0xF4, f ! 1, f ! 2 + 1] @ ?bs"
    using SendSerialPort_data [OF s12(1) assms(4) _ assms(9,12-14), of fuel ev] assms(8) unfolding n by blast
  obtain p2 r2 where 2: "SendSerialPort (Suc fuel) ev' D q (s1, p') = Inr (s2, p2)"
    "tx_line (g_tUart3 p2) @ tx_fifo (g_tUart3 p2) = tx_line (g_tUart3 p') @ tx_fifo (g_tUart3 p') @ r2"
    "take (3 + k) r2 = [0xF4, q ! 1, q ! 2 + 1] @ cs"
    using SendSerialPort_data [OF s12(2) assms(5) _ assms(11,15-17), of fuel ev'] assms(10) unfolding k by blast
  show ?thesis using 1 2 s12(3) unfolding cs_def by blast
qed

text \<open>
  Replies are well-formed frames. For every command frame whose length byte is 4 to 20,
  known command or not, the interpreter queues behind what the port still has to send a reply of
  exactly that length: 0xF4, the length, the command plus one, and a correct CRC-8.
\<close>

theorem SendSerialPort_reply_is_frame:
  assumes "is_at24 D view" and "bus_idle (iic_view view (ee s))" and "globals_sized s"
    and "length f = 32" and "4 \<le> unat (f ! 1)" and "unat (f ! 1) \<le> 20"
    and "tx_ok (g_tUart3 p)" and "rx_safe (g_tUart3 p)"
    and "unat (usTxCount (g_tUart3 p)) + unat (f ! 1) \<le> unat (usTxBufSize (g_tUart3 p))"
  shows "\<exists>s1 p1 r. SendSerialPort (Suc fuel) ev D f (s, p) = Inr (s1, p1) \<and>
    tx_line (g_tUart3 p1) @ tx_fifo (g_tUart3 p1) = tx_line (g_tUart3 p) @ tx_fifo (g_tUart3 p) @ r \<and>
    length r = unat (f ! 1) \<and> r ! 0 = 0xF4 \<and> r ! 1 = f ! 1 \<and> r ! 2 = f ! 2 + 1 \<and>
    CRC8_Table r (f ! 1) = Inr 0"
proof -
  let ?h = "[0xF4, f ! 1, f ! 2 + 1] @ replicate 17 0" and ?n = "unat (f ! 1)"
  have ok: "ee_ok D view (ee s)" using assms(1,2) by (simp add: ee_ok_def)
  obtain rb s1 where rb: "run_command D f ?h s = Inr (rb, s1)" "length rb = 20" "take 3 rb = take 3 ?h"
    using run_command_total [OF ok assms(4) _ assms(3), of ?h] by auto
  define r where "r = rb[?n - 1 := crc8_poly (take (?n - 1) rb)]"
  have br: "build_reply D f s = Inr (r, s1)"
    using build_reply_ok [OF assms(4) _ assms(6) rb(1,2)] assms(5) by (simp add: r_def)
  have pre: "take 3 r = [0xF4, f ! 1, f ! 2 + 1]"
    using rb(3) assms(5) by (simp add: r_def)
  have len: "length r = 20" using rb(2) by (simp add: r_def)
  have r0: "r ! 0 = 0xF4" "r ! 1 = f ! 1" "r ! 2 = f ! 2 + 1"
    using arg_cong [OF pre, of "\<lambda>xs. xs ! 0"] arg_cong [OF pre, of "\<lambda>xs. xs ! 1"]
      arg_cong [OF pre, of "\<lambda>xs. xs ! 2"] by simp_all
  obtain p1 where "SendSerialPort (Suc fuel) ev D f (s, p) = Inr (s1, p1)"
      "tx_line (g_tUart3 p1) @ tx_fifo (g_tUart3 p1) = tx_line (g_tUart3 p) @ tx_fifo (g_tUart3 p) @ take ?n r"
    using SendSerialPort_queues [OF br len r0(2) assms(6-9), of fuel ev] by blast
  moreover have "CRC8_Table (take ?n r) (f ! 1) = Inr 0"
    using frame_check [OF assms(5,6) rb(2)] by (simp add: r_def)
  moreover have "length (take ?n r) = ?n" "take ?n r ! 0 = 0xF4" "take ?n r ! 1 = f ! 1" "take ?n r ! 2 = f ! 2 + 1"
    using len assms(5,6) r0 by simp_all
  ultimately show ?thesis by blast
qed

text \<open>
  The length byte of a command is not checked against the 20 bytes of the reply buffer: with
  length 0 or more than 20 (the receiver accepts up to 32) the interpreter, after it has carried
  out the command, writes outside the buffer.
\<close>

theorem SendSerialPort_long_frame_faults:
  assumes "is_at24 D view" and "bus_idle (iic_view view (ee s))" and "globals_sized s"
    and "length f = 32" and "f ! 1 = 0 \<or> 20 < unat (f ! 1)"
  shows "SendSerialPort fuel ev D f (s, p) = Inl Out_Of_Bounds"
proof -
  let ?h = "[0xF4, f ! 1, f ! 2 + 1] @ replicate 17 0"
  have ok: "ee_ok D view (ee s)" using assms(1,2) by (simp add: ee_ok_def)
  obtain rb s1 where rb: "run_command D f ?h s = Inr (rb, s1)" "length rb = 20"
    using run_command_total [OF ok assms(4) _ assms(3), of ?h] by auto
  have "f ! 1 \<noteq> 0 \<Longrightarrow> unat (f ! 1 - 1) = unat (f ! 1) - 1" by (rule unat_minus_one)
  with assms(4,5) rb have "build_reply D f s = Inl Out_Of_Bounds"
    by (auto simp: build_reply_def CRC8_Table_eq)
  then show ?thesis by (simp add: SendSerialPort_def)
qed

section \<open>Examples\<close>

definition set_frame :: "u8 list" where
  "set_frame = [0xF3, 10, 0x03, 192, 168, 1, 7, 0x4E, 0x20, 0] @ replicate 22 0"

definition query_frame :: "u8 list" where
  "query_frame = [0xF3, 10, 0xC3, 0, 0, 0, 0, 0, 0, 0] @ replicate 22 0"

lemma start_acu_sized: "globals_sized (start_acu e)"
  by (simp add: globals_sized_def start_acu_def)

lemma UartVarInit_ok: "tx_ok (g_tUart3 UartVarInit)" "rx_ok (g_tUart3 UartVarInit)" "rx_safe (g_tUart3 UartVarInit)"
    "unat (usTxCount (g_tUart3 UartVarInit)) = 0" "unat (usTxBufSize (g_tUart3 UartVarInit)) = 512"
proof -
  show "tx_ok (g_tUart3 UartVarInit)" "rx_ok (g_tUart3 UartVarInit)"
    by (simp_all add: UartVarInit_def uart_init_def UART_BUF_SIZE_def tx_ok_def rx_ok_def ring_ok_def)
  then show "rx_safe (g_tUart3 UartVarInit)" by (simp add: rx_ok_safe)
  show "unat (usTxCount (g_tUart3 UartVarInit)) = 0" "unat (usTxBufSize (g_tUart3 UartVarInit)) = 512"
    by (simp_all add: UartVarInit_def uart_init_def UART_BUF_SIZE_def)
qed

lemma serial_set_then_query_witness:
  "\<exists>s1 p1 r1 s2 p2 r2. SendSerialPort 1 (\<lambda>_. None) at24_dev set_frame (start_acu fresh_bus, UartVarInit) = Inr (s1, p1) \<and>
    tx_line (g_tUart3 p1) @ tx_fifo (g_tUart3 p1) = tx_line (g_tUart3 UartVarInit) @ tx_fifo (g_tUart3 UartVarInit) @ r1 \<and>
    SendSerialPort 1 (\<lambda>_. None) at24_dev query_frame (s1, UartVarInit) = Inr (s2, p2) \<and>
    tx_line (g_tUart3 p2) @ tx_fifo (g_tUart3 p2) = tx_line (g_tUart3 UartVarInit) @ tx_fifo (g_tUart3 UartVarInit) @ r2 \<and>
    take 9 r2 = [0xF4, 10, 0xC4, 192, 168, 1, 7, 0x4E, 0x20]"
proof -
  have "(set_frame ! 2, query_frame ! 2, 6 :: nat, 6 :: nat) \<in>
      {(0x03, 0xC3, 6, 6), (0x05, 0xC5, 16, 16), (0x09, 0xC9, 13, 13), (0x10, 0x12, 8, 8), (0x07, 0x01, 4, 5)}"
    by (simp add: set_frame_def query_frame_def)
  from serial_set_then_query [OF is_at24_self _ start_acu_sized _ _ this _ _ _ _ _ UartVarInit_ok(1,3) _ UartVarInit_ok(1,3),
      of fresh_bus 0 "\<lambda>_. None" "\<lambda>_. None"]
  show ?thesis
    by (auto simp: iic_view_self fresh_bus_idle set_frame_def query_frame_def UartVarInit_ok)
qed

lemma SendSerialPort_reply_is_frame_witness:
  "\<exists>s1 p1 r. SendSerialPort (Suc 0) (\<lambda>_. None) at24_dev query_frame (start_acu fresh_bus, UartVarInit) =
      Inr (s1, p1) \<and>
    tx_line (g_tUart3 p1) @ tx_fifo (g_tUart3 p1) =
      tx_line (g_tUart3 UartVarInit) @ tx_fifo (g_tUart3 UartVarInit) @ r \<and>
    length r = unat (query_frame ! 1) \<and> r ! 0 = 0xF4 \<and> r ! 1 = query_frame ! 1 \<and>
    r ! 2 = query_frame ! 2 + 1 \<and> CRC8_Table r (query_frame ! 1) = Inr 0"
  by (rule SendSerialPort_reply_is_frame [where view = "\<lambda>c. c"])
     (simp_all add: is_at24_self iic_view_self fresh_bus_idle start_acu_sized query_frame_def UartVarInit_ok)

lemma SendSerialPort_long_frame_faults_witness:
  "SendSerialPort 1 (\<lambda>_. None) at24_dev ([0xF3, 21] @ replicate 30 0) (start_acu fresh_bus, UartVarInit) =
     Inl Out_Of_Bounds"
  by (rule SendSerialPort_long_frame_faults [where view = "\<lambda>c. c"])
     (simp_all add: is_at24_self iic_view_self fresh_bus_idle start_acu_sized)

definition port_with :: "u8 list \<Rightarrow> uarts" where
  "port_with bs = UartVarInit\<lparr>g_tUart3 := uart_init\<lparr>pRxBuf := bs @ replicate (512 - length bs) 0,
     usRxWrite := of_nat (length bs), usRxCount := of_nat (length bs)\<rparr>\<rparr>"

lemma port_with_ok:
  assumes "length bs < 512"
  shows "rx_ok (g_tUart3 (port_with bs))" and "rx_fifo (g_tUart3 (port_with bs)) = bs @ []"
proof -
  have n: "unat (of_nat (length bs) :: u16) = length bs" using assms by (intro unat_of_nat_u16) simp
  show "rx_ok (g_tUart3 (port_with bs))"
    using assms n by (simp add: port_with_def uart_init_def rx_ok_def ring_ok_def UART_BUF_SIZE_def)
  have "map ((!) (bs @ replicate (512 - length bs) 0)) [0..<length bs] = bs"
    by (intro nth_equalityI) (simp_all add: nth_append)
  moreover have "map (\<lambda>i. (bs @ replicate (512 - length bs) 0) ! (i mod 512)) [0..<length bs] =
      map ((!) (bs @ replicate (512 - length bs) 0)) [0..<length bs]"
    using assms by (intro map_cong) simp_all
  ultimately show "rx_fifo (g_tUart3 (port_with bs)) = bs @ []"
    using assms n by (simp add: port_with_def uart_init_def rx_fifo_def ring_list_def)
qed

definition demo_frame :: "u8 list" where
  "demo_frame = [0xF3, 4, 0x12, 0x73]"

lemma demo_frame_crc: "CRC8_Table demo_frame (of_nat (length demo_frame - 1)) = Inr (last demo_frame)"
  by code_simp

lemma serial_frame_received_witness:
  "\<exists>p' s'. poll_serial (length demo_frame) (port_with demo_frame)
      \<lparr>g_SerialDat = replicate 32 0, g_Serial_Count = 0\<rparr> = Inr (p', s') \<and>
    rx_fifo (g_tUart3 p') = [] \<and> take (length demo_frame) (g_SerialDat s') = demo_frame \<and>
    g_Serial_Count s' = of_nat (length demo_frame) OR 0x80"
proof -
  have f: "good_frame demo_frame" "length demo_frame < 512" by (simp_all add: good_frame_def demo_frame_def)
  show ?thesis
    using serial_frame_received [OF f(1) _ _ port_with_ok [OF f(2)],
        of "\<lparr>g_SerialDat = replicate 32 0, g_Serial_Count = 0\<rparr>"] demo_frame_crc
    by simp
qed

text \<open>
  A frame that announces more than 32 bytes: the buffer index runs past the end, as the count is
  only reset after the byte has been stored.
\<close>

lemma serial_overlong_frame_faults:
  "g_Serial_Count s = 32 \<Longrightarrow> length (g_SerialDat s) = 32 \<Longrightarrow> ReceiveByte b s = Inl Out_Of_Bounds"
proof -
  assume a: "g_Serial_Count s = 32" "length (g_SerialDat s) = 32"
  have "(32 :: u8) AND 0x80 = 0" using count_bit7 [of 32] by simp
  with a show ?thesis by (simp add: ReceiveByte_def)
qed

end
