(* ===== verification/PowerBus.thy ===== *)
theory PowerBus
  imports AddrTable UartFifo
begin

text \<open>
  The card reader polling of HARDWARE/BSP/bsp_powerbus.c: \<open>ReadRunningData\<close> asks one reader for
  its card events and records them in its row of \<open>g_RUNDate\<close>; \<open>WriteRFIDData\<close> passes an answer
  of the server on to the reader it is for. Locals the C leaves uninitialised (\<open>TempBuff\<close> and
  \<open>uBuff\<close> of \<open>ReadRunningData\<close>) are parameters.
\<close>

section \<open>The code\<close>

definition UnregisteredBroadcast ::
  "nat \<Rightarrow> (nat \<Rightarrow> irq option) \<Rightarrow> uarts \<Rightarrow> fault + uarts" where
  "UnregisteredBroadcast fuel ev p =
     ebind (CRC8_Table [0xF3, 0x04, 0xA1, 0x00] (0x04 - 1)) (\<lambda>crc.
       comSendBuf fuel ev COM2 [0xF3, 0x04, 0xA1, crc] 0x04 p)"

text \<open>The row is filled from the event buffer, the acknowledgement built and sent.\<close>

definition record_event ::
  "can_env \<Rightarrow> u8 \<Rightarrow> u8 list \<Rightarrow> u8 list \<Rightarrow> 'd acu \<Rightarrow> fault + 'd acu" where
  "record_event E no TempBuff uBuff s =
     ebind (run_get s (unat no) 0) (\<lambda>f.
     ebind (arr_get TempBuff 0) (\<lambda>kind.
     ebind (if kind = 0x05 then run_set s (unat no) 0 (f OR 0x01)
            else if kind = 0x06 then run_set s (unat no) 0 (f OR 0x02) else Inr s) (\<lambda>s1.
     ebind (get_bytes TempBuff 1 9) (\<lambda>dat.
     ebind (run_put s1 (unat no) 5 dat) (\<lambda>s2.
     ebind (run_get s2 (unat no) 0) (\<lambda>g.
     ebind (put_bytes uBuff 0 (no # take 4 dat)) (\<lambda>ub.
     ebind (if g AND 0x03 = 0x01 then arr_set ub 5 0xAA
            else if g AND 0x03 = 0x02 then arr_set ub 5 0x55 else Inr ub) (\<lambda>ub1.
     ebind (Can_ReadPBus_Succeed E ub1 (can s2)) (\<lambda>b. Inr (s2\<lparr>can := b\<rparr>))))))))))"

definition ReadRunningData ::
  "nat \<Rightarrow> can_env \<Rightarrow> u8 list \<Rightarrow> u8 list \<Rightarrow> u8 \<Rightarrow> 'd acu \<Rightarrow> fault + 'd acu" where
  "ReadRunningData fuel E TempBuff uBuff no s =
     ebind (run_get s (unat no) 0) (\<lambda>f.
      if f AND 0x80 = 0x80 then
        ebind (run_get s (unat no) 1) (\<lambda>sn1.
        ebind (run_get s (unat no) 4) (\<lambda>sn4.
        ebind (if sn1 = 0 \<and> sn4 = 0 then run_set s (unat no) 0 0 else Inr s) (\<lambda>s1.
        ebind (Can_SendPBus_Com fuel E no TempBuff (can s1)) (\<lambda>(uDat, t1, b1).
        ebind (if uDat = 0x00 then Can_SendPBus_Com fuel E no t1 b1 else Inr (uDat, t1, b1)) (\<lambda>(uDat, t2, b2).
        let s2 = s1\<lparr>can := b2\<rparr> in
        ebind (run_get s2 (unat no) 0) (\<lambda>f.
        if uDat = 0x02 then run_set s2 (unat no) 0 (f AND NOT 0x23)
        else if uDat = 0x00 then run_set s2 (unat no) 0 (f OR 0x20)
        else record_event E no t2 uBuff s2))))))
      else Inr s)"

text \<open>The four kinds of messages of the server; \<open>W\<close> is \<open>_WriteDat\<close>.\<close>

definition write_card :: "can_env \<Rightarrow> u8 list \<Rightarrow> 'd acu \<Rightarrow> fault + 'd acu" where
  "write_card E W s =
     ebind (get_bytes W 0 11) (\<lambda>w.
     let no = w ! 9;
         TempBuff = [w ! 1, w ! 2, w ! 3, w ! 4, w ! 10, w ! 6, w ! 7, w ! 8, w ! 5, w ! 10] in
     ebind (run_get s (unat no) 0) (\<lambda>f.
     ebind (run_set s (unat no) 0 ((f AND 0x3F) OR 0x80)) (\<lambda>s1.
     ebind (Package_Send E 0x08 ([no] @ take 5 TempBuff @ [0, 0]) (can s1)) (\<lambda>b1.
     ebind (CRC8_Table TempBuff 10) (\<lambda>crc.
     ebind (Package_Send E 0x09 ([no] @ drop 5 TempBuff @ [crc, 0]) b1) (\<lambda>b2.
       Inr (s1\<lparr>can := b2\<rparr>)))))))"

definition write_card_error :: "can_env \<Rightarrow> u8 list \<Rightarrow> 'd acu \<Rightarrow> fault + 'd acu" where
  "write_card_error E W s =
     ebind (get_bytes W 1 7) (\<lambda>w.
     ebind (Package_Send E 0x13 (w @ [0]) (can s)) (\<lambda>b. Inr (s\<lparr>can := b\<rparr>)))"

definition write_reader_error :: "can_env \<Rightarrow> u8 list \<Rightarrow> 'd acu \<Rightarrow> fault + 'd acu" where
  "write_reader_error E W s =
     ebind (get_bytes W 1 5) (\<lambda>w.
     let no = w ! 0 in
     ebind (run_get s (unat no) 0) (\<lambda>f.
     ebind (run_set s (unat no) 0 ((f AND 0x3F) OR 0x40)) (\<lambda>s1.
     ebind (Package_Send E 0x11 (w @ [0, 0, 0]) (can s1)) (\<lambda>b. Inr (s1\<lparr>can := b\<rparr>)))))"

definition write_reader_ok :: "u8 list \<Rightarrow> 'd acu \<Rightarrow> fault + 'd acu" where
  "write_reader_ok W s =
     ebind (get_bytes W 5 3) (\<lambda>w.
     ebind (run_set s (unat (w ! 2)) 0 0x80) (\<lambda>s1.
       Inr (s1\<lparr>g_WaterCost := w ! 0, g_CostNum := w ! 1\<rparr>)))"

definition WriteRFIDData :: "can_env \<Rightarrow> u8 list \<Rightarrow> 'd acu \<Rightarrow> fault + 'd acu" where
  "WriteRFIDData E W s =
     ebind (arr_get W 0) (\<lambda>kind.
     ebind (if kind = 0xAA then write_card E W s
            else if kind = 0xBB then write_card_error E W s
            else if kind = 0x55 then write_reader_error E W s
            else if kind = 0xCC then write_reader_ok W s
            else Inr s) (\<lambda>s1.
     let (_, _, b) = any_loop 10 E zeros8 (can s1) in Inr (s1\<lparr>can := b\<rparr>)))"

section \<open>Rows of the reader table\<close>

definition rows_ok :: "'d acu \<Rightarrow> bool" where
  "rows_ok s \<longleftrightarrow> length (g_RUNDate s) = 81 \<and> (\<forall>row \<in> set (g_RUNDate s). length row = 14)"

lemma rows_ok_nth: "rows_ok s \<Longrightarrow> i \<le> 80 \<Longrightarrow> length (g_RUNDate s ! i) = 14"
  by (simp add: rows_ok_def)

lemma run_get_ok: "rows_ok s \<Longrightarrow> i \<le> 80 \<Longrightarrow> j < 14 \<Longrightarrow> run_get s i j = Inr (g_RUNDate s ! i ! j)"
  by (simp add: run_get_def rows_ok_nth) (simp add: rows_ok_def)

lemma run_set_ok:
  "rows_ok s \<Longrightarrow> i \<le> 80 \<Longrightarrow> j < 14 \<Longrightarrow>
   run_set s i j v = Inr (s\<lparr>g_RUNDate := (g_RUNDate s)[i := (g_RUNDate s ! i)[j := v]]\<rparr>)"
  by (simp add: run_set_def rows_ok_nth) (simp add: rows_ok_def)

lemma run_put_ok:
  "rows_ok s \<Longrightarrow> i \<le> 80 \<Longrightarrow> j + length vs \<le> 14 \<Longrightarrow>
   run_put s i j vs = Inr (s\<lparr>g_RUNDate := (g_RUNDate s)[i := overlay j vs (g_RUNDate s ! i)]\<rparr>)"
  using rows_ok_nth [of s i] by (simp add: run_put_def rows_ok_def put_bytes_ok overlay_def)

lemma rows_ok_update:
  "rows_ok s \<Longrightarrow> length row = 14 \<Longrightarrow> rows_ok (s\<lparr>g_RUNDate := (g_RUNDate s)[i := row]\<rparr>)"
  by (auto simp: rows_ok_def dest: subsetD [OF set_update_subset_insert])

lemma rows_ok_can [simp]: "rows_ok (s\<lparr>can := b\<rparr>) = rows_ok s"
  by (simp add: rows_ok_def)

lemma run_out_of_bounds:
  "length (g_RUNDate s) \<le> i \<Longrightarrow> run_get s i j = Inl Out_Of_Bounds"
  by (simp add: run_get_def)

section \<open>Recording an event\<close>

text \<open>The acknowledgement of an event, and the state of the bus after it.\<close>

definition ack_sent :: "u8 \<Rightarrow> u8 list \<Rightarrow> u8 \<Rightarrow> can_bus \<Rightarrow> can_bus" where
  "ack_sent no cno v b = frame_sent (0x200 OR ucast no) ([0x07, no] @ cno @ [v, 0]) b"

lemma Can_ReadPBus_Succeed_ok:
  "Can_ReadPBus_Succeed E [no, c1, c2, c3, c4, v, x, y] b = Inr (ack_sent no [c1, c2, c3, c4] v b)"
proof -
  have "get_bytes [no, c1, c2, c3, c4, v, x, y] 0 6 = Inr [no, c1, c2, c3, c4, v]"
    by (simp add: get_bytes_ok)
  moreover have "package_buf 0x06 ([no, c1, c2, c3, c4, v] @ [0, 0]) = Inr [0x07, no, c1, c2, c3, c4, v, 0]"
    by (simp add: package_buf_def fill_package_ok)
  ultimately show ?thesis
    using Package_Send_ok [of "0x06" "[no, c1, c2, c3, c4, v] @ [0, 0]" "[0x07, no, c1, c2, c3, c4, v, 0]" E b]
    by (simp add: Can_ReadPBus_Succeed_def send_id_def ack_sent_def)
qed

definition event_row :: "u8 list \<Rightarrow> u8 \<Rightarrow> u8 list \<Rightarrow> u8 list" where
  "event_row row flag event = (row ! 0 OR flag) # take 4 (drop 1 row) @ event"

lemma and_or_flags:
  "(f :: u8) AND 0x03 = 0 \<Longrightarrow> (f OR 1) AND 0x03 = 1" "(f :: u8) AND 0x03 = 0 \<Longrightarrow> (f OR 2) AND 0x03 = 2"
proof -
  have "(f OR g) AND 0x03 = (f AND 0x03) OR (g AND 0x03)" for f g :: u8
    by (rule bit_word_eqI) (auto simp: bit_and_iff bit_or_iff)
  then show "f AND 0x03 = 0 \<Longrightarrow> (f OR 1) AND 0x03 = 1" "f AND 0x03 = 0 \<Longrightarrow> (f OR 2) AND 0x03 = 2"
    by simp_all
qed

lemma length_8E:
  assumes "length xs = 8"
  obtains a b c d e f g h where "xs = [a, b, c, d, e, f, g, h]"
  using assms by (auto simp: length_Suc_conv numeral_eq_Suc)

lemma record_event_ok:
  assumes s: "rows_ok s" and no: "no \<le> 80" and flags: "g_RUNDate s ! no ! 0 AND 0x03 = 0"
    and u: "length uBuff = 8"
    and kind: "(kind, flag, v) = (0x05, 0x01, 0xAA) \<or> (kind, flag, v) = (0x06, 0x02, 0x55)"
    and t: "t = [kind, c1, c2, c3, c4, a1, a2, a3, chk, com]"
  shows "record_event E (of_nat no) t uBuff s =
    Inr (s\<lparr>g_RUNDate := (g_RUNDate s)[no := event_row (g_RUNDate s ! no) flag [c1, c2, c3, c4, a1, a2, a3, chk, com]],
           can := ack_sent (of_nat no) [c1, c2, c3, c4] v (can s)\<rparr>)"
proof -
  let ?row = "g_RUNDate s ! no" and ?dat = "[c1, c2, c3, c4, a1, a2, a3, chk, com]"
  have un: "unat (of_nat no :: u8) = no" using no by (intro unat_of_nat_u8) simp
  have len: "length ?row = 14" "length (g_RUNDate s) = 81" using s no by (simp_all add: rows_ok_nth rows_ok_def)
  have dat: "get_bytes t 1 9 = Inr ?dat" by (simp add: get_bytes_ok t)
  let ?s1 = "s\<lparr>g_RUNDate := (g_RUNDate s)[no := ?row[0 := ?row ! 0 OR flag]]\<rparr>"
  have s1: "rows_ok ?s1" "g_RUNDate ?s1 ! no = ?row[0 := ?row ! 0 OR flag]"
    using s no len by (simp_all add: rows_ok_update)
  have row2: "overlay 5 ?dat (?row[0 := ?row ! 0 OR flag]) = event_row ?row flag ?dat"
  proof (cases ?row)
    case Nil
    then show ?thesis using len by simp
  next
    case (Cons x xs)
    then show ?thesis using len by (simp add: overlay_def event_row_def)
  qed
  let ?s2 = "s\<lparr>g_RUNDate := (g_RUNDate s)[no := event_row ?row flag ?dat]\<rparr>"
  have put: "run_put ?s1 no 5 ?dat = Inr ?s2"
    using run_put_ok [OF s1(1) no, of 5 ?dat] s1(2) row2 by simp
  have s2: "rows_ok ?s2"
    using s len by (intro rows_ok_update) (simp_all add: event_row_def)
  have g: "g_RUNDate ?s2 ! no ! 0 AND 0x03 = flag"
    using and_or_flags flags kind len no by (auto simp: event_row_def)
  obtain x0 x1 x2 x3 x4 x5 x6 x7 where ub: "uBuff = [x0, x1, x2, x3, x4, x5, x6, x7]"
    using u by (rule length_8E)
  have ub1: "put_bytes uBuff 0 (of_nat no # take 4 ?dat) = Inr [of_nat no, c1, c2, c3, c4, x5, x6, x7]"
    by (simp add: put_bytes_ok ub)
  have ack: "Can_ReadPBus_Succeed E [of_nat no, c1, c2, c3, c4, v, x6, x7] (can ?s2) =
      Inr (ack_sent (of_nat no) [c1, c2, c3, c4] v (can ?s2))"
    by (rule Can_ReadPBus_Succeed_ok)
  have k: "arr_get t 0 = Inr kind" by (simp add: t)
  show ?thesis
    using kind run_get_ok [OF s no] run_set_ok [OF s no] run_get_ok [OF s2 no, of 0] k dat put ub1 ack g un
    by (auto simp: record_event_def)
qed

text \<open>A registered reader with a serial number and no event recorded.\<close>

definition reader_ready :: "'d acu \<Rightarrow> nat \<Rightarrow> bool" where
  "reader_ready s no \<longleftrightarrow> rows_ok s \<and> 1 \<le> no \<and> no \<le> 80 \<and>
     g_RUNDate s ! no ! 0 AND 0x80 = 0x80 \<and> g_RUNDate s ! no ! 0 AND 0x03 = 0 \<and>
     \<not> (g_RUNDate s ! no ! 1 = 0 \<and> g_RUNDate s ! no ! 4 = 0)"

lemma u8_index: "no \<le> 80 \<Longrightarrow> unat (of_nat no :: u8) = no"
  by (intro unat_of_nat_u8) simp

lemma u8_index_nonzero: "1 \<le> no \<Longrightarrow> no \<le> 80 \<Longrightarrow> (of_nat no :: u8) \<noteq> 0"
  using u8_index [of no] by auto

lemma ReadRunningData_ready:
  assumes "reader_ready s no"
    and "Can_SendPBus_Com fuel E (of_nat no) TempBuff (can s) = Inr (r, t1, b1)"
    and "(if r = 0x00 then Can_SendPBus_Com fuel E (of_nat no) t1 b1 else Inr (r, t1, b1)) = Inr (r2, t2, b2)"
  shows "ReadRunningData fuel E TempBuff uBuff (of_nat no) s =
    (let s2 = s\<lparr>can := b2\<rparr>; f = g_RUNDate s ! no ! 0 in
     if r2 = 0x02 then run_set s2 no 0 (f AND NOT 0x23)
     else if r2 = 0x00 then run_set s2 no 0 (f OR 0x20)
     else record_event E (of_nat no) t2 uBuff s2)"
proof -
  have s: "rows_ok s" "no \<le> 80" and f: "g_RUNDate s ! no ! 0 AND 0x80 = 0x80"
      "\<not> (g_RUNDate s ! no ! 1 = 0 \<and> g_RUNDate s ! no ! 4 = 0)"
    using assms(1) by (auto simp: reader_ready_def)
  have g: "run_get s no 0 = Inr (g_RUNDate s ! no ! 0)" "run_get s no 1 = Inr (g_RUNDate s ! no ! 1)"
      "run_get s no 4 = Inr (g_RUNDate s ! no ! 4)"
      "run_get (s\<lparr>can := b2\<rparr>) no 0 = Inr (g_RUNDate s ! no ! 0)"
    using run_get_ok [OF s] run_get_ok [of "s\<lparr>can := b2\<rparr>" no 0] s by simp_all
  have f2: "(g_RUNDate s ! no ! 1 = 0 \<and> g_RUNDate s ! no ! 4 = 0) = False" using f(2) by blast
  show ?thesis
    by (simp only: ReadRunningData_def u8_index [OF s(2)] g f(1) f2 ebind_Inr if_True if_False simp_thms
        assms(2,3) prod.case Let_def)
qed

section \<open>The answers of the server\<close>

definition card_buffer :: "u8 list \<Rightarrow> u8 list" where
  "card_buffer W = [W ! 1, W ! 2, W ! 3, W ! 4, W ! 10, W ! 6, W ! 7, W ! 8, W ! 5, W ! 10]"

definition card_sent :: "u8 list \<Rightarrow> can_bus \<Rightarrow> can_bus" where
  "card_sent W b =
     frame_sent (0x200 OR ucast (W ! 9)) [0x09, W ! 9, W ! 6, W ! 7, W ! 8, W ! 5, W ! 10, crc8_poly (card_buffer W)]
       (frame_sent (0x200 OR ucast (W ! 9)) [0x08, W ! 9, W ! 1, W ! 2, W ! 3, W ! 4, W ! 10, 0] b)"

lemma Package_Send_card:
  "Package_Send E 0x08 [no, a, b, c, d, e, 0, 0] bus =
     Inr (frame_sent (0x200 OR ucast no) [0x08, no, a, b, c, d, e, 0] bus)"
  "Package_Send E 0x09 [no, a, b, c, d, e, f, 0] bus =
     Inr (frame_sent (0x200 OR ucast no) [0x09, no, a, b, c, d, e, f] bus)"
  by (subst Package_Send_ok [where buf = "[0x08, no, a, b, c, d, e, 0]"],
      simp_all add: package_buf_def fill_package_ok send_id_def)
     (subst Package_Send_ok [where buf = "[0x09, no, a, b, c, d, e, f]"],
      simp_all add: package_buf_def fill_package_ok send_id_def)

lemma nth_take_11:
  "take 11 W ! 1 = W ! 1" "take 11 W ! 2 = W ! 2" "take 11 W ! 3 = W ! 3" "take 11 W ! 4 = W ! 4"
  "take 11 W ! 5 = W ! 5" "take 11 W ! 6 = W ! 6" "take 11 W ! 7 = W ! 7" "take 11 W ! 8 = W ! 8"
  "take 11 W ! 9 = W ! 9" "take 11 W ! 10 = W ! 10"
  by simp_all

lemma write_card_ok:
  assumes "rows_ok s" and "11 \<le> length W" and "unat (W ! 9) \<le> 80"
  shows "write_card E W s = Inr (s\<lparr>g_RUNDate := (g_RUNDate s)[unat (W ! 9) :=
      (g_RUNDate s ! unat (W ! 9))[0 := (g_RUNDate s ! unat (W ! 9) ! 0 AND 0x3F) OR 0x80]],
    can := card_sent W (can s)\<rparr>)"
proof -
  have g: "get_bytes W 0 11 = Inr (take 11 W)" using assms(2) by (simp add: get_bytes_ok)
  have crc: "CRC8_Table (card_buffer W) 10 = Inr (crc8_poly (card_buffer W))"
    by (simp add: CRC8_Table_eq card_buffer_def)
  show ?thesis
    using run_get_ok [OF assms(1,3), of 0] run_set_ok [OF assms(1,3), of 0] crc
    by (simp add: write_card_def g nth_take_11 Let_def card_buffer_def Package_Send_card card_sent_def)
qed

lemma any_loop_sent: "any_loop n E buf b = (r, buf', b') \<Longrightarrow> sent b' = sent b"
proof (induction n arbitrary: buf b)
  case (Suc n)
  then show ?case
    by (cases rule: Can_Receive_Msg_cases [of E b buf]) (auto split: if_splits)
qed simp

lemma WriteRFIDData_card:
  assumes "rows_ok s" and "11 \<le> length W" and "W ! 0 = 0xAA" and "unat (W ! 9) \<le> 80"
  shows "\<exists>s'. WriteRFIDData E W s = Inr s' \<and> sent (can s') = sent (card_sent W (can s)) \<and>
      g_RUNDate s' = (g_RUNDate s)[unat (W ! 9) :=
        (g_RUNDate s ! unat (W ! 9))[0 := (g_RUNDate s ! unat (W ! 9) ! 0 AND 0x3F) OR 0x80]]"
proof -
  obtain r buf b where loop: "any_loop 10 E zeros8 (card_sent W (can s)) = (r, buf, b)"
    by (metis prod_cases3)
  have "W \<noteq> []" using assms(2) by auto
  then show ?thesis
    using write_card_ok [OF assms(1,2,4), of E] loop any_loop_sent [OF loop] assms(3)
    by (simp add: WriteRFIDData_def)
qed

section \<open>Properties\<close>

lemma read_inserted:
  assumes "reader_ready s no" and "length TempBuff = 10" and "length uBuff = 8"
    and "frames_carry_data E" and "12 \<le> fuel" and "l + 2 \<le> fuel"
    and "first_awaited E 1 (of_nat no) (polls (can s)) 10 k m1"
    and "data_bytes (rx_Data m1) = [0x03, of_nat no, c1, c2, c3, c4, x1, x2]"
    and "\<forall>j < l. rx E (polls (can s) + k + 1 + j) = None"
    and "rx E (polls (can s) + k + 1 + l) = Some m2"
    and "data_bytes (rx_Data m2) = [0x04, of_nat no, a1, a2, a3, chk, com, x3]"
  shows "ReadRunningData fuel E TempBuff uBuff (of_nat no) s =
    Inr (s\<lparr>g_RUNDate := (g_RUNDate s)[no :=
             event_row (g_RUNDate s ! no) 0x01 [c1, c2, c3, c4, a1, a2, a3, chk, com]],
           can := ack_sent (of_nat no) [c1, c2, c3, c4] 0xAA
             ((poll_sent (of_nat no) (can s))\<lparr>polls := polls (can s) + k + l + 2\<rparr>)\<rparr>)"
proof -
  have no: "1 \<le> no" "no \<le> 80" "rows_ok s" "g_RUNDate s ! no ! 0 AND 0x03 = 0"
    using assms(1) by (simp_all add: reader_ready_def)
  have t: "10 \<le> length TempBuff" "drop 10 TempBuff = []" using assms(2) by simp_all
  let ?b = "(poll_sent (of_nat no) (can s))\<lparr>polls := polls (can s) + k + l + 2\<rparr>"
  have poll: "Can_SendPBus_Com fuel E (of_nat no) TempBuff (can s) =
      Inr (0xAA, [0x05, c1, c2, c3, c4, a1, a2, a3, chk, com], ?b)"
    using poll_inserted [OF assms(4) u8_index_nonzero [OF no(1,2)] t(1) assms(5-11)] t(2) by simp
  have "record_event E (of_nat no) [0x05, c1, c2, c3, c4, a1, a2, a3, chk, com] uBuff (s\<lparr>can := ?b\<rparr>) =
      Inr ((s\<lparr>can := ?b\<rparr>)\<lparr>g_RUNDate := (g_RUNDate s)[no :=
             event_row (g_RUNDate s ! no) 0x01 [c1, c2, c3, c4, a1, a2, a3, chk, com]],
           can := ack_sent (of_nat no) [c1, c2, c3, c4] 0xAA ?b\<rparr>)"
    using record_event_ok [of "s\<lparr>can := ?b\<rparr>" no uBuff "0x05" "0x01" "0xAA"] no assms(3) by simp
  then show ?thesis
    using ReadRunningData_ready [OF assms(1) poll, of "0xAA" _ ?b] by (simp add: Let_def)
qed

text \<open>
  C27. An insertion is recorded and acknowledged. When a registered reader answers the poll with
  both packets of an inserted card, its row gets the insertion flag and the nine bytes of the
  event (card number, balance, check byte, session byte), all other rows are untouched, and after
  the poll exactly one frame is sent, the acknowledgement with the card number and 0xAA.
\<close>

theorem ReadRunningData_inserted:
  assumes "reader_ready s no" and "length TempBuff = 10" and "length uBuff = 8"
    and "frames_carry_data E" and "12 \<le> fuel" and "l + 2 \<le> fuel"
    and "first_awaited E 1 (of_nat no) (polls (can s)) 10 k m1"
    and "data_bytes (rx_Data m1) = [0x03, of_nat no, c1, c2, c3, c4, x1, x2]"
    and "\<forall>j < l. rx E (polls (can s) + k + 1 + j) = None"
    and "rx E (polls (can s) + k + 1 + l) = Some m2"
    and "data_bytes (rx_Data m2) = [0x04, of_nat no, a1, a2, a3, chk, com, x3]"
  shows "ReadRunningData fuel E TempBuff uBuff (of_nat no) s =
    Inr (s\<lparr>g_RUNDate := (g_RUNDate s)[no :=
             event_row (g_RUNDate s ! no) 0x01 [c1, c2, c3, c4, a1, a2, a3, chk, com]],
           can := ack_sent (of_nat no) [c1, c2, c3, c4] 0xAA
             ((poll_sent (of_nat no) (can s))\<lparr>polls := polls (can s) + k + l + 2\<rparr>)\<rparr>)"
  using assms by (rule read_inserted)

text \<open>
  A removal takes two polls. The first poll of a removal returns nothing but leaves the card
  number in the event buffer; \<open>ReadRunningData\<close> polls again, and when packet 2 of the removal is
  then the first frame of this reader, the removal is recorded in its row with the card number of
  the first poll and acknowledged with 0x55.
\<close>

theorem ReadRunningData_removed:
  assumes "reader_ready s no" and "length TempBuff = 10" and "length uBuff = 8"
    and "frames_carry_data E" and "12 \<le> fuel"
    and "first_awaited E 1 (of_nat no) (polls (can s)) 10 k m1"
    and "data_bytes (rx_Data m1) = [0x05, of_nat no, c1, c2, c3, c4, x1, x2]"
    and "first_awaited E 1 (of_nat no) (polls (can s) + k + 1) 10 l m2"
    and "data_bytes (rx_Data m2) = [0x06, of_nat no, a1, a2, a3, chk, com, x3]"
  shows "\<exists>s'. ReadRunningData fuel E TempBuff uBuff (of_nat no) s = Inr s' \<and>
    g_RUNDate s' = (g_RUNDate s)[no := event_row (g_RUNDate s ! no) 0x02 [c1, c2, c3, c4, a1, a2, a3, chk, com]] \<and>
    sent (can s') = sent (ack_sent (of_nat no) [c1, c2, c3, c4] 0x55
      (poll_sent (of_nat no) (poll_sent (of_nat no) (can s))))"
proof -
  have no: "1 \<le> no" "no \<le> 80" "rows_ok s" "g_RUNDate s ! no ! 0 AND 0x03 = 0"
    using assms(1) by (simp_all add: reader_ready_def)
  note nz = u8_index_nonzero [OF no(1,2)]
  have t: "10 \<le> length TempBuff" using assms(2) by simp
  let ?b1 = "(poll_sent (of_nat no) (can s))\<lparr>polls := polls (can s) + k + 1\<rparr>"
  let ?b2 = "(poll_sent (of_nat no) ?b1)\<lparr>polls := polls ?b1 + l + 1\<rparr>"
  let ?t1 = "[0x06, c1, c2, c3, c4] @ drop 5 TempBuff" and ?t2 = "[0x06, c1, c2, c3, c4, a1, a2, a3, chk, com]"
  have poll1: "Can_SendPBus_Com fuel E (of_nat no) TempBuff (can s) = Inr (0x00, ?t1, ?b1)"
    using poll_removal_packet1 [OF assms(4) nz t assms(5,6,7)] by simp
  have "Can_SendPBus_Com fuel E (of_nat no) ?t1 ?b1 = Inr (0xAA, ?t2, ?b2)"
    using poll_packet2 [OF assms(4) nz _ assms(5), of ?t1 ?b1 l m2] assms(2,8,9) by simp
  then have poll2: "(if (0x00 :: u8) = 0x00 then Can_SendPBus_Com fuel E (of_nat no) ?t1 ?b1
      else Inr (0x00, ?t1, ?b1)) = Inr (0xAA, ?t2, ?b2)" by simp
  have "record_event E (of_nat no) ?t2 uBuff (s\<lparr>can := ?b2\<rparr>) =
      Inr ((s\<lparr>can := ?b2\<rparr>)\<lparr>g_RUNDate := (g_RUNDate s)[no :=
             event_row (g_RUNDate s ! no) 0x02 [c1, c2, c3, c4, a1, a2, a3, chk, com]],
           can := ack_sent (of_nat no) [c1, c2, c3, c4] 0x55 ?b2\<rparr>)"
    using record_event_ok [of "s\<lparr>can := ?b2\<rparr>" no uBuff "0x06" "0x02" "0x55"] no assms(3) by simp
  with ReadRunningData_ready [OF assms(1) poll1 poll2, of uBuff]
  show ?thesis by (simp add: Let_def ack_sent_def poll_sent_def frame_sent_def)
qed

text \<open>
  A card answer of the server reaches its reader, or leaves the table. For a logical address
  up to 80 the reader is marked as working, every other row is unchanged, and exactly two frames
  are sent to it: the card number and session byte, then the new balance, check byte, session byte
  and the CRC-8 over both. The address is not checked: a larger one accesses \<open>g_RUNDate\<close> out of
  bounds.
\<close>

theorem WriteRFIDData_card_answer:
  assumes "rows_ok s" and "11 \<le> length W" and "W ! 0 = 0xAA"
  shows "if unat (W ! 9) \<le> 80
    then \<exists>s'. WriteRFIDData E W s = Inr s' \<and> sent (can s') = sent (card_sent W (can s)) \<and>
      g_RUNDate s' = (g_RUNDate s)[unat (W ! 9) :=
        (g_RUNDate s ! unat (W ! 9))[0 := (g_RUNDate s ! unat (W ! 9) ! 0 AND 0x3F) OR 0x80]]
    else WriteRFIDData E W s = Inl Out_Of_Bounds"
proof (cases "unat (W ! 9) \<le> 80")
  case True
  with WriteRFIDData_card [OF assms True, of E] show ?thesis by simp
next
  case False
  then have "run_get s (unat (W ! 9)) 0 = Inl Out_Of_Bounds"
    using assms(1) by (intro run_out_of_bounds) (simp add: rows_ok_def)
  moreover have "W \<noteq> []" using assms(2) by auto
  moreover have "get_bytes W 0 11 = Inr (take 11 W)" using assms(2) by (simp add: get_bytes_ok)
  ultimately show ?thesis
    using False assms(3) by (simp add: WriteRFIDData_def write_card_def nth_take_11 Let_def)
qed

section \<open>Witnesses\<close>

definition reader_7_acu :: "at24 acu" where
  "reader_7_acu = (start_acu fresh_bus)\<lparr>g_RUNDate :=
     (replicate 81 (replicate 14 0))[7 := [0x80, 1, 2, 3, 4, 0, 0, 0, 0, 0, 0, 0, 0, 0]]\<rparr>"

lemma reader_7_acu_sel [simp]:
  "can reader_7_acu = quiet_bus"
  "g_RUNDate reader_7_acu = (replicate 81 (replicate 14 0))[7 := [0x80, 1, 2, 3, 4, 0, 0, 0, 0, 0, 0, 0, 0, 0]]"
  by (simp_all add: reader_7_acu_def)

lemma reader_7_rows: "rows_ok reader_7_acu"
  by (auto simp: rows_ok_def dest: subsetD [OF set_update_subset_insert])

lemma reader_7_ready: "reader_ready reader_7_acu 7"
proof -
  have "(0x80 :: u8) AND 0x80 = 0x80" "(0x80 :: u8) AND 0x03 = 0" by simp_all
  then show ?thesis using reader_7_rows by (simp add: reader_ready_def)
qed

lemma ReadRunningData_inserted_witness:
  "ReadRunningData 12 (reader_env (card_at 0x03)) (replicate 10 0) (replicate 8 0) (of_nat 7) reader_7_acu =
    Inr (reader_7_acu\<lparr>g_RUNDate := (g_RUNDate reader_7_acu)[7 :=
             event_row (g_RUNDate reader_7_acu ! 7) 0x01 [0x11, 0x22, 0x33, 0x44, 0x00, 0x01, 0x90, 0x5A, 0x42]],
           can := ack_sent (of_nat 7) [0x11, 0x22, 0x33, 0x44] 0xAA
             ((poll_sent (of_nat 7) (can reader_7_acu))\<lparr>polls := polls (can reader_7_acu) + 1 + 2 + 2\<rparr>)\<rparr>)"
  by (rule ReadRunningData_inserted [OF reader_7_ready, where
        ?m1.0 = "\<lparr>rx_DLC = 8, rx_Data = Can_Data 0x03 7 0x11 0x22 0x33 0x44 0 0\<rparr>" and
        ?m2.0 = "\<lparr>rx_DLC = 8, rx_Data = Can_Data 0x04 7 0x00 0x01 0x90 0x5A 0x42 0\<rparr>"])
     (simp_all add: card_at_first' card_at_def)

lemma ReadRunningData_removed_witness:
  "\<exists>s'. ReadRunningData 12 (reader_env (card_at 0x05)) (replicate 10 0) (replicate 8 0) (of_nat 7) reader_7_acu =
      Inr s' \<and>
    g_RUNDate s' = (g_RUNDate reader_7_acu)[7 :=
      event_row (g_RUNDate reader_7_acu ! 7) 0x02 [0x11, 0x22, 0x33, 0x44, 0x00, 0x01, 0x90, 0x5A, 0x42]] \<and>
    sent (can s') = sent (ack_sent (of_nat 7) [0x11, 0x22, 0x33, 0x44] 0x55
      (poll_sent (of_nat 7) (poll_sent (of_nat 7) (can reader_7_acu))))"
proof (rule ReadRunningData_removed [OF reader_7_ready])
  show "first_awaited (reader_env (card_at 0x05)) 1 (of_nat 7) (polls (can reader_7_acu)) 10 1
      \<lparr>rx_DLC = 8, rx_Data = Can_Data 0x05 7 0x11 0x22 0x33 0x44 0 0\<rparr>"
    using card_at_first by simp
  show "first_awaited (reader_env (card_at 0x05)) 1 (of_nat 7) (polls (can reader_7_acu) + 1 + 1) 10 2
      \<lparr>rx_DLC = 8, rx_Data = Can_Data 0x06 7 0x00 0x01 0x90 0x5A 0x42 0\<rparr>"
    by (auto simp: first_awaited_def awaited_def card_at_def less_2_cases_iff)
qed simp_all

lemma WriteRFIDData_card_answer_witness:
  "let W = [0xAA, 0x11, 0x22, 0x33, 0x44, 0x5A, 0x00, 0x01, 0x90, 7, 0x42] in
   if unat (W ! 9) \<le> 80
   then \<exists>s'. WriteRFIDData (reader_env (\<lambda>n. None)) W reader_7_acu = Inr s' \<and>
     sent (can s') = sent (card_sent W (can reader_7_acu)) \<and>
     g_RUNDate s' = (g_RUNDate reader_7_acu)[unat (W ! 9) := (g_RUNDate reader_7_acu ! unat (W ! 9))
       [0 := (g_RUNDate reader_7_acu ! unat (W ! 9) ! 0 AND 0x3F) OR 0x80]]
   else WriteRFIDData (reader_env (\<lambda>n. None)) W reader_7_acu = Inl Out_Of_Bounds"
  unfolding Let_def by (rule WriteRFIDData_card_answer [OF reader_7_rows]) simp_all

end
