(* ===== verification/Malloc.thy ===== *)
theory Malloc
  imports ACU_Prelude
begin

text \<open>
  The block allocator of MALLOC/malloc.c. A pool is cut into blocks of \<open>memblksize\<close>
  bytes; \<open>memmap\<close> holds one 16-bit cell per block, 0 for a free block and the length of
  the allocation (in blocks) for every block of an allocation. The C keeps the pools in
  arrays indexed by \<open>memx\<close>; here a pool is one record, and each function takes the record
  that its \<open>memx\<close> selects.
\<close>

section \<open>The code\<close>

record mem_pool =
  memtblsize :: nat
  memblksize :: nat
  memsize :: nat
  memaddr :: u32        \<comment> \<open>the address of \<open>membase\<close>\<close>
  membase :: "u8 list"
  memmap :: "u16 list"
  memrdy :: u8

text \<open>The loops \<open>while(n--)*xdes++=*xsrc++\<close> and \<open>while(count--)*xs++=c\<close> on a memory,
  the pointers being indices into it.\<close>

fun mymemcpy :: "u8 list \<Rightarrow> nat \<Rightarrow> nat \<Rightarrow> nat \<Rightarrow> fault + u8 list" where
  "mymemcpy m des src 0 = Inr m"
| "mymemcpy m des src (Suc n) =
     ebind (arr_get m src) (\<lambda>b. ebind (arr_set m des b) (\<lambda>m'. mymemcpy m' (Suc des) (Suc src) n))"

fun mymemset :: "'a list \<Rightarrow> nat \<Rightarrow> 'a \<Rightarrow> nat \<Rightarrow> fault + 'a list" where
  "mymemset m s c 0 = Inr m"
| "mymemset m s c (Suc count) = ebind (arr_set m s c) (\<lambda>m'. mymemset m' (Suc s) c count)"

definition my_mem_init :: "mem_pool \<Rightarrow> fault + mem_pool" where
  "my_mem_init p =
     ebind (mymemset (memmap p) 0 0 (memtblsize p)) (\<lambda>mp.
     ebind (mymemset (membase p) 0 0 (memsize p)) (\<lambda>mb.
       Inr (p\<lparr>memmap := mp, membase := mb, memrdy := 1\<rparr>)))"

definition my_mem_perused :: "mem_pool \<Rightarrow> u8" where
  "my_mem_perused p =
     (let used = length (filter (\<lambda>c. c \<noteq> 0) (take (memtblsize p) (memmap p)))
      in of_nat ((used * 100) div memtblsize p))"

text \<open>The search of \<open>my_mem_malloc\<close>, from the top of the table down; the first argument
  after the table is \<open>offset + 1\<close>, so 0 is the end of the loop.\<close>

fun malloc_search :: "u16 list \<Rightarrow> nat \<Rightarrow> u16 \<Rightarrow> u16 \<Rightarrow> nat option" where
  "malloc_search mp 0 cmemb nmemb = None"
| "malloc_search mp (Suc offset) cmemb nmemb =
     (let cmemb' = (if mp ! offset = 0 then cmemb + 1 else 0)
      in if cmemb' = nmemb then Some offset else malloc_search mp offset cmemb' nmemb)"

text \<open>The loops that mark or clear the cells \<open>i = 0 .. nmemb - 1\<close> from \<open>offset\<close> on.\<close>

definition mark_blocks :: "u16 list \<Rightarrow> nat \<Rightarrow> u16 \<Rightarrow> u16 \<Rightarrow> fault + u16 list" where
  "mark_blocks mp offset nmemb v = mymemset mp offset v (unat nmemb)"

definition blocks_needed :: "mem_pool \<Rightarrow> u32 \<Rightarrow> u16" where
  "blocks_needed p sz =
     (let nmemb = of_nat (unat sz div memblksize p)
      in if unat sz mod memblksize p \<noteq> 0 then nmemb + 1 else nmemb)"

definition my_mem_malloc :: "mem_pool \<Rightarrow> u32 \<Rightarrow> fault + (u32 \<times> mem_pool)" where
  "my_mem_malloc p0 sz =
     ebind (if memrdy p0 = 0 then my_mem_init p0 else Inr p0) (\<lambda>p.
       if sz = 0 then Inr (0xFFFFFFFF, p)
       else
         let nmemb = blocks_needed p sz in
         case malloc_search (memmap p) (memtblsize p) 0 nmemb of
           None \<Rightarrow> Inr (0xFFFFFFFF, p)
         | Some offset \<Rightarrow>
             ebind (mark_blocks (memmap p) offset nmemb nmemb) (\<lambda>mp.
               Inr (of_nat (offset * memblksize p), p\<lparr>memmap := mp\<rparr>)))"

definition my_mem_free :: "mem_pool \<Rightarrow> u32 \<Rightarrow> fault + (u8 \<times> mem_pool)" where
  "my_mem_free p offset =
     (if memrdy p = 0 then ebind (my_mem_init p) (\<lambda>p'. Inr (1, p'))
      else if unat offset < memsize p then
        let index = unat offset div memblksize p in
        ebind (arr_get (memmap p) index) (\<lambda>nmemb.
        ebind (mark_blocks (memmap p) index nmemb 0) (\<lambda>mp.
          Inr (0, p\<lparr>memmap := mp\<rparr>)))
      else Inr (2, p))"

definition myfree :: "mem_pool \<Rightarrow> u32 \<Rightarrow> fault + mem_pool" where
  "myfree p ptr =
     (if ptr = 0 then Inr p
      else ebind (my_mem_free p (ptr - memaddr p)) (\<lambda>(_, p'). Inr p'))"

definition mymalloc :: "mem_pool \<Rightarrow> u32 \<Rightarrow> fault + (u32 \<times> mem_pool)" where
  "mymalloc p sz =
     ebind (my_mem_malloc p sz) (\<lambda>(offset, p').
       if offset = 0xFFFFFFFF then Inr (0, p') else Inr (memaddr p' + offset, p'))"

definition myrealloc :: "mem_pool \<Rightarrow> u32 \<Rightarrow> u32 \<Rightarrow> fault + (u32 \<times> mem_pool)" where
  "myrealloc p ptr sz =
     ebind (my_mem_malloc p sz) (\<lambda>(offset, p').
       if offset = 0xFFFFFFFF then Inr (0, p')
       else
         ebind (mymemcpy (membase p') (unat offset) (unat (ptr - memaddr p')) (unat sz)) (\<lambda>mb.
         ebind (myfree (p'\<lparr>membase := mb\<rparr>) ptr) (\<lambda>p''.
           Inr (memaddr p'' + offset, p''))))"

text \<open>The two pools the file declares, before \<open>my_mem_init\<close>: 40 KiB of internal RAM
  (\<open>SRAMIN\<close>) and 192 KiB of external RAM (\<open>SRAMEX\<close>), in blocks of 32 bytes.
  The address of the internal pool is the linker's choice and a parameter.\<close>

definition sramin_pool :: "u32 \<Rightarrow> mem_pool" where
  "sramin_pool base =
     \<lparr>memtblsize = 1280, memblksize = 32, memsize = 40960, memaddr = base,
      membase = replicate 40960 0, memmap = replicate 1280 0, memrdy = 0\<rparr>"

definition sramex_pool :: mem_pool where
  "sramex_pool =
     \<lparr>memtblsize = 6144, memblksize = 32, memsize = 196608, memaddr = 0x68000000,
      membase = replicate 196608 0, memmap = replicate 6144 0, memrdy = 0\<rparr>"

section \<open>The loops\<close>

lemma mymemset_eq:
  "s + n \<le> length m \<Longrightarrow>
   mymemset m s c n = Inr (take s m @ replicate n c @ drop (s + n) m)"
proof (induction m s c n rule: mymemset.induct)
  case (1 m s c)
  then show ?case by simp
next
  case (2 m s c n)
  then have s: "s < length m" and IH:
    "mymemset (m[s := c]) (Suc s) c n =
       Inr (take (Suc s) (m[s := c]) @ replicate n c @ drop (Suc s + n) (m[s := c]))"
    by simp_all
  from s have "take (Suc s) (m[s := c]) = take s m @ [c]"
    by (simp add: take_Suc_conv_app_nth)
  with s IH show ?case by simp
qed

lemma mymemset_oob: "n > 0 \<Longrightarrow> length m < s + n \<Longrightarrow> mymemset m s c n = Inl Out_Of_Bounds"
proof (induction m s c n rule: mymemset.induct)
  case (2 m s c n)
  show ?case
  proof (cases "s < length m")
    case True
    with 2 show ?thesis by (cases n) simp_all
  qed simp
qed simp

lemma length_mymemset: "mymemset m s c n = Inr m' \<Longrightarrow> length m' = length m"
  by (induction m s c n arbitrary: m' rule: mymemset.induct)
     (auto simp: ebind_eq_Inr_iff arr_set_eq_Inr_iff)

section \<open>The block table: well-formedness and the allocations it records\<close>

text \<open>A table is well formed when it is a sequence of free cells and of allocations of
  \<open>n > 0\<close> blocks, each recorded as \<open>n\<close> cells of value \<open>n\<close>.\<close>

inductive wf_map :: "u16 list \<Rightarrow> bool" where
  wf_nil: "wf_map []"
| wf_free: "wf_map xs \<Longrightarrow> wf_map (0 # xs)"
| wf_used: "n \<noteq> 0 \<Longrightarrow> wf_map xs \<Longrightarrow> wf_map (replicate (unat n) n @ xs)"

lemma wf_map_append: "wf_map xs \<Longrightarrow> wf_map ys \<Longrightarrow> wf_map (xs @ ys)"
  by (induction rule: wf_map.induct) (simp_all add: wf_map.intros)

lemma wf_map_replicate_0: "wf_map (replicate k 0)"
  by (induction k) (simp_all add: wf_map.intros)

lemma append_0_after_used:
  assumes "replicate (unat n) n @ rs = xs @ 0 # ys" and "n \<noteq> 0"
  obtains xs' where "xs = replicate (unat n) n @ xs'" and "rs = xs' @ 0 # ys"
proof -
  from assms(1) consider us where "replicate (unat n) n = xs @ us" "us @ rs = 0 # ys"
    | us where "replicate (unat n) n @ us = xs" "rs = us @ 0 # ys"
    by (auto simp: append_eq_append_conv2)
  then show thesis
  proof cases
    case 1
    have "us = []"
    proof (rule ccontr)
      assume "us \<noteq> []"
      with 1(2) have "0 \<in> set us" by (cases us) auto
      with 1(1) have "0 \<in> set (replicate (unat n) n)" by simp
      with assms(2) show False by simp
    qed
    with 1 that [of "[]"] show thesis by simp
  next
    case 2
    with that [of us] show thesis by simp
  qed
qed

lemma wf_map_split_0: "wf_map m \<Longrightarrow> m = xs @ 0 # ys \<Longrightarrow> wf_map xs \<and> wf_map ys"
proof (induction arbitrary: xs rule: wf_map.induct)
  case wf_nil
  then show ?case by simp
next
  case (wf_free rs)
  then show ?case by (cases xs) (auto intro: wf_map.intros)
next
  case (wf_used n rs)
  then obtain xs' where "xs = replicate (unat n) n @ xs'" and "rs = xs' @ 0 # ys"
    by (auto elim: append_0_after_used)
  with wf_used show ?case by (auto intro: wf_map.intros)
qed

lemma wf_map_split_free:
  "wf_map (xs @ replicate k 0 @ ys) \<Longrightarrow> 0 < k \<Longrightarrow> wf_map xs \<and> wf_map ys"
proof (induction k arbitrary: ys)
  case 0
  then show ?case by simp
next
  case (Suc k)
  then have "wf_map xs \<and> wf_map (replicate k 0 @ ys)"
    by (auto dest: wf_map_split_0)
  moreover have "wf_map ys" if "wf_map (replicate k 0 @ ys)" for k
    using that
  proof (induction k)
    case (Suc k)
    then show ?case using wf_map_split_0 [of "0 # replicate k 0 @ ys" "[]"] by simp
  qed simp
  ultimately show ?case by auto
qed

text \<open>The allocations of a table, as (first block, number of blocks), from block \<open>o\<close> on.\<close>

function blocks :: "nat \<Rightarrow> u16 list \<Rightarrow> (nat \<times> nat) list" where
  "blocks k [] = []"
| "blocks k (n # xs) =
     (if n = 0 then blocks (Suc k) xs
      else (k, unat n) # blocks (k + unat n) (drop (unat n - 1) xs))"
  by pat_completeness auto
termination by (relation "measure (length \<circ> snd)") auto

lemma unat_pos_iff: "0 < unat n \<longleftrightarrow> n \<noteq> (0 :: u16)"
  by (simp add: unat_gt_0)

lemma blocks_used:
  assumes "n \<noteq> 0"
  shows "blocks k (replicate (unat n) n @ xs) = (k, unat n) # blocks (k + unat n) xs"
proof -
  from assms obtain j where j: "unat n = Suc j"
    by (metis not0_implies_Suc unat_eq_zero)
  with assms show ?thesis by simp
qed

lemma blocks_append:
  "wf_map xs \<Longrightarrow> blocks k (xs @ ys) = blocks k xs @ blocks (k + length xs) ys"
proof (induction arbitrary: k rule: wf_map.induct)
  case (wf_used n xs)
  have "blocks k ((replicate (unat n) n @ xs) @ ys) =
        (k, unat n) # blocks (k + unat n) (xs @ ys)"
    using blocks_used [OF wf_used.hyps(1), of k "xs @ ys"] by simp
  with wf_used show ?case by (simp add: blocks_used ac_simps)
qed simp_all

lemma blocks_replicate_0: "blocks k (replicate n 0 @ ys) = blocks (k + n) ys"
  by (induction n arbitrary: k) simp_all

lemma blocks_bounds:
  "wf_map xs \<Longrightarrow> (s, l) \<in> set (blocks k xs) \<Longrightarrow> k \<le> s \<and> s + l \<le> k + length xs \<and> 0 < l"
proof (induction arbitrary: k rule: wf_map.induct)
  case (wf_used n xs)
  then have "(s, l) = (k, unat n) \<or> (s, l) \<in> set (blocks (k + unat n) xs)"
    by (simp add: blocks_used)
  with wf_used show ?case by (fastforce simp: unat_pos_iff)
qed fastforce+

lemma blocks_split:
  "wf_map m \<Longrightarrow> (s, l) \<in> set (blocks k m) \<Longrightarrow>
   \<exists>n xs ys. m = xs @ replicate l n @ ys \<and> wf_map xs \<and> wf_map ys \<and> s = k + length xs \<and>
     unat n = l \<and> n \<noteq> 0"
proof (induction arbitrary: k rule: wf_map.induct)
  case wf_nil
  then show ?case by simp
next
  case (wf_free zs)
  then obtain n xs ys where "zs = xs @ replicate l n @ ys" "wf_map xs" "wf_map ys"
    "s = Suc k + length xs" "unat n = l" "n \<noteq> 0" by fastforce
  then show ?case by (intro exI [of _ n] exI [of _ "0 # xs"] exI [of _ ys]) (auto intro: wf_map.wf_free)
next
  case (wf_used n zs)
  show ?case
  proof (cases "(s, l) = (k, unat n)")
    case True
    with wf_used show ?thesis
      by (intro exI [of _ n] exI [of _ "[]"] exI [of _ zs]) (auto intro: wf_map.wf_nil)
  next
    case False
    with wf_used.hyps wf_used.prems have "(s, l) \<in> set (blocks (k + unat n) zs)"
      by (auto simp: blocks_used)
    with wf_used.IH obtain n' xs ys where "zs = xs @ replicate l n' @ ys" "wf_map xs" "wf_map ys"
      "s = k + unat n + length xs" "unat n' = l" "n' \<noteq> 0" by meson
    with wf_used.hyps show ?thesis
      by (intro exI [of _ n'] exI [of _ "replicate (unat n) n @ xs"] exI [of _ ys])
         (auto intro: wf_map.wf_used)
  qed
qed

section \<open>The search for a free run\<close>

definition free_run :: "u16 list \<Rightarrow> nat \<Rightarrow> nat \<Rightarrow> bool" where
  "free_run mp k n \<longleftrightarrow> k + n \<le> length mp \<and> (\<forall>i < n. mp ! (k + i) = 0)"

lemma free_run_split:
  "free_run mp k n \<Longrightarrow> mp = take k mp @ replicate n 0 @ drop (k + n) mp"
proof -
  assume *: "free_run mp k n"
  have "take n (drop k mp) = replicate n 0"
    using * by (intro nth_equalityI) (auto simp: free_run_def)
  then have "drop k mp = replicate n 0 @ drop (k + n) mp"
    by (metis append_take_drop_id drop_drop add.commute)
  then show ?thesis by (metis append_take_drop_id)
qed

lemma malloc_search_sound:
  assumes "malloc_search mp k c n = Some s" and "k + unat c \<le> length mp" and "c < n"
    and "\<forall>i < unat c. mp ! (k + i) = 0"
  shows "s < k \<and> free_run mp s (unat n)"
  using assms
proof (induction mp k c n rule: malloc_search.induct)
  case (1 mp c n)
  then show ?case by simp
next
  case (2 mp off c n)
  from \<open>c < n\<close> have Suc: "unat (c + 1) = Suc (unat c)"
    by (rule unat_Suc_less)
  show ?case
  proof (cases "mp ! off = 0")
    case True
    have zeros: "\<forall>i < unat (c + 1). mp ! (off + i) = 0"
    proof (intro allI impI)
      fix i assume "i < unat (c + 1)"
      then show "mp ! (off + i) = 0"
        using True 2(5) Suc by (cases i) auto
    qed
    show ?thesis
    proof (cases "c + 1 = n")
      case True
      with 2(2) \<open>mp ! off = 0\<close> have "s = off" by simp
      with 2(3) zeros Suc True show ?thesis by (auto simp: free_run_def)
    next
      case False
      with \<open>c < n\<close> have "c + 1 < n"
        by (simp add: inc_le order.not_eq_order_implies_strict)
      with 2 False zeros \<open>mp ! off = 0\<close> Suc show ?thesis by (auto simp: Let_def)
    qed
  next
    case False
    moreover from \<open>c < n\<close> have "n \<noteq> 0" by auto
    ultimately show ?thesis using 2 by (auto simp: Let_def word_gt_0 less_Suc_eq split: if_splits)
  qed
qed

lemma malloc_search_complete:
  assumes "malloc_search mp k c n = r" and "c < n" and "k + unat c \<le> length mp"
    and "s' + unat n \<le> k + unat c" and "free_run mp s' (unat n)"
  shows "\<exists>s. r = Some s \<and> s' \<le> s"
  using assms
proof (induction mp k c n rule: malloc_search.induct)
  case (1 mp c n)
  then show ?case by (simp add: word_less_nat_alt)
next
  case (2 mp off c n)
  from \<open>c < n\<close> have Suc: "unat (c + 1) = Suc (unat c)"
    by (rule unat_Suc_less)
  show ?case
  proof (cases "mp ! off = 0")
    case True
    show ?thesis
    proof (cases "c + 1 = n")
      case True
      with 2 \<open>mp ! off = 0\<close> Suc show ?thesis by auto
    next
      case False
      with \<open>c < n\<close> have "c + 1 < n"
        by (simp add: inc_le order.not_eq_order_implies_strict)
      with 2 False \<open>mp ! off = 0\<close> Suc show ?thesis by (auto simp: Let_def)
    qed
  next
    case False
    have "n \<noteq> 0" using \<open>c < n\<close> by auto
    have "s' + unat n \<le> off"
    proof (rule ccontr)
      assume "\<not> s' + unat n \<le> off"
      with 2(5) \<open>c < n\<close> have "s' \<le> off" and "off - s' < unat n"
        by (auto simp: word_less_nat_alt)
      with 2(6) have "mp ! (s' + (off - s')) = 0" unfolding free_run_def by blast
      with False \<open>s' \<le> off\<close> show False by simp
    qed
    with 2 False \<open>n \<noteq> 0\<close> show ?thesis by (auto simp: Let_def word_gt_0)
  qed
qed

section \<open>The allocator keeps its pool well formed\<close>

definition pool_ok :: "mem_pool \<Rightarrow> bool" where
  "pool_ok p \<longleftrightarrow> 0 < memblksize p \<and> memtblsize p < 65536 \<and>
     memsize p = memtblsize p * memblksize p \<and> memsize p < 2 ^ 32 \<and>
     length (memmap p) = memtblsize p \<and> length (membase p) = memsize p \<and> wf_map (memmap p)"

definition allocations :: "mem_pool \<Rightarrow> (nat \<times> nat) list" where
  "allocations p = blocks 0 (memmap p)"

definition ceil_blocks :: "mem_pool \<Rightarrow> u32 \<Rightarrow> nat" where
  "ceil_blocks p sz =
     unat sz div memblksize p + (if unat sz mod memblksize p = 0 then 0 else 1)"

lemma blocks_needed_eq:
  assumes "0 < memblksize p" and "unat sz \<le> 65535 * memblksize p"
  shows "unat (blocks_needed p sz) = ceil_blocks p sz"
proof -
  let ?b = "memblksize p" and ?s = "unat sz"
  have q: "?s div ?b \<le> 65535"
    using assms by (metis div_le_mono nonzero_mult_div_cancel_right less_numeral_extra(3))
  show ?thesis
  proof (cases "?s mod ?b = 0")
    case True
    with q show ?thesis by (simp add: blocks_needed_def ceil_blocks_def unat_of_nat_u16)
  next
    case False
    have "?s div ?b \<noteq> 65535"
    proof
      assume "?s div ?b = 65535"
      then have "?s = 65535 * ?b + ?s mod ?b" by (metis div_mult_mod_eq)
      with False assms(2) show False by simp
    qed
    with q have "?s div ?b < 65535" by simp
    then have "(of_nat (?s div ?b) :: u16) < 65535"
      by (simp add: word_less_nat_alt unat_of_nat_u16)
    with False \<open>?s div ?b < 65535\<close> show ?thesis
      by (simp add: blocks_needed_def ceil_blocks_def unat_Suc_less unat_of_nat_u16)
  qed
qed

lemma ceil_blocks_pos:
  assumes "sz \<noteq> 0"
  shows "0 < ceil_blocks p sz"
proof (rule ccontr)
  assume "\<not> 0 < ceil_blocks p sz"
  then have "unat sz div memblksize p = 0" and "unat sz mod memblksize p = 0"
    by (simp_all add: ceil_blocks_def split: if_splits)
  then have "unat sz = 0" by (metis div_mult_mod_eq mult_zero_left add_0)
  with assms show False by (simp add: unat_eq_zero)
qed

lemma pool_ok_update:
  "pool_ok p \<Longrightarrow> length mp = memtblsize p \<Longrightarrow> wf_map mp \<Longrightarrow> pool_ok (p\<lparr>memmap := mp\<rparr>)"
  by (simp add: pool_ok_def)

text \<open>Marking a free run adds exactly that allocation to the table.\<close>

lemma mark_free_run:
  assumes "wf_map mp" and "free_run mp s (unat n)" and "n \<noteq> 0"
  shows "\<exists>mp'. mark_blocks mp s n n = Inr mp' \<and> wf_map mp' \<and> length mp' = length mp \<and>
     mark_blocks mp' s (mp' ! s) 0 = Inr mp \<and>
     set (blocks 0 mp') = insert (s, unat n) (set (blocks 0 mp)) \<and>
     (\<forall>(t, l) \<in> set (blocks 0 mp). t + l \<le> s \<or> s + unat n \<le> t)"
proof -
  let ?xs = "take s mp" and ?ys = "drop (s + unat n) mp"
  let ?mp' = "?xs @ replicate (unat n) n @ ?ys"
  have len: "s + unat n \<le> length mp" using assms(2) by (simp add: free_run_def)
  have split: "mp = ?xs @ replicate (unat n) 0 @ ?ys"
    by (rule free_run_split [OF assms(2)])
  have pos: "0 < unat n" using assms(3) by (simp add: unat_pos_iff)
  have wf: "wf_map ?xs" "wf_map ?ys"
    using wf_map_split_free [of ?xs "unat n" ?ys] split assms(1) pos by auto
  have lx: "length ?xs = s" using len by simp
  have old: "blocks 0 mp = blocks 0 ?xs @ blocks (s + unat n) ?ys"
    by (subst split) (simp only: blocks_append [OF wf(1)] blocks_replicate_0 lx add_0)
  have new: "blocks 0 ?mp' = blocks 0 ?xs @ (s, unat n) # blocks (s + unat n) ?ys"
    by (simp only: blocks_append [OF wf(1)] blocks_used [OF assms(3)] lx add_0)
  have "\<forall>(t, l) \<in> set (blocks 0 mp). t + l \<le> s \<or> s + unat n \<le> t"
    unfolding old
    by (auto dest!: blocks_bounds [OF wf(1)] blocks_bounds [OF wf(2)] simp only: lx set_append Un_iff add_0)
  moreover have "mark_blocks mp s n n = Inr ?mp'"
    using len by (simp add: mark_blocks_def mymemset_eq)
  moreover have "wf_map ?mp'"
    by (intro wf_map_append wf wf_map.wf_used assms(3))
  moreover have "mark_blocks ?mp' s (?mp' ! s) 0 = Inr mp"
  proof -
    have "?mp' ! s = n" using len pos by (simp add: nth_append)
    then have "mark_blocks ?mp' s (?mp' ! s) 0 = mymemset ?mp' s 0 (unat n)"
      by (simp add: mark_blocks_def)
    also have "\<dots> = Inr (?xs @ replicate (unat n) 0 @ ?ys)"
      using len by (simp add: mymemset_eq)
    finally show ?thesis using split by simp
  qed
  ultimately show ?thesis using len by (auto simp: old new)
qed

text \<open>Clearing an allocation removes exactly it.\<close>

lemma clear_allocation:
  assumes "wf_map mp" and "(s, l) \<in> set (blocks 0 mp)"
  shows "s < length mp \<and> unat (mp ! s) = l \<and>
     (\<exists>mp'. mark_blocks mp s (mp ! s) 0 = Inr mp' \<and> wf_map mp' \<and> length mp' = length mp \<and>
       set (blocks 0 mp') = set (blocks 0 mp) - {(s, l)} \<and> free_run mp' s l)"
proof -
  from blocks_split [OF assms] obtain n xs ys where
    m: "mp = xs @ replicate l n @ ys" and wf: "wf_map xs" "wf_map ys" and
    s: "s = length xs" and n: "unat n = l" "n \<noteq> 0" by auto
  have l: "0 < l" using n by (simp add: unat_pos_iff flip: n(1))
  have nth: "mp ! s = n" using l by (simp add: m s nth_append)
  let ?mp' = "xs @ replicate l 0 @ ys"
  have "mark_blocks mp s (mp ! s) 0 = mymemset mp s 0 l"
    by (simp add: mark_blocks_def nth n)
  also have "\<dots> = Inr ?mp'" by (simp add: mymemset_eq m s)
  finally have clr: "mark_blocks mp s (mp ! s) 0 = Inr ?mp'" .
  have old: "blocks 0 mp = blocks 0 xs @ (s, l) # blocks (s + l) ys"
    using blocks_used [OF n(2), of s ys] by (simp add: m blocks_append [OF wf(1)] n s)
  have new: "blocks 0 ?mp' = blocks 0 xs @ blocks (s + l) ys"
    by (simp add: blocks_append [OF wf(1)] blocks_replicate_0 s)
  have "(s, l) \<notin> set (blocks 0 xs)" "(s, l) \<notin> set (blocks (s + l) ys)"
    using l by (auto dest!: blocks_bounds [OF wf(1)] blocks_bounds [OF wf(2)] simp: s)
  then have diff: "set (blocks 0 ?mp') = set (blocks 0 mp) - {(s, l)}"
    unfolding old new by auto
  have "wf_map ?mp'" by (intro wf_map_append wf wf_map_replicate_0)
  moreover have "free_run ?mp' s l" by (simp add: free_run_def s nth_append)
  moreover have "length ?mp' = length mp" and "s < length mp" using l by (simp_all add: m s)
  moreover have "unat (mp ! s) = l" by (simp add: nth n)
  ultimately show ?thesis using clr diff by blast
qed

lemma my_mem_init_ok:
  assumes "pool_ok p"
  shows "\<exists>p'. my_mem_init p = Inr p' \<and> pool_ok p' \<and> memrdy p' = 1 \<and> allocations p' = [] \<and>
     memmap p' = replicate (memtblsize p) 0 \<and> membase p' = replicate (memsize p) 0"
  using assms blocks_replicate_0 [of 0 "memtblsize p" "[]"]
  by (auto simp: my_mem_init_def mymemset_eq pool_ok_def wf_map_replicate_0 allocations_def)

lemma my_mem_malloc_ready:
  assumes "pool_ok p" and "memrdy p \<noteq> 0" and "sz \<noteq> 0"
    and "unat sz \<le> 65535 * memblksize p"
  shows "(my_mem_malloc p sz = Inr (0xFFFFFFFF, p) \<and>
           (\<forall>s. \<not> free_run (memmap p) s (ceil_blocks p sz))) \<or>
         (\<exists>s p'. my_mem_malloc p sz = Inr (of_nat (s * memblksize p), p') \<and>
           s + ceil_blocks p sz \<le> memtblsize p \<and> pool_ok p' \<and> memrdy p' = memrdy p \<and>
           p' = p\<lparr>memmap := memmap p'\<rparr> \<and>
           mark_blocks (memmap p') s (memmap p' ! s) 0 = Inr (memmap p) \<and>
           set (allocations p') = insert (s, ceil_blocks p sz) (set (allocations p)) \<and>
           (\<forall>(t, l) \<in> set (allocations p). t + l \<le> s \<or> s + ceil_blocks p sz \<le> t))"
proof -
  let ?n = "blocks_needed p sz" and ?mp = "memmap p" and ?c = "ceil_blocks p sz"
  have ok: "0 < memblksize p" "length ?mp = memtblsize p" "wf_map ?mp"
    using assms(1) by (simp_all add: pool_ok_def)
  have n: "unat ?n = ?c" by (rule blocks_needed_eq [OF ok(1) assms(4)])
  then have n0: "0 < ?n" "?n \<noteq> 0"
    using ceil_blocks_pos [OF assms(3), of p] by (auto simp: word_less_nat_alt)
  have bound: "memtblsize p + unat (0 :: u16) \<le> length ?mp" using ok(2) by simp
  show ?thesis
  proof (cases "malloc_search ?mp (memtblsize p) 0 ?n")
    case None
    have "\<not> free_run ?mp s ?c" for s
    proof
      assume run: "free_run ?mp s ?c"
      then have "s + unat ?n \<le> memtblsize p + unat (0 :: u16)"
        using ok(2) n by (simp add: free_run_def)
      with run malloc_search_complete [OF None n0(1) bound] n show False by auto
    qed
    with None assms show ?thesis by (simp add: my_mem_malloc_def)
  next
    case (Some s)
    have run: "free_run ?mp s (unat ?n)"
      using malloc_search_sound [OF Some bound n0(1)] by simp
    with mark_free_run [OF ok(3) run n0(2)] obtain mp' where
      mp': "mark_blocks ?mp s ?n ?n = Inr mp'" "wf_map mp'" "length mp' = length ?mp"
        "mark_blocks mp' s (mp' ! s) 0 = Inr ?mp"
        "set (blocks 0 mp') = insert (s, ?c) (set (blocks 0 ?mp))"
        "\<forall>(t, l) \<in> set (blocks 0 ?mp). t + l \<le> s \<or> s + ?c \<le> t"
      using n by auto
    have "my_mem_malloc p sz = Inr (of_nat (s * memblksize p), p\<lparr>memmap := mp'\<rparr>)"
      using Some mp'(1) assms by (simp add: my_mem_malloc_def Let_def)
    moreover have "pool_ok (p\<lparr>memmap := mp'\<rparr>)"
      using pool_ok_update [OF assms(1)] mp' ok(2) by simp
    moreover have "s + ?c \<le> memtblsize p" using run n ok(2) by (simp add: free_run_def)
    moreover have "memrdy (p\<lparr>memmap := mp'\<rparr>) = memrdy p" by simp
    moreover have "p\<lparr>memmap := mp'\<rparr> = p\<lparr>memmap := memmap (p\<lparr>memmap := mp'\<rparr>)\<rparr>" by simp
    moreover have "set (allocations (p\<lparr>memmap := mp'\<rparr>)) = insert (s, ?c) (set (allocations p))"
      using mp'(5) by (simp add: allocations_def)
    moreover have "\<forall>(t, l) \<in> set (allocations p). t + l \<le> s \<or> s + ?c \<le> t"
      using mp'(6) by (simp add: allocations_def)
    moreover have "mark_blocks (memmap (p\<lparr>memmap := mp'\<rparr>)) s (memmap (p\<lparr>memmap := mp'\<rparr>) ! s) 0 =
        Inr (memmap p)"
      using mp'(4) by simp
    ultimately show ?thesis by blast
  qed
qed

lemma offset_not_error:
  assumes "pool_ok p" and "s + n \<le> memtblsize p" and "0 < n"
  shows "unat (of_nat (s * memblksize p) :: u32) = s * memblksize p"
    and "(of_nat (s * memblksize p) :: u32) \<noteq> 0xFFFFFFFF"
    and "s * memblksize p < memsize p"
proof -
  have "s < memtblsize p" using assms(2,3) by simp
  then have "s * memblksize p + memblksize p \<le> memsize p"
    using assms(1) mult_le_mono1 [of "Suc s" "memtblsize p" "memblksize p"]
    by (simp add: pool_ok_def ac_simps)
  moreover have "0 < memblksize p" "memsize p < 2 ^ 32"
    using assms(1) unfolding pool_ok_def by blast+
  ultimately have le: "s * memblksize p < memsize p" "memsize p < 2 ^ 32" by linarith+
  then show "s * memblksize p < memsize p" by simp
  from le show *: "unat (of_nat (s * memblksize p) :: u32) = s * memblksize p"
    by (intro unat_of_nat_u32) simp
  show "(of_nat (s * memblksize p) :: u32) \<noteq> 0xFFFFFFFF"
  proof
    assume "(of_nat (s * memblksize p) :: u32) = 0xFFFFFFFF"
    then have "s * memblksize p = unat (0xFFFFFFFF :: u32)" using * by simp
    with le show False by simp
  qed
qed

lemma my_mem_free_allocation:
  assumes "pool_ok p" and "memrdy p \<noteq> 0" and "(s, l) \<in> set (allocations p)"
  shows "\<exists>p'. my_mem_free p (of_nat (s * memblksize p)) = Inr (0, p') \<and> pool_ok p' \<and>
     p' = p\<lparr>memmap := memmap p'\<rparr> \<and> set (allocations p') = set (allocations p) - {(s, l)} \<and>
     free_run (memmap p') s l"
proof -
  have ok: "0 < memblksize p" "length (memmap p) = memtblsize p" "wf_map (memmap p)"
    using assms(1) by (simp_all add: pool_ok_def)
  have b: "s + l \<le> memtblsize p" "0 < l"
    using blocks_bounds [OF ok(3), of s l 0] assms(3) ok(2) by (simp_all add: allocations_def)
  from clear_allocation [OF ok(3), of s l] assms(3) obtain mp' where
    mp': "s < length (memmap p)" "mark_blocks (memmap p) s (memmap p ! s) 0 = Inr mp'"
      "wf_map mp'" "length mp' = length (memmap p)"
      "set (blocks 0 mp') = set (blocks 0 (memmap p)) - {(s, l)}" "free_run mp' s l"
    by (auto simp: allocations_def)
  have "my_mem_free p (of_nat (s * memblksize p)) = Inr (0, p\<lparr>memmap := mp'\<rparr>)"
    using assms(2) mp'(1,2) offset_not_error [OF assms(1) b] ok(1)
    by (simp add: my_mem_free_def Let_def)
  moreover have "pool_ok (p\<lparr>memmap := mp'\<rparr>)"
    using pool_ok_update [OF assms(1)] mp' ok(2) by simp
  ultimately show ?thesis using mp'(5,6) by (auto simp: allocations_def)
qed

lemma filter_used_blocks:
  "wf_map m \<Longrightarrow> length (filter (\<lambda>c. c \<noteq> 0) m) = sum_list (map snd (blocks k m))"
  by (induction arbitrary: k rule: wf_map.induct) (simp_all add: blocks_used)

section \<open>The allocator as its clients see it\<close>

text \<open>
  A client allocates and gives back blocks. \<open>heap_run\<close> runs a client's sequence of calls and keeps beside the state what the client
  has: the answers it has been given, with the requests. It gives back the \<open>i\<close>-th thing it has (a client that releases anything else is outside the contract).
\<close>

datatype 'r heap_op = Alloc 'r | Release nat

fun heap_run ::
  "('s \<Rightarrow> 'r \<Rightarrow> fault + ('a \<times> 's)) \<Rightarrow> ('a \<Rightarrow> bool) \<Rightarrow> ('s \<Rightarrow> 'a \<Rightarrow> fault + ('c \<times> 's)) \<Rightarrow>
   's \<Rightarrow> ('a \<times> 'r) list \<Rightarrow> 'r heap_op list \<Rightarrow> fault + ('s \<times> ('a \<times> 'r) list)" where
  "heap_run alloc got release s own [] = Inr (s, own)"
| "heap_run alloc got release s own (Alloc r # ops) =
     ebind (alloc s r) (\<lambda>(a, s'). heap_run alloc got release s' (if got a then own @ [(a, r)] else own) ops)"
| "heap_run alloc got release s own (Release i # ops) =
     (if i < length own then
        ebind (release s (fst (own ! i))) (\<lambda>(_, s'). heap_run alloc got release s' (take i own @ drop (Suc i) own) ops)
      else heap_run alloc got release s own ops)"

definition apart :: "nat \<times> nat \<Rightarrow> nat \<times> nat \<Rightarrow> bool" where
  "apart b c \<longleftrightarrow> fst b + snd b \<le> fst c \<or> fst c + snd c \<le> fst b"

definition all_apart :: "(nat \<times> nat) set \<Rightarrow> bool" where
  "all_apart B \<longleftrightarrow> (\<forall>b \<in> B. \<forall>c \<in> B. b \<noteq> c \<longrightarrow> apart b c)"

lemma all_apart_insert:
  "all_apart B \<Longrightarrow> \<forall>c \<in> B. apart b c \<Longrightarrow> all_apart (insert b B)"
  by (auto simp: all_apart_def apart_def)

text \<open>
  What an allocator promises: no call faults; an answer that is not a refusal stands for a block (\<open>blk\<close>) that is not empty, disjoint from the live ones, and
  now live; releasing what stands for a live block removes that block only.
\<close>

locale block_allocator =
  fixes inv :: "'s \<Rightarrow> bool"
    and live :: "'s \<Rightarrow> (nat \<times> nat) set"
    and req_ok :: "'r \<Rightarrow> bool"
    and alloc :: "'s \<Rightarrow> 'r \<Rightarrow> fault + ('a \<times> 's)"
    and got :: "'a \<Rightarrow> bool"
    and release :: "'s \<Rightarrow> 'a \<Rightarrow> fault + ('c \<times> 's)"
    and blk :: "'a \<times> 'r \<Rightarrow> nat \<times> nat"
  assumes alloc_law: "inv s \<Longrightarrow> req_ok r \<Longrightarrow>
      \<exists>a s'. alloc s r = Inr (a, s') \<and> inv s' \<and>
        (if got a then live s' = insert (blk (a, r)) (live s) \<and> (\<forall>c \<in> live s. apart (blk (a, r)) c) \<and> 0 < snd (blk (a, r)) else live s' = live s)"
    and release_law: "inv s \<Longrightarrow> blk (a, r) \<in> live s \<Longrightarrow> \<exists>c s'. release s a = Inr (c, s') \<and> inv s' \<and> live s' = live s - {blk (a, r)}"
begin

text \<open>The live blocks are those of others, \<open>B\<close>, and the client's own, each once, and all are disjoint.\<close>

definition owned :: "(nat \<times> nat) set \<Rightarrow> 's \<Rightarrow> ('a \<times> 'r) list \<Rightarrow> bool" where
  "owned B s own \<longleftrightarrow> inv s \<and> live s = B \<union> set (map blk own) \<and> B \<inter> set (map blk own) = {} \<and> distinct (map blk own) \<and> all_apart (live s)"

lemma owned_alloc:
  assumes o: "owned B s own" and r: "req_ok r"
  obtains a s' where "alloc s r = Inr (a, s')" "owned B s' (if got a then own @ [(a, r)] else own)"
proof -
  obtain a s' where a: "alloc s r = Inr (a, s')" "inv s'" "if got a then live s' = insert (blk (a, r)) (live s) \<and> (\<forall>c \<in> live s. apart (blk (a, r)) c) \<and> 0 < snd (blk (a, r))
      else live s' = live s"
    using alloc_law [of s r] o r by (auto simp: owned_def)
  have "owned B s' (if got a then own @ [(a, r)] else own)"
  proof (cases "got a")
    case True
    then have n: "live s' = insert (blk (a, r)) (live s)" "\<forall>c \<in> live s. apart (blk (a, r)) c" "0 < snd (blk (a, r))" using a(3) by simp_all
    have f: "blk (a, r) \<notin> live s"
    proof
      assume "blk (a, r) \<in> live s"
      then have "apart (blk (a, r)) (blk (a, r))" using n(2) by blast
      then show False using n(3) by (simp add: apart_def)
    qed
    have "all_apart (live s)" using o unfolding owned_def by blast
    then have ap: "all_apart (live s')" unfolding n(1) using n(2) by (rule all_apart_insert)
    have b: "blk (a, r) \<notin> B" "blk (a, r) \<notin> set (map blk own)" using o f unfolding owned_def by blast+
    have "live s' = B \<union> set (map blk (own @ [(a, r)]))" using o unfolding owned_def n(1) by simp
    moreover have "B \<inter> set (map blk (own @ [(a, r)])) = {}" using o b(1) unfolding owned_def by simp
    moreover have "distinct (map blk (own @ [(a, r)]))" using o b(2) unfolding owned_def by simp
    ultimately show ?thesis using True ap a(2) unfolding owned_def by simp
  next
    case False
    then have "live s' = live s" using a(3) by simp
    then have "owned B s' own" using o a(2) unfolding owned_def by (elim conjE, intro conjI) simp_all
    then show ?thesis using False by simp
  qed
  then show thesis using that a(1) by blast
qed

lemma owned_release:
  assumes o: "owned B s own" and i: "i < length own"
  obtains c s' where "release s (fst (own ! i)) = Inr (c, s')" "owned B s' (take i own @ drop (Suc i) own)"
proof -
  obtain a r where e: "own ! i = (a, r)" by (cases "own ! i")
  have d: "own = take i own @ (a, r) # drop (Suc i) own" using id_take_nth_drop [OF i] e by simp
  define l where "l = take i own @ drop (Suc i) own"
  have m: "set (map blk own) = insert (blk (a, r)) (set (map blk l))" by (subst d) (auto simp: l_def)
  have "distinct (map blk (take i own @ (a, r) # drop (Suc i) own))" using o d by (simp add: owned_def)
  then have k: "blk (a, r) \<notin> set (map blk l)" "distinct (map blk l)" by (auto simp: l_def)
  have "blk (a, r) \<in> live s" using o m by (simp add: owned_def)
  then obtain c s' where s': "release s a = Inr (c, s')" "inv s'" "live s' = live s - {blk (a, r)}" using release_law o by (meson owned_def)
  have "all_apart (live s')" using o unfolding s'(3) by (simp add: owned_def all_apart_def)
  moreover have "live s' = B \<union> set (map blk l)" "B \<inter> set (map blk l) = {}" using o m k(1) unfolding s'(3) owned_def by blast+
  ultimately have "owned B s' l" using s'(2) k(2) unfolding owned_def by blast
  then show thesis using that s'(1) e by (simp add: l_def)
qed

lemma heap_run_owned:
  "owned B s own \<Longrightarrow> \<forall>r. Alloc r \<in> set ops \<longrightarrow> req_ok r \<Longrightarrow>
   \<exists>s' own'. heap_run alloc got release s own ops = Inr (s', own') \<and> owned B s' own'"
proof (induction ops arbitrary: s own)
  case Nil
  then show ?case by simp
next
  case (Cons op ops)
  show ?case
  proof (cases op)
    case (Alloc r)
    then have "req_ok r" using Cons.prems(2) by simp
    then obtain a s' where "alloc s r = Inr (a, s')" "owned B s' (if got a then own @ [(a, r)] else own)"
      by (rule owned_alloc [OF Cons.prems(1)])
    then show ?thesis using Cons.IH Cons.prems(2) Alloc by simp
  next
    case (Release i)
    show ?thesis
    proof (cases "i < length own")
      case True
      then obtain c s' where "release s (fst (own ! i)) = Inr (c, s')" "owned B s' (take i own @ drop (Suc i) own)"
        using owned_release [OF Cons.prems(1)] by blast
      then show ?thesis using Cons.IH Cons.prems(2) Release True by simp
    qed (use Cons Release in simp)
  qed
qed

end

definition ready_pool :: "mem_pool \<Rightarrow> bool" where
  "ready_pool p \<longleftrightarrow> pool_ok p \<and> memrdy p \<noteq> 0 \<and> memblksize p = 32"

text \<open>Blocks in bytes: those of the table, and those of a request of \<open>sz\<close> bytes at an offset.\<close>

definition in_bytes :: "nat \<times> nat \<Rightarrow> nat \<times> nat" where
  "in_bytes b = (fst b * 32, snd b * 32)"

definition live_bytes :: "mem_pool \<Rightarrow> (nat \<times> nat) set" where
  "live_bytes p = in_bytes ` set (allocations p)"

definition block_at :: "u32 \<times> u32 \<Rightarrow> nat \<times> nat" where
  "block_at h = (unat (fst h), (unat (snd h) div 32 + (if unat (snd h) mod 32 = 0 then 0 else 1)) * 32)"

lemma in_bytes_apart: "apart (in_bytes b) (in_bytes c) \<longleftrightarrow> apart b c"
proof -
  have k: "a * 32 + l * 32 \<le> b * 32 \<longleftrightarrow> a + l \<le> b" for a l b :: nat by presburger
  show ?thesis unfolding apart_def in_bytes_def fst_conv snd_conv k ..
qed

lemma all_apart_in_bytes:
  assumes "all_apart B" shows "all_apart (in_bytes ` B)"
proof -
  have "apart (in_bytes x) (in_bytes y)" if "x \<in> B" "y \<in> B" "in_bytes x \<noteq> in_bytes y" for x y
  proof -
    have "x \<noteq> y" using that(3) by (rule contrapos_nn) (rule arg_cong)
    then have "apart x y" using assms that(1,2) unfolding all_apart_def by (simp only: simp_thms)
    then show ?thesis unfolding in_bytes_apart .
  qed
  then show ?thesis unfolding all_apart_def ball_simps by blast
qed

lemma inj_in_bytes: "inj in_bytes"
  by (rule injI) (simp add: in_bytes_def prod_eq_iff)

lemma block_at_room: "unat (snd h) \<le> snd (block_at h)"
  by (simp add: block_at_def) presburger

lemma block_at_offset:
  assumes "ready_pool p" and "s + ceil_blocks p sz \<le> memtblsize p" and "sz \<noteq> 0"
  shows "block_at (of_nat (s * memblksize p), sz) = in_bytes (s, ceil_blocks p sz)"
proof -
  have p: "pool_ok p" "memblksize p = 32" using assms(1) by (simp_all add: ready_pool_def)
  have "unat (of_nat (s * memblksize p) :: u32) = s * memblksize p" by (rule offset_not_error(1) [OF p(1) assms(2) ceil_blocks_pos [OF assms(3)]])
  then show ?thesis by (simp add: block_at_def in_bytes_def ceil_blocks_def p(2))
qed

lemma my_mem_malloc_ready_pool:
  assumes "ready_pool p" and "unat sz \<le> 2097120"
  shows "\<exists>a p'. my_mem_malloc p sz = Inr (a, p') \<and> ready_pool p' \<and>
     (if a \<noteq> 0xFFFFFFFF
      then live_bytes p' = insert (block_at (a, sz)) (live_bytes p) \<and> (\<forall>c \<in> live_bytes p. apart (block_at (a, sz)) c) \<and> 0 < snd (block_at (a, sz))
      else live_bytes p' = live_bytes p)"
proof (cases "sz = 0")
  case True
  with assms show ?thesis by (simp add: my_mem_malloc_def ready_pool_def)
next
  case False
  have p: "pool_ok p" "memrdy p \<noteq> 0" "memblksize p = 32"
    using assms(1) by (simp_all add: ready_pool_def)
  then have "unat sz \<le> 65535 * memblksize p" using assms(2) by simp
  from my_mem_malloc_ready [OF p(1,2) False this] show ?thesis
  proof
    assume "my_mem_malloc p sz = Inr (0xFFFFFFFF, p) \<and>
      (\<forall>s. \<not> free_run (memmap p) s (ceil_blocks p sz))"
    with assms(1) show ?thesis by simp
  next
    assume "\<exists>s p'. my_mem_malloc p sz = Inr (of_nat (s * memblksize p), p') \<and>
           s + ceil_blocks p sz \<le> memtblsize p \<and> pool_ok p' \<and> memrdy p' = memrdy p \<and>
           p' = p\<lparr>memmap := memmap p'\<rparr> \<and>
           mark_blocks (memmap p') s (memmap p' ! s) 0 = Inr (memmap p) \<and>
           set (allocations p') = insert (s, ceil_blocks p sz) (set (allocations p)) \<and>
           (\<forall>(t, l) \<in> set (allocations p). t + l \<le> s \<or> s + ceil_blocks p sz \<le> t)"
    then obtain s p' where p': "my_mem_malloc p sz = Inr (of_nat (s * memblksize p), p')" "s + ceil_blocks p sz \<le> memtblsize p"
      "pool_ok p'" "memrdy p' = memrdy p" "p' = p\<lparr>memmap := memmap p'\<rparr>"
      "set (allocations p') = insert (s, ceil_blocks p sz) (set (allocations p))"
      "\<forall>(t, l) \<in> set (allocations p). t + l \<le> s \<or> s + ceil_blocks p sz \<le> t" by blast
    have "memblksize p' = memblksize p" by (subst p'(5)) simp
    with p' p have "ready_pool p'" by (simp add: ready_pool_def)
    moreover have "\<forall>c \<in> set (allocations p). apart (s, ceil_blocks p sz) c"
      using p'(7) by (auto simp: apart_def)
    then have "\<forall>c \<in> live_bytes p. apart (in_bytes (s, ceil_blocks p sz)) c"
      unfolding live_bytes_def by (simp add: in_bytes_apart del: split_paired_All)
    moreover have "live_bytes p' = insert (in_bytes (s, ceil_blocks p sz)) (live_bytes p)" "0 < snd (in_bytes (s, ceil_blocks p sz))"
      using p'(6) ceil_blocks_pos [OF False, of p] by (simp_all add: live_bytes_def in_bytes_def)
    moreover note block_at_offset [OF assms(1) p'(2) False] offset_not_error(2) [OF p(1) p'(2) ceil_blocks_pos [OF False]]
    ultimately show ?thesis using p'(1) by (intro exI [of _ "of_nat (s * memblksize p)"] exI [of _ p']) simp
  qed
qed

lemma my_mem_free_ready_pool:
  assumes "ready_pool p" and "block_at (a, sz) \<in> live_bytes p"
  shows "\<exists>c p'. my_mem_free p a = Inr (c, p') \<and> ready_pool p' \<and> live_bytes p' = live_bytes p - {block_at (a, sz)}"
proof -
  obtain s l where b: "(s, l) \<in> set (allocations p)" "block_at (a, sz) = in_bytes (s, l)" using assms(2) by (auto simp: live_bytes_def)
  have p: "pool_ok p" "memrdy p \<noteq> 0" "memblksize p = 32"
    using assms(1) by (simp_all add: ready_pool_def)
  have "s * 32 = unat a" using b(2) by (auto simp: block_at_def in_bytes_def)
  then have a: "(of_nat (s * memblksize p) :: u32) = a" using p(3) by (simp add: word_unat_eq_iff)
  from my_mem_free_allocation [OF p(1,2) b(1)] obtain p' where p':
    "my_mem_free p a = Inr (0, p')" "pool_ok p'"
    "p' = p\<lparr>memmap := memmap p'\<rparr>" "set (allocations p') = set (allocations p) - {(s, l)}"
    unfolding a by auto
  have "memblksize p' = memblksize p" "memrdy p' = memrdy p" by (subst p'(3), simp)+
  moreover have "live_bytes p' = live_bytes p - {in_bytes (s, l)}"
    unfolding live_bytes_def p'(4) using image_set_diff [OF inj_in_bytes, of "set (allocations p)" "{(s, l)}"] by simp
  ultimately show ?thesis using p' p b(2) by (auto simp: ready_pool_def)
qed

interpretation mem: block_allocator ready_pool live_bytes "\<lambda>sz. unat sz \<le> 2097120" my_mem_malloc "\<lambda>a. a \<noteq> 0xFFFFFFFF" my_mem_free block_at
  by unfold_locales (rule my_mem_malloc_ready_pool my_mem_free_ready_pool; assumption)+

lemma live_bytes_inside:
  assumes "ready_pool p" and "b \<in> live_bytes p"
  shows "fst b + snd b \<le> memsize p"
proof -
  obtain s l where b: "(s, l) \<in> set (allocations p)" "b = (s * 32, l * 32)" using assms(2) by (auto simp: live_bytes_def in_bytes_def)
  have p: "wf_map (memmap p)" "length (memmap p) = memtblsize p" "memsize p = memtblsize p * 32"
    using assms(1) by (simp_all add: ready_pool_def pool_ok_def)
  have "s + l \<le> memtblsize p" using blocks_bounds [OF p(1), of s l 0] b(1) p(2) by (simp add: allocations_def)
  then show ?thesis using b(2) p(3) by simp
qed

lemma pool_ok_apart: "wf_map m \<Longrightarrow> all_apart (set (blocks k m))"
proof (induction arbitrary: k rule: wf_map.induct)
  case (wf_used n xs)
  have "\<forall>c \<in> set (blocks (k + unat n) xs). apart (k, unat n) c"
    by (auto simp: apart_def dest: blocks_bounds [OF wf_used.hyps(2)])
  with wf_used show ?case by (simp add: blocks_used all_apart_insert)
qed (simp_all add: all_apart_def)

section \<open>Properties\<close>

text \<open>
  C32. On a well-formed, initialised pool a request for 1 to 65535 blocks never faults. It
  either fails, and then no run of enough free blocks exists and the pool is unchanged, or
  it returns the byte offset of a run of exactly the blocks needed, inside the pool and
  disjoint from every live allocation, and the table records just this one more allocation.
\<close>

theorem my_mem_malloc_sound_and_complete:
  assumes "pool_ok p" and "memrdy p \<noteq> 0" and "sz \<noteq> 0"
    and "unat sz \<le> 65535 * memblksize p"
  shows "\<exists>offset p'. my_mem_malloc p sz = Inr (offset, p') \<and> pool_ok p' \<and>
     (if offset = 0xFFFFFFFF then p' = p \<and> (\<forall>s. \<not> free_run (memmap p) s (ceil_blocks p sz))
      else \<exists>s. unat offset = s * memblksize p \<and> s + ceil_blocks p sz \<le> memtblsize p \<and>
        set (allocations p') = insert (s, ceil_blocks p sz) (set (allocations p)) \<and>
        (\<forall>b \<in> set (allocations p). apart (s, ceil_blocks p sz) b))"
  using my_mem_malloc_ready [OF assms]
proof
  assume "\<exists>s p'. my_mem_malloc p sz = Inr (of_nat (s * memblksize p), p') \<and>
    s + ceil_blocks p sz \<le> memtblsize p \<and> pool_ok p' \<and> memrdy p' = memrdy p \<and>
    p' = p\<lparr>memmap := memmap p'\<rparr> \<and>
    mark_blocks (memmap p') s (memmap p' ! s) 0 = Inr (memmap p) \<and>
    set (allocations p') = insert (s, ceil_blocks p sz) (set (allocations p)) \<and>
    (\<forall>(t, l) \<in> set (allocations p). t + l \<le> s \<or> s + ceil_blocks p sz \<le> t)"
  then obtain s p' where p': "my_mem_malloc p sz = Inr (of_nat (s * memblksize p), p')"
    "s + ceil_blocks p sz \<le> memtblsize p" "pool_ok p'"
    "set (allocations p') = insert (s, ceil_blocks p sz) (set (allocations p))"
    "\<forall>(t, l) \<in> set (allocations p). t + l \<le> s \<or> s + ceil_blocks p sz \<le> t" by blast
  have "\<forall>b \<in> set (allocations p). apart (s, ceil_blocks p sz) b"
    using p'(5) by (auto simp: apart_def)
  with p' offset_not_error [OF assms(1) p'(2) ceil_blocks_pos [OF assms(3)]] show ?thesis
    by auto
qed (use assms(1) in simp)

text \<open>A pool of four 32-byte blocks whose top block is allocated.\<close>

definition small_pool :: mem_pool where
  "small_pool =
     \<lparr>memtblsize = 4, memblksize = 32, memsize = 128, memaddr = 0x20001000,
      membase = replicate 128 0, memmap = [0, 0, 0, 1], memrdy = 1\<rparr>"

lemma small_pool_ok: "pool_ok small_pool"
  using wf_map.wf_used [of 1 "[]"]
  by (simp add: pool_ok_def small_pool_def wf_map.intros)

lemma small_pool_sel [simp]:
  "memrdy small_pool = 1" "memblksize small_pool = 32" "memmap small_pool = [0, 0, 0, 1]"
  "memtblsize small_pool = 4" "memsize small_pool = 128" "memaddr small_pool = 0x20001000"
  by (simp_all add: small_pool_def)

lemma my_mem_malloc_sound_and_complete_witness:
  "\<exists>offset p'. my_mem_malloc small_pool 40 = Inr (offset, p') \<and> pool_ok p' \<and>
     (if offset = 0xFFFFFFFF
      then p' = small_pool \<and> (\<forall>s. \<not> free_run (memmap small_pool) s (ceil_blocks small_pool 40))
      else \<exists>s. unat offset = s * memblksize small_pool \<and>
        s + ceil_blocks small_pool 40 \<le> memtblsize small_pool \<and>
        set (allocations p') =
          insert (s, ceil_blocks small_pool 40) (set (allocations small_pool)) \<and>
        (\<forall>b \<in> set (allocations small_pool). apart (s, ceil_blocks small_pool 40) b))"
  by (rule my_mem_malloc_sound_and_complete) (simp_all add: small_pool_ok)

text \<open>
  \<open>myfree\<close> undoes \<open>mymalloc\<close>: when a request of at most 65535 blocks succeeds, freeing the
  pointer it returned gives back exactly the pool there was before.
\<close>

theorem myfree_mymalloc:
  assumes "pool_ok p" and "memrdy p \<noteq> 0" and "unat sz \<le> 65535 * memblksize p"
    and "mymalloc p sz = Inr (ptr, p')" and "ptr \<noteq> 0"
  shows "myfree p' ptr = Inr p"
proof -
  have sz: "sz \<noteq> 0"
    using assms(2,4,5) by (auto simp: mymalloc_def my_mem_malloc_def)
  from my_mem_malloc_ready [OF assms(1,2) sz assms(3)]
  have "\<exists>s q. my_mem_malloc p sz = Inr (of_nat (s * memblksize p), q) \<and>
    s + ceil_blocks p sz \<le> memtblsize p \<and> pool_ok q \<and> q = p\<lparr>memmap := memmap q\<rparr> \<and>
    mark_blocks (memmap q) s (memmap q ! s) 0 = Inr (memmap p)"
    using assms(4,5) by (auto simp: mymalloc_def)
  then obtain s q where s: "my_mem_malloc p sz = Inr (of_nat (s * memblksize p), q)"
    "s + ceil_blocks p sz \<le> memtblsize p" "pool_ok q" "q = p\<lparr>memmap := memmap q\<rparr>"
    "mark_blocks (memmap q) s (memmap q ! s) 0 = Inr (memmap p)" by blast
  define mp where "mp = memmap q"
  with s have q: "my_mem_malloc p sz = Inr (of_nat (s * memblksize p), p\<lparr>memmap := mp\<rparr>)"
    "s + ceil_blocks p sz \<le> memtblsize p" "pool_ok (p\<lparr>memmap := mp\<rparr>)"
    "mark_blocks mp s (mp ! s) 0 = Inr (memmap p)" by simp_all
  note off = offset_not_error [OF assms(1) q(2) ceil_blocks_pos [OF sz]]
  have "s < length mp" using q(2,3) ceil_blocks_pos [OF sz, of p] by (simp add: pool_ok_def)
  define offset :: u32 where "offset = of_nat (s * memblksize p)"
  have pos: "0 < memblksize p" using assms(1) by (simp add: pool_ok_def)
  have "mymalloc p sz = Inr (memaddr p + offset, p\<lparr>memmap := mp\<rparr>)"
    using q(1) off(2) unfolding offset_def [symmetric] by (simp add: mymalloc_def)
  with assms(4) have res: "p' = p\<lparr>memmap := mp\<rparr>" "ptr = memaddr p + offset" by simp_all
  have index: "unat offset div memblksize p = s" "unat offset < memsize p"
    using off(1,3) pos unfolding offset_def [symmetric] by simp_all
  have "my_mem_free (p\<lparr>memmap := mp\<rparr>) offset = Inr (0, p)"
    using assms(2) index \<open>s < length mp\<close> q(4) by (simp add: my_mem_free_def)
  then have "my_mem_free p' (ptr - memaddr p') = Inr (0, p)"
    by (simp add: res)
  with assms(5) show ?thesis by (simp add: myfree_def)
qed

lemma myfree_mymalloc_witness:
  "\<exists>p'. mymalloc small_pool 40 = Inr (0x20001020, p') \<and> myfree p' 0x20001020 = Inr small_pool"
proof -
  have m: "mymalloc small_pool 40 = Inr (0x20001020, small_pool\<lparr>memmap := [0, 2, 2, 1]\<rparr>)"
  proof -
    have "malloc_search [0, 0, 0, 1] 4 0 2 = Some 1" by (simp add: eval_nat_numeral)
    moreover have "blocks_needed small_pool 40 = 2" by (simp add: blocks_needed_def)
    moreover have "mark_blocks [0, 0, 0, 1] 1 2 2 = Inr [0, 2, 2, 1]"
    proof -
      have "unat (2 :: u16) = Suc (Suc 0)" by simp
      then show ?thesis by (simp only: mark_blocks_def) simp
    qed
    ultimately show ?thesis by (simp add: mymalloc_def my_mem_malloc_def)
  qed
  have "myfree (small_pool\<lparr>memmap := [0, 2, 2, 1]\<rparr>) 0x20001020 = Inr small_pool"
    by (rule myfree_mymalloc [OF small_pool_ok _ _ m]) simp_all
  with m show ?thesis by blast
qed

text \<open>
  C33. A client that makes any sequence of calls, and gives back only what it has been given, never causes an access
  outside the pool or its table, as long as no request asks for more than 65535 blocks of 32 bytes. What it has at the end lies inside the pool: the bytes from each offset
  that it was answered, as many as it asked for, overlap neither those of another answer it still has nor those of the blocks that were live before; and
  the live blocks of the table are these and no others, so nothing is lost.
\<close>

theorem heap_script_safe:
  assumes "ready_pool p" and "\<forall>sz. Alloc sz \<in> set ops \<longrightarrow> unat sz \<le> 2097120"
  shows "\<exists>p' own. heap_run my_mem_malloc (\<lambda>a. a \<noteq> 0xFFFFFFFF) my_mem_free p [] ops = Inr (p', own) \<and> ready_pool p' \<and>
    (\<forall>i < length own. unat (fst (own ! i)) + unat (snd (own ! i)) \<le> memsize p') \<and>
    (\<forall>i < length own. \<forall>j < length own. i \<noteq> j \<longrightarrow>
      unat (fst (own ! i)) + unat (snd (own ! i)) \<le> unat (fst (own ! j)) \<or> unat (fst (own ! j)) + unat (snd (own ! j)) \<le> unat (fst (own ! i))) \<and>
    (\<forall>i < length own. \<forall>(s, l) \<in> set (allocations p). unat (fst (own ! i)) + unat (snd (own ! i)) \<le> s * 32 \<or> s * 32 + l * 32 \<le> unat (fst (own ! i))) \<and>
    live_bytes p' = live_bytes p \<union> set (map block_at own)"
proof -
  have "all_apart (set (allocations p))"
    using assms(1) by (simp add: allocations_def pool_ok_apart ready_pool_def pool_ok_def)
  then have "all_apart (live_bytes p)" unfolding live_bytes_def by (rule all_apart_in_bytes)
  then have "mem.owned (live_bytes p) p []" using assms(1) by (simp add: mem.owned_def)
  from mem.heap_run_owned [OF this assms(2)] obtain p' own where
    r: "heap_run my_mem_malloc (\<lambda>a. a \<noteq> 0xFFFFFFFF) my_mem_free p [] ops = Inr (p', own)" and o: "mem.owned (live_bytes p) p' own" by blast
  note d = o [unfolded mem.owned_def]
  have e: "fst (block_at h) = unat (fst h)" for h by (simp add: block_at_def)
  have l: "block_at (own ! i) \<in> live_bytes p'" if "i < length own" for i using d that by auto
  have in1: "unat (fst (own ! i)) + unat (snd (own ! i)) \<le> memsize p'" if "i < length own" for i
    using live_bytes_inside [of p' "block_at (own ! i)"] l [OF that] d block_at_room [of "own ! i"] by (simp add: e)
  have sep: "apart (block_at (own ! i)) b" if "i < length own" "b \<in> live_bytes p'" "b \<noteq> block_at (own ! i)" for i b
    using d l [OF that(1)] that(2,3) unfolding all_apart_def by metis
  have dis: "unat (fst (own ! i)) + unat (snd (own ! i)) \<le> unat (fst (own ! j)) \<or> unat (fst (own ! j)) + unat (snd (own ! j)) \<le> unat (fst (own ! i))"
    if ij: "i < length own" "j < length own" "i \<noteq> j" for i j
  proof -
    have "distinct (map block_at own)" using d by blast
    then have "block_at (own ! j) \<noteq> block_at (own ! i)" using ij nth_eq_iff_index_eq [of "map block_at own" j i] by auto
    from sep [OF ij(1) l [OF ij(2)] this] block_at_room [of "own ! i"] block_at_room [of "own ! j"]
    show ?thesis unfolding apart_def e by linarith
  qed
  have old: "unat (fst (own ! i)) + unat (snd (own ! i)) \<le> s * 32 \<or> s * 32 + l * 32 \<le> unat (fst (own ! i))"
    if i: "i < length own" and b: "(s, l) \<in> set (allocations p)" for i s l
  proof -
    have b1: "(s * 32, l * 32) \<in> live_bytes p" using b by (force simp: live_bytes_def in_bytes_def)
    then have "(s * 32, l * 32) \<noteq> block_at (own ! i)" "(s * 32, l * 32) \<in> live_bytes p'" using d i by (auto dest: nth_mem)
    from sep [OF i this(2,1)] block_at_room [of "own ! i"] show ?thesis unfolding apart_def e by (auto intro: le_trans)
  qed
  then have old': "\<forall>i < length own. \<forall>(s, l) \<in> set (allocations p). unat (fst (own ! i)) + unat (snd (own ! i)) \<le> s * 32 \<or> s * 32 + l * 32 \<le> unat (fst (own ! i))"
    by blast
  show ?thesis using r d in1 dis by (intro exI [of _ p'] exI [of _ own] conjI old') blast+
qed

lemma heap_script_safe_witness:
  "\<exists>p' own. heap_run my_mem_malloc (\<lambda>a. a \<noteq> 0xFFFFFFFF) my_mem_free small_pool [] [Alloc 40, Release 0, Alloc 20, Alloc 60] = Inr (p', own) \<and>
     (\<forall>i < length own. unat (fst (own ! i)) + unat (snd (own ! i)) \<le> memsize p')"
  using heap_script_safe [of small_pool "[Alloc 40, Release 0, Alloc 20, Alloc 60]"] by (auto simp: ready_pool_def small_pool_ok)

text \<open>
  The block count is a 16-bit variable, so a request of 65536 blocks asks for 0 blocks:
  while the top block of the pool is in use, it succeeds and returns the offset of that very
  block, without recording anything.
\<close>

theorem my_mem_malloc_wraps_block_count:
  assumes "pool_ok p" and "memrdy p \<noteq> 0" and "unat sz = 65536 * memblksize p"
    and "0 < memtblsize p" and "memmap p ! (memtblsize p - 1) \<noteq> 0"
  shows "my_mem_malloc p sz = Inr (of_nat ((memtblsize p - 1) * memblksize p), p)"
proof -
  have n: "blocks_needed p sz = 0"
    using assms(1,3) by (simp add: blocks_needed_def pool_ok_def)
  obtain k where k: "memtblsize p = Suc k" using assms(4) by (cases "memtblsize p") auto
  have "malloc_search (memmap p) (memtblsize p) 0 0 = Some k"
    using assms(5) by (simp add: k)
  moreover have "sz \<noteq> 0" using assms(1,3) by (auto simp: pool_ok_def)
  ultimately show ?thesis using n assms(2)
    by (simp add: my_mem_malloc_def mark_blocks_def k)
qed

lemma my_mem_malloc_wraps_block_count_witness:
  "my_mem_malloc small_pool 0x200000 =
     Inr (of_nat ((memtblsize small_pool - 1) * memblksize small_pool), small_pool)"
  by (rule my_mem_malloc_wraps_block_count) (simp_all add: small_pool_ok)

text \<open>
  \<open>my_mem_perused\<close> reports the percentage of the pool's blocks that live allocations
  occupy, rounded down, and never more than 100.
\<close>

theorem my_mem_perused_percentage:
  assumes "pool_ok p"
  shows "unat (my_mem_perused p) = sum_list (map snd (allocations p)) * 100 div memtblsize p \<and>
     unat (my_mem_perused p) \<le> 100"
proof -
  let ?u = "length (filter (\<lambda>c. c \<noteq> 0) (memmap p))"
  have len: "length (memmap p) = memtblsize p" and wf: "wf_map (memmap p)"
    using assms by (simp_all add: pool_ok_def)
  have u: "?u = sum_list (map snd (allocations p))"
    using filter_used_blocks [OF wf] by (simp add: allocations_def)
  have "?u \<le> memtblsize p" using len by (metis length_filter_le)
  then have "?u * 100 div memtblsize p \<le> (100 * memtblsize p) div memtblsize p"
    by (intro div_le_mono) simp
  then have le: "?u * 100 div memtblsize p \<le> 100"
    by (cases "memtblsize p = 0") simp_all
  have "my_mem_perused p = of_nat (?u * 100 div memtblsize p)"
    by (simp add: my_mem_perused_def Let_def flip: len)
  with le u show ?thesis by (simp add: unat_of_nat_u8)
qed

lemma my_mem_perused_percentage_witness:
  "unat (my_mem_perused small_pool) =
     sum_list (map snd (allocations small_pool)) * 100 div memtblsize small_pool \<and>
   unat (my_mem_perused small_pool) \<le> 100"
  by (rule my_mem_perused_percentage) (rule small_pool_ok)

end
