(* ===== verification/Tasks.thy ===== *)
theory Tasks
  imports PowerBus Malloc
begin

text \<open>
  The tasks of USER/main.c (\<open>key_task\<close>, \<open>led_task\<close>) and the server connection of
  LWIP/lwip_app/tcp_client_demo/tcp_client_demo.c. A task is given by its local variables and by
  the parts of its loop body as functions on the state the tasks share; an execution interleaves
  these parts. The two message queues carry pointers into the heap of \<open>Malloc\<close>, as in the code:
  what a message says is what the memory holds when it is read. The queues themselves
  (uC/OS-II) are lists of at most 64 pointers; a request that finds nothing returns the null
  pointer. The network stack is a parameter: the result of \<open>netconn_recv\<close> is an argument, and
  the frames handed to \<open>netconn_write\<close> are recorded.
\<close>

section \<open>The shared state\<close>

record 'd sys =
  core :: "'d acu"
  heap :: mem_pool
  q_msg :: "u32 list"
  q_msg_ser :: "u32 list"
  tcp_client_flag :: u8
  tcp_client_heartbeatsendbuf :: "u8 list"   \<comment> \<open>32 bytes\<close>
  tcp_client_cardsendbuf :: "u8 list"        \<comment> \<open>33 bytes\<close>
  tcp_client_recvbuf :: "u8 list"            \<comment> \<open>1024 bytes\<close>
  tcp_out :: "u8 list list"
  g_PowerUpFlag :: u8
  g_NewAddFlag :: u8

definition MsgGrp_SIZE :: nat where "MsgGrp_SIZE = 64"
definition LWIP_SEND_HeartbeatDATA :: u8 where "LWIP_SEND_HeartbeatDATA = 0x40"
definition TCP_CLIENT_RX_BUFSIZE :: nat where "TCP_CLIENT_RX_BUFSIZE = 1024"

text \<open>Bytes behind a pointer into the heap.\<close>

definition heap_put :: "u32 \<Rightarrow> nat \<Rightarrow> u8 list \<Rightarrow> mem_pool \<Rightarrow> fault + mem_pool" where
  "heap_put ptr i bs p =
     (if ptr = 0 then Inl Bad_Pointer
      else ebind (put_bytes (membase p) (unat (ptr - memaddr p) + i) bs) (\<lambda>m. Inr (p\<lparr>membase := m\<rparr>)))"

definition heap_get :: "u32 \<Rightarrow> nat \<Rightarrow> nat \<Rightarrow> mem_pool \<Rightarrow> fault + u8 list" where
  "heap_get ptr i n p =
     (if ptr = 0 then Inl Bad_Pointer else get_bytes (membase p) (unat (ptr - memaddr p) + i) n)"

text \<open>\<open>OSQPost\<close> (whether it succeeded, and the queue) and \<open>OSQPend\<close>.\<close>

definition OSQPost :: "u32 \<Rightarrow> u32 list \<Rightarrow> bool \<times> u32 list" where
  "OSQPost p q = (if length q < MsgGrp_SIZE then (True, q @ [p]) else (False, q))"

definition OSQPend :: "u32 list \<Rightarrow> u32 \<times> u32 list" where
  "OSQPend q = (case q of [] \<Rightarrow> (0, []) | p # q1 \<Rightarrow> (p, q1))"

section \<open>\<open>key_task\<close>\<close>

record key_vars =
  Key_Task_Count :: u16
  HeartSendCount :: u16
  SerialSetFlag :: u8

definition key_task_vars :: key_vars where
  "key_task_vars = \<lparr>Key_Task_Count = 0, HeartSendCount = 0, SerialSetFlag = 0\<rparr>"

text \<open>One iteration after \<open>SerialDownload\<close>; the code is built with \<open>TestFlag\<close> 0.\<close>

definition request_heartbeat :: "'d sys \<Rightarrow> 'd sys" where
  "request_heartbeat s = s\<lparr>tcp_client_flag := tcp_client_flag s OR LWIP_SEND_HeartbeatDATA\<rparr>"

definition key_step :: "key_vars \<times> 'd sys \<Rightarrow> key_vars \<times> 'd sys" where
  "key_step = (\<lambda>(v, s).
     if g_PowerUpFlag s = 0 then (v\<lparr>HeartSendCount := 0\<rparr>, s)
     else if SerialSetFlag v = 0 then
       let v1 = v\<lparr>Key_Task_Count := (if Key_Task_Count v < 6000 then Key_Task_Count v + 1 else 0)\<rparr>;
           (v2, s2) = (if g_NewAddFlag s = 0xAA then (v1\<lparr>HeartSendCount := 1000\<rparr>, s\<lparr>g_NewAddFlag := 0\<rparr>)
                       else (v1, s))
       in if HeartSendCount v2 < 80 then (v2\<lparr>HeartSendCount := HeartSendCount v2 + 1\<rparr>, s2)
          else if HeartSendCount v2 < 1800 then
            (v2\<lparr>HeartSendCount := HeartSendCount v2 + 1\<rparr>,
             if Key_Task_Count v2 mod 30 = 0 then request_heartbeat s2 else s2)
          else
            (v2\<lparr>HeartSendCount := 5000\<rparr>,
             if Key_Task_Count v2 mod 200 = 1 then request_heartbeat s2 else s2)
     else (v, s))"

section \<open>\<open>led_task\<close>\<close>

record led_vars =
  Old_CostNum :: u8
  Old_WaterCost :: u8
  Old_FM1702KeyCRC :: u8
  Broadcast_Count :: u8
  PhysicalADD :: "u8 list"
  Led_TaskCount :: u8
  CycleCount :: u8
  BroadTime :: u32
  g_SendDate :: u32

definition led_task_vars :: led_vars where
  "led_task_vars = \<lparr>Old_CostNum = 29, Old_WaterCost = 5, Old_FM1702KeyCRC = 0, Broadcast_Count = 0,
     PhysicalADD = [0, 0, 0, 0], Led_TaskCount = 0, CycleCount = 0, BroadTime = 0, g_SendDate = 0\<rparr>"

definition with_can :: "(can_bus \<Rightarrow> fault + can_bus) \<Rightarrow> 'd sys \<Rightarrow> fault + 'd sys" where
  "with_can f s = ebind (f (can (core s))) (\<lambda>b. Inr (s\<lparr>core := (core s)\<lparr>can := b\<rparr>\<rparr>))"

definition send_key :: "can_env \<Rightarrow> 'd sys \<Rightarrow> fault + 'd sys" where
  "send_key E s = with_can (Can_SendBroadcast_Key E (FM1702_Key (core s))) s"

definition send_costs :: "can_env \<Rightarrow> 'd sys \<Rightarrow> fault + 'd sys" where
  "send_costs E s = with_can (Can_SendBroadcast_Com E (g_WaterCost (core s)) (g_CostNum (core s))) s"

definition led_start ::
  "nat \<Rightarrow> 'd i2c_dev \<Rightarrow> can_env \<Rightarrow> led_vars \<times> 'd sys \<Rightarrow> fault + (led_vars \<times> 'd sys)" where
  "led_start fuel D E = (\<lambda>(v, s).
     ebind (mymalloc (heap s) 16) (\<lambda>(ptr, h).
     ebind (run_set (core s) 0 0 0) (\<lambda>c.
     ebind (PowerUPLogitADDCheck fuel D E c) (\<lambda>c1.
     ebind (send_key E (s\<lparr>heap := h, core := c1\<rparr>)) (\<lambda>s2.
     ebind (with_can (Can_UnregisteredBroadcast E) s2) (\<lambda>s3.
       Inr (v\<lparr>g_SendDate := ptr, Old_CostNum := g_CostNum (core s3),
              Old_WaterCost := g_WaterCost (core s3)\<rparr>, s3)))))))"

text \<open>One pass of the registration loop.\<close>

definition led_register ::
  "nat \<Rightarrow> 'd i2c_dev \<Rightarrow> can_env \<Rightarrow> led_vars \<times> 'd sys \<Rightarrow> fault + (led_vars \<times> 'd sys)" where
  "led_register fuel D E = (\<lambda>(v, s).
     ebind (Can_ReadUnregistered E (PhysicalADD v) (can (core s))) (\<lambda>(r, phys, b).
     let v1 = v\<lparr>PhysicalADD := phys\<rparr>; c = (core s)\<lparr>can := b\<rparr> in
     if r \<noteq> 0 then
       ebind (Distribute_LogicADD D phys (ee c)) (\<lambda>(u8Temp, e).
       let c1 = c\<lparr>ee := e\<rparr> in
       if unat u8Temp \<le> BUSNUM_SIZE + 1 then
         ebind (Can_WriteLogitADD fuel E u8Temp phys (can c1)) (\<lambda>(ver, b1).
         ebind (set_version (c1\<lparr>can := b1\<rparr>) (unat u8Temp) ver) (\<lambda>c2. Inr (v1, s\<lparr>core := c2\<rparr>)))
       else Inr (v1, s\<lparr>core := c1\<rparr>))
     else Inr (v1, s\<lparr>core := c\<rparr>)))"

fun led_registration ::
  "nat \<Rightarrow> nat \<Rightarrow> 'd i2c_dev \<Rightarrow> can_env \<Rightarrow> led_vars \<times> 'd sys \<Rightarrow> fault + (led_vars \<times> 'd sys)" where
  "led_registration 0 fuel D E vs = Inr vs"
| "led_registration (Suc ucCount) fuel D E vs =
     ebind (led_register fuel D E vs) (led_registration ucCount fuel D E)"

definition led_ready :: "can_env \<Rightarrow> led_vars \<times> 'd sys \<Rightarrow> fault + (led_vars \<times> 'd sys)" where
  "led_ready E = (\<lambda>(v, s).
     ebind (send_key E s) (\<lambda>s1.
     ebind (send_key E s1) (\<lambda>s2. Inr (v, s2\<lparr>g_PowerUpFlag := 0xAA\<rparr>))))"

text \<open>The parts of the endless loop: repeated broadcasts after a change, the poll of the next
  reader, the hand-over of an event, the delivery of one server answer, the counters.\<close>

definition led_broadcast :: "can_env \<Rightarrow> led_vars \<times> 'd sys \<Rightarrow> fault + (led_vars \<times> 'd sys)" where
  "led_broadcast E = (\<lambda>(v, s).
     ebind (if Old_CostNum v \<noteq> g_CostNum (core s) \<or> Old_WaterCost v \<noteq> g_WaterCost (core s) then
              ebind (send_costs E s) (\<lambda>s1.
                Inr (if Broadcast_Count v \<le> 2 then v\<lparr>Broadcast_Count := Broadcast_Count v + 1\<rparr>
                     else v\<lparr>Broadcast_Count := 0, BroadTime := 0, Old_CostNum := g_CostNum (core s1),
                            Old_WaterCost := g_WaterCost (core s1)\<rparr>, s1))
            else Inr (v, s)) (\<lambda>(v1, s1).
     if Old_FM1702KeyCRC v1 \<noteq> FM1702KeyCRC (core s1) then
       ebind (send_key E s1) (\<lambda>s2.
         Inr (if Broadcast_Count v1 \<le> 2 then v1\<lparr>Broadcast_Count := Broadcast_Count v1 + 1\<rparr>
              else v1\<lparr>Broadcast_Count := 0, Old_FM1702KeyCRC := FM1702KeyCRC (core s2)\<rparr>, s2))
     else Inr (v1, s1)))"

definition event_kind :: "u8 \<Rightarrow> u8 option" where
  "event_kind f = (if f AND 0x03 = 0x01 then Some 0x11 else if f AND 0x03 = 0x02 then Some 0x13 else None)"

text \<open>The message of an event, for row \<open>n\<close>: byte 1 is written only for flags 1 and 2.\<close>

definition fill_event :: "u32 \<Rightarrow> u8 \<Rightarrow> u8 list \<Rightarrow> mem_pool \<Rightarrow> fault + mem_pool" where
  "fill_event ptr n row h =
     ebind (heap_put ptr 0 [0xAA] h) (\<lambda>h1.
     ebind (get_bytes row 0 14) (\<lambda>r.
     ebind (case event_kind (r ! 0) of Some k \<Rightarrow> heap_put ptr 1 [k] h1 | None \<Rightarrow> Inr h1) (\<lambda>h2.
       heap_put ptr 2 (take 4 (drop 1 r) @ take 8 (drop 5 r) @ [n, r ! 13]) h2)))"

definition post_event :: "u32 \<Rightarrow> u8 \<Rightarrow> 'd sys \<Rightarrow> fault + 'd sys" where
  "post_event ptr n s =
     ebind (arr_get (g_RUNDate (core s)) (unat n)) (\<lambda>row.
     ebind (arr_get row 0) (\<lambda>f.
     if f AND 0x03 \<noteq> 0 then
       ebind (fill_event ptr n row (heap s)) (\<lambda>h.
       let (ok, q) = OSQPost ptr (q_msg s) in
       ebind (if ok then Inr h else myfree h ptr) (\<lambda>h1.
       ebind (run_set (core s) (unat n) 0 (f AND NOT 0x03)) (\<lambda>c.
         Inr (s\<lparr>heap := h1, q_msg := q, core := c\<rparr>))))
     else Inr s))"

definition led_poll ::
  "nat \<Rightarrow> can_env \<Rightarrow> u8 list \<Rightarrow> u8 list \<Rightarrow> led_vars \<times> 'd sys \<Rightarrow> fault + (led_vars \<times> 'd sys)" where
  "led_poll fuel E TempBuff uBuff = (\<lambda>(v, s).
     if unat (Led_TaskCount v) < BUSNUM_SIZE then
       ebind (ReadRunningData fuel E TempBuff uBuff (Led_TaskCount v + 1) (core s)) (\<lambda>c.
       ebind (post_event (g_SendDate v) (Led_TaskCount v) (s\<lparr>core := c\<rparr>)) (\<lambda>s1. Inr (v, s1)))
     else Inr (v, s))"

text \<open>The bytes \<open>WriteRFIDData\<close> may read: the block the pointer addresses (32 bytes).\<close>

definition led_deliver :: "can_env \<Rightarrow> 'd sys \<Rightarrow> fault + 'd sys" where
  "led_deliver E s =
     (let (p, q) = OSQPend (q_msg_ser s) in
      ebind (if p \<noteq> 0 then
               ebind (heap_get p 0 32 (heap s)) (\<lambda>W.
               ebind (WriteRFIDData E W (core s)) (\<lambda>c. Inr (s\<lparr>core := c, q_msg_ser := q\<rparr>)))
             else Inr s) (\<lambda>s1.
      ebind (myfree (heap s1) p) (\<lambda>h. Inr (s1\<lparr>heap := h\<rparr>))))"

definition led_count :: "can_env \<Rightarrow> led_vars \<times> 'd sys \<Rightarrow> fault + (led_vars \<times> 'd sys)" where
  "led_count E = (\<lambda>(v, s).
     let v1 = (if unat (Led_TaskCount v) > BUSNUM_SIZE + 1
               then v\<lparr>Led_TaskCount := 0,
                      CycleCount := (if CycleCount v < 50 then CycleCount v + 1 else 0)\<rparr>
               else v\<lparr>Led_TaskCount := Led_TaskCount v + 1\<rparr>)
     in if BroadTime v1 > 0x000F0000
        then ebind (send_costs E s) (\<lambda>s1. Inr (v1\<lparr>BroadTime := 0\<rparr>, s1))
        else Inr (v1\<lparr>BroadTime := BroadTime v1 + 1\<rparr>, s))"

definition led_step ::
  "nat \<Rightarrow> can_env \<Rightarrow> u8 list \<Rightarrow> u8 list \<Rightarrow> led_vars \<times> 'd sys \<Rightarrow> fault + (led_vars \<times> 'd sys)" where
  "led_step fuel E TempBuff uBuff vs =
     ebind (led_broadcast E vs) (\<lambda>vs1.
     ebind (led_poll fuel E TempBuff uBuff vs1) (\<lambda>(v, s).
     ebind (led_deliver E s) (\<lambda>s1. led_count E (v, s1))))"

section \<open>The server connection\<close>

record tcp_vars =
  i_SendCount :: u8
  SendRecvCount :: u8
  ser_Date :: u32

definition tcp_start :: "'d sys \<Rightarrow> fault + (tcp_vars \<times> 'd sys)" where
  "tcp_start s =
     ebind (mymalloc (heap s) 11) (\<lambda>(ptr, h).
     ebind (get_bytes (g_ACUAdd (core s)) 0 16) (\<lambda>code.
     ebind (put_bytes (tcp_client_heartbeatsendbuf s) 3 code) (\<lambda>hb.
     ebind (put_bytes (tcp_client_cardsendbuf s) 3 code) (\<lambda>cb.
     ebind (get_bytes (g_ACUSN (core s)) 0 4) (\<lambda>sn.
     ebind (put_bytes hb 19 sn) (\<lambda>hb1.
       Inr (\<lparr>i_SendCount = 0, SendRecvCount = 0, ser_Date = ptr\<rparr>,
            s\<lparr>heap := h, tcp_client_heartbeatsendbuf := hb1, tcp_client_cardsendbuf := cb\<rparr>)))))))"

text \<open>\<open>netconn_write(conn, buf, buf[1], ..)\<close>; its error is only printed.\<close>

definition net_write :: "u8 list \<Rightarrow> 'd sys \<Rightarrow> fault + 'd sys" where
  "net_write buf s =
     ebind (arr_get buf 1) (\<lambda>n.
     ebind (get_bytes buf 0 (unat n)) (\<lambda>frame. Inr (s\<lparr>tcp_out := tcp_out s @ [frame]\<rparr>)))"

definition heartbeat_frame :: "u8 \<Rightarrow> 'd sys \<Rightarrow> fault + u8 list" where
  "heartbeat_frame i s =
     ebind (arr_get (g_RUNDate (core s)) (unat i)) (\<lambda>row.
     ebind (get_bytes row 0 5) (\<lambda>r.
     ebind (arr_get (KJ_Versions (core s)) (unat i)) (\<lambda>ver.
       put_bytes (tcp_client_heartbeatsendbuf s) 23
         (drop 1 r @ [0x01, ver, if r ! 0 AND 0x20 = 0x20 then 0x00 else 0xAA, i]))))"

definition tcp_heartbeat :: "tcp_vars \<times> 'd sys \<Rightarrow> fault + (tcp_vars \<times> 'd sys)" where
  "tcp_heartbeat = (\<lambda>(v, s).
     if tcp_client_flag s AND LWIP_SEND_HeartbeatDATA = LWIP_SEND_HeartbeatDATA then
       let i = (if unat (i_SendCount v) \<ge> BUSNUM_SIZE then 1 else i_SendCount v + 1);
           v1 = v\<lparr>i_SendCount := i\<rparr> in
       ebind (run_get (core s) (unat i) 0) (\<lambda>f.
       ebind (if f AND 0xC0 \<noteq> 0 then
                let v2 = (if SendRecvCount v1 < 200 then v1\<lparr>SendRecvCount := SendRecvCount v1 + 1\<rparr> else v1) in
                ebind (heartbeat_frame i s) (\<lambda>hb.
                ebind (net_write hb (s\<lparr>tcp_client_heartbeatsendbuf := hb\<rparr>)) (\<lambda>s1. Inr (v2, s1)))
              else if f AND 0x20 = 0x20 then
                ebind (arr_set (tcp_client_heartbeatsendbuf s) 30 i) (\<lambda>hb.
                ebind (net_write hb (s\<lparr>tcp_client_heartbeatsendbuf := hb\<rparr>)) (\<lambda>s1. Inr (v1, s1)))
              else Inr (v1, s)) (\<lambda>(v2, s2).
         Inr (v2, s2\<lparr>tcp_client_flag := tcp_client_flag s2 AND NOT LWIP_SEND_HeartbeatDATA\<rparr>)))
     else Inr (v, s))"

text \<open>One message of \<open>q_msg\<close> is sent and its memory freed.\<close>

definition card_frame :: "u8 list \<Rightarrow> u8 list \<Rightarrow> fault + u8 list" where
  "card_frame p buf =
     ebind (arr_set buf 2 (p ! 1)) (\<lambda>b1.
       put_bytes b1 19 (take 8 (drop 2 p) @ [p ! 13, p ! 10, p ! 11, p ! 12, p ! 14, p ! 15]))"

definition tcp_card :: "'d sys \<Rightarrow> fault + 'd sys" where
  "tcp_card s =
     (let (p, q) = OSQPend (q_msg s) in
      ebind (if p \<noteq> 0 then
               ebind (heap_get p 0 16 (heap s)) (\<lambda>m.
               ebind (card_frame m (tcp_client_cardsendbuf s)) (\<lambda>buf.
                 net_write buf (s\<lparr>q_msg := q, tcp_client_cardsendbuf := buf\<rparr>)))
             else Inr s) (\<lambda>s1.
      ebind (myfree (heap s1) p) (\<lambda>h. Inr (s1\<lparr>heap := h\<rparr>))))"

text \<open>A received chain of buffers is copied into \<open>tcp_client_recvbuf\<close>, as far as it fits.\<close>

fun copy_chain :: "u8 list list \<Rightarrow> nat \<Rightarrow> u8 list \<Rightarrow> fault + u8 list" where
  "copy_chain [] data_len buf = Inr buf"
| "copy_chain (q # qs) data_len buf =
     ebind (put_bytes buf data_len
       (if length q > TCP_CLIENT_RX_BUFSIZE - data_len then take (TCP_CLIENT_RX_BUFSIZE - data_len) q else q)) (\<lambda>buf1.
     if data_len + length q > TCP_CLIENT_RX_BUFSIZE then Inr buf1
     else copy_chain qs (data_len + length q) buf1)"

text \<open>\<open>buf[buf[1]-k]\<close>, an \<open>int\<close> index.\<close>

definition from_end :: "u8 list \<Rightarrow> nat \<Rightarrow> fault + u8" where
  "from_end buf k =
     ebind (arr_get buf 1) (\<lambda>n. if unat n < k then Inl Out_Of_Bounds else arr_get buf (unat n - k))"

text \<open>The answer as the message for \<open>led_task\<close>, if it is one the code knows.\<close>

definition parse_answer :: "u8 list \<Rightarrow> fault + u8 list option" where
  "parse_answer buf =
     ebind (get_bytes buf 0 18) (\<lambda>r.
     if r ! 3 = 0x00 then
       if r ! 2 = 0x02 then
         ebind (from_end buf 1) (\<lambda>no. Inr (Some [0x55, no, r ! 4, r ! 5, r ! 6, r ! 7]))
       else if r ! 2 = 0x12 \<and> r ! 1 = 0x12 then
         ebind (from_end buf 2) (\<lambda>no.
           Inr (Some [0xBB, no, r ! 12, r ! 13, r ! 14, r ! 15,
                      (r ! 5 - 0x30) * 10 + (r ! 7 - 0x30), r ! 17]))
       else Inr None
     else if r ! 3 = 0xAA then
       ebind (if r ! 2 = 0x02 then from_end buf 1 else from_end buf 2) (\<lambda>no.
         if r ! 1 = 0x0C \<and> r ! 2 = 0x02 \<and> r ! 4 = 0xAA then
           Inr (Some [0xCC, r ! 5, r ! 6, r ! 7, r ! 8, r ! 9, r ! 10, no])
         else if r ! 2 = 0x12 \<and> r ! 1 = 0x12 then
           Inr (Some [0xAA, r ! 8, r ! 9, r ! 10, r ! 11, r ! 12, r ! 13, r ! 14, r ! 15, no, r ! 17])
         else Inr None)
     else Inr None)"

definition post_answer :: "u32 \<Rightarrow> u8 list \<Rightarrow> 'd sys \<Rightarrow> fault + 'd sys" where
  "post_answer ptr m s =
     ebind (heap_put ptr 0 m (heap s)) (\<lambda>h.
     let (ok, q) = OSQPost ptr (q_msg_ser s) in
     ebind (if ok then Inr h else myfree h ptr) (\<lambda>h1. Inr (s\<lparr>heap := h1, q_msg_ser := q\<rparr>)))"

text \<open>The result of \<open>netconn_recv\<close>; \<open>Recv_Other\<close> is a timeout or another error.\<close>

datatype recv_result = Recv_Ok "u8 list list" | Recv_Closed | Recv_Other

text \<open>The flag says whether the connection is given up.\<close>

definition tcp_receive :: "recv_result \<Rightarrow> tcp_vars \<times> 'd sys \<Rightarrow> fault + (bool \<times> tcp_vars \<times> 'd sys)" where
  "tcp_receive r = (\<lambda>(v, s).
     (case r of
        Recv_Ok chain \<Rightarrow>
          ebind (copy_chain chain 0 (replicate TCP_CLIENT_RX_BUFSIZE 0)) (\<lambda>buf.
          let s1 = s\<lparr>tcp_client_recvbuf := buf\<rparr> in
          ebind (arr_get buf 0) (\<lambda>b0.
          if b0 = 0xF3 then
            let v1 = (if SendRecvCount v > 0 then v\<lparr>SendRecvCount := SendRecvCount v - 1\<rparr> else v) in
            ebind (parse_answer buf) (\<lambda>a.
              case a of None \<Rightarrow> Inr (False, v1, s1)
              | Some m \<Rightarrow> ebind (post_answer (ser_Date v1) m s1) (\<lambda>s2. Inr (False, v1, s2)))
          else Inr (False, v, s1)))
      | Recv_Closed \<Rightarrow> Inr (True, v, s)
      | Recv_Other \<Rightarrow>
          if SendRecvCount v > 10 then Inr (True, v\<lparr>SendRecvCount := 0\<rparr>, s) else Inr (False, v, s)))"

definition tcp_step :: "recv_result \<Rightarrow> tcp_vars \<times> 'd sys \<Rightarrow> fault + (bool \<times> tcp_vars \<times> 'd sys)" where
  "tcp_step r vs =
     ebind (tcp_heartbeat vs) (\<lambda>(v, s).
     ebind (tcp_card s) (\<lambda>s1. tcp_receive r (v, s1)))"

section \<open>Messages in the heap\<close>

text \<open>
  A message pointer: it addresses a block of the pool that is the start of an allocation or free
  (the code goes on using a message after the receiver has freed it).
\<close>

definition msg_block :: "mem_pool \<Rightarrow> u32 \<Rightarrow> bool" where
  "msg_block h ptr \<longleftrightarrow> ready_pool h \<and> ptr \<noteq> 0 \<and>
     (\<exists>k < memtblsize h. ptr = memaddr h + of_nat (k * 32) \<and>
        (memmap h ! k = 0 \<or> (\<exists>l. (k, l) \<in> set (allocations h))))"

definition block_bytes :: "mem_pool \<Rightarrow> u32 \<Rightarrow> u8 list" where
  "block_bytes h ptr = take 32 (drop (unat (ptr - memaddr h)) (membase h))"

lemma ready_pool_membase: "ready_pool h \<Longrightarrow> length m = length (membase h) \<Longrightarrow> ready_pool (h\<lparr>membase := m\<rparr>)"
  by (simp add: ready_pool_def pool_ok_def)

lemma msg_block_bounds:
  assumes "msg_block h ptr"
  shows "unat (ptr - memaddr h) + 32 \<le> length (membase h)" and "length (block_bytes h ptr) = 32"
proof -
  obtain k where k: "k < memtblsize h" "ptr = memaddr h + of_nat (k * 32)" and r: "ready_pool h"
    using assms by (auto simp: msg_block_def)
  have p: "pool_ok h" "memblksize h = 32" using r by (simp_all add: ready_pool_def)
  have "unat (of_nat (k * 32) :: u32) = k * 32"
    using offset_not_error(1) [OF p(1), of k 1] p(2) k(1) by simp
  moreover have "k * 32 + 32 \<le> length (membase h)"
    using p k(1) by (simp add: pool_ok_def)
  ultimately show "unat (ptr - memaddr h) + 32 \<le> length (membase h)" using k(2) by simp
  then show "length (block_bytes h ptr) = 32" by (simp add: block_bytes_def)
qed

lemma heap_get_block:
  assumes "msg_block h ptr" and "i + n \<le> 32"
  shows "heap_get ptr i n h = Inr (take n (drop i (block_bytes h ptr)))"
proof -
  have "ptr \<noteq> 0" using assms(1) by (simp add: msg_block_def)
  moreover have "take n (drop i (block_bytes h ptr)) = take n (drop (unat (ptr - memaddr h) + i) (membase h))"
    using assms(2) by (simp add: block_bytes_def drop_take min_def add.commute)
  ultimately show ?thesis
    using msg_block_bounds(1) [OF assms(1)] assms(2) by (simp add: heap_get_def get_bytes_ok)
qed

lemma heap_put_block:
  assumes "msg_block h ptr" and "i + length bs \<le> 32"
  obtains h' where "heap_put ptr i bs h = Inr h'" "msg_block h' ptr"
    "block_bytes h' ptr = overlay i bs (block_bytes h ptr)" "memaddr h' = memaddr h"
proof -
  let ?a = "unat (ptr - memaddr h)"
  let ?h = "h\<lparr>membase := overlay (?a + i) bs (membase h)\<rparr>"
  note b = msg_block_bounds(1) [OF assms(1)]
  have ptr: "ptr \<noteq> 0" "ready_pool h" using assms(1) by (simp_all add: msg_block_def)
  have "heap_put ptr i bs h = Inr ?h"
    using b assms(2) ptr by (simp add: heap_put_def put_bytes_ok overlay_def)
  moreover have "ready_pool ?h" using b assms(2) ptr by (intro ready_pool_membase) simp_all
  then have "msg_block ?h ptr" using assms(1) by (simp add: msg_block_def allocations_def)
  moreover have "block_bytes ?h ptr = overlay i bs (block_bytes h ptr)"
    using b assms(2) by (intro nth_equalityI) (auto simp: block_bytes_def nth_overlay)
  ultimately show ?thesis using that by simp
qed

lemma myfree_block:
  assumes "msg_block h ptr"
  obtains h' where "myfree h ptr = Inr h'" "msg_block h' ptr" "block_bytes h' ptr = block_bytes h ptr"
    "memaddr h' = memaddr h"
proof -
  obtain k where k: "k < memtblsize h" "ptr = memaddr h + of_nat (k * 32)" "ptr \<noteq> 0"
      "memmap h ! k = 0 \<or> (\<exists>l. (k, l) \<in> set (allocations h))" and r: "ready_pool h"
    using assms by (auto simp: msg_block_def)
  have p: "pool_ok h" "memblksize h = 32" "memrdy h \<noteq> 0" using r by (simp_all add: ready_pool_def)
  have off: "unat (of_nat (k * 32) :: u32) = k * 32" "k * 32 < memsize h"
    using offset_not_error(1,3) [OF p(1), of k 1] p(2) k(1) by simp_all
  have len: "length (memmap h) = memtblsize h" using p(1) by (simp add: pool_ok_def)
  show ?thesis
  proof (cases "memmap h ! k = 0")
    case True
    have "mark_blocks (memmap h) k 0 0 = Inr (memmap h)" by (simp add: mark_blocks_def)
    then have "myfree h ptr = Inr h"
      using True k off p len by (simp add: myfree_def my_mem_free_def)
    with that assms show ?thesis by blast
  next
    case False
    then obtain l where l: "(k, l) \<in> set (allocations h)" using k(4) by blast
    obtain h' where h': "my_mem_free h (of_nat (k * 32)) = Inr (0, h')" "pool_ok h'"
        "h' = h\<lparr>memmap := memmap h'\<rparr>" "free_run (memmap h') k l"
      using my_mem_free_allocation [OF p(1,3) l] p(2) by auto
    have same: "memrdy h' = memrdy h" "memblksize h' = memblksize h" "memtblsize h' = memtblsize h"
        "memaddr h' = memaddr h" "membase h' = membase h"
      by (subst h'(3), simp)+
    have "0 < l" using blocks_bounds [of "memmap h" k l 0] p(1) l by (simp add: pool_ok_def allocations_def)
    then have "memmap h' ! k = 0" using h'(4) by (auto simp: free_run_def)
    then have "msg_block h' ptr" using h'(2) same p k by (auto simp: msg_block_def ready_pool_def)
    moreover have "myfree h ptr = Inr h'" using h'(1) k by (simp add: myfree_def)
    moreover have "block_bytes h' ptr = block_bytes h ptr" by (simp add: block_bytes_def same)
    ultimately show ?thesis using that same by blast
  qed
qed

section \<open>Events on their way to the server\<close>

definition event_msg :: "u8 \<Rightarrow> u8 list \<Rightarrow> u8 list" where
  "event_msg n row = [0xAA, if row ! 0 AND 0x03 = 0x01 then 0x11 else 0x13] @
     take 4 (drop 1 row) @ take 8 (drop 5 row) @ [n, row ! 13]"

definition event_flag :: "u8 list \<Rightarrow> bool" where
  "event_flag row \<longleftrightarrow> row ! 0 AND 0x03 = 0x01 \<or> row ! 0 AND 0x03 = 0x02"

lemma take_overlay_prefix:
  "i + length bs \<le> length m \<Longrightarrow> take (i + length bs) (overlay i bs m) = take i m @ bs"
  by (simp add: overlay_def)

lemma fill_event_ok:
  assumes "msg_block h ptr" and "length row = 14" and "event_flag row"
  obtains h' where "fill_event ptr n row h = Inr h'" "msg_block h' ptr"
    "take 16 (block_bytes h' ptr) = event_msg n row"
proof -
  let ?k = "if row ! 0 AND 0x03 = 0x01 then 0x11 else 0x13 :: u8"
  let ?d = "take 4 (drop 1 row) @ take 8 (drop 5 row) @ [n, row ! 13]"
  have kind: "event_kind (row ! 0) = Some ?k"
    using assms(3) by (auto simp: event_flag_def event_kind_def)
  have d: "length ?d = 14" using assms(2) by simp
  obtain h1 where h1: "heap_put ptr 0 [0xAA] h = Inr h1" "msg_block h1 ptr"
      "block_bytes h1 ptr = overlay 0 [0xAA] (block_bytes h ptr)"
    using heap_put_block [OF assms(1), of 0 "[0xAA]"] by auto
  obtain h2 where h2: "heap_put ptr 1 [?k] h1 = Inr h2" "msg_block h2 ptr"
      "block_bytes h2 ptr = overlay 1 [?k] (block_bytes h1 ptr)"
    using heap_put_block [OF h1(2), of 1 "[?k]"] by auto
  obtain h3 where h3: "heap_put ptr 2 ?d h2 = Inr h3" "msg_block h3 ptr"
      "block_bytes h3 ptr = overlay 2 ?d (block_bytes h2 ptr)"
    using heap_put_block [OF h2(2), of 2 ?d] d by auto
  have len: "length (block_bytes h ptr) = 32" using assms(1) by (rule msg_block_bounds)
  have "block_bytes h3 ptr = overlay 0 ([0xAA] @ [?k] @ ?d) (block_bytes h ptr)"
    using len d by (simp add: h1(3) h2(3) h3(3) overlay_append del: append.simps)
  then have "take 16 (block_bytes h3 ptr) = event_msg n row"
    using len d take_overlay_prefix [of 0 "[0xAA] @ [?k] @ ?d" "block_bytes h ptr"]
    by (simp add: event_msg_def)
  moreover have "fill_event ptr n row h = Inr h3"
    using h1(1) h2(1) h3(1) kind assms(2) by (simp add: fill_event_def get_bytes_all del: drop_Suc_Cons)
  ultimately show ?thesis using that h3(2) by blast
qed

lemma post_event_ok:
  assumes "rows_ok (core s)" and "unat n \<le> 80" and "event_flag (g_RUNDate (core s) ! unat n)"
    and "msg_block (heap s) ptr" and "length (q_msg s) < 64"
  obtains h where "msg_block h ptr" "take 16 (block_bytes h ptr) = event_msg n (g_RUNDate (core s) ! unat n)"
    "post_event ptr n s = Inr (s\<lparr>heap := h, q_msg := q_msg s @ [ptr],
       core := (core s)\<lparr>g_RUNDate := (g_RUNDate (core s))[unat n := (g_RUNDate (core s) ! unat n)
         [0 := g_RUNDate (core s) ! unat n ! 0 AND NOT 0x03]]\<rparr>\<rparr>)"
proof -
  let ?row = "g_RUNDate (core s) ! unat n"
  have row: "length ?row = 14" "length (g_RUNDate (core s)) = 81"
    using assms(1,2) by (simp_all add: rows_ok_nth rows_ok_def)
  obtain h where h: "fill_event ptr n ?row (heap s) = Inr h" "msg_block h ptr"
      "take 16 (block_bytes h ptr) = event_msg n ?row"
    using assms(4) row(1) assms(3) by (rule fill_event_ok)
  have "?row ! 0 AND 0x03 \<noteq> 0" using assms(3) by (auto simp: event_flag_def)
  moreover have "OSQPost ptr (q_msg s) = (True, q_msg s @ [ptr])"
    using assms(5) by (simp add: OSQPost_def MsgGrp_SIZE_def)
  ultimately have "post_event ptr n s = Inr (s\<lparr>heap := h, q_msg := q_msg s @ [ptr],
       core := (core s)\<lparr>g_RUNDate := (g_RUNDate (core s))[unat n := ?row[0 := ?row ! 0 AND NOT 0x03]]\<rparr>\<rparr>)"
    using h(1) row assms(2) run_set_ok [OF assms(1,2), of 0] by (simp add: post_event_def)
  with h that show ?thesis by blast
qed

text \<open>The frame of a message: 33 bytes.\<close>

definition card_buf_ok :: "u8 list \<Rightarrow> bool" where
  "card_buf_ok cb \<longleftrightarrow> length cb = 33 \<and> cb ! 1 = 33"

definition card_bytes :: "u8 list \<Rightarrow> u8 list \<Rightarrow> u8 list" where
  "card_bytes m cb = take 2 cb @ [m ! 1] @ take 16 (drop 3 cb) @ take 8 (drop 2 m) @
     [m ! 13, m ! 10, m ! 11, m ! 12, m ! 14, m ! 15]"

lemma card_frame_ok:
  assumes "card_buf_ok cb" and "length m = 16"
  shows "card_frame m cb = Inr (card_bytes m cb)" and "card_buf_ok (card_bytes m cb)"
proof -
  let ?d = "take 8 (drop 2 m) @ [m ! 13, m ! 10, m ! 11, m ! 12, m ! 14, m ! 15]"
  have len: "length cb = 33" "length ?d = 14" using assms by (simp_all add: card_buf_ok_def)
  have "overlay 19 ?d (cb[2 := m ! 1]) = card_bytes m cb"
    using len assms(2)
    by (intro nth_equalityI)
       (auto simp: nth_overlay card_bytes_def nth_append nth_list_update)
  then show "card_frame m cb = Inr (card_bytes m cb)"
    using len by (simp add: card_frame_def put_bytes_ok overlay_def)
  show "card_buf_ok (card_bytes m cb)"
    using assms by (simp add: card_buf_ok_def card_bytes_def nth_append)
qed

lemma tcp_card_ok:
  assumes "q_msg s = ptr # q" and "msg_block (heap s) ptr" and "card_buf_ok (tcp_client_cardsendbuf s)"
    and "take 16 (block_bytes (heap s) ptr) = m"
  obtains h where "msg_block h ptr" "block_bytes h ptr = block_bytes (heap s) ptr"
    "tcp_card s = Inr (s\<lparr>heap := h, q_msg := q,
       tcp_client_cardsendbuf := card_bytes m (tcp_client_cardsendbuf s),
       tcp_out := tcp_out s @ [card_bytes m (tcp_client_cardsendbuf s)]\<rparr>)"
proof -
  let ?cb = "tcp_client_cardsendbuf s"
  have m: "length m = 16" using assms(4) msg_block_bounds(2) [OF assms(2)] by auto
  have ptr: "ptr \<noteq> 0" using assms(2) by (simp add: msg_block_def)
  have get: "heap_get ptr 0 16 (heap s) = Inr m"
    using heap_get_block [OF assms(2), of 0 16] assms(4) by simp
  note f = card_frame_ok [OF assms(3) m]
  have b: "length (card_bytes m ?cb) = 33" "card_bytes m ?cb ! 1 = 33"
    using f(2) by (simp_all add: card_buf_ok_def)
  obtain h where h: "myfree (heap s) ptr = Inr h" "msg_block h ptr" "block_bytes h ptr = block_bytes (heap s) ptr"
    using assms(2) by (rule myfree_block)
  have "net_write (card_bytes m ?cb) (s\<lparr>q_msg := q, tcp_client_cardsendbuf := card_bytes m ?cb\<rparr>) =
      Inr (s\<lparr>q_msg := q, tcp_client_cardsendbuf := card_bytes m ?cb, tcp_out := tcp_out s @ [card_bytes m ?cb]\<rparr>)"
    using b by (simp add: net_write_def get_bytes_all)
  then have "tcp_card s = Inr (s\<lparr>heap := h, q_msg := q, tcp_client_cardsendbuf := card_bytes m ?cb,
       tcp_out := tcp_out s @ [card_bytes m ?cb]\<rparr>)"
    using assms(1) ptr get f(1) h(1) by (simp add: tcp_card_def OSQPend_def)
  with h that show ?thesis by blast
qed

section \<open>Answers on their way to the reader\<close>

definition card_answer :: "u8 \<Rightarrow> u8 list \<Rightarrow> u8 list \<Rightarrow> u8 \<Rightarrow> u8 \<Rightarrow> u8 list" where
  "card_answer chk cno money no com = 0xAA # cno @ [chk] @ money @ [no, com]"

lemma copy_chain_ok:
  "length buf = 1024 \<Longrightarrow> d + length (concat qs) \<le> 1024 \<Longrightarrow>
   copy_chain qs d buf = Inr (overlay d (concat qs) buf)"
proof (induction qs arbitrary: d buf)
  case Nil
  then show ?case by (simp add: overlay_def)
next
  case (Cons q qs)
  let ?b = "overlay d q buf"
  have "copy_chain qs (d + length q) ?b = Inr (overlay (d + length q) (concat qs) ?b)"
    using Cons by simp
  also have "overlay (d + length q) (concat qs) ?b = overlay d (concat (q # qs)) buf"
    using Cons.prems by (simp add: overlay_append)
  finally have IH: "copy_chain qs (d + length q) ?b = Inr (overlay d (concat (q # qs)) buf)" .
  have le: "(1024 - d < length q) = False" "(1024 < d + length q) = False" using Cons.prems(2) by auto
  have put: "put_bytes buf d q = Inr ?b" using Cons.prems by (simp add: put_overlay)
  show ?case
    by (simp only: copy_chain.simps TCP_CLIENT_RX_BUFSIZE_def le if_False put ebind_Inr IH)
qed

lemma post_answer_ok:
  assumes "msg_block (heap s) ptr" and "length m \<le> 32" and "length (q_msg_ser s) < 64"
  obtains h where "msg_block h ptr" "take (length m) (block_bytes h ptr) = m"
    "post_answer ptr m s = Inr (s\<lparr>heap := h, q_msg_ser := q_msg_ser s @ [ptr]\<rparr>)"
proof -
  obtain h where h: "heap_put ptr 0 m (heap s) = Inr h" "msg_block h ptr"
      "block_bytes h ptr = overlay 0 m (block_bytes (heap s) ptr)"
    using heap_put_block [OF assms(1), of 0 m] assms(2) by auto
  have "take (length m) (block_bytes h ptr) = m"
    using take_overlay_prefix [of 0 m "block_bytes (heap s) ptr"] h(3) assms(2)
      msg_block_bounds(2) [OF assms(1)] by simp
  moreover have "post_answer ptr m s = Inr (s\<lparr>heap := h, q_msg_ser := q_msg_ser s @ [ptr]\<rparr>)"
    using h(1) assms(3) by (simp add: post_answer_def OSQPost_def MsgGrp_SIZE_def)
  ultimately show ?thesis using that h(2) by blast
qed

lemma parse_card_answer:
  "parse_answer ([0xF3, 0x12, 0x12, 0xAA, x4, x5, x6, x7, c1, c2, c3, c4, chk, m1, m2, m3, no, com] @ rest) =
     Inr (Some [0xAA, c1, c2, c3, c4, chk, m1, m2, m3, no, com])"
proof -
  let ?f = "[0xF3, 0x12, 0x12, 0xAA, x4, x5, x6, x7, c1, c2, c3, c4, chk, m1, m2, m3, no, com] @ rest"
  have "get_bytes ?f 0 18 = Inr (take 18 ?f)" by (simp add: get_bytes_ok)
  moreover have "from_end ?f 2 = Inr no" by (simp add: from_end_def)
  ultimately show ?thesis by (simp add: parse_answer_def)
qed

text \<open>
  Every \<open>netconn_recv\<close> starts again with a cleared buffer. When TCP delivers an answer in two parts, the first part is taken for a whole answer: here the part that
  ends with the card number is passed on with the balance, the check byte, the session byte and the reader all 0.
\<close>

lemma split_answer_misread:
  "copy_chain [[0xF3, 0x12, 0x12, 0xAA, x4, x5, x6, x7, c1, c2, c3, c4]] 0 (replicate TCP_CLIENT_RX_BUFSIZE 0) = Inr buf \<Longrightarrow>
   parse_answer buf = Inr (Some [0xAA, c1, c2, c3, c4, 0, 0, 0, 0, 0, 0])"
proof -
  let ?part = "[0xF3, 0x12, 0x12, 0xAA, x4, x5, x6, x7, c1, c2, c3, c4]"
  assume c: "copy_chain [?part] 0 (replicate TCP_CLIENT_RX_BUFSIZE 0) = Inr buf"
  have "copy_chain [?part] 0 (replicate TCP_CLIENT_RX_BUFSIZE 0) = Inr (?part @ replicate 1012 0)"
    using copy_chain_ok [of "replicate 1024 0" 0 "[?part]"] by (simp add: TCP_CLIENT_RX_BUFSIZE_def overlay_def)
  moreover have "replicate 1012 0 = replicate 6 (0 :: u8) @ replicate 1006 0" by (simp flip: replicate_add)
  ultimately have "buf = [0xF3, 0x12, 0x12, 0xAA, x4, x5, x6, x7, c1, c2, c3, c4, 0, 0, 0, 0, 0, 0] @ replicate 1006 0"
    using c by (simp add: numeral_eq_Suc)
  then show ?thesis by (simp only: parse_card_answer)
qed

section \<open>Properties\<close>

text \<open>
  C7. A card event reaches the server. When the queue is empty, the event recorded for a reader is
  handed over and sent as one 33-byte frame: the preset header and communication code, the kind of
  the event (0x11 inserted, 0x13 removed), the reader's serial number, the card number, check byte
  and balance of the event, the logical address and the session byte; the queue is empty again and
  the event flags of the row are cleared.
\<close>

theorem card_event_reaches_server:
  assumes "rows_ok (core s)" and "unat n \<le> 80" and "msg_block (heap s) ptr" and "q_msg s = []"
    and "card_buf_ok (tcp_client_cardsendbuf s)"
    and "g_RUNDate (core s) ! unat n = [f, s1, s2, s3, s4, c1, c2, c3, c4, m1, m2, m3, chk, com]"
    and "f AND 0x03 = 0x01 \<or> f AND 0x03 = 0x02"
  shows "\<exists>t u. post_event ptr n s = Inr t \<and> tcp_card t = Inr u \<and> q_msg u = [] \<and>
    tcp_out u = tcp_out s @ [take 2 (tcp_client_cardsendbuf s) @
      [if f AND 0x03 = 0x01 then 0x11 else 0x13] @ take 16 (drop 3 (tcp_client_cardsendbuf s)) @
      [s1, s2, s3, s4, c1, c2, c3, c4, chk, m1, m2, m3, n, com]] \<and>
    g_RUNDate (core u) ! unat n ! 0 AND 0x03 = 0"
proof -
  let ?row = "[f, s1, s2, s3, s4, c1, c2, c3, c4, m1, m2, m3, chk, com]"
  have flag: "event_flag (g_RUNDate (core s) ! unat n)"
    using assms(6,7) by (simp add: event_flag_def)
  obtain h where h: "msg_block h ptr" "take 16 (block_bytes h ptr) = event_msg n ?row"
      "post_event ptr n s = Inr (s\<lparr>heap := h, q_msg := [ptr],
       core := (core s)\<lparr>g_RUNDate := (g_RUNDate (core s))[unat n := ?row[0 := f AND NOT 0x03]]\<rparr>\<rparr>)"
    using post_event_ok [OF assms(1,2) flag assms(3)] assms(4,6) by auto
  let ?t = "s\<lparr>heap := h, q_msg := [ptr],
       core := (core s)\<lparr>g_RUNDate := (g_RUNDate (core s))[unat n := ?row[0 := f AND NOT 0x03]]\<rparr>\<rparr>"
  obtain h2 where h2: "tcp_card ?t = Inr (?t\<lparr>heap := h2, q_msg := [],
       tcp_client_cardsendbuf := card_bytes (event_msg n ?row) (tcp_client_cardsendbuf s),
       tcp_out := tcp_out s @ [card_bytes (event_msg n ?row) (tcp_client_cardsendbuf s)]\<rparr>)"
    using tcp_card_ok [of ?t ptr "[]" "event_msg n ?row"] h(1,2) assms(5) by auto
  have "(f AND NOT 0x03) AND 0x03 = 0" by (simp add: and.assoc)
  moreover have "length (g_RUNDate (core s)) = 81" using assms(1) by (simp add: rows_ok_def)
  moreover have "card_bytes (event_msg n ?row) cb = take 2 cb @
      [if f AND 0x03 = 0x01 then 0x11 else 0x13] @ take 16 (drop 3 cb) @
      [s1, s2, s3, s4, c1, c2, c3, c4, chk, m1, m2, m3, n, com]" for cb
    by (simp add: card_bytes_def event_msg_def)
  ultimately show ?thesis using h(3) h2 assms(2) by simp
qed

text \<open>
  C28. Two events in the queue become one. \<open>led_task\<close> builds every message in the same block, so
  when the events of two readers are handed over before the server task runs, both messages say
  the second event: it is sent twice and the first event is lost (and the block, freed after the
  first frame, is read and freed again for the second).
\<close>

theorem second_event_replaces_first:
  assumes "rows_ok (core s)" and "unat n1 \<le> 80" and "unat n2 \<le> 80" and "n1 \<noteq> n2"
    and "msg_block (heap s) ptr" and "q_msg s = []" and "card_buf_ok (tcp_client_cardsendbuf s)"
    and "event_flag (g_RUNDate (core s) ! unat n1)" and "event_flag (g_RUNDate (core s) ! unat n2)"
  shows "\<exists>t1 t2 u1 u2. post_event ptr n1 s = Inr t1 \<and> post_event ptr n2 t1 = Inr t2 \<and>
    tcp_card t2 = Inr u1 \<and> tcp_card u1 = Inr u2 \<and>
    tcp_out u2 = tcp_out s @ replicate 2
      (card_bytes (event_msg n2 (g_RUNDate (core s) ! unat n2)) (tcp_client_cardsendbuf s)) \<and>
    q_msg u2 = []"
proof -
  let ?R = "g_RUNDate (core s)" and ?cb = "tcp_client_cardsendbuf s"
  let ?r1 = "(?R ! unat n1)[0 := ?R ! unat n1 ! 0 AND NOT 0x03]" and ?m2 = "event_msg n2 (?R ! unat n2)"
  obtain h1 where h1: "msg_block h1 ptr" "post_event ptr n1 s = Inr (s\<lparr>heap := h1, q_msg := [ptr],
       core := (core s)\<lparr>g_RUNDate := ?R[unat n1 := ?r1]\<rparr>\<rparr>)"
    using post_event_ok [OF assms(1,2,8,5)] assms(6) by auto
  let ?t1 = "s\<lparr>heap := h1, q_msg := [ptr], core := (core s)\<lparr>g_RUNDate := ?R[unat n1 := ?r1]\<rparr>\<rparr>"
  have rows1: "rows_ok (core ?t1)"
    using rows_ok_update [OF assms(1), of ?r1 "unat n1"] rows_ok_nth [OF assms(1,2)] by simp
  have "unat n1 \<noteq> unat n2" using assms(4) by (simp add: word_unat_eq_iff)
  then have row2: "g_RUNDate (core ?t1) ! unat n2 = ?R ! unat n2" by simp
  obtain h2 where h2: "msg_block h2 ptr" "take 16 (block_bytes h2 ptr) = ?m2"
      "post_event ptr n2 ?t1 = Inr (?t1\<lparr>heap := h2, q_msg := [ptr, ptr],
       core := (core ?t1)\<lparr>g_RUNDate := (g_RUNDate (core ?t1))[unat n2 := (?R ! unat n2)
         [0 := ?R ! unat n2 ! 0 AND NOT 0x03]]\<rparr>\<rparr>)"
    using post_event_ok [OF rows1 assms(3), of ptr] assms(9) row2 h1(1) by auto
  define t2 where "t2 = ?t1\<lparr>heap := h2, q_msg := [ptr, ptr],
       core := (core ?t1)\<lparr>g_RUNDate := (g_RUNDate (core ?t1))[unat n2 := (?R ! unat n2)
         [0 := ?R ! unat n2 ! 0 AND NOT 0x03]]\<rparr>\<rparr>"
  have t2: "heap t2 = h2" "q_msg t2 = [ptr, ptr]" "tcp_client_cardsendbuf t2 = ?cb" "tcp_out t2 = tcp_out s"
    by (simp_all add: t2_def)
  obtain h3 where h3: "msg_block h3 ptr" "block_bytes h3 ptr = block_bytes h2 ptr"
      "tcp_card t2 = Inr (t2\<lparr>heap := h3, q_msg := [ptr], tcp_client_cardsendbuf := card_bytes ?m2 ?cb,
       tcp_out := tcp_out s @ [card_bytes ?m2 ?cb]\<rparr>)"
    using tcp_card_ok [of t2 ptr "[ptr]" ?m2] h2(1,2) assms(7) t2 by auto
  define u1 where "u1 = t2\<lparr>heap := h3, q_msg := [ptr], tcp_client_cardsendbuf := card_bytes ?m2 ?cb,
       tcp_out := tcp_out s @ [card_bytes ?m2 ?cb]\<rparr>"
  have u1: "heap u1 = h3" "q_msg u1 = [ptr]" "tcp_client_cardsendbuf u1 = card_bytes ?m2 ?cb"
      "tcp_out u1 = tcp_out s @ [card_bytes ?m2 ?cb]"
    by (simp_all add: u1_def)
  have m2: "length ?m2 = 16"
    using rows_ok_nth [OF assms(1,3)] by (simp add: event_msg_def)
  obtain h4 where h4: "tcp_card u1 = Inr (u1\<lparr>heap := h4, q_msg := [],
       tcp_client_cardsendbuf := card_bytes ?m2 (card_bytes ?m2 ?cb),
       tcp_out := tcp_out u1 @ [card_bytes ?m2 (card_bytes ?m2 ?cb)]\<rparr>)"
    using tcp_card_ok [of u1 ptr "[]" ?m2] h3(1,2) h2(2) card_frame_ok(2) [OF assms(7) m2] u1 by auto
  have same: "card_bytes ?m2 (card_bytes ?m2 ?cb) = card_bytes ?m2 ?cb"
    using assms(7) by (simp add: card_bytes_def card_buf_ok_def)
  show ?thesis
    using h1(2) h2(3) h3(3) h4 same u1(4) unfolding t2_def [symmetric] u1_def [symmetric]
    by (simp add: numeral_2_eq_2)
qed

text \<open>
  C8. A card answer of the server reaches the reader, when one \<open>netconn_recv\<close> delivers the whole of it and nothing else (in one buffer or
  in a chain of several) and no other answer is waiting: receiving it and the next delivery by
  \<open>led_task\<close> hand exactly the two frames of the answer for the reader it names to the CAN controller: the card number
  and session byte; the balance, check byte, session byte and the CRC-8 of the whole.
\<close>

theorem server_answer_reaches_reader:
  assumes "rows_ok (core s)" and "unat no \<le> 80" and "msg_block (heap s) (ser_Date v)" and "q_msg_ser s = []"
    and "concat chain =
      [0xF3, 0x12, 0x12, 0xAA, x4, x5, x6, x7, c1, c2, c3, c4, chk, m1, m2, m3, no, com]"
  shows "\<exists>v1 t u. tcp_receive (Recv_Ok chain) (v, s) = Inr (False, v1, t) \<and> led_deliver E t = Inr u \<and>
    q_msg_ser u = [] \<and>
    sent (can (core u)) = sent (can (core s)) @
      [\<lparr>StdId = 0x200 OR ucast no, ExtId = 0x1800F001, tx_DLC = 8,
        tx_Data = [0x08, no, c1, c2, c3, c4, com, 0]\<rparr>,
       \<lparr>StdId = 0x200 OR ucast no, ExtId = 0x1800F001, tx_DLC = 8,
        tx_Data = [0x09, no, m1, m2, m3, chk, com, crc8_poly [c1, c2, c3, c4, com, m1, m2, m3, chk, com]]\<rparr>]"
proof -
  let ?W = "[0xAA, c1, c2, c3, c4, chk, m1, m2, m3, no, com]"
  let ?f = "[0xF3, 0x12, 0x12, 0xAA, x4, x5, x6, x7, c1, c2, c3, c4, chk, m1, m2, m3, no, com]"
  let ?buf = "?f @ replicate 1006 0"
  define v1 where "v1 = (if SendRecvCount v > 0 then v\<lparr>SendRecvCount := SendRecvCount v - 1\<rparr> else v)"
  have ser: "ser_Date v1 = ser_Date v" by (simp add: v1_def)
  have copy: "copy_chain chain 0 (replicate TCP_CLIENT_RX_BUFSIZE 0) = Inr ?buf"
    using copy_chain_ok [of "replicate 1024 0" 0 chain] assms(5)
    by (simp add: TCP_CLIENT_RX_BUFSIZE_def overlay_def)
  let ?s1 = "s\<lparr>tcp_client_recvbuf := ?buf\<rparr>"
  have pre: "msg_block (heap ?s1) (ser_Date v)" "length ?W \<le> 32" "length (q_msg_ser ?s1) < 64"
    using assms(3,4) by simp_all
  obtain h where h0: "msg_block h (ser_Date v)" "take (length ?W) (block_bytes h (ser_Date v)) = ?W"
      "post_answer (ser_Date v) ?W ?s1 = Inr (?s1\<lparr>heap := h, q_msg_ser := q_msg_ser ?s1 @ [ser_Date v]\<rparr>)"
    by (rule post_answer_ok [OF pre])
  have "length ?W = 11" "q_msg_ser ?s1 @ [ser_Date v] = [ser_Date v]" using assms(4) by simp_all
  with h0 have h: "msg_block h (ser_Date v)" "take 11 (block_bytes h (ser_Date v)) = ?W"
      "post_answer (ser_Date v) ?W ?s1 = Inr (?s1\<lparr>heap := h, q_msg_ser := [ser_Date v]\<rparr>)"
    by (simp_all only:)
  define t where "t = ?s1\<lparr>heap := h, q_msg_ser := [ser_Date v]\<rparr>"
  have recv: "tcp_receive (Recv_Ok chain) (v, s) = Inr (False, v1, t)"
    using parse_card_answer h(3) by (simp add: tcp_receive_def copy Let_def v1_def t_def)
  let ?b = "block_bytes h (ser_Date v)"
  have bl: "length ?b = 32" by (rule msg_block_bounds(2) [OF h(1)])
  have bn: "?b ! i = ?W ! i" if "i < 11" for i
    using arg_cong [OF h(2), of "\<lambda>xs. xs ! i"] that by simp
  have W: "?b ! 0 = 0xAA" "?b ! 9 = no" "11 \<le> length ?b"
    using bl by (simp_all add: bn)
  have get: "heap_get (ser_Date v) 0 32 h = Inr ?b"
    using heap_get_block [OF h(1), of 0 32] bl by simp
  obtain c where c: "WriteRFIDData E ?b (core s) = Inr c" "sent (can c) = sent (card_sent ?b (can (core s)))"
    using WriteRFIDData_card [OF assms(1) W(3) W(1), of E] W(2) assms(2) by auto
  have cs: "card_sent ?b (can (core s)) = card_sent ?W (can (core s))"
    by (simp add: card_sent_def card_buffer_def bn)
  obtain h2 where h2: "myfree h (ser_Date v) = Inr h2"
    using h(1) by (rule myfree_block)
  have nz: "ser_Date v \<noteq> 0" using h(1) by (simp add: msg_block_def)
  have "led_deliver E t = Inr (t\<lparr>core := c, q_msg_ser := [], heap := h2\<rparr>)"
    using get c(1) h2 nz by (simp add: led_deliver_def OSQPend_def t_def)
  moreover have "sent (can c) = sent (card_sent ?W (can (core s)))" using c(2) cs by simp
  then have "sent (can c) = sent (can (core s)) @
      [\<lparr>StdId = 0x200 OR ucast no, ExtId = 0x1800F001, tx_DLC = 8,
        tx_Data = [0x08, no, c1, c2, c3, c4, com, 0]\<rparr>,
       \<lparr>StdId = 0x200 OR ucast no, ExtId = 0x1800F001, tx_DLC = 8,
        tx_Data = [0x09, no, m1, m2, m3, chk, com, crc8_poly [c1, c2, c3, c4, com, m1, m2, m3, chk, com]]\<rparr>]"
    by (simp add: card_sent_def card_buffer_def frame_sent_def)
  ultimately show ?thesis using recv by simp
qed

text \<open>
  Heartbeats go round the readers, up to the last one. A requested heartbeat turns to the next
  logical address (1 after 80); for a reader that is present one 31-byte frame is sent with its
  serial number, firmware versions, state (0x00 when lost, else 0xAA) and address, and the request
  is cleared. For address 80 the version is read from \<open>KJ_Versions[80]\<close>, past the end of the array.
\<close>

theorem tcp_heartbeat_next_reader:
  assumes "rows_ok (core s)" and "length (KJ_Versions (core s)) = 80"
    and "length (tcp_client_heartbeatsendbuf s) = 32" and "tcp_client_heartbeatsendbuf s ! 1 = 31"
    and "tcp_client_flag s AND LWIP_SEND_HeartbeatDATA = LWIP_SEND_HeartbeatDATA"
    and "unat (i_SendCount v) \<le> 80" and "i = (if i_SendCount v = 80 then 1 else i_SendCount v + 1)"
    and "g_RUNDate (core s) ! unat i = f # s1 # s2 # s3 # s4 # rest" and "f AND 0xC0 \<noteq> 0"
  shows "if unat i < 80
    then \<exists>v' s'. tcp_heartbeat (v, s) = Inr (v', s') \<and> i_SendCount v' = i \<and>
      tcp_out s' = tcp_out s @ [take 23 (tcp_client_heartbeatsendbuf s) @ [s1, s2, s3, s4, 0x01,
        KJ_Versions (core s) ! unat i, if f AND 0x20 = 0x20 then 0x00 else 0xAA, i]] \<and>
      tcp_client_flag s' AND LWIP_SEND_HeartbeatDATA = 0
    else tcp_heartbeat (v, s) = Inl Out_Of_Bounds"
proof -
  have i: "(if unat (i_SendCount v) \<ge> BUSNUM_SIZE then 1 else i_SendCount v + 1) = i"
    using assms(6,7) by (auto simp: BUSNUM_SIZE_def word_unat_eq_iff)
  have i80: "unat i \<le> 80"
  proof (cases "i_SendCount v = 80")
    case False
    then have "unat (i_SendCount v) < unat (80 :: u8)" using assms(6) by (simp add: word_unat_eq_iff)
    then have "i_SendCount v < 80" by (simp only: word_less_nat_alt)
    from inc_le [OF this] False assms(7) show ?thesis by (simp add: word_le_nat_alt)
  qed (use assms(7) in simp)
  have row: "run_get (core s) (unat i) 0 = Inr f"
    using run_get_ok [OF assms(1) i80, of 0] assms(8) by simp
  have len: "length (g_RUNDate (core s)) = 81" using assms(1) by (simp add: rows_ok_def)
  have r5: "get_bytes (g_RUNDate (core s) ! unat i) 0 5 = Inr [f, s1, s2, s3, s4]"
    using get_bytes_ok [of 0 5 "g_RUNDate (core s) ! unat i"] assms(8) by simp
  let ?hb = "tcp_client_heartbeatsendbuf s"
  have and0: "(x AND NOT LWIP_SEND_HeartbeatDATA) AND LWIP_SEND_HeartbeatDATA = 0" for x
    by (simp add: and.assoc)
  show ?thesis
  proof (cases "unat i < 80")
    case True
    let ?d = "[s1, s2, s3, s4, 0x01, KJ_Versions (core s) ! unat i,
        if f AND 0x20 = 0x20 then 0x00 else 0xAA, i]"
    let ?new = "overlay 23 ?d ?hb"
    have fr: "heartbeat_frame i s = Inr ?new"
      using True len assms(2,3) r5 by (simp add: heartbeat_frame_def put_overlay)
    have new: "length ?new = 32" "?new ! 1 = 31" "take 31 ?new = take 23 ?hb @ ?d"
      using assms(3,4) take_overlay_prefix [of 23 ?d ?hb] by (simp_all add: nth_overlay)
    have w: "net_write ?new (s\<lparr>tcp_client_heartbeatsendbuf := ?new\<rparr>) =
        Inr (s\<lparr>tcp_client_heartbeatsendbuf := ?new, tcp_out := tcp_out s @ [take 23 ?hb @ ?d]\<rparr>)"
      using new by (simp add: net_write_def get_bytes_ok del: overlay_def)
    show ?thesis
      using True row fr w assms(5,9) and0 by (simp add: tcp_heartbeat_def i Let_def)
  next
    case False
    then have "heartbeat_frame i s = Inl Out_Of_Bounds"
      using len i80 assms(2) r5 by (simp add: heartbeat_frame_def)
    then show ?thesis
      using False row assms(5,9) by (simp add: tcp_heartbeat_def i Let_def)
  qed
qed

section \<open>Witnesses\<close>

definition demo_row :: "u8 \<Rightarrow> u8 \<Rightarrow> u8 list" where
  "demo_row f x = [f, x, 2, 3, 4, 0x11, 0x22, 0x33, 0x44, 0, 1, 0x90, 0x5A, 0x42]"

definition demo_sys :: "at24 sys" where
  "demo_sys = \<lparr>core = (start_acu fresh_bus)\<lparr>g_RUNDate :=
       (replicate 81 (replicate 14 0))[7 := demo_row 0x81 1, 8 := demo_row 0x82 9]\<rparr>,
     heap = small_pool, q_msg = [], q_msg_ser = [], tcp_client_flag = 0x40,
     tcp_client_heartbeatsendbuf = [0xF3, 31, 0x01] @ replicate 29 0,
     tcp_client_cardsendbuf = [0xF3, 33, 0x11] @ replicate 30 0,
     tcp_client_recvbuf = replicate 1024 0, tcp_out = [], g_PowerUpFlag = 0xAA, g_NewAddFlag = 0\<rparr>"

lemma demo_sys_sel [simp]:
  "heap demo_sys = small_pool" "q_msg demo_sys = []" "q_msg_ser demo_sys = []"
  "tcp_client_cardsendbuf demo_sys = [0xF3, 33, 0x11] @ replicate 30 0"
  "tcp_client_heartbeatsendbuf demo_sys = [0xF3, 31, 0x01] @ replicate 29 0"
  "tcp_client_flag demo_sys = 0x40" "KJ_Versions (core demo_sys) = replicate 80 0"
  "tcp_out demo_sys = []"
  "g_RUNDate (core demo_sys) = (replicate 81 (replicate 14 0))[7 := demo_row 0x81 1, 8 := demo_row 0x82 9]"
  by (simp_all add: demo_sys_def start_acu_def)

lemma demo_rows: "rows_ok (core demo_sys)"
  by (auto simp: rows_ok_def demo_row_def dest!: subsetD [OF set_update_subset_insert])

lemma demo_block: "msg_block small_pool 0x20001060"
proof -
  have "(3, 1) \<in> set (allocations small_pool)" by (simp add: allocations_def small_pool_def)
  then have "\<exists>l. (3, l) \<in> set (allocations small_pool)" by blast
  then show ?thesis
    unfolding msg_block_def using small_pool_ok
    by (intro conjI exI [of _ 3]) (simp_all add: ready_pool_def)
qed

lemma demo_flags: "(0x81 :: u8) AND 0x03 = 0x01" "(0x82 :: u8) AND 0x03 = 0x02"
  by simp_all

lemma card_event_reaches_server_witness:
  "\<exists>t u. post_event 0x20001060 7 demo_sys = Inr t \<and> tcp_card t = Inr u \<and> q_msg u = [] \<and>
    tcp_out u = tcp_out demo_sys @ [take 2 (tcp_client_cardsendbuf demo_sys) @
      [if (0x81 :: u8) AND 0x03 = 0x01 then 0x11 else 0x13] @ take 16 (drop 3 (tcp_client_cardsendbuf demo_sys)) @
      [1, 2, 3, 4, 0x11, 0x22, 0x33, 0x44, 0x5A, 0, 1, 0x90, 7, 0x42]] \<and>
    g_RUNDate (core u) ! unat (7 :: u8) ! 0 AND 0x03 = 0"
  by (rule card_event_reaches_server [OF demo_rows])
     (simp_all add: demo_block card_buf_ok_def demo_row_def)

lemma second_event_replaces_first_witness:
  "\<exists>t1 t2 u1 u2. post_event 0x20001060 7 demo_sys = Inr t1 \<and> post_event 0x20001060 8 t1 = Inr t2 \<and>
    tcp_card t2 = Inr u1 \<and> tcp_card u1 = Inr u2 \<and>
    tcp_out u2 = tcp_out demo_sys @ replicate 2
      (card_bytes (event_msg 8 (g_RUNDate (core demo_sys) ! unat (8 :: u8))) (tcp_client_cardsendbuf demo_sys)) \<and>
    q_msg u2 = []"
  by (rule second_event_replaces_first [OF demo_rows])
     (simp_all add: demo_block card_buf_ok_def event_flag_def demo_row_def)

definition demo_tcp :: tcp_vars where
  "demo_tcp = \<lparr>i_SendCount = 6, SendRecvCount = 1, ser_Date = 0x20001060\<rparr>"

lemma server_answer_reaches_reader_witness:
  "\<exists>v1 t u. tcp_receive (Recv_Ok [[0xF3, 0x12, 0x12, 0xAA, 0, 0, 0], [0, 0x11, 0x22, 0x33, 0x44, 0x5A, 0, 1, 0x90, 7, 0x42]])
      (demo_tcp, demo_sys) = Inr (False, v1, t) \<and> led_deliver (reader_env (\<lambda>n. None)) t = Inr u \<and>
    q_msg_ser u = [] \<and>
    sent (can (core u)) = sent (can (core demo_sys)) @
      [\<lparr>StdId = 0x200 OR ucast (7 :: u8), ExtId = 0x1800F001, tx_DLC = 8,
        tx_Data = [0x08, 7, 0x11, 0x22, 0x33, 0x44, 0x42, 0]\<rparr>,
       \<lparr>StdId = 0x200 OR ucast (7 :: u8), ExtId = 0x1800F001, tx_DLC = 8,
        tx_Data = [0x09, 7, 0, 1, 0x90, 0x5A, 0x42, crc8_poly [0x11, 0x22, 0x33, 0x44, 0x42, 0, 1, 0x90, 0x5A, 0x42]]\<rparr>]"
  by (rule server_answer_reaches_reader [OF demo_rows])
     (simp_all add: demo_block demo_tcp_def)

lemma tcp_heartbeat_next_reader_witness:
  "\<exists>v' s'. tcp_heartbeat (demo_tcp, demo_sys) = Inr (v', s') \<and> i_SendCount v' = 7 \<and>
      tcp_client_flag s' AND LWIP_SEND_HeartbeatDATA = 0"
  using tcp_heartbeat_next_reader [OF demo_rows, of demo_tcp 7 "0x81" 1 2 3 4
      "[0x11, 0x22, 0x33, 0x44, 0, 1, 0x90, 0x5A, 0x42]"]
  by (auto simp: demo_tcp_def demo_row_def LWIP_SEND_HeartbeatDATA_def)

text \<open>Reader 80 is polled but the hand-over only ever looks at the rows 0 to 79.\<close>

lemma led_poll_row_80:
  assumes "unat (Led_TaskCount v) \<ge> 80"
  shows "led_poll fuel E TempBuff uBuff (v, s) = Inr (v, s)"
  using assms by (simp add: led_poll_def BUSNUM_SIZE_def)

text \<open>Row 0, whose first byte counts the registered readers, is handed over like an event.\<close>

lemma reader_count_posted_as_event:
  assumes "rows_ok (core s)" and "event_flag (g_RUNDate (core s) ! 0)"
    and "msg_block (heap s) ptr" and "length (q_msg s) < 64"
  shows "\<exists>t. post_event ptr 0 s = Inr t \<and> q_msg t = q_msg s @ [ptr] \<and>
    g_RUNDate (core t) ! 0 ! 0 = g_RUNDate (core s) ! 0 ! 0 AND NOT 0x03"
proof -
  have "unat (0 :: u8) \<le> 80" "event_flag (g_RUNDate (core s) ! unat (0 :: u8))" using assms(2) by simp_all
  with assms obtain h where "post_event ptr 0 s = Inr (s\<lparr>heap := h, q_msg := q_msg s @ [ptr],
       core := (core s)\<lparr>g_RUNDate := (g_RUNDate (core s))[unat (0 :: u8) := (g_RUNDate (core s) ! unat (0 :: u8))
         [0 := g_RUNDate (core s) ! unat (0 :: u8) ! 0 AND NOT 0x03]]\<rparr>\<rparr>)"
    by (elim post_event_ok [of s 0 ptr]) auto
  moreover have "length (g_RUNDate (core s) ! 0) = 14" "length (g_RUNDate (core s)) = 81"
    using assms(1) rows_ok_nth [OF assms(1), of 0] by (simp_all add: rows_ok_def)
  ultimately show ?thesis by auto
qed

end
