(* ===== verification/SerialTerm.thy ===== *)
theory SerialTerm
  imports ACU_Prelude
begin

text \<open>
  The terminal functions of HARDWARE/BSP/common.c: numbers and strings, keys and text on serial port
  3. What the successive calls of \<open>comGetChar\<close> find is a parameter: \<open>poll n\<close> is the outcome of the n-th
  call. The characters sent are collected in the order they are written to the data register; the
  wait for the register to be empty is not modelled. Loops that wait for input take fuel.
\<close>

section \<open>Numbers and strings\<close>

text \<open>\<open>intnum\<close> is signed in C, but divided by the unsigned \<open>Div\<close>: the arithmetic is unsigned.\<close>

fun int2str_loop :: "nat \<Rightarrow> u32 \<Rightarrow> nat \<Rightarrow> u32 \<Rightarrow> u8 list \<Rightarrow> u32 \<Rightarrow> fault + u8 list" where
  "int2str_loop 0 Div j Status str intnum = Inr str"
| "int2str_loop (Suc n) Div j Status str intnum =
     (let c = ucast (intnum div Div + 48) :: u8 in
      ebind (arr_set str j c) (\<lambda>str1.
        if c = 48 \<and> Status = 0
        then int2str_loop n (Div div 10) 0 Status str1 (intnum mod Div)
        else int2str_loop n (Div div 10) (Suc j) (Status + 1) str1 (intnum mod Div)))"

definition Int2Str :: "u8 list \<Rightarrow> u32 \<Rightarrow> fault + u8 list" where
  "Int2Str str intnum = int2str_loop 10 1000000000 0 0 str intnum"

definition IS_AF :: "u8 \<Rightarrow> bool" where "IS_AF c \<longleftrightarrow> 0x41 \<le> c \<and> c \<le> 0x46"
definition IS_af :: "u8 \<Rightarrow> bool" where "IS_af c \<longleftrightarrow> 0x61 \<le> c \<and> c \<le> 0x66"
definition IS_09 :: "u8 \<Rightarrow> bool" where "IS_09 c \<longleftrightarrow> 0x30 \<le> c \<and> c \<le> 0x39"

definition ISVALIDHEX :: "u8 \<Rightarrow> bool" where "ISVALIDHEX c \<longleftrightarrow> IS_AF c \<or> IS_af c \<or> IS_09 c"

definition CONVERTHEX :: "u8 \<Rightarrow> u32" where
  "CONVERTHEX c = (if IS_09 c then ucast c - 0x30 else if IS_AF c then ucast c - 0x41 + 10 else ucast c - 0x61 + 10)"

text \<open>The result and, when \<open>*intnum\<close> is assigned, its value.\<close>

fun hex_loop :: "nat \<Rightarrow> nat \<Rightarrow> u8 list \<Rightarrow> u32 \<Rightarrow> fault + (u32 \<times> u32 option)" where
  "hex_loop 0 i str val = Inr (0, None)"
| "hex_loop (Suc n) i str val =
     ebind (arr_get str i) (\<lambda>c.
       if c = 0 then Inr (1, Some val)
       else if ISVALIDHEX c then hex_loop n (Suc i) str (push_bit 4 val + CONVERTHEX c)
       else Inr (0, None))"

fun dec_loop :: "nat \<Rightarrow> nat \<Rightarrow> u8 list \<Rightarrow> u32 \<Rightarrow> fault + (u32 \<times> u32 option)" where
  "dec_loop 0 i str val = Inr (0, None)"
| "dec_loop (Suc n) i str val =
     ebind (arr_get str i) (\<lambda>c.
       if c = 0 then Inr (1, Some val)
       else if (c = 0x6B \<or> c = 0x4B) \<and> 0 < i then Inr (1, Some (push_bit 10 val))
       else if (c = 0x6D \<or> c = 0x4D) \<and> 0 < i then Inr (1, Some (push_bit 20 val))
       else if IS_09 c then dec_loop n (Suc i) str (val * 10 + (ucast c - 0x30))
       else Inr (0, None))"

definition Str2Int :: "u8 list \<Rightarrow> fault + (u32 \<times> u32 option)" where
  "Str2Int str =
     ebind (arr_get str 0) (\<lambda>c0.
     ebind (if c0 = 0x30 then ebind (arr_get str 1) (\<lambda>c1. Inr (c1 = 0x78 \<or> c1 = 0x58)) else Inr False) (\<lambda>hex.
     if hex
     then ebind (arr_get str 2) (\<lambda>c2. if c2 = 0 then Inr (0, None) else hex_loop 9 2 str 0)
     else dec_loop 11 0 str 0))"

text \<open>The pages of 2 KB a file takes.\<close>

definition FLASH_PagesMask :: "u32 \<Rightarrow> u32" where
  "FLASH_PagesMask sz = (if sz mod 0x800 \<noteq> 0 then sz div 0x800 + 1 else sz div 0x800)"

section \<open>Keys and text\<close>

record serial =
  polls :: nat
  sent :: "u8 list"

definition SerialKeyPressed :: "(nat \<Rightarrow> u8 option) \<Rightarrow> 'a serial_scheme \<Rightarrow> u8 option \<times> 'a serial_scheme" where
  "SerialKeyPressed poll s = (poll (polls s), s\<lparr>polls := polls s + 1\<rparr>)"

fun GetKey :: "nat \<Rightarrow> (nat \<Rightarrow> u8 option) \<Rightarrow> 'a serial_scheme \<Rightarrow> fault + (u8 \<times> 'a serial_scheme)" where
  "GetKey 0 poll s = Inl Still_Running"
| "GetKey (Suc n) poll s =
     (let (k, s1) = SerialKeyPressed poll s in
      case k of Some c \<Rightarrow> Inr (c, s1) | None \<Rightarrow> GetKey n poll s1)"

definition SerialPutChar :: "u8 \<Rightarrow> 'a serial_scheme \<Rightarrow> 'a serial_scheme" where
  "SerialPutChar c s = s\<lparr>sent := sent s @ [c]\<rparr>"

text \<open>A string literal of the code, and a string in an array: it is read up to its first 0.\<close>

definition put_literal :: "string \<Rightarrow> 'a serial_scheme \<Rightarrow> 'a serial_scheme" where
  "put_literal cs s = fold SerialPutChar (map of_char cs) s"

function Serial_PutString :: "u8 list \<Rightarrow> nat \<Rightarrow> 'a serial_scheme \<Rightarrow> fault + 'a serial_scheme" where
  "Serial_PutString str i s =
     (if i < length str
      then if str ! i \<noteq> 0 then Serial_PutString str (Suc i) (SerialPutChar (str ! i) s) else Inr s
      else Inl Out_Of_Bounds)"
  by auto
termination by (relation "measure (\<lambda>(str, i, s). length str - i)") auto

declare Serial_PutString.simps [simp del]

text \<open>\<open>CMD_STRING_SIZE\<close> is 128, whatever the size of the caller's buffer.\<close>

fun input_loop :: "nat \<Rightarrow> (nat \<Rightarrow> u8 option) \<Rightarrow> nat \<Rightarrow> u8 list \<Rightarrow> 'a serial_scheme \<Rightarrow> fault + (u8 list \<times> 'a serial_scheme)" where
  "input_loop 0 poll n buf s = Inl Still_Running"
| "input_loop (Suc fuel) poll n buf s =
     ebind (GetKey fuel poll s) (\<lambda>(c, s1).
       if c = 13 then
         ebind (arr_set buf n 0) (\<lambda>buf1. Inr (buf1, fold SerialPutChar [10, 13] s1))
       else if c = 8 then
         if 0 < n then input_loop fuel poll (n - 1) buf (fold SerialPutChar [8, 0x20, 8] s1)
         else input_loop fuel poll n buf s1
       else if 128 \<le> n then
         input_loop fuel poll 0 buf (fold SerialPutChar [13, 10] (put_literal ''Command string size overflow'' s1) )
       else if 0x20 \<le> c \<and> c \<le> 0x7E then
         ebind (arr_set buf n c) (\<lambda>buf1. input_loop fuel poll (Suc n) buf1 (SerialPutChar c s1))
       else input_loop fuel poll n buf s1)"

definition GetInputString :: "nat \<Rightarrow> (nat \<Rightarrow> u8 option) \<Rightarrow> u8 list \<Rightarrow> 'a serial_scheme \<Rightarrow> fault + (u8 list \<times> 'a serial_scheme)" where
  "GetInputString fuel poll buf s = input_loop fuel poll 0 buf s"

text \<open>\<open>inputstr\<close> are the 16 bytes of the local buffer, uninitialised at first.\<close>

fun GetIntegerInput :: "nat \<Rightarrow> (nat \<Rightarrow> u8 option) \<Rightarrow> u8 list \<Rightarrow> 'a serial_scheme
    \<Rightarrow> fault + (u32 \<times> u32 option \<times> 'a serial_scheme)" where
  "GetIntegerInput 0 poll inputstr s = Inl Still_Running"
| "GetIntegerInput (Suc fuel) poll inputstr s =
     ebind (GetInputString fuel poll inputstr s) (\<lambda>(str, s1).
     ebind (arr_get str 0) (\<lambda>c0. ebind (arr_get str 1) (\<lambda>c1.
       if c0 = 0 then GetIntegerInput fuel poll str s1
       else if (c0 = 0x61 \<or> c0 = 0x41) \<and> c1 = 0 then
         Inr (0, None, fold SerialPutChar [13, 10] (put_literal ''User Cancelled '' s1))
       else ebind (Str2Int str) (\<lambda>(res, num).
         if res = 0 then GetIntegerInput fuel poll str
           (fold SerialPutChar [13, 10] (put_literal ''Error, Input again: '' s1))
         else Inr (1, num, s1)))))"

section \<open>Printing and parsing decimal numbers\<close>

text \<open>The \<open>k\<close> decimal digits of \<open>n\<close>, the most significant first, and as the code prints them: without
  leading zeros, but never empty.\<close>

fun digs :: "nat \<Rightarrow> nat \<Rightarrow> nat list" where
  "digs 0 n = []"
| "digs (Suc k) n = n div 10 ^ k # digs k (n mod 10 ^ k)"

definition dec_digits :: "nat \<Rightarrow> nat \<Rightarrow> nat list" where
  "dec_digits k n = (if n = 0 then [0] else dropWhile ((=) 0) (digs k n))"

definition ascii :: "nat \<Rightarrow> u8" where
  "ascii d = of_nat (d + 48)"

lemma unat_ascii: "d < 10 \<Longrightarrow> unat (ascii d) = d + 48"
  unfolding ascii_def by (rule unat_of_nat_u8) simp

lemma length_digs [simp]: "length (digs k n) = k"
  by (induction k arbitrary: n) simp_all

lemma digs_less: "n < 10 ^ k \<Longrightarrow> d \<in> set (digs k n) \<Longrightarrow> d < 10"
proof (induction k arbitrary: n)
  case (Suc k)
  have "n div 10 ^ k < 10" using Suc.prems(1) by (simp add: less_mult_imp_div_less mult.commute)
  moreover have "d < 10" if "d \<in> set (digs k (n mod 10 ^ k))" by (rule Suc.IH [OF _ that]) simp
  ultimately show ?case using Suc.prems(2) by auto
qed simp

lemma digs_value: "n < 10 ^ k \<Longrightarrow> foldl (\<lambda>v d. v * 10 + d) v (digs k n) = v * 10 ^ k + n"
proof (induction k arbitrary: n v)
  case (Suc k)
  have "foldl (\<lambda>v d. v * 10 + d) v (digs (Suc k) n) = (v * 10 + n div 10 ^ k) * 10 ^ k + n mod 10 ^ k"
    using Suc.IH [of "n mod 10 ^ k"] by simp
  also have "\<dots> = v * 10 ^ Suc k + n"
    using div_mult_mod_eq [of n "10 ^ k"] by (simp add: algebra_simps)
  finally show ?case .
qed simp

lemma digs_zero: "digs k 0 = replicate k 0"
  by (induction k) simp_all

lemma dropWhile_digs_ne: "n < 10 ^ k \<Longrightarrow> n \<noteq> 0 \<Longrightarrow> dropWhile ((=) 0) (digs k n) \<noteq> []"
proof
  have zero: "\<forall>d \<in> set ds. d = 0 \<Longrightarrow> foldl (\<lambda>v d. v * 10 + d) 0 ds = (0 :: nat)" for ds
    by (induction ds) auto
  assume "n < 10 ^ k" "n \<noteq> 0" "dropWhile ((=) 0) (digs k n) = []"
  then show False using digs_value [of n k 0] zero [of "digs k n"] by auto
qed

lemma dec_digits_ne: "n < 10 ^ k \<Longrightarrow> dec_digits k n \<noteq> []"
  using dropWhile_digs_ne [of n k] by (simp add: dec_digits_def del: dropWhile_eq_Nil_conv)

lemma dec_digits_less: "n < 10 ^ k \<Longrightarrow> d \<in> set (dec_digits k n) \<Longrightarrow> d < 10"
  using digs_less [of n k d] by (auto simp: dec_digits_def dest: set_dropWhileD split: if_splits)

lemma dec_digits_length: "0 < k \<Longrightarrow> length (dec_digits k n) \<le> k"
  using length_dropWhile_le [of "(=) 0" "digs k n"] by (simp add: dec_digits_def)

lemma dec_digits_value: "n < 10 ^ k \<Longrightarrow> foldl (\<lambda>v d. v * 10 + d) 0 (dec_digits k n) = n"
proof -
  have drop: "foldl (\<lambda>v d. v * 10 + d) 0 (dropWhile ((=) 0) ds) = foldl (\<lambda>v d. v * 10 + d) (0 :: nat) ds" for ds
    by (induction ds) auto
  assume "n < 10 ^ k"
  from digs_value [OF this, of 0] show ?thesis by (simp add: dec_digits_def drop)
qed

lemma dec_digits_head: "n < 10 ^ k \<Longrightarrow> hd (dec_digits k n) = 0 \<Longrightarrow> n = 0"
  using hd_dropWhile [of "(=) 0" "digs k n"] dropWhile_digs_ne [of n k]
  by (simp add: dec_digits_def del: dropWhile_eq_Nil_conv split: if_splits)

text \<open>One digit.\<close>

lemma int2str_digit:
  fixes w D :: u32
  assumes "unat D = 10 ^ k" and "unat w < 10 ^ Suc k"
  shows "(ucast (w div D + 48) :: u8) = ascii (unat w div 10 ^ k)"
    and "unat (w mod D) = unat w mod 10 ^ k"
proof -
  have q: "unat (w div D) = unat w div 10 ^ k" using assms(1) by (simp add: unat_div_distrib)
  have "unat w div 10 ^ k < 10" using assms(2) by (simp add: less_mult_imp_div_less mult.commute)
  with q have "unat (w div D + 48) = unat w div 10 ^ k + 48"
    using unat_add_lem [of "w div D" 48] by simp
  then show "(ucast (w div D + 48) :: u8) = ascii (unat w div 10 ^ k)"
    by (metis ascii_def of_nat_unat)
  show "unat (w mod D) = unat w mod 10 ^ k" using assms(1) by (simp add: unat_mod_distrib)
qed

lemma ascii_48: "d < 10 \<Longrightarrow> ascii d = 48 \<longleftrightarrow> d = 0"
  using unat_ascii [of d] by (auto simp: word_unat_eq_iff)

lemma div10: "unat (D :: u32) = 10 ^ Suc k \<Longrightarrow> unat (D div 10) = 10 ^ k"
  by (simp add: unat_div_distrib)

text \<open>After the first digit that is not 0 every digit is kept.\<close>

lemma int2str_kept:
  "(k = 0 \<or> unat Div = 10 ^ (k - 1)) \<Longrightarrow> unat w < 10 ^ k \<Longrightarrow> 0 < unat st \<Longrightarrow> unat st + k < 2 ^ 32 \<Longrightarrow>
   j + k \<le> length str \<Longrightarrow>
   int2str_loop k Div j st str w = Inr (overlay j (map ascii (digs k (unat w))) str)"
proof (induction k arbitrary: Div j st str w)
  case 0
  then show ?case by (simp add: overlay_def)
next
  case (Suc k)
  have D: "unat Div = 10 ^ k" using Suc.prems(1) by simp
  note d = int2str_digit [OF D Suc.prems(2)]
  let ?c = "ascii (unat w div 10 ^ k)" and ?w = "w mod Div" and ?str = "str[j := ascii (unat w div 10 ^ k)]"
  have st: "unat (st + 1) = Suc (unat st)" using Suc.prems(4) unat_add_lem [of st 1] by simp
  have "int2str_loop k (Div div 10) (Suc j) (st + 1) ?str ?w =
      Inr (overlay (Suc j) (map ascii (digs k (unat ?w))) ?str)"
  proof (rule Suc.IH)
    show "k = 0 \<or> unat (Div div 10) = 10 ^ (k - 1)" using D div10 [of Div "k - 1"] by (cases k) simp_all
    show "unat ?w < 10 ^ k" by (simp add: d(2))
  qed (use Suc.prems st in simp_all)
  moreover have "int2str_loop (Suc k) Div j st str w = int2str_loop k (Div div 10) (Suc j) (st + 1) ?str ?w"
    using Suc.prems(3,5) by (auto simp: d(1) Let_def)
  moreover have "overlay (Suc j) (map ascii (digs k (unat ?w))) ?str =
      overlay j (map ascii (digs (Suc k) (unat w))) str"
  proof -
    have "?str = overlay j [?c] str" using Suc.prems(5) by (simp add: overlay_def upd_conv_take_nth_drop)
    moreover have "overlay (Suc j) (map ascii (digs k (unat ?w))) (overlay j [?c] str) =
        overlay j ([?c] @ map ascii (digs k (unat ?w))) str"
      by (rule overlay_append) (use Suc.prems(5) in simp_all)
    ultimately show ?thesis unfolding d(2) by simp
  qed
  ultimately show ?case by simp
qed

lemma int2str_leading:
  "unat Div = 10 ^ k \<Longrightarrow> unat w < 10 ^ Suc k \<Longrightarrow> k < 10 \<Longrightarrow> Suc k \<le> length str \<Longrightarrow>
   int2str_loop (Suc k) Div 0 0 str w = Inr (overlay 0 (map ascii (dec_digits (Suc k) (unat w))) str)"
proof (induction k arbitrary: Div str w)
  case 0
  note d = int2str_digit [OF 0(1,2)]
  have "unat w < 10" using 0(2) by simp
  then have "dec_digits (Suc 0) (unat w) = [unat w]" by (simp add: dec_digits_def)
  moreover obtain x xs where "str = x # xs" using 0(4) by (cases str) auto
  ultimately show ?case using d(1) by (simp add: overlay_def Let_def)
next
  case (Suc k)
  note d = int2str_digit [OF Suc.prems(1,2)]
  let ?q = "unat w div 10 ^ Suc k" and ?w = "w mod Div"
  have q: "?q < 10" using Suc.prems(2) by (simp add: less_mult_imp_div_less mult.commute)
  have D: "unat (Div div 10) = 10 ^ k" by (rule div10 [OF Suc.prems(1)])
  have w: "unat ?w < 10 ^ Suc k" unfolding d(2) by simp
  have ne: "str \<noteq> []" using Suc.prems(4) by auto
  show ?case
  proof (cases "?q = 0")
    case True
    then have uw: "unat ?w = unat w" using d(2) mod_less [of "unat w" "10 ^ Suc k"] by (simp add: div_eq_0_iff)
    have "int2str_loop (Suc (Suc k)) Div 0 0 str w = int2str_loop (Suc k) (Div div 10) 0 0 (str[0 := 48]) ?w"
      using ne True q by (subst int2str_loop.simps) (simp add: d(1) ascii_48 Let_def ascii_def del: int2str_loop.simps)
    also have "\<dots> = Inr (overlay 0 (map ascii (dec_digits (Suc k) (unat ?w))) (str[0 := 48]))"
      using Suc.prems by (intro Suc.IH [OF D w]) simp_all
    also have "digs (Suc (Suc k)) (unat w) = 0 # digs (Suc k) (unat ?w)"
      using digs.simps(2) [of "Suc k" "unat w"] True d(2) by (simp only:)
    then have "dec_digits (Suc k) (unat ?w) = dec_digits (Suc (Suc k)) (unat w)"
      using uw by (simp add: dec_digits_def del: digs.simps)
    finally show ?thesis
      using dec_digits_ne [OF Suc.prems(2)] by (cases "dec_digits (Suc (Suc k)) (unat w)") (auto simp: overlay_def)
  next
    case False
    have kept: "int2str_loop (Suc k) (Div div 10) 1 1 (str[0 := ascii ?q]) ?w =
        Inr (overlay 1 (map ascii (digs (Suc k) (unat ?w))) (str[0 := ascii ?q]))"
      using Suc.prems by (intro int2str_kept [OF _ w]) (simp_all add: D)
    have "w \<noteq> 0" using False by auto
    then have "dec_digits (Suc (Suc k)) (unat w) = ?q # digs (Suc k) (unat ?w)"
      using False by (simp add: dec_digits_def d(2) unat_eq_0)
    moreover have "str[0 := ascii ?q] = overlay 0 [ascii ?q] str"
      using ne by (cases str) (simp_all add: overlay_def)
    moreover have "int2str_loop (Suc (Suc k)) Div 0 0 str w = int2str_loop (Suc k) (Div div 10) 1 1 (str[0 := ascii ?q]) ?w"
      using ne False q
      by (subst int2str_loop.simps) (simp add: d(1) ascii_48 Let_def del: int2str_loop.simps digs.simps)
    ultimately show ?thesis
      using kept overlay_append [of 0 "[ascii ?q]" "map ascii (digs (Suc k) (unat ?w))" str 1] Suc.prems(4)
      by (simp del: digs.simps)
  qed
qed

lemma Int2Str_ok:
  assumes "10 \<le> length str"
  shows "Int2Str str w = Inr (overlay 0 (map ascii (dec_digits 10 (unat w))) str)"
proof -
  have "unat w < 10 ^ Suc 9" using unat_u32_less [of w] by simp
  moreover have "unat (1000000000 :: u32) = 10 ^ 9" "Suc 9 = 10" by simp_all
  ultimately show ?thesis
    using int2str_leading [of 1000000000 9 w str] assms by (simp only: Int2Str_def)
qed

text \<open>Parsing a string of digits up to its end.\<close>

lemma ascii_digit:
  assumes "d < 10"
  shows "IS_09 (ascii d)" and "ascii d \<noteq> 0" and "ascii d \<noteq> 0x6B" and "ascii d \<noteq> 0x4B"
    and "ascii d \<noteq> 0x6D" and "ascii d \<noteq> 0x4D" and "(ucast (ascii d) :: u32) - 0x30 = of_nat d"
proof -
  note u = unat_ascii [OF assms]
  show "IS_09 (ascii d)" using assms by (simp add: IS_09_def word_le_nat_alt u)
  show "ascii d \<noteq> 0" "ascii d \<noteq> 0x6B" "ascii d \<noteq> 0x4B" "ascii d \<noteq> 0x6D" "ascii d \<noteq> 0x4D"
    using assms by (simp_all add: word_unat_eq_iff u)
  have "(ucast (ascii d) :: u32) = of_nat (d + 48)" by (metis of_nat_unat u)
  then show "(ucast (ascii d) :: u32) - 0x30 = of_nat d" by simp
qed

lemma dec_loop_ok:
  "\<forall>d \<in> set ds. d < 10 \<Longrightarrow> drop i str = map ascii ds @ 0 # rest \<Longrightarrow> length ds < n \<Longrightarrow>
   dec_loop n i str (of_nat v) = Inr (1, Some (of_nat (foldl (\<lambda>v d. v * 10 + d) v ds)))"
proof (induction ds arbitrary: n i v)
  case Nil
  then obtain k where n: "n = Suc k" by (cases n) auto
  have "i < length str" using Nil.prems(2) by (metis drop_eq_Nil list.distinct(1) append_Nil list.map(1) not_le)
  moreover from this Nil.prems(2) have "str ! i = 0" by (simp add: Cons_nth_drop_Suc [symmetric])
  ultimately show ?case by (simp add: n)
next
  case (Cons d ds)
  then obtain k where n: "n = Suc k" by (cases n) auto
  have i: "i < length str" using Cons.prems(2) by (metis append_is_Nil_conv drop_eq_Nil list.distinct(1) not_le)
  with Cons.prems(2) have c: "str ! i = ascii d" and dr: "drop (Suc i) str = map ascii ds @ 0 # rest"
    by (simp_all add: Cons_nth_drop_Suc [symmetric])
  have "d < 10" using Cons.prems(1) by simp
  note a = ascii_digit [OF this]
  have "dec_loop k (Suc i) str (of_nat (v * 10 + d)) = Inr (1, Some (of_nat (foldl (\<lambda>v d. v * 10 + d) (v * 10 + d) ds)))"
    by (rule Cons.IH) (use Cons.prems dr n in simp_all)
  with a show ?case by (simp add: n i c)
qed

lemma Str2Int_digits:
  assumes "ds \<noteq> []" and "\<forall>d \<in> set ds. d < 10" and "length ds \<le> 10"
  shows "Str2Int (map ascii ds @ 0 # rest) = Inr (1, Some (of_nat (foldl (\<lambda>v d. v * 10 + d) 0 ds)))"
proof -
  let ?str = "map ascii ds @ 0 # rest"
  have "\<not> (?str ! 1 = 0x78 \<or> ?str ! 1 = 0x58)" "1 < length ?str" "0 < length ?str"
  proof -
    obtain d ds' where ds: "ds = d # ds'" using assms(1) by (cases ds) auto
    show "1 < length ?str" "0 < length ?str" by (simp_all add: ds)
    show "\<not> (?str ! 1 = 0x78 \<or> ?str ! 1 = 0x58)"
      using assms(2) by (cases ds') (auto simp: ds word_unat_eq_iff unat_ascii)
  qed
  moreover have "dec_loop 11 0 ?str 0 = Inr (1, Some (of_nat (foldl (\<lambda>v d. v * 10 + d) 0 ds)))"
    using dec_loop_ok [of ds 0 ?str rest 11 0] assms by simp
  ultimately show ?thesis by (simp add: Str2Int_def)
qed

text \<open>
  Printing a number and reading it back: for every 32-bit value, \<open>Int2Str\<close> into a cleared array of 11 bytes
  stays inside it, and \<open>Str2Int\<close> accepts the result and returns the value.
\<close>

theorem Str2Int_Int2Str:
  "\<exists>str. Int2Str (replicate 11 0) w = Inr str \<and> Str2Int str = Inr (1, Some w)"
proof -
  let ?ds = "dec_digits 10 (unat w)"
  have w: "unat w < 10 ^ 10" using unat_u32_less [of w] by simp
  have len: "length ?ds \<le> 10" by (rule dec_digits_length) simp
  have "Int2Str (replicate 11 0) w = Inr (map ascii ?ds @ replicate (11 - length ?ds) 0)"
    by (simp add: Int2Str_ok overlay_def)
  moreover obtain k where k: "11 - length ?ds = Suc k" using len by (cases "11 - length ?ds") auto
  ultimately have "Int2Str (replicate 11 0) w = Inr (map ascii ?ds @ 0 # replicate k 0)" by simp
  moreover have "Str2Int (map ascii ?ds @ 0 # replicate k 0) = Inr (1, Some (of_nat (unat w)))"
    using Str2Int_digits [of ?ds "replicate k 0"] dec_digits_ne [OF w] dec_digits_less [OF w] len dec_digits_value [OF w]
    by auto
  ultimately show ?thesis by simp
qed

end
