(* ===== verification/SpiBus.thy ===== *)
theory SpiBus
  imports ACU_Prelude
begin

text \<open>
  The software SPI bus of HARDWARE/BSP/bsp_spi_bus.c, at the level of the pins (the build defines
  \<open>SOFT_SPI\<close>). The state holds the levels the master drives; the device on the bus is a
  parameter: \<open>spi_react\<close> is how it moves when the levels of chip select, clock and data change,
  \<open>spi_miso\<close> the level it drives. Delays are not modelled.
\<close>

section \<open>Pins and device\<close>

record 'd spi_dev =
  spi_react :: "bool \<Rightarrow> bool \<Rightarrow> bool \<Rightarrow> 'd \<Rightarrow> 'd"   \<comment> \<open>levels of CS, SCK and MOSI\<close>
  spi_miso :: "'d \<Rightarrow> bool"

record 'd spi =
  CS :: bool
  SCK :: bool
  MOSI :: bool
  g_spi_busy :: u8
  slave :: 'd

definition set_CS :: "'d spi_dev \<Rightarrow> bool \<Rightarrow> 'd spi \<Rightarrow> 'd spi" where
  "set_CS D b s = s\<lparr>CS := b, slave := spi_react D b (SCK s) (MOSI s) (slave s)\<rparr>"

definition set_SCK :: "'d spi_dev \<Rightarrow> bool \<Rightarrow> 'd spi \<Rightarrow> 'd spi" where
  "set_SCK D b s = s\<lparr>SCK := b, slave := spi_react D (CS s) b (MOSI s) (slave s)\<rparr>"

definition set_MOSI :: "'d spi_dev \<Rightarrow> bool \<Rightarrow> 'd spi \<Rightarrow> 'd spi" where
  "set_MOSI D b s = s\<lparr>MOSI := b, slave := spi_react D (CS s) (SCK s) b (slave s)\<rparr>"

definition MISO_IS_HIGH :: "'d spi_dev \<Rightarrow> 'd spi \<Rightarrow> bool" where
  "MISO_IS_HIGH D s = spi_miso D (slave s)"

section \<open>The code\<close>

text \<open>The clock idles low and data is sampled at its rising edge.\<close>

fun write0_loop :: "nat \<Rightarrow> 'd spi_dev \<Rightarrow> u8 \<Rightarrow> 'd spi \<Rightarrow> 'd spi" where
  "write0_loop 0 D ucByte s = s"
| "write0_loop (Suc n) D ucByte s =
     write0_loop n D (push_bit 1 ucByte)
       (set_SCK D False (set_SCK D True (set_MOSI D (ucByte AND 0x80 \<noteq> 0) s)))"

definition bsp_spiWrite0 :: "'d spi_dev \<Rightarrow> u8 \<Rightarrow> 'd spi \<Rightarrow> 'd spi" where
  "bsp_spiWrite0 D ucByte s = write0_loop 8 D ucByte s"

fun read0_loop :: "nat \<Rightarrow> 'd spi_dev \<Rightarrow> u8 \<Rightarrow> 'd spi \<Rightarrow> u8 \<times> 'd spi" where
  "read0_loop 0 D read s = (read, s)"
| "read0_loop (Suc n) D read s =
     (let r = push_bit 1 read; r1 = (if MISO_IS_HIGH D s then r + 1 else r)
      in read0_loop n D r1 (set_SCK D False (set_SCK D True s)))"

definition bsp_spiRead0 :: "'d spi_dev \<Rightarrow> 'd spi \<Rightarrow> u8 \<times> 'd spi" where
  "bsp_spiRead0 D s = read0_loop 8 D 0 s"

text \<open>The clock idles high.\<close>

fun write1_loop :: "nat \<Rightarrow> 'd spi_dev \<Rightarrow> u8 \<Rightarrow> 'd spi \<Rightarrow> 'd spi" where
  "write1_loop 0 D ucByte s = s"
| "write1_loop (Suc n) D ucByte s =
     write1_loop n D (push_bit 1 ucByte)
       (set_SCK D True (set_SCK D False (set_MOSI D (ucByte AND 0x80 \<noteq> 0) s)))"

definition bsp_spiWrite1 :: "'d spi_dev \<Rightarrow> u8 \<Rightarrow> 'd spi \<Rightarrow> 'd spi" where
  "bsp_spiWrite1 D ucByte s = write1_loop 8 D ucByte s"

fun read1_loop :: "nat \<Rightarrow> 'd spi_dev \<Rightarrow> u8 \<Rightarrow> 'd spi \<Rightarrow> u8 \<times> 'd spi" where
  "read1_loop 0 D read s = (read, s)"
| "read1_loop (Suc n) D read s =
     (let s1 = set_SCK D False s; r = push_bit 1 read; r1 = (if MISO_IS_HIGH D s1 then r + 1 else r)
      in read1_loop n D r1 (set_SCK D True s1))"

definition bsp_spiRead1 :: "'d spi_dev \<Rightarrow> 'd spi \<Rightarrow> u8 \<times> 'd spi" where
  "bsp_spiRead1 D s = read1_loop 8 D 0 s"

definition bsp_SpiBusEnter :: "'d spi \<Rightarrow> 'd spi" where
  "bsp_SpiBusEnter s = s\<lparr>g_spi_busy := 1\<rparr>"

definition bsp_SpiBusExit :: "'d spi \<Rightarrow> 'd spi" where
  "bsp_SpiBusExit s = s\<lparr>g_spi_busy := 0\<rparr>"

definition bsp_SpiBusBusy :: "'d spi \<Rightarrow> u8" where
  "bsp_SpiBusBusy s = g_spi_busy s"

definition bsp_SetSpiSck :: "'d spi_dev \<Rightarrow> u8 \<Rightarrow> 'd spi \<Rightarrow> 'd spi" where
  "bsp_SetSpiSck D v s = set_SCK D (v \<noteq> 0) s"

section \<open>What a slave sees of the wires\<close>

text \<open>
  The SPI protocol (clock idle high, data sampled at rising edges, most significant bit first) as a
  transition system around a chip that takes and gives bytes: a falling chip select opens a
  transfer, eight rising clock edges make a byte, during which the chip shifts out its own, and a
  rising chip select ends the transfer.
\<close>

record 'c spi_chip =
  chip_out :: "'c \<Rightarrow> u8"
  chip_in :: "u8 \<Rightarrow> 'c \<Rightarrow> 'c"
  chip_select :: "'c \<Rightarrow> 'c"
  chip_deselect :: "'c \<Rightarrow> 'c"

record 'c shifter =
  sh_cs :: bool
  sh_sck :: bool
  sh_bits :: "bool list"
  sh_chip :: 'c

definition shifter_react :: "'c spi_chip \<Rightarrow> bool \<Rightarrow> bool \<Rightarrow> bool \<Rightarrow> 'c shifter \<Rightarrow> 'c shifter" where
  "shifter_react C cs sck mosi x =
     (let y = (if cs \<and> \<not> sh_cs x then x\<lparr>sh_bits := [], sh_chip := chip_deselect C (sh_chip x)\<rparr>
               else if \<not> cs \<and> sh_cs x then x\<lparr>sh_bits := [], sh_chip := chip_select C (sh_chip x)\<rparr>
               else if \<not> cs \<and> sck \<and> \<not> sh_sck x then
                 if length (sh_bits x) = 7
                 then x\<lparr>sh_bits := [], sh_chip := chip_in C (byte_of_bits (sh_bits x @ [mosi])) (sh_chip x)\<rparr>
                 else x\<lparr>sh_bits := sh_bits x @ [mosi]\<rparr>
               else x)
      in y\<lparr>sh_cs := cs, sh_sck := sck\<rparr>)"

definition shifter_miso :: "'c spi_chip \<Rightarrow> 'c shifter \<Rightarrow> bool" where
  "shifter_miso C x = bit (chip_out C (sh_chip x)) (7 - length (sh_bits x))"

definition is_spi_slave :: "'d spi_dev \<Rightarrow> 'c spi_chip \<Rightarrow> ('d \<Rightarrow> 'c shifter) \<Rightarrow> bool" where
  "is_spi_slave D C view \<longleftrightarrow>
     (\<forall>cs sck mosi d. view (spi_react D cs sck mosi d) = shifter_react C cs sck mosi (view d)) \<and>
     (\<forall>d. spi_miso D d = shifter_miso C (view d))"

section \<open>One byte on the wires\<close>

text \<open>The chip is selected and between two bytes; the bus is idle.\<close>

definition selected :: "('d \<Rightarrow> 'c shifter) \<Rightarrow> 'd spi \<Rightarrow> bool" where
  "selected view s \<longleftrightarrow> \<not> CS s \<and> SCK s \<and> \<not> sh_cs (view (slave s)) \<and> sh_sck (view (slave s)) \<and>
     sh_bits (view (slave s)) = []"

definition unselected :: "('d \<Rightarrow> 'c shifter) \<Rightarrow> 'd spi \<Rightarrow> bool" where
  "unselected view s \<longleftrightarrow> CS s \<and> sh_cs (view (slave s))"

definition chip_of :: "('d \<Rightarrow> 'c shifter) \<Rightarrow> 'd spi \<Rightarrow> 'c" where
  "chip_of view s = sh_chip (view (slave s))"

text \<open>The state within a byte: \<open>bs\<close> are the bits received so far.\<close>

definition within :: "('d \<Rightarrow> 'c shifter) \<Rightarrow> bool list \<Rightarrow> 'c \<Rightarrow> 'd spi \<Rightarrow> bool" where
  "within view bs c s \<longleftrightarrow> \<not> CS s \<and> SCK s \<and>
     view (slave s) = \<lparr>sh_cs = False, sh_sck = True, sh_bits = bs, sh_chip = c\<rparr>"

lemma selected_within: "selected view s \<longleftrightarrow> within view [] (chip_of view s) s"
  by (cases "view (slave s)") (auto simp: selected_def within_def chip_of_def)

lemma pulse:
  assumes "is_spi_slave D C view" and "within view bs c s" and "length bs < 8"
  shows "within view (if length bs = 7 then [] else bs @ [b])
      (if length bs = 7 then chip_in C (byte_of_bits (bs @ [b])) c else c)
      (set_SCK D True (set_SCK D False (set_MOSI D b s)))"
    and "MOSI (set_SCK D True (set_SCK D False (set_MOSI D b s))) = b"
  using assms
  by (auto simp: within_def is_spi_slave_def set_SCK_def set_MOSI_def shifter_react_def Let_def)

lemma pulse_read:
  assumes "is_spi_slave D C view" and "within view bs c s" and "length bs < 8"
  shows "within view (if length bs = 7 then [] else bs @ [MOSI s])
      (if length bs = 7 then chip_in C (byte_of_bits (bs @ [MOSI s])) c else c)
      (set_SCK D True (set_SCK D False s))"
    and "MISO_IS_HIGH D (set_SCK D False s) = bit (chip_out C c) (7 - length bs)"
    and "MOSI (set_SCK D True (set_SCK D False s)) = MOSI s"
  using assms
  by (auto simp: within_def is_spi_slave_def set_SCK_def shifter_react_def Let_def shifter_miso_def
      MISO_IS_HIGH_def)

text \<open>The bits of a byte in the order the shift by one brings them to the top.\<close>

fun msb_first :: "nat \<Rightarrow> u8 \<Rightarrow> bool list" where
  "msb_first 0 b = []"
| "msb_first (Suc n) b = (b AND 0x80 \<noteq> 0) # msb_first n (push_bit 1 b)"

lemma and_0x80_iff: "(b :: u8) AND 0x80 \<noteq> 0 \<longleftrightarrow> bit b 7"
proof -
  have "(0x80 :: u8) = push_bit 7 1" by simp
  then have "bit (0x80 :: u8) n \<longleftrightarrow> n = 7" for n
    by (simp only: bit_push_bit_iff) (auto simp: bit_1_iff possible_bit_def)
  then have "b AND 0x80 = 0 \<longleftrightarrow> \<not> bit b 7"
    by (simp only: bit_eq_iff [of "b AND 0x80"] bit_and_iff bit_0_eq bot_apply) (auto simp: possible_bit_def)
  then show ?thesis by simp
qed

lemma msb_first_map: "n \<le> 8 \<Longrightarrow> msb_first n b = map (\<lambda>i. bit b (7 - i)) [0..<n]"
proof (induction n arbitrary: b)
  case (Suc n)
  have "map (\<lambda>i. bit (push_bit 1 b) (7 - i)) [0..<n] = map (\<lambda>i. bit b (7 - Suc i)) [0..<n]"
  proof (rule map_cong)
    fix i assume "i \<in> set [0..<n]"
    then have "0 < 7 - i" using Suc.prems by simp
    then show "bit (push_bit 1 b) (7 - i) = bit b (7 - Suc i)" by (subst bit_push1) simp_all
  qed simp
  with Suc show ?case by (simp only: msb_first.simps map_upt_Suc) (simp add: and_0x80_iff)
qed simp

lemma msb_first_8: "msb_first 8 b = bits_of_byte b"
  by (simp add: msb_first_map bits_of_byte_def upt_conv_Cons)

lemma write1_loop_ok:
  assumes "is_spi_slave D C view"
  shows "within view bs c s \<Longrightarrow> length bs + n = 8 \<Longrightarrow> 0 < n \<Longrightarrow>
    within view [] (chip_in C (byte_of_bits (bs @ msb_first n b)) c) (write1_loop n D b s)"
proof (induction n arbitrary: bs b s)
  case (Suc n)
  let ?t = "set_SCK D True (set_SCK D False (set_MOSI D (b AND 0x80 \<noteq> 0) s))"
  note p = pulse(1) [OF assms Suc.prems(1), of "b AND 0x80 \<noteq> 0"]
  show ?case
  proof (cases n)
    case 0
    with Suc.prems(2) have "length bs = 7" by simp
    with p 0 show ?thesis by simp
  next
    case (Suc m)
    with Suc.prems(2) have "length bs \<noteq> 7" "length bs < 8" by simp_all
    with p have "within view (bs @ [b AND 0x80 \<noteq> 0]) c ?t" by simp
    from Suc.IH [OF this, of "push_bit 1 b"] Suc.prems(2) Suc show ?thesis by simp
  qed
qed simp

lemma bsp_spiWrite1_ok:
  assumes "is_spi_slave D C view" and "selected view s"
  shows "selected view (bsp_spiWrite1 D b s)"
    and "chip_of view (bsp_spiWrite1 D b s) = chip_in C b (chip_of view s)"
proof -
  have "within view [] (chip_in C b (chip_of view s)) (bsp_spiWrite1 D b s)"
    using write1_loop_ok [OF assms(1), of "[]" "chip_of view s" s 8 b] assms(2)
    by (simp add: selected_within bsp_spiWrite1_def msb_first_8 byte_of_bits_of_byte)
  then show "selected view (bsp_spiWrite1 D b s)"
    and "chip_of view (bsp_spiWrite1 D b s) = chip_in C b (chip_of view s)"
    by (simp_all add: selected_def chip_of_def within_def)
qed

text \<open>Reading collects the bits the chip drives, and sends it the level \<open>MOSI\<close> was left at.\<close>

lemma read1_loop_ok:
  assumes "is_spi_slave D C view"
  shows "within view bs c s \<Longrightarrow> length bs + n = 8 \<Longrightarrow> 0 < n \<Longrightarrow>
    fst (read1_loop n D r s) = foldl (\<lambda>a b. 2 * a + of_bool b) r (map (bit (chip_out C c)) (rev [0..<n])) \<and>
    within view [] (chip_in C (byte_of_bits (bs @ replicate n (MOSI s))) c) (snd (read1_loop n D r s))"
proof (induction n arbitrary: bs r s)
  case (Suc n)
  let ?t = "set_SCK D True (set_SCK D False s)"
  have "length bs < 8" using Suc.prems(2) by simp
  note p = pulse_read [OF assms Suc.prems(1) this]
  have n: "7 - length bs = n" using Suc.prems(2) by simp
  with p(2) have m: "MISO_IS_HIGH D (set_SCK D False s) = bit (chip_out C c) n" by simp
  have step: "read1_loop (Suc n) D r s = read1_loop n D (2 * r + of_bool (bit (chip_out C c) n)) ?t"
    by (simp add: Let_def m push_bit_eq_mult ac_simps)
  show ?case
  proof (cases "n = 0")
    case True
    with Suc.prems(2) p(1) show ?thesis unfolding step by simp
  next
    case False
    with Suc.prems(2) have "length bs \<noteq> 7" by simp
    with p(1) have "within view (bs @ [MOSI s]) c ?t" by simp
    from Suc.IH [OF this, of "2 * r + of_bool (bit (chip_out C c) n)"] Suc.prems(2) False p(3)
    show ?thesis by (simp add: step del: read1_loop.simps(2))
  qed
qed simp

lemma bsp_spiRead1_ok:
  assumes "is_spi_slave D C view" and "selected view s"
  shows "fst (bsp_spiRead1 D s) = chip_out C (chip_of view s)"
    and "selected view (snd (bsp_spiRead1 D s))"
    and "chip_of view (snd (bsp_spiRead1 D s)) =
      chip_in C (byte_of_bits (replicate 8 (MOSI s))) (chip_of view s)"
proof -
  note * = read1_loop_ok [OF assms(1), of "[]" "chip_of view s" s 8 0]
  have "map (bit b) (rev [0..<8]) = bits_of_byte b" for b :: u8
    by (simp add: bits_of_byte_def upt_conv_Cons eval_nat_numeral)
  with * assms(2) show "fst (bsp_spiRead1 D s) = chip_out C (chip_of view s)"
    using byte_of_bits_of_byte [of "chip_out C (chip_of view s)"]
    by (simp add: selected_within bsp_spiRead1_def byte_of_bits_def)
  have "within view [] (chip_in C (byte_of_bits (replicate 8 (MOSI s))) (chip_of view s))
      (snd (bsp_spiRead1 D s))"
    using * assms(2) by (simp add: selected_within bsp_spiRead1_def)
  then show "selected view (snd (bsp_spiRead1 D s))"
    and "chip_of view (snd (bsp_spiRead1 D s)) =
      chip_in C (byte_of_bits (replicate 8 (MOSI s))) (chip_of view s)"
    by (simp_all add: selected_def chip_of_def within_def)
qed

section \<open>The bus as a channel of bytes\<close>

text \<open>
  What a client of the bus relies on: transfers are opened and closed, and in between the chip gets
  every byte written and gives the byte it has ready for every byte read. \<open>C\<close> is the chip's side
  of the contract.
\<close>

locale spi_channel =
  fixes is_open :: "'s \<Rightarrow> bool" and is_closed :: "'s \<Rightarrow> bool" and chip :: "'s \<Rightarrow> 'c"
    and open_bus :: "'s \<Rightarrow> 's" and close_bus :: "'s \<Rightarrow> 's"
    and send :: "u8 \<Rightarrow> 's \<Rightarrow> 's" and recv :: "'s \<Rightarrow> u8 \<times> 's" and C :: "'c spi_chip"
  assumes open_bus: "is_closed s \<Longrightarrow> is_open (open_bus s)"
      "is_closed s \<Longrightarrow> chip (open_bus s) = chip_select C (chip s)"
    and close_bus: "is_open s \<Longrightarrow> is_closed (close_bus s)"
      "is_open s \<Longrightarrow> chip (close_bus s) = chip_deselect C (chip s)"
    and send: "is_open s \<Longrightarrow> is_open (send b s)" "is_open s \<Longrightarrow> chip (send b s) = chip_in C b (chip s)"
    and recv: "is_open s \<Longrightarrow> is_open (snd (recv s))" "is_open s \<Longrightarrow> fst (recv s) = chip_out C (chip s)"
      "is_open s \<Longrightarrow> \<exists>b. chip (snd (recv s)) = chip_in C b (chip s)"
begin

lemma sends:
  "is_open s \<Longrightarrow> is_open (fold send bs s) \<and> chip (fold send bs s) = fold (chip_in C) bs (chip s)"
  by (induction bs arbitrary: s) (simp_all add: send)

text \<open>A transfer that only sends.\<close>

lemma command:
  assumes "is_closed s"
  shows "is_closed (close_bus (fold send bs (open_bus s)))"
    and "chip (close_bus (fold send bs (open_bus s))) =
      chip_deselect C (fold (chip_in C) bs (chip_select C (chip s)))"
  using sends [of "open_bus s" bs] assms by (simp_all add: open_bus close_bus)

text \<open>A transfer up to the point where the chip answers.\<close>

lemma request:
  assumes "is_closed s"
  shows "is_open (fold send bs (open_bus s))"
    and "chip (fold send bs (open_bus s)) = fold (chip_in C) bs (chip_select C (chip s))"
  using sends [of "open_bus s" bs] assms by (simp_all add: open_bus)

end

text \<open>
  A transfer of the serial flash driver is opened by \<open>sf_SetCS(0)\<close>, which takes the bus, lets the clock
  idle high and pulls chip select low, and closed by \<open>sf_SetCS(1)\<close>.
\<close>

definition sf_SetCS :: "'d spi_dev \<Rightarrow> u8 \<Rightarrow> 'd spi \<Rightarrow> 'd spi" where
  "sf_SetCS D lvl s =
     (if lvl = 0 then set_CS D False (bsp_SetSpiSck D 1 (bsp_SpiBusEnter s))
      else bsp_SpiBusExit (set_CS D True s))"

definition spi_opened :: "'d spi_dev \<Rightarrow> 'c spi_chip \<Rightarrow> ('d \<Rightarrow> 'c shifter) \<Rightarrow> 'd spi \<Rightarrow> bool" where
  "spi_opened D C view s \<longleftrightarrow> is_spi_slave D C view \<and> selected view s \<and> bsp_SpiBusBusy s = 1"

definition spi_closed :: "'d spi_dev \<Rightarrow> 'c spi_chip \<Rightarrow> ('d \<Rightarrow> 'c shifter) \<Rightarrow> 'd spi \<Rightarrow> bool" where
  "spi_closed D C view s \<longleftrightarrow> is_spi_slave D C view \<and> unselected view s \<and> bsp_SpiBusBusy s = 0"

lemma spi_busy_write1: "g_spi_busy (write1_loop n D b s) = g_spi_busy s"
  by (induction n D b s rule: write1_loop.induct) (simp_all add: set_SCK_def set_MOSI_def)

lemma spi_busy_read1: "g_spi_busy (snd (read1_loop n D r s)) = g_spi_busy s"
  by (induction n D r s rule: read1_loop.induct) (simp_all add: Let_def set_SCK_def)

lemma sf_SetCS_open:
  assumes "is_spi_slave D C view" and "unselected view s"
  shows "selected view (sf_SetCS D 0 s)" and "chip_of view (sf_SetCS D 0 s) = chip_select C (chip_of view s)"
  using assms
  by (simp_all add: is_spi_slave_def sf_SetCS_def bsp_SetSpiSck_def bsp_SpiBusEnter_def set_SCK_def
      set_CS_def selected_def unselected_def chip_of_def shifter_react_def Let_def)

lemma sf_SetCS_close:
  assumes "is_spi_slave D C view" and "selected view s"
  shows "unselected view (sf_SetCS D 1 s)"
    and "chip_of view (sf_SetCS D 1 s) = chip_deselect C (chip_of view s)"
  using assms
  by (simp_all add: is_spi_slave_def sf_SetCS_def bsp_SpiBusExit_def set_CS_def selected_def
      unselected_def chip_of_def shifter_react_def Let_def)

lemma bus_busy [simp]:
  "bsp_SpiBusBusy (sf_SetCS D 0 s) = 1" "bsp_SpiBusBusy (sf_SetCS D 1 s) = 0"
  "bsp_SpiBusBusy (bsp_spiWrite1 D b s) = bsp_SpiBusBusy s"
  "bsp_SpiBusBusy (snd (bsp_spiRead1 D s)) = bsp_SpiBusBusy s"
  by (simp_all add: sf_SetCS_def bsp_SetSpiSck_def bsp_SpiBusEnter_def bsp_SpiBusExit_def set_SCK_def
      set_CS_def bsp_SpiBusBusy_def bsp_spiWrite1_def bsp_spiRead1_def spi_busy_write1 spi_busy_read1)

interpretation spi1: spi_channel "spi_opened D C view" "spi_closed D C view" "chip_of view"
  "sf_SetCS D 0" "sf_SetCS D 1" "bsp_spiWrite1 D" "bsp_spiRead1 D" C for D C view
proof unfold_locales
  fix s assume "spi_closed D C view s"
  then have "is_spi_slave D C view" "unselected view s" by (simp_all add: spi_closed_def)
  note * = sf_SetCS_open [OF this]
  show "spi_opened D C view (sf_SetCS D 0 s)"
    using * \<open>is_spi_slave D C view\<close> by (simp add: spi_opened_def)
  show "chip_of view (sf_SetCS D 0 s) = chip_select C (chip_of view s)" by (rule *)
next
  fix s assume "spi_opened D C view s"
  then have s: "is_spi_slave D C view" "selected view s" "bsp_SpiBusBusy s = 1"
    by (simp_all add: spi_opened_def)
  note close = sf_SetCS_close [OF s(1,2)] and w = bsp_spiWrite1_ok [OF s(1,2)]
    and r = bsp_spiRead1_ok [OF s(1,2)]
  show "spi_closed D C view (sf_SetCS D 1 s)" using close s by (simp add: spi_closed_def)
  show "chip_of view (sf_SetCS D 1 s) = chip_deselect C (chip_of view s)" by (rule close)
  show "spi_opened D C view (bsp_spiWrite1 D b s)" for b using w s by (simp add: spi_opened_def)
  show "chip_of view (bsp_spiWrite1 D b s) = chip_in C b (chip_of view s)" for b by (rule w)
  show "spi_opened D C view (snd (bsp_spiRead1 D s))" using r s by (simp add: spi_opened_def)
  show "fst (bsp_spiRead1 D s) = chip_out C (chip_of view s)" by (rule r)
  show "\<exists>b. chip_of view (snd (bsp_spiRead1 D s)) = chip_in C b (chip_of view s)" using r by blast
qed

end
