(* ===== verification/SpiFlash.thy ===== *)
theory SpiFlash
  imports SpiBus
begin

text \<open>
  The serial NOR flash driver of HARDWARE/BSP/bsp_spi_flash.c on the software SPI bus of \<open>SpiBus\<close>.
  The state holds the bus, the geometry record \<open>g_tSF\<close> and the static page buffer \<open>s_spiBuf\<close>. A
  buffer argument of the C functions is a byte list with an offset where the code moves the pointer;
  accesses outside it are faults. The waits for the end of a write take fuel. What the driver does to
  a chip is in \<open>NorFlash\<close>.
\<close>

section \<open>State\<close>

record SFLASH_T =
  ChipID :: u32
  ChipName :: string
  TotalSize :: u32
  PageSize :: u16

record 'd sflash =
  sf_bus :: "'d spi"
  g_tSF :: SFLASH_T
  s_spiBuf :: "u8 list"

definition SST25VF016B_ID :: u32 where "SST25VF016B_ID = 0xBF2541"
definition MX25L1606E_ID :: u32 where "MX25L1606E_ID = 0xC22015"
definition W25Q64_ID :: u32 where "W25Q64_ID = 0xEF4017"
definition W25Q128_ID :: u32 where "W25Q128_ID = 0xEF4018"

section \<open>Commands\<close>

text \<open>The bytes between two changes of chip select, written one after the other.\<close>

definition sf_command :: "'d spi_dev \<Rightarrow> u8 list \<Rightarrow> 'd sflash \<Rightarrow> 'd sflash" where
  "sf_command D bs st =
     st\<lparr>sf_bus := sf_SetCS D 1 (fold (bsp_spiWrite1 D) bs (sf_SetCS D 0 (sf_bus st)))\<rparr>"

definition addr_bytes :: "u32 \<Rightarrow> u8 list" where
  "addr_bytes a = [ucast (drop_bit 16 (a AND 0xFF0000)), ucast (drop_bit 8 (a AND 0xFF00)),
     ucast (a AND 0xFF)]"

definition sf_ConfigGPIO :: "'d spi_dev \<Rightarrow> 'd sflash \<Rightarrow> 'd sflash" where
  "sf_ConfigGPIO D st = st\<lparr>sf_bus := sf_SetCS D 1 (sf_bus st)\<rparr>"

definition sf_WriteEnable :: "'d spi_dev \<Rightarrow> 'd sflash \<Rightarrow> 'd sflash" where
  "sf_WriteEnable D st = sf_command D [0x06] st"

definition sf_WriteStatus :: "'d spi_dev \<Rightarrow> u8 \<Rightarrow> 'd sflash \<Rightarrow> 'd sflash" where
  "sf_WriteStatus D v st =
     (if ChipID (g_tSF st) = SST25VF016B_ID
      then sf_command D [0x01, v] (sf_command D [0x50] st)
      else sf_command D [0x01, v] st)"

fun wait_loop :: "nat \<Rightarrow> 'd spi_dev \<Rightarrow> 'd spi \<Rightarrow> fault + 'd spi" where
  "wait_loop 0 D s = Inl Still_Running"
| "wait_loop (Suc n) D s =
     (let (b, s1) = bsp_spiRead1 D s in if b AND 0x01 = 1 then wait_loop n D s1 else Inr s1)"

definition sf_WaitForWriteEnd :: "nat \<Rightarrow> 'd spi_dev \<Rightarrow> 'd sflash \<Rightarrow> fault + 'd sflash" where
  "sf_WaitForWriteEnd fuel D st =
     ebind (wait_loop fuel D (bsp_spiWrite1 D 0x05 (sf_SetCS D 0 (sf_bus st))))
       (\<lambda>s. Inr (st\<lparr>sf_bus := sf_SetCS D 1 s\<rparr>))"

definition sf_EraseSector :: "nat \<Rightarrow> 'd spi_dev \<Rightarrow> u32 \<Rightarrow> 'd sflash \<Rightarrow> fault + 'd sflash" where
  "sf_EraseSector fuel D a st =
     sf_WaitForWriteEnd fuel D (sf_command D (0x20 # addr_bytes a) (sf_WriteEnable D st))"

definition sf_EraseChip :: "nat \<Rightarrow> 'd spi_dev \<Rightarrow> 'd sflash \<Rightarrow> fault + 'd sflash" where
  "sf_EraseChip fuel D st = sf_WaitForWriteEnd fuel D (sf_command D [0xC7] (sf_WriteEnable D st))"

section \<open>Programming\<close>

text \<open>
  The chips with the auto-address-increment command: two bytes at a time, the address sent once. The
  counter \<open>_usSize\<close> is 16 bits wide. A trailing odd byte is never sent.
\<close>

fun aai_loop :: "nat \<Rightarrow> nat \<Rightarrow> 'd spi_dev \<Rightarrow> u8 list \<Rightarrow> nat \<Rightarrow> 'd sflash \<Rightarrow> fault + 'd sflash" where
  "aai_loop fuel 0 D buf p st = Inr st"
| "aai_loop fuel (Suc n) D buf p st =
     ebind (get_bytes buf p 2) (\<lambda>bs.
     ebind (sf_WaitForWriteEnd fuel D (sf_command D (0xAD # bs) st))
       (aai_loop fuel n D buf (p + 2)))"

definition page_write_aai ::
    "nat \<Rightarrow> 'd spi_dev \<Rightarrow> u8 list \<Rightarrow> nat \<Rightarrow> u32 \<Rightarrow> u16 \<Rightarrow> 'd sflash \<Rightarrow> fault + 'd sflash" where
  "page_write_aai fuel D buf p a sz st =
     (if sz < 2 \<and> sz mod 2 \<noteq> 0 then Inr st
      else ebind (get_bytes buf p 2) (\<lambda>bs.
        ebind (sf_WaitForWriteEnd fuel D (sf_command D (0xAD # addr_bytes a @ bs) (sf_WriteEnable D st))) (\<lambda>st1.
        ebind (aai_loop fuel (unat (sz - 2) div 2) D buf (p + 2) st1) (\<lambda>st2.
        sf_WaitForWriteEnd fuel D (sf_command D [0x04] st2)))))"

text \<open>The other chips: pages of 256 bytes, as many as fit the size.\<close>

fun program_loop ::
    "nat \<Rightarrow> nat \<Rightarrow> 'd spi_dev \<Rightarrow> u8 list \<Rightarrow> nat \<Rightarrow> u32 \<Rightarrow> 'd sflash \<Rightarrow> fault + 'd sflash" where
  "program_loop fuel 0 D buf p a st = Inr st"
| "program_loop fuel (Suc n) D buf p a st =
     ebind (get_bytes buf p 256) (\<lambda>bs.
     ebind (sf_WaitForWriteEnd fuel D (sf_command D (0x02 # addr_bytes a @ bs) (sf_WriteEnable D st)))
       (program_loop fuel n D buf (p + 256) (a + 256)))"

definition sf_PageWrite ::
    "nat \<Rightarrow> 'd spi_dev \<Rightarrow> u8 list \<Rightarrow> nat \<Rightarrow> u32 \<Rightarrow> u16 \<Rightarrow> 'd sflash \<Rightarrow> fault + 'd sflash" where
  "sf_PageWrite fuel D buf p a sz st =
     (if ChipID (g_tSF st) = SST25VF016B_ID then page_write_aai fuel D buf p a sz st
      else ebind (program_loop fuel (unat sz div 256) D buf p a st) (\<lambda>st1.
        sf_WaitForWriteEnd fuel D (sf_command D [0x04] st1)))"

section \<open>Reading and comparing\<close>

fun read_loop :: "nat \<Rightarrow> 'd spi_dev \<Rightarrow> u8 list \<Rightarrow> nat \<Rightarrow> 'd spi \<Rightarrow> fault + (u8 list \<times> 'd spi)" where
  "read_loop 0 D buf p s = Inr (buf, s)"
| "read_loop (Suc n) D buf p s =
     (let (b, s1) = bsp_spiRead1 D s in
      ebind (arr_set buf p b) (\<lambda>buf1. read_loop n D buf1 (Suc p) s1))"

definition sf_open_read :: "'d spi_dev \<Rightarrow> u32 \<Rightarrow> 'd sflash \<Rightarrow> 'd spi" where
  "sf_open_read D a st = fold (bsp_spiWrite1 D) (0x03 # addr_bytes a) (sf_SetCS D 0 (sf_bus st))"

definition sf_ReadBuffer ::
    "'d spi_dev \<Rightarrow> u8 list \<Rightarrow> u32 \<Rightarrow> u32 \<Rightarrow> 'd sflash \<Rightarrow> fault + (u8 list \<times> 'd sflash)" where
  "sf_ReadBuffer D buf a sz st =
     (if sz = 0 \<or> TotalSize (g_tSF st) < a + sz then Inr (buf, st)
      else ebind (read_loop (unat sz) D buf 0 (sf_open_read D a st)) (\<lambda>(buf1, s).
        Inr (buf1, st\<lparr>sf_bus := sf_SetCS D 1 s\<rparr>)))"

fun cmp_loop :: "nat \<Rightarrow> 'd spi_dev \<Rightarrow> u8 list \<Rightarrow> nat \<Rightarrow> 'd spi \<Rightarrow> fault + (u8 \<times> 'd spi)" where
  "cmp_loop 0 D tar p s = Inr (0, s)"
| "cmp_loop (Suc n) D tar p s =
     (let (v, s1) = bsp_spiRead1 D s in
      ebind (arr_get tar p) (\<lambda>t. if t \<noteq> v then Inr (1, s1) else cmp_loop n D tar (Suc p) s1))"

definition sf_CmpData ::
    "'d spi_dev \<Rightarrow> u32 \<Rightarrow> u8 list \<Rightarrow> nat \<Rightarrow> u32 \<Rightarrow> 'd sflash \<Rightarrow> fault + (u8 \<times> 'd sflash)" where
  "sf_CmpData D a tar p sz st =
     (if TotalSize (g_tSF st) < a + sz then Inr (1, st)
      else if sz = 0 then Inr (0, st)
      else ebind (cmp_loop (unat sz) D tar p (sf_open_read D a st)) (\<lambda>(r, s).
        Inr (r, st\<lparr>sf_bus := sf_SetCS D 1 s\<rparr>)))"

fun need_erase_loop :: "nat \<Rightarrow> u8 list \<Rightarrow> nat \<Rightarrow> u8 list \<Rightarrow> nat \<Rightarrow> fault + u8" where
  "need_erase_loop 0 olds p news q = Inr 0"
| "need_erase_loop (Suc n) olds p news q =
     ebind (arr_get olds p) (\<lambda>x. ebind (arr_get news q) (\<lambda>y.
       if NOT x AND y \<noteq> 0 then Inr 1 else need_erase_loop n olds (Suc p) news (Suc q)))"

definition sf_NeedErase :: "u8 list \<Rightarrow> u8 list \<Rightarrow> nat \<Rightarrow> u16 \<Rightarrow> fault + u8" where
  "sf_NeedErase olds news q len = need_erase_loop (unat len) olds 0 news q"

section \<open>Writing within a sector and across sectors\<close>

text \<open>Erase when needed, program the whole sector, verify; up to three times.\<close>

fun write_tries :: "nat \<Rightarrow> nat \<Rightarrow> 'd spi_dev \<Rightarrow> bool \<Rightarrow> u32 \<Rightarrow> u8 list \<Rightarrow> nat \<Rightarrow> u32 \<Rightarrow> u16 \<Rightarrow> 'd sflash
    \<Rightarrow> fault + (u8 \<times> 'd sflash)" where
  "write_tries fuel 0 D erase first src p a len st = Inr (0, st)"
| "write_tries fuel (Suc n) D erase first src p a len st =
     ebind (if erase then sf_EraseSector fuel D first st else Inr st) (\<lambda>st1.
     ebind (sf_PageWrite fuel D (s_spiBuf st1) 0 first (PageSize (g_tSF st1)) st1) (\<lambda>st2.
     ebind (sf_CmpData D a src p (ucast len) st2) (\<lambda>(r, st3).
       if r = 0 then Inr (1, st3)
       else ebind (sf_CmpData D a src p (ucast len) st3) (\<lambda>(r', st4).
         if r' = 0 then Inr (1, st4)
         else write_tries fuel n D erase first src p a len st4))))"

text \<open>The page buffer is filled with the sector as it shall be.\<close>

definition fill_page :: "'d spi_dev \<Rightarrow> u32 \<Rightarrow> u8 list \<Rightarrow> nat \<Rightarrow> u32 \<Rightarrow> u16 \<Rightarrow> 'd sflash \<Rightarrow> fault + 'd sflash" where
  "fill_page D first src p a len st =
     (let ps = PageSize (g_tSF st) in
      if len = ps
      then ebind (get_bytes src p (unat ps)) (\<lambda>bs. ebind (put_bytes (s_spiBuf st) 0 bs) (\<lambda>buf.
        Inr (st\<lparr>s_spiBuf := buf\<rparr>)))
      else ebind (sf_ReadBuffer D (s_spiBuf st) first (ucast ps) st) (\<lambda>(buf, st1).
        ebind (get_bytes src p (unat len)) (\<lambda>bs.
        ebind (put_bytes buf (unat (ucast (a AND (ucast ps - 1)) :: u16)) bs) (\<lambda>buf1.
        Inr (st1\<lparr>s_spiBuf := buf1\<rparr>)))))"

definition sf_AutoWritePage ::
    "nat \<Rightarrow> 'd spi_dev \<Rightarrow> u8 list \<Rightarrow> nat \<Rightarrow> u32 \<Rightarrow> u16 \<Rightarrow> 'd sflash \<Rightarrow> fault + (u8 \<times> 'd sflash)" where
  "sf_AutoWritePage fuel D src p a len st =
     (if len = 0 then Inr (1, st)
      else if TotalSize (g_tSF st) \<le> a then Inr (0, st)
      else if PageSize (g_tSF st) < len then Inr (0, st)
      else ebind (sf_ReadBuffer D (s_spiBuf st) a (ucast len) st) (\<lambda>(buf, st0).
        let st1 = st0\<lparr>s_spiBuf := buf\<rparr> in
        ebind (get_bytes (s_spiBuf st1) 0 (unat len)) (\<lambda>olds.
        ebind (get_bytes src p (unat len)) (\<lambda>news.
        if olds = news then Inr (1, st1)
        else ebind (sf_NeedErase (s_spiBuf st1) src p len) (\<lambda>ne.
          let first = a AND NOT (ucast (PageSize (g_tSF st1)) - 1) in
          ebind (fill_page D first src p a len st1) (\<lambda>st2.
          write_tries fuel 3 D (ne \<noteq> 0) first src p a len st2))))))"

text \<open>The loop over whole sectors, for any routine that writes within a sector: it stops at the
  first one that fails, otherwise it ends with the address and the pointer past the last one.\<close>

fun sector_loop :: "(nat \<Rightarrow> u32 \<Rightarrow> u16 \<Rightarrow> 's \<Rightarrow> fault + (u8 \<times> 's)) \<Rightarrow> nat \<Rightarrow> u16 \<Rightarrow> nat \<Rightarrow> u32 \<Rightarrow> 's
    \<Rightarrow> fault + (u8 \<times> nat \<times> u32 \<times> 's)" where
  "sector_loop wr 0 ps p a st = Inr (1, p, a, st)"
| "sector_loop wr (Suc n) ps p a st =
     ebind (wr p a ps st) (\<lambda>(r, st1).
       if r = 0 then Inr (0, p, a, st1) else sector_loop wr n ps (p + unat ps) (a + ucast ps) st1)"

definition split_write :: "(nat \<Rightarrow> u32 \<Rightarrow> u16 \<Rightarrow> 's \<Rightarrow> fault + (u8 \<times> 's)) \<Rightarrow> u16 \<Rightarrow> u32 \<Rightarrow> u16 \<Rightarrow> 's
    \<Rightarrow> fault + (u8 \<times> 's)" where
  "split_write wr ps a sz st =
     (let Addr = ucast (a mod ucast ps) :: u16; count = ps - Addr;
          NumOfPage = sz div ps; NumOfSingle = sz mod ps
      in if Addr = 0 then
           if NumOfPage = 0 then wr 0 a sz st
           else ebind (sector_loop wr (unat NumOfPage) ps 0 a st) (\<lambda>(r, p, a1, st1).
             if r = 0 then Inr (0, st1) else wr p a1 NumOfSingle st1)
         else if NumOfPage = 0 then
           if count < NumOfSingle then
             ebind (wr 0 a count st) (\<lambda>(r, st1).
               if r = 0 then Inr (0, st1)
               else wr (unat count) (a + ucast count) (NumOfSingle - count) st1)
           else wr 0 a sz st
         else
           let sz1 = sz - count; n1 = sz1 div ps; rest = sz1 mod ps in
           ebind (wr 0 a count st) (\<lambda>(r, st1).
             if r = 0 then Inr (0, st1)
             else ebind (sector_loop wr (unat n1) ps (unat count) (a + ucast count) st1) (\<lambda>(r', p, a1, st2).
               if r' = 0 then Inr (0, st2)
               else if rest \<noteq> 0 then wr p a1 rest st2 else Inr (1, st2))))"

definition sf_WriteBuffer :: "nat \<Rightarrow> 'd spi_dev \<Rightarrow> u8 list \<Rightarrow> u32 \<Rightarrow> u16 \<Rightarrow> 'd sflash
    \<Rightarrow> fault + (u8 \<times> 'd sflash)" where
  "sf_WriteBuffer fuel D buf a sz st =
     split_write (sf_AutoWritePage fuel D buf) (PageSize (g_tSF st)) a sz st"

section \<open>Identification and start-up\<close>

definition sf_ReadID :: "'d spi_dev \<Rightarrow> 'd sflash \<Rightarrow> u32 \<times> 'd sflash" where
  "sf_ReadID D st =
     (let (id1, s1) = bsp_spiRead1 D (bsp_spiWrite1 D 0x9F (sf_SetCS D 0 (sf_bus st)));
          (id2, s2) = bsp_spiRead1 D s1; (id3, s3) = bsp_spiRead1 D s2
      in (push_bit 16 (ucast id1) OR push_bit 8 (ucast id2) OR ucast id3,
          st\<lparr>sf_bus := sf_SetCS D 1 s3\<rparr>))"

definition chip_info :: "u32 \<Rightarrow> SFLASH_T" where
  "chip_info cid =
     (let (name, total) =
        (if cid = SST25VF016B_ID then (''SST25VF016B'', 2 * 1024 * 1024)
         else if cid = MX25L1606E_ID then (''MX25L1606E'', 2 * 1024 * 1024)
         else if cid = W25Q64_ID then (''W25Q64'', 8 * 1024 * 1024)
         else if cid = W25Q128_ID then (''W25Q128'', 16 * 1024 * 1024)
         else (''Unknow Flash'', 2 * 1024 * 1024))
      in \<lparr>ChipID = cid, ChipName = name, TotalSize = total, PageSize = 4 * 1024\<rparr>)"

definition sf_ReadInfo :: "'d spi_dev \<Rightarrow> 'd sflash \<Rightarrow> 'd sflash" where
  "sf_ReadInfo D st = (let (cid, st1) = sf_ReadID D st in st1\<lparr>g_tSF := chip_info cid\<rparr>)"

text \<open>\<open>buf\<close> is the content of the uninitialised local buffer. A chip without the marks of an earlier
  start is erased and gets them.\<close>

definition bsp_InitSFlash :: "nat \<Rightarrow> 'd spi_dev \<Rightarrow> u8 list \<Rightarrow> 'd sflash \<Rightarrow> fault + 'd sflash" where
  "bsp_InitSFlash fuel D buf st =
     (let st1 = sf_command D [0x04] (sf_ReadInfo D (sf_ConfigGPIO D st)) in
      ebind (sf_WaitForWriteEnd fuel D st1) (\<lambda>st2.
      ebind (sf_ReadBuffer D buf 10 10 (sf_WriteStatus D 0 st2)) (\<lambda>(b, st3).
      if b ! 0 \<noteq> 0xAA \<and> b ! 2 \<noteq> 0xAA \<and> b ! 4 \<noteq> 0xAA \<and> b ! 6 \<noteq> 0xAA
      then ebind (sf_EraseChip fuel D st3) (\<lambda>st4.
        ebind (sf_WriteBuffer fuel D (replicate 10 0xAA) 10 10 st4) (\<lambda>(_, st5).
        ebind (sf_WriteBuffer fuel D [0, 0, 0, 0] 100 4 st5) (\<lambda>(_, st6). Inr st6)))
      else Inr st3)))"

end
