(* ===== verification/NorFlash.thy ===== *)
theory NorFlash
  imports SpiFlash
begin

text \<open>
  The chip on the other end of the wires of \<open>SpiFlash\<close>, as its data sheet describes it, and the
  correctness of the driver on it: the single transfers, erasing, programming and reading, a write
  within a sector, the splitting of a buffer at the sectors (through the locale \<open>sector_writer\<close>,
  interpreted on \<open>sf_AutoWritePage\<close>), and the start-up.
\<close>

section \<open>The chip, as its data sheet describes it\<close>

text \<open>
  A NOR flash keeps its memory, the write-enable latch, the block-protection bits and, while a write
  is in progress, how many more status reads will report it. \<open>nor_rx\<close> are the bytes received since chip
  select fell. A program command can only clear bits, and within one page of 256 bytes; an erase
  command sets a sector of 4 KB, or the chip, to ones; both need the latch, clear it, and are executed when chip
  select rises. A protected chip ignores them (the model does not tell the protected blocks apart).
  How long a write takes is left open: \<open>np_lat\<close>.
\<close>

record nor =
  nor_mem :: "u8 list"
  nor_wel :: bool
  nor_bp :: u8
  nor_busy :: nat
  nor_rx :: "u8 list"

record nor_par =
  np_id :: "u8 list"
  np_lat :: "nor \<Rightarrow> nat"

definition nor_addr :: "u8 \<Rightarrow> u8 \<Rightarrow> u8 \<Rightarrow> nor \<Rightarrow> nat" where
  "nor_addr a b c x = (unat a * 65536 + unat b * 256 + unat c) mod length (nor_mem x)"

fun program_bytes :: "nat \<Rightarrow> nat \<Rightarrow> u8 list \<Rightarrow> u8 list \<Rightarrow> u8 list" where
  "program_bytes base off [] m = m"
| "program_bytes base off (b # bs) m =
     program_bytes base ((off + 1) mod 256) bs (m[base + off := m ! (base + off) AND b])"

definition nor_program :: "nat \<Rightarrow> u8 list \<Rightarrow> u8 list \<Rightarrow> u8 list" where
  "nor_program a bs m =
     (let k = length bs - 256
      in program_bytes (256 * (a div 256)) ((a + k) mod 256) (drop k bs) m)"

definition nor_started :: "nor_par \<Rightarrow> u8 list \<Rightarrow> nor \<Rightarrow> nor" where
  "nor_started P m x = x\<lparr>nor_mem := m, nor_wel := False, nor_busy := np_lat P x\<rparr>"

fun nor_execute :: "nor_par \<Rightarrow> u8 list \<Rightarrow> nor \<Rightarrow> nor" where
  "nor_execute P [] x = x"
| "nor_execute P (cmd # r) x =
     (if 0 < nor_busy x then x
      else if cmd = 0x06 \<and> r = [] then x\<lparr>nor_wel := True\<rparr>
      else if cmd = 0x04 \<and> r = [] then x\<lparr>nor_wel := False\<rparr>
      else if \<not> nor_wel x then x
      else if cmd = 0x01 \<and> length r = 1 then x\<lparr>nor_bp := r ! 0 AND 0x1C, nor_wel := False\<rparr>
      else if nor_bp x \<noteq> 0 then x
      else if cmd = 0xC7 \<and> r = [] then nor_started P (replicate (length (nor_mem x)) 0xFF) x
      else if cmd = 0x20 \<and> length r = 3 then
        nor_started P (overlay (4096 * (nor_addr (r ! 0) (r ! 1) (r ! 2) x div 4096)) (replicate 4096 0xFF)
          (nor_mem x)) x
      else if cmd = 0x02 \<and> 3 < length r then
        nor_started P (nor_program (nor_addr (r ! 0) (r ! 1) (r ! 2) x) (drop 3 r) (nor_mem x)) x
      else x)"

definition nor_status :: "nor \<Rightarrow> u8" where
  "nor_status x = of_bool (0 < nor_busy x) OR (if nor_wel x then 2 else 0) OR nor_bp x"

definition nor_out :: "nor_par \<Rightarrow> nor \<Rightarrow> u8" where
  "nor_out P x =
     (case nor_rx x of [] \<Rightarrow> 0xFF
      | cmd # r \<Rightarrow>
          if cmd = 0x05 then nor_status x
          else if 0 < nor_busy x then 0xFF
          else if cmd = 0x9F \<and> length r < 3 then np_id P ! length r
          else if cmd = 0x03 \<and> 3 \<le> length r then
            nor_mem x ! ((nor_addr (r ! 0) (r ! 1) (r ! 2) x + (length r - 3)) mod length (nor_mem x))
          else 0xFF)"

definition nor_in :: "u8 \<Rightarrow> nor \<Rightarrow> nor" where
  "nor_in b x = x\<lparr>nor_rx := nor_rx x @ [b],
     nor_busy := (if nor_rx x \<noteq> [] \<and> hd (nor_rx x) = 0x05 then nor_busy x - 1 else nor_busy x)\<rparr>"

definition nor_chip :: "nor_par \<Rightarrow> nor spi_chip" where
  "nor_chip P = \<lparr>chip_out = nor_out P, chip_in = nor_in, chip_select = (\<lambda>x. x\<lparr>nor_rx := []\<rparr>),
     chip_deselect = (\<lambda>x. (nor_execute P (nor_rx x) x)\<lparr>nor_rx := []\<rparr>)\<rparr>"

lemma nor_chip_simps [simp]:
  "chip_out (nor_chip P) = nor_out P" "chip_in (nor_chip P) = nor_in"
  "chip_select (nor_chip P) x = x\<lparr>nor_rx := []\<rparr>"
  "chip_deselect (nor_chip P) x = (nor_execute P (nor_rx x) x)\<lparr>nor_rx := []\<rparr>"
  by (simp_all add: nor_chip_def)

lemma nor_receives:
  "nor_rx x @ bs = cmd # r \<Longrightarrow> cmd \<noteq> 0x05 \<Longrightarrow> fold nor_in bs x = x\<lparr>nor_rx := cmd # r\<rparr>"
proof (induction bs arbitrary: x)
  case (Cons b bs)
  then have "\<not> (nor_rx x \<noteq> [] \<and> hd (nor_rx x) = 0x05)" by (cases "nor_rx x") auto
  then have "nor_in b x = x\<lparr>nor_rx := nor_rx x @ [b]\<rparr>" by (auto simp: nor_in_def)
  with Cons show ?case by simp
qed simp

text \<open>What one command does to the chip.\<close>

lemma nor_command:
  assumes "cmd \<noteq> 0x05"
  shows "chip_deselect (nor_chip P) (fold (chip_in (nor_chip P)) (cmd # r) (chip_select (nor_chip P) x)) =
    (nor_execute P (cmd # r) (x\<lparr>nor_rx := cmd # r\<rparr>))\<lparr>nor_rx := []\<rparr>"
  using nor_receives [of "x\<lparr>nor_rx := []\<rparr>" "cmd # r" cmd r] assms by simp

lemma program_bytes_range:
  "off + length bs \<le> 256 \<Longrightarrow> base + off + length bs \<le> length m \<Longrightarrow>
   program_bytes base off bs m =
     overlay (base + off) (map2 (AND) (take (length bs) (drop (base + off) m)) bs) m"
proof (induction bs arbitrary: off m)
  case (Cons b bs)
  let ?m = "m[base + off := m ! (base + off) AND b]"
  show ?case
  proof (cases "bs = []")
    case True
    with Cons.prems show ?thesis
      by (simp add: overlay_def take_Suc_conv_app_nth hd_drop_conv_nth upd_conv_take_nth_drop take_Suc)
  next
    case False
    then have "off + 1 < 256" using Cons.prems by (cases bs) simp_all
    then have o: "(off + 1) mod 256 = Suc off" by simp
    have d: "drop (base + off) m = m ! (base + off) # drop (Suc (base + off)) m"
      using Cons.prems by (simp add: Cons_nth_drop_Suc)
    have "program_bytes base off (b # bs) m = program_bytes base (Suc off) bs ?m" by (simp only: program_bytes.simps o)
    also have "\<dots> = overlay (base + Suc off) (map2 (AND) (take (length bs) (drop (base + Suc off) ?m)) bs) ?m"
      by (rule Cons.IH) (use Cons.prems in simp_all)
    also have "\<dots> = overlay (base + off) (map2 (AND) (take (length (b # bs)) (drop (base + off) m)) (b # bs)) m"
      using Cons.prems
      by (intro nth_equalityI) (auto simp: nth_overlay d nth_Cons' nth_list_update)
    finally show ?thesis .
  qed
qed (simp add: overlay_def)

text \<open>The three address bytes of a command give the address back.\<close>

lemma addr_bytes_eq: "addr_bytes a = [ucast (drop_bit 16 a), ucast (drop_bit 8 a), ucast a]"
proof -
  have e: "(0xFF0000 :: u32) = push_bit 16 0xFF" "(0xFF00 :: u32) = push_bit 8 0xFF" by simp_all
  have b: "bit (0xFF0000 :: u32) n \<longleftrightarrow> 16 \<le> n \<and> n < 24" "bit (0xFF00 :: u32) n \<longleftrightarrow> 8 \<le> n \<and> n < 16" for n
    unfolding e bit_push_bit_iff bit_0xFF by (auto simp: possible_bit_def)
  show ?thesis
    unfolding addr_bytes_def list.inject
    by (intro conjI refl bit_word_eqI)
      (simp_all add: bit_drop_bit_eq bit_and_iff bit_unsigned_iff possible_bit_def b bit_0xFF_int cong: conj_cong)
qed

lemma unat_ucast_u8: "unat (ucast (w :: u32) :: u8) = unat w mod 256"
  by (simp add: unsigned_ucast_eq take_bit_eq_mod)

lemma unat_drop_bit_u32: "unat (drop_bit n (w :: u32)) = unat w div 2 ^ n"
proof -
  have "unat w < 2 ^ 32" using unsigned_less [of w] by simp
  then show ?thesis
    unfolding unsigned_drop_bit_eq by (simp add: drop_bit_eq_div take_bit_nat_eq_self)
qed

lemma three_bytes_nat:
  assumes "(n :: nat) < 2 ^ 24"
  shows "n div 65536 mod 256 * 65536 + n div 256 mod 256 * 256 + n mod 256 = n"
proof -
  have "n div 65536 < 256" using assms by simp
  moreover have "n div 65536 = n div 256 div 256" by (simp add: div_mult2_eq [symmetric])
  moreover have "256 * (n div 256) + n mod 256 = n" by (rule mult_div_mod_eq)
  moreover have "256 * (n div 256 div 256) + n div 256 mod 256 = n div 256" by (rule mult_div_mod_eq)
  ultimately show ?thesis by (simp only: mod_less)
qed

lemma nor_addr_of_bytes:
  assumes "unat a < length (nor_mem x)" and "length (nor_mem x) \<le> 2 ^ 24"
  shows "nor_addr (addr_bytes a ! 0) (addr_bytes a ! 1) (addr_bytes a ! 2) x = unat a"
proof -
  have "unat a < 2 ^ 24" using assms by linarith
  note * = three_bytes_nat [OF this]
  have "unat (addr_bytes a ! 0) = unat a div 65536 mod 256" "unat (addr_bytes a ! 1) = unat a div 256 mod 256"
    "unat (addr_bytes a ! 2) = unat a mod 256"
    unfolding addr_bytes_eq by (simp_all add: unat_ucast_u8 unat_drop_bit_u32)
  with * have "nor_addr (addr_bytes a ! 0) (addr_bytes a ! 1) (addr_bytes a ! 2) x = unat a mod length (nor_mem x)"
    by (simp only: nor_addr_def)
  with assms(1) show ?thesis by simp
qed

section \<open>The driver's transfers on the chip\<close>

definition nor_of :: "('d \<Rightarrow> nor shifter) \<Rightarrow> 'd sflash \<Rightarrow> nor" where
  "nor_of view st = chip_of view (sf_bus st)"

definition bus_idle :: "'d spi_dev \<Rightarrow> nor_par \<Rightarrow> ('d \<Rightarrow> nor shifter) \<Rightarrow> 'd sflash \<Rightarrow> bool" where
  "bus_idle D P view st \<longleftrightarrow> spi_closed D (nor_chip P) view (sf_bus st)"

lemma nor_of_simps [simp]:
  "nor_of view (st\<lparr>g_tSF := g\<rparr>) = nor_of view st" "nor_of view (st\<lparr>s_spiBuf := b\<rparr>) = nor_of view st"
  "bus_idle D P view (st\<lparr>g_tSF := g\<rparr>) = bus_idle D P view st"
  "bus_idle D P view (st\<lparr>s_spiBuf := b\<rparr>) = bus_idle D P view st"
  by (simp_all add: nor_of_def bus_idle_def)

text \<open>An operation that only talks to the chip.\<close>

definition talks_to :: "'d spi_dev \<Rightarrow> nor_par \<Rightarrow> ('d \<Rightarrow> nor shifter) \<Rightarrow> 'd sflash \<Rightarrow> 'd sflash \<Rightarrow> nor \<Rightarrow> bool" where
  "talks_to D P view st st' x \<longleftrightarrow>
     bus_idle D P view st' \<and> nor_of view st' = x \<and> g_tSF st' = g_tSF st \<and> s_spiBuf st' = s_spiBuf st"

lemma talks_to_trans:
  "talks_to D P view st st1 x \<Longrightarrow> talks_to D P view st1 st2 y \<Longrightarrow> talks_to D P view st st2 y"
  by (simp add: talks_to_def)

lemma talks_to_idle: "talks_to D P view st st' x \<Longrightarrow> bus_idle D P view st'"
  by (simp add: talks_to_def)

lemma sf_command_ok:
  assumes "bus_idle D P view st" and "cmd \<noteq> 0x05"
  shows "talks_to D P view st (sf_command D (cmd # r) st)
    ((nor_execute P (cmd # r) ((nor_of view st)\<lparr>nor_rx := cmd # r\<rparr>))\<lparr>nor_rx := []\<rparr>)"
  using spi1.command [of D "nor_chip P" view "sf_bus st" "cmd # r"] assms nor_command [OF assms(2)]
  by (simp add: talks_to_def bus_idle_def nor_of_def sf_command_def del: nor_chip_simps nor_execute.simps)

text \<open>Waiting for the end of a write: the chip says how often it has to be asked.\<close>

lemma status_busy: "nor_bp x AND 1 = 0 \<Longrightarrow> (nor_status x AND 0x01 = 1) \<longleftrightarrow> 0 < nor_busy x"
  by (auto simp: nor_status_def bit.conj_disj_distrib2)

lemma wait_loop_ok:
  assumes "nor_bp x AND 1 = 0"
  shows "spi_opened D (nor_chip P) view s \<Longrightarrow> chip_of view s = x\<lparr>nor_busy := n, nor_rx := 0x05 # r\<rparr> \<Longrightarrow>
    n < fuel \<Longrightarrow>
    \<exists>s' r'. wait_loop fuel D s = Inr s' \<and> spi_opened D (nor_chip P) view s' \<and>
      chip_of view s' = x\<lparr>nor_busy := 0, nor_rx := 0x05 # r'\<rparr>"
proof (induction n arbitrary: fuel s r)
  case 0
  then obtain k where k: "fuel = Suc k" by (cases fuel) auto
  obtain b where "chip_of view (snd (bsp_spiRead1 D s)) = nor_in b (chip_of view s)"
    using spi1.recv(3) [OF "0.prems"(1)] by auto
  then have "chip_of view (snd (bsp_spiRead1 D s)) = x\<lparr>nor_busy := 0, nor_rx := 0x05 # r @ [b]\<rparr>"
    using "0.prems"(2) by (simp add: nor_in_def)
  moreover have "\<not> fst (bsp_spiRead1 D s) AND 0x01 = 1"
    using spi1.recv(2) [OF "0.prems"(1)] "0.prems"(2) status_busy [of "x\<lparr>nor_busy := 0, nor_rx := 0x05 # r\<rparr>"] assms
    by (simp add: nor_out_def)
  ultimately show ?case using spi1.recv(1) [OF "0.prems"(1)] by (auto simp: k case_prod_beta Let_def)
next
  case (Suc n)
  then obtain k where k: "fuel = Suc k" by (cases fuel) auto
  obtain b where "chip_of view (snd (bsp_spiRead1 D s)) = nor_in b (chip_of view s)"
    using spi1.recv(3) [OF Suc.prems(1)] by auto
  then have "chip_of view (snd (bsp_spiRead1 D s)) = x\<lparr>nor_busy := n, nor_rx := 0x05 # r @ [b]\<rparr>"
    using Suc.prems(2) by (simp add: nor_in_def)
  from Suc.IH [OF spi1.recv(1) [OF Suc.prems(1)] this, of k] Suc.prems(3)
  have "\<exists>s' r'. wait_loop k D (snd (bsp_spiRead1 D s)) = Inr s' \<and> spi_opened D (nor_chip P) view s' \<and>
      chip_of view s' = x\<lparr>nor_busy := 0, nor_rx := 0x05 # r'\<rparr>" by (simp add: k)
  moreover have "fst (bsp_spiRead1 D s) AND 0x01 = 1"
    using spi1.recv(2) [OF Suc.prems(1)] Suc.prems(2)
      status_busy [of "x\<lparr>nor_busy := Suc n, nor_rx := 0x05 # r\<rparr>"] assms
    by (simp add: nor_out_def)
  ultimately show ?case by (simp add: k case_prod_beta Let_def)
qed

lemma sf_WaitForWriteEnd_ok:
  assumes "bus_idle D P view st" and "nor_bp (nor_of view st) AND 1 = 0" and "nor_busy (nor_of view st) < fuel"
  obtains st' where "sf_WaitForWriteEnd fuel D st = Inr st'"
    and "talks_to D P view st st' ((nor_of view st)\<lparr>nor_busy := 0, nor_rx := []\<rparr>)"
proof -
  let ?s = "bsp_spiWrite1 D 0x05 (sf_SetCS D 0 (sf_bus st))" and ?x = "nor_of view st"
  have c: "spi_closed D (nor_chip P) view (sf_bus st)" using assms(1) by (simp add: bus_idle_def)
  have o: "spi_opened D (nor_chip P) view ?s"
    using spi1.request(1) [OF c, of "[0x05]"] by simp
  have x: "chip_of view ?s = ?x\<lparr>nor_busy := nor_busy ?x, nor_rx := 0x05 # []\<rparr>"
    using spi1.request(2) [OF c, of "[0x05]"] by (simp add: nor_in_def nor_of_def)
  obtain s' r' where s': "wait_loop fuel D ?s = Inr s'" "spi_opened D (nor_chip P) view s'"
      "chip_of view s' = ?x\<lparr>nor_busy := 0, nor_rx := 0x05 # r'\<rparr>"
    using wait_loop_ok [OF assms(2) o x assms(3)] by auto
  show thesis
  proof (rule that)
    show "sf_WaitForWriteEnd fuel D st = Inr (st\<lparr>sf_bus := sf_SetCS D 1 s'\<rparr>)"
      by (simp add: sf_WaitForWriteEnd_def s'(1))
    have "nor_execute P (0x05 # r') (?x\<lparr>nor_busy := 0, nor_rx := 0x05 # r'\<rparr>) = ?x\<lparr>nor_busy := 0, nor_rx := 0x05 # r'\<rparr>"
      by simp
    then show "talks_to D P view st (st\<lparr>sf_bus := sf_SetCS D 1 s'\<rparr>) (?x\<lparr>nor_busy := 0, nor_rx := []\<rparr>)"
      using spi1.close_bus [OF s'(2)] s'(3) by (simp add: talks_to_def bus_idle_def nor_of_def)
  qed
qed

section \<open>Erasing and programming\<close>

text \<open>
  The driver and the chip at rest: nothing pending, the chip not protected, the geometry the driver
  believes in is that of the chip, and every write of the chip ends within \<open>fuel\<close> status reads. The
  chips with the two-byte program command are excluded.
\<close>

definition flash_ok :: "'d spi_dev \<Rightarrow> nor_par \<Rightarrow> ('d \<Rightarrow> nor shifter) \<Rightarrow> nat \<Rightarrow> 'd sflash \<Rightarrow> bool" where
  "flash_ok D P view fuel st \<longleftrightarrow>
     bus_idle D P view st \<and> nor_busy (nor_of view st) = 0 \<and> nor_bp (nor_of view st) = 0 \<and>
     ChipID (g_tSF st) \<noteq> SST25VF016B_ID \<and> PageSize (g_tSF st) = 4096 \<and> length (s_spiBuf st) = 4096 \<and>
     length (nor_mem (nor_of view st)) = unat (TotalSize (g_tSF st)) \<and> 4096 dvd unat (TotalSize (g_tSF st)) \<and>
     unat (TotalSize (g_tSF st)) \<le> 2 ^ 24 \<and> (\<forall>x. np_lat P x < fuel)"

definition flash_mem :: "('d \<Rightarrow> nor shifter) \<Rightarrow> 'd sflash \<Rightarrow> u8 list" where
  "flash_mem view st = nor_mem (nor_of view st)"

text \<open>The memory becomes \<open>m\<close> and nothing else of the driver's state changes.\<close>

definition becomes :: "'d spi_dev \<Rightarrow> nor_par \<Rightarrow> ('d \<Rightarrow> nor shifter) \<Rightarrow> nat \<Rightarrow> 'd sflash \<Rightarrow> 'd sflash
    \<Rightarrow> u8 list \<Rightarrow> bool" where
  "becomes D P view fuel st st' m \<longleftrightarrow>
     flash_ok D P view fuel st' \<and> flash_mem view st' = m \<and> g_tSF st' = g_tSF st \<and> s_spiBuf st' = s_spiBuf st"

lemma becomes_trans:
  "becomes D P view fuel st st1 m1 \<Longrightarrow> becomes D P view fuel st1 st2 m2 \<Longrightarrow> becomes D P view fuel st st2 m2"
  by (simp add: becomes_def)

lemma becomes_ok: "becomes D P view fuel st st' m \<Longrightarrow> flash_ok D P view fuel st'"
  by (simp add: becomes_def)

lemma becomes_mem: "becomes D P view fuel st st' m \<Longrightarrow> flash_mem view st' = m"
  by (simp add: becomes_def)

lemma becomes_same:
  assumes "becomes D P view fuel st st' m"
  shows "g_tSF st' = g_tSF st" and "s_spiBuf st' = s_spiBuf st"
  using assms by (simp_all add: becomes_def)

lemma talks_to_becomes:
  assumes "flash_ok D P view fuel st" and "talks_to D P view st st' x"
    and "nor_busy x = 0" "nor_bp x = 0" "length (nor_mem x) = length (flash_mem view st)"
  shows "becomes D P view fuel st st' (nor_mem x)"
  using assms by (simp add: becomes_def flash_ok_def talks_to_def flash_mem_def)

text \<open>A write command after the write-enable command, and the wait for its end.\<close>

lemma write_cycle:
  assumes ok: "flash_ok D P view fuel st" and cmd: "cmd \<noteq> 0x05"
    and ex: "\<And>x. nor_mem x = flash_mem view st \<Longrightarrow> nor_busy x = 0 \<Longrightarrow> nor_bp x = 0 \<Longrightarrow> nor_wel x \<Longrightarrow>
      nor_execute P (cmd # r) x = nor_started P m x"
    and len: "length m = length (flash_mem view st)"
  obtains st' where
    "sf_WaitForWriteEnd fuel D (sf_command D (cmd # r) (sf_WriteEnable D st)) = Inr st'"
    "becomes D P view fuel st st' m"
proof -
  let ?x = "nor_of view st"
  have b: "bus_idle D P view st" "nor_busy ?x = 0" "nor_bp ?x = 0" "\<And>x. np_lat P x < fuel"
    using ok by (auto simp: flash_ok_def)
  let ?x1 = "?x\<lparr>nor_wel := True, nor_rx := []\<rparr>"
  have t1: "talks_to D P view st (sf_WriteEnable D st) ?x1"
    using sf_command_ok [OF b(1), of "0x06" "[]"] b(2) by (simp add: sf_WriteEnable_def)
  let ?st1 = "sf_WriteEnable D st" and ?st2 = "sf_command D (cmd # r) (sf_WriteEnable D st)"
  have x1: "nor_of view ?st1 = ?x1" using t1 by (simp add: talks_to_def)
  let ?x2 = "(nor_started P m (?x1\<lparr>nor_rx := cmd # r\<rparr>))\<lparr>nor_rx := []\<rparr>"
  have "talks_to D P view ?st1 ?st2 ((nor_execute P (cmd # r) (?x1\<lparr>nor_rx := cmd # r\<rparr>))\<lparr>nor_rx := []\<rparr>)"
    using sf_command_ok [OF talks_to_idle [OF t1] cmd, of r] by (simp only: x1)
  also have "nor_execute P (cmd # r) (?x1\<lparr>nor_rx := cmd # r\<rparr>) = nor_started P m (?x1\<lparr>nor_rx := cmd # r\<rparr>)"
    by (rule ex) (use b in \<open>simp_all add: flash_mem_def\<close>)
  finally have t2: "talks_to D P view ?st1 ?st2 ?x2" .
  have x2: "nor_of view ?st2 = ?x2" using t2 by (simp add: talks_to_def)
  have "nor_bp (nor_of view ?st2) AND 1 = 0" "nor_busy (nor_of view ?st2) < fuel"
    unfolding x2 using b by (simp_all add: nor_started_def)
  then obtain st' where st': "sf_WaitForWriteEnd fuel D ?st2 = Inr st'"
      "talks_to D P view ?st2 st' ((nor_of view ?st2)\<lparr>nor_busy := 0, nor_rx := []\<rparr>)"
    by (rule sf_WaitForWriteEnd_ok [OF talks_to_idle [OF t2]])
  let ?x3 = "?x2\<lparr>nor_busy := 0, nor_rx := []\<rparr>"
  have "talks_to D P view st st' ?x3"
    using talks_to_trans [OF t1 talks_to_trans [OF t2 st'(2)]] by (simp only: x2)
  then have "becomes D P view fuel st st' (nor_mem ?x3)"
    by (rule talks_to_becomes [OF ok]) (use b len in \<open>simp_all add: nor_started_def\<close>)
  then show thesis by (intro that [OF st'(1)]) (simp add: nor_started_def)
qed

lemma flash_mem_length:
  assumes "flash_ok D P view fuel st"
  shows "length (flash_mem view st) = unat (TotalSize (g_tSF st))" and "length (flash_mem view st) \<le> 2 ^ 24"
    and "4096 dvd length (flash_mem view st)"
  using assms by (simp_all add: flash_ok_def flash_mem_def)

definition erased :: "nat \<Rightarrow> u8 list \<Rightarrow> u8 list" where
  "erased a m = overlay (4096 * (a div 4096)) (replicate 4096 0xFF) m"

lemma sector_bound: "4096 dvd n \<Longrightarrow> a < n \<Longrightarrow> 4096 * (a div 4096) + 4096 \<le> (n :: nat)"
  by (metis dvd_div_mult_self less_mult_imp_div_less mult.commute mult_Suc_right mult_le_mono2 Suc_leI add.commute)

lemma sf_EraseSector_ok:
  assumes ok: "flash_ok D P view fuel st" and a: "unat a < length (flash_mem view st)"
  obtains st' where "sf_EraseSector fuel D a st = Inr st'"
    "becomes D P view fuel st st' (erased (unat a) (flash_mem view st))"
proof -
  note len = flash_mem_length [OF ok]
  have lenm: "length (erased (unat a) (flash_mem view st)) = length (flash_mem view st)"
    using sector_bound [OF len(3) a] by (simp add: erased_def)
  have ex: "nor_execute P (0x20 # addr_bytes a) x = nor_started P (erased (unat a) (flash_mem view st)) x"
    if x: "nor_mem x = flash_mem view st" "nor_busy x = 0" "nor_bp x = 0" "nor_wel x" for x
  proof -
    have "nor_addr (addr_bytes a ! 0) (addr_bytes a ! 1) (addr_bytes a ! 2) x = unat a"
      by (rule nor_addr_of_bytes) (use a len x in simp_all)
    with x show ?thesis by (simp add: erased_def addr_bytes_def)
  qed
  have "(0x20 :: u8) \<noteq> 0x05" by simp
  from write_cycle [OF ok this ex lenm] obtain st' where
    "sf_WaitForWriteEnd fuel D (sf_command D (0x20 # addr_bytes a) (sf_WriteEnable D st)) = Inr st'"
    "becomes D P view fuel st st' (erased (unat a) (flash_mem view st))" by blast
  then show thesis by (intro that) (simp_all add: sf_EraseSector_def)
qed

lemma sf_EraseChip_ok:
  assumes ok: "flash_ok D P view fuel st"
  obtains st' where "sf_EraseChip fuel D st = Inr st'"
    "becomes D P view fuel st st' (replicate (length (flash_mem view st)) 0xFF)"
proof -
  let ?m = "replicate (length (flash_mem view st)) (0xFF :: u8)"
  have ex: "nor_execute P (0xC7 # []) x = nor_started P ?m x"
    if "nor_mem x = flash_mem view st" "nor_busy x = 0" "nor_bp x = 0" "nor_wel x" for x
    using that by simp
  have "(0xC7 :: u8) \<noteq> 0x05" "length ?m = length (flash_mem view st)" by simp_all
  from write_cycle [OF ok this(1) ex this(2)] obtain st' where
    "sf_WaitForWriteEnd fuel D (sf_command D [0xC7] (sf_WriteEnable D st)) = Inr st'"
    "becomes D P view fuel st st' ?m" by blast
  then show thesis by (intro that) (simp_all add: sf_EraseChip_def)
qed

text \<open>Programming \<open>bs\<close> from \<open>a\<close> on clears bits.\<close>

definition programmed :: "nat \<Rightarrow> u8 list \<Rightarrow> u8 list \<Rightarrow> u8 list" where
  "programmed a bs m = overlay a (map2 (AND) (take (length bs) (drop a m)) bs) m"

lemma length_programmed [simp]: "a + length bs \<le> length m \<Longrightarrow> length (programmed a bs m) = length m"
  by (simp add: programmed_def)

lemma programmed_append:
  assumes "a + length xs + length ys \<le> length m"
  shows "programmed (a + length xs) ys (programmed a xs m) = programmed a (xs @ ys) m"
proof -
  let ?A = "take (length xs) (drop a m)" and ?B = "take (length ys) (drop (a + length xs) m)"
  have "take (length ys) (drop (a + length xs) (programmed a xs m)) = ?B"
    unfolding programmed_def using assms by (intro take_drop_overlay_other) simp_all
  then have "programmed (a + length xs) ys (programmed a xs m) =
      overlay (a + length xs) (map2 (AND) ?B ys) (overlay a (map2 (AND) ?A xs) m)"
    by (simp add: programmed_def)
  also have "\<dots> = overlay a (map2 (AND) ?A xs @ map2 (AND) ?B ys) m"
    using assms by (intro overlay_append) simp_all
  also have "map2 (AND) ?A xs @ map2 (AND) ?B ys = map2 (AND) (?A @ ?B) (xs @ ys)"
    using assms by (simp add: zip_append)
  also have "?A @ ?B = take (length (xs @ ys)) (drop a m)"
    by (simp add: take_add ac_simps)
  finally show ?thesis by (simp only: programmed_def)
qed

lemma programmed_Nil [simp]: "programmed a [] m = m"
  by (simp add: programmed_def overlay_def)

lemma nor_program_page:
  assumes "256 dvd a" and "length bs = 256" and "a + 256 \<le> length m"
  shows "nor_program a bs m = programmed a bs m"
  using assms program_bytes_range [of 0 bs a m]
  by (auto simp: nor_program_def programmed_def)

lemma program_page_ok:
  assumes ok: "flash_ok D P view fuel st" and bs: "length bs = 256"
    and a: "256 dvd unat a" "unat a + 256 \<le> length (flash_mem view st)"
  obtains st' where
    "sf_WaitForWriteEnd fuel D (sf_command D (0x02 # addr_bytes a @ bs) (sf_WriteEnable D st)) = Inr st'"
    "becomes D P view fuel st st' (programmed (unat a) bs (flash_mem view st))"
proof -
  note len = flash_mem_length [OF ok]
  have l3: "length (addr_bytes a) = 3" by (simp add: addr_bytes_def)
  have ex: "nor_execute P (0x02 # addr_bytes a @ bs) x =
      nor_started P (programmed (unat a) bs (flash_mem view st)) x"
    if x: "nor_mem x = flash_mem view st" "nor_busy x = 0" "nor_bp x = 0" "nor_wel x" for x
  proof -
    have "nor_addr (addr_bytes a ! 0) (addr_bytes a ! 1) (addr_bytes a ! 2) x = unat a"
      by (rule nor_addr_of_bytes) (use a len x in simp_all)
    with x show ?thesis using bs l3 nor_program_page [OF a(1) bs a(2)] by (simp add: nth_append)
  qed
  have "(0x02 :: u8) \<noteq> 0x05" "length (programmed (unat a) bs (flash_mem view st)) = length (flash_mem view st)"
    using a bs by simp_all
  from write_cycle [OF ok this(1) ex this(2)] show thesis using that by blast
qed

lemma unat_add_u32: "unat (a :: u32) + n < 4294967296 \<Longrightarrow> unat (a + of_nat n) = unat a + n"
  by (simp add: unat_word_ariths unat_of_nat take_bit_eq_mod)

lemma program_loop_ok:
  assumes "flash_ok D P view fuel st" and "256 dvd unat a"
    and "unat a + 256 * n \<le> length (flash_mem view st)" and "p + 256 * n \<le> length buf"
  shows "\<exists>st'. program_loop fuel n D buf p a st = Inr st' \<and>
    becomes D P view fuel st st' (programmed (unat a) (take (256 * n) (drop p buf)) (flash_mem view st))"
  using assms
proof (induction n arbitrary: p a st)
  case 0
  then show ?case by (simp add: becomes_def)
next
  case (Suc n)
  let ?bs = "take 256 (drop p buf)" and ?m = "flash_mem view st"
  have bs: "length ?bs = 256" "get_bytes buf p 256 = Inr ?bs" using Suc.prems by (simp_all add: get_bytes_ok)
  from Suc.prems have "unat a + 256 \<le> length ?m" by simp
  with program_page_ok [OF Suc.prems(1) bs(1) Suc.prems(2)] obtain st1 where
    st1: "sf_WaitForWriteEnd fuel D (sf_command D (0x02 # addr_bytes a @ ?bs) (sf_WriteEnable D st)) = Inr st1"
      "becomes D P view fuel st st1 (programmed (unat a) ?bs ?m)" by blast
  have a': "unat (a + 256) = unat a + 256"
    using unat_add_u32 [of a 256] Suc.prems(3) flash_mem_length(2) [OF Suc.prems(1)] by simp
  have m1: "flash_mem view st1 = programmed (unat a) ?bs ?m" using st1(2) by (rule becomes_mem)
  have "\<exists>st'. program_loop fuel n D buf (p + 256) (a + 256) st1 = Inr st' \<and> becomes D P view fuel st1 st'
      (programmed (unat (a + 256)) (take (256 * n) (drop (p + 256) buf)) (flash_mem view st1))"
    by (rule Suc.IH [OF becomes_ok [OF st1(2)]]) (use Suc.prems bs a' m1 in simp_all)
  then obtain st' where st': "program_loop fuel n D buf (p + 256) (a + 256) st1 = Inr st'"
    "becomes D P view fuel st1 st' (programmed (unat (a + 256)) (take (256 * n) (drop (p + 256) buf)) (flash_mem view st1))"
    by blast
  have "programmed (unat (a + 256)) (take (256 * n) (drop (p + 256) buf)) (flash_mem view st1) =
      programmed (unat a) (?bs @ take (256 * n) (drop (p + 256) buf)) ?m"
    using programmed_append [of "unat a" ?bs "take (256 * n) (drop (p + 256) buf)" ?m] Suc.prems bs
    by (simp add: m1 a')
  also have "?bs @ take (256 * n) (drop (p + 256) buf) = take (256 * Suc n) (drop p buf)"
    by (simp add: take_add ac_simps)
  finally show ?case
    using becomes_trans [OF st1(2) st'(2)] st'(1) st1(1) bs(2) by simp
qed

lemma disable_writes_ok:
  assumes ok: "flash_ok D P view fuel st"
  obtains st' where "sf_WaitForWriteEnd fuel D (sf_command D [0x04] st) = Inr st'"
    "becomes D P view fuel st st' (flash_mem view st)"
proof -
  let ?x = "nor_of view st" and ?st1 = "sf_command D [0x04] st"
  have b: "bus_idle D P view st" "nor_busy ?x = 0" "nor_bp ?x = 0" "\<And>x. np_lat P x < fuel"
    using ok by (auto simp: flash_ok_def)
  have t1: "talks_to D P view st ?st1 (?x\<lparr>nor_wel := False, nor_rx := []\<rparr>)"
    using sf_command_ok [OF b(1), of "0x04" "[]"] b(2) by simp
  then have x1: "nor_of view ?st1 = ?x\<lparr>nor_wel := False, nor_rx := []\<rparr>" by (simp add: talks_to_def)
  have "nor_bp (nor_of view ?st1) AND 1 = 0" "nor_busy (nor_of view ?st1) < fuel"
    using b(2,3) b(4) [of ?x] by (simp_all add: x1)
  then obtain st' where st': "sf_WaitForWriteEnd fuel D ?st1 = Inr st'"
      "talks_to D P view ?st1 st' ((nor_of view ?st1)\<lparr>nor_busy := 0, nor_rx := []\<rparr>)"
    by (rule sf_WaitForWriteEnd_ok [OF talks_to_idle [OF t1]])
  have "becomes D P view fuel st st' (nor_mem ((nor_of view ?st1)\<lparr>nor_busy := 0, nor_rx := []\<rparr>))"
    by (rule talks_to_becomes [OF ok talks_to_trans [OF t1 st'(2)]])
       (use b in \<open>simp_all add: x1 flash_mem_def\<close>)
  with st'(1) show thesis by (intro that) (simp_all add: x1 flash_mem_def)
qed

lemma sf_PageWrite_ok:
  assumes ok: "flash_ok D P view fuel st" and buf: "length buf = 4096"
    and a: "4096 dvd unat a" "unat a + 4096 \<le> length (flash_mem view st)"
  obtains st' where "sf_PageWrite fuel D buf 0 a 4096 st = Inr st'"
    "becomes D P view fuel st st' (programmed (unat a) buf (flash_mem view st))"
proof -
  have d: "256 dvd unat a" using a(1) by (rule dvd_trans [rotated]) simp
  have "unat a + 256 * 16 \<le> length (flash_mem view st)" "0 + 256 * 16 \<le> length buf" using a buf by simp_all
  from program_loop_ok [OF ok d this] obtain st1 where st1: "program_loop fuel 16 D buf 0 a st = Inr st1"
    "becomes D P view fuel st st1 (programmed (unat a) (take (256 * 16) (drop 0 buf)) (flash_mem view st))" by blast
  obtain st2 where st2: "sf_WaitForWriteEnd fuel D (sf_command D [0x04] st1) = Inr st2"
    "becomes D P view fuel st1 st2 (flash_mem view st1)"
    by (rule disable_writes_ok [OF becomes_ok [OF st1(2)]])
  have "becomes D P view fuel st st2 (programmed (unat a) buf (flash_mem view st))"
    using becomes_trans [OF st1(2) st2(2)] becomes_mem [OF st1(2)] buf by simp
  moreover have "unat (4096 :: u16) div 256 = 16" by simp
  ultimately show thesis
    using ok st1(1) st2(1) by (intro that) (simp_all add: sf_PageWrite_def flash_ok_def)
qed

section \<open>Reading\<close>

text \<open>The chip is sending its memory from \<open>a\<close> on; \<open>k\<close> bytes have been read.\<close>

definition reading :: "'d spi_dev \<Rightarrow> nor_par \<Rightarrow> ('d \<Rightarrow> nor shifter) \<Rightarrow> nor \<Rightarrow> u32 \<Rightarrow> nat \<Rightarrow> 'd spi \<Rightarrow> bool" where
  "reading D P view x a k s \<longleftrightarrow> spi_opened D (nor_chip P) view s \<and>
     (\<exists>d. length d = k \<and> chip_of view s = x\<lparr>nor_rx := 0x03 # addr_bytes a @ d\<rparr>)"

lemma reading_start:
  assumes "bus_idle D P view st"
  shows "reading D P view (nor_of view st) a 0 (sf_open_read D a st)"
proof -
  have c: "spi_closed D (nor_chip P) view (sf_bus st)" using assms by (simp add: bus_idle_def)
  show ?thesis
    using spi1.request [OF c, of "0x03 # addr_bytes a"]
      nor_receives [of "(nor_of view st)\<lparr>nor_rx := []\<rparr>" "0x03 # addr_bytes a" "0x03" "addr_bytes a"]
    by (simp add: reading_def sf_open_read_def nor_of_def del: fold.simps)
qed

lemma reading_step:
  assumes "reading D P view x a k s" and "nor_busy x = 0" and "unat a + k < length (nor_mem x)"
    and "length (nor_mem x) \<le> 2 ^ 24"
  shows "fst (bsp_spiRead1 D s) = nor_mem x ! (unat a + k)"
    and "reading D P view x a (Suc k) (snd (bsp_spiRead1 D s))"
proof -
  obtain d where d: "length d = k" "chip_of view s = x\<lparr>nor_rx := 0x03 # addr_bytes a @ d\<rparr>"
    and o: "spi_opened D (nor_chip P) view s" using assms(1) by (auto simp: reading_def)
  have l3: "length (addr_bytes a) = 3" by (simp add: addr_bytes_def)
  have "nor_addr (addr_bytes a ! 0) (addr_bytes a ! 1) (addr_bytes a ! 2) x = unat a"
    by (rule nor_addr_of_bytes) (use assms in simp_all)
  then have "nor_out P (x\<lparr>nor_rx := 0x03 # addr_bytes a @ d\<rparr>) = nor_mem x ! (unat a + k)"
    using assms(2,3) d(1) l3 by (simp add: nor_out_def nth_append nor_addr_def)
  then show "fst (bsp_spiRead1 D s) = nor_mem x ! (unat a + k)"
    using spi1.recv(2) [OF o] d(2) by simp
  obtain b where "chip_of view (snd (bsp_spiRead1 D s)) = nor_in b (chip_of view s)"
    using spi1.recv(3) [OF o] by auto
  then have "chip_of view (snd (bsp_spiRead1 D s)) = x\<lparr>nor_rx := 0x03 # addr_bytes a @ d @ [b]\<rparr>"
    by (simp add: nor_in_def d(2))
  then show "reading D P view x a (Suc k) (snd (bsp_spiRead1 D s))"
    unfolding reading_def using spi1.recv(1) [OF o] d(1) by (intro conjI exI [of _ "d @ [b]"]) simp_all
qed

lemma reading_end:
  assumes ok: "flash_ok D P view fuel st" and r: "reading D P view (nor_of view st) a k s"
  shows "becomes D P view fuel st (st\<lparr>sf_bus := sf_SetCS D 1 s\<rparr>) (flash_mem view st)"
proof -
  let ?x = "nor_of view st"
  obtain d where o: "spi_opened D (nor_chip P) view s"
    and d: "chip_of view s = ?x\<lparr>nor_rx := 0x03 # addr_bytes a @ d\<rparr>"
    using r by (auto simp: reading_def)
  have "nor_execute P (0x03 # addr_bytes a @ d) y = y" for y by simp
  then have "talks_to D P view st (st\<lparr>sf_bus := sf_SetCS D 1 s\<rparr>) (?x\<lparr>nor_rx := []\<rparr>)"
    using spi1.close_bus [OF o] d
    by (simp add: talks_to_def bus_idle_def nor_of_def del: nor_execute.simps)
  then have "becomes D P view fuel st (st\<lparr>sf_bus := sf_SetCS D 1 s\<rparr>) (nor_mem (?x\<lparr>nor_rx := []\<rparr>))"
    by (rule talks_to_becomes [OF ok]) (use ok in \<open>simp_all add: flash_ok_def flash_mem_def\<close>)
  then show ?thesis by (simp add: flash_mem_def)
qed

lemma read_loop_ok:
  assumes "nor_busy x = 0" and "length (nor_mem x) \<le> 2 ^ 24"
  shows "reading D P view x a k s \<Longrightarrow> unat a + k + n \<le> length (nor_mem x) \<Longrightarrow> p + n \<le> length buf \<Longrightarrow>
    \<exists>s'. read_loop n D buf p s = Inr (overlay p (take n (drop (unat a + k) (nor_mem x))) buf, s') \<and>
      reading D P view x a (k + n) s'"
proof (induction n arbitrary: k s p buf)
  case 0
  then show ?case by (simp add: overlay_def)
next
  case (Suc n)
  let ?v = "nor_mem x ! (unat a + k)" and ?s1 = "snd (bsp_spiRead1 D s)"
  have "unat a + k < length (nor_mem x)" using Suc.prems(2) by simp
  note st = reading_step [OF Suc.prems(1) assms(1) this assms(2)]
  have "\<exists>s'. read_loop n D (buf[p := ?v]) (Suc p) ?s1 =
        Inr (overlay (Suc p) (take n (drop (unat a + Suc k) (nor_mem x))) (buf[p := ?v]), s') \<and>
      reading D P view x a (Suc k + n) s'"
    by (rule Suc.IH [OF st(2)]) (use Suc.prems in simp_all)
  moreover have "buf[p := ?v] = overlay p [?v] buf"
    using Suc.prems by (simp add: overlay_def upd_conv_take_nth_drop)
  moreover have "overlay (Suc p) (take n (drop (unat a + Suc k) (nor_mem x))) (overlay p [?v] buf) =
      overlay p ([?v] @ take n (drop (unat a + Suc k) (nor_mem x))) buf"
    by (rule overlay_append) (use Suc.prems in simp_all)
  moreover have "[?v] @ take n (drop (unat a + Suc k) (nor_mem x)) = take (Suc n) (drop (unat a + k) (nor_mem x))"
    using Suc.prems by (simp add: Cons_nth_drop_Suc [symmetric])
  ultimately show ?case using st(1) Suc.prems(3) by (simp add: case_prod_beta Let_def)
qed

lemma cmp_loop_ok:
  assumes "nor_busy x = 0" and "length (nor_mem x) \<le> 2 ^ 24"
  shows "reading D P view x a k s \<Longrightarrow> unat a + k + n \<le> length (nor_mem x) \<Longrightarrow> p + n \<le> length tar \<Longrightarrow>
    \<exists>k' s'. cmp_loop n D tar p s =
        Inr (if take n (drop p tar) = take n (drop (unat a + k) (nor_mem x)) then 0 else 1, s') \<and>
      reading D P view x a k' s'"
proof (induction n arbitrary: k s p)
  case (Suc n)
  let ?v = "nor_mem x ! (unat a + k)" and ?s1 = "snd (bsp_spiRead1 D s)"
  have "unat a + k < length (nor_mem x)" using Suc.prems(2) by simp
  note st = reading_step [OF Suc.prems(1) assms(1) this assms(2)]
  have IH: "\<exists>k' s'. cmp_loop n D tar (Suc p) ?s1 =
        Inr (if take n (drop (Suc p) tar) = take n (drop (unat a + Suc k) (nor_mem x)) then 0 else 1, s') \<and>
      reading D P view x a k' s'"
    by (rule Suc.IH [OF st(2)]) (use Suc.prems in simp_all)
  have h: "take (Suc n) (drop p tar) = tar ! p # take n (drop (Suc p) tar)"
    "take (Suc n) (drop (unat a + k) (nor_mem x)) = ?v # take n (drop (unat a + Suc k) (nor_mem x))"
    using Suc.prems by (simp_all add: take_Suc_conv_app_nth Cons_nth_drop_Suc [symmetric])
  show ?case
  proof (cases "tar ! p = ?v")
    case True
    with IH st(1) Suc.prems(3) h show ?thesis by (simp add: case_prod_beta Let_def)
  next
    case False
    with st Suc.prems(3) h show ?thesis by (auto simp: case_prod_beta Let_def)
  qed
qed auto

text \<open>The driver's own bound check agrees with the size of the chip.\<close>

lemma total_guard:
  assumes ok: "flash_ok D P view fuel st" and b: "unat a + unat sz \<le> length (flash_mem view st)"
  shows "\<not> TotalSize (g_tSF st) < a + sz"
proof -
  have "unat (a + sz) = unat a + unat sz"
    using b flash_mem_length(2) [OF ok] by (intro unat_plus_simple [THEN iffD1] word_le_nat_alt [THEN iffD2])
      (simp add: unat_word_ariths take_bit_eq_mod)
  then show ?thesis using b flash_mem_length(1) [OF ok] by (simp add: word_less_nat_alt)
qed

lemma sf_ReadBuffer_ok:
  assumes ok: "flash_ok D P view fuel st" and sz: "0 < unat sz" "unat sz \<le> length buf"
    and b: "unat a + unat sz \<le> length (flash_mem view st)"
  obtains st' where "sf_ReadBuffer D buf a sz st =
      Inr (overlay 0 (take (unat sz) (drop (unat a) (flash_mem view st))) buf, st')"
    "becomes D P view fuel st st' (flash_mem view st)"
proof -
  let ?x = "nor_of view st"
  have "bus_idle D P view st" using ok by (simp add: flash_ok_def)
  from reading_start [OF this, of a] have r: "reading D P view ?x a 0 (sf_open_read D a st)" .
  have x: "nor_busy ?x = 0" "length (nor_mem ?x) \<le> 2 ^ 24" using ok by (simp_all add: flash_ok_def)
  have "\<exists>s'. read_loop (unat sz) D buf 0 (sf_open_read D a st) =
        Inr (overlay 0 (take (unat sz) (drop (unat a + 0) (nor_mem ?x))) buf, s') \<and>
      reading D P view ?x a (0 + unat sz) s'"
    by (rule read_loop_ok [OF x r]) (use b sz in \<open>simp_all add: flash_mem_def\<close>)
  then obtain s' where s': "read_loop (unat sz) D buf 0 (sf_open_read D a st) =
        Inr (overlay 0 (take (unat sz) (drop (unat a) (flash_mem view st))) buf, s')"
      "reading D P view ?x a (unat sz) s'" by (auto simp: flash_mem_def)
  have "sz \<noteq> 0" using sz(1) by auto
  then have "sf_ReadBuffer D buf a sz st =
      Inr (overlay 0 (take (unat sz) (drop (unat a) (flash_mem view st))) buf, st\<lparr>sf_bus := sf_SetCS D 1 s'\<rparr>)"
    using s'(1) total_guard [OF ok b] by (simp add: sf_ReadBuffer_def)
  then show thesis using reading_end [OF ok s'(2)] by (rule that)
qed

lemma sf_CmpData_ok:
  assumes ok: "flash_ok D P view fuel st" and sz: "0 < unat sz" "p + unat sz \<le> length tar"
    and b: "unat a + unat sz \<le> length (flash_mem view st)"
  obtains st' where "sf_CmpData D a tar p sz st =
      Inr (if take (unat sz) (drop p tar) = take (unat sz) (drop (unat a) (flash_mem view st)) then 0 else 1, st')"
    "becomes D P view fuel st st' (flash_mem view st)"
proof -
  let ?x = "nor_of view st"
  have "bus_idle D P view st" using ok by (simp add: flash_ok_def)
  from reading_start [OF this, of a] have r: "reading D P view ?x a 0 (sf_open_read D a st)" .
  have x: "nor_busy ?x = 0" "length (nor_mem ?x) \<le> 2 ^ 24" using ok by (simp_all add: flash_ok_def)
  have "\<exists>k' s'. cmp_loop (unat sz) D tar p (sf_open_read D a st) =
        Inr (if take (unat sz) (drop p tar) = take (unat sz) (drop (unat a + 0) (nor_mem ?x)) then 0 else 1, s') \<and>
      reading D P view ?x a k' s'"
    by (rule cmp_loop_ok [OF x r]) (use b sz in \<open>simp_all add: flash_mem_def\<close>)
  then obtain k' s' where s': "cmp_loop (unat sz) D tar p (sf_open_read D a st) =
        Inr (if take (unat sz) (drop p tar) = take (unat sz) (drop (unat a) (flash_mem view st)) then 0 else 1, s')"
      "reading D P view ?x a k' s'" by (simp only: flash_mem_def add_0_right) blast
  have "sz \<noteq> 0" using sz(1) by auto
  then have "sf_CmpData D a tar p sz st =
      Inr (if take (unat sz) (drop p tar) = take (unat sz) (drop (unat a) (flash_mem view st)) then 0 else 1,
        st\<lparr>sf_bus := sf_SetCS D 1 s'\<rparr>)"
    using s'(1) total_guard [OF ok b] by (simp add: sf_CmpData_def)
  then show thesis using reading_end [OF ok s'(2)] by (rule that)
qed

section \<open>Writing within a sector\<close>

lemma clear_only: "NOT x AND y = 0 \<Longrightarrow> x AND y = (y :: u8)"
proof (rule bit_word_eqI)
  fix n assume h: "NOT x AND y = 0" and n: "n < LENGTH(8)"
  from h have "bit (NOT x AND y) n = bit (0 :: u8) n" by (simp only:)
  with n show "bit (x AND y) n = bit y n" by (auto simp: bit_and_iff bit_not_iff possible_bit_def)
qed

lemma and_FF [simp]: "(0xFF :: u8) AND b = b"
proof (rule bit_word_eqI)
  fix n assume "n < LENGTH(8)"
  then have "bit (0xFF :: u8) n" by (simp only: bit_0xFF) simp
  then show "bit (0xFF AND b) n = bit b n" by (simp only: bit_and_iff) simp
qed

lemma need_erase_loop_ok:
  "p + n \<le> length olds \<Longrightarrow> q + n \<le> length news \<Longrightarrow>
   \<exists>r. need_erase_loop n olds p news q = Inr r \<and>
     (r = 0 \<longrightarrow> map2 (AND) (take n (drop p olds)) (take n (drop q news)) = take n (drop q news))"
proof (induction n arbitrary: p q)
  case (Suc n)
  then obtain r where r: "need_erase_loop n olds (Suc p) news (Suc q) = Inr r"
    "r = 0 \<longrightarrow> map2 (AND) (take n (drop (Suc p) olds)) (take n (drop (Suc q) news)) = take n (drop (Suc q) news)"
    by force
  have h: "take (Suc n) (drop p olds) = olds ! p # take n (drop (Suc p) olds)"
    "take (Suc n) (drop q news) = news ! q # take n (drop (Suc q) news)"
    using Suc.prems by (simp_all add: Cons_nth_drop_Suc [symmetric])
  show ?case
  proof (cases "NOT (olds ! p) AND news ! q = 0")
    case True
    with r Suc.prems show ?thesis by (simp add: h clear_only)
  next
    case False
    with Suc.prems show ?thesis by simp
  qed
qed simp

lemma map2_and_ones: "map2 (AND) (replicate (length bs) (0xFF :: u8)) bs = bs"
  by (induction bs) simp_all

lemma overlay_overlay:
  "length xs = length ys \<Longrightarrow> a + length xs \<le> length m \<Longrightarrow> overlay a ys (overlay a xs m) = overlay a ys m"
  by (simp add: overlay_def)

lemma overlay_self: "a + n \<le> length m \<Longrightarrow> overlay a (take n (drop a m)) m = m"
  by (intro nth_equalityI) (auto simp: nth_overlay)

lemma overlay_nested:
  assumes "b + n \<le> length m" and "off + length bs \<le> n"
  shows "overlay b (overlay off bs (take n (drop b m))) m = overlay (b + off) bs m"
  using assms by (intro nth_equalityI) (auto simp: nth_overlay)

lemma unat_sector_offset: "unat (a AND 0xFFF :: u32) = unat a mod 4096"
proof -
  have "(0xFFF :: u32) = mask 12" by (simp add: mask_eq_exp_minus_1)
  then have "a AND 0xFFF = take_bit 12 a" by (simp only: take_bit_eq_mask)
  then have "unat (a AND 0xFFF) = take_bit 12 (unat a)" by (simp only: unsigned_take_bit_eq)
  then show ?thesis by (simp add: take_bit_eq_mod)
qed

lemma unat_sector_base: "unat (a AND NOT 0xFFF :: u32) = 4096 * (unat a div 4096)"
proof -
  have m: "(0xFFF :: u32) = mask 12" by (simp add: mask_eq_exp_minus_1)
  have "a AND NOT 0xFFF = push_bit 12 (drop_bit 12 a)"
    unfolding m by (rule bit_word_eqI)
      (auto simp: bit_and_iff bit_not_iff bit_mask_iff bit_push_bit_iff bit_drop_bit_eq possible_bit_def)
  then have "unat (a AND NOT 0xFFF) = take_bit 32 (push_bit 12 (unat (drop_bit 12 a)))"
    by (simp only: unsigned_push_bit_eq) simp
  also have "unat (drop_bit 12 a) = unat a div 4096"
    by (simp add: unat_drop_bit_u32)
  also have "take_bit 32 (push_bit 12 (unat a div 4096)) = 4096 * (unat a div 4096)"
  proof -
    have "4096 * (unat a div 4096) \<le> unat a" by simp
    moreover have "unat a < 2 ^ 32" using unsigned_less [of a] by simp
    ultimately have "4096 * (unat a div 4096) < 2 ^ 32" by (rule le_less_trans)
    then show ?thesis by (simp add: push_bit_eq_mult take_bit_nat_eq_self)
  qed
  finally show ?thesis .
qed

lemma flash_ok_with_buffer:
  "flash_ok D P view fuel st \<Longrightarrow> length b = 4096 \<Longrightarrow> flash_ok D P view fuel (st\<lparr>s_spiBuf := b\<rparr>)"
  by (simp add: flash_ok_def)

lemma flash_mem_with_buffer [simp]: "flash_mem view (st\<lparr>s_spiBuf := b\<rparr>) = flash_mem view st"
  by (simp add: flash_mem_def)

lemma flash_ok_simps:
  assumes "flash_ok D P view fuel st"
  shows "PageSize (g_tSF st) = 4096" and "length (s_spiBuf st) = 4096"
  using assms by (simp_all add: flash_ok_def)

text \<open>The page buffer then holds the sector with the new bytes in place.\<close>

lemma fill_page_ok:
  assumes ok: "flash_ok D P view fuel st"
    and len: "0 < unat len" "unat a mod 4096 + unat len \<le> 4096" "p + unat len \<le> length src"
    and a: "unat a < length (flash_mem view st)" and first: "unat first = 4096 * (unat a div 4096)"
  obtains st' where "fill_page D first src p a len st = Inr st'"
    "flash_ok D P view fuel st'" "flash_mem view st' = flash_mem view st" "g_tSF st' = g_tSF st"
    "s_spiBuf st' = overlay (unat a mod 4096) (take (unat len) (drop p src))
       (take 4096 (drop (4096 * (unat a div 4096)) (flash_mem view st)))"
proof -
  let ?m = "flash_mem view st" and ?base = "4096 * (unat a div 4096)" and ?bs = "take (unat len) (drop p src)"
  note ps = flash_ok_simps [OF ok] and size = flash_mem_length [OF ok]
  have base: "?base + 4096 \<le> length ?m" by (rule sector_bound [OF size(3) a])
  have bs: "get_bytes src p (unat len) = Inr ?bs" "length ?bs = unat len" using len(3) by (simp_all add: get_bytes_ok)
  show thesis
  proof (cases "len = 4096")
    case True
    then have l: "unat len = 4096" by simp
    with len have off: "unat a mod 4096 = 0" by simp
    have "put_bytes (s_spiBuf st) 0 ?bs = Inr ?bs"
      using bs(2) l ps(2) by (simp add: put_overlay overlay_all)
    moreover have "overlay (unat a mod 4096) ?bs (take 4096 (drop ?base ?m)) = ?bs"
      unfolding off by (rule overlay_all) (use bs(2) l base in simp)
    ultimately show thesis
      using that [of "st\<lparr>s_spiBuf := ?bs\<rparr>"] bs l True ps flash_ok_with_buffer [OF ok, of ?bs]
      by (simp add: fill_page_def Let_def)
  next
    case False
    have u: "unat (ucast (4096 :: u16) :: u32) = 4096" by simp
    have "unat first + unat (ucast (4096 :: u16) :: u32) \<le> length ?m"
      using base by (simp add: first)
    then obtain st1 where st1: "sf_ReadBuffer D (s_spiBuf st) first (ucast (4096 :: u16)) st =
        Inr (overlay 0 (take 4096 (drop ?base ?m)) (s_spiBuf st), st1)"
      "becomes D P view fuel st st1 ?m"
      using sf_ReadBuffer_ok [OF ok, of "ucast (4096 :: u16)" "s_spiBuf st" first] ps
      by (auto simp: first)
    let ?sec = "take 4096 (drop ?base ?m)"
    have sec: "length ?sec = 4096" using base by simp
    have o: "overlay 0 ?sec (s_spiBuf st) = ?sec" by (rule overlay_all) (simp only: sec ps)
    have "unat (a AND 0xFFF) < 65536" by (simp add: unat_sector_offset)
    then have off: "unat (ucast (a AND (ucast (4096 :: u16) - 1)) :: u16) = unat a mod 4096"
      by (simp add: unsigned_ucast_eq take_bit_nat_eq_self unat_sector_offset)
    have "put_bytes ?sec (unat a mod 4096) ?bs = Inr (overlay (unat a mod 4096) ?bs ?sec)"
      by (rule put_overlay) (use sec bs len in simp)
    then have "fill_page D first src p a len st =
        Inr (st1\<lparr>s_spiBuf := overlay (unat a mod 4096) ?bs ?sec\<rparr>)"
      unfolding fill_page_def Let_def ps(1)
      using False by (simp only: if_False st1(1) ebind_Inr prod.case o bs off)
    moreover have "length (overlay (unat a mod 4096) ?bs ?sec) = 4096"
      using sec bs len by simp
    ultimately show thesis
      using becomes_ok [OF st1(2)] becomes_mem [OF st1(2)] becomes_same [OF st1(2)]
        that [of "st1\<lparr>s_spiBuf := overlay (unat a mod 4096) ?bs ?sec\<rparr>"]
      by (simp add: flash_ok_with_buffer)
  qed
qed

text \<open>Programming the merged sector gives the memory with the new bytes in place, after an erase, and
  without one when no bit has to be set.\<close>

lemma programmed_erased:
  assumes "length T = 4096" and "b + 4096 \<le> length m"
  shows "programmed b T (overlay b (replicate 4096 0xFF) m) = overlay b T m"
proof -
  have "take 4096 (drop b (overlay b (replicate 4096 0xFF) m)) = replicate 4096 (0xFF :: u8)"
    using take_drop_overlay_same [of b "replicate 4096 0xFF" m] assms by simp
  then show ?thesis
    using assms map2_and_ones [of T] by (simp add: programmed_def overlay_overlay)
qed

lemma programmed_clear:
  assumes "b + 4096 \<le> length m" and "off + length bs \<le> 4096"
    and "map2 (AND) (take (length bs) (drop (b + off) m)) bs = bs"
  shows "programmed b (overlay off bs (take 4096 (drop b m))) m = overlay (b + off) bs m"
proof -
  let ?sec = "take 4096 (drop b m)" and ?T = "overlay off bs (take 4096 (drop b m))"
  have sec: "length ?sec = 4096" using assms(1) by simp
  have bit: "m ! (b + off + k) AND bs ! k = bs ! k" if "k < length bs" for k
  proof -
    have "map2 (AND) (take (length bs) (drop (b + off) m)) bs ! k = m ! (b + off + k) AND bs ! k"
      using that assms(1,2) by simp
    with assms(3) show ?thesis by simp
  qed
  have "map2 (AND) ?sec ?T = ?T"
  proof (rule nth_equalityI)
    fix i assume "i < length (map2 (AND) ?sec ?T)"
    then have i: "i < 4096" using sec assms(2) by simp
    then have "b + off + (i - off) = b + i" if "off \<le> i" using that by simp
    then show "map2 (AND) ?sec ?T ! i = ?T ! i"
      using i sec assms bit [of "i - off"] by (auto simp: nth_overlay)
  qed (use sec assms(2) in simp)
  then show ?thesis
    using assms sec overlay_nested [of b 4096 m off bs] by (simp add: programmed_def)
qed

text \<open>Erasing the sector when bits have to be set, programming it and comparing succeeds at once.\<close>

lemma write_tries_ok:
  assumes ok: "flash_ok D P view fuel st" and len: "0 < unat len" "p + unat len \<le> length src"
    and a: "unat a < length (flash_mem view st)" and first: "unat first = 4096 * (unat a div 4096)"
    and buf: "s_spiBuf st = overlay (unat a mod 4096) (take (unat len) (drop p src))
       (take 4096 (drop (unat first) (flash_mem view st)))"
    and fits: "unat a mod 4096 + unat len \<le> 4096"
    and clear: "\<not> erase \<Longrightarrow> map2 (AND) (take (unat len) (drop (unat a) (flash_mem view st)))
       (take (unat len) (drop p src)) = take (unat len) (drop p src)"
  obtains st' where "write_tries fuel (Suc n) D erase first src p a len st = Inr (1, st')"
    "becomes D P view fuel st st' (overlay (unat a) (take (unat len) (drop p src)) (flash_mem view st))"
proof -
  let ?m = "flash_mem view st" and ?bs = "take (unat len) (drop p src)" and ?off = "unat a mod 4096"
  let ?T = "overlay ?off ?bs (take 4096 (drop (unat first) ?m))"
  note size = flash_mem_length [OF ok]
  have base: "unat first + 4096 \<le> length ?m" using sector_bound [OF size(3) a] first by simp
  have bs: "length ?bs = unat len" using len(2) by simp
  have T: "length ?T = 4096" using base bs fits by simp
  have split: "unat first + ?off = unat a" by (simp add: first)
  have range: "unat a + unat len \<le> length ?m" using base split fits by linarith
  let ?m1 = "if erase then overlay (unat first) (replicate 4096 0xFF) ?m else ?m"
  obtain st1 where st1: "(if erase then sf_EraseSector fuel D first st else Inr st) = Inr st1"
    "becomes D P view fuel st st1 ?m1"
  proof (cases erase)
    case True
    have "unat first < length ?m" using base by simp
    then show thesis using sf_EraseSector_ok [OF ok, of first] that True first by (auto simp: erased_def)
  next
    case False
    with that [of st] ok show thesis by (simp add: becomes_def)
  qed
  have m1: "length (flash_mem view st1) = length ?m" using becomes_mem [OF st1(2)] base by simp
  have d: "4096 dvd unat first" by (simp add: first)
  have b1: "unat first + 4096 \<le> length (flash_mem view st1)" unfolding m1 by (rule base)
  obtain st2 where st2: "sf_PageWrite fuel D ?T 0 first 4096 st1 = Inr st2"
    "becomes D P view fuel st1 st2 (programmed (unat first) ?T (flash_mem view st1))"
    using sf_PageWrite_ok [OF becomes_ok [OF st1(2)] T d b1] by blast
  have "programmed (unat first) ?T (flash_mem view st1) = overlay (unat a) ?bs ?m"
  proof (cases erase)
    case True
    then have "programmed (unat first) ?T (flash_mem view st1) = overlay (unat first) ?T ?m"
      using becomes_mem [OF st1(2)] programmed_erased [OF T base] by simp
    also have "\<dots> = overlay (unat a) ?bs ?m"
      using overlay_nested [OF base, of ?off ?bs] bs fits by (simp add: split)
    finally show ?thesis .
  next
    case False
    then show ?thesis
      using becomes_mem [OF st1(2)] programmed_clear [OF base, of ?off ?bs] bs fits clear by (simp add: split)
  qed
  with st2(2) have b2: "becomes D P view fuel st1 st2 (overlay (unat a) ?bs ?m)" by simp
  have m2: "flash_mem view st2 = overlay (unat a) ?bs ?m" using b2 by (rule becomes_mem)
  have ul: "unat (ucast len :: u32) = unat len"
    by (simp add: unsigned_ucast_eq take_bit_nat_eq_self less_trans [OF unat_u16_less])
  obtain st3 where st3: "sf_CmpData D a src p (ucast len) st2 = Inr (0, st3)"
    "becomes D P view fuel st2 st3 (flash_mem view st2)"
  proof -
    have "take (unat len) (drop (unat a) (flash_mem view st2)) = ?bs"
      unfolding m2 using take_drop_overlay_same [of "unat a" ?bs ?m] bs range by simp
    moreover have "unat a + unat len \<le> length (flash_mem view st2)" using range bs by (simp add: m2)
    ultimately show thesis
      using sf_CmpData_ok [OF becomes_ok [OF b2], of "ucast len" p src a] len that by (auto simp: ul)
  qed
  have "write_tries fuel (Suc n) D erase first src p a len st = Inr (1, st3)"
    using st1(1) st2(1) st3(1) becomes_same [OF st1(2)] flash_ok_simps [OF becomes_ok [OF st1(2)]] buf
    by simp
  moreover have "becomes D P view fuel st st3 (overlay (unat a) ?bs ?m)"
    using becomes_trans [OF st1(2) becomes_trans [OF b2 st3(2)]] by (simp only: m2)
  ultimately show thesis by (rule that)
qed

text \<open>One sector: the bytes are stored, whatever was there before.\<close>

lemma sf_AutoWritePage_ok:
  assumes ok: "flash_ok D P view fuel st" and src: "p + unat len \<le> length src"
    and fits: "unat a mod 4096 + unat len \<le> 4096" and range: "unat a + unat len \<le> length (flash_mem view st)"
  shows "\<exists>st'. sf_AutoWritePage fuel D src p a len st = Inr (1, st') \<and> flash_ok D P view fuel st' \<and>
    flash_mem view st' = overlay (unat a) (take (unat len) (drop p src)) (flash_mem view st) \<and>
    g_tSF st' = g_tSF st"
proof (cases "len = 0")
  case True
  with ok show ?thesis by (simp add: sf_AutoWritePage_def overlay_def)
next
  case False
  let ?m = "flash_mem view st" and ?bs = "take (unat len) (drop p src)" and ?old = "take (unat len) (drop (unat a) (flash_mem view st))"
  let ?first = "a AND NOT 0xFFF"
  have l: "0 < unat len" using False by (simp add: unat_gt_0)
  note size = flash_mem_length [OF ok] and ps = flash_ok_simps [OF ok]
  have a: "unat a < length ?m" using l range by linarith
  have g: "\<not> TotalSize (g_tSF st) \<le> a" "\<not> (4096 :: u16) < len"
    using a size fits by (simp_all add: word_le_nat_alt word_less_nat_alt)
  have ul: "unat (ucast len :: u32) = unat len"
    by (simp add: unsigned_ucast_eq take_bit_nat_eq_self less_trans [OF unat_u16_less])
  have l4: "unat len \<le> length (s_spiBuf st)" using ps fits by simp
  obtain st0 where st0: "sf_ReadBuffer D (s_spiBuf st) a (ucast len) st = Inr (overlay 0 ?old (s_spiBuf st), st0)"
    "becomes D P view fuel st st0 ?m"
    using sf_ReadBuffer_ok [OF ok, of "ucast len" "s_spiBuf st" a] l l4 range by (auto simp: ul)
  define buf where "buf = overlay 0 ?old (s_spiBuf st)"
  define st1 where "st1 = st0\<lparr>s_spiBuf := buf\<rparr>"
  have buf: "length buf = 4096" "take (unat len) buf = ?old"
    using take_drop_overlay_same [of 0 ?old "s_spiBuf st"] l4 range ps by (simp_all add: buf_def)
  have ok1: "flash_ok D P view fuel st1" "flash_mem view st1 = ?m" "g_tSF st1 = g_tSF st" "s_spiBuf st1 = buf"
    using becomes_ok [OF st0(2)] becomes_mem [OF st0(2)] becomes_same [OF st0(2)] buf
    by (simp_all add: st1_def flash_ok_with_buffer)
  have gets: "get_bytes buf 0 (unat len) = Inr ?old" "get_bytes src p (unat len) = Inr ?bs"
    using buf l4 ps src by (simp_all add: get_bytes_ok)
  have unfold: "sf_AutoWritePage fuel D src p a len st =
      (if ?old = ?bs then Inr (1, st1)
       else ebind (sf_NeedErase buf src p len) (\<lambda>ne. ebind (fill_page D ?first src p a len st1)
         (write_tries fuel 3 D (ne \<noteq> 0) ?first src p a len)))"
    unfolding sf_AutoWritePage_def st0(1) buf_def [symmetric] ps(1)
    using False g ok1(3,4) gets ps(1) by (simp add: Let_def st1_def [symmetric])
  show ?thesis
  proof (cases "?old = ?bs")
    case True
    then have "overlay (unat a) ?bs ?m = ?m" using overlay_self [OF range] by simp
    moreover have "sf_AutoWritePage fuel D src p a len st = Inr (1, st1)"
      unfolding unfold using True by simp
    ultimately show ?thesis using ok1 by simp
  next
    case diff: False
    obtain ne where ne: "sf_NeedErase buf src p len = Inr ne" "ne = 0 \<longrightarrow> map2 (AND) ?old ?bs = ?bs"
      using need_erase_loop_ok [of 0 "unat len" buf p src] buf l4 ps src by (auto simp: sf_NeedErase_def)
    have first: "unat ?first = 4096 * (unat a div 4096)" by (rule unat_sector_base)
    have a1: "unat a < length (flash_mem view st1)" using a ok1(2) by simp
    obtain st2 where st2: "fill_page D ?first src p a len st1 = Inr st2" "flash_ok D P view fuel st2"
        "flash_mem view st2 = flash_mem view st1" "g_tSF st2 = g_tSF st1"
        "s_spiBuf st2 = overlay (unat a mod 4096) ?bs (take 4096 (drop (4096 * (unat a div 4096)) (flash_mem view st1)))"
      by (rule fill_page_ok [OF ok1(1) l fits src a1 first])
    have m2: "flash_mem view st2 = ?m" using st2(3) ok1(2) by simp
    have w: "s_spiBuf st2 = overlay (unat a mod 4096) ?bs (take 4096 (drop (unat ?first) (flash_mem view st2)))"
      unfolding first st2(3) by (rule st2(5))
    have a2: "unat a < length (flash_mem view st2)" using a m2 by simp
    have c: "\<not> ne \<noteq> 0 \<Longrightarrow> map2 (AND) (take (unat len) (drop (unat a) (flash_mem view st2))) ?bs = ?bs"
      using ne(2) m2 by simp
    obtain st3 where st3: "write_tries fuel (Suc 2) D (ne \<noteq> 0) ?first src p a len st2 = Inr (1, st3)"
      "becomes D P view fuel st2 st3 (overlay (unat a) ?bs (flash_mem view st2))"
      by (rule write_tries_ok [OF st2(2) l src a2 first w fits c])
    have "Suc 2 = 3" by simp
    with st3(1) have "sf_AutoWritePage fuel D src p a len st = Inr (1, st3)"
      unfolding unfold using diff by (simp only: if_False ne(1) st2(1) ebind_Inr)
    then show ?thesis
      using becomes_ok [OF st3(2)] becomes_mem [OF st3(2)] becomes_same [OF st3(2)] m2 st2(4) ok1(3) by simp
  qed
qed

section \<open>Writing across sectors\<close>

text \<open>
  The contract between the splitting of a buffer and the routine that writes within one sector of
  4 KB: what that routine is given is stored in the memory, and the routine can be used again.
\<close>

locale sector_writer =
  fixes ok :: "'s \<Rightarrow> bool" and mem :: "'s \<Rightarrow> u8 list"
    and wr :: "nat \<Rightarrow> u32 \<Rightarrow> u16 \<Rightarrow> 's \<Rightarrow> fault + (u8 \<times> 's)" and src :: "u8 list"
  assumes wr: "ok s \<Longrightarrow> p + unat len \<le> length src \<Longrightarrow> unat a mod 4096 + unat len \<le> 4096 \<Longrightarrow>
      unat a + unat len \<le> length (mem s) \<Longrightarrow>
      \<exists>s'. wr p a len s = Inr (1, s') \<and> ok s' \<and> mem s' = overlay (unat a) (take (unat len) (drop p src)) (mem s)"
    and size: "ok s \<Longrightarrow> length (mem s) \<le> 2 ^ 24"
begin

lemma wrE:
  assumes "ok s" "p + unat len \<le> length src" "unat a mod 4096 + unat len \<le> 4096" "unat a + unat len \<le> length (mem s)"
  obtains s' where "wr p a len s = Inr (1, s')" "ok s'"
    "mem s' = overlay (unat a) (take (unat len) (drop p src)) (mem s)"
  using wr [OF assms] by blast

text \<open>Two runs of bytes that follow each other, in the source and in the memory.\<close>

lemma overlay_two:
  assumes "p + k + n \<le> length src" and "a + k + n \<le> length m"
  shows "overlay (a + k) (take n (drop (p + k) src)) (overlay a (take k (drop p src)) m) =
    overlay a (take (k + n) (drop p src)) m"
proof -
  have "overlay (a + k) (take n (drop (p + k) src)) (overlay a (take k (drop p src)) m) =
      overlay a (take k (drop p src) @ take n (drop (p + k) src)) m"
    using assms by (intro overlay_append) simp_all
  then show ?thesis by (simp add: take_add ac_simps)
qed

lemma advance:
  assumes "ok s" and "unat a + n \<le> length (mem s)"
  shows "unat (a + of_nat n :: u32) = unat a + n"
  using assms size [OF assms(1)] by (intro unat_add_u32) simp

lemma sector_loop_ok:
  "ok s \<Longrightarrow> 4096 dvd unat a \<Longrightarrow> p + 4096 * n \<le> length src \<Longrightarrow> unat a + 4096 * n \<le> length (mem s) \<Longrightarrow>
   \<exists>s'. sector_loop wr n 4096 p a s = Inr (1, p + 4096 * n, a + of_nat (4096 * n), s') \<and> ok s' \<and>
     mem s' = overlay (unat a) (take (4096 * n) (drop p src)) (mem s)"
proof (induction n arbitrary: p a s)
  case 0
  then show ?case by (simp add: overlay_def)
next
  case (Suc n)
  have u: "unat (4096 :: u16) = 4096" by simp
  obtain s1 where s1: "wr p a 4096 s = Inr (1, s1)" "ok s1"
      "mem s1 = overlay (unat a) (take 4096 (drop p src)) (mem s)"
    using wrE [of s p 4096 a] Suc.prems by (auto simp: u)
  have m1: "length (mem s1) = length (mem s)" using s1(3) Suc.prems by simp
  have a1: "unat (a + 4096) = unat a + 4096" using advance [of s a 4096] Suc.prems by simp
  have "\<exists>s'. sector_loop wr n 4096 (p + 4096) (a + 4096) s1 =
        Inr (1, p + 4096 + 4096 * n, a + 4096 + of_nat (4096 * n), s') \<and> ok s' \<and>
      mem s' = overlay (unat (a + 4096)) (take (4096 * n) (drop (p + 4096) src)) (mem s1)"
    by (rule Suc.IH [OF s1(2)]) (use Suc.prems a1 m1 in simp_all)
  moreover have "overlay (unat (a + 4096)) (take (4096 * n) (drop (p + 4096) src)) (mem s1) =
      overlay (unat a) (take (4096 * Suc n) (drop p src)) (mem s)"
    using overlay_two [of p 4096 "4096 * n" "unat a" "mem s"] Suc.prems by (simp add: a1 s1(3))
  ultimately show ?case using s1(1) u by (auto simp: algebra_simps)
qed

text \<open>The two ways a write that starts inside a sector goes on.\<close>

lemma wr_then_wr:
  assumes "ok s" and "unat len1 + unat len2 \<le> length src" and "unat a + unat len1 + unat len2 \<le> length (mem s)"
    and "unat a mod 4096 + unat len1 = 4096" and "unat len2 \<le> 4096"
  shows "\<exists>s1 s2. wr 0 a len1 s = Inr (1, s1) \<and> wr (unat len1) (a + ucast len1) len2 s1 = Inr (1, s2) \<and> ok s2 \<and>
    mem s2 = overlay (unat a) (take (unat len1 + unat len2) src) (mem s)"
proof -
  obtain s1 where s1: "wr 0 a len1 s = Inr (1, s1)" "ok s1"
      "mem s1 = overlay (unat a) (take (unat len1) (drop 0 src)) (mem s)"
    using wrE [of s 0 len1 a] assms by auto
  have m1: "length (mem s1) = length (mem s)" using s1(3) assms by simp
  have "(ucast len1 :: u32) = of_nat (unat len1)" by simp
  then have a1: "unat (a + ucast len1) = unat a + unat len1"
    using advance [of s a "unat len1"] assms by simp
  have "unat a + unat len1 = 4096 * (unat a div 4096) + 4096"
    using assms(4) mult_div_mod_eq [of 4096 "unat a"] by linarith
  then have "(unat a + unat len1) mod 4096 = 0" by simp
  with assms m1 have pr: "unat len1 + unat len2 \<le> length src" "unat (a + ucast len1) mod 4096 + unat len2 \<le> 4096"
    "unat (a + ucast len1) + unat len2 \<le> length (mem s1)" by (simp_all only: a1)
  obtain s2 where s2: "wr (unat len1) (a + ucast len1) len2 s1 = Inr (1, s2)" "ok s2"
      "mem s2 = overlay (unat (a + ucast len1)) (take (unat len2) (drop (unat len1) src)) (mem s1)"
    by (rule wrE [OF s1(2) pr])
  have "mem s2 = overlay (unat a) (take (unat len1 + unat len2) (drop 0 src)) (mem s)"
    unfolding s2(3) s1(3) a1
    using overlay_two [of 0 "unat len1" "unat len2" "unat a" "mem s"] assms by simp
  with s1(1) s2 show ?thesis by auto
qed

text \<open>Whole sectors from a sector boundary on, then the rest.\<close>

lemma sectors_then_wr:
  assumes "ok s" and "unat a mod 4096 = 0" and "p + 4096 * n + unat len \<le> length src" and "unat len \<le> 4096"
    and "unat a + 4096 * n + unat len \<le> length (mem s)"
  shows "\<exists>s1 a1 s2. sector_loop wr n 4096 p a s = Inr (1, p + 4096 * n, a1, s1) \<and> ok s1 \<and>
    mem s1 = overlay (unat a) (take (4096 * n) (drop p src)) (mem s) \<and>
    wr (p + 4096 * n) a1 len s1 = Inr (1, s2) \<and> ok s2 \<and>
    mem s2 = overlay (unat a) (take (4096 * n + unat len) (drop p src)) (mem s)"
proof -
  let ?a1 = "a + of_nat (4096 * n) :: u32"
  have "4096 dvd unat a" using assms(2) by (simp add: dvd_eq_mod_eq_0)
  then have "\<exists>s1. sector_loop wr n 4096 p a s = Inr (1, p + 4096 * n, ?a1, s1) \<and> ok s1 \<and>
      mem s1 = overlay (unat a) (take (4096 * n) (drop p src)) (mem s)"
    by (rule sector_loop_ok [OF assms(1)]) (use assms in simp_all)
  then obtain s1 where s1: "sector_loop wr n 4096 p a s = Inr (1, p + 4096 * n, ?a1, s1)" "ok s1"
      "mem s1 = overlay (unat a) (take (4096 * n) (drop p src)) (mem s)" by blast
  have m1: "length (mem s1) = length (mem s)" using s1(3) assms by simp
  have a1: "unat ?a1 = unat a + 4096 * n" using advance [of s a "4096 * n"] assms by simp
  have "unat ?a1 mod 4096 = 0" using assms(2) by (simp only: a1) simp
  with assms m1 have pr: "p + 4096 * n + unat len \<le> length src" "unat ?a1 mod 4096 + unat len \<le> 4096"
    "unat ?a1 + unat len \<le> length (mem s1)" by (simp_all only: a1)
  obtain s2 where s2: "wr (p + 4096 * n) ?a1 len s1 = Inr (1, s2)" "ok s2"
      "mem s2 = overlay (unat ?a1) (take (unat len) (drop (p + 4096 * n) src)) (mem s1)"
    by (rule wrE [OF s1(2) pr])
  have "mem s2 = overlay (unat a) (take (4096 * n + unat len) (drop p src)) (mem s)"
    unfolding s2(3) s1(3) a1
    using overlay_two [of p "4096 * n" "unat len" "unat a" "mem s"] assms by simp
  with s1 s2 show ?thesis by blast
qed

text \<open>The rest of a sector, whole sectors, and what is left.\<close>

lemma wr_then_sectors:
  assumes "ok s" and "unat a mod 4096 + unat len1 = 4096" and "unat len2 \<le> 4096"
    and "unat len1 + 4096 * n + unat len2 \<le> length src"
    and "unat a + unat len1 + 4096 * n + unat len2 \<le> length (mem s)"
  shows "\<exists>s1 s2 s3 a1. wr 0 a len1 s = Inr (1, s1) \<and>
    sector_loop wr n 4096 (unat len1) (a + ucast len1) s1 = Inr (1, unat len1 + 4096 * n, a1, s2) \<and> ok s2 \<and>
    mem s2 = overlay (unat a) (take (unat len1 + 4096 * n) src) (mem s) \<and>
    wr (unat len1 + 4096 * n) a1 len2 s2 = Inr (1, s3) \<and> ok s3 \<and>
    mem s3 = overlay (unat a) (take (unat len1 + 4096 * n + unat len2) src) (mem s)"
proof -
  obtain s1 where s1: "wr 0 a len1 s = Inr (1, s1)" "ok s1"
      "mem s1 = overlay (unat a) (take (unat len1) (drop 0 src)) (mem s)"
    using wrE [of s 0 len1 a] assms by auto
  have m1: "length (mem s1) = length (mem s)" using s1(3) assms by simp
  have "(ucast len1 :: u32) = of_nat (unat len1)" by simp
  then have a1: "unat (a + ucast len1) = unat a + unat len1"
    using advance [of s a "unat len1"] assms by simp
  have "unat a + unat len1 = 4096 * (unat a div 4096) + 4096"
    using assms(2) mult_div_mod_eq [of 4096 "unat a"] by linarith
  then have "(unat a + unat len1) mod 4096 = 0" by simp
  with assms m1 have pr: "unat (a + ucast len1) mod 4096 = 0" "unat len1 + 4096 * n + unat len2 \<le> length src"
    "unat len2 \<le> 4096" "unat (a + ucast len1) + 4096 * n + unat len2 \<le> length (mem s1)" by (simp_all only: a1)
  have "overlay (unat a + unat len1) (take k (drop (unat len1) src)) (mem s1) =
      overlay (unat a) (take (unat len1 + k) src) (mem s)" if "k \<le> 4096 * n + unat len2" for k
    unfolding s1(3) using overlay_two [of 0 "unat len1" k "unat a" "mem s"] assms that by simp
  with sectors_then_wr [OF s1(2) pr] s1(1) show ?thesis unfolding a1 by (simp add: add.assoc) blast
qed

lemma split_write_ok:
  assumes ok: "ok s" and src: "unat sz \<le> length src" and range: "unat a + unat sz \<le> length (mem s)"
  shows "\<exists>s'. split_write wr 4096 a sz s = Inr (1, s') \<and> ok s' \<and>
    mem s' = overlay (unat a) (take (unat sz) src) (mem s)"
proof -
  define Addr count NumOfPage NumOfSingle where "Addr = (ucast (a mod ucast (4096 :: u16)) :: u16)"
    and "count = 4096 - Addr" and "NumOfPage = sz div 4096" and "NumOfSingle = sz mod 4096"
  note defs = this
  have off: "unat Addr = unat a mod 4096"
    by (simp add: Addr_def unsigned_ucast_eq take_bit_nat_eq_self unat_mod_distrib)
  then have c: "unat a mod 4096 + unat count = 4096"
    by (simp add: count_def unat_sub word_le_nat_alt)
  have np: "unat NumOfPage = unat sz div 4096" "unat NumOfSingle = unat sz mod 4096"
    by (simp_all add: NumOfPage_def NumOfSingle_def unat_div_distrib unat_mod_distrib)
  have np0: "NumOfPage = 0 \<longleftrightarrow> unat sz < 4096" by (simp add: unat_eq_0 [symmetric] np div_eq_0_iff)
  have off0: "Addr = 0 \<longleftrightarrow> unat a mod 4096 = 0" by (simp add: unat_eq_0 [symmetric] off)
  have total: "4096 * unat NumOfPage + unat NumOfSingle = unat sz" by (simp add: np)
  note sw = split_write_def [of wr 4096 a sz s, unfolded Let_def, folded defs]
  show ?thesis
  proof (cases "Addr = 0"; cases "NumOfPage = 0")
    assume "Addr = 0" "NumOfPage = 0"
    with ok src range show ?thesis using wr [of s 0 sz a] by (simp add: sw off0 np0)
  next
    assume A: "Addr = 0" "NumOfPage \<noteq> 0"
    then show ?thesis
      using sectors_then_wr [of s a 0 "unat NumOfPage" NumOfSingle] ok src range total np off0
      by (auto simp: sw)
  next
    assume A: "Addr \<noteq> 0" "NumOfPage = 0"
    then have single: "NumOfSingle = sz" using np0 np by (simp add: word_unat_eq_iff)
    show ?thesis
    proof (cases "count < NumOfSingle")
      case True
      then have "unat (NumOfSingle - count) = unat sz - unat count" and "unat count \<le> unat sz"
        and "unat sz - unat count \<le> 4096"
        using A np0 by (simp_all add: single unat_sub word_less_nat_alt word_le_nat_alt)
      with wr_then_wr [of s count "NumOfSingle - count" a] A np0 ok src range c True show ?thesis
        by (auto simp: sw)
    next
      case False
      then have "unat a mod 4096 + unat sz \<le> 4096" using c single by (simp add: word_less_nat_alt)
      with wr [of s 0 sz a] A ok src range False show ?thesis by (simp add: sw)
    qed
  next
    assume A: "Addr \<noteq> 0" "NumOfPage \<noteq> 0"
    have le: "unat count \<le> unat sz" using A np0 c by linarith
    define n1 rest where "n1 = (sz - count) div 4096" and "rest = (sz - count) mod 4096"
    have u: "unat (sz - count) = unat sz - unat count" using le by (simp add: unat_sub word_le_nat_alt)
    have tot: "4096 * unat n1 + unat rest = unat sz - unat count"
      by (simp add: n1_def rest_def unat_div_distrib unat_mod_distrib u)
    have r: "unat rest \<le> 4096" by (simp add: rest_def unat_mod_distrib)
    have t: "unat count + 4096 * unat n1 + unat rest = unat sz" using tot le by linarith
    have pr: "unat count + 4096 * unat n1 + unat rest \<le> length src"
      "unat a + unat count + 4096 * unat n1 + unat rest \<le> length (mem s)" using t src range by linarith+
    obtain s1 s2 s3 a1 where w: "wr 0 a count s = Inr (1, s1)"
      "sector_loop wr (unat n1) 4096 (unat count) (a + ucast count) s1 = Inr (1, unat count + 4096 * unat n1, a1, s2)"
      "ok s2" "mem s2 = overlay (unat a) (take (unat count + 4096 * unat n1) src) (mem s)"
      "wr (unat count + 4096 * unat n1) a1 rest s2 = Inr (1, s3)" "ok s3"
      "mem s3 = overlay (unat a) (take (unat sz) src) (mem s)"
      using wr_then_sectors [OF ok c r pr] by (auto simp: t)
    show ?thesis
    proof (cases "rest = 0")
      case True
      then have "unat count + 4096 * unat n1 = unat sz" using t by simp
      with A w True show ?thesis by (simp add: sw n1_def [symmetric] rest_def [symmetric])
    next
      case False
      with A w show ?thesis by (simp add: sw n1_def [symmetric] rest_def [symmetric])
    qed
  qed
qed

end

interpretation sf: sector_writer "flash_ok D P view fuel" "flash_mem view" "sf_AutoWritePage fuel D src" src
  for D P view fuel src
proof unfold_locales
  show "\<exists>st'. sf_AutoWritePage fuel D src p a len st = Inr (1, st') \<and> flash_ok D P view fuel st' \<and>
      flash_mem view st' = overlay (unat a) (take (unat len) (drop p src)) (flash_mem view st)"
    if "flash_ok D P view fuel st" "p + unat len \<le> length src" "unat a mod 4096 + unat len \<le> 4096"
      "unat a + unat len \<le> length (flash_mem view st)" for p len a st
    using sf_AutoWritePage_ok [OF that] by blast
  show "length (flash_mem view st) \<le> 2 ^ 24" if "flash_ok D P view fuel st" for st
    using that by (rule flash_mem_length)
qed

lemma sf_WriteBuffer_ok:
  assumes "flash_ok D P view fuel st" and "unat sz \<le> length buf" and "unat a + unat sz \<le> length (flash_mem view st)"
  shows "\<exists>st'. sf_WriteBuffer fuel D buf a sz st = Inr (1, st') \<and> flash_ok D P view fuel st' \<and>
    flash_mem view st' = overlay (unat a) (take (unat sz) buf) (flash_mem view st)"
  using sf.split_write_ok [OF assms] flash_ok_simps [OF assms(1)] by (simp add: sf_WriteBuffer_def)

section \<open>Start-up\<close>

text \<open>The chip answers the identification command with its three bytes.\<close>

definition id_word :: "nor_par \<Rightarrow> u32" where
  "id_word P = push_bit 16 (ucast (np_id P ! 0)) OR push_bit 8 (ucast (np_id P ! 1)) OR ucast (np_id P ! 2)"

lemma id_step:
  assumes "spi_opened D (nor_chip P) view s" and "chip_of view s = x\<lparr>nor_rx := 0x9F # d\<rparr>"
    and "nor_busy x = 0" and "length d < 3"
  shows "fst (bsp_spiRead1 D s) = np_id P ! length d"
    and "spi_opened D (nor_chip P) view (snd (bsp_spiRead1 D s))"
    and "\<exists>b. chip_of view (snd (bsp_spiRead1 D s)) = x\<lparr>nor_rx := 0x9F # d @ [b]\<rparr>"
proof -
  show "fst (bsp_spiRead1 D s) = np_id P ! length d"
    using spi1.recv(2) [OF assms(1)] assms(2-4) by (simp add: nor_out_def)
  show "spi_opened D (nor_chip P) view (snd (bsp_spiRead1 D s))" by (rule spi1.recv(1) [OF assms(1)])
  show "\<exists>b. chip_of view (snd (bsp_spiRead1 D s)) = x\<lparr>nor_rx := 0x9F # d @ [b]\<rparr>"
    using spi1.recv(3) [OF assms(1)] assms(2) by (auto simp: nor_in_def)
qed

lemma sf_ReadID_ok:
  assumes idle: "bus_idle D P view st" and busy: "nor_busy (nor_of view st) = 0"
  shows "fst (sf_ReadID D st) = id_word P"
    and "talks_to D P view st (snd (sf_ReadID D st)) ((nor_of view st)\<lparr>nor_rx := []\<rparr>)"
proof -
  let ?x = "nor_of view st"
  let ?s0 = "bsp_spiWrite1 D 0x9F (sf_SetCS D 0 (sf_bus st))"
  let ?s1 = "snd (bsp_spiRead1 D ?s0)" let ?s2 = "snd (bsp_spiRead1 D ?s1)" let ?s3 = "snd (bsp_spiRead1 D ?s2)"
  have c: "spi_closed D (nor_chip P) view (sf_bus st)" using idle by (simp add: bus_idle_def)
  have o0: "spi_opened D (nor_chip P) view ?s0" using spi1.request(1) [OF c, of "[0x9F]"] by simp
  have x0: "chip_of view ?s0 = ?x\<lparr>nor_rx := 0x9F # []\<rparr>"
    using spi1.request(2) [OF c, of "[0x9F]"] by (simp add: nor_in_def nor_of_def)
  note r0 = id_step [OF o0 x0 busy, simplified]
  then obtain b1 where x1: "chip_of view ?s1 = ?x\<lparr>nor_rx := 0x9F # [b1]\<rparr>" by auto
  note r1 = id_step [OF r0(2) x1 busy, simplified]
  then obtain b2 where x2: "chip_of view ?s2 = ?x\<lparr>nor_rx := 0x9F # [b1, b2]\<rparr>" by auto
  note r2 = id_step [OF r1(2) x2 busy, simplified]
  then obtain b3 where x3: "chip_of view ?s3 = ?x\<lparr>nor_rx := 0x9F # [b1, b2, b3]\<rparr>" by auto
  show "fst (sf_ReadID D st) = id_word P"
    using r0(1) r1(1) r2(1) by (simp add: sf_ReadID_def case_prod_beta id_word_def numeral_2_eq_2)
  have "nor_execute P (0x9F # [b1, b2, b3]) (?x\<lparr>nor_rx := 0x9F # [b1, b2, b3]\<rparr>) = ?x\<lparr>nor_rx := 0x9F # [b1, b2, b3]\<rparr>"
    by simp
  then show "talks_to D P view st (snd (sf_ReadID D st)) (?x\<lparr>nor_rx := []\<rparr>)"
    using spi1.close_bus [OF r2(2)] x3
    by (simp add: talks_to_def bus_idle_def nor_of_def sf_ReadID_def case_prod_beta del: nor_execute.simps)
qed

text \<open>A chip as it leaves reset, of a size the driver knows for its identification.\<close>

definition flash_reset :: "'d spi_dev \<Rightarrow> nor_par \<Rightarrow> ('d \<Rightarrow> nor shifter) \<Rightarrow> nat \<Rightarrow> 'd sflash \<Rightarrow> bool" where
  "flash_reset D P view fuel st \<longleftrightarrow>
     bus_idle D P view st \<and> nor_busy (nor_of view st) = 0 \<and> nor_bp (nor_of view st) = 0 \<and>
     id_word P \<noteq> SST25VF016B_ID \<and> length (s_spiBuf st) = 4096 \<and>
     length (flash_mem view st) = unat (TotalSize (chip_info (id_word P))) \<and> (\<forall>x. np_lat P x < fuel)"

lemma sf_ConfigGPIO_ok:
  assumes "bus_idle D P view st"
  shows "talks_to D P view st (sf_ConfigGPIO D st) (nor_of view st)"
  using assms
  by (simp add: talks_to_def bus_idle_def nor_of_def sf_ConfigGPIO_def spi_closed_def is_spi_slave_def
      sf_SetCS_def bsp_SpiBusExit_def set_CS_def unselected_def chip_of_def shifter_react_def bsp_SpiBusBusy_def)

lemma chip_info_geometry:
  "PageSize (chip_info cid) = 4096" "ChipID (chip_info cid) = cid"
  "4096 dvd unat (TotalSize (chip_info cid))" "unat (TotalSize (chip_info cid)) \<le> 2 ^ 24"
  "2 * 1024 * 1024 \<le> unat (TotalSize (chip_info cid))"
  by (simp_all add: chip_info_def Let_def)

text \<open>Up to the first read the chip is only identified: without a write-enable command before it,
  the write to the status register is ignored.\<close>

lemma init_identifies:
  assumes "flash_reset D P view fuel st"
  obtains st2 where
    "sf_WaitForWriteEnd fuel D (sf_command D [0x04] (sf_ReadInfo D (sf_ConfigGPIO D st))) = Inr st2"
    "flash_ok D P view fuel (sf_WriteStatus D v st2)"
    "flash_mem view (sf_WriteStatus D v st2) = flash_mem view st"
    "g_tSF (sf_WriteStatus D v st2) = chip_info (id_word P)"
proof -
  let ?x = "nor_of view st" and ?st0 = "sf_ConfigGPIO D st"
  have r: "bus_idle D P view st" "nor_busy ?x = 0" "nor_bp ?x = 0" "id_word P \<noteq> SST25VF016B_ID"
    "length (s_spiBuf st) = 4096" "length (nor_mem ?x) = unat (TotalSize (chip_info (id_word P)))"
    "\<And>y. np_lat P y < fuel"
    using assms by (simp_all add: flash_reset_def flash_mem_def)
  have t0: "talks_to D P view st ?st0 ?x" by (rule sf_ConfigGPIO_ok [OF r(1)])
  then have i0: "bus_idle D P view ?st0" "nor_of view ?st0 = ?x" by (simp_all add: talks_to_def)
  note rid = sf_ReadID_ok [OF i0(1)] 
  define st1 where "st1 = sf_ReadInfo D ?st0"
  have st1: "bus_idle D P view st1" "nor_of view st1 = ?x\<lparr>nor_rx := []\<rparr>" "g_tSF st1 = chip_info (id_word P)"
    "s_spiBuf st1 = s_spiBuf st"
    using rid t0 r(2) i0(2) by (simp_all add: st1_def sf_ReadInfo_def case_prod_beta talks_to_def)
  define st2 where "st2 = sf_command D [0x04] st1"
  have t2: "talks_to D P view st1 st2 (?x\<lparr>nor_wel := False, nor_rx := []\<rparr>)"
    using sf_command_ok [OF st1(1), of "0x04" "[]"] r(2) by (simp add: st2_def st1(2))
  then have x2: "nor_of view st2 = ?x\<lparr>nor_wel := False, nor_rx := []\<rparr>" by (simp add: talks_to_def)
  have "nor_bp (nor_of view st2) AND 1 = 0" "nor_busy (nor_of view st2) < fuel"
    unfolding x2 using r(2,3) r(7) [of ?x] by simp_all
  then obtain st3 where st3: "sf_WaitForWriteEnd fuel D st2 = Inr st3"
      "talks_to D P view st2 st3 ((nor_of view st2)\<lparr>nor_busy := 0, nor_rx := []\<rparr>)"
    by (rule sf_WaitForWriteEnd_ok [OF talks_to_idle [OF t2]])
  have t3: "talks_to D P view st1 st3 (?x\<lparr>nor_wel := False, nor_busy := 0, nor_rx := []\<rparr>)"
    using talks_to_trans [OF t2 st3(2)] by (simp add: x2)
  then have g3: "g_tSF st3 = chip_info (id_word P)" "nor_of view st3 = ?x\<lparr>nor_wel := False, nor_busy := 0, nor_rx := []\<rparr>"
    using st1(3) by (simp_all add: talks_to_def)
  have "sf_WriteStatus D v st3 = sf_command D [0x01, v] st3"
    using r(4) by (simp add: sf_WriteStatus_def g3 chip_info_geometry)
  then have "talks_to D P view st1 (sf_WriteStatus D v st3) (?x\<lparr>nor_wel := False, nor_busy := 0, nor_rx := []\<rparr>)"
    using talks_to_trans [OF t3 sf_command_ok [OF talks_to_idle [OF t3], of "0x01" "[v]"]] by (simp add: g3)
  then have "flash_ok D P view fuel (sf_WriteStatus D v st3)" "flash_mem view (sf_WriteStatus D v st3) = nor_mem ?x"
    "g_tSF (sf_WriteStatus D v st3) = chip_info (id_word P)"
    using r st1(3,4) chip_info_geometry [of "id_word P"]
    by (simp_all add: talks_to_def flash_ok_def flash_mem_def)
  with st3(1) show thesis by (intro that [of st3]) (simp_all add: st2_def st1_def flash_mem_def)
qed

text \<open>The marks of an earlier start, and the memory the first start leaves.\<close>

definition marked :: "u8 list \<Rightarrow> bool" where
  "marked m \<longleftrightarrow> m ! 10 = 0xAA \<or> m ! 12 = 0xAA \<or> m ! 14 = 0xAA \<or> m ! 16 = 0xAA"

definition fresh_image :: "nat \<Rightarrow> u8 list" where
  "fresh_image n = overlay 100 [0, 0, 0, 0] (overlay 10 (replicate 10 0xAA) (replicate n 0xFF))"

lemma bsp_InitSFlash_ok:
  assumes reset: "flash_reset D P view fuel st" and buf: "length buf = 10"
  shows "\<exists>st'. bsp_InitSFlash fuel D buf st = Inr st' \<and> flash_ok D P view fuel st' \<and>
    flash_mem view st' = (if marked (flash_mem view st) then flash_mem view st
      else fresh_image (length (flash_mem view st)))"
proof -
  let ?m = "flash_mem view st"
  have big: "2 * 1024 * 1024 \<le> length ?m"
    using reset chip_info_geometry(5) [of "id_word P"] by (simp add: flash_reset_def)
  obtain st2 where st2: "sf_WaitForWriteEnd fuel D (sf_command D [0x04] (sf_ReadInfo D (sf_ConfigGPIO D st))) = Inr st2"
    "flash_ok D P view fuel (sf_WriteStatus D 0 st2)" "flash_mem view (sf_WriteStatus D 0 st2) = ?m"
    by (rule init_identifies [OF reset])
  have u: "unat (10 :: u32) = 10" "unat (10 :: u16) = 10" "unat (100 :: u32) = 100" "unat (4 :: u16) = 4" by simp_all
  obtain st3 where st3: "sf_ReadBuffer D buf 10 10 (sf_WriteStatus D 0 st2) =
      Inr (overlay 0 (take 10 (drop 10 ?m)) buf, st3)" "becomes D P view fuel (sf_WriteStatus D 0 st2) st3 ?m"
    using sf_ReadBuffer_ok [OF st2(2), of 10 buf 10] buf big st2(3) by (auto simp: u)
  have b: "overlay 0 (take 10 (drop 10 ?m)) buf = take 10 (drop 10 ?m)"
    by (rule overlay_all) (use buf big in simp)
  note ok3 = becomes_ok [OF st3(2)] becomes_mem [OF st3(2)]
  have test: "drop 10 ?m ! k = ?m ! (10 + k)" for k by (rule nth_drop) (use big in simp)
  show ?thesis
  proof (cases "marked ?m")
    case True
    then have "bsp_InitSFlash fuel D buf st = Inr st3"
      by (auto simp: bsp_InitSFlash_def Let_def st2(1) st3(1) b test marked_def)
    with True ok3 show ?thesis by simp
  next
    case False
    obtain st4 where st4: "sf_EraseChip fuel D st3 = Inr st4"
      "becomes D P view fuel st3 st4 (replicate (length ?m) 0xFF)"
      using sf_EraseChip_ok [OF ok3(1)] ok3(2) by auto
    note ok4 = becomes_ok [OF st4(2)] becomes_mem [OF st4(2)]
    obtain st5 where st5: "sf_WriteBuffer fuel D (replicate 10 0xAA) 10 10 st4 = Inr (1, st5)"
      "flash_ok D P view fuel st5" "flash_mem view st5 = overlay 10 (replicate 10 0xAA) (replicate (length ?m) 0xFF)"
      using sf_WriteBuffer_ok [OF ok4(1), of 10 "replicate 10 0xAA" 10] ok4(2) big by (auto simp: u)
    obtain st6 where st6: "sf_WriteBuffer fuel D [0, 0, 0, 0] 100 4 st5 = Inr (1, st6)"
      "flash_ok D P view fuel st6" "flash_mem view st6 = fresh_image (length ?m)"
      using sf_WriteBuffer_ok [OF st5(2), of 4 "[0, 0, 0, 0]" 100] st5(3) big
      by (auto simp: u fresh_image_def)
    have "bsp_InitSFlash fuel D buf st = Inr st6"
      using False by (simp add: bsp_InitSFlash_def Let_def st2(1) st3(1) b test marked_def st4(1) st5(1) st6(1))
    with False st6 show ?thesis by auto
  qed
qed

section \<open>Properties\<close>

text \<open>A blank chip of 8 MB directly on the wires, for the witnesses.\<close>

definition wired :: "'c spi_chip \<Rightarrow> 'c shifter spi_dev" where
  "wired C = \<lparr>spi_react = shifter_react C, spi_miso = shifter_miso C\<rparr>"

lemma wired_is_slave: "is_spi_slave (wired C) C (\<lambda>x. x)"
  by (simp add: is_spi_slave_def wired_def)

definition demo_par :: nor_par where
  "demo_par = \<lparr>np_id = [0xEF, 0x40, 0x17], np_lat = (\<lambda>_. 3)\<rparr>"

definition demo_chip :: nor where
  "demo_chip = \<lparr>nor_mem = replicate 8388608 0xFF, nor_wel = True, nor_bp = 0, nor_busy = 0, nor_rx = []\<rparr>"

definition demo_flash :: "nor shifter sflash" where
  "demo_flash = \<lparr>sf_bus = \<lparr>CS = True, SCK = True, MOSI = False, g_spi_busy = 0,
      slave = \<lparr>sh_cs = True, sh_sck = True, sh_bits = [], sh_chip = demo_chip\<rparr>\<rparr>,
    g_tSF = chip_info W25Q64_ID, s_spiBuf = replicate 4096 0\<rparr>"

lemma demo_flash_mem: "flash_mem (\<lambda>x. x) demo_flash = replicate 8388608 0xFF"
  by (simp add: flash_mem_def nor_of_def chip_of_def demo_flash_def demo_chip_def)

lemma demo_id: "id_word demo_par = W25Q64_ID"
  by (simp add: id_word_def demo_par_def W25Q64_ID_def)

lemma demo_idle: "bus_idle (wired (nor_chip demo_par)) demo_par (\<lambda>x. x) demo_flash"
  using wired_is_slave
  by (simp add: bus_idle_def spi_closed_def unselected_def bsp_SpiBusBusy_def demo_flash_def)

lemma demo_size: "unat (TotalSize (chip_info W25Q64_ID)) = 8388608"
  by (simp add: chip_info_def Let_def W25Q64_ID_def SST25VF016B_ID_def MX25L1606E_ID_def)

lemma demo_reset: "flash_reset (wired (nor_chip demo_par)) demo_par (\<lambda>x. x) 4 demo_flash"
  using demo_idle
  by (simp add: flash_reset_def demo_flash_mem demo_id demo_size)
     (simp add: nor_of_def chip_of_def demo_flash_def demo_chip_def demo_par_def W25Q64_ID_def SST25VF016B_ID_def)

lemma demo_ok: "flash_ok (wired (nor_chip demo_par)) demo_par (\<lambda>x. x) 4 demo_flash"
proof -
  have "ChipID (g_tSF demo_flash) \<noteq> SST25VF016B_ID" "PageSize (g_tSF demo_flash) = 4096"
    "TotalSize (g_tSF demo_flash) = TotalSize (chip_info W25Q64_ID)"
    by (simp_all add: demo_flash_def chip_info_geometry W25Q64_ID_def SST25VF016B_ID_def)
  then show ?thesis
    using demo_idle demo_reset demo_flash_mem demo_size
    by (simp add: flash_ok_def flash_reset_def flash_mem_def)
qed

text \<open>
  From reset, \<open>bsp_InitSFlash\<close> ends with driver and chip in agreement: the geometry recorded for the
  identification read is the one of the chip, no write is pending and the bus is free (\<open>flash_ok\<close>, which
  the other operations need and keep). The memory is the old one when it carries the marks of an
  earlier start, otherwise it is erased and gets the marks and a zeroed record counter.
\<close>

theorem bsp_InitSFlash_ready:
  assumes "flash_reset D P view fuel st" and "length buf = 10"
  shows "\<exists>st'. bsp_InitSFlash fuel D buf st = Inr st' \<and> flash_ok D P view fuel st' \<and>
    flash_mem view st' = (if marked (flash_mem view st) then flash_mem view st
      else fresh_image (length (flash_mem view st)))"
  using assms by (rule bsp_InitSFlash_ok)

lemma bsp_InitSFlash_ready_witness:
  "\<exists>st'. bsp_InitSFlash 4 (wired (nor_chip demo_par)) (replicate 10 0) demo_flash = Inr st' \<and>
     flash_ok (wired (nor_chip demo_par)) demo_par (\<lambda>x. x) 4 st' \<and>
     flash_mem (\<lambda>x. x) st' = fresh_image 8388608"
proof -
  have "\<not> marked (flash_mem (\<lambda>x. x) demo_flash)"
    by (simp add: demo_flash_mem marked_def)
  then show ?thesis
    using bsp_InitSFlash_ready [OF demo_reset, of "replicate 10 0"]
    by (simp only: if_False demo_flash_mem length_replicate)
qed

text \<open>
  C37. \<open>sf_WriteBuffer\<close> stores what it is given: for every buffer, address and length that fit the chip,
  whatever the memory held and however the range lies across the sectors of 4 KB, it returns 1
  within the fuel, the bytes are at their addresses, and every other byte of the chip - also of the sectors that
  had to be erased - is what it was.
\<close>

theorem sf_WriteBuffer_stores:
  assumes "flash_ok D P view fuel st" and "unat sz \<le> length buf"
    and "unat a + unat sz \<le> length (flash_mem view st)"
  shows "\<exists>st'. sf_WriteBuffer fuel D buf a sz st = Inr (1, st') \<and> flash_ok D P view fuel st' \<and>
    flash_mem view st' = overlay (unat a) (take (unat sz) buf) (flash_mem view st)"
  using assms by (rule sf_WriteBuffer_ok)

lemma sf_WriteBuffer_stores_witness:
  "\<exists>st'. sf_WriteBuffer 4 (wired (nor_chip demo_par)) (replicate 9000 7) 4090 9000 demo_flash = Inr (1, st') \<and>
     flash_mem (\<lambda>x. x) st' = overlay 4090 (replicate 9000 7) (replicate 8388608 0xFF)"
proof -
  have "unat (9000 :: u16) = 9000" "unat (4090 :: u32) = 4090" by simp_all
  then show ?thesis
    using sf_WriteBuffer_stores [OF demo_ok, of 9000 "replicate 9000 7" 4090]
    by (simp only: demo_flash_mem length_replicate take_replicate) auto
qed

text \<open>
  What has been written is what is read: \<open>sf_ReadBuffer\<close> after \<open>sf_WriteBuffer\<close> to the same address
  fills the front of the caller's buffer with the bytes written and leaves the rest of it.
\<close>

theorem sf_write_then_read:
  assumes "flash_ok D P view fuel st" and "0 < unat sz" and "unat sz \<le> length buf"
    and "unat a + unat sz \<le> length (flash_mem view st)" and "unat sz \<le> length out"
  shows "\<exists>st1 st2. sf_WriteBuffer fuel D buf a sz st = Inr (1, st1) \<and>
    sf_ReadBuffer D out a (ucast sz) st1 = Inr (take (unat sz) buf @ drop (unat sz) out, st2)"
proof -
  obtain st1 where st1: "sf_WriteBuffer fuel D buf a sz st = Inr (1, st1)" "flash_ok D P view fuel st1"
    "flash_mem view st1 = overlay (unat a) (take (unat sz) buf) (flash_mem view st)"
    using sf_WriteBuffer_ok [OF assms(1,3,4)] by blast
  have u: "unat (ucast sz :: u32) = unat sz"
    by (simp add: unsigned_ucast_eq take_bit_nat_eq_self less_trans [OF unat_u16_less])
  have m: "take (unat sz) (drop (unat a) (flash_mem view st1)) = take (unat sz) buf"
    unfolding st1(3) using take_drop_overlay_same [of "unat a" "take (unat sz) buf" "flash_mem view st"] assms
    by simp
  have "unat a + unat sz \<le> length (flash_mem view st1)" using assms by (simp add: st1(3))
  then obtain st2 where "sf_ReadBuffer D out a (ucast sz) st1 =
      Inr (overlay 0 (take (unat sz) (drop (unat a) (flash_mem view st1))) out, st2)"
    using sf_ReadBuffer_ok [OF st1(2), of "ucast sz" out a] assms by (auto simp: u)
  then show ?thesis using st1(1) assms by (simp add: m overlay_def)
qed

lemma sf_write_then_read_witness:
  "\<exists>st1 st2. sf_WriteBuffer 4 (wired (nor_chip demo_par)) [1, 2, 3] 4094 3 demo_flash = Inr (1, st1) \<and>
     sf_ReadBuffer (wired (nor_chip demo_par)) [0, 0, 0, 9] 4094 3 st1 = Inr ([1, 2, 3, 9], st2)"
proof -
  have u: "unat (3 :: u16) = 3" "unat (4094 :: u32) = 4094" "ucast (3 :: u16) = (3 :: u32)" by simp_all
  show ?thesis
    using sf_write_then_read [OF demo_ok, of 3 "[1, 2, 3]" 4094 "[0, 0, 0, 9]", unfolded demo_flash_mem u]
    by (simp add: numeral_3_eq_3)
qed

end
