(* ===== verification/Ymodem.thy ===== *)
theory Ymodem
  imports SerialTerm NorFlash
begin

text \<open>
  The YMODEM transfer of HARDWARE/BSP/ymodem.c and \<open>SerialDownload\<close> of common.c, on the terminal functions
  of \<open>SerialTerm\<close> and the flash driver of \<open>SpiFlash\<close>. The contents of uninitialised locals are
  parameters. The receiver's endless loops take fuel, the flash driver has its own.
\<close>

section \<open>Packets\<close>

record 'd ymodem = serial +
  file_name :: "u8 list"
  tab_1024 :: "u8 list"
  flash :: "'d sflash"

definition PACKET_SIZE :: nat where "PACKET_SIZE = 128"
definition PACKET_1K_SIZE :: nat where "PACKET_1K_SIZE = 1024"
definition NAK_TIMEOUT :: nat where "NAK_TIMEOUT = 0x100000"
definition SOH :: u8 where "SOH = 0x01"
definition STX :: u8 where "STX = 0x02"
definition EOT :: u8 where "EOT = 0x04"
definition ACK :: u8 where "ACK = 0x06"
definition NAK :: u8 where "NAK = 0x15"
definition CA :: u8 where "CA = 0x18"
definition CRC16 :: u8 where "CRC16 = 0x43"

lemmas ym_consts = PACKET_SIZE_def PACKET_1K_SIZE_def SOH_def STX_def EOT_def ACK_def NAK_def CA_def CRC16_def

text \<open>\<open>None\<close> is the result -1 of the code, \<open>Some c\<close> the result 0 with the character received.\<close>

fun Receive_Byte :: "(nat \<Rightarrow> u8 option) \<Rightarrow> nat \<Rightarrow> 'a serial_scheme \<Rightarrow> u8 option \<times> 'a serial_scheme" where
  "Receive_Byte poll 0 s = (None, s)"
| "Receive_Byte poll (Suc timeout) s =
     (let (k, s1) = SerialKeyPressed poll s in
      case k of Some c \<Rightarrow> (Some c, s1) | None \<Rightarrow> Receive_Byte poll timeout s1)"

definition Send_Byte :: "u8 \<Rightarrow> 'a serial_scheme \<Rightarrow> 'a serial_scheme" where
  "Send_Byte c s = SerialPutChar c s"

fun packet_loop :: "(nat \<Rightarrow> u8 option) \<Rightarrow> nat \<Rightarrow> nat \<Rightarrow> nat \<Rightarrow> u8 list \<Rightarrow> 'a serial_scheme
    \<Rightarrow> fault + (bool \<times> u8 list \<times> 'a serial_scheme)" where
  "packet_loop poll tmo 0 i data s = Inr (True, data, s)"
| "packet_loop poll tmo (Suc n) i data s =
     (case Receive_Byte poll tmo s of
        (None, s1) \<Rightarrow> Inr (False, data, s1)
      | (Some c, s1) \<Rightarrow> ebind (arr_set data i c) (\<lambda>d. packet_loop poll tmo n (Suc i) d s1))"

definition packet_body :: "(nat \<Rightarrow> u8 option) \<Rightarrow> nat \<Rightarrow> u8 \<Rightarrow> nat \<Rightarrow> u8 list \<Rightarrow> 'a serial_scheme
    \<Rightarrow> fault + (int \<times> int \<times> u8 list \<times> 'a serial_scheme)" where
  "packet_body poll tmo c packet_size data s =
     ebind (arr_set data 0 c) (\<lambda>d0.
     ebind (packet_loop poll tmo (packet_size + 4) 1 d0 s) (\<lambda>(ok, d, s1).
       if \<not> ok then Inr (-1, 0, d, s1)
       else ebind (arr_get d 1) (\<lambda>seq. ebind (arr_get d 2) (\<lambda>cmp.
         if seq \<noteq> (cmp XOR 0xFF) AND 0xFF then Inr (-1, 0, d, s1)
         else Inr (0, int packet_size, d, s1)))))"

text \<open>The result, \<open>*length\<close>, the packet buffer and the state. The two CRC bytes are not looked at.\<close>

definition Receive_Packet :: "(nat \<Rightarrow> u8 option) \<Rightarrow> nat \<Rightarrow> u8 list \<Rightarrow> 'a serial_scheme
    \<Rightarrow> fault + (int \<times> int \<times> u8 list \<times> 'a serial_scheme)" where
  "Receive_Packet poll tmo data s =
     (case Receive_Byte poll tmo s of
        (None, s1) \<Rightarrow> Inr (-1, 0, data, s1)
      | (Some c, s1) \<Rightarrow>
          if c = SOH then packet_body poll tmo c PACKET_SIZE data s1
          else if c = STX then packet_body poll tmo c PACKET_1K_SIZE data s1
          else if c = EOT then Inr (0, 0, data, s1)
          else if c = CA then
            (case Receive_Byte poll tmo s1 of
               (Some c', s2) \<Rightarrow> if c' = CA then Inr (0, -1, data, s2) else Inr (-1, 0, data, s2)
             | (None, s2) \<Rightarrow> Inr (-1, 0, data, s2))
          else if c = 0x41 \<or> c = 0x61 then Inr (1, 0, data, s1)
          else Inr (-1, 0, data, s1))"

section \<open>Receiving a file\<close>

record ym_vars =
  session_begin :: nat
  errors :: nat
  packets_received :: u32
  fsize :: u32            \<comment> \<open>\<open>size\<close>, signed in C\<close>
  FlashDestination :: u32
  packet_data :: "u8 list"
  file_size :: "u8 list"

datatype ym_next = Ym_Continue ym_vars | Ym_File_Done ym_vars | Ym_Session_Done ym_vars | Ym_Return int

text \<open>Copies up to \<open>n\<close> bytes, until the stop byte; returns the array and both indices.\<close>

fun copy_until :: "nat \<Rightarrow> u8 \<Rightarrow> u8 list \<Rightarrow> nat \<Rightarrow> u8 list \<Rightarrow> nat \<Rightarrow> fault + (u8 list \<times> nat \<times> nat)" where
  "copy_until 0 stop src p dst i = ebind (arr_get src p) (\<lambda>_. Inr (dst, i, p))"
| "copy_until (Suc n) stop src p dst i =
     ebind (arr_get src p) (\<lambda>c.
       if c = stop then Inr (dst, i, p)
       else ebind (arr_set dst i c) (\<lambda>d. copy_until n stop src (Suc p) d (Suc i)))"

definition accepted :: "ym_vars \<Rightarrow> ym_vars" where
  "accepted v = v\<lparr>packets_received := packets_received v + 1, session_begin := 1\<rparr>"

definition header_packet :: "ym_vars \<Rightarrow> 'd ymodem \<Rightarrow> fault + (ym_next \<times> 'd ymodem)" where
  "header_packet v s =
     ebind (copy_until 256 0 (packet_data v) 3 (file_name s) 0) (\<lambda>(fn, i, p).
     ebind (arr_set fn i 0) (\<lambda>fn1.
     ebind (copy_until 16 0x20 (packet_data v) (Suc p) (file_size v) 0) (\<lambda>(fs, j, _).
     ebind (arr_set fs j 0) (\<lambda>fs1.
     ebind (Str2Int fs1) (\<lambda>(_, num).
       let v1 = v\<lparr>file_size := fs1, fsize := (case num of Some n \<Rightarrow> n | None \<Rightarrow> fsize v)\<rparr>;
           s1 = s\<lparr>file_name := fn1\<rparr>
       in if 0x7FFFF < sint (fsize v1)
          then Inr (Ym_Return (-1), Send_Byte CA (Send_Byte CA s1))
          else Inr (Ym_Continue (accepted v1), Send_Byte CRC16 (Send_Byte ACK s1)))))))"

definition data_packet :: "nat \<Rightarrow> 'd spi_dev \<Rightarrow> nat \<Rightarrow> ym_vars \<Rightarrow> 'd ymodem \<Rightarrow> fault + (ym_next \<times> 'd ymodem)" where
  "data_packet ffuel D packet_length v s =
     ebind (get_bytes (packet_data v) 3 packet_length) (\<lambda>bs.
     ebind (put_bytes (tab_1024 s) 0 bs) (\<lambda>tab.
     ebind (sf_WriteBuffer ffuel D tab (FlashDestination v) 8 (flash s)) (\<lambda>(r, fl).
       let s1 = s\<lparr>tab_1024 := tab, flash := fl\<rparr> in
       if r = 0 then Inr (Ym_Return (-2), Send_Byte CA (Send_Byte CA s1))
       else Inr (Ym_Continue (accepted (v\<lparr>FlashDestination := FlashDestination v + of_nat packet_length\<rparr>)),
         Send_Byte ACK s1))))"

text \<open>The \<open>switch\<close> on one received packet.\<close>

definition ym_step :: "nat \<Rightarrow> (nat \<Rightarrow> u8 option) \<Rightarrow> 'd spi_dev \<Rightarrow> ym_vars \<Rightarrow> 'd ymodem
    \<Rightarrow> fault + (ym_next \<times> 'd ymodem)" where
  "ym_step ffuel poll D v s =
     ebind (Receive_Packet poll NAK_TIMEOUT (packet_data v) s) (\<lambda>(r, len, pd, s1).
       let v1 = v\<lparr>packet_data := pd\<rparr> in
       if r = 0 then
         let v2 = v1\<lparr>errors := 0\<rparr> in
         if len = -1 then Inr (Ym_Return 0, Send_Byte ACK s1)
         else if len = 0 then Inr (Ym_File_Done v2, Send_Byte ACK s1)
         else ebind (arr_get pd 1) (\<lambda>seq.
           if seq \<noteq> ucast (packets_received v2) then Inr (Ym_Continue v2, Send_Byte NAK s1)
           else if packets_received v2 = 0 then
             ebind (arr_get pd 3) (\<lambda>c.
               if c \<noteq> 0 then header_packet v2 s1
               else Inr (Ym_Session_Done v2, Send_Byte ACK s1))
           else data_packet ffuel D (nat len) v2 s1)
       else if r = 1 then Inr (Ym_Return (-3), Send_Byte CA (Send_Byte CA s1))
       else
         let v2 = (if 0 < session_begin v1 then v1\<lparr>errors := errors v1 + 1\<rparr> else v1) in
         if 5 < errors v2 then Inr (Ym_Return 0, Send_Byte CA (Send_Byte CA s1))
         else Inr (Ym_Continue v2, Send_Byte CRC16 s1))"

fun ym_loop :: "nat \<Rightarrow> nat \<Rightarrow> (nat \<Rightarrow> u8 option) \<Rightarrow> 'd spi_dev \<Rightarrow> ym_vars \<Rightarrow> 'd ymodem
    \<Rightarrow> fault + (int \<times> 'd ymodem)" where
  "ym_loop 0 ffuel poll D v s = Inl Still_Running"
| "ym_loop (Suc fuel) ffuel poll D v s =
     ebind (ym_step ffuel poll D v s) (\<lambda>(nx, s1).
       case nx of
         Ym_Continue v1 \<Rightarrow> ym_loop fuel ffuel poll D v1 s1
       | Ym_File_Done v1 \<Rightarrow> ym_loop fuel ffuel poll D (v1\<lparr>packets_received := 0\<rparr>) s1
       | Ym_Session_Done v1 \<Rightarrow> Inr (sint (fsize v1), s1)
       | Ym_Return r \<Rightarrow> Inr (r, s1))"

definition Ymodem_Receive :: "nat \<Rightarrow> nat \<Rightarrow> (nat \<Rightarrow> u8 option) \<Rightarrow> 'd spi_dev \<Rightarrow> u8 list \<Rightarrow> u8 list \<Rightarrow> 'd ymodem
    \<Rightarrow> fault + (int \<times> 'd ymodem)" where
  "Ymodem_Receive fuel ffuel poll D pd fs s =
     ym_loop fuel ffuel poll D \<lparr>session_begin = 0, errors = 0, packets_received = 0, fsize = 0,
       FlashDestination = 0, packet_data = pd, file_size = fs\<rparr> s"

text \<open>\<open>Number\<close> is an array of ten blanks, without a final 0.\<close>

definition SerialDownload :: "nat \<Rightarrow> nat \<Rightarrow> (nat \<Rightarrow> u8 option) \<Rightarrow> 'd spi_dev \<Rightarrow> u8 list \<Rightarrow> u8 list \<Rightarrow> 'd ymodem
    \<Rightarrow> fault + 'd ymodem" where
  "SerialDownload fuel ffuel poll D pd fs s =
     (let s0 = fold SerialPutChar [10, 13]
        (put_literal ''Waiting for the file to be sent ... (press 'a' to abort)'' s) in
      ebind (Ymodem_Receive fuel ffuel poll D pd fs s0) (\<lambda>(Size, s1).
        if 0 < Size then
          let s2 = put_literal ''Programming Completed Successfully!'' (fold SerialPutChar [10, 10, 13, 0x20] s1);
              s3 = put_literal '' Name: '' (fold SerialPutChar [13, 10]
                (put_literal ''--------------------------------'' (fold SerialPutChar [10, 13] s2)))
          in ebind (Serial_PutString (file_name s3) 0 s3) (\<lambda>s4.
             ebind (Int2Str (replicate 10 0x20) (of_int Size)) (\<lambda>Number.
             ebind (Serial_PutString Number 0 (put_literal '' Size: '' (fold SerialPutChar [10, 13] s4))) (\<lambda>s5.
             Inr (fold SerialPutChar [10] (put_literal ''-------------------''
               (fold SerialPutChar [13, 10] (put_literal ''  Bytes'' s5)))))))
        else if Size = -1 then
          Inr (fold SerialPutChar [10, 13] (put_literal ''The image size is higher than the allowed space memory!''
            (fold SerialPutChar [10, 10, 13] s1)))
        else if Size = -2 then
          Inr (fold SerialPutChar [10, 13] (put_literal ''Verification failed!'' (fold SerialPutChar [10, 10, 13] s1)))
        else if Size = -3 then
          Inr (fold SerialPutChar [10, 13] (put_literal ''Aborted by user.'' (fold SerialPutChar [13, 10, 10] s1)))
        else
          Inr (fold SerialPutChar [10, 13] (put_literal ''Failed to receive the file!'' (fold SerialPutChar [10, 13] s1)))))"

text \<open>
  One round of the menu, and the menu, which has no way out: after every round it is shown again. \<open>locals n\<close>
  are the uninitialised arrays of the download in round n.
\<close>

definition menu_round :: "nat \<Rightarrow> nat \<Rightarrow> (nat \<Rightarrow> u8 option) \<Rightarrow> 'd spi_dev \<Rightarrow> u8 list \<times> u8 list \<Rightarrow> u32 \<Rightarrow> 'd ymodem
    \<Rightarrow> fault + 'd ymodem" where
  "menu_round fuel ffuel poll D locals FlashProtection s =
     (let item = (\<lambda>cs s. fold SerialPutChar [13, 10, 10] (put_literal cs s));
          s1 = item ''================== Main Menu ============================'' (fold SerialPutChar [13, 10] s);
          s2 = item ''  Download Image To the STM32F10x Internal Flash ------- 1'' s1;
          s3 = item ''  Upload Image From the STM32F10x Internal Flash ------- 2'' s2;
          s4 = item ''  Execute The New Program ------------------------------ 3'' s3;
          s5 = (if FlashProtection \<noteq> 0 then item ''  Disable the write protection ------------------------- 4'' s4 else s4);
          s6 = item ''=========================================================='' s5
      in ebind (GetKey fuel poll s6) (\<lambda>(key, s7).
           if key = 0x31 then SerialDownload fuel ffuel poll D (fst locals) (snd locals) s7 else Inr s7))"

fun Main_Menu :: "nat \<Rightarrow> nat \<Rightarrow> (nat \<Rightarrow> u8 option) \<Rightarrow> 'd spi_dev \<Rightarrow> (nat \<Rightarrow> u8 list \<times> u8 list) \<Rightarrow> u32 \<Rightarrow> 'd ymodem
    \<Rightarrow> fault + 'd ymodem" where
  "Main_Menu 0 ffuel poll D locals FlashProtection s = Inl Still_Running"
| "Main_Menu (Suc fuel) ffuel poll D locals FlashProtection s =
     ebind (menu_round fuel ffuel poll D (locals fuel) FlashProtection s)
       (Main_Menu fuel ffuel poll D locals FlashProtection)"

section \<open>A session as the host sends it\<close>

text \<open>The next calls of \<open>comGetChar\<close> find these bytes.\<close>

definition feeds :: "(nat \<Rightarrow> u8 option) \<Rightarrow> nat \<Rightarrow> u8 list \<Rightarrow> bool" where
  "feeds poll n bs \<longleftrightarrow> (\<forall>i < length bs. poll (n + i) = Some (bs ! i))"

lemma feeds_Nil [simp]: "feeds poll n []"
  by (simp add: feeds_def)

lemma feeds_Cons [simp]: "feeds poll n (b # bs) \<longleftrightarrow> poll n = Some b \<and> feeds poll (Suc n) bs"
  by (simp add: feeds_def All_less_Suc2)

lemma feeds_append [simp]: "feeds poll n (bs @ cs) \<longleftrightarrow> feeds poll n bs \<and> feeds poll (n + length bs) cs"
  by (induction bs arbitrary: n) simp_all

lemma Receive_Byte_fed:
  "0 < tmo \<Longrightarrow> poll (polls s) = Some c \<Longrightarrow> Receive_Byte poll tmo s = (Some c, s\<lparr>polls := polls s + 1\<rparr>)"
  by (cases tmo) (simp_all add: SerialKeyPressed_def)

lemma packet_loop_fed:
  "0 < tmo \<Longrightarrow> feeds poll (polls s) bs \<Longrightarrow> i + length bs \<le> length data \<Longrightarrow>
   packet_loop poll tmo (length bs) i data s =
     Inr (True, overlay i bs data, s\<lparr>polls := polls s + length bs\<rparr>)"
proof (induction bs arbitrary: i data s)
  case Nil
  then show ?case by (simp add: overlay_def)
next
  case (Cons b bs)
  let ?s = "s\<lparr>polls := polls s + 1\<rparr>"
  have "packet_loop poll tmo (length bs) (Suc i) (data[i := b]) ?s =
      Inr (True, overlay (Suc i) bs (data[i := b]), ?s\<lparr>polls := polls ?s + length bs\<rparr>)"
    by (rule Cons.IH) (use Cons.prems in simp_all)
  moreover have "data[i := b] = overlay i [b] data" using Cons.prems by (intro upd_overlay) simp
  moreover have "overlay (Suc i) bs (overlay i [b] data) = overlay i ([b] @ bs) data"
    by (rule overlay_append) (use Cons.prems in simp_all)
  ultimately show ?case using Cons.prems by (simp add: Receive_Byte_fed)
qed

definition frame :: "(u8 list \<Rightarrow> u8 list) \<Rightarrow> u8 \<Rightarrow> u8 list \<Rightarrow> u8 list" where
  "frame crc seq data = (if length data = 128 then SOH else STX) # seq # NOT seq # data @ crc data"

definition packet_sized :: "u8 list \<Rightarrow> bool" where
  "packet_sized d \<longleftrightarrow> length d = 128 \<or> length d = 1024"

lemma length_frame:
  "length (crc data) = 2 \<Longrightarrow> length (frame crc seq data) = length data + 5"
  by (simp add: frame_def)

lemma Receive_Packet_fed:
  assumes f: "feeds poll (polls s) (frame crc seq data)" and crc: "length (crc data) = 2"
    and sz: "packet_sized data" and pd: "length pd = 1029" and tmo: "0 < tmo"
  shows "Receive_Packet poll tmo pd s =
    Inr (0, int (length data), overlay 0 (frame crc seq data) pd, s\<lparr>polls := polls s + length (frame crc seq data)\<rparr>)"
proof -
  let ?c = "if length data = 128 then SOH else STX" and ?bs = "seq # NOT seq # data @ crc data"
  let ?s1 = "s\<lparr>polls := polls s + 1\<rparr>" and ?d = "overlay 0 (frame crc seq data) pd"
  have len: "length ?bs = length data + 4" "length data \<le> 1024" using crc sz by (auto simp: packet_sized_def)
  have f1: "poll (polls s) = Some ?c" "feeds poll (polls ?s1) ?bs" using f by (simp_all add: frame_def)
  have "packet_loop poll tmo (length ?bs) 1 (pd[0 := ?c]) ?s1 =
      Inr (True, overlay 1 ?bs (pd[0 := ?c]), ?s1\<lparr>polls := polls ?s1 + length ?bs\<rparr>)"
    by (rule packet_loop_fed [OF tmo f1(2)]) (use len pd in simp)
  moreover have "overlay 1 ?bs (pd[0 := ?c]) = ?d"
  proof -
    have "pd[0 := ?c] = overlay 0 [?c] pd" using pd by (cases pd) (simp_all add: overlay_def)
    moreover have "overlay 1 ?bs (overlay 0 [?c] pd) = overlay 0 ([?c] @ ?bs) pd"
      by (rule overlay_append) (use len pd in simp_all)
    ultimately show ?thesis by (simp only: frame_def append_Cons append_Nil)
  qed
  moreover have "?s1\<lparr>polls := polls ?s1 + length ?bs\<rparr> = s\<lparr>polls := polls s + length (frame crc seq data)\<rparr>"
    using crc by (simp add: length_frame)
  ultimately have loop: "packet_loop poll tmo (length data + 4) 1 (pd[0 := ?c]) ?s1 =
      Inr (True, ?d, s\<lparr>polls := polls s + length (frame crc seq data)\<rparr>)"
    by (simp only: len(1))
  have d12: "arr_get ?d 1 = Inr seq" "arr_get ?d 2 = Inr (NOT seq)"
    by (simp_all add: overlay_def frame_def arr_get_def)
  have "(NOT seq XOR 0xFF) AND 0xFF = seq"
    by (rule bit_word_eqI) (auto simp: bit_and_iff bit_xor_iff bit_not_iff bit_0xFF_int possible_bit_def)
  moreover have "arr_set pd 0 ?c = Inr (pd[0 := ?c])" using pd by (intro arr_set_ok) simp
  ultimately have body: "packet_body poll tmo ?c (length data) pd ?s1 =
      Inr (0, int (length data), ?d, s\<lparr>polls := polls s + length (frame crc seq data)\<rparr>)"
    unfolding packet_body_def by (simp only: loop ebind_Inr prod.case d12 if_False not_True_eq_False) simp
  show ?thesis
    unfolding Receive_Packet_def Receive_Byte_fed [of tmo poll s, OF tmo f1(1)]
    using body sz by (auto simp: ym_consts packet_sized_def)
qed

text \<open>Copying up to a stop byte.\<close>

lemma copy_until_general:
  "drop p src = xs @ y # post \<Longrightarrow> stop \<notin> set xs \<Longrightarrow> y = stop \<and> length xs \<le> n \<or> length xs = n \<Longrightarrow>
   i + length xs \<le> length dst \<Longrightarrow>
   copy_until n stop src p dst i = Inr (overlay i xs dst, i + length xs, p + length xs)"
proof (induction xs arbitrary: n p dst i)
  case Nil
  then have "p < length src" by (metis drop_eq_Nil list.distinct(1) append_Nil not_le)
  moreover from this Nil.prems(1) have "src ! p = y" by (simp add: Cons_nth_drop_Suc [symmetric])
  ultimately show ?case using Nil.prems(3) by (cases n) (auto simp: overlay_def)
next
  case (Cons x xs)
  then obtain k where n: "n = Suc k" by (cases n) auto
  have p: "p < length src" using Cons.prems(1) by (metis append_is_Nil_conv drop_eq_Nil list.distinct(1) not_le)
  with Cons.prems(1) have x: "src ! p = x" and dr: "drop (Suc p) src = xs @ y # post"
    by (simp_all add: Cons_nth_drop_Suc [symmetric])
  have "copy_until k stop src (Suc p) (dst[i := x]) (Suc i) =
      Inr (overlay (Suc i) xs (dst[i := x]), Suc i + length xs, Suc p + length xs)"
    by (rule Cons.IH) (use Cons.prems dr n in simp_all)
  moreover have "overlay (Suc i) xs (dst[i := x]) = overlay i (x # xs) dst"
  proof -
    have "dst[i := x] = overlay i [x] dst" using Cons.prems by (intro upd_overlay) simp
    moreover have "overlay (Suc i) xs (overlay i [x] dst) = overlay i ([x] @ xs) dst"
      by (rule overlay_append) (use Cons.prems in simp_all)
    ultimately show ?thesis by simp
  qed
  moreover have "x \<noteq> stop" using Cons.prems(2) by auto
  ultimately show ?case using p x Cons.prems(4) by (simp add: n)
qed

lemma copy_until_ok:
  "drop p src = xs @ stop # post \<Longrightarrow> stop \<notin> set xs \<Longrightarrow> length xs \<le> n \<Longrightarrow> i + length xs \<le> length dst \<Longrightarrow>
   copy_until n stop src p dst i = Inr (overlay i xs dst, i + length xs, p + length xs)"
  using copy_until_general [of p src xs stop post stop n i dst] by simp

text \<open>The first packet: the name, a 0, the size in digits, a blank, padding.\<close>

definition header_data :: "u8 list \<Rightarrow> nat list \<Rightarrow> u8 list \<Rightarrow> u8 list" where
  "header_data name ds pad = name @ 0 # map ascii ds @ 0x20 # pad"

definition decimal :: "nat list \<Rightarrow> nat" where
  "decimal ds = foldl (\<lambda>v d. v * 10 + d) 0 ds"

definition header_ok :: "u8 list \<Rightarrow> nat list \<Rightarrow> u8 list \<Rightarrow> bool" where
  "header_ok name ds pad \<longleftrightarrow> name \<noteq> [] \<and> 0 \<notin> set name \<and> length name \<le> 255 \<and> ds \<noteq> [] \<and> (\<forall>d \<in> set ds. d < 10) \<and>
     length ds \<le> 10 \<and> decimal ds < 2 ^ 31 \<and> packet_sized (header_data name ds pad)"

lemma header_packet_ok:
  assumes h: "header_ok name ds pad" and pd: "drop 3 (packet_data v) = header_data name ds pad @ rest"
    and len: "length (file_name s) = 256" "length (file_size v) = 16"
  shows "header_packet v s =
    (let v1 = v\<lparr>file_size := overlay 0 (map ascii ds @ [0]) (file_size v), fsize := of_nat (decimal ds)\<rparr>;
         s1 = s\<lparr>file_name := overlay 0 (name @ [0]) (file_name s)\<rparr>
     in if 0x7FFFF < decimal ds then Inr (Ym_Return (-1), Send_Byte CA (Send_Byte CA s1))
        else Inr (Ym_Continue (accepted v1), Send_Byte CRC16 (Send_Byte ACK s1)))"
proof -
  have hh: "0 \<notin> set name" "length name \<le> 255" "ds \<noteq> []" "\<forall>d \<in> set ds. d < 10" "length ds \<le> 10" "decimal ds < 2 ^ 31"
    using h by (simp_all add: header_ok_def)
  have n1: "copy_until 256 0 (packet_data v) 3 (file_name s) 0 =
      Inr (overlay 0 name (file_name s), 0 + length name, 3 + length name)"
    by (rule copy_until_ok) (use pd hh len in \<open>simp_all add: header_data_def\<close>)
  have "drop (Suc (3 + length name)) (packet_data v) = drop (Suc (length name)) (drop 3 (packet_data v))" by simp
  also have "\<dots> = map ascii ds @ 0x20 # pad @ rest" unfolding pd by (simp add: header_data_def)
  finally have pd2: "drop (Suc (3 + length name)) (packet_data v) = map ascii ds @ 0x20 # pad @ rest" .
  have "ascii d \<noteq> 0x20" if "d < 10" for d using unat_ascii [OF that] by (auto simp: word_unat_eq_iff)
  then have "0x20 \<notin> set (map ascii ds)" using hh(4) by auto
  then have n2: "copy_until 16 0x20 (packet_data v) (Suc (3 + length name)) (file_size v) 0 =
      Inr (overlay 0 (map ascii ds) (file_size v), 0 + length (map ascii ds), Suc (3 + length name) + length (map ascii ds))"
    by (intro copy_until_ok [OF pd2]) (use hh len in simp_all)
  have set0: "arr_set (overlay 0 xs m) (0 + length xs) 0 = Inr (overlay 0 (xs @ [0]) m)" if "length xs < length m" for xs m :: "u8 list"
  proof -
    have "(overlay 0 xs m)[length xs := 0] = overlay 0 (xs @ [0]) m"
      using that by (simp add: overlay_def list_update_append Cons_nth_drop_Suc [symmetric])
    then show ?thesis using that by simp
  qed
  have n3: "arr_set (overlay 0 name (file_name s)) (0 + length name) 0 = Inr (overlay 0 (name @ [0]) (file_name s))"
    by (rule set0) (use hh len in simp)
  have n4: "arr_set (overlay 0 (map ascii ds) (file_size v)) (0 + length (map ascii ds)) 0 =
      Inr (overlay 0 (map ascii ds @ [0]) (file_size v))"
    by (rule set0) (use hh len in simp)
  have "Str2Int (map ascii ds @ 0 # drop (length ds + 1) (file_size v)) = Inr (1, Some (of_nat (decimal ds)))"
    unfolding decimal_def by (rule Str2Int_digits [OF hh(3-5)])
  then have n5: "Str2Int (overlay 0 (map ascii ds @ [0]) (file_size v)) = Inr (1, Some (of_nat (decimal ds)))"
    by (simp add: overlay_def)
  have "sint (of_nat (decimal ds) :: u32) = int (decimal ds)"
    using hh(6) by (simp add: signed_of_nat signed_take_bit_int_eq_self)
  then show ?thesis
    unfolding header_packet_def by (simp only: n1 n2 n3 n4 n5 ebind_Inr prod.case option.case Let_def ym_vars.simps ymodem.simps) simp
qed

lemma frame_in_buffer:
  assumes "length (crc data) = 2" and "packet_sized data" and "length pd = 1029"
  shows "arr_get (overlay 0 (frame crc q data) pd) 1 = Inr q"
    and "arr_get (overlay 0 (frame crc q data) pd) 3 = Inr (hd data)"
    and "drop 3 (overlay 0 (frame crc q data) pd) = data @ crc data @ drop (length data + 5) pd"
    and "length (overlay 0 (frame crc q data) pd) = 1029"
proof -
  have d: "data \<noteq> []" "length data \<le> 1024" using assms(2) by (auto simp: packet_sized_def)
  show "length (overlay 0 (frame crc q data) pd) = 1029" using assms d by (simp add: length_frame)
  show "arr_get (overlay 0 (frame crc q data) pd) 1 = Inr q" by (simp add: overlay_def frame_def arr_get_def)
  show "drop 3 (overlay 0 (frame crc q data) pd) = data @ crc data @ drop (length data + 5) pd"
    using assms(1) by (simp add: overlay_def frame_def numeral_eq_Suc)
  show "arr_get (overlay 0 (frame crc q data) pd) 3 = Inr (hd data)"
    using d by (simp add: overlay_def frame_def arr_get_def numeral_3_eq_3 hd_conv_nth nth_append)
qed

text \<open>What the \<open>switch\<close> does with a well-formed packet.\<close>

lemma ym_step_frame:
  assumes f: "feeds poll (polls s) (frame crc q data)" and crc: "length (crc data) = 2" and sz: "packet_sized data"
    and pd: "length (packet_data v) = 1029"
  defines "v1 \<equiv> v\<lparr>packet_data := overlay 0 (frame crc q data) (packet_data v), errors := 0\<rparr>"
    and "s1 \<equiv> s\<lparr>polls := polls s + length (frame crc q data)\<rparr>"
  shows "ym_step ffuel poll D v s =
    (if q \<noteq> ucast (packets_received v) then Inr (Ym_Continue v1, Send_Byte NAK s1)
     else if packets_received v = 0 then
       if hd data \<noteq> 0 then header_packet v1 s1 else Inr (Ym_Session_Done v1, Send_Byte ACK s1)
     else data_packet ffuel D (length data) v1 s1)"
proof -
  have "0 < NAK_TIMEOUT" by (simp add: NAK_TIMEOUT_def)
  note rp = Receive_Packet_fed [OF f crc sz pd this]
  have "int (length data) \<noteq> -1" "int (length data) \<noteq> 0" using sz by (auto simp: packet_sized_def)
  moreover define b where "b = overlay 0 (frame crc q data) (packet_data v)"
  moreover note frame_in_buffer(1,2) [of crc data "packet_data v" q, OF crc sz pd, folded b_def]
  ultimately show ?thesis
    unfolding ym_step_def rp ebind_Inr prod.case v1_def s1_def b_def [symmetric]
    using crc by (simp add: Let_def length_frame)
qed

definition ym_ok :: "'d spi_dev \<Rightarrow> nor_par \<Rightarrow> ('d \<Rightarrow> nor shifter) \<Rightarrow> nat \<Rightarrow> 'd ymodem \<Rightarrow> bool" where
  "ym_ok D P view ffuel s \<longleftrightarrow> flash_ok D P view ffuel (flash s) \<and> length (tab_1024 s) = 1024 \<and> length (file_name s) = 256"

lemma data_packet_ok:
  assumes ok: "ym_ok D P view ffuel s" and sz: "packet_sized data" and pd: "drop 3 (packet_data v) = data @ rest"
    and room: "unat (FlashDestination v) + length data \<le> length (flash_mem view (flash s))"
  shows "\<exists>s'. data_packet ffuel D (length data) v s =
      Inr (Ym_Continue (accepted (v\<lparr>FlashDestination := FlashDestination v + of_nat (length data)\<rparr>)), s') \<and>
    ym_ok D P view ffuel s' \<and> sent s' = sent s @ [ACK] \<and> polls s' = polls s \<and> file_name s' = file_name s \<and>
    flash_mem view (flash s') = overlay (unat (FlashDestination v)) (take 8 data) (flash_mem view (flash s))"
proof -
  let ?tab = "overlay 0 data (tab_1024 s)"
  have o: "flash_ok D P view ffuel (flash s)" "length (tab_1024 s) = 1024" using ok by (simp_all add: ym_ok_def)
  have len: "8 \<le> length data" "length data \<le> 1024" using sz by (auto simp: packet_sized_def)
  have "length (packet_data v) = 3 + length data + length rest"
  proof -
    have "length (drop 3 (packet_data v)) = length data + length rest" by (simp add: pd)
    with len show ?thesis by simp
  qed
  then have get: "get_bytes (packet_data v) 3 (length data) = Inr data" by (simp add: get_bytes_ok pd)
  have put: "put_bytes (tab_1024 s) 0 data = Inr ?tab" using len o(2) by (intro put_overlay) simp
  have t: "unat (8 :: u16) \<le> length ?tab" "take (unat (8 :: u16)) ?tab = take 8 data"
    using len o(2) by (simp_all add: overlay_def)
  have "unat (FlashDestination v) + unat (8 :: u16) \<le> length (flash_mem view (flash s))" using room len by simp
  from sf_WriteBuffer_ok [OF o(1) t(1) this] obtain fl where
    fl: "sf_WriteBuffer ffuel D ?tab (FlashDestination v) 8 (flash s) = Inr (1, fl)" "flash_ok D P view ffuel fl"
      "flash_mem view fl = overlay (unat (FlashDestination v)) (take 8 data) (flash_mem view (flash s))"
    unfolding t(2) by blast
  have "length ?tab = 1024" using len o(2) by simp
  then show ?thesis
    using ok by (simp add: data_packet_def get put fl ym_ok_def Send_Byte_def SerialPutChar_def)
qed

text \<open>The data packets of a file, numbered from \<open>q\<close>, and what they leave in the flash: eight bytes each.\<close>

fun frames :: "(u8 list \<Rightarrow> u8 list) \<Rightarrow> u32 \<Rightarrow> u8 list list \<Rightarrow> u8 list" where
  "frames crc q [] = []"
| "frames crc q (d # ds) = frame crc (ucast q) d @ frames crc (q + 1) ds"

fun stored :: "nat \<Rightarrow> u8 list list \<Rightarrow> u8 list \<Rightarrow> u8 list" where
  "stored a [] m = m"
| "stored a (d # ds) m = stored (a + length d) ds (overlay a (take 8 d) m)"

lemma data_loop:
  assumes crc: "\<And>d. length (crc d) = 2"
  shows "ym_ok D P view ffuel s \<Longrightarrow> length (packet_data v) = 1029 \<Longrightarrow> \<forall>d \<in> set ds. packet_sized d \<Longrightarrow>
    feeds poll (polls s) (frames crc (packets_received v) ds) \<Longrightarrow>
    0 < unat (packets_received v) \<Longrightarrow> unat (packets_received v) + length ds < 2 ^ 32 \<Longrightarrow>
    unat (FlashDestination v) + length (concat ds) \<le> length (flash_mem view (flash s)) \<Longrightarrow>
    \<exists>v' s'. ym_loop (length ds + k) ffuel poll D v s = ym_loop k ffuel poll D v' s' \<and>
      ym_ok D P view ffuel s' \<and> length (packet_data v') = 1029 \<and> fsize v' = fsize v \<and>
      polls s' = polls s + length (frames crc (packets_received v) ds) \<and>
      sent s' = sent s @ replicate (length ds) ACK \<and> file_name s' = file_name s \<and>
      flash_mem view (flash s') = stored (unat (FlashDestination v)) ds (flash_mem view (flash s))"
proof (induction ds arbitrary: v s)
  case Nil
  then show ?case by auto
next
  case (Cons d ds)
  let ?q = "packets_received v" and ?f = "frame crc (ucast (packets_received v)) d"
  let ?v1 = "v\<lparr>packet_data := overlay 0 ?f (packet_data v), errors := 0\<rparr>" and ?s1 = "s\<lparr>polls := polls s + length ?f\<rparr>"
  have sz: "packet_sized d" and fd: "feeds poll (polls s) ?f" using Cons.prems by simp_all
  have q: "?q \<noteq> 0" using Cons.prems(5) by auto
  have q1: "unat (?q + 1) = unat ?q + 1" using Cons.prems(6) unat_add_lem [of ?q 1] by simp
  have ok1: "ym_ok D P view ffuel ?s1" using Cons.prems(1) by (simp add: ym_ok_def)
  have pd: "drop 3 (packet_data ?v1) = d @ crc d @ drop (length d + 5) (packet_data v)"
    using frame_in_buffer(3) [of crc d "packet_data v", OF crc sz Cons.prems(2)] by simp
  have "unat (FlashDestination ?v1) + length d \<le> length (flash_mem view (flash ?s1))" using Cons.prems(7) by simp
  from data_packet_ok [OF ok1 sz pd this] obtain s2 where s2:
    "data_packet ffuel D (length d) ?v1 ?s1 =
      Inr (Ym_Continue (accepted (?v1\<lparr>FlashDestination := FlashDestination v + of_nat (length d)\<rparr>)), s2)"
    "ym_ok D P view ffuel s2" "sent s2 = sent s @ [ACK]" "polls s2 = polls s + length ?f" "file_name s2 = file_name s"
    "flash_mem view (flash s2) = overlay (unat (FlashDestination v)) (take 8 d) (flash_mem view (flash s))"
    by auto
  let ?v2 = "accepted (?v1\<lparr>FlashDestination := FlashDestination v + of_nat (length d)\<rparr>)"
  have step: "ym_loop (length (d # ds) + k) ffuel poll D v s = ym_loop (length ds + k) ffuel poll D ?v2 s2"
    using ym_step_frame [of poll s crc "ucast ?q" d v ffuel D, OF fd crc sz Cons.prems(2)] q s2(1) by simp
  have m: "length (flash_mem view (flash s)) \<le> 2 ^ 24"
    using Cons.prems(1) flash_mem_length(2) by (auto simp: ym_ok_def)
  have dest: "unat (FlashDestination ?v2) = unat (FlashDestination v) + length d"
    using Cons.prems(7) m unat_add_u32 [of "FlashDestination v" "length d"] by (simp add: accepted_def)
  have m2: "length (flash_mem view (flash s2)) = length (flash_mem view (flash s))"
    using Cons.prems(7) sz by (simp add: s2(6))
  have v2: "packets_received ?v2 = ?q + 1" "fsize ?v2 = fsize v" "length (packet_data ?v2) = 1029"
    using frame_in_buffer(4) [of crc d "packet_data v", OF crc sz Cons.prems(2)] by (simp_all add: accepted_def)
  from Cons.IH [of s2 ?v2] Cons.prems s2 v2 dest m2 q1 obtain v' s' where
    "ym_loop (length ds + k) ffuel poll D ?v2 s2 = ym_loop k ffuel poll D v' s'"
    "ym_ok D P view ffuel s'" "length (packet_data v') = 1029" "fsize v' = fsize v"
    "polls s' = polls s2 + length (frames crc (?q + 1) ds)"
    "sent s' = sent s2 @ replicate (length ds) ACK" "file_name s' = file_name s"
    "flash_mem view (flash s') = stored (unat (FlashDestination ?v2)) ds (flash_mem view (flash s2))"
    by auto
  then show ?case
    unfolding step using s2 dest by (intro exI [of _ v'] exI [of _ s']) simp
qed

text \<open>A whole session: header, data packets, end of transmission, empty header.\<close>

definition session :: "(u8 list \<Rightarrow> u8 list) \<Rightarrow> u8 list \<Rightarrow> u8 list list \<Rightarrow> u8 list" where
  "session crc hdr files = frame crc 0 hdr @ frames crc 1 files @ [EOT] @ frame crc 0 (replicate 128 0)"

definition ym_start :: "u8 list \<Rightarrow> u8 list \<Rightarrow> ym_vars" where
  "ym_start pd fs = \<lparr>session_begin = 0, errors = 0, packets_received = 0, fsize = 0,
     FlashDestination = 0, packet_data = pd, file_size = fs\<rparr>"

lemma Ymodem_Receive_start: "Ymodem_Receive fuel ffuel poll D pd fs s = ym_loop fuel ffuel poll D (ym_start pd fs) s"
  by (simp add: Ymodem_Receive_def ym_start_def)

lemma header_step:
  assumes f: "feeds poll (polls s) (frame crc 0 (header_data name ds pad))" and crc: "\<And>d. length (crc d) = 2"
    and h: "header_ok name ds pad" and len: "length pd = 1029" "length fs = 16" "length (file_name s) = 256"
  defines "fr \<equiv> frame crc 0 (header_data name ds pad)"
  defines "s1 \<equiv> s\<lparr>polls := polls s + length fr, file_name := overlay 0 (name @ [0]) (file_name s)\<rparr>"
    and "v1 \<equiv> (ym_start pd fs)\<lparr>packet_data := overlay 0 fr pd, file_size := overlay 0 (map ascii ds @ [0]) fs,
      fsize := of_nat (decimal ds)\<rparr>"
  shows "ym_step ffuel poll D (ym_start pd fs) s =
    (if 0x7FFFF < decimal ds then Inr (Ym_Return (-1), Send_Byte CA (Send_Byte CA s1))
     else Inr (Ym_Continue (accepted v1), Send_Byte CRC16 (Send_Byte ACK s1)))"
proof -
  let ?hd = "header_data name ds pad" and ?v = "ym_start pd fs"
  let ?va = "?v\<lparr>packet_data := overlay 0 fr (packet_data ?v), errors := 0\<rparr>" and ?sa = "s\<lparr>polls := polls s + length fr\<rparr>"
  have sz: "packet_sized ?hd" and ne: "hd ?hd \<noteq> 0"
    using h by (cases name; auto simp: header_ok_def header_data_def)+
  have pd: "length (packet_data ?v) = 1029" using len by (simp add: ym_start_def)
  have "ym_step ffuel poll D ?v s = header_packet ?va ?sa"
    using ym_step_frame [of poll s crc 0 ?hd ?v ffuel D, OF f crc sz pd] ne
    by (simp add: fr_def) (simp add: ym_start_def)
  also have "\<dots> = (if 0x7FFFF < decimal ds then Inr (Ym_Return (-1), Send_Byte CA (Send_Byte CA s1))
     else Inr (Ym_Continue (accepted v1), Send_Byte CRC16 (Send_Byte ACK s1)))"
  proof -
    have "drop 3 (packet_data ?va) = ?hd @ crc ?hd @ drop (length ?hd + 5) pd"
      using frame_in_buffer(3) [of crc ?hd pd 0, OF crc sz len(1)] by (simp add: fr_def ym_start_def)
    then show ?thesis
      by (subst header_packet_ok [OF h, of ?va])
         (use len in \<open>simp_all add: Let_def s1_def v1_def ym_start_def\<close>)
  qed
  finally show ?thesis .
qed

lemma eot_step:
  assumes "poll (polls s) = Some EOT"
  shows "ym_step ffuel poll D v s = Inr (Ym_File_Done (v\<lparr>errors := 0\<rparr>), Send_Byte ACK (s\<lparr>polls := polls s + 1\<rparr>))"
proof -
  have "0 < NAK_TIMEOUT" by (simp add: NAK_TIMEOUT_def)
  from Receive_Byte_fed [of NAK_TIMEOUT poll s, OF this assms]
  show ?thesis by (simp add: ym_step_def Receive_Packet_def ym_consts Let_def)
qed

lemma Ymodem_Receive_session_ok:
  assumes f: "feeds poll (polls s) (session crc (header_data name ds pad) files)"
    and crc: "\<And>d. length (crc d) = 2" and h: "header_ok name ds pad" "decimal ds \<le> 0x7FFFF"
    and sz: "\<forall>d \<in> set files. packet_sized d" and len: "length pd = 1029" "length fs = 16"
    and ok: "ym_ok D P view ffuel s" and room: "length (concat files) \<le> length (flash_mem view (flash s))"
    and fuel: "length files + 3 \<le> fuel"
  shows "\<exists>s'. Ymodem_Receive fuel ffuel poll D pd fs s = Inr (int (decimal ds), s') \<and> ym_ok D P view ffuel s' \<and>
    sent s' = sent s @ [ACK, CRC16] @ replicate (length files) ACK @ [ACK, ACK] \<and>
    file_name s' = overlay 0 (name @ [0]) (file_name s) \<and>
    flash_mem view (flash s') = stored 0 files (flash_mem view (flash s))"
proof -
  let ?hd = "header_data name ds pad" and ?null = "replicate 128 0 :: u8 list"
  let ?fr = "frame crc 0 ?hd" and ?nf = "frame crc 0 ?null"
  obtain k where "fuel = length files + 3 + k" using fuel by (auto simp: le_iff_add)
  then have fuel_k: "fuel = Suc (length files + Suc (Suc k))" by simp
  have fn: "length (file_name s) = 256" using ok by (simp add: ym_ok_def)
  have f1: "feeds poll (polls s) ?fr" using f by (simp add: session_def)
  define s1 where "s1 = Send_Byte CRC16 (Send_Byte ACK
    (s\<lparr>polls := polls s + length ?fr, file_name := overlay 0 (name @ [0]) (file_name s)\<rparr>))"
  define v1 where "v1 = accepted ((ym_start pd fs)\<lparr>packet_data := overlay 0 ?fr pd,
    file_size := overlay 0 (map ascii ds @ [0]) fs, fsize := of_nat (decimal ds)\<rparr>)"
  have l1: "ym_loop fuel ffuel poll D (ym_start pd fs) s = ym_loop (length files + Suc (Suc k)) ffuel poll D v1 s1"
    using header_step [of poll s crc name ds pad pd fs ffuel D, OF f1 crc h(1) len fn] h(2)
    by (simp add: fuel_k s1_def v1_def)
  have name: "length name \<le> 255" using h(1) by (simp add: header_ok_def)
  have ok1: "ym_ok D P view ffuel s1"
    using ok name by (simp add: ym_ok_def s1_def Send_Byte_def SerialPutChar_def)
  have s1: "polls s1 = polls s + length ?fr" "sent s1 = sent s @ [ACK, CRC16]" "flash s1 = flash s"
    "file_name s1 = overlay 0 (name @ [0]) (file_name s)"
    by (simp_all add: s1_def Send_Byte_def SerialPutChar_def)
  have szh: "packet_sized ?hd" using h(1) by (simp add: header_ok_def)
  have v1: "length (packet_data v1) = 1029" "packets_received v1 = 1" "FlashDestination v1 = 0"
    "fsize v1 = of_nat (decimal ds)"
    using frame_in_buffer(4) [of crc ?hd pd 0, OF crc szh len(1)]
    by (simp_all add: v1_def accepted_def ym_start_def)
  have "length files \<le> length (concat files)"
    using sz by (induction files) (auto simp: packet_sized_def)
  then have few: "unat (packets_received v1) + length files < 2 ^ 32"
    using room flash_mem_length(2) [of D P view ffuel "flash s"] ok v1(2) by (simp add: ym_ok_def)
  have "\<exists>v2 s2. ym_loop (length files + Suc (Suc k)) ffuel poll D v1 s1 = ym_loop (Suc (Suc k)) ffuel poll D v2 s2 \<and>
      ym_ok D P view ffuel s2 \<and> length (packet_data v2) = 1029 \<and> fsize v2 = fsize v1 \<and>
      polls s2 = polls s1 + length (frames crc (packets_received v1) files) \<and>
      sent s2 = sent s1 @ replicate (length files) ACK \<and> file_name s2 = file_name s1 \<and>
      flash_mem view (flash s2) = stored (unat (FlashDestination v1)) files (flash_mem view (flash s1))"
    by (rule data_loop [OF crc ok1 v1(1) sz _ _ few])
       (use f room s1 v1 in \<open>simp_all add: session_def\<close>)
  then obtain v2 s2 where l2: "ym_loop (length files + Suc (Suc k)) ffuel poll D v1 s1 = ym_loop (Suc (Suc k)) ffuel poll D v2 s2"
    and s2: "ym_ok D P view ffuel s2" "length (packet_data v2) = 1029" "fsize v2 = of_nat (decimal ds)"
      "polls s2 = polls s + length ?fr + length (frames crc 1 files)"
      "sent s2 = sent s @ [ACK, CRC16] @ replicate (length files) ACK" "file_name s2 = file_name s1"
      "flash_mem view (flash s2) = stored 0 files (flash_mem view (flash s))"
    using s1 v1 by auto
  let ?v3 = "v2\<lparr>errors := 0, packets_received := 0\<rparr>" and ?s3 = "Send_Byte ACK (s2\<lparr>polls := polls s2 + 1\<rparr>)"
  have "poll (polls s2) = Some EOT" using f s2(4) by (simp add: session_def add.assoc)
  then have l3: "ym_loop (Suc (Suc k)) ffuel poll D v2 s2 = ym_loop (Suc k) ffuel poll D ?v3 ?s3"
    using eot_step [of poll s2 ffuel D v2] by simp
  have s3: "polls ?s3 = polls s2 + 1" by (simp add: Send_Byte_def SerialPutChar_def)
  have f3: "feeds poll (polls ?s3) ?nf" using f s2(4) unfolding s3 by (simp add: session_def add.assoc)
  have "packet_sized ?null" by (simp add: packet_sized_def)
  moreover have "length (packet_data ?v3) = 1029" using s2(2) by simp
  moreover have "hd ?null = 0" by (simp add: hd_replicate)
  moreover have "sint (of_nat (decimal ds) :: u32) = int (decimal ds)"
    using h(2) by (simp add: signed_of_nat signed_take_bit_int_eq_self)
  ultimately have l4: "ym_loop (Suc k) ffuel poll D ?v3 ?s3 =
      Inr (int (decimal ds), Send_Byte ACK (?s3\<lparr>polls := polls ?s3 + length ?nf\<rparr>))"
    using ym_step_frame [of poll ?s3 crc 0 ?null ?v3 ffuel D, OF f3 crc] s2(3) by simp
  show ?thesis
    unfolding Ymodem_Receive_start l1 l2 l3 l4
    using s1(4) s2 by (simp add: ym_ok_def Send_Byte_def SerialPutChar_def)
qed

section \<open>Aborts, a silent host, and the report of success\<close>

text \<open>What the host sends to end a session before its first data packet, the result, and the answer:
  the operator's key, the sender's two cancel characters, a header with a size above 512 KB.\<close>

definition aborts :: "u8 list \<Rightarrow> int \<Rightarrow> u8 list \<Rightarrow> bool" where
  "aborts bs r out \<longleftrightarrow>
     (bs = [0x41] \<or> bs = [0x61]) \<and> r = -3 \<and> out = [CA, CA] \<or>
     bs = [CA, CA] \<and> r = 0 \<and> out = [ACK] \<or>
     (\<exists>name ds pad crc. header_ok name ds pad \<and> 0x7FFFF < decimal ds \<and> (\<forall>d. length (crc d) = 2) \<and>
        bs = frame crc 0 (header_data name ds pad) \<and> r = -1 \<and> out = [CA, CA])"

lemma Ymodem_Receive_aborts_ok:
  assumes "feeds poll (polls s) bs" and "aborts bs r out"
    and len: "length pd = 1029" "length fs = 16" "length (file_name s) = 256" and fuel: "0 < fuel"
  shows "\<exists>s'. Ymodem_Receive fuel ffuel poll D pd fs s = Inr (r, s') \<and> sent s' = sent s @ out \<and>
    flash s' = flash s \<and> tab_1024 s' = tab_1024 s"
proof -
  obtain k where k: "fuel = Suc k" using fuel by (cases fuel) auto
  have t: "0 < NAK_TIMEOUT" by (simp add: NAK_TIMEOUT_def)
  from assms(2) consider
      (op) "bs = [0x41] \<or> bs = [0x61]" "r = -3" "out = [CA, CA]"
    | (can) "bs = [CA, CA]" "r = 0" "out = [ACK]"
    | (big) name ds pad crc where "header_ok name ds pad" "0x7FFFF < decimal ds" "\<And>d. length (crc d) = 2"
        "bs = frame crc 0 (header_data name ds pad)" "r = -1" "out = [CA, CA]"
    unfolding aborts_def by blast
  then show ?thesis
  proof cases
    case op
    then obtain c where c: "poll (polls s) = Some c" "c = 0x41 \<or> c = 0x61" using assms(1) by auto
    from Receive_Byte_fed [of NAK_TIMEOUT poll s, OF t c(1)] c(2) op show ?thesis
      by (auto simp: Ymodem_Receive_start k ym_step_def Receive_Packet_def ym_consts Let_def ym_start_def
          Send_Byte_def SerialPutChar_def)
  next
    case can
    let ?s1 = "s\<lparr>polls := polls s + 1\<rparr>"
    have "poll (polls s) = Some CA" "poll (polls ?s1) = Some CA" using can assms(1) by simp_all
    from Receive_Byte_fed [of NAK_TIMEOUT poll s, OF t this(1)] Receive_Byte_fed [of NAK_TIMEOUT poll ?s1, OF t this(2)] can
    show ?thesis
      by (simp add: Ymodem_Receive_start k ym_step_def Receive_Packet_def ym_consts Let_def
          Send_Byte_def SerialPutChar_def)
  next
    case (big name ds pad crc)
    have "feeds poll (polls s) (frame crc 0 (header_data name ds pad))" using assms(1) big(4) by simp
    from header_step [of poll s crc name ds pad pd fs ffuel D, OF this big(3) big(1) len] big show ?thesis
      by (simp add: Ymodem_Receive_start k Send_Byte_def SerialPutChar_def)
  qed
qed

text \<open>As long as no character arrives the receiver asks again, without end.\<close>

lemma Receive_Byte_silent:
  assumes "\<And>n. poll n = None"
  shows "Receive_Byte poll tmo s = (None, s\<lparr>polls := polls s + tmo\<rparr>)"
  by (induction tmo arbitrary: s) (simp_all add: SerialKeyPressed_def assms)

lemma ym_loop_silent:
  assumes "\<And>n. poll n = None"
  shows "session_begin v = 0 \<Longrightarrow> errors v = 0 \<Longrightarrow> ym_loop fuel ffuel poll D v s = Inl Still_Running"
proof (induction fuel arbitrary: v s)
  case (Suc fuel)
  then show ?case
    by (simp add: ym_step_def Receive_Packet_def Receive_Byte_silent [OF assms] Let_def)
qed simp

text \<open>A string in an array is sent up to its first 0; without one the reading leaves the array.\<close>

lemma Serial_PutString_ok:
  "0 \<in> set (drop i str) \<Longrightarrow> \<exists>s'. Serial_PutString str i s = Inr s'"
proof (induction str i s rule: Serial_PutString.induct)
  case (1 str i s)
  then have i: "i < length str" by (metis drop_eq_Nil empty_iff empty_set not_le)
  with "1.prems" have "str ! i = 0 \<or> 0 \<in> set (drop (Suc i) str)"
    by (simp add: Cons_nth_drop_Suc [symmetric])
  with 1 i show ?case by (cases "str ! i = 0") (simp_all add: Serial_PutString.simps [of str i])
qed

lemma Serial_PutString_unterminated:
  "0 \<notin> set (drop i str) \<Longrightarrow> Serial_PutString str i s = Inl Out_Of_Bounds"
proof (induction str i s rule: Serial_PutString.induct)
  case (1 str i s)
  show ?case
  proof (cases "i < length str")
    case True
    with "1.prems" have "str ! i \<noteq> 0" "0 \<notin> set (drop (Suc i) str)"
      by (simp_all add: Cons_nth_drop_Suc [symmetric])
    with 1 True show ?thesis by (simp add: Serial_PutString.simps [of str i])
  next
    case False
    then show ?thesis by (simp add: Serial_PutString.simps [of str i])
  qed
qed

lemma Int2Str_unterminated:
  assumes "\<forall>c \<in> set str. c \<noteq> 0" and "length str = 10"
  shows "\<exists>out. Int2Str str w = Inr out \<and> 0 \<notin> set out"
proof -
  have w: "unat w < 10 ^ 10" using unat_u32_less [of w] by simp
  have "ascii d \<noteq> 0" if "d \<in> set (dec_digits 10 (unat w))" for d
    using ascii_digit(2) [OF dec_digits_less [OF w that]] .
  then have "0 \<notin> set (overlay 0 (map ascii (dec_digits 10 (unat w))) str)"
    using assms(1) by (auto simp: overlay_def dest: in_set_dropD)
  then show ?thesis using Int2Str_ok [of str w] assms(2) by simp
qed

lemma polls_put [simp]:
  "polls (fold SerialPutChar cs s) = polls s" "polls (put_literal str s) = polls s"
proof -
  show *: "polls (fold SerialPutChar cs s) = polls s" for cs and s :: "'a serial_scheme"
    by (induction cs arbitrary: s) (simp_all add: SerialPutChar_def)
  show "polls (put_literal str s) = polls s" by (simp add: put_literal_def *)
qed

text \<open>The other fields of the state are not touched by output.\<close>

lemma ymodem_put [simp]:
  fixes s :: "'d ymodem"
  shows "file_name (fold SerialPutChar cs s) = file_name s" "file_name (put_literal str s) = file_name s"
    and "flash (fold SerialPutChar cs s) = flash s" "flash (put_literal str s) = flash s"
    and "tab_1024 (fold SerialPutChar cs s) = tab_1024 s" "tab_1024 (put_literal str s) = tab_1024 s"
proof -
  have *: "file_name (fold SerialPutChar cs s) = file_name s \<and> flash (fold SerialPutChar cs s) = flash s \<and>
      tab_1024 (fold SerialPutChar cs s) = tab_1024 s" for cs and s :: "'d ymodem"
    by (induction cs arbitrary: s) (simp_all add: SerialPutChar_def)
  then show "file_name (fold SerialPutChar cs s) = file_name s" "flash (fold SerialPutChar cs s) = flash s"
    "tab_1024 (fold SerialPutChar cs s) = tab_1024 s" by blast+
  from * show "file_name (put_literal str s) = file_name s" "flash (put_literal str s) = flash s"
    "tab_1024 (put_literal str s) = tab_1024 s" unfolding put_literal_def by blast+
qed

lemma SerialDownload_success:
  fixes s :: "'d ymodem"
  assumes "\<exists>s1. Ymodem_Receive fuel ffuel poll D pd fs
      (fold SerialPutChar [10, 13] (put_literal ''Waiting for the file to be sent ... (press 'a' to abort)'' s)) = Inr (Size, s1) \<and>
      0 \<in> set (file_name s1)"
    and "0 < Size"
  shows "SerialDownload fuel ffuel poll D pd fs s = Inl Out_Of_Bounds"
proof -
  let ?s0 = "fold SerialPutChar [10, 13] (put_literal ''Waiting for the file to be sent ... (press 'a' to abort)'' s)"
  obtain s1 where s1: "Ymodem_Receive fuel ffuel poll D pd fs ?s0 = Inr (Size, s1)" "0 \<in> set (file_name s1)"
    using assms(1) by blast
  let ?s3 = "put_literal '' Name: '' (fold SerialPutChar [13, 10]
    (put_literal ''--------------------------------'' (fold SerialPutChar [10, 13]
      (put_literal ''Programming Completed Successfully!'' (fold SerialPutChar [10, 10, 13, 0x20] s1)))))"
  have "file_name ?s3 = file_name s1" by (simp only: ymodem_put)
  then obtain s4 where s4: "Serial_PutString (file_name ?s3) 0 ?s3 = Inr s4"
    using Serial_PutString_ok [of 0 "file_name ?s3" ?s3] s1(2) by auto
  obtain out where out: "Int2Str (replicate 10 0x20) (of_int Size) = Inr out" "0 \<notin> set out"
    using Int2Str_unterminated [of "replicate 10 0x20" "of_int Size"] by auto
  have "Serial_PutString out 0 x = Inl Out_Of_Bounds" for x :: "'d ymodem"
    by (rule Serial_PutString_unterminated) (use out in simp)
  then show ?thesis
    unfolding SerialDownload_def Let_def
    by (simp only: s1(1) ebind_Inr prod.case assms(2) if_True s4 out(1) ebind_Inl)
qed

section \<open>Properties\<close>

text \<open>A host that sends one file of 200 bytes in two packets, for the witnesses.\<close>

definition script :: "u8 list \<Rightarrow> nat \<Rightarrow> u8 option" where
  "script bs n = (if n < length bs then Some (bs ! n) else None)"

lemma script_feeds: "feeds (script bs) 0 bs"
  by (simp add: feeds_def script_def)

definition demo_ym :: "nor shifter ymodem" where
  "demo_ym = \<lparr>polls = 0, sent = [], file_name = replicate 256 0, tab_1024 = replicate 1024 0, flash = demo_flash\<rparr>"

definition demo_name :: "u8 list" where "demo_name = [0x61, 0x63, 0x75]"

definition demo_pad :: "u8 list" where "demo_pad = replicate 120 0"

definition no_crc :: "u8 list \<Rightarrow> u8 list" where "no_crc d = [0, 0]"

lemma demo_ym_ok: "ym_ok (wired (nor_chip demo_par)) demo_par (\<lambda>x. x) 4 demo_ym"
  using demo_ok by (simp add: ym_ok_def demo_ym_def)

lemma demo_header: "header_ok demo_name [2, 0, 0] demo_pad" "header_ok demo_name [9, 9, 9, 9, 9, 9] (replicate 117 0)"
  by (simp_all add: header_ok_def demo_name_def demo_pad_def decimal_def packet_sized_def header_data_def)

text \<open>
  C38. What a transfer leaves in the flash: for every file sent without an error - a header with name and
  size, data packets of 128 or 1024 bytes numbered from 1, end of transmission, empty header,
  whatever the CRC bytes - \<open>Ymodem_Receive\<close> returns the size the header announces, answers every packet
  with \<open>ACK\<close> (and the header with \<open>ACK\<close> and \<open>C\<close>), keeps the name with a final 0, and has written
  exactly the first 8 bytes of each packet, at the address of that packet; the remaining bytes of
  every packet are not in the flash.
\<close>

theorem Ymodem_Receive_session:
  assumes "feeds poll (polls s) (session crc (header_data name ds pad) files)"
    and "\<And>d. length (crc d) = 2" and "header_ok name ds pad" and "decimal ds \<le> 0x7FFFF"
    and "\<forall>d \<in> set files. packet_sized d" and "length pd = 1029" and "length fs = 16"
    and "ym_ok D P view ffuel s" and "length (concat files) \<le> length (flash_mem view (flash s))"
    and "length files + 3 \<le> fuel"
  shows "\<exists>s'. Ymodem_Receive fuel ffuel poll D pd fs s = Inr (int (decimal ds), s') \<and> ym_ok D P view ffuel s' \<and>
    sent s' = sent s @ [ACK, CRC16] @ replicate (length files) ACK @ [ACK, ACK] \<and>
    file_name s' = overlay 0 (name @ [0]) (file_name s) \<and>
    flash_mem view (flash s') = stored 0 files (flash_mem view (flash s))"
  using assms by (rule Ymodem_Receive_session_ok)

lemma Ymodem_Receive_session_witness:
  "\<exists>s'. Ymodem_Receive 5 4 (script (session no_crc (header_data demo_name [2, 0, 0] demo_pad)
        [replicate 128 1, replicate 128 2])) (wired (nor_chip demo_par)) (replicate 1029 0) (replicate 16 0) demo_ym =
      Inr (200, s') \<and> sent s' = [ACK, CRC16, ACK, ACK, ACK, ACK] \<and>
     flash_mem (\<lambda>x. x) (flash s') =
       overlay 128 (replicate 8 2) (overlay 0 (replicate 8 1) (replicate 8388608 0xFF))"
proof -
  let ?files = "[replicate 128 1, replicate 128 2] :: u8 list list"
  let ?bs = "session no_crc (header_data demo_name [2, 0, 0] demo_pad) ?files"
  have f: "feeds (script ?bs) (polls demo_ym) ?bs" using script_feeds by (simp add: demo_ym_def)
  have "length (no_crc d) = 2" for d by (simp add: no_crc_def)
  note r = Ymodem_Receive_session [OF f this demo_header(1) _ _ _ _ demo_ym_ok, of "replicate 1029 0" "replicate 16 0" 5]
  have m: "flash_mem (\<lambda>x. x) (flash demo_ym) = replicate 8388608 0xFF" "sent demo_ym = []"
    using demo_flash_mem by (simp_all add: demo_ym_def)
  have st: "stored 0 ?files m = overlay 128 (replicate 8 2) (overlay 0 (replicate 8 1) m)" for m :: "u8 list"
    by simp
  have d: "decimal [2, 0, 0] = 200" by (simp add: decimal_def)
  have "\<exists>s'. Ymodem_Receive 5 4 (script ?bs) (wired (nor_chip demo_par)) (replicate 1029 0) (replicate 16 0)
        demo_ym = Inr (int (decimal [2, 0, 0]), s') \<and> ym_ok (wired (nor_chip demo_par)) demo_par (\<lambda>x. x) 4 s' \<and>
      sent s' = sent demo_ym @ [ACK, CRC16] @ replicate (length ?files) ACK @ [ACK, ACK] \<and>
      file_name s' = overlay 0 (demo_name @ [0]) (file_name demo_ym) \<and>
      flash_mem (\<lambda>x. x) (flash s') = stored 0 ?files (flash_mem (\<lambda>x. x) (flash demo_ym))"
    by (rule r) (simp_all add: packet_sized_def m d)
  then obtain s' where "Ymodem_Receive 5 4 (script ?bs) (wired (nor_chip demo_par)) (replicate 1029 0) (replicate 16 0)
        demo_ym = Inr (int (decimal [2, 0, 0]), s')"
      "sent s' = sent demo_ym @ [ACK, CRC16] @ replicate (length ?files) ACK @ [ACK, ACK]"
      "flash_mem (\<lambda>x. x) (flash s') = stored 0 ?files (flash_mem (\<lambda>x. x) (flash demo_ym))" by blast
  then show ?thesis unfolding m st d by (intro exI [of _ s']) simp
qed

text \<open>
  A session that is broken off before its first data packet ends at once: the operator's key gives
  -3, two cancel characters of the sender give 0, a file above 512 KB gives -1; the answer to the
  host is \<open>CA CA\<close> or \<open>ACK\<close>, and neither the flash nor the data buffer has been touched.
\<close>

theorem Ymodem_Receive_aborts:
  assumes "feeds poll (polls s) bs" and "aborts bs r out"
    and "length pd = 1029" and "length fs = 16" and "length (file_name s) = 256" and "0 < fuel"
  shows "\<exists>s'. Ymodem_Receive fuel ffuel poll D pd fs s = Inr (r, s') \<and> sent s' = sent s @ out \<and>
    flash s' = flash s \<and> tab_1024 s' = tab_1024 s"
  using assms by (rule Ymodem_Receive_aborts_ok)

lemma Ymodem_Receive_aborts_witness:
  "\<exists>s'. Ymodem_Receive 1 4 (script (frame no_crc 0 (header_data demo_name [9, 9, 9, 9, 9, 9] (replicate 117 0))))
      (wired (nor_chip demo_par)) (replicate 1029 0) (replicate 16 0) demo_ym = Inr (-1, s') \<and>
     sent s' = [CA, CA] \<and> flash s' = demo_flash"
proof -
  let ?bs = "frame no_crc 0 (header_data demo_name [9, 9, 9, 9, 9, 9] (replicate 117 0))"
  have f: "feeds (script ?bs) (polls demo_ym) ?bs" using script_feeds by (simp add: demo_ym_def)
  have "\<forall>d. length (no_crc d) = 2" "0x7FFFF < decimal [9, 9, 9, 9, 9, 9]" by (simp_all add: no_crc_def decimal_def)
  then have "aborts ?bs (-1) [CA, CA]" using demo_header(2) unfolding aborts_def by blast
  from Ymodem_Receive_aborts [OF f this, of "replicate 1029 0" "replicate 16 0" 1 4 "wired (nor_chip demo_par)"]
  obtain s' where "Ymodem_Receive 1 4 (script ?bs) (wired (nor_chip demo_par)) (replicate 1029 0) (replicate 16 0)
      demo_ym = Inr (-1, s')" "sent s' = sent demo_ym @ [CA, CA]" "flash s' = flash demo_ym"
    by (auto simp: demo_ym_def)
  then show ?thesis by (simp add: demo_ym_def)
qed

text \<open>
  Without a host the receiver never returns: as long as serial port 3 delivers nothing, no number
  of rounds is enough, since errors are only counted once a session has begun. \<open>key_task\<close> calls
  it at the start of every round, so without a host that task does not get to its own work.
\<close>

theorem Ymodem_Receive_waits_for_host:
  assumes "\<And>n. poll n = None"
  shows "Ymodem_Receive fuel ffuel poll D pd fs s = Inl Still_Running \<and>
    SerialDownload fuel ffuel poll D pd fs s = Inl Still_Running"
proof -
  have "Ymodem_Receive fuel ffuel poll D pd fs s = Inl Still_Running" for s
    unfolding Ymodem_Receive_start by (rule ym_loop_silent [OF assms]) (simp_all add: ym_start_def)
  then show ?thesis by (simp add: SerialDownload_def Let_def)
qed

lemma Ymodem_Receive_waits_for_host_witness:
  "Ymodem_Receive 1000 4 (\<lambda>_. None) (wired (nor_chip demo_par)) (replicate 1029 0) (replicate 16 0) demo_ym =
     Inl Still_Running"
  by (rule Ymodem_Receive_waits_for_host [THEN conjunct1]) (rule refl)

text \<open>
  The report of a successful download reads outside an array: \<open>Number\<close> holds ten blanks and no 0,
  \<open>Int2Str\<close> puts digits over some of them, and sending it as a string runs past its end. So every
  transfer of a file that is not empty, however correct, ends in that fault.
\<close>

theorem SerialDownload_overreads:
  assumes "feeds poll (polls s) (session crc (header_data name ds pad) files)"
    and "\<And>d. length (crc d) = 2" and "header_ok name ds pad" and "decimal ds \<le> 0x7FFFF" and "0 < decimal ds"
    and "\<forall>d \<in> set files. packet_sized d" and "length pd = 1029" and "length fs = 16"
    and "ym_ok D P view ffuel s" and "length (concat files) \<le> length (flash_mem view (flash s))"
    and "length files + 3 \<le> fuel"
  shows "SerialDownload fuel ffuel poll D pd fs s = Inl Out_Of_Bounds"
proof -
  let ?s0 = "fold SerialPutChar [10, 13] (put_literal ''Waiting for the file to be sent ... (press 'a' to abort)'' s)"
  have s0: "polls ?s0 = polls s" "flash ?s0 = flash s" "tab_1024 ?s0 = tab_1024 s" "file_name ?s0 = file_name s"
    by (simp_all only: polls_put ymodem_put)
  have ok: "ym_ok D P view ffuel ?s0" using assms(9) by (simp only: ym_ok_def s0)
  have room: "length (concat files) \<le> length (flash_mem view (flash ?s0))" using assms(10) by (simp only: s0)
  have f: "feeds poll (polls ?s0) (session crc (header_data name ds pad) files)" using assms(1) by (simp only: s0)
  obtain s1 where s1: "Ymodem_Receive fuel ffuel poll D pd fs ?s0 = Inr (int (decimal ds), s1)"
    "file_name s1 = overlay 0 (name @ [0]) (file_name ?s0)"
    using Ymodem_Receive_session_ok [OF f assms(2-4,6-8) ok room assms(11)] by blast
  have "0 \<in> set (file_name s1)" by (simp add: s1(2) overlay_def)
  with s1(1) assms(5) show ?thesis by (intro SerialDownload_success [of fuel ffuel poll D pd fs s "int (decimal ds)"]) auto
qed

lemma SerialDownload_overreads_witness:
  "SerialDownload 4 4 (script (session no_crc (header_data demo_name [2, 0, 0] demo_pad) [replicate 1024 7]))
     (wired (nor_chip demo_par)) (replicate 1029 0) (replicate 16 0) demo_ym = Inl Out_Of_Bounds"
proof -
  let ?bs = "session no_crc (header_data demo_name [2, 0, 0] demo_pad) [replicate 1024 7]"
  have f: "feeds (script ?bs) (polls demo_ym) ?bs" using script_feeds by (simp add: demo_ym_def)
  have "length (no_crc d) = 2" for d by (simp add: no_crc_def)
  note r = SerialDownload_overreads [OF f this demo_header(1) _ _ _ _ _ demo_ym_ok, of "replicate 1029 0" "replicate 16 0" 4]
  have m: "length (flash_mem (\<lambda>x. x) (flash demo_ym)) = 8388608"
    using demo_flash_mem by (simp add: demo_ym_def)
  show ?thesis by (rule r) (simp_all add: packet_sized_def m decimal_def)
qed

end
