(* ===== verification/YmodemSend.thy ===== *)
theory YmodemSend
  imports Ymodem
begin

text \<open>
  The sending side of HARDWARE/BSP/ymodem.c: the checksums, the packets and \<open>Ymodem_Transmit\<close>. The CRC is
  compared with a bit-serial reference and shown to leave the residue 0; packets are shown to be what the receiver of
  \<open>Ymodem\<close> accepts.
\<close>

section \<open>Checksums\<close>

text \<open>The \<open>do\<close> loop ends when the marker bit has been shifted out: after 8 rounds.\<close>

fun crc16_loop :: "nat \<Rightarrow> u32 \<Rightarrow> u32 \<Rightarrow> fault + u16" where
  "crc16_loop 0 crc inb = Inl Still_Running"
| "crc16_loop (Suc n) crc inb =
     (let crc1 = push_bit 1 crc; in1 = push_bit 1 inb;
          crc2 = (if in1 AND 0x100 \<noteq> 0 then crc1 + 1 else crc1);
          crc3 = (if crc2 AND 0x10000 \<noteq> 0 then crc2 XOR 0x1021 else crc2)
      in if in1 AND 0x10000 \<noteq> 0 then Inr (ucast (crc3 AND 0xFFFF)) else crc16_loop n crc3 in1)"

definition UpdateCRC16 :: "u16 \<Rightarrow> u8 \<Rightarrow> fault + u16" where
  "UpdateCRC16 crcIn byte = crc16_loop 8 (ucast crcIn) (ucast byte OR 0x100)"

text \<open>The data are those from index \<open>p\<close> on; two zero bytes follow.\<close>

fun cal_crc_loop :: "nat \<Rightarrow> u8 list \<Rightarrow> nat \<Rightarrow> u16 \<Rightarrow> fault + u16" where
  "cal_crc_loop 0 data p crc = Inr crc"
| "cal_crc_loop (Suc n) data p crc =
     ebind (arr_get data p) (\<lambda>b. ebind (UpdateCRC16 crc b) (cal_crc_loop n data (Suc p)))"

definition Cal_CRC16 :: "u8 list \<Rightarrow> nat \<Rightarrow> nat \<Rightarrow> fault + u16" where
  "Cal_CRC16 data p sz =
     ebind (cal_crc_loop sz data p 0) (\<lambda>crc. ebind (UpdateCRC16 crc 0) (\<lambda>crc1. UpdateCRC16 crc1 0))"

fun checksum_loop :: "nat \<Rightarrow> u8 list \<Rightarrow> nat \<Rightarrow> u32 \<Rightarrow> fault + u8" where
  "checksum_loop 0 data p acc = Inr (ucast (acc AND 0xFF))"
| "checksum_loop (Suc n) data p acc =
     ebind (arr_get data p) (\<lambda>b. checksum_loop n data (Suc p) (acc + ucast b))"

definition CalChecksum :: "u8 list \<Rightarrow> nat \<Rightarrow> nat \<Rightarrow> fault + u8" where
  "CalChecksum data p sz = checksum_loop sz data p 0"

section \<open>Packets\<close>

definition Ymodem_CheckResponse :: "u8 \<Rightarrow> int" where
  "Ymodem_CheckResponse c = 0"

text \<open>\<open>file_ptr\<close> is the uninitialised local array of ten bytes the size is printed into. It is read up to
  its first 0.\<close>

definition Ymodem_PrepareIntialPacket :: "u8 list \<Rightarrow> u8 list \<Rightarrow> u8 list \<Rightarrow> u32 \<Rightarrow> fault + u8 list" where
  "Ymodem_PrepareIntialPacket file_ptr data fileName len =
     ebind (put_bytes data 0 [SOH, 0, 0xFF]) (\<lambda>d0.
     ebind (copy_until 256 0 fileName 0 d0 3) (\<lambda>(d1, i, _).
     ebind (arr_set d1 i 0) (\<lambda>d2.
     ebind (Int2Str file_ptr len) (\<lambda>fp.
     ebind (copy_until (length fp) 0 fp 0 d2 (Suc i)) (\<lambda>(d3, j, _).
     put_bytes d3 j (replicate (PACKET_SIZE + 3 - j) 0))))))"

definition Ymodem_PreparePacket :: "u8 list \<Rightarrow> nat \<Rightarrow> u8 list \<Rightarrow> u8 \<Rightarrow> nat \<Rightarrow> fault + u8 list" where
  "Ymodem_PreparePacket SourceBuf p data pktNo sizeBlk =
     (let packetSize = (if PACKET_1K_SIZE \<le> sizeBlk then PACKET_1K_SIZE else PACKET_SIZE);
          sz = (if sizeBlk < packetSize then sizeBlk else packetSize)
      in ebind (put_bytes data 0 [if packetSize = PACKET_1K_SIZE then STX else SOH, pktNo, NOT pktNo]) (\<lambda>d0.
         ebind (get_bytes SourceBuf p sz) (\<lambda>bs.
         ebind (put_bytes d0 3 bs) (\<lambda>d1.
         if sz \<le> packetSize then put_bytes d1 (sz + 3) (replicate (packetSize - sz) 0x1A)
         else Inr d1))))"

definition Ymodem_SendPacket :: "u8 list \<Rightarrow> nat \<Rightarrow> 'a serial_scheme \<Rightarrow> fault + 'a serial_scheme" where
  "Ymodem_SendPacket data len s = ebind (get_bytes data 0 len) (\<lambda>bs. Inr (fold Send_Byte bs s))"

definition send_with_crc :: "u8 list \<Rightarrow> nat \<Rightarrow> 'a serial_scheme \<Rightarrow> fault + 'a serial_scheme" where
  "send_with_crc data sz s =
     ebind (Ymodem_SendPacket data (sz + 3) s) (\<lambda>s1.
     ebind (Cal_CRC16 data 3 sz) (\<lambda>crc.
     Inr (Send_Byte (ucast (crc AND 0xFF)) (Send_Byte (ucast (drop_bit 8 crc)) s1))))"

section \<open>Transmission\<close>

text \<open>
  Both retry loops send again until \<open>ACK\<close> comes. The first counts only timeouts, so that other
  answers can keep it going for ever: it takes fuel, and returns the count. The second counts every
  failure and tries at most as often as told.
\<close>

fun retry_timeouts :: "nat \<Rightarrow> (nat \<Rightarrow> u8 option) \<Rightarrow> nat \<Rightarrow> ('a serial_scheme \<Rightarrow> fault + 'a serial_scheme) \<Rightarrow> nat
    \<Rightarrow> 'a serial_scheme \<Rightarrow> fault + (nat \<times> 'a serial_scheme)" where
  "retry_timeouts 0 poll tmo send errs s = Inl Still_Running"
| "retry_timeouts (Suc fuel) poll tmo send errs s =
     ebind (send s) (\<lambda>s1.
       case Receive_Byte poll tmo s1 of
         (Some c, s2) \<Rightarrow>
           if c = ACK then Inr (errs, s2)
           else if errs < 10 then retry_timeouts fuel poll tmo send errs s2 else Inr (errs, s2)
       | (None, s2) \<Rightarrow>
           if errs + 1 < 10 then retry_timeouts fuel poll tmo send (errs + 1) s2 else Inr (errs + 1, s2))"

fun retry_all :: "nat \<Rightarrow> (nat \<Rightarrow> u8 option) \<Rightarrow> nat \<Rightarrow> ('a serial_scheme \<Rightarrow> fault + 'a serial_scheme)
    \<Rightarrow> 'a serial_scheme \<Rightarrow> fault + (bool \<times> 'a serial_scheme)" where
  "retry_all 0 poll tmo send s = Inr (False, s)"
| "retry_all (Suc n) poll tmo send s =
     ebind (send s) (\<lambda>s1.
       case Receive_Byte poll tmo s1 of
         (Some c, s2) \<Rightarrow> if c = ACK then Inr (True, s2) else retry_all n poll tmo send s2
       | (None, s2) \<Rightarrow> retry_all n poll tmo send s2)"

text \<open>The data packets; \<open>None\<close> when all have been sent, otherwise the value returned. The image of the
  application may have \<open>FLASH_IMAGE_SIZE / 1024\<close> blocks (497).\<close>

definition max_block :: u32 where
  "max_block = (0x80000 - (0x8003C00 - 0x08000000)) div 1024"

function transmit_blocks :: "(nat \<Rightarrow> u8 option) \<Rightarrow> u8 list \<Rightarrow> nat \<Rightarrow> nat \<Rightarrow> u16 \<Rightarrow> u8 list \<Rightarrow> 'a serial_scheme
    \<Rightarrow> fault + (u8 option \<times> u8 list \<times> 'a serial_scheme)" where
  "transmit_blocks poll buf p sz blk pd s =
     (if sz = 0 then Inr (None, pd, s)
      else ebind (Ymodem_PreparePacket buf p pd (ucast blk) sz) (\<lambda>pd1.
        let pktSize = (if PACKET_1K_SIZE \<le> sz then PACKET_1K_SIZE else PACKET_SIZE) in
        ebind (retry_all 10 poll 100000 (send_with_crc pd1 pktSize) s) (\<lambda>(ok, s1).
          if \<not> ok then Inr (Some 10, pd1, s1)
          else if pktSize < sz then
            if ucast blk = max_block then Inr (Some 0xFF, pd1, s1)
            else transmit_blocks poll buf (p + pktSize) (sz - pktSize) (blk + 1) pd1 s1
          else Inr (None, pd1, s1))))"
  by auto
termination
  by (relation "measure (\<lambda>(poll, buf, p, sz, blk, pd, s). sz)") (auto simp: ym_consts split: if_splits)

declare transmit_blocks.simps [simp del]

definition send_eot :: "(nat \<Rightarrow> u8 option) \<Rightarrow> 'a serial_scheme \<Rightarrow> fault + (bool \<times> 'a serial_scheme)" where
  "send_eot poll s = retry_all 10 poll 10000 (\<lambda>s. Inr (Send_Byte EOT s)) s"

text \<open>
  The loop of the second end of transmission starts with what the loop before it has left, where \<open>ackReceived\<close> is 1: it runs
  once, whatever the host answers, and \<open>errs\<close> are the errors of the loop before.
\<close>

definition last_eot :: "(nat \<Rightarrow> u8 option) \<Rightarrow> nat \<Rightarrow> 'a serial_scheme \<Rightarrow> u8 \<times> 'a serial_scheme" where
  "last_eot poll errs s =
     (let (r, s1) = Receive_Byte poll 10000 (Send_Byte EOT s); errs1 = (if r = Some ACK then errs else errs + 1)
      in (if 10 \<le> errs1 then of_nat errs1 else 0, s1))"

text \<open>\<open>packet_data\<close>, \<open>FileName\<close> and \<open>file_ptr\<close> are the uninitialised local arrays.\<close>

definition Ymodem_Transmit :: "nat \<Rightarrow> (nat \<Rightarrow> u8 option) \<Rightarrow> u8 list \<Rightarrow> u8 list \<Rightarrow> u8 list \<Rightarrow> u8 list \<Rightarrow> u8 list \<Rightarrow> u32
    \<Rightarrow> 'a serial_scheme \<Rightarrow> fault + (u8 \<times> 'a serial_scheme)" where
  "Ymodem_Transmit fuel poll pd FileName file_ptr buf sendFileName sizeFile s =
     ebind (get_bytes sendFileName 0 255) (\<lambda>nm.
     ebind (put_bytes FileName 0 nm) (\<lambda>fn.
     ebind (Ymodem_PrepareIntialPacket file_ptr pd fn sizeFile) (\<lambda>pd1.
     ebind (retry_timeouts fuel poll 10000 (send_with_crc pd1 PACKET_SIZE) 0 s) (\<lambda>(errs, s1).
     if 10 \<le> errs then Inr (of_nat errs, s1)
     else ebind (transmit_blocks poll buf 0 (unat sizeFile) 1 pd1 s1) (\<lambda>(r, pd2, s2).
       case r of Some e \<Rightarrow> Inr (e, s2)
       | None \<Rightarrow>
           ebind (send_eot poll s2) (\<lambda>(ok, s3).
           if \<not> ok then Inr (10, s3)
           else ebind (put_bytes pd2 0 (SOH # 0 # 0xFF # replicate PACKET_SIZE 0)) (\<lambda>pd3.
             ebind (retry_timeouts fuel poll 10000 (send_with_crc pd3 PACKET_SIZE) 0 s3) (\<lambda>(errs', s4).
             if 10 \<le> errs' then Inr (of_nat errs', s4)
             else Inr (last_eot poll errs' s4)))))))))"

section \<open>The CRC against a reference\<close>

text \<open>The reference is the shift register of the polynomial x^16 + x^12 + x^5 + 1, one bit at a time.\<close>

definition crc16_step :: "u16 \<Rightarrow> bool \<Rightarrow> u16" where
  "crc16_step c b =
     (let d = push_bit 1 c OR of_bool b in if bit c 15 then d XOR 0x1021 else d)"

lemma and_bit_iff: "(w :: u32) AND 0x10000 \<noteq> 0 \<longleftrightarrow> bit w 16" "(w :: u32) AND 0x100 \<noteq> 0 \<longleftrightarrow> bit w 8"
proof -
  have "(0x10000 :: u32) = push_bit 16 1" "(0x100 :: u32) = push_bit 8 1" by simp_all
  then show "w AND 0x10000 \<noteq> 0 \<longleftrightarrow> bit w 16" "w AND 0x100 \<noteq> 0 \<longleftrightarrow> bit w 8"
    by (simp_all only: bit_iff_and_push_bit_not_eq_0)
qed

lemma push_bit_add_one: "push_bit 1 (w :: u32) + 1 = push_bit 1 w OR 1"
  by (rule disjunctive_add) (simp only: bit_push_bit_iff bit_1_iff, auto)

lemma crc16_low:
  fixes crc :: u32 and b :: bool
  defines "crc2 \<equiv> if b then push_bit 1 crc + 1 else push_bit 1 crc"
  shows "(ucast (if crc2 AND 0x10000 \<noteq> 0 then crc2 XOR 0x1021 else crc2) :: u16) = crc16_step (ucast crc) b"
proof -
  have c2: "crc2 = push_bit 1 crc OR of_bool b" 
    by (cases b) (simp_all only: crc2_def push_bit_add_one if_True if_False of_bool_eq or.right_neutral)
  have top: "crc2 AND 0x10000 \<noteq> 0 \<longleftrightarrow> bit crc 15"
    unfolding and_bit_iff c2 bit_or_iff bit_push_bit_iff by (simp add: bit_1_iff possible_bit_def)
  have low: "(ucast crc2 :: u16) = push_bit 1 (ucast crc) OR of_bool b"
    unfolding c2 by (rule bit_word_eqI) (simp only: bit_or_iff bit_push_bit_iff bit_unsigned_iff, auto simp: bit_or_iff bit_push_bit_iff bit_unsigned_iff bit_1_iff possible_bit_def)
  have x: "(ucast (w XOR 0x1021 :: u32) :: u16) = ucast w XOR 0x1021" for w
  proof -
    have "(ucast (w XOR 0x1021 :: u32) :: u16) = ucast w XOR ucast (0x1021 :: u32)"
      by (rule bit_word_eqI) (auto simp only: bit_xor_iff bit_unsigned_iff possible_bit_def)
    then show ?thesis by simp
  qed
  have "bit (ucast crc :: u16) 15 \<longleftrightarrow> bit crc 15" by (simp add: bit_unsigned_iff possible_bit_def)
  then show ?thesis unfolding top crc16_step_def Let_def using low x by simp
qed

lemma marked_byte:
  fixes byte :: u8
  assumes "0 < j" "j \<le> 8"
  shows "bit (push_bit j (ucast byte OR 0x100 :: u32)) 8 = bit byte (8 - j)"
    and "bit (push_bit j (ucast byte OR 0x100 :: u32)) 16 \<longleftrightarrow> j = 8"
proof -
  have "(0x100 :: u32) = push_bit 8 1" by simp
  then have b: "bit (ucast byte OR 0x100 :: u32) n \<longleftrightarrow> bit byte n \<or> n = 8" for n
    by (simp only: bit_or_iff bit_push_bit_iff bit_1_iff bit_unsigned_iff)
       (auto simp: possible_bit_def dest: bit_imp_le_length)
  show "bit (push_bit j (ucast byte OR 0x100 :: u32)) 8 = bit byte (8 - j)"
    "bit (push_bit j (ucast byte OR 0x100 :: u32)) 16 \<longleftrightarrow> j = 8"
    using assms unfolding bit_push_bit_iff b by (auto simp: possible_bit_def dest: bit_imp_le_length)
qed

lemma crc16_loop_ok:
  fixes byte :: u8
  shows "0 < n \<Longrightarrow> n \<le> 8 \<Longrightarrow>
   crc16_loop n crc (push_bit (8 - n) (ucast byte OR 0x100)) =
     Inr (foldl crc16_step (ucast crc) (map (bit byte) (rev [0..<n])))"
proof (induction n arbitrary: crc)
  case (Suc n)
  let ?w = "ucast byte OR 0x100 :: u32"
  have j: "push_bit 1 (push_bit (8 - Suc n) ?w) = push_bit (8 - n) ?w"
  proof -
    have "1 + (8 - Suc n) = 8 - n" using Suc.prems by simp
    then show ?thesis by (simp only: push_bit_push_bit)
  qed
  have m: "push_bit (8 - n) ?w AND 0x100 \<noteq> 0 \<longleftrightarrow> bit byte n" "push_bit (8 - n) ?w AND 0x10000 \<noteq> 0 \<longleftrightarrow> n = 0"
    using Suc.prems marked_byte [of "8 - n" byte] unfolding and_bit_iff by auto
  let ?c2 = "if bit byte n then push_bit 1 crc + 1 else push_bit 1 crc"
  let ?c3 = "if ?c2 AND 0x10000 \<noteq> 0 then ?c2 XOR 0x1021 else ?c2"
  have step: "crc16_loop (Suc n) crc (push_bit (8 - Suc n) ?w) =
      (if n = 0 then Inr (ucast (?c3 AND 0xFFFF)) else crc16_loop n ?c3 (push_bit (8 - n) ?w))"
    unfolding crc16_loop.simps Let_def j m ..
  have c3: "(ucast ?c3 :: u16) = crc16_step (ucast crc) (bit byte n)" by (rule crc16_low)
  have mask: "(ucast (x AND 0xFFFF :: u32) :: u16) = ucast x" for x
  proof -
    have "(0xFFFF :: u32) = mask 16" by (simp add: mask_eq_exp_minus_1)
    then have t: "x AND 0xFFFF = take_bit 16 x" by (simp only: take_bit_eq_mask)
    show ?thesis unfolding t by (rule bit_word_eqI) (simp only: bit_unsigned_iff bit_take_bit_iff, auto simp: possible_bit_def)
  qed
  show ?case
  proof (cases "n = 0")
    case True
    then show ?thesis unfolding step mask using c3 by simp
  next
    case False
    then show ?thesis
      unfolding step using Suc.IH [of ?c3] Suc.prems c3 by simp
  qed
qed simp

lemma UpdateCRC16_ok: "UpdateCRC16 c b = Inr (foldl crc16_step c (bits_of_byte b))"
proof -
  have "(ucast (ucast c :: u32) :: u16) = c"
    by (rule bit_word_eqI) (auto simp: bit_unsigned_iff possible_bit_def)
  moreover have "map (bit b) (rev [0..<8]) = bits_of_byte b"
    by (simp add: bits_of_byte_def upt_conv_Cons eval_nat_numeral)
  ultimately show ?thesis
    using crc16_loop_ok [of 8 "ucast c" b] by (simp add: UpdateCRC16_def)
qed

definition byte_bits :: "u8 list \<Rightarrow> bool list" where
  "byte_bits bs = concat (map bits_of_byte bs)"

definition crc16 :: "bool list \<Rightarrow> u16" where
  "crc16 bits = foldl crc16_step 0 bits"

lemma cal_crc_loop_ok:
  "p + n \<le> length data \<Longrightarrow>
   cal_crc_loop n data p c = Inr (foldl crc16_step c (byte_bits (take n (drop p data))))"
proof (induction n arbitrary: p c)
  case (Suc n)
  then have "take (Suc n) (drop p data) = data ! p # take n (drop (Suc p) data)"
    by (simp add: Cons_nth_drop_Suc [symmetric])
  with Suc show ?case by (simp add: byte_bits_def UpdateCRC16_ok)
qed (simp add: byte_bits_def)

lemma Cal_CRC16_ok:
  assumes "p + n \<le> length data"
  shows "Cal_CRC16 data p n = Inr (crc16 (byte_bits (take n (drop p data) @ [0, 0])))"
  using assms by (simp add: Cal_CRC16_def cal_crc_loop_ok UpdateCRC16_ok crc16_def byte_bits_def)

lemma shift_in_xor:
  "push_bit 1 (a XOR b :: u16) OR of_bool (p \<noteq> q) = (push_bit 1 a OR of_bool p) XOR (push_bit 1 b OR of_bool q)"
  by (rule bit_word_eqI)
     (simp only: bit_or_iff bit_xor_iff bit_push_bit_iff bit_of_bool_iff, auto)

definition bxor :: "bool \<Rightarrow> bool \<Rightarrow> bool" where
  "bxor p q \<longleftrightarrow> p \<noteq> q"

lemma crc16_step_xor: "crc16_step (a XOR b) (bxor p q) = crc16_step a p XOR crc16_step b q"
proof -
  have x: "(x XOR k) XOR (y XOR k) = x XOR y" for x y k :: u16
    by (rule bit_word_eqI) (simp only: bit_xor_iff, blast)
  show ?thesis
    unfolding crc16_step_def Let_def bxor_def shift_in_xor
    by (simp only: bit_xor_iff) (auto simp: x xor.assoc xor.commute xor.left_commute)
qed

lemma foldl_crc16_xor:
  "length xs = length ys \<Longrightarrow>
   foldl crc16_step (a XOR b) (map2 bxor xs ys) = foldl crc16_step a xs XOR foldl crc16_step b ys"
  by (induction xs ys arbitrary: a b rule: list_induct2) (simp_all add: crc16_step_xor)

text \<open>As long as no one has been shifted out, the register just collects the bits.\<close>

lemma foldl_crc16_collects:
  "length xs \<le> 16 \<Longrightarrow> unat c < 2 ^ (16 - length xs) \<Longrightarrow>
   foldl crc16_step c xs = foldl (\<lambda>v b. 2 * v + of_bool b) c xs"
proof (induction xs arbitrary: c)
  case (Cons b xs)
  have e: "16 - length xs = Suc (16 - length (b # xs))" using Cons.prems(1) by (simp add: Suc_diff_Suc)
  have small: "unat c < 2 ^ 15"
    using Cons.prems(2) power_increasing [of "16 - length (b # xs)" 15 "2 :: nat"] by simp
  then have "take_bit 15 (unat c) = unat c" by (simp add: take_bit_nat_eq_self)
  then have "take_bit 15 c = c" by (metis unsigned_take_bit_eq word_eq_iff_unsigned)
  then have "\<not> bit c 15" by (metis bit_take_bit_iff less_irrefl)
  moreover have "push_bit 1 c OR of_bool b = 2 * c + of_bool b"
  proof -
    have "push_bit 1 c + of_bool b = push_bit 1 c OR of_bool b"
      by (rule disjunctive_add) (simp only: bit_push_bit_iff bit_of_bool_iff, auto)
    then show ?thesis by (simp add: push_bit_eq_mult mult.commute)
  qed
  ultimately have step: "crc16_step c b = 2 * c + of_bool b" by (simp add: crc16_step_def)
  have "unat (2 * c + of_bool b) = 2 * unat c + of_bool b"
    using small by (simp add: unat_word_ariths of_bool_def)
  moreover have "2 * unat c + of_bool b < 2 ^ (16 - length xs)"
    using Cons.prems(2) unfolding e by (cases b) simp_all
  ultimately show ?case using Cons.IH [of "2 * c + of_bool b"] Cons.prems(1) by (simp add: step)
qed simp

lemma collect_byte: "foldl (\<lambda>v b. 2 * v + of_bool b) c (bits_of_byte b) = 256 * c + (ucast b :: u16)"
proof -
  have h: "foldl (\<lambda>v b. 2 * v + of_bool b) c (rev bs) = 2 ^ length bs * c + horner_sum of_bool 2 bs" for bs and c :: u16
    by (induction bs arbitrary: c) (simp_all add: algebra_simps)
  have "bits_of_byte b = rev (map (bit (ucast b :: u16)) [0..<8])"
    by (simp add: bits_of_byte_def upt_conv_Cons eval_nat_numeral bit_unsigned_iff possible_bit_def)
  then have "foldl (\<lambda>v b. 2 * v + of_bool b) c (bits_of_byte b) = 256 * c + horner_sum of_bool 2 (map (bit (ucast b :: u16)) [0..<8])"
    using h [of c "map (bit (ucast b :: u16)) [0..<8]"] by simp
  also have "(horner_sum of_bool 2 (map (bit (ucast b :: u16)) [0..<8]) :: u16) = take_bit 8 (ucast b)"
    by (rule horner_sum_bit_eq_take_bit)
  also have "take_bit 8 (ucast b :: u16) = ucast b"
    by (rule bit_word_eqI) (auto simp: bit_take_bit_iff bit_unsigned_iff dest: bit_imp_le_length)
  finally show ?thesis .
qed

lemma crc16_collect_word:
  "foldl crc16_step 0 (byte_bits [ucast (drop_bit 8 (w :: u16)), ucast (w AND 0xFF)]) = w"
proof -
  let ?hi = "ucast (drop_bit 8 w) :: u8" and ?lo = "ucast (w AND 0xFF) :: u8"
  have len: "length (byte_bits [?hi, ?lo]) = 16" by (simp add: byte_bits_def bits_of_byte_def)
  have "foldl crc16_step 0 (byte_bits [?hi, ?lo]) = 256 * ucast ?hi + ucast ?lo"
    using foldl_crc16_collects [of "byte_bits [?hi, ?lo]" 0] len by (simp add: byte_bits_def collect_byte)
  also have "(256 * ucast ?hi :: u16) + ucast ?lo = push_bit 8 (ucast ?hi) + ucast ?lo"
    by (simp add: push_bit_eq_mult mult.commute)
  also have "\<dots> = push_bit 8 (ucast ?hi) OR ucast ?lo"
    by (rule disjunctive_add) (simp only: bit_push_bit_iff bit_unsigned_iff, auto dest: bit_imp_le_length)
  also have "\<dots> = w"
  proof -
    have "(0xFF :: u16) = mask 8" by (simp add: mask_eq_exp_minus_1)
    then have t: "w AND 0xFF = take_bit 8 w" by (simp only: take_bit_eq_mask)
    show ?thesis unfolding t
      by (rule bit_word_eqI)
         (simp only: bit_or_iff bit_push_bit_iff bit_unsigned_iff bit_drop_bit_eq bit_take_bit_iff,
          auto simp: possible_bit_def not_less)
  qed
  finally show ?thesis .
qed

lemma crc16_residue:
  fixes data :: "u8 list"
  defines "crc \<equiv> crc16 (byte_bits (data @ [0, 0]))"
  shows "crc16 (byte_bits (data @ [ucast (drop_bit 8 crc), ucast (crc AND 0xFF)])) = 0"
proof -
  let ?c0 = "foldl crc16_step 0 (byte_bits data)" and ?z = "byte_bits [0, 0]"
    and ?B = "byte_bits [ucast (drop_bit 8 crc), ucast (crc AND 0xFF)]"
  have app: "byte_bits (xs @ ys) = byte_bits xs @ byte_bits ys" for xs ys by (simp add: byte_bits_def)
  have z: "?z = replicate 16 False" by (simp add: byte_bits_def bits_of_byte_def eval_nat_numeral)
  have len: "length ?B = 16" by (simp add: byte_bits_def bits_of_byte_def)
  have "map2 bxor (replicate n False) bs = bs" if "length bs = n" for n bs
    using that by (induction bs arbitrary: n) (auto simp: bxor_def)
  from this [OF len] have "map2 bxor ?z ?B = ?B" by (simp only: z)
  then have "foldl crc16_step ?c0 ?B = foldl crc16_step (?c0 XOR 0) (map2 bxor ?z ?B)" by (simp only: xor.right_neutral)
  also have "\<dots> = foldl crc16_step ?c0 ?z XOR foldl crc16_step 0 ?B"
    by (rule foldl_crc16_xor) (use len in \<open>simp add: z\<close>)
  also have "foldl crc16_step ?c0 ?z = crc" by (simp add: crc_def crc16_def app)
  also have "foldl crc16_step 0 ?B = crc" by (rule crc16_collect_word)
  finally show ?thesis by (simp add: crc16_def app)
qed

section \<open>A packet on its way to the receiver\<close>

definition wire_crc :: "u8 list \<Rightarrow> u8 list" where
  "wire_crc d = (let crc = crc16 (byte_bits (d @ [0, 0])) in [ucast (drop_bit 8 crc), ucast (crc AND 0xFF)])"

text \<open>The data of a packet, filled up with the end mark.\<close>

definition padded :: "u8 list \<Rightarrow> nat \<Rightarrow> nat \<Rightarrow> u8 list" where
  "padded src p sz =
     (let n = (if 1024 \<le> sz then 1024 else 128); k = min sz n
      in take k (drop p src) @ replicate (n - k) 0x1A)"

lemma padded_length:
  "p + min sz 1024 \<le> length src \<Longrightarrow> length (padded src p sz) = (if 1024 \<le> sz then 1024 else 128)"
  by (auto simp: padded_def Let_def min_def)

lemma Ymodem_PreparePacket_ok:
  assumes "p + min sz 1024 \<le> length src" and pd: "length pd = 1029"
  shows "Ymodem_PreparePacket src p pd q sz =
    Inr (overlay 0 ((if 1024 \<le> sz then STX else SOH) # q # NOT q # padded src p sz) pd)"
proof -
  let ?n = "if 1024 \<le> sz then 1024 else 128 :: nat" and ?k = "min sz (if 1024 \<le> sz then 1024 else 128)"
  let ?h = "[if 1024 \<le> sz then STX else SOH, q, NOT q]" and ?bs = "take (min sz (if 1024 \<le> sz then 1024 else 128)) (drop p src)"
  have k: "p + ?k \<le> length src" "?k \<le> ?n" "?n \<le> 1024"
    using assms(1) by (cases "1024 \<le> sz"; auto simp: min_def split: if_splits)+
  have bs: "get_bytes src p ?k = Inr ?bs" "length ?bs = ?k" using k(1) by (simp_all add: get_bytes_ok)
  have p1: "put_bytes pd 0 ?h = Inr (overlay 0 ?h pd)" by (rule put_overlay) (simp add: pd)
  have p2: "put_bytes (overlay 0 ?h pd) 3 ?bs = Inr (overlay 3 ?bs (overlay 0 ?h pd))"
    by (rule put_overlay) (use k bs(2) pd in simp)
  have o2: "overlay 3 ?bs (overlay 0 ?h pd) = overlay 0 (?h @ ?bs) pd"
    by (rule overlay_append) (use k bs(2) pd in simp_all)
  have p3: "put_bytes (overlay 0 (?h @ ?bs) pd) (?k + 3) (replicate (?n - ?k) 0x1A) =
      Inr (overlay (?k + 3) (replicate (?n - ?k) 0x1A) (overlay 0 (?h @ ?bs) pd))"
    by (rule put_overlay) (use k bs(2) pd in simp)
  have o3: "overlay (?k + 3) (replicate (?n - ?k) 0x1A) (overlay 0 (?h @ ?bs) pd) =
      overlay 0 ((?h @ ?bs) @ replicate (?n - ?k) 0x1A) pd"
    by (rule overlay_append) (use k bs(2) pd in simp_all)
  have sz: "(if sz < ?n then sz else ?n) = ?k" "\<not> ?k \<le> ?n \<longleftrightarrow> False" by (auto simp: min_def)
  have c: "(if (if 1024 \<le> sz then 1024 else 128) = (1024 :: nat) then STX else SOH) = (if 1024 \<le> sz then STX else SOH)"
    by simp
  show ?thesis
    unfolding Ymodem_PreparePacket_def Let_def PACKET_1K_SIZE_def PACKET_SIZE_def sz(1) c p1 ebind_Inr bs(1) p2 o2
    using k(2) p3 o3 by (simp add: padded_def Let_def)
qed

lemma sent_fold_Send: "fold Send_Byte bs s = s\<lparr>sent := sent s @ bs\<rparr>"
  by (induction bs arbitrary: s) (simp_all add: Send_Byte_def SerialPutChar_def)

lemma send_with_crc_ok:
  assumes hd: "h = [c, q, NOT q]" and len: "length data = n" "length pd = 1029" "n \<le> 1024"
  shows "send_with_crc (overlay 0 (h @ data) pd) n s = Inr (s\<lparr>sent := sent s @ h @ data @ wire_crc data\<rparr>)"
proof -
  let ?pd = "overlay 0 (h @ data) pd"
  have h: "length h = 3" by (simp add: hd)
  have l: "length ?pd = 1029" using h len by simp
  have "take (n + 3) (drop 0 ?pd) = h @ data" using h len by (simp add: overlay_def)
  then have g: "get_bytes ?pd 0 (n + 3) = Inr (h @ data)" using l len(3) by (simp add: get_bytes_ok)
  have "take n (drop 3 ?pd) = data" using h len by (simp add: overlay_def)
  then have crc: "Cal_CRC16 ?pd 3 n = Inr (crc16 (byte_bits (data @ [0, 0])))"
    using Cal_CRC16_ok [of 3 n ?pd] l len(3) by simp
  show ?thesis
    by (simp add: send_with_crc_def Ymodem_SendPacket_def g crc sent_fold_Send wire_crc_def Let_def)
       (simp add: Send_Byte_def SerialPutChar_def)
qed

lemma packet_on_the_wire:
  fixes pd :: "u8 list" and q :: u8
  assumes "p + min sz 1024 \<le> length src" and pd: "length pd = 1029"
  defines "n \<equiv> if 1024 \<le> sz then 1024 else 128 :: nat"
  obtains pd1 where "Ymodem_PreparePacket src p pd q sz = Inr pd1" and "length pd1 = 1029"
    and "\<And>s :: 'a serial_scheme. send_with_crc pd1 n s = Inr (s\<lparr>sent := sent s @ frame wire_crc q (padded src p sz)\<rparr>)"
proof -
  let ?d = "padded src p sz" and ?c = "if 1024 \<le> sz then STX else SOH"
  let ?pd = "overlay 0 ([?c, q, NOT q] @ ?d) pd"
  have d: "length ?d = n" unfolding n_def by (rule padded_length [OF assms(1)])
  have "Ymodem_PreparePacket src p pd q sz = Inr ?pd"
    using Ymodem_PreparePacket_ok [OF assms(1) pd] by simp
  moreover have "length ?pd = 1029" using d pd by (simp add: n_def)
  moreover have "send_with_crc ?pd n s = Inr (s\<lparr>sent := sent s @ frame wire_crc q ?d\<rparr>)" for s :: "'a serial_scheme"
  proof -
    have "send_with_crc ?pd n s = Inr (s\<lparr>sent := sent s @ [?c, q, NOT q] @ ?d @ wire_crc ?d\<rparr>)"
      by (rule send_with_crc_ok [OF refl d pd]) (simp add: n_def)
    then show ?thesis by (simp add: frame_def d n_def)
  qed
  ultimately show thesis by (rule that)
qed

section \<open>The packets of a file\<close>

function packets :: "u8 list \<Rightarrow> nat \<Rightarrow> nat \<Rightarrow> u8 list list" where
  "packets buf p sz =
     (if sz = 0 then []
      else padded buf p sz # packets buf (p + min sz (if 1024 \<le> sz then 1024 else 128)) (sz - (if 1024 \<le> sz then 1024 else 128)))"
  by auto
termination
  by (relation "measure (\<lambda>(buf, p, sz). sz)") auto

declare packets.simps [simp del]

lemma Receive_Byte_ack:
  "0 < tmo \<Longrightarrow> poll = (\<lambda>n. Some c) \<Longrightarrow> Receive_Byte poll tmo s = (Some c, s\<lparr>polls := polls s + 1\<rparr>)"
  by (rule Receive_Byte_fed) simp_all

lemma retry_all_ack:
  "send s = Inr s1 \<Longrightarrow> 0 < tmo \<Longrightarrow>
   retry_all (Suc n) (\<lambda>n. Some ACK) tmo send s = Inr (True, s1\<lparr>polls := polls s1 + 1\<rparr>)"
  by (simp add: Receive_Byte_ack)

lemma retry_timeouts_ack:
  "send s = Inr s1 \<Longrightarrow> 0 < tmo \<Longrightarrow>
   retry_timeouts (Suc n) (\<lambda>n. Some ACK) tmo send e s = Inr (e, s1\<lparr>polls := polls s1 + 1\<rparr>)"
  by (simp add: Receive_Byte_ack)

lemma ucast_of_nat_16_8: "(ucast (of_nat k :: u16) :: u8) = of_nat k"
  by (simp add: unsigned_of_nat word_of_nat_eq_iff)

lemma ucast_of_nat_32_8: "(ucast (of_nat k :: u32) :: u8) = of_nat k"
  by (simp add: unsigned_of_nat word_of_nat_eq_iff)

lemma transmit_blocks_ok:
  fixes s :: "'a serial_scheme"
  shows "p + sz \<le> length buf \<Longrightarrow> length pd = 1029 \<Longrightarrow> k + length (packets buf p sz) \<le> Suc (unat max_block) \<Longrightarrow>
   \<exists>pd' (s' :: 'a serial_scheme). transmit_blocks (\<lambda>n. Some ACK) buf p sz (of_nat k) pd s = Inr (None, pd', s') \<and> length pd' = 1029 \<and>
     sent s' = sent s @ frames wire_crc (of_nat k) (packets buf p sz)"
proof (induction sz arbitrary: p k pd s rule: less_induct)
  case (less sz)
  show ?case
  proof (cases "sz = 0")
    case True
    then show ?thesis using less.prems(2) by (simp add: transmit_blocks.simps packets.simps)
  next
    case False
    define n where "n = (if 1024 \<le> sz then 1024 else 128 :: nat)"
    let ?d = "padded buf p sz" and ?rest = "packets buf (p + min sz n) (sz - n)"
    have pk: "packets buf p sz = ?d # ?rest" using False by (subst packets.simps) (simp add: n_def)
    have "p + min sz 1024 \<le> length buf" using less.prems(1) by simp
    from packet_on_the_wire [OF this less.prems(2)] obtain pd1 where
      pd1: "Ymodem_PreparePacket buf p pd (of_nat k) sz = Inr pd1" and l1: "length pd1 = 1029"
        and snd: "\<And>s :: 'a serial_scheme. send_with_crc pd1 n s = Inr (s\<lparr>sent := sent s @ frame wire_crc (of_nat k) ?d\<rparr>)"
      unfolding n_def by blast
    define s1 where "s1 = s\<lparr>sent := sent s @ frame wire_crc (of_nat k) ?d, polls := polls s + 1\<rparr>"
    have send: "retry_all 10 (\<lambda>n. Some ACK) 100000 (send_with_crc pd1 n) s = Inr (True, s1)"
      using retry_all_ack [of "send_with_crc pd1 n" s _ 100000 9, OF snd] by (simp add: s1_def)
    have pkt: "(if PACKET_1K_SIZE \<le> sz then PACKET_1K_SIZE else PACKET_SIZE) = n" by (simp add: n_def ym_consts)
    have step: "transmit_blocks (\<lambda>n. Some ACK) buf p sz (of_nat k) pd s =
        (if n < sz then if ucast (of_nat k :: u16) = max_block then Inr (Some 0xFF, pd1, s1)
           else transmit_blocks (\<lambda>n. Some ACK) buf (p + n) (sz - n) (of_nat (Suc k)) pd1 s1
         else Inr (None, pd1, s1))"
      by (subst transmit_blocks.simps)
         (simp only: False if_False ucast_of_nat_16_8 pd1 ebind_Inr pkt Let_def send prod.case not_True_eq_False of_nat_Suc add.commute [of 1])
    have sent1: "sent s1 = sent s @ frame wire_crc (of_nat k) ?d" by (simp add: s1_def)
    show ?thesis
    proof (cases "n < sz")
      case True
      have ne: "?rest \<noteq> []" using True by (subst packets.simps) simp
      then have k: "k < unat max_block" using less.prems(3) by (cases ?rest) (simp_all add: pk)
      have "(ucast (of_nat k :: u16) :: u32) \<noteq> max_block"
      proof
        assume "(ucast (of_nat k :: u16) :: u32) = max_block"
        then have "unat (ucast (of_nat k :: u16) :: u32) = unat max_block" by simp
        moreover have "unat (ucast (of_nat k :: u16) :: u32) = k"
          using k by (simp add: unsigned_of_nat take_bit_nat_eq_self max_block_def)
        ultimately show False using k by simp
      qed
      moreover have "\<exists>pd' s'. transmit_blocks (\<lambda>n. Some ACK) buf (p + n) (sz - n) (of_nat (Suc k)) pd1 s1 = Inr (None, pd', s') \<and>
          length pd' = 1029 \<and> sent s' = sent s1 @ frames wire_crc (of_nat (Suc k)) (packets buf (p + n) (sz - n))"
        by (rule less.IH) (use True less.prems pk l1 in \<open>auto simp: n_def\<close>)
      ultimately show ?thesis unfolding step using True
        by (auto simp: pk sent1 ucast_of_nat_32_8 add.commute)
    next
      case False
      then have "?rest = []" by (subst packets.simps) simp
      then show ?thesis unfolding step using False l1 by (simp add: pk sent1 ucast_of_nat_32_8)
    qed
  qed
qed

lemma last_eot_ack:
  "last_eot (\<lambda>n. Some ACK) 0 s = (0, s\<lparr>sent := sent s @ [EOT], polls := polls s + 1\<rparr>)"
  by (simp add: last_eot_def Receive_Byte_fed Let_def Send_Byte_def SerialPutChar_def)

text \<open>A host that does not answer the last byte is not noticed, unless nine timeouts came before.\<close>

lemma last_eot_unanswered:
  assumes "errs < 9"
  shows "fst (last_eot poll errs s) = 0"
  using assms by (simp add: last_eot_def Let_def split: prod.split)

lemma send_eot_ack:
  "send_eot (\<lambda>n. Some ACK) s = Inr (True, s\<lparr>sent := sent s @ [EOT], polls := polls s + 1\<rparr>)"
  using retry_all_ack [of "\<lambda>s. Inr (Send_Byte EOT s)" s _ 10000 9, OF refl]
  by (simp add: send_eot_def Send_Byte_def SerialPutChar_def)

text \<open>The first packet as the code builds it: the name, a 0, the size in digits, zeros.\<close>

definition own_header :: "u8 list \<Rightarrow> u32 \<Rightarrow> u8 list" where
  "own_header name sz =
     (let bs = name @ 0 # map ascii (dec_digits 10 (unat sz)) in bs @ replicate (128 - length bs) 0)"

lemma Ymodem_PrepareIntialPacket_ok:
  assumes nm: "drop 0 fileName = name @ 0 # post" "0 \<notin> set name" "length name \<le> 110"
    and pd: "length pd = 1029" and fp: "length fp = 10" "length (dec_digits 10 (unat sz)) < 10"
      "fp ! length (dec_digits 10 (unat sz)) = 0"
  shows "Ymodem_PrepareIntialPacket fp pd fileName sz = Inr (overlay 0 (SOH # 0 # 0xFF # own_header name sz) pd)"
proof -
  let ?ds = "map ascii (dec_digits 10 (unat sz))" and ?h = "[SOH, 0, 0xFF] :: u8 list"
  let ?k = "length ?ds"
  have lim: "unat sz < 10 ^ 10" using unat_u32_less [of sz] by simp
  have p1: "put_bytes pd 0 ?h = Inr (overlay 0 ?h pd)" by (rule put_overlay) (simp add: pd)
  have p2: "copy_until 256 0 fileName 0 (overlay 0 ?h pd) 3 = Inr (overlay 0 (?h @ name) pd, 3 + length name, length name)"
    using copy_until_ok [OF nm(1,2), of 256 3 "overlay 0 ?h pd"] nm(3) pd overlay_append [of 0 ?h name pd 3] by simp
  have p3: "arr_set (overlay 0 (?h @ name) pd) (3 + length name) 0 = Inr (overlay 0 (?h @ name @ [0]) pd)"
  proof -
    have "(overlay 0 (?h @ name) pd)[3 + length name := 0] = overlay (3 + length name) [0] (overlay 0 (?h @ name) pd)"
      using nm(3) pd by (intro upd_overlay) simp
    also have "\<dots> = overlay 0 ((?h @ name) @ [0]) pd" using nm(3) pd by (intro overlay_append) simp_all
    finally show ?thesis using nm(3) pd by simp
  qed
  have p4: "Int2Str fp sz = Inr (overlay 0 ?ds fp)" using fp by (intro Int2Str_ok) simp
  have "drop 0 (overlay 0 ?ds fp) = ?ds @ 0 # drop (Suc ?k) fp"
    using fp by (simp add: overlay_def Cons_nth_drop_Suc [symmetric])
  moreover have "0 \<notin> set ?ds"
    using dec_digits_less [OF lim] unat_ascii by (force dest: arg_cong [of _ _ unat])
  ultimately have p5: "copy_until 10 0 (overlay 0 ?ds fp) 0 (overlay 0 (?h @ name @ [0]) pd) (4 + length name) =
      Inr (overlay 0 (?h @ name @ 0 # ?ds) pd, 4 + length name + ?k, ?k)"
    using copy_until_ok [of 0 "overlay 0 ?ds fp" ?ds 0 "drop (Suc ?k) fp" 10 "4 + length name" "overlay 0 (?h @ name @ [0]) pd"]
      nm(3) pd fp(2) overlay_append [of 0 "?h @ name @ [0]" ?ds pd "4 + length name"] by simp
  have p6: "put_bytes (overlay 0 (?h @ name @ 0 # ?ds) pd) (4 + length name + ?k) (replicate (131 - (4 + length name + ?k)) 0) =
      Inr (overlay 0 (?h @ own_header name sz) pd)"
    using nm(3) pd fp(2) overlay_append [of 0 "?h @ name @ 0 # ?ds" "replicate (131 - (4 + length name + ?k)) 0" pd "4 + length name + ?k"]
    by (simp add: put_overlay own_header_def Let_def)
  have c: "Suc (3 + length name) = 4 + length name" "PACKET_SIZE + 3 = 131" "length (overlay 0 ?ds fp) = 10"
    using fp by (simp_all add: PACKET_SIZE_def)
  show ?thesis
    unfolding Ymodem_PrepareIntialPacket_def p1 ebind_Inr p2 prod.case p3 p4 c p5 p6 by simp
qed

lemma own_header_length: "length name \<le> 110 \<Longrightarrow> length (own_header name sz) = 128"
  using dec_digits_length [of 10 "unat sz"] by (simp add: own_header_def Let_def)

lemma wire_crc_length: "length (wire_crc d) = 2"
  by (simp add: wire_crc_def Let_def)

lemma header_on_the_wire:
  assumes "length d = 128" and "length pd = 1029"
  shows "send_with_crc (overlay 0 (SOH # 0 # 0xFF # d) pd) PACKET_SIZE s = Inr (s\<lparr>sent := sent s @ frame wire_crc 0 d\<rparr>)"
proof -
  have "[SOH, 0, 0xFF] = [SOH, 0, NOT (0 :: u8)]" by simp
  from send_with_crc_ok [OF this assms(1,2), of s] show ?thesis
    by (simp add: frame_def assms PACKET_SIZE_def)
qed

text \<open>Concatenated, the packets are the file and the end marks behind it.\<close>

lemma packets_concat:
  "p + sz \<le> length buf \<Longrightarrow> \<exists>m. concat (packets buf p sz) = take sz (drop p buf) @ replicate m 0x1A"
proof (induction sz arbitrary: p rule: less_induct)
  case (less sz)
  show ?case
  proof (cases "sz = 0")
    case True
    then show ?thesis by (simp add: packets.simps)
  next
    case False
    define n where "n = (if 1024 \<le> sz then 1024 else 128 :: nat)"
    have n: "0 < n" by (simp add: n_def)
    have pk: "packets buf p sz = (take (min sz n) (drop p buf) @ replicate (n - min sz n) 0x1A) # packets buf (p + min sz n) (sz - n)"
      using False by (subst packets.simps) (simp add: n_def padded_def Let_def)
    show ?thesis
    proof (cases "n \<le> sz")
      case True
      obtain m where "concat (packets buf (p + n) (sz - n)) = take (sz - n) (drop (p + n) buf) @ replicate m 0x1A"
        using less.IH [of "sz - n" "p + n"] less.prems n True by auto
      moreover have "take n (drop p buf) @ take (sz - n) (drop (p + n) buf) = take sz (drop p buf)"
        using take_add [of n "sz - n" "drop p buf"] True by (simp add: add.commute)
      moreover have "concat (packets buf p sz) = take n (drop p buf) @ concat (packets buf (p + n) (sz - n))"
        using True by (simp add: pk min_def)
      ultimately show ?thesis by (metis append.assoc)
    next
      case False
      then have "packets buf (p + min sz n) (sz - n) = []" by (subst packets.simps) simp
      then show ?thesis using False by (auto simp: pk)
    qed
  qed
qed

lemma packets_sized: "p + sz \<le> length buf \<Longrightarrow> \<forall>d \<in> set (packets buf p sz). packet_sized d"
proof (induction sz arbitrary: p rule: less_induct)
  case (less sz)
  show ?case
  proof (cases "sz = 0")
    case False
    let ?n = "if 1024 \<le> sz then 1024 else 128 :: nat"
    have "\<forall>d \<in> set (packets buf (p + min sz ?n) (sz - ?n)). packet_sized d"
    proof (cases "?n \<le> sz")
      case True
      then show ?thesis by (intro less.IH) (use less.prems False in auto)
    next
      case False
      then show ?thesis by (subst packets.simps) simp
    qed
    moreover have "packet_sized (padded buf p sz)"
      using padded_length [of p sz buf] less.prems by (simp add: packet_sized_def)
    ultimately show ?thesis using False by (subst packets.simps) simp
  qed (simp add: packets.simps)
qed

text \<open>The arrays and arguments of a transmission that stays inside them.\<close>

definition send_ok :: "u8 list \<Rightarrow> u8 list \<Rightarrow> u8 list \<Rightarrow> u8 list \<Rightarrow> u8 list \<Rightarrow> u8 list \<Rightarrow> u32 \<Rightarrow> bool" where
  "send_ok pd FileName file_ptr buf sendFileName name sz \<longleftrightarrow>
     length pd = 1029 \<and> length FileName = 256 \<and> length file_ptr = 10 \<and> unat sz \<le> length buf \<and>
     255 \<le> length sendFileName \<and> take (Suc (length name)) sendFileName = name @ [0] \<and> 0 \<notin> set name \<and> length name \<le> 110 \<and>
     length (dec_digits 10 (unat sz)) < 10 \<and> file_ptr ! length (dec_digits 10 (unat sz)) = 0 \<and>
     length (packets buf 0 (unat sz)) \<le> unat max_block"

lemma Ymodem_Transmit_ok:
  fixes s :: "'a serial_scheme"
  assumes ok: "send_ok pd FileName fp buf sendFileName name sz"
  shows "\<exists>s' :: 'a serial_scheme. Ymodem_Transmit (Suc fuel) (\<lambda>n. Some ACK) pd FileName fp buf sendFileName sz s = Inr (0, s') \<and>
    sent s' = sent s @ session wire_crc (own_header name sz) (packets buf 0 (unat sz)) @ [EOT]"
proof -
  let ?h = "own_header name sz" and ?fn = "overlay 0 (take 255 sendFileName) FileName" and ?k = "length name"
  note o = ok [unfolded send_ok_def]
  have g: "get_bytes sendFileName 0 255 = Inr (take 255 sendFileName)" using o by (simp add: get_bytes_ok)
  have p: "put_bytes FileName 0 (take 255 sendFileName) = Inr ?fn" using o by (intro put_overlay) simp
  have "take (Suc ?k) sendFileName @ drop (Suc ?k) (take 255 sendFileName) = take 255 sendFileName"
  proof -
    have "take (Suc ?k) sendFileName = take (Suc ?k) (take 255 sendFileName)" using o by (simp add: min_def)
    then show ?thesis by (simp only: append_take_drop_id)
  qed
  then have nm: "drop 0 ?fn = name @ 0 # drop (Suc ?k) (take 255 sendFileName) @ drop 255 FileName"
  proof -
    have "take (Suc ?k) sendFileName = name @ [0]" using o by blast
    with \<open>take (Suc ?k) sendFileName @ _ = _\<close> have "take 255 sendFileName = name @ 0 # drop (Suc ?k) (take 255 sendFileName)"
      by (metis append.assoc append_Cons append_Nil)
    then show ?thesis using o unfolding overlay_def by simp
  qed
  have i: "Ymodem_PrepareIntialPacket fp pd ?fn sz = Inr (overlay 0 (SOH # 0 # 0xFF # ?h) pd)" (is "_ = Inr ?pd1")
    by (rule Ymodem_PrepareIntialPacket_ok [OF nm]) (use o in simp_all)
  have h: "length ?h = 128" using o by (intro own_header_length) simp
  define s1 where "s1 = s\<lparr>sent := sent s @ frame wire_crc 0 ?h, polls := polls s + 1\<rparr>"
  have r1: "retry_timeouts (Suc fuel) (\<lambda>n. Some ACK) 10000 (send_with_crc ?pd1 PACKET_SIZE) 0 s = Inr (0, s1)"
    using retry_timeouts_ack [of "send_with_crc ?pd1 PACKET_SIZE" s _ 10000 fuel 0, OF header_on_the_wire [OF h]] o
    by (simp add: s1_def)
  obtain pd2 and s2 :: "'a serial_scheme" where
    t: "transmit_blocks (\<lambda>n. Some ACK) buf 0 (unat sz) (of_nat 1) ?pd1 s1 = Inr (None, pd2, s2)" "length pd2 = 1029"
      "sent s2 = sent s1 @ frames wire_crc (of_nat 1) (packets buf 0 (unat sz))"
    using transmit_blocks_ok [of 0 "unat sz" buf ?pd1 1 s1] o h by auto
  define s3 where "s3 = s2\<lparr>sent := sent s2 @ [EOT], polls := polls s2 + 1\<rparr>"
  let ?pd3 = "overlay 0 (SOH # 0 # 0xFF # replicate 128 0) pd2"
  have p3: "put_bytes pd2 0 (SOH # 0 # 0xFF # replicate PACKET_SIZE 0) = Inr ?pd3"
    using t(2) by (simp add: put_overlay PACKET_SIZE_def)
  define s4 where "s4 = s3\<lparr>sent := sent s3 @ frame wire_crc 0 (replicate 128 0), polls := polls s3 + 1\<rparr>"
  have r2: "retry_timeouts (Suc fuel) (\<lambda>n. Some ACK) 10000 (send_with_crc ?pd3 PACKET_SIZE) 0 s3 = Inr (0, s4)"
    using retry_timeouts_ack [of "send_with_crc ?pd3 PACKET_SIZE" s3 _ 10000 fuel 0, OF header_on_the_wire [OF _ t(2)]]
    by (simp add: s4_def)
  define s5 where "s5 = s4\<lparr>sent := sent s4 @ [EOT], polls := polls s4 + 1\<rparr>"
  have "Ymodem_Transmit (Suc fuel) (\<lambda>n. Some ACK) pd FileName fp buf sendFileName sz s = Inr (0, s5)"
    unfolding Ymodem_Transmit_def g ebind_Inr p i r1 prod.case t(1) [unfolded of_nat_1] option.case send_eot_ack
      s3_def [symmetric] p3 r2 last_eot_ack s5_def [symmetric] by simp
  moreover have "sent s5 = sent s @ session wire_crc ?h (packets buf 0 (unat sz)) @ [EOT]"
    by (simp add: s5_def s4_def s3_def t(3) s1_def session_def)
  ultimately show ?thesis by blast
qed

text \<open>The header has no blank behind the size, which the receiver looks for.\<close>

lemma own_header_faults:
  assumes f: "feeds poll (polls s) (frame wire_crc 0 (own_header name sz))"
    and nm: "0 \<notin> set name" "length name \<le> 110" "name \<noteq> []"
    and len: "length pd = 1029" "length fs = 16" "length (file_name s) = 256"
  shows "Ymodem_Receive (Suc fuel) ffuel poll D pd fs s = Inl Out_Of_Bounds"
proof -
  let ?h = "own_header name sz" and ?v = "ym_start pd fs" and ?ds = "map ascii (dec_digits 10 (unat sz))"
  have h: "length ?h = 128" using nm by (intro own_header_length)
  then have szd: "packet_sized ?h" by (simp add: packet_sized_def)
  have lim: "unat sz < 10 ^ 10" using unat_u32_less [of sz] by simp
  have dl: "length ?ds \<le> 10" using dec_digits_length [of 10 "unat sz"] by simp
  define fr where "fr = frame wire_crc 0 ?h"
  define va where "va = ?v\<lparr>packet_data := overlay 0 fr pd, errors := 0\<rparr>"
  define sa where "sa = s\<lparr>polls := polls s + length fr\<rparr>"
  have pd: "length (packet_data ?v) = 1029" using len by (simp add: ym_start_def)
  have "hd ?h \<noteq> 0" using nm by (cases name) (auto simp: own_header_def Let_def)
  then have step: "ym_step ffuel poll D ?v s = header_packet va sa"
    using ym_step_frame [of poll s wire_crc 0 ?h ?v ffuel D, OF f wire_crc_length szd pd]
    by (simp add: fr_def va_def sa_def) (simp add: ym_start_def)
  have dr: "drop 3 (packet_data va) = ?h @ wire_crc ?h @ drop (length ?h + 5) pd"
    using frame_in_buffer(3) [of wire_crc ?h pd 0, OF wire_crc_length szd len(1)] by (simp add: va_def fr_def)
  define z where "z = 128 - (length name + Suc (length ?ds))"
  have hh: "?h = name @ 0 # ?ds @ replicate z 0" by (simp add: own_header_def Let_def z_def)
  have z: "17 \<le> length ?ds + z" using nm dl by (simp add: z_def)
  have n1: "copy_until 256 0 (packet_data va) 3 (file_name sa) 0 = Inr (overlay 0 name (file_name s), 0 + length name, 3 + length name)"
    using copy_until_ok [of 3 "packet_data va" name 0 _ 256 0 "file_name sa"] dr [unfolded hh] nm len by (simp add: sa_def)
  define xs where "xs = take 16 (?ds @ replicate z 0)"
  have "drop (Suc (3 + length name)) (packet_data va) = drop (Suc (length name)) (drop 3 (packet_data va))" by simp
  also have "\<dots> = (?ds @ replicate z 0) @ wire_crc ?h @ drop (length ?h + 5) pd" unfolding dr by (subst hh) simp
  also have "\<dots> = xs @ drop 16 (?ds @ replicate z 0) @ wire_crc ?h @ drop (length ?h + 5) pd" by (simp only: xs_def append.assoc [symmetric] append_take_drop_id)
  finally have d16: "drop (Suc (3 + length name)) (packet_data va) =
    xs @ drop 16 (?ds @ replicate z 0) @ wire_crc ?h @ drop (length ?h + 5) pd" .
  have "drop 16 (?ds @ replicate z 0) \<noteq> []" using z by (simp add: not_le le_diff_conv2) linarith
  then obtain y ys where y: "drop 16 (?ds @ replicate z 0) = y # ys" by (cases "drop 16 (?ds @ replicate z 0)") auto
  have "ascii d \<noteq> 0x20" if "d < 10" for d using unat_ascii [OF that] by (auto simp: word_unat_eq_iff)
  then have "0x20 \<notin> set xs" using dec_digits_less [OF lim] by (auto simp: xs_def dest!: in_set_takeD)
  moreover have lx: "length xs = 16" using z by (simp add: xs_def)
  ultimately have n2: "copy_until 16 0x20 (packet_data va) (Suc (3 + length name)) (file_size va) 0 =
      Inr (overlay 0 xs (file_size va), 16, Suc (3 + length name) + 16)"
    using copy_until_general [of "Suc (3 + length name)" "packet_data va" xs y _ "0x20" 16 0 "file_size va"] d16 [unfolded y append_Cons] len
    by (simp add: va_def ym_start_def)
  have n3: "arr_set (overlay 0 name (file_name s)) (0 + length name) 0 = Inr ((overlay 0 name (file_name s))[length name := 0])"
    using nm len by simp
  have n4: "arr_set (overlay 0 xs (file_size va)) 16 0 = Inl Out_Of_Bounds"
    using len lx by (simp add: va_def ym_start_def)
  have "header_packet va sa = Inl Out_Of_Bounds"
    unfolding header_packet_def n1 ebind_Inr prod.case n3 n2 n4 by simp
  then show ?thesis by (simp add: Ymodem_Receive_start step)
qed

section \<open>What the sender achieves\<close>

definition demo_serial :: serial where
  "demo_serial = \<lparr>polls = 0, sent = []\<rparr>"

definition demo_send_name :: "u8 list" where
  "demo_send_name = demo_name @ replicate 252 0"

lemma digs_numeral: "digs (numeral k) n = n div 10 ^ pred_numeral k # digs (pred_numeral k) (n mod 10 ^ pred_numeral k)"
  by (simp add: numeral_eq_Suc)

lemma demo_digits: "dec_digits 10 200 = [2, 0, 0]"
  by (simp add: dec_digits_def digs_numeral)

lemma demo_send_ok:
  "send_ok (replicate 1029 0) (replicate 256 0) (replicate 10 0) (replicate 200 7) demo_send_name demo_name 200"
  by (simp add: send_ok_def demo_send_name_def demo_digits max_block_def)
     (simp add: demo_name_def packets.simps)

text \<open>
  C40. The CRC of the packets is right: over any bytes inside the array, \<open>Cal_CRC16\<close> is the remainder the
  bit-serial shift register of x^16 + x^12 + x^5 + 1 leaves after the data and 16 zero bits, and data
  followed by the two bytes of this CRC leave the remainder 0.
\<close>

theorem Cal_CRC16_is_crc16:
  assumes "p + n \<le> length data"
  shows "\<exists>crc. Cal_CRC16 data p n = Inr crc \<and> crc = crc16 (byte_bits (take n (drop p data) @ [0, 0])) \<and>
    crc16 (byte_bits (take n (drop p data) @ [ucast (drop_bit 8 crc), ucast (crc AND 0xFF)])) = 0"
  using Cal_CRC16_ok [OF assms] crc16_residue [of "take n (drop p data)"] by simp

lemma Cal_CRC16_is_crc16_witness:
  "\<exists>crc. Cal_CRC16 [0, 0, 0, 0x31, 0x32, 0x33, 0x34, 0x35, 0x36, 0x37, 0x38, 0x39] 3 9 = Inr crc \<and> crc = 0x31C3"
proof -
  have "crc16 (byte_bits (take 9 (drop 3 [0, 0, 0, 0x31, 0x32, 0x33, 0x34, 0x35, 0x36, 0x37, 0x38, 0x39]) @ [0, 0])) = 0x31C3"
    by code_simp
  then show ?thesis
    using Cal_CRC16_is_crc16 [of 3 9 "[0, 0, 0, 0x31, 0x32, 0x33, 0x34, 0x35, 0x36, 0x37, 0x38, 0x39]"] by simp
qed

text \<open>
  C39. A transmission to a host that acknowledges everything: \<open>Ymodem_Transmit\<close> returns 0 having sent the
  header with name and size, the packets of the file numbered from 1, end of transmission, an empty header
  and a second end of transmission, each packet with its number, the complement of the number and its
  CRC. The packets have 128 or 1024 bytes and contain the file, in order and without gaps.
\<close>

theorem Ymodem_Transmit_session:
  assumes "send_ok pd FileName fp buf sendFileName name sz"
  shows "(\<exists>s'. Ymodem_Transmit (Suc fuel) (\<lambda>n. Some ACK) pd FileName fp buf sendFileName sz s = Inr (0, s') \<and>
      sent s' = sent s @ session wire_crc (own_header name sz) (packets buf 0 (unat sz)) @ [EOT]) \<and>
    list_all packet_sized (packets buf 0 (unat sz)) \<and>
    take (unat sz) (concat (packets buf 0 (unat sz))) = take (unat sz) buf"
proof -
  have l: "0 + unat sz \<le> length buf" using assms by (simp add: send_ok_def)
  have "take (unat sz) (concat (packets buf 0 (unat sz))) = take (unat sz) buf"
    using packets_concat [OF l] l by auto
  with Ymodem_Transmit_ok [OF assms, of fuel s] packets_sized [OF l] show ?thesis
    by (simp add: list_all_iff)
qed

lemma Ymodem_Transmit_session_witness:
  "\<exists>s'. Ymodem_Transmit 1 (\<lambda>n. Some ACK) (replicate 1029 0) (replicate 256 0) (replicate 10 0) (replicate 200 7)
      demo_send_name 200 demo_serial = Inr (0, s') \<and>
    sent s' = session wire_crc (demo_name @ 0 # map ascii [2, 0, 0] @ replicate 121 0)
      [replicate 128 7, replicate 72 7 @ replicate 56 0x1A] @ [EOT]"
proof -
  have p: "packets (replicate 200 7) 0 (unat (200 :: u32)) = [replicate 128 7, replicate 72 7 @ replicate 56 0x1A]"
    by (simp add: packets.simps padded_def min_def)
  have h: "own_header demo_name 200 = demo_name @ 0 # map ascii [2, 0, 0] @ replicate 121 0"
    by (simp add: own_header_def demo_digits demo_name_def)
  show ?thesis
    using Ymodem_Transmit_session [OF demo_send_ok, of 0 demo_serial] unfolding p h by (auto simp: demo_serial_def)
qed

text \<open>
  Sender and receiver of this file do not fit together: whatever \<open>Ymodem_Transmit\<close> has sent, in a complete
  transmission, makes \<open>Ymodem_Receive\<close> write behind the array \<open>file_size\<close> on the first packet, because the
  header it builds has no blank behind the size.
\<close>

theorem Ymodem_own_header_overflows:
  assumes "send_ok pd FileName fp buf sendFileName name sz" and "name \<noteq> []"
    and "Ymodem_Transmit (Suc n) (\<lambda>n. Some ACK) pd FileName fp buf sendFileName sz s0 = Inr (r, s1)"
    and "sent s1 = sent s0 @ bs" and "feeds poll (polls s) bs"
    and "length pd' = 1029" and "length fs = 16" and "length (file_name s) = 256"
  shows "Ymodem_Receive (Suc fuel) ffuel poll D pd' fs s = Inl Out_Of_Bounds"
proof (rule own_header_faults)
  have "bs = session wire_crc (own_header name sz) (packets buf 0 (unat sz)) @ [EOT]"
    using Ymodem_Transmit_ok [OF assms(1), of n s0] assms(3,4) by auto
  with assms(5) show "feeds poll (polls s) (frame wire_crc 0 (own_header name sz))" by (simp add: session_def)
qed (use assms in \<open>simp_all add: send_ok_def\<close>)

lemma Ymodem_own_header_overflows_witness:
  "\<exists>s1. Ymodem_Transmit 1 (\<lambda>n. Some ACK) (replicate 1029 0) (replicate 256 0) (replicate 10 0) (replicate 200 7)
      demo_send_name 200 demo_serial = Inr (0, s1) \<and>
    Ymodem_Receive 1 4 (script (sent s1)) (wired (nor_chip demo_par)) (replicate 1029 0) (replicate 16 0) demo_ym =
      Inl Out_Of_Bounds"
proof -
  obtain s1 where t: "Ymodem_Transmit (Suc 0) (\<lambda>n. Some ACK) (replicate 1029 0) (replicate 256 0) (replicate 10 0)
      (replicate 200 7) demo_send_name 200 demo_serial = Inr (0, s1)"
    using Ymodem_Transmit_ok [OF demo_send_ok, of 0 demo_serial] by blast
  have f: "feeds (script (sent s1)) (polls demo_ym) (sent s1)" using script_feeds by (simp add: demo_ym_def)
  have "Ymodem_Receive (Suc 0) 4 (script (sent s1)) (wired (nor_chip demo_par)) (replicate 1029 0) (replicate 16 0) demo_ym =
      Inl Out_Of_Bounds"
    by (rule Ymodem_own_header_overflows [OF demo_send_ok _ t _ f])
       (simp_all add: demo_serial_def demo_name_def demo_ym_def)
  with t show ?thesis by auto
qed

end
