(* ===== verification/OsReady.thy ===== *)
theory OsReady
  imports ACU_Prelude
begin

text \<open>
  Sets of priorities in uC/OS-II (UCOSII/CORE/os_core.c): the ready list and the wait lists of events are bit tables with a
  group byte, from which \<open>OSUnMapTbl\<close> reads the highest priority, the smallest number. The locale \<open>prio_list\<close> states what the
  kernel relies on; the tables are an interpretation of it.
\<close>

section \<open>The tables\<close>

definition OSUnMapTbl :: "nat list" where
  "OSUnMapTbl = [
    0, 0, 1, 0, 2, 0, 1, 0, 3, 0, 1, 0, 2, 0, 1, 0,
    4, 0, 1, 0, 2, 0, 1, 0, 3, 0, 1, 0, 2, 0, 1, 0,
    5, 0, 1, 0, 2, 0, 1, 0, 3, 0, 1, 0, 2, 0, 1, 0,
    4, 0, 1, 0, 2, 0, 1, 0, 3, 0, 1, 0, 2, 0, 1, 0,
    6, 0, 1, 0, 2, 0, 1, 0, 3, 0, 1, 0, 2, 0, 1, 0,
    4, 0, 1, 0, 2, 0, 1, 0, 3, 0, 1, 0, 2, 0, 1, 0,
    5, 0, 1, 0, 2, 0, 1, 0, 3, 0, 1, 0, 2, 0, 1, 0,
    4, 0, 1, 0, 2, 0, 1, 0, 3, 0, 1, 0, 2, 0, 1, 0,
    7, 0, 1, 0, 2, 0, 1, 0, 3, 0, 1, 0, 2, 0, 1, 0,
    4, 0, 1, 0, 2, 0, 1, 0, 3, 0, 1, 0, 2, 0, 1, 0,
    5, 0, 1, 0, 2, 0, 1, 0, 3, 0, 1, 0, 2, 0, 1, 0,
    4, 0, 1, 0, 2, 0, 1, 0, 3, 0, 1, 0, 2, 0, 1, 0,
    6, 0, 1, 0, 2, 0, 1, 0, 3, 0, 1, 0, 2, 0, 1, 0,
    4, 0, 1, 0, 2, 0, 1, 0, 3, 0, 1, 0, 2, 0, 1, 0,
    5, 0, 1, 0, 2, 0, 1, 0, 3, 0, 1, 0, 2, 0, 1, 0,
    4, 0, 1, 0, 2, 0, 1, 0, 3, 0, 1, 0, 2, 0, 1, 0]"

text \<open>\<open>OSRdyGrp\<close> and \<open>OSRdyTbl\<close>, or \<open>OSEventGrp\<close> and \<open>OSEventTbl\<close>; \<open>OS_LOWEST_PRIO\<close> is 63.\<close>

record prio_tbl =
  Grp :: u8
  Tbl :: "u8 list"

definition no_prios :: prio_tbl where
  "no_prios = \<lparr>Grp = 0, Tbl = replicate 8 0\<rparr>"

text \<open>The bits \<open>OSTCBBitY\<close> and \<open>OSTCBBitX\<close> of a priority, in row \<open>OSTCBY\<close>.\<close>

definition mark :: "nat \<Rightarrow> prio_tbl \<Rightarrow> prio_tbl" where
  "mark p b = b\<lparr>Grp := Grp b OR push_bit (p div 8) 1,
     Tbl := (Tbl b)[p div 8 := Tbl b ! (p div 8) OR push_bit (p mod 8) 1]\<rparr>"

definition unmark :: "nat \<Rightarrow> prio_tbl \<Rightarrow> prio_tbl" where
  "unmark p b =
     (let y = p div 8; t = (Tbl b)[y := Tbl b ! y AND NOT (push_bit (p mod 8) 1)]
      in \<lparr>Grp = (if t ! y = 0 then Grp b AND NOT (push_bit y 1) else Grp b), Tbl = t\<rparr>)"

definition highest :: "prio_tbl \<Rightarrow> nat" where
  "highest b = (let y = OSUnMapTbl ! unat (Grp b) in 8 * y + OSUnMapTbl ! unat (Tbl b ! y))"

section \<open>What the kernel relies on\<close>

locale prio_list =
  fixes none :: 'b and add del :: "nat \<Rightarrow> 'b \<Rightarrow> 'b" and top :: "'b \<Rightarrow> nat" and empty :: "'b \<Rightarrow> bool"
    and ok :: "'b \<Rightarrow> bool" and prios :: "'b \<Rightarrow> nat set"
  assumes none: "ok none" "prios none = {}"
    and add: "ok b \<Longrightarrow> p < 64 \<Longrightarrow> ok (add p b)" "ok b \<Longrightarrow> p < 64 \<Longrightarrow> prios (add p b) = insert p (prios b)"
    and del: "ok b \<Longrightarrow> p < 64 \<Longrightarrow> ok (del p b)" "ok b \<Longrightarrow> p < 64 \<Longrightarrow> prios (del p b) = prios b - {p}"
    and empty: "ok b \<Longrightarrow> empty b \<longleftrightarrow> prios b = {}"
    and top: "ok b \<Longrightarrow> prios b \<noteq> {} \<Longrightarrow> top b \<in> prios b" "ok b \<Longrightarrow> p \<in> prios b \<Longrightarrow> top b \<le> p"
    and bound: "ok b \<Longrightarrow> p \<in> prios b \<Longrightarrow> p < 64"
begin

lemma finite_prios: "ok b \<Longrightarrow> finite (prios b)"
  by (rule finite_subset [of _ "{..<64}"]) (auto dest: bound)

lemma top_Min: "ok b \<Longrightarrow> prios b \<noteq> {} \<Longrightarrow> top b = Min (prios b)"
  using Min_eqI [OF finite_prios top(2) top(1)] by simp

lemma top_less: "ok b \<Longrightarrow> prios b \<noteq> {} \<Longrightarrow> top b < 64"
  using top(1) bound by blast

text \<open>Taking the highest priority out leaves fewer.\<close>

lemma card_del_top: "ok b \<Longrightarrow> prios b \<noteq> {} \<Longrightarrow> card (prios (del (top b) b)) < card (prios b)"
  by (simp add: del(2) [OF _ top_less] card_Diff1_less [OF finite_prios top(1)])

lemma add_absorb: "ok b \<Longrightarrow> p \<in> prios b \<Longrightarrow> prios (add p b) = prios b"
  using add(2) [of b p] bound by auto

end

section \<open>The tables are such lists\<close>

definition prios_of :: "prio_tbl \<Rightarrow> nat set" where
  "prios_of b = {p. p < 64 \<and> bit (Tbl b ! (p div 8)) (p mod 8)}"

definition tbl_ok :: "prio_tbl \<Rightarrow> bool" where
  "tbl_ok b \<longleftrightarrow> length (Tbl b) = 8 \<and> (\<forall>y < 8. bit (Grp b) y \<longleftrightarrow> Tbl b ! y \<noteq> 0)"

text \<open>\<open>OSUnMapTbl\<close> gives the lowest bit that is set.\<close>

primrec lowest_bits :: "int \<Rightarrow> nat list \<Rightarrow> bool" where
  "lowest_bits n [] \<longleftrightarrow> True"
| "lowest_bits n (k # ks) \<longleftrightarrow> odd (n div 2 ^ k) \<and> n mod 2 ^ k = 0 \<and> k < 8 \<and> lowest_bits (n + 1) ks"

lemma lowest_bits_nth: "lowest_bits n ks \<Longrightarrow> i < length ks \<Longrightarrow>
  odd ((n + int i) div 2 ^ (ks ! i)) \<and> (n + int i) mod 2 ^ (ks ! i) = 0 \<and> ks ! i < 8"
proof (induction ks arbitrary: n i)
  case (Cons k ks)
  then show ?case using Cons.IH [of "n + 1" "i - 1"] by (cases i) (auto simp: add.assoc)
qed simp

lemma OSUnMapTbl_values: "lowest_bits 1 (tl OSUnMapTbl)"
  by (simp add: OSUnMapTbl_def)

lemma OSUnMapTbl_nat: "0 < n \<Longrightarrow> n < 256 \<Longrightarrow> odd (n div 2 ^ (OSUnMapTbl ! n)) \<and> n mod 2 ^ (OSUnMapTbl ! n) = 0 \<and> OSUnMapTbl ! n < 8"
proof -
  assume n: "0 < n" "n < 256"
  have l: "length (tl OSUnMapTbl) = 255" by (simp add: OSUnMapTbl_def)
  have i: "1 + int (n - 1) = int n" "tl OSUnMapTbl ! (n - 1) = OSUnMapTbl ! n" using n l by (simp_all add: nth_tl)
  have "odd (int n div 2 ^ (OSUnMapTbl ! n)) \<and> int n mod 2 ^ (OSUnMapTbl ! n) = 0 \<and> OSUnMapTbl ! n < 8"
    using lowest_bits_nth [OF OSUnMapTbl_values, of "n - 1"] n l unfolding i by simp
  moreover have "int n div 2 ^ k = int (n div 2 ^ k)" "int n mod 2 ^ k = int (n mod 2 ^ k)" for k
    by (simp_all add: zdiv_int zmod_int)
  ultimately show ?thesis by simp
qed

lemma OSUnMapTbl_lowest:
  fixes x :: u8
  assumes "x \<noteq> 0"
  shows "bit x (OSUnMapTbl ! unat x)" and "OSUnMapTbl ! unat x < 8" and "bit x i \<Longrightarrow> OSUnMapTbl ! unat x \<le> i"
proof -
  let ?k = "OSUnMapTbl ! unat x"
  have n: "odd (unat x div 2 ^ ?k)" "unat x mod 2 ^ ?k = 0" "?k < 8"
    using OSUnMapTbl_nat [of "unat x"] assms by (simp_all add: unat_gt_0)
  have b: "bit x i \<longleftrightarrow> odd (unat x div 2 ^ i)" for i by (simp add: bit_unsigned_iff flip: bit_iff_odd)
  show "bit x ?k" "?k < 8" using n b by simp_all
  show "?k \<le> i" if "bit x i"
  proof (rule ccontr)
    assume "\<not> ?k \<le> i"
    then have "(2 :: nat) * 2 ^ i dvd 2 ^ ?k" by (simp add: le_imp_power_dvd flip: power_Suc)
    also have "\<dots> dvd unat x" using n(2) by (simp add: dvd_eq_mod_eq_0)
    finally obtain c where "unat x = 2 * 2 ^ i * c" by (rule dvdE)
    then have "even (unat x div 2 ^ i)" by simp
    with that b show False by simp
  qed
qed

text \<open>Rows and bits of a table, by priority.\<close>

lemma in_prios_of: "p < 64 \<Longrightarrow> p \<in> prios_of b \<longleftrightarrow> bit (Tbl b ! (p div 8)) (p mod 8)"
  by (simp add: prios_of_def)

lemma prios_less: "p \<in> prios_of b \<Longrightarrow> p < 64"
  by (simp add: prios_of_def)

lemma bit_row: "bit (2 ^ x :: u8) i \<longleftrightarrow> i = x \<and> x < 8"
  by (auto simp: bit_exp_iff possible_bit_def)

lemma or_bit_nonzero: "x < 8 \<Longrightarrow> (w :: u8) OR 2 ^ x \<noteq> 0"
proof
  assume "x < 8" "w OR 2 ^ x = 0"
  then have "bit (w OR 2 ^ x) x = bit (0 :: u8) x" by simp
  then show False using \<open>x < 8\<close> by (simp add: bit_or_iff bit_row)
qed

lemma tbl_ok_mark:
  assumes "tbl_ok b" and "p < 64"
  shows "tbl_ok (mark p b)" and "prios_of (mark p b) = insert p (prios_of b)"
proof -
  have y: "p div 8 < 8" "p mod 8 < 8" "length (Tbl b) = 8" using assms by (simp_all add: tbl_ok_def)
  show "tbl_ok (mark p b)"
    using assms y or_bit_nonzero [OF y(2)]
    by (auto simp: tbl_ok_def mark_def nth_list_update bit_or_iff bit_row)
  have "q \<in> prios_of (mark p b) \<longleftrightarrow> q = p \<or> q \<in> prios_of b" for q
  proof (cases "q < 64")
    case True
    have "q = p \<longleftrightarrow> q div 8 = p div 8 \<and> q mod 8 = p mod 8" by (metis div_mult_mod_eq)
    then show ?thesis
      using True y by (auto simp: in_prios_of mark_def nth_list_update bit_or_iff bit_row)
  next
    case False
    then show ?thesis using assms(2) by (auto simp: prios_of_def)
  qed
  then show "prios_of (mark p b) = insert p (prios_of b)" by auto
qed

lemma tbl_ok_unmark:
  assumes "tbl_ok b" and "p < 64"
  shows "tbl_ok (unmark p b)" and "prios_of (unmark p b) = prios_of b - {p}"
proof -
  have y: "p div 8 < 8" "p mod 8 < 8" "length (Tbl b) = 8" using assms by (simp_all add: tbl_ok_def)
  have row: "Tbl b ! (p div 8) AND NOT (push_bit (p mod 8) 1) \<noteq> 0 \<Longrightarrow> Tbl b ! (p div 8) \<noteq> 0" by auto
  show "tbl_ok (unmark p b)"
    using assms y row
    by (auto simp: tbl_ok_def unmark_def Let_def nth_list_update bit_and_iff bit_not_iff bit_row possible_bit_def)
  have "q \<in> prios_of (unmark p b) \<longleftrightarrow> q \<noteq> p \<and> q \<in> prios_of b" for q
  proof (cases "q < 64")
    case True
    have "q = p \<longleftrightarrow> q div 8 = p div 8 \<and> q mod 8 = p mod 8" by (metis div_mult_mod_eq)
    then show ?thesis
      using True y by (auto simp: in_prios_of unmark_def Let_def nth_list_update bit_and_iff bit_not_iff bit_row possible_bit_def)
  qed (simp add: prios_of_def)
  then show "prios_of (unmark p b) = prios_of b - {p}" by auto
qed

lemma prios_of_row: "tbl_ok b \<Longrightarrow> y < 8 \<Longrightarrow> bit (Tbl b ! y) x \<Longrightarrow> 8 * y + x \<in> prios_of b"
  using bit_imp_le_length [of "Tbl b ! y" x] by (simp add: prios_of_def)

lemma tbl_ok_empty: "tbl_ok b \<Longrightarrow> Grp b = 0 \<longleftrightarrow> prios_of b = {}"
proof
  assume b: "tbl_ok b" and g: "Grp b = 0"
  then have "\<forall>y < 8. Tbl b ! y = 0" by (simp add: tbl_ok_def)
  then show "prios_of b = {}" by (auto simp: prios_of_def)
next
  assume b: "tbl_ok b" and e: "prios_of b = {}"
  have "Tbl b ! y = 0" if "y < 8" for y
  proof (rule bit_word_eqI)
    show "bit (Tbl b ! y) n = bit 0 n" for n using prios_of_row [OF b that, of n] e by auto
  qed
  with b show "Grp b = 0" by (intro bit_word_eqI) (simp add: tbl_ok_def)
qed

lemma highest_prio:
  assumes b: "tbl_ok b" and ne: "prios_of b \<noteq> {}"
  shows "highest b \<in> prios_of b" and "p \<in> prios_of b \<Longrightarrow> highest b \<le> p"
proof -
  have "Grp b \<noteq> 0" using b ne by (simp add: tbl_ok_empty)
  note y = OSUnMapTbl_lowest [OF this]
  let ?y = "OSUnMapTbl ! unat (Grp b)"
  have "Tbl b ! ?y \<noteq> 0" using b y(1,2) by (simp add: tbl_ok_def)
  note x = OSUnMapTbl_lowest [OF this]
  show "highest b \<in> prios_of b" using prios_of_row [OF b y(2) x(1)] by (simp add: highest_def Let_def)
  show "highest b \<le> p" if p: "p \<in> prios_of b"
  proof -
    have q: "p div 8 < 8" "bit (Tbl b ! (p div 8)) (p mod 8)" using p by (auto simp: prios_of_def)
    then have "Tbl b ! (p div 8) \<noteq> 0" by auto
    then have "?y \<le> p div 8" using b q(1) y(3) by (simp add: tbl_ok_def)
    then consider "?y < p div 8" | "?y = p div 8" by linarith
    then show ?thesis
    proof cases
      case 1
      then have "8 * ?y + 8 \<le> 8 * (p div 8)" by simp
      also have "\<dots> \<le> p" by simp
      finally show ?thesis using x(2) by (simp add: highest_def Let_def)
    next
      case 2
      then have "OSUnMapTbl ! unat (Tbl b ! ?y) \<le> p mod 8" using x(3) q(2) by simp
      moreover have "8 * (p div 8) + p mod 8 = p" by simp
      ultimately show ?thesis using 2 unfolding highest_def Let_def by linarith
    qed
  qed
qed

interpretation pl: prio_list no_prios mark unmark highest "\<lambda>b. Grp b = 0" tbl_ok prios_of
proof
  show "tbl_ok no_prios" "prios_of no_prios = {}" by (auto simp: tbl_ok_def prios_of_def no_prios_def)
  show "highest b \<le> p" if "tbl_ok b" "p \<in> prios_of b" for b p using highest_prio(2) [of b p] that by auto
qed (simp_all add: tbl_ok_mark tbl_ok_unmark tbl_ok_empty highest_prio(1) prios_less)

text \<open>
  After any sequence of entries and removals of priorities the group byte is 0 exactly when no priority is left, and otherwise the
  lookup through \<open>OSUnMapTbl\<close> gives the highest priority (smallest number) of the set that the sequence describes.
\<close>

theorem priority_tables_are_sets:
  assumes "\<forall>op \<in> set ops. snd op < 64"
  shows "let b = fold (\<lambda>(on, p). if on then mark p else unmark p) ops no_prios;
             S = fold (\<lambda>(on, p). if on then insert p else (\<lambda>A. A - {p})) ops {}
         in (Grp b = 0 \<longleftrightarrow> S = {}) \<and> (S \<noteq> {} \<longrightarrow> highest b = Min S)"
proof -
  let ?f = "\<lambda>(on, p). if on then mark p else unmark p" and ?g = "\<lambda>(on, p). if on then insert p else (\<lambda>A. A - {p :: nat})"
  have "tbl_ok (fold ?f ops b) \<and> prios_of (fold ?f ops b) = fold ?g ops S" if "tbl_ok b" "prios_of b = S" for b S
    using assms that by (induction ops arbitrary: b S) (auto simp: pl.add pl.del)
  from this [OF pl.none] show ?thesis by (simp add: pl.empty pl.top_Min Let_def)
qed

lemma priority_tables_are_sets_witness:
  "highest (unmark 3 (mark 3 (mark 40 (mark 12 no_prios)))) = Min ((insert 3 (insert 40 (insert 12 {}))) - {3})"
  using priority_tables_are_sets [of "[(True, 12), (True, 40), (True, 3), (False, 3)]"] by (auto simp: Let_def)

end
