(* ===== verification/OsKernel.thy ===== *)
theory OsKernel
  imports OsReady
begin

text \<open>
  The kernel uC/OS-II as this firmware configures it (UCOSII/CORE, os_cfg.h): scheduling, time, semaphores and message
  queues. Every task has a priority of its own, so its control block is found under its priority, and a
  pointer to it is the priority; event and queue control blocks are numbered. The free lists are lists of such
  numbers. Kernel calls that block are two functions: the call up to the context switch, and what it does when its
  task runs again (\<open>.._resume\<close>); in between other tasks run. A context switch, which PendSV does as soon as interrupts are
  allowed, sets \<open>OSPrioCur\<close> at the place where it is asked for. \<open>OS_ARG_CHK_EN\<close> is 0. Counters of the statistics,
  names, hooks and event flags are not modelled; taking and giving mutexes, whose owners change their priority, is modelled in \<open>OsMutex\<close>.
\<close>

section \<open>State\<close>

record os_tcb =
  OSTCBStat :: u8
  OSTCBStatPend :: u8
  OSTCBDly :: u32
  OSTCBMsg :: u32
  OSTCBEventPtr :: "nat option"

record os_event =
  OSEventType :: u8
  OSEventCnt :: u16
  OSEventPtr :: nat             \<comment> \<open>the queue control block\<close>
  wait_list :: prio_tbl         \<comment> \<open>\<open>OSEventGrp\<close> and \<open>OSEventTbl\<close>\<close>

text \<open>A queue with the elements of the array it has been given; \<open>OSQIn\<close> and \<open>OSQOut\<close> are indices into it, \<open>OSQStart\<close> is 0 and \<open>OSQEnd\<close> is \<open>OSQSize\<close>.\<close>

record os_q =
  storage :: "u32 list"
  OSQIn :: nat
  OSQOut :: nat
  OSQSize :: u16
  OSQEntries :: u16

record os =
  OSTime :: u32
  OSRunning :: bool
  OSIntNesting :: u8
  OSLockNesting :: u8
  OSTickStepState :: u8
  OSPrioCur :: nat
  OSPrioHighRdy :: nat
  rdy_list :: prio_tbl          \<comment> \<open>\<open>OSRdyGrp\<close> and \<open>OSRdyTbl\<close>\<close>
  OSTCBPrioTbl :: "nat \<Rightarrow> os_tcb option"
  OSTCBReserved :: "nat set"    \<comment> \<open>the entries of \<open>OSTCBPrioTbl\<close> that are \<open>OS_TCB_RESERVED\<close>\<close>
  OSTCBList :: "nat list"
  OSTCBFree :: nat              \<comment> \<open>the length of \<open>OSTCBFreeList\<close>\<close>
  OSEventTbl :: "nat \<Rightarrow> os_event option"
  OSEventFreeList :: "nat list"
  OSQTbl :: "nat \<Rightarrow> os_q option"
  OSQFreeList :: "nat list"

definition OS_STAT_SEM :: u8 where "OS_STAT_SEM = 0x01"
definition OS_STAT_Q :: u8 where "OS_STAT_Q = 0x04"
definition OS_STAT_SUSPEND :: u8 where "OS_STAT_SUSPEND = 0x08"
definition OS_STAT_PEND_ANY :: u8 where "OS_STAT_PEND_ANY = 0x01 OR 0x02 OR 0x04 OR 0x10 OR 0x20"

abbreviation (input) "OS_STAT_PEND_OK \<equiv> 0 :: u8"
abbreviation (input) "OS_STAT_PEND_TO \<equiv> 1 :: u8"
abbreviation (input) "OS_STAT_PEND_ABORT \<equiv> 2 :: u8"
abbreviation (input) "OS_EVENT_TYPE_UNUSED \<equiv> 0 :: u8"
abbreviation (input) "OS_EVENT_TYPE_Q \<equiv> 2 :: u8"
abbreviation (input) "OS_EVENT_TYPE_SEM \<equiv> 3 :: u8"
abbreviation (input) "OS_ERR_NONE \<equiv> 0 :: u8"
abbreviation (input) "OS_EVENT_TYPE_MUTEX \<equiv> 4 :: u8"
abbreviation (input) "OS_ERR_PEVENT_NULL \<equiv> 4 :: u8"
abbreviation (input) "OS_ERR_CREATE_ISR \<equiv> 16 :: u8"
abbreviation (input) "OS_ERR_EVENT_TYPE \<equiv> 1 :: u8"
abbreviation (input) "OS_ERR_PEND_ISR \<equiv> 2 :: u8"
abbreviation (input) "OS_ERR_INVALID_OPT \<equiv> 7 :: u8"
abbreviation (input) "OS_ERR_TIMEOUT \<equiv> 10 :: u8"
abbreviation (input) "OS_ERR_PEND_LOCKED \<equiv> 13 :: u8"
abbreviation (input) "OS_ERR_PEND_ABORT \<equiv> 14 :: u8"
abbreviation (input) "OS_ERR_DEL_ISR \<equiv> 15 :: u8"
abbreviation (input) "OS_ERR_Q_FULL \<equiv> 30 :: u8"
abbreviation (input) "OS_ERR_Q_EMPTY \<equiv> 31 :: u8"
abbreviation (input) "OS_ERR_PRIO_EXIST \<equiv> 40 :: u8"
abbreviation (input) "OS_ERR_PRIO_INVALID \<equiv> 42 :: u8"
abbreviation (input) "OS_ERR_SCHED_LOCKED \<equiv> 50 :: u8"
abbreviation (input) "OS_ERR_SEM_OVF \<equiv> 51 :: u8"
abbreviation (input) "OS_ERR_TASK_CREATE_ISR \<equiv> 60 :: u8"
abbreviation (input) "OS_ERR_TASK_DEL \<equiv> 61 :: u8"
abbreviation (input) "OS_ERR_TASK_DEL_IDLE \<equiv> 62 :: u8"
abbreviation (input) "OS_ERR_TASK_DEL_ISR \<equiv> 64 :: u8"
abbreviation (input) "OS_ERR_TASK_NO_MORE_TCB \<equiv> 66 :: u8"
abbreviation (input) "OS_ERR_TASK_NOT_EXIST \<equiv> 67 :: u8"
abbreviation (input) "OS_ERR_TASK_NOT_SUSPENDED \<equiv> 68 :: u8"
abbreviation (input) "OS_ERR_TASK_RESUME_PRIO \<equiv> 70 :: u8"
abbreviation (input) "OS_ERR_TASK_SUSPEND_PRIO \<equiv> 72 :: u8"
abbreviation (input) "OS_ERR_TASK_WAITING \<equiv> 73 :: u8"
abbreviation (input) "OS_ERR_TIME_NOT_DLY \<equiv> 80 :: u8"
abbreviation (input) "OS_ERR_TIME_DLY_ISR \<equiv> 84 :: u8"
abbreviation (input) "OS_TASK_IDLE_PRIO \<equiv> 63 :: nat"
abbreviation (input) "OS_TICKS_PER_SEC \<equiv> 200 :: u32"

text \<open>Control blocks through pointers.\<close>

definition get_tcb :: "nat \<Rightarrow> os \<Rightarrow> fault + os_tcb" where
  "get_tcb p s = (case OSTCBPrioTbl s p of None \<Rightarrow> Inl Bad_Pointer | Some t \<Rightarrow> Inr t)"

definition put_tcb :: "nat \<Rightarrow> os_tcb \<Rightarrow> os \<Rightarrow> os" where
  "put_tcb p t s = s\<lparr>OSTCBPrioTbl := (OSTCBPrioTbl s)(p \<mapsto> t)\<rparr>"

definition get_event :: "nat \<Rightarrow> os \<Rightarrow> fault + os_event" where
  "get_event ev s = (case OSEventTbl s ev of None \<Rightarrow> Inl Bad_Pointer | Some e \<Rightarrow> Inr e)"

definition put_event :: "nat \<Rightarrow> os_event \<Rightarrow> os \<Rightarrow> os" where
  "put_event ev e s = s\<lparr>OSEventTbl := (OSEventTbl s)(ev \<mapsto> e)\<rparr>"

definition get_q :: "nat \<Rightarrow> os \<Rightarrow> fault + os_q" where
  "get_q i s = (case OSQTbl s i of None \<Rightarrow> Inl Bad_Pointer | Some q \<Rightarrow> Inr q)"

definition put_q :: "nat \<Rightarrow> os_q \<Rightarrow> os \<Rightarrow> os" where
  "put_q i q s = s\<lparr>OSQTbl := (OSQTbl s)(i \<mapsto> q)\<rparr>"

section \<open>Scheduling\<close>

definition OS_SchedNew :: "os \<Rightarrow> os" where
  "OS_SchedNew s = s\<lparr>OSPrioHighRdy := highest (rdy_list s)\<rparr>"

text \<open>The scheduler proper, then the switch to the task it has chosen (\<open>PendSV_Handler\<close>).\<close>

definition reschedule :: "os \<Rightarrow> os" where
  "reschedule s =
     (let s1 = OS_SchedNew s
      in if OSPrioHighRdy s1 \<noteq> OSPrioCur s1 then s1\<lparr>OSPrioCur := OSPrioHighRdy s1\<rparr> else s1)"

definition OS_Sched :: "os \<Rightarrow> os" where
  "OS_Sched s = (if OSIntNesting s = 0 \<and> OSLockNesting s = 0 then reschedule s else s)"

definition OSIntEnter :: "os \<Rightarrow> os" where
  "OSIntEnter s = (if OSRunning s \<and> OSIntNesting s < 255 then s\<lparr>OSIntNesting := OSIntNesting s + 1\<rparr> else s)"

definition OSIntExit :: "os \<Rightarrow> os" where
  "OSIntExit s =
     (if OSRunning s then
        let s1 = (if 0 < OSIntNesting s then s\<lparr>OSIntNesting := OSIntNesting s - 1\<rparr> else s)
        in if OSIntNesting s1 = 0 \<and> OSLockNesting s1 = 0 then reschedule s1 else s1
      else s)"

definition OSSchedLock :: "os \<Rightarrow> os" where
  "OSSchedLock s =
     (if OSRunning s \<and> OSIntNesting s = 0 \<and> OSLockNesting s < 255
      then s\<lparr>OSLockNesting := OSLockNesting s + 1\<rparr> else s)"

definition OSSchedUnlock :: "os \<Rightarrow> os" where
  "OSSchedUnlock s =
     (if OSRunning s \<and> 0 < OSLockNesting s then
        let s1 = s\<lparr>OSLockNesting := OSLockNesting s - 1\<rparr>
        in if OSLockNesting s1 = 0 \<and> OSIntNesting s1 = 0 then OS_Sched s1 else s1
      else s)"

definition OSStart :: "os \<Rightarrow> os" where
  "OSStart s =
     (if \<not> OSRunning s
      then let s1 = OS_SchedNew s in s1\<lparr>OSPrioCur := OSPrioHighRdy s1, OSRunning := True\<rparr>
      else s)"

section \<open>Waiting for events\<close>

definition OS_EventTaskRemove :: "nat \<Rightarrow> nat \<Rightarrow> os \<Rightarrow> fault + os" where
  "OS_EventTaskRemove p ev s =
     ebind (get_event ev s) (\<lambda>e. Inr (put_event ev (e\<lparr>wait_list := unmark p (wait_list e)\<rparr>) s))"

definition OS_EventTaskWait :: "nat \<Rightarrow> os \<Rightarrow> fault + os" where
  "OS_EventTaskWait ev s =
     ebind (get_tcb (OSPrioCur s) s) (\<lambda>t.
     let s1 = put_tcb (OSPrioCur s) (t\<lparr>OSTCBEventPtr := Some ev\<rparr>) s in
     ebind (get_event ev s1) (\<lambda>e.
     let s2 = put_event ev (e\<lparr>wait_list := mark (OSPrioCur s) (wait_list e)\<rparr>) s1
     in Inr (s2\<lparr>rdy_list := unmark (OSPrioCur s) (rdy_list s2)\<rparr>)))"

text \<open>The highest priority task waiting gets the message and is made ready, unless it is suspended.\<close>

definition OS_EventTaskRdy :: "nat \<Rightarrow> u32 \<Rightarrow> u8 \<Rightarrow> u8 \<Rightarrow> os \<Rightarrow> fault + (nat \<times> os)" where
  "OS_EventTaskRdy ev pmsg msk pend_stat s =
     ebind (get_event ev s) (\<lambda>e.
     let prio = highest (wait_list e) in
     ebind (get_tcb prio s) (\<lambda>t.
     let t1 = t\<lparr>OSTCBDly := 0, OSTCBMsg := pmsg, OSTCBStat := OSTCBStat t AND NOT msk, OSTCBStatPend := pend_stat\<rparr>;
         s1 = put_tcb prio t1 s;
         s2 = (if OSTCBStat t1 AND OS_STAT_SUSPEND = 0 then s1\<lparr>rdy_list := mark prio (rdy_list s1)\<rparr> else s1)
     in ebind (OS_EventTaskRemove prio ev s2) (\<lambda>s3. Inr (prio, s3))))"

text \<open>All tasks waiting, in the order of their priorities; the number of them. A table has at most 64.\<close>

fun ready_all :: "nat \<Rightarrow> nat \<Rightarrow> u32 \<Rightarrow> u8 \<Rightarrow> u8 \<Rightarrow> os \<Rightarrow> fault + (nat \<times> os)" where
  "ready_all fuel ev pmsg msk pend_stat s =
     ebind (get_event ev s) (\<lambda>e.
     if Grp (wait_list e) = 0 then Inr (0, s)
     else case fuel of
       0 \<Rightarrow> Inl Still_Running
     | Suc n \<Rightarrow> ebind (OS_EventTaskRdy ev pmsg msk pend_stat s) (\<lambda>(_, s1).
         ebind (ready_all n ev pmsg msk pend_stat s1) (\<lambda>(k, s2). Inr (k + 1, s2))))"

declare ready_all.simps [simp del]

text \<open>The answer of a call that may block: it is complete, or the task has been suspended.\<close>

datatype 'a pend = Done 'a u8 | Blocked

text \<open>The part of \<open>OSQPend\<close> and \<open>OSSemPend\<close> that blocks the task, and what is common to their second halves.\<close>

definition block_on :: "nat \<Rightarrow> u8 \<Rightarrow> u32 \<Rightarrow> os \<Rightarrow> fault + os" where
  "block_on ev msk timeout s =
     ebind (get_tcb (OSPrioCur s) s) (\<lambda>t.
     ebind (OS_EventTaskWait ev (put_tcb (OSPrioCur s)
         (t\<lparr>OSTCBStat := OSTCBStat t OR msk, OSTCBStatPend := OS_STAT_PEND_OK, OSTCBDly := timeout\<rparr>) s)) (\<lambda>s1.
     Inr (OS_Sched s1)))"

definition pend_resume :: "nat \<Rightarrow> os \<Rightarrow> fault + (u32 \<times> u8 \<times> os)" where
  "pend_resume ev s =
     ebind (get_tcb (OSPrioCur s) s) (\<lambda>t.
     ebind (if OSTCBStatPend t = OS_STAT_PEND_OK then Inr (OSTCBMsg t, OS_ERR_NONE, s)
            else if OSTCBStatPend t = OS_STAT_PEND_ABORT then Inr (0, OS_ERR_PEND_ABORT, s)
            else ebind (OS_EventTaskRemove (OSPrioCur s) ev s) (\<lambda>s1. Inr (0, OS_ERR_TIMEOUT, s1))) (\<lambda>(pmsg, err, s1).
     ebind (get_tcb (OSPrioCur s) s1) (\<lambda>t1.
     Inr (pmsg, err, put_tcb (OSPrioCur s)
       (t1\<lparr>OSTCBStat := 0, OSTCBStatPend := OS_STAT_PEND_OK, OSTCBEventPtr := None\<rparr>) s1))))"

section \<open>Time\<close>

text \<open>One task in the loop of \<open>OSTimeTick\<close>.\<close>

definition tick_task :: "nat \<Rightarrow> os \<Rightarrow> fault + os" where
  "tick_task p s =
     ebind (get_tcb p s) (\<lambda>t.
     if OSTCBDly t = 0 then Inr s
     else
       let t1 = t\<lparr>OSTCBDly := OSTCBDly t - 1\<rparr>
       in if OSTCBDly t1 \<noteq> 0 then Inr (put_tcb p t1 s)
          else
            let t2 = (if OSTCBStat t1 AND OS_STAT_PEND_ANY \<noteq> 0
                      then t1\<lparr>OSTCBStat := OSTCBStat t1 AND NOT OS_STAT_PEND_ANY, OSTCBStatPend := OS_STAT_PEND_TO\<rparr>
                      else t1\<lparr>OSTCBStatPend := OS_STAT_PEND_OK\<rparr>);
                s1 = put_tcb p t2 s
            in Inr (if OSTCBStat t2 AND OS_STAT_SUSPEND = 0 then s1\<lparr>rdy_list := mark p (rdy_list s1)\<rparr> else s1))"

text \<open>The loop ends at the idle task; a list without it is run off the end.\<close>

fun tick_tasks :: "nat list \<Rightarrow> os \<Rightarrow> fault + os" where
  "tick_tasks [] s = Inl Bad_Pointer"
| "tick_tasks (p # ps) s =
     (if p = OS_TASK_IDLE_PRIO then Inr s else ebind (tick_task p s) (\<lambda>s1. tick_tasks ps s1))"

definition OSTimeTick :: "os \<Rightarrow> fault + os" where
  "OSTimeTick s =
     (let s1 = s\<lparr>OSTime := OSTime s + 1\<rparr>
      in if \<not> OSRunning s1 then Inr s1
         else
           let (step, st) = (if OSTickStepState s1 = 0 then (True, 0) else if OSTickStepState s1 = 1 then (False, 1)
                             else if OSTickStepState s1 = 2 then (True, 1) else (True, 0));
               s2 = s1\<lparr>OSTickStepState := st\<rparr>
           in if step then tick_tasks (OSTCBList s2) s2 else Inr s2)"

definition OSTimeGet :: "os \<Rightarrow> u32" where
  "OSTimeGet s = OSTime s"

definition OSTimeSet :: "u32 \<Rightarrow> os \<Rightarrow> os" where
  "OSTimeSet ticks s = s\<lparr>OSTime := ticks\<rparr>"

definition OSTimeDly :: "u32 \<Rightarrow> os \<Rightarrow> fault + os" where
  "OSTimeDly ticks s =
     (if 0 < OSIntNesting s \<or> 0 < OSLockNesting s \<or> ticks = 0 then Inr s
      else ebind (get_tcb (OSPrioCur s) s) (\<lambda>t.
        let s1 = s\<lparr>rdy_list := unmark (OSPrioCur s) (rdy_list s)\<rparr>
        in Inr (OS_Sched (put_tcb (OSPrioCur s) (t\<lparr>OSTCBDly := ticks\<rparr>) s1))))"

definition OSTimeDlyHMSM :: "u8 \<Rightarrow> u8 \<Rightarrow> u8 \<Rightarrow> u16 \<Rightarrow> os \<Rightarrow> fault + (u8 \<times> os)" where
  "OSTimeDlyHMSM hours minutes seconds ms s =
     (if 0 < OSIntNesting s then Inr (OS_ERR_TIME_DLY_ISR, s)
      else if 0 < OSLockNesting s then Inr (OS_ERR_SCHED_LOCKED, s)
      else
        let ticks = (ucast hours * 3600 + ucast minutes * 60 + ucast seconds) * OS_TICKS_PER_SEC
                  + OS_TICKS_PER_SEC * (ucast ms + 500 div OS_TICKS_PER_SEC) div 1000
        in ebind (OSTimeDly ticks s) (\<lambda>s1. Inr (OS_ERR_NONE, s1)))"

definition OSTimeDlyResume :: "nat \<Rightarrow> os \<Rightarrow> fault + (u8 \<times> os)" where
  "OSTimeDlyResume prio s =
     (if 63 \<le> prio then Inr (OS_ERR_PRIO_INVALID, s)
      else case OSTCBPrioTbl s prio of
        None \<Rightarrow> Inr (OS_ERR_TASK_NOT_EXIST, s)
      | Some t \<Rightarrow>
          if OSTCBDly t = 0 then Inr (OS_ERR_TIME_NOT_DLY, s)
          else
            let t1 = (if OSTCBStat t AND OS_STAT_PEND_ANY \<noteq> 0
                      then t\<lparr>OSTCBDly := 0, OSTCBStat := OSTCBStat t AND NOT OS_STAT_PEND_ANY, OSTCBStatPend := OS_STAT_PEND_TO\<rparr>
                      else t\<lparr>OSTCBDly := 0, OSTCBStatPend := OS_STAT_PEND_OK\<rparr>);
                s1 = put_tcb prio t1 s
            in Inr (OS_ERR_NONE,
                 if OSTCBStat t1 AND OS_STAT_SUSPEND = 0 then OS_Sched (s1\<lparr>rdy_list := mark prio (rdy_list s1)\<rparr>) else s1))"

section \<open>Tasks\<close>

text \<open>Suspending and resuming; a priority above 63 reads outside \<open>OSTCBPrioTbl\<close>.\<close>

definition OSTaskSuspend :: "nat \<Rightarrow> os \<Rightarrow> fault + (u8 \<times> os)" where
  "OSTaskSuspend prio s =
     (let p = (if prio = 255 then OSPrioCur s else prio); self = (p = OSPrioCur s)
      in if 63 < p then Inl Out_Of_Bounds
         else case OSTCBPrioTbl s p of
           None \<Rightarrow> Inr (if p \<in> OSTCBReserved s then OS_ERR_TASK_NOT_EXIST else OS_ERR_TASK_SUSPEND_PRIO, s)
         | Some t \<Rightarrow>
             let s1 = put_tcb p (t\<lparr>OSTCBStat := OSTCBStat t OR OS_STAT_SUSPEND\<rparr>) (s\<lparr>rdy_list := unmark p (rdy_list s)\<rparr>)
             in Inr (OS_ERR_NONE, if self then OS_Sched s1 else s1))"

definition OSTaskResume :: "nat \<Rightarrow> os \<Rightarrow> fault + (u8 \<times> os)" where
  "OSTaskResume prio s =
     (if 63 < prio then Inl Out_Of_Bounds
      else case OSTCBPrioTbl s prio of
        None \<Rightarrow> Inr (if prio \<in> OSTCBReserved s then OS_ERR_TASK_NOT_EXIST else OS_ERR_TASK_RESUME_PRIO, s)
      | Some t \<Rightarrow>
          if OSTCBStat t AND OS_STAT_SUSPEND \<noteq> 0 then
            let t1 = t\<lparr>OSTCBStat := OSTCBStat t AND NOT OS_STAT_SUSPEND\<rparr>; s1 = put_tcb prio t1 s
            in if OSTCBStat t1 = 0 \<and> OSTCBDly t1 = 0 then
                 let s2 = s1\<lparr>rdy_list := mark prio (rdy_list s1)\<rparr>
                 in Inr (OS_ERR_NONE, if OSRunning s2 then OS_Sched s2 else s2)
               else Inr (OS_ERR_NONE, s1)
          else Inr (OS_ERR_TASK_NOT_SUSPENDED, s))"

definition OS_TCBInit :: "nat \<Rightarrow> os \<Rightarrow> u8 \<times> os" where
  "OS_TCBInit prio s =
     (if OSTCBFree s = 0 then (OS_ERR_TASK_NO_MORE_TCB, s)
      else
        let t = \<lparr>OSTCBStat = 0, OSTCBStatPend = OS_STAT_PEND_OK, OSTCBDly = 0, OSTCBMsg = 0, OSTCBEventPtr = None\<rparr>;
            s1 = put_tcb prio t (s\<lparr>OSTCBFree := OSTCBFree s - 1\<rparr>)
        in (OS_ERR_NONE, s1\<lparr>OSTCBList := prio # OSTCBList s1, rdy_list := mark prio (rdy_list s1)\<rparr>))"

definition OSTaskCreate :: "nat \<Rightarrow> os \<Rightarrow> fault + (u8 \<times> os)" where
  "OSTaskCreate prio s =
     (if 0 < OSIntNesting s then Inr (OS_ERR_TASK_CREATE_ISR, s)
      else if 63 < prio then Inl Out_Of_Bounds
      else case OSTCBPrioTbl s prio of
        Some _ \<Rightarrow> Inr (OS_ERR_PRIO_EXIST, s)
      | None \<Rightarrow>
          if prio \<in> OSTCBReserved s then Inr (OS_ERR_PRIO_EXIST, s)
          else
            let (err, s1) = OS_TCBInit prio s
            in Inr (err, if err = OS_ERR_NONE \<and> OSRunning s1 then OS_Sched s1 else s1))"

text \<open>The scheduler is locked only around \<open>OS_Dummy\<close>. A task that deletes itself does not come back from the call.\<close>

definition OSTaskDel :: "nat \<Rightarrow> os \<Rightarrow> fault + (u8 \<times> os)" where
  "OSTaskDel prio s =
     (if 0 < OSIntNesting s then Inr (OS_ERR_TASK_DEL_ISR, s)
      else if prio = OS_TASK_IDLE_PRIO then Inr (OS_ERR_TASK_DEL_IDLE, s)
      else
        let p = (if prio = 255 then OSPrioCur s else prio)
        in if 63 < p then Inl Out_Of_Bounds
           else case OSTCBPrioTbl s p of
             None \<Rightarrow> Inr (if p \<in> OSTCBReserved s then OS_ERR_TASK_DEL else OS_ERR_TASK_NOT_EXIST, s)
           | Some t \<Rightarrow>
               let s1 = s\<lparr>rdy_list := unmark p (rdy_list s)\<rparr>
               in ebind (case OSTCBEventPtr t of None \<Rightarrow> Inr s1 | Some ev \<Rightarrow> OS_EventTaskRemove p ev s1) (\<lambda>s2.
                  let s3 = s2\<lparr>OSTCBPrioTbl := (OSTCBPrioTbl s2)(p := None), OSTCBList := remove1 p (OSTCBList s2),
                              OSTCBFree := OSTCBFree s2 + 1,
                              OSLockNesting := (if OSLockNesting s2 = 255 then 254 else OSLockNesting s2)\<rparr>
                  in Inr (OS_ERR_NONE, if OSRunning s3 then OS_Sched s3 else s3)))"

section \<open>Semaphores\<close>

text \<open>The pointer \<open>OSEventPtr\<close> of a semaphore is not used.\<close>

definition OSSemCreate :: "u16 \<Rightarrow> os \<Rightarrow> fault + (nat option \<times> os)" where
  "OSSemCreate cnt s =
     (if 0 < OSIntNesting s then Inr (None, s)
      else case OSEventFreeList s of
        [] \<Rightarrow> Inr (None, s)
      | ev # evs \<Rightarrow>
          let s1 = s\<lparr>OSEventFreeList := evs\<rparr>
          in ebind (get_event ev s1) (\<lambda>e.
             Inr (Some ev, put_event ev (e\<lparr>OSEventType := OS_EVENT_TYPE_SEM, OSEventCnt := cnt, wait_list := no_prios\<rparr>) s1)))"

definition OSSemAccept :: "nat \<Rightarrow> os \<Rightarrow> fault + (u16 \<times> os)" where
  "OSSemAccept ev s =
     ebind (get_event ev s) (\<lambda>e.
     if OSEventType e \<noteq> OS_EVENT_TYPE_SEM then Inr (0, s)
     else let cnt = OSEventCnt e
          in Inr (cnt, if 0 < cnt then put_event ev (e\<lparr>OSEventCnt := cnt - 1\<rparr>) s else s))"

definition OSSemPend :: "nat \<Rightarrow> u32 \<Rightarrow> os \<Rightarrow> fault + (unit pend \<times> os)" where
  "OSSemPend ev timeout s =
     ebind (get_event ev s) (\<lambda>e.
     if OSEventType e \<noteq> OS_EVENT_TYPE_SEM then Inr (Done () OS_ERR_EVENT_TYPE, s)
     else if 0 < OSIntNesting s then Inr (Done () OS_ERR_PEND_ISR, s)
     else if 0 < OSLockNesting s then Inr (Done () OS_ERR_PEND_LOCKED, s)
     else if 0 < OSEventCnt e then Inr (Done () OS_ERR_NONE, put_event ev (e\<lparr>OSEventCnt := OSEventCnt e - 1\<rparr>) s)
     else ebind (block_on ev OS_STAT_SEM timeout s) (\<lambda>s1. Inr (Blocked, s1)))"

definition OSSemPend_resume :: "nat \<Rightarrow> os \<Rightarrow> fault + (u8 \<times> os)" where
  "OSSemPend_resume ev s = ebind (pend_resume ev s) (\<lambda>(_, err, s1). Inr (err, s1))"

definition OSSemPost :: "nat \<Rightarrow> os \<Rightarrow> fault + (u8 \<times> os)" where
  "OSSemPost ev s =
     ebind (get_event ev s) (\<lambda>e.
     if OSEventType e \<noteq> OS_EVENT_TYPE_SEM then Inr (OS_ERR_EVENT_TYPE, s)
     else if Grp (wait_list e) \<noteq> 0 then
       ebind (OS_EventTaskRdy ev 0 OS_STAT_SEM OS_STAT_PEND_OK s) (\<lambda>(_, s1). Inr (OS_ERR_NONE, OS_Sched s1))
     else if OSEventCnt e < 65535 then Inr (OS_ERR_NONE, put_event ev (e\<lparr>OSEventCnt := OSEventCnt e + 1\<rparr>) s)
     else Inr (OS_ERR_SEM_OVF, s))"

definition OSSemSet :: "nat \<Rightarrow> u16 \<Rightarrow> os \<Rightarrow> fault + (u8 \<times> os)" where
  "OSSemSet ev cnt s =
     ebind (get_event ev s) (\<lambda>e.
     if OSEventType e \<noteq> OS_EVENT_TYPE_SEM then Inr (OS_ERR_EVENT_TYPE, s)
     else if 0 < OSEventCnt e \<or> Grp (wait_list e) = 0 then Inr (OS_ERR_NONE, put_event ev (e\<lparr>OSEventCnt := cnt\<rparr>) s)
     else Inr (OS_ERR_TASK_WAITING, s))"

text \<open>Both kinds of events abort a wait in the same way.\<close>

definition pend_abort :: "u8 \<Rightarrow> u8 \<Rightarrow> nat \<Rightarrow> u8 \<Rightarrow> os \<Rightarrow> fault + (nat \<times> u8 \<times> os)" where
  "pend_abort type msk ev opt s =
     ebind (get_event ev s) (\<lambda>e.
     if OSEventType e \<noteq> type then Inr (0, OS_ERR_EVENT_TYPE, s)
     else if Grp (wait_list e) \<noteq> 0 then
       ebind (if opt = 1 then ready_all 64 ev 0 msk OS_STAT_PEND_ABORT s
              else ebind (OS_EventTaskRdy ev 0 msk OS_STAT_PEND_ABORT s) (\<lambda>(_, s1). Inr (1, s1))) (\<lambda>(nbr_tasks, s1).
       Inr (nbr_tasks, OS_ERR_PEND_ABORT, OS_Sched s1))
     else Inr (0, OS_ERR_NONE, s))"

definition OSSemPendAbort :: "nat \<Rightarrow> u8 \<Rightarrow> os \<Rightarrow> fault + (nat \<times> u8 \<times> os)" where
  "OSSemPendAbort = pend_abort OS_EVENT_TYPE_SEM OS_STAT_SEM"

text \<open>Deleting; \<open>free\<close> gives back what belongs to the kind of event. The result tells whether the event is gone.\<close>

definition event_del :: "u8 \<Rightarrow> u8 \<Rightarrow> (os_event \<Rightarrow> os \<Rightarrow> os) \<Rightarrow> nat \<Rightarrow> u8 \<Rightarrow> os \<Rightarrow> fault + (bool \<times> u8 \<times> os)" where
  "event_del type msk free ev opt s =
     ebind (get_event ev s) (\<lambda>e.
     if OSEventType e \<noteq> type then Inr (False, OS_ERR_EVENT_TYPE, s)
     else if 0 < OSIntNesting s then Inr (False, OS_ERR_DEL_ISR, s)
     else
       let tasks_waiting = (Grp (wait_list e) \<noteq> 0)
       in if opt = 0 \<and> tasks_waiting then Inr (False, OS_ERR_TASK_WAITING, s)
          else if 1 < opt then Inr (False, OS_ERR_INVALID_OPT, s)
          else ebind (ready_all 64 ev 0 msk OS_STAT_PEND_OK s) (\<lambda>(_, s1).
               ebind (get_event ev s1) (\<lambda>e1.
               let s2 = put_event ev (e1\<lparr>OSEventType := OS_EVENT_TYPE_UNUSED, OSEventCnt := 0\<rparr>) (free e1 s1);
                   s3 = s2\<lparr>OSEventFreeList := ev # OSEventFreeList s2\<rparr>
               in Inr (True, OS_ERR_NONE, if tasks_waiting then OS_Sched s3 else s3))))"

definition OSSemDel :: "nat \<Rightarrow> u8 \<Rightarrow> os \<Rightarrow> fault + (bool \<times> u8 \<times> os)" where
  "OSSemDel = event_del OS_EVENT_TYPE_SEM OS_STAT_SEM (\<lambda>_ s. s)"

definition OSSemQuery :: "nat \<Rightarrow> os \<Rightarrow> fault + (u8 \<times> (u16 \<times> prio_tbl) option)" where
  "OSSemQuery ev s =
     ebind (get_event ev s) (\<lambda>e.
     if OSEventType e \<noteq> OS_EVENT_TYPE_SEM then Inr (OS_ERR_EVENT_TYPE, None)
     else Inr (OS_ERR_NONE, Some (OSEventCnt e, wait_list e)))"

section \<open>Mutexes\<close>

text \<open>
  The high byte of the count is the priority a mutex raises its owner to, the low byte 0xFF says that there is no owner; the pointer \<open>OSEventPtr\<close> is null.
  Only the creation is modelled.
\<close>

definition OSMutexCreate :: "nat \<Rightarrow> os \<Rightarrow> fault + (nat option \<times> u8 \<times> os)" where
  "OSMutexCreate prio s =
     (if 0 < OSIntNesting s then Inr (None, OS_ERR_CREATE_ISR, s)
      else if 63 < prio then Inl Out_Of_Bounds
      else if OSTCBPrioTbl s prio \<noteq> None \<or> prio \<in> OSTCBReserved s then Inr (None, OS_ERR_PRIO_EXIST, s)
      else case OSEventFreeList s of
        [] \<Rightarrow> Inr (None, OS_ERR_PEVENT_NULL, s)
      | ev # evs \<Rightarrow>
          let s1 = s\<lparr>OSTCBReserved := insert prio (OSTCBReserved s), OSEventFreeList := evs\<rparr>
          in ebind (get_event ev s1) (\<lambda>e.
             Inr (Some ev, OS_ERR_NONE, put_event ev (e\<lparr>OSEventType := OS_EVENT_TYPE_MUTEX, OSEventCnt := push_bit 8 (of_nat prio) OR 0xFF,
               OSEventPtr := 0, wait_list := no_prios\<rparr>) s1)))"

section \<open>Queues\<close>

text \<open>The ring: a message is taken at \<open>OSQOut\<close>, stored at \<open>OSQIn\<close>, or stored in front of \<open>OSQOut\<close>.\<close>

definition q_take :: "os_q \<Rightarrow> fault + (u32 \<times> os_q)" where
  "q_take q =
     ebind (arr_get (storage q) (OSQOut q)) (\<lambda>pmsg.
     Inr (pmsg, q\<lparr>OSQOut := (if OSQOut q + 1 = unat (OSQSize q) then 0 else OSQOut q + 1), OSQEntries := OSQEntries q - 1\<rparr>))"

definition q_put :: "u32 \<Rightarrow> os_q \<Rightarrow> fault + os_q" where
  "q_put pmsg q =
     ebind (arr_set (storage q) (OSQIn q) pmsg) (\<lambda>m.
     Inr (q\<lparr>storage := m, OSQEntries := OSQEntries q + 1,
       OSQIn := (if OSQIn q + 1 = unat (OSQSize q) then 0 else OSQIn q + 1)\<rparr>))"

definition q_put_front :: "u32 \<Rightarrow> os_q \<Rightarrow> fault + os_q" where
  "q_put_front pmsg q =
     (let out = (if OSQOut q = 0 then unat (OSQSize q) else OSQOut q) - 1
      in ebind (arr_set (storage q) out pmsg) (\<lambda>m.
         Inr (q\<lparr>storage := m, OSQOut := out, OSQEntries := OSQEntries q + 1\<rparr>)))"

definition OSQCreate :: "u32 list \<Rightarrow> u16 \<Rightarrow> os \<Rightarrow> fault + (nat option \<times> os)" where
  "OSQCreate start sz s =
     (if 0 < OSIntNesting s then Inr (None, s)
      else case OSEventFreeList s of
        [] \<Rightarrow> Inr (None, s)
      | ev # evs \<Rightarrow>
          case OSQFreeList s of
            [] \<Rightarrow> Inr (None, s)
          | i # qs \<Rightarrow>
              let s1 = put_q i \<lparr>storage = take (unat sz) start, OSQIn = 0, OSQOut = 0, OSQSize = sz, OSQEntries = 0\<rparr>
                         (s\<lparr>OSEventFreeList := evs, OSQFreeList := qs\<rparr>)
              in ebind (get_event ev s1) (\<lambda>e.
                 Inr (Some ev, put_event ev (e\<lparr>OSEventType := OS_EVENT_TYPE_Q, OSEventCnt := 0, OSEventPtr := i,
                   wait_list := no_prios\<rparr>) s1)))"

definition OSQAccept :: "nat \<Rightarrow> os \<Rightarrow> fault + (u32 \<times> u8 \<times> os)" where
  "OSQAccept ev s =
     ebind (get_event ev s) (\<lambda>e.
     if OSEventType e \<noteq> OS_EVENT_TYPE_Q then Inr (0, OS_ERR_EVENT_TYPE, s)
     else ebind (get_q (OSEventPtr e) s) (\<lambda>q.
       if 0 < OSQEntries q
       then ebind (q_take q) (\<lambda>(pmsg, q1). Inr (pmsg, OS_ERR_NONE, put_q (OSEventPtr e) q1 s))
       else Inr (0, OS_ERR_Q_EMPTY, s)))"

definition OSQPend :: "nat \<Rightarrow> u32 \<Rightarrow> os \<Rightarrow> fault + (u32 pend \<times> os)" where
  "OSQPend ev timeout s =
     ebind (get_event ev s) (\<lambda>e.
     if OSEventType e \<noteq> OS_EVENT_TYPE_Q then Inr (Done 0 OS_ERR_EVENT_TYPE, s)
     else if 0 < OSIntNesting s then Inr (Done 0 OS_ERR_PEND_ISR, s)
     else if 0 < OSLockNesting s then Inr (Done 0 OS_ERR_PEND_LOCKED, s)
     else ebind (get_q (OSEventPtr e) s) (\<lambda>q.
       if 0 < OSQEntries q
       then ebind (q_take q) (\<lambda>(pmsg, q1). Inr (Done pmsg OS_ERR_NONE, put_q (OSEventPtr e) q1 s))
       else ebind (block_on ev OS_STAT_Q timeout s) (\<lambda>s1. Inr (Blocked, s1))))"

definition OSQPend_resume :: "nat \<Rightarrow> os \<Rightarrow> fault + (u32 \<times> u8 \<times> os)" where
  "OSQPend_resume ev s =
     ebind (pend_resume ev s) (\<lambda>(pmsg, err, s1).
     ebind (get_tcb (OSPrioCur s) s1) (\<lambda>t. Inr (pmsg, err, put_tcb (OSPrioCur s) (t\<lparr>OSTCBMsg := 0\<rparr>) s1)))"

text \<open>Posting; \<open>put\<close> stores the message in the ring when no task waits.\<close>

definition q_store :: "(u32 \<Rightarrow> os_q \<Rightarrow> fault + os_q) \<Rightarrow> os_event \<Rightarrow> u32 \<Rightarrow> os \<Rightarrow> fault + (u8 \<times> os)" where
  "q_store put e pmsg s =
     ebind (get_q (OSEventPtr e) s) (\<lambda>q.
     if OSQSize q \<le> OSQEntries q then Inr (OS_ERR_Q_FULL, s)
     else ebind (put pmsg q) (\<lambda>q1. Inr (OS_ERR_NONE, put_q (OSEventPtr e) q1 s)))"

definition OSQPost :: "nat \<Rightarrow> u32 \<Rightarrow> os \<Rightarrow> fault + (u8 \<times> os)" where
  "OSQPost ev pmsg s =
     ebind (get_event ev s) (\<lambda>e.
     if OSEventType e \<noteq> OS_EVENT_TYPE_Q then Inr (OS_ERR_EVENT_TYPE, s)
     else if Grp (wait_list e) \<noteq> 0 then
       ebind (OS_EventTaskRdy ev pmsg OS_STAT_Q OS_STAT_PEND_OK s) (\<lambda>(_, s1). Inr (OS_ERR_NONE, OS_Sched s1))
     else q_store q_put e pmsg s)"

definition OSQPostFront :: "nat \<Rightarrow> u32 \<Rightarrow> os \<Rightarrow> fault + (u8 \<times> os)" where
  "OSQPostFront ev pmsg s =
     ebind (get_event ev s) (\<lambda>e.
     if OSEventType e \<noteq> OS_EVENT_TYPE_Q then Inr (OS_ERR_EVENT_TYPE, s)
     else if Grp (wait_list e) \<noteq> 0 then
       ebind (OS_EventTaskRdy ev pmsg OS_STAT_Q OS_STAT_PEND_OK s) (\<lambda>(_, s1). Inr (OS_ERR_NONE, OS_Sched s1))
     else q_store q_put_front e pmsg s)"

definition OSQPostOpt :: "nat \<Rightarrow> u32 \<Rightarrow> u8 \<Rightarrow> os \<Rightarrow> fault + (u8 \<times> os)" where
  "OSQPostOpt ev pmsg opt s =
     ebind (get_event ev s) (\<lambda>e.
     if OSEventType e \<noteq> OS_EVENT_TYPE_Q then Inr (OS_ERR_EVENT_TYPE, s)
     else if Grp (wait_list e) \<noteq> 0 then
       ebind (if opt AND 0x01 \<noteq> 0 then ready_all 64 ev pmsg OS_STAT_Q OS_STAT_PEND_OK s
              else OS_EventTaskRdy ev pmsg OS_STAT_Q OS_STAT_PEND_OK s) (\<lambda>(_, s1).
       Inr (OS_ERR_NONE, if opt AND 0x04 = 0 then OS_Sched s1 else s1))
     else q_store (if opt AND 0x02 \<noteq> 0 then q_put_front else q_put) e pmsg s)"

definition OSQFlush :: "nat \<Rightarrow> os \<Rightarrow> fault + (u8 \<times> os)" where
  "OSQFlush ev s =
     ebind (get_event ev s) (\<lambda>e. ebind (get_q (OSEventPtr e) s) (\<lambda>q.
     Inr (OS_ERR_NONE, put_q (OSEventPtr e) (q\<lparr>OSQIn := 0, OSQOut := 0, OSQEntries := 0\<rparr>) s)))"

definition OSQPendAbort :: "nat \<Rightarrow> u8 \<Rightarrow> os \<Rightarrow> fault + (nat \<times> u8 \<times> os)" where
  "OSQPendAbort = pend_abort OS_EVENT_TYPE_Q OS_STAT_Q"

definition OSQDel :: "nat \<Rightarrow> u8 \<Rightarrow> os \<Rightarrow> fault + (bool \<times> u8 \<times> os)" where
  "OSQDel = event_del OS_EVENT_TYPE_Q OS_STAT_Q (\<lambda>e s. s\<lparr>OSQFreeList := OSEventPtr e # OSQFreeList s\<rparr>)"

text \<open>The answer of a query: the next message, the number of messages, the size, the tasks waiting.\<close>

definition OSQQuery :: "nat \<Rightarrow> os \<Rightarrow> fault + (u8 \<times> (u32 \<times> u16 \<times> u16 \<times> prio_tbl) option)" where
  "OSQQuery ev s =
     ebind (get_event ev s) (\<lambda>e.
     if OSEventType e \<noteq> OS_EVENT_TYPE_Q then Inr (OS_ERR_EVENT_TYPE, None)
     else ebind (get_q (OSEventPtr e) s) (\<lambda>q.
       ebind (if 0 < OSQEntries q then arr_get (storage q) (OSQOut q) else Inr 0) (\<lambda>msg.
       Inr (OS_ERR_NONE, Some (msg, OSQEntries q, OSQSize q, wait_list e)))))"

section \<open>Initialisation\<close>

text \<open>
  After \<open>OSInit\<close>: \<open>OS_InitMisc\<close>, \<open>OS_InitRdyList\<close>, \<open>OS_InitTCBList\<close>, \<open>OS_InitEventList\<close>, \<open>OS_QInit\<close>, then the idle and the
  statistics task, which \<open>OSTaskCreateExt\<close> enters like \<open>OSTaskCreate\<close>. There are 20 + 2 task, 15 event and 5 queue control blocks.
\<close>

definition OS_InitMisc :: "os \<Rightarrow> os" where
  "OS_InitMisc s = s\<lparr>OSTime := 0, OSIntNesting := 0, OSLockNesting := 0, OSRunning := False\<rparr>"

definition OS_InitRdyList :: "os \<Rightarrow> os" where
  "OS_InitRdyList s = s\<lparr>rdy_list := no_prios, OSPrioCur := 0, OSPrioHighRdy := 0\<rparr>"

definition OS_InitTCBList :: "os \<Rightarrow> os" where
  "OS_InitTCBList s = s\<lparr>OSTCBPrioTbl := (\<lambda>_. None), OSTCBReserved := {}, OSTCBList := [], OSTCBFree := 22\<rparr>"

definition OS_InitEventList :: "os \<Rightarrow> os" where
  "OS_InitEventList s = s\<lparr>
     OSEventTbl := (\<lambda>ev. if ev < 15 then Some \<lparr>OSEventType = OS_EVENT_TYPE_UNUSED, OSEventCnt = 0, OSEventPtr = 0, wait_list = no_prios\<rparr>
                         else None),
     OSEventFreeList := [0..<15]\<rparr>"

definition OS_QInit :: "os \<Rightarrow> os" where
  "OS_QInit s = s\<lparr>
     OSQTbl := (\<lambda>i. if i < 5 then Some \<lparr>storage = [], OSQIn = 0, OSQOut = 0, OSQSize = 0, OSQEntries = 0\<rparr> else None),
     OSQFreeList := [0..<5]\<rparr>"

definition OSInit :: "os \<Rightarrow> fault + os" where
  "OSInit s =
     ebind (OSTaskCreate 63 (OS_QInit (OS_InitEventList (OS_InitTCBList (OS_InitRdyList (OS_InitMisc s)))))) (\<lambda>(_, s1).
     ebind (OSTaskCreate 62 s1) (\<lambda>(_, s2). Inr s2))"

end
