(* ===== verification/OsQueue.thy ===== *)
theory OsQueue
  imports OsKernel Fifo
begin

text \<open>
  What the queues and the wait lists of the kernel stand for: the ring of a queue is a bounded list of messages (the contract
  \<open>bounded_fifo\<close>), and the state of the kernel is well formed when its tables agree with its control blocks.
  The lemmas give the effect of the operations on that view; \<open>OsRun\<close> puts them together.
\<close>

section \<open>The ring of a queue\<close>

definition q_ok :: "os_q \<Rightarrow> bool" where
  "q_ok q \<longleftrightarrow> 0 < OSQSize q \<and> length (storage q) = unat (OSQSize q) \<and> OSQOut q < unat (OSQSize q) \<and>
     OSQEntries q \<le> OSQSize q \<and> OSQIn q = (OSQOut q + unat (OSQEntries q)) mod unat (OSQSize q)"

definition q_msgs :: "os_q \<Rightarrow> u32 list" where
  "q_msgs q = ring_list (storage q) (OSQOut q) (unat (OSQEntries q))"

lemma length_q_msgs [simp]: "length (q_msgs q) = unat (OSQEntries q)"
  by (simp add: q_msgs_def)

lemma q_msgs_empty: "q_msgs q = [] \<longleftrightarrow> OSQEntries q = 0"
  using length_q_msgs [of q] by (metis length_0_conv unat_eq_zero)

lemma q_full: "OSQSize q \<le> OSQEntries q \<longleftrightarrow> unat (OSQSize q) \<le> length (q_msgs q)"
  by (simp add: word_le_nat_alt)

lemma next_mod: "i < n \<Longrightarrow> (if i + 1 = n then 0 else i + 1) = (i + 1) mod (n :: nat)"
  by auto

lemma q_put_ok:
  assumes "q_ok q" and "length (q_msgs q) < unat (OSQSize q)"
  shows "\<exists>q1. q_put m q = Inr q1 \<and> q_ok q1 \<and> q_msgs q1 = q_msgs q @ [m] \<and> OSQSize q1 = OSQSize q"
proof -
  let ?n = "unat (OSQEntries q)" and ?k = "unat (OSQSize q)"
  have n: "?n < ?k" using assms(2) by simp
  then have s: "unat (OSQEntries q + 1) = Suc ?n" by (intro unat_Suc_less [of _ "OSQSize q"]) (simp add: word_less_nat_alt)
  have l: "length (storage q) = ?k" and i: "OSQIn q = (OSQOut q + ?n) mod ?k" "OSQIn q < ?k"
    using assms(1) by (auto simp: q_ok_def word_less_nat_alt)
  let ?q1 = "q\<lparr>storage := (storage q)[OSQIn q := m], OSQEntries := OSQEntries q + 1, OSQIn := (OSQIn q + 1) mod ?k\<rparr>"
  have "q_put m q = Inr ?q1" using l i(2) next_mod [OF i(2)] by (simp add: q_put_def)
  moreover have "q_msgs ?q1 = q_msgs q @ [m]"
    using ring_list_put [of ?n "storage q" "OSQOut q" m] n l i(1) s by (simp add: q_msgs_def)
  moreover have "q_ok ?q1"
    using assms(1) s n i(1) by (simp add: q_ok_def word_le_nat_alt mod_Suc_eq)
  ultimately show ?thesis by (intro exI [of _ ?q1]) simp
qed

lemma q_take_ok:
  assumes "q_ok q" and "q_msgs q = m # ms"
  shows "\<exists>q1. q_take q = Inr (m, q1) \<and> q_ok q1 \<and> q_msgs q1 = ms \<and> OSQSize q1 = OSQSize q"
proof -
  let ?n = "unat (OSQEntries q)" and ?k = "unat (OSQSize q)"
  have n: "0 < ?n" using assms(2) length_q_msgs [of q] by simp
  then have s: "unat (OSQEntries q - 1) = ?n - 1" by (intro unat_minus_one) auto
  have l: "length (storage q) = ?k" and o: "OSQOut q < ?k" using assms(1) by (simp_all add: q_ok_def)
  let ?q1 = "q\<lparr>OSQOut := (OSQOut q + 1) mod ?k, OSQEntries := OSQEntries q - 1\<rparr>"
  have r: "q_msgs q = storage q ! OSQOut q # q_msgs ?q1"
    using ring_list_take [of ?n "OSQOut q" "storage q"] n l o s by (simp add: q_msgs_def)
  then have "q_take q = Inr (m, ?q1)" using l o next_mod [OF o] assms(2) by (simp add: q_take_def)
  moreover have "q_ok ?q1"
  proof -
    have "((OSQOut q + 1) mod ?k + (?n - 1)) mod ?k = (OSQOut q + 1 + (?n - 1)) mod ?k" by (rule mod_add_left_eq)
    also have "OSQOut q + 1 + (?n - 1) = OSQOut q + ?n" using n by simp
    finally have "((OSQOut q + 1) mod ?k + (?n - 1)) mod ?k = (OSQOut q + ?n) mod ?k" .
    moreover have "?n - 1 \<le> ?k" "0 < OSQSize q" using assms(1) by (auto simp: q_ok_def word_le_nat_alt)
    moreover have "(OSQOut q + 1) mod ?k < ?k" using o by simp
    ultimately show ?thesis using assms(1) s by (simp add: q_ok_def word_le_nat_alt)
  qed
  ultimately show ?thesis using r assms(2) by (intro exI [of _ ?q1]) simp
qed

interpretation kq: bounded_fifo q_ok q_msgs "\<lambda>q. unat (OSQSize q)" q_put q_take
  by unfold_locales (metis q_put_ok, metis q_take_ok)

text \<open>A message put in front is the next to be taken.\<close>

lemma q_put_front_ok:
  assumes "q_ok q" and "length (q_msgs q) < unat (OSQSize q)"
  shows "\<exists>q1. q_put_front m q = Inr q1 \<and> q_ok q1 \<and> q_msgs q1 = m # q_msgs q \<and> OSQSize q1 = OSQSize q"
proof -
  let ?n = "unat (OSQEntries q)" and ?k = "unat (OSQSize q)"
  have n: "?n < ?k" using assms(2) by simp
  then have s: "unat (OSQEntries q + 1) = Suc ?n" by (intro unat_Suc_less [of _ "OSQSize q"]) (simp add: word_less_nat_alt)
  have l: "length (storage q) = ?k" and o: "OSQOut q < ?k" and k: "0 < ?k" using assms(1) by (auto simp: q_ok_def word_less_nat_alt)
  define r where "r = (if OSQOut q = 0 then ?k else OSQOut q) - 1"
  have r: "r < ?k" "(r + 1) mod ?k = OSQOut q" using o k by (auto simp: r_def)
  let ?q1 = "q\<lparr>storage := (storage q)[r := m], OSQOut := r, OSQEntries := OSQEntries q + 1\<rparr>"
  have "q_put_front m q = Inr ?q1" using l r(1) by (simp add: q_put_front_def r_def Let_def)
  moreover have "q_msgs ?q1 = m # q_msgs q"
  proof -
    have "q_msgs ?q1 = m # ring_list ((storage q)[r := m]) (OSQOut q) ?n"
      using ring_list_take [of "Suc ?n" r "(storage q)[r := m]"] r l s by (simp add: q_msgs_def)
    also have "ring_list ((storage q)[r := m]) (OSQOut q) ?n = q_msgs q"
    proof -
      have "r \<noteq> (OSQOut q + i) mod ?k" if "i < ?n" for i
      proof
        assume "r = (OSQOut q + i) mod ?k"
        then have "(r + 1 + i) mod ?k = r" using r(2) by (metis mod_add_left_eq)
        then have "(r + (1 + i)) mod ?k = r mod ?k" using r(1) by (simp add: add.assoc)
        then have "?k dvd (r + (1 + i)) - r" by (metis mod_eq_dvd_iff_nat le_add1)
        then show False using that n by (auto dest: dvd_imp_le)
      qed
      then show ?thesis by (simp add: q_msgs_def ring_list_def l)
    qed
    finally show ?thesis .
  qed
  moreover have "q_ok ?q1"
  proof -
    have "OSQIn q = ((r + 1) mod ?k + ?n) mod ?k" using assms(1) r(2) by (simp add: q_ok_def)
    also have "\<dots> = (r + Suc ?n) mod ?k" by (simp add: mod_add_left_eq)
    finally show ?thesis using assms(1) r(1) s n by (simp add: q_ok_def word_le_nat_alt)
  qed
  ultimately show ?thesis by (intro exI [of _ ?q1]) simp
qed

section \<open>Well-formed states\<close>

text \<open>The tasks that wait for an event, in the tables, and the messages it holds; those of a semaphore are its count.\<close>

definition waiting :: "nat \<Rightarrow> os \<Rightarrow> nat set" where
  "waiting ev s = (case OSEventTbl s ev of None \<Rightarrow> {} | Some e \<Rightarrow> prios_of (wait_list e))"

definition event_msgs :: "(nat \<Rightarrow> os_q option) \<Rightarrow> os_event \<Rightarrow> u32 list" where
  "event_msgs qs e =
     (if OSEventType e = OS_EVENT_TYPE_Q then (case qs (OSEventPtr e) of None \<Rightarrow> [] | Some q \<Rightarrow> q_msgs q)
      else if OSEventType e = OS_EVENT_TYPE_SEM then replicate (unat (OSEventCnt e)) 0
      else [])"

definition holds :: "nat \<Rightarrow> os \<Rightarrow> u32 list" where
  "holds ev s = (case OSEventTbl s ev of None \<Rightarrow> [] | Some e \<Rightarrow> event_msgs (OSQTbl s) e)"

text \<open>What the status of a waiting task says about the kind of its event.\<close>

definition pend_bit :: "u8 \<Rightarrow> u8" where
  "pend_bit type = (if type = OS_EVENT_TYPE_Q then OS_STAT_Q else OS_STAT_SEM)"

definition event_ok :: "os \<Rightarrow> nat \<Rightarrow> os_event \<Rightarrow> bool" where
  "event_ok s ev e \<longleftrightarrow> tbl_ok (wait_list e) \<and>
     (OSEventType e = OS_EVENT_TYPE_Q \<longrightarrow>
        (\<exists>q. OSQTbl s (OSEventPtr e) = Some q \<and> q_ok q) \<and>
        (\<forall>ev' e'. OSEventTbl s ev' = Some e' \<and> OSEventType e' = OS_EVENT_TYPE_Q \<and> OSEventPtr e' = OSEventPtr e \<longrightarrow> ev' = ev)) \<and>
     (prios_of (wait_list e) \<noteq> {} \<longrightarrow> event_msgs (OSQTbl s) e = [])"

text \<open>
  A task inside a call that waits for \<open>ev\<close>: it waits; or its time has run out, but it has not left the list; or it has been
  given what it waited for. A task that is not inside such a call is in no list.
\<close>

definition in_pend :: "os \<Rightarrow> nat \<Rightarrow> os_tcb \<Rightarrow> nat \<Rightarrow> bool" where
  "in_pend s p t ev \<longleftrightarrow>
     (\<exists>e. OSEventTbl s ev = Some e \<and> OSEventType e \<in> {OS_EVENT_TYPE_Q, OS_EVENT_TYPE_SEM} \<and>
        (\<forall>ev'. p \<in> waiting ev' s \<longrightarrow> ev' = ev) \<and>
        (p \<in> waiting ev s \<and> OSTCBStatPend t = OS_STAT_PEND_OK \<and> OSTCBStat t AND NOT OS_STAT_SUSPEND = pend_bit (OSEventType e) \<or>
         p \<in> waiting ev s \<and> OSTCBStatPend t = OS_STAT_PEND_TO \<and> OSTCBStat t AND NOT OS_STAT_SUSPEND = 0 \<and> OSTCBDly t = 0 \<or>
         p \<notin> waiting ev s \<and> OSTCBStatPend t = OS_STAT_PEND_OK \<and> OSTCBStat t AND NOT OS_STAT_SUSPEND = 0 \<and> OSTCBDly t = 0))"

definition task_ok :: "os \<Rightarrow> nat option \<Rightarrow> nat \<Rightarrow> os_tcb \<Rightarrow> bool" where
  "task_ok s pc p t \<longleftrightarrow> p < 64 \<and>
     (p \<in> prios_of (rdy_list s) \<longleftrightarrow> OSTCBStat t = 0 \<and> OSTCBDly t = 0) \<and>
     (case pc of
        None \<Rightarrow> (\<forall>ev. p \<notin> waiting ev s) \<and> OSTCBStat t AND NOT OS_STAT_SUSPEND = 0
      | Some ev \<Rightarrow> in_pend s p t ev)"

definition events_ok :: "os \<Rightarrow> bool" where
  "events_ok s \<longleftrightarrow> (\<forall>ev e. OSEventTbl s ev = Some e \<longrightarrow> event_ok s ev e)"

text \<open>All but the choice of the running task, which is left open while the kernel is at work.\<close>

definition base_ok :: "os \<Rightarrow> (nat \<Rightarrow> nat option) \<Rightarrow> bool" where
  "base_ok s pc \<longleftrightarrow> OSRunning s \<and> tbl_ok (rdy_list s) \<and> events_ok s \<and>
     (\<forall>p t. OSTCBPrioTbl s p = Some t \<longrightarrow> task_ok s (pc p) p t) \<and>
     (\<forall>p. OSTCBPrioTbl s p = None \<longrightarrow> p \<notin> prios_of (rdy_list s) \<and> (\<forall>ev. p \<notin> waiting ev s)) \<and>
     (\<exists>l. OSTCBList s = l @ [63] \<and> distinct (l @ [63]) \<and> set (l @ [63]) = {p. OSTCBPrioTbl s p \<noteq> None}) \<and>
     63 \<in> prios_of (rdy_list s) \<and>
     OSTCBPrioTbl s (OSPrioCur s) \<noteq> None \<and>
     (0 < OSLockNesting s \<longrightarrow> pc (OSPrioCur s) = None)"

definition os_ok :: "os \<Rightarrow> (nat \<Rightarrow> nat option) \<Rightarrow> bool" where
  "os_ok s pc \<longleftrightarrow> base_ok s pc \<and>
     (OSIntNesting s = 0 \<and> OSLockNesting s = 0 \<longrightarrow> OSPrioCur s = Min (prios_of (rdy_list s)))"

lemma in_pend_cong:
  assumes "\<And>ev. q \<in> waiting ev s' \<longleftrightarrow> q \<in> waiting ev s"
    and "map_option OSEventType (OSEventTbl s' ev) = map_option OSEventType (OSEventTbl s ev)"
  shows "in_pend s' q t ev = in_pend s q t ev"
  using assms(2) unfolding in_pend_def assms(1) by (cases "OSEventTbl s ev"; cases "OSEventTbl s' ev") auto

lemma task_ok_cong:
  assumes "\<And>ev. q \<in> waiting ev s' \<longleftrightarrow> q \<in> waiting ev s" and "q \<in> prios_of (rdy_list s') \<longleftrightarrow> q \<in> prios_of (rdy_list s)"
    and "\<And>ev. map_option OSEventType (OSEventTbl s' ev) = map_option OSEventType (OSEventTbl s ev)"
  shows "task_ok s' c q t = task_ok s c q t"
  unfolding task_ok_def assms(1,2) using in_pend_cong [of q s' s, OF assms(1) assms(3)] by (auto split: option.split)

section \<open>The running task\<close>

lemma reschedule_ok:
  assumes "base_ok s pc" and "OSLockNesting s = 0"
  shows "os_ok (reschedule s) pc" and "OSPrioCur (reschedule s) = Min (prios_of (rdy_list s))"
proof -
  have b: "tbl_ok (rdy_list s)" "prios_of (rdy_list s) \<noteq> {}" using assms(1) by (auto simp: base_ok_def)
  have h: "highest (rdy_list s) = Min (prios_of (rdy_list s))" by (rule pl.top_Min [OF b])
  have "highest (rdy_list s) \<in> prios_of (rdy_list s)" by (rule pl.top(1) [OF b])
  then have t: "OSTCBPrioTbl s (highest (rdy_list s)) \<noteq> None" using assms(1) by (auto simp: base_ok_def)
  have r: "reschedule s = s\<lparr>OSPrioHighRdy := highest (rdy_list s), OSPrioCur := highest (rdy_list s)\<rparr>"
    by (simp add: reschedule_def OS_SchedNew_def Let_def)
  show "OSPrioCur (reschedule s) = Min (prios_of (rdy_list s))" unfolding r using h by simp
  have w: "waiting ev (reschedule s) = waiting ev s" "holds ev (reschedule s) = holds ev s" for ev
    by (simp_all add: r waiting_def holds_def cong: option.case_cong)
  have "event_ok (reschedule s) ev e = event_ok s ev e" for ev e by (simp add: event_ok_def w) (simp add: r)
  moreover have "task_ok (reschedule s) c p t = task_ok s c p t" for c p t
    by (rule task_ok_cong) (simp_all add: w, simp_all add: r)
  ultimately show "os_ok (reschedule s) pc"
    using assms t h unfolding os_ok_def base_ok_def events_ok_def w by (simp add: r)
qed

lemma OS_Sched_ok: "base_ok s pc \<Longrightarrow> os_ok (OS_Sched s) pc"
  using reschedule_ok(1) [of s pc] by (auto simp: OS_Sched_def os_ok_def)

section \<open>Changes of one task\<close>

text \<open>From \<open>s\<close> to \<open>s'\<close> only task \<open>p\<close>, its places in the lists, and what the events hold have changed.\<close>

definition only_task :: "nat \<Rightarrow> os \<Rightarrow> os \<Rightarrow> bool" where
  "only_task p s s' \<longleftrightarrow> OSRunning s' = OSRunning s \<and> OSTCBList s' = OSTCBList s \<and> OSPrioCur s' = OSPrioCur s \<and>
     OSLockNesting s' = OSLockNesting s \<and> OSIntNesting s' = OSIntNesting s \<and>
     OSTCBPrioTbl s p \<noteq> None \<and> OSTCBPrioTbl s' p \<noteq> None \<and>
     (\<forall>q. q \<noteq> p \<longrightarrow> OSTCBPrioTbl s' q = OSTCBPrioTbl s q \<and>
        (q \<in> prios_of (rdy_list s') \<longleftrightarrow> q \<in> prios_of (rdy_list s)) \<and> (\<forall>ev. q \<in> waiting ev s' \<longleftrightarrow> q \<in> waiting ev s)) \<and>
     (\<forall>ev. map_option OSEventType (OSEventTbl s' ev) = map_option OSEventType (OSEventTbl s ev))"

lemma base_okI:
  assumes b: "base_ok s pc" and o: "only_task p s s'" and r: "tbl_ok (rdy_list s')" and e: "events_ok s'"
    and t: "OSTCBPrioTbl s' p = Some t" "task_ok s' (pc' p) p t" and pc: "\<And>q. q \<noteq> p \<Longrightarrow> pc' q = pc q"
    and i: "63 \<in> prios_of (rdy_list s')" and l: "0 < OSLockNesting s \<Longrightarrow> pc' (OSPrioCur s) = None"
  shows "base_ok s' pc'"
proof -
  have q: "OSTCBPrioTbl s' q = OSTCBPrioTbl s q" "q \<in> prios_of (rdy_list s') \<longleftrightarrow> q \<in> prios_of (rdy_list s)"
    "q \<in> waiting ev s' \<longleftrightarrow> q \<in> waiting ev s" if "q \<noteq> p" for q ev
    using o that unfolding only_task_def by blast+
  have ty: "map_option OSEventType (OSEventTbl s' ev) = map_option OSEventType (OSEventTbl s ev)" for ev
    using o unfolding only_task_def by blast
  have tk: "task_ok s' (pc' q) q u" if "OSTCBPrioTbl s' q = Some u" for q u
  proof (cases "q = p")
    case False
    then show ?thesis using b that task_ok_cong [of q s' s, OF q(3) [OF False] q(2) [OF False] ty] q(1) [OF False] pc [OF False]
      unfolding base_ok_def by simp
  qed (use t that in simp)
  have dm: "OSTCBPrioTbl s' q \<noteq> None \<longleftrightarrow> OSTCBPrioTbl s q \<noteq> None" for q
    using o q(1) [of q] unfolding only_task_def by (cases "q = p") auto
  have no: "q \<notin> prios_of (rdy_list s') \<and> (\<forall>ev. q \<notin> waiting ev s')" if "OSTCBPrioTbl s' q = None" for q
    using that t(1) b q [of q] unfolding base_ok_def by (cases "q = p") auto
  show ?thesis
    unfolding base_ok_def dm
    using b o r e tk no i l unfolding base_ok_def only_task_def by simp
qed

end
