(* ===== verification/OsRun.thy ===== *)
theory OsRun
  imports OsQueue
begin

text \<open>
  The kernel at work: each call keeps the kernel well formed and has the effect it promises, and so do all
  sequences of calls, interrupts and context switches of a fixed set of events. The highest priority task that is
  ready runs; messages and semaphore counts are neither lost nor duplicated and are passed on in order.
\<close>

section \<open>Status bits\<close>

lemma and_not_and_commute: "(x AND NOT k) AND NOT m = (x AND NOT m) AND NOT (k :: u8)"
  by (simp add: ac_simps)

lemma stat_zero: "x AND NOT OS_STAT_SUSPEND = 0 \<Longrightarrow> x AND OS_STAT_SUSPEND = 0 \<longleftrightarrow> x = 0"
proof
  assume a: "x AND NOT OS_STAT_SUSPEND = 0" and b: "x AND OS_STAT_SUSPEND = 0"
  have "x = (x AND OS_STAT_SUSPEND) OR (x AND NOT OS_STAT_SUSPEND)"
    by (simp flip: bit.conj_disj_distrib)
  with a b show "x = 0" by simp
qed simp

lemma without_pend: "x AND OS_STAT_PEND_ANY = 0 \<Longrightarrow> x AND NOT OS_STAT_PEND_ANY = x"
proof -
  assume "x AND OS_STAT_PEND_ANY = 0"
  moreover have "(x AND OS_STAT_PEND_ANY) OR (x AND NOT OS_STAT_PEND_ANY) = x"
    by (simp flip: bit.conj_disj_distrib)
  ultimately show ?thesis by simp
qed

lemma pend_bit_facts:
  "pend_bit ty \<noteq> 0" "pend_bit ty AND OS_STAT_PEND_ANY = pend_bit ty" "pend_bit ty AND NOT (pend_bit ty) = 0"
  "pend_bit ty AND NOT OS_STAT_PEND_ANY = 0"
  by (simp_all add: pend_bit_def OS_STAT_Q_def OS_STAT_SEM_def OS_STAT_PEND_ANY_def)

lemma pend_any_not_suspend: "x AND OS_STAT_PEND_ANY = (x AND NOT OS_STAT_SUSPEND) AND OS_STAT_PEND_ANY"
  by (simp add: OS_STAT_PEND_ANY_def OS_STAT_SUSPEND_def and.assoc)

lemma stat_or_pend: "x = 0 \<Longrightarrow> (x OR pend_bit ty) AND NOT OS_STAT_SUSPEND = pend_bit ty"
  by (simp add: pend_bit_def OS_STAT_Q_def OS_STAT_SEM_def OS_STAT_SUSPEND_def)

lemma suspended_stat:
  "(x OR OS_STAT_SUSPEND) AND NOT OS_STAT_SUSPEND = x AND NOT OS_STAT_SUSPEND" "x OR OS_STAT_SUSPEND \<noteq> 0"
proof -
  show "(x OR OS_STAT_SUSPEND) AND NOT OS_STAT_SUSPEND = x AND NOT OS_STAT_SUSPEND"
    by (simp add: bit.conj_disj_distrib2)
  show "x OR OS_STAT_SUSPEND \<noteq> 0"
  proof
    assume "x OR OS_STAT_SUSPEND = 0"
    then have "(x OR OS_STAT_SUSPEND) AND OS_STAT_SUSPEND = 0" by simp
    then show False by (simp add: OS_STAT_SUSPEND_def bit.conj_disj_distrib2)
  qed
qed

section \<open>Lists of tasks waiting\<close>

lemma base_okD:
  assumes "base_ok s pc"
  shows "tbl_ok (rdy_list s)" and "events_ok s" and "OSTCBPrioTbl s p = Some t \<Longrightarrow> task_ok s (pc p) p t"
    and "p \<in> waiting ev s \<Longrightarrow> \<exists>t. OSTCBPrioTbl s p = Some t" and "OSTCBPrioTbl s p = Some t \<Longrightarrow> p < 64"
proof -
  show "tbl_ok (rdy_list s)" "events_ok s" using assms by (simp_all add: base_ok_def)
  show k: "OSTCBPrioTbl s p = Some t \<Longrightarrow> task_ok s (pc p) p t" for p t using assms by (simp add: base_ok_def)
  show "OSTCBPrioTbl s p = Some t \<Longrightarrow> p < 64" using k [of p t] by (simp add: task_ok_def)
  show "p \<in> waiting ev s \<Longrightarrow> \<exists>t. OSTCBPrioTbl s p = Some t"
    using assms unfolding base_ok_def by (cases "OSTCBPrioTbl s p") auto
qed

lemma waiting_in: "OSEventTbl s ev = Some e \<Longrightarrow> waiting ev s = prios_of (wait_list e)"
  by (simp add: waiting_def)

lemma event_at: "events_ok s \<Longrightarrow> OSEventTbl s ev = Some e \<Longrightarrow> event_ok s ev e"
  by (simp add: events_ok_def)

lemma events_ok_wait:
  assumes "events_ok s" and "OSEventTbl s ev = Some e" and "tbl_ok w"
    and "prios_of w \<noteq> {} \<Longrightarrow> event_msgs (OSQTbl s) e = []"
    and et: "OSEventTbl s' = (OSEventTbl s)(ev \<mapsto> e\<lparr>wait_list := w\<rparr>)" and qt: "OSQTbl s' = OSQTbl s"
  shows "events_ok s'" and "waiting ev' s' = (if ev' = ev then prios_of w else waiting ev' s)" and "holds ev' s' = holds ev' s"
    and "map_option OSEventType (OSEventTbl s' ev') = map_option OSEventType (OSEventTbl s ev')"
proof -
  have m: "event_msgs qs (e\<lparr>wait_list := w\<rparr>) = event_msgs qs e" for qs by (simp add: event_msgs_def)
  show "events_ok s'"
    using assms(1-4) unfolding events_ok_def event_ok_def et qt
    by (auto simp: m split: if_splits)
  show "waiting ev' s' = (if ev' = ev then prios_of w else waiting ev' s)" by (simp add: waiting_def et)
  show "holds ev' s' = holds ev' s" using assms(2) by (simp add: holds_def et qt m cong: option.case_cong)
  show "map_option OSEventType (OSEventTbl s' ev') = map_option OSEventType (OSEventTbl s ev')"
    using assms(2) by (simp add: et)
qed

text \<open>Who waits has a control block and is inside the call.\<close>

lemma waiting_task:
  assumes "base_ok s pc" and "p \<in> waiting ev s"
  obtains t e where "OSTCBPrioTbl s p = Some t" "pc p = Some ev" "in_pend s p t ev" "p < 64" "OSEventTbl s ev = Some e"
    "OSEventType e \<in> {2, 3}" "p \<in> prios_of (rdy_list s) \<longleftrightarrow> OSTCBStat t = 0 \<and> OSTCBDly t = 0"
proof -
  obtain t where t: "OSTCBPrioTbl s p = Some t" using base_okD(4) [OF assms] by blast
  have k: "task_ok s (pc p) p t" by (rule base_okD(3) [OF assms(1) t])
  then obtain ev' where ev': "pc p = Some ev'" "in_pend s p t ev'"
    using assms(2) by (auto simp: task_ok_def split: option.splits)
  then have "ev' = ev" using assms(2) by (auto simp: in_pend_def)
  with ev' obtain e where "OSEventTbl s ev = Some e" "OSEventType e \<in> {2, 3}" by (auto simp: in_pend_def)
  with that [of t e] t ev' k \<open>ev' = ev\<close> show thesis by (auto simp: task_ok_def)
qed

text \<open>Making the highest priority task ready that waits for an event.\<close>

lemma EventTaskRdy_ok:
  assumes b: "base_ok s pc" and e: "OSEventTbl s ev = Some e" and ne: "waiting ev s \<noteq> {}"
  obtains t t' s' where "OS_EventTaskRdy ev m (pend_bit (OSEventType e)) 0 s = Inr (Min (waiting ev s), s')"
    "base_ok s' pc" "only_task (Min (waiting ev s)) s s'" "pc (Min (waiting ev s)) = Some ev"
    "OSTCBPrioTbl s (Min (waiting ev s)) = Some t" "OSTCBPrioTbl s' (Min (waiting ev s)) = Some t'"
    "OSTCBMsg t' = m" "OSTCBStatPend t' = 0" "\<And>ev'. holds ev' s' = holds ev' s"
    "\<And>ev'. waiting ev' s' = (if ev' = ev then waiting ev s - {Min (waiting ev s)} else waiting ev' s)"
proof -
  note bk = base_okD [OF b]
  have eo: "event_ok s ev e" by (rule event_at [OF bk(2) e])
  then have wl: "tbl_ok (wait_list e)" by (simp add: event_ok_def)
  note w = waiting_in [OF e]
  let ?p = "Min (waiting ev s)"
  have h: "highest (wait_list e) = ?p" using pl.top_Min [OF wl] ne by (simp add: w)
  have p: "?p \<in> waiting ev s" using pl.top(1) [OF wl] ne by (simp add: h w)
  obtain t e0 where t: "OSTCBPrioTbl s ?p = Some t" "pc ?p = Some ev" "in_pend s ?p t ev" "?p < 64" "OSEventTbl s ev = Some e0"
    "OSEventType e0 \<in> {2, 3}" "?p \<in> prios_of (rdy_list s) \<longleftrightarrow> OSTCBStat t = 0 \<and> OSTCBDly t = 0"
    by (rule waiting_task [OF b p])
  have ty: "OSEventType e \<in> {2, 3}" using t(5,6) e by simp
  let ?b = "pend_bit (OSEventType e)"
  define x where "x = OSTCBStat t AND NOT ?b"
  have st: "OSTCBStat t AND NOT OS_STAT_SUSPEND = ?b \<or> OSTCBStat t AND NOT OS_STAT_SUSPEND = 0"
    using t(3) e by (auto simp: in_pend_def)
  have xs: "x AND NOT OS_STAT_SUSPEND = 0"
    using st pend_bit_facts(3) [of "OSEventType e"] unfolding x_def and_not_and_commute [of _ ?b] by auto
  note x0 = stat_zero [OF xs]
  define t1 where "t1 = t\<lparr>OSTCBDly := 0, OSTCBMsg := m, OSTCBStat := x, OSTCBStatPend := 0\<rparr>"
  define w1 where "w1 = unmark ?p (wait_list e)"
  define r where "r = (if x = 0 then mark ?p (rdy_list s) else rdy_list s)"
  define s' where "s' = s\<lparr>OSTCBPrioTbl := (OSTCBPrioTbl s)(?p \<mapsto> t1), rdy_list := r,
    OSEventTbl := (OSEventTbl s)(ev \<mapsto> e\<lparr>wait_list := w1\<rparr>)\<rparr>"
  have run: "OS_EventTaskRdy ev m ?b 0 s = Inr (?p, s')"
    unfolding OS_EventTaskRdy_def OS_EventTaskRemove_def get_event_def get_tcb_def
    by (cases "x = 0")
       (simp_all add: Let_def put_tcb_def put_event_def s'_def r_def t1_def w1_def x_def [symmetric] x0 e h t(1))
  have w1: "tbl_ok w1" "prios_of w1 = waiting ev s - {?p}" using pl.del [OF wl t(4)] by (simp_all add: w1_def w)
  have ev: "events_ok s'" "waiting ev' s' = (if ev' = ev then waiting ev s - {?p} else waiting ev' s)" "holds ev' s' = holds ev' s"
    "map_option OSEventType (OSEventTbl s' ev') = map_option OSEventType (OSEventTbl s ev')" for ev'
    using events_ok_wait [OF bk(2) e w1(1), of s'] eo w1(2) ne by (auto simp: s'_def event_ok_def w)
  have r: "tbl_ok r" "prios_of r = (if x = 0 then insert ?p (prios_of (rdy_list s)) else prios_of (rdy_list s))"
    using pl.add [OF bk(1) t(4)] bk(1) by (simp_all add: r_def)
  have o: "only_task ?p s s'"
    unfolding only_task_def using ev(2,4) t(1) r(2) by (auto simp: s'_def)
  have "?p \<in> prios_of r \<longleftrightarrow> x = 0"
  proof (cases "x = 0")
    case False
    then have "OSTCBStat t \<noteq> 0" by (auto simp: x_def)
    then show ?thesis using False r(2) t(7) by simp
  qed (simp add: r(2))
  moreover have "in_pend s' ?p t1 ev"
    using t(3) ev(2) xs e ty unfolding in_pend_def by (auto simp: s'_def t1_def)
  ultimately have "task_ok s' (pc ?p) ?p t1" using t(2,4) by (simp add: task_ok_def s'_def t1_def)
  moreover have "63 \<in> prios_of (rdy_list s')" using b r(2) by (simp add: base_ok_def s'_def)
  ultimately have "base_ok s' pc"
    using b by (intro base_okI [OF b o _ ev(1), of t1 pc]) (simp_all add: s'_def r(1) base_ok_def)
  then show thesis using that [of s' t t1] run o t(1,2) ev(2,3) by (simp add: s'_def t1_def)
qed

text \<open>A task that blocks, and the task that runs when it does.\<close>

lemma running_ready:
  assumes "os_ok s pc" and "OSIntNesting s = 0" and "OSLockNesting s = 0"
  obtains t where "OSTCBPrioTbl s (OSPrioCur s) = Some t" "OSTCBStat t = 0" "OSTCBDly t = 0"
    "OSPrioCur s \<in> prios_of (rdy_list s)" "OSPrioCur s < 64" "task_ok s (pc (OSPrioCur s)) (OSPrioCur s) t"
proof -
  have b: "base_ok s pc" and c: "OSPrioCur s = Min (prios_of (rdy_list s))" using assms by (simp_all add: os_ok_def)
  note bk = base_okD [OF b]
  have "prios_of (rdy_list s) \<noteq> {}" using b by (auto simp: base_ok_def)
  then have m: "OSPrioCur s \<in> prios_of (rdy_list s)" unfolding c by (intro Min_in pl.finite_prios [OF bk(1)])
  obtain t where t: "OSTCBPrioTbl s (OSPrioCur s) = Some t" using b by (auto simp: base_ok_def)
  with that [of t] m bk(3) [OF t] show thesis by (simp add: task_ok_def)
qed

lemma block_on_ok:
  assumes o: "os_ok s pc" and i: "OSIntNesting s = 0" "OSLockNesting s = 0" and e: "OSEventTbl s ev = Some e"
    and ty: "OSEventType e \<in> {2, 3}" and h: "holds ev s = []" and pc: "pc (OSPrioCur s) = None" and ni: "OSPrioCur s \<noteq> 63"
  obtains s' where "block_on ev (pend_bit (OSEventType e)) timeout s = Inr s'" "os_ok s' (pc(OSPrioCur s := Some ev))"
    "\<And>ev'. holds ev' s' = holds ev' s"
    "\<And>ev'. waiting ev' s' = (if ev' = ev then insert (OSPrioCur s) (waiting ev s) else waiting ev' s)"
    "\<And>q. q \<noteq> OSPrioCur s \<Longrightarrow> OSTCBPrioTbl s' q = OSTCBPrioTbl s q"
    "\<And>ev'. map_option OSEventType (OSEventTbl s' ev') = map_option OSEventType (OSEventTbl s ev')"
proof -
  let ?c = "OSPrioCur s" and ?b = "pend_bit (OSEventType e)"
  have b: "base_ok s pc" using o by (simp add: os_ok_def)
  note bk = base_okD [OF b]
  obtain t where t: "OSTCBPrioTbl s ?c = Some t" "OSTCBStat t = 0" "OSTCBDly t = 0" "?c \<in> prios_of (rdy_list s)" "?c < 64"
    "task_ok s (pc ?c) ?c t" by (rule running_ready [OF o i])
  have eo: "event_ok s ev e" by (rule event_at [OF bk(2) e])
  then have wl: "tbl_ok (wait_list e)" by (simp add: event_ok_def)
  note w = waiting_in [OF e]
  define t1 where "t1 = t\<lparr>OSTCBStat := ?b, OSTCBStatPend := 0, OSTCBDly := timeout, OSTCBEventPtr := Some ev\<rparr>"
  define w1 where "w1 = mark ?c (wait_list e)"
  define s1 where "s1 = s\<lparr>OSTCBPrioTbl := (OSTCBPrioTbl s)(?c \<mapsto> t1),
    OSEventTbl := (OSEventTbl s)(ev \<mapsto> e\<lparr>wait_list := w1\<rparr>), rdy_list := unmark ?c (rdy_list s)\<rparr>"
  have run: "block_on ev ?b timeout s = Inr (OS_Sched s1)"
    unfolding block_on_def OS_EventTaskWait_def get_event_def get_tcb_def
    using t(1,2) e by (simp add: put_tcb_def put_event_def s1_def t1_def w1_def Let_def)
  have w1: "tbl_ok w1" "prios_of w1 = insert ?c (waiting ev s)" using pl.add [OF wl t(5)] by (simp_all add: w1_def w)
  have m: "event_msgs (OSQTbl s) e = []" using h e by (simp add: holds_def)
  have ev: "events_ok s1" "waiting ev' s1 = (if ev' = ev then insert ?c (waiting ev s) else waiting ev' s)" "holds ev' s1 = holds ev' s"
    "map_option OSEventType (OSEventTbl s1 ev') = map_option OSEventType (OSEventTbl s ev')" for ev'
    using events_ok_wait [OF bk(2) e w1(1), of s1] m w1(2) by (auto simp: s1_def)
  have r: "tbl_ok (rdy_list s1)" "prios_of (rdy_list s1) = prios_of (rdy_list s) - {?c}"
    using pl.del [OF bk(1) t(5)] by (simp_all add: s1_def)
  have o1: "only_task ?c s s1" unfolding only_task_def using ev(2,4) t(1) r(2) by (auto simp: s1_def)
  have nw: "?c \<notin> waiting ev' s" for ev' using t(6) pc by (simp add: task_ok_def)
  have "in_pend s1 ?c t1 ev"
    using e ty ev(2) nw stat_or_pend [of 0 "OSEventType e"] unfolding in_pend_def by (auto simp: s1_def t1_def split: if_splits)
  then have "task_ok s1 ((pc(?c := Some ev)) ?c) ?c t1"
    using t(5) r(2) pend_bit_facts(1) by (simp add: task_ok_def t1_def)
  moreover have "63 \<in> prios_of (rdy_list s1)" using b r(2) ni by (simp add: base_ok_def)
  ultimately have "base_ok s1 (pc(?c := Some ev))"
    using i by (intro base_okI [OF b o1 r(1) ev(1), of t1]) (simp_all add: s1_def)
  then have ok: "os_ok (OS_Sched s1) (pc(?c := Some ev))" by (rule OS_Sched_ok)
  have "waiting ev' (OS_Sched s1) = waiting ev' s1" "holds ev' (OS_Sched s1) = holds ev' s1"
    "OSTCBPrioTbl (OS_Sched s1) = OSTCBPrioTbl s1" "OSEventTbl (OS_Sched s1) = OSEventTbl s1" for ev'
    by (simp_all add: OS_Sched_def reschedule_def OS_SchedNew_def waiting_def holds_def Let_def cong: option.case_cong)
  with that [of "OS_Sched s1"] run ok ev(2,3,4) show thesis by (simp add: s1_def)
qed

text \<open>The second half of the call: what the task gets, and how it leaves the list when its time has run out.\<close>

lemma resume_ok:
  assumes o: "os_ok s pc" and i: "OSIntNesting s = 0" "OSLockNesting s = 0" and pc: "pc (OSPrioCur s) = Some ev"
  obtains t t' m err s' where "OSTCBPrioTbl s (OSPrioCur s) = Some t" "pend_resume ev s = Inr (m, err, s')"
    "os_ok s' (pc(OSPrioCur s := None))"
    "(err, m) = (if OSTCBStatPend t = 0 then (0, OSTCBMsg t) else (10, 0))" "OSTCBStatPend t \<in> {0, 1}"
    "\<And>ev'. holds ev' s' = holds ev' s" "\<And>ev'. waiting ev' s' = waiting ev' s - {OSPrioCur s}"
    "\<And>q. q \<noteq> OSPrioCur s \<Longrightarrow> OSTCBPrioTbl s' q = OSTCBPrioTbl s q" "OSTCBPrioTbl s' (OSPrioCur s) = Some t'"
    "OSIntNesting s' = 0" "OSLockNesting s' = 0" "OSPrioCur s' = OSPrioCur s"
    "\<And>ev'. map_option OSEventType (OSEventTbl s' ev') = map_option OSEventType (OSEventTbl s ev')"
    "OSTCBStatPend t = 0 \<longleftrightarrow> OSPrioCur s \<notin> waiting ev s" "map_option OSEventType (OSEventTbl s ev) \<in> {Some 2, Some 3}"
proof -
  let ?c = "OSPrioCur s"
  have b: "base_ok s pc" using o by (simp add: os_ok_def)
  note bk = base_okD [OF b]
  obtain t where t: "OSTCBPrioTbl s ?c = Some t" "OSTCBStat t = 0" "OSTCBDly t = 0" "?c \<in> prios_of (rdy_list s)" "?c < 64"
    "task_ok s (pc ?c) ?c t" by (rule running_ready [OF o i])
  then have ip: "in_pend s ?c t ev" using pc by (simp add: task_ok_def)
  then obtain e where e: "OSEventTbl s ev = Some e" "OSEventType e \<in> {2, 3}" by (auto simp: in_pend_def)
  note w = waiting_in [OF e(1)]
  have sp: "OSTCBStatPend t = 1 \<and> ?c \<in> waiting ev s \<or> OSTCBStatPend t = 0 \<and> ?c \<notin> waiting ev s"
    using ip e t(2) pend_bit_facts(1) [of "OSEventType e"] by (auto simp: in_pend_def)
  have one: "?c \<in> waiting ev' s \<Longrightarrow> ev' = ev" for ev' using ip unfolding in_pend_def by blast
  have eo: "event_ok s ev e" by (rule event_at [OF bk(2) e(1)])
  then have wl: "tbl_ok (wait_list e)" by (simp add: event_ok_def)
  define t1 where "t1 = t\<lparr>OSTCBStat := 0, OSTCBStatPend := 0, OSTCBEventPtr := None\<rparr>"
  define w1 where "w1 = (if OSTCBStatPend t = 0 then wait_list e else unmark ?c (wait_list e))"
  define s1 where "s1 = s\<lparr>OSEventTbl := (OSEventTbl s)(ev \<mapsto> e\<lparr>wait_list := w1\<rparr>),
    OSTCBPrioTbl := (OSTCBPrioTbl s)(?c \<mapsto> t1)\<rparr>"
  define m where "m = (if OSTCBStatPend t = 0 then OSTCBMsg t else 0)"
  define err :: u8 where "err = (if OSTCBStatPend t = 0 then 0 else 10)"
  have upd: "(OSEventTbl s)(ev \<mapsto> e) = OSEventTbl s" using e(1) by auto
  have run: "pend_resume ev s = Inr (m, err, s1)"
  proof (cases "OSTCBStatPend t = 0")
    case True
    then show ?thesis using t(1) by (simp add: pend_resume_def get_tcb_def put_tcb_def s1_def t1_def w1_def m_def err_def upd)
  next
    case False
    then have "OSTCBStatPend t = 1" using sp by blast
    then show ?thesis using t(1) e(1)
      by (simp add: pend_resume_def OS_EventTaskRemove_def get_event_def get_tcb_def put_tcb_def put_event_def
        s1_def t1_def w1_def m_def err_def)
  qed
  have w1: "tbl_ok w1" "prios_of w1 = waiting ev s - {?c}" 
  proof -
    show "tbl_ok w1" using pl.del(1) [OF wl t(5)] wl by (simp add: w1_def)
    show "prios_of w1 = waiting ev s - {?c}"
      using pl.del(2) [OF wl t(5)] sp unfolding w w1_def by (cases "OSTCBStatPend t = 0") simp_all
  qed
  have msgs: "prios_of w1 \<noteq> {} \<Longrightarrow> event_msgs (OSQTbl s) e = []" using eo w1(2) unfolding event_ok_def w by auto
  have et: "OSEventTbl s1 = (OSEventTbl s)(ev \<mapsto> e\<lparr>wait_list := w1\<rparr>)" "OSQTbl s1 = OSQTbl s" by (simp_all add: s1_def)
  note ew = events_ok_wait [OF bk(2) e(1) w1(1) msgs et]
  have ev: "waiting ev' s1 = waiting ev' s - {?c}" for ev'
    using ew(2) [of ev'] w1(2) one [of ev'] by (cases "ev' = ev") auto
  have r: "rdy_list s1 = rdy_list s" by (simp add: s1_def)
  have o1: "only_task ?c s s1" unfolding only_task_def using ev ew(4) t(1) by (auto simp: s1_def)
  have "task_ok s1 ((pc(?c := None)) ?c) ?c t1"
    using t(3,4,5) ev r by (simp add: task_ok_def t1_def)
  then have "base_ok s1 (pc(?c := None))"
    using b by (intro base_okI [OF b o1 _ ew(1), of t1]) (simp_all add: s1_def base_ok_def)
  then have "os_ok s1 (pc(?c := None))" using o by (simp add: os_ok_def s1_def)
  then show thesis
    using that [of t m err s1 t1] t(1) run sp ev ew(3) i e by (auto simp: s1_def m_def err_def)
qed

section \<open>Time\<close>

lemma tick_task_ok:
  assumes b: "base_ok s pc" and t: "OSTCBPrioTbl s p = Some t"
  obtains t' s' where "tick_task p s = Inr s'" "base_ok s' pc" "only_task p s s'" "OSTCBPrioTbl s' p = Some t'"
    "OSTCBDly t' = (if OSTCBDly t = 0 then 0 else OSTCBDly t - 1)" "OSTCBMsg t' = OSTCBMsg t"
    "OSTCBStatPend t' = (if OSTCBDly t = 1 then if OSTCBStat t AND OS_STAT_PEND_ANY = 0 then 0 else 1 else OSTCBStatPend t)"
    "OSTCBStat t' = (if OSTCBDly t = 1 then OSTCBStat t AND NOT OS_STAT_PEND_ANY else OSTCBStat t)"
    "OSEventTbl s' = OSEventTbl s" "OSQTbl s' = OSQTbl s"
proof -
  note bk = base_okD [OF b]
  have tk: "task_ok s (pc p) p t" by (rule bk(3) [OF t])
  then have p: "p < 64" by (simp add: task_ok_def)
  show thesis
  proof (cases "OSTCBDly t = 0")
    case True
    then show thesis using that [of s t] b t by (simp add: tick_task_def get_tcb_def only_task_def)
  next
    case d0: False
    show thesis
    proof (cases "OSTCBDly t = 1")
      case False
      define t1 where "t1 = t\<lparr>OSTCBDly := OSTCBDly t - 1\<rparr>"
      have d: "OSTCBDly t - 1 \<noteq> 0" using False by simp
      have run: "tick_task p s = Inr (put_tcb p t1 s)" using t d d0 by (simp add: tick_task_def get_tcb_def t1_def)
      have wt: "waiting ev (put_tcb p t1 s) = waiting ev s" for ev by (simp add: waiting_def put_tcb_def)
      have o: "only_task p s (put_tcb p t1 s)" using t by (simp add: only_task_def wt) (simp add: put_tcb_def)
      have ip: "in_pend (put_tcb p t1 s) p t1 ev = in_pend s p t ev" for ev
        using d d0 by (simp add: in_pend_def wt) (simp add: put_tcb_def t1_def)
      have "task_ok (put_tcb p t1 s) (pc p) p t1"
        using tk d d0 unfolding task_ok_def wt ip by (cases "pc p") (simp_all add: put_tcb_def t1_def)
      moreover have "events_ok (put_tcb p t1 s)" using bk(2) by (simp add: events_ok_def event_ok_def put_tcb_def)
      ultimately have "base_ok (put_tcb p t1 s) pc"
        using b by (intro base_okI [OF b o, of t1]) (simp_all add: put_tcb_def base_ok_def)
      then show thesis using that [of "put_tcb p t1 s" t1] run o False d0 by (simp add: put_tcb_def t1_def)
    next
      case True
      let ?x = "OSTCBStat t AND NOT OS_STAT_PEND_ANY"
      define t1 where "t1 = t\<lparr>OSTCBDly := 0, OSTCBStat := ?x,
        OSTCBStatPend := (if OSTCBStat t AND OS_STAT_PEND_ANY = 0 then 0 else 1)\<rparr>"
      define r where "r = (if ?x = 0 then mark p (rdy_list s) else rdy_list s)"
      define s1 where "s1 = s\<lparr>OSTCBPrioTbl := (OSTCBPrioTbl s)(p \<mapsto> t1), rdy_list := r\<rparr>"
      have st: "pc p = None \<Longrightarrow> OSTCBStat t AND NOT OS_STAT_SUSPEND = 0"
        "pc p = Some ev \<Longrightarrow> \<exists>e. OSEventTbl s ev = Some e \<and> OSEventType e \<in> {2, 3} \<and> p \<in> waiting ev s \<and>
          OSTCBStat t AND NOT OS_STAT_SUSPEND = pend_bit (OSEventType e)" for ev
        using tk d0 by (auto simp: task_ok_def in_pend_def)
      have xs: "?x AND NOT OS_STAT_SUSPEND = 0"
      proof (cases "pc p")
        case None
        from st(1) [OF this] show ?thesis unfolding and_not_and_commute [of _ OS_STAT_PEND_ANY] by simp
      next
        case (Some ev)
        from st(2) [OF this] obtain e :: os_event where "OSTCBStat t AND NOT OS_STAT_SUSPEND = pend_bit (OSEventType e)" by blast
        then show ?thesis unfolding and_not_and_commute [of _ OS_STAT_PEND_ANY] using pend_bit_facts(4) by simp
      qed
      have run: "tick_task p s = Inr s1"
      proof (cases "OSTCBStat t AND OS_STAT_PEND_ANY = 0")
        case z: True
        have x: "?x = OSTCBStat t" by (rule without_pend [OF z])
        have t1: "t1 = t\<lparr>OSTCBDly := 0, OSTCBStatPend := 0\<rparr>" unfolding t1_def x z by simp
        have r1: "r = (if OSTCBStat t = 0 then mark p (rdy_list s) else rdy_list s)" unfolding r_def x by simp
        have "OSTCBStat t AND OS_STAT_SUSPEND = 0 \<longleftrightarrow> OSTCBStat t = 0" using stat_zero [OF xs] unfolding x .
        then show ?thesis using t True z
          by (cases "OSTCBStat t = 0") (simp_all add: tick_task_def get_tcb_def put_tcb_def Let_def s1_def t1 r1)
      next
        case z: False
        show ?thesis using t True stat_zero [OF xs] z
          by (cases "?x = 0") (simp_all add: tick_task_def get_tcb_def put_tcb_def Let_def s1_def t1_def r_def)
      qed
      have wt: "waiting ev s1 = waiting ev s" for ev by (simp add: waiting_def s1_def)
      have rp: "tbl_ok r" "prios_of r = (if ?x = 0 then insert p (prios_of (rdy_list s)) else prios_of (rdy_list s))"
        using pl.add [OF bk(1) p] bk(1) by (simp_all add: r_def)
      have o: "only_task p s s1" using t rp(2) unfolding only_task_def wt by (auto simp: s1_def)
      have np: "p \<notin> prios_of (rdy_list s)" using tk d0 by (simp add: task_ok_def)
      have "task_ok s1 (pc p) p t1"
      proof (cases "pc p")
        case None
        then show ?thesis using tk np rp(2) xs p unfolding task_ok_def wt by (simp add: s1_def t1_def)
      next
        case (Some ev)
        from st(2) [OF this] obtain e where e: "OSEventTbl s ev = Some e" "OSEventType e \<in> {2, 3}" "p \<in> waiting ev s"
          "OSTCBStat t AND NOT OS_STAT_SUSPEND = pend_bit (OSEventType e)" by blast
        have "OSTCBStat t AND OS_STAT_PEND_ANY \<noteq> 0"
          unfolding pend_any_not_suspend [of "OSTCBStat t"] e(4) pend_bit_facts(2) by (rule pend_bit_facts(1))
        moreover have "\<forall>ev'. p \<in> waiting ev' s \<longrightarrow> ev' = ev" using tk Some unfolding task_ok_def in_pend_def by auto
        moreover have "OSTCBStat t1 AND NOT OS_STAT_SUSPEND = 0" "OSTCBDly t1 = 0" "OSEventTbl s1 ev = Some e"
          using xs e(1) by (simp_all add: s1_def t1_def)
        moreover have "OSTCBStatPend t1 = 1" using calculation(1) by (simp add: t1_def)
        ultimately have "in_pend s1 p t1 ev" unfolding in_pend_def wt using e(2,3) by blast
        then show ?thesis using Some np rp(2) p by (simp add: task_ok_def s1_def t1_def)
      qed
      moreover have "events_ok s1" using bk(2) by (simp add: events_ok_def event_ok_def s1_def)
      ultimately have "base_ok s1 pc"
        using b rp by (intro base_okI [OF b o, of t1]) (simp_all add: s1_def base_ok_def)
      then show thesis using that [of s1 t1] run o True by (simp add: s1_def t1_def)
    qed
  qed
qed

text \<open>What a tick does to the control block of a task.\<close>

definition ticked :: "os_tcb \<Rightarrow> os_tcb \<Rightarrow> bool" where
  "ticked t t' \<longleftrightarrow> OSTCBDly t' = (if OSTCBDly t = 0 then 0 else OSTCBDly t - 1) \<and> OSTCBMsg t' = OSTCBMsg t \<and>
     OSTCBStatPend t' = (if OSTCBDly t = 1 then if OSTCBStat t AND OS_STAT_PEND_ANY = 0 then 0 else 1 else OSTCBStatPend t) \<and>
     OSTCBStat t' = (if OSTCBDly t = 1 then OSTCBStat t AND NOT OS_STAT_PEND_ANY else OSTCBStat t)"

lemma only_taskD:
  assumes "only_task p s s'"
  shows "OSPrioCur s' = OSPrioCur s" "OSLockNesting s' = OSLockNesting s" "OSIntNesting s' = OSIntNesting s"
    "OSTCBList s' = OSTCBList s" "q \<noteq> p \<Longrightarrow> OSTCBPrioTbl s' q = OSTCBPrioTbl s q"
  using assms by (simp_all add: only_task_def)

lemma tick_tasks_ok:
  assumes "base_ok s pc" and "distinct (ps @ [63])" and "\<And>p. p \<in> set ps \<Longrightarrow> OSTCBPrioTbl s p \<noteq> None"
  shows "\<exists>s'. tick_tasks (ps @ [63]) s = Inr s' \<and> base_ok s' pc \<and> OSPrioCur s' = OSPrioCur s \<and>
    OSLockNesting s' = OSLockNesting s \<and> OSIntNesting s' = OSIntNesting s \<and> OSEventTbl s' = OSEventTbl s \<and> OSQTbl s' = OSQTbl s \<and>
    (\<forall>p t. OSTCBPrioTbl s p = Some t \<longrightarrow>
       (\<exists>t'. OSTCBPrioTbl s' p = Some t' \<and> (if p \<in> set ps then ticked t t' else t' = t))) \<and>
    (\<forall>p. OSTCBPrioTbl s p = None \<longrightarrow> OSTCBPrioTbl s' p = None)"
  using assms
proof (induction ps arbitrary: s)
  case (Cons p ps)
  then obtain t where t: "OSTCBPrioTbl s p = Some t" by fastforce
  obtain t' s1 where s1: "tick_task p s = Inr s1" "base_ok s1 pc" "only_task p s s1" "OSTCBPrioTbl s1 p = Some t'"
    "ticked t t'" "OSEventTbl s1 = OSEventTbl s" "OSQTbl s1 = OSQTbl s"
    by (rule tick_task_ok [OF Cons.prems(1) t]) (simp add: ticked_def)
  note o = only_taskD [OF s1(3)]
  have ne: "OSTCBPrioTbl s1 q \<noteq> None" if "q \<in> set ps" for q
    using Cons.prems(3) [of q] that o(5) [of q] s1(4) by (cases "q = p") auto
  obtain s' where s': "tick_tasks (ps @ [63]) s1 = Inr s'" "base_ok s' pc" "OSPrioCur s' = OSPrioCur s"
    "OSLockNesting s' = OSLockNesting s" "OSIntNesting s' = OSIntNesting s" "OSEventTbl s' = OSEventTbl s" "OSQTbl s' = OSQTbl s"
    "\<And>q u. OSTCBPrioTbl s1 q = Some u \<Longrightarrow>
       \<exists>u'. OSTCBPrioTbl s' q = Some u' \<and> (if q \<in> set ps then ticked u u' else u' = u)"
    "\<And>q. OSTCBPrioTbl s1 q = None \<Longrightarrow> OSTCBPrioTbl s' q = None"
    using Cons.IH [OF s1(2) _ ne] Cons.prems(2) o(1-3) s1(6,7) by auto
  have "p \<noteq> 63" "p \<notin> set ps" using Cons.prems(2) by auto
  have "\<exists>u'. OSTCBPrioTbl s' q = Some u' \<and> (if q \<in> set (p # ps) then ticked u u' else u' = u)"
    if "OSTCBPrioTbl s q = Some u" for q u
  proof (cases "q = p")
    case True
    then show ?thesis using s'(8) [OF s1(4)] s1(5) t that \<open>p \<notin> set ps\<close> by auto
  next
    case False
    then show ?thesis using s'(8) [of q u] o(5) [of q] that by auto
  qed
  moreover have "OSTCBPrioTbl s' q = None" if "OSTCBPrioTbl s q = None" for q
    using s'(9) [of q] o(5) [of q] that t by (cases "q = p") auto
  ultimately show ?case using s' s1(1) \<open>p \<noteq> 63\<close> by (intro exI [of _ s']) simp
qed simp

text \<open>A tick with stepping disabled: every task but the idle task is one tick closer to the end of its delay.\<close>

lemma OSTimeTick_ok:
  assumes b: "base_ok s pc" and st: "OSTickStepState s = 0"
  obtains s' where "OSTimeTick s = Inr s'" "base_ok s' pc" "OSPrioCur s' = OSPrioCur s" "OSLockNesting s' = OSLockNesting s"
    "OSIntNesting s' = OSIntNesting s" "OSEventTbl s' = OSEventTbl s" "OSQTbl s' = OSQTbl s"
    "\<And>p t. OSTCBPrioTbl s p = Some t \<Longrightarrow> p \<noteq> 63 \<Longrightarrow> \<exists>t'. OSTCBPrioTbl s' p = Some t' \<and> ticked t t'"
    "\<And>p. OSTCBPrioTbl s p = None \<Longrightarrow> OSTCBPrioTbl s' p = None" "OSTCBPrioTbl s' 63 = OSTCBPrioTbl s 63"
proof -
  let ?s = "s\<lparr>OSTime := OSTime s + 1, OSTickStepState := 0\<rparr>"
  have w: "waiting ev ?s = waiting ev s" for ev by (simp add: waiting_def)
  have "event_ok ?s = event_ok s" by (simp add: event_ok_def fun_eq_iff)
  moreover have "task_ok ?s c p t = task_ok s c p t" for c p t by (rule task_ok_cong) (simp_all add: w)
  ultimately have b1: "base_ok ?s pc" using b unfolding base_ok_def events_ok_def w by simp
  obtain l where l: "OSTCBList s = l @ [63]" "distinct (l @ [63])" "set (l @ [63]) = {p. OSTCBPrioTbl s p \<noteq> None}"
    and r: "OSRunning s" using b unfolding base_ok_def by blast
  then have ne: "\<And>p. p \<in> set l \<Longrightarrow> OSTCBPrioTbl ?s p \<noteq> None" by auto
  from tick_tasks_ok [OF b1 l(2) ne] obtain s' where s': "tick_tasks (l @ [63]) ?s = Inr s'" "base_ok s' pc" "OSPrioCur s' = OSPrioCur s"
    "OSLockNesting s' = OSLockNesting s" "OSIntNesting s' = OSIntNesting s" "OSEventTbl s' = OSEventTbl s" "OSQTbl s' = OSQTbl s"
    "\<And>p t. OSTCBPrioTbl s p = Some t \<Longrightarrow> \<exists>t'. OSTCBPrioTbl s' p = Some t' \<and> (if p \<in> set l then ticked t t' else t' = t)"
    "\<And>p. OSTCBPrioTbl s p = None \<Longrightarrow> OSTCBPrioTbl s' p = None" by auto
  have "OSTimeTick s = Inr s'" using s'(1) r st l(1) by (simp add: OSTimeTick_def Let_def)
  moreover have "\<exists>t'. OSTCBPrioTbl s' p = Some t' \<and> ticked t t'" if "OSTCBPrioTbl s p = Some t" "p \<noteq> 63" for p t
  proof -
    have "p \<in> set (l @ [63])" unfolding l(3) using that by simp
    then show ?thesis using s'(8) [OF that(1)] that(2) by auto
  qed
  moreover have "OSTCBPrioTbl s' 63 = OSTCBPrioTbl s 63"
    using s'(8) [of 63] s'(9) [of 63] l(2) by (cases "OSTCBPrioTbl s 63") auto
  ultimately show thesis using that [of s'] s' by blast
qed

section \<open>Delays, suspension, nesting\<close>

text \<open>States that differ outside of what the invariant looks at, or in what the events hold only.\<close>

lemma base_ok_same:
  assumes "base_ok s pc" and "events_ok s'" and "OSRunning s' = OSRunning s" "rdy_list s' = rdy_list s"
    "OSTCBPrioTbl s' = OSTCBPrioTbl s" "OSTCBList s' = OSTCBList s" "OSPrioCur s' = OSPrioCur s"
    and l: "0 < OSLockNesting s' \<Longrightarrow> pc (OSPrioCur s) = None"
    and w: "\<And>ev. waiting ev s' = waiting ev s"
    and ty: "\<And>ev. map_option OSEventType (OSEventTbl s' ev) = map_option OSEventType (OSEventTbl s ev)"
  shows "base_ok s' pc"
proof -
  have "task_ok s' c p t = task_ok s c p t" for c p t by (rule task_ok_cong) (simp_all add: w ty assms(4))
  with assms show ?thesis unfolding base_ok_def by simp
qed

lemma same_lists:
  assumes "OSEventTbl s' = OSEventTbl s"
  shows "waiting ev s' = waiting ev s" and "OSQTbl s' = OSQTbl s \<Longrightarrow> holds ev s' = holds ev s"
    and "OSQTbl s' = OSQTbl s \<Longrightarrow> events_ok s' = events_ok s"
  using assms by (simp_all add: waiting_def holds_def events_ok_def event_ok_def cong: option.case_cong)

lemma OS_Sched_fields:
  "OSEventTbl (OS_Sched s) = OSEventTbl s" "OSQTbl (OS_Sched s) = OSQTbl s" "OSTCBPrioTbl (OS_Sched s) = OSTCBPrioTbl s"
  "OSIntNesting (OS_Sched s) = OSIntNesting s" "OSLockNesting (OS_Sched s) = OSLockNesting s" "rdy_list (OS_Sched s) = rdy_list s"
  by (simp_all add: OS_Sched_def reschedule_def OS_SchedNew_def Let_def)

lemma nesting_ok:
  assumes "os_ok s pc"
  shows "os_ok (OSIntEnter s) pc" and "os_ok (OSIntExit s) pc" and "pc (OSPrioCur s) = None \<Longrightarrow> os_ok (OSSchedLock s) pc"
    and "os_ok (OSSchedUnlock s) pc"
proof -
  have b: "base_ok s pc" using assms by (simp add: os_ok_def)
  have n: "base_ok (s\<lparr>OSIntNesting := i\<rparr>) pc" "(0 < k \<Longrightarrow> pc (OSPrioCur s) = None) \<Longrightarrow> base_ok (s\<lparr>OSLockNesting := k\<rparr>) pc" for i k
  proof -
    have e: "OSEventTbl (s\<lparr>OSIntNesting := i\<rparr>) = OSEventTbl s" "OSEventTbl (s\<lparr>OSLockNesting := k\<rparr>) = OSEventTbl s" by simp_all
    note l = same_lists [OF e(1)] same_lists [OF e(2)]
    have ev: "events_ok (s\<lparr>OSIntNesting := i\<rparr>)" "events_ok (s\<lparr>OSLockNesting := k\<rparr>)"
      using base_okD(2) [OF b] l(3,6) by simp_all
    show "base_ok (s\<lparr>OSIntNesting := i\<rparr>) pc"
      using b by (intro base_ok_same [OF b ev(1)] l(1)) (simp_all add: base_ok_def)
    show "(0 < k \<Longrightarrow> pc (OSPrioCur s) = None) \<Longrightarrow> base_ok (s\<lparr>OSLockNesting := k\<rparr>) pc"
      by (intro base_ok_same [OF b ev(2)] l(4)) simp_all
  qed
  have p: "x < 255 \<Longrightarrow> x + 1 \<noteq> 0" for x :: u8
    using unat_Suc_less [of x 255] by auto
  have u: "0 < OSLockNesting s \<Longrightarrow> pc (OSPrioCur s) = None" using b by (simp add: base_ok_def)
  show "os_ok (OSIntEnter s) pc"
    using assms n(1) p unfolding OSIntEnter_def os_ok_def by auto
  show "os_ok (OSIntExit s) pc"
    using assms reschedule_ok(1) [OF n(1)] reschedule_ok(1) [OF b] n(1) b
    by (auto simp: OSIntExit_def Let_def os_ok_def [of "s\<lparr>OSIntNesting := i\<rparr>" for i])
  show "os_ok (OSSchedLock s) pc" if "pc (OSPrioCur s) = None"
    using assms n(2) p that unfolding OSSchedLock_def os_ok_def by auto
  show "os_ok (OSSchedUnlock s) pc"
    using assms OS_Sched_ok [OF n(2)] n(2) u
    by (auto simp: OSSchedUnlock_def Let_def os_ok_def [of "s\<lparr>OSLockNesting := i\<rparr>" for i])
qed

text \<open>A change of the control block of a task outside of all lists, and of its place in the ready list.\<close>

lemma task_change:
  assumes b: "base_ok s pc" and t: "OSTCBPrioTbl s p = Some t" and r: "tbl_ok r" "prios_of r - {p} = prios_of (rdy_list s) - {p}"
    and s': "s' = s\<lparr>OSTCBPrioTbl := (OSTCBPrioTbl s)(p \<mapsto> t'), rdy_list := r\<rparr>"
    and pr: "p \<in> prios_of r \<longleftrightarrow> OSTCBStat t' = 0 \<and> OSTCBDly t' = 0" and i: "p \<noteq> 63"
    and c: "pc p = None \<Longrightarrow> OSTCBStat t' AND NOT OS_STAT_SUSPEND = 0"
      "\<And>ev. pc p = Some ev \<Longrightarrow> in_pend s p t ev \<Longrightarrow> in_pend s' p t' ev"
  shows "base_ok s' pc" and "only_task p s s'" and "waiting ev s' = waiting ev s" and "holds ev s' = holds ev s"
proof -
  have e: "OSEventTbl s' = OSEventTbl s" "OSQTbl s' = OSQTbl s" by (simp_all add: s')
  note w = same_lists(1) [OF e(1)] same_lists(2) [OF e]
  show "waiting ev s' = waiting ev s" "holds ev s' = holds ev s" by (rule w)+
  have q: "q \<in> prios_of r \<longleftrightarrow> q \<in> prios_of (rdy_list s)" if "q \<noteq> p" for q using r(2) that by blast
  show o: "only_task p s s'" unfolding only_task_def w using t q by (simp add: s')
  have tk: "task_ok s (pc p) p t" by (rule base_okD(3) [OF b t])
  have "task_ok s' (pc p) p t'"
  proof (cases "pc p")
    case None
    then show ?thesis using tk pr c(1) unfolding task_ok_def w by (simp add: s')
  next
    case (Some ev)
    then show ?thesis using tk pr c(2) unfolding task_ok_def w by (simp add: s')
  qed
  moreover have "63 \<in> prios_of r" using b q i by (simp add: base_ok_def)
  ultimately show "base_ok s' pc"
    using b base_okD(2) [OF b] r(1) same_lists(3) [OF e] by (intro base_okI [OF b o, of t']) (simp_all add: s' base_ok_def)
qed

lemma OSTimeDly_ok:
  assumes o: "os_ok s pc" and pc: "pc (OSPrioCur s) = None" and ni: "OSPrioCur s \<noteq> 63"
  obtains s' where "OSTimeDly ticks s = Inr s'" "os_ok s' pc" "OSEventTbl s' = OSEventTbl s" "OSQTbl s' = OSQTbl s"
    "\<And>p. map_option OSTCBMsg (OSTCBPrioTbl s' p) = map_option OSTCBMsg (OSTCBPrioTbl s p)"
    "\<And>p. p \<noteq> OSPrioCur s \<Longrightarrow> OSTCBPrioTbl s' p = OSTCBPrioTbl s p"
proof (cases "OSIntNesting s = 0 \<and> OSLockNesting s = 0 \<and> ticks \<noteq> 0")
  case False
  then show ?thesis using that [of s] o by (auto simp: OSTimeDly_def word_gt_0)
next
  case True
  let ?c = "OSPrioCur s"
  have b: "base_ok s pc" using o by (simp add: os_ok_def)
  note bk = base_okD [OF b]
  obtain t where t: "OSTCBPrioTbl s ?c = Some t" "OSTCBStat t = 0" "OSTCBDly t = 0" "?c \<in> prios_of (rdy_list s)" "?c < 64"
    "task_ok s (pc ?c) ?c t" using running_ready [OF o] True by auto
  let ?r = "unmark ?c (rdy_list s)"
  define s1 where "s1 = s\<lparr>rdy_list := ?r, OSTCBPrioTbl := (OSTCBPrioTbl s)(?c \<mapsto> t\<lparr>OSTCBDly := ticks\<rparr>)\<rparr>"
  then have s1: "s1 = s\<lparr>OSTCBPrioTbl := (OSTCBPrioTbl s)(?c \<mapsto> t\<lparr>OSTCBDly := ticks\<rparr>), rdy_list := ?r\<rparr>" by simp
  have run: "OSTimeDly ticks s = Inr (OS_Sched s1)"
    using True t(1) by (simp add: OSTimeDly_def get_tcb_def put_tcb_def s1_def)
  have r: "tbl_ok ?r" "prios_of ?r = prios_of (rdy_list s) - {?c}" using pl.del [OF bk(1) t(5)] by simp_all
  have "prios_of ?r - {?c} = prios_of (rdy_list s) - {?c}" "?c \<in> prios_of ?r \<longleftrightarrow> OSTCBStat (t\<lparr>OSTCBDly := ticks\<rparr>) = 0 \<and> OSTCBDly (t\<lparr>OSTCBDly := ticks\<rparr>) = 0"
    using r(2) True by auto
  note tc = task_change [OF b t(1) r(1) this(1) s1 this(2) ni]
  have "base_ok s1 pc" using tc(1) t(2) pc by simp
  then have "os_ok (OS_Sched s1) pc" by (rule OS_Sched_ok)
  then show ?thesis using that [of "OS_Sched s1"] run t(1) by (simp add: OS_Sched_fields s1_def)
qed

lemma in_pend_stat:
  assumes "OSTCBStat t' AND NOT OS_STAT_SUSPEND = OSTCBStat t AND NOT OS_STAT_SUSPEND" "OSTCBStatPend t' = OSTCBStatPend t"
    "OSTCBDly t' = OSTCBDly t"
  shows "in_pend s p t' ev = in_pend s p t ev"
  using assms by (simp add: in_pend_def)

text \<open>While the events and who waits stay, being inside a call depends on the control block only.\<close>

lemma in_pend_same: "OSEventTbl s' = OSEventTbl s \<Longrightarrow> in_pend s' p t ev = in_pend s p t ev"
  by (rule in_pend_cong) (simp_all add: waiting_def)

lemma OSTaskSuspend_ok:
  assumes o: "os_ok s pc" and p: "prio < 63 \<or> prio = 255 \<and> OSPrioCur s \<noteq> 63"
  obtains err s' where "OSTaskSuspend prio s = Inr (err, s')" "os_ok s' pc" "OSEventTbl s' = OSEventTbl s" "OSQTbl s' = OSQTbl s"
    "\<And>p. map_option OSTCBMsg (OSTCBPrioTbl s' p) = map_option OSTCBMsg (OSTCBPrioTbl s p)"
    "\<And>p. map_option OSTCBStatPend (OSTCBPrioTbl s' p) = map_option OSTCBStatPend (OSTCBPrioTbl s p)"
proof -
  let ?p = "if prio = 255 then OSPrioCur s else prio"
  have b: "base_ok s pc" using o by (simp add: os_ok_def)
  note bk = base_okD [OF b]
  obtain c where c: "OSTCBPrioTbl s (OSPrioCur s) = Some c" using b by (auto simp: base_ok_def)
  have p63: "?p < 64" "?p \<noteq> 63" using p bk(5) [OF c] by auto
  show thesis
  proof (cases "OSTCBPrioTbl s ?p")
    case None
    have "\<not> 63 < ?p" using p63 by simp
    with None have "OSTaskSuspend prio s = Inr (if ?p \<in> OSTCBReserved s then 67 else 72, s)" unfolding OSTaskSuspend_def Let_def by simp
    then show thesis using that [of _ s] o by simp
  next
    case (Some t)
    let ?r = "unmark ?p (rdy_list s)" and ?t = "t\<lparr>OSTCBStat := OSTCBStat t OR OS_STAT_SUSPEND\<rparr>"
    define s1 where "s1 = s\<lparr>rdy_list := ?r, OSTCBPrioTbl := (OSTCBPrioTbl s)(?p \<mapsto> ?t)\<rparr>"
    then have s1: "s1 = s\<lparr>OSTCBPrioTbl := (OSTCBPrioTbl s)(?p \<mapsto> ?t), rdy_list := ?r\<rparr>" by simp
    have "\<not> 63 < ?p" using p63 by simp
    then have run: "OSTaskSuspend prio s = Inr (0, if ?p = OSPrioCur s then OS_Sched s1 else s1)"
      unfolding OSTaskSuspend_def Let_def Some s1_def put_tcb_def by simp
    define s2 where "s2 = (if ?p = OSPrioCur s then OS_Sched s1 else s1)"
    have r: "tbl_ok ?r" "prios_of ?r = prios_of (rdy_list s) - {?p}" using pl.del [OF bk(1) p63(1)] by simp_all
    have a: "prios_of ?r - {?p} = prios_of (rdy_list s) - {?p}" "?p \<in> prios_of ?r \<longleftrightarrow> OSTCBStat ?t = 0 \<and> OSTCBDly ?t = 0"
      using r(2) suspended_stat(2) by auto
    have st: "pc ?p = None \<Longrightarrow> OSTCBStat ?t AND NOT OS_STAT_SUSPEND = 0"
      using bk(3) [OF Some] suspended_stat(1) by (simp add: task_ok_def)
    have ip: "in_pend s1 ?p ?t ev" if "in_pend s ?p t ev" for ev
      using that in_pend_same [of s1 s] in_pend_stat [of ?t t] suspended_stat(1) by (simp add: s1_def)
    note tc = task_change [OF b Some r(1) a(1) s1 a(2) p63(2) st ip]
    have ok: "os_ok s2 pc"
    proof (cases "?p = OSPrioCur s")
      case True
      then have "s2 = OS_Sched s1" unfolding s2_def by (rule if_P)
      then show ?thesis using OS_Sched_ok [OF tc(1)] by simp
    next
      case False
      then have s2: "s2 = s1" unfolding s2_def by (rule if_not_P)
      have "OSPrioCur s = Min (prios_of ?r)" if "OSPrioCur s = Min (prios_of (rdy_list s))"
      proof -
        have ne: "prios_of (rdy_list s) \<noteq> {}" using b by (auto simp: base_ok_def)
        note f = pl.finite_prios [OF bk(1)]
        have "OSPrioCur s \<in> prios_of ?r" unfolding r(2) using Min_in [OF f ne] that False by simp
        moreover have "OSPrioCur s \<le> q" if "q \<in> prios_of ?r" for q
          using Min_le [OF f, of q] that \<open>OSPrioCur s = Min _\<close> unfolding r(2) by simp
        ultimately show ?thesis by (intro Min_eqI [OF pl.finite_prios [OF r(1)], symmetric])
      qed
      then show ?thesis using tc(1) o unfolding s2 os_ok_def by (simp add: s1_def)
    qed
    have f: "OSEventTbl s2 = OSEventTbl s" "OSQTbl s2 = OSQTbl s" "OSTCBPrioTbl s2 = (OSTCBPrioTbl s)(?p \<mapsto> ?t)"
      by (simp_all add: s2_def OS_Sched_fields s1_def)
    show thesis
      by (rule that [OF run [folded s2_def] ok f(1,2)]) (simp_all add: f(3) Some)
  qed
qed

lemma OSTaskResume_ok:
  assumes o: "os_ok s pc" and p: "prio < 63"
  obtains err s' where "OSTaskResume prio s = Inr (err, s')" "os_ok s' pc" "OSEventTbl s' = OSEventTbl s" "OSQTbl s' = OSQTbl s"
    "\<And>p. map_option OSTCBMsg (OSTCBPrioTbl s' p) = map_option OSTCBMsg (OSTCBPrioTbl s p)"
    "\<And>p. map_option OSTCBStatPend (OSTCBPrioTbl s' p) = map_option OSTCBStatPend (OSTCBPrioTbl s p)"
proof -
  have b: "base_ok s pc" using o by (simp add: os_ok_def)
  note bk = base_okD [OF b]
  have run: "OSRunning s" using b by (simp add: base_ok_def)
  show thesis
  proof (cases "\<exists>t. OSTCBPrioTbl s prio = Some t \<and> OSTCBStat t AND OS_STAT_SUSPEND \<noteq> 0")
    case False
    then have "\<exists>err. OSTaskResume prio s = Inr (err, s)" using p by (cases "OSTCBPrioTbl s prio") (simp_all add: OSTaskResume_def)
    then obtain err where "OSTaskResume prio s = Inr (err, s)" ..
    then show thesis using that [of err s] o by simp
  next
    case True
    then obtain t where t: "OSTCBPrioTbl s prio = Some t" "OSTCBStat t AND OS_STAT_SUSPEND \<noteq> 0" by blast
    let ?t = "t\<lparr>OSTCBStat := OSTCBStat t AND NOT OS_STAT_SUSPEND\<rparr>"
    let ?go = "OSTCBStat ?t = 0 \<and> OSTCBDly ?t = 0"
    define r where "r = (if ?go then mark prio (rdy_list s) else rdy_list s)"
    define s1 where "s1 = s\<lparr>OSTCBPrioTbl := (OSTCBPrioTbl s)(prio \<mapsto> ?t), rdy_list := r\<rparr>"
    have run: "OSTaskResume prio s = Inr (0, if ?go then OS_Sched s1 else s1)"
      using t p run by (simp add: OSTaskResume_def Let_def put_tcb_def s1_def r_def)
    define s2 where "s2 = (if ?go then OS_Sched s1 else s1)"
    have r: "tbl_ok r" "prios_of r = (if ?go then insert prio (prios_of (rdy_list s)) else prios_of (rdy_list s))"
      using pl.add [OF bk(1), of prio] bk(1) p by (simp_all add: r_def)
    have "OSTCBStat t \<noteq> 0" using t(2) by auto
    then have np: "prio \<notin> prios_of (rdy_list s)" using bk(3) [OF t(1)] by (simp add: task_ok_def)
    have a: "prios_of r - {prio} = prios_of (rdy_list s) - {prio}" "prio \<in> prios_of r \<longleftrightarrow> OSTCBStat ?t = 0 \<and> OSTCBDly ?t = 0"
      using r(2) np by auto
    have st: "pc prio = None \<Longrightarrow> OSTCBStat ?t AND NOT OS_STAT_SUSPEND = 0"
      using bk(3) [OF t(1)] by (simp add: task_ok_def and.assoc)
    have ip: "in_pend s1 prio ?t ev" if "in_pend s prio t ev" for ev
      using that in_pend_same [of s1 s] in_pend_stat [of ?t t] by (simp add: s1_def and.assoc)
    have p63: "prio \<noteq> 63" using p by simp
    note tc = task_change [OF b t(1) r(1) a(1) s1_def a(2) p63 st ip]
    have ok: "os_ok s2 pc"
    proof (cases ?go)
      case True
      then have "s2 = OS_Sched s1" unfolding s2_def by (rule if_P)
      then show ?thesis using OS_Sched_ok [OF tc(1)] by simp
    next
      case False
      then have "s2 = s1" "r = rdy_list s" unfolding s2_def r_def by (rule if_not_P)+
      then show ?thesis using tc(1) o unfolding os_ok_def by (simp add: s1_def)
    qed
    have f: "OSEventTbl s2 = OSEventTbl s" "OSQTbl s2 = OSQTbl s" "OSTCBPrioTbl s2 = (OSTCBPrioTbl s)(prio \<mapsto> ?t)"
      by (simp_all add: s2_def OS_Sched_fields s1_def)
    show thesis
      by (rule that [OF run [folded s2_def] ok f(1,2)]) (simp_all add: f(3) t(1))
  qed
qed

section \<open>What the events hold\<close>

lemma store_ok:
  assumes b: "base_ok s pc" and e: "OSEventTbl s ev = Some e" and ty: "OSEventType e = OS_EVENT_TYPE_Q"
    and q: "q_ok q1" "waiting ev s \<noteq> {} \<Longrightarrow> q_msgs q1 = []"
  shows "base_ok (put_q (OSEventPtr e) q1 s) pc" and "waiting ev' (put_q (OSEventPtr e) q1 s) = waiting ev' s"
    and "holds ev' (put_q (OSEventPtr e) q1 s) = (if ev' = ev then q_msgs q1 else holds ev' s)"
proof -
  let ?s = "put_q (OSEventPtr e) q1 s"
  note bk = base_okD [OF b]
  have f: "OSEventTbl ?s = OSEventTbl s" "OSQTbl ?s = (OSQTbl s)(OSEventPtr e \<mapsto> q1)" by (simp_all add: put_q_def)
  show w: "waiting ev' ?s = waiting ev' s" for ev' by (rule same_lists(1) [OF f(1)])
  have own: "ev' = ev" if "OSEventTbl s ev' = Some e'" "OSEventType e' = OS_EVENT_TYPE_Q" "OSEventPtr e' = OSEventPtr e" for ev' e'
    using event_at [OF bk(2) e] that ty unfolding event_ok_def by blast
  have m: "event_msgs (OSQTbl ?s) e' = (if ev' = ev then q_msgs q1 else event_msgs (OSQTbl s) e')" if "OSEventTbl s ev' = Some e'" for ev' e'
    using own [OF that] that e ty unfolding f(2) event_msgs_def by auto
  show "holds ev' ?s = (if ev' = ev then q_msgs q1 else holds ev' s)"
    using m [of ev'] e unfolding holds_def f(1) by (cases "OSEventTbl s ev'") auto
  have "event_ok ?s ev' e'" if h: "OSEventTbl s ev' = Some e'" for ev' e'
  proof -
    note old = event_at [OF bk(2) h, unfolded event_ok_def]
    have "prios_of (wait_list e') \<noteq> {} \<longrightarrow> event_msgs (OSQTbl ?s) e' = []"
      using m [OF h] q(2) old waiting_in [OF h] by (cases "ev' = ev") auto
    moreover have "OSEventType e' = OS_EVENT_TYPE_Q \<Longrightarrow> \<exists>q. OSQTbl ?s (OSEventPtr e') = Some q \<and> q_ok q"
      using old q(1) unfolding f(2) by (cases "OSEventPtr e' = OSEventPtr e") auto
    ultimately show ?thesis using old unfolding event_ok_def f(1) by blast
  qed
  then have "events_ok ?s" by (simp add: events_ok_def f(1))
  then show "base_ok ?s pc"
    using b by (intro base_ok_same [OF b _ _ _ _ _ _ _ w]) (simp_all add: put_q_def base_ok_def)
qed

lemma count_ok:
  assumes b: "base_ok s pc" and e: "OSEventTbl s ev = Some e" and ty: "OSEventType e = OS_EVENT_TYPE_SEM"
    and w: "waiting ev s \<noteq> {} \<Longrightarrow> c = 0"
  defines "s' \<equiv> put_event ev (e\<lparr>OSEventCnt := c\<rparr>) s"
  shows "base_ok s' pc" and "waiting ev' s' = waiting ev' s"
    and "holds ev' s' = (if ev' = ev then replicate (unat c) 0 else holds ev' s)"
proof -
  note bk = base_okD [OF b]
  have f: "OSEventTbl s' = (OSEventTbl s)(ev \<mapsto> e\<lparr>OSEventCnt := c\<rparr>)" "OSQTbl s' = OSQTbl s" by (simp_all add: put_event_def s'_def)
  show w': "waiting ev' s' = waiting ev' s" for ev' using e by (simp add: waiting_def f(1))
  have m: "event_msgs qs (e\<lparr>OSEventCnt := k\<rparr>) = replicate (unat k) 0" for qs k using ty by (simp add: event_msgs_def)
  show "holds ev' s' = (if ev' = ev then replicate (unat c) 0 else holds ev' s)"
    unfolding holds_def f by (cases "ev' = ev") (simp_all add: m)
  have old: "event_ok s ev' e'" if "OSEventTbl s ev' = Some e'" for ev' e' by (rule event_at [OF bk(2) that])
  have "event_ok s' ev' e'" if h: "OSEventTbl s' ev' = Some e'" for ev' e'
  proof (cases "ev' = ev")
    case True
    then have "e' = e\<lparr>OSEventCnt := c\<rparr>" using h f(1) by simp
    then show ?thesis using old [OF e] w ty waiting_in [OF e] m by (auto simp: event_ok_def)
  next
    case False
    then have "OSEventTbl s ev' = Some e'" using h f(1) by simp
    then show ?thesis using old [of ev' e'] False ty unfolding event_ok_def f by (auto split: if_splits)
  qed
  then have "events_ok s'" by (simp add: events_ok_def)
  moreover have "map_option OSEventType (OSEventTbl s' ev') = map_option OSEventType (OSEventTbl s ev')" for ev'
    using e by (simp add: f(1))
  ultimately show "base_ok s' pc"
    using b by (intro base_ok_same [OF b _ _ _ _ _ _ _ w']) (simp_all add: s'_def put_event_def base_ok_def)
qed

text \<open>A message that a task has been given but has not taken yet; of a semaphore it is always 0.\<close>

definition event_type :: "nat \<Rightarrow> os \<Rightarrow> u8 option" where
  "event_type ev s = map_option OSEventType (OSEventTbl s ev)"

definition in_hand :: "os \<Rightarrow> (nat \<Rightarrow> nat option) \<Rightarrow> nat \<Rightarrow> (nat \<times> u32) list" where
  "in_hand s pc p = (case pc p of None \<Rightarrow> [] | Some ev \<Rightarrow>
     if p \<in> waiting ev s then []
     else [(ev, if event_type ev s = Some OS_EVENT_TYPE_Q then (case OSTCBPrioTbl s p of None \<Rightarrow> 0 | Some t \<Rightarrow> OSTCBMsg t) else 0)])"

text \<open>Three ways in which a call changes what there is to hand on: not at all, a change of what an event holds, a hand-over.\<close>

definition quiet :: "(nat \<Rightarrow> nat option) \<Rightarrow> os \<Rightarrow> os \<Rightarrow> bool" where
  "quiet pc s s' \<longleftrightarrow> (\<forall>ev. holds ev s' = holds ev s) \<and> (\<forall>p. in_hand s' pc p = in_hand s pc p)"

definition stored :: "(nat \<Rightarrow> nat option) \<Rightarrow> nat \<Rightarrow> u32 list \<Rightarrow> os \<Rightarrow> os \<Rightarrow> bool" where
  "stored pc ev ms s s' \<longleftrightarrow> (\<forall>ev'. holds ev' s' = (if ev' = ev then ms else holds ev' s)) \<and>
     (\<forall>p. in_hand s' pc p = in_hand s pc p)"

definition handed :: "(nat \<Rightarrow> nat option) \<Rightarrow> nat \<Rightarrow> nat \<Rightarrow> u32 \<Rightarrow> os \<Rightarrow> os \<Rightarrow> bool" where
  "handed pc p ev m s s' \<longleftrightarrow> (\<forall>ev'. holds ev' s' = holds ev' s) \<and> holds ev s = [] \<and> in_hand s pc p = [] \<and>
     (\<forall>q. in_hand s' pc q = (if q = p then [(ev, m)] else in_hand s pc q))"

lemma in_hand_cong:
  assumes "\<And>ev. pc p = Some ev \<Longrightarrow> p \<in> waiting ev s' \<longleftrightarrow> p \<in> waiting ev s" and "\<And>ev. event_type ev s' = event_type ev s"
    and "map_option OSTCBMsg (OSTCBPrioTbl s' p) = map_option OSTCBMsg (OSTCBPrioTbl s p)"
  shows "in_hand s' pc p = in_hand s pc p"
  using assms unfolding in_hand_def by (cases "OSTCBPrioTbl s p"; cases "OSTCBPrioTbl s' p") (auto split: option.splits)

lemma quietI:
  assumes "\<And>ev. holds ev s' = holds ev s" "\<And>ev. waiting ev s' = waiting ev s" "\<And>ev. event_type ev s' = event_type ev s"
    "\<And>p. map_option OSTCBMsg (OSTCBPrioTbl s' p) = map_option OSTCBMsg (OSTCBPrioTbl s p)"
  shows "quiet pc s s'"
  using assms unfolding quiet_def by (auto intro!: in_hand_cong)

lemma quiet_same: "OSEventTbl s' = OSEventTbl s \<Longrightarrow> OSQTbl s' = OSQTbl s \<Longrightarrow> OSTCBPrioTbl s' = OSTCBPrioTbl s \<Longrightarrow> quiet pc s s'"
  by (rule quietI) (simp_all add: waiting_def holds_def event_type_def cong: option.case_cong)

lemma quiet_tbl:
  assumes "OSEventTbl s' = OSEventTbl s" "OSQTbl s' = OSQTbl s"
    "\<And>p. map_option OSTCBMsg (OSTCBPrioTbl s' p) = map_option OSTCBMsg (OSTCBPrioTbl s p)"
  shows "quiet pc s s'"
  by (rule quietI [OF same_lists(2) [OF assms(1,2)] same_lists(1) [OF assms(1)] _ assms(3)]) (simp add: event_type_def assms(1))

lemma quiet_refl: "quiet pc s s" by (simp add: quiet_def)

lemma in_hand_Sched [simp]: "in_hand (OS_Sched s) pc p = in_hand s pc p"
  by (rule in_hand_cong) (simp_all add: same_lists(1) [OF OS_Sched_fields(1)] event_type_def OS_Sched_fields)

lemma holds_Sched [simp]: "holds ev (OS_Sched s) = holds ev s"
  by (rule same_lists(2) [OF OS_Sched_fields(1,2)])

lemma handed_Sched: "handed pc p ev m s (OS_Sched s') = handed pc p ev m s s'"
  by (simp add: handed_def)

text \<open>A hand-over, as both kinds of events make it.\<close>

lemma hand_over_ok:
  assumes o: "os_ok s pc" and e: "OSEventTbl s ev = Some e" and ne: "waiting ev s \<noteq> {}" and m: "OSEventType e = OS_EVENT_TYPE_Q \<or> m = 0"
  obtains s' where "OS_EventTaskRdy ev m (pend_bit (OSEventType e)) 0 s = Inr (Min (waiting ev s), s')"
    "os_ok (OS_Sched s') pc" "handed pc (Min (waiting ev s)) ev m s (OS_Sched s')"
proof -
  let ?p = "Min (waiting ev s)"
  have b: "base_ok s pc" using o by (simp add: os_ok_def)
  obtain t t' s' where r: "OS_EventTaskRdy ev m (pend_bit (OSEventType e)) 0 s = Inr (?p, s')" "base_ok s' pc" "only_task ?p s s'"
    "pc ?p = Some ev" "OSTCBPrioTbl s ?p = Some t" "OSTCBPrioTbl s' ?p = Some t'" "OSTCBMsg t' = m" "OSTCBStatPend t' = 0"
    "\<And>ev'. holds ev' s' = holds ev' s" "\<And>ev'. waiting ev' s' = (if ev' = ev then waiting ev s - {?p} else waiting ev' s)"
    by (rule EventTaskRdy_ok [OF b e ne, where m = m]) (rule that)
  have ty: "event_type ev' s' = event_type ev' s" for ev' using r(3) by (simp add: only_task_def event_type_def)
  have fin: "finite (waiting ev s)"
    using event_at [OF base_okD(2) [OF b] e] waiting_in [OF e] pl.finite_prios by (simp add: event_ok_def)
  have p: "?p \<in> waiting ev s" by (rule Min_in [OF fin ne])
  have "in_hand s' pc q = (if q = ?p then [(ev, m)] else in_hand s pc q)" for q
  proof (cases "q = ?p")
    case True
    then show ?thesis using r(4,6,7,10) e m ty [of ev] by (auto simp: in_hand_def event_type_def)
  next
    case False
    then show ?thesis using only_taskD(5) [OF r(3), of q] r(10) ty by (auto intro!: in_hand_cong split: if_splits)
  qed
  moreover have "in_hand s pc ?p = []" using r(4) p by (simp add: in_hand_def)
  moreover have "holds ev s = []"
    using event_at [OF base_okD(2) [OF b] e] waiting_in [OF e] ne e by (simp add: event_ok_def holds_def)
  ultimately have "handed pc ?p ev m s s'" using r(9) by (simp add: handed_def)
  then show thesis using that [of s'] r(1,2) OS_Sched_ok [of s' pc] by (simp add: handed_Sched)
qed

section \<open>Calls on queues and semaphores\<close>

lemma event_facts:
  assumes "base_ok s pc" and "OSEventTbl s ev = Some e"
  shows "Grp (wait_list e) = 0 \<longleftrightarrow> waiting ev s = {}" and "get_event ev s = Inr e"
    and "OSEventType e = OS_EVENT_TYPE_Q \<Longrightarrow> \<exists>q. get_q (OSEventPtr e) s = Inr q \<and> q_ok q \<and> holds ev s = q_msgs q"
    and "OSEventType e = OS_EVENT_TYPE_SEM \<Longrightarrow> holds ev s = replicate (unat (OSEventCnt e)) 0"
    and "waiting ev s \<noteq> {} \<Longrightarrow> holds ev s = []"
proof -
  note eo = event_at [OF base_okD(2) [OF assms(1)] assms(2), unfolded event_ok_def]
  show "Grp (wait_list e) = 0 \<longleftrightarrow> waiting ev s = {}" using eo pl.empty waiting_in [OF assms(2)] by simp
  show "get_event ev s = Inr e" using assms(2) by (simp add: get_event_def)
  show "OSEventType e = OS_EVENT_TYPE_Q \<Longrightarrow> \<exists>q. get_q (OSEventPtr e) s = Inr q \<and> q_ok q \<and> holds ev s = q_msgs q"
    using eo assms(2) by (auto simp: get_q_def holds_def event_msgs_def)
  show "OSEventType e = OS_EVENT_TYPE_SEM \<Longrightarrow> holds ev s = replicate (unat (OSEventCnt e)) 0"
    using assms(2) by (simp add: holds_def event_msgs_def)
  show "waiting ev s \<noteq> {} \<Longrightarrow> holds ev s = []" using eo waiting_in [OF assms(2)] assms(2) by (simp add: holds_def)
qed

text \<open>Storing and taking leave the ready list and the control blocks of the tasks alone.\<close>

lemma stored_ok:
  assumes o: "os_ok s pc" and b: "base_ok s' pc" and f: "rdy_list s' = rdy_list s" "OSPrioCur s' = OSPrioCur s"
    "OSIntNesting s' = OSIntNesting s" "OSLockNesting s' = OSLockNesting s" "OSTCBPrioTbl s' = OSTCBPrioTbl s"
    and w: "\<And>ev. waiting ev s' = waiting ev s" and ty: "\<And>ev. event_type ev s' = event_type ev s"
    and h: "\<And>ev'. holds ev' s' = (if ev' = ev then ms else holds ev' s)"
  shows "os_ok s' pc" and "stored pc ev ms s s'"
proof -
  show "os_ok s' pc" using o b f by (simp add: os_ok_def)
  show "stored pc ev ms s s'" unfolding stored_def using h f(5) w ty by (auto intro!: in_hand_cong)
qed

lemma put_q_stored:
  assumes o: "os_ok s pc" and e: "OSEventTbl s ev = Some e" and ty: "OSEventType e = OS_EVENT_TYPE_Q"
    and q: "q_ok q1" "waiting ev s \<noteq> {} \<Longrightarrow> q_msgs q1 = []"
  shows "os_ok (put_q (OSEventPtr e) q1 s) pc" and "stored pc ev (q_msgs q1) s (put_q (OSEventPtr e) q1 s)"
proof -
  have b: "base_ok s pc" using o by (simp add: os_ok_def)
  note st = store_ok [OF b e ty q]
  show "os_ok (put_q (OSEventPtr e) q1 s) pc" "stored pc ev (q_msgs q1) s (put_q (OSEventPtr e) q1 s)"
    by (rule stored_ok [OF o st(1) _ _ _ _ _ st(2) _ st(3)]; simp add: put_q_def event_type_def)+
qed

lemma put_count_stored:
  assumes o: "os_ok s pc" and e: "OSEventTbl s ev = Some e" and ty: "OSEventType e = OS_EVENT_TYPE_SEM"
    and w: "waiting ev s \<noteq> {} \<Longrightarrow> c = 0"
  shows "os_ok (put_event ev (e\<lparr>OSEventCnt := c\<rparr>) s) pc"
    and "stored pc ev (replicate (unat c) 0) s (put_event ev (e\<lparr>OSEventCnt := c\<rparr>) s)"
proof -
  have b: "base_ok s pc" using o by (simp add: os_ok_def)
  note st = count_ok [OF b e ty w]
  show "os_ok (put_event ev (e\<lparr>OSEventCnt := c\<rparr>) s) pc" "stored pc ev (replicate (unat c) 0) s (put_event ev (e\<lparr>OSEventCnt := c\<rparr>) s)"
    by (rule stored_ok [OF o st(1) _ _ _ _ _ st(2) _ st(3)]; simp add: put_event_def event_type_def e)+
qed

lemma OSQPost_ok:
  assumes o: "os_ok s pc" and e: "OSEventTbl s ev = Some e"
  obtains err s' where "OSQPost ev m s = Inr (err, s')" "os_ok s' pc"
    "err = 0 \<Longrightarrow> if waiting ev s \<noteq> {} then handed pc (Min (waiting ev s)) ev m s s' else stored pc ev (holds ev s @ [m]) s s'"
    "err \<noteq> 0 \<Longrightarrow> s' = s"
    "OSEventType e = OS_EVENT_TYPE_Q \<Longrightarrow> err \<noteq> 0 \<Longrightarrow> waiting ev s = {} \<and>
       (\<exists>q. OSQTbl s (OSEventPtr e) = Some q \<and> length (holds ev s) = unat (OSQSize q))"
proof -
  have b: "base_ok s pc" using o by (simp add: os_ok_def)
  note ef = event_facts [OF b e]
  show thesis
  proof (cases "OSEventType e = OS_EVENT_TYPE_Q")
    case False
    then show thesis using that [of 1 s] o by (simp add: OSQPost_def ef(2))
  next
    case ty: True
    show thesis
    proof (cases "waiting ev s = {}")
      case False
      obtain s1 where "OS_EventTaskRdy ev m (pend_bit (OSEventType e)) 0 s = Inr (Min (waiting ev s), s1)"
        "os_ok (OS_Sched s1) pc" "handed pc (Min (waiting ev s)) ev m s (OS_Sched s1)"
        by (rule hand_over_ok [OF o e False disjI1 [OF ty]]) (rule that)
      then show thesis using that [of 0 "OS_Sched s1"] False ty ef(1) by (simp add: OSQPost_def ef(2) pend_bit_def)
    next
      case w: True
      obtain q where q: "get_q (OSEventPtr e) s = Inr q" "q_ok q" "holds ev s = q_msgs q" using ef(3) [OF ty] by blast
      then have qt: "OSQTbl s (OSEventPtr e) = Some q" by (simp add: get_q_def split: option.splits)
      show thesis
      proof (cases "OSQSize q \<le> OSQEntries q")
        case True
        then have "length (holds ev s) = unat (OSQSize q)" using q by (auto simp: q_ok_def word_le_nat_alt)
        then show thesis using that [of 30 s] o w ty True q qt ef(1) by (simp add: OSQPost_def ef(2) q_store_def)
      next
        case False
        then obtain q1 where q1: "q_put m q = Inr q1" "q_ok q1" "q_msgs q1 = q_msgs q @ [m]"
          using q_put_ok [OF q(2), of m] by (auto simp: q_full)
        have "waiting ev s \<noteq> {} \<Longrightarrow> q_msgs q1 = []" using w by simp
        note ps = put_q_stored [OF o e ty q1(2) this]
        then show thesis using that [of 0 "put_q (OSEventPtr e) q1 s"] False w ty q q1 ef(1)
          by (simp add: OSQPost_def ef(2) q_store_def)
      qed
    qed
  qed
qed

lemma replicate_snoc: "replicate (Suc n) x = replicate n x @ [x]"
  by (simp flip: replicate_append_same)

lemma OSSemPost_ok:
  assumes o: "os_ok s pc" and e: "OSEventTbl s ev = Some e"
  obtains err s' where "OSSemPost ev s = Inr (err, s')" "os_ok s' pc"
    "err = 0 \<Longrightarrow> if waiting ev s \<noteq> {} then handed pc (Min (waiting ev s)) ev 0 s s' else stored pc ev (holds ev s @ [0]) s s'"
    "err \<noteq> 0 \<Longrightarrow> s' = s"
proof -
  have b: "base_ok s pc" using o by (simp add: os_ok_def)
  note ef = event_facts [OF b e]
  show thesis
  proof (cases "OSEventType e = OS_EVENT_TYPE_SEM")
    case False
    then show thesis using that [of 1 s] o by (simp add: OSSemPost_def ef(2))
  next
    case ty: True
    show thesis
    proof (cases "waiting ev s = {}")
      case False
      obtain s1 where "OS_EventTaskRdy ev 0 (pend_bit (OSEventType e)) 0 s = Inr (Min (waiting ev s), s1)"
        "os_ok (OS_Sched s1) pc" "handed pc (Min (waiting ev s)) ev 0 s (OS_Sched s1)"
        by (rule hand_over_ok [OF o e False disjI2 [OF refl]]) (rule that)
      then show thesis using that [of 0 "OS_Sched s1"] False ty ef(1) by (simp add: OSSemPost_def ef(2) pend_bit_def)
    next
      case w: True
      show thesis
      proof (cases "OSEventCnt e < 65535")
        case False
        then show thesis using that [of 51 s] o w ty ef(1) by (simp add: OSSemPost_def ef(2))
      next
        case True
        have "waiting ev s \<noteq> {} \<Longrightarrow> OSEventCnt e + 1 = 0" using w by simp
        note ps = put_count_stored [OF o e ty this]
        have "replicate (unat (OSEventCnt e + 1)) (0 :: u32) = holds ev s @ [0]"
          unfolding ef(4) [OF ty] unat_Suc_less [OF True] by (rule replicate_snoc)
        then show thesis using that [of 0 "put_event ev (e\<lparr>OSEventCnt := OSEventCnt e + 1\<rparr>) s"] True w ty ef(1) ps
          by (simp add: OSSemPost_def ef(2))
      qed
    qed
  qed
qed

text \<open>Taking from an event that holds something, and waiting for one that does not.\<close>

lemma take_q_ok:
  assumes o: "os_ok s pc" and e: "OSEventTbl s ev = Some e" and ty: "OSEventType e = OS_EVENT_TYPE_Q"
  obtains (empty) q where "get_q (OSEventPtr e) s = Inr q" "OSQEntries q = 0" "holds ev s = []"
  | (full) q m q1 where "get_q (OSEventPtr e) s = Inr q" "0 < OSQEntries q" "q_take q = Inr (m, q1)"
      "holds ev s = m # tl (holds ev s)" "os_ok (put_q (OSEventPtr e) q1 s) pc" "stored pc ev (tl (holds ev s)) s (put_q (OSEventPtr e) q1 s)"
proof -
  have b: "base_ok s pc" using o by (simp add: os_ok_def)
  note ef = event_facts [OF b e]
  obtain q where q: "get_q (OSEventPtr e) s = Inr q" "q_ok q" "holds ev s = q_msgs q" using ef(3) [OF ty] by blast
  show thesis
  proof (cases "OSQEntries q = 0")
    case True
    then show thesis using empty q q_msgs_empty by simp
  next
    case False
    then obtain m ms where m: "q_msgs q = m # ms" using q_msgs_empty by (cases "q_msgs q") auto
    obtain q1 where q1: "q_take q = Inr (m, q1)" "q_ok q1" "q_msgs q1 = ms" using q_take_ok [OF q(2) m] by blast
    have "waiting ev s \<noteq> {} \<Longrightarrow> q_msgs q1 = []" using ef(5) q(3) m by simp
    note ps = put_q_stored [OF o e ty q1(2) this]
    show thesis
      by (rule full [OF q(1) _ q1(1)]) (use False q(3) m ps q1(3) in \<open>simp_all add: word_gt_0\<close>)
  qed
qed

lemma take_count_ok:
  assumes o: "os_ok s pc" and e: "OSEventTbl s ev = Some e" and ty: "OSEventType e = OS_EVENT_TYPE_SEM" and c: "0 < OSEventCnt e"
  defines "s' \<equiv> put_event ev (e\<lparr>OSEventCnt := OSEventCnt e - 1\<rparr>) s"
  shows "holds ev s = 0 # tl (holds ev s)" and "os_ok s' pc" and "stored pc ev (tl (holds ev s)) s s'"
proof -
  have b: "base_ok s pc" using o by (simp add: os_ok_def)
  note ef = event_facts [OF b e]
  have u: "unat (OSEventCnt e) = Suc (unat (OSEventCnt e - 1))" using c by (simp add: unat_minus_one word_gt_0 unat_gt_0)
  have h: "holds ev s = 0 # replicate (unat (OSEventCnt e - 1)) 0" unfolding ef(4) [OF ty] u by simp
  then have w: "waiting ev s \<noteq> {} \<Longrightarrow> OSEventCnt e - 1 = 0" using ef(5) by auto
  show "holds ev s = 0 # tl (holds ev s)" using h by simp
  show "os_ok s' pc" "stored pc ev (tl (holds ev s)) s s'"
    using put_count_stored [OF o e ty w] h by (simp_all add: s'_def)
qed

lemma block_quiet:
  assumes o: "os_ok s pc" and i: "OSIntNesting s = 0" "OSLockNesting s = 0" and e: "OSEventTbl s ev = Some e"
    and ty: "OSEventType e \<in> {2, 3}" and h: "holds ev s = []" and pc: "pc (OSPrioCur s) = None" and ni: "OSPrioCur s \<noteq> 63"
  obtains s' where "block_on ev (pend_bit (OSEventType e)) timeout s = Inr s'" "os_ok s' (pc(OSPrioCur s := Some ev))"
    "\<And>ev'. holds ev' s' = holds ev' s" "\<And>p. in_hand s' (pc(OSPrioCur s := Some ev)) p = in_hand s pc p"
proof -
  obtain s' where s': "block_on ev (pend_bit (OSEventType e)) timeout s = Inr s'" "os_ok s' (pc(OSPrioCur s := Some ev))"
    "\<And>ev'. holds ev' s' = holds ev' s"
    "\<And>ev'. waiting ev' s' = (if ev' = ev then insert (OSPrioCur s) (waiting ev s) else waiting ev' s)"
    "\<And>q. q \<noteq> OSPrioCur s \<Longrightarrow> OSTCBPrioTbl s' q = OSTCBPrioTbl s q"
    "\<And>ev'. map_option OSEventType (OSEventTbl s' ev') = map_option OSEventType (OSEventTbl s ev')"
    by (rule block_on_ok [OF o i e ty h pc ni]) (rule that)
  have "in_hand s' (pc(OSPrioCur s := Some ev)) p = in_hand s pc p" for p
  proof (cases "p = OSPrioCur s")
    case True
    then show ?thesis using s'(4) pc by (simp add: in_hand_def)
  next
    case False
    then have "in_hand s' pc p = in_hand s pc p" using s'(4,5,6) by (intro in_hand_cong) (auto simp: event_type_def)
    then show ?thesis using False by (simp add: in_hand_def)
  qed
  then show thesis using that [of s'] s'(1,2,3) by simp
qed

definition took :: "(nat \<Rightarrow> nat option) \<Rightarrow> nat \<Rightarrow> u32 \<Rightarrow> os \<Rightarrow> os \<Rightarrow> bool" where
  "took pc ev m s s' \<longleftrightarrow> holds ev s = m # tl (holds ev s) \<and> stored pc ev (tl (holds ev s)) s s'"

lemma OSQPend_ok:
  assumes o: "os_ok s pc" and e: "OSEventTbl s ev = Some e" and pc: "pc (OSPrioCur s) = None" and ni: "OSPrioCur s \<noteq> 63"
  obtains (completed) m err s' where "OSQPend ev timeout s = Inr (Done m err, s')" "os_ok s' pc"
      "err = 0 \<Longrightarrow> took pc ev m s s'" "err \<noteq> 0 \<Longrightarrow> s' = s"
  | (blocked) s' where "OSQPend ev timeout s = Inr (Blocked, s')" "os_ok s' (pc(OSPrioCur s := Some ev))"
      "\<And>ev'. holds ev' s' = holds ev' s" "\<And>p. in_hand s' (pc(OSPrioCur s := Some ev)) p = in_hand s pc p"
proof -
  note g = event_facts(2) [OF _ e, of pc] o [unfolded os_ok_def]
  show thesis
  proof (cases "OSEventType e = OS_EVENT_TYPE_Q \<and> OSIntNesting s = 0 \<and> OSLockNesting s = 0")
    case False
    have "\<exists>err. err \<noteq> 0 \<and> OSQPend ev timeout s = Inr (Done 0 err, s)"
    proof (cases "OSEventType e = OS_EVENT_TYPE_Q")
      case True
      then show ?thesis using False g by (cases "OSIntNesting s = 0") (auto simp: OSQPend_def word_gt_0)
    qed (use g in \<open>simp add: OSQPend_def\<close>)
    then obtain err :: u8 where "err \<noteq> 0" "OSQPend ev timeout s = Inr (Done 0 err, s)" by blast
    then show thesis using completed [of 0 err s] o by simp
  next
    case True
    then have ty: "OSEventType e = OS_EVENT_TYPE_Q" and i: "OSIntNesting s = 0" "OSLockNesting s = 0" by simp_all
    show thesis
    proof (cases rule: take_q_ok [OF o e ty])
      case (1 q)
      obtain s' where s': "block_on ev (pend_bit (OSEventType e)) timeout s = Inr s'" "os_ok s' (pc(OSPrioCur s := Some ev))"
        "\<And>ev'. holds ev' s' = holds ev' s" "\<And>p. in_hand s' (pc(OSPrioCur s := Some ev)) p = in_hand s pc p"
        by (rule block_quiet [OF o i e _ 1(3) pc ni, where timeout = timeout]) (use ty in simp, rule that)
      have "OSQPend ev timeout s = Inr (Blocked, s')" using g 1(1,2) ty i s'(1) by (simp add: OSQPend_def pend_bit_def)
      then show thesis using blocked s'(2,3,4) by blast
    next
      case (2 q m q1)
      have "OSQPend ev timeout s = Inr (Done m 0, put_q (OSEventPtr e) q1 s)" using g 2(1,2,3) ty i by (simp add: OSQPend_def)
      then show thesis using completed 2(4,5,6) by (simp add: took_def)
    qed
  qed
qed

lemma OSSemPend_ok:
  assumes o: "os_ok s pc" and e: "OSEventTbl s ev = Some e" and pc: "pc (OSPrioCur s) = None" and ni: "OSPrioCur s \<noteq> 63"
  obtains (completed) err s' where "OSSemPend ev timeout s = Inr (Done () err, s')" "os_ok s' pc"
      "err = 0 \<Longrightarrow> took pc ev 0 s s'" "err \<noteq> 0 \<Longrightarrow> s' = s"
  | (blocked) s' where "OSSemPend ev timeout s = Inr (Blocked, s')" "os_ok s' (pc(OSPrioCur s := Some ev))"
      "\<And>ev'. holds ev' s' = holds ev' s" "\<And>p. in_hand s' (pc(OSPrioCur s := Some ev)) p = in_hand s pc p"
proof -
  note g = event_facts(2) [OF _ e, of pc] o [unfolded os_ok_def]
  show thesis
  proof (cases "OSEventType e = OS_EVENT_TYPE_SEM \<and> OSIntNesting s = 0 \<and> OSLockNesting s = 0")
    case False
    have "\<exists>err. err \<noteq> 0 \<and> OSSemPend ev timeout s = Inr (Done () err, s)"
    proof (cases "OSEventType e = OS_EVENT_TYPE_SEM")
      case True
      then show ?thesis using False g by (cases "OSIntNesting s = 0") (auto simp: OSSemPend_def word_gt_0)
    qed (use g in \<open>simp add: OSSemPend_def\<close>)
    then obtain err :: u8 where "err \<noteq> 0" "OSSemPend ev timeout s = Inr (Done () err, s)" by blast
    then show thesis using completed [of err s] o by simp
  next
    case True
    then have ty: "OSEventType e = OS_EVENT_TYPE_SEM" and i: "OSIntNesting s = 0" "OSLockNesting s = 0" by simp_all
    show thesis
    proof (cases "0 < OSEventCnt e")
      case True
      note tk = take_count_ok [OF o e ty True]
      have "OSSemPend ev timeout s = Inr (Done () 0, put_event ev (e\<lparr>OSEventCnt := OSEventCnt e - 1\<rparr>) s)"
        using g True ty i by (simp add: OSSemPend_def)
      then show thesis using completed tk by (simp add: took_def)
    next
      case False
      then have h: "holds ev s = []" using event_facts(4) [OF _ e ty, of pc] o by (simp add: os_ok_def word_gt_0)
      obtain s' where s': "block_on ev (pend_bit (OSEventType e)) timeout s = Inr s'" "os_ok s' (pc(OSPrioCur s := Some ev))"
        "\<And>ev'. holds ev' s' = holds ev' s" "\<And>p. in_hand s' (pc(OSPrioCur s := Some ev)) p = in_hand s pc p"
        by (rule block_quiet [OF o i e _ h pc ni, where timeout = timeout]) (use ty in simp, rule that)
      have "OSSemPend ev timeout s = Inr (Blocked, s')" using g False ty i s'(1) by (simp add: OSSemPend_def pend_bit_def)
      then show thesis using blocked s'(2,3,4) by blast
    qed
  qed
qed

lemma accept_ok:
  assumes o: "os_ok s pc" and e: "OSEventTbl s ev = Some e"
  obtains m err s' where "OSQAccept ev s = Inr (m, err, s')" "os_ok s' pc" "err = 0 \<Longrightarrow> took pc ev m s s'" "err \<noteq> 0 \<Longrightarrow> s' = s"
proof (cases "OSEventType e = OS_EVENT_TYPE_Q")
  case False
  then show thesis using that [of 0 1 s] o e by (simp add: OSQAccept_def get_event_def)
next
  case True
  show thesis
  proof (cases rule: take_q_ok [OF o e True])
    case (1 q)
    then show thesis using that [of 0 31 s] o e True by (simp add: OSQAccept_def get_event_def)
  next
    case (2 q m q1)
    then show thesis using that [of m 0 "put_q (OSEventPtr e) q1 s"] e True by (simp add: OSQAccept_def get_event_def took_def)
  qed
qed

lemma OSSemAccept_ok:
  assumes o: "os_ok s pc" and e: "OSEventTbl s ev = Some e"
  obtains cnt s' where "OSSemAccept ev s = Inr (cnt, s')" "os_ok s' pc" "0 < cnt \<Longrightarrow> took pc ev 0 s s'" "cnt = 0 \<Longrightarrow> s' = s"
proof (cases "OSEventType e = OS_EVENT_TYPE_SEM \<and> 0 < OSEventCnt e")
  case False
  then show thesis using that [of 0 s] o e by (auto simp: OSSemAccept_def get_event_def word_gt_0 Let_def)
next
  case True
  then have ty: "OSEventType e = OS_EVENT_TYPE_SEM" and c: "0 < OSEventCnt e" by simp_all
  show thesis using that [of "OSEventCnt e" "put_event ev (e\<lparr>OSEventCnt := OSEventCnt e - 1\<rparr>) s"] take_count_ok [OF o e ty c] e ty c
    by (simp add: OSSemAccept_def get_event_def took_def Let_def)
qed

text \<open>A task that runs again inside its call gets what it has been given, or the news that its time has run out.\<close>

lemma clear_msg_ok:
  assumes o: "os_ok s pc" and t: "OSTCBPrioTbl s p = Some t" and pc: "pc p = None"
  defines "s' \<equiv> put_tcb p (t\<lparr>OSTCBMsg := 0\<rparr>) s"
  shows "os_ok s' pc" and "holds ev s' = holds ev s" and "in_hand s' pc q = in_hand s pc q"
proof -
  have b: "base_ok s pc" using o by (simp add: os_ok_def)
  have f: "OSEventTbl s' = OSEventTbl s" "OSQTbl s' = OSQTbl s" by (simp_all add: s'_def put_tcb_def)
  note sl = same_lists [OF f(1)]
  show "holds ev s' = holds ev s" by (rule sl(2) [OF f(2)])
  have o1: "only_task p s s'" unfolding only_task_def using sl(1) t f(1) by (simp add: s'_def put_tcb_def)
  have "task_ok s (pc p) p t" by (rule base_okD(3) [OF b t])
  then have "task_ok s' (pc p) p (t\<lparr>OSTCBMsg := 0\<rparr>)" using pc sl(1) by (simp add: task_ok_def) (simp add: s'_def put_tcb_def)
  then have "base_ok s' pc"
    using b sl(3) [OF f(2)] by (intro base_okI [OF b o1, of "t\<lparr>OSTCBMsg := 0\<rparr>"]) (simp_all add: s'_def put_tcb_def base_ok_def)
  then show "os_ok s' pc" using o by (simp add: os_ok_def s'_def put_tcb_def)
  show "in_hand s' pc q = in_hand s pc q"
    using pc sl(1) by (cases "q = p") (simp add: in_hand_def, intro in_hand_cong, simp_all add: event_type_def f(1), simp add: s'_def put_tcb_def)
qed

lemma pend_resume_ok:
  assumes o: "os_ok s pc" and i: "OSIntNesting s = 0" "OSLockNesting s = 0" and pc: "pc (OSPrioCur s) = Some ev"
  obtains m err s' t where "pend_resume ev s = Inr (m, err, s')" "os_ok s' (pc(OSPrioCur s := None))"
    "\<And>ev'. holds ev' s' = holds ev' s" "\<And>p. in_hand s' (pc(OSPrioCur s := None)) p = (if p = OSPrioCur s then [] else in_hand s pc p)"
    "err \<in> {0, 10}" "event_type ev s = Some OS_EVENT_TYPE_Q \<Longrightarrow> in_hand s pc (OSPrioCur s) = (if err = 0 then [(ev, m)] else [])"
    "event_type ev s = Some OS_EVENT_TYPE_SEM \<Longrightarrow> in_hand s pc (OSPrioCur s) = (if err = 0 then [(ev, 0)] else [])"
    "OSPrioCur s' = OSPrioCur s" "OSTCBPrioTbl s' (OSPrioCur s) = Some t"
proof -
  obtain t t' m err s' where r: "OSTCBPrioTbl s (OSPrioCur s) = Some t" "pend_resume ev s = Inr (m, err, s')"
    "os_ok s' (pc(OSPrioCur s := None))"
    "(err, m) = (if OSTCBStatPend t = 0 then (0, OSTCBMsg t) else (10, 0))" "OSTCBStatPend t \<in> {0, 1}"
    "\<And>ev'. holds ev' s' = holds ev' s" "\<And>ev'. waiting ev' s' = waiting ev' s - {OSPrioCur s}"
    "\<And>q. q \<noteq> OSPrioCur s \<Longrightarrow> OSTCBPrioTbl s' q = OSTCBPrioTbl s q" "OSTCBPrioTbl s' (OSPrioCur s) = Some t'"
    "OSIntNesting s' = 0" "OSLockNesting s' = 0" "OSPrioCur s' = OSPrioCur s"
    "\<And>ev'. map_option OSEventType (OSEventTbl s' ev') = map_option OSEventType (OSEventTbl s ev')"
    "OSTCBStatPend t = 0 \<longleftrightarrow> OSPrioCur s \<notin> waiting ev s" "map_option OSEventType (OSEventTbl s ev) \<in> {Some 2, Some 3}"
    by (rule resume_ok [OF o i pc]) (rule that)
  have "in_hand s' (pc(OSPrioCur s := None)) p = (if p = OSPrioCur s then [] else in_hand s pc p)" for p
  proof (cases "p = OSPrioCur s")
    case False
    then have "in_hand s' pc p = in_hand s pc p" using r(7,8,13) by (intro in_hand_cong) (auto simp: event_type_def)
    then show ?thesis using False by (simp add: in_hand_def)
  qed (simp add: in_hand_def)
  moreover have "err \<in> {0, 10}" using r(4) by (auto split: if_splits)
  moreover have "in_hand s pc (OSPrioCur s) = (if err = 0 then [(ev, if event_type ev s = Some 2 then m else 0)] else [])"
    using r(1,4,14) pc by (auto simp: in_hand_def split: if_splits)
  ultimately show thesis using that [of m err s' t'] r(2,3,6,9,12) by simp
qed

lemma OSQPend_resume_ok:
  assumes o: "os_ok s pc" and i: "OSIntNesting s = 0" "OSLockNesting s = 0" and pc: "pc (OSPrioCur s) = Some ev"
    and ty: "event_type ev s = Some OS_EVENT_TYPE_Q"
  obtains m err s' where "OSQPend_resume ev s = Inr (m, err, s')" "os_ok s' (pc(OSPrioCur s := None))"
    "\<And>ev'. holds ev' s' = holds ev' s" "\<And>p. in_hand s' (pc(OSPrioCur s := None)) p = (if p = OSPrioCur s then [] else in_hand s pc p)"
    "in_hand s pc (OSPrioCur s) = (if err = 0 then [(ev, m)] else [])" "err \<in> {0, 10}"
proof -
  obtain m err s1 t where r: "pend_resume ev s = Inr (m, err, s1)" "os_ok s1 (pc(OSPrioCur s := None))"
    "\<And>ev'. holds ev' s1 = holds ev' s" "\<And>p. in_hand s1 (pc(OSPrioCur s := None)) p = (if p = OSPrioCur s then [] else in_hand s pc p)"
    "err \<in> {0, 10}" "event_type ev s = Some OS_EVENT_TYPE_Q \<Longrightarrow> in_hand s pc (OSPrioCur s) = (if err = 0 then [(ev, m)] else [])"
    "event_type ev s = Some OS_EVENT_TYPE_SEM \<Longrightarrow> in_hand s pc (OSPrioCur s) = (if err = 0 then [(ev, 0)] else [])"
    "OSPrioCur s1 = OSPrioCur s" "OSTCBPrioTbl s1 (OSPrioCur s) = Some t"
    by (rule pend_resume_ok [OF o i pc]) (rule that)
  have pn: "(pc(OSPrioCur s := None)) (OSPrioCur s) = None" by simp
  note c = clear_msg_ok [OF r(2,9) pn]
  show thesis
  proof (rule that)
    show "OSQPend_resume ev s = Inr (m, err, put_tcb (OSPrioCur s) (t\<lparr>OSTCBMsg := 0\<rparr>) s1)"
      using r(1,9) by (simp add: OSQPend_resume_def get_tcb_def)
    show "in_hand s pc (OSPrioCur s) = (if err = 0 then [(ev, m)] else [])" by (rule r(6) [OF ty])
  qed (rule c, simp_all only: c r)
qed

lemma OSSemPend_resume_ok:
  assumes o: "os_ok s pc" and i: "OSIntNesting s = 0" "OSLockNesting s = 0" and pc: "pc (OSPrioCur s) = Some ev"
    and ty: "event_type ev s = Some OS_EVENT_TYPE_SEM"
  obtains err s' where "OSSemPend_resume ev s = Inr (err, s')" "os_ok s' (pc(OSPrioCur s := None))"
    "\<And>ev'. holds ev' s' = holds ev' s" "\<And>p. in_hand s' (pc(OSPrioCur s := None)) p = (if p = OSPrioCur s then [] else in_hand s pc p)"
    "in_hand s pc (OSPrioCur s) = (if err = 0 then [(ev, 0)] else [])" "err \<in> {0, 10}"
proof -
  obtain m err s1 t where r: "pend_resume ev s = Inr (m, err, s1)" "os_ok s1 (pc(OSPrioCur s := None))"
    "\<And>ev'. holds ev' s1 = holds ev' s" "\<And>p. in_hand s1 (pc(OSPrioCur s := None)) p = (if p = OSPrioCur s then [] else in_hand s pc p)"
    "err \<in> {0, 10}" "event_type ev s = Some OS_EVENT_TYPE_Q \<Longrightarrow> in_hand s pc (OSPrioCur s) = (if err = 0 then [(ev, m)] else [])"
    "event_type ev s = Some OS_EVENT_TYPE_SEM \<Longrightarrow> in_hand s pc (OSPrioCur s) = (if err = 0 then [(ev, 0)] else [])"
    "OSPrioCur s1 = OSPrioCur s" "OSTCBPrioTbl s1 (OSPrioCur s) = Some t"
    by (rule pend_resume_ok [OF o i pc]) (rule that)
  have "OSSemPend_resume ev s = Inr (err, s1)" using r(1) by (simp add: OSSemPend_resume_def)
  then show thesis using that r(2,3,4,5) r(7) [OF ty] by simp
qed

end
