(* ===== verification/OsCreate.thy ===== *)
theory OsCreate
  imports OsRun
begin

text \<open>
  Control blocks that are free: calls leave them alone, and creating tasks, semaphores, mutexes and queues, before the kernel is started or while it
  runs, keeps the kernel well formed, as does a task that deletes itself. \<open>booted\<close> are the states between \<open>OSInit\<close> and \<open>OSStart\<close>.
\<close>

section \<open>Free control blocks\<close>

definition free_ok :: "os \<Rightarrow> bool" where
  "free_ok s \<longleftrightarrow> distinct (OSEventFreeList s) \<and> distinct (OSQFreeList s) \<and>
     (\<forall>ev \<in> set (OSEventFreeList s). \<exists>e. OSEventTbl s ev = Some e \<and> OSEventType e = OS_EVENT_TYPE_UNUSED) \<and>
     (\<forall>ev e. OSEventTbl s ev = Some e \<and> OSEventType e = OS_EVENT_TYPE_Q \<longrightarrow> OSEventPtr e \<notin> set (OSQFreeList s))"

text \<open>What no call changes but those that create and delete.\<close>

definition event_id :: "os_event option \<Rightarrow> (u8 \<times> nat) option" where
  "event_id = map_option (\<lambda>e. (OSEventType e, OSEventPtr e))"

definition frame :: "os \<Rightarrow> os \<Rightarrow> bool" where
  "frame s s' \<longleftrightarrow> OSEventFreeList s' = OSEventFreeList s \<and> OSQFreeList s' = OSQFreeList s \<and>
     (\<forall>ev. event_id (OSEventTbl s' ev) = event_id (OSEventTbl s ev)) \<and> dom (OSTCBPrioTbl s') = dom (OSTCBPrioTbl s)"

lemma frame_free_ok:
  assumes "frame s s'" and "free_ok s"
  shows "free_ok s'"
proof -
  have id: "event_id (OSEventTbl s' ev) = event_id (OSEventTbl s ev)" for ev using assms(1) by (simp add: frame_def)
  have ex: "\<exists>e'. OSEventTbl s ev = Some e' \<and> OSEventType e' = OSEventType e \<and> OSEventPtr e' = OSEventPtr e"
    if "OSEventTbl s' ev = Some e" for ev e
    using id [of ev] that by (cases "OSEventTbl s ev") (simp_all add: event_id_def)
  have "\<exists>e. OSEventTbl s' ev = Some e \<and> OSEventType e = OSEventType e'" if "OSEventTbl s ev = Some e'" for ev e'
    using id [of ev] that by (cases "OSEventTbl s' ev") (simp_all add: event_id_def)
  then show ?thesis using assms ex unfolding free_ok_def frame_def by metis
qed

lemma frame_refl [simp]: "frame s s" by (simp add: frame_def)

lemma frame_trans: "frame s s1 \<Longrightarrow> frame s1 s2 \<Longrightarrow> frame s s2" by (simp add: frame_def)

lemma frame_same:
  assumes "OSEventFreeList s' = OSEventFreeList s" "OSQFreeList s' = OSQFreeList s" "OSEventTbl s' = OSEventTbl s"
    "OSTCBPrioTbl s' = OSTCBPrioTbl s"
  shows "frame s s'"
  using assms by (simp add: frame_def)

lemma frame_tcb: "frame s s1 \<Longrightarrow> get_tcb p s1 = Inr t \<Longrightarrow> frame s (put_tcb p t' s1)"
  by (auto simp: frame_def get_tcb_def put_tcb_def split: option.splits)

lemma frame_event:
  assumes "frame s s1" and "get_event ev s1 = Inr e" "OSEventType e' = OSEventType e" "OSEventPtr e' = OSEventPtr e"
  shows "frame s (put_event ev e' s1)"
proof -
  have "OSEventTbl s1 ev = Some e" using assms(2) by (simp add: get_event_def split: option.splits)
  moreover have "event_id (OSEventTbl s1 ev) = event_id (OSEventTbl s ev)" using assms(1) unfolding frame_def by blast
  ultimately have "event_id (OSEventTbl s ev) = event_id (Some e')" using assms(3,4) by (simp add: event_id_def)
  then show ?thesis using assms(1) by (simp add: frame_def put_event_def)
qed

lemma frame_q: "frame s s1 \<Longrightarrow> frame s (put_q i q s1)"
  by (simp add: frame_def put_q_def)

lemma frame_fields:
  assumes "frame s s'"
  shows "frame s (s'\<lparr>rdy_list := r\<rparr>)" and "frame s (s'\<lparr>OSTime := n, OSTickStepState := st\<rparr>)"
  using assms by (simp_all add: frame_def)

lemma frame_Sched: "frame s s' \<Longrightarrow> frame s (OS_Sched s')"
  unfolding OS_Sched_def reschedule_def OS_SchedNew_def Let_def by (simp add: frame_def)

lemma frame_nesting: "frame s (OSIntEnter s)" "frame s (OSIntExit s)" "frame s (OSSchedLock s)" "frame s (OSSchedUnlock s)"
  by (rule frame_same;
      simp add: OSIntEnter_def OSIntExit_def OSSchedLock_def OSSchedUnlock_def reschedule_def OS_Sched_def OS_SchedNew_def Let_def)+

lemma frame_Remove: "OS_EventTaskRemove p ev s1 = Inr s' \<Longrightarrow> frame s s1 \<Longrightarrow> frame s s'"
  by (auto simp: OS_EventTaskRemove_def ebind_eq_Inr_iff intro: frame_event)

lemma frame_Wait: "OS_EventTaskWait ev s1 = Inr s' \<Longrightarrow> frame s s1 \<Longrightarrow> frame s s'"
  by (auto simp: OS_EventTaskWait_def ebind_eq_Inr_iff Let_def intro!: frame_fields intro: frame_event frame_tcb)

lemma frame_Rdy: "OS_EventTaskRdy ev m msk st s1 = Inr (p, s') \<Longrightarrow> frame s s1 \<Longrightarrow> frame s s'"
  by (auto simp: OS_EventTaskRdy_def ebind_eq_Inr_iff Let_def split: if_splits intro: frame_fields frame_tcb dest!: frame_Remove)

lemma frame_block: "block_on ev msk timeout s1 = Inr s' \<Longrightarrow> frame s s1 \<Longrightarrow> frame s s'"
  by (auto simp: block_on_def ebind_eq_Inr_iff intro!: frame_Sched intro: frame_tcb dest!: frame_Wait)

lemma frame_resume: "pend_resume ev s1 = Inr (m, err, s') \<Longrightarrow> frame s s1 \<Longrightarrow> frame s s'"
  by (auto simp: pend_resume_def ebind_eq_Inr_iff split: if_splits intro: frame_tcb frame_Remove)

lemma frame_tick_task: "tick_task p s1 = Inr s' \<Longrightarrow> frame s s1 \<Longrightarrow> frame s s'"
  by (auto simp: tick_task_def ebind_eq_Inr_iff Let_def split: if_splits intro: frame_fields frame_tcb)

lemma frame_tick_tasks: "tick_tasks ps s1 = Inr s' \<Longrightarrow> frame s s1 \<Longrightarrow> frame s s'"
  by (induction ps s1 rule: tick_tasks.induct) (auto simp: ebind_eq_Inr_iff split: if_splits intro: frame_tick_task)

lemma frame_calls:
  "OSTimeTick s = Inr s' \<Longrightarrow> frame s s'" "OSTimeDly ticks s = Inr s' \<Longrightarrow> frame s s'"
  "OSTaskSuspend prio s = Inr (err, s') \<Longrightarrow> frame s s'" "OSTaskResume prio s = Inr (err, s') \<Longrightarrow> frame s s'"
  "OSQPost ev m s = Inr (err, s') \<Longrightarrow> frame s s'" "OSSemPost ev s = Inr (err, s') \<Longrightarrow> frame s s'"
  "OSQPend ev timeout s = Inr (qa, s') \<Longrightarrow> frame s s'" "OSSemPend ev timeout s = Inr (sa, s') \<Longrightarrow> frame s s'"
  "OSQPend_resume ev s = Inr (m, err, s') \<Longrightarrow> frame s s'" "OSSemPend_resume ev s = Inr (err, s') \<Longrightarrow> frame s s'"
  "OSQAccept ev s = Inr (m, err, s') \<Longrightarrow> frame s s'" "OSSemAccept ev s = Inr (cnt, s') \<Longrightarrow> frame s s'"
proof -
  show "OSTimeTick s = Inr s' \<Longrightarrow> frame s s'"
    by (auto simp: OSTimeTick_def Let_def split: if_splits intro: frame_same
        dest: frame_tick_tasks [OF _ frame_fields(2) [OF frame_refl]])
  show "OSTimeDly ticks s = Inr s' \<Longrightarrow> frame s s'"
    by (auto simp: OSTimeDly_def ebind_eq_Inr_iff Let_def get_tcb_def split: if_splits option.splits
        intro!: frame_Sched frame_tcb intro: frame_fields)
  show "OSTaskSuspend prio s = Inr (err, s') \<Longrightarrow> frame s s'"
    by (auto simp: OSTaskSuspend_def Let_def get_tcb_def split: if_splits option.splits
        intro!: frame_Sched frame_tcb intro: frame_fields)
  show "OSTaskResume prio s = Inr (err, s') \<Longrightarrow> frame s s'"
    by (auto simp: OSTaskResume_def Let_def get_tcb_def split: if_splits option.splits
        intro!: frame_Sched frame_tcb intro: frame_fields)
  show "OSQPost ev m s = Inr (err, s') \<Longrightarrow> frame s s'"
    by (auto simp: OSQPost_def q_store_def ebind_eq_Inr_iff split: if_splits intro!: frame_Sched intro: frame_q frame_refl dest!: frame_Rdy)
  show "OSSemPost ev s = Inr (err, s') \<Longrightarrow> frame s s'"
    by (auto simp: OSSemPost_def ebind_eq_Inr_iff split: if_splits intro!: frame_Sched intro: frame_event frame_refl dest!: frame_Rdy)
  show "OSQPend ev timeout s = Inr (qa, s') \<Longrightarrow> frame s s'"
    by (auto simp: OSQPend_def ebind_eq_Inr_iff split: if_splits intro: frame_q frame_refl frame_block)
  show "OSSemPend ev timeout s = Inr (sa, s') \<Longrightarrow> frame s s'"
    by (auto simp: OSSemPend_def ebind_eq_Inr_iff split: if_splits intro: frame_event frame_refl frame_block)
  show "OSQPend_resume ev s = Inr (m, err, s') \<Longrightarrow> frame s s'"
    by (auto simp: OSQPend_resume_def ebind_eq_Inr_iff intro: frame_tcb frame_resume frame_refl)
  show "OSSemPend_resume ev s = Inr (err, s') \<Longrightarrow> frame s s'"
    by (auto simp: OSSemPend_resume_def ebind_eq_Inr_iff intro: frame_resume frame_refl)
  show "OSQAccept ev s = Inr (m, err, s') \<Longrightarrow> frame s s'"
    by (auto simp: OSQAccept_def ebind_eq_Inr_iff split: if_splits intro: frame_q frame_refl)
  show "OSSemAccept ev s = Inr (cnt, s') \<Longrightarrow> frame s s'"
    by (auto simp: OSSemAccept_def ebind_eq_Inr_iff Let_def split: if_splits intro: frame_event frame_refl)
qed

section \<open>Creating tasks, semaphores and queues\<close>

lemma OS_TCBInit_ok:
  assumes b: "base_ok s pc" and n: "OSTCBPrioTbl s p = None" "p < 64" "pc p = None"
  obtains err s' where "OS_TCBInit p s = (err, s')" "base_ok s' pc" "err \<noteq> 0 \<Longrightarrow> s' = s" "OSEventTbl s' = OSEventTbl s" "OSQTbl s' = OSQTbl s"
    "OSEventFreeList s' = OSEventFreeList s" "OSQFreeList s' = OSQFreeList s"
    "\<And>q. q \<noteq> p \<Longrightarrow> OSTCBPrioTbl s' q = OSTCBPrioTbl s q"
    "OSIntNesting s' = OSIntNesting s" "OSLockNesting s' = OSLockNesting s"
proof (cases "OSTCBFree s = 0")
  case True
  then show thesis using that [of OS_ERR_TASK_NO_MORE_TCB s] b by (simp add: OS_TCBInit_def)
next
  case False
  note bk = base_okD [OF b]
  define t where "t = \<lparr>OSTCBStat = 0, OSTCBStatPend = 0, OSTCBDly = 0, OSTCBMsg = 0, OSTCBEventPtr = None\<rparr>"
  define s1 where "s1 = s\<lparr>OSTCBFree := OSTCBFree s - 1, OSTCBPrioTbl := (OSTCBPrioTbl s)(p \<mapsto> t), OSTCBList := p # OSTCBList s,
    rdy_list := mark p (rdy_list s)\<rparr>"
  have run: "OS_TCBInit p s = (0, s1)" using False by (simp add: OS_TCBInit_def Let_def put_tcb_def s1_def t_def)
  have r: "tbl_ok (mark p (rdy_list s))" "prios_of (mark p (rdy_list s)) = insert p (prios_of (rdy_list s))"
    using pl.add [OF bk(1) n(2)] by simp_all
  have f: "OSEventTbl s1 = OSEventTbl s" "OSQTbl s1 = OSQTbl s" "rdy_list s1 = mark p (rdy_list s)" by (simp_all add: s1_def)
  have w: "waiting ev s1 = waiting ev s" for ev by (rule same_lists(1) [OF f(1)])
  have no: "p \<notin> waiting ev s" for ev using b n(1) by (simp add: base_ok_def)
  obtain l where l: "OSTCBList s = l @ [63]" "distinct (l @ [63])" "set (l @ [63]) = {q. OSTCBPrioTbl s q \<noteq> None}"
    using b unfolding base_ok_def by blast
  have np: "p \<notin> set (l @ [63])" unfolding l(3) using n(1) by simp
  have tk: "task_ok s1 (pc q) q u" if "OSTCBPrioTbl s1 q = Some u" for q u
  proof (cases "q = p")
    case True
    then have "u = t" using that by (simp add: s1_def)
    then show ?thesis using True n(2,3) no r(2) w f(3) by (simp add: task_ok_def) (simp add: t_def)
  next
    case False
    then have "task_ok s1 (pc q) q u = task_ok s (pc q) q u" using w r(2) f by (intro task_ok_cong) simp_all
    then show ?thesis using bk(3) [of q u] that False by (simp add: s1_def)
  qed
  have "OSTCBList s1 = (p # l) @ [63]" "distinct ((p # l) @ [63])" "set ((p # l) @ [63]) = {q. OSTCBPrioTbl s1 q \<noteq> None}"
    using l np by (auto simp: s1_def)
  then have ls: "\<exists>l. OSTCBList s1 = l @ [63] \<and> distinct (l @ [63]) \<and> set (l @ [63]) = {q. OSTCBPrioTbl s1 q \<noteq> None}" by blast
  have nn: "q \<notin> prios_of (rdy_list s1) \<and> (\<forall>ev. q \<notin> waiting ev s1)" if "OSTCBPrioTbl s1 q = None" for q
    using b that w r(2) f(3) by (auto simp: base_ok_def s1_def split: if_splits)
  have fl: "OSRunning s1 = OSRunning s" "OSPrioCur s1 = OSPrioCur s" "OSLockNesting s1 = OSLockNesting s"
    "OSTCBPrioTbl s q \<noteq> None \<Longrightarrow> OSTCBPrioTbl s1 q \<noteq> None" for q by (simp_all add: s1_def)
  note bd = b [unfolded base_ok_def]
  have "base_ok s1 pc"
    unfolding base_ok_def same_lists(3) [OF f(1,2)] fl(1,2,3)
  proof (intro conjI)
    show "\<forall>q t. OSTCBPrioTbl s1 q = Some t \<longrightarrow> task_ok s1 (pc q) q t" using tk by blast
    show "\<forall>q. OSTCBPrioTbl s1 q = None \<longrightarrow> q \<notin> prios_of (rdy_list s1) \<and> (\<forall>ev. q \<notin> waiting ev s1)" using nn by blast
  qed (use bd r ls fl(4) f(3) in simp_all)
  show thesis by (rule that [OF run \<open>base_ok s1 pc\<close>]) (simp_all add: s1_def)
qed

text \<open>An unused event that becomes one of another kind, with no task waiting.\<close>

lemma event_init_ok:
  assumes b: "base_ok s pc" and e: "OSEventTbl s ev = Some e" "OSEventType e = OS_EVENT_TYPE_UNUSED"
    and s': "OSEventTbl s' = (OSEventTbl s)(ev \<mapsto> e')" "wait_list e' = no_prios" and ok: "events_ok s'"
    and f: "OSRunning s' = OSRunning s" "rdy_list s' = rdy_list s" "OSTCBPrioTbl s' = OSTCBPrioTbl s" "OSTCBList s' = OSTCBList s"
      "OSPrioCur s' = OSPrioCur s" "OSLockNesting s' = OSLockNesting s"
  shows "base_ok s' pc" and "waiting ev' s' = waiting ev' s" and "OSTCBPrioTbl s p \<noteq> None \<Longrightarrow> pc p \<noteq> Some ev"
proof -
  note bk = base_okD [OF b]
  have np: "pc p \<noteq> Some ev" if "OSTCBPrioTbl s p = Some t" for p t
    using bk(3) [OF that] e by (auto simp: task_ok_def in_pend_def)
  then show "OSTCBPrioTbl s p \<noteq> None \<Longrightarrow> pc p \<noteq> Some ev" by auto
  have nw: "waiting ev s = {}"
  proof (rule ccontr)
    assume "waiting ev s \<noteq> {}"
    then obtain p where "p \<in> waiting ev s" by blast
    from waiting_task [OF b this] np show False by metis
  qed
  show w: "waiting ev' s' = waiting ev' s" for ev'
    using nw pl.none by (cases "ev' = ev") (simp_all add: waiting_def s')
  have tk: "task_ok s' (pc p) p t" if "OSTCBPrioTbl s p = Some t" for p t
  proof -
    have "in_pend s' p t ev'" if "pc p = Some ev'" "in_pend s p t ev'" for ev'
    proof -
      have "ev' \<noteq> ev" using np [OF \<open>OSTCBPrioTbl s p = Some t\<close>] that(1) by auto
      then have "in_pend s' p t ev' = in_pend s p t ev'" using w s' by (intro in_pend_cong) simp_all
      then show ?thesis using that(2) by simp
    qed
    then show ?thesis using bk(3) [OF that] w f(2) unfolding task_ok_def by (cases "pc p") simp_all
  qed
  show "base_ok s' pc" using b ok tk w unfolding base_ok_def f by simp
qed

text \<open>The scheduling side of the state, which creating an event leaves alone.\<close>

definition same_sched :: "os \<Rightarrow> os \<Rightarrow> bool" where
  "same_sched s s' \<longleftrightarrow> OSRunning s' = OSRunning s \<and> rdy_list s' = rdy_list s \<and> OSTCBPrioTbl s' = OSTCBPrioTbl s \<and>
     OSTCBList s' = OSTCBList s \<and> OSPrioCur s' = OSPrioCur s \<and> OSLockNesting s' = OSLockNesting s \<and> OSIntNesting s' = OSIntNesting s"

lemma same_sched_os_ok: "same_sched s s' \<Longrightarrow> os_ok s pc \<Longrightarrow> base_ok s' pc \<Longrightarrow> os_ok s' pc"
  by (simp add: same_sched_def os_ok_def)

lemma init_in_hand:
  assumes s: "same_sched s s'" and w: "\<And>ev'. waiting ev' s' = waiting ev' s" and n: "pc p \<noteq> Some ev"
    and e: "\<And>ev'. ev' \<noteq> ev \<Longrightarrow> OSEventTbl s' ev' = OSEventTbl s ev'"
  shows "in_hand s' pc p = in_hand s pc p"
proof (cases "pc p")
  case (Some ev')
  then have "ev' \<noteq> ev" using n by auto
  then show ?thesis using Some s w e by (auto simp: in_hand_def event_type_def same_sched_def cong: option.case_cong)
qed (simp add: in_hand_def)

lemma free_event: "free_ok s \<Longrightarrow> OSEventFreeList s = ev # evs \<Longrightarrow> \<exists>e. OSEventTbl s ev = Some e \<and> OSEventType e = 0 \<and> ev \<notin> set evs"
  by (auto simp: free_ok_def)

text \<open>An event of a kind other than a queue.\<close>

lemma plain_event_ok:
  assumes b: "base_ok s pc" and fr: "free_ok s" and n: "\<And>p. OSTCBPrioTbl s p = None \<Longrightarrow> pc p = None"
    and l: "OSEventFreeList s = ev # evs" and e: "OSEventTbl s ev = Some e" "OSEventType e = 0" "ev \<notin> set evs"
    and e1: "OSEventType e1 \<notin> {0, 2}" "wait_list e1 = no_prios"
    and s1: "s1 = s\<lparr>OSTCBReserved := r, OSEventFreeList := evs, OSEventTbl := (OSEventTbl s)(ev \<mapsto> e1)\<rparr>"
  shows "base_ok s1 pc" and "free_ok s1" and "same_sched s s1" and "holds ev s = []"
    and "holds ev' s1 = (if ev' = ev then event_msgs (OSQTbl s) e1 else holds ev' s)" and "in_hand s1 pc p = in_hand s pc p"
proof -
  have f: "OSEventTbl s1 = (OSEventTbl s)(ev \<mapsto> e1)" "OSQTbl s1 = OSQTbl s" by (simp_all add: s1)
  have old: "event_ok s ev' e'" if "OSEventTbl s ev' = Some e'" for ev' e' by (rule event_at [OF base_okD(2) [OF b] that])
  have "event_ok s1 ev' e'" if h: "OSEventTbl s1 ev' = Some e'" for ev' e'
  proof (cases "ev' = ev")
    case True
    then have "e' = e1" using h f(1) by simp
    then show ?thesis using pl.none e1 by (simp add: event_ok_def)
  next
    case False
    then have "OSEventTbl s ev' = Some e'" using h f(1) by simp
    then show ?thesis using old [of ev' e'] False e1(1) unfolding event_ok_def f by (auto split: if_splits)
  qed
  then have ok: "events_ok s1" by (simp add: events_ok_def)
  show ss: "same_sched s s1" by (simp add: same_sched_def s1)
  have bs: "base_ok s1 pc" "waiting ev' s1 = waiting ev' s" "OSTCBPrioTbl s p \<noteq> None \<Longrightarrow> pc p \<noteq> Some ev" for ev' p
    using event_init_ok [OF b e(1,2) f(1) e1(2) ok] ss by (simp_all add: same_sched_def)
  show "base_ok s1 pc" by (rule bs(1))
  show "free_ok s1" using fr l e(3) e1(1) by (auto simp: free_ok_def s1)
  show "holds ev' s1 = (if ev' = ev then event_msgs (OSQTbl s) e1 else holds ev' s)"
    by (simp add: holds_def f split: option.split)
  show "holds ev s = []" using e by (simp add: holds_def event_msgs_def)
  show "in_hand s1 pc p = in_hand s pc p"
    using bs(3) [of p] n [of p] f by (cases "OSTCBPrioTbl s p"; intro init_in_hand [OF ss bs(2), of pc p ev]; simp)
qed

lemma OSSemCreate_ok:
  assumes b: "base_ok s pc" and fr: "free_ok s" and n: "\<And>p. OSTCBPrioTbl s p = None \<Longrightarrow> pc p = None"
  obtains (none) "OSSemCreate cnt s = Inr (None, s)"
  | (made) ev s' where "OSSemCreate cnt s = Inr (Some ev, s')" "base_ok s' pc" "free_ok s'" "same_sched s s'" "holds ev s = []"
      "\<And>ev'. holds ev' s' = (if ev' = ev then replicate (unat cnt) 0 else holds ev' s)" "\<And>p. in_hand s' pc p = in_hand s pc p"
proof (cases "OSIntNesting s = 0 \<and> OSEventFreeList s \<noteq> []")
  case False
  then show thesis using none by (auto simp: OSSemCreate_def word_gt_0)
next
  case True
  then obtain ev evs where l: "OSEventFreeList s = ev # evs" by (cases "OSEventFreeList s") auto
  obtain e where e: "OSEventTbl s ev = Some e" "OSEventType e = 0" "ev \<notin> set evs" using free_event [OF fr l] by blast
  define e1 where "e1 = e\<lparr>OSEventType := 3, OSEventCnt := cnt, wait_list := no_prios\<rparr>"
  define s1 where "s1 = s\<lparr>OSTCBReserved := OSTCBReserved s, OSEventFreeList := evs, OSEventTbl := (OSEventTbl s)(ev \<mapsto> e1)\<rparr>"
  have run: "OSSemCreate cnt s = Inr (Some ev, s1)"
    using True l e(1) by (simp add: OSSemCreate_def get_event_def put_event_def s1_def e1_def)
  have "OSEventType e1 \<notin> {0, 2}" "wait_list e1 = no_prios" "event_msgs qs e1 = replicate (unat cnt) 0" for qs
    by (simp_all add: e1_def event_msgs_def)
  then show thesis using made [OF run] plain_event_ok [OF b fr n l e _ _ s1_def] by simp
qed

lemma OSMutexCreate_ok:
  assumes b: "base_ok s pc" and fr: "free_ok s" and n: "\<And>p. OSTCBPrioTbl s p = None \<Longrightarrow> pc p = None" and p: "prio < 64"
  obtains (none) err where "OSMutexCreate prio s = Inr (None, err, s)"
  | (made) ev s' where "OSMutexCreate prio s = Inr (Some ev, OS_ERR_NONE, s')" "base_ok s' pc" "free_ok s'" "same_sched s s'" "holds ev s = []"
      "\<And>ev'. holds ev' s' = holds ev' s" "\<And>p. in_hand s' pc p = in_hand s pc p"
proof (cases "OSIntNesting s = 0 \<and> OSTCBPrioTbl s prio = None \<and> prio \<notin> OSTCBReserved s \<and> OSEventFreeList s \<noteq> []")
  case False
  then have "\<exists>err. OSMutexCreate prio s = Inr (None, err, s)" using p by (auto simp: OSMutexCreate_def word_gt_0)
  then show thesis using none by blast
next
  case True
  then obtain ev evs where l: "OSEventFreeList s = ev # evs" by (cases "OSEventFreeList s") auto
  obtain e where e: "OSEventTbl s ev = Some e" "OSEventType e = 0" "ev \<notin> set evs" using free_event [OF fr l] by blast
  define e1 where "e1 = e\<lparr>OSEventType := 4, OSEventCnt := push_bit 8 (of_nat prio) OR 0xFF, OSEventPtr := 0, wait_list := no_prios\<rparr>"
  define s1 where "s1 = s\<lparr>OSTCBReserved := insert prio (OSTCBReserved s), OSEventFreeList := evs, OSEventTbl := (OSEventTbl s)(ev \<mapsto> e1)\<rparr>"
  have run: "OSMutexCreate prio s = Inr (Some ev, 0, s1)"
    using True l e(1) p by (simp add: OSMutexCreate_def get_event_def put_event_def s1_def e1_def)
  have t: "OSEventType e1 \<notin> {0, 2}" "wait_list e1 = no_prios" "event_msgs qs e1 = []" for qs
    by (simp_all add: e1_def event_msgs_def)
  note k = plain_event_ok [OF b fr n l e t(1,2) s1_def]
  have "holds ev' s1 = holds ev' s" for ev' using k(5) [of ev'] k(4) t(3) by simp
  then show thesis using made [OF run] k by simp
qed

lemma OSQCreate_ok:
  assumes b: "base_ok s pc" and fr: "free_ok s" and n: "\<And>p. OSTCBPrioTbl s p = None \<Longrightarrow> pc p = None"
    and sz: "0 < sz" "unat sz \<le> length start"
  obtains (none) "OSQCreate start sz s = Inr (None, s)"
  | (made) ev s' where "OSQCreate start sz s = Inr (Some ev, s')" "base_ok s' pc" "free_ok s'" "same_sched s s'" "holds ev s = []"
      "\<And>ev'. holds ev' s' = (if ev' = ev then [] else holds ev' s)" "\<And>p. in_hand s' pc p = in_hand s pc p"
proof (cases "OSIntNesting s = 0 \<and> OSEventFreeList s \<noteq> [] \<and> OSQFreeList s \<noteq> []")
  case False
  then show thesis using none by (auto simp: OSQCreate_def word_gt_0 split: list.splits)
next
  case True
  then obtain ev evs i qs where l: "OSEventFreeList s = ev # evs" "OSQFreeList s = i # qs"
    by (cases "OSEventFreeList s"; cases "OSQFreeList s") auto
  obtain e where e: "OSEventTbl s ev = Some e" "OSEventType e = 0" "ev \<notin> set evs" using free_event [OF fr l(1)] by blast
  have i: "i \<notin> set qs" using fr l by (simp add: free_ok_def)
  have iu: "OSEventPtr e' \<noteq> i" "OSEventPtr e' \<notin> set qs" if "OSEventTbl s ev' = Some e'" "OSEventType e' = 2" for ev' e'
    using fr that l(2) unfolding free_ok_def by auto
  define q where "q = \<lparr>storage = take (unat sz) start, OSQIn = 0, OSQOut = 0, OSQSize = sz, OSQEntries = 0\<rparr>"
  define e1 where "e1 = e\<lparr>OSEventType := 2, OSEventCnt := 0, OSEventPtr := i, wait_list := no_prios\<rparr>"
  define s1 where "s1 = s\<lparr>OSEventFreeList := evs, OSQFreeList := qs, OSQTbl := (OSQTbl s)(i \<mapsto> q),
    OSEventTbl := (OSEventTbl s)(ev \<mapsto> e1)\<rparr>"
  have run: "OSQCreate start sz s = Inr (Some ev, s1)"
    using True l e(1) by (simp add: OSQCreate_def get_event_def put_event_def put_q_def s1_def e1_def q_def)
  have f: "OSEventTbl s1 = (OSEventTbl s)(ev \<mapsto> e1)" "OSQTbl s1 = (OSQTbl s)(i \<mapsto> q)" by (simp_all add: s1_def)
  have q: "q_ok q" "q_msgs q = []" using sz by (auto simp: q_ok_def q_def q_msgs_def ring_list_def word_less_nat_alt)
  have old: "event_ok s ev' e'" if "OSEventTbl s ev' = Some e'" for ev' e' by (rule event_at [OF base_okD(2) [OF b] that])
  have m: "event_msgs (OSQTbl s1) e' = event_msgs (OSQTbl s) e'" if "OSEventTbl s ev' = Some e'" for ev' e'
    using iu(1) [OF that] f(2) by (simp add: event_msgs_def)
  have "event_ok s1 ev' e'" if h: "OSEventTbl s1 ev' = Some e'" for ev' e'
  proof (cases "ev' = ev")
    case True
    then have "e' = e1" using h f(1) by simp
    then show ?thesis using True pl.none q iu(1) f by (auto simp: event_ok_def e1_def event_msgs_def split: if_splits)
  next
    case False
    then have h': "OSEventTbl s ev' = Some e'" using h f(1) by simp
    show ?thesis using old [OF h'] m [OF h'] iu(1) [OF h'] unfolding event_ok_def f by (auto simp: e1_def split: if_splits)
  qed
  then have ok: "events_ok s1" by (simp add: events_ok_def)
  have ss: "same_sched s s1" by (simp add: same_sched_def s1_def)
  have bs: "base_ok s1 pc" "waiting ev' s1 = waiting ev' s" "OSTCBPrioTbl s p \<noteq> None \<Longrightarrow> pc p \<noteq> Some ev" for ev' p
    using event_init_ok [OF b e(1,2) f(1) _ ok] ss by (simp_all add: same_sched_def e1_def)
  have "free_ok s1" using fr l e(3) i iu(2) by (auto simp: free_ok_def s1_def e1_def)
  moreover have "holds ev' s1 = (if ev' = ev then [] else holds ev' s)" for ev'
    using m [of ev'] q(2) by (simp add: holds_def f(1) split: option.splits) (simp add: event_msgs_def e1_def f)
  moreover have "holds ev s = []" using e by (simp add: holds_def event_msgs_def)
  moreover have "in_hand s1 pc p = in_hand s pc p" for p
    using bs(3) [of p] n [of p] f by (cases "OSTCBPrioTbl s p"; intro init_in_hand [OF ss bs(2), of pc p ev]; simp)
  ultimately show thesis using made [OF run bs(1) _ ss] by blast
qed

lemma OSTaskCreate_ok:
  assumes o: "os_ok s pc" and fr: "free_ok s" and n: "\<And>p. OSTCBPrioTbl s p = None \<Longrightarrow> pc p = None" and r: "OSTaskCreate p s = Inr (err, s')"
  shows "os_ok s' pc" and "free_ok s'" and "OSEventTbl s' = OSEventTbl s" and "OSQTbl s' = OSQTbl s"
    and "in_hand s' pc q = in_hand s pc q" and "OSTCBPrioTbl s q \<noteq> None \<Longrightarrow> OSTCBPrioTbl s' q \<noteq> None"
proof -
  have b: "base_ok s pc" and run: "OSRunning s" using o by (simp_all add: os_ok_def base_ok_def)
  have "s' = s \<or> OSTCBPrioTbl s p = None \<and> p < 64 \<and> (\<exists>s1. OS_TCBInit p s = (0, s1) \<and> s' = OS_Sched s1) \<or>
      OSTCBPrioTbl s p = None \<and> p < 64 \<and> (\<exists>err. OS_TCBInit p s = (err, s') \<and> err \<noteq> 0)"
    using r run unfolding OSTaskCreate_def OS_TCBInit_def Let_def put_tcb_def
    by (cases "OSTCBPrioTbl s p"; cases "OSTCBFree s = 0") (auto split: if_splits)
  then consider (same) "s' = s" | (made) s1 where "OSTCBPrioTbl s p = None" "p < 64" "OS_TCBInit p s = (0, s1)" "s' = OS_Sched s1"
    by (metis OS_TCBInit_ok [OF b] n prod.inject)
  then have "os_ok s' pc \<and> free_ok s' \<and> OSEventTbl s' = OSEventTbl s \<and> OSQTbl s' = OSQTbl s \<and>
      in_hand s' pc q = in_hand s pc q \<and> (OSTCBPrioTbl s q \<noteq> None \<longrightarrow> OSTCBPrioTbl s' q \<noteq> None)"
  proof cases
    case same
    then show ?thesis using o fr by simp
  next
    case made
    obtain err1 s2 where s2: "OS_TCBInit p s = (err1, s2)" "base_ok s2 pc" "err1 \<noteq> 0 \<Longrightarrow> s2 = s" "OSEventTbl s2 = OSEventTbl s"
      "OSQTbl s2 = OSQTbl s" "OSEventFreeList s2 = OSEventFreeList s" "OSQFreeList s2 = OSQFreeList s"
      "\<And>q. q \<noteq> p \<Longrightarrow> OSTCBPrioTbl s2 q = OSTCBPrioTbl s q" "OSIntNesting s2 = OSIntNesting s" "OSLockNesting s2 = OSLockNesting s"
      by (rule OS_TCBInit_ok [OF b made(1,2) n [OF made(1)]]) (rule that)
    have e: "s2 = s1" using made(3) s2(1) by simp
    have "os_ok s' pc" using OS_Sched_ok s2(2) made(4) e by simp
    moreover have "free_ok s1" using fr unfolding free_ok_def s2(4,6,7) [unfolded e] by blast
    then have "free_ok s'" using frame_free_ok [OF frame_Sched [OF frame_refl]] made(4) by blast
    moreover have "in_hand s1 pc q = in_hand s pc q"
    proof (cases "q = p")
      case True
      then show ?thesis using n [OF made(1)] by (simp add: in_hand_def)
    next
      case False
      then show ?thesis using s2(4,8) e same_lists(1) [OF s2(4)] by (intro in_hand_cong) (simp_all add: event_type_def)
    qed
    moreover have "OSTCBPrioTbl s q \<noteq> None \<longrightarrow> OSTCBPrioTbl s1 q \<noteq> None" using s2(8) [of q] made(1) e by (cases "q = p") auto
    ultimately show ?thesis using s2(4,5) e made(4) by (simp add: OS_Sched_fields)
  qed
  then show "os_ok s' pc" "free_ok s'" "OSEventTbl s' = OSEventTbl s" "OSQTbl s' = OSQTbl s" "in_hand s' pc q = in_hand s pc q"
    "OSTCBPrioTbl s q \<noteq> None \<Longrightarrow> OSTCBPrioTbl s' q \<noteq> None" by blast+
qed

text \<open>Leaving the event a control block still points to changes nothing when the task does not wait.\<close>

lemma leave_events:
  assumes b: "base_ok s pc" and t: "OSTCBPrioTbl s c = Some t" and no: "\<And>ev. c \<notin> waiting ev s" and s1: "s1 = s\<lparr>rdy_list := r\<rparr>"
    and s2: "(case OSTCBEventPtr t of None \<Rightarrow> Inr s1 | Some ev \<Rightarrow> OS_EventTaskRemove c ev s1) = Inr s2"
  shows "events_ok s2" and "waiting ev s2 = waiting ev s" and "holds ev s2 = holds ev s"
    and "map_option OSEventType (OSEventTbl s2 ev) = map_option OSEventType (OSEventTbl s ev)" and "frame s1 s2"
proof -
  note bk = base_okD [OF b]
  have "events_ok s2 \<and> waiting ev s2 = waiting ev s \<and> holds ev s2 = holds ev s \<and>
    map_option OSEventType (OSEventTbl s2 ev) = map_option OSEventType (OSEventTbl s ev) \<and> frame s1 s2"
  proof (cases "OSTCBEventPtr t")
    case None
    then have "s2 = s1" using s2 by simp
    then show ?thesis using bk(2) same_lists [of s1 s] by (simp add: s1)
  next
    case (Some ev')
    then obtain e where e: "OSEventTbl s ev' = Some e" "s2 = put_event ev' (e\<lparr>wait_list := unmark c (wait_list e)\<rparr>) s1"
      using s2 by (auto simp: OS_EventTaskRemove_def ebind_eq_Inr_iff get_event_def s1 split: option.splits)
    have w: "tbl_ok (unmark c (wait_list e))" "prios_of (unmark c (wait_list e)) = prios_of (wait_list e)"
      using pl.del [OF _ bk(5) [OF t], of "wait_list e"] event_at [OF bk(2) e(1)] no [of ev'] e(1) by (auto simp: event_ok_def waiting_def)
    have m: "prios_of (unmark c (wait_list e)) \<noteq> {} \<Longrightarrow> event_msgs (OSQTbl s) e = []"
      using event_at [OF bk(2) e(1)] w(2) by (simp add: event_ok_def)
    have f: "OSEventTbl s2 = (OSEventTbl s)(ev' \<mapsto> e\<lparr>wait_list := unmark c (wait_list e)\<rparr>)" "OSQTbl s2 = OSQTbl s"
      unfolding e(2) by (simp_all add: put_event_def s1)
    have "frame s1 s2" using s2 Some by (auto intro: frame_Remove)
    then show ?thesis using events_ok_wait [OF bk(2) e(1) w(1) m f] w(2) e(1) by (auto simp: waiting_def)
  qed
  then show "events_ok s2" "waiting ev s2 = waiting ev s" "holds ev s2 = holds ev s"
    "map_option OSEventType (OSEventTbl s2 ev) = map_option OSEventType (OSEventTbl s ev)" "frame s1 s2" by blast+
qed

lemma task_list_remove:
  assumes b: "base_ok s pc" and c: "OSTCBPrioTbl s c \<noteq> None" "c \<noteq> 63"
    and v: "OSTCBPrioTbl v = (OSTCBPrioTbl s)(c := None)" "OSTCBList v = remove1 c (OSTCBList s)"
  shows "\<exists>l. OSTCBList v = l @ [63] \<and> distinct (l @ [63]) \<and> set (l @ [63]) = {q. OSTCBPrioTbl v q \<noteq> None}"
proof -
  obtain l where l: "OSTCBList s = l @ [63]" "distinct (l @ [63])" "set (l @ [63]) = {q. OSTCBPrioTbl s q \<noteq> None}"
    using b unfolding base_ok_def by blast
  have "c \<in> set (l @ [63])" unfolding l(3) using c(1) by simp
  then have "c \<in> set l" using c(2) by simp
  then have "OSTCBList v = remove1 c l @ [63]" using v(2) l(1) by (simp add: remove1_append)
  moreover have d: "set (remove1 c l) = set l - {c}" using l(2) by simp
  have "distinct (remove1 c l @ [63])" using l(2) d by simp
  moreover have "set (remove1 c l @ [63]) = {q. OSTCBPrioTbl v q \<noteq> None}" using d l(3) c(2) v(1) by auto
  ultimately show ?thesis by blast
qed

text \<open>A task that deletes itself, outside every waiting call and with the scheduler unlocked; another task runs afterwards.\<close>

lemma OSTaskDel_ok:
  assumes o: "os_ok s pc" and fr: "free_ok s" and c: "pc (OSPrioCur s) = None" "OSPrioCur s \<noteq> 63" "OSLockNesting s = 0"
    and p: "p = 255 \<or> p = OSPrioCur s" and r: "OSTaskDel p s = Inr (err, s')"
  shows "os_ok s' pc" and "free_ok s'" and "holds ev s' = holds ev s" and "in_hand s' pc q = in_hand s pc q"
    and "OSTCBPrioTbl s' q = None \<Longrightarrow> q = OSPrioCur s \<or> OSTCBPrioTbl s q = None"
proof -
  let ?c = "OSPrioCur s"
  have b: "base_ok s pc" and run: "OSRunning s" using o by (simp_all add: os_ok_def base_ok_def)
  note bk = base_okD [OF b]
  obtain t where t: "OSTCBPrioTbl s ?c = Some t" using b by (auto simp: base_ok_def)
  have c64: "?c < 64" by (rule bk(5) [OF t])
  have no: "?c \<notin> waiting ev s" for ev using bk(3) [OF t] c(1) by (simp add: task_ok_def)
  have "os_ok s' pc \<and> free_ok s' \<and> (\<forall>ev. holds ev s' = holds ev s) \<and> (\<forall>q. in_hand s' pc q = in_hand s pc q) \<and>
    (\<forall>q. OSTCBPrioTbl s' q = None \<longrightarrow> q = ?c \<or> OSTCBPrioTbl s q = None)"
  proof (cases "OSIntNesting s = 0")
    case False
    then have "s' = s" using r by (simp add: OSTaskDel_def word_gt_0)
    then show ?thesis using o fr by simp
  next
    case True
    define s1 where "s1 = s\<lparr>rdy_list := unmark ?c (rdy_list s)\<rparr>"
    obtain s2 where s2: "(case OSTCBEventPtr t of None \<Rightarrow> Inr s1 | Some ev \<Rightarrow> OS_EventTaskRemove ?c ev s1) = Inr s2"
      "s' = OS_Sched (s2\<lparr>OSTCBPrioTbl := (OSTCBPrioTbl s2)(?c := None), OSTCBList := remove1 ?c (OSTCBList s2), OSTCBFree := OSTCBFree s2 + 1,
        OSLockNesting := (if OSLockNesting s2 = 255 then 254 else OSLockNesting s2)\<rparr>)"
    proof -
      have "OSRunning s2" if "(case OSTCBEventPtr t of None \<Rightarrow> Inr s1 | Some ev \<Rightarrow> OS_EventTaskRemove ?c ev s1) = Inr s2" for s2
        using that run by (auto simp: s1_def OS_EventTaskRemove_def put_event_def ebind_eq_Inr_iff split: option.splits)
      then show thesis using r p c(2) c64 t True that by (auto simp: OSTaskDel_def ebind_eq_Inr_iff Let_def simp flip: s1_def)
    qed
    note ev = leave_events [OF b t no s1_def s2(1)]
    have f2: "OSTCBPrioTbl s2 = OSTCBPrioTbl s" "rdy_list s2 = unmark ?c (rdy_list s)" "OSTCBList s2 = OSTCBList s" "OSRunning s2"
      "OSIntNesting s2 = 0" "OSLockNesting s2 = 0"
      using s2(1) run True c(3) by (auto simp: s1_def OS_EventTaskRemove_def put_event_def ebind_eq_Inr_iff split: option.splits)
    define s3 where "s3 = s2\<lparr>OSTCBPrioTbl := (OSTCBPrioTbl s2)(?c := None), OSTCBList := remove1 ?c (OSTCBList s2), OSTCBFree := OSTCBFree s2 + 1,
        OSLockNesting := (if OSLockNesting s2 = 255 then 254 else OSLockNesting s2)\<rparr>"
    define v where "v = s3\<lparr>OSPrioCur := 63\<rparr>"
    have fv: "OSTCBPrioTbl v = (OSTCBPrioTbl s)(?c := None)" "rdy_list v = unmark ?c (rdy_list s)" "OSTCBList v = remove1 ?c (OSTCBList s)"
      "OSRunning v" "OSPrioCur v = 63" "OSLockNesting v = 0" "OSEventTbl v = OSEventTbl s2" "OSQTbl v = OSQTbl s2"
      using f2 by (simp_all add: v_def s3_def)
    have wv: "waiting ev v = waiting ev s" "holds ev v = holds ev s" for ev
      using ev(2,3) same_lists(1) [OF fv(7)] same_lists(2) [OF fv(7,8)] by simp_all
    have rv: "tbl_ok (rdy_list v)" "prios_of (rdy_list v) = prios_of (rdy_list s) - {?c}" using pl.del [OF bk(1) c64] fv(2) by simp_all
    have tv: "map_option OSEventType (OSEventTbl v ev) = map_option OSEventType (OSEventTbl s ev)" for ev using ev(4) fv(7) by simp
    have tk: "task_ok v (pc q) q u" if "OSTCBPrioTbl v q = Some u" for q u
    proof -
      have "q \<noteq> ?c" "OSTCBPrioTbl s q = Some u" using that fv(1) by (auto split: if_splits)
      then show ?thesis using bk(3) [of q u] task_ok_cong [of q v s "pc q" u] wv(1) rv(2) tv by simp
    qed
    have ls: "\<exists>l. OSTCBList v = l @ [63] \<and> distinct (l @ [63]) \<and> set (l @ [63]) = {q. OSTCBPrioTbl v q \<noteq> None}"
      by (rule task_list_remove [OF b _ c(2) fv(1,3)]) (simp add: t)
    have nn: "q \<notin> prios_of (rdy_list v) \<and> (\<forall>ev. q \<notin> waiting ev v)" if "OSTCBPrioTbl v q = None" for q
      using b that no wv(1) rv(2) fv(1) by (auto simp: base_ok_def split: if_splits)
    have i: "63 \<in> prios_of (rdy_list v)" "OSTCBPrioTbl v 63 \<noteq> None"
      using b c(2) rv(2) fv(1) unfolding base_ok_def by (simp, force)
    have "events_ok v" using ev(1) same_lists(3) [OF fv(7,8)] by simp
    then have bv: "base_ok v pc"
      unfolding base_ok_def fv(5) using tk ls nn i rv(1) fv(4,6) by simp
    have "OS_Sched s3 = reschedule s3" using f2(5,6) by (simp add: OS_Sched_def s3_def)
    also have "\<dots> = reschedule v" by (simp add: v_def reschedule_def OS_SchedNew_def Let_def)
    finally have s': "s' = reschedule v" using s2(2) by (simp add: s3_def)
    have fr': "OSEventTbl s' = OSEventTbl v" "OSQTbl s' = OSQTbl v" "OSTCBPrioTbl s' = OSTCBPrioTbl v" "OSEventFreeList s' = OSEventFreeList s2"
      "OSQFreeList s' = OSQFreeList s2"
      by (simp_all add: s' reschedule_def OS_SchedNew_def Let_def v_def s3_def)
    have "frame s s1" by (simp add: s1_def frame_fields)
    then have "free_ok s1" using fr frame_free_ok by blast
    then have "free_ok s2" using frame_free_ok ev(5) by blast
    then have fs: "free_ok s'" unfolding free_ok_def fr' fv(7) .
    have h: "holds ev s' = holds ev s" "waiting ev s' = waiting ev s" for ev using same_lists(1) [OF fr'(1)] same_lists(2) [OF fr'(1,2)] wv by simp_all
    have "in_hand s' pc q = in_hand s pc q" for q
    proof (cases "q = ?c")
      case True
      then show ?thesis using c(1) by (simp add: in_hand_def)
    next
      case False
      then show ?thesis using h(2) fr'(1,3) fv(1) tv by (intro in_hand_cong) (simp_all add: event_type_def)
    qed
    moreover have "q = ?c \<or> OSTCBPrioTbl s q = None" if "OSTCBPrioTbl s' q = None" for q
      using that fr'(3) fv(1) by (auto split: if_splits)
    ultimately show ?thesis using reschedule_ok(1) [OF bv fv(6)] fs h(1) s' by blast
  qed
  then show "os_ok s' pc" "free_ok s'" "holds ev s' = holds ev s" "in_hand s' pc q = in_hand s pc q"
    "OSTCBPrioTbl s' q = None \<Longrightarrow> q = OSPrioCur s \<or> OSTCBPrioTbl s q = None" by simp_all
qed

section \<open>From the initialisation to the start\<close>

text \<open>The entries of a log that belong to \<open>k\<close>.\<close>

definition pick :: "nat \<Rightarrow> (nat \<times> 'a) list \<Rightarrow> 'a list" where
  "pick k xs = map snd (filter (\<lambda>x. fst x = k) xs)"

lemma pick_simps [simp]:
  "pick k [] = []" "pick k (x # xs) = (if fst x = k then snd x # pick k xs else pick k xs)" "pick k (xs @ ys) = pick k xs @ pick k ys"
  by (simp_all add: pick_def)

lemma pick_replicate [simp]: "pick k (replicate n (k', x)) = (if k' = k then replicate n x else [])"
  by (induction n) auto

text \<open>The log counts the initial count of a semaphore as posted.\<close>

inductive booted :: "os \<Rightarrow> (nat \<times> u32) list \<Rightarrow> bool" where
  init: "OSInit s0 = Inr s \<Longrightarrow> booted s []"
| task: "booted s l \<Longrightarrow> OSTaskCreate p s = Inr (err, s') \<Longrightarrow> booted s' l"
| sem: "booted s l \<Longrightarrow> OSSemCreate cnt s = Inr (Some ev, s') \<Longrightarrow> booted s' (l @ replicate (unat cnt) (ev, 0))"
| queue: "booted s l \<Longrightarrow> 0 < sz \<Longrightarrow> unat sz \<le> length start \<Longrightarrow> OSQCreate start sz s = Inr (Some ev, s') \<Longrightarrow> booted s' l"
| mutex: "booted s l \<Longrightarrow> p < 64 \<Longrightarrow> OSMutexCreate p s = Inr (Some ev, err, s') \<Longrightarrow> booted s' l"

text \<open>Seen as if the idle task were running already.\<close>

definition boot_view :: "os \<Rightarrow> os" where
  "boot_view s = s\<lparr>OSRunning := True, OSPrioCur := 63\<rparr>"

definition boot_ok :: "os \<Rightarrow> bool" where
  "boot_ok s \<longleftrightarrow> \<not> OSRunning s \<and> base_ok (boot_view s) (\<lambda>_. None) \<and> free_ok s \<and> OSIntNesting s = 0 \<and> OSLockNesting s = 0"

lemma boot_free: "free_ok (boot_view s) = free_ok s"
  by (simp add: free_ok_def boot_view_def)

lemma boot_create:
  "OSSemCreate cnt (boot_view s) = ebind (OSSemCreate cnt s) (\<lambda>(r, s'). Inr (r, boot_view s'))"
  "OSQCreate start sz (boot_view s) = ebind (OSQCreate start sz s) (\<lambda>(r, s'). Inr (r, boot_view s'))"
  "OSMutexCreate p (boot_view s) = ebind (OSMutexCreate p s) (\<lambda>(r, err, s'). Inr (r, err, boot_view s'))"
  "OS_TCBInit p (boot_view s) = (case OS_TCBInit p s of (err, s') \<Rightarrow> (err, boot_view s'))"
  unfolding OSSemCreate_def OSMutexCreate_def OSQCreate_def OS_TCBInit_def Let_def get_event_def put_event_def put_q_def put_tcb_def boot_view_def
  by (auto split: list.splits option.splits)

lemma OSInit_ok:
  assumes "OSInit s0 = Inr s"
  shows "boot_ok s" and "holds ev s = []"
proof -
  define s1 where "s1 = OS_QInit (OS_InitEventList (OS_InitTCBList (OS_InitRdyList (OS_InitMisc s0))))"
  define t where "t = \<lparr>OSTCBStat = 0, OSTCBStatPend = 0, OSTCBDly = 0, OSTCBMsg = 0, OSTCBEventPtr = None\<rparr>"
  define s2 where "s2 = s1\<lparr>OSTCBFree := 21, OSTCBPrioTbl := [63 \<mapsto> t], OSTCBList := [63], rdy_list := mark 63 no_prios\<rparr>"
  note ini = OS_QInit_def OS_InitEventList_def OS_InitTCBList_def OS_InitRdyList_def OS_InitMisc_def
  have f1: "OSIntNesting s1 = 0" "OSLockNesting s1 = 0" "\<not> OSRunning s1" "OSTCBPrioTbl s1 = (\<lambda>_. None)" "OSTCBReserved s1 = {}" "OSTCBFree s1 = 22"
    "OSTCBList s1 = []" "rdy_list s1 = no_prios" "OSEventFreeList s1 = [0..<15]" "OSQFreeList s1 = [0..<5]"
    "OSEventTbl s1 = (\<lambda>ev. if ev < 15 then Some \<lparr>OSEventType = 0, OSEventCnt = 0, OSEventPtr = 0, wait_list = no_prios\<rparr> else None)"
    by (simp_all add: s1_def ini)
  have f2: "OSIntNesting s2 = 0" "OSLockNesting s2 = 0" "\<not> OSRunning s2" "OSTCBPrioTbl s2 = [63 \<mapsto> t]"
    "OSTCBList s2 = [63]" "rdy_list s2 = mark 63 no_prios" "OSEventFreeList s2 = [0..<15]" "OSQFreeList s2 = [0..<5]"
    "OSEventTbl s2 = OSEventTbl s1" "OSTCBFree s2 = 21" "OSTCBReserved s2 = {}"
    by (simp_all add: s2_def f1)
  have c1: "OSTaskCreate 63 s1 = Inr (0, s2)"
    by (simp add: OSTaskCreate_def f1 OS_TCBInit_def Let_def put_tcb_def s2_def t_def)
  define v where "v = boot_view s2"
  have fv: "OSRunning v" "OSPrioCur v = 63" "OSLockNesting v = 0" "OSTCBPrioTbl v = [63 \<mapsto> t]" "OSTCBList v = [63]"
    "rdy_list v = mark 63 no_prios" "OSEventTbl v = OSEventTbl s1" by (simp_all add: v_def boot_view_def f2)
  have r: "tbl_ok (mark 63 no_prios)" "prios_of (mark 63 no_prios) = {63}" using pl.add [OF pl.none(1), of 63] pl.none(2) by simp_all
  have w: "waiting ev v = {}" for ev using pl.none(2) by (simp add: waiting_def fv f1)
  have "events_ok v" using pl.none by (simp add: events_ok_def event_ok_def fv f1 split: if_splits)
  moreover have "task_ok v None p u" if "OSTCBPrioTbl v p = Some u" for p u
    using that w by (auto simp: fv task_ok_def r t_def split: if_splits)
  ultimately have "base_ok v (\<lambda>_. None)"
    using r w by (simp add: base_ok_def fv)
  then have b: "base_ok (boot_view s2) (\<lambda>_. None)" by (simp add: v_def)
  have n62: "OSTCBPrioTbl (boot_view s2) 62 = None" using f2(4) by (simp add: boot_view_def)
  obtain err s3 where s3: "OS_TCBInit 62 (boot_view s2) = (err, s3)" "base_ok s3 (\<lambda>_. None)" "OSEventTbl s3 = OSEventTbl (boot_view s2)"
    "OSEventFreeList s3 = OSEventFreeList (boot_view s2)" "OSQFreeList s3 = OSQFreeList (boot_view s2)"
    by (rule OS_TCBInit_ok [OF b n62]) (simp, simp, blast)
  obtain s4 where s4: "OS_TCBInit 62 s2 = (err, s4)" "s3 = boot_view s4" using s3(1) unfolding boot_create by (auto split: prod.splits)
  have n: "OSIntNesting s4 = 0" "OSLockNesting s4 = 0" "\<not> OSRunning s4"
    using s4(1) f2 by (auto simp: OS_TCBInit_def Let_def put_tcb_def split: if_splits)
  have "OSTaskCreate 62 s2 = Inr (err, s4)" using f2 s4(1) n by (simp add: OSTaskCreate_def)
  then have "s = s4" using assms c1 by (simp add: OSInit_def s1_def)
  have e4: "OSEventTbl s4 = OSEventTbl s1" "OSEventFreeList s4 = [0..<15]" "OSQFreeList s4 = [0..<5]"
    using s3(3,4,5) f2 s4(2) by (simp_all add: boot_view_def)
  have "free_ok s4" unfolding free_ok_def e4 by (auto simp: f1)
  then show "boot_ok s" using s3(2) s4(2) n \<open>s = s4\<close> by (simp add: boot_ok_def)
  show "holds ev s = []" unfolding \<open>s = s4\<close> holds_def e4 by (simp add: f1 event_msgs_def)
qed

lemma boot_task:
  assumes b: "boot_ok s" and c: "OSTaskCreate p s = Inr (err, s')"
  shows "boot_ok s'" and "holds ev s' = holds ev s"
proof -
  have n: "OSIntNesting s = 0" "\<not> OSRunning s" "base_ok (boot_view s) (\<lambda>_. None)" "free_ok s" "OSLockNesting s = 0" using b by (simp_all add: boot_ok_def)
  have "boot_ok s' \<and> holds ev s' = holds ev s"
  proof (cases "OSTCBPrioTbl s p = None \<and> p \<notin> OSTCBReserved s")
    case False
    then have "s' = s" using c n by (auto simp: OSTaskCreate_def split: if_splits option.splits)
    then show ?thesis using b by simp
  next
    case True
    then have None: "OSTCBPrioTbl s p = None" by simp
    have p: "p < 64" using c n True by (simp add: OSTaskCreate_def split: if_splits)
    obtain e1 s1 where s1: "OS_TCBInit p s = (e1, s1)" by (cases "OS_TCBInit p s")
    have "\<not> OSRunning s1" using s1 n by (auto simp: OS_TCBInit_def Let_def put_tcb_def split: if_splits)
    then have e: "s' = s1" using c n True p s1 by (simp add: OSTaskCreate_def)
    have v: "OSTCBPrioTbl (boot_view s) p = None" using None by (simp add: boot_view_def)
    have "OS_TCBInit p (boot_view s) = (e1, boot_view s1)" by (simp add: boot_create s1)
    moreover obtain e2 s2 where s2: "OS_TCBInit p (boot_view s) = (e2, s2)" "base_ok s2 (\<lambda>_. None)" "OSEventTbl s2 = OSEventTbl (boot_view s)"
      "OSQTbl s2 = OSQTbl (boot_view s)" "OSEventFreeList s2 = OSEventFreeList (boot_view s)" "OSQFreeList s2 = OSQFreeList (boot_view s)"
      "OSIntNesting s2 = OSIntNesting (boot_view s)" "OSLockNesting s2 = OSLockNesting (boot_view s)"
      by (rule OS_TCBInit_ok [OF n(3) v p]) (simp, blast)
    ultimately have w: "s2 = boot_view s1" by simp
    have f: "OSEventTbl s1 = OSEventTbl s" "OSQTbl s1 = OSQTbl s" "OSEventFreeList s1 = OSEventFreeList s"
      "OSQFreeList s1 = OSQFreeList s" "OSIntNesting s1 = 0" "OSLockNesting s1 = 0"
      using s2(3-8) n unfolding w by (simp_all add: boot_view_def)
    have "free_ok s1" using n(4) unfolding free_ok_def f by blast
    then show ?thesis using s2(2) f \<open>\<not> OSRunning s1\<close> unfolding w e by (simp add: boot_ok_def holds_def cong: option.case_cong)
  qed
  then show "boot_ok s'" "holds ev s' = holds ev s" by simp_all
qed

lemma boot_made:
  assumes "boot_ok s" and "base_ok (boot_view s') (\<lambda>_. None)" and "free_ok (boot_view s')"
    and "OSRunning s' = OSRunning s" "OSIntNesting s' = OSIntNesting s" "OSLockNesting s' = OSLockNesting s"
  shows "boot_ok s'"
  using assms by (simp add: boot_ok_def boot_free)

lemma holds_boot [simp]: "holds ev (boot_view s) = holds ev s"
  by (simp add: holds_def boot_view_def cong: option.case_cong)

lemma booted_ok: "booted s l \<Longrightarrow> boot_ok s \<and> (\<forall>ev. pick ev l = holds ev s)"
proof (induction rule: booted.induct)
  case (init s0 s)
  then show ?case using OSInit_ok [OF init] by simp
next
  case (task s l p err s')
  then show ?case using boot_task [of s p err s'] by simp
next
  case (sem s l cnt ev s')
  have b: "base_ok (boot_view s) (\<lambda>_. None)" "free_ok (boot_view s)" using sem.IH by (simp_all add: boot_ok_def boot_free)
  have c: "OSSemCreate cnt (boot_view s) = Inr (Some ev, boot_view s')" using sem.hyps(2) by (simp add: boot_create)
  have f: "OSRunning s' = OSRunning s" "OSIntNesting s' = OSIntNesting s" "OSLockNesting s' = OSLockNesting s"
    using sem.hyps(2) by (auto simp: OSSemCreate_def put_event_def ebind_eq_Inr_iff Let_def split: if_splits list.splits)
  show ?case
    by (cases rule: OSSemCreate_ok [OF b, of cnt]) (use c sem.IH boot_made [OF _ _ _ f] in auto)
next
  case (queue s l sz start ev s')
  have b: "base_ok (boot_view s) (\<lambda>_. None)" "free_ok (boot_view s)" using queue.IH by (simp_all add: boot_ok_def boot_free)
  have c: "OSQCreate start sz (boot_view s) = Inr (Some ev, boot_view s')" using queue.hyps(4) by (simp add: boot_create)
  have f: "OSRunning s' = OSRunning s" "OSIntNesting s' = OSIntNesting s" "OSLockNesting s' = OSLockNesting s"
    using queue.hyps(4) by (auto simp: OSQCreate_def put_event_def put_q_def ebind_eq_Inr_iff Let_def split: if_splits list.splits)
  show ?case
    by (cases rule: OSQCreate_ok [OF b, of sz start]) (use c queue.IH queue.hyps(2,3) boot_made [OF _ _ _ f] in auto)
next
  case (mutex s l p ev err s')
  have b: "base_ok (boot_view s) (\<lambda>_. None)" "free_ok (boot_view s)" using mutex.IH by (simp_all add: boot_ok_def boot_free)
  have c: "OSMutexCreate p (boot_view s) = Inr (Some ev, err, boot_view s')" using mutex.hyps(3) by (simp add: boot_create)
  have f: "OSRunning s' = OSRunning s" "OSIntNesting s' = OSIntNesting s" "OSLockNesting s' = OSLockNesting s"
    using mutex.hyps(3) by (auto simp: OSMutexCreate_def put_event_def ebind_eq_Inr_iff Let_def split: if_splits list.splits)
  show ?case
    by (cases rule: OSMutexCreate_ok [OF b _ mutex.hyps(2)]) (use c mutex.IH boot_made [OF _ _ _ f] in auto)
qed

text \<open>The start is the first choice of a task to run.\<close>

lemma OSStart_ok:
  assumes "boot_ok s"
  shows "os_ok (OSStart s) (\<lambda>_. None)" and "free_ok (OSStart s)" and "holds ev (OSStart s) = holds ev s"
proof -
  have "OSStart s = reschedule (boot_view s)"
    using assms by (auto simp: boot_ok_def OSStart_def reschedule_def OS_SchedNew_def boot_view_def Let_def)
  then show "os_ok (OSStart s) (\<lambda>_. None)" using reschedule_ok(1) assms by (simp add: boot_ok_def boot_view_def)
  have f: "OSEventTbl (OSStart s) = OSEventTbl s" "OSQTbl (OSStart s) = OSQTbl s" "OSEventFreeList (OSStart s) = OSEventFreeList s"
    "OSQFreeList (OSStart s) = OSQFreeList s"
    by (simp_all add: OSStart_def OS_SchedNew_def Let_def)
  have "free_ok s" using assms by (simp add: boot_ok_def)
  then show "free_ok (OSStart s)" unfolding free_ok_def f by blast
  show "holds ev (OSStart s) = holds ev s" by (rule same_lists(2) [OF f(1,2)])
qed

end
