(* ===== verification/OsWorld.thy ===== *)
theory OsWorld
  imports OsCreate
begin

text \<open>
  Runs of the kernel: a step is a call by the running task, the second half of such a call when its task runs again, a call
  by an interrupt routine, or a timer tick. The steps log what has been posted, taken and received, and the invariant relates the
  three logs to the state: nothing is lost, duplicated or reordered, and the most important ready task runs.
\<close>

section \<open>Steps\<close>

text \<open>
  \<open>pc\<close> holds the event inside whose waiting call a task is. \<open>posted\<close> is a log of the events and messages of all successful posts,
  \<open>taken\<close> of the task, event and message of each message that has left an event, \<open>got\<close> of those that calls have returned.
\<close>

record world =
  kern :: os
  pc :: "nat \<Rightarrow> nat option"
  posted :: "(nat \<times> u32) list"
  taken :: "(nat \<times> nat \<times> u32) list"
  got :: "(nat \<times> nat \<times> u32) list"

definition log_post :: "nat \<Rightarrow> u32 \<Rightarrow> u8 \<Rightarrow> world \<Rightarrow> os \<Rightarrow> world" where
  "log_post ev m err w s' =
     (if err = OS_ERR_NONE then
        w\<lparr>kern := s', posted := posted w @ [(ev, m)],
          taken := taken w @ (if waiting ev (kern w) = {} then [] else [(Min (waiting ev (kern w)), ev, m)])\<rparr>
      else w\<lparr>kern := s'\<rparr>)"

text \<open>Interrupt routines may take a message too; what they take is logged under 64.\<close>

definition taker :: "os \<Rightarrow> nat" where
  "taker s = (if 0 < OSIntNesting s then 64 else OSPrioCur s)"

definition log_take :: "nat \<Rightarrow> u32 \<Rightarrow> u8 \<Rightarrow> world \<Rightarrow> os \<Rightarrow> world" where
  "log_take ev m err w s' =
     (let x = (if err = OS_ERR_NONE then [(taker (kern w), ev, m)] else [])
      in w\<lparr>kern := s', taken := taken w @ x, got := got w @ x\<rparr>)"

definition log_block :: "nat \<Rightarrow> world \<Rightarrow> os \<Rightarrow> world" where
  "log_block ev w s' = w\<lparr>kern := s', pc := (pc w)(OSPrioCur (kern w) := Some ev)\<rparr>"

definition log_resume :: "nat \<Rightarrow> u32 \<Rightarrow> u8 \<Rightarrow> world \<Rightarrow> os \<Rightarrow> world" where
  "log_resume ev m err w s' =
     w\<lparr>kern := s', pc := (pc w)(OSPrioCur (kern w) := None),
       got := got w @ (if err = OS_ERR_NONE then [(OSPrioCur (kern w), ev, m)] else [])\<rparr>"

text \<open>
  A task that is inside a call makes no other; the idle task (priority 63) makes no call that blocks and is not suspended. A task
  deletes only itself: the message in the hand of another would be lost with it.
  In a locked or nested state the second half of a call does not run, since the task it belongs to does not.
\<close>

definition in_task :: "world \<Rightarrow> bool" where
  "in_task w \<longleftrightarrow> pc w (OSPrioCur (kern w)) = None"

definition resumed :: "nat \<Rightarrow> u8 \<Rightarrow> world \<Rightarrow> bool" where
  "resumed ev type w \<longleftrightarrow> pc w (OSPrioCur (kern w)) = Some ev \<and> event_type ev (kern w) = Some type \<and> OSIntNesting (kern w) = 0"

inductive os_step :: "world \<Rightarrow> world \<Rightarrow> bool" where
  q_post: "OSQPost ev m (kern w) = Inr (err, s') \<Longrightarrow> os_step w (log_post ev m err w s')"
| sem_post: "OSSemPost ev (kern w) = Inr (err, s') \<Longrightarrow> os_step w (log_post ev 0 err w s')"
| q_pend: "in_task w \<Longrightarrow> OSPrioCur (kern w) \<noteq> 63 \<Longrightarrow> OSQPend ev timeout (kern w) = Inr (Done m err, s') \<Longrightarrow>
    os_step w (log_take ev m err w s')"
| q_block: "in_task w \<Longrightarrow> OSPrioCur (kern w) \<noteq> 63 \<Longrightarrow> OSQPend ev timeout (kern w) = Inr (Blocked, s') \<Longrightarrow>
    os_step w (log_block ev w s')"
| sem_pend: "in_task w \<Longrightarrow> OSPrioCur (kern w) \<noteq> 63 \<Longrightarrow> OSSemPend ev timeout (kern w) = Inr (Done () err, s') \<Longrightarrow>
    os_step w (log_take ev 0 err w s')"
| sem_block: "in_task w \<Longrightarrow> OSPrioCur (kern w) \<noteq> 63 \<Longrightarrow> OSSemPend ev timeout (kern w) = Inr (Blocked, s') \<Longrightarrow>
    os_step w (log_block ev w s')"
| q_resume: "resumed ev OS_EVENT_TYPE_Q w \<Longrightarrow> OSQPend_resume ev (kern w) = Inr (m, err, s') \<Longrightarrow> os_step w (log_resume ev m err w s')"
| sem_resume: "resumed ev OS_EVENT_TYPE_SEM w \<Longrightarrow> OSSemPend_resume ev (kern w) = Inr (err, s') \<Longrightarrow> os_step w (log_resume ev 0 err w s')"
| q_accept: "pc w (taker (kern w)) = None \<Longrightarrow> OSQAccept ev (kern w) = Inr (m, err, s') \<Longrightarrow> os_step w (log_take ev m err w s')"
| sem_accept: "pc w (taker (kern w)) = None \<Longrightarrow> OSSemAccept ev (kern w) = Inr (cnt, s') \<Longrightarrow> os_step w (log_take ev 0 (if 0 < cnt then OS_ERR_NONE else 1) w s')"
| tick: "0 < OSIntNesting (kern w) \<Longrightarrow> OSTickStepState (kern w) = 0 \<Longrightarrow> OSTimeTick (kern w) = Inr s' \<Longrightarrow> os_step w (w\<lparr>kern := s'\<rparr>)"
| dly: "in_task w \<Longrightarrow> OSPrioCur (kern w) \<noteq> 63 \<Longrightarrow> OSTimeDly ticks (kern w) = Inr s' \<Longrightarrow> os_step w (w\<lparr>kern := s'\<rparr>)"
| suspend: "prio < 63 \<or> prio = 255 \<and> OSPrioCur (kern w) \<noteq> 63 \<Longrightarrow> OSTaskSuspend prio (kern w) = Inr (err, s') \<Longrightarrow>
    os_step w (w\<lparr>kern := s'\<rparr>)"
| unsuspend: "prio < 63 \<Longrightarrow> OSTaskResume prio (kern w) = Inr (err, s') \<Longrightarrow> os_step w (w\<lparr>kern := s'\<rparr>)"
| int_enter: "os_step w (w\<lparr>kern := OSIntEnter (kern w)\<rparr>)"
| int_exit: "os_step w (w\<lparr>kern := OSIntExit (kern w)\<rparr>)"
| lock: "in_task w \<Longrightarrow> os_step w (w\<lparr>kern := OSSchedLock (kern w)\<rparr>)"
| unlock: "os_step w (w\<lparr>kern := OSSchedUnlock (kern w)\<rparr>)"
| task_create: "OSTaskCreate p (kern w) = Inr (err, s') \<Longrightarrow> os_step w (w\<lparr>kern := s'\<rparr>)"
| task_del: "in_task w \<Longrightarrow> OSPrioCur (kern w) \<noteq> 63 \<Longrightarrow> OSLockNesting (kern w) = 0 \<Longrightarrow> p = 255 \<or> p = OSPrioCur (kern w) \<Longrightarrow>
    OSTaskDel p (kern w) = Inr (err, s') \<Longrightarrow> os_step w (w\<lparr>kern := s'\<rparr>)"
| mutex_create: "p < 64 \<Longrightarrow> OSMutexCreate p (kern w) = Inr (ev, err, s') \<Longrightarrow> os_step w (w\<lparr>kern := s'\<rparr>)"
| sem_create: "OSSemCreate cnt (kern w) = Inr (Some ev, s') \<Longrightarrow>
    os_step w (w\<lparr>kern := s', posted := posted w @ replicate (unat cnt) (ev, 0)\<rparr>)"
| q_create: "0 < sz \<Longrightarrow> unat sz \<le> length start \<Longrightarrow> OSQCreate start sz (kern w) = Inr (Some ev, s') \<Longrightarrow> os_step w (w\<lparr>kern := s'\<rparr>)"

text \<open>The states of the kernel from the start on.\<close>

inductive reached :: "world \<Rightarrow> bool" where
  start: "booted s l \<Longrightarrow> reached \<lparr>kern = OSStart s, pc = \<lambda>_. None, posted = l, taken = [], got = []\<rparr>"
| step: "reached w \<Longrightarrow> os_step w w' \<Longrightarrow> reached w'"

section \<open>The invariant\<close>

text \<open>
  What has been posted to an event is what has been taken from it followed by what it holds; what a task has been given is what its calls have
  returned followed by what it has in hand.
\<close>

definition world_ok :: "world \<Rightarrow> bool" where
  "world_ok w \<longleftrightarrow> os_ok (kern w) (pc w) \<and> free_ok (kern w) \<and> (\<forall>p. OSTCBPrioTbl (kern w) p = None \<longrightarrow> pc w p = None) \<and>
     (\<forall>ev. pick ev (posted w) = pick ev (map snd (taken w)) @ holds ev (kern w)) \<and>
     (\<forall>p. pick p (taken w) = pick p (got w) @ in_hand (kern w) (pc w) p)"

lemma world_okD:
  assumes "world_ok w"
  shows "os_ok (kern w) (pc w)" "OSTCBPrioTbl (kern w) p = None \<Longrightarrow> pc w p = None"
    "pick ev (posted w) = pick ev (map snd (taken w)) @ holds ev (kern w)"
    "pick p (taken w) = pick p (got w) @ in_hand (kern w) (pc w) p" "free_ok (kern w)"
  using assms by (simp_all add: world_ok_def)

lemma frame_world:
  assumes "world_ok w" and "frame (kern w) s'"
  shows "free_ok s'" and "OSTCBPrioTbl s' p = None \<longleftrightarrow> OSTCBPrioTbl (kern w) p = None"
proof -
  show "free_ok s'" using frame_free_ok [OF assms(2) world_okD(5) [OF assms(1)]] .
  have "dom (OSTCBPrioTbl s') = dom (OSTCBPrioTbl (kern w))" using assms(2) by (simp add: frame_def)
  then show "OSTCBPrioTbl s' p = None \<longleftrightarrow> OSTCBPrioTbl (kern w) p = None" by (metis domIff)
qed

lemma running_there: "os_ok s c \<Longrightarrow> \<exists>t. OSTCBPrioTbl s (OSPrioCur s) = Some t"
  by (simp add: os_ok_def base_ok_def)

lemma quiet_world:
  assumes w: "world_ok w" and o: "os_ok s' (pc w)" and q: "quiet (pc w) (kern w) s'" and f: "frame (kern w) s'"
  shows "world_ok (w\<lparr>kern := s'\<rparr>)"
  using world_okD [OF w] o q frame_world [OF w f] by (simp add: world_ok_def quiet_def)

lemma post_world:
  assumes w: "world_ok w" and o: "os_ok s' (pc w)" and f: "frame (kern w) s'"
    and z: "err = 0 \<Longrightarrow> if waiting ev (kern w) \<noteq> {} then handed (pc w) (Min (waiting ev (kern w))) ev m (kern w) s'
      else stored (pc w) ev (holds ev (kern w) @ [m]) (kern w) s'"
    and n: "err \<noteq> 0 \<Longrightarrow> s' = kern w"
  shows "world_ok (log_post ev m err w s')"
proof (cases "err = 0")
  case False
  then show ?thesis using w n by (simp add: log_post_def)
next
  case True
  note d = world_okD [OF w] frame_world [OF w f]
  show ?thesis
  proof (cases "waiting ev (kern w) = {}")
    case True
    then show ?thesis using z \<open>err = 0\<close> o d by (simp add: world_ok_def log_post_def stored_def)
  next
    case False
    then show ?thesis using z \<open>err = 0\<close> o d by (simp add: world_ok_def log_post_def handed_def)
  qed
qed

lemma take_world:
  assumes w: "world_ok w" and o: "os_ok s' (pc w)" and f: "frame (kern w) s'" and i: "pc w (taker (kern w)) = None"
    and z: "err = 0 \<Longrightarrow> took (pc w) ev m (kern w) s'" and n: "err \<noteq> 0 \<Longrightarrow> s' = kern w"
  shows "world_ok (log_take ev m err w s')"
proof (cases "err = 0")
  case False
  then show ?thesis using w n by (simp add: log_take_def)
next
  case True
  have e: "in_hand (kern w) (pc w) (taker (kern w)) = []" using i by (simp add: in_hand_def)
  have h: "holds ev (kern w) = m # tl (holds ev (kern w))" and st: "stored (pc w) ev (tl (holds ev (kern w))) (kern w) s'"
    using z True unfolding took_def by blast+
  have p: "pick ev (posted w) = pick ev (map snd (taken w)) @ m # tl (holds ev (kern w))"
    using world_okD(3) [OF w, of ev] h by simp
  show ?thesis using True p world_okD [OF w] frame_world [OF w f] o e st by (simp add: world_ok_def log_take_def stored_def Let_def)
qed

lemma block_world:
  assumes w: "world_ok w" and o: "os_ok s' ((pc w)(OSPrioCur (kern w) := Some ev))" and f: "frame (kern w) s'"
    and h: "\<And>ev'. holds ev' s' = holds ev' (kern w)"
      "\<And>p. in_hand s' ((pc w)(OSPrioCur (kern w) := Some ev)) p = in_hand (kern w) (pc w) p"
  shows "world_ok (log_block ev w s')"
  using world_okD [OF w] o h frame_world [OF w f] running_there [OF world_okD(1) [OF w]]
  by (auto simp: world_ok_def log_block_def)

lemma resume_world:
  assumes w: "world_ok w" and o: "os_ok s' ((pc w)(OSPrioCur (kern w) := None))" and f: "frame (kern w) s'"
    and h: "\<And>ev'. holds ev' s' = holds ev' (kern w)"
    and i: "\<And>p. in_hand s' ((pc w)(OSPrioCur (kern w) := None)) p = (if p = OSPrioCur (kern w) then [] else in_hand (kern w) (pc w) p)"
    and m: "in_hand (kern w) (pc w) (OSPrioCur (kern w)) = (if err = 0 then [(ev, m)] else [])"
  shows "world_ok (log_resume ev m err w s')"
  using world_okD [OF w] o h i m frame_world [OF w f] by (simp add: world_ok_def log_resume_def)

lemma free_taker:
  assumes "world_ok w" and "in_task w"
  shows "pc w (taker (kern w)) = None"
proof -
  have "base_ok (kern w) (pc w)" using world_okD(1) [OF assms(1)] by (simp add: os_ok_def)
  then have "OSTCBPrioTbl (kern w) 64 = None" using base_okD(5) [of "kern w" "pc w" 64] by (cases "OSTCBPrioTbl (kern w) 64") auto
  then show ?thesis using world_okD(2) [OF assms(1)] assms(2) by (simp add: taker_def in_task_def)
qed

lemma event_there: "get_event ev s = Inr e \<Longrightarrow> OSEventTbl s ev = Some e"
  by (simp add: get_event_def split: option.splits)

lemma called_event:
  "OSQPost ev m s = Inr x1 \<Longrightarrow> \<exists>e. OSEventTbl s ev = Some e" "OSSemPost ev s = Inr x2 \<Longrightarrow> \<exists>e. OSEventTbl s ev = Some e"
  "OSQPend ev timeout s = Inr x3 \<Longrightarrow> \<exists>e. OSEventTbl s ev = Some e" "OSSemPend ev timeout s = Inr x4 \<Longrightarrow> \<exists>e. OSEventTbl s ev = Some e"
  "OSQAccept ev s = Inr x5 \<Longrightarrow> \<exists>e. OSEventTbl s ev = Some e" "OSSemAccept ev s = Inr x6 \<Longrightarrow> \<exists>e. OSEventTbl s ev = Some e"
  unfolding OSQPost_def OSSemPost_def OSQPend_def OSSemPend_def OSQAccept_def OSSemAccept_def get_event_def
  by (auto split: option.splits)

lemma resumed_facts:
  assumes "world_ok w" and "resumed ev type w"
  shows "OSIntNesting (kern w) = 0" and "OSLockNesting (kern w) = 0" and "pc w (OSPrioCur (kern w)) = Some ev"
    and "event_type ev (kern w) = Some type"
  using assms by (auto simp: resumed_def world_ok_def os_ok_def base_ok_def word_gt_0)

lemma tick_quiet:
  assumes o: "os_ok s c" and i: "0 < OSIntNesting s" and st: "OSTickStepState s = 0" and t: "OSTimeTick s = Inr s'"
  shows "os_ok s' c" and "quiet c s s'"
proof -
  have b: "base_ok s c" using o by (simp add: os_ok_def)
  obtain s1 where s1: "OSTimeTick s = Inr s1" "base_ok s1 c" "OSPrioCur s1 = OSPrioCur s" "OSLockNesting s1 = OSLockNesting s"
    "OSIntNesting s1 = OSIntNesting s" "OSEventTbl s1 = OSEventTbl s" "OSQTbl s1 = OSQTbl s"
    "\<And>p t. OSTCBPrioTbl s p = Some t \<Longrightarrow> p \<noteq> 63 \<Longrightarrow> \<exists>t'. OSTCBPrioTbl s1 p = Some t' \<and> ticked t t'"
    "\<And>p. OSTCBPrioTbl s p = None \<Longrightarrow> OSTCBPrioTbl s1 p = None" "OSTCBPrioTbl s1 63 = OSTCBPrioTbl s 63"
    by (rule OSTimeTick_ok [OF b st]) (rule that)
  have e: "s1 = s'" using s1(1) t by simp
  show "os_ok s' c" using s1(2,5) i unfolding e os_ok_def by auto
  have "map_option OSTCBMsg (OSTCBPrioTbl s1 p) = map_option OSTCBMsg (OSTCBPrioTbl s p)" for p
    using s1(8) [of p] s1(9) [of p] s1(10) by (cases "p = 63"; cases "OSTCBPrioTbl s p") (auto simp: ticked_def)
  then show "quiet c s s'" using quiet_tbl s1(6,7) unfolding e by blast
qed

lemma nesting_quiet: "quiet c s (OSIntEnter s)" "quiet c s (OSIntExit s)" "quiet c s (OSSchedLock s)" "quiet c s (OSSchedUnlock s)"
  by (rule quiet_same;
      simp add: OSIntEnter_def OSIntExit_def OSSchedLock_def OSSchedUnlock_def reschedule_def OS_Sched_def OS_SchedNew_def Let_def)+

lemma created_world:
  assumes w: "world_ok w" and b: "base_ok s' (pc w)" "free_ok s'" and s: "same_sched (kern w) s'" and e: "holds ev (kern w) = []"
    and h: "\<And>ev'. holds ev' s' = (if ev' = ev then replicate k 0 else holds ev' (kern w))"
    and i: "\<And>p. in_hand s' (pc w) p = in_hand (kern w) (pc w) p"
  shows "world_ok (w\<lparr>kern := s', posted := posted w @ replicate k (ev, 0)\<rparr>)"
proof -
  have "OSTCBPrioTbl s' = OSTCBPrioTbl (kern w)" using s by (simp add: same_sched_def)
  moreover have "pick ev (posted w) = pick ev (map snd (taken w))" using world_okD(3) [OF w, of ev] e by simp
  ultimately show ?thesis
    using world_okD [OF w] same_sched_os_ok [OF s _ b(1)] b(2) h i by (simp add: world_ok_def)
qed

lemma os_step_ok:
  assumes "os_step w w'" and w: "world_ok w"
  shows "world_ok w'"
proof -
  note o = world_okD(1) [OF w]
  show ?thesis using assms(1)
  proof cases
    case (q_post ev m err s')
    then obtain e where e: "OSEventTbl (kern w) ev = Some e" using called_event(1) by blast
    show ?thesis by (rule OSQPost_ok [OF o e, where m = m]) (use q_post frame_calls(5) [OF q_post(2)] in \<open>auto intro: post_world [OF w]\<close>)
  next
    case (sem_post ev err s')
    then obtain e where e: "OSEventTbl (kern w) ev = Some e" using called_event(2) by blast
    show ?thesis by (rule OSSemPost_ok [OF o e]) (use sem_post frame_calls(6) [OF sem_post(2)] in \<open>auto intro: post_world [OF w]\<close>)
  next
    case (q_pend ev timeout m err s')
    then obtain e where e: "OSEventTbl (kern w) ev = Some e" using called_event(3) by blast
    note p = q_pend(2) [unfolded in_task_def]
    show ?thesis
      by (rule OSQPend_ok [OF o e p q_pend(3), where timeout = timeout])
        (use q_pend frame_calls(7) [OF q_pend(4)] free_taker [OF w q_pend(2)] in \<open>auto intro: take_world [OF w]\<close>)
  next
    case (q_block ev timeout s')
    then obtain e where e: "OSEventTbl (kern w) ev = Some e" using called_event(3) by blast
    note p = q_block(2) [unfolded in_task_def]
    show ?thesis
      by (rule OSQPend_ok [OF o e p q_block(3), where timeout = timeout]) (use q_block frame_calls(7) [OF q_block(4)] in \<open>auto intro: block_world [OF w]\<close>)
  next
    case (sem_pend ev timeout err s')
    then obtain e where e: "OSEventTbl (kern w) ev = Some e" using called_event(4) by blast
    note p = sem_pend(2) [unfolded in_task_def]
    show ?thesis
      by (rule OSSemPend_ok [OF o e p sem_pend(3), where timeout = timeout])
        (use sem_pend frame_calls(8) [OF sem_pend(4)] free_taker [OF w sem_pend(2)] in \<open>auto intro: take_world [OF w]\<close>)
  next
    case (sem_block ev timeout s')
    then obtain e where e: "OSEventTbl (kern w) ev = Some e" using called_event(4) by blast
    note p = sem_block(2) [unfolded in_task_def]
    show ?thesis
      by (rule OSSemPend_ok [OF o e p sem_block(3), where timeout = timeout]) (use sem_block frame_calls(8) [OF sem_block(4)] in \<open>auto intro: block_world [OF w]\<close>)
  next
    case (q_resume ev m err s')
    note p = resumed_facts [OF w q_resume(2)]
    show ?thesis by (rule OSQPend_resume_ok [OF o p(1,2,3,4)]) (use q_resume frame_calls(9) [OF q_resume(3)] in \<open>auto intro: resume_world [OF w]\<close>)
  next
    case (sem_resume ev err s')
    note p = resumed_facts [OF w sem_resume(2)]
    show ?thesis by (rule OSSemPend_resume_ok [OF o p(1,2,3,4)]) (use sem_resume frame_calls(10) [OF sem_resume(3)] in \<open>auto intro: resume_world [OF w]\<close>)
  next
    case (q_accept ev m err s')
    then obtain e where e: "OSEventTbl (kern w) ev = Some e" using called_event(5) by blast
    show ?thesis by (rule accept_ok [OF o e]) (use q_accept frame_calls(11) [OF q_accept(3)] in \<open>auto intro: take_world [OF w]\<close>)
  next
    case (sem_accept ev cnt s')
    then obtain e where e: "OSEventTbl (kern w) ev = Some e" using called_event(6) by blast
    show ?thesis by (rule OSSemAccept_ok [OF o e]) (use sem_accept frame_calls(12) [OF sem_accept(3)] in \<open>auto simp: word_gt_0 intro: take_world [OF w]\<close>)
  next
    case (tick s')
    show ?thesis unfolding tick(1) by (rule quiet_world [OF w tick_quiet(1,2) [OF o tick(2,3,4)] frame_calls(1) [OF tick(4)]])
  next
    case (dly ticks s')
    note p = dly(2) [unfolded in_task_def]
    show ?thesis by (rule OSTimeDly_ok [OF o p dly(3), where ticks = ticks]) (use dly frame_calls(2) [OF dly(4)] in \<open>auto intro: quiet_world [OF w] quiet_tbl\<close>)
  next
    case (suspend prio err s')
    show ?thesis by (rule OSTaskSuspend_ok [OF o suspend(2)]) (use suspend frame_calls(3) [OF suspend(3)] in \<open>auto intro: quiet_world [OF w] quiet_tbl\<close>)
  next
    case (unsuspend prio err s')
    show ?thesis by (rule OSTaskResume_ok [OF o unsuspend(2)]) (use unsuspend frame_calls(4) [OF unsuspend(3)] in \<open>auto intro: quiet_world [OF w] quiet_tbl\<close>)
  next
    case int_enter
    show ?thesis unfolding int_enter by (rule quiet_world [OF w nesting_ok(1) [OF o] nesting_quiet(1) frame_nesting(1)])
  next
    case int_exit
    show ?thesis unfolding int_exit by (rule quiet_world [OF w nesting_ok(2) [OF o] nesting_quiet(2) frame_nesting(2)])
  next
    case lock
    show ?thesis unfolding lock(1) by (rule quiet_world [OF w nesting_ok(3) [OF o lock(2) [unfolded in_task_def]] nesting_quiet(3) frame_nesting(3)])
  next
    case unlock
    show ?thesis unfolding unlock by (rule quiet_world [OF w nesting_ok(4) [OF o] nesting_quiet(4) frame_nesting(4)])
  next
    case (task_create p err s')
    have n: "\<And>p. OSTCBPrioTbl (kern w) p = None \<Longrightarrow> pc w p = None" by (rule world_okD(2) [OF w])
    note c = OSTaskCreate_ok [OF o world_okD(5) [OF w] n task_create(2)]
    have "OSTCBPrioTbl s' q = None \<Longrightarrow> OSTCBPrioTbl (kern w) q = None" for q using c(6) by blast
    then show ?thesis unfolding task_create(1) using world_okD [OF w] c(1,2,5) same_lists(2) [OF c(3,4)] by (simp add: world_ok_def)
  next
    case (task_del p err s')
    note d = OSTaskDel_ok [OF o world_okD(5) [OF w] task_del(2) [unfolded in_task_def] task_del(3,4,5,6)]
    have "pc w q = None" if "OSTCBPrioTbl s' q = None" for q
      using d(5) [OF that] world_okD(2) [OF w] task_del(2) by (auto simp: in_task_def)
    then show ?thesis unfolding task_del(1) using world_okD [OF w] d(1-4) by (simp add: world_ok_def)
  next
    case (mutex_create p ev err s')
    have b: "base_ok (kern w) (pc w)" using o by (simp add: os_ok_def)
    have n: "\<And>p. OSTCBPrioTbl (kern w) p = None \<Longrightarrow> pc w p = None" by (rule world_okD(2) [OF w])
    show ?thesis
      by (cases rule: OSMutexCreate_ok [OF b world_okD(5) [OF w] n mutex_create(2)])
        (use mutex_create w created_world [OF w, where k = 0] in auto)
  next
    case (sem_create cnt ev s')
    have b: "base_ok (kern w) (pc w)" using o by (simp add: os_ok_def)
    have n: "\<And>p. OSTCBPrioTbl (kern w) p = None \<Longrightarrow> pc w p = None" by (rule world_okD(2) [OF w])
    show ?thesis
      by (cases rule: OSSemCreate_ok [OF b world_okD(5) [OF w] n, of cnt]) (use sem_create created_world [OF w] in auto)
  next
    case (q_create sz start ev s')
    have b: "base_ok (kern w) (pc w)" using o by (simp add: os_ok_def)
    have n: "\<And>p. OSTCBPrioTbl (kern w) p = None \<Longrightarrow> pc w p = None" by (rule world_okD(2) [OF w])
    show ?thesis
      by (cases rule: OSQCreate_ok [OF b world_okD(5) [OF w] n q_create(2,3)]) (use q_create created_world [OF w, where k = 0] in auto)
  qed
qed

lemma reached_ok: "reached w \<Longrightarrow> world_ok w"
proof (induction rule: reached.induct)
  case (start s l)
  then show ?case using booted_ok [OF start] OSStart_ok [of s] by (simp add: world_ok_def in_hand_def)
next
  case (step w w')
  then show ?case using os_step_ok by blast
qed

end
