(* ===== verification/OsProps.thy ===== *)
theory OsProps
  imports OsWorld
begin

text \<open>
  The properties of the kernel, over all states it can reach from its start, and the run that shows they are not empty: two tasks
  and a queue, where one task waits for the message of the other.
\<close>

section \<open>A run\<close>

text \<open>After \<open>OSInit\<close>.\<close>

definition no_task :: os_tcb where
  "no_task = \<lparr>OSTCBStat = 0, OSTCBStatPend = 0, OSTCBDly = 0, OSTCBMsg = 0, OSTCBEventPtr = None\<rparr>"

definition no_event :: os_event where
  "no_event = \<lparr>OSEventType = 0, OSEventCnt = 0, OSEventPtr = 0, wait_list = no_prios\<rparr>"

definition demo0 :: os where
  "demo0 = \<lparr>OSTime = 0, OSRunning = False, OSIntNesting = 0, OSLockNesting = 0, OSTickStepState = 0, OSPrioCur = 0, OSPrioHighRdy = 0,
     rdy_list = mark 62 (mark 63 no_prios), OSTCBPrioTbl = [63 \<mapsto> no_task, 62 \<mapsto> no_task], OSTCBReserved = {}, OSTCBList = [62, 63], OSTCBFree = 20,
     OSEventTbl = (\<lambda>ev. if ev < 15 then Some no_event else None), OSEventFreeList = [0..<15],
     OSQTbl = (\<lambda>i. if i < 5 then Some \<lparr>storage = [], OSQIn = 0, OSQOut = 0, OSQSize = 0, OSQEntries = 0\<rparr> else None), OSQFreeList = [0..<5]\<rparr>"

lemma demo0: "OSInit demo0 = Inr demo0"
  by (simp add: OSInit_def OS_QInit_def OS_InitEventList_def OS_InitTCBList_def OS_InitRdyList_def OS_InitMisc_def
    OSTaskCreate_def OS_TCBInit_def put_tcb_def demo0_def no_task_def no_event_def cong: if_cong)

text \<open>Tasks 10 and 20 and a queue of two messages, then the start.\<close>

definition demo1 :: os where
  "demo1 = demo0\<lparr>OSTCBPrioTbl := [63 \<mapsto> no_task, 62 \<mapsto> no_task, 20 \<mapsto> no_task, 10 \<mapsto> no_task], OSTCBList := [10, 20, 62, 63], OSTCBFree := 18,
     rdy_list := mark 10 (mark 20 (mark 62 (mark 63 no_prios)))\<rparr>"

definition demo2 :: os where
  "demo2 = demo1\<lparr>OSEventFreeList := [1..<15], OSQFreeList := [1..<5],
     OSQTbl := (OSQTbl demo1)(0 \<mapsto> \<lparr>storage = [0, 0], OSQIn = 0, OSQOut = 0, OSQSize = 2, OSQEntries = 0\<rparr>),
     OSEventTbl := (OSEventTbl demo1)(0 \<mapsto> \<lparr>OSEventType = 2, OSEventCnt = 0, OSEventPtr = 0, wait_list = no_prios\<rparr>)\<rparr>"

lemma demo1: "ebind (OSTaskCreate 20 demo0) (\<lambda>(_, s). OSTaskCreate 10 s) = Inr (0, demo1)"
  by (simp add: OSTaskCreate_def OS_TCBInit_def put_tcb_def demo0_def demo1_def no_task_def Let_def)

lemma demo2: "OSQCreate [0, 0] 2 demo1 = Inr (Some 0, demo2)"
  by (simp add: OSQCreate_def put_q_def get_event_def put_event_def demo0_def demo1_def demo2_def no_event_def upt_conv_Cons Let_def)

lemma demo_booted: "booted demo2 []"
proof -
  obtain s err where s: "OSTaskCreate 20 demo0 = Inr (err, s)" "OSTaskCreate 10 s = Inr (0, demo1)"
    using demo1 by (auto simp: ebind_eq_Inr_iff)
  have "booted demo1 []" by (rule booted.task [OF booted.task [OF booted.init [OF demo0] s(1)] s(2)])
  then show ?thesis by (rule booted.queue [OF _ _ _ demo2]) simp_all
qed

definition demo3 :: os where
  "demo3 = demo2\<lparr>OSRunning := True, OSPrioCur := 10, OSPrioHighRdy := 10\<rparr>"

lemma highest_marks: "tbl_ok r \<Longrightarrow> prios_of r = S \<Longrightarrow> S \<noteq> {} \<Longrightarrow> Min S = p \<Longrightarrow> highest r = p"
  using pl.top_Min by blast

lemma demo3: "OSStart demo2 = demo3"
proof -
  have "highest (rdy_list demo2) = 10"
    by (rule highest_marks [of _ "{10, 20, 62, 63}"]) (simp_all add: demo2_def demo1_def pl.add pl.none)
  then show ?thesis by (simp add: OSStart_def OS_SchedNew_def demo3_def) (simp add: demo2_def demo1_def demo0_def)
qed


text \<open>Task 10 waits for a message, task 20 posts one, task 10 gets it.\<close>

definition demo4 :: os where
  "demo4 = demo3\<lparr>OSTCBPrioTbl := (OSTCBPrioTbl demo3)(10 \<mapsto> no_task\<lparr>OSTCBStat := 4, OSTCBDly := 5, OSTCBEventPtr := Some 0\<rparr>),
     OSEventTbl := (OSEventTbl demo3)(0 \<mapsto> \<lparr>OSEventType = 2, OSEventCnt = 0, OSEventPtr = 0, wait_list = mark 10 no_prios\<rparr>),
     rdy_list := unmark 10 (rdy_list demo3), OSPrioCur := 20, OSPrioHighRdy := 20\<rparr>"

lemma demo_tables:
  "OSTCBPrioTbl demo3 = [63 \<mapsto> no_task, 62 \<mapsto> no_task, 20 \<mapsto> no_task, 10 \<mapsto> no_task]"
  "OSEventTbl demo3 0 = Some \<lparr>OSEventType = 2, OSEventCnt = 0, OSEventPtr = 0, wait_list = no_prios\<rparr>"
  "OSQTbl demo3 0 = Some \<lparr>storage = [0, 0], OSQIn = 0, OSQOut = 0, OSQSize = 2, OSQEntries = 0\<rparr>"
  "OSIntNesting demo3 = 0" "OSLockNesting demo3 = 0" "OSPrioCur demo3 = 10" "OSRunning demo3" "OSTickStepState demo3 = 0"
  "tbl_ok (rdy_list demo3)" "prios_of (rdy_list demo3) = {10, 20, 62, 63}"
  by (simp_all add: demo3_def demo2_def demo1_def demo0_def pl.add pl.none)

lemma demo4: "OSQPend 0 5 demo3 = Inr (Blocked, demo4)"
proof -
  have h: "highest (unmark 10 (rdy_list demo3)) = 20"
    by (rule highest_marks [of _ "{20, 62, 63}"]) (auto simp: pl.del demo_tables)
  show ?thesis
    by (simp add: OSQPend_def get_event_def get_q_def get_tcb_def block_on_def OS_EventTaskWait_def put_tcb_def put_event_def
      demo_tables OS_STAT_Q_def OS_Sched_def reschedule_def OS_SchedNew_def h Let_def demo4_def no_task_def)
qed

definition demo5 :: os where
  "demo5 = demo4\<lparr>OSTCBPrioTbl := (OSTCBPrioTbl demo3)(10 \<mapsto> no_task\<lparr>OSTCBMsg := 7, OSTCBEventPtr := Some 0\<rparr>),
     OSEventTbl := (OSEventTbl demo3)(0 \<mapsto> \<lparr>OSEventType = 2, OSEventCnt = 0, OSEventPtr = 0, wait_list = unmark 10 (mark 10 no_prios)\<rparr>),
     rdy_list := mark 10 (rdy_list demo4), OSPrioCur := 10, OSPrioHighRdy := 10\<rparr>"

lemma demo5: "OSQPost 0 7 demo4 = Inr (0, demo5)"
proof -
  have h: "highest (mark 10 no_prios) = 10" "highest (mark 10 (unmark 10 (rdy_list demo3))) = 10"
    by (rule highest_marks [of _ "{10}"]; simp add: pl.add pl.none)
      (rule highest_marks [of _ "{10, 20, 62, 63}"]; auto simp: pl.add pl.del demo_tables)
  have g: "Grp (mark 10 no_prios) \<noteq> 0" by (simp add: pl.empty pl.add pl.none)
  show ?thesis
    by (simp add: OSQPost_def get_event_def get_tcb_def OS_EventTaskRdy_def OS_EventTaskRemove_def put_tcb_def put_event_def g
      demo_tables OS_STAT_Q_def OS_STAT_SUSPEND_def OS_Sched_def reschedule_def OS_SchedNew_def h Let_def demo4_def demo5_def no_task_def)
qed

definition demo6 :: os where
  "demo6 = demo5\<lparr>OSTCBPrioTbl := OSTCBPrioTbl demo3\<rparr>"

lemma demo6: "OSQPend_resume 0 demo5 = Inr (7, 0, demo6)"
  by (simp add: OSQPend_resume_def pend_resume_def get_tcb_def put_tcb_def demo5_def demo6_def demo_tables no_task_def)

definition demo_world :: world where
  "demo_world = \<lparr>kern = demo6, pc = \<lambda>_. None, posted = [(0, 7)], taken = [(10, 0, 7)], got = [(10, 0, 7)]\<rparr>"

lemma demo_start: "reached \<lparr>kern = demo3, pc = \<lambda>_. None, posted = [], taken = [], got = []\<rparr>"
  using reached.start [OF demo_booted] by (simp add: demo3)

lemma demo_blocked: "reached \<lparr>kern = demo4, pc = (\<lambda>_. None)(10 := Some 0), posted = [], taken = [], got = []\<rparr>"
  using reached.step [OF demo_start os_step.q_block [of _ 0 5 demo4]] by (simp add: in_task_def demo_tables demo4 log_block_def)

lemma demo_posted: "reached \<lparr>kern = demo5, pc = (\<lambda>_. None)(10 := Some 0), posted = [(0, 7)], taken = [(10, 0, 7)], got = []\<rparr>"
proof -
  have "waiting 0 demo4 = {10}" by (simp add: waiting_def demo4_def pl.add pl.none)
  then show ?thesis using reached.step [OF demo_blocked os_step.q_post [of 0 7 _ 0 demo5]] by (simp add: demo5 log_post_def)
qed

lemma demo_received: "reached demo_world"
proof -
  have "OSEventTbl demo5 0 \<noteq> None" "event_type 0 demo5 = Some 2" "OSPrioCur demo5 = 10" "OSIntNesting demo5 = 0"
    by (simp_all add: demo5_def event_type_def) (simp add: demo4_def demo_tables)
  then show ?thesis using reached.step [OF demo_posted os_step.q_resume [of 0 _ 7 0 demo6]]
    by (simp add: demo6 log_resume_def resumed_def demo_world_def)
qed

section \<open>Scheduling\<close>

text \<open>
  C1. Whenever the kernel is in a task and the scheduler is not locked, the task that runs is ready (no event it waits for, no delay, not
  suspended), and no task that is ready has a higher priority. The states are all those reached from \<open>OSInit\<close> and \<open>OSStart\<close> by calls, interrupts and ticks.
\<close>

theorem kernel_runs_highest_ready:
  assumes "reached w" and "OSIntNesting (kern w) = 0" and "OSLockNesting (kern w) = 0"
  shows "\<exists>t. OSTCBPrioTbl (kern w) (OSPrioCur (kern w)) = Some t \<and> OSTCBStat t = 0 \<and> OSTCBDly t = 0 \<and>
    (\<forall>p t'. OSTCBPrioTbl (kern w) p = Some t' \<and> OSTCBStat t' = 0 \<and> OSTCBDly t' = 0 \<longrightarrow> OSPrioCur (kern w) \<le> p)"
proof -
  have o: "os_ok (kern w) (pc w)" by (rule world_okD(1) [OF reached_ok [OF assms(1)]])
  then have b: "base_ok (kern w) (pc w)" and m: "OSPrioCur (kern w) = Min (prios_of (rdy_list (kern w)))"
    using assms(2,3) by (simp_all add: os_ok_def)
  have top: "OSPrioCur (kern w) \<le> p" if "OSTCBPrioTbl (kern w) p = Some t'" "OSTCBStat t' = 0" "OSTCBDly t' = 0" for p t'
  proof -
    have "p \<in> prios_of (rdy_list (kern w))" using base_okD(3) [OF b that(1)] that(2,3) by (simp add: task_ok_def)
    then show ?thesis unfolding m by (rule Min_le [OF pl.finite_prios [OF base_okD(1) [OF b]]])
  qed
  show ?thesis by (rule running_ready [OF o assms(2,3)]) (use top in blast)
qed

lemma kernel_runs_highest_ready_witness:
  "\<exists>t. OSTCBPrioTbl demo4 20 = Some t \<and> OSTCBStat t = 0 \<and> OSTCBDly t = 0 \<and>
    (\<forall>p t'. OSTCBPrioTbl demo4 p = Some t' \<and> OSTCBStat t' = 0 \<and> OSTCBDly t' = 0 \<longrightarrow> 20 \<le> p)"
proof -
  have "OSIntNesting demo4 = 0" "OSLockNesting demo4 = 0" "OSPrioCur demo4 = 20" by (simp_all add: demo4_def demo_tables)
  then show ?thesis using kernel_runs_highest_ready [OF demo_blocked] by simp
qed

section \<open>Messages\<close>

text \<open>
  C2. Nothing that is posted is lost, duplicated or overtaken: what has been posted to an event is what tasks have been given from it, in this
  order, followed by what it still holds; what a task has been given is what its calls have returned followed by what it will find when it
  runs again, at most one message. While a task waits for an event the event holds nothing.
\<close>

theorem kernel_loses_nothing:
  assumes "reached w"
  shows "pick ev (posted w) = pick ev (map snd (taken w)) @ holds ev (kern w) \<and>
    pick p (taken w) = pick p (got w) @ in_hand (kern w) (pc w) p \<and> length (in_hand (kern w) (pc w) p) \<le> 1 \<and>
    (waiting ev (kern w) \<noteq> {} \<longrightarrow> holds ev (kern w) = [])"
proof -
  note d = world_okD [OF reached_ok [OF assms]]
  have b: "base_ok (kern w) (pc w)" using d(1) by (simp add: os_ok_def)
  have "waiting ev (kern w) \<noteq> {} \<Longrightarrow> holds ev (kern w) = []"
    using event_facts(5) [OF b] by (cases "OSEventTbl (kern w) ev") (auto simp: waiting_def)
  moreover have "length (in_hand (kern w) (pc w) p) \<le> 1" by (simp add: in_hand_def split: option.split)
  ultimately show ?thesis using d(3,4) by blast
qed

lemma kernel_loses_nothing_witness:
  "pick 0 [(0, 7)] = pick 0 (map snd [(10, 0, 7)]) @ holds 0 demo5 \<and>
    pick 10 [(10, 0, 7)] = pick 10 [] @ in_hand demo5 ((\<lambda>_. None)(10 := Some 0)) 10 \<and>
    length (in_hand demo5 ((\<lambda>_. None)(10 := Some 0)) 10) \<le> 1"
  using kernel_loses_nothing [OF demo_posted, of 0 10] by simp



text \<open>
  C12. Posting to a queue: when tasks wait, the one of the highest priority is given the message; otherwise the message is stored behind those
  in the queue, unless the queue is full: then the answer is \<open>OS_ERR_Q_FULL\<close> and nothing has changed.
\<close>

theorem OSQPost_delivers:
  assumes "reached w" and e: "OSEventTbl (kern w) ev = Some e" and ty: "OSEventType e = OS_EVENT_TYPE_Q"
    and q: "OSQTbl (kern w) (OSEventPtr e) = Some q"
  shows "\<exists>err s'. OSQPost ev m (kern w) = Inr (err, s') \<and>
    (if waiting ev (kern w) \<noteq> {} then err = OS_ERR_NONE \<and> in_hand s' (pc w) (Min (waiting ev (kern w))) = [(ev, m)] \<and> holds ev s' = []
     else if length (holds ev (kern w)) < unat (OSQSize q) then err = OS_ERR_NONE \<and> holds ev s' = holds ev (kern w) @ [m]
     else err = OS_ERR_Q_FULL \<and> s' = kern w)"
proof -
  note o = world_okD(1) [OF reached_ok [OF assms(1)]]
  have b: "base_ok (kern w) (pc w)" using o by (simp add: os_ok_def)
  note ef = event_facts [OF b e]
  have g: "get_q (OSEventPtr e) (kern w) = Inr q" using q by (simp add: get_q_def)
  then have h: "holds ev (kern w) = q_msgs q" using ef(3) [OF ty] by auto
  obtain err s' where p: "OSQPost ev m (kern w) = Inr (err, s')"
    "err = 0 \<Longrightarrow> if waiting ev (kern w) \<noteq> {} then handed (pc w) (Min (waiting ev (kern w))) ev m (kern w) s'
      else stored (pc w) ev (holds ev (kern w) @ [m]) (kern w) s'"
    "err \<noteq> 0 \<Longrightarrow> waiting ev (kern w) = {} \<and> (\<exists>q. OSQTbl (kern w) (OSEventPtr e) = Some q \<and> length (holds ev (kern w)) = unat (OSQSize q))"
    by (rule OSQPost_ok [OF o e, where m = m]) (use ty in blast)
  have full: "OSQPost ev m (kern w) = Inr (30, kern w)" if "waiting ev (kern w) = {}" "\<not> length (holds ev (kern w)) < unat (OSQSize q)"
    using that ef(1,2) ty g h by (simp add: OSQPost_def q_store_def q_full)
  show ?thesis
  proof (cases "waiting ev (kern w) = {}")
    case False
    then have "err = 0" using p(3) by blast
    then show ?thesis using False p(1,2) by (simp add: handed_def)
  next
    case True
    show ?thesis
    proof (cases "length (holds ev (kern w)) < unat (OSQSize q)")
      case True
      then have "err = 0" using p(3) q by auto
      then show ?thesis using True \<open>waiting ev (kern w) = {}\<close> p(1,2) by (simp add: stored_def)
    next
      case False
      then show ?thesis using True full by simp
    qed
  qed
qed

lemma OSQPost_delivers_witness:
  "\<exists>err s'. OSQPost 0 9 demo4 = Inr (err, s') \<and> err = 0 \<and> in_hand s' ((\<lambda>_. None)(10 := Some 0)) 10 = [(0, 9)]"
proof -
  let ?w = "\<lparr>kern = demo4, pc = (\<lambda>_. None)(10 := Some 0), posted = [], taken = [], got = []\<rparr>"
  have w: "waiting 0 demo4 = {10}" by (simp add: waiting_def demo4_def pl.add pl.none)
  have e: "OSEventTbl (kern ?w) 0 = Some \<lparr>OSEventType = 2, OSEventCnt = 0, OSEventPtr = 0, wait_list = mark 10 no_prios\<rparr>"
    by (simp add: demo4_def)
  have q: "OSQTbl (kern ?w) (OSEventPtr \<lparr>OSEventType = 2, OSEventCnt = 0, OSEventPtr = 0, wait_list = mark 10 no_prios\<rparr>) =
      Some \<lparr>storage = [0, 0], OSQIn = 0, OSQOut = 0, OSQSize = 2, OSQEntries = 0\<rparr>"
    by (simp add: demo4_def demo_tables)
  show ?thesis using OSQPost_delivers [OF demo_blocked e _ q, of 9] unfolding world.simps w by auto
qed

text \<open>
  A message put in front of a queue in which there is room is the next to be taken, and taking it leaves the messages that were there, in
  their order.
\<close>

theorem OSQPostFront_OSQAccept:
  assumes "reached w" and e: "OSEventTbl (kern w) ev = Some e" and ty: "OSEventType e = OS_EVENT_TYPE_Q"
    and q: "OSQTbl (kern w) (OSEventPtr e) = Some q" and n: "waiting ev (kern w) = {}" "length (holds ev (kern w)) < unat (OSQSize q)"
  shows "\<exists>s1 s2. OSQPostFront ev m (kern w) = Inr (OS_ERR_NONE, s1) \<and> OSQAccept ev s1 = Inr (m, OS_ERR_NONE, s2) \<and>
    (\<forall>ev'. holds ev' s2 = holds ev' (kern w))"
proof -
  note o = world_okD(1) [OF reached_ok [OF assms(1)]]
  have b: "base_ok (kern w) (pc w)" using o by (simp add: os_ok_def)
  note ef = event_facts [OF b e]
  have g: "get_q (OSEventPtr e) (kern w) = Inr q" using q by (simp add: get_q_def)
  then have h: "holds ev (kern w) = q_msgs q" "q_ok q" using ef(3) [OF ty] by auto
  obtain q1 where q1: "q_put_front m q = Inr q1" "q_ok q1" "q_msgs q1 = m # q_msgs q"
    using q_put_front_ok [OF h(2), of m] n(2) h(1) by auto
  let ?s1 = "put_q (OSEventPtr e) q1 (kern w)"
  have p: "OSQPostFront ev m (kern w) = Inr (0, ?s1)"
    using n ef(1,2) ty g q1(1) h(1) by (simp add: OSQPostFront_def q_store_def word_le_nat_alt)
  have "waiting ev (kern w) \<noteq> {} \<Longrightarrow> q_msgs q1 = []" using n by simp
  note st = put_q_stored [OF o e ty q1(2) this]
  have e1: "OSEventTbl ?s1 ev = Some e" using e by (simp add: put_q_def)
  have h1: "holds ev' ?s1 = (if ev' = ev then m # q_msgs q else holds ev' (kern w))" for ev' using st(2) q1(3) by (simp add: stored_def)
  show ?thesis
  proof (rule take_q_ok [OF st(1) e1 ty])
    assume "holds ev ?s1 = []"
    then show ?thesis using h1 [of ev] by simp
  next
    fix q' m' q2
    assume q2: "get_q (OSEventPtr e) ?s1 = Inr q'" "0 < OSQEntries q'" "q_take q' = Inr (m', q2)" "holds ev ?s1 = m' # tl (holds ev ?s1)"
      "stored (pc w) ev (tl (holds ev ?s1)) ?s1 (put_q (OSEventPtr e) q2 ?s1)"
    then have "OSQAccept ev ?s1 = Inr (m, 0, put_q (OSEventPtr e) q2 ?s1)"
      using e1 ty h1 [of ev] by (simp add: OSQAccept_def get_event_def)
    moreover have "holds ev' (put_q (OSEventPtr e) q2 ?s1) = holds ev' (kern w)" for ev'
      using q2(5) h1 [of ev'] h1 [of ev] h(1) by (simp add: stored_def)
    ultimately show ?thesis using p by blast
  qed
qed

lemma OSQPostFront_OSQAccept_witness:
  "\<exists>s1 s2. OSQPostFront 0 9 demo3 = Inr (0, s1) \<and> OSQAccept 0 s1 = Inr (9, 0, s2) \<and> (\<forall>ev'. holds ev' s2 = holds ev' demo3)"
proof -
  have "waiting 0 demo3 = {}" "holds 0 demo3 = []" by (simp_all add: waiting_def holds_def event_msgs_def q_msgs_def ring_list_def demo_tables pl.none)
  then show ?thesis using OSQPostFront_OSQAccept [OF demo_start, of 0 _ _ 9] demo_tables(2,3) by simp
qed

section \<open>Time\<close>

fun run_ticks :: "nat \<Rightarrow> os \<Rightarrow> fault + os" where
  "run_ticks 0 s = Inr s"
| "run_ticks (Suc n) s = ebind (OSTimeTick s) (run_ticks n)"

lemma tick_task_step: "tick_task p s = Inr s' \<Longrightarrow> OSTickStepState s' = OSTickStepState s"
  by (auto simp: tick_task_def put_tcb_def ebind_eq_Inr_iff Let_def split: if_splits)

lemma tick_tasks_step: "tick_tasks ps s = Inr s' \<Longrightarrow> OSTickStepState s' = OSTickStepState s"
  by (induction ps s rule: tick_tasks.induct) (auto simp: ebind_eq_Inr_iff tick_task_step split: if_splits)

lemma OSTimeTick_step: "OSTickStepState s = 0 \<Longrightarrow> OSTimeTick s = Inr s' \<Longrightarrow> OSTickStepState s' = 0"
  by (auto simp: OSTimeTick_def Let_def dest!: tick_tasks_step split: if_splits)

lemma pend_stat_cases:
  assumes "x AND NOT OS_STAT_SUSPEND = 0 \<or> (\<exists>ty. x AND NOT OS_STAT_SUSPEND = pend_bit ty)"
  shows "x AND NOT OS_STAT_PEND_ANY = 0 \<longleftrightarrow> x AND OS_STAT_SUSPEND = 0"
proof -
  have x: "x = (x AND NOT OS_STAT_SUSPEND) OR (x AND OS_STAT_SUSPEND)"
    by (simp flip: bit.conj_disj_distrib)
  have "(x AND NOT OS_STAT_SUSPEND) AND NOT OS_STAT_PEND_ANY = 0" using assms pend_bit_facts(4) by auto
  moreover have "(x AND OS_STAT_SUSPEND) AND NOT OS_STAT_PEND_ANY = x AND OS_STAT_SUSPEND"
    by (simp add: and.assoc OS_STAT_SUSPEND_def OS_STAT_PEND_ANY_def)
  ultimately have "x AND NOT OS_STAT_PEND_ANY = x AND OS_STAT_SUSPEND"
    by (subst x) (simp add: bit.conj_disj_distrib2)
  then show ?thesis by simp
qed

text \<open>\<open>k\<close> ticks seen from one task whose delay is at least \<open>k\<close>.\<close>

lemma run_ticks_ok:
  assumes "base_ok s c" and "OSTickStepState s = 0" and "OSTCBPrioTbl s p = Some t" and "p \<noteq> 63" and "k \<le> unat (OSTCBDly t)"
  shows "\<exists>s' t'. run_ticks k s = Inr s' \<and> base_ok s' c \<and> OSTCBPrioTbl s' p = Some t' \<and> unat (OSTCBDly t') = unat (OSTCBDly t) - k \<and>
    (if 0 < k \<and> k = unat (OSTCBDly t)
     then OSTCBStat t' = OSTCBStat t AND NOT OS_STAT_PEND_ANY \<and> OSTCBStatPend t' = (if OSTCBStat t AND OS_STAT_PEND_ANY = 0 then 0 else 1)
     else OSTCBStat t' = OSTCBStat t \<and> OSTCBStatPend t' = OSTCBStatPend t)"
  using assms
proof (induction k arbitrary: s t)
  case 0
  then show ?case by simp
next
  case (Suc k)
  obtain s1 t1 where s1: "OSTimeTick s = Inr s1" "base_ok s1 c" "OSTCBPrioTbl s1 p = Some t1" "ticked t t1"
    by (rule OSTimeTick_ok [OF Suc.prems(1,2)]) (use Suc.prems(3,4) in blast)
  have st: "OSTickStepState s1 = 0" by (rule OSTimeTick_step [OF Suc.prems(2) s1(1)])
  have d: "OSTCBDly t \<noteq> 0" using Suc.prems(5) by auto
  then have u: "unat (OSTCBDly t1) = unat (OSTCBDly t) - 1" using s1(4) by (simp add: ticked_def unat_minus_one)
  have one: "OSTCBDly t = 1 \<longleftrightarrow> unat (OSTCBDly t) = 1" by (simp add: word_unat_eq_iff)
  have "k \<le> unat (OSTCBDly t1)" using u Suc.prems(5) by simp
  from Suc.IH [OF s1(2) st s1(3) Suc.prems(4) this] obtain s' t' where s': "run_ticks k s1 = Inr s'" "base_ok s' c"
    "OSTCBPrioTbl s' p = Some t'" "unat (OSTCBDly t') = unat (OSTCBDly t1) - k"
    "if 0 < k \<and> k = unat (OSTCBDly t1)
     then OSTCBStat t' = OSTCBStat t1 AND NOT OS_STAT_PEND_ANY \<and> OSTCBStatPend t' = (if OSTCBStat t1 AND OS_STAT_PEND_ANY = 0 then 0 else 1)
     else OSTCBStat t' = OSTCBStat t1 \<and> OSTCBStatPend t' = OSTCBStatPend t1" by blast
  have r: "run_ticks (Suc k) s = Inr s'" using s1(1) s'(1) by simp
  have n: "unat (OSTCBDly t') = unat (OSTCBDly t) - Suc k" using s'(4) u by simp
  show ?case
  proof (cases "OSTCBDly t = 1")
    case True
    then have "k = 0" "OSTCBStat t' = OSTCBStat t1" "OSTCBStatPend t' = OSTCBStatPend t1" using Suc.prems(5) s'(5) by auto
    then show ?thesis using True r n s'(2,3) s1(4) by (simp add: ticked_def)
  next
    case False
    then have "unat (OSTCBDly t) \<noteq> 1" "OSTCBStat t1 = OSTCBStat t" "OSTCBStatPend t1 = OSTCBStatPend t"
      using one s1(4) by (simp_all add: ticked_def)
    then show ?thesis using r n s'(2,3,5) u Suc.prems(5) by (auto split: if_splits)
  qed
qed

text \<open>
  C18. A delay or timeout of \<open>n\<close> ticks lasts exactly \<open>n\<close> ticks: after fewer the task is not ready; after \<open>n\<close> it is, unless it is suspended,
  and if it waited for an event it finds that the time has run out.
\<close>

theorem delays_are_exact:
  assumes "reached w" and "OSTickStepState (kern w) = 0" and t: "OSTCBPrioTbl (kern w) p = Some t" and "p \<noteq> 63"
    and n: "0 < n" "n = unat (OSTCBDly t)" and "k \<le> n"
  shows "\<exists>s' t'. run_ticks k (kern w) = Inr s' \<and> OSTCBPrioTbl s' p = Some t' \<and> unat (OSTCBDly t') = n - k \<and>
    (k < n \<longrightarrow> p \<notin> prios_of (rdy_list s')) \<and>
    (k = n \<longrightarrow> (p \<in> prios_of (rdy_list s') \<longleftrightarrow> OSTCBStat t AND OS_STAT_SUSPEND = 0) \<and>
       (OSTCBStat t AND OS_STAT_PEND_ANY \<noteq> 0 \<longrightarrow> OSTCBStatPend t' = OS_STAT_PEND_TO))"
proof -
  note o = world_okD(1) [OF reached_ok [OF assms(1)]]
  have b: "base_ok (kern w) (pc w)" using o by (simp add: os_ok_def)
  obtain s' t' where s': "run_ticks k (kern w) = Inr s'" "base_ok s' (pc w)" "OSTCBPrioTbl s' p = Some t'" "unat (OSTCBDly t') = n - k"
    "if 0 < k \<and> k = n
     then OSTCBStat t' = OSTCBStat t AND NOT OS_STAT_PEND_ANY \<and> OSTCBStatPend t' = (if OSTCBStat t AND OS_STAT_PEND_ANY = 0 then 0 else 1)
     else OSTCBStat t' = OSTCBStat t \<and> OSTCBStatPend t' = OSTCBStatPend t"
    using run_ticks_ok [OF b assms(2) t assms(4), of k] assms(7) n(2) by blast
  have rd: "p \<in> prios_of (rdy_list s') \<longleftrightarrow> OSTCBStat t' = 0 \<and> OSTCBDly t' = 0"
    using base_okD(3) [OF s'(2,3)] by (simp add: task_ok_def)
  have "OSTCBDly t' = 0 \<longleftrightarrow> k = n" using s'(4) assms(7) by (metis diff_is_0_eq le_antisym order_refl unat_eq_zero)
  moreover have "OSTCBStat t AND NOT OS_STAT_PEND_ANY = 0 \<longleftrightarrow> OSTCBStat t AND OS_STAT_SUSPEND = 0"
  proof -
    have "task_ok (kern w) (pc w p) p t" by (rule base_okD(3) [OF b t])
    then have "OSTCBStat t AND NOT OS_STAT_SUSPEND = 0 \<or> (\<exists>ty. OSTCBStat t AND NOT OS_STAT_SUSPEND = pend_bit ty)"
      by (auto simp: task_ok_def in_pend_def split: option.splits)
    then show ?thesis using pend_stat_cases by blast
  qed
  ultimately show ?thesis using s' rd n(1) by (intro exI [of _ s'] exI [of _ t']) (auto split: if_splits)
qed

lemma delays_are_exact_witness:
  "\<exists>s' t'. run_ticks 5 demo4 = Inr s' \<and> OSTCBPrioTbl s' 10 = Some t' \<and> 10 \<in> prios_of (rdy_list s') \<and> OSTCBStatPend t' = OS_STAT_PEND_TO"
proof -
  let ?w = "\<lparr>kern = demo4, pc = (\<lambda>_. None)(10 := Some 0), posted = [], taken = [], got = []\<rparr>"
  let ?t = "no_task\<lparr>OSTCBStat := 4, OSTCBDly := 5, OSTCBEventPtr := Some 0\<rparr>"
  have h: "OSTickStepState (kern ?w) = 0" "OSTCBPrioTbl (kern ?w) 10 = Some ?t" by (simp_all add: demo4_def demo_tables)
  have five: "(5 :: nat) = unat (OSTCBDly ?t)" by simp
  have st: "OSTCBStat ?t AND OS_STAT_SUSPEND = 0" "OSTCBStat ?t AND OS_STAT_PEND_ANY \<noteq> 0"
    by (simp_all add: OS_STAT_SUSPEND_def OS_STAT_PEND_ANY_def)
  have "(10 :: nat) \<noteq> 63" "(0 :: nat) < 5" by simp_all
  from delays_are_exact [OF demo_blocked h this five le_refl] obtain s' t' where
    "run_ticks 5 demo4 = Inr s'" "OSTCBPrioTbl s' 10 = Some t'" "10 \<in> prios_of (rdy_list s')" "OSTCBStatPend t' = OS_STAT_PEND_TO"
    using st unfolding world.simps by blast
  then show ?thesis by blast
qed

section \<open>Making all tasks ready\<close>

lemma EventTaskRdy_step:
  assumes e: "OSEventTbl s ev = Some e" and w: "tbl_ok (wait_list e)" and r: "tbl_ok (rdy_list s)" and ne: "prios_of (wait_list e) \<noteq> {}"
    and t: "\<forall>p \<in> prios_of (wait_list e). OSTCBPrioTbl s p \<noteq> None"
  defines "p \<equiv> highest (wait_list e)"
  shows "\<exists>t s'. OSTCBPrioTbl s p = Some t \<and> OS_EventTaskRdy ev m msk st s = Inr (p, s') \<and>
    OSEventTbl s' = (OSEventTbl s)(ev \<mapsto> e\<lparr>wait_list := unmark p (wait_list e)\<rparr>) \<and>
    OSTCBPrioTbl s' = (OSTCBPrioTbl s)(p \<mapsto> t\<lparr>OSTCBDly := 0, OSTCBMsg := m, OSTCBStat := OSTCBStat t AND NOT msk, OSTCBStatPend := st\<rparr>) \<and>
    tbl_ok (rdy_list s') \<and> prios_of (rdy_list s') = prios_of (rdy_list s) \<union> (if (OSTCBStat t AND NOT msk) AND OS_STAT_SUSPEND = 0 then {p} else {})"
proof -
  have p: "p \<in> prios_of (wait_list e)" unfolding p_def by (rule pl.top(1) [OF w ne])
  then have p64: "p < 64" by (rule pl.bound [OF w])
  obtain u where u: "OSTCBPrioTbl s p = Some u" using t p by blast
  then show ?thesis
    using e r pl.add [OF r p64]
    by (simp add: OS_EventTaskRdy_def OS_EventTaskRemove_def get_event_def get_tcb_def put_tcb_def put_event_def Let_def flip: p_def)
qed

text \<open>As many rounds as tasks wait; the tables hold at most 64.\<close>

lemma ready_all_ok:
  assumes "OSEventTbl s ev = Some e" and "tbl_ok (wait_list e)" and "tbl_ok (rdy_list s)"
    and "\<forall>p \<in> prios_of (wait_list e). OSTCBPrioTbl s p \<noteq> None" and "card (prios_of (wait_list e)) \<le> n"
  shows "\<exists>s'. ready_all n ev m msk st s = Inr (card (prios_of (wait_list e)), s') \<and> waiting ev s' = {} \<and> tbl_ok (rdy_list s') \<and>
    prios_of (rdy_list s) \<subseteq> prios_of (rdy_list s') \<and>
    (\<forall>p. if p \<in> prios_of (wait_list e)
         then \<exists>t t'. OSTCBPrioTbl s p = Some t \<and> OSTCBPrioTbl s' p = Some t' \<and> OSTCBMsg t' = m \<and> OSTCBDly t' = 0 \<and> OSTCBStatPend t' = st \<and>
           ((OSTCBStat t AND NOT msk) AND OS_STAT_SUSPEND = 0 \<longrightarrow> p \<in> prios_of (rdy_list s'))
         else OSTCBPrioTbl s' p = OSTCBPrioTbl s p)"
  using assms
proof (induction n arbitrary: s e)
  case 0
  then have "prios_of (wait_list e) = {}" using pl.finite_prios by auto
  then show ?case using 0 by (simp add: ready_all.simps [of 0] get_event_def pl.empty waiting_def)
next
  case (Suc n)
  show ?case
  proof (cases "prios_of (wait_list e) = {}")
    case True
    then show ?thesis using Suc.prems by (simp add: ready_all.simps [of "Suc n"] get_event_def pl.empty waiting_def)
  next
    case False
    let ?p = "highest (wait_list e)" and ?W = "prios_of (wait_list e)"
    obtain t s1 where s1: "OSTCBPrioTbl s ?p = Some t" "OS_EventTaskRdy ev m msk st s = Inr (?p, s1)"
      "OSEventTbl s1 = (OSEventTbl s)(ev \<mapsto> e\<lparr>wait_list := unmark ?p (wait_list e)\<rparr>)"
      "OSTCBPrioTbl s1 = (OSTCBPrioTbl s)(?p \<mapsto> t\<lparr>OSTCBDly := 0, OSTCBMsg := m, OSTCBStat := OSTCBStat t AND NOT msk, OSTCBStatPend := st\<rparr>)"
      "tbl_ok (rdy_list s1)" "prios_of (rdy_list s1) = prios_of (rdy_list s) \<union> (if (OSTCBStat t AND NOT msk) AND OS_STAT_SUSPEND = 0 then {?p} else {})"
      using EventTaskRdy_step [OF Suc.prems(1,2,3) False Suc.prems(4)] by blast
    have p: "?p \<in> ?W" by (rule pl.top(1) [OF Suc.prems(2) False])
    have p64: "?p < 64" by (rule pl.bound [OF Suc.prems(2) p])
    note w1 = pl.del [OF Suc.prems(2) p64]
    let ?e1 = "e\<lparr>wait_list := unmark ?p (wait_list e)\<rparr>"
    have c: "card ?W = Suc (card (?W - {?p}))" using p pl.finite_prios [OF Suc.prems(2)] by (rule card.remove [rotated])
    have "OSEventTbl s1 ev = Some ?e1" "tbl_ok (wait_list ?e1)" "card (prios_of (wait_list ?e1)) \<le> n"
      "\<forall>p \<in> prios_of (wait_list ?e1). OSTCBPrioTbl s1 p \<noteq> None"
      using s1(3,4) w1 c Suc.prems(4,5) by auto
    from Suc.IH [OF this(1,2) s1(5) this(4,3)] obtain s' where s': "ready_all n ev m msk st s1 = Inr (card (?W - {?p}), s')" "waiting ev s' = {}"
      "tbl_ok (rdy_list s')" "prios_of (rdy_list s1) \<subseteq> prios_of (rdy_list s')"
      "\<And>q. if q \<in> ?W - {?p}
         then \<exists>t t'. OSTCBPrioTbl s1 q = Some t \<and> OSTCBPrioTbl s' q = Some t' \<and> OSTCBMsg t' = m \<and> OSTCBDly t' = 0 \<and> OSTCBStatPend t' = st \<and>
           ((OSTCBStat t AND NOT msk) AND OS_STAT_SUSPEND = 0 \<longrightarrow> q \<in> prios_of (rdy_list s'))
         else OSTCBPrioTbl s' q = OSTCBPrioTbl s1 q" using w1(2) by auto
    have "Grp (wait_list e) \<noteq> 0" using False pl.empty [OF Suc.prems(2)] by simp
    then have "ready_all (Suc n) ev m msk st s = Inr (card ?W, s')"
      using Suc.prems(1) s1(2) s'(1) c by (simp add: ready_all.simps [of "Suc n"] get_event_def)
    moreover have "if q \<in> ?W
         then \<exists>t t'. OSTCBPrioTbl s q = Some t \<and> OSTCBPrioTbl s' q = Some t' \<and> OSTCBMsg t' = m \<and> OSTCBDly t' = 0 \<and> OSTCBStatPend t' = st \<and>
           ((OSTCBStat t AND NOT msk) AND OS_STAT_SUSPEND = 0 \<longrightarrow> q \<in> prios_of (rdy_list s'))
         else OSTCBPrioTbl s' q = OSTCBPrioTbl s q" for q
    proof (cases "q = ?p")
      case True
      then show ?thesis using p s'(4) s'(5) [of ?p] s1(1,4,6) by auto
    next
      case False
      then have "OSTCBPrioTbl s1 q = OSTCBPrioTbl s q" using s1(4) by simp
      then show ?thesis using s'(5) [of q] False by (cases "q \<in> ?W") auto
    qed
    moreover have "prios_of (rdy_list s) \<subseteq> prios_of (rdy_list s')" using s1(6) s'(4) by auto
    ultimately show ?thesis using s'(2,3) by blast
  qed
qed

text \<open>
  Aborting all waits for a queue ends: its loop runs once for every task that waits. Afterwards no task waits for the queue; each has no delay
  left, finds that its wait was aborted, and is ready unless it is suspended. The answer is the number of these tasks.
\<close>

theorem OSQPendAbort_all:
  assumes "reached w" and e: "OSEventTbl (kern w) ev = Some e" and ty: "OSEventType e = OS_EVENT_TYPE_Q" and ne: "waiting ev (kern w) \<noteq> {}"
  shows "\<exists>s'. OSQPendAbort ev 1 (kern w) = Inr (card (waiting ev (kern w)), OS_ERR_PEND_ABORT, s') \<and> waiting ev s' = {} \<and>
    (\<forall>p \<in> waiting ev (kern w). \<exists>t t'. OSTCBPrioTbl (kern w) p = Some t \<and> OSTCBPrioTbl s' p = Some t' \<and> OSTCBDly t' = 0 \<and>
       OSTCBStatPend t' = OS_STAT_PEND_ABORT \<and> (OSTCBStat t AND OS_STAT_SUSPEND = 0 \<longrightarrow> p \<in> prios_of (rdy_list s')))"
proof -
  note o = world_okD(1) [OF reached_ok [OF assms(1)]]
  have b: "base_ok (kern w) (pc w)" using o by (simp add: os_ok_def)
  note ef = event_facts [OF b e] and wi = waiting_in [OF e] and bk = base_okD [OF b]
  have wl: "tbl_ok (wait_list e)" using event_at [OF bk(2) e] by (simp add: event_ok_def)
  have t: "\<forall>p \<in> prios_of (wait_list e). OSTCBPrioTbl (kern w) p \<noteq> None" using bk(4) wi by fastforce
  have "prios_of (wait_list e) \<subseteq> {..<64}" using pl.bound [OF wl] by auto
  then have c: "card (prios_of (wait_list e)) \<le> 64" using card_mono [of "{..<64}" "prios_of (wait_list e)"] by simp
  have m: "(x AND NOT OS_STAT_Q) AND OS_STAT_SUSPEND = x AND OS_STAT_SUSPEND" for x
    by (simp add: and.assoc OS_STAT_Q_def OS_STAT_SUSPEND_def)
  obtain s' where s': "ready_all 64 ev 0 OS_STAT_Q OS_STAT_PEND_ABORT (kern w) = Inr (card (prios_of (wait_list e)), s')" "waiting ev s' = {}"
    "\<And>p. p \<in> prios_of (wait_list e) \<Longrightarrow> \<exists>t t'. OSTCBPrioTbl (kern w) p = Some t \<and> OSTCBPrioTbl s' p = Some t' \<and> OSTCBDly t' = 0 \<and>
       OSTCBStatPend t' = OS_STAT_PEND_ABORT \<and> (OSTCBStat t AND OS_STAT_SUSPEND = 0 \<longrightarrow> p \<in> prios_of (rdy_list s'))"
    using ready_all_ok [OF e wl bk(1) t c, of 0 OS_STAT_Q OS_STAT_PEND_ABORT] unfolding m by (elim exE conjE) (metis (no_types, lifting))
  have "OSQPendAbort ev 1 (kern w) = Inr (card (waiting ev (kern w)), OS_ERR_PEND_ABORT, OS_Sched s')"
    using ef(1,2) ty ne s'(1) wi by (simp add: OSQPendAbort_def pend_abort_def)
  then show ?thesis using s'(2,3) same_lists(1) [OF OS_Sched_fields(1)] wi by (intro exI [of _ "OS_Sched s'"]) (simp add: OS_Sched_fields)
qed

lemma OSQPendAbort_all_witness:
  "\<exists>s'. OSQPendAbort 0 1 demo4 = Inr (1, OS_ERR_PEND_ABORT, s') \<and> waiting 0 s' = {} \<and>
     (\<exists>t'. OSTCBPrioTbl s' 10 = Some t' \<and> OSTCBStatPend t' = OS_STAT_PEND_ABORT)"
proof -
  let ?w = "\<lparr>kern = demo4, pc = (\<lambda>_. None)(10 := Some 0), posted = [], taken = [], got = []\<rparr>"
  have w: "waiting 0 demo4 = {10}" by (simp add: waiting_def demo4_def pl.add pl.none)
  have e: "OSEventTbl (kern ?w) 0 = Some \<lparr>OSEventType = 2, OSEventCnt = 0, OSEventPtr = 0, wait_list = mark 10 no_prios\<rparr>"
    by (simp add: demo4_def)
  have ne: "waiting 0 (kern ?w) \<noteq> {}" using w by simp
  from OSQPendAbort_all [OF demo_blocked e _ ne] show ?thesis unfolding world.simps w by auto
qed

end
