(* ===== verification/Delay.thy ===== *)
theory Delay
  imports OsProps
begin

text \<open>
  Delays and the tick interrupt (SYSTEM/delay/delay.c): the counter SysTick counts down from \<open>LOAD\<close>; its interrupt is the tick of the
  kernel, and short delays watch its value. The values read are a list; its end means that the loop is still running.
\<close>

section \<open>The code\<close>

definition SysTick_Handler :: "os \<Rightarrow> fault + os" where
  "SysTick_Handler s = (if OSRunning s then ebind (OSTimeTick (OSIntEnter s)) (\<lambda>s1. Inr (OSIntExit s1)) else Inr s)"

text \<open>The factors \<open>fac_us\<close> and \<open>fac_ms\<close>, and \<open>LOAD\<close>.\<close>

definition delay_init :: "u32 \<Rightarrow> u8 \<times> u16 \<times> u32" where
  "delay_init SystemCoreClock =
     (let reload = SystemCoreClock div 8000000
      in (ucast (SystemCoreClock div 8000000), ucast (1000 div OS_TICKS_PER_SEC), reload * (1000000 div OS_TICKS_PER_SEC)))"

fun delay_loop :: "u32 \<Rightarrow> u32 \<Rightarrow> u32 \<Rightarrow> u32 \<Rightarrow> u32 list \<Rightarrow> fault + u32 list" where
  "delay_loop reload ticks told tcnt [] = Inl Still_Running"
| "delay_loop reload ticks told tcnt (tnow # vals) =
     (if tnow \<noteq> told then
        let tcnt' = tcnt + (if tnow < told then told - tnow else reload - tnow + told)
        in if ticks \<le> tcnt' then Inr vals else delay_loop reload ticks tnow tcnt' vals
      else delay_loop reload ticks told tcnt vals)"

definition delay_us :: "u32 \<Rightarrow> u8 \<Rightarrow> u32 \<Rightarrow> u32 list \<Rightarrow> os \<Rightarrow> fault + (u32 list \<times> os)" where
  "delay_us reload fac_us nus vals s =
     (let s1 = OSSchedLock s
      in case vals of
           [] \<Rightarrow> Inl Still_Running
         | told # vals' \<Rightarrow> ebind (delay_loop reload (nus * ucast fac_us) told 0 vals') (\<lambda>rest. Inr (rest, OSSchedUnlock s1)))"

text \<open>What \<open>delay_ms\<close> leaves to the kernel, and the microseconds that remain for \<open>delay_us\<close> when the task runs again.\<close>

definition delay_ms :: "u16 \<Rightarrow> u16 \<Rightarrow> os \<Rightarrow> fault + (u32 \<times> os)" where
  "delay_ms fac_ms nms s =
     (if OSRunning s \<and> OSIntNesting s = 0 then
        ebind (if fac_ms \<le> nms then OSTimeDly (ucast (nms div fac_ms)) s else Inr s) (\<lambda>s1.
        Inr (ucast (nms mod fac_ms) * 1000, s1))
      else Inr (ucast nms * 1000, s))"

section \<open>The tick interrupt\<close>

text \<open>One interrupt is three steps of the kernel, so it leads from one reached state to another.\<close>

lemma SysTick_Handler_reached:
  assumes r: "reached w" and st: "OSTickStepState (kern w) = 0" and n: "OSIntNesting (kern w) < 255"
  shows "\<exists>s'. SysTick_Handler (kern w) = Inr s' \<and> reached (w\<lparr>kern := s'\<rparr>) \<and> OSIntNesting s' = OSIntNesting (kern w)"
proof -
  let ?s1 = "OSIntEnter (kern w)"
  have o: "os_ok (kern w) (pc w)" by (rule world_okD(1) [OF reached_ok [OF r]])
  then have run: "OSRunning (kern w)" by (simp add: os_ok_def base_ok_def)
  have e: "?s1 = kern w\<lparr>OSIntNesting := OSIntNesting (kern w) + 1\<rparr>" using run n by (simp add: OSIntEnter_def)
  have r1: "reached (w\<lparr>kern := ?s1\<rparr>)" by (rule reached.step [OF r os_step.int_enter])
  have u: "unat (OSIntNesting (kern w) + 1) = Suc (unat (OSIntNesting (kern w)))" by (rule unat_Suc_less [OF n])
  then have p: "0 < OSIntNesting ?s1" by (simp add: e word_less_nat_alt)
  have b: "base_ok ?s1 (pc w)" using world_okD(1) [OF reached_ok [OF r1]] by (simp add: os_ok_def)
  have st1: "OSTickStepState ?s1 = 0" using st e by simp
  obtain s2 where s2: "OSTimeTick ?s1 = Inr s2" "OSIntNesting s2 = OSIntNesting ?s1" "base_ok s2 (pc w)"
    by (rule OSTimeTick_ok [OF b st1]) blast
  have r2: "reached (w\<lparr>kern := s2\<rparr>)"
    using reached.step [OF r1 os_step.tick [of _ s2]] p st1 s2(1) by simp
  have r3: "reached (w\<lparr>kern := OSIntExit s2\<rparr>)" using reached.step [OF r2 os_step.int_exit] by simp
  have "OSRunning s2" using s2(3) by (simp add: base_ok_def)
  then have "OSIntNesting (OSIntExit s2) = OSIntNesting (kern w)"
    using s2(2) p by (simp add: OSIntExit_def reschedule_def OS_SchedNew_def Let_def e)
  then show ?thesis using run s2(1) r3 by (simp add: SysTick_Handler_def)
qed

section \<open>Short delays\<close>

text \<open>The value of the counter at a time, counted in its clocks: it runs from \<open>LOAD\<close> down to 0 and starts again.\<close>

definition systick_at :: "nat \<Rightarrow> nat \<Rightarrow> u32" where
  "systick_at reload c = of_nat (reload - c mod (reload + 1))"

text \<open>Readings at times that follow each other within one period.\<close>

fun paced :: "nat \<Rightarrow> nat \<Rightarrow> nat list \<Rightarrow> bool" where
  "paced reload c [] = True"
| "paced reload c (c' # cs) = (c \<le> c' \<and> c' \<le> c + reload \<and> paced reload c' cs)"

text \<open>What one reading adds is never more than the time that has passed: a restart of the counter loses one clock.\<close>

lemma reading_adds:
  assumes "c \<le> c'" and "c' \<le> c + reload" and "reload < 2 ^ 24"
  defines "told \<equiv> systick_at reload c" and "tnow \<equiv> systick_at reload c'"
  shows "tnow \<noteq> told \<Longrightarrow> unat (if tnow < told then told - tnow else of_nat reload - tnow + told) \<le> c' - c"
    and "tnow = told \<Longrightarrow> c' = c"
proof -
  let ?p = "reload + 1"
  have u: "unat (systick_at reload x) = reload - x mod ?p" for x
    unfolding systick_at_def by (rule unat_of_nat_u32) (use assms(3) in simp)
  have m: "c mod ?p < ?p" "c' mod ?p < ?p" by simp_all
  have lap: "c' mod ?p = (if c mod ?p + (c' - c) < ?p then c mod ?p + (c' - c) else c mod ?p + (c' - c) - ?p)"
  proof -
    have "c' mod ?p = (c + (c' - c)) mod ?p" using assms(1) by simp
    also have "\<dots> = (c mod ?p + (c' - c)) mod ?p" by (rule mod_add_left_eq [symmetric])
    also have "\<dots> = (if c mod ?p + (c' - c) < ?p then c mod ?p + (c' - c) else c mod ?p + (c' - c) - ?p)"
    proof (cases "c mod ?p + (c' - c) < ?p")
      case False
      then have "(c mod ?p + (c' - c)) mod ?p = (c mod ?p + (c' - c) - ?p) mod ?p" by (simp add: le_mod_geq)
      moreover have "c mod ?p + (c' - c) - ?p < ?p" using m(1) assms(1,2) by linarith
      ultimately show ?thesis using False by simp
    qed simp
    finally show ?thesis .
  qed
  have le: "unat told \<le> reload" "unat tnow \<le> reload" by (simp_all add: told_def tnow_def u)
  show "unat (if tnow < told then told - tnow else of_nat reload - tnow + told) \<le> c' - c" if ne: "tnow \<noteq> told"
  proof (cases "tnow < told")
    case True
    then have lt: "unat tnow < unat told" by (simp add: word_less_nat_alt)
    then have "c mod ?p < c' mod ?p" unfolding told_def tnow_def u using m by linarith
    moreover have "unat (told - tnow) = unat told - unat tnow" using True by (simp add: unat_sub)
    then have "unat (told - tnow) = c' mod ?p - c mod ?p" using lt m unfolding told_def tnow_def u by linarith
    ultimately show ?thesis using lap True by (auto split: if_splits)
  next
    case False
    then have lt: "unat told < unat tnow" using ne by (simp add: word_less_nat_alt word_unat_eq_iff)
    then have "c' mod ?p < c mod ?p" unfolding told_def tnow_def u using m by linarith
    have r: "unat (of_nat reload :: u32) = reload" by (rule unat_of_nat_u32) (use assms(3) in simp)
    have "tnow \<le> of_nat reload" using le(2) r by (simp add: word_le_nat_alt)
    then have "unat (of_nat reload - tnow) = reload - unat tnow" using r by (simp add: unat_sub)
    moreover from this have "unat (of_nat reload - tnow + told) = reload - unat tnow + unat told"
      using le assms(3) iffD1 [OF unat_add_lem, of "of_nat reload - tnow" told] by simp
    ultimately have "unat (of_nat reload - tnow + told) = c' mod ?p + (reload - c mod ?p)" using m by (simp add: told_def tnow_def u)
    also have "\<dots> \<le> c' - c" using lap \<open>c' mod ?p < c mod ?p\<close> m assms(1,2) by (auto split: if_splits)
    finally show ?thesis using False by simp
  qed
  show "c' = c" if "tnow = told"
  proof -
    have "reload - c mod ?p = reload - c' mod ?p" using that u [of c] u [of c'] by (simp add: told_def tnow_def)
    then have "c mod ?p = c' mod ?p" using m by linarith
    then show ?thesis using lap m assms(1,2) by (auto split: if_splits)
  qed
qed

lemma delay_loop_elapsed:
  assumes "paced reload c ts" and "c0 \<le> c" and "unat tcnt \<le> c - c0" and "tcnt \<le> ticks" and "unat ticks + 2 ^ 24 \<le> 2 ^ 32" and rl: "reload < 2 ^ 24"
    and "delay_loop (of_nat reload) ticks (systick_at reload c) tcnt (map (systick_at reload) ts) = Inr rest"
  shows "\<exists>n < length ts. rest = map (systick_at reload) (drop (Suc n) ts) \<and> unat ticks \<le> ts ! n - c0"
  using assms(1-5,7)
proof (induction ts arbitrary: c tcnt)
  case Nil
  then show ?case by simp
next
  case (Cons c' ts)
  let ?told = "systick_at reload c" and ?tnow = "systick_at reload c'"
  have p: "c \<le> c'" "c' \<le> c + reload" "paced reload c' ts" using Cons.prems(1) by simp_all
  note ra = reading_adds [OF p(1,2) rl]
  show ?case
  proof (cases "?tnow = ?told")
    case True
    then have e: "c' = c" by (rule ra(2))
    then have "delay_loop (of_nat reload) ticks ?told tcnt (map (systick_at reload) ts) = Inr rest" "paced reload c ts"
      using Cons.prems(6) p(3) by simp_all
    from Cons.IH [OF this(2) Cons.prems(2,3,4,5) this(1)] obtain n where "n < length ts"
      "rest = map (systick_at reload) (drop (Suc n) ts)" "unat ticks \<le> ts ! n - c0" by blast
    then show ?thesis by (intro exI [of _ "Suc n"]) simp
  next
    case False
    define a where "a = (if ?tnow < ?told then ?told - ?tnow else of_nat reload - ?tnow + ?told)"
    have a: "unat a \<le> c' - c" unfolding a_def by (rule ra(1) [OF False])
    have "unat tcnt + unat a < 2 ^ 32" using Cons.prems(4,5) a p(2) rl by (simp add: word_le_nat_alt)
    then have s: "unat (tcnt + a) = unat tcnt + unat a" using iffD1 [OF unat_add_lem, of tcnt a] by simp
    then have le: "unat (tcnt + a) \<le> c' - c0" using a Cons.prems(2,3) p(1) by simp
    show ?thesis
    proof (cases "ticks \<le> tcnt + a")
      case True
      then have "rest = map (systick_at reload) ts" using Cons.prems(6) False by (simp add: Let_def flip: a_def)
      moreover have "unat ticks \<le> c' - c0" using True le by (simp add: word_le_nat_alt)
      ultimately show ?thesis by (intro exI [of _ 0]) simp
    next
      case F: False
      then have "delay_loop (of_nat reload) ticks ?tnow (tcnt + a) (map (systick_at reload) ts) = Inr rest"
        using Cons.prems(6) False by (simp add: Let_def flip: a_def)
      moreover have "tcnt + a \<le> ticks" "c0 \<le> c'" using F Cons.prems(2) p(1) by simp_all
      ultimately obtain n where "n < length ts" "rest = map (systick_at reload) (drop (Suc n) ts)" "unat ticks \<le> ts ! n - c0"
        using Cons.IH [OF p(3) _ le _ Cons.prems(5)] by blast
      then show ?thesis by (intro exI [of _ "Suc n"]) simp
    qed
  qed
qed

text \<open>
  C21. A short delay is never too short: if the counter is read at least once in each of its periods, then at the reading at which \<open>delay_us\<close>
  ends at least \<open>nus * fac_us\<close> of its clocks have passed, restarts of the counter included.
\<close>

theorem delay_us_not_early:
  assumes "reload < 2 ^ 24" and "paced reload c ts" and "unat nus * unat fac_us + 2 ^ 24 \<le> 2 ^ 32"
    and "delay_us (of_nat reload) fac_us nus (map (systick_at reload) (c # ts)) s = Inr (rest, s')"
  shows "\<exists>n < length ts. rest = map (systick_at reload) (drop (Suc n) ts) \<and> unat nus * unat fac_us \<le> ts ! n - c"
proof -
  have f: "unat (ucast fac_us :: u32) = unat fac_us"
  proof -
    have "unat fac_us < 2 ^ 32" by (rule less_trans [OF unat_u8_less]) simp
    then show ?thesis by (simp add: unsigned_ucast_eq take_bit_nat_eq_self)
  qed
  have "unat nus * unat (ucast fac_us :: u32) < 2 ^ LENGTH(32)" using assms(3) f by simp
  then have u: "unat (nus * ucast fac_us) = unat nus * unat fac_us" using iffD1 [OF unat_mult_lem, of nus "ucast fac_us"] f by simp
  have "delay_loop (of_nat reload) (nus * ucast fac_us) (systick_at reload c) 0 (map (systick_at reload) ts) = Inr rest"
    using assms(4) by (auto simp: delay_us_def ebind_eq_Inr_iff Let_def)
  from delay_loop_elapsed [OF assms(2) le_refl _ _ _ assms(1) this] show ?thesis using assms(3) u by simp
qed

lemma delay_us_not_early_witness:
  "delay_us (of_nat 99) 9 10 (map (systick_at 99) [30, 60, 110, 125, 140]) demo3 = Inr ([systick_at 99 140], OSSchedUnlock (OSSchedLock demo3)) \<and>
   (\<exists>n < length [60, 110, 125, 140 :: nat]. [systick_at 99 140] = map (systick_at 99) (drop (Suc n) [60, 110, 125, 140]) \<and>
      unat (10 :: u32) * unat (9 :: u8) \<le> [60, 110, 125, 140] ! n - 30)"
proof
  show d: "delay_us (of_nat 99) 9 10 (map (systick_at 99) [30, 60, 110, 125, 140]) demo3 = Inr ([systick_at 99 140], OSSchedUnlock (OSSchedLock demo3))"
    by (simp add: delay_us_def systick_at_def Let_def)
  show "\<exists>n < length [60, 110, 125, 140 :: nat]. [systick_at 99 140] = map (systick_at 99) (drop (Suc n) [60, 110, 125, 140]) \<and>
      unat (10 :: u32) * unat (9 :: u8) \<le> [60, 110, 125, 140] ! n - 30"
    by (rule delay_us_not_early [OF _ _ _ d]) simp_all
qed

end
