(* ===== verification/SysArch.thy ===== *)
theory SysArch
  imports Delay Malloc
begin

text \<open>
  The port of lwIP to the kernel (LWIP/arch/sys_arch.c): mailboxes on queues, semaphores, the TCP/IP task, milliseconds from ticks.
  A mailbox is a block of the heap with the queue it belongs to; the ring of the queue is part of that block.
  A call that may wait is two functions, like the kernel call it makes. Assertions only print and are left out, as are event names.
\<close>

section \<open>The code\<close>

record sys =
  heap :: mem_pool                      \<comment> \<open>\<open>SRAMIN\<close>\<close>
  mboxes :: "u32 \<Rightarrow> nat option"         \<comment> \<open>the member \<open>pQ\<close> of the \<open>TQ_DESCR\<close> at an address\<close>
  ucos :: os

abbreviation (input) "ERR_OK \<equiv> 0 :: int"
abbreviation (input) "ERR_MEM \<equiv> -1 :: int"
abbreviation (input) "SYS_ARCH_TIMEOUT \<equiv> 0xFFFFFFFF :: u32"
abbreviation (input) "MAX_QUEUE_ENTRIES \<equiv> 20 :: int"

text \<open>\<open>sizeof(TQ_DESCR)\<close>: a pointer and 20 entries.\<close>

definition sizeof_TQ_DESCR :: u32 where "sizeof_TQ_DESCR = 84"

text \<open>\<open>mymemset\<close> is called before the pointer is tested: without memory it writes at address 0.\<close>

definition sys_mbox_new :: "int \<Rightarrow> sys \<Rightarrow> fault + (int \<times> u32 \<times> sys)" where
  "sys_mbox_new entries s =
     ebind (mymalloc (heap s) sizeof_TQ_DESCR) (\<lambda>(mbox, h).
     if mbox = 0 then Inl Bad_Pointer
     else
       let n = (if MAX_QUEUE_ENTRIES < entries then MAX_QUEUE_ENTRIES else entries)
       in ebind (OSQCreate (replicate 20 0) (word_of_int n) (ucos s)) (\<lambda>(pQ, k).
          case pQ of
            Some ev \<Rightarrow> Inr (ERR_OK, mbox, s\<lparr>heap := h, ucos := k, mboxes := (mboxes s)(mbox \<mapsto> ev)\<rparr>)
          | None \<Rightarrow> ebind (myfree h mbox) (\<lambda>h1. Inr (ERR_MEM, mbox, s\<lparr>heap := h1, ucos := k\<rparr>))))"

definition sys_mbox_free :: "u32 \<Rightarrow> sys \<Rightarrow> fault + sys" where
  "sys_mbox_free mbox s =
     (case mboxes s mbox of
        None \<Rightarrow> Inl Bad_Pointer
      | Some ev \<Rightarrow> ebind (OSQDel ev 1 (ucos s)) (\<lambda>(_, _, k).
          ebind (myfree (heap s) mbox) (\<lambda>h. Inr (s\<lparr>heap := h, ucos := k, mboxes := (mboxes s)(mbox := None)\<rparr>))))"

text \<open>A null pointer cannot be posted; the address \<open>nul\<close> of \<open>pvNullPointer\<close> stands for it.\<close>

definition not_null :: "u32 \<Rightarrow> u32 \<Rightarrow> u32" where
  "not_null nul msg = (if msg = 0 then nul else msg)"

definition sys_mbox_trypost :: "u32 \<Rightarrow> u32 \<Rightarrow> u32 \<Rightarrow> sys \<Rightarrow> fault + (int \<times> sys)" where
  "sys_mbox_trypost nul mbox msg s =
     (case mboxes s mbox of
        None \<Rightarrow> Inl Bad_Pointer
      | Some ev \<Rightarrow> ebind (OSQPost ev (not_null nul msg) (ucos s)) (\<lambda>(err, k).
          Inr (if err \<noteq> OS_ERR_NONE then ERR_MEM else ERR_OK, s\<lparr>ucos := k\<rparr>)))"

text \<open>Trying again and again; \<open>others\<close> is what the rest of the system does between two attempts.\<close>

fun sys_mbox_post :: "nat \<Rightarrow> (sys \<Rightarrow> sys) \<Rightarrow> u32 \<Rightarrow> u32 \<Rightarrow> u32 \<Rightarrow> sys \<Rightarrow> fault + sys" where
  "sys_mbox_post 0 others nul mbox msg s = Inl Still_Running"
| "sys_mbox_post (Suc n) others nul mbox msg s =
     (case mboxes s mbox of
        None \<Rightarrow> Inl Bad_Pointer
      | Some ev \<Rightarrow> ebind (OSQPost ev (not_null nul msg) (ucos s)) (\<lambda>(err, k).
          if err \<noteq> OS_ERR_NONE then sys_mbox_post n others nul mbox msg (others (s\<lparr>ucos := k\<rparr>)) else Inr (s\<lparr>ucos := k\<rparr>)))"

text \<open>Milliseconds to ticks, of which the kernel call gets the low 16 bits, and ticks to milliseconds.\<close>

definition wait_ticks :: "u32 \<Rightarrow> u32" where
  "wait_ticks timeout =
     (if timeout \<noteq> 0 then
        let ucos_timeout = timeout * OS_TICKS_PER_SEC div 1000
        in ucast (ucast (if ucos_timeout < 1 then 1 else ucos_timeout) :: u16)
      else 0)"

definition ticks_to_ms :: "u32 \<Rightarrow> u32" where
  "ticks_to_ms ticks = ticks * 1000 div OS_TICKS_PER_SEC + 1"

text \<open>The answers of the two calls that wait: the mailbox compares with \<open>>\<close>, the semaphore with \<open>>=\<close>.\<close>

definition mbox_waited :: "u8 \<Rightarrow> u32 \<Rightarrow> u32 \<Rightarrow> u32" where
  "mbox_waited ucErr timeout timeout_new =
     (if ucErr = OS_ERR_TIMEOUT then SYS_ARCH_TIMEOUT
      else ticks_to_ms (if timeout < timeout_new then timeout_new - timeout else 0xFFFFFFFF - timeout + timeout_new))"

definition sem_waited :: "u8 \<Rightarrow> u32 \<Rightarrow> u32 \<Rightarrow> u32" where
  "sem_waited ucErr timeout timeout_new =
     (if ucErr = OS_ERR_TIMEOUT then SYS_ARCH_TIMEOUT
      else ticks_to_ms (if timeout \<le> timeout_new then timeout_new - timeout else 0xFFFFFFFF - timeout + timeout_new))"

definition fetched :: "u32 \<Rightarrow> u32 \<Rightarrow> u32" where
  "fetched nul temp = (if temp = nul then 0 else temp)"

text \<open>The answer is the time waited, with the message; or the task waits, and the time at which it began is kept.\<close>

datatype 'a waited = Waited u32 'a | Waiting u32

definition sys_arch_mbox_fetch :: "u32 \<Rightarrow> u32 \<Rightarrow> u32 \<Rightarrow> sys \<Rightarrow> fault + (u32 waited \<times> sys)" where
  "sys_arch_mbox_fetch nul mbox timeout s =
     (case mboxes s mbox of
        None \<Rightarrow> Inl Bad_Pointer
      | Some ev \<Rightarrow>
          let t = OSTimeGet (ucos s)
          in ebind (OSQPend ev (wait_ticks timeout) (ucos s)) (\<lambda>(r, k).
             case r of
               Done temp ucErr \<Rightarrow> Inr (Waited (mbox_waited ucErr t (OSTimeGet k)) (fetched nul temp), s\<lparr>ucos := k\<rparr>)
             | Blocked \<Rightarrow> Inr (Waiting t, s\<lparr>ucos := k\<rparr>)))"

definition sys_arch_mbox_fetch_resume :: "u32 \<Rightarrow> nat \<Rightarrow> u32 \<Rightarrow> sys \<Rightarrow> fault + (u32 waited \<times> sys)" where
  "sys_arch_mbox_fetch_resume nul ev t s =
     ebind (OSQPend_resume ev (ucos s)) (\<lambda>(temp, ucErr, k).
     Inr (Waited (mbox_waited ucErr t (OSTimeGet k)) (fetched nul temp), s\<lparr>ucos := k\<rparr>))"

definition sys_arch_mbox_tryfetch :: "u32 \<Rightarrow> u32 \<Rightarrow> sys \<Rightarrow> fault + (u32 waited \<times> sys)" where
  "sys_arch_mbox_tryfetch nul mbox s = sys_arch_mbox_fetch nul mbox 1 s"

definition sys_mbox_valid :: "u32 \<Rightarrow> sys \<Rightarrow> fault + nat" where
  "sys_mbox_valid mbox s =
     (case mboxes s mbox of
        None \<Rightarrow> Inl Bad_Pointer
      | Some ev \<Rightarrow> ebind (OSQQuery ev (ucos s)) (\<lambda>(ucErr, q_data).
          let (msgs, sz) = (case q_data of None \<Rightarrow> (0, 0) | Some (_, n, k, _) \<Rightarrow> (n, k))
          in Inr (if ucErr < 2 \<and> msgs < sz then 1 else 0)))"

text \<open>Semaphores: a pointer to the event, or a null pointer.\<close>

definition sys_sem_new :: "u8 \<Rightarrow> sys \<Rightarrow> fault + (int \<times> nat option \<times> sys)" where
  "sys_sem_new count s =
     ebind (OSSemCreate (ucast count) (ucos s)) (\<lambda>(sem, k).
     Inr (if sem = None then ERR_MEM else ERR_OK, sem, s\<lparr>ucos := k\<rparr>))"

definition sys_arch_sem_wait :: "nat \<Rightarrow> u32 \<Rightarrow> sys \<Rightarrow> fault + (unit waited \<times> sys)" where
  "sys_arch_sem_wait sem timeout s =
     (let t = OSTimeGet (ucos s)
      in ebind (OSSemPend sem (wait_ticks timeout) (ucos s)) (\<lambda>(r, k).
         case r of
           Done _ ucErr \<Rightarrow> Inr (Waited (sem_waited ucErr t (OSTimeGet k)) (), s\<lparr>ucos := k\<rparr>)
         | Blocked \<Rightarrow> Inr (Waiting t, s\<lparr>ucos := k\<rparr>)))"

definition sys_arch_sem_wait_resume :: "nat \<Rightarrow> u32 \<Rightarrow> sys \<Rightarrow> fault + (unit waited \<times> sys)" where
  "sys_arch_sem_wait_resume sem t s =
     ebind (OSSemPend_resume sem (ucos s)) (\<lambda>(ucErr, k). Inr (Waited (sem_waited ucErr t (OSTimeGet k)) (), s\<lparr>ucos := k\<rparr>))"

definition sys_sem_signal :: "nat \<Rightarrow> sys \<Rightarrow> fault + sys" where
  "sys_sem_signal sem s = ebind (OSSemPost sem (ucos s)) (\<lambda>(_, k). Inr (s\<lparr>ucos := k\<rparr>))"

definition sys_sem_free :: "nat \<Rightarrow> sys \<Rightarrow> fault + (nat option \<times> sys)" where
  "sys_sem_free sem s = ebind (OSSemDel sem 1 (ucos s)) (\<lambda>(_, _, k). Inr (None, s\<lparr>ucos := k\<rparr>))"

definition sys_sem_valid :: "nat \<Rightarrow> sys \<Rightarrow> fault + nat" where
  "sys_sem_valid sem s = ebind (OSSemQuery sem (ucos s)) (\<lambda>(err, _). Inr (if err = OS_ERR_NONE then 1 else 0))"

text \<open>Only the task of the TCP/IP core is created.\<close>

definition sys_thread_new :: "string \<Rightarrow> nat \<Rightarrow> sys \<Rightarrow> fault + sys" where
  "sys_thread_new name prio s =
     (if name = ''tcpip_thread'' then ebind (OSTaskCreate prio (ucos s)) (\<lambda>(_, k). Inr (s\<lparr>ucos := k\<rparr>)) else Inr s)"

text \<open>The milliseconds are a 32-bit number here and a 16-bit one in \<open>delay_ms\<close>.\<close>

definition sys_msleep :: "u16 \<Rightarrow> u32 \<Rightarrow> sys \<Rightarrow> fault + (u32 \<times> sys)" where
  "sys_msleep fac_ms ms s = ebind (delay_ms fac_ms (ucast ms) (ucos s)) (\<lambda>(us, k). Inr (us, s\<lparr>ucos := k\<rparr>))"

definition sys_now :: "sys \<Rightarrow> u32" where
  "sys_now s = ticks_to_ms (OSTimeGet (ucos s))"

section \<open>Milliseconds and ticks\<close>


lemma ticks_to_ms_exact:
  assumes "unat d < 4294967"
  shows "unat (ticks_to_ms d) = 5 * unat d + 1"
proof -
  have m: "unat (d * 1000) = unat d * 1000" using assms iffD1 [OF unat_mult_lem, of d 1000] by simp
  have q: "unat (d * 1000 div 200) = 5 * unat d" by (simp add: unat_div m)
  have "unat (d * 1000 div 200 + 1) = unat (d * 1000 div 200) + unat (1 :: u32)"
    using q assms iffD1 [OF unat_add_lem, of "d * 1000 div 200" 1] by simp
  then show ?thesis using q by (simp add: ticks_to_ms_def)
qed

text \<open>
  A time limit of up to 327679 ms becomes the whole ticks of 5 ms in it, at least one, and 0 stands for no limit. A limit of 327680 ms
  becomes 0 ticks as well: the low 16 bits of 65536 are all that the kernel is given, and the wait never ends.
\<close>

theorem wait_ticks_range:
  "(unat ms \<le> 327679 \<longrightarrow> unat (wait_ticks ms) = (if ms = 0 then 0 else max 1 (unat ms div 5))) \<and> wait_ticks 327680 = 0"
proof
  show "wait_ticks 327680 = 0" by (simp add: wait_ticks_def)
  show "unat ms \<le> 327679 \<longrightarrow> unat (wait_ticks ms) = (if ms = 0 then 0 else max 1 (unat ms div 5))"
  proof
    assume a: "unat ms \<le> 327679"
    have m: "unat (ms * 200) = unat ms * 200" using a iffD1 [OF unat_mult_lem, of ms 200] by simp
    have q: "unat (ms * 200 div 1000) = unat ms div 5" by (simp add: unat_div m)
    define x where "x = (if ms * 200 div 1000 < 1 then 1 else ms * 200 div 1000)"
    have x: "unat x = max 1 (unat ms div 5)" by (simp add: x_def word_less_nat_alt q max_def)
    then have "unat x < 2 ^ 16" using a by simp
    then have "unat (ucast (ucast x :: u16) :: u32) = unat x" by (simp add: unsigned_ucast_eq unsigned_take_bit_eq take_bit_nat_eq_self)
    then show "unat (wait_ticks ms) = (if ms = 0 then 0 else max 1 (unat ms div 5))"
      using x unfolding wait_ticks_def Let_def x_def [symmetric] by simp
  qed
qed

lemma wait_ticks_range_witness: "unat (wait_ticks 1000) = 200 \<and> unat (wait_ticks 3) = 1 \<and> wait_ticks 327680 = 0"
  using wait_ticks_range [of 1000] wait_ticks_range [of 3] by simp

text \<open>
  A wait for a semaphore that began \<open>d\<close> ticks ago (fewer than 4294967) is reported as \<open>5 d + 1\<close> ms, as long as the tick count has not wrapped.
  A wait for a mailbox is reported in the same way only if a tick has passed: a message that comes within the tick in which the wait began is
  reported as 21474832 ms, almost six hours.
\<close>

theorem waited_time:
  assumes "t \<le> t'" and "unat t' - unat t < 4294967"
  shows "unat (sem_waited OS_ERR_NONE t t') = 5 * (unat t' - unat t) + 1 \<and>
    unat (mbox_waited OS_ERR_NONE t t') = (if t = t' then 21474832 else 5 * (unat t' - unat t) + 1)"
proof -
  have d: "unat (t' - t) = unat t' - unat t" using assms(1) by (simp add: unat_sub)
  have e: "unat (ticks_to_ms (t' - t)) = 5 * (unat t' - unat t) + 1" using ticks_to_ms_exact [of "t' - t"] assms(2) d by simp
  have "ticks_to_ms 0xFFFFFFFF = 21474832" by (simp add: ticks_to_ms_def)
  then have "unat (ticks_to_ms (0xFFFFFFFF - t + t)) = 21474832" by simp
  moreover have "t < t'" if "t \<noteq> t'" using assms(1) that by simp
  ultimately show ?thesis using assms(1) e by (auto simp: sem_waited_def mbox_waited_def)
qed

lemma waited_time_witness: "unat (sem_waited 0 100 110) = 51 \<and> unat (mbox_waited 0 100 110) = 51"
  using waited_time [of 100 110] by simp

section \<open>Mailboxes\<close>

text \<open>
  C20. What is sent to an empty mailbox for which no task waits is fetched back as it was sent, null pointers included, without waiting; only the pointer that
  stands for null comes back as null. But the time reported is 21474832 ms, so that lwIP takes all its timers for expired.
\<close>

theorem mbox_post_then_fetch:
  assumes r: "reached w" "ucos s = kern w" and mb: "mboxes s mbox = Some ev" and e: "OSEventTbl (kern w) ev = Some e" "OSEventType e = OS_EVENT_TYPE_Q"
    and q: "OSQTbl (kern w) (OSEventPtr e) = Some q" and em: "waiting ev (kern w) = {}" "holds ev (kern w) = []"
    and t: "OSIntNesting (kern w) = 0" "OSLockNesting (kern w) = 0"
  shows "\<exists>s1 s2. sys_mbox_trypost nul mbox msg s = Inr (ERR_OK, s1) \<and>
    sys_arch_mbox_fetch nul mbox timeout s1 = Inr (Waited 21474832 (if msg = nul then 0 else msg), s2) \<and> (\<forall>ev'. holds ev' (ucos s2) = holds ev' (kern w))"
proof -
  note o = world_okD(1) [OF reached_ok [OF r(1)]]
  have b: "base_ok (kern w) (pc w)" using o by (simp add: os_ok_def)
  note ef = event_facts [OF b e(1)]
  have g: "get_q (OSEventPtr e) (kern w) = Inr q" using q by (simp add: get_q_def)
  then have h: "q_ok q" "q_msgs q = []" using ef(3) [OF e(2)] em(2) by auto
  then have sz: "0 < unat (OSQSize q)" "OSQEntries q < OSQSize q" using q_msgs_empty [of q] by (auto simp: q_ok_def word_less_nat_alt)
  obtain q1 where q1: "q_put (not_null nul msg) q = Inr q1" "q_ok q1" "q_msgs q1 = [not_null nul msg]"
    using q_put_ok [OF h(1), of "not_null nul msg"] h(2) sz by auto
  obtain q2 where q2: "q_take q1 = Inr (not_null nul msg, q2)" "q_msgs q2 = []" using q_take_ok [OF q1(2,3)] by blast
  have n1: "0 < OSQEntries q1" using q_msgs_empty [of q1] q1(3) by (simp add: word_gt_0)
  let ?k1 = "put_q (OSEventPtr e) q1 (kern w)"
  let ?k2 = "put_q (OSEventPtr e) q2 ?k1"
  have "OSQPost ev (not_null nul msg) (kern w) = Inr (0, ?k1)"
    using ef(1,2) e(2) em g q1(1) sz by (simp add: OSQPost_def q_store_def word_le_nat_alt word_less_nat_alt)
  then have p: "sys_mbox_trypost nul mbox msg s = Inr (0, s\<lparr>ucos := ?k1\<rparr>)" using mb r(2) by (simp add: sys_mbox_trypost_def)
  have "get_event ev ?k1 = Inr e" "get_q (OSEventPtr e) ?k1 = Inr q1" "OSIntNesting ?k1 = 0" "OSLockNesting ?k1 = 0" "OSTime ?k1 = OSTime (kern w)"
    using e(1) t by (simp_all add: put_q_def get_event_def get_q_def)
  then have "OSQPend ev (wait_ticks timeout) ?k1 = Inr (Done (not_null nul msg) 0, ?k2)"
    using e(2) n1 q2(1) by (simp add: OSQPend_def)
  moreover have "OSTime ?k2 = OSTime ?k1" by (simp add: put_q_def)
  moreover have "mbox_waited 0 x x = 21474832" for x by (simp add: mbox_waited_def ticks_to_ms_def)
  moreover have "fetched nul (not_null nul msg) = (if msg = nul then 0 else msg)" by (simp add: fetched_def not_null_def)
  ultimately have f: "sys_arch_mbox_fetch nul mbox timeout (s\<lparr>ucos := ?k1\<rparr>) = Inr (Waited 21474832 (if msg = nul then 0 else msg), s\<lparr>ucos := ?k2\<rparr>)"
    using mb by (simp add: sys_arch_mbox_fetch_def OSTimeGet_def Let_def)
  have "waiting ev ?k1 \<noteq> {} \<Longrightarrow> q_msgs q2 = []" using q2(2) by simp
  have w0: "waiting ev (kern w) \<noteq> {} \<Longrightarrow> x = []" for x :: "u32 list" using em(1) by simp
  have "holds ev' ?k2 = holds ev' (kern w)" for ev'
  proof -
    have k: "?k2 = put_q (OSEventPtr e) q2 (kern w)" by (simp add: put_q_def)
    have "q_ok q2" using q_take_ok [OF q1(2,3)] q2(1) by auto
    then show ?thesis unfolding k using store_ok(3) [OF b e, of q2 ev'] w0 q2(2) em(2) by simp
  qed
  then show ?thesis using p f by (intro exI [of _ "s\<lparr>ucos := ?k1\<rparr>"] exI [of _ "s\<lparr>ucos := ?k2\<rparr>"]) simp
qed

definition demo_sys :: sys where
  "demo_sys = \<lparr>heap = small_pool, mboxes = [0x20001000 \<mapsto> 0], ucos = demo3\<rparr>"

lemma mbox_post_then_fetch_witness:
  "\<exists>s1 s2. sys_mbox_trypost 0x8001000 0x20001000 0 demo_sys = Inr (ERR_OK, s1) \<and>
    sys_arch_mbox_fetch 0x8001000 0x20001000 0 s1 = Inr (Waited 21474832 0, s2) \<and> (\<forall>ev'. holds ev' (ucos s2) = holds ev' demo3)"
proof -
  have "waiting 0 demo3 = {}" "holds 0 demo3 = []" by (simp_all add: waiting_def holds_def event_msgs_def q_msgs_def ring_list_def demo_tables pl.none)
  then show ?thesis using mbox_post_then_fetch [OF demo_start, of demo_sys "0x20001000" 0 _ _ "0x8001000" 0 0] demo_tables(2,3,4,5)
    by (simp add: demo_sys_def)
qed

text \<open>
  A mailbox for which the kernel has no event or no queue left is refused and its memory given back: the system is as before.
\<close>

theorem sys_mbox_new_refused:
  assumes "pool_ok (heap s)" and "memrdy (heap s) \<noteq> 0" and m: "mymalloc (heap s) sizeof_TQ_DESCR = Inr (ptr, h)" "ptr \<noteq> 0"
    and "OSEventFreeList (ucos s) = [] \<or> OSQFreeList (ucos s) = []"
  shows "sys_mbox_new n s = Inr (ERR_MEM, ptr, s)"
proof -
  have "1 \<le> memblksize (heap s)" using assms(1) by (simp add: pool_ok_def)
  then have "unat sizeof_TQ_DESCR \<le> 65535 * memblksize (heap s)" by (simp add: sizeof_TQ_DESCR_def)
  then have f: "myfree h ptr = Inr (heap s)" using myfree_mymalloc [OF assms(1,2) _ m] by blast
  have "OSQCreate st sz (ucos s) = Inr (None, ucos s)" for st sz
    using assms(5) by (auto simp: OSQCreate_def split: list.splits)
  then show ?thesis using m f by (simp add: sys_mbox_new_def Let_def)
qed


lemma sys_mbox_new_refused_witness:
  "sys_mbox_new 5 (demo_sys\<lparr>ucos := demo3\<lparr>OSEventFreeList := []\<rparr>\<rparr>) = Inr (ERR_MEM, 0x20001000, demo_sys\<lparr>ucos := demo3\<lparr>OSEventFreeList := []\<rparr>\<rparr>)"
proof -
  have "(4 :: nat) = Suc (Suc (Suc (Suc 0)))" by simp
  then have "malloc_search [0, 0, 0, 1] 4 0 3 = Some 0" by (simp only: malloc_search.simps) simp
  moreover have "blocks_needed small_pool sizeof_TQ_DESCR = 3" by (simp add: blocks_needed_def sizeof_TQ_DESCR_def)
  moreover have "mark_blocks [0, 0, 0, 1] 0 3 3 = Inr [3, 3, 3, 1]"
  proof -
    have "unat (3 :: u16) = Suc (Suc (Suc 0))" by simp
    then show ?thesis by (simp only: mark_blocks_def) simp
  qed
  moreover have "sizeof_TQ_DESCR \<noteq> 0" by (simp add: sizeof_TQ_DESCR_def)
  ultimately have "mymalloc small_pool sizeof_TQ_DESCR = Inr (0x20001000, small_pool\<lparr>memmap := [3, 3, 3, 1]\<rparr>)"
    by (simp add: mymalloc_def my_mem_malloc_def)
  then show ?thesis by (intro sys_mbox_new_refused) (simp_all add: demo_sys_def small_pool_ok)
qed

end
