(* ===== verification/HeapUse.thy ===== *)
theory HeapUse
  imports Malloc
begin

text \<open>
  Several blocks of the heap at a time, as the start-up code takes and returns them: a list of requests,
  the pointers it is answered with, and the table of the allocator before and after.
\<close>

section \<open>A table is determined by its allocations\<close>

lemma wf_map_cases:
  assumes "wf_map m"
  obtains (nil) "m = []" | (free) xs where "m = 0 # xs" "wf_map xs"
  | (used) n xs where "m = replicate (unat n) n @ xs" "n \<noteq> 0" "wf_map xs"
  using assms by (cases rule: wf_map.cases) auto

lemma blocks_determine:
  "wf_map m \<Longrightarrow> wf_map m' \<Longrightarrow> length m = length m' \<Longrightarrow> set (blocks k m) = set (blocks k m') \<Longrightarrow> m = m'"
proof (induction arbitrary: k m' rule: wf_map.induct)
  case (wf_free xs)
  show ?case using wf_free.prems(1)
  proof (cases rule: wf_map_cases)
    case (free ys)
    then show ?thesis using wf_free.IH [OF free(2), of "Suc k"] wf_free.prems(2,3) by simp
  next
    case (used n ys)
    then have "(k, unat n) \<in> set (blocks (Suc k) xs)" using wf_free.prems(3) by (simp add: blocks_used)
    then show ?thesis using blocks_bounds [OF wf_free.hyps] by fastforce
  qed (use wf_free.prems(2) in simp)
next
  case (wf_used n xs)
  have b: "set (blocks k m') = insert (k, unat n) (set (blocks (k + unat n) xs))"
    using wf_used.prems(3) by (simp add: blocks_used [OF wf_used.hyps(1)])
  have n: "0 < unat n" using wf_used.hyps(1) by (simp add: unat_pos_iff)
  show ?case using wf_used.prems(1)
  proof (cases rule: wf_map_cases)
    case nil
    then show ?thesis using wf_used.prems(2) n by simp
  next
    case (free ys)
    then have "(k, unat n) \<in> set (blocks (Suc k) ys)" using b by simp
    then show ?thesis using blocks_bounds [OF free(2)] by fastforce
  next
    case (used n' ys)
    have low: "(k, l) \<notin> set (blocks (k + unat i) zs)" if "wf_map zs" "i \<noteq> 0" for i :: u16 and l zs
      using blocks_bounds [OF that(1), of k l "k + unat i"] that(2) by (auto simp: unat_eq_0)
    have b': "insert (k, unat n') (set (blocks (k + unat n') ys)) = insert (k, unat n) (set (blocks (k + unat n) xs))"
      using b used by (simp add: blocks_used)
    then have "(k, unat n) \<in> insert (k, unat n') (set (blocks (k + unat n') ys))" by simp
    then have e: "n' = n" using low [OF used(3,2)] by (auto simp: word_unat_eq_iff)
    then have "set (blocks (k + unat n) ys) = set (blocks (k + unat n) xs)"
      using b' low [OF used(3,2)] low [OF wf_used.hyps(2,1)] by (metis insert_ident)
    then show ?thesis using wf_used.IH [OF used(3), of "k + unat n"] used(1) e wf_used.prems(2) by simp
  qed
qed simp

lemma distinct_blocks: "wf_map m \<Longrightarrow> distinct (blocks k m)"
proof (induction arbitrary: k rule: wf_map.induct)
  case (wf_used n xs)
  have "0 < unat n" using wf_used.hyps(1) by (simp add: unat_pos_iff)
  then have "(k, unat n) \<notin> set (blocks (k + unat n) xs)" using blocks_bounds [OF wf_used.hyps(2), of k "unat n" "k + unat n"] by auto
  then show ?case using wf_used by (simp add: blocks_used)
qed simp_all

text \<open>Blocks in use cannot be more than there are.\<close>

lemma allocations_fit:
  assumes "pool_ok p" and "distinct bs" and "set bs \<subseteq> set (allocations p)"
  shows "sum_list (map snd bs) \<le> memtblsize p"
proof -
  have w: "wf_map (memmap p)" "length (memmap p) = memtblsize p" using assms(1) by (simp_all add: pool_ok_def)
  have "sum_list (map snd bs) = sum snd (set bs)" using assms(2) by (simp add: sum_list_distinct_conv_sum_set)
  also have "\<dots> \<le> sum snd (set (allocations p))" by (rule sum_mono2) (use assms(3) in auto)
  also have "\<dots> = sum_list (map snd (allocations p))"
    using distinct_blocks [OF w(1), of 0] by (simp add: allocations_def sum_list_distinct_conv_sum_set)
  also have "\<dots> = length (filter (\<lambda>c. c \<noteq> 0) (memmap p))" using filter_used_blocks [OF w(1), of 0] by (simp add: allocations_def)
  also have "\<dots> \<le> memtblsize p" using length_filter_le [of "\<lambda>c. c \<noteq> 0" "memmap p"] w(2) by simp
  finally show ?thesis .
qed

section \<open>One block\<close>

text \<open>The pool lies in the address space, not at 0; the pointer to a block.\<close>

definition placed :: "mem_pool \<Rightarrow> bool" where
  "placed p \<longleftrightarrow> memaddr p \<noteq> 0 \<and> unat (memaddr p) + memsize p \<le> 2 ^ 32"

definition block_ptr :: "mem_pool \<Rightarrow> nat \<Rightarrow> u32" where
  "block_ptr p s = memaddr p + of_nat (s * memblksize p)"

lemma placed_map [simp]: "placed (p\<lparr>memmap := m\<rparr>) = placed p" "block_ptr (p\<lparr>memmap := m\<rparr>) = block_ptr p"
  by (simp_all add: placed_def block_ptr_def fun_eq_iff)

lemma ceil_blocks_map [simp]: "ceil_blocks (p\<lparr>memmap := m\<rparr>) = ceil_blocks p"
  by (simp add: ceil_blocks_def fun_eq_iff)

lemma ready_poolD: "ready_pool p \<Longrightarrow> pool_ok p" "ready_pool p \<Longrightarrow> memrdy p \<noteq> 0" "ready_pool p \<Longrightarrow> memblksize p = 32"
  by (simp_all add: ready_pool_def)

lemma block_ptr_nonzero:
  assumes "pool_ok p" and "placed p" and "s + n \<le> memtblsize p" and "0 < n"
  shows "block_ptr p s \<noteq> 0" and "block_ptr p s - memaddr p = of_nat (s * memblksize p)"
proof -
  note off = offset_not_error [OF assms(1,3,4)]
  have "unat (memaddr p) + unat (of_nat (s * memblksize p) :: u32) < 2 ^ LENGTH(32)" using off(1,3) assms(2) by (simp add: placed_def)
  then have "unat (block_ptr p s) = unat (memaddr p) + s * memblksize p"
    unfolding block_ptr_def using iffD1 [OF unat_add_lem, of "memaddr p" "of_nat (s * memblksize p)"] off(1) by simp
  moreover have "unat (memaddr p) \<noteq> 0" using assms(2) by (simp add: placed_def unat_eq_0)
  ultimately have "unat (block_ptr p s) \<noteq> 0" by simp
  then show "block_ptr p s \<noteq> 0" by (auto simp: unat_eq_0)
  show "block_ptr p s - memaddr p = of_nat (s * memblksize p)" by (simp add: block_ptr_def)
qed

lemma mymalloc_block:
  assumes p: "ready_pool p" "placed p" and sz: "sz \<noteq> 0" "unat sz \<le> 2097120"
  obtains (none) "mymalloc p sz = Inr (0, p)" "\<And>s. \<not> free_run (memmap p) s (ceil_blocks p sz)"
  | (block) s m where "mymalloc p sz = Inr (block_ptr p s, p\<lparr>memmap := m\<rparr>)" "block_ptr p s \<noteq> 0" "ready_pool (p\<lparr>memmap := m\<rparr>)"
      "set (allocations (p\<lparr>memmap := m\<rparr>)) = insert (s, ceil_blocks p sz) (set (allocations p))" "(s, ceil_blocks p sz) \<notin> set (allocations p)"
proof -
  note r = ready_poolD [OF p(1)]
  let ?n = "ceil_blocks p sz"
  have n: "0 < ?n" by (rule ceil_blocks_pos [OF sz(1)])
  have "unat sz \<le> 65535 * memblksize p" using sz(2) r(3) by simp
  from my_mem_malloc_ready [OF r(1,2) sz(1) this] show thesis
  proof
    assume "my_mem_malloc p sz = Inr (0xFFFFFFFF, p) \<and> (\<forall>s. \<not> free_run (memmap p) s ?n)"
    then show thesis using none by (simp add: mymalloc_def)
  next
    assume "\<exists>s p'. my_mem_malloc p sz = Inr (of_nat (s * memblksize p), p') \<and> s + ?n \<le> memtblsize p \<and> pool_ok p' \<and>
      memrdy p' = memrdy p \<and> p' = p\<lparr>memmap := memmap p'\<rparr> \<and> mark_blocks (memmap p') s (memmap p' ! s) 0 = Inr (memmap p) \<and>
      set (allocations p') = insert (s, ?n) (set (allocations p)) \<and> (\<forall>(t, l) \<in> set (allocations p). t + l \<le> s \<or> s + ?n \<le> t)"
    then obtain s p' where s: "my_mem_malloc p sz = Inr (of_nat (s * memblksize p), p')" "s + ?n \<le> memtblsize p" "pool_ok p'"
      "p' = p\<lparr>memmap := memmap p'\<rparr>" "set (allocations p') = insert (s, ?n) (set (allocations p))"
      "\<forall>(t, l) \<in> set (allocations p). t + l \<le> s \<or> s + ?n \<le> t" by blast
    define m where "m = memmap p'"
    have p': "p' = p\<lparr>memmap := m\<rparr>" using s(4) by (simp add: m_def)
    have "mymalloc p sz = Inr (block_ptr p s, p\<lparr>memmap := m\<rparr>)"
      using s(1) offset_not_error(2) [OF r(1) s(2) n] by (simp add: mymalloc_def p' block_ptr_def)
    moreover have "(s, ?n) \<notin> set (allocations p)" using s(6) n by auto
    moreover have "ready_pool (p\<lparr>memmap := m\<rparr>)" using s(3) r(2,3) by (simp add: ready_pool_def p')
    ultimately show thesis using block_ptr_nonzero(1) [OF r(1) p(2) s(2) n] s(5) by (intro block) (simp_all add: p')
  qed
qed

lemma myfree_placed:
  assumes p: "ready_pool p" "placed p" and b: "(s, l) \<in> set (allocations p)"
  obtains m where "myfree p (block_ptr p s) = Inr (p\<lparr>memmap := m\<rparr>)" "ready_pool (p\<lparr>memmap := m\<rparr>)"
    "set (allocations (p\<lparr>memmap := m\<rparr>)) = set (allocations p) - {(s, l)}"
proof -
  note r = ready_poolD [OF p(1)]
  have w: "wf_map (memmap p)" "length (memmap p) = memtblsize p" using r(1) by (simp_all add: pool_ok_def)
  have sl: "s + l \<le> memtblsize p" "0 < l" using blocks_bounds [OF w(1), of s l 0] b w(2) by (simp_all add: allocations_def)
  obtain p' where p': "my_mem_free p (of_nat (s * memblksize p)) = Inr (0, p')" "pool_ok p'" "p' = p\<lparr>memmap := memmap p'\<rparr>"
    "set (allocations p') = set (allocations p) - {(s, l)}"
    using my_mem_free_allocation [OF r(1,2) b] by blast
  define m where "m = memmap p'"
  have e: "p' = p\<lparr>memmap := m\<rparr>" using p'(3) by (simp add: m_def)
  have "myfree p (block_ptr p s) = Inr (p\<lparr>memmap := m\<rparr>)"
    using p'(1) block_ptr_nonzero [OF r(1) p(2) sl] by (simp add: myfree_def e)
  then show thesis using that [of m] p'(2,4) r(2,3) by (simp add: e ready_pool_def)
qed

section \<open>Several blocks\<close>

fun mallocs :: "mem_pool \<Rightarrow> u32 list \<Rightarrow> fault + (u32 list \<times> mem_pool)" where
  "mallocs p [] = Inr ([], p)"
| "mallocs p (sz # szs) = ebind (mymalloc p sz) (\<lambda>(a, p1). ebind (mallocs p1 szs) (\<lambda>(as, p2). Inr (a # as, p2)))"

fun frees :: "mem_pool \<Rightarrow> u32 list \<Rightarrow> fault + mem_pool" where
  "frees p [] = Inr p"
| "frees p (a # as) = ebind (myfree p a) (\<lambda>p1. frees p1 as)"

text \<open>The blocks \<open>bs\<close> behind the pointers \<open>as\<close>, null pointers left out.\<close>

definition behind :: "mem_pool \<Rightarrow> u32 list \<Rightarrow> (nat \<times> nat) list \<Rightarrow> bool" where
  "behind p as bs \<longleftrightarrow> filter (\<lambda>a. a \<noteq> 0) as = map (\<lambda>b. block_ptr p (fst b)) bs"

lemma behind_map [simp]: "behind (p\<lparr>memmap := m\<rparr>) = behind p"
  by (simp add: behind_def fun_eq_iff)

lemma mallocs_ok:
  assumes "ready_pool p" and "placed p" and "\<forall>sz \<in> set szs. sz \<noteq> 0 \<and> unat sz \<le> 2097120"
  obtains as m bs where "mallocs p szs = Inr (as, p\<lparr>memmap := m\<rparr>)" "length as = length szs" "ready_pool (p\<lparr>memmap := m\<rparr>)"
    "behind p as bs" "distinct bs" "set bs \<inter> set (allocations p) = {}" "set (allocations (p\<lparr>memmap := m\<rparr>)) = set bs \<union> set (allocations p)"
    "0 \<notin> set as \<Longrightarrow> map snd bs = map (ceil_blocks p) szs"
proof -
  have "\<exists>as m bs. mallocs p szs = Inr (as, p\<lparr>memmap := m\<rparr>) \<and> length as = length szs \<and> ready_pool (p\<lparr>memmap := m\<rparr>) \<and>
    behind p as bs \<and> distinct bs \<and> set bs \<inter> set (allocations p) = {} \<and>
    set (allocations (p\<lparr>memmap := m\<rparr>)) = set bs \<union> set (allocations p) \<and> (0 \<notin> set as \<longrightarrow> map snd bs = map (ceil_blocks p) szs)"
    using assms
  proof (induction szs arbitrary: p)
    case Nil
    then show ?case by (intro exI [of _ "[]"] exI [of _ "memmap p"]) (simp add: behind_def)
  next
    case (Cons sz szs)
    have sz: "sz \<noteq> 0" "unat sz \<le> 2097120" "\<forall>sz \<in> set szs. sz \<noteq> 0 \<and> unat sz \<le> 2097120" using Cons.prems(3) by simp_all
    show ?case
    proof (cases rule: mymalloc_block [OF Cons.prems(1,2) sz(1,2), case_names none block])
      case none
      from Cons.IH [OF Cons.prems(1,2) sz(3)] obtain as m bs where "mallocs p szs = Inr (as, p\<lparr>memmap := m\<rparr>)"
        "length as = length szs" "ready_pool (p\<lparr>memmap := m\<rparr>)" "behind p as bs" "distinct bs" "set bs \<inter> set (allocations p) = {}"
        "set (allocations (p\<lparr>memmap := m\<rparr>)) = set bs \<union> set (allocations p)" by blast
      then show ?thesis using none(1) by (intro exI [of _ "0 # as"] exI [of _ m] exI [of _ bs]) (simp add: behind_def)
    next
      case (block s m1)
      let ?p = "p\<lparr>memmap := m1\<rparr>" and ?b = "(s, ceil_blocks p sz)"
      have "placed ?p" using Cons.prems(2) by simp
      from Cons.IH [OF block(3) this sz(3)] obtain as m bs where "mallocs ?p szs = Inr (as, p\<lparr>memmap := m\<rparr>)"
        "length as = length szs" "ready_pool (p\<lparr>memmap := m\<rparr>)" "behind p as bs" "distinct bs" "set bs \<inter> set (allocations ?p) = {}"
        "set (allocations (p\<lparr>memmap := m\<rparr>)) = set bs \<union> set (allocations ?p)" "0 \<notin> set as \<longrightarrow> map snd bs = map (ceil_blocks p) szs"
        by auto
      then show ?thesis using block(1,2,4,5)
        by (intro exI [of _ "block_ptr p s # as"] exI [of _ m] exI [of _ "?b # bs"]) (auto simp: behind_def)
    qed
  qed
  then show thesis using that by blast
qed

lemma frees_ok:
  assumes "ready_pool p" and "placed p" and "behind p as bs" and "distinct bs" and "set bs \<subseteq> set (allocations p)"
  obtains m where "frees p as = Inr (p\<lparr>memmap := m\<rparr>)" "ready_pool (p\<lparr>memmap := m\<rparr>)"
    "set (allocations (p\<lparr>memmap := m\<rparr>)) = set (allocations p) - set bs"
proof -
  have "\<exists>m. frees p as = Inr (p\<lparr>memmap := m\<rparr>) \<and> ready_pool (p\<lparr>memmap := m\<rparr>) \<and>
    set (allocations (p\<lparr>memmap := m\<rparr>)) = set (allocations p) - set bs"
    using assms
  proof (induction as arbitrary: p bs)
    case Nil
    then show ?case by (intro exI [of _ "memmap p"]) (simp add: behind_def)
  next
    case (Cons a as)
    show ?case
    proof (cases "a = 0")
      case True
      then show ?thesis using Cons.IH [of p bs] Cons.prems by (simp add: behind_def myfree_def)
    next
      case False
      then obtain s l bs' where bs: "bs = (s, l) # bs'" "a = block_ptr p s" "behind p as bs'"
        using Cons.prems(3) by (cases bs) (auto simp: behind_def)
      have "(s, l) \<in> set (allocations p)" using Cons.prems(5) bs(1) by simp
      then obtain m1 where m1: "myfree p (block_ptr p s) = Inr (p\<lparr>memmap := m1\<rparr>)" "ready_pool (p\<lparr>memmap := m1\<rparr>)"
        "set (allocations (p\<lparr>memmap := m1\<rparr>)) = set (allocations p) - {(s, l)}"
        by (rule myfree_placed [OF Cons.prems(1,2)])
      have "set bs' \<subseteq> set (allocations (p\<lparr>memmap := m1\<rparr>))" using m1(3) Cons.prems(4,5) bs(1) by auto
      then obtain m where "frees (p\<lparr>memmap := m1\<rparr>) as = Inr (p\<lparr>memmap := m\<rparr>)" "ready_pool (p\<lparr>memmap := m\<rparr>)"
        "set (allocations (p\<lparr>memmap := m\<rparr>)) = set (allocations (p\<lparr>memmap := m1\<rparr>)) - set bs'"
        using Cons.IH [OF m1(2), of bs'] Cons.prems(2,4) bs(1,3) by auto
      then show ?thesis using m1(1,3) bs(1,2) by (intro exI [of _ m]) auto
    qed
  qed
  then show thesis using that by blast
qed

text \<open>Giving all of them back, in the order in which they were taken, restores the pool.\<close>

lemma frees_mallocs:
  assumes p: "ready_pool p" "placed p" and m: "\<forall>sz \<in> set szs. sz \<noteq> 0 \<and> unat sz \<le> 2097120" "mallocs p szs = Inr (as, p')"
  shows "frees p' as = Inr p"
proof -
  obtain as1 m1 bs where r: "mallocs p szs = Inr (as1, p\<lparr>memmap := m1\<rparr>)" "ready_pool (p\<lparr>memmap := m1\<rparr>)" "behind p as1 bs" "distinct bs"
    "set bs \<inter> set (allocations p) = {}" "set (allocations (p\<lparr>memmap := m1\<rparr>)) = set bs \<union> set (allocations p)"
    by (rule mallocs_ok [OF p m(1)]) (rule that)
  have e: "as1 = as" "p' = p\<lparr>memmap := m1\<rparr>" using r(1) m(2) by simp_all
  obtain m2 where m2: "frees (p\<lparr>memmap := m1\<rparr>) as = Inr (p\<lparr>memmap := m2\<rparr>)" "ready_pool (p\<lparr>memmap := m2\<rparr>)"
    "set (allocations (p\<lparr>memmap := m2\<rparr>)) = set (allocations (p\<lparr>memmap := m1\<rparr>)) - set bs"
    by (rule frees_ok [OF r(2), of as bs]) (use p(2) r(3,4,6) e(1) in simp_all)
  have "m2 = memmap p"
  proof (rule blocks_determine)
    show "wf_map m2" "wf_map (memmap p)" "length m2 = length (memmap p)"
      using ready_poolD(1) [OF m2(2)] ready_poolD(1) [OF p(1)] by (simp_all add: pool_ok_def)
    show "set (blocks 0 m2) = set (blocks 0 (memmap p))" using m2(3) r(5,6) by (auto simp: allocations_def)
  qed
  then show ?thesis using m2(1) e(2) by simp
qed

section \<open>A pool used from its upper end only\<close>

definition low_free :: "nat \<Rightarrow> mem_pool \<Rightarrow> bool" where
  "low_free k p \<longleftrightarrow> (\<exists>u. memmap p = replicate k 0 @ u \<and> 0 \<notin> set u)"

lemma mymalloc_low:
  assumes p: "ready_pool p" "placed p" and l: "low_free k p" and sz: "sz \<noteq> 0" "unat sz \<le> 2097120" "ceil_blocks p sz \<le> k"
  obtains m where "mymalloc p sz = Inr (block_ptr p (k - ceil_blocks p sz), p\<lparr>memmap := m\<rparr>)" "block_ptr p (k - ceil_blocks p sz) \<noteq> 0"
    "ready_pool (p\<lparr>memmap := m\<rparr>)" "low_free (k - ceil_blocks p sz) (p\<lparr>memmap := m\<rparr>)"
proof -
  let ?n = "ceil_blocks p sz"
  note r = ready_poolD [OF p(1)]
  obtain u where u: "memmap p = replicate k 0 @ u" "0 \<notin> set u" using l by (auto simp: low_free_def)
  have w: "wf_map (memmap p)" "length (memmap p) = memtblsize p" using r(1) by (simp_all add: pool_ok_def)
  have n: "0 < ?n" by (rule ceil_blocks_pos [OF sz(1)])
  have nb: "unat (blocks_needed p sz) = ?n" using blocks_needed_eq [of p sz] r sz(2) by (simp add: pool_ok_def)
  have run: "free_run (memmap p) (k - ?n) ?n" using u sz(3) by (auto simp: free_run_def nth_append)
  have n0: "0 < blocks_needed p sz" "blocks_needed p sz \<noteq> 0" using nb n by (auto simp: word_less_nat_alt)
  have km: "k \<le> length (memmap p)" using u(1) by simp
  have bd: "memtblsize p + unat (0 :: u16) \<le> length (memmap p)" using w(2) by simp
  obtain s where s: "malloc_search (memmap p) (memtblsize p) 0 (blocks_needed p sz) = Some s" "k - ?n \<le> s"
    using malloc_search_complete [OF refl n0(1) bd, of "k - ?n"] run nb sz(3) km w(2) by auto
  have sr: "free_run (memmap p) s ?n" using malloc_search_sound [OF s(1) bd n0(1)] nb by simp
  have "s + ?n \<le> k"
  proof (rule ccontr)
    assume "\<not> s + ?n \<le> k"
    then have "memmap p ! (s + (?n - 1)) = u ! (s + (?n - 1) - k)" "s + (?n - 1) - k < length u"
      using sr n u(1) by (auto simp: nth_append free_run_def)
    moreover have "?n - 1 < ?n" using n by simp
    then have "memmap p ! (s + (?n - 1)) = 0" using sr unfolding free_run_def by blast
    ultimately show False using u(2) nth_mem by metis
  qed
  then have sk: "s = k - ?n" using s(2) by simp
  let ?v = "blocks_needed p sz"
  let ?m = "take s (memmap p) @ replicate ?n ?v @ drop (s + ?n) (memmap p)"
  have "mymemset (memmap p) s ?v ?n = Inr ?m" by (rule mymemset_eq) (use sr in \<open>simp add: free_run_def\<close>)
  then have mk: "mark_blocks (memmap p) s ?v ?v = Inr ?m" by (simp add: mark_blocks_def nb)
  have off: "(of_nat (s * memblksize p) :: u32) \<noteq> 0xFFFFFFFF"
    by (rule offset_not_error(2) [OF r(1) _ n]) (use sr w(2) in \<open>simp add: free_run_def\<close>)
  have run1: "mymalloc p sz = Inr (block_ptr p s, p\<lparr>memmap := ?m\<rparr>)"
    using s(1) mk off sz(1) r(2) by (simp add: mymalloc_def my_mem_malloc_def Let_def block_ptr_def)
  have lf: "low_free s (p\<lparr>memmap := ?m\<rparr>)"
    unfolding low_free_def using u sz(3) sk n0(2) by (intro exI [of _ "replicate ?n ?v @ u"]) simp
  show thesis
  proof (cases rule: mymalloc_block [OF p sz(1,2), case_names none block])
    case none
    then show thesis using run by blast
  next
    case (block s' m')
    have "block_ptr p s' = block_ptr p s" "p\<lparr>memmap := m'\<rparr> = p\<lparr>memmap := ?m\<rparr>" using block(1) run1 by simp_all
    then show thesis using that run1 block(2,3) lf unfolding sk by metis
  qed
qed

lemma mallocs_low:
  assumes "ready_pool p" and "placed p" and "low_free k p" and "\<forall>sz \<in> set szs. sz \<noteq> 0 \<and> unat sz \<le> 2097120"
    and "sum_list (map (ceil_blocks p) szs) \<le> k"
  shows "\<exists>as m. mallocs p szs = Inr (as, p\<lparr>memmap := m\<rparr>) \<and> 0 \<notin> set as \<and> length as = length szs \<and> ready_pool (p\<lparr>memmap := m\<rparr>) \<and>
    low_free (k - sum_list (map (ceil_blocks p) szs)) (p\<lparr>memmap := m\<rparr>)"
  using assms
proof (induction szs arbitrary: p k)
  case Nil
  then show ?case by (intro exI [of _ "[]"] exI [of _ "memmap p"]) simp
next
  case (Cons sz szs)
  let ?n = "ceil_blocks p sz"
  have sz: "sz \<noteq> 0" "unat sz \<le> 2097120" "\<forall>sz \<in> set szs. sz \<noteq> 0 \<and> unat sz \<le> 2097120" "?n \<le> k"
    "sum_list (map (ceil_blocks p) szs) \<le> k - ?n" using Cons.prems(4,5) by auto
  obtain m1 where m1: "mymalloc p sz = Inr (block_ptr p (k - ?n), p\<lparr>memmap := m1\<rparr>)" "block_ptr p (k - ?n) \<noteq> 0"
    "ready_pool (p\<lparr>memmap := m1\<rparr>)" "low_free (k - ?n) (p\<lparr>memmap := m1\<rparr>)"
    by (rule mymalloc_low [OF Cons.prems(1,2,3) sz(1,2,4)])
  have "placed (p\<lparr>memmap := m1\<rparr>)" using Cons.prems(2) by simp
  from Cons.IH [OF m1(3) this m1(4) sz(3)] obtain as m where "mallocs (p\<lparr>memmap := m1\<rparr>) szs = Inr (as, p\<lparr>memmap := m\<rparr>)" "0 \<notin> set as"
    "length as = length szs" "ready_pool (p\<lparr>memmap := m\<rparr>)" "low_free (k - ?n - sum_list (map (ceil_blocks p) szs)) (p\<lparr>memmap := m\<rparr>)"
    using sz(5) by auto
  then show ?case using m1(1,2) by (intro exI [of _ "block_ptr p (k - ?n) # as"] exI [of _ m]) simp
qed

lemma fresh_low_free: "my_mem_init p = Inr p' \<Longrightarrow> pool_ok p \<Longrightarrow> low_free (memtblsize p) p'"
  using my_mem_init_ok [of p] by (auto simp: low_free_def)

end
