(* ===== verification/Dm9000.thy ===== *)
theory Dm9000
  imports ACU_Prelude
begin

text \<open>
  The driver of the Ethernet controller, HARDWARE/DM9000/dm9000.c. The chip is a parameter: what a read
  of its data port gives, and what a read or write does to it, for the register selected by its
  index port. The packet buffers of the network stack are a parameter too: \<open>alloc n len\<close> is the outcome of the
  n-th call of \<open>pbuf_alloc\<close>. Of the kernel the mutex \<open>dm9000lock\<close> and the counting semaphore
  \<open>dm9000input\<close> are part of the state; waiting for a mutex that nobody gives back does not end. Delays and
  \<open>printf\<close> output are not modelled. What the driver achieves on a chip is in \<open>EthChip\<close>.
\<close>

section \<open>State\<close>

record 'd dm_chip =
  dm_get :: "u16 \<Rightarrow> 'd \<Rightarrow> u16 \<times> 'd"      \<comment> \<open>register, chip\<close>
  dm_set :: "u16 \<Rightarrow> u16 \<Rightarrow> 'd \<Rightarrow> 'd"       \<comment> \<open>register, value, chip\<close>
  dm_rst :: "bool \<Rightarrow> 'd \<Rightarrow> 'd"              \<comment> \<open>the reset pin\<close>
  dm_int :: "'d \<Rightarrow> bool"                  \<comment> \<open>the level of the interrupt pin\<close>

record dm9000_config =
  cfg_mode :: u8
  imr_all :: u8
  queue_packet_len :: u16
  mac_addr :: "u8 list"
  multicase_addr :: "u8 list"

record pbuf =
  payload :: "u8 list"
  pbuf_len :: u16
  tot_len :: u16

record 'd dm =
  REG :: u16
  chip :: 'd
  dm9000cfg :: dm9000_config
  dm9000lock :: bool
  dm9000input :: nat
  allocs :: nat

abbreviation (input) "DM9000_NCR \<equiv> 0x00 :: u16"
abbreviation (input) "DM9000_NSR \<equiv> 0x01 :: u16"
abbreviation (input) "DM9000_TCR \<equiv> 0x02 :: u16"
abbreviation (input) "DM9000_RCR \<equiv> 0x05 :: u16"
abbreviation (input) "DM9000_BPTR \<equiv> 0x08 :: u16"
abbreviation (input) "DM9000_FCTR \<equiv> 0x09 :: u16"
abbreviation (input) "DM9000_FCR \<equiv> 0x0A :: u16"
abbreviation (input) "DM9000_EPCR \<equiv> 0x0B :: u16"
abbreviation (input) "DM9000_EPAR \<equiv> 0x0C :: u16"
abbreviation (input) "DM9000_EPDRL \<equiv> 0x0D :: u16"
abbreviation (input) "DM9000_EPDRH \<equiv> 0x0E :: u16"
abbreviation (input) "DM9000_PAR \<equiv> 0x10 :: u16"
abbreviation (input) "DM9000_MAR \<equiv> 0x16 :: u16"
abbreviation (input) "DM9000_GPCR \<equiv> 0x1E :: u16"
abbreviation (input) "DM9000_GPR \<equiv> 0x1F :: u16"
abbreviation (input) "DM9000_VIDL \<equiv> 0x28 :: u16"
abbreviation (input) "DM9000_VIDH \<equiv> 0x29 :: u16"
abbreviation (input) "DM9000_PIDL \<equiv> 0x2A :: u16"
abbreviation (input) "DM9000_PIDH \<equiv> 0x2B :: u16"
abbreviation (input) "DM9000_TCR2 \<equiv> 0x2D :: u16"
abbreviation (input) "DM9000_SMCR \<equiv> 0x2F :: u16"
abbreviation (input) "DM9000_MRCMDX \<equiv> 0xF0 :: u16"
abbreviation (input) "DM9000_MRCMD \<equiv> 0xF2 :: u16"
abbreviation (input) "DM9000_MWCMD \<equiv> 0xF8 :: u16"
abbreviation (input) "DM9000_TXPLL \<equiv> 0xFC :: u16"
abbreviation (input) "DM9000_TXPLH \<equiv> 0xFD :: u16"
abbreviation (input) "DM9000_ISR \<equiv> 0xFE :: u16"
abbreviation (input) "DM9000_IMR \<equiv> 0xFF :: u16"

section \<open>Registers\<close>

text \<open>Reading and writing \<open>DM9000->DATA\<close>.\<close>

definition get_DATA :: "'d dm_chip \<Rightarrow> 'd dm \<Rightarrow> u16 \<times> 'd dm" where
  "get_DATA D s = (let (v, c) = dm_get D (REG s) (chip s) in (v, s\<lparr>chip := c\<rparr>))"

definition set_DATA :: "'d dm_chip \<Rightarrow> u16 \<Rightarrow> 'd dm \<Rightarrow> 'd dm" where
  "set_DATA D v s = s\<lparr>chip := dm_set D (REG s) v (chip s)\<rparr>"

definition DM9000_ReadReg :: "'d dm_chip \<Rightarrow> u16 \<Rightarrow> 'd dm \<Rightarrow> u16 \<times> 'd dm" where
  "DM9000_ReadReg D reg s = get_DATA D (s\<lparr>REG := reg\<rparr>)"

definition DM9000_WriteReg :: "'d dm_chip \<Rightarrow> u16 \<Rightarrow> u16 \<Rightarrow> 'd dm \<Rightarrow> 'd dm" where
  "DM9000_WriteReg D reg v s = set_DATA D v (s\<lparr>REG := reg\<rparr>)"

text \<open>C does not fix which of the two data registers is read first; here the high one is.\<close>

definition DM9000_PHY_ReadReg :: "'d dm_chip \<Rightarrow> u16 \<Rightarrow> 'd dm \<Rightarrow> u16 \<times> 'd dm" where
  "DM9000_PHY_ReadReg D reg s =
     (let s1 = DM9000_WriteReg D DM9000_EPAR (0x40 OR reg) s;
          s2 = DM9000_WriteReg D DM9000_EPCR 0x0C s1;
          s3 = DM9000_WriteReg D DM9000_EPCR 0x00 s2;
          (hi, s4) = DM9000_ReadReg D DM9000_EPDRH s3;
          (lo, s5) = DM9000_ReadReg D DM9000_EPDRL s4
      in (push_bit 8 hi OR lo, s5))"

definition DM9000_PHY_WriteReg :: "'d dm_chip \<Rightarrow> u16 \<Rightarrow> u16 \<Rightarrow> 'd dm \<Rightarrow> 'd dm" where
  "DM9000_PHY_WriteReg D reg v s =
     (let s1 = DM9000_WriteReg D DM9000_EPAR (0x40 OR reg) s;
          s2 = DM9000_WriteReg D DM9000_EPDRL (v AND 0xFF) s1;
          s3 = DM9000_WriteReg D DM9000_EPDRH (drop_bit 8 v AND 0xFF) s2;
          s4 = DM9000_WriteReg D DM9000_EPCR 0x0A s3
      in DM9000_WriteReg D DM9000_EPCR 0x00 s4)"

definition DM9000_Get_DeiviceID :: "'d dm_chip \<Rightarrow> 'd dm \<Rightarrow> u32 \<times> 'd dm" where
  "DM9000_Get_DeiviceID D s =
     (let (a, s1) = DM9000_ReadReg D DM9000_VIDL s;
          (b, s2) = DM9000_ReadReg D DM9000_VIDH s1;
          (c, s3) = DM9000_ReadReg D DM9000_PIDL s2;
          (d, s4) = DM9000_ReadReg D DM9000_PIDH s3
      in (ucast a OR push_bit 8 (ucast b) OR push_bit 16 (ucast c) OR push_bit 24 (ucast d), s4))"

section \<open>Start-up\<close>

definition DM9000_10MHD :: u8 where "DM9000_10MHD = 0"
definition DM9000_100MHD :: u8 where "DM9000_100MHD = 1"
definition DM9000_10MFD :: u8 where "DM9000_10MFD = 4"
definition DM9000_100MFD :: u8 where "DM9000_100MFD = 5"
definition DM9000_AUTO :: u8 where "DM9000_AUTO = 8"

text \<open>Gives up after \<open>n\<close> failures; the code counts to 101.\<close>

fun link_wait :: "('d dm \<Rightarrow> bool \<times> 'd dm) \<Rightarrow> nat \<Rightarrow> 'd dm \<Rightarrow> bool \<times> 'd dm" where
  "link_wait look 0 s = (False, s)"
| "link_wait look (Suc n) s = (let (ok, s1) = look s in if ok then (True, s1) else link_wait look n s1)"

definition DM9000_Get_SpeedAndDuplex :: "'d dm_chip \<Rightarrow> 'd dm \<Rightarrow> u8 \<times> 'd dm" where
  "DM9000_Get_SpeedAndDuplex D s =
     (let (ok, s1) =
        (if cfg_mode (dm9000cfg s) = DM9000_AUTO
         then link_wait (\<lambda>s. let (v, s1) = DM9000_PHY_ReadReg D 0x01 s in (v AND 0x0020 \<noteq> 0, s1)) 101 s
         else link_wait (\<lambda>s. let (v, s1) = DM9000_ReadReg D DM9000_NSR s in (v AND 0x40 \<noteq> 0, s1)) 101 s)
      in if \<not> ok then (0xFF, s1)
         else let (nsr, s2) = DM9000_ReadReg D DM9000_NSR s1; (ncr, s3) = DM9000_ReadReg D DM9000_NCR s2
              in (ucast (drop_bit 6 nsr AND 0x02) OR ucast (drop_bit 3 ncr AND 0x01), s3))"

text \<open>\<open>junk\<close> are the uninitialised locals, for a mode the \<open>switch\<close> does not know.\<close>

definition DM9000_Set_PHYMode :: "'d dm_chip \<Rightarrow> u16 \<times> u16 \<Rightarrow> u8 \<Rightarrow> 'd dm \<Rightarrow> 'd dm" where
  "DM9000_Set_PHYMode D junk mode s =
     (let (BMCR_Value, ANAR_Value) =
        (if mode = DM9000_10MHD then (0x0000, 0x21)
         else if mode = DM9000_10MFD then (0x0100, 0x41)
         else if mode = DM9000_100MHD then (0x2000, 0x81)
         else if mode = DM9000_100MFD then (0x2100, 0x101)
         else if mode = DM9000_AUTO then (0x1000, 0x01E1)
         else junk)
      in DM9000_WriteReg D DM9000_GPR 0x00
           (DM9000_PHY_WriteReg D 0x04 ANAR_Value (DM9000_PHY_WriteReg D 0x00 BMCR_Value s)))"

text \<open>Consecutive registers from \<open>reg\<close> on.\<close>

fun write_regs :: "'d dm_chip \<Rightarrow> u16 \<Rightarrow> u8 list \<Rightarrow> 'd dm \<Rightarrow> 'd dm" where
  "write_regs D reg [] s = s"
| "write_regs D reg (b # bs) s = write_regs D (reg + 1) bs (DM9000_WriteReg D reg (ucast b) s)"

definition DM9000_Set_MACAddress :: "'d dm_chip \<Rightarrow> u8 list \<Rightarrow> 'd dm \<Rightarrow> fault + 'd dm" where
  "DM9000_Set_MACAddress D macaddr s =
     ebind (get_bytes macaddr 0 6) (\<lambda>bs. Inr (write_regs D DM9000_PAR bs s))"

definition DM9000_Set_Multicast :: "'d dm_chip \<Rightarrow> u8 list \<Rightarrow> 'd dm \<Rightarrow> fault + 'd dm" where
  "DM9000_Set_Multicast D multicastaddr s =
     ebind (get_bytes multicastaddr 0 8) (\<lambda>bs. Inr (write_regs D DM9000_MAR bs s))"

fun reset_wait :: "nat \<Rightarrow> 'd dm_chip \<Rightarrow> 'd dm \<Rightarrow> fault + 'd dm" where
  "reset_wait 0 D s = Inl Still_Running"
| "reset_wait (Suc n) D s =
     (let (v, s1) = DM9000_ReadReg D DM9000_NCR s in if v AND 1 \<noteq> 0 then reset_wait n D s1 else Inr s1)"

definition DM9000_Reset :: "nat \<Rightarrow> 'd dm_chip \<Rightarrow> 'd dm \<Rightarrow> fault + 'd dm" where
  "DM9000_Reset fuel D s =
     (let s1 = s\<lparr>chip := dm_rst D True (dm_rst D False (chip s))\<rparr>;
          s2 = DM9000_WriteReg D DM9000_GPCR 0x01 s1;
          s3 = DM9000_WriteReg D DM9000_GPR 0 s2;
          s4 = DM9000_WriteReg D DM9000_NCR (0x02 OR 0x01) s3
      in ebind (reset_wait fuel D s4) (\<lambda>s5.
           reset_wait fuel D (DM9000_WriteReg D DM9000_NCR (0x02 OR 0x01) (DM9000_WriteReg D DM9000_NCR 0 s5))))"

text \<open>The configuration; \<open>uid\<close> is the identification of the processor.\<close>

definition init_config :: "u32 \<Rightarrow> dm9000_config" where
  "init_config uid =
     \<lparr>cfg_mode = DM9000_AUTO, imr_all = 0x80 OR 0x01, queue_packet_len = 0,
      mac_addr = [2, 0, ucast (drop_bit 24 uid AND 0xFF), ucast (drop_bit 16 uid AND 0xFF),
                  ucast (drop_bit 8 uid AND 0xFF), ucast (uid AND 0xFF)],
      multicase_addr = replicate 8 0xFF\<rparr>"

definition DM9000_Init :: "nat \<Rightarrow> 'd dm_chip \<Rightarrow> u16 \<times> u16 \<Rightarrow> u32 \<Rightarrow> 'd dm \<Rightarrow> fault + (u8 \<times> 'd dm)" where
  "DM9000_Init fuel D junk uid s =
     ebind (DM9000_Reset fuel D (s\<lparr>dm9000cfg := init_config uid\<rparr>)) (\<lambda>s1.
     let (ident, s2) = DM9000_Get_DeiviceID D s1 in
     if ident \<noteq> 0x90000A46 then Inr (1, s2)
     else
       let s3 = DM9000_Set_PHYMode D junk (cfg_mode (dm9000cfg s2)) s2;
           s4 = fold (\<lambda>(r, v). DM9000_WriteReg D r v)
             [(DM9000_NCR, 0x00), (DM9000_TCR, 0x00), (DM9000_BPTR, 0x3F), (DM9000_FCTR, 0x38), (DM9000_FCR, 0x00),
              (DM9000_SMCR, 0x00), (DM9000_NSR, 0x20 OR 0x08 OR 0x04), (DM9000_ISR, 0x0F), (DM9000_TCR2, 0x80)] s3
       in ebind (DM9000_Set_MACAddress D (mac_addr (dm9000cfg s4)) s4) (\<lambda>s5.
          ebind (DM9000_Set_Multicast D (multicase_addr (dm9000cfg s5)) s5) (\<lambda>s6.
          let s7 = DM9000_WriteReg D DM9000_RCR (0x20 OR 0x10 OR 0x01) s6;
              s8 = DM9000_WriteReg D DM9000_IMR 0x80 s7;
              (_, s9) = DM9000_Get_SpeedAndDuplex D s8
          in Inr (0, DM9000_WriteReg D DM9000_IMR (ucast (imr_all (dm9000cfg s9))) s9))))"

section \<open>Packets\<close>

text \<open>The lock is free when a task gets here, unless it was never given back.\<close>

definition mutex_pend :: "'d dm \<Rightarrow> fault + 'd dm" where
  "mutex_pend s = (if dm9000lock s then Inl Still_Running else Inr (s\<lparr>dm9000lock := True\<rparr>))"

definition mutex_post :: "'d dm \<Rightarrow> 'd dm" where
  "mutex_post s = s\<lparr>dm9000lock := False\<rparr>"

text \<open>The bytes of a buffer are written in pairs; one may be left over for the next buffer.\<close>

fun push_bytes :: "'d dm_chip \<Rightarrow> u8 list \<Rightarrow> u8 option \<Rightarrow> 'd dm \<Rightarrow> u8 option \<times> 'd dm" where
  "push_bytes D [] w s = (w, s)"
| "push_bytes D (b # bs) None s = push_bytes D bs (Some b) s"
| "push_bytes D (b # bs) (Some a) s = push_bytes D bs None (set_DATA D (push_bit 8 (ucast b) OR ucast a) s)"

fun send_chain :: "'d dm_chip \<Rightarrow> pbuf list \<Rightarrow> u8 option \<Rightarrow> 'd dm \<Rightarrow> fault + (u8 option \<times> 'd dm)" where
  "send_chain D [] w s = Inr (w, s)"
| "send_chain D (q # qs) w s =
     ebind (get_bytes (payload q) 0 (unat (pbuf_len q))) (\<lambda>bs.
       let (w1, s1) = push_bytes D bs w s in send_chain D qs w1 s1)"

fun sent_wait :: "nat \<Rightarrow> 'd dm_chip \<Rightarrow> 'd dm \<Rightarrow> fault + 'd dm" where
  "sent_wait 0 D s = Inl Still_Running"
| "sent_wait (Suc n) D s =
     (let (v, s1) = DM9000_ReadReg D DM9000_ISR s in if v AND 0x02 = 0 then sent_wait n D s1 else Inr s1)"

definition DM9000_SendPacket :: "nat \<Rightarrow> 'd dm_chip \<Rightarrow> pbuf list \<Rightarrow> 'd dm \<Rightarrow> fault + 'd dm" where
  "DM9000_SendPacket fuel D p s =
     ebind (mutex_pend s) (\<lambda>s1.
     let s2 = (DM9000_WriteReg D DM9000_IMR 0x80 s1)\<lparr>REG := DM9000_MWCMD\<rparr> in
     ebind (send_chain D p None s2) (\<lambda>(w, s3).
     let s4 = (case w of None \<Rightarrow> s3 | Some b \<Rightarrow> set_DATA D (ucast b) s3) in
     case p of [] \<Rightarrow> Inl Bad_Pointer
     | q # _ \<Rightarrow>
         let s5 = DM9000_WriteReg D DM9000_TXPLL (tot_len q AND 0xFF) s4;
             s6 = DM9000_WriteReg D DM9000_TXPLH (drop_bit 8 (tot_len q) AND 0xFF) s5;
             s7 = DM9000_WriteReg D DM9000_TCR 0x01 s6
         in ebind (sent_wait fuel D s7) (\<lambda>s8.
              let s9 = DM9000_WriteReg D DM9000_ISR 0x02 s8;
                  s10 = DM9000_WriteReg D DM9000_IMR (ucast (imr_all (dm9000cfg s9))) s9
              in Inr (mutex_post s10))))"

text \<open>
  \<open>n\<close> words are stored from index \<open>i\<close> of a buffer on, the low byte first; a buffer takes as many words as cover its
  length, so that an odd length needs one more byte of memory.
\<close>

fun recv_words :: "'d dm_chip \<Rightarrow> nat \<Rightarrow> u8 list \<Rightarrow> nat \<Rightarrow> 'd dm \<Rightarrow> fault + (u8 list \<times> 'd dm)" where
  "recv_words D 0 m i s = Inr (m, s)"
| "recv_words D (Suc n) m i s =
     (let (v, s1) = get_DATA D s in
      ebind (put_bytes m i [ucast (v AND 0xFF), ucast (drop_bit 8 v)]) (\<lambda>m1. recv_words D n m1 (i + 2) s1))"

fun recv_chain :: "'d dm_chip \<Rightarrow> pbuf list \<Rightarrow> 'd dm \<Rightarrow> fault + (pbuf list \<times> 'd dm)" where
  "recv_chain D [] s = Inr ([], s)"
| "recv_chain D (q # qs) s =
     ebind (recv_words D ((unat (pbuf_len q) + 1) div 2) (payload q) 0 s) (\<lambda>(m, s1).
     ebind (recv_chain D qs s1) (\<lambda>(qs1, s2). Inr (q\<lparr>payload := m\<rparr> # qs1, s2)))"

text \<open>Without a buffer the words are read away; the loop ends only when \<open>len\<close> is exactly 0.\<close>

fun recv_dump :: "nat \<Rightarrow> 'd dm_chip \<Rightarrow> int \<Rightarrow> 'd dm \<Rightarrow> fault + 'd dm" where
  "recv_dump 0 D len s = (if len = 0 then Inr s else Inl Still_Running)"
| "recv_dump (Suc n) D len s =
     (if len = 0 then Inr s else let (_, s1) = get_DATA D s in recv_dump n D (len - 2) s1)"

definition rx_bad :: "u16 \<Rightarrow> u16 \<Rightarrow> bool" where
  "rx_bad rx_status rx_length \<longleftrightarrow> rx_status AND 0xBF00 \<noteq> 0 \<or> rx_length < 0x40 \<or> 1536 < rx_length"

text \<open>From \<open>__error_retry\<close> on. \<open>False\<close> as first component: the return that does not give the lock back.\<close>

fun receive_loop :: "nat \<Rightarrow> nat \<Rightarrow> 'd dm_chip \<Rightarrow> (nat \<Rightarrow> u16 \<Rightarrow> pbuf list option) \<Rightarrow> 'd dm
    \<Rightarrow> fault + (bool \<times> pbuf list option \<times> 'd dm)" where
  "receive_loop 0 dfuel D alloc s = Inl Still_Running"
| "receive_loop (Suc n) dfuel D alloc s =
     (let (_, s1) = DM9000_ReadReg D DM9000_MRCMDX s; (w, s2) = get_DATA D s1; rxbyte = ucast w :: u8 in
      if rxbyte \<noteq> 0 then
        if 1 < rxbyte then
          Inr (False, None, DM9000_WriteReg D DM9000_ISR 0x80 (DM9000_WriteReg D DM9000_RCR 0x00 s2))
        else
          let (rx_status, s3) = get_DATA D (s2\<lparr>REG := DM9000_MRCMD\<rparr>); (rx_length, s4) = get_DATA D s3;
              p = alloc (allocs s4) rx_length; s5 = s4\<lparr>allocs := allocs s4 + 1\<rparr>
          in ebind (case p of
                Some qs \<Rightarrow> ebind (recv_chain D qs s5) (\<lambda>(qs1, s6). Inr (Some qs1, s6))
              | None \<Rightarrow> ebind (recv_dump dfuel D (uint rx_length) s5) (\<lambda>s6. Inr (None, s6))) (\<lambda>(p1, s6).
            if rx_bad rx_status rx_length
            then receive_loop n dfuel D alloc
              (if 1536 < rx_length then DM9000_WriteReg D DM9000_NCR 0x01 s6 else s6)
            else Inr (True, p1, s6))
      else
        let s3 = DM9000_WriteReg D DM9000_ISR 0x02 s2;
            s4 = s3\<lparr>dm9000cfg := (dm9000cfg s3)\<lparr>imr_all := 0x80 OR 0x01\<rparr>\<rparr>
        in Inr (True, None, DM9000_WriteReg D DM9000_IMR (ucast (imr_all (dm9000cfg s4))) s4))"

definition DM9000_Receive_Packet :: "nat \<Rightarrow> nat \<Rightarrow> 'd dm_chip \<Rightarrow> (nat \<Rightarrow> u16 \<Rightarrow> pbuf list option) \<Rightarrow> 'd dm
    \<Rightarrow> fault + (pbuf list option \<times> 'd dm)" where
  "DM9000_Receive_Packet fuel dfuel D alloc s =
     ebind (mutex_pend s) (\<lambda>s1.
     ebind (receive_loop fuel dfuel D alloc s1) (\<lambda>(post, p, s2).
       Inr (p, if post then mutex_post s2 else s2)))"

section \<open>Interrupts\<close>

definition sem_post :: "'d dm \<Rightarrow> 'd dm" where
  "sem_post s = s\<lparr>dm9000input := (if dm9000input s < 65535 then dm9000input s + 1 else dm9000input s)\<rparr>"

definition DMA9000_ISRHandler :: "'d dm_chip \<Rightarrow> 'd dm \<Rightarrow> 'd dm" where
  "DMA9000_ISRHandler D s =
     (let last_io = REG s; (int_status, s1) = DM9000_ReadReg D DM9000_ISR s;
          s2 = DM9000_WriteReg D DM9000_ISR int_status s1;
          s3 = (if int_status AND 0x01 \<noteq> 0 then sem_post s2 else s2)
      in s3\<lparr>REG := last_io\<rparr>)"

fun EXTI9_5_IRQHandler :: "nat \<Rightarrow> 'd dm_chip \<Rightarrow> 'd dm \<Rightarrow> fault + 'd dm" where
  "EXTI9_5_IRQHandler 0 D s = Inl Still_Running"
| "EXTI9_5_IRQHandler (Suc n) D s =
     (if dm_int D (chip s) then Inr s else EXTI9_5_IRQHandler n D (DMA9000_ISRHandler D s))"

section \<open>The task that feeds the network stack\<close>

text \<open>
  The inner loop of \<open>ethernetif_input\<close> (ethernetif.c) and one round of the outer one; the result are the packets
  handed to \<open>netif->input\<close>, in order. \<open>low_level_input\<close> is \<open>DM9000_Receive_Packet\<close>.
\<close>

fun input_loop :: "nat \<Rightarrow> nat \<Rightarrow> nat \<Rightarrow> 'd dm_chip \<Rightarrow> (nat \<Rightarrow> u16 \<Rightarrow> pbuf list option) \<Rightarrow> 'd dm
    \<Rightarrow> fault + (pbuf list list \<times> 'd dm)" where
  "input_loop 0 fuel dfuel D alloc s = Inl Still_Running"
| "input_loop (Suc n) fuel dfuel D alloc s =
     ebind (DM9000_Receive_Packet fuel dfuel D alloc s) (\<lambda>(p, s1).
       case p of
         Some qs \<Rightarrow> ebind (input_loop n fuel dfuel D alloc s1) (\<lambda>(ds, s2). Inr (qs # ds, s2))
       | None \<Rightarrow> Inr ([], s1))"

definition ethernetif_input :: "nat \<Rightarrow> nat \<Rightarrow> nat \<Rightarrow> 'd dm_chip \<Rightarrow> (nat \<Rightarrow> u16 \<Rightarrow> pbuf list option) \<Rightarrow> 'd dm
    \<Rightarrow> fault + (pbuf list list \<times> 'd dm)" where
  "ethernetif_input n fuel dfuel D alloc s =
     (if dm9000input s = 0 then Inl Still_Running
      else input_loop n fuel dfuel D alloc (s\<lparr>dm9000input := dm9000input s - 1\<rparr>))"

definition low_level_output :: "nat \<Rightarrow> 'd dm_chip \<Rightarrow> pbuf list \<Rightarrow> 'd dm \<Rightarrow> fault + (int \<times> 'd dm)" where
  "low_level_output fuel D p s = ebind (DM9000_SendPacket fuel D p s) (\<lambda>s1. Inr (0, s1))"

end
