(* ===== verification/EthChip.thy ===== *)
theory EthChip
  imports Dm9000
begin

text \<open>
  The Ethernet driver on its chip: the locale \<open>eth_chip\<close> with what the driver relies on (a stream of received
  words that can be looked at and taken from, a transmit buffer words are appended to), the driver's
  receiving and sending loops under these laws, and the DM9000 as its data sheet describes it, on which
  the locale is interpreted.
\<close>

section \<open>Bytes and words\<close>

text \<open>The bytes of a packet in words, the low byte first; an odd last byte fills a word with 0.\<close>

fun words :: "u8 list \<Rightarrow> u16 list" where
  "words [] = []"
| "words [a] = [ucast a]"
| "words (a # b # bs) = (push_bit 8 (ucast b) OR ucast a) # words bs"

definition word_bytes :: "u16 \<Rightarrow> u8 list" where
  "word_bytes w = [ucast (w AND 0xFF), ucast (drop_bit 8 w)]"

definition bytes_of :: "u16 list \<Rightarrow> u8 list" where
  "bytes_of ws = concat (map word_bytes ws)"

lemma u16_mask: "(w :: u16) AND 0xFF = take_bit 8 w"
proof -
  have "(0xFF :: u16) = mask 8" by (simp add: mask_eq_exp_minus_1)
  then show ?thesis by (simp only: take_bit_eq_mask)
qed

lemma word_bytes_pair: "word_bytes (push_bit 8 (ucast b) OR ucast a) = [a, b]"
proof -
  have "(ucast (take_bit 8 (push_bit 8 (ucast b) OR ucast a :: u16)) :: u8) = a"
    by (rule bit_word_eqI) (simp only: bit_unsigned_iff bit_take_bit_iff bit_or_iff bit_push_bit_iff,
      auto simp: possible_bit_def bit_unsigned_iff)
  moreover have "(ucast (drop_bit 8 (push_bit 8 (ucast b) OR ucast a :: u16)) :: u8) = b"
    by (rule bit_word_eqI) (simp only: bit_unsigned_iff bit_drop_bit_eq comp_apply bit_or_iff bit_push_bit_iff,
      auto simp: possible_bit_def bit_unsigned_iff dest: bit_imp_le_length)
  ultimately show ?thesis by (simp add: word_bytes_def u16_mask)
qed

lemma word_bytes_single: "word_bytes (ucast a) = [a, 0]"
  using word_bytes_pair [of 0 a] by simp

lemma bytes_of_words: "bytes_of (words bs) = bs @ replicate (length bs mod 2) 0"
  by (induction bs rule: words.induct)
     (simp_all add: bytes_of_def word_bytes_pair word_bytes_single)

lemma take_stored: "take (length xs) (overlay 0 (bytes_of (words xs)) m) = xs"
  by (simp add: overlay_def bytes_of_words)

lemma length_words: "length (words bs) = (length bs + 1) div 2"
  by (induction bs rule: words.induct) simp_all

lemma words_append: "even (length xs) \<Longrightarrow> words (xs @ ys) = words xs @ words ys"
  by (induction xs rule: words.induct) simp_all

lemma length_bytes_of [simp]: "length (bytes_of ws) = 2 * length ws"
  by (induction ws) (simp_all add: bytes_of_def word_bytes_def)

lemma bytes_of_Cons: "bytes_of (w # ws) = word_bytes w @ bytes_of ws"
  by (simp add: bytes_of_def)

section \<open>What the driver relies on\<close>

abbreviation pending_byte :: "u8 option \<Rightarrow> u8 list" where
  "pending_byte w \<equiv> (case w of None \<Rightarrow> [] | Some a \<Rightarrow> [a])"

definition chain_bytes :: "pbuf list \<Rightarrow> u8 list" where
  "chain_bytes p = concat (map (\<lambda>q. take (unat (pbuf_len q)) (payload q)) p)"

text \<open>A chain of buffers for \<open>n\<close> bytes: only the last length may be odd, and then there is room for one more byte.\<close>

fun fits :: "pbuf list \<Rightarrow> nat \<Rightarrow> bool" where
  "fits [] n \<longleftrightarrow> n = 0"
| "fits (q # qs) n \<longleftrightarrow>
     (let k = unat (pbuf_len q)
      in k \<le> n \<and> (even k \<or> k = n) \<and> k + k mod 2 \<le> length (payload q) \<and> fits qs (n - k))"

text \<open>
  What \<open>pbuf_alloc\<close> may answer for \<open>k\<close> bytes, at any call: \<open>NULL\<close>, when the pool is used up, or a chain for exactly these bytes
  (every buffer of the pool has an even size, and all but the last are filled).
\<close>

definition pbufs_ok :: "(nat \<Rightarrow> u16 \<Rightarrow> pbuf list option) \<Rightarrow> bool" where
  "pbufs_ok alloc \<longleftrightarrow> (\<forall>n k. k \<le> 1536 \<longrightarrow> (case alloc n (of_nat k) of None \<Rightarrow> True | Some qs \<Rightarrow> fits qs k))"

text \<open>A received frame: its status byte and its bytes; in the chip a ready byte and the length come before.\<close>

type_synonym frame = "u8 \<times> u8 list"

definition frame_words :: "frame \<Rightarrow> u16 list" where
  "frame_words f = (push_bit 8 (ucast (fst f)) OR 1) # of_nat (length (snd f)) # words (snd f)"

definition good :: "frame \<Rightarrow> bool" where
  "good f \<longleftrightarrow> fst f AND 0xBF = 0 \<and> 64 \<le> length (snd f)"

text \<open>
  Every frame that is taken out of the chip is a call of \<open>pbuf_alloc\<close>; the frames \<open>fs\<close> use the calls from number \<open>a\<close> on. Which of them get a buffer;
  the bytes of the good ones that do; and whether the frames without a buffer can be read away with \<open>d\<close> reads.
\<close>

definition granted :: "(nat \<Rightarrow> u16 \<Rightarrow> pbuf list option) \<Rightarrow> nat \<Rightarrow> frame \<Rightarrow> bool" where
  "granted al a f \<longleftrightarrow> al a (of_nat (length (snd f))) \<noteq> None"

fun got :: "(nat \<Rightarrow> u16 \<Rightarrow> pbuf list option) \<Rightarrow> nat \<Rightarrow> frame list \<Rightarrow> u8 list list" where
  "got al a [] = []"
| "got al a (f # fs) = (if good f \<and> granted al a f then [snd f] else []) @ got al (Suc a) fs"

fun readable :: "nat \<Rightarrow> (nat \<Rightarrow> u16 \<Rightarrow> pbuf list option) \<Rightarrow> nat \<Rightarrow> frame list \<Rightarrow> bool" where
  "readable d al a [] \<longleftrightarrow> True"
| "readable d al a (f # fs) \<longleftrightarrow>
     (granted al a f \<or> even (length (snd f)) \<and> length (snd f) div 2 \<le> d) \<and> readable d al (Suc a) fs"

text \<open>One call of \<open>DM9000_Receive_Packet\<close>, and one round of the input task: what is delivered, the next call, the frames that stay.\<close>

fun one_call :: "(nat \<Rightarrow> u16 \<Rightarrow> pbuf list option) \<Rightarrow> nat \<Rightarrow> frame list \<Rightarrow> u8 list option \<times> nat \<times> frame list" where
  "one_call al a [] = (None, a, [])"
| "one_call al a (f # fs) =
     (if good f then (if granted al a f then Some (snd f) else None, Suc a, fs) else one_call al (Suc a) fs)"

fun one_round :: "(nat \<Rightarrow> u16 \<Rightarrow> pbuf list option) \<Rightarrow> nat \<Rightarrow> frame list \<Rightarrow> u8 list list \<times> nat \<times> frame list" where
  "one_round al a [] = ([], a, [])"
| "one_round al a (f # fs) =
     (if good f
      then if granted al a f then (let (ds, b, rest) = one_round al (Suc a) fs in (snd f # ds, b, rest)) else ([], Suc a, fs)
      else one_round al (Suc a) fs)"

lemma one_round_calls:
  "one_round al a fs = (case one_call al a fs of (None, b, rest) \<Rightarrow> ([], b, rest)
     | (Some d, b, rest) \<Rightarrow> (let (ds, b', rest') = one_round al b rest in (d # ds, b', rest')))"
  by (induction fs arbitrary: a) simp_all

lemma one_call_rest: "one_call al a fs = (d, b, rest) \<Longrightarrow> set rest \<subseteq> set fs \<and> (fs \<noteq> [] \<longrightarrow> length rest < length fs)"
proof (induction fs arbitrary: a)
  case (Cons f fs)
  show ?case
  proof (cases "good f")
    case False
    then have "set rest \<subseteq> set fs \<and> (fs \<noteq> [] \<longrightarrow> length rest < length fs)" using Cons by simp
    then show ?thesis using Cons.prems False by (cases fs) auto
  qed (use Cons.prems in auto)
qed simp

lemma one_call_readable: "readable m al a fs \<Longrightarrow> one_call al a fs = (d, b, rest) \<Longrightarrow> readable m al b rest"
  by (induction fs arbitrary: a) (auto split: if_splits)

text \<open>A round deals with a first part of the frames, all of them unless the last one of the part was good and got no buffer.\<close>

lemma one_round_split:
  assumes "one_round al a fs = (ds, b, rest)"
  shows "\<exists>k \<le> length fs. b = a + k \<and> rest = drop k fs \<and> ds = got al a (take k fs) \<and> (fs \<noteq> [] \<longrightarrow> 0 < k) \<and>
    (rest \<noteq> [] \<longrightarrow> good (fs ! (k - 1)) \<and> \<not> granted al (a + k - 1) (fs ! (k - 1)))"
  using assms
proof (induction fs arbitrary: a ds)
  case (Cons f fs)
  show ?case
  proof (cases "good f \<and> \<not> granted al a f")
    case True
    with Cons.prems show ?thesis by (intro exI [of _ 1]) auto
  next
    case False
    then obtain es where es: "one_round al (Suc a) fs = (es, b, rest)" "ds = (if good f then [snd f] else []) @ es"
      using Cons.prems by (cases "one_round al (Suc a) fs") (auto split: if_splits)
    from Cons.IH [OF es(1)] obtain k where k: "k \<le> length fs" "b = Suc a + k" "rest = drop k fs" "es = got al (Suc a) (take k fs)"
      "fs \<noteq> [] \<longrightarrow> 0 < k" "rest \<noteq> [] \<longrightarrow> good (fs ! (k - 1)) \<and> \<not> granted al (Suc a + k - 1) (fs ! (k - 1))" by blast
    have "ds = got al a (take (Suc k) (f # fs))" using es(2) k(4) False by auto
    moreover have "rest \<noteq> [] \<Longrightarrow> good ((f # fs) ! k) \<and> \<not> granted al (a + k) ((f # fs) ! k)"
    proof -
      assume r: "rest \<noteq> []"
      then have "fs \<noteq> []" using k(3) by auto
      then obtain j where j: "k = Suc j" using k(5) by (cases k) auto
      then show ?thesis using r k(6) by simp
    qed
    ultimately show ?thesis using k(1-3) by (intro exI [of _ "Suc k"]) simp
  qed
qed simp

lemma got_append: "got al a (xs @ ys) = got al a xs @ got al (a + length xs) ys"
  by (induction xs arbitrary: a) simp_all

lemma got_all:
  "\<forall>i < length fs. granted al (a + i) (fs ! i) \<Longrightarrow> got al a fs = map snd (filter good fs)"
proof (induction fs arbitrary: a)
  case (Cons f fs)
  have "granted al a f" "\<forall>i < length fs. granted al (Suc a + i) (fs ! i)" using Cons.prems by (auto simp: nth_Cons')
  then show ?case using Cons.IH by auto
qed simp

locale eth_chip =
  fixes D :: "'d dm_chip" and ok :: "'d \<Rightarrow> bool" and rx tx :: "'d \<Rightarrow> u16 list" and mask :: "'d \<Rightarrow> u16"
    and aux :: "'d \<Rightarrow> 'a" and keep :: "'d \<Rightarrow> 'b"
  assumes peek: "ok c \<Longrightarrow> \<exists>c1. dm_get D DM9000_MRCMDX c = ((case rx c of [] \<Rightarrow> 0 | w # _ \<Rightarrow> w), c1) \<and>
      ok c1 \<and> rx c1 = rx c \<and> tx c1 = tx c \<and> keep c1 = keep c \<and> mask c1 = mask c"
    and pop: "ok c \<Longrightarrow> rx c = w # ws \<Longrightarrow> \<exists>c1. dm_get D DM9000_MRCMD c = (w, c1) \<and> ok c1 \<and> rx c1 = ws \<and> tx c1 = tx c \<and> keep c1 = keep c \<and> mask c1 = mask c"
    and push: "ok c \<Longrightarrow> ok (dm_set D DM9000_MWCMD v c) \<and> rx (dm_set D DM9000_MWCMD v c) = rx c \<and>
      tx (dm_set D DM9000_MWCMD v c) = tx c @ [v] \<and> aux (dm_set D DM9000_MWCMD v c) = aux c"
    and clear: "ok c \<Longrightarrow> ok (dm_set D DM9000_ISR v c) \<and> rx (dm_set D DM9000_ISR v c) = rx c \<and>
      tx (dm_set D DM9000_ISR v c) = tx c \<and> keep (dm_set D DM9000_ISR v c) = keep c"
    and set_mask: "ok c \<Longrightarrow> ok (dm_set D DM9000_IMR v c) \<and> rx (dm_set D DM9000_IMR v c) = rx c \<and>
      tx (dm_set D DM9000_IMR v c) = tx c \<and> keep (dm_set D DM9000_IMR v c) = keep c \<and> mask (dm_set D DM9000_IMR v c) = v"
begin

text \<open>Sending: whatever bytes follow, the words in the chip and the byte left over stand for what has been pushed.\<close>

lemma push_bytes_ok:
  assumes "ok (chip s)" and "REG s = DM9000_MWCMD"
  obtains w' c where "push_bytes D bs w s = (w', s\<lparr>chip := c\<rparr>)" and "ok c" and "rx c = rx (chip s)" and "aux c = aux (chip s)"
    and "\<And>zs. tx c @ words (pending_byte w' @ zs) = tx (chip s) @ words (pending_byte w @ bs @ zs)"
proof -
  have "\<exists>w' c. push_bytes D bs w s = (w', s\<lparr>chip := c\<rparr>) \<and> ok c \<and> rx c = rx (chip s) \<and> aux c = aux (chip s) \<and>
      (\<forall>zs. tx c @ words (pending_byte w' @ zs) = tx (chip s) @ words (pending_byte w @ bs @ zs))"
    using assms
  proof (induction bs arbitrary: w s)
    case Nil
    then show ?case by (intro exI [of _ w] exI [of _ "chip s"]) simp
  next
    case (Cons b bs)
    show ?case
    proof (cases w)
      case None
      with Cons.IH [of s "Some b"] Cons.prems show ?thesis by simp
    next
      case (Some a)
      let ?s = "set_DATA D (push_bit 8 (ucast b) OR ucast a) s"
      have s: "ok (chip ?s)" "rx (chip ?s) = rx (chip s)" "aux (chip ?s) = aux (chip s)" "REG ?s = DM9000_MWCMD"
          "tx (chip ?s) = tx (chip s) @ [push_bit 8 (ucast b) OR ucast a]"
        using push Cons.prems by (simp_all add: set_DATA_def)
      from Cons.IH [of ?s None, OF s(1,4)] obtain w' c where
        c: "push_bytes D bs None ?s = (w', ?s\<lparr>chip := c\<rparr>)" "ok c" "rx c = rx (chip ?s)" "aux c = aux (chip ?s)"
          "\<forall>zs. tx c @ words (pending_byte w' @ zs) = tx (chip ?s) @ words (bs @ zs)" by auto
      have "?s\<lparr>chip := c\<rparr> = s\<lparr>chip := c\<rparr>" by (simp add: set_DATA_def)
      with c s Some show ?thesis by (intro exI [of _ w'] exI [of _ c]) simp
    qed
  qed
  with that show thesis by blast
qed

lemma send_chain_ok:
  assumes "ok (chip s)" and "REG s = DM9000_MWCMD" and "\<forall>q \<in> set p. unat (pbuf_len q) \<le> length (payload q)"
  shows "\<exists>w' c. send_chain D p w s = Inr (w', s\<lparr>chip := c\<rparr>) \<and> ok c \<and> rx c = rx (chip s) \<and> aux c = aux (chip s) \<and>
    (\<forall>zs. tx c @ words (pending_byte w' @ zs) = tx (chip s) @ words (pending_byte w @ chain_bytes p @ zs))"
  using assms
proof (induction p arbitrary: w s)
  case Nil
  then show ?case by (intro exI [of _ w] exI [of _ "chip s"]) (simp add: chain_bytes_def)
next
  case (Cons q qs)
  let ?bs = "take (unat (pbuf_len q)) (payload q)"
  have g: "get_bytes (payload q) 0 (unat (pbuf_len q)) = Inr ?bs" using Cons.prems(3) by (simp add: get_bytes_ok)
  obtain w1 c1 where p: "push_bytes D ?bs w s = (w1, s\<lparr>chip := c1\<rparr>)" "ok c1" "rx c1 = rx (chip s)" "aux c1 = aux (chip s)"
    "\<And>zs. tx c1 @ words (pending_byte w1 @ zs) = tx (chip s) @ words (pending_byte w @ ?bs @ zs)"
    using push_bytes_ok [OF Cons.prems(1,2), of ?bs w] by blast
  have "ok (chip (s\<lparr>chip := c1\<rparr>))" "REG (s\<lparr>chip := c1\<rparr>) = DM9000_MWCMD"
    "\<forall>q \<in> set qs. unat (pbuf_len q) \<le> length (payload q)" using p Cons.prems by simp_all
  from Cons.IH [OF this, of w1] obtain w' c where
    c: "send_chain D qs w1 (s\<lparr>chip := c1\<rparr>) = Inr (w', s\<lparr>chip := c\<rparr>)" "ok c" "rx c = rx c1" "aux c = aux c1"
      "\<forall>zs. tx c @ words (pending_byte w' @ zs) = tx c1 @ words (pending_byte w1 @ chain_bytes qs @ zs)" by auto
  have "tx c @ words (pending_byte w' @ zs) = tx (chip s) @ words (pending_byte w @ chain_bytes (q # qs) @ zs)" for zs
    using c(5) p(5) [of "chain_bytes qs @ zs"] by (simp add: chain_bytes_def)
  with c p show ?case by (intro exI [of _ w'] exI [of _ c]) (simp add: g)
qed

text \<open>All bytes of a chain are in the chip once the byte left over is written too.\<close>

lemma send_chain_complete:
  assumes "ok (chip s)" and "REG s = DM9000_MWCMD" and "\<forall>q \<in> set p. unat (pbuf_len q) \<le> length (payload q)"
  obtains w c c' where "send_chain D p None s = Inr (w, s\<lparr>chip := c\<rparr>)"
    and "(case w of None \<Rightarrow> s\<lparr>chip := c\<rparr> | Some b \<Rightarrow> set_DATA D (ucast b) (s\<lparr>chip := c\<rparr>)) = s\<lparr>chip := c'\<rparr>"
    and "ok c'" and "rx c' = rx (chip s)" and "aux c' = aux (chip s)" and "tx c' = tx (chip s) @ words (chain_bytes p)"
proof -
  obtain w c where c: "send_chain D p None s = Inr (w, s\<lparr>chip := c\<rparr>)" "ok c" "rx c = rx (chip s)" "aux c = aux (chip s)"
    "\<forall>zs. tx c @ words (pending_byte w @ zs) = tx (chip s) @ words (chain_bytes p @ zs)"
    using send_chain_ok [OF assms, of None] by auto
  have t: "tx c @ words (pending_byte w) = tx (chip s) @ words (chain_bytes p)"
    using c(5) [rule_format, of "[]"] by simp
  show thesis
  proof (cases w)
    case None
    with c t show ?thesis by (intro that [of w c c]) simp_all
  next
    case (Some b)
    with c t push assms(2) show ?thesis
      by (intro that [of w c "dm_set D DM9000_MWCMD (ucast b) c"]) (simp_all add: set_DATA_def)
  qed
qed

text \<open>Receiving into one buffer and into a chain.\<close>

lemma recv_words_ok:
  assumes "ok (chip s)" and "REG s = DM9000_MRCMD" and "rx (chip s) = ws @ rest" and "i + 2 * length ws \<le> length m"
  shows "\<exists>c. recv_words D (length ws) m i s = Inr (overlay i (bytes_of ws) m, s\<lparr>chip := c\<rparr>) \<and> ok c \<and>
    rx c = rest \<and> tx c = tx (chip s) \<and> keep c = keep (chip s) \<and> mask c = mask (chip s)"
  using assms
proof (induction ws arbitrary: m i s)
  case Nil
  then show ?case by (intro exI [of _ "chip s"]) (simp add: bytes_of_def overlay_def)
next
  case (Cons w ws)
  have r: "rx (chip s) = w # ws @ rest" using Cons.prems(3) by simp
  obtain c1 where c1: "dm_get D DM9000_MRCMD (chip s) = (w, c1)" "ok c1" "rx c1 = ws @ rest" "tx c1 = tx (chip s) \<and> keep c1 = keep (chip s) \<and> mask c1 = mask (chip s)"
    using pop [OF Cons.prems(1) r] by blast
  then have g: "get_DATA D s = (w, s\<lparr>chip := c1\<rparr>)" using Cons.prems(2) by (simp add: get_DATA_def)
  have p: "put_bytes m i (word_bytes w) = Inr (overlay i (word_bytes w) m)"
    using Cons.prems(4) by (intro put_overlay) (simp add: word_bytes_def)
  have l: "length (word_bytes w) = 2" by (simp add: word_bytes_def)
  obtain c where c: "recv_words D (length ws) (overlay i (word_bytes w) m) (i + 2) (s\<lparr>chip := c1\<rparr>) =
      Inr (overlay (i + 2) (bytes_of ws) (overlay i (word_bytes w) m), s\<lparr>chip := c\<rparr>)" "ok c" "rx c = rest" "tx c = tx c1 \<and> keep c = keep c1 \<and> mask c = mask c1"
    using Cons.IH [of "s\<lparr>chip := c1\<rparr>" "i + 2" "overlay i (word_bytes w) m"] c1 Cons.prems(2,4) l by auto
  have "overlay (i + 2) (bytes_of ws) (overlay i (word_bytes w) m) = overlay i (bytes_of (w # ws)) m"
    unfolding bytes_of_Cons by (rule overlay_append) (use Cons.prems(4) l in simp_all)
  with c c1 p show ?case by (intro exI [of _ c]) (simp add: g Let_def word_bytes_def)
qed

lemma recv_chain_ok:
  assumes "ok (chip s)" and "REG s = DM9000_MRCMD" and "rx (chip s) = words bs @ rest" and "fits p (length bs)"
  shows "\<exists>p' c. recv_chain D p s = Inr (p', s\<lparr>chip := c\<rparr>) \<and> chain_bytes p' = bs \<and> ok c \<and> rx c = rest \<and> tx c = tx (chip s) \<and> keep c = keep (chip s) \<and> mask c = mask (chip s)"
  using assms
proof (induction p arbitrary: bs s)
  case Nil
  then show ?case by (intro exI [of _ "[]"] exI [of _ "chip s"]) (simp add: chain_bytes_def)
next
  case (Cons q qs)
  let ?k = "unat (pbuf_len q)"
  let ?xs = "take ?k bs" and ?ys = "drop ?k bs"
  have f: "?k \<le> length bs" "even ?k \<or> ?k = length bs" "?k + ?k mod 2 \<le> length (payload q)" "fits qs (length ?ys)"
    using Cons.prems(4) by (simp_all add: Let_def)
  have lx: "length ?xs = ?k" using f(1) by simp
  have "words bs = words ?xs @ words ?ys"
  proof (cases "even ?k")
    case True
    then show ?thesis using words_append [of ?xs ?ys] lx by simp
  next
    case False
    then show ?thesis using f(2) by simp
  qed
  then have r: "rx (chip s) = words ?xs @ words ?ys @ rest" using Cons.prems(3) by simp
  have lw: "length (words ?xs) = (?k + 1) div 2" by (simp only: length_words lx)
  have "0 + 2 * length (words ?xs) \<le> length (payload q)" using f(3) by (simp add: lw) presburger
  from recv_words_ok [OF Cons.prems(1,2) r this] obtain c1 where
    c1: "recv_words D ((?k + 1) div 2) (payload q) 0 s = Inr (overlay 0 (bytes_of (words ?xs)) (payload q), s\<lparr>chip := c1\<rparr>)"
      "ok c1" "rx c1 = words ?ys @ rest" "tx c1 = tx (chip s) \<and> keep c1 = keep (chip s) \<and> mask c1 = mask (chip s)" unfolding lw by blast
  from Cons.IH [of "s\<lparr>chip := c1\<rparr>" ?ys] c1 Cons.prems(2) f(4) obtain p' c where
    c: "recv_chain D qs (s\<lparr>chip := c1\<rparr>) = Inr (p', s\<lparr>chip := c\<rparr>)" "chain_bytes p' = ?ys" "ok c" "rx c = rest" "tx c = tx c1 \<and> keep c = keep c1 \<and> mask c = mask c1"
    by auto
  have "take ?k (overlay 0 (bytes_of (words ?xs)) (payload q)) = ?xs"
    using take_stored [of ?xs] by (simp only: lx)
  then have "chain_bytes (q\<lparr>payload := overlay 0 (bytes_of (words ?xs)) (payload q)\<rparr> # p') = bs"
    using c(2) by (simp add: chain_bytes_def)
  with c c1 show ?case by (intro exI) (auto simp del: fits.simps)
qed

text \<open>The state of the receiver: the frames pending in the chip.\<close>

definition pending :: "'d dm \<Rightarrow> frame list \<Rightarrow> bool" where
  "pending s fs \<longleftrightarrow> ok (chip s) \<and> rx (chip s) = concat (map frame_words fs)"

definition ctl_eq :: "'d dm \<Rightarrow> 'd dm \<Rightarrow> bool" where
  "ctl_eq s s' \<longleftrightarrow> dm9000lock s' = dm9000lock s \<and> dm9000input s' = dm9000input s \<and> tx (chip s') = tx (chip s) \<and> keep (chip s') = keep (chip s)"

lemma peek_twice:
  assumes "ok (chip s)"
  obtains v s1 c where "DM9000_ReadReg D DM9000_MRCMDX s = (v, s1)"
    and "get_DATA D s1 = ((case rx (chip s) of [] \<Rightarrow> 0 | w # _ \<Rightarrow> w), s\<lparr>REG := DM9000_MRCMDX, chip := c\<rparr>)"
    and "ok c" and "rx c = rx (chip s)" and "tx c = tx (chip s) \<and> keep c = keep (chip s) \<and> mask c = mask (chip s)"
proof -
  obtain c where c: "dm_get D DM9000_MRCMDX (chip s) = ((case rx (chip s) of [] \<Rightarrow> 0 | w # _ \<Rightarrow> w), c)"
    "ok c" "rx c = rx (chip s)" "tx c = tx (chip s) \<and> keep c = keep (chip s) \<and> mask c = mask (chip s)" using peek [OF assms] by blast
  obtain c' where c': "dm_get D DM9000_MRCMDX c = ((case rx c of [] \<Rightarrow> 0 | w # _ \<Rightarrow> w), c')" "ok c'" "rx c' = rx c" "tx c' = tx c \<and> keep c' = keep c \<and> mask c' = mask c"
    using peek [OF c(2)] by blast
  show thesis
    by (rule that [of _ "s\<lparr>REG := DM9000_MRCMDX, chip := c\<rparr>" c'])
       (use c c' in \<open>simp_all add: DM9000_ReadReg_def get_DATA_def\<close>)
qed

definition armed :: "'d dm \<Rightarrow> bool" where
  "armed s \<longleftrightarrow> imr_all (dm9000cfg s) = 0x81 \<and> mask (chip s) = 0x81"

lemma receive_none:
  assumes "pending s []"
  shows "\<exists>s'. receive_loop (Suc n) dfuel D alloc s = Inr (True, None, s') \<and> pending s' [] \<and> ctl_eq s s' \<and>
    allocs s' = allocs s \<and> armed s'"
proof -
  have o: "ok (chip s)" "rx (chip s) = []" using assms by (simp_all add: pending_def)
  obtain v s1 c' where c: "DM9000_ReadReg D DM9000_MRCMDX s = (v, s1)"
    and c': "get_DATA D s1 = (0, s\<lparr>REG := DM9000_MRCMDX, chip := c'\<rparr>)" "ok c'" "rx c' = []" "tx c' = tx (chip s) \<and> keep c' = keep (chip s)"
    using peek_twice [OF o(1)] o(2) by (metis list.simps(4))
  let ?c2 = "dm_set D DM9000_ISR 0x02 c'"
  have c2: "ok ?c2" "rx ?c2 = []" "tx ?c2 = tx (chip s) \<and> keep ?c2 = keep (chip s)" using clear [OF c'(2), of "0x02"] c'(3,4) by simp_all
  show ?thesis
    using set_mask [OF c2(1), of "0x81"] c2(2,3)
    by (simp add: c c'(1) DM9000_WriteReg_def set_DATA_def pending_def ctl_eq_def armed_def Let_def)
qed

lemma ready_word:
  "(ucast (push_bit 8 (ucast b) OR 1 :: u16) :: u8) = 1"
  "(push_bit 8 (ucast (b :: u8)) OR 1 :: u16) AND 0xBF00 = 0 \<longleftrightarrow> b AND 0xBF = 0"
proof -
  show "(ucast (push_bit 8 (ucast b) OR 1 :: u16) :: u8) = 1"
    by (rule bit_word_eqI) (simp only: bit_unsigned_iff bit_or_iff bit_push_bit_iff, auto simp: possible_bit_def bit_1_iff)
  have m: "(0xBF00 :: u16) = push_bit 8 (ucast (0xBF :: u8))" by simp
  have "(push_bit 8 (ucast b) OR 1 :: u16) AND 0xBF00 = push_bit 8 (ucast (b AND 0xBF))"
    unfolding m by (rule bit_word_eqI)
      (simp only: bit_and_iff bit_or_iff bit_push_bit_iff bit_unsigned_iff, auto simp: possible_bit_def bit_1_iff)
  moreover have "push_bit 8 (ucast x :: u16) = 0 \<longleftrightarrow> x = 0" for x :: u8
  proof
    assume z: "push_bit 8 (ucast x :: u16) = 0"
    show "x = 0"
    proof (rule bit_word_eqI)
      fix n assume n: "n < LENGTH(8)"
      have "bit (push_bit 8 (ucast x :: u16)) (n + 8) = bit x n"
        using n by (simp only: bit_push_bit_iff bit_unsigned_iff, simp add: possible_bit_def)
      then show "bit x n = bit 0 n" unfolding z by simp
    qed
  qed simp
  ultimately show "(push_bit 8 (ucast b) OR 1 :: u16) AND 0xBF00 = 0 \<longleftrightarrow> b AND 0xBF = 0" by simp
qed

text \<open>Reading away: \<open>len div 2\<close> words, or for ever.\<close>

lemma recv_dump_ok:
  assumes "ok (chip s)" and "REG s = DM9000_MRCMD" and "rx (chip s) = ws @ rest" and "length ws \<le> n"
  shows "\<exists>c. recv_dump n D (2 * int (length ws)) s = Inr (s\<lparr>chip := c\<rparr>) \<and> ok c \<and>
    rx c = rest \<and> tx c = tx (chip s) \<and> keep c = keep (chip s) \<and> mask c = mask (chip s)"
  using assms
proof (induction ws arbitrary: n s)
  case Nil
  then show ?case by (intro exI [of _ "chip s"]) (cases n; simp)
next
  case (Cons w ws)
  then obtain k where k: "n = Suc k" by (cases n) auto
  have r: "rx (chip s) = w # ws @ rest" using Cons.prems(3) by simp
  obtain c1 where c1: "dm_get D DM9000_MRCMD (chip s) = (w, c1)" "ok c1" "rx c1 = ws @ rest"
      "tx c1 = tx (chip s) \<and> keep c1 = keep (chip s) \<and> mask c1 = mask (chip s)"
    using pop [OF Cons.prems(1) r] by blast
  then have g: "get_DATA D s = (w, s\<lparr>chip := c1\<rparr>)" using Cons.prems(2) by (simp add: get_DATA_def)
  obtain c where c: "recv_dump k D (2 * int (length ws)) (s\<lparr>chip := c1\<rparr>) = Inr (s\<lparr>chip := c\<rparr>)" "ok c" "rx c = rest"
      "tx c = tx c1 \<and> keep c = keep c1 \<and> mask c = mask c1"
    using Cons.IH [of "s\<lparr>chip := c1\<rparr>" k] c1 Cons.prems(2,4) by (auto simp: k)
  with c1(4) show ?case by (intro exI [of _ c]) (simp add: k g Let_def)
qed

lemma recv_dump_never: "odd len \<or> 2 * int n < len \<Longrightarrow> recv_dump n D len s = Inl Still_Running"
  by (induction n arbitrary: len s) (auto simp: Let_def split: prod.split)

text \<open>What becomes of the next frame: a good one ends the call, with its bytes or without; a bad one is skipped.\<close>

lemma receive_frame:
  assumes p: "pending s (f # fs)" and len: "length (snd f) \<le> 1536" and al: "pbufs_ok alloc"
  shows "\<not> readable dfuel alloc (allocs s) [f] \<and> receive_loop (Suc n) dfuel D alloc s = Inl Still_Running \<or>
    (\<exists>q s'. receive_loop (Suc n) dfuel D alloc s = (if good f then Inr (True, q, s') else receive_loop n dfuel D alloc s') \<and>
      map_option chain_bytes q = (if granted alloc (allocs s) f then Some (snd f) else None) \<and> pending s' fs \<and> ctl_eq s s' \<and>
      allocs s' = Suc (allocs s) \<and> (armed s \<longrightarrow> armed s'))"
proof -
  obtain b bs where f: "f = (b, bs)" by (cases f)
  let ?st = "push_bit 8 (ucast b) OR 1 :: u16" and ?len = "of_nat (length bs) :: u16"
  let ?rest = "concat (map frame_words fs)"
  have o: "ok (chip s)" "rx (chip s) = ?st # ?len # words bs @ ?rest"
    using p by (simp_all add: pending_def frame_words_def f)
  obtain v s1 c1 where s1: "DM9000_ReadReg D DM9000_MRCMDX s = (v, s1)"
    and g1: "get_DATA D s1 = (?st, s\<lparr>REG := DM9000_MRCMDX, chip := c1\<rparr>)" "ok c1"
      "rx c1 = ?st # ?len # words bs @ ?rest" "tx c1 = tx (chip s) \<and> keep c1 = keep (chip s) \<and> mask c1 = mask (chip s)"
    using peek_twice [OF o(1)] o(2) by (metis list.simps(5))
  obtain c2 where c2: "dm_get D DM9000_MRCMD c1 = (?st, c2)" "ok c2"
    "rx c2 = ?len # words bs @ ?rest" "tx c2 = tx (chip s) \<and> keep c2 = keep (chip s) \<and> mask c2 = mask (chip s)"
    using pop [OF g1(2,3)] g1(4) by metis
  obtain c3 where c3: "dm_get D DM9000_MRCMD c2 = (?len, c3)" "ok c3"
    "rx c3 = words bs @ ?rest" "tx c3 = tx (chip s) \<and> keep c3 = keep (chip s) \<and> mask c3 = mask (chip s)"
    using pop [OF c2(2,3)] c2(4) by metis
  let ?s3 = "s\<lparr>REG := DM9000_MRCMD, chip := c3, allocs := Suc (allocs s)\<rparr>"
  have k: "length bs \<le> 1536" using len by (simp add: f)
  have s3: "ok (chip ?s3)" "REG ?s3 = DM9000_MRCMD" "rx (chip ?s3) = words bs @ ?rest" using c3 by simp_all
  have ul: "unat ?len = length bs" "uint ?len = int (length bs)" using k by (simp_all add: unat_of_nat uint_nat)
  have bad: "rx_bad ?st ?len \<longleftrightarrow> \<not> good f" "\<not> 1536 < ?len"
    using k by (auto simp: rx_bad_def good_def f ready_word(2) word_less_nat_alt ul)
  have rb: "(ucast ?st :: u8) = 1" by (rule ready_word(1))
  have g2: "get_DATA D (s\<lparr>chip := c1, REG := DM9000_MRCMD\<rparr>) = (?st, s\<lparr>REG := DM9000_MRCMD, chip := c2\<rparr>)"
    "get_DATA D (s\<lparr>REG := DM9000_MRCMD, chip := c2\<rparr>) = (?len, s\<lparr>REG := DM9000_MRCMD, chip := c3\<rparr>)"
    using c2(1) c3(1) by (simp_all add: get_DATA_def)
  define buf where "buf = (case alloc (allocs s) ?len of
      Some qs \<Rightarrow> ebind (recv_chain D qs ?s3) (\<lambda>(qs1, s6). Inr (Some qs1, s6))
    | None \<Rightarrow> ebind (recv_dump dfuel D (uint ?len) ?s3) (\<lambda>s6. Inr (None, s6)))"
  have run: "receive_loop (Suc n) dfuel D alloc s =
      ebind buf (\<lambda>(q, s'). if good f then Inr (True, q, s') else receive_loop n dfuel D alloc s')"
    unfolding buf_def using bad by (simp add: s1 g1(1) rb g2 Let_def ebind_def split: sum.split option.split)
  have out: "buf = Inr (q, ?s3\<lparr>chip := c\<rparr>) \<Longrightarrow> ok c \<Longrightarrow> rx c = ?rest \<Longrightarrow> tx c = tx c3 \<and> keep c = keep c3 \<and> mask c = mask c3 \<Longrightarrow>
      map_option chain_bytes q = (if granted alloc (allocs s) f then Some (snd f) else None) \<Longrightarrow> ?thesis" for q c
    using c3(4) by (intro disjI2 exI [of _ q] exI [of _ "?s3\<lparr>chip := c\<rparr>"]) (simp add: run pending_def ctl_eq_def armed_def del: receive_loop.simps)
  show ?thesis
  proof (cases "alloc (allocs s) ?len")
    case (Some qs)
    have "fits qs (length bs)" using al k Some unfolding pbufs_ok_def by (metis option.simps(5))
    from recv_chain_ok [OF s3 this] obtain p' c where
      c: "recv_chain D qs ?s3 = Inr (p', ?s3\<lparr>chip := c\<rparr>)" "chain_bytes p' = bs" "ok c" "rx c = ?rest"
        "tx c = tx (chip ?s3) \<and> keep c = keep (chip ?s3) \<and> mask c = mask (chip ?s3)" by blast
    show ?thesis
      by (rule out [of "Some p'" c]) (use c Some in \<open>simp_all add: buf_def granted_def f\<close>)
  next
    case None
    show ?thesis
    proof (cases "even (length bs) \<and> length bs div 2 \<le> dfuel")
      case True
      then have "2 * int (length (words bs)) = uint ?len" "length (words bs) \<le> dfuel" by (auto simp: length_words ul elim: evenE)
      with recv_dump_ok [OF s3 this(2)] obtain c where
        c: "recv_dump dfuel D (uint ?len) ?s3 = Inr (?s3\<lparr>chip := c\<rparr>)" "ok c" "rx c = ?rest"
          "tx c = tx (chip ?s3) \<and> keep c = keep (chip ?s3) \<and> mask c = mask (chip ?s3)" by auto
      show ?thesis
        by (rule out [of None c]) (use c None in \<open>simp_all add: buf_def granted_def f\<close>)
    next
      case False
      then have "odd (uint ?len) \<or> 2 * int dfuel < uint ?len" unfolding ul by presburger
      from recv_dump_never [OF this] have "buf = Inl Still_Running" by (simp add: buf_def None)
      then show ?thesis using False None by (simp add: run granted_def f del: receive_loop.simps)
    qed
  qed
qed

text \<open>One call: bad frames are skipped, the first good one is delivered, or lost when it gets no buffer.\<close>

lemma receive_loop_ok:
  assumes "pending s fs" and "list_all (\<lambda>f. length (snd f) \<le> 1536) fs" and al: "pbufs_ok alloc" and "length fs < n" and "armed s"
    and "one_call alloc (allocs s) fs = (d, a, rest)"
  shows "\<not> readable dfuel alloc (allocs s) fs \<and> receive_loop n dfuel D alloc s = Inl Still_Running \<or>
    (\<exists>p s'. receive_loop n dfuel D alloc s = Inr (True, p, s') \<and> map_option chain_bytes p = d \<and> allocs s' = a \<and> pending s' rest \<and>
       ctl_eq s s' \<and> armed s')"
  using assms
proof (induction fs arbitrary: s n)
  case Nil
  then obtain m where n: "n = Suc m" by (cases n) auto
  from receive_none [OF Nil.prems(1), of m dfuel alloc] Nil.prems(6) show ?case by (auto simp: n)
next
  case (Cons f fs)
  then obtain m where n: "n = Suc m" by (cases n) auto
  from receive_frame [OF Cons.prems(1) _ al, of dfuel m] Cons.prems(2) consider
      "\<not> readable dfuel alloc (allocs s) [f]" "receive_loop (Suc m) dfuel D alloc s = Inl Still_Running"
    | q s1 where "receive_loop (Suc m) dfuel D alloc s = (if good f then Inr (True, q, s1) else receive_loop m dfuel D alloc s1)"
        "map_option chain_bytes q = (if granted alloc (allocs s) f then Some (snd f) else None)" "pending s1 fs" "ctl_eq s s1"
        "allocs s1 = Suc (allocs s)" "armed s \<longrightarrow> armed s1" by auto
  then show ?case
  proof cases
    case 1
    then show ?thesis unfolding n by (auto simp del: receive_loop.simps)
  next
    case 2
    show ?thesis
    proof (cases "good f")
      case True
      with 2 Cons.prems(5,6) show ?thesis unfolding n by (auto simp del: receive_loop.simps)
    next
      case False
      have "one_call alloc (allocs s1) fs = (d, a, rest)" using Cons.prems(6) False 2(5) by simp
      from Cons.IH [OF 2(3) _ al _ _ this, of m] Cons.prems(2,4,5) 2(6)
      have "\<not> readable dfuel alloc (allocs s1) fs \<and> receive_loop m dfuel D alloc s1 = Inl Still_Running \<or>
        (\<exists>p s'. receive_loop m dfuel D alloc s1 = Inr (True, p, s') \<and> map_option chain_bytes p = d \<and> allocs s' = a \<and> pending s' rest \<and>
           ctl_eq s1 s' \<and> armed s')" by (auto simp: n)
      moreover have "ctl_eq s1 s' \<Longrightarrow> ctl_eq s s'" for s' using 2(4) by (simp add: ctl_eq_def)
      ultimately show ?thesis using False 2(1,5) unfolding n by (auto simp del: receive_loop.simps)
    qed
  qed
qed

lemma DM9000_Receive_Packet_ok:
  assumes "pending s fs" and "list_all (\<lambda>f. length (snd f) \<le> 1536) fs" and "pbufs_ok alloc" and "length fs < n" and "armed s"
    and "one_call alloc (allocs s) fs = (d, a, rest)" and lock: "\<not> dm9000lock s"
  shows "\<not> readable dfuel alloc (allocs s) fs \<and> DM9000_Receive_Packet n dfuel D alloc s = Inl Still_Running \<or>
    (\<exists>p s'. DM9000_Receive_Packet n dfuel D alloc s = Inr (p, s') \<and> map_option chain_bytes p = d \<and> allocs s' = a \<and> pending s' rest \<and>
       ctl_eq s s' \<and> armed s')"
proof -
  let ?s = "s\<lparr>dm9000lock := True\<rparr>"
  have pend: "pending ?s fs" "armed ?s" "one_call alloc (allocs ?s) fs = (d, a, rest)" using assms(1,5,6) by (simp_all add: pending_def armed_def)
  have "ctl_eq ?s s' \<Longrightarrow> ctl_eq s (mutex_post s')" "pending (mutex_post s') gs = pending s' gs" "armed (mutex_post s') = armed s'"
    "allocs (mutex_post s') = allocs s'" for s' gs
    using lock by (simp_all add: ctl_eq_def mutex_post_def pending_def armed_def)
  then show ?thesis
    using receive_loop_ok [OF pend(1) assms(2-4) pend(2,3), of dfuel] lock
    by (auto simp: DM9000_Receive_Packet_def mutex_pend_def)
qed

text \<open>The task's inner loop is a round.\<close>

lemma input_loop_ok:
  assumes "pending s fs" and "list_all (\<lambda>f. length (snd f) \<le> 1536) fs" and al: "pbufs_ok alloc" and "length fs < n" and "armed s"
    and "one_round alloc (allocs s) fs = (ds, a, rest)" and "\<not> dm9000lock s" and "length fs < k"
  shows "\<not> readable dfuel alloc (allocs s) fs \<and> input_loop k n dfuel D alloc s = Inl Still_Running \<or>
    (\<exists>ps s'. input_loop k n dfuel D alloc s = Inr (ps, s') \<and> map chain_bytes ps = ds \<and> allocs s' = a \<and> pending s' rest \<and>
       ctl_eq s s' \<and> armed s')"
  using assms
proof (induction fs arbitrary: s k ds rule: length_induct)
  case (1 fs)
  then obtain j where k: "k = Suc j" by (cases k) auto
  obtain d b r1 where c: "one_call alloc (allocs s) fs = (d, b, r1)" by (cases "one_call alloc (allocs s) fs")
  note rd = one_call_readable [OF _ c, of dfuel]
  from DM9000_Receive_Packet_ok [OF 1(2-6) c 1(8), of dfuel] consider
      "\<not> readable dfuel alloc (allocs s) fs" "DM9000_Receive_Packet n dfuel D alloc s = Inl Still_Running"
    | p s1 where "DM9000_Receive_Packet n dfuel D alloc s = Inr (p, s1)" "map_option chain_bytes p = d" "allocs s1 = b" "pending s1 r1"
        "ctl_eq s s1" "armed s1" by blast
  then show ?case
  proof cases
    case 1
    then show ?thesis by (simp add: k)
  next
    case 2
    show ?thesis
    proof (cases p)
      case None
      then have "ds = [] \<and> a = b \<and> rest = r1" using 1(7) c 2(2) by (auto simp: one_round_calls)
      with None 2 show ?thesis by (simp add: k)
    next
      case (Some qs)
      then have d: "d = Some (chain_bytes qs)" using 2(2) by simp
      have "fs \<noteq> []" using c d by (cases fs) auto
      with one_call_rest [OF c] have l: "length r1 < length fs" "list_all (\<lambda>f. length (snd f) \<le> 1536) r1"
        using 1(3) by (auto simp: list_all_iff)
      obtain es where es: "one_round alloc (allocs s1) r1 = (es, a, rest)" "ds = chain_bytes qs # es"
        using 1(7) c d 2(3) by (cases "one_round alloc b r1") (auto simp: one_round_calls)
      have "\<not> dm9000lock s1" using 2(5) 1(8) by (simp add: ctl_eq_def)
      from 1(1) [rule_format, OF l(1) 2(4) l(2) al _ 2(6) es(1) this, of j] l(1) 1(5,9)
      have "\<not> readable dfuel alloc (allocs s1) r1 \<and> input_loop j n dfuel D alloc s1 = Inl Still_Running \<or>
        (\<exists>ps s'. input_loop j n dfuel D alloc s1 = Inr (ps, s') \<and> map chain_bytes ps = es \<and> allocs s' = a \<and> pending s' rest \<and>
           ctl_eq s1 s' \<and> armed s')" by (simp add: k)
      moreover have "ctl_eq s1 s' \<Longrightarrow> ctl_eq s s'" for s' using 2(5) by (simp add: ctl_eq_def)
      moreover have "\<not> readable dfuel alloc (allocs s1) r1 \<Longrightarrow> \<not> readable dfuel alloc (allocs s) fs" using rd 2(3) by blast
      ultimately show ?thesis using 2(1) Some es(2) unfolding k by auto
    qed
  qed
qed

lemma ethernetif_input_ok:
  assumes "pending s fs" and "list_all (\<lambda>f. length (snd f) \<le> 1536) fs" and "pbufs_ok alloc" and "length fs < n" and "armed s"
    and "one_round alloc (allocs s) fs = (ds, a, rest)" and "\<not> dm9000lock s" and "0 < dm9000input s"
  shows "\<not> readable dfuel alloc (allocs s) fs \<and> ethernetif_input n n dfuel D alloc s = Inl Still_Running \<or>
    (\<exists>ps s'. ethernetif_input n n dfuel D alloc s = Inr (ps, s') \<and> map chain_bytes ps = ds \<and> allocs s' = a \<and> pending s' rest \<and>
      \<not> dm9000lock s' \<and> dm9000input s' = dm9000input s - 1 \<and> tx (chip s') = tx (chip s) \<and> keep (chip s') = keep (chip s) \<and> armed s')"
proof -
  let ?s = "s\<lparr>dm9000input := dm9000input s - 1\<rparr>"
  have p: "pending ?s fs" "armed ?s" "one_round alloc (allocs ?s) fs = (ds, a, rest)" "\<not> dm9000lock ?s"
    using assms(1,5,6,7) by (simp_all add: pending_def armed_def)
  from input_loop_ok [OF p(1) assms(2-4) p(2-4) assms(4), of dfuel] show ?thesis
    using assms(7,8) by (auto simp: ethernetif_input_def ctl_eq_def)
qed

end

section \<open>The chip, as its data sheet describes it\<close>

text \<open>
  The DM9000 with its received frames as a stream of words, the words of the next packet to send, and the packets it has
  sent. A look at the stream (MRCMDX) leaves it, a read (MRCMD) takes a word. Setting bit 0 of TCR sends as
  many bytes of the buffer as TXPLH and TXPLL say; the bit of ISR that reports the end appears at the
  \<open>late c\<close>-th read from then on, and bits of ISR are cleared by writing ones. A software reset (bit 0
  of NCR) empties the buffers and sets the registers back. Through EPAR, EPCR and EPDR the registers of the PHY are reached.
  The interrupt pin is low (\<open>dm9k_int\<close> false) while an enabled interrupt is pending.
\<close>

record dm9k =
  regs :: "u16 \<Rightarrow> u16"
  phy :: "u16 \<Rightarrow> u16"
  rx_mem :: "u16 list"
  tx_mem :: "u16 list"
  sent_frames :: "u8 list list"
  busy :: nat
  late :: nat

definition reset_regs :: "u16 \<Rightarrow> u16" where
  "reset_regs r = (if r = DM9000_VIDL then 0x46 else if r = DM9000_VIDH then 0x0A
     else if r = DM9000_PIDL then 0x00 else if r = DM9000_PIDH then 0x90 else 0)"

definition dm9k_reset :: "dm9k \<Rightarrow> dm9k" where
  "dm9k_reset c = c\<lparr>regs := reset_regs, rx_mem := [], tx_mem := [], busy := 0\<rparr>"

definition dm9k_get :: "u16 \<Rightarrow> dm9k \<Rightarrow> u16 \<times> dm9k" where
  "dm9k_get r c =
     (if r = DM9000_MRCMDX then ((case rx_mem c of [] \<Rightarrow> 0 | w # _ \<Rightarrow> w), c)
      else if r = DM9000_MRCMD then (case rx_mem c of [] \<Rightarrow> (0, c) | w # ws \<Rightarrow> (w, c\<lparr>rx_mem := ws\<rparr>))
      else if r = DM9000_ISR then
        let c1 = (case busy c of
                0 \<Rightarrow> c
              | Suc 0 \<Rightarrow> c\<lparr>busy := 0, regs := (regs c)(r := regs c r OR 0x02)\<rparr>
              | Suc n \<Rightarrow> c\<lparr>busy := n\<rparr>)
        in (regs c1 r, c1)
      else (regs c r, c))"

definition dm9k_set :: "u16 \<Rightarrow> u16 \<Rightarrow> dm9k \<Rightarrow> dm9k" where
  "dm9k_set r v c =
     (if r = DM9000_MWCMD then c\<lparr>tx_mem := tx_mem c @ [v]\<rparr>
      else if r = DM9000_ISR then c\<lparr>regs := (regs c)(r := regs c r AND NOT v)\<rparr>
      else if r = DM9000_NCR then
        (if bit v 0 then dm9k_reset c else c\<lparr>regs := (regs c)(r := v)\<rparr>)
      else if r = DM9000_TCR then
        (if bit v 0
         then c\<lparr>tx_mem := [], busy := Suc (late c), sent_frames := sent_frames c @
           [take (unat (push_bit 8 (regs c DM9000_TXPLH) OR regs c DM9000_TXPLL)) (bytes_of (tx_mem c))]\<rparr>
         else c)
      else if r = DM9000_EPCR then
        (if v = 0x0C then c\<lparr>regs := (regs c)(DM9000_EPDRL := phy c (regs c DM9000_EPAR AND 0x3F) AND 0xFF,
             DM9000_EPDRH := drop_bit 8 (phy c (regs c DM9000_EPAR AND 0x3F)))\<rparr>
         else if v = 0x0A then c\<lparr>phy := (phy c)(regs c DM9000_EPAR AND 0x3F :=
             push_bit 8 (regs c DM9000_EPDRH) OR regs c DM9000_EPDRL)\<rparr>
         else c)
      else c\<lparr>regs := (regs c)(r := v)\<rparr>)"

definition dm9k_int :: "dm9k \<Rightarrow> bool" where
  "dm9k_int c \<longleftrightarrow> regs c DM9000_ISR AND regs c DM9000_IMR AND 0x0F = 0"

definition dm9k_chip :: "dm9k dm_chip" where
  "dm9k_chip = \<lparr>dm_get = dm9k_get, dm_set = dm9k_set,
     dm_rst = (\<lambda>level c. if level then c else dm9k_reset c), dm_int = dm9k_int\<rparr>"

text \<open>No packet is on its way and the bit that reports the end of one is clear.\<close>

definition idle :: "dm9k \<Rightarrow> bool" where
  "idle c \<longleftrightarrow> busy c = 0 \<and> regs c DM9000_ISR AND 0x02 = 0"

lemma and_not_and: "(x :: u16) AND y = 0 \<Longrightarrow> (x AND NOT v) AND y = 0"
  by (metis and.assoc and.commute and_zero_eq)

interpretation dm9: eth_chip dm9k_chip idle rx_mem tx_mem "\<lambda>c. regs c DM9000_IMR" "\<lambda>c. c\<lparr>tx_mem := []\<rparr>"
  "\<lambda>c. (sent_frames c, late c)"
  by unfold_locales
     (auto simp: dm9k_chip_def dm9k_get_def dm9k_set_def idle_def and_not_and split: list.splits)

section \<open>Sending\<close>

lemma sent_wait_ok:
  assumes "busy (chip s) = Suc n" and "Suc n \<le> fuel" and "regs (chip s) DM9000_ISR AND 0x02 = 0"
  shows "sent_wait fuel dm9k_chip s = Inr (s\<lparr>REG := DM9000_ISR, chip := (chip s)\<lparr>busy := 0,
    regs := (regs (chip s))(DM9000_ISR := regs (chip s) DM9000_ISR OR 0x02)\<rparr>\<rparr>)"
  using assms
proof (induction n arbitrary: s fuel)
  case 0
  then obtain f where f: "fuel = Suc f" by (cases fuel) auto
  have "(x OR 2 :: u16) AND 2 \<noteq> 0" for x :: u16
  proof
    assume "(x OR 2) AND 2 = 0"
    then have "bit ((x OR 2) AND 2) 1 = bit (0 :: u16) 1" by simp
    then show False by (simp add: bit_and_iff bit_or_iff bit_2_iff)
  qed
  then show ?case using 0
    by (simp add: f DM9000_ReadReg_def get_DATA_def dm9k_chip_def dm9k_get_def Let_def fun_upd_def)
next
  case (Suc n)
  then obtain f where f: "fuel = Suc f" by (cases fuel) auto
  let ?s = "s\<lparr>REG := DM9000_ISR, chip := (chip s)\<lparr>busy := Suc n\<rparr>\<rparr>"
  have "DM9000_ReadReg dm9k_chip DM9000_ISR s = (regs (chip s) DM9000_ISR, ?s)"
    using Suc.prems by (simp add: DM9000_ReadReg_def get_DATA_def dm9k_chip_def dm9k_get_def Let_def)
  then show ?case using Suc.IH [of ?s f] Suc.prems by (simp add: f)
qed

lemma length_word_split:
  assumes "n < 65536"
  shows "unat (push_bit 8 (drop_bit 8 (of_nat n :: u16) AND 0xFF) OR (of_nat n AND 0xFF)) = n"
proof -
  have "push_bit 8 (drop_bit 8 (w :: u16) AND 0xFF) OR (w AND 0xFF) = w" for w
    unfolding u16_mask
    by (rule bit_word_eqI)
       (simp only: bit_or_iff bit_push_bit_iff bit_take_bit_iff bit_drop_bit_eq comp_apply, auto simp: possible_bit_def not_less)
  then show ?thesis using assms by (simp add: unat_of_nat)
qed

lemma clear_bit1:
  "((x OR 2) AND NOT 2) AND 2 = (0 :: u16)" and clear_bit1_0: "bit ((x OR 2) AND NOT 2 :: u16) 0 = bit x 0"
proof -
  show "((x OR 2) AND NOT 2) AND 2 = (0 :: u16)"
    by (rule bit_word_eqI) (simp only: bit_and_iff bit_or_iff bit_not_iff bit_0_eq, auto)
  show "bit ((x OR 2) AND NOT 2 :: u16) 0 = bit x 0"
    by (simp only: bit_and_iff bit_or_iff bit_not_iff bit_2_iff) (simp add: possible_bit_def)
qed

definition can_send :: "dm9k dm \<Rightarrow> pbuf list \<Rightarrow> nat \<Rightarrow> bool" where
  "can_send s p fuel \<longleftrightarrow> \<not> dm9000lock s \<and> tx_mem (chip s) = [] \<and> idle (chip s) \<and>
     late (chip s) < fuel \<and> p \<noteq> [] \<and> (\<forall>q \<in> set p. unat (pbuf_len q) \<le> length (payload q)) \<and>
     length (chain_bytes p) < 65536 \<and> tot_len (hd p) = of_nat (length (chain_bytes p))"

lemma DM9000_SendPacket_ok:
  assumes c: "can_send s p fuel"
  shows "\<exists>s'. DM9000_SendPacket fuel dm9k_chip p s = Inr s' \<and>
    sent_frames (chip s') = sent_frames (chip s) @ [chain_bytes p] \<and> tx_mem (chip s') = [] \<and>
    rx_mem (chip s') = rx_mem (chip s) \<and> regs (chip s') DM9000_ISR = (regs (chip s) DM9000_ISR OR 0x02) AND NOT 0x02 \<and>
    regs (chip s') DM9000_IMR = ucast (imr_all (dm9000cfg s)) \<and> \<not> dm9000lock s' \<and> busy (chip s') = 0 \<and> late (chip s') = late (chip s) \<and>
    dm9000cfg s' = dm9000cfg s \<and> dm9000input s' = dm9000input s \<and> allocs s' = allocs s"
proof -
  note o = c [unfolded can_send_def idle_def]
  obtain q qs where p: "p = q # qs" using o by (cases p) auto
  let ?k = "length (chain_bytes p)"
  define c0 where "c0 = (chip s)\<lparr>regs := (regs (chip s))(DM9000_IMR := 0x80)\<rparr>"
  define s2 where "s2 = s\<lparr>dm9000lock := True, chip := c0, REG := DM9000_MWCMD\<rparr>"
  have s2: "(DM9000_WriteReg dm9k_chip DM9000_IMR 0x80 (s\<lparr>dm9000lock := True\<rparr>))\<lparr>REG := DM9000_MWCMD\<rparr> = s2"
    by (simp add: s2_def c0_def DM9000_WriteReg_def set_DATA_def dm9k_chip_def dm9k_set_def)
  have "idle (chip s2)" using o by (simp add: s2_def c0_def idle_def)
  have "REG s2 = DM9000_MWCMD" by (simp add: s2_def)
  have room: "\<forall>q \<in> set p. unat (pbuf_len q) \<le> length (payload q)" using o by blast
  obtain w ca cb where snd: "send_chain dm9k_chip p None s2 = Inr (w, s2\<lparr>chip := ca\<rparr>)"
      "(case w of None \<Rightarrow> s2\<lparr>chip := ca\<rparr> | Some b \<Rightarrow> set_DATA dm9k_chip (ucast b) (s2\<lparr>chip := ca\<rparr>)) = s2\<lparr>chip := cb\<rparr>"
      "idle cb" "rx_mem cb = rx_mem (chip s2)"
      "cb\<lparr>tx_mem := []\<rparr> = (chip s2)\<lparr>tx_mem := []\<rparr>" "tx_mem cb = tx_mem (chip s2) @ words (chain_bytes p)"
    by (rule dm9.send_chain_complete [OF \<open>idle (chip s2)\<close> \<open>REG s2 = DM9000_MWCMD\<close> room])
  have cb: "cb = c0\<lparr>tx_mem := words (chain_bytes p)\<rparr>"
  proof -
    have "cb = cb\<lparr>tx_mem := []\<rparr>\<lparr>tx_mem := tx_mem cb\<rparr>" by simp
    also have "\<dots> = c0\<lparr>tx_mem := words (chain_bytes p)\<rparr>"
      unfolding snd(5,6) using o by (simp add: s2_def c0_def)
    finally show ?thesis .
  qed
  have tl: "tot_len q = of_nat ?k" using o by (simp add: p)
  have cs: "(case p of [] \<Rightarrow> a | x # _ \<Rightarrow> F x) = F q" for a and F :: "pbuf \<Rightarrow> fault + dm9k dm" by (simp add: p)
  let ?lo = "of_nat ?k AND 0xFF :: u16" and ?hi = "drop_bit 8 (of_nat ?k) AND 0xFF :: u16"
  define rg where "rg = (regs c0)(DM9000_TXPLL := ?lo, DM9000_TXPLH := ?hi)"
  define c7 where "c7 = c0\<lparr>regs := rg, tx_mem := [], busy := Suc (late c0), sent_frames := sent_frames c0 @ [chain_bytes p]\<rparr>"
  have "take ?k (bytes_of (words (chain_bytes p))) = chain_bytes p" by (simp add: bytes_of_words)
  then have tx: "take (unat (push_bit 8 (rg DM9000_TXPLH) OR rg DM9000_TXPLL)) (bytes_of (words (chain_bytes p))) = chain_bytes p"
    using length_word_split [of ?k] o by (simp add: rg_def)
  have s7: "DM9000_WriteReg dm9k_chip DM9000_TCR 0x01 (DM9000_WriteReg dm9k_chip DM9000_TXPLH ?hi
      (DM9000_WriteReg dm9k_chip DM9000_TXPLL ?lo (s2\<lparr>chip := cb\<rparr>))) = s2\<lparr>chip := c7, REG := DM9000_TCR\<rparr>"
    using tx by (simp add: DM9000_WriteReg_def set_DATA_def dm9k_chip_def dm9k_set_def cb c7_def rg_def)
  let ?s7 = "s2\<lparr>chip := c7, REG := DM9000_TCR\<rparr>"
  have isr: "regs c7 DM9000_ISR = regs (chip s) DM9000_ISR" by (simp add: c7_def rg_def c0_def)
  have "busy (chip ?s7) = Suc (late (chip s))" by (simp add: c7_def c0_def)
  from sent_wait_ok [OF this, of fuel] o isr have s8: "sent_wait fuel dm9k_chip ?s7 =
      Inr (?s7\<lparr>REG := DM9000_ISR, chip := c7\<lparr>busy := 0, regs := (regs c7)(DM9000_ISR := regs c7 DM9000_ISR OR 0x02)\<rparr>\<rparr>)"
    by simp
  have pend: "mutex_pend s = Inr (s\<lparr>dm9000lock := True\<rparr>)" using o by (simp add: mutex_pend_def)
  have "DM9000_SendPacket fuel dm9k_chip p s = Inr (mutex_post (DM9000_WriteReg dm9k_chip DM9000_IMR
      (ucast (imr_all (dm9000cfg s))) (DM9000_WriteReg dm9k_chip DM9000_ISR 0x02
        (?s7\<lparr>REG := DM9000_ISR, chip := c7\<lparr>busy := 0, regs := (regs c7)(DM9000_ISR := regs c7 DM9000_ISR OR 0x02)\<rparr>\<rparr>))))"
    unfolding DM9000_SendPacket_def pend ebind_Inr Let_def s2 snd(1) prod.case snd(2) cs tl s7 s8
    by (simp add: s2_def DM9000_WriteReg_def set_DATA_def)
  then show ?thesis
    by (simp add: mutex_post_def DM9000_WriteReg_def set_DATA_def dm9k_chip_def dm9k_set_def s2_def c7_def rg_def c0_def)
qed

end
