(* ===== verification/EthRun.thy ===== *)
theory EthRun
  imports EthChip
begin

text \<open>
  The Ethernet driver at work: frames arrive in the chip, the interrupt handler signals the input task, the task
  feeds the network stack, and packets are sent, in any order. The runs are an inductive relation; the
  invariant says that nothing is lost, repeated or reordered, and that no wake-up is missed. Also the
  start-up, and the two ways in which the receiver stops for good.
\<close>

section \<open>Start-up\<close>

text \<open>The driver between two operations.\<close>

definition eth_ready :: "dm9k dm \<Rightarrow> bool" where
  "eth_ready s \<longleftrightarrow> \<not> dm9000lock s \<and> idle (chip s) \<and> tx_mem (chip s) = [] \<and> imr_all (dm9000cfg s) = 0x81 \<and>
     regs (chip s) DM9000_IMR = 0x81"

lemmas reg_simps = DM9000_ReadReg_def DM9000_WriteReg_def get_DATA_def set_DATA_def dm9k_chip_def dm9k_get_def dm9k_set_def

text \<open>The registers of the PHY interface may change, all else stays.\<close>

definition phy_regs :: "u16 set" where
  "phy_regs = {DM9000_EPCR, DM9000_EPAR, DM9000_EPDRL, DM9000_EPDRH}"

definition but_phy :: "dm9k dm \<Rightarrow> dm9k dm" where
  "but_phy s = s\<lparr>REG := 0, chip := (chip s)\<lparr>regs := (\<lambda>r. if r \<in> phy_regs then 0 else regs (chip s) r), phy := (\<lambda>_. 0)\<rparr>\<rparr>"

lemma read_plain:
  assumes "r \<noteq> DM9000_MRCMDX" and "r \<noteq> DM9000_MRCMD" and "r \<noteq> DM9000_ISR"
  shows "DM9000_ReadReg dm9k_chip r s = (regs (chip s) r, s\<lparr>REG := r\<rparr>)"
proof -
  have "dm_get dm9k_chip r (chip s) = (regs (chip s) r, chip s)"
    using assms by (simp add: dm9k_chip_def dm9k_get_def)
  then show ?thesis by (simp add: DM9000_ReadReg_def get_DATA_def)
qed

lemma but_phy_REG [simp]: "but_phy (s\<lparr>REG := r\<rparr>) = but_phy s"
  by (simp add: but_phy_def cong: if_cong)

lemma but_phy_write: "r \<in> phy_regs \<Longrightarrow> but_phy (DM9000_WriteReg dm9k_chip r v s) = but_phy s"
  by (auto simp: but_phy_def reg_simps phy_regs_def fun_eq_iff)

lemma but_phy_PHY_ReadReg: "but_phy (snd (DM9000_PHY_ReadReg dm9k_chip r s)) = but_phy s"
  by (simp add: DM9000_PHY_ReadReg_def Let_def read_plain but_phy_write phy_regs_def)

lemma but_phy_PHY_WriteReg: "but_phy (DM9000_PHY_WriteReg dm9k_chip r v s) = but_phy s"
  by (simp add: DM9000_PHY_WriteReg_def Let_def but_phy_write phy_regs_def)

lemma but_phy_link_wait:
  assumes "\<And>s. but_phy (snd (look s)) = but_phy s"
  shows "but_phy (snd (link_wait look n s)) = but_phy s"
proof (induction n arbitrary: s)
  case (Suc n)
  show ?case
    using assms [of s] Suc.IH [of "snd (look s)"] by (auto simp: Let_def split: prod.split)
qed simp

lemma but_phy_fields:
  assumes "but_phy s' = but_phy s"
  shows "dm9000lock s' = dm9000lock s" and "dm9000cfg s' = dm9000cfg s" and "dm9000input s' = dm9000input s"
    and "rx_mem (chip s') = rx_mem (chip s)" and "tx_mem (chip s') = tx_mem (chip s)" and "busy (chip s') = busy (chip s)"
    and "late (chip s') = late (chip s)" and "sent_frames (chip s') = sent_frames (chip s)" and "allocs s' = allocs s"
    and "r \<notin> phy_regs \<Longrightarrow> regs (chip s') r = regs (chip s) r"
proof -
  show "dm9000lock s' = dm9000lock s" using arg_cong [OF assms, of dm9000lock] by (simp add: but_phy_def)
  show "dm9000cfg s' = dm9000cfg s" using arg_cong [OF assms, of dm9000cfg] by (simp add: but_phy_def)
  show "dm9000input s' = dm9000input s" using arg_cong [OF assms, of dm9000input] by (simp add: but_phy_def)
  show "allocs s' = allocs s" using arg_cong [OF assms, of allocs] by (simp add: but_phy_def)
  have c: "chip (but_phy s') = chip (but_phy s)" using assms by simp
  show "rx_mem (chip s') = rx_mem (chip s)" using arg_cong [OF c, of rx_mem] by (simp add: but_phy_def)
  show "tx_mem (chip s') = tx_mem (chip s)" using arg_cong [OF c, of tx_mem] by (simp add: but_phy_def)
  show "busy (chip s') = busy (chip s)" using arg_cong [OF c, of busy] by (simp add: but_phy_def)
  show "late (chip s') = late (chip s)" using arg_cong [OF c, of late] by (simp add: but_phy_def)
  show "sent_frames (chip s') = sent_frames (chip s)" using arg_cong [OF c, of sent_frames] by (simp add: but_phy_def)
  show "r \<notin> phy_regs \<Longrightarrow> regs (chip s') r = regs (chip s) r"
    using arg_cong [OF c, of "\<lambda>c. regs c r"] by (simp add: but_phy_def)
qed

lemma but_phy_speed: "but_phy (snd (DM9000_Get_SpeedAndDuplex dm9k_chip s)) = but_phy s"
proof -
  let ?pl = "\<lambda>s. let (v, s1) = DM9000_PHY_ReadReg dm9k_chip 0x01 s in (v AND 0x0020 \<noteq> 0, s1)"
  let ?nl = "\<lambda>s. let (v, s1) = DM9000_ReadReg dm9k_chip DM9000_NSR s in (v AND 0x40 \<noteq> 0, s1)"
  have "but_phy (snd (link_wait ?pl n s)) = but_phy s" for n s
    by (rule but_phy_link_wait) (metis (mono_tags, lifting) but_phy_PHY_ReadReg case_prod_beta snd_conv)
  moreover have "but_phy (snd (link_wait ?nl n s)) = but_phy s" for n s
    by (rule but_phy_link_wait) (simp add: read_plain)
  moreover define W where "W = (if cfg_mode (dm9000cfg s) = DM9000_AUTO then link_wait ?pl 101 s else link_wait ?nl 101 s)"
  ultimately have b: "but_phy (snd W) = but_phy s" by (simp only: W_def split: if_split) blast
  obtain r s1 where w: "W = (r, s1)" by (cases W)
  show ?thesis
    unfolding DM9000_Get_SpeedAndDuplex_def W_def [symmetric] w using b w
    by (simp add: read_plain Let_def)
qed

lemma write_plain:
  "r \<notin> {DM9000_MWCMD, DM9000_ISR, DM9000_NCR, DM9000_TCR, DM9000_EPCR} \<Longrightarrow>
   DM9000_WriteReg dm9k_chip r v s = s\<lparr>REG := r, chip := (chip s)\<lparr>regs := (regs (chip s))(r := v)\<rparr>\<rparr>"
  by (simp add: DM9000_WriteReg_def set_DATA_def dm9k_chip_def dm9k_set_def)

lemma DM9000_Reset_ok:
  assumes "0 < fuel"
  shows "DM9000_Reset fuel dm9k_chip s = Inr (s\<lparr>REG := DM9000_NCR, chip := dm9k_reset (chip s)\<rparr>)"
proof -
  obtain n where n: "fuel = Suc n" using assms by (cases fuel) auto
  have w: "DM9000_WriteReg dm9k_chip DM9000_NCR (0x02 OR 0x01) t = t\<lparr>REG := DM9000_NCR, chip := dm9k_reset (chip t)\<rparr>" for t
    by (simp add: DM9000_WriteReg_def set_DATA_def dm9k_chip_def dm9k_set_def)
  have z: "DM9000_WriteReg dm9k_chip DM9000_NCR 0 t = t\<lparr>REG := DM9000_NCR, chip := (chip t)\<lparr>regs := (regs (chip t))(DM9000_NCR := 0)\<rparr>\<rparr>" for t
    by (simp add: DM9000_WriteReg_def set_DATA_def dm9k_chip_def dm9k_set_def)
  have r: "reset_wait fuel dm9k_chip (t\<lparr>REG := DM9000_NCR, chip := dm9k_reset c\<rparr>) =
      Inr (t\<lparr>REG := DM9000_NCR, chip := dm9k_reset c\<rparr>)" for t c
    by (simp add: n read_plain dm9k_reset_def reset_regs_def)
  have rr: "dm9k_reset (dm9k_reset c) = dm9k_reset c" "dm9k_reset ((c :: dm9k)\<lparr>regs := f\<rparr>) = dm9k_reset c" for c f
    by (simp_all add: dm9k_reset_def)
  have rst: "dm_rst dm9k_chip True (dm_rst dm9k_chip False c) = dm9k_reset c" for c by (simp add: dm9k_chip_def)
  show ?thesis
    unfolding DM9000_Reset_def Let_def w z rst by (simp add: write_plain rr r del: reset_wait.simps)
qed

lemma DM9000_Get_DeiviceID_ok:
  assumes "regs (chip s) = reset_regs"
  shows "DM9000_Get_DeiviceID dm9k_chip s = (0x90000A46, s\<lparr>REG := DM9000_PIDH\<rparr>)"
  using assms by (simp add: DM9000_Get_DeiviceID_def read_plain reset_regs_def)

lemma write_special:
  "DM9000_WriteReg dm9k_chip DM9000_NCR 0 s = s\<lparr>REG := DM9000_NCR, chip := (chip s)\<lparr>regs := (regs (chip s))(DM9000_NCR := 0)\<rparr>\<rparr>"
  "DM9000_WriteReg dm9k_chip DM9000_TCR 0 s = s\<lparr>REG := DM9000_TCR\<rparr>"
  "DM9000_WriteReg dm9k_chip DM9000_ISR v s =
     s\<lparr>REG := DM9000_ISR, chip := (chip s)\<lparr>regs := (regs (chip s))(DM9000_ISR := regs (chip s) DM9000_ISR AND NOT v)\<rparr>\<rparr>"
  by (simp_all add: DM9000_WriteReg_def set_DATA_def dm9k_chip_def dm9k_set_def)

lemma write_mac:
  "write_regs dm9k_chip DM9000_PAR [a, b, c, d, e, f] s = s\<lparr>REG := 0x15, chip := (chip s)\<lparr>regs := (regs (chip s))
     (0x10 := ucast a, 0x11 := ucast b, 0x12 := ucast c, 0x13 := ucast d, 0x14 := ucast e, 0x15 := ucast f)\<rparr>\<rparr>"
  by (simp add: write_plain)

lemma write_multicast:
  "write_regs dm9k_chip DM9000_MAR [a, b, c, d, e, f, g, h] s = s\<lparr>REG := 0x1D, chip := (chip s)\<lparr>regs := (regs (chip s))
     (0x16 := ucast a, 0x17 := ucast b, 0x18 := ucast c, 0x19 := ucast d, 0x1A := ucast e, 0x1B := ucast f,
      0x1C := ucast g, 0x1D := ucast h)\<rparr>\<rparr>"
  by (simp add: write_plain)

lemma DM9000_Set_PHYMode_ok:
  "\<exists>t. but_phy t = but_phy s \<and> DM9000_Set_PHYMode dm9k_chip junk m s =
     t\<lparr>REG := DM9000_GPR, chip := (chip t)\<lparr>regs := (regs (chip t))(DM9000_GPR := 0)\<rparr>\<rparr>"
proof -
  have "but_phy (DM9000_PHY_WriteReg dm9k_chip 0x04 y (DM9000_PHY_WriteReg dm9k_chip 0x00 x s)) = but_phy s" for x y
    by (simp only: but_phy_PHY_WriteReg)
  moreover have "\<exists>x y. DM9000_Set_PHYMode dm9k_chip junk m s =
      DM9000_WriteReg dm9k_chip DM9000_GPR 0 (DM9000_PHY_WriteReg dm9k_chip 0x04 y (DM9000_PHY_WriteReg dm9k_chip 0x00 x s))"
    unfolding DM9000_Set_PHYMode_def by (simp only: Let_def split: prod.split) blast
  moreover have "DM9000_WriteReg dm9k_chip DM9000_GPR 0 t =
      t\<lparr>REG := DM9000_GPR, chip := (chip t)\<lparr>regs := (regs (chip t))(DM9000_GPR := 0)\<rparr>\<rparr>" for t
    by (rule write_plain) simp
  ultimately show ?thesis by metis
qed

lemma DM9000_Init_ok:
  assumes "0 < fuel" and "\<not> dm9000lock s"
  shows "\<exists>s'. DM9000_Init fuel dm9k_chip junk uid s = Inr (0, s') \<and> eth_ready s' \<and> rx_mem (chip s') = [] \<and>
    late (chip s') = late (chip s) \<and> sent_frames (chip s') = sent_frames (chip s) \<and> dm9000input s' = dm9000input s \<and>
    dm9000cfg s' = init_config uid \<and>
    map (regs (chip s')) [0x10, 0x11, 0x12, 0x13, 0x14, 0x15] = map ucast (mac_addr (init_config uid)) \<and>
    regs (chip s') DM9000_RCR = 0x31"
proof -
  define s1 where "s1 = s\<lparr>dm9000cfg := init_config uid, REG := DM9000_PIDH, chip := dm9k_reset (chip s)\<rparr>"
  obtain t where t: "but_phy t = but_phy s1" "DM9000_Set_PHYMode dm9k_chip junk (cfg_mode (dm9000cfg s1)) s1 =
      t\<lparr>REG := DM9000_GPR, chip := (chip t)\<lparr>regs := (regs (chip t))(DM9000_GPR := 0)\<rparr>\<rparr>"
    using DM9000_Set_PHYMode_ok by blast
  note f = but_phy_fields [OF t(1)]
  have cfg: "dm9000cfg t = init_config uid" using f(2) by (simp add: s1_def)
  obtain m2 m3 m4 m5 where mac: "mac_addr (init_config uid) = [2, 0, m2, m3, m4, m5]" by (simp add: init_config_def)
  note mm = mac [unfolded init_config_def dm9000_config.simps list.inject]
  have mc: "multicase_addr (init_config uid) = [0xFF, 0xFF, 0xFF, 0xFF, 0xFF, 0xFF, 0xFF, 0xFF]"
    by (simp add: init_config_def eval_nat_numeral)
  define rg where "rg = (regs (chip t))(DM9000_GPR := 0, DM9000_NCR := 0, DM9000_BPTR := 0x3F, DM9000_FCTR := 0x38,
    DM9000_FCR := 0, DM9000_SMCR := 0, DM9000_NSR := 0x2C)"
  define rg2 where "rg2 = rg(DM9000_ISR := rg DM9000_ISR AND NOT 0x0F, DM9000_TCR2 := 0x80,
    0x10 := 2, 0x11 := 0, 0x12 := ucast m2, 0x13 := ucast m3, 0x14 := ucast m4, 0x15 := ucast m5,
    0x16 := 0xFF, 0x17 := 0xFF, 0x18 := 0xFF, 0x19 := 0xFF, 0x1A := 0xFF, 0x1B := 0xFF, 0x1C := 0xFF, 0x1D := 0xFF,
    DM9000_RCR := 0x31, DM9000_IMR := 0x80)"
  define s8 where "s8 = t\<lparr>REG := DM9000_IMR, chip := (chip t)\<lparr>regs := rg2\<rparr>\<rparr>"
  define s9 where "s9 = snd (DM9000_Get_SpeedAndDuplex dm9k_chip s8)"
  have "but_phy s9 = but_phy s8" unfolding s9_def by (rule but_phy_speed)
  note g = but_phy_fields [OF this]
  let ?t = "t\<lparr>REG := DM9000_GPR, chip := (chip t)\<lparr>regs := (regs (chip t))(DM9000_GPR := 0)\<rparr>\<rparr>"
  have s4: "fold (\<lambda>(r, v). DM9000_WriteReg dm9k_chip r v)
      [(DM9000_NCR, 0x00), (DM9000_TCR, 0x00), (DM9000_BPTR, 0x3F), (DM9000_FCTR, 0x38), (DM9000_FCR, 0x00),
       (DM9000_SMCR, 0x00), (DM9000_NSR, 0x20 OR 0x08 OR 0x04), (DM9000_ISR, 0x0F), (DM9000_TCR2, 0x80)] ?t =
      t\<lparr>REG := DM9000_TCR2, chip := (chip t)\<lparr>regs := rg(DM9000_ISR := rg DM9000_ISR AND NOT 0x0F, DM9000_TCR2 := 0x80)\<rparr>\<rparr>"
    by (simp add: write_special write_plain rg_def)
  let ?s4 = "t\<lparr>REG := DM9000_TCR2, chip := (chip t)\<lparr>regs := rg(DM9000_ISR := rg DM9000_ISR AND NOT 0x0F, DM9000_TCR2 := 0x80)\<rparr>\<rparr>"
  let ?s5 = "write_regs dm9k_chip DM9000_PAR [2, 0, m2, m3, m4, m5] ?s4"
  let ?s6 = "write_regs dm9k_chip DM9000_MAR [0xFF, 0xFF, 0xFF, 0xFF, 0xFF, 0xFF, 0xFF, 0xFF] ?s5"
  have s5: "DM9000_Set_MACAddress dm9k_chip [2, 0, m2, m3, m4, m5] ?s4 = Inr ?s5"
    unfolding DM9000_Set_MACAddress_def by (simp add: get_bytes_ok)
  have s6: "DM9000_Set_Multicast dm9k_chip [0xFF, 0xFF, 0xFF, 0xFF, 0xFF, 0xFF, 0xFF, 0xFF] ?s5 = Inr ?s6"
    unfolding DM9000_Set_Multicast_def by (simp add: get_bytes_ok)
  have s8: "DM9000_WriteReg dm9k_chip DM9000_IMR 0x80 (DM9000_WriteReg dm9k_chip DM9000_RCR (0x20 OR 0x10 OR 0x01) ?s6) = s8"
    unfolding write_mac write_multicast by (simp add: write_plain s8_def rg2_def)
  have c: "dm9000cfg ?s4 = init_config uid" "dm9000cfg ?s5 = init_config uid"
    using cfg by (simp_all add: write_plain s1_def)
  have rs: "DM9000_Reset fuel dm9k_chip (s\<lparr>dm9000cfg := init_config uid\<rparr>) =
      Inr (s\<lparr>dm9000cfg := init_config uid, REG := DM9000_NCR, chip := dm9k_reset (chip s)\<rparr>)"
    using DM9000_Reset_ok [OF assms(1), of "s\<lparr>dm9000cfg := init_config uid\<rparr>"] by simp
  have gi: "DM9000_Get_DeiviceID dm9k_chip (s\<lparr>dm9000cfg := init_config uid, REG := DM9000_NCR, chip := dm9k_reset (chip s)\<rparr>) =
      (0x90000A46, s1)"
    by (subst DM9000_Get_DeiviceID_ok) (simp_all add: dm9k_reset_def s1_def)
  obtain sp where sp: "DM9000_Get_SpeedAndDuplex dm9k_chip s8 = (sp, s9)" unfolding s9_def by (cases "DM9000_Get_SpeedAndDuplex dm9k_chip s8") simp
  have "DM9000_Init fuel dm9k_chip junk uid s = Inr (0, DM9000_WriteReg dm9k_chip DM9000_IMR (ucast (imr_all (dm9000cfg s9))) s9)"
    unfolding DM9000_Init_def rs ebind_Inr Let_def gi prod.case t(2) s4 c mac s5 mc s6 s8 sp by simp
  moreover have "DM9000_WriteReg dm9k_chip DM9000_IMR (ucast (imr_all (dm9000cfg s9))) s9 =
      s9\<lparr>REG := DM9000_IMR, chip := (chip s9)\<lparr>regs := (regs (chip s9))(DM9000_IMR := 0x81)\<rparr>\<rparr>"
  proof -
    have "imr_all (dm9000cfg s9) = 0x81" using g(2) cfg by (simp add: s8_def init_config_def)
    then show ?thesis by (simp add: write_plain)
  qed
  moreover have "regs (chip s9) r = rg2 r" if "r \<notin> phy_regs" for r using g(10) that by (simp add: s8_def)
  moreover have "rg DM9000_ISR = 0"
    using f(10) by (simp add: rg_def phy_regs_def s1_def dm9k_reset_def reset_regs_def)
  ultimately show ?thesis
    using f g cfg assms(2) mm
    by (simp add: eth_ready_def idle_def s8_def s1_def dm9k_reset_def phy_regs_def rg2_def init_config_def mac)
qed

section \<open>Runs\<close>

text \<open>A frame from the network: its words are appended to the memory of the chip and the receive bit of ISR is set.\<close>

definition frame_arrives :: "frame \<Rightarrow> dm9k dm \<Rightarrow> dm9k dm" where
  "frame_arrives f s = s\<lparr>chip := (chip s)\<lparr>rx_mem := rx_mem (chip s) @ frame_words f,
     regs := (regs (chip s))(DM9000_ISR := regs (chip s) DM9000_ISR OR 0x01)\<rparr>\<rparr>"

text \<open>
  The runs of the driver from a ready state \<open>s0\<close> without received frames: the state, the frames that have
  arrived, the packets the network stack has got, and those sent. Every operation takes as much fuel as it
  likes, as long as it is enough; when a reception ends is said by \<open>round_ok\<close> below (no operation faults, and only a frame of odd length
  for which there is no buffer can keep it for ever).
\<close>

inductive eth_run :: "(nat \<Rightarrow> u16 \<Rightarrow> pbuf list option) \<Rightarrow> dm9k dm \<Rightarrow> dm9k dm \<Rightarrow> frame list \<Rightarrow> u8 list list \<Rightarrow> u8 list list \<Rightarrow> bool"
  for alloc s0 where
  start: "eth_ready s0 \<Longrightarrow> rx_mem (chip s0) = [] \<Longrightarrow> eth_run alloc s0 s0 [] [] []"
| arrival: "eth_run alloc s0 s fs ds ts \<Longrightarrow> length (snd f) \<le> 1536 \<Longrightarrow> eth_run alloc s0 (frame_arrives f s) (fs @ [f]) ds ts"
| interrupt: "eth_run alloc s0 s fs ds ts \<Longrightarrow> \<not> dm_int dm9k_chip (chip s) \<Longrightarrow>
    eth_run alloc s0 (DMA9000_ISRHandler dm9k_chip s) fs ds ts"
| receive: "eth_run alloc s0 s fs ds ts \<Longrightarrow> length fs < n \<Longrightarrow> ethernetif_input n n m dm9k_chip alloc s = Inr (ps, s') \<Longrightarrow>
    eth_run alloc s0 s' fs (ds @ map chain_bytes ps) ts"
| transmit: "eth_run alloc s0 s fs ds ts \<Longrightarrow> can_send s p n \<Longrightarrow> low_level_output n dm9k_chip p s = Inr (e, s') \<Longrightarrow>
    eth_run alloc s0 s' fs ds (ts @ [chain_bytes p])"

inductive_cases interruptE: "eth_run alloc s0 (DMA9000_ISRHandler dm9k_chip s) fs ds ts"

definition rx_pending :: "dm9k dm \<Rightarrow> frame list \<Rightarrow> bool" where
  "rx_pending s fs \<longleftrightarrow> rx_mem (chip s) = concat (map frame_words fs)"

lemma pending_dm9: "dm9.pending s fs \<longleftrightarrow> idle (chip s) \<and> rx_pending s fs"
  by (simp add: dm9.pending_def rx_pending_def)

text \<open>The task is going to look: it has been signalled, or the interrupt will do it.\<close>

definition will_wake :: "dm9k dm \<Rightarrow> bool" where
  "will_wake s \<longleftrightarrow> 0 < dm9000input s \<or> (bit (regs (chip s) DM9000_ISR) 0 \<and> \<not> dm_int dm9k_chip (chip s))"

text \<open>The last frame taken out of the chip was good and got no buffer: this ends the round of the input task.\<close>

definition last_dropped :: "(nat \<Rightarrow> u16 \<Rightarrow> pbuf list option) \<Rightarrow> dm9k dm \<Rightarrow> frame list \<Rightarrow> bool" where
  "last_dropped alloc s old \<longleftrightarrow> old \<noteq> [] \<and> good (last old) \<and> \<not> granted alloc (allocs s - 1) (last old)"

definition eth_inv :: "(nat \<Rightarrow> u16 \<Rightarrow> pbuf list option) \<Rightarrow> dm9k dm \<Rightarrow> dm9k dm \<Rightarrow> frame list \<Rightarrow> u8 list list \<Rightarrow> u8 list list \<Rightarrow> bool" where
  "eth_inv alloc s0 s fs ds ts \<longleftrightarrow> eth_ready s \<and> sent_frames (chip s) = sent_frames (chip s0) @ ts \<and>
     (\<exists>old new. fs = old @ new \<and> rx_pending s new \<and> list_all (\<lambda>f. length (snd f) \<le> 1536) new \<and>
        allocs s = allocs s0 + length old \<and> ds = got alloc (allocs s0) old \<and>
        (new \<noteq> [] \<longrightarrow> 0 < dm9000input s \<or> bit (regs (chip s) DM9000_ISR) 0 \<or> last_dropped alloc s old))"

lemma masked_bit: "bit (x :: u16) 0 \<Longrightarrow> x AND 1 \<noteq> 0"
  by (simp add: and_one_eq bit_0 odd_iff_mod_2_eq_one)

lemma ready_interrupts: "eth_ready s \<Longrightarrow> bit (regs (chip s) DM9000_ISR) 0 \<Longrightarrow> \<not> dm_int dm9k_chip (chip s)"
  using masked_bit [of "regs (chip s) DM9000_ISR"]
  by (simp add: eth_ready_def dm9k_chip_def dm9k_int_def and.assoc)

lemma ISRHandler_ok:
  assumes "idle (chip s)"
  shows "DMA9000_ISRHandler dm9k_chip s = s\<lparr>chip := (chip s)\<lparr>regs := (regs (chip s))(DM9000_ISR := 0)\<rparr>,
    dm9000input := (if bit (regs (chip s) DM9000_ISR) 0 \<and> dm9000input s < 65535 then dm9000input s + 1 else dm9000input s)\<rparr>"
proof -
  let ?x = "regs (chip s) DM9000_ISR"
  have r: "DM9000_ReadReg dm9k_chip DM9000_ISR s = (?x, s\<lparr>REG := DM9000_ISR\<rparr>)"
    using assms by (simp add: idle_def DM9000_ReadReg_def get_DATA_def dm9k_chip_def dm9k_get_def Let_def)
  have "?x AND 0x01 \<noteq> 0 \<longleftrightarrow> bit ?x 0" by (simp add: and_one_eq bit_0 odd_iff_mod_2_eq_one)
  then show ?thesis by (simp add: DMA9000_ISRHandler_def r write_special sem_post_def Let_def)
qed

lemma frame_arrives_fields:
  "dm9000lock (frame_arrives f s) = dm9000lock s" "dm9000cfg (frame_arrives f s) = dm9000cfg s"
  "dm9000input (frame_arrives f s) = dm9000input s" "allocs (frame_arrives f s) = allocs s" "tx_mem (chip (frame_arrives f s)) = tx_mem (chip s)"
  "sent_frames (chip (frame_arrives f s)) = sent_frames (chip s)"
  "rx_mem (chip (frame_arrives f s)) = rx_mem (chip s) @ frame_words f"
  "regs (chip (frame_arrives f s)) DM9000_IMR = regs (chip s) DM9000_IMR"
  "bit (regs (chip (frame_arrives f s)) DM9000_ISR) 0"
  by (simp_all add: frame_arrives_def bit_or_iff)

lemma and_or_and: "(x :: u16) AND 2 = 0 \<Longrightarrow> (x OR 1) AND 2 = 0"
  by (simp add: bit.conj_disj_distrib2)

lemma frame_arrives_idle: "idle (chip s) \<Longrightarrow> idle (chip (frame_arrives f s))"
  by (simp add: idle_def frame_arrives_def and_or_and)

lemma inv_arrival:
  assumes "eth_inv alloc s0 s fs ds ts" and "length (snd f) \<le> 1536"
  shows "eth_inv alloc s0 (frame_arrives f s) (fs @ [f]) ds ts"
proof -
  from assms(1) obtain old new where o: "fs = old @ new" "rx_pending s new" "list_all (\<lambda>f. length (snd f) \<le> 1536) new"
    "allocs s = allocs s0 + length old" "ds = got alloc (allocs s0) old" unfolding eth_inv_def by blast
  have "rx_pending (frame_arrives f s) (new @ [f])" using o(2) by (simp add: rx_pending_def frame_arrives_fields)
  moreover have "eth_ready (frame_arrives f s)" "sent_frames (chip (frame_arrives f s)) = sent_frames (chip s0) @ ts"
    using assms(1) by (simp_all add: eth_inv_def eth_ready_def frame_arrives_fields frame_arrives_idle)
  ultimately show ?thesis
    using o assms(2) unfolding eth_inv_def
    by (intro conjI exI [of _ old] exI [of _ "new @ [f]"]) (simp_all add: frame_arrives_fields)
qed

lemma inv_interrupt:
  assumes "eth_inv alloc s0 s fs ds ts"
  shows "eth_inv alloc s0 (DMA9000_ISRHandler dm9k_chip s) fs ds ts"
proof -
  let ?t = "DMA9000_ISRHandler dm9k_chip s"
  have rd: "eth_ready s" and i: "idle (chip s)" using assms by (simp_all add: eth_inv_def eth_ready_def)
  note t = ISRHandler_ok [OF i]
  have "eth_ready ?t" "sent_frames (chip ?t) = sent_frames (chip s)" "rx_pending ?t new = rx_pending s new"
    "allocs ?t = allocs s"
    "0 < dm9000input s \<or> bit (regs (chip s) DM9000_ISR) 0 \<longleftrightarrow> 0 < dm9000input ?t" for new
    using rd unfolding t by (auto simp: eth_ready_def idle_def rx_pending_def)
  then show ?thesis using assms unfolding eth_inv_def last_dropped_def by auto
qed

text \<open>
  A round of the input task, from any state of a run: it ends, or has come to a frame without a buffer that it cannot read away; when it
  ends it has dealt with the next frames, all that wait unless it stopped behind a good frame for want of a buffer.
\<close>

lemma round_ok:
  assumes "eth_inv alloc s0 s fs ds ts" and al: "pbufs_ok alloc" and n: "length fs < n" and w: "0 < dm9000input s"
  obtains (never) "\<not> readable m alloc (allocs s) (drop (allocs s - allocs s0) fs)" "ethernetif_input n n m dm9k_chip alloc s = Inl Still_Running"
  | (ends) ps s' where "ethernetif_input n n m dm9k_chip alloc s = Inr (ps, s')" "eth_inv alloc s0 s' fs (ds @ map chain_bytes ps) ts"
      "allocs s0 + length fs \<le> allocs s \<or> allocs s < allocs s'"
      "allocs s' < allocs s0 + length fs \<longrightarrow> last_dropped alloc s' (take (allocs s' - allocs s0) fs)"
proof -
  from assms(1) obtain old new where o: "fs = old @ new" "rx_pending s new" "list_all (\<lambda>f. length (snd f) \<le> 1536) new"
    "allocs s = allocs s0 + length old" "ds = got alloc (allocs s0) old" and rd: "eth_ready s" "sent_frames (chip s) = sent_frames (chip s0) @ ts"
    unfolding eth_inv_def by blast
  have p: "dm9.pending s new" "dm9.armed s" and k: "\<not> dm9000lock s" "length new < n"
    using o(1,2) rd(1) n by (simp_all add: pending_dm9 eth_ready_def dm9.armed_def)
  obtain es a rest where e: "one_round alloc (allocs s) new = (es, a, rest)" by (cases "one_round alloc (allocs s) new")
  obtain k where k': "k \<le> length new" "a = allocs s + k" "rest = drop k new" "es = got alloc (allocs s) (take k new)" "new \<noteq> [] \<longrightarrow> 0 < k"
    "rest \<noteq> [] \<longrightarrow> good (new ! (k - 1)) \<and> \<not> granted alloc (allocs s + k - 1) (new ! (k - 1))"
    using one_round_split [OF e] by blast
  from dm9.ethernetif_input_ok [OF p(1) o(3) al k(2) p(2) e k(1) w, of m] show thesis
  proof (elim disjE exE conjE)
    assume "\<not> readable m alloc (allocs s) new" "ethernetif_input n n m dm9k_chip alloc s = Inl Still_Running"
    moreover have "drop (allocs s - allocs s0) fs = new" using o(1,4) by simp
    ultimately show thesis using never by metis
  next
    fix ps s'
    assume r: "ethernetif_input n n m dm9k_chip alloc s = Inr (ps, s')" "map chain_bytes ps = es" "allocs s' = a" "dm9.pending s' rest"
      "\<not> dm9000lock s'" "dm9000input s' = dm9000input s - 1" "tx_mem (chip s') = tx_mem (chip s)"
      "(sent_frames (chip s'), late (chip s')) = (sent_frames (chip s), late (chip s))" "dm9.armed s'"
    let ?old = "old @ take k new"
    have al': "allocs s' = allocs s0 + length ?old" using r(3) k'(1,2) o(4) by simp
    have "fs = ?old @ rest" using o(1) k'(3) by simp
    have dr: "last_dropped alloc s' ?old" if "rest \<noteq> []"
    proof -
      have "new \<noteq> []" using that k'(3) by auto
      then have "0 < k" "take k new \<noteq> []" using k'(5) by simp_all
      then have "last ?old = new ! (k - 1)" using k'(1) by (simp add: last_conv_nth nth_append min_def) (auto simp: last_conv_nth)
      moreover have "allocs s' - 1 = allocs s + k - 1" using r(3) k'(2) by simp
      ultimately show ?thesis using k'(6) that \<open>take k new \<noteq> []\<close> unfolding last_dropped_def by simp
    qed
    have "list_all (\<lambda>f. length (snd f) \<le> 1536) rest" using o(3) k'(3) by (auto simp: list_all_iff dest: in_set_dropD)
    moreover have "ds @ map chain_bytes ps = got alloc (allocs s0) ?old" unfolding got_append o(5) r(2) k'(4) o(4) ..
    moreover have "eth_ready s'" "rx_pending s' rest" using r rd(1) by (simp_all add: eth_ready_def pending_dm9 dm9.armed_def)
    ultimately have "eth_inv alloc s0 s' fs (ds @ map chain_bytes ps) ts"
      unfolding eth_inv_def using rd(2) r(8) \<open>fs = ?old @ rest\<close> al' dr
      by (intro conjI exI [of _ ?old] exI [of _ rest]) simp_all
    moreover have "allocs s0 + length fs \<le> allocs s \<or> allocs s < allocs s'"
      using k'(2,5) r(3) o(1,4) by (cases "new = []") auto
    moreover have "allocs s' < allocs s0 + length fs \<longrightarrow> last_dropped alloc s' (take (allocs s' - allocs s0) fs)"
    proof
      assume "allocs s' < allocs s0 + length fs"
      then have "rest \<noteq> []" using \<open>fs = ?old @ rest\<close> al' by auto
      moreover have "take (allocs s' - allocs s0) fs = ?old" using \<open>fs = ?old @ rest\<close> al' by (metis add_diff_cancel_left' append_eq_conv_conj)
      ultimately show "last_dropped alloc s' (take (allocs s' - allocs s0) fs)" using dr by simp
    qed
    ultimately show thesis using ends r(1) by blast
  qed
qed

lemma inv_receive:
  assumes "eth_inv alloc s0 s fs ds ts" and "pbufs_ok alloc" and "length fs < n"
    and r: "ethernetif_input n n m dm9k_chip alloc s = Inr (ps, s')"
  shows "eth_inv alloc s0 s' fs (ds @ map chain_bytes ps) ts"
proof -
  have "0 < dm9000input s" using r by (cases "dm9000input s") (simp_all add: ethernetif_input_def)
  from round_ok [OF assms(1-3) this, of m] show ?thesis by cases (use r in auto)
qed

lemma inv_transmit:
  assumes "eth_inv alloc s0 s fs ds ts" and c: "can_send s p n" and r: "low_level_output n dm9k_chip p s = Inr (e, s')"
  shows "eth_inv alloc s0 s' fs ds (ts @ [chain_bytes p])"
proof -
  have rd: "eth_ready s" using assms(1) by (simp add: eth_inv_def)
  from DM9000_SendPacket_ok [OF c] r
  have t: "sent_frames (chip s') = sent_frames (chip s) @ [chain_bytes p]" "tx_mem (chip s') = []"
    "rx_mem (chip s') = rx_mem (chip s)" "regs (chip s') DM9000_ISR = (regs (chip s) DM9000_ISR OR 0x02) AND NOT 0x02"
    "regs (chip s') DM9000_IMR = ucast (imr_all (dm9000cfg s))" "\<not> dm9000lock s'" "busy (chip s') = 0"
    "dm9000cfg s' = dm9000cfg s" "dm9000input s' = dm9000input s" "allocs s' = allocs s"
    unfolding low_level_output_def by auto
  have "eth_ready s'"
    using rd t clear_bit1 [of "regs (chip s) DM9000_ISR"] by (simp add: eth_ready_def idle_def)
  moreover have "bit (regs (chip s') DM9000_ISR) 0 = bit (regs (chip s) DM9000_ISR) 0"
    unfolding t(4) by (rule clear_bit1_0)
  ultimately show ?thesis
    using assms(1) t unfolding eth_inv_def by (simp add: rx_pending_def last_dropped_def)
qed

lemma eth_run_inv:
  assumes "eth_run alloc s0 s fs ds ts" and "pbufs_ok alloc"
  shows "eth_inv alloc s0 s fs ds ts"
  using assms
proof (induction rule: eth_run.induct)
  case start
  then show ?case by (simp add: eth_inv_def rx_pending_def)
next
  case (arrival s fs ds ts f)
  then show ?case by (intro inv_arrival) auto
next
  case (interrupt s fs ds ts)
  then show ?case by (intro inv_interrupt) auto
next
  case (receive s fs ds ts n m ps s')
  then show ?case by (intro inv_receive [of alloc s0 s]) auto
next
  case (transmit s fs ds ts p n e s')
  then show ?case by (intro inv_transmit [of alloc s0 s]) auto
qed

text \<open>Reading away a frame of odd length, when there is no buffer, never ends.\<close>

lemma recv_dump_odd: "odd len \<Longrightarrow> recv_dump n D len s = Inl Still_Running"
  by (induction n arbitrary: len s) (auto simp: Let_def split: prod.split)

text \<open>A driver that is ready, and an allocator that gives one buffer, for examples.\<close>

definition eth_start :: "dm9k dm" where
  "eth_start = \<lparr>REG = DM9000_IMR,
     chip = \<lparr>regs = (\<lambda>_. 0)(DM9000_IMR := 0x81), phy = (\<lambda>_. 0), rx_mem = [], tx_mem = [], sent_frames = [], busy = 0, late = 3\<rparr>,
     dm9000cfg = init_config 0, dm9000lock = False, dm9000input = 0, allocs = 0\<rparr>"

definition one_pbuf :: "nat \<Rightarrow> u16 \<Rightarrow> pbuf list option" where
  "one_pbuf k len = Some [\<lparr>payload = replicate (unat len + 1) 0, pbuf_len = len, tot_len = len\<rparr>]"

lemma one_pbuf_ok: "pbufs_ok one_pbuf"
  by (auto simp: pbufs_ok_def one_pbuf_def unat_of_nat)

lemma eth_start_ok: "eth_ready eth_start" "rx_mem (chip eth_start) = []" "dm9000input eth_start = 0"
  by (simp_all add: eth_ready_def idle_def eth_start_def init_config_def)

lemma eth_start_run:
  "eth_run one_pbuf eth_start (frame_arrives (0, replicate 64 7) eth_start) [(0, replicate 64 7)] [] []"
  using arrival [OF start [OF eth_start_ok(1,2), of one_pbuf], of "(0, replicate 64 7)"] by simp

section \<open>Properties\<close>

text \<open>
  C9. Along every run of frame arrivals, interrupts, receptions and transmissions, whether \<open>pbuf_alloc\<close> finds buffers or not: the frames
  that have arrived split into those that have been taken out of the chip and those that wait in it, in this order, with one call of \<open>pbuf_alloc\<close> for each
  frame taken; the network stack has got exactly the good ones for which there was a buffer, each once, in order and with all its bytes, and so all the good
  ones as long as no allocation failed; what has gone out is exactly what was sent; the lock is free; and when a frame waits, the input task has been
  signalled or the interrupt pin is active, unless the last frame taken was good and got no buffer.
\<close>
theorem eth_run_loses_nothing:
  assumes "eth_run alloc s0 s fs ds ts" and "pbufs_ok alloc"
  shows "\<exists>old new. fs = old @ new \<and> rx_pending s new \<and> allocs s = allocs s0 + length old \<and> ds = got alloc (allocs s0) old \<and>
    ((\<forall>i < length old. granted alloc (allocs s0 + i) (old ! i)) \<longrightarrow> ds = map snd (filter good old)) \<and>
    sent_frames (chip s) = sent_frames (chip s0) @ ts \<and> \<not> dm9000lock s \<and>
    (new \<noteq> [] \<longrightarrow> will_wake s \<or> last_dropped alloc s old)"
proof -
  note i = eth_run_inv [OF assms, unfolded eth_inv_def]
  then obtain old new where o: "fs = old @ new" "rx_pending s new" "allocs s = allocs s0 + length old" "ds = got alloc (allocs s0) old"
    "new \<noteq> [] \<longrightarrow> 0 < dm9000input s \<or> bit (regs (chip s) DM9000_ISR) 0 \<or> last_dropped alloc s old" by blast
  have "eth_ready s" using i by blast
  with o(5) ready_interrupts [of s] have "new \<noteq> [] \<longrightarrow> will_wake s \<or> last_dropped alloc s old" unfolding will_wake_def by blast
  moreover have "(\<forall>i < length old. granted alloc (allocs s0 + i) (old ! i)) \<longrightarrow> ds = map snd (filter good old)"
    unfolding o(4) by (intro impI got_all)
  ultimately show ?thesis using o(1-4) i \<open>eth_ready s\<close> unfolding eth_ready_def by blast
qed

lemma eth_run_loses_nothing_witness:
  "\<exists>old new. [(0, replicate 64 7)] = old @ new \<and> rx_pending (frame_arrives (0, replicate 64 7) eth_start) new \<and>
    allocs (frame_arrives (0, replicate 64 7) eth_start) = allocs eth_start + length old \<and> [] = got one_pbuf (allocs eth_start) old"
  using eth_run_loses_nothing [OF eth_start_run one_pbuf_ok] by blast

text \<open>
  C10. Whatever has happened before: when the input task is going to look (it has been signalled, or the interrupt handler, if the pin is active, does
  it; always so while no allocation has failed and a good frame is still missing), one round of it ends, as long as every frame without a buffer
  can be read away. It takes at least one frame when one waits, and delivers, in order, the good ones that get a buffer;
  when no allocation fails these are exactly the missing ones. When frames are left in the chip, the last one taken was good and got no buffer.
\<close>
theorem eth_run_delivers:
  assumes "eth_run alloc s0 s fs ds ts" and "pbufs_ok alloc" and "length fs < n"
    and "readable m alloc (allocs s) (drop (allocs s - allocs s0) fs)"
    and "will_wake s \<or> (\<forall>i < length fs. granted alloc (allocs s0 + i) (fs ! i)) \<and> ds \<noteq> map snd (filter good fs)"
  shows "\<exists>ps s' k. ethernetif_input n n m dm9k_chip alloc (if dm_int dm9k_chip (chip s) then s else DMA9000_ISRHandler dm9k_chip s) =
      Inr (ps, s') \<and> k \<le> length fs \<and> allocs s' = allocs s0 + k \<and> ds @ map chain_bytes ps = got alloc (allocs s0) (take k fs) \<and>
    (allocs s < allocs s0 + length fs \<longrightarrow> allocs s < allocs s') \<and>
    (k < length fs \<longrightarrow> 0 < k \<and> good (fs ! (k - 1)) \<and> \<not> granted alloc (allocs s0 + k - 1) (fs ! (k - 1))) \<and>
    ((\<forall>i < length fs. granted alloc (allocs s0 + i) (fs ! i)) \<longrightarrow> ds @ map chain_bytes ps = map snd (filter good fs))"
proof -
  let ?t = "if dm_int dm9k_chip (chip s) then s else DMA9000_ISRHandler dm9k_chip s"
  let ?all = "\<forall>i < length fs. granted alloc (allocs s0 + i) (fs ! i)"
  note i = eth_run_inv [OF assms(1,2)]
  have it: "eth_inv alloc s0 ?t fs ds ts" using i inv_interrupt [OF i] by simp
  have rd: "eth_ready s" using i unfolding eth_inv_def by blast
  have ISR: "DMA9000_ISRHandler dm9k_chip s = s\<lparr>chip := (chip s)\<lparr>regs := (regs (chip s))(DM9000_ISR := 0)\<rparr>,
    dm9000input := (if bit (regs (chip s) DM9000_ISR) 0 \<and> dm9000input s < 65535 then dm9000input s + 1 else dm9000input s)\<rparr>"
    using rd by (intro ISRHandler_ok) (simp add: eth_ready_def)
  have "will_wake s"
  proof (rule ccontr)
    assume n: "\<not> will_wake s"
    then have all: ?all "ds \<noteq> map snd (filter good fs)" using assms(5) by blast+
    from i obtain old new where o: "fs = old @ new" "allocs s = allocs s0 + length old" "ds = got alloc (allocs s0) old"
      "new \<noteq> [] \<longrightarrow> 0 < dm9000input s \<or> bit (regs (chip s) DM9000_ISR) 0 \<or> last_dropped alloc s old" unfolding eth_inv_def by blast
    have g: "\<forall>i < length old. granted alloc (allocs s0 + i) (old ! i)" using all(1) o(1) by (auto simp: nth_append split: if_splits)
    have "new \<noteq> []" using all(2) o(1,3) got_all [OF g] by auto
    moreover have "\<not> last_dropped alloc s old"
    proof (cases old rule: rev_cases)
      case (snoc xs x)
      then show ?thesis using g [rule_format, of "length xs"] o(2) by (simp add: last_dropped_def)
    qed (simp add: last_dropped_def)
    ultimately show False using o(4) n ready_interrupts [OF rd] unfolding will_wake_def by blast
  qed
  then have w: "0 < dm9000input ?t" unfolding will_wake_def using ISR by auto
  have a: "allocs ?t = allocs s" using ISR by simp
  from round_ok [OF it assms(2,3) w, of m] show ?thesis
  proof cases
    case 1
    then show ?thesis using assms(4) unfolding a by blast
  next
    case ends: (2 ps s')
    from ends(2) obtain old new where o: "fs = old @ new" "allocs s' = allocs s0 + length old" "ds @ map chain_bytes ps = got alloc (allocs s0) old"
      unfolding eth_inv_def by blast
    define k where "k = length old"
    have k: "k \<le> length fs" "allocs s' = allocs s0 + k" "take k fs = old" using o by (simp_all add: k_def)
    have d: "0 < k \<and> good (fs ! (k - 1)) \<and> \<not> granted alloc (allocs s0 + k - 1) (fs ! (k - 1))" if "k < length fs"
    proof -
      have "last_dropped alloc s' (take k fs)" using ends(4) k(2) that by simp
      moreover from this have "take k fs \<noteq> []" unfolding last_dropped_def by blast
      then have "0 < k" "last (take k fs) = fs ! (k - 1)" using that by (auto simp: last_conv_nth)
      ultimately show ?thesis using k(2) unfolding last_dropped_def by simp
    qed
    have f: "ds @ map chain_bytes ps = map snd (filter good fs)" if ?all
    proof -
      have "\<not> k < length fs" using d that [rule_format, of "k - 1"] by (cases k) auto
      then have "old = fs" using o(1) by (auto simp: k_def)
      then show ?thesis using o(3) got_all [OF that] by simp
    qed
    have p: "allocs s < allocs s0 + length fs \<longrightarrow> allocs s < allocs s'" using ends(3) unfolding a by linarith
    have e: "ds @ map chain_bytes ps = got alloc (allocs s0) (take k fs)" using o(3) k(3) by simp
    show ?thesis by (intro exI [of _ ps] exI [of _ s'] exI [of _ k] conjI impI ends(1) k(1,2) e p [rule_format] f d)
  qed
qed

lemma eth_run_delivers_witness:
  "\<exists>ps s'. ethernetif_input 2 2 0 dm9k_chip one_pbuf
      (if dm_int dm9k_chip (chip (frame_arrives (0, replicate 64 7) eth_start)) then frame_arrives (0, replicate 64 7) eth_start
       else DMA9000_ISRHandler dm9k_chip (frame_arrives (0, replicate 64 7) eth_start)) = Inr (ps, s') \<and>
    [] @ map chain_bytes ps = map snd (filter good [(0, replicate 64 7)])"
proof -
  have g: "\<forall>i < length [(0, replicate 64 7)]. granted one_pbuf (allocs eth_start + i) ([(0, replicate 64 7)] ! i)"
    by (simp add: granted_def one_pbuf_def)
  have "[] \<noteq> map snd (filter good [(0 :: u8, replicate 64 (7 :: u8))])" by (simp add: good_def)
  with g have w: "will_wake (frame_arrives (0, replicate 64 7) eth_start) \<or>
      (\<forall>i < length [(0, replicate 64 7)]. granted one_pbuf (allocs eth_start + i) ([(0, replicate 64 7)] ! i)) \<and>
      [] \<noteq> map snd (filter good [(0 :: u8, replicate 64 (7 :: u8))])" by (intro disjI2 conjI)
  have "readable 0 one_pbuf a [(0, replicate 64 7)]" for a by (simp add: granted_def one_pbuf_def)
  then have r: "readable 0 one_pbuf (allocs (frame_arrives (0, replicate 64 7) eth_start))
      (drop (allocs (frame_arrives (0, replicate 64 7) eth_start) - allocs eth_start) [(0, replicate 64 7)])"
    by (simp add: frame_arrives_def)
  have "length [(0 :: u8, replicate 64 (7 :: u8))] < 2" by simp
  from eth_run_delivers [OF eth_start_run one_pbuf_ok this r w] g show ?thesis by blast
qed

text \<open>
  C11. \<open>DM9000_SendPacket\<close> puts a packet on the wire exactly as it stands in its chain of buffers, whatever the lengths of the
  buffers: bytes left over at the end of one are paired with the next. It leaves the received frames, the receive bit of
  the interrupt status and the configuration alone, opens the interrupts again and gives the lock back.
\<close>
theorem DM9000_SendPacket_transmits:
  assumes "can_send s p fuel"
  shows "\<exists>s'. DM9000_SendPacket fuel dm9k_chip p s = Inr s' \<and>
    sent_frames (chip s') = sent_frames (chip s) @ [chain_bytes p] \<and> rx_mem (chip s') = rx_mem (chip s) \<and>
    bit (regs (chip s') DM9000_ISR) 0 = bit (regs (chip s) DM9000_ISR) 0 \<and>
    regs (chip s') DM9000_IMR = ucast (imr_all (dm9000cfg s)) \<and> dm9000cfg s' = dm9000cfg s \<and> \<not> dm9000lock s'"
proof -
  obtain s' where s': "DM9000_SendPacket fuel dm9k_chip p s = Inr s'"
    "sent_frames (chip s') = sent_frames (chip s) @ [chain_bytes p]" "rx_mem (chip s') = rx_mem (chip s)"
    "regs (chip s') DM9000_ISR = (regs (chip s) DM9000_ISR OR 0x02) AND NOT 0x02"
    "regs (chip s') DM9000_IMR = ucast (imr_all (dm9000cfg s))" "dm9000cfg s' = dm9000cfg s" "\<not> dm9000lock s'"
    using DM9000_SendPacket_ok [OF assms] by blast
  moreover have "bit (regs (chip s') DM9000_ISR) 0 = bit (regs (chip s) DM9000_ISR) 0"
    unfolding s'(4) by (rule clear_bit1_0)
  ultimately show ?thesis by blast
qed

lemma DM9000_SendPacket_transmits_witness:
  "\<exists>s'. DM9000_SendPacket 5 dm9k_chip [\<lparr>payload = [1, 2, 3], pbuf_len = 3, tot_len = 5\<rparr>, \<lparr>payload = [4, 5], pbuf_len = 2, tot_len = 2\<rparr>]
      eth_start = Inr s' \<and> sent_frames (chip s') = sent_frames (chip eth_start) @
      [chain_bytes [\<lparr>payload = [1, 2, 3], pbuf_len = 3, tot_len = 5\<rparr>, \<lparr>payload = [4, 5], pbuf_len = 2, tot_len = 2\<rparr>]] \<and>
    rx_mem (chip s') = rx_mem (chip eth_start) \<and>
    bit (regs (chip s') DM9000_ISR) 0 = bit (regs (chip eth_start) DM9000_ISR) 0 \<and>
    regs (chip s') DM9000_IMR = ucast (imr_all (dm9000cfg eth_start)) \<and> dm9000cfg s' = dm9000cfg eth_start \<and> \<not> dm9000lock s'"
  by (rule DM9000_SendPacket_transmits)
     (simp add: can_send_def eth_start_def idle_def chain_bytes_def)

text \<open>
  An interrupt in the middle of a reception: the handler restores the index register, so that the words that follow
  are read from the same register. It commutes with the read of a word, and so with any number of them.
\<close>

lemma interrupted_read:
  assumes "idle (chip s)" and "REG s = DM9000_MRCMD" and "get_DATA dm9k_chip s = (v, t)"
  shows "get_DATA dm9k_chip (DMA9000_ISRHandler dm9k_chip s) = (v, DMA9000_ISRHandler dm9k_chip t)"
    and "idle (chip t)" and "REG t = DM9000_MRCMD"
proof -
  have t: "t = s\<lparr>chip := (chip s)\<lparr>rx_mem := tl (rx_mem (chip s))\<rparr>\<rparr>" "v = (case rx_mem (chip s) of [] \<Rightarrow> 0 | w # _ \<Rightarrow> w)"
    using assms(2,3) by (cases "rx_mem (chip s)"; auto simp: get_DATA_def dm9k_chip_def dm9k_get_def)+
  show i: "idle (chip t)" "REG t = DM9000_MRCMD" using assms(1,2) by (simp_all add: t idle_def)
  show "get_DATA dm9k_chip (DMA9000_ISRHandler dm9k_chip s) = (v, DMA9000_ISRHandler dm9k_chip t)"
    unfolding ISRHandler_ok [OF assms(1)] ISRHandler_ok [OF i(1)]
    by (cases "rx_mem (chip s)") (simp_all add: t assms(2) get_DATA_def dm9k_chip_def dm9k_get_def)
qed

lemma interrupted_words:
  assumes "idle (chip s)" and "REG s = DM9000_MRCMD"
  shows "recv_words dm9k_chip n m i (DMA9000_ISRHandler dm9k_chip s) =
      map_sum id (map_prod id (DMA9000_ISRHandler dm9k_chip)) (recv_words dm9k_chip n m i s)"
    and "recv_words dm9k_chip n m i s = Inr (m', t) \<Longrightarrow> idle (chip t) \<and> REG t = DM9000_MRCMD"
  using assms
proof (induction n arbitrary: s m i)
  case (Suc n)
  { case 1
    obtain v t where g: "get_DATA dm9k_chip s = (v, t)" by (cases "get_DATA dm9k_chip s")
    note r = interrupted_read [OF 1(1,2) g]
    show ?case using Suc.IH(1) [OF r(2,3)] by (simp add: g r(1) split: sum.split) (auto split: sum.splits simp: ebind_def)
  next
    case 2
    obtain v t where g: "get_DATA dm9k_chip s = (v, t)" by (cases "get_DATA dm9k_chip s")
    note r = interrupted_read [OF 2(2,3) g]
    from 2(1) show ?case using Suc.IH(2) [OF _ r(2,3)] by (auto simp: g ebind_def split: sum.splits)
  }
qed simp_all

text \<open>
  C35. An interrupt that is served while a packet is being read out of the chip does not disturb the reception: the
  buffers get the same bytes, and the state is as if the interrupt came after the last word.
\<close>
theorem reception_interrupted:
  assumes "idle (chip s)" and "REG s = DM9000_MRCMD"
  shows "recv_chain dm9k_chip qs (DMA9000_ISRHandler dm9k_chip s) =
    map_sum id (map_prod id (DMA9000_ISRHandler dm9k_chip)) (recv_chain dm9k_chip qs s)"
  using assms
proof (induction qs arbitrary: s)
  case (Cons q qs)
  define k where k: "k = Suc (unat (pbuf_len q)) div 2"
  let ?r = "recv_words dm9k_chip k (payload q) 0 s"
  note w = interrupted_words [OF Cons.prems]
  show ?case
  proof (cases ?r)
    case (Inr b)
    obtain m t where b: "b = (m, t)" by (cases b)
    from w(2) Inr b have "idle (chip t)" "REG t = DM9000_MRCMD" by blast+
    from Cons.IH [OF this] show ?thesis
      by (cases "recv_chain dm9k_chip qs t") (auto simp: k [symmetric] w(1) Inr b)
  qed (simp add: k [symmetric] w(1))
qed simp

lemma reception_interrupted_witness:
  "recv_chain dm9k_chip [\<lparr>payload = [0, 0], pbuf_len = 2, tot_len = 2\<rparr>]
      (DMA9000_ISRHandler dm9k_chip ((frame_arrives (0, replicate 64 7) eth_start)\<lparr>REG := DM9000_MRCMD\<rparr>)) =
    map_sum id (map_prod id (DMA9000_ISRHandler dm9k_chip))
      (recv_chain dm9k_chip [\<lparr>payload = [0, 0], pbuf_len = 2, tot_len = 2\<rparr>]
        ((frame_arrives (0, replicate 64 7) eth_start)\<lparr>REG := DM9000_MRCMD\<rparr>))"
  by (rule reception_interrupted) (simp_all add: idle_def frame_arrives_def eth_start_def)

text \<open>
  C36. A receive error stops the driver for good: when the ready byte of the chip is neither 0 nor 1,
  \<open>DM9000_Receive_Packet\<close> switches the receiver off and returns without giving \<open>dm9000lock\<close> back, so that every later attempt to
  receive and every later attempt to send waits for the lock forever.
\<close>
theorem DM9000_rx_error_keeps_lock:
  assumes "\<not> dm9000lock s" and "rx_mem (chip s) = w # ws" and "1 < (ucast w :: u8)" and "0 < fuel"
  shows "\<exists>s'. DM9000_Receive_Packet fuel dfuel dm9k_chip alloc s = Inr (None, s') \<and> regs (chip s') DM9000_RCR = 0 \<and>
    (\<forall>n m p alloc'. DM9000_Receive_Packet n m dm9k_chip alloc' s' = Inl Still_Running \<and>
       DM9000_SendPacket n dm9k_chip p s' = Inl Still_Running)"
proof -
  obtain n where f: "fuel = Suc n" using assms(4) by (cases fuel) auto
  have "(ucast w :: u8) \<noteq> 0" using assms(3) by auto
  with assms show ?thesis
    by (simp add: f DM9000_Receive_Packet_def DM9000_SendPacket_def mutex_pend_def Let_def reg_simps)
qed

lemma DM9000_rx_error_keeps_lock_witness:
  "\<exists>s'. DM9000_Receive_Packet 1 0 dm9k_chip one_pbuf (eth_start\<lparr>chip := (chip eth_start)\<lparr>rx_mem := [0x4002]\<rparr>\<rparr>) = Inr (None, s') \<and>
    regs (chip s') DM9000_RCR = 0 \<and>
    (\<forall>n m p alloc'. DM9000_Receive_Packet n m dm9k_chip alloc' s' = Inl Still_Running \<and>
       DM9000_SendPacket n dm9k_chip p s' = Inl Still_Running)"
  by (rule DM9000_rx_error_keeps_lock [where w = "0x4002" and ws = "[]"]) (simp_all add: eth_start_def)

text \<open>
  The start-up of the driver ends, whatever state the chip is in, and establishes the state its operations start from:
  nothing received, no packet on its way, the interrupts and the receiver enabled, and the MAC address made
  of the processor's identification in the chip.
\<close>
theorem DM9000_Init_ready:
  assumes "0 < fuel" and "\<not> dm9000lock s"
  shows "\<exists>s'. DM9000_Init fuel dm9k_chip junk uid s = Inr (0, s') \<and> eth_ready s' \<and> rx_mem (chip s') = [] \<and>
    map (regs (chip s')) [0x10, 0x11, 0x12, 0x13, 0x14, 0x15] = map ucast (mac_addr (init_config uid)) \<and>
    regs (chip s') DM9000_RCR = 0x31"
  using DM9000_Init_ok [OF assms] by blast

lemma DM9000_Init_ready_witness:
  "\<exists>s'. DM9000_Init 1 dm9k_chip (7, 8) 0x12345678 eth_start = Inr (0, s') \<and> eth_ready s' \<and> rx_mem (chip s') = [] \<and>
    map (regs (chip s')) [0x10, 0x11, 0x12, 0x13, 0x14, 0x15] = map ucast (mac_addr (init_config 0x12345678)) \<and>
    regs (chip s') DM9000_RCR = 0x31"
  by (rule DM9000_Init_ready) (simp_all add: eth_start_def)

end
