(* ===== verification/LwipComm.thy ===== *)
theory LwipComm
  imports SysArch HeapUse EthRun AddrTable
begin

text \<open>
  The start-up of the network and of the system (LWIP/lwip_app/lwip_comm/lwip_comm.c, the second half of \<open>main\<close> in USER/main.c, and
  what they call of \<open>init.c\<close>, \<open>mem.c\<close>, \<open>tcpip.c\<close>, \<open>netif.c\<close>, \<open>etharp.c\<close> and \<open>ethernetif.c\<close>): memory for lwIP, semaphore and mutex, the Ethernet chip,
  the tasks, the ARP packet of \<open>netif_set_up\<close>, and the DHCP task. The number of bytes the pools of lwIP need (\<open>mempsize\<close>) and
  whether its own heap has room for that packet (\<open>room\<close>) are parameters; the output of \<open>printf\<close> is left out.
\<close>

section \<open>State\<close>

record netif =
  ip_addr :: u32
  netmask :: u32
  gw :: u32
  hwaddr :: "u8 list"
  mtu :: u16
  flags :: u8

record lwip_dev =
  mac :: "u8 list"
  remoteip :: "u8 list"
  ip :: "u8 list"
  dev_netmask :: "u8 list"
  gateway :: "u8 list"
  dhcpstatus :: u8

text \<open>The two event pointers; the driver has what it relies on of them in \<open>dm9000input\<close> and \<open>dm9000lock\<close>.\<close>

record 'd board =
  sysm :: sys
  eth :: "'d dm"
  memp_memory :: u32
  ram_heap :: u32
  TCPIP_THREAD_TASK_STK :: u32
  LWIP_DHCP_TASK_STK :: u32
  LWIP_DM9000_INPUT_TASK_STK :: u32
  input_event :: "nat option"
  lock_event :: "nat option"
  mem_mutex :: "nat option"
  tcpip_mbox :: u32
  lwip_netif :: netif
  lwipdev :: lwip_dev

definition set_heap :: "mem_pool \<Rightarrow> 'd board \<Rightarrow> 'd board" where
  "set_heap h b = b\<lparr>sysm := (sysm b)\<lparr>heap := h\<rparr>\<rparr>"

definition set_ucos :: "os \<Rightarrow> 'd board \<Rightarrow> 'd board" where
  "set_ucos k b = b\<lparr>sysm := (sysm b)\<lparr>ucos := k\<rparr>\<rparr>"

section \<open>Memory\<close>

definition lwip_comm_mem_free :: "'d board \<Rightarrow> fault + 'd board" where
  "lwip_comm_mem_free b =
     ebind (myfree (heap (sysm b)) (memp_memory b)) (\<lambda>h1.
     ebind (myfree h1 (ram_heap b)) (\<lambda>h2.
     ebind (myfree h2 (TCPIP_THREAD_TASK_STK b)) (\<lambda>h3.
     ebind (myfree h3 (LWIP_DHCP_TASK_STK b)) (\<lambda>h4.
     ebind (myfree h4 (LWIP_DM9000_INPUT_TASK_STK b)) (\<lambda>h5. Inr (set_heap h5 b))))))"

text \<open>\<open>MEM_SIZE\<close> is 6 KB; the heap of lwIP has two headers of 12 bytes and 4 bytes to align it.\<close>

definition ramheapsize :: u32 where "ramheapsize = 6144 + 2 * 12 + 4"

definition lwip_comm_mem_malloc :: "u32 \<Rightarrow> 'd board \<Rightarrow> fault + (u8 \<times> 'd board)" where
  "lwip_comm_mem_malloc mempsize b =
     ebind (mymalloc (heap (sysm b)) mempsize) (\<lambda>(p1, h1).
     ebind (mymalloc h1 ramheapsize) (\<lambda>(p2, h2).
     ebind (mymalloc h2 (1000 * 4)) (\<lambda>(p3, h3).
     ebind (mymalloc h3 (128 * 4)) (\<lambda>(p4, h4).
     ebind (mymalloc h4 (512 * 4)) (\<lambda>(p5, h5).
     let b1 = (set_heap h5 b)\<lparr>memp_memory := p1, ram_heap := p2, TCPIP_THREAD_TASK_STK := p3, LWIP_DHCP_TASK_STK := p4,
                LWIP_DM9000_INPUT_TASK_STK := p5\<rparr>
     in if p1 = 0 \<or> p2 = 0 \<or> p3 = 0 \<or> p4 = 0 \<or> p5 = 0 then ebind (lwip_comm_mem_free b1) (\<lambda>b2. Inr (1, b2))
        else Inr (0, b1))))))"

section \<open>Addresses and the interface\<close>

definition lwip_comm_default_ip_set :: "'e acu \<Rightarrow> dm9000_config \<Rightarrow> lwip_dev \<Rightarrow> fault + lwip_dev" where
  "lwip_comm_default_ip_set a cfg x =
     ebind (get_bytes (g_lwipADD a) 0 4) (\<lambda>rip.
     ebind (get_bytes (mac_addr cfg) 0 6) (\<lambda>m.
     ebind (get_bytes (g_Setip a) 1 4) (\<lambda>i.
     ebind (get_bytes (g_Setnetmask a) 0 4) (\<lambda>n.
     ebind (get_bytes (g_Setgateway a) 0 4) (\<lambda>g.
     Inr (x\<lparr>remoteip := rip, mac := m, ip := i, dev_netmask := n, gateway := g, dhcpstatus := 0\<rparr>))))))"

text \<open>\<open>IP4_ADDR\<close>, and the bytes of an address as the DHCP task takes them apart; an address is kept in network order.\<close>

definition IP4_ADDR :: "u8 list \<Rightarrow> u32" where
  "IP4_ADDR a = push_bit 24 (ucast (a ! 3)) OR push_bit 16 (ucast (a ! 2)) OR push_bit 8 (ucast (a ! 1)) OR ucast (a ! 0)"

definition ip_bytes :: "u32 \<Rightarrow> u8 list" where
  "ip_bytes i = [ucast i, ucast (drop_bit 8 i), ucast (drop_bit 16 i), ucast (drop_bit 24 i)]"

abbreviation (input) "NETIF_FLAG_UP \<equiv> 0x01 :: u8"
abbreviation (input) "NETIF_FLAG_BROADCAST \<equiv> 0x02 :: u8"
abbreviation (input) "NETIF_FLAG_LINK_UP \<equiv> 0x10 :: u8"
abbreviation (input) "NETIF_FLAG_ETHARP \<equiv> 0x20 :: u8"

definition low_level_init :: "lwip_dev \<Rightarrow> netif \<Rightarrow> netif" where
  "low_level_init dv n = n\<lparr>hwaddr := mac dv, mtu := 1500, flags := NETIF_FLAG_BROADCAST OR NETIF_FLAG_ETHARP OR NETIF_FLAG_LINK_UP\<rparr>"

text \<open>\<open>ethernetif_init\<close> always succeeds, so the answer of \<open>netif_add\<close> is never null.\<close>

definition ethernetif_init :: "lwip_dev \<Rightarrow> netif \<Rightarrow> int \<times> netif" where
  "ethernetif_init dv n = (ERR_OK, low_level_init dv n)"

definition netif_add :: "lwip_dev \<Rightarrow> u32 \<Rightarrow> u32 \<Rightarrow> u32 \<Rightarrow> netif \<Rightarrow> bool \<times> netif" where
  "netif_add dv ipaddr nmask gway n =
     (let (err, n1) = ethernetif_init dv (n\<lparr>flags := 0, ip_addr := ipaddr, netmask := nmask, gw := gway\<rparr>)
      in (err = ERR_OK, n1))"

section \<open>An ARP packet before the kernel runs\<close>

text \<open>
  \<open>netif_set_up\<close> sends a packet, and \<open>DM9000_SendPacket\<close> takes the mutex \<open>dm9000lock\<close> for it. Before \<open>OSStart\<close> no task runs: \<open>OSTCBCur\<close> is a null pointer, and
  \<open>OSMutexPend\<close> and \<open>OSMutexPost\<close> read the priority of the running task through it. \<open>at0\<close> is what the processor finds there: the byte of the memory that is mapped
  at address 0 (the program's own flash), or \<open>None\<close> when the access faults. A write through the null pointer always faults. The owner of the mutex
  is the null pointer too, as \<open>OSMutexPost\<close> checks.
\<close>

definition early_pend :: "u8 option \<Rightarrow> nat \<Rightarrow> os \<Rightarrow> fault + os" where
  "early_pend at0 ev s =
     ebind (get_event ev s) (\<lambda>e.
     if OSEventType e \<noteq> OS_EVENT_TYPE_MUTEX then Inr s
     else if 0 < OSIntNesting s then Inr s
     else if 0 < OSLockNesting s then Inr s
     else if OSEventCnt e AND 0x00FF = 0x00FF then
       (case at0 of
          None \<Rightarrow> Inl Bad_Pointer
        | Some p \<Rightarrow> Inr (put_event ev (e\<lparr>OSEventCnt := OSEventCnt e AND 0xFF00 OR ucast p\<rparr>) s))
     else Inl Bad_Pointer)"

definition early_post :: "u8 option \<Rightarrow> nat \<Rightarrow> os \<Rightarrow> fault + os" where
  "early_post at0 ev s =
     (if 0 < OSIntNesting s then Inr s
      else
        ebind (get_event ev s) (\<lambda>e.
        if OSEventType e \<noteq> OS_EVENT_TYPE_MUTEX then Inr s
        else case at0 of
          None \<Rightarrow> Inl Bad_Pointer
        | Some p \<Rightarrow>
            let pip = drop_bit 8 (OSEventCnt e)
            in if ucast p = pip then Inl Bad_Pointer
               else
                 let s1 = s\<lparr>OSTCBPrioTbl := (OSTCBPrioTbl s)(unat pip := None), OSTCBReserved := insert (unat pip) (OSTCBReserved s)\<rparr>
                 in if Grp (wait_list e) \<noteq> 0 then
                      ebind (OS_EventTaskRdy ev 0 0x10 OS_STAT_PEND_OK s1) (\<lambda>(prio, s2).
                      ebind (get_event ev s2) (\<lambda>e2.
                      Inr (OS_Sched (put_event ev (e2\<lparr>OSEventCnt := OSEventCnt e2 AND 0xFF00 OR of_nat prio\<rparr>) s2))))
                    else Inr (put_event ev (e\<lparr>OSEventCnt := OSEventCnt e OR 0x00FF\<rparr>) s1)))"

text \<open>\<open>low_level_output\<close> with these calls of the kernel around the work on the chip.\<close>

definition early_output :: "u8 option \<Rightarrow> nat \<Rightarrow> 'd dm_chip \<Rightarrow> pbuf list \<Rightarrow> 'd board \<Rightarrow> fault + (int \<times> 'd board)" where
  "early_output at0 fuel D p b =
     (case lock_event b of
        None \<Rightarrow> Inl Bad_Pointer
      | Some ev \<Rightarrow>
          ebind (early_pend at0 ev (ucos (sysm b))) (\<lambda>k1.
          ebind (low_level_output fuel D p (eth b)) (\<lambda>(result, e).
          ebind (early_post at0 ev k1) (\<lambda>k2. Inr (result, (set_ucos k2 b)\<lparr>eth := e\<rparr>)))))"

text \<open>
  \<open>mem_malloc\<close> and \<open>mem_free\<close> of lwIP as the kernel sees them: each takes the semaphore that guards the heap of lwIP, and gives it back
  on every way out. A wait would not end, since no task runs that could give it back.
\<close>

definition mem_section :: "'d board \<Rightarrow> fault + 'd board" where
  "mem_section b =
     (case mem_mutex b of
        None \<Rightarrow> Inl Bad_Pointer
      | Some m \<Rightarrow>
          ebind (sys_arch_sem_wait m 0 (sysm b)) (\<lambda>(r, s1).
          case r of
            Waiting _ \<Rightarrow> Inl Still_Running
          | Waited _ _ \<Rightarrow> ebind (sys_sem_signal m s1) (\<lambda>s2. Inr (b\<lparr>sysm := s2\<rparr>))))"

abbreviation (input) "ARP_REQUEST \<equiv> 1 :: u16"

definition arp_packet :: "u8 list \<Rightarrow> u8 list \<Rightarrow> u8 list \<Rightarrow> u32 \<Rightarrow> u8 list \<Rightarrow> u32 \<Rightarrow> u16 \<Rightarrow> u8 list" where
  "arp_packet ethsrc ethdst hwsrc ipsrc hwdst ipdst opcode =
     ethdst @ ethsrc @ [0x08, 0x06] @ [0x00, 0x01, 0x08, 0x00, 6, 4, ucast (drop_bit 8 opcode), ucast opcode] @
     hwsrc @ ip_bytes ipsrc @ hwdst @ ip_bytes ipdst"

text \<open>The buffer is one block of the heap of lwIP, for the 42 bytes of the packet.\<close>

definition etharp_raw ::
  "u8 option \<Rightarrow> bool \<Rightarrow> nat \<Rightarrow> 'd dm_chip \<Rightarrow> u8 list \<Rightarrow> u8 list \<Rightarrow> u8 list \<Rightarrow> u32 \<Rightarrow> u8 list \<Rightarrow> u32 \<Rightarrow> u16 \<Rightarrow> 'd board \<Rightarrow>
     fault + (int \<times> 'd board)" where
  "etharp_raw at0 room fuel D ethsrc ethdst hwsrc ipsrc hwdst ipdst opcode b =
     ebind (mem_section b) (\<lambda>b1.
     if \<not> room then Inr (ERR_MEM, b1)
     else
       let p = [\<lparr>payload = arp_packet ethsrc ethdst hwsrc ipsrc hwdst ipdst opcode, pbuf_len = 42, tot_len = 42\<rparr>]
       in ebind (early_output at0 fuel D p b1) (\<lambda>(result, b2).
          ebind (mem_section b2) (\<lambda>b3. Inr (result, b3))))"

definition ethbroadcast :: "u8 list" where "ethbroadcast = replicate 6 0xFF"
definition ethzero :: "u8 list" where "ethzero = replicate 6 0"

definition etharp_request :: "u8 option \<Rightarrow> bool \<Rightarrow> nat \<Rightarrow> 'd dm_chip \<Rightarrow> u32 \<Rightarrow> 'd board \<Rightarrow> fault + (int \<times> 'd board)" where
  "etharp_request at0 room fuel D ipaddr b =
     ebind (get_bytes (hwaddr (lwip_netif b)) 0 6) (\<lambda>hw.
     etharp_raw at0 room fuel D hw ethbroadcast hw (ip_addr (lwip_netif b)) ethzero ipaddr ARP_REQUEST b)"

definition etharp_gratuitous :: "u8 option \<Rightarrow> bool \<Rightarrow> nat \<Rightarrow> 'd dm_chip \<Rightarrow> 'd board \<Rightarrow> fault + (int \<times> 'd board)" where
  "etharp_gratuitous at0 room fuel D b = etharp_request at0 room fuel D (ip_addr (lwip_netif b)) b"

definition netif_set_up :: "u8 option \<Rightarrow> bool \<Rightarrow> nat \<Rightarrow> 'd dm_chip \<Rightarrow> 'd board \<Rightarrow> fault + 'd board" where
  "netif_set_up at0 room fuel D b =
     (let n = lwip_netif b
      in if flags n AND NETIF_FLAG_UP = 0 then
           let n1 = n\<lparr>flags := flags n OR NETIF_FLAG_UP\<rparr>; b1 = b\<lparr>lwip_netif := n1\<rparr>
           in if flags n1 AND NETIF_FLAG_LINK_UP \<noteq> 0 then
                if flags n1 AND NETIF_FLAG_ETHARP \<noteq> 0 then ebind (etharp_gratuitous at0 room fuel D b1) (\<lambda>(_, b2). Inr b2)
                else Inr b1
              else Inr b1
         else Inr b)"

section \<open>Start-up\<close>

text \<open>
  Of the set-up functions that \<open>lwip_init\<close> calls, only \<open>mem_init\<close> uses more than data of lwIP: it creates the semaphore that guards its heap (a mutex
  of lwIP is a semaphore with count 1 in this configuration). The answers of \<open>sys_mutex_new\<close> and \<open>sys_mbox_new\<close> are only asserted, and assertions only print.
\<close>

definition mem_init :: "'d board \<Rightarrow> fault + 'd board" where
  "mem_init b = ebind (sys_sem_new 1 (sysm b)) (\<lambda>(_, m, s1). Inr (b\<lparr>sysm := s1, mem_mutex := m\<rparr>))"

definition lwip_init :: "'d board \<Rightarrow> fault + 'd board" where
  "lwip_init b = mem_init b"

definition tcpip_init :: "'d board \<Rightarrow> fault + 'd board" where
  "tcpip_init b =
     ebind (lwip_init b) (\<lambda>b1.
     ebind (sys_mbox_new 20 (sysm b1)) (\<lambda>(_, mbox, s2).
     ebind (sys_thread_new ''tcpip_thread'' 5 s2) (\<lambda>s3. Inr (b1\<lparr>sysm := s3, tcpip_mbox := mbox\<rparr>))))"

text \<open>Tasks are created by priority: 5 is the TCP/IP core, 6 the input task of the Ethernet driver, 7 the DHCP task.\<close>

definition lwip_comm_dhcp_creat :: "'d board \<Rightarrow> fault + 'd board" where
  "lwip_comm_dhcp_creat b = ebind (OSTaskCreate 7 (ucos (sysm b))) (\<lambda>(_, k). Inr (set_ucos k b))"

definition lwip_comm_init ::
  "u32 \<Rightarrow> nat \<Rightarrow> 'd dm_chip \<Rightarrow> u16 \<times> u16 \<Rightarrow> u32 \<Rightarrow> u8 option \<Rightarrow> bool \<Rightarrow> 'e acu \<Rightarrow> 'd board \<Rightarrow> fault + (u8 \<times> 'd board)" where
  "lwip_comm_init mempsize fuel D junk uid at0 room a b =
     ebind (lwip_comm_mem_malloc mempsize b) (\<lambda>(r1, b1).
     if r1 \<noteq> 0 then Inr (1, b1)
     else
       ebind (OSSemCreate 0 (ucos (sysm b1))) (\<lambda>(sem, k1).
       ebind (OSMutexCreate 2 k1) (\<lambda>(mutex, _, k2).
       let b2 = (set_ucos k2 b1)\<lparr>input_event := sem, lock_event := mutex\<rparr>
       in ebind (DM9000_Init fuel D junk uid (eth b2)) (\<lambda>(r2, e).
          let b3 = b2\<lparr>eth := e\<rparr>
          in if r2 \<noteq> 0 then Inr (2, b3)
             else
               ebind (tcpip_init b3) (\<lambda>b4.
               ebind (lwip_comm_default_ip_set a (dm9000cfg (eth b4)) (lwipdev b4)) (\<lambda>dv.
               let (added, n) = netif_add dv 0 0 0 (lwip_netif b4);
                   b5 = b4\<lparr>lwipdev := dv, lwip_netif := n\<rparr>
               in ebind (if added then netif_set_up at0 room fuel D b5 else Inr b5) (\<lambda>b6.
                  ebind (OSTaskCreate 6 (ucos (sysm b6))) (\<lambda>(_, k3).
                  ebind (lwip_comm_dhcp_creat (set_ucos k3 b6)) (\<lambda>b7. Inr (0, b7))))))))))"

definition tcp_client_init :: "'d board \<Rightarrow> fault + (u8 \<times> 'd board)" where
  "tcp_client_init b = ebind (OSTaskCreate 8 (ucos (sysm b))) (\<lambda>(res, k). Inr (res, set_ucos k b))"

text \<open>
  The two loops of \<open>main\<close>: between two attempts only a second passes, in which the chip may change (\<open>later\<close>). The kernel does not run
  yet, so nothing else does.
\<close>

fun init_loop :: "nat \<Rightarrow> ('d board \<Rightarrow> fault + (u8 \<times> 'd board)) \<Rightarrow> ('d dm \<Rightarrow> 'd dm) \<Rightarrow> 'd board \<Rightarrow> fault + 'd board" where
  "init_loop 0 attempt later b = Inl Still_Running"
| "init_loop (Suc n) attempt later b =
     ebind (attempt b) (\<lambda>(r, b1). if r \<noteq> 0 then init_loop n attempt later (b1\<lparr>eth := later (eth b1)\<rparr>) else Inr b1)"

text \<open>\<open>main\<close> from \<open>OSInit\<close> on; 12 is \<open>start_task\<close>.\<close>

definition main_start ::
  "nat \<Rightarrow> u32 \<Rightarrow> nat \<Rightarrow> 'd dm_chip \<Rightarrow> u16 \<times> u16 \<Rightarrow> u32 \<Rightarrow> u8 option \<Rightarrow> bool \<Rightarrow> ('d dm \<Rightarrow> 'd dm) \<Rightarrow> 'e acu \<Rightarrow> 'd board \<Rightarrow>
     fault + 'd board" where
  "main_start n mempsize fuel D junk uid at0 room later a b =
     ebind (OSInit (ucos (sysm b))) (\<lambda>k.
     ebind (init_loop n (lwip_comm_init mempsize fuel D junk uid at0 room a) later (set_ucos k b)) (\<lambda>b1.
     ebind (init_loop n tcp_client_init later b1) (\<lambda>b2.
     ebind (OSTaskCreate 12 (ucos (sysm b2))) (\<lambda>(_, k2). Inr (set_ucos (OSStart k2) b2)))))"

text \<open>
  \<open>start_task\<close>, cut where \<open>OSStatInit\<close> lets the other tasks run. The queues hold 64 pointers. In the critical section at the end a context switch is asked for
  but takes place only after it, as it does with the scheduler locked.
\<close>

definition start_task_queues :: "os \<Rightarrow> fault + (nat option \<times> nat option \<times> os)" where
  "start_task_queues s =
     ebind (OSQCreate (replicate 64 0) 64 s) (\<lambda>(q_msg_ser, s1).
     ebind (OSQCreate (replicate 64 0) 64 s1) (\<lambda>(q_msg, s2).
     ebind (OSTimeDly 2 s2) (\<lambda>s3. Inr (q_msg_ser, q_msg, s3))))"

definition OSStatInit_measure :: "os \<Rightarrow> fault + os" where
  "OSStatInit_measure s = OSTimeDly (OS_TICKS_PER_SEC div 10) s"

definition start_task_tasks :: "os \<Rightarrow> fault + os" where
  "start_task_tasks s =
     ebind (OSTaskCreate 10 (OSSchedLock s)) (\<lambda>(_, s1).
     ebind (OSTaskCreate 9 s1) (\<lambda>(_, s2).
     ebind (OSTaskSuspend 255 s2) (\<lambda>(_, s3). Inr (OSSchedUnlock s3))))"

section \<open>The DHCP task\<close>

definition dhcp_success :: "'d board \<Rightarrow> 'd board" where
  "dhcp_success b =
     (let n = lwip_netif b
      in b\<lparr>lwipdev := (lwipdev b)\<lparr>dhcpstatus := 2, ip := ip_bytes (ip_addr n), dev_netmask := ip_bytes (netmask n), gateway := ip_bytes (gw n)\<rparr>\<rparr>)"

definition static_address :: "'d board \<Rightarrow> 'd board" where
  "static_address b =
     (let d = lwipdev b
      in b\<lparr>lwipdev := d\<lparr>dhcpstatus := 0xFF\<rparr>,
           lwip_netif := (lwip_netif b)\<lparr>ip_addr := IP4_ADDR (ip d), netmask := IP4_ADDR (dev_netmask d), gw := IP4_ADDR (gateway d)\<rparr>\<rparr>)"

text \<open>
  What the task finds each time it runs is given as a list: the flag \<open>g_Setip[0]\<close>, and the interface and the system as lwIP and the other tasks have left
  them. \<open>dhcp_stop\<close> only ends the exchanges of lwIP.
\<close>

fun lwip_dhcp_loop :: "(u8 \<times> netif \<times> sys) list \<Rightarrow> 'd board \<Rightarrow> fault + ((u8 \<times> netif \<times> sys) list \<times> 'd board)" where
  "lwip_dhcp_loop [] b = Inl Still_Running"
| "lwip_dhcp_loop ((setip0, n, s) # seen) b =
     (let b1 = b\<lparr>lwip_netif := n, sysm := s\<rparr>
      in if setip0 \<noteq> 0xAA then
           if ip_addr n \<noteq> 0 then Inr (seen, dhcp_success b1)
           else ebind (delay_ms 5 500 (ucos s)) (\<lambda>(_, k). lwip_dhcp_loop seen (set_ucos k b1))
         else Inr (seen, static_address b1))"

definition lwip_comm_dhcp_delete :: "'d board \<Rightarrow> fault + 'd board" where
  "lwip_comm_dhcp_delete b = ebind (OSTaskDel 7 (ucos (sysm b))) (\<lambda>(_, k). Inr (set_ucos k b))"

definition lwip_dhcp_task :: "(u8 \<times> netif \<times> sys) list \<Rightarrow> 'd board \<Rightarrow> fault + 'd board" where
  "lwip_dhcp_task seen b =
     ebind (lwip_dhcp_loop seen (b\<lparr>lwipdev := (lwipdev b)\<lparr>dhcpstatus := 0\<rparr>\<rparr>)) (\<lambda>(_, b1). lwip_comm_dhcp_delete b1)"

end
