(* ===== verification/LwipStart.thy ===== *)
theory LwipStart
  imports LwipComm OsProps
begin

text \<open>
  What the start-up of the network promises: its memory is taken completely or not at all; what happens when the Ethernet chip does not answer at once;
  the system that \<open>main\<close> starts; the end of the DHCP task.
\<close>

section \<open>Memory\<close>

definition sizes :: "u32 \<Rightarrow> u32 list" where
  "sizes mempsize = [mempsize, ramheapsize, 4000, 512, 2048]"

definition pointers :: "'d board \<Rightarrow> u32 list" where
  "pointers b = [memp_memory b, ram_heap b, TCPIP_THREAD_TASK_STK b, LWIP_DHCP_TASK_STK b, LWIP_DM9000_INPUT_TASK_STK b]"

definition set_pointers :: "u32 list \<Rightarrow> 'd board \<Rightarrow> 'd board" where
  "set_pointers ps b = b\<lparr>memp_memory := ps ! 0, ram_heap := ps ! 1, TCPIP_THREAD_TASK_STK := ps ! 2, LWIP_DHCP_TASK_STK := ps ! 3,
     LWIP_DM9000_INPUT_TASK_STK := ps ! 4\<rparr>"

lemma sizes_ok: "mempsize \<noteq> 0 \<Longrightarrow> unat mempsize \<le> 2097120 \<Longrightarrow> \<forall>sz \<in> set (sizes mempsize). sz \<noteq> 0 \<and> unat sz \<le> 2097120"
  by (simp add: sizes_def ramheapsize_def)

lemma five: "length xs = 5 \<Longrightarrow> \<exists>a b c d e. xs = [a, b, c, d, e]"
  by (auto simp: numeral_eq_Suc length_Suc_conv)

lemma frees_lists: "ebind (frees (heap (sysm b)) (pointers b)) (\<lambda>h. Inr (set_heap h b)) = lwip_comm_mem_free b"
  by (simp add: pointers_def lwip_comm_mem_free_def ebind_assoc)

lemma mem_malloc_lists:
  assumes "mallocs (heap (sysm b)) (sizes mempsize) = Inr (ps, h)"
  shows "lwip_comm_mem_malloc mempsize b =
    (let b1 = set_pointers ps (set_heap h b)
     in if 0 \<in> set ps then ebind (frees h ps) (\<lambda>h1. Inr (1, set_heap h1 b1)) else Inr (0, b1))"
  using assms unfolding sizes_def
  by (auto simp: ebind_eq_Inr_iff lwip_comm_mem_malloc_def lwip_comm_mem_free_def set_pointers_def set_heap_def Let_def ebind_assoc)

lemma mem_malloc_cases:
  fixes b :: "'d board"
  assumes "ready_pool (heap (sysm b))" and "placed (heap (sysm b))" and "mempsize \<noteq> 0" and "unat mempsize \<le> 2097120"
  obtains (refused) ps where "lwip_comm_mem_malloc mempsize b = Inr (1, set_pointers ps b)"
  | (taken) ps m bs where "lwip_comm_mem_malloc mempsize b = Inr (0, set_pointers ps (set_heap ((heap (sysm b))\<lparr>memmap := m\<rparr>) b))"
      "ready_pool ((heap (sysm b))\<lparr>memmap := m\<rparr>)" "length ps = 5" "ps = map (\<lambda>x. block_ptr (heap (sysm b)) (fst x)) bs"
      "map snd bs = map (ceil_blocks (heap (sysm b))) (sizes mempsize)" "distinct bs" "set bs \<inter> set (allocations (heap (sysm b))) = {}"
      "set (allocations ((heap (sysm b))\<lparr>memmap := m\<rparr>)) = set bs \<union> set (allocations (heap (sysm b)))"
proof -
  let ?h = "heap (sysm b)"
  note sz = sizes_ok [OF assms(3,4)]
  obtain ps m bs where m: "mallocs ?h (sizes mempsize) = Inr (ps, ?h\<lparr>memmap := m\<rparr>)" "length ps = length (sizes mempsize)"
    "ready_pool (?h\<lparr>memmap := m\<rparr>)" "behind ?h ps bs" "distinct bs" "set bs \<inter> set (allocations ?h) = {}"
    "set (allocations (?h\<lparr>memmap := m\<rparr>)) = set bs \<union> set (allocations ?h)" "0 \<notin> set ps \<Longrightarrow> map snd bs = map (ceil_blocks ?h) (sizes mempsize)"
    by (rule mallocs_ok [OF assms(1,2) sz]) (rule that)
  note run = mem_malloc_lists [OF m(1)]
  show thesis
  proof (cases "0 \<in> set ps")
    case True
    have "set_heap ?h (set_pointers ps (set_heap h b)) = set_pointers ps b" for h by (simp add: set_heap_def set_pointers_def)
    then show thesis using refused [of ps] True run frees_mallocs [OF assms(1,2) sz m(1)] by (simp add: Let_def)
  next
    case False
    have "filter (\<lambda>a. a \<noteq> 0) ps = ps" using False by (auto simp: filter_id_conv)
    then have "ps = map (\<lambda>x. block_ptr ?h (fst x)) bs" using m(4) by (simp add: behind_def)
    moreover have "lwip_comm_mem_malloc mempsize b = Inr (0, set_pointers ps (set_heap (?h\<lparr>memmap := m\<rparr>) b))"
      using run False by (simp add: Let_def)
    moreover have "length ps = 5" using m(2) by (simp add: sizes_def)
    ultimately show thesis using taken m(3,5-8) False by blast
  qed
qed

lemma board_fields [simp]:
  "heap (sysm (set_heap h b)) = h" "ucos (sysm (set_heap h b)) = ucos (sysm b)" "heap (sysm (set_ucos k b)) = heap (sysm b)"
  "ucos (sysm (set_ucos k b)) = k" "sysm (set_pointers ps b) = sysm b" "mboxes (sysm (set_ucos k b)) = mboxes (sysm b)"
  "mboxes (sysm (set_heap h b)) = mboxes (sysm b)" "eth (set_heap h b) = eth b" "eth (set_ucos k b) = eth b" "eth (set_pointers ps b) = eth b"
  "lwipdev (set_heap h b) = lwipdev b" "lwipdev (set_ucos k b) = lwipdev b" "lwip_netif (set_ucos k b) = lwip_netif b"
  by (simp_all add: set_heap_def set_ucos_def set_pointers_def)

lemma pointers_set: "length ps = 5 \<Longrightarrow> pointers (set_pointers ps b) = ps"
  using five [of ps] by (auto simp: pointers_def set_pointers_def)

text \<open>
  C15. The memory for the network is taken completely or not at all: either the answer is 0 and the five pointers lead to blocks of the sizes asked for,
  apart from each other and from all blocks in use; or it is 1 and the heap is exactly as before.
\<close>

theorem lwip_comm_mem_all_or_nothing:
  assumes "ready_pool (heap (sysm b))" and "placed (heap (sysm b))" and "mempsize \<noteq> 0" and "unat mempsize \<le> 2097120"
  shows "\<exists>r b'. lwip_comm_mem_malloc mempsize b = Inr (r, b') \<and> ucos (sysm b') = ucos (sysm b) \<and>
    (r = 1 \<and> heap (sysm b') = heap (sysm b) \<or>
     r = 0 \<and> (\<exists>bs. pointers b' = map (\<lambda>x. block_ptr (heap (sysm b)) (fst x)) bs \<and> map snd bs = map (ceil_blocks (heap (sysm b))) (sizes mempsize) \<and>
       distinct bs \<and> set bs \<inter> set (allocations (heap (sysm b))) = {} \<and>
       set (allocations (heap (sysm b'))) = set bs \<union> set (allocations (heap (sysm b))) \<and> all_apart (set (allocations (heap (sysm b'))))))"
proof (cases rule: mem_malloc_cases [OF assms, case_names refused taken])
  case (refused ps)
  then show ?thesis by simp
next
  case (taken ps m bs)
  let ?b = "set_pointers ps (set_heap ((heap (sysm b))\<lparr>memmap := m\<rparr>) b)"
  have ap: "all_apart (set (allocations ((heap (sysm b))\<lparr>memmap := m\<rparr>)))"
    using pool_ok_apart [of m 0] ready_poolD(1) [OF taken(2)] by (simp add: pool_ok_def allocations_def)
  have u: "ucos (sysm ?b) = ucos (sysm b)" "heap (sysm ?b) = (heap (sysm b))\<lparr>memmap := m\<rparr>" by simp_all
  show ?thesis
    by (rule exI [of _ 0], rule exI [of _ ?b], unfold u pointers_set [OF taken(3)],
        intro conjI taken(1,4-8) refl disjI2 exI [of _ bs] ap)
qed

section \<open>A start that fails at the chip\<close>

lemma loop_stuck:
  assumes "P b" and "\<And>b. P b \<Longrightarrow> \<exists>r b'. attempt b = Inr (r, b') \<and> r \<noteq> 0 \<and> P b'" and "\<And>b e. P b \<Longrightarrow> P (b\<lparr>eth := e\<rparr>)"
  shows "init_loop n attempt later b = Inl Still_Running"
  using assms(1)
proof (induction n arbitrary: b)
  case (Suc n)
  obtain r b' where "attempt b = Inr (r, b')" "r \<noteq> 0" "P b'" using assms(2) [OF Suc.prems] by blast
  then show ?case using Suc.IH [OF assms(3)] by simp
qed simp

text \<open>More than half of the heap for the network: a second time it is refused as long as the first is not given back.\<close>

lemma network_blocks:
  assumes "ready_pool h" and "7744 < unat mempsize"
  shows "640 < sum_list (map (ceil_blocks h) (sizes mempsize))"
proof -
  have m: "memblksize h = 32" by (rule ready_poolD(3) [OF assms(1)])
  have "243 \<le> ceil_blocks h mempsize"
  proof -
    define q r where "q = unat mempsize div 32" and "r = unat mempsize mod 32"
    have "unat mempsize = 32 * q + r" "r < 32" unfolding q_def r_def by simp_all
    then have "243 \<le> q + (if r = 0 then 0 else 1)" using assms(2) by auto
    then show ?thesis by (simp add: ceil_blocks_def m q_def r_def)
  qed
  moreover have "ceil_blocks h ramheapsize = 193" "ceil_blocks h 4000 = 125" "ceil_blocks h 512 = 16" "ceil_blocks h 2048 = 64"
    by (simp_all add: ceil_blocks_def m ramheapsize_def)
  ultimately show ?thesis by (simp add: sizes_def)
qed

definition half_taken :: "mem_pool \<Rightarrow> bool" where
  "half_taken h \<longleftrightarrow> ready_pool h \<and> placed h \<and> memtblsize h = 1280 \<and>
     (\<exists>bs. distinct bs \<and> set bs \<subseteq> set (allocations h) \<and> 640 < sum_list (map snd bs))"

lemma half_taken_refuses:
  assumes "half_taken (heap (sysm b))" and "7744 < unat mempsize" and "unat mempsize \<le> 2097120"
  obtains ps where "lwip_comm_mem_malloc mempsize b = Inr (1, set_pointers ps b)"
proof -
  let ?h = "heap (sysm b)"
  obtain bs0 where h: "ready_pool ?h" "placed ?h" "memtblsize ?h = 1280" "distinct bs0" "set bs0 \<subseteq> set (allocations ?h)" "640 < sum_list (map snd bs0)"
    using assms(1) by (auto simp: half_taken_def)
  have "mempsize \<noteq> 0" using assms(2) by auto
  from h(1,2) this assms(3) show thesis
  proof (cases rule: mem_malloc_cases [case_names refused taken])
    case (taken ps m bs)
    have "distinct (bs @ bs0)" "set (bs @ bs0) \<subseteq> set (allocations (?h\<lparr>memmap := m\<rparr>))" using taken(6-8) h(4,5) by auto
    from allocations_fit [OF ready_poolD(1) [OF taken(2)] this]
    have "sum_list (map snd bs) + sum_list (map snd bs0) \<le> 1280" using h(3) by simp
    moreover have "640 < sum_list (map snd bs)" unfolding taken(5) by (rule network_blocks [OF h(1) assms(2)])
    ultimately show thesis using h(6) by simp
  qed (rule that)
qed

lemma failed_init_takes:
  assumes "ready_pool (heap (sysm b))" and "placed (heap (sysm b))" and "memtblsize (heap (sysm b)) = 1280"
    and "7744 < unat mempsize" and "unat mempsize \<le> 2097120"
    and i: "lwip_comm_init mempsize fuel D junk uid at0 room a b = Inr (2, b1)"
  shows "half_taken (heap (sysm b1))"
proof -
  let ?h = "heap (sysm b)"
  have "mempsize \<noteq> 0" using assms(4) by auto
  from assms(1,2) this assms(5) show ?thesis
  proof (cases rule: mem_malloc_cases [case_names refused taken])
    case (refused ps)
    then show ?thesis using i by (simp add: lwip_comm_init_def)
  next
    case (taken ps m bs)
    have "heap (sysm b1) = ?h\<lparr>memmap := m\<rparr>"
      using i taken(1) unfolding lwip_comm_init_def
      by (auto simp: ebind_eq_Inr_iff Let_def split: if_splits prod.splits)
    moreover have "640 < sum_list (map snd bs)" unfolding taken(5) by (rule network_blocks [OF assms(1,4)])
    ultimately show ?thesis using taken(2,6,8) assms(2,3) unfolding half_taken_def by auto
  qed
qed

text \<open>
  C14. When the Ethernet chip does not answer at the first attempt, the start-up never ends, whatever the chip does later: the failed attempt keeps its
  memory, which is more than half of the 40 KB heap, so every further attempt of the loop in \<open>main\<close> is refused for lack of memory. (The pools of
  lwIP need more than 7744 bytes: the 20 packet buffers of 512 bytes alone are 10240.)
\<close>

theorem failed_start_is_final:
  assumes "ready_pool (heap (sysm b))" and "placed (heap (sysm b))" and "memtblsize (heap (sysm b)) = 1280"
    and "7744 < unat mempsize" and "unat mempsize \<le> 2097120"
    and "lwip_comm_init mempsize fuel D junk uid at0 room a b = Inr (2, b1)"
  shows "init_loop n (lwip_comm_init mempsize fuel D junk uid at0 room a) later b = Inl Still_Running"
proof (cases n)
  case (Suc k)
  have "init_loop k (lwip_comm_init mempsize fuel D junk uid at0 room a) later (b1\<lparr>eth := later (eth b1)\<rparr>) = Inl Still_Running"
  proof (rule loop_stuck [where P = "\<lambda>b. half_taken (heap (sysm b))"])
    show "half_taken (heap (sysm (b1\<lparr>eth := later (eth b1)\<rparr>)))" using failed_init_takes [OF assms] by simp
    show "\<exists>r b'. lwip_comm_init mempsize fuel D junk uid at0 room a b = Inr (r, b') \<and> r \<noteq> 0 \<and> half_taken (heap (sysm b'))"
      if "half_taken (heap (sysm b))" for b
      by (rule half_taken_refuses [OF that assms(4,5)]) (use that in \<open>simp add: lwip_comm_init_def\<close>)
  qed simp
  then show ?thesis using assms(6) Suc by simp
qed simp

section \<open>The kernel before its start\<close>

text \<open>A kernel that has been initialised and not started, with the tasks \<open>T\<close>, \<open>f\<close> free control blocks and the reserved priorities \<open>R\<close>.\<close>

definition booted_with :: "os \<Rightarrow> (nat \<times> u32) list \<Rightarrow> nat set \<Rightarrow> nat \<Rightarrow> nat set \<Rightarrow> bool" where
  "booted_with s l T f R \<longleftrightarrow> booted s l \<and> OSTCBPrioTbl s = (\<lambda>p. if p \<in> T then Some no_task else None) \<and> OSTCBFree s = f \<and> OSTCBReserved s = R"

lemma booted_still: "booted_with s l T f R \<Longrightarrow> \<not> OSRunning s \<and> OSIntNesting s = 0"
  using booted_ok [of s l] by (simp add: booted_with_def boot_ok_def)

lemma booted_init:
  "\<exists>s. OSInit s0 = Inr s \<and> booted_with s [] {62, 63} 20 {} \<and> OSEventFreeList s = [0..<15] \<and> OSQFreeList s = [0..<5]"
proof -
  note d = OSInit_def OS_QInit_def OS_InitEventList_def OS_InitTCBList_def OS_InitRdyList_def OS_InitMisc_def OSTaskCreate_def OS_TCBInit_def
    put_tcb_def Let_def
  have "\<exists>s. OSInit s0 = Inr s" by (simp add: d cong: if_cong)
  then obtain s where s: "OSInit s0 = Inr s" ..
  then have "OSTCBPrioTbl s = (\<lambda>p. if p \<in> {62, 63} then Some no_task else None) \<and> OSTCBFree s = 20 \<and> OSTCBReserved s = {} \<and>
      OSEventFreeList s = [0..<15] \<and> OSQFreeList s = [0..<5]"
    by (auto simp: d no_task_def fun_eq_iff cong: if_cong)
  then show ?thesis using s booted.init [OF s] by (simp add: booted_with_def)
qed

lemma booted_task:
  assumes b: "booted_with s l T (Suc f) R" and p: "p < 64" "p \<notin> T" "p \<notin> R"
  obtains s' where "OSTaskCreate p s = Inr (0, s')" "booted_with s' l (insert p T) f R" "OSEventFreeList s' = OSEventFreeList s"
    "OSQFreeList s' = OSQFreeList s" "OSEventTbl s' = OSEventTbl s"
proof -
  define s' where "s' = s\<lparr>OSTCBFree := f, OSTCBPrioTbl := (OSTCBPrioTbl s)(p \<mapsto> no_task), OSTCBList := p # OSTCBList s, rdy_list := mark p (rdy_list s)\<rparr>"
  have r: "OSTaskCreate p s = Inr (0, s')"
    using b p booted_still [OF b] by (simp add: booted_with_def OSTaskCreate_def OS_TCBInit_def put_tcb_def Let_def s'_def no_task_def)
  have "booted s' l" using booted.task [OF _ r] b by (simp add: booted_with_def)
  then have "booted_with s' l (insert p T) f R" using b by (auto simp: booted_with_def s'_def fun_eq_iff)
  then show thesis using that r by (simp add: s'_def)
qed

text \<open>An event that has been created and that nobody has used, and nobody waits for.\<close>

definition fresh_event :: "os \<Rightarrow> nat \<Rightarrow> u8 \<Rightarrow> u16 \<Rightarrow> bool" where
  "fresh_event s ev type cnt \<longleftrightarrow> (\<exists>e. OSEventTbl s ev = Some e \<and> OSEventType e = type \<and> OSEventCnt e = cnt \<and> Grp (wait_list e) = 0)"

definition others_kept :: "nat \<Rightarrow> os \<Rightarrow> os \<Rightarrow> bool" where
  "others_kept ev s s' \<longleftrightarrow> (\<forall>x. x \<noteq> ev \<longrightarrow> OSEventTbl s' x = OSEventTbl s x)"

lemma fresh_kept: "others_kept ev s s' \<Longrightarrow> x \<noteq> ev \<Longrightarrow> fresh_event s x type cnt \<Longrightarrow> fresh_event s' x type cnt"
  by (simp add: fresh_event_def others_kept_def)

lemma fresh_same: "OSEventTbl s' = OSEventTbl s \<Longrightarrow> fresh_event s x type cnt \<Longrightarrow> fresh_event s' x type cnt"
  by (simp add: fresh_event_def)

text \<open>Free event control blocks are there, and creating an event leaves the tasks alone.\<close>

lemma booted_free: "booted_with s l T f R \<Longrightarrow> OSEventFreeList s = ev # evs \<Longrightarrow> \<exists>e. get_event ev s = Inr e"
  using booted_ok [of s l] by (auto simp: booted_with_def boot_ok_def free_ok_def get_event_def)

lemma booted_sem:
  assumes b: "booted_with s l T f R" and e: "OSEventFreeList s = ev # evs"
  obtains s' where "OSSemCreate cnt s = Inr (Some ev, s')" "booted_with s' (l @ replicate (unat cnt) (ev, 0)) T f R" "OSEventFreeList s' = evs"
    "OSQFreeList s' = OSQFreeList s" "fresh_event s' ev OS_EVENT_TYPE_SEM cnt" "others_kept ev s s'"
proof -
  obtain x where x: "get_event ev s = Inr x" using booted_free [OF b e] ..
  then obtain s' where s': "OSSemCreate cnt s = Inr (Some ev, s')" "OSEventFreeList s' = evs" "OSQFreeList s' = OSQFreeList s"
    "fresh_event s' ev OS_EVENT_TYPE_SEM cnt" "others_kept ev s s'" "OSTCBPrioTbl s' = OSTCBPrioTbl s" "OSTCBFree s' = OSTCBFree s" "OSTCBReserved s' = OSTCBReserved s"
    using e booted_still [OF b] by (simp add: OSSemCreate_def Let_def put_event_def get_event_def fresh_event_def others_kept_def no_prios_def)
  then show thesis using that b booted.sem [OF _ s'(1), of l] by (simp add: booted_with_def)
qed

lemma booted_mutex:
  assumes b: "booted_with s l T f R" and e: "OSEventFreeList s = ev # evs" and p: "p < 64" "p \<notin> T" "p \<notin> R"
  obtains s' where "OSMutexCreate p s = Inr (Some ev, 0, s')" "booted_with s' l T f (insert p R)" "OSEventFreeList s' = evs"
    "OSQFreeList s' = OSQFreeList s" "fresh_event s' ev OS_EVENT_TYPE_MUTEX (push_bit 8 (of_nat p) OR 0xFF)" "others_kept ev s s'"
proof -
  obtain x where x: "get_event ev s = Inr x" using booted_free [OF b e] ..
  then obtain s' where s': "OSMutexCreate p s = Inr (Some ev, 0, s')" "OSEventFreeList s' = evs" "OSQFreeList s' = OSQFreeList s"
    "fresh_event s' ev OS_EVENT_TYPE_MUTEX (push_bit 8 (of_nat p) OR 0xFF)" "others_kept ev s s'" "OSTCBPrioTbl s' = OSTCBPrioTbl s" "OSTCBFree s' = OSTCBFree s" "OSTCBReserved s' = insert p (OSTCBReserved s)"
    using e p b booted_still [OF b] by (simp add: OSMutexCreate_def Let_def put_event_def get_event_def booted_with_def fresh_event_def others_kept_def no_prios_def)
  then show thesis using that b booted.mutex [OF _ p(1) s'(1), of l] by (simp add: booted_with_def)
qed

lemma booted_queue:
  assumes b: "booted_with s l T f R" and e: "OSEventFreeList s = ev # evs" "OSQFreeList s = i # qs" and sz: "0 < sz" "unat sz \<le> length start"
  obtains s' where "OSQCreate start sz s = Inr (Some ev, s')" "booted_with s' l T f R" "OSEventFreeList s' = evs" "OSQFreeList s' = qs"
    "others_kept ev s s'"
proof -
  obtain x where x: "get_event ev s = Inr x" using booted_free [OF b e(1)] ..
  then obtain s' where s': "OSQCreate start sz s = Inr (Some ev, s')" "OSEventFreeList s' = evs" "OSQFreeList s' = qs"
    "others_kept ev s s'" "OSTCBPrioTbl s' = OSTCBPrioTbl s" "OSTCBFree s' = OSTCBFree s" "OSTCBReserved s' = OSTCBReserved s"
    using e booted_still [OF b] by (simp add: OSQCreate_def Let_def put_event_def put_q_def get_event_def others_kept_def)
  then show thesis using that b booted.queue [OF _ sz s'(1), of l] by (simp add: booted_with_def)
qed

text \<open>The task that runs is the one of the highest priority that is ready; a ready task has no delay and no bit of its status set.\<close>

definition ready :: "os_tcb \<Rightarrow> bool" where
  "ready t \<longleftrightarrow> OSTCBStat t = 0 \<and> OSTCBDly t = 0"

lemma in_ready_list: "base_ok s c \<Longrightarrow> p \<in> prios_of (rdy_list s) \<longleftrightarrow> (\<exists>t. OSTCBPrioTbl s p = Some t \<and> ready t)"
  by (cases "OSTCBPrioTbl s p") (auto simp: base_ok_def task_ok_def ready_def)

lemma runs_first:
  assumes o: "os_ok s c" "OSIntNesting s = 0" "OSLockNesting s = 0" and p: "OSTCBPrioTbl s p = Some t" "ready t"
    and le: "\<And>q u. OSTCBPrioTbl s q = Some u \<Longrightarrow> ready u \<Longrightarrow> p \<le> q"
  shows "OSPrioCur s = p"
proof -
  have b: "base_ok s c" and m: "OSPrioCur s = Min (prios_of (rdy_list s))" using o by (simp_all add: os_ok_def)
  show ?thesis unfolding m
  proof (rule Min_eqI [OF pl.finite_prios [OF base_okD(1) [OF b]]])
    show "p \<in> prios_of (rdy_list s)" using p in_ready_list [OF b] by blast
    show "p \<le> q" if "q \<in> prios_of (rdy_list s)" for q using that in_ready_list [OF b] le by blast
  qed
qed

lemma runs_ready:
  assumes o: "os_ok s c" "OSIntNesting s = 0" "OSLockNesting s = 0"
  obtains t where "OSTCBPrioTbl s (OSPrioCur s) = Some t" "ready t" "\<And>q u. OSTCBPrioTbl s q = Some u \<Longrightarrow> ready u \<Longrightarrow> OSPrioCur s \<le> q"
proof -
  have b: "base_ok s c" and m: "OSPrioCur s = Min (prios_of (rdy_list s))" using o by (simp_all add: os_ok_def)
  note fin = pl.finite_prios [OF base_okD(1) [OF b]]
  have "prios_of (rdy_list s) \<noteq> {}" using b by (auto simp: base_ok_def)
  then have "OSPrioCur s \<in> prios_of (rdy_list s)" unfolding m by (rule Min_in [OF fin])
  then obtain t where "OSTCBPrioTbl s (OSPrioCur s) = Some t" "ready t" using in_ready_list [OF b] by blast
  moreover have "OSPrioCur s \<le> q" if "OSTCBPrioTbl s q = Some u" "ready u" for q u
    unfolding m by (rule Min_le [OF fin]) (use that in_ready_list [OF b] in blast)
  ultimately show thesis by (rule that)
qed

text \<open>The start picks the first of the tasks.\<close>

lemma booted_start:
  assumes b: "booted_with s l T f R" and p: "p \<in> T" "\<forall>q \<in> T. p \<le> q"
  shows "reached \<lparr>kern = OSStart s, pc = \<lambda>_. None, posted = l, taken = [], got = []\<rparr>" and "OSPrioCur (OSStart s) = p"
    and "{q. OSTCBPrioTbl (OSStart s) q \<noteq> None} = T"
proof -
  let ?w = "\<lparr>kern = OSStart s, pc = \<lambda>_. None, posted = l, taken = [], got = []\<rparr> :: world"
  have bt: "booted s l" using b by (simp add: booted_with_def)
  show r: "reached ?w" by (rule reached.start [OF bt])
  have f: "OSTCBPrioTbl (OSStart s) = (\<lambda>p. if p \<in> T then Some no_task else None)" "OSIntNesting (OSStart s) = 0" "OSLockNesting (OSStart s) = 0"
    using b booted_ok [OF bt] by (simp_all add: booted_with_def boot_ok_def OSStart_def OS_SchedNew_def Let_def)
  show "{q. OSTCBPrioTbl (OSStart s) q \<noteq> None} = T" by (auto simp: f(1))
  have o: "os_ok (OSStart s) (\<lambda>_. None)" using world_okD(1) [OF reached_ok [OF r]] by simp
  show "OSPrioCur (OSStart s) = p"
    by (rule runs_first [OF o f(2,3), of p no_task]) (use p f(1) in \<open>auto simp: ready_def no_task_def split: if_splits\<close>)
qed

section \<open>A start that succeeds\<close>

definition needed :: "mem_pool \<Rightarrow> u32 \<Rightarrow> nat" where
  "needed h mempsize = sum_list (map (ceil_blocks h) (sizes mempsize))"

lemma mem_malloc_low:
  assumes "ready_pool (heap (sysm b))" and "placed (heap (sysm b))" and "low_free k (heap (sysm b))" and "mempsize \<noteq> 0" "unat mempsize \<le> 2097120"
    and "needed (heap (sysm b)) mempsize \<le> k"
  obtains ps m where "lwip_comm_mem_malloc mempsize b = Inr (0, set_pointers ps (set_heap ((heap (sysm b))\<lparr>memmap := m\<rparr>) b))"
    "ready_pool ((heap (sysm b))\<lparr>memmap := m\<rparr>)" "low_free (k - needed (heap (sysm b)) mempsize) ((heap (sysm b))\<lparr>memmap := m\<rparr>)"
proof -
  let ?h = "heap (sysm b)"
  obtain ps m where m: "mallocs ?h (sizes mempsize) = Inr (ps, ?h\<lparr>memmap := m\<rparr>)" "0 \<notin> set ps" "ready_pool (?h\<lparr>memmap := m\<rparr>)"
    "low_free (k - needed ?h mempsize) (?h\<lparr>memmap := m\<rparr>)"
    using mallocs_low [OF assms(1,2,3) sizes_ok [OF assms(4,5)]] assms(6) unfolding needed_def by blast
  show thesis using that [of ps m] m mem_malloc_lists [OF m(1)] by (simp add: Let_def)
qed

lemma tcpip_init_ok:
  assumes h: "ready_pool (heap (sysm b))" "placed (heap (sysm b))" "low_free k (heap (sysm b))" "3 \<le> k"
    and bw: "booted_with (ucos (sysm b)) l T (Suc f) R" "OSEventFreeList (ucos (sysm b)) = m # ev # evs" "OSQFreeList (ucos (sysm b)) = i # qs"
      and new: "m \<noteq> ev" and five: "5 \<notin> T" "5 \<notin> R"
  obtains s' mbox l' where "tcpip_init b = Inr (b\<lparr>sysm := s', mem_mutex := Some m, tcpip_mbox := mbox\<rparr>)" "booted_with (ucos s') l' (insert 5 T) f R"
    "mboxes s' mbox \<noteq> None" "fresh_event (ucos s') m OS_EVENT_TYPE_SEM 1"
    "\<And>x type cnt. x \<noteq> m \<Longrightarrow> x \<noteq> ev \<Longrightarrow> fresh_event (ucos (sysm b)) x type cnt \<Longrightarrow> fresh_event (ucos s') x type cnt"
proof -
  obtain k1 where k1: "OSSemCreate 1 (ucos (sysm b)) = Inr (Some m, k1)" "booted_with k1 (l @ replicate (unat (1 :: u16)) (m, 0)) T (Suc f) R"
    "OSEventFreeList k1 = ev # evs" "OSQFreeList k1 = OSQFreeList (ucos (sysm b))" "fresh_event k1 m OS_EVENT_TYPE_SEM 1" "others_kept m (ucos (sysm b)) k1"
    by (rule booted_sem [OF bw(1,2)])
  define s1 where "s1 = (sysm b)\<lparr>ucos := k1\<rparr>"
  have s1: "heap s1 = heap (sysm b)" "ucos s1 = k1" by (simp_all add: s1_def)
  have li: "lwip_init b = Inr (b\<lparr>sysm := s1, mem_mutex := Some m\<rparr>)" using k1(1) by (simp add: lwip_init_def mem_init_def sys_sem_new_def s1_def)
  have sz: "sizeof_TQ_DESCR \<noteq> 0" "unat sizeof_TQ_DESCR \<le> 2097120" "ceil_blocks (heap s1) sizeof_TQ_DESCR \<le> k"
    using h(4) ready_poolD(3) [OF h(1)] s1 by (simp_all add: sizeof_TQ_DESCR_def ceil_blocks_def)
  have h1: "ready_pool (heap s1)" "placed (heap s1)" "low_free k (heap s1)" using h(1-3) s1 by simp_all
  obtain mm where mm: "mymalloc (heap s1) sizeof_TQ_DESCR = Inr (block_ptr (heap s1) (k - ceil_blocks (heap s1) sizeof_TQ_DESCR), (heap s1)\<lparr>memmap := mm\<rparr>)"
    "block_ptr (heap s1) (k - ceil_blocks (heap s1) sizeof_TQ_DESCR) \<noteq> 0"
    by (rule mymalloc_low [OF h1 sz])
  define mb where "mb = block_ptr (heap s1) (k - ceil_blocks (heap s1) sizeof_TQ_DESCR)"
  have q: "OSQFreeList k1 = i # qs" using bw(3) k1(4) by simp
  obtain k2 where k2: "OSQCreate (replicate 20 0) 20 (ucos s1) = Inr (Some ev, k2)" "booted_with k2 (l @ replicate (unat (1 :: u16)) (m, 0)) T (Suc f) R"
    "others_kept ev k1 k2"
    unfolding s1(2) by (rule booted_queue [OF k1(2,3) q, of 20 "replicate 20 0"]) simp_all
  obtain k3 where k3: "OSTaskCreate 5 k2 = Inr (0, k3)" "booted_with k3 (l @ replicate (unat (1 :: u16)) (m, 0)) (insert 5 T) f R" "OSEventTbl k3 = OSEventTbl k2"
    by (rule booted_task [OF k2(2) _ five]) simp_all
  let ?s = "s1\<lparr>heap := (heap s1)\<lparr>memmap := mm\<rparr>, ucos := k3, mboxes := (mboxes s1)(mb \<mapsto> ev)\<rparr>"
  have "sys_mbox_new 20 s1 = Inr (ERR_OK, mb, s1\<lparr>heap := (heap s1)\<lparr>memmap := mm\<rparr>, ucos := k2, mboxes := (mboxes s1)(mb \<mapsto> ev)\<rparr>)"
    using mm k2(1) by (simp add: sys_mbox_new_def mb_def Let_def)
  then have "tcpip_init b = Inr (b\<lparr>sysm := ?s, mem_mutex := Some m, tcpip_mbox := mb\<rparr>)"
    using li k3(1) by (simp add: tcpip_init_def sys_thread_new_def)
  moreover have "fresh_event k3 m OS_EVENT_TYPE_SEM 1" by (rule fresh_same [OF k3(3)], rule fresh_kept [OF k2(3) new k1(5)])
  moreover have "fresh_event k3 x type cnt" if "x \<noteq> m" "x \<noteq> ev" "fresh_event (ucos (sysm b)) x type cnt" for x type cnt
    by (rule fresh_same [OF k3(3)], rule fresh_kept [OF k2(3) that(2)], rule fresh_kept [OF k1(6) that(1,3)])
  ultimately show thesis using that [of mb ?s] k3(2) by simp
qed

section \<open>The ARP packet of the start\<close>

text \<open>The heap of lwIP is used and given back; the kernel is as before.\<close>

lemma mem_section_ok:
  assumes m: "mem_mutex b = Some m" "fresh_event (ucos (sysm b)) m OS_EVENT_TYPE_SEM 1" and bw: "booted_with (ucos (sysm b)) l T f R"
  shows "mem_section b = Inr b"
proof -
  let ?k = "ucos (sysm b)"
  obtain e where e: "OSEventTbl ?k m = Some e" "OSEventType e = OS_EVENT_TYPE_SEM" "OSEventCnt e = 1" "Grp (wait_list e) = 0"
    using m(2) by (auto simp: fresh_event_def)
  have n: "OSIntNesting ?k = 0" "OSLockNesting ?k = 0" using bw booted_ok [of ?k l] by (simp_all add: booted_with_def boot_ok_def)
  have "e\<lparr>OSEventCnt := 1\<rparr> = e" using e(3) by (cases e) simp
  then have "put_event m (e\<lparr>OSEventCnt := 1\<rparr>) (put_event m (e\<lparr>OSEventCnt := 0\<rparr>) ?k) = ?k"
    using e(1) by (cases ?k) (simp add: put_event_def fun_upd_idem)
  then have "b\<lparr>sysm := (sysm b)\<lparr>ucos := put_event m (e\<lparr>OSEventCnt := 1\<rparr>) (put_event m (e\<lparr>OSEventCnt := 0\<rparr>) ?k)\<rparr>\<rparr> = b"
    by (cases b, cases "sysm b") simp
  moreover have "sys_arch_sem_wait m 0 (sysm b) =
      Inr (Waited (sem_waited OS_ERR_NONE (OSTimeGet ?k) (OSTimeGet ?k)) (), (sysm b)\<lparr>ucos := put_event m (e\<lparr>OSEventCnt := 0\<rparr>) ?k\<rparr>)"
    using e n by (simp add: sys_arch_sem_wait_def OSSemPend_def get_event_def OSTimeGet_def put_event_def)
  moreover have "sys_sem_signal m ((sysm b)\<lparr>ucos := put_event m (e\<lparr>OSEventCnt := 0\<rparr>) ?k\<rparr>) =
      Inr ((sysm b)\<lparr>ucos := put_event m (e\<lparr>OSEventCnt := 1\<rparr>) (put_event m (e\<lparr>OSEventCnt := 0\<rparr>) ?k)\<rparr>)"
    using e by (simp add: sys_sem_signal_def OSSemPost_def get_event_def put_event_def)
  ultimately show ?thesis by (simp add: mem_section_def m(1))
qed

lemma early_words:
  fixes p :: u8
  shows "drop_bit 8 (ucast p :: u16) = 0" and "(0x200 OR ucast p) OR 0xFF = (0x2FF :: u16)" and "(ucast p :: u16) = 2 \<longleftrightarrow> p = 2"
proof -
  show "drop_bit 8 (ucast p :: u16) = 0"
    by (rule bit_word_eqI) (auto simp: bit_simps dest: bit_imp_le_length)
  have "ucast p OR mask 8 = (mask 8 :: u16)"
    by (rule bit_word_eqI) (auto simp: bit_simps dest: bit_imp_le_length)
  then have "ucast p OR 0xFF = (0xFF :: u16)" by (simp add: mask_eq_exp_minus_1)
  then show "(0x200 OR ucast p) OR 0xFF = (0x2FF :: u16)" by (simp add: or.assoc)
  show "(ucast p :: u16) = 2 \<longleftrightarrow> p = 2" by (auto simp: word_unat_eq_iff)
qed

text \<open>The mutex of the driver is taken and given back through the null pointer: a fault, or no trace.\<close>

lemma early_mutex:
  assumes f: "fresh_event k ev OS_EVENT_TYPE_MUTEX (push_bit 8 (of_nat 2) OR 0xFF)" and bw: "booted_with k l T f R" and two: "2 \<notin> T" "2 \<in> R"
  shows "ebind (early_pend at0 ev k) (\<lambda>k1. ebind (early_post at0 ev k1) F) =
    (if at0 = None \<or> at0 = Some 2 then Inl Bad_Pointer else F k)"
proof -
  obtain e where e: "OSEventTbl k ev = Some e" "OSEventType e = OS_EVENT_TYPE_MUTEX" "OSEventCnt e = 0x2FF" "Grp (wait_list e) = 0"
    using f by (auto simp: fresh_event_def)
  have n: "OSIntNesting k = 0" "OSLockNesting k = 0" using bw booted_ok [of k l] by (simp_all add: booted_with_def boot_ok_def)
  show ?thesis
  proof (cases at0)
    case None
    then show ?thesis using e n by (simp add: early_pend_def get_event_def)
  next
    case (Some p)
    let ?k1 = "put_event ev (e\<lparr>OSEventCnt := 0x200 OR ucast p\<rparr>) k"
    have p1: "early_pend at0 ev k = Inr ?k1" using e n by (simp add: early_pend_def get_event_def Some)
    have "e\<lparr>OSEventCnt := 0x2FF\<rparr> = e" using e(3) by (cases e) simp
    moreover have "(OSTCBPrioTbl k)(2 := None) = OSTCBPrioTbl k" "insert 2 (OSTCBReserved k) = OSTCBReserved k"
      using bw two by (auto simp: booted_with_def fun_eq_iff)
    ultimately have "put_event ev (e\<lparr>OSEventCnt := 0x2FF\<rparr>)
        (?k1\<lparr>OSTCBPrioTbl := (OSTCBPrioTbl ?k1)(2 := None), OSTCBReserved := insert 2 (OSTCBReserved ?k1)\<rparr>) = k"
      using e(1) by (cases k) (simp add: put_event_def fun_upd_idem)
    then have restored: "put_event ev ((e\<lparr>OSEventCnt := 0x200 OR ucast p\<rparr>)\<lparr>OSEventCnt := (0x200 OR ucast p) OR 0x00FF\<rparr>)
        (?k1\<lparr>OSTCBPrioTbl := (OSTCBPrioTbl ?k1)(unat (2 :: u16) := None), OSTCBReserved := insert (unat (2 :: u16)) (OSTCBReserved ?k1)\<rparr>) = k"
      by (simp add: early_words(2))
    have ge: "get_event ev ?k1 = Inr (e\<lparr>OSEventCnt := 0x200 OR ucast p\<rparr>)" by (simp add: get_event_def put_event_def)
    have c: "OSEventCnt (e\<lparr>OSEventCnt := 0x200 OR ucast p\<rparr>) = 0x200 OR ucast p" "OSEventType (e\<lparr>OSEventCnt := 0x200 OR ucast p\<rparr>) = 4"
      "Grp (wait_list (e\<lparr>OSEventCnt := 0x200 OR ucast p\<rparr>)) = 0" "OSIntNesting ?k1 = 0"
      using e n by (simp_all add: put_event_def)
    have dr: "drop_bit 8 (0x200 OR ucast p :: u16) = 2" by (simp add: early_words(1))
    have p2: "early_post at0 ev ?k1 = (if p = 2 then Inl Bad_Pointer else Inr k)"
      unfolding early_post_def ge ebind_Inr Some option.case Let_def c dr early_words(3) restored by simp
    show ?thesis using p1 p2 Some by simp
  qed
qed

lemma SendPacket_ready:
  assumes "eth_ready s" and "can_send s p fuel"
  obtains s' where "low_level_output fuel dm9k_chip p s = Inr (0, s')" "eth_ready s'"
    "sent_frames (chip s') = sent_frames (chip s) @ [chain_bytes p]"
proof -
  obtain s' where t: "DM9000_SendPacket fuel dm9k_chip p s = Inr s'" "sent_frames (chip s') = sent_frames (chip s) @ [chain_bytes p]"
    "tx_mem (chip s') = []" "regs (chip s') DM9000_ISR = (regs (chip s) DM9000_ISR OR 0x02) AND NOT 0x02"
    "regs (chip s') DM9000_IMR = ucast (imr_all (dm9000cfg s))" "\<not> dm9000lock s'" "busy (chip s') = 0" "dm9000cfg s' = dm9000cfg s"
    using DM9000_SendPacket_ok [OF assms(2)] by blast
  have "eth_ready s'" using assms(1) t clear_bit1 [of "regs (chip s) DM9000_ISR"] by (simp add: eth_ready_def idle_def)
  then show thesis using that t(1,2) by (simp add: low_level_output_def)
qed

definition announcement :: "u8 list \<Rightarrow> u8 list" where
  "announcement m = arp_packet m (replicate 6 0xFF) m 0 (replicate 6 0) 0 1"

lemma netif_set_up_ok:
  fixes b :: "dm9k board"
  assumes n: "flags (lwip_netif b) = 0x32" "ip_addr (lwip_netif b) = 0" "length (hwaddr (lwip_netif b)) = 6"
    and m: "mem_mutex b = Some m" "fresh_event (ucos (sysm b)) m OS_EVENT_TYPE_SEM 1"
    and k: "lock_event b = Some ev" "fresh_event (ucos (sysm b)) ev OS_EVENT_TYPE_MUTEX (push_bit 8 (of_nat 2) OR 0xFF)"
    and bw: "booted_with (ucos (sysm b)) l T f R" "2 \<notin> T" "2 \<in> R" and d: "eth_ready (eth b)" "late (chip (eth b)) < fuel"
  obtains e where "netif_set_up at0 room fuel dm9k_chip b =
      (if room \<and> (at0 = None \<or> at0 = Some 2) then Inl Bad_Pointer
       else Inr (b\<lparr>lwip_netif := (lwip_netif b)\<lparr>flags := 0x33\<rparr>, eth := e\<rparr>))"
    "eth_ready e" "sent_frames (chip e) = sent_frames (chip (eth b)) @ (if room then [announcement (hwaddr (lwip_netif b))] else [])"
proof -
  let ?b = "b\<lparr>lwip_netif := (lwip_netif b)\<lparr>flags := 0x33\<rparr>\<rparr>"
  let ?p = "[\<lparr>payload = announcement (hwaddr (lwip_netif b)), pbuf_len = 42, tot_len = 42\<rparr>]"
  have len: "length (announcement (hwaddr (lwip_netif b))) = 42" using n(3) by (simp add: announcement_def arp_packet_def ip_bytes_def)
  have cb: "chain_bytes ?p = announcement (hwaddr (lwip_netif b))" by (simp add: chain_bytes_def len)
  have cs: "can_send (eth b) ?p fuel" using d by (simp add: can_send_def eth_ready_def cb len)
  obtain e where e: "low_level_output fuel dm9k_chip ?p (eth b) = Inr (0, e)" "eth_ready e"
    "sent_frames (chip e) = sent_frames (chip (eth b)) @ [announcement (hwaddr (lwip_netif b))]"
    by (rule SendPacket_ready [OF d(1) cs]) (simp add: cb)
  have s1: "mem_section ?b = Inr ?b" by (rule mem_section_ok [of _ m l T f R]) (use m bw in simp_all)
  have s2: "mem_section (?b\<lparr>eth := x\<rparr>) = Inr (?b\<lparr>eth := x\<rparr>)" for x by (rule mem_section_ok [of _ m l T f R]) (use m bw in simp_all)
  have su: "set_ucos (ucos (sysm b)) ?b = ?b" by (cases b, cases "sysm b") (simp add: set_ucos_def)
  have out: "early_output at0 fuel dm9k_chip ?p ?b = (if at0 = None \<or> at0 = Some 2 then Inl Bad_Pointer else Inr (0, ?b\<lparr>eth := e\<rparr>))"
    by (simp add: early_output_def k(1) e(1) early_mutex [OF k(2) bw] su)
  have g: "get_bytes (hwaddr (lwip_netif b)) 0 6 = Inr (hwaddr (lwip_netif b))" using n(3) by (simp add: get_bytes_ok)
  have fl: "(0x32 :: u8) OR NETIF_FLAG_UP = 0x33" "(0x33 :: u8) AND NETIF_FLAG_LINK_UP \<noteq> 0" "(0x33 :: u8) AND NETIF_FLAG_ETHARP \<noteq> 0"
    "(0x32 :: u8) AND NETIF_FLAG_UP = 0" by simp_all
  have ann: "arp_packet (hwaddr (lwip_netif b)) ethbroadcast (hwaddr (lwip_netif b)) 0 ethzero 0 ARP_REQUEST = announcement (hwaddr (lwip_netif b))"
    by (simp only: announcement_def ethbroadcast_def ethzero_def)
  have gr: "etharp_gratuitous at0 room fuel dm9k_chip ?b =
      (if \<not> room then Inr (ERR_MEM, ?b) else if at0 = None \<or> at0 = Some 2 then Inl Bad_Pointer else Inr (0, ?b\<lparr>eth := e\<rparr>))"
    using out by (simp add: etharp_gratuitous_def etharp_request_def etharp_raw_def g s1 s2 n(2) ann)
  have up: "netif_set_up at0 room fuel dm9k_chip b = ebind (etharp_gratuitous at0 room fuel dm9k_chip ?b) (\<lambda>(_, b2). Inr b2)"
    unfolding netif_set_up_def Let_def n(1) fl(1) using fl by simp
  show thesis
  proof (cases room)
    case True
    then show thesis using that [of e] up gr e(2,3) by simp
  next
    case False
    have "?b\<lparr>eth := eth b\<rparr> = ?b" by (cases b) simp
    then show thesis using that [of "eth b"] up gr False d(1) by simp
  qed
qed

text \<open>The configuration read from the memory has the lengths of its arrays.\<close>

definition config_ok :: "'e acu \<Rightarrow> bool" where
  "config_ok a \<longleftrightarrow> length (g_lwipADD a) = 4 \<and> length (g_Setip a) = 5 \<and> length (g_Setnetmask a) = 4 \<and> length (g_Setgateway a) = 4"

lemma default_ip_ok:
  assumes "config_ok a" and "cfg = init_config uid"
  obtains d where "lwip_comm_default_ip_set a cfg d0 = Inr d" "ip d = tl (g_Setip a)" "dev_netmask d = g_Setnetmask a" "gateway d = g_Setgateway a"
    "mac d = mac_addr (init_config uid)" "dhcpstatus d = 0"
proof -
  have l: "length (mac_addr cfg) = 6" by (simp add: assms(2) init_config_def)
  have "get_bytes (g_Setip a) 1 4 = Inr (take 4 (drop 1 (g_Setip a)))" using assms(1) by (intro get_bytes_ok) (simp add: config_ok_def)
  then have "get_bytes (g_Setip a) 1 4 = Inr (tl (g_Setip a))" using assms(1) by (simp add: config_ok_def drop_Suc)
  then show thesis using that assms l by (simp add: lwip_comm_default_ip_set_def get_bytes_ok config_ok_def)
qed

text \<open>The ARP packet of the start is sent through a null pointer that cannot be read, or is taken for a task with the priority of the mutex.\<close>

definition start_faults :: "u8 option \<Rightarrow> bool \<Rightarrow> bool" where
  "start_faults at0 room \<longleftrightarrow> room \<and> (at0 = None \<or> at0 = Some 2)"

lemma lwip_comm_init_ok:
  fixes b :: "dm9k board"
  assumes h: "ready_pool (heap (sysm b))" "placed (heap (sysm b))" "low_free k (heap (sysm b))" "needed (heap (sysm b)) mempsize + 3 \<le> k"
    and ms: "mempsize \<noteq> 0" "unat mempsize \<le> 2097120" and d: "late (chip (eth b)) < fuel" "\<not> dm9000lock (eth b)" and c: "config_ok a"
    and bw: "booted_with (ucos (sysm b)) [] {62, 63} 20 {}" "OSEventFreeList (ucos (sysm b)) = [0..<15]" "OSQFreeList (ucos (sysm b)) = [0..<5]"
  obtains b' l where "lwip_comm_init mempsize fuel dm9k_chip junk uid at0 room a b = (if start_faults at0 room then Inl Bad_Pointer else Inr (0, b'))"
    "booted_with (ucos (sysm b')) l {5, 6, 7, 62, 63} 17 {2}"
    "eth_ready (eth b')" "input_event b' = Some 0" "lock_event b' = Some 1" "mem_mutex b' = Some 2" "mboxes (sysm b') (tcpip_mbox b') \<noteq> None"
    "ip (lwipdev b') = tl (g_Setip a)" "hwaddr (lwip_netif b') = mac_addr (init_config uid)" "flags (lwip_netif b') AND NETIF_FLAG_UP \<noteq> 0"
    "sent_frames (chip (eth b')) = sent_frames (chip (eth b)) @ (if room then [announcement (mac_addr (init_config uid))] else [])"
proof -
  let ?h = "heap (sysm b)"
  have nk: "needed ?h mempsize \<le> k" using h(4) by simp
  obtain ps m where m: "lwip_comm_mem_malloc mempsize b = Inr (0, set_pointers ps (set_heap (?h\<lparr>memmap := m\<rparr>) b))"
    "ready_pool (?h\<lparr>memmap := m\<rparr>)" "low_free (k - needed ?h mempsize) (?h\<lparr>memmap := m\<rparr>)"
    by (rule mem_malloc_low [OF h(1-3) ms nk])
  define b1 where "b1 = set_pointers ps (set_heap (?h\<lparr>memmap := m\<rparr>) b)"
  have u1: "ucos (sysm b1) = ucos (sysm b)" "eth b1 = eth b" "heap (sysm b1) = ?h\<lparr>memmap := m\<rparr>" by (simp_all add: b1_def)
  have e15: "OSEventFreeList (ucos (sysm b)) = 0 # [1..<15]" using bw(2) by (simp add: upt_conv_Cons)
  obtain k1 where k1: "OSSemCreate 0 (ucos (sysm b)) = Inr (Some 0, k1)" "booted_with k1 [] {62, 63} 20 {}" "OSEventFreeList k1 = [1..<15]"
    "OSQFreeList k1 = [0..<5]"
    by (rule booted_sem [OF bw(1) e15, of 0]) (use bw(3) in simp)
  have e14: "OSEventFreeList k1 = 1 # [2..<15]" using k1(3) by (simp add: upt_conv_Cons)
  obtain k2 where k2: "OSMutexCreate 2 k1 = Inr (Some 1, 0, k2)" "booted_with k2 [] {62, 63} 20 {2}" "OSEventFreeList k2 = [2..<15]"
    "OSQFreeList k2 = [0..<5]" "fresh_event k2 1 OS_EVENT_TYPE_MUTEX (push_bit 8 (of_nat 2) OR 0xFF)"
    by (rule booted_mutex [OF k1(2) e14, of 2]) (use k1(4) in simp_all)
  have "0 < fuel" using d(1) by simp
  from DM9000_Init_ok [OF this d(2)] obtain e where e: "DM9000_Init fuel dm9k_chip junk uid (eth b) = Inr (0, e)" "eth_ready e" "dm9000cfg e = init_config uid"
    "late (chip e) = late (chip (eth b))" "sent_frames (chip e) = sent_frames (chip (eth b))"
    by blast
  define b3 where "b3 = (set_ucos k2 b1)\<lparr>input_event := Some 0, lock_event := Some (Suc 0), eth := e\<rparr>"
  have f3: "heap (sysm b3) = ?h\<lparr>memmap := m\<rparr>" "ucos (sysm b3) = k2" "eth b3 = e" using u1 by (simp_all add: b3_def)
  have t1: "ready_pool (heap (sysm b3))" "placed (heap (sysm b3))" "low_free (k - needed ?h mempsize) (heap (sysm b3))" "3 \<le> k - needed ?h mempsize"
    "OSEventFreeList (ucos (sysm b3)) = 2 # 3 # [4..<15]" "OSQFreeList (ucos (sysm b3)) = 0 # [1..<5]"
    using m(2,3) h(2,4) k2(3,4) by (simp_all add: f3 upt_conv_Cons)
  have t2: "booted_with (ucos (sysm b3)) [] {62, 63} (Suc 19) {2}" using k2(2) by (simp add: f3)
  obtain s4 mbox l where s4: "tcpip_init b3 = Inr (b3\<lparr>sysm := s4, mem_mutex := Some 2, tcpip_mbox := mbox\<rparr>)" "booted_with (ucos s4) l {5, 62, 63} 19 {2}"
    "mboxes s4 mbox \<noteq> None" "fresh_event (ucos s4) 2 OS_EVENT_TYPE_SEM 1"
    "\<And>x type cnt. x \<noteq> 2 \<Longrightarrow> x \<noteq> 3 \<Longrightarrow> fresh_event (ucos (sysm b3)) x type cnt \<Longrightarrow> fresh_event (ucos s4) x type cnt"
    by (rule tcpip_init_ok [OF t1(1-4) t2 t1(5,6)]) simp_all
  have mx: "fresh_event (ucos s4) 1 OS_EVENT_TYPE_MUTEX (push_bit 8 (of_nat 2) OR 0xFF)" by (rule s4(5)) (use k2(5) f3(2) in simp_all)
  obtain dv where dv: "lwip_comm_default_ip_set a (dm9000cfg e) (lwipdev b3) = Inr dv" "ip dv = tl (g_Setip a)" "mac dv = mac_addr (init_config uid)"
    by (rule default_ip_ok [OF c e(3), of "lwipdev b3"]) blast
  have t3: "booted_with (ucos s4) l {5, 62, 63} (Suc 18) {2}" using s4(2) by simp
  obtain k5 where k5: "OSTaskCreate 6 (ucos s4) = Inr (0, k5)" "booted_with k5 l {6, 5, 62, 63} (Suc 17) {2}"
    by (rule booted_task [OF t3, of 6]) simp_all
  obtain k6 where k6: "OSTaskCreate 7 k5 = Inr (0, k6)" "booted_with k6 l {7, 6, 5, 62, 63} 17 {2}"
    by (rule booted_task [OF k5(2), of 7]) simp_all
  define nf where "nf = snd (netif_add dv 0 0 0 (lwip_netif b3))"
  have na: "netif_add dv 0 0 0 (lwip_netif b3) = (True, nf)" by (simp add: nf_def netif_add_def ethernetif_init_def Let_def)
  have ml: "length (mac_addr (init_config uid)) = 6" by (simp add: init_config_def)
  have nu: "hwaddr nf = mac_addr (init_config uid)" "flags nf = 0x32" "ip_addr nf = 0"
    using dv(3) by (simp_all add: nf_def netif_add_def ethernetif_init_def low_level_init_def Let_def)
  define b5 where "b5 = b3\<lparr>sysm := s4, mem_mutex := Some 2, tcpip_mbox := mbox, lwipdev := dv, lwip_netif := nf\<rparr>"
  obtain e' where e': "netif_set_up at0 room fuel dm9k_chip b5 =
      (if room \<and> (at0 = None \<or> at0 = Some 2) then Inl Bad_Pointer
       else Inr (b5\<lparr>lwip_netif := (lwip_netif b5)\<lparr>flags := 0x33\<rparr>, eth := e'\<rparr>))"
    "eth_ready e'" "sent_frames (chip e') = sent_frames (chip (eth b5)) @ (if room then [announcement (hwaddr (lwip_netif b5))] else [])"
    by (rule netif_set_up_ok [of b5 2 1 l "{5, 62, 63}" 19 "{2}" fuel at0 room])
       (use nu ml s4(2,4) mx e(2,4) d(1) f3 in \<open>simp_all add: b5_def b3_def\<close>)
  define b6 where "b6 = b5\<lparr>lwip_netif := nf\<lparr>flags := 0x33\<rparr>, eth := e'\<rparr>"
  define b' where "b' = set_ucos k6 b6"
  have u6: "ucos (sysm b6) = ucos s4" by (simp add: b6_def b5_def)
  have up: "netif_set_up at0 room fuel dm9k_chip b5 = (if start_faults at0 room then Inl Bad_Pointer else Inr b6)"
    using e'(1) by (simp add: start_faults_def b6_def) (simp add: b5_def)
  have b4: "lwipdev (b3\<lparr>sysm := s4, mem_mutex := Some 2, tcpip_mbox := mbox\<rparr>) = lwipdev b3"
    "lwip_netif (b3\<lparr>sysm := s4, mem_mutex := Some 2, tcpip_mbox := mbox\<rparr>) = lwip_netif b3"
    "eth (b3\<lparr>sysm := s4, mem_mutex := Some 2, tcpip_mbox := mbox\<rparr>) = e" using f3(3) by simp_all
  have "set_ucos k6 (set_ucos k5 b6) = b'" by (simp add: b'_def set_ucos_def)
  then have tail: "ebind (Inr b6) (\<lambda>b6. ebind (OSTaskCreate 6 (ucos (sysm b6))) (\<lambda>(_, k3). ebind (lwip_comm_dhcp_creat (set_ucos k3 b6)) (\<lambda>b7. Inr (0, b7)))) = Inr (0 :: u8, b')"
    using k5(1) k6(1) u6 by (simp add: lwip_comm_dhcp_creat_def)
  have "lwip_comm_init mempsize fuel dm9k_chip junk uid at0 room a b =
      ebind (netif_set_up at0 room fuel dm9k_chip b5) (\<lambda>b6. ebind (OSTaskCreate 6 (ucos (sysm b6))) (\<lambda>(_, k3).
        ebind (lwip_comm_dhcp_creat (set_ucos k3 b6)) (\<lambda>b7. Inr (0, b7))))"
    unfolding lwip_comm_init_def m(1) [folded b1_def] ebind_Inr prod.case Let_def u1 k1(1) k2(1)
    using e(1) s4(1) dv(1) na u1 b4 by (simp add: b3_def [symmetric] b5_def)
  then have "lwip_comm_init mempsize fuel dm9k_chip junk uid at0 room a b = (if start_faults at0 room then Inl Bad_Pointer else Inr (0, b'))"
    unfolding up using tail by (simp only: ebind_Inl split: if_split) simp
  moreover have "insert 7 {6, 5, 62, 63} = {5, 6, 7, 62, 63 :: nat}" by auto
  moreover have "eth b' = e'" "sent_frames (chip (eth b5)) = sent_frames (chip (eth b))" "hwaddr (lwip_netif b5) = mac_addr (init_config uid)"
    using f3(3) e(5) nu(1) by (simp_all add: b'_def b6_def b5_def)
  ultimately show thesis
    using that [of b' l] k6(2) s4(3) e'(2,3) dv(2,3) nu by (simp add: b'_def) (simp add: set_ucos_def b6_def b5_def b3_def)
qed

text \<open>
  C13. The start of the system, from \<open>OSInit\<close> to \<open>OSStart\<close>, with a fresh heap that has room for the network, a chip that answers and a configuration that has been
  read. When the ARP packet that \<open>netif_set_up\<close> sends gets a buffer, \<open>main\<close> takes the mutex of the Ethernet driver before any task runs, through the null
  pointer \<open>OSTCBCur\<close>: it faults if address 0 cannot be read, or if the byte there happens to be 2, the priority of the mutex. Otherwise \<open>main\<close> gets
  through its first attempt, the kernel starts in a state of its invariant with the tasks 5 (TCP/IP), 6 (Ethernet input), 7 (DHCP),
  8 (server connection) and 12 (\<open>start_task\<close>) beside the two of the kernel, and runs the TCP/IP task. The Ethernet driver is ready and has sent that ARP packet
  and nothing else; semaphores, mutex and mailbox exist, and the interface has the MAC address of the chip and is up.
\<close>

theorem main_starts:
  assumes "ready_pool (heap (sysm b))" and "placed (heap (sysm b))" and "low_free k (heap (sysm b))" and "needed (heap (sysm b)) mempsize + 3 \<le> k"
    and "mempsize \<noteq> 0" and "unat mempsize \<le> 2097120" and "late (chip (eth b)) < fuel" and "\<not> dm9000lock (eth b)" and "config_ok a"
  shows "\<exists>b' l. main_start (Suc n) mempsize fuel dm9k_chip junk uid at0 room later a b =
      (if room \<and> (at0 = None \<or> at0 = Some 2) then Inl Bad_Pointer else Inr b') \<and>
    reached \<lparr>kern = ucos (sysm b'), pc = \<lambda>_. None, posted = l, taken = [], got = []\<rparr> \<and>
    OSPrioCur (ucos (sysm b')) = 5 \<and> {p. OSTCBPrioTbl (ucos (sysm b')) p \<noteq> None} = {5, 6, 7, 8, 12, 62, 63} \<and>
    eth_ready (eth b') \<and> sent_frames (chip (eth b')) = sent_frames (chip (eth b)) @ (if room then [announcement (mac_addr (init_config uid))] else []) \<and>
    input_event b' = Some 0 \<and> lock_event b' = Some 1 \<and> mem_mutex b' = Some 2 \<and> mboxes (sysm b') (tcpip_mbox b') \<noteq> None \<and>
    ip (lwipdev b') = tl (g_Setip a) \<and> hwaddr (lwip_netif b') = mac_addr (init_config uid) \<and> flags (lwip_netif b') AND NETIF_FLAG_UP \<noteq> 0"
proof -
  obtain k0 where k0: "OSInit (ucos (sysm b)) = Inr k0" "booted_with k0 [] {62, 63} 20 {}" "OSEventFreeList k0 = [0..<15]" "OSQFreeList k0 = [0..<5]"
    using booted_init by blast
  let ?b = "set_ucos k0 b"
  have pre: "ready_pool (heap (sysm ?b))" "placed (heap (sysm ?b))" "low_free k (heap (sysm ?b))" "needed (heap (sysm ?b)) mempsize + 3 \<le> k"
    "late (chip (eth ?b)) < fuel" "\<not> dm9000lock (eth ?b)" "booted_with (ucos (sysm ?b)) [] {62, 63} 20 {}" "OSEventFreeList (ucos (sysm ?b)) = [0..<15]"
    "OSQFreeList (ucos (sysm ?b)) = [0..<5]"
    using assms k0 by simp_all
  obtain b1 l where b1: "lwip_comm_init mempsize fuel dm9k_chip junk uid at0 room a ?b = (if start_faults at0 room then Inl Bad_Pointer else Inr (0, b1))"
    "booted_with (ucos (sysm b1)) l {5, 6, 7, 62, 63} 17 {2}"
    "eth_ready (eth b1)" "input_event b1 = Some 0" "lock_event b1 = Some 1" "mem_mutex b1 = Some 2" "mboxes (sysm b1) (tcpip_mbox b1) \<noteq> None"
    "ip (lwipdev b1) = tl (g_Setip a)" "hwaddr (lwip_netif b1) = mac_addr (init_config uid)" "flags (lwip_netif b1) AND NETIF_FLAG_UP \<noteq> 0"
    "sent_frames (chip (eth b1)) = sent_frames (chip (eth ?b)) @ (if room then [announcement (mac_addr (init_config uid))] else [])"
    by (rule lwip_comm_init_ok [OF pre(1-4) assms(5,6) pre(5,6) assms(9) pre(7-9)])
  have "booted_with (ucos (sysm b1)) l {5, 6, 7, 62, 63} (Suc 16) {2}" using b1(2) by simp
  then obtain k2 where k2: "OSTaskCreate 8 (ucos (sysm b1)) = Inr (0, k2)" "booted_with k2 l (insert 8 {5, 6, 7, 62, 63}) (Suc 15) {2}"
    by (rule booted_task [of _ _ _ 16 _ 8]) simp_all
  obtain k3 where k3: "OSTaskCreate 12 k2 = Inr (0, k3)" "booted_with k3 l (insert 12 (insert 8 {5, 6, 7, 62, 63})) 15 {2}"
    by (rule booted_task [OF k2(2), of 12]) simp_all
  let ?b' = "set_ucos (OSStart k3) (set_ucos k2 b1)"
  have "main_start (Suc n) mempsize fuel dm9k_chip junk uid at0 room later a b = (if room \<and> (at0 = None \<or> at0 = Some 2) then Inl Bad_Pointer else Inr ?b')"
    using k0(1) b1(1) k2(1) k3(1) by (simp add: main_start_def tcp_client_init_def start_faults_def)
  moreover note st = booted_start [OF k3(2), of 5]
  moreover have "insert 12 (insert 8 {5, 6, 7, 62, 63}) = {5, 6, 7, 8, 12, 62, 63 :: nat}" by auto
  ultimately show ?thesis
    using b1(3-11) by (intro exI [of _ ?b'] exI [of _ l]) (simp add: set_ucos_def)
qed

lemma create_locked:
  assumes "OSIntNesting s = 0" and "0 < OSLockNesting s" and "p < 64" and "OSTCBPrioTbl s p = None" and "p \<notin> OSTCBReserved s" and "0 < OSTCBFree s"
  obtains s' where "OSTaskCreate p s = Inr (0, s')" "OSTCBPrioTbl s' = (OSTCBPrioTbl s)(p \<mapsto> no_task)" "OSTCBFree s' = OSTCBFree s - 1"
    "OSTCBReserved s' = OSTCBReserved s" "OSIntNesting s' = 0" "OSLockNesting s' = OSLockNesting s" "OSPrioCur s' = OSPrioCur s" "OSRunning s' = OSRunning s"
proof -
  let ?s = "s\<lparr>OSTCBFree := OSTCBFree s - 1, OSTCBPrioTbl := (OSTCBPrioTbl s)(p \<mapsto> no_task), OSTCBList := p # OSTCBList s,
    rdy_list := mark p (rdy_list s)\<rparr>"
  have "OSTaskCreate p s = Inr (0, ?s)"
    using assms by (simp add: OSTaskCreate_def OS_TCBInit_def put_tcb_def Let_def no_task_def OS_Sched_def)
  then show thesis using that [of ?s] assms by simp
qed

text \<open>The calls of \<open>start_task\<close> one by one, on the table of tasks.\<close>

lemma start_task_calls:
  assumes c: "OSRunning s" "OSPrioCur s = 12" "OSIntNesting s = 0" "OSLockNesting s = 0" "OSTCBPrioTbl s 12 = Some t" "OSTCBStat t = 0"
    and n: "OSTCBPrioTbl s 9 = None" "OSTCBPrioTbl s 10 = None" "9 \<notin> OSTCBReserved s" "10 \<notin> OSTCBReserved s" and f: "2 \<le> OSTCBFree s"
  obtains s1 s2 s3 where "OSTaskCreate 10 (OSSchedLock s) = Inr (0, s1)" "OSTaskCreate 9 s1 = Inr (0, s2)" "OSTaskSuspend 255 s2 = Inr (0, s3)"
    "OSPrioCur s2 = 12"
    "OSTCBPrioTbl (OSSchedUnlock s3) = (OSTCBPrioTbl s)(10 \<mapsto> no_task, 9 \<mapsto> no_task, 12 \<mapsto> t\<lparr>OSTCBStat := OS_STAT_SUSPEND\<rparr>)"
    "OSIntNesting (OSSchedUnlock s3) = 0" "OSLockNesting (OSSchedUnlock s3) = 0"
proof -
  have s0: "OSSchedLock s = s\<lparr>OSLockNesting := 1\<rparr>" using c(1,3,4) by (simp add: OSSchedLock_def)
  obtain s1 where s1: "OSTaskCreate 10 (OSSchedLock s) = Inr (0, s1)" "OSTCBPrioTbl s1 = (OSTCBPrioTbl s)(10 \<mapsto> no_task)" "OSTCBFree s1 = OSTCBFree s - 1"
    "OSTCBReserved s1 = OSTCBReserved s" "OSIntNesting s1 = 0" "OSLockNesting s1 = 1" "OSPrioCur s1 = 12" "OSRunning s1"
    by (rule create_locked [of "OSSchedLock s" 10]) (use c n f s0 in simp_all)
  obtain s2 where s2: "OSTaskCreate 9 s1 = Inr (0, s2)" "OSTCBPrioTbl s2 = (OSTCBPrioTbl s)(10 \<mapsto> no_task, 9 \<mapsto> no_task)"
    "OSIntNesting s2 = 0" "OSLockNesting s2 = 1" "OSPrioCur s2 = 12" "OSRunning s2"
    by (rule create_locked [of s1 9]) (use s1 n f in simp_all)
  let ?s3 = "put_tcb 12 (t\<lparr>OSTCBStat := OSTCBStat t OR OS_STAT_SUSPEND\<rparr>) (s2\<lparr>rdy_list := unmark 12 (rdy_list s2)\<rparr>)"
  have s3: "OSTaskSuspend 255 s2 = Inr (0, ?s3)"
    using s2(2-5) c(5) by (simp add: OSTaskSuspend_def Let_def OS_Sched_def put_tcb_def)
  have u: "OSTCBPrioTbl (OSSchedUnlock ?s3) = (OSTCBPrioTbl s)(10 \<mapsto> no_task, 9 \<mapsto> no_task, 12 \<mapsto> t\<lparr>OSTCBStat := OS_STAT_SUSPEND\<rparr>)"
    "OSIntNesting (OSSchedUnlock ?s3) = 0" "OSLockNesting (OSSchedUnlock ?s3) = 0"
    using s2(2-6) c(6) by (simp_all add: OSSchedUnlock_def Let_def put_tcb_def OS_Sched_fields)
  show thesis by (rule that [OF s1(1) s2(1) s3 s2(5) u])
qed

text \<open>
  C16. The end of \<open>start_task\<close>: \<open>key_task\<close> and \<open>led_task\<close> exist and \<open>key_task\<close> (9) runs, before \<open>led_task\<close> (10), while \<open>start_task\<close> (12) is suspended. Although
  the tasks it creates have a higher priority, \<open>start_task\<close> gets to its own suspension, since it does so in a critical section.
\<close>

theorem start_task_hands_over:
  assumes r: "reached w" "in_task w" and c: "OSPrioCur (kern w) = 12" "OSIntNesting (kern w) = 0" "OSLockNesting (kern w) = 0"
    and n: "OSTCBPrioTbl (kern w) 9 = None" "OSTCBPrioTbl (kern w) 10 = None" "9 \<notin> OSTCBReserved (kern w)" "10 \<notin> OSTCBReserved (kern w)"
    and f: "2 \<le> OSTCBFree (kern w)"
  shows "\<exists>s'. start_task_tasks (kern w) = Inr s' \<and> reached (w\<lparr>kern := s'\<rparr>) \<and> OSPrioCur s' = 9 \<and>
    OSTCBPrioTbl s' 10 \<noteq> None \<and> (\<exists>t. OSTCBPrioTbl s' 12 = Some t \<and> OSTCBStat t = OS_STAT_SUSPEND)"
proof -
  have o: "os_ok (kern w) (pc w)" by (rule world_okD(1) [OF reached_ok [OF r(1)]])
  then have run: "OSRunning (kern w)" by (simp add: os_ok_def base_ok_def)
  obtain t where t: "OSTCBPrioTbl (kern w) 12 = Some t" "ready t" "\<And>q u. OSTCBPrioTbl (kern w) q = Some u \<Longrightarrow> ready u \<Longrightarrow> 12 \<le> q"
    using runs_ready [OF o c(2,3)] c(1) by metis
  then have "OSTCBStat t = 0" by (simp add: ready_def)
  then obtain s1 s2 s3 where s: "OSTaskCreate 10 (OSSchedLock (kern w)) = Inr (0, s1)" "OSTaskCreate 9 s1 = Inr (0, s2)" "OSTaskSuspend 255 s2 = Inr (0, s3)"
    "OSPrioCur s2 = 12"
    "OSTCBPrioTbl (OSSchedUnlock s3) = (OSTCBPrioTbl (kern w))(10 \<mapsto> no_task, 9 \<mapsto> no_task, 12 \<mapsto> t\<lparr>OSTCBStat := OS_STAT_SUSPEND\<rparr>)"
    "OSIntNesting (OSSchedUnlock s3) = 0" "OSLockNesting (OSSchedUnlock s3) = 0"
    by (rule start_task_calls [OF run c t(1) _ n f])
  let ?s = "OSSchedUnlock s3"
  have r0: "reached (w\<lparr>kern := OSSchedLock (kern w)\<rparr>)" by (rule reached.step [OF r(1) os_step.lock [OF r(2)]])
  have r1: "reached (w\<lparr>kern := s1\<rparr>)" using reached.step [OF r0 os_step.task_create [of 10 _ 0 s1]] s(1) by simp
  have r2: "reached (w\<lparr>kern := s2\<rparr>)" using reached.step [OF r1 os_step.task_create [of 9 _ 0 s2]] s(2) by simp
  have r3: "reached (w\<lparr>kern := s3\<rparr>)" using reached.step [OF r2 os_step.suspend [of 255 _ 0 s3]] s(3,4) by simp
  have r4: "reached (w\<lparr>kern := ?s\<rparr>)" using reached.step [OF r3 os_step.unlock] by simp
  have o4: "os_ok ?s (pc w)" using world_okD(1) [OF reached_ok [OF r4]] by simp
  have "OSPrioCur ?s = 9"
  proof (rule runs_first [OF o4 s(6,7)])
    show "OSTCBPrioTbl ?s 9 = Some no_task" "ready no_task" using s(5) by (simp_all add: ready_def no_task_def)
    show "9 \<le> q" if "OSTCBPrioTbl ?s q = Some u" "ready u" for q u using that s(5) t(3) [of q u] by (auto split: if_splits)
  qed
  then show ?thesis using s(1-3,5) r4 by (intro exI [of _ ?s]) (simp add: start_task_tasks_def)
qed

section \<open>The DHCP task\<close>

lemma ip_bytes_IP4_ADDR: "length a = 4 \<Longrightarrow> ip_bytes (IP4_ADDR a) = a"
proof -
  assume "length a = 4"
  then obtain a0 a1 a2 a3 where a: "a = [a0, a1, a2, a3]" by (auto simp: numeral_eq_Suc length_Suc_conv)
  have "ucast (IP4_ADDR a) = a0" "ucast (drop_bit 8 (IP4_ADDR a)) = a1" "ucast (drop_bit 16 (IP4_ADDR a)) = a2" "ucast (drop_bit 24 (IP4_ADDR a)) = a3"
    unfolding IP4_ADDR_def a by (rule bit_word_eqI; auto simp: bit_simps dest: bit_imp_le_length)+
  then show ?thesis by (simp add: ip_bytes_def a)
qed

text \<open>The task runs, in a reached state, with interrupts served and the scheduler unlocked.\<close>

definition dhcp_runs :: "world \<Rightarrow> sys \<Rightarrow> bool" where
  "dhcp_runs w s \<longleftrightarrow> reached w \<and> in_task w \<and> OSPrioCur (kern w) = 7 \<and> OSIntNesting (kern w) = 0 \<and> OSLockNesting (kern w) = 0 \<and> ucos s = kern w"

lemma dhcp_delay:
  assumes "dhcp_runs w s"
  shows "\<exists>us k. delay_ms 5 500 (ucos s) = Inr (us, k)"
proof -
  have o: "os_ok (kern w) (pc w)" using assms world_okD(1) [OF reached_ok] by (simp add: dhcp_runs_def)
  have "pc w (OSPrioCur (kern w)) = None" "OSPrioCur (kern w) \<noteq> 63" using assms unfolding dhcp_runs_def in_task_def by auto
  then have "\<exists>k. OSTimeDly x (kern w) = Inr k" for x by (rule OSTimeDly_ok [OF o, where ticks = x]) blast
  then obtain k where "OSTimeDly 100 (kern w) = Inr k" by blast
  then show ?thesis using assms by (simp add: delay_ms_def dhcp_runs_def)
qed

lemma dhcp_waits:
  assumes "\<forall>(f, n, s) \<in> set waits. f \<noteq> 0xAA \<and> ip_addr n = 0 \<and> (\<exists>w. dhcp_runs w s)"
  shows "\<exists>b'. lwip_dhcp_loop (waits @ rest) b = lwip_dhcp_loop rest b' \<and> lwipdev b' = lwipdev b"
  using assms
proof (induction waits arbitrary: b)
  case (Cons x waits)
  obtain f n s where x: "x = (f, n, s)" by (cases x)
  have fs: "f \<noteq> 0xAA" "ip_addr n = 0" "\<exists>w. dhcp_runs w s" using Cons.prems by (auto simp: x)
  obtain us k where k: "delay_ms 5 500 (ucos s) = Inr (us, k)" using fs(3) dhcp_delay by blast
  let ?b = "set_ucos k (b\<lparr>lwip_netif := n, sysm := s\<rparr>)"
  obtain b' where "lwip_dhcp_loop (waits @ rest) ?b = lwip_dhcp_loop rest b'" "lwipdev b' = lwipdev ?b" using Cons.IH [of ?b] Cons.prems by auto
  then show ?case using fs k by (intro exI [of _ b']) (simp add: x Let_def)
next
  case Nil
  show ?case by (rule exI [of _ b]) simp
qed

text \<open>
  C17. The DHCP task ends as soon as it finds an address or the order to use the configured one, however often it has waited before. With an address
  from the server it takes over address, mask and gateway byte by byte; otherwise it gives the interface the configured ones. It deletes itself: another task runs,
  in a state of the invariant of the kernel, and its control block is gone.
\<close>

theorem dhcp_task_ends:
  assumes "\<forall>(f, n, s) \<in> set waits. f \<noteq> 0xAA \<and> ip_addr n = 0 \<and> (\<exists>w. dhcp_runs w s)"
    and "setip0 = 0xAA \<or> ip_addr n \<noteq> 0" and "dhcp_runs w s" and "OSTCBPrioTbl (kern w) 7 = Some t" and "OSTCBEventPtr t = None"
    and "length (ip (lwipdev b)) = 4" and "length (dev_netmask (lwipdev b)) = 4" and "length (gateway (lwipdev b)) = 4"
  shows "\<exists>b'. lwip_dhcp_task (waits @ (setip0, n, s) # seen) b = Inr b' \<and> reached (w\<lparr>kern := ucos (sysm b')\<rparr>) \<and>
    OSTCBPrioTbl (ucos (sysm b')) 7 = None \<and> OSPrioCur (ucos (sysm b')) \<noteq> 7 \<and>
    ip_bytes (ip_addr (lwip_netif b')) = ip (lwipdev b') \<and> ip_bytes (netmask (lwip_netif b')) = dev_netmask (lwipdev b') \<and>
    ip_bytes (gw (lwip_netif b')) = gateway (lwipdev b') \<and>
    (if setip0 = 0xAA then dhcpstatus (lwipdev b') = 0xFF \<and> ip (lwipdev b') = ip (lwipdev b)
     else dhcpstatus (lwipdev b') = 2 \<and> lwip_netif b' = n)"
proof -
  let ?b = "b\<lparr>lwipdev := (lwipdev b)\<lparr>dhcpstatus := 0\<rparr>\<rparr>"
  obtain b1 where b1: "lwip_dhcp_loop (waits @ (setip0, n, s) # seen) ?b = lwip_dhcp_loop ((setip0, n, s) # seen) b1" "lwipdev b1 = lwipdev ?b"
    using dhcp_waits [OF assms(1)] by blast
  define b2 where "b2 = (if setip0 = 0xAA then static_address (b1\<lparr>lwip_netif := n, sysm := s\<rparr>) else dhcp_success (b1\<lparr>lwip_netif := n, sysm := s\<rparr>))"
  have lp: "lwip_dhcp_loop ((setip0, n, s) # seen) b1 = Inr (seen, b2)" using assms(2) by (auto simp: b2_def Let_def)
  have u: "ucos (sysm b2) = kern w" using assms(3) by (simp add: b2_def static_address_def dhcp_success_def dhcp_runs_def Let_def)
  note dr = assms(3) [unfolded dhcp_runs_def]
  have r: "OSRunning (kern w)" using world_okD(1) [OF reached_ok, of w] dr by (simp add: os_ok_def base_ok_def)
  obtain k where k: "OSTaskDel 7 (kern w) = Inr (0, k)" using assms(4,5) dr r by (simp add: OSTaskDel_def Let_def)
  have rk: "reached (w\<lparr>kern := k\<rparr>)" by (rule reached.step [OF _ os_step.task_del [of w 7 0 k]]) (use dr k in simp_all)
  have gone: "OSTCBPrioTbl k 7 = None"
    using k assms(4,5) dr r by (auto simp: OSTaskDel_def Let_def OS_Sched_fields)
  have "OSTCBPrioTbl k (OSPrioCur k) \<noteq> None" using running_there [OF world_okD(1) [OF reached_ok [OF rk]]] by auto
  then have cur: "OSPrioCur k \<noteq> 7" using gone by auto
  have run: "lwip_dhcp_task (waits @ (setip0, n, s) # seen) b = Inr (set_ucos k b2)"
    using b1(1) lp k u by (simp add: lwip_dhcp_task_def lwip_comm_dhcp_delete_def)
  have f: "lwip_netif (set_ucos k b2) = lwip_netif b2" "lwipdev (set_ucos k b2) = lwipdev b2" by simp_all
  have "ip_bytes (ip_addr (lwip_netif b2)) = ip (lwipdev b2) \<and> ip_bytes (netmask (lwip_netif b2)) = dev_netmask (lwipdev b2) \<and>
    ip_bytes (gw (lwip_netif b2)) = gateway (lwipdev b2) \<and>
    (if setip0 = 0xAA then dhcpstatus (lwipdev b2) = 0xFF \<and> ip (lwipdev b2) = ip (lwipdev b)
     else dhcpstatus (lwipdev b2) = 2 \<and> lwip_netif b2 = n)"
    using assms(6-8) b1(2) by (simp add: b2_def static_address_def dhcp_success_def Let_def ip_bytes_IP4_ADDR)
  then show ?thesis using run rk gone cur by (intro exI [of _ "set_ucos k b2"]) (simp only: f board_fields, simp)
qed

section \<open>Examples\<close>

text \<open>The heap of the program after \<open>my_mem_init\<close>, a board with it, and a chip that does not answer.\<close>

definition demo_heap :: mem_pool where
  "demo_heap = (sramin_pool 0x20001000)\<lparr>memrdy := 1\<rparr>"

definition demo_netif :: netif where
  "demo_netif = \<lparr>ip_addr = 0, netmask = 0, gw = 0, hwaddr = replicate 6 0, mtu = 0, flags = 0\<rparr>"

definition demo_board :: "'d dm \<Rightarrow> 'd board" where
  "demo_board e = \<lparr>sysm = \<lparr>heap = demo_heap, mboxes = Map.empty, ucos = demo0\<rparr>, eth = e, memp_memory = 0, ram_heap = 0, TCPIP_THREAD_TASK_STK = 0,
     LWIP_DHCP_TASK_STK = 0, LWIP_DM9000_INPUT_TASK_STK = 0, input_event = None, lock_event = None, mem_mutex = None, tcpip_mbox = 0, lwip_netif = demo_netif,
     lwipdev = \<lparr>mac = replicate 6 0, remoteip = replicate 4 0, ip = replicate 4 0, dev_netmask = replicate 4 0, gateway = replicate 4 0, dhcpstatus = 0\<rparr>\<rparr>"

definition dead_chip :: "unit dm_chip" where
  "dead_chip = \<lparr>dm_get = \<lambda>_ c. (0, c), dm_set = \<lambda>_ _ c. c, dm_rst = \<lambda>_ c. c, dm_int = \<lambda>_. False\<rparr>"

definition dead_eth :: "unit dm" where
  "dead_eth = \<lparr>REG = 0, chip = (), dm9000cfg = init_config 0, dm9000lock = False, dm9000input = 0, allocs = 0\<rparr>"

lemma demo_heap: "ready_pool demo_heap" "placed demo_heap" "low_free 1280 demo_heap" "memtblsize demo_heap = 1280" "memblksize demo_heap = 32"
  by (simp_all add: demo_heap_def sramin_pool_def ready_pool_def pool_ok_def placed_def low_free_def wf_map_replicate_0)

lemma demo_board:
  "heap (sysm (demo_board e)) = demo_heap" "ucos (sysm (demo_board e)) = demo0" "eth (demo_board e) = e"
  "lwipdev (demo_board e) = \<lparr>mac = replicate 6 0, remoteip = replicate 4 0, ip = replicate 4 0, dev_netmask = replicate 4 0, gateway = replicate 4 0,
     dhcpstatus = 0\<rparr>"
  by (simp_all add: demo_board_def)

lemma demo_needed: "needed demo_heap 0x2800 = 718"
  by (simp add: needed_def sizes_def ceil_blocks_def demo_heap(5) ramheapsize_def)

lemma lwip_comm_mem_all_or_nothing_witness:
  "\<exists>r b'. lwip_comm_mem_malloc 0x2800 (demo_board eth_start) = Inr (r, b') \<and> ucos (sysm b') = demo0 \<and>
    (r = 1 \<and> heap (sysm b') = demo_heap \<or>
     r = 0 \<and> (\<exists>bs. pointers b' = map (\<lambda>x. block_ptr demo_heap (fst x)) bs \<and> map snd bs = map (ceil_blocks demo_heap) (sizes 0x2800) \<and>
       distinct bs \<and> set bs \<inter> set (allocations demo_heap) = {} \<and>
       set (allocations (heap (sysm b'))) = set bs \<union> set (allocations demo_heap) \<and> all_apart (set (allocations (heap (sysm b'))))))"
  by (rule lwip_comm_mem_all_or_nothing [of "demo_board eth_start" "0x2800", unfolded demo_board]) (simp_all add: demo_heap)

lemma dead_start: "\<exists>b1. lwip_comm_init 0x2800 1 dead_chip (0, 0) 0 None True (start_acu fresh_bus) (demo_board dead_eth) = Inr (2, b1)"
proof -
  let ?b = "demo_board dead_eth"
  have h: "ready_pool (heap (sysm ?b))" "placed (heap (sysm ?b))" "low_free 1280 (heap (sysm ?b))" "needed (heap (sysm ?b)) 0x2800 \<le> 1280"
    by (simp_all add: demo_board demo_heap demo_needed)
  have sz: "(0x2800 :: u32) \<noteq> 0" "unat (0x2800 :: u32) \<le> 2097120" by simp_all
  obtain ps m where m: "lwip_comm_mem_malloc 0x2800 ?b = Inr (0, set_pointers ps (set_heap ((heap (sysm ?b))\<lparr>memmap := m\<rparr>) ?b))"
    by (rule mem_malloc_low [OF h(1-3) sz h(4)])
  obtain s0 where s0: "OSInit demo0 = Inr s0" "booted_with s0 [] {62, 63} 20 {}" "OSEventFreeList s0 = [0..<15]" using booted_init by blast
  have k0: "booted_with demo0 [] {62, 63} 20 {}" "OSEventFreeList demo0 = 0 # [1..<15]" using s0 demo0 by (simp_all add: upt_conv_Cons)
  obtain k1 where k1: "OSSemCreate 0 demo0 = Inr (Some 0, k1)" "booted_with k1 [] {62, 63} 20 {}" "OSEventFreeList k1 = [1..<15]"
    by (rule booted_sem [OF k0, of 0]) simp
  have e1: "OSEventFreeList k1 = 1 # [2..<15]" using k1(3) by (simp add: upt_conv_Cons)
  obtain k2 where k2: "OSMutexCreate 2 k1 = Inr (Some 1, 0, k2)" by (rule booted_mutex [OF k1(2) e1, of 2]) simp_all
  have d: "\<exists>e. DM9000_Init 1 dead_chip (0, 0) 0 dead_eth = Inr (1, e)"
    by (simp add: DM9000_Init_def DM9000_Reset_def DM9000_Get_DeiviceID_def DM9000_ReadReg_def DM9000_WriteReg_def get_DATA_def set_DATA_def
      dead_chip_def dead_eth_def Let_def)
  then show ?thesis
    unfolding lwip_comm_init_def m ebind_Inr prod.case Let_def using k1(1) k2 by (auto simp: demo_board)
qed

lemma failed_start_is_final_witness:
  "\<exists>b1. lwip_comm_init 0x2800 1 dead_chip (0, 0) 0 None True (start_acu fresh_bus) (demo_board dead_eth) = Inr (2, b1) \<and>
    init_loop 5 (lwip_comm_init 0x2800 1 dead_chip (0, 0) 0 None True (start_acu fresh_bus)) (\<lambda>e. e) (demo_board dead_eth) = Inl Still_Running"
proof -
  obtain b1 where b1: "lwip_comm_init 0x2800 1 dead_chip (0, 0) 0 None True (start_acu fresh_bus) (demo_board dead_eth) = Inr (2, b1)" using dead_start by blast
  show ?thesis using failed_start_is_final [of "demo_board dead_eth", OF _ _ _ _ _ b1, of 5] b1 by (auto simp: demo_board demo_heap)
qed

lemma main_starts_witness:
  "\<exists>b' l. main_start 1 0x2800 4 dm9k_chip (7, 8) 0x12345678 (Some 0x41) True (\<lambda>e. e) (start_acu fresh_bus) (demo_board eth_start) = Inr b' \<and>
    reached \<lparr>kern = ucos (sysm b'), pc = \<lambda>_. None, posted = l, taken = [], got = []\<rparr> \<and>
    OSPrioCur (ucos (sysm b')) = 5 \<and> {p. OSTCBPrioTbl (ucos (sysm b')) p \<noteq> None} = {5, 6, 7, 8, 12, 62, 63} \<and>
    eth_ready (eth b') \<and> sent_frames (chip (eth b')) = [announcement [2, 0, 0x12, 0x34, 0x56, 0x78]] \<and>
    ip (lwipdev b') = replicate 4 0 \<and> hwaddr (lwip_netif b') = [2, 0, 0x12, 0x34, 0x56, 0x78]"
proof -
  let ?b = "demo_board eth_start"
  have h: "ready_pool (heap (sysm ?b))" "placed (heap (sysm ?b))" "low_free 1280 (heap (sysm ?b))" "needed (heap (sysm ?b)) 0x2800 + 3 \<le> 1280"
    by (simp_all add: demo_board demo_heap demo_needed)
  have l: "late (chip (eth ?b)) < 4" "\<not> dm9000lock (eth ?b)" "sent_frames (chip (eth ?b)) = []" by (simp_all add: demo_board eth_start_def)
  have c: "config_ok (start_acu fresh_bus)" "tl (g_Setip (start_acu fresh_bus)) = replicate 4 0" by (simp_all add: config_ok_def start_acu_def)
  have m: "mac_addr (init_config 0x12345678) = [2, 0, 0x12, 0x34, 0x56, 0x78]" by (simp add: init_config_def)
  show ?thesis
    using main_starts [OF h _ _ l(1,2) c(1), of 0 "(7, 8)" "0x12345678" "Some 0x41" True "\<lambda>e. e"] unfolding c(2) m l(3) by auto
qed

text \<open>The kernel with one task of its own beside the two of \<open>OSInit\<close>.\<close>

lemma demo_runs:
  assumes "p < 62"
  obtains s where "reached \<lparr>kern = s, pc = \<lambda>_. None, posted = [], taken = [], got = []\<rparr>" "OSPrioCur s = p"
    "OSTCBPrioTbl s = (\<lambda>q. if q \<in> {p, 62, 63} then Some no_task else None)" "OSIntNesting s = 0" "OSLockNesting s = 0" "OSTCBFree s = 19"
    "OSTCBReserved s = {}"
proof -
  obtain s0 where s0: "OSInit demo0 = Inr s0" "booted_with s0 [] {62, 63} (Suc 19) {}" using booted_init [of demo0] by auto
  obtain s1 where s1: "OSTaskCreate p s0 = Inr (0, s1)" "booted_with s1 [] (insert p {62, 63}) 19 {}"
    by (rule booted_task [OF s0(2), of p]) (use assms in simp_all)
  have p: "p \<in> insert p {62, 63}" "\<forall>q \<in> insert p {62, 63}. p \<le> q" using assms by auto
  have "OSTCBPrioTbl (OSStart s1) = OSTCBPrioTbl s1 \<and> OSIntNesting (OSStart s1) = 0 \<and> OSLockNesting (OSStart s1) = 0 \<and> OSTCBFree (OSStart s1) = 19 \<and>
      OSTCBReserved (OSStart s1) = {}"
    using s1(2) booted_ok [of s1 "[]"] by (simp add: booted_with_def boot_ok_def OSStart_def OS_SchedNew_def Let_def)
  then show thesis using that [OF booted_start(1,2) [OF s1(2) p]] s1(2) by (simp add: booted_with_def)
qed

lemma start_task_hands_over_witness:
  "\<exists>s s'. OSPrioCur s = 12 \<and> start_task_tasks s = Inr s' \<and> OSPrioCur s' = 9 \<and> OSTCBPrioTbl s' 10 \<noteq> None \<and>
    (\<exists>t. OSTCBPrioTbl s' 12 = Some t \<and> OSTCBStat t = OS_STAT_SUSPEND)"
proof -
  obtain s where s: "reached \<lparr>kern = s, pc = \<lambda>_. None, posted = [], taken = [], got = []\<rparr>" "OSPrioCur s = 12"
    "OSTCBPrioTbl s = (\<lambda>q. if q \<in> {12, 62, 63} then Some no_task else None)" "OSIntNesting s = 0" "OSLockNesting s = 0" "OSTCBFree s = 19"
    "OSTCBReserved s = {}"
    by (rule demo_runs [of 12]) simp_all
  have "\<exists>s'. start_task_tasks s = Inr s' \<and> OSPrioCur s' = 9 \<and> OSTCBPrioTbl s' 10 \<noteq> None \<and>
      (\<exists>t. OSTCBPrioTbl s' 12 = Some t \<and> OSTCBStat t = OS_STAT_SUSPEND)"
    using start_task_hands_over [OF s(1)] s by (simp add: in_task_def) blast
  then show ?thesis using s(2) by blast
qed

text \<open>The DHCP task waits once and then finds the address 192.168.1.30.\<close>

lemma dhcp_task_ends_witness:
  "\<exists>s b'. OSPrioCur s = 7 \<and>
    lwip_dhcp_task [(0, demo_netif, \<lparr>heap = demo_heap, mboxes = Map.empty, ucos = s\<rparr>),
      (0, demo_netif\<lparr>ip_addr := 0x1E01A8C0\<rparr>, \<lparr>heap = demo_heap, mboxes = Map.empty, ucos = s\<rparr>)] (demo_board eth_start) = Inr b' \<and>
    OSTCBPrioTbl (ucos (sysm b')) 7 = None \<and> OSPrioCur (ucos (sysm b')) \<noteq> 7 \<and> dhcpstatus (lwipdev b') = 2 \<and> ip (lwipdev b') = [192, 168, 1, 30]"
proof -
  obtain s where s: "reached \<lparr>kern = s, pc = \<lambda>_. None, posted = [], taken = [], got = []\<rparr>" "OSPrioCur s = 7"
    "OSTCBPrioTbl s = (\<lambda>q. if q \<in> {7, 62, 63} then Some no_task else None)" "OSIntNesting s = 0" "OSLockNesting s = 0"
    by (rule demo_runs [of 7]) simp_all
  let ?w = "\<lparr>kern = s, pc = \<lambda>_. None, posted = [], taken = [], got = []\<rparr>"
  let ?s = "\<lparr>heap = demo_heap, mboxes = Map.empty, ucos = s\<rparr>"
  let ?n = "demo_netif\<lparr>ip_addr := 0x1E01A8C0\<rparr>"
  have r: "dhcp_runs ?w ?s" using s by (simp add: dhcp_runs_def in_task_def)
  have w: "\<forall>(f, n, s) \<in> set [(0 :: u8, demo_netif, ?s)]. f \<noteq> 0xAA \<and> ip_addr n = 0 \<and> (\<exists>w. dhcp_runs w s)" using r by (auto simp: demo_netif_def)
  have t: "OSTCBPrioTbl (kern ?w) 7 = Some no_task" "OSTCBEventPtr no_task = None" using s(3) by (simp_all add: no_task_def)
  have f: "0 = (0xAA :: u8) \<or> ip_addr ?n \<noteq> 0" by simp
  have l: "length (ip (lwipdev (demo_board eth_start))) = 4" "length (dev_netmask (lwipdev (demo_board eth_start))) = 4"
    "length (gateway (lwipdev (demo_board eth_start))) = 4" by (simp_all add: demo_board)
  have b: "ip_bytes (ip_addr ?n) = [192, 168, 1, 30]" by (simp add: ip_bytes_def)
  show ?thesis using dhcp_task_ends [OF w f r t l, of "[]"] s(2) b by (intro exI [of _ s]) auto
qed

end
