(* ===== verification/OsMutex.thy ===== *)
theory OsMutex
  imports OsReady
begin

text \<open>
  Mutexes (UCOSII/CORE/os_mutex.c), as the driver of the Ethernet chip uses one to keep its two users apart. A task that owns a mutex for which a task of higher
  priority waits is raised to the priority of the mutex. \<open>OSTCBPrioTbl\<close> then leads to its control block under both priorities; so here control
  blocks are objects with numbers of their own, which the table points to, while \<open>OsKernel\<close> finds them under their priority.
  The scheduler and the wait lists are those of os_core.c on these control blocks.
\<close>

section \<open>State\<close>

record mtcb =
  OSTCBPrio :: nat
  OSTCBStat :: u8
  OSTCBStatPend :: u8
  OSTCBDly :: u32
  OSTCBEventPtr :: "nat option"

record mevent =
  OSEventType :: u8
  OSEventCnt :: u16              \<comment> \<open>priority of the mutex, priority of its owner or 0xFF\<close>
  OSEventPtr :: "nat option"     \<comment> \<open>the control block of its owner\<close>
  wait_list :: prio_tbl

datatype prio_entry = Unused | OS_TCB_RESERVED | Tcb nat

record mkern =
  OSIntNesting :: u8
  OSLockNesting :: u8
  OSTCBCur :: nat
  OSPrioCur :: nat
  rdy_list :: prio_tbl
  OSTCBPrioTbl :: "nat \<Rightarrow> prio_entry"
  OSTCBList :: "nat list"
  tcbs :: "nat \<Rightarrow> mtcb option"
  ecbs :: "nat \<Rightarrow> mevent option"
  OSEventFreeList :: "nat list"

abbreviation (input) "OS_STAT_RDY \<equiv> 0 :: u8"
abbreviation (input) "OS_STAT_SUSPEND \<equiv> 0x08 :: u8"
abbreviation (input) "OS_STAT_MUTEX \<equiv> 0x10 :: u8"
abbreviation (input) "OS_STAT_PEND_ANY \<equiv> 0x37 :: u8"
abbreviation (input) "OS_STAT_PEND_OK \<equiv> 0 :: u8"
abbreviation (input) "OS_STAT_PEND_TO \<equiv> 1 :: u8"
abbreviation (input) "OS_STAT_PEND_ABORT \<equiv> 2 :: u8"
abbreviation (input) "OS_EVENT_TYPE_UNUSED \<equiv> 0 :: u8"
abbreviation (input) "OS_EVENT_TYPE_MUTEX \<equiv> 4 :: u8"
abbreviation (input) "OS_ERR_NONE \<equiv> 0 :: u8"
abbreviation (input) "OS_ERR_EVENT_TYPE \<equiv> 1 :: u8"
abbreviation (input) "OS_ERR_PEND_ISR \<equiv> 2 :: u8"
abbreviation (input) "OS_ERR_POST_ISR \<equiv> 5 :: u8"
abbreviation (input) "OS_ERR_QUERY_ISR \<equiv> 6 :: u8"
abbreviation (input) "OS_ERR_INVALID_OPT \<equiv> 7 :: u8"
abbreviation (input) "OS_ERR_TIMEOUT \<equiv> 10 :: u8"
abbreviation (input) "OS_ERR_PEND_LOCKED \<equiv> 13 :: u8"
abbreviation (input) "OS_ERR_PEND_ABORT \<equiv> 14 :: u8"
abbreviation (input) "OS_ERR_DEL_ISR \<equiv> 15 :: u8"
abbreviation (input) "OS_ERR_TASK_WAITING \<equiv> 73 :: u8"
abbreviation (input) "OS_ERR_NOT_MUTEX_OWNER \<equiv> 100 :: u8"
abbreviation (input) "OS_ERR_PIP_LOWER \<equiv> 120 :: u8"
abbreviation (input) "OS_MUTEX_KEEP_LOWER_8 \<equiv> 0x00FF :: u16"
abbreviation (input) "OS_MUTEX_KEEP_UPPER_8 \<equiv> 0xFF00 :: u16"
abbreviation (input) "OS_MUTEX_AVAILABLE \<equiv> 0x00FF :: u16"

text \<open>Control blocks through pointers, and the pointer in an entry of the table of priorities.\<close>

definition tcb_of :: "nat \<Rightarrow> mkern \<Rightarrow> fault + mtcb" where
  "tcb_of i s = (case tcbs s i of None \<Rightarrow> Inl Bad_Pointer | Some t \<Rightarrow> Inr t)"

definition set_tcb :: "nat \<Rightarrow> mtcb \<Rightarrow> mkern \<Rightarrow> mkern" where
  "set_tcb i t s = s\<lparr>tcbs := (tcbs s)(i \<mapsto> t)\<rparr>"

definition ecb_of :: "nat \<Rightarrow> mkern \<Rightarrow> fault + mevent" where
  "ecb_of ev s = (case ecbs s ev of None \<Rightarrow> Inl Bad_Pointer | Some e \<Rightarrow> Inr e)"

definition set_ecb :: "nat \<Rightarrow> mevent \<Rightarrow> mkern \<Rightarrow> mkern" where
  "set_ecb ev e s = s\<lparr>ecbs := (ecbs s)(ev \<mapsto> e)\<rparr>"

definition task_at :: "nat \<Rightarrow> mkern \<Rightarrow> fault + nat" where
  "task_at p s =
     (if 63 < p then Inl Out_Of_Bounds
      else case OSTCBPrioTbl s p of Tcb i \<Rightarrow> Inr i | _ \<Rightarrow> Inl Bad_Pointer)"

definition set_entry :: "nat \<Rightarrow> prio_entry \<Rightarrow> mkern \<Rightarrow> fault + mkern" where
  "set_entry p x s = (if 63 < p then Inl Out_Of_Bounds else Inr (s\<lparr>OSTCBPrioTbl := (OSTCBPrioTbl s)(p := x)\<rparr>))"

section \<open>The core of the kernel\<close>

definition marked :: "nat \<Rightarrow> prio_tbl \<Rightarrow> bool" where
  "marked p b \<longleftrightarrow> Tbl b ! (p div 8) AND push_bit (p mod 8) 1 \<noteq> 0"

definition OS_Sched :: "mkern \<Rightarrow> fault + mkern" where
  "OS_Sched s =
     (if OSIntNesting s = 0 \<and> OSLockNesting s = 0 then
        let p = highest (rdy_list s)
        in if p \<noteq> OSPrioCur s then ebind (task_at p s) (\<lambda>i. Inr (s\<lparr>OSTCBCur := i, OSPrioCur := p\<rparr>)) else Inr s
      else Inr s)"

definition OS_EventTaskRemove :: "mtcb \<Rightarrow> nat \<Rightarrow> mkern \<Rightarrow> fault + mkern" where
  "OS_EventTaskRemove t ev s =
     ebind (ecb_of ev s) (\<lambda>e. Inr (set_ecb ev (e\<lparr>wait_list := unmark (OSTCBPrio t) (wait_list e)\<rparr>) s))"

definition OS_EventTaskWait :: "nat \<Rightarrow> mkern \<Rightarrow> fault + mkern" where
  "OS_EventTaskWait ev s =
     ebind (tcb_of (OSTCBCur s) s) (\<lambda>t.
     let s1 = set_tcb (OSTCBCur s) (t\<lparr>OSTCBEventPtr := Some ev\<rparr>) s in
     ebind (ecb_of ev s1) (\<lambda>e.
     let s2 = set_ecb ev (e\<lparr>wait_list := mark (OSTCBPrio t) (wait_list e)\<rparr>) s1
     in Inr (s2\<lparr>rdy_list := unmark (OSTCBPrio t) (rdy_list s2)\<rparr>)))"

definition OS_EventTaskRdy :: "nat \<Rightarrow> u8 \<Rightarrow> u8 \<Rightarrow> mkern \<Rightarrow> fault + (nat \<times> mkern)" where
  "OS_EventTaskRdy ev msk pend_stat s =
     ebind (ecb_of ev s) (\<lambda>e.
     let prio = highest (wait_list e) in
     ebind (task_at prio s) (\<lambda>i.
     ebind (tcb_of i s) (\<lambda>t.
     let t1 = t\<lparr>OSTCBDly := 0, OSTCBStat := OSTCBStat t AND NOT msk, OSTCBStatPend := pend_stat\<rparr>;
         s1 = set_tcb i t1 s;
         s2 = (if OSTCBStat t1 AND OS_STAT_SUSPEND = 0 then s1\<lparr>rdy_list := mark (OSTCBPrio t1) (rdy_list s1)\<rparr> else s1)
     in ebind (OS_EventTaskRemove t1 ev s2) (\<lambda>s3. Inr (prio, s3)))))"

definition OSTimeDly :: "u32 \<Rightarrow> mkern \<Rightarrow> fault + mkern" where
  "OSTimeDly ticks s =
     (if 0 < OSIntNesting s \<or> 0 < OSLockNesting s \<or> ticks = 0 then Inr s
      else ebind (tcb_of (OSTCBCur s) s) (\<lambda>t.
        OS_Sched (set_tcb (OSTCBCur s) (t\<lparr>OSTCBDly := ticks\<rparr>) (s\<lparr>rdy_list := unmark (OSTCBPrio t) (rdy_list s)\<rparr>))))"

text \<open>The loop of \<open>OSTimeTick\<close>, and the interrupt around it.\<close>

definition tick_task :: "nat \<Rightarrow> mkern \<Rightarrow> fault + mkern" where
  "tick_task i s =
     ebind (tcb_of i s) (\<lambda>t.
     if OSTCBDly t = 0 then Inr s
     else
       let t1 = t\<lparr>OSTCBDly := OSTCBDly t - 1\<rparr>
       in if OSTCBDly t1 \<noteq> 0 then Inr (set_tcb i t1 s)
          else
            let t2 = (if OSTCBStat t1 AND OS_STAT_PEND_ANY \<noteq> 0
                      then t1\<lparr>OSTCBStat := OSTCBStat t1 AND NOT OS_STAT_PEND_ANY, OSTCBStatPend := OS_STAT_PEND_TO\<rparr>
                      else t1\<lparr>OSTCBStatPend := OS_STAT_PEND_OK\<rparr>);
                s1 = set_tcb i t2 s
            in Inr (if OSTCBStat t2 AND OS_STAT_SUSPEND = 0 then s1\<lparr>rdy_list := mark (OSTCBPrio t2) (rdy_list s1)\<rparr> else s1))"

fun tick_tasks :: "nat list \<Rightarrow> mkern \<Rightarrow> fault + mkern" where
  "tick_tasks [] s = Inl Bad_Pointer"
| "tick_tasks (i # is) s =
     ebind (tcb_of i s) (\<lambda>t. if OSTCBPrio t = 63 then Inr s else ebind (tick_task i s) (\<lambda>s1. tick_tasks is s1))"

definition tick_interrupt :: "mkern \<Rightarrow> fault + mkern" where
  "tick_interrupt s = ebind (tick_tasks (OSTCBList s) s) OS_Sched"

section \<open>Mutexes\<close>

definition pip :: "mevent \<Rightarrow> nat" where
  "pip e = unat (drop_bit 8 (OSEventCnt e))"

definition mprio :: "mevent \<Rightarrow> nat" where
  "mprio e = unat (OSEventCnt e AND OS_MUTEX_KEEP_LOWER_8)"

definition available :: "mevent \<Rightarrow> bool" where
  "available e \<longleftrightarrow> OSEventCnt e AND OS_MUTEX_KEEP_LOWER_8 = OS_MUTEX_AVAILABLE"

text \<open>The running task takes a mutex that is available.\<close>

definition acquire :: "nat \<Rightarrow> mevent \<Rightarrow> mtcb \<Rightarrow> mkern \<Rightarrow> u8 \<times> mkern" where
  "acquire ev e t s =
     (if OSTCBPrio t \<le> pip e then OS_ERR_PIP_LOWER else OS_ERR_NONE,
      set_ecb ev (e\<lparr>OSEventCnt := OSEventCnt e AND OS_MUTEX_KEEP_UPPER_8 OR of_nat (OSTCBPrio t), OSEventPtr := Some (OSTCBCur s)\<rparr>) s)"

definition OSMutexAccept :: "nat \<Rightarrow> mkern \<Rightarrow> fault + (bool \<times> u8 \<times> mkern)" where
  "OSMutexAccept ev s =
     ebind (ecb_of ev s) (\<lambda>e.
     if OSEventType e \<noteq> OS_EVENT_TYPE_MUTEX then Inr (False, OS_ERR_EVENT_TYPE, s)
     else if 0 < OSIntNesting s then Inr (False, OS_ERR_PEND_ISR, s)
     else if available e then ebind (tcb_of (OSTCBCur s) s) (\<lambda>t. Inr (True, acquire ev e t s))
     else Inr (False, OS_ERR_NONE, s))"

text \<open>The owner \<open>i\<close> gets the priority \<open>p\<close>, in the ready list or in the list in which it waits.\<close>

definition raise_owner :: "nat \<Rightarrow> nat \<Rightarrow> mkern \<Rightarrow> fault + mkern" where
  "raise_owner i p s =
     ebind (tcb_of i s) (\<lambda>t.
     let q = OSTCBPrio t;
         s1 = set_tcb i (t\<lparr>OSTCBPrio := p\<rparr>) s
     in ebind (if marked q (rdy_list s) then Inr (s1\<lparr>rdy_list := mark p (unmark q (rdy_list s1))\<rparr>)
               else case OSTCBEventPtr t of
                 None \<Rightarrow> Inr s1
               | Some ev2 \<Rightarrow> ebind (ecb_of ev2 s1) (\<lambda>e2. Inr (set_ecb ev2 (e2\<lparr>wait_list := mark p (unmark q (wait_list e2))\<rparr>) s1)))
          (set_entry p (Tcb i)))"

datatype call = Returns u8 | Waits

definition OSMutexPend :: "nat \<Rightarrow> u32 \<Rightarrow> mkern \<Rightarrow> fault + (call \<times> mkern)" where
  "OSMutexPend ev timeout s =
     ebind (ecb_of ev s) (\<lambda>e.
     if OSEventType e \<noteq> OS_EVENT_TYPE_MUTEX then Inr (Returns OS_ERR_EVENT_TYPE, s)
     else if 0 < OSIntNesting s then Inr (Returns OS_ERR_PEND_ISR, s)
     else if 0 < OSLockNesting s then Inr (Returns OS_ERR_PEND_LOCKED, s)
     else
       ebind (tcb_of (OSTCBCur s) s) (\<lambda>c.
       if available e then let (err, s1) = acquire ev e c s in Inr (Returns err, s1)
       else case OSEventPtr e of
         None \<Rightarrow> Inl Bad_Pointer
       | Some i \<Rightarrow>
           ebind (tcb_of i s) (\<lambda>t.
           ebind (if pip e < OSTCBPrio t \<and> OSTCBPrio c < mprio e then raise_owner i (pip e) s else Inr s) (\<lambda>s1.
           ebind (tcb_of (OSTCBCur s1) s1) (\<lambda>c1.
           let s2 = set_tcb (OSTCBCur s1)
                 (c1\<lparr>OSTCBStat := OSTCBStat c1 OR OS_STAT_MUTEX, OSTCBStatPend := OS_STAT_PEND_OK, OSTCBDly := timeout\<rparr>) s1
           in ebind (OS_EventTaskWait ev s2) (\<lambda>s3.
              ebind (OS_Sched s3) (\<lambda>s4. Inr (Waits, s4))))))))"

text \<open>What a task does when it runs again that has waited.\<close>

definition OSMutexPend_resume :: "nat \<Rightarrow> mkern \<Rightarrow> fault + (u8 \<times> mkern)" where
  "OSMutexPend_resume ev s =
     ebind (tcb_of (OSTCBCur s) s) (\<lambda>t.
     let t1 = t\<lparr>OSTCBStat := OS_STAT_RDY, OSTCBStatPend := OS_STAT_PEND_OK, OSTCBEventPtr := None\<rparr>
     in if OSTCBStatPend t = OS_STAT_PEND_OK then Inr (OS_ERR_NONE, set_tcb (OSTCBCur s) t1 s)
        else if OSTCBStatPend t = OS_STAT_PEND_ABORT then Inr (OS_ERR_PEND_ABORT, set_tcb (OSTCBCur s) t1 s)
        else ebind (OS_EventTaskRemove t ev s) (\<lambda>s1. Inr (OS_ERR_TIMEOUT, set_tcb (OSTCBCur s) t1 s1)))"

definition OSMutex_RdyAtPrio :: "nat \<Rightarrow> nat \<Rightarrow> mkern \<Rightarrow> fault + mkern" where
  "OSMutex_RdyAtPrio i prio s =
     ebind (tcb_of i s) (\<lambda>t.
     set_entry prio (Tcb i) ((set_tcb i (t\<lparr>OSTCBPrio := prio\<rparr>) s)
       \<lparr>OSPrioCur := prio, rdy_list := mark prio (unmark (OSTCBPrio t) (rdy_list s))\<rparr>))"

definition OSMutexPost :: "nat \<Rightarrow> mkern \<Rightarrow> fault + (u8 \<times> mkern)" where
  "OSMutexPost ev s =
     (if 0 < OSIntNesting s then Inr (OS_ERR_POST_ISR, s)
      else
        ebind (ecb_of ev s) (\<lambda>e.
        if OSEventType e \<noteq> OS_EVENT_TYPE_MUTEX then Inr (OS_ERR_EVENT_TYPE, s)
        else if OSEventPtr e \<noteq> Some (OSTCBCur s) then Inr (OS_ERR_NOT_MUTEX_OWNER, s)
        else
          ebind (tcb_of (OSTCBCur s) s) (\<lambda>t.
          ebind (if OSTCBPrio t = pip e then OSMutex_RdyAtPrio (OSTCBCur s) (mprio e) s else Inr s) (\<lambda>s1.
          ebind (set_entry (pip e) OS_TCB_RESERVED s1) (\<lambda>s2.
          if Grp (wait_list e) \<noteq> 0 then
              ebind (OS_EventTaskRdy ev OS_STAT_MUTEX OS_STAT_PEND_OK s2) (\<lambda>(prio, s3).
            ebind (ecb_of ev s3) (\<lambda>e3.
            ebind (task_at prio s3) (\<lambda>i.
            let s4 = set_ecb ev (e3\<lparr>OSEventCnt := OSEventCnt e3 AND OS_MUTEX_KEEP_UPPER_8 OR of_nat prio, OSEventPtr := Some i\<rparr>) s3
            in ebind (OS_Sched s4) (\<lambda>s5. Inr (if prio \<le> pip e then OS_ERR_PIP_LOWER else OS_ERR_NONE, s5)))))
          else Inr (OS_ERR_NONE, set_ecb ev (e\<lparr>OSEventCnt := OSEventCnt e OR OS_MUTEX_AVAILABLE, OSEventPtr := None\<rparr>) s2))))))"

record mutex_data =
  OSMutexPIP :: u8
  OSOwnerPrio :: u8
  OSValue :: bool
  OSWaiting :: prio_tbl

definition OSMutexQuery :: "nat \<Rightarrow> mkern \<Rightarrow> fault + (u8 \<times> mutex_data option)" where
  "OSMutexQuery ev s =
     (if 0 < OSIntNesting s then Inr (OS_ERR_QUERY_ISR, None)
      else
        ebind (ecb_of ev s) (\<lambda>e.
        if OSEventType e \<noteq> OS_EVENT_TYPE_MUTEX then Inr (OS_ERR_EVENT_TYPE, None)
        else Inr (OS_ERR_NONE, Some \<lparr>OSMutexPIP = ucast (drop_bit 8 (OSEventCnt e)), OSOwnerPrio = ucast (OSEventCnt e AND OS_MUTEX_KEEP_LOWER_8),
               OSValue = (ucast (OSEventCnt e AND OS_MUTEX_KEEP_LOWER_8) = (0xFF :: u8)), OSWaiting = wait_list e\<rparr>)))"

text \<open>Deleting; readying all tasks takes one round for each of the 64 priorities at most.\<close>

fun ready_all :: "nat \<Rightarrow> nat \<Rightarrow> mkern \<Rightarrow> fault + mkern" where
  "ready_all fuel ev s =
     ebind (ecb_of ev s) (\<lambda>e.
     if Grp (wait_list e) = 0 then Inr s
     else case fuel of
       0 \<Rightarrow> Inl Still_Running
     | Suc n \<Rightarrow> ebind (OS_EventTaskRdy ev OS_STAT_MUTEX OS_STAT_PEND_OK s) (\<lambda>(_, s1). ready_all n ev s1))"

declare ready_all.simps [simp del]

definition free_mutex :: "nat \<Rightarrow> mkern \<Rightarrow> fault + mkern" where
  "free_mutex ev s =
     ebind (ecb_of ev s) (\<lambda>e.
     set_entry (pip e) Unused ((set_ecb ev (e\<lparr>OSEventType := OS_EVENT_TYPE_UNUSED, OSEventPtr := None, OSEventCnt := 0\<rparr>) s)
       \<lparr>OSEventFreeList := ev # OSEventFreeList s\<rparr>))"

definition OSMutexDel :: "nat \<Rightarrow> u8 \<Rightarrow> mkern \<Rightarrow> fault + (nat option \<times> u8 \<times> mkern)" where
  "OSMutexDel ev opt s =
     ebind (ecb_of ev s) (\<lambda>e.
     if OSEventType e \<noteq> OS_EVENT_TYPE_MUTEX then Inr (Some ev, OS_ERR_EVENT_TYPE, s)
     else if 0 < OSIntNesting s then Inr (Some ev, OS_ERR_DEL_ISR, s)
     else
       let tasks_waiting = (Grp (wait_list e) \<noteq> 0)
       in if opt = 0 then
            if \<not> tasks_waiting then ebind (free_mutex ev s) (\<lambda>s1. Inr (None, OS_ERR_NONE, s1))
            else Inr (Some ev, OS_ERR_TASK_WAITING, s)
          else if opt = 1 then
            ebind (case OSEventPtr e of
                None \<Rightarrow> Inr s
              | Some i \<Rightarrow> ebind (tcb_of i s) (\<lambda>t. if OSTCBPrio t = pip e then OSMutex_RdyAtPrio i (mprio e) s else Inr s)) (\<lambda>s1.
            ebind (ready_all 64 ev s1) (\<lambda>s2.
            ebind (free_mutex ev s2) (\<lambda>s3.
            ebind (if tasks_waiting then OS_Sched s3 else Inr s3) (\<lambda>s4. Inr (None, OS_ERR_NONE, s4)))))
          else Inr (Some ev, OS_ERR_INVALID_OPT, s))"

end
