(* ===== verification/OsMutexRun.thy ===== *)
theory OsMutexRun
  imports OsMutex
begin

text \<open>
  Runs of tasks that take and give a mutex, wait for it with and without a time limit, delay themselves and are interrupted by the tick; their invariant,
  and from it: one owner at a time, and an owner as urgent as the most urgent task that waits.
\<close>

section \<open>Runs\<close>

text \<open>\<open>inside\<close> are the tasks in the middle of a waiting call, \<open>holders\<close> those that have been told they own the mutex and have not given it back.\<close>

record mrun =
  kern :: mkern
  inside :: "nat set"
  holders :: "nat set"

definition told :: "u8 \<Rightarrow> mrun \<Rightarrow> nat set" where
  "told err w = (if err = OS_ERR_NONE then insert (OSTCBCur (kern w)) (holders w) else holders w)"

text \<open>
  A task that owns the mutex does not wait for it or for another event, as the manual of the kernel demands; it may delay itself. The idle task (63) makes no
  calls. Without \<open>lim\<close> all tasks wait without a time limit, as the Ethernet driver does.
\<close>

definition may_call :: "mrun \<Rightarrow> bool" where
  "may_call w \<longleftrightarrow> OSTCBCur (kern w) \<notin> inside w \<and> OSPrioCur (kern w) \<noteq> 63"

inductive mstep :: "bool \<Rightarrow> nat \<Rightarrow> mrun \<Rightarrow> mrun \<Rightarrow> bool" for lim ev where
  accept: "may_call w \<Longrightarrow> OSMutexAccept ev (kern w) = Inr (ok, err, k) \<Longrightarrow>
    mstep lim ev w (w\<lparr>kern := k, holders := (if ok then insert (OSTCBCur (kern w)) (holders w) else holders w)\<rparr>)"
| pend: "may_call w \<Longrightarrow> OSTCBCur (kern w) \<notin> holders w \<Longrightarrow> lim \<or> timeout = 0 \<Longrightarrow> OSMutexPend ev timeout (kern w) = Inr (Returns err, k) \<Longrightarrow>
    mstep lim ev w (w\<lparr>kern := k, holders := told err w\<rparr>)"
| block: "may_call w \<Longrightarrow> OSTCBCur (kern w) \<notin> holders w \<Longrightarrow> lim \<or> timeout = 0 \<Longrightarrow> OSMutexPend ev timeout (kern w) = Inr (Waits, k) \<Longrightarrow>
    mstep lim ev w (w\<lparr>kern := k, inside := insert (OSTCBCur (kern w)) (inside w)\<rparr>)"
| resume: "OSTCBCur (kern w) \<in> inside w \<Longrightarrow> OSMutexPend_resume ev (kern w) = Inr (err, k) \<Longrightarrow>
    mstep lim ev w (w\<lparr>kern := k, inside := inside w - {OSTCBCur (kern w)}, holders := told err w\<rparr>)"
| post: "may_call w \<Longrightarrow> OSMutexPost ev (kern w) = Inr (err, k) \<Longrightarrow>
    mstep lim ev w (w\<lparr>kern := k, holders := (if err = OS_ERR_NONE then holders w - {OSTCBCur (kern w)} else holders w)\<rparr>)"
| dly: "may_call w \<Longrightarrow> OSTimeDly ticks (kern w) = Inr k \<Longrightarrow> mstep lim ev w (w\<lparr>kern := k\<rparr>)"
| tick: "tick_interrupt (kern w) = Inr k \<Longrightarrow> mstep lim ev w (w\<lparr>kern := k\<rparr>)"

section \<open>The invariant\<close>

text \<open>
  Of a task with its own priority \<open>base i\<close>, below that of the mutex: its entries in the tables, what it waits for and what it has been given. The sets of
  priorities are those of the ready list and of the list of the mutex.
\<close>

definition mtask :: "bool \<Rightarrow> (nat \<Rightarrow> nat) \<Rightarrow> nat \<Rightarrow> nat \<Rightarrow> (nat \<Rightarrow> prio_entry) \<Rightarrow> nat set \<Rightarrow> nat set \<Rightarrow> nat option \<Rightarrow> nat set \<Rightarrow> nat set \<Rightarrow>
    nat \<Rightarrow> mtcb \<Rightarrow> bool" where
  "mtask lim base P ev tbl rp wp ow I H i t \<longleftrightarrow>
     P < base i \<and> base i < 64 \<and> tbl (base i) = Tcb i \<and> tbl (OSTCBPrio t) = Tcb i \<and>
     (OSTCBPrio t = base i \<or> OSTCBPrio t = P \<and> ow = Some i) \<and>
     (OSTCBPrio t \<in> rp \<longleftrightarrow> OSTCBStat t = OS_STAT_RDY \<and> OSTCBDly t = 0) \<and>
     (OSTCBPrio t \<in> wp \<longleftrightarrow> i \<in> I \<and> ow \<noteq> Some i) \<and>
     (if i \<in> I then OSTCBEventPtr t = Some ev \<and> i \<notin> H \<and>
        (if ow = Some i then OSTCBStat t = OS_STAT_RDY \<and> OSTCBDly t = 0 \<and> OSTCBStatPend t = OS_STAT_PEND_OK
         else OSTCBStat t = OS_STAT_MUTEX \<and> OSTCBStatPend t = OS_STAT_PEND_OK \<and> (lim \<or> OSTCBDly t = 0) \<or>
           lim \<and> OSTCBStat t = OS_STAT_RDY \<and> OSTCBDly t = 0 \<and> OSTCBStatPend t = OS_STAT_PEND_TO)
      else OSTCBEventPtr t = None \<and> OSTCBStat t = OS_STAT_RDY \<and> OSTCBStatPend t = OS_STAT_PEND_OK \<and> (ow = Some i \<longleftrightarrow> i \<in> H))"

lemma mtask_cong:
  assumes "mtask lim base P ev tbl rp wp ow I H i t" and "OSTCBPrio t \<in> rp' \<longleftrightarrow> OSTCBPrio t \<in> rp" and "OSTCBPrio t \<in> wp' \<longleftrightarrow> OSTCBPrio t \<in> wp"
    and "tbl' (base i) = tbl (base i)" and "tbl' (OSTCBPrio t) = tbl (OSTCBPrio t)" and "ow' = Some i \<longleftrightarrow> ow = Some i" and "i \<in> I' \<longleftrightarrow> i \<in> I"
    and "i \<in> H' \<longleftrightarrow> i \<in> H"
  shows "mtask lim base P ev tbl' rp' wp' ow' I' H' i t"
  using assms unfolding mtask_def by simp

definition core :: "bool \<Rightarrow> (nat \<Rightarrow> nat) \<Rightarrow> nat \<Rightarrow> nat \<Rightarrow> (nat \<Rightarrow> mtcb option) \<Rightarrow> (nat \<Rightarrow> prio_entry) \<Rightarrow> nat set \<Rightarrow> nat set \<Rightarrow> nat option \<Rightarrow> nat set \<Rightarrow> nat set \<Rightarrow>
    bool" where
  "core lim base P ev T tbl rp wp ow I H \<longleftrightarrow>
     inj_on base (dom T) \<and> (\<forall>i t. T i = Some t \<longrightarrow> mtask lim base P ev tbl rp wp ow I H i t) \<and>
     (\<forall>p \<in> rp \<union> wp. \<exists>i t. T i = Some t \<and> OSTCBPrio t = p) \<and>
     I \<union> H \<subseteq> dom T \<and> (\<forall>i. ow = Some i \<longrightarrow> i \<in> dom T) \<and> (ow = None \<longrightarrow> wp = {}) \<and>
     (\<exists>z t. T z = Some t \<and> base z = 63 \<and> z \<notin> I \<and> ow \<noteq> Some z \<and> OSTCBDly t = 0)"

lemma coreD:
  assumes "core lim base P ev T tbl rp wp ow I H"
  shows "inj_on base (dom T)" "T i = Some t \<Longrightarrow> mtask lim base P ev tbl rp wp ow I H i t" "p \<in> rp \<or> p \<in> wp \<Longrightarrow> \<exists>i t. T i = Some t \<and> OSTCBPrio t = p"
    "I \<subseteq> dom T" "H \<subseteq> dom T" "ow = Some j \<Longrightarrow> \<exists>u. T j = Some u" "ow = None \<Longrightarrow> wp = {}"
    "\<exists>z t. T z = Some t \<and> base z = 63 \<and> z \<notin> I \<and> ow \<noteq> Some z \<and> OSTCBDly t = 0"
  using assms unfolding core_def by auto

lemma prio_inj:
  assumes c: "core lim base P ev T tbl rp wp ow I H" and i: "T i = Some t" and j: "T j = Some u" and p: "OSTCBPrio t = OSTCBPrio u"
  shows "i = j"
  using coreD(2) [OF c i] coreD(2) [OF c j] p unfolding mtask_def by auto

text \<open>The rest: an owner is as urgent as each task that waits, and, without time limits, no more urgent than need be.\<close>

definition urgent :: "bool \<Rightarrow> (nat \<Rightarrow> nat) \<Rightarrow> nat \<Rightarrow> (nat \<Rightarrow> mtcb option) \<Rightarrow> nat set \<Rightarrow> nat option \<Rightarrow> bool" where
  "urgent lim base P T wp ow \<longleftrightarrow>
     (\<forall>i t. ow = Some i \<and> T i = Some t \<longrightarrow>
        ((\<exists>q \<in> wp. q < base i) \<longrightarrow> OSTCBPrio t = P) \<and> (\<not> lim \<and> OSTCBPrio t = P \<longrightarrow> (\<exists>q \<in> wp. q < base i)))"

definition mutex_cnt :: "(nat \<Rightarrow> nat) \<Rightarrow> nat \<Rightarrow> nat option \<Rightarrow> u16" where
  "mutex_cnt base P ow = push_bit 8 (of_nat P) OR (case ow of None \<Rightarrow> OS_MUTEX_AVAILABLE | Some i \<Rightarrow> of_nat (base i))"

definition mutex_ok :: "bool \<Rightarrow> (nat \<Rightarrow> nat) \<Rightarrow> nat \<Rightarrow> nat \<Rightarrow> mkern \<Rightarrow> nat set \<Rightarrow> nat set \<Rightarrow> bool" where
  "mutex_ok lim base P ev k I H \<longleftrightarrow>
     (\<exists>e. ecbs k ev = Some e \<and> OSEventType e = OS_EVENT_TYPE_MUTEX \<and> OSEventCnt e = mutex_cnt base P (OSEventPtr e) \<and> tbl_ok (wait_list e) \<and>
        core lim base P ev (tcbs k) (OSTCBPrioTbl k) (prios_of (rdy_list k)) (prios_of (wait_list e)) (OSEventPtr e) I H \<and>
        urgent lim base P (tcbs k) (prios_of (wait_list e)) (OSEventPtr e)) \<and>
     tbl_ok (rdy_list k) \<and> OSIntNesting k = 0 \<and> OSLockNesting k = 0 \<and>
     (\<exists>l z. OSTCBList k = l @ [z] \<and> base z = 63 \<and> set (OSTCBList k) = dom (tcbs k))"

text \<open>The task that runs is ready; it has the highest priority among those that are, unless there are time limits (see below).\<close>

definition runs_ok :: "bool \<Rightarrow> mkern \<Rightarrow> bool" where
  "runs_ok lim k \<longleftrightarrow> (\<exists>t. tcbs k (OSTCBCur k) = Some t \<and> OSPrioCur k = OSTCBPrio t) \<and> OSPrioCur k \<in> prios_of (rdy_list k) \<and>
     (\<not> lim \<longrightarrow> (\<forall>p \<in> prios_of (rdy_list k). OSPrioCur k \<le> p))"

definition run_ok :: "bool \<Rightarrow> (nat \<Rightarrow> nat) \<Rightarrow> nat \<Rightarrow> nat \<Rightarrow> mrun \<Rightarrow> bool" where
  "run_ok lim base P ev w \<longleftrightarrow> mutex_ok lim base P ev (kern w) (inside w) (holders w) \<and> runs_ok lim (kern w)"

section \<open>Words\<close>

lemma small_bits:
  assumes "q < 2 ^ m" and "bit (of_nat q :: u16) n"
  shows "n < m"
proof -
  have "(of_nat q :: u16) = take_bit m (of_nat q)" using assms(1) by (simp add: take_bit_of_nat take_bit_nat_eq_self)
  then show ?thesis using assms(2) by (metis bit_take_bit_iff)
qed

lemma mutex_cnt_parts:
  assumes "p < 64" and "q < 256" and "c = push_bit 8 (of_nat p) OR of_nat q"
  shows "unat (drop_bit 8 (c :: u16)) = p" and "unat (c AND 0xFF) = q" and "c AND 0xFF00 = push_bit 8 (of_nat p)" and "c OR 0xFF = push_bit 8 (of_nat p) OR 0xFF"
proof -
  define x y :: u16 where "x = of_nat p" and "y = of_nat q"
  have p: "bit x n \<Longrightarrow> n < 6" and q: "bit y n \<Longrightarrow> n < 8" for n
    unfolding x_def y_def using small_bits [of p 6 n] small_bits [of q 8 n] assms(1,2) by simp_all
  have c: "c = push_bit 8 x OR y" by (simp add: assms(3) x_def y_def)
  have "0xFF00 = push_bit 8 (0xFF :: u16)" by simp
  then have b: "bit (0xFF00 :: u16) n \<longleftrightarrow> 8 \<le> n \<and> n < 16" for n by (simp only: bit_push_bit_iff bit_0xFF) auto
  note f = bit_0xFF(2)
  have "drop_bit 8 c = x" unfolding c by (rule bit_word_eqI) (auto simp: bit_simps dest: p q)
  then show "unat (drop_bit 8 c) = p" using assms(1) by (simp add: x_def unat_of_nat_u16)
  have "c AND 0xFF = y"
    unfolding c by (rule bit_word_eqI, unfold bit_and_iff bit_or_iff bit_push_bit_iff f) (auto dest: p q)
  then show "unat (c AND 0xFF) = q" using assms(2) by (simp add: y_def unat_of_nat_u16)
  show "c AND 0xFF00 = push_bit 8 (of_nat p)"
    unfolding c x_def [symmetric] by (rule bit_word_eqI, unfold bit_and_iff bit_or_iff bit_push_bit_iff b) (auto dest: p q)
  show "c OR 0xFF = push_bit 8 (of_nat p) OR 0xFF"
    unfolding c x_def [symmetric] by (rule bit_word_eqI, unfold bit_and_iff bit_or_iff bit_push_bit_iff f) (auto dest: p q)
qed

lemma cnt_facts:
  assumes "P < 64" and "\<And>i. ow = Some i \<Longrightarrow> base i < 64" and "OSEventCnt e = mutex_cnt base P ow"
  shows "pip e = P" and "available e \<longleftrightarrow> ow = None" and "ow = Some i \<Longrightarrow> mprio e = base i"
    and "OSEventCnt e AND OS_MUTEX_KEEP_UPPER_8 OR of_nat (base j) = mutex_cnt base P (Some j)" and "OSEventCnt e OR OS_MUTEX_AVAILABLE = mutex_cnt base P None"
proof -
  define q where "q = (case ow of None \<Rightarrow> 255 | Some i \<Rightarrow> base i)"
  have q: "q < 256" "OSEventCnt e = push_bit 8 (of_nat P) OR of_nat q"
    using assms(2) by (fastforce simp: q_def assms(3) mutex_cnt_def split: option.splits)+
  note m = mutex_cnt_parts [OF assms(1) q]
  show "pip e = P" by (simp add: pip_def m)
  have "OSEventCnt e AND 0xFF = 0xFF \<longleftrightarrow> q = 255" by (simp add: word_unat_eq_iff m(2))
  then show "available e \<longleftrightarrow> ow = None" using assms(2) by (fastforce simp: available_def q_def split: option.splits)
  show "mprio e = base i" if "ow = Some i" using that m(2) by (simp add: mprio_def q_def)
  show "OSEventCnt e AND OS_MUTEX_KEEP_UPPER_8 OR of_nat (base j) = mutex_cnt base P (Some j)" by (simp add: m(3) mutex_cnt_def)
  show "OSEventCnt e OR OS_MUTEX_AVAILABLE = mutex_cnt base P None" by (simp add: m(4) mutex_cnt_def)
qed

section \<open>Changes to the tables\<close>

lemma core_update:
  assumes c: "core lim base P ev T tbl rp wp ow I H" and i: "T i = Some t"
    and new: "mtask lim base P ev tbl' rp' wp' ow' I' H' i t'"
    and others: "\<And>j u. j \<noteq> i \<Longrightarrow> T j = Some u \<Longrightarrow> mtask lim base P ev tbl' rp' wp' ow' I' H' j u"
    and cover: "\<And>p. p \<in> rp' \<or> p \<in> wp' \<Longrightarrow> p = OSTCBPrio t' \<or> (p \<in> rp \<or> p \<in> wp) \<and> p \<noteq> OSTCBPrio t"
    and sub: "I' \<subseteq> insert i I" "H' \<subseteq> insert i H" "\<And>j. ow' = Some j \<Longrightarrow> j = i \<or> ow = Some j" "ow' = None \<Longrightarrow> wp' = {}" and idle: "base i \<noteq> 63"
  shows "core lim base P ev (T(i \<mapsto> t')) tbl' rp' wp' ow' I' H'"
proof -
  have d: "dom (T(i \<mapsto> t')) = dom T" using i by auto
  have cov: "\<exists>j u. (T(i \<mapsto> t')) j = Some u \<and> OSTCBPrio u = p" if p: "p \<in> rp' \<or> p \<in> wp'" for p
  proof (cases "p = OSTCBPrio t'")
    case True
    then show ?thesis by (intro exI [of _ i] exI [of _ t']) simp
  next
    case False
    then have "p \<in> rp \<or> p \<in> wp" "p \<noteq> OSTCBPrio t" using cover [OF p] by auto
    then obtain j u where j: "T j = Some u" "OSTCBPrio u = p" using coreD(3) [OF c] by blast
    then have "j \<noteq> i" using i \<open>p \<noteq> OSTCBPrio t\<close> by auto
    then show ?thesis using j by (intro exI [of _ j] exI [of _ u]) simp
  qed
  obtain z u where z: "T z = Some u" "base z = 63" "z \<notin> I" "ow \<noteq> Some z" "OSTCBDly u = 0" using coreD(8) [OF c] by blast
  then have "z \<noteq> i" using idle by auto
  then have idle': "\<exists>z t. (T(i \<mapsto> t')) z = Some t \<and> base z = 63 \<and> z \<notin> I' \<and> ow' \<noteq> Some z \<and> OSTCBDly t = 0"
    using z sub(1,3) by (intro exI [of _ z] exI [of _ u]) auto
  have s: "I' \<union> H' \<subseteq> dom T" "\<And>j. ow' = Some j \<Longrightarrow> j \<in> dom T" using sub(1-3) coreD(4,5,6) [OF c] i by auto
  have m: "mtask lim base P ev tbl' rp' wp' ow' I' H' j u" if "(T(i \<mapsto> t')) j = Some u" for j u
    using that new others [of j u] by (cases "j = i") auto
  show ?thesis unfolding core_def d using coreD(1) [OF c] cov idle' s sub(4) m by blast
qed

lemma mtaskD:
  assumes "mtask lim base P ev tbl rp wp ow I H i t"
  shows "P < base i" "base i < 64" "tbl (base i) = Tcb i" "tbl (OSTCBPrio t) = Tcb i" "OSTCBPrio t = base i \<or> OSTCBPrio t = P \<and> ow = Some i"
    "OSTCBPrio t \<in> rp \<longleftrightarrow> OSTCBStat t = OS_STAT_RDY \<and> OSTCBDly t = 0" "OSTCBPrio t \<in> wp \<longleftrightarrow> i \<in> I \<and> ow \<noteq> Some i"
    "i \<in> H \<Longrightarrow> i \<notin> I \<and> ow = Some i" "ow = Some i \<Longrightarrow> i \<in> H \<or> i \<in> I"
  using assms unfolding mtask_def by (auto split: if_splits)

lemma other_prio:
  assumes "core lim base P ev T tbl rp wp ow I H" and "T i = Some t" and "T j = Some u" and "j \<noteq> i"
  shows "OSTCBPrio u \<noteq> OSTCBPrio t" "OSTCBPrio u \<noteq> base i" "base j \<noteq> base i" "ow = Some i \<Longrightarrow> OSTCBPrio u \<noteq> P"
proof -
  show "OSTCBPrio u \<noteq> OSTCBPrio t" using prio_inj [OF assms(1,3,2)] assms(4) by blast
  show "base j \<noteq> base i" using coreD(1) [OF assms(1)] assms(2-4) by (auto dest: inj_onD)
  then show "OSTCBPrio u \<noteq> base i" using mtaskD(1,5) [OF coreD(2) [OF assms(1,3)]] mtaskD(1) [OF coreD(2) [OF assms(1,2)]] by auto
  show "OSTCBPrio u \<noteq> P" if "ow = Some i" using that mtaskD(1,5) [OF coreD(2) [OF assms(1,3)]] assms(4) by auto
qed

lemma core_acquire:
  assumes c: "core lim base P ev T tbl rp wp None I H" and i: "T i = Some t" "i \<notin> I" "base i \<noteq> 63"
  shows "core lim base P ev T tbl rp wp (Some i) I (insert i H)"
proof -
  note m = coreD(2) [OF c i(1)]
  have "core lim base P ev (T(i \<mapsto> t)) tbl rp wp (Some i) I (insert i H)"
  proof (rule core_update [OF c i(1)])
    show "mtask lim base P ev tbl rp wp (Some i) I (insert i H) i t" using m i(2) unfolding mtask_def by auto
    show "mtask lim base P ev tbl rp wp (Some i) I (insert i H) j u" if "j \<noteq> i" "T j = Some u" for j u
      by (rule mtask_cong [OF coreD(2) [OF c that(2)]]) (use that(1) in simp_all)
  qed (use i(3) coreD(7) [OF c] m in \<open>auto simp: mtask_def\<close>)
  then show ?thesis using i(1) by (simp add: map_upd_triv)
qed

lemma core_raise:
  assumes c: "core lim base P ev T tbl rp wp (Some i) I H" and i: "T i = Some t" "OSTCBPrio t = base i" "base i \<noteq> 63"
    and rp: "rp' = (if base i \<in> rp then insert P (rp - {base i}) else rp)"
  shows "core lim base P ev (T(i \<mapsto> t\<lparr>OSTCBPrio := P\<rparr>)) (tbl(P := Tcb i)) rp' wp (Some i) I H"
proof (rule core_update [OF c i(1)])
  note m = coreD(2) [OF c i(1)]
  have P: "P \<notin> rp" "P \<notin> wp"
  proof -
    have "P \<noteq> OSTCBPrio u" if "T j = Some u" for j u
      using mtaskD(1,5) [OF coreD(2) [OF c that]] mtaskD(1) [OF m] i(1,2) that by auto
    then show "P \<notin> rp" "P \<notin> wp" using coreD(3) [OF c, of P] by blast+
  qed
  show "mtask lim base P ev (tbl(P := Tcb i)) rp' wp (Some i) I H i (t\<lparr>OSTCBPrio := P\<rparr>)"
    using m P i(2) unfolding mtask_def rp by (auto split: if_splits)
  show "mtask lim base P ev (tbl(P := Tcb i)) rp' wp (Some i) I H j u" if "j \<noteq> i" "T j = Some u" for j u
    by (rule mtask_cong [OF coreD(2) [OF c that(2)]])
      (use other_prio [OF c i(1) that(2,1)] mtaskD(1,2) [OF coreD(2) [OF c that(2)]] rp in auto)
  have "OSTCBPrio t \<notin> wp" using mtaskD(7) [OF m] by simp
  then show "p = OSTCBPrio (t\<lparr>OSTCBPrio := P\<rparr>) \<or> (p \<in> rp \<or> p \<in> wp) \<and> p \<noteq> OSTCBPrio t" if "p \<in> rp' \<or> p \<in> wp" for p
    using that rp i(2) by (auto split: if_splits)
qed (use i(3) in auto)

lemma core_block:
  assumes c: "core lim base P ev T tbl rp wp ow I H" and i: "T i = Some t" "i \<notin> I" "i \<notin> H" "base i \<noteq> 63" and ow: "ow \<noteq> None" and d: "lim \<or> dl = 0"
  shows "core lim base P ev (T(i \<mapsto> t\<lparr>OSTCBStat := OS_STAT_MUTEX, OSTCBStatPend := OS_STAT_PEND_OK, OSTCBDly := dl, OSTCBEventPtr := Some ev\<rparr>)) tbl
    (rp - {OSTCBPrio t}) (insert (OSTCBPrio t) wp) ow (insert i I) H"
proof (rule core_update [OF c i(1)])
  note m = coreD(2) [OF c i(1)]
  have no: "ow \<noteq> Some i" using mtaskD(9) [OF m] i(2,3) by blast
  show "mtask lim base P ev tbl (rp - {OSTCBPrio t}) (insert (OSTCBPrio t) wp) ow (insert i I) H i
      (t\<lparr>OSTCBStat := OS_STAT_MUTEX, OSTCBStatPend := OS_STAT_PEND_OK, OSTCBDly := dl, OSTCBEventPtr := Some ev\<rparr>)"
    using m i(2,3) no d unfolding mtask_def by auto
  show "mtask lim base P ev tbl (rp - {OSTCBPrio t}) (insert (OSTCBPrio t) wp) ow (insert i I) H j u" if "j \<noteq> i" "T j = Some u" for j u
    by (rule mtask_cong [OF coreD(2) [OF c that(2)]]) (use other_prio [OF c i(1) that(2,1)] that(1) in simp_all)
  show "p = OSTCBPrio (t\<lparr>OSTCBStat := OS_STAT_MUTEX, OSTCBStatPend := OS_STAT_PEND_OK, OSTCBDly := dl, OSTCBEventPtr := Some ev\<rparr>) \<or>
      (p \<in> rp \<or> p \<in> wp) \<and> p \<noteq> OSTCBPrio t" if "p \<in> rp - {OSTCBPrio t} \<or> p \<in> insert (OSTCBPrio t) wp" for p
    using that by auto
qed (use i(4) ow in auto)

lemma not_idle:
  assumes "core lim base P ev T tbl rp wp ow I H" and "T i = Some t" and "i \<in> I \<or> ow = Some i \<or> OSTCBDly t \<noteq> 0"
  shows "base i \<noteq> 63"
proof
  assume "base i = 63"
  obtain z u where z: "T z = Some u" "base z = 63" "z \<notin> I" "ow \<noteq> Some z" "OSTCBDly u = 0" using coreD(8) [OF assms(1)] by blast
  have "z = i" using inj_onD [OF coreD(1) [OF assms(1)], of z i] z(1,2) \<open>base i = 63\<close> assms(2) by auto
  then show False using z assms(2,3) by auto
qed

lemma core_pip:
  assumes c: "core lim base P ev T tbl rp wp ow I H" and no: "\<And>i t. T i = Some t \<Longrightarrow> OSTCBPrio t \<noteq> P"
  shows "core lim base P ev T (tbl(P := x)) rp wp ow I H"
proof -
  have "mtask lim base P ev (tbl(P := x)) rp wp ow I H i t" if "T i = Some t" for i t
    by (rule mtask_cong [OF coreD(2) [OF c that]]) (use no [OF that] mtaskD(1) [OF coreD(2) [OF c that]] in simp_all)
  then show ?thesis using c unfolding core_def by blast
qed

lemma core_lower:
  assumes c: "core lim base P ev T tbl rp wp (Some i) I H" and i: "T i = Some t" "OSTCBPrio t = P" "P \<in> rp"
  shows "core lim base P ev (T(i \<mapsto> t\<lparr>OSTCBPrio := base i\<rparr>)) (tbl(base i := Tcb i)) (insert (base i) (rp - {P})) wp (Some i) I H"
proof (rule core_update [OF c i(1)])
  note m = coreD(2) [OF c i(1)]
  have "base i \<noteq> OSTCBPrio u" if "T j = Some u" for j u
    using other_prio(2) [OF c i(1) that] mtaskD(1) [OF m] i(1,2) that by (cases "j = i") auto
  then have b: "base i \<notin> rp" "base i \<notin> wp" using coreD(3) [OF c, of "base i"] by metis+
  show "mtask lim base P ev (tbl(base i := Tcb i)) (insert (base i) (rp - {P})) wp (Some i) I H i (t\<lparr>OSTCBPrio := base i\<rparr>)"
    using m b i(2,3) unfolding mtask_def by (auto split: if_splits)
  show "mtask lim base P ev (tbl(base i := Tcb i)) (insert (base i) (rp - {P})) wp (Some i) I H j u" if "j \<noteq> i" "T j = Some u" for j u
    by (rule mtask_cong [OF coreD(2) [OF c that(2)]]) (use other_prio [OF c i(1) that(2,1)] in auto)
  have "P \<notin> wp" using mtaskD(7) [OF m] i(2) by simp
  then show "p = OSTCBPrio (t\<lparr>OSTCBPrio := base i\<rparr>) \<or> (p \<in> rp \<or> p \<in> wp) \<and> p \<noteq> OSTCBPrio t" if "p \<in> insert (base i) (rp - {P}) \<or> p \<in> wp" for p
    using that i(2) by auto
qed (use not_idle [OF c i(1)] in auto)

lemma core_hand:
  assumes c: "core lim base P ev T tbl rp wp (Some i) I H" and i: "T i = Some t" "OSTCBPrio t = base i" "i \<in> H"
    and j: "T j = Some u" "OSTCBPrio u \<in> wp"
  shows "core lim base P ev (T(j \<mapsto> u\<lparr>OSTCBDly := 0, OSTCBStat := OS_STAT_RDY, OSTCBStatPend := OS_STAT_PEND_OK\<rparr>)) tbl
    (insert (OSTCBPrio u) rp) (wp - {OSTCBPrio u}) (Some j) I (H - {i})"
proof (rule core_update [OF c j(1)])
  let ?u = "u\<lparr>OSTCBDly := 0, OSTCBStat := OS_STAT_RDY, OSTCBStatPend := OS_STAT_PEND_OK\<rparr>"
  note m = coreD(2) [OF c j(1)] and mi = coreD(2) [OF c i(1)]
  have jI: "j \<in> I" "j \<noteq> i" using mtaskD(7) [OF m] j(2) by auto
  then have "OSTCBPrio u = base j" using mtaskD(5) [OF m] by auto
  then show "mtask lim base P ev tbl (insert (OSTCBPrio u) rp) (wp - {OSTCBPrio u}) (Some j) I (H - {i}) j ?u"
    using m jI unfolding mtask_def by (auto split: if_splits)
  show "mtask lim base P ev tbl (insert (OSTCBPrio u) rp) (wp - {OSTCBPrio u}) (Some j) I (H - {i}) l v" if "l \<noteq> j" "T l = Some v" for l v
  proof (cases "l = i")
    case True
    have "OSTCBPrio t \<noteq> OSTCBPrio u" using other_prio(1) [OF c j(1) i(1)] jI by auto
    then show ?thesis using mi i that True jI unfolding mtask_def by (auto split: if_splits)
  next
    case False
    show ?thesis
      by (rule mtask_cong [OF coreD(2) [OF c that(2)]]) (use other_prio [OF c j(1) that(2,1)] False that(1) in auto)
  qed
  show "base j \<noteq> 63" using not_idle [OF c j(1)] jI by blast
qed auto

lemma core_release:
  assumes c: "core lim base P ev T tbl rp {} (Some i) I H" and i: "T i = Some t" "OSTCBPrio t = base i" "i \<in> H"
  shows "core lim base P ev T tbl rp {} None I (H - {i})"
proof -
  have "core lim base P ev (T(i \<mapsto> t)) tbl rp {} None I (H - {i})"
  proof (rule core_update [OF c i(1)])
    show "mtask lim base P ev tbl rp {} None I (H - {i}) i t" using coreD(2) [OF c i(1)] i unfolding mtask_def by auto
    show "mtask lim base P ev tbl rp {} None I (H - {i}) j u" if "j \<noteq> i" "T j = Some u" for j u
      by (rule mtask_cong [OF coreD(2) [OF c that(2)]]) (use that(1) in auto)
    have "OSTCBPrio v \<noteq> OSTCBPrio t" if "T j = Some v" "j \<noteq> i" for j v using other_prio(1) [OF c i(1) that] .
    then show "p = OSTCBPrio t \<or> (p \<in> rp \<or> p \<in> {}) \<and> p \<noteq> OSTCBPrio t" if "p \<in> rp \<or> p \<in> {}" for p using that by auto
  qed (use not_idle [OF c i(1)] in auto)
  then show ?thesis using i(1) by (simp add: map_upd_triv)
qed

lemma core_resume:
  assumes c: "core lim base P ev T tbl rp wp ow I H" and i: "T i = Some t" "i \<in> I" "OSTCBPrio t \<in> rp"
  shows "core lim base P ev (T(i \<mapsto> t\<lparr>OSTCBStat := OS_STAT_RDY, OSTCBStatPend := OS_STAT_PEND_OK, OSTCBEventPtr := None\<rparr>)) tbl rp (wp - {OSTCBPrio t}) ow
    (I - {i}) (if ow = Some i then insert i H else H)"
proof (rule core_update [OF c i(1)])
  note m = coreD(2) [OF c i(1)]
  show "mtask lim base P ev tbl rp (wp - {OSTCBPrio t}) ow (I - {i}) (if ow = Some i then insert i H else H) i
      (t\<lparr>OSTCBStat := OS_STAT_RDY, OSTCBStatPend := OS_STAT_PEND_OK, OSTCBEventPtr := None\<rparr>)"
    using m i unfolding mtask_def by (auto split: if_splits)
  show "mtask lim base P ev tbl rp (wp - {OSTCBPrio t}) ow (I - {i}) (if ow = Some i then insert i H else H) j u" if "j \<noteq> i" "T j = Some u" for j u
    by (rule mtask_cong [OF coreD(2) [OF c that(2)]]) (use other_prio(1) [OF c i(1) that(2,1)] that(1) in simp_all)
  show "p = OSTCBPrio (t\<lparr>OSTCBStat := OS_STAT_RDY, OSTCBStatPend := OS_STAT_PEND_OK, OSTCBEventPtr := None\<rparr>) \<or> (p \<in> rp \<or> p \<in> wp) \<and> p \<noteq> OSTCBPrio t"
    if "p \<in> rp \<or> p \<in> wp - {OSTCBPrio t}" for p using that by auto
  show "base i \<noteq> 63" by (rule not_idle [OF c i(1)]) (use i(2) in simp)
qed (use i coreD(7) [OF c] in auto)

lemma core_dly:
  assumes c: "core lim base P ev T tbl rp wp ow I H" and i: "T i = Some t" "i \<notin> I" "base i \<noteq> 63" "n \<noteq> 0"
  shows "core lim base P ev (T(i \<mapsto> t\<lparr>OSTCBDly := n\<rparr>)) tbl (rp - {OSTCBPrio t}) wp ow I H"
proof (rule core_update [OF c i(1)])
  note m = coreD(2) [OF c i(1)]
  show "mtask lim base P ev tbl (rp - {OSTCBPrio t}) wp ow I H i (t\<lparr>OSTCBDly := n\<rparr>)" using m i unfolding mtask_def by auto
  show "mtask lim base P ev tbl (rp - {OSTCBPrio t}) wp ow I H j u" if "j \<noteq> i" "T j = Some u" for j u
    by (rule mtask_cong [OF coreD(2) [OF c that(2)]]) (use other_prio(1) [OF c i(1) that(2,1)] in auto)
  have "OSTCBPrio t \<notin> wp" using mtaskD(7) [OF m] i(2) by simp
  then show "p = OSTCBPrio (t\<lparr>OSTCBDly := n\<rparr>) \<or> (p \<in> rp \<or> p \<in> wp) \<and> p \<noteq> OSTCBPrio t" if "p \<in> rp - {OSTCBPrio t} \<or> p \<in> wp" for p
    using that by auto
qed (use i coreD(7) [OF c] in auto)

text \<open>One count of a delay, and its end.\<close>

lemma core_count:
  assumes c: "core lim base P ev T tbl rp wp ow I H" and i: "T i = Some t" "OSTCBDly t \<noteq> 0" "n \<noteq> 0"
  shows "core lim base P ev (T(i \<mapsto> t\<lparr>OSTCBDly := n\<rparr>)) tbl rp wp ow I H"
proof (rule core_update [OF c i(1)])
  show "mtask lim base P ev tbl rp wp ow I H i (t\<lparr>OSTCBDly := n\<rparr>)" using coreD(2) [OF c i(1)] i(2,3) unfolding mtask_def by (auto split: if_splits)
  show "p = OSTCBPrio (t\<lparr>OSTCBDly := n\<rparr>) \<or> (p \<in> rp \<or> p \<in> wp) \<and> p \<noteq> OSTCBPrio t" if "p \<in> rp \<or> p \<in> wp" for p using that by simp
  show "base i \<noteq> 63" by (rule not_idle [OF c i(1)]) (use i(2) in simp)
qed (use coreD(2,7) [OF c] in auto)

lemma core_wake:
  assumes c: "core lim base P ev T tbl rp wp ow I H" and i: "T i = Some t" "OSTCBDly t \<noteq> 0"
    and t': "t' = t\<lparr>OSTCBDly := 0, OSTCBStat := OS_STAT_RDY, OSTCBStatPend := (if OSTCBStat t = OS_STAT_RDY then OS_STAT_PEND_OK else OS_STAT_PEND_TO)\<rparr>"
  shows "core lim base P ev (T(i \<mapsto> t')) tbl (insert (OSTCBPrio t) rp) wp ow I H"
proof (rule core_update [OF c i(1)])
  note m = coreD(2) [OF c i(1)]
  show "mtask lim base P ev tbl (insert (OSTCBPrio t) rp) wp ow I H i t'" using m i(2) unfolding mtask_def t' by (auto split: if_splits)
  show "mtask lim base P ev tbl (insert (OSTCBPrio t) rp) wp ow I H j u" if "j \<noteq> i" "T j = Some u" for j u
    by (rule mtask_cong [OF coreD(2) [OF c that(2)]]) (use other_prio(1) [OF c i(1) that(2,1)] in simp_all)
  show "p = OSTCBPrio t' \<or> (p \<in> rp \<or> p \<in> wp) \<and> p \<noteq> OSTCBPrio t" if "p \<in> insert (OSTCBPrio t) rp \<or> p \<in> wp" for p using that t' by auto
  show "base i \<noteq> 63" by (rule not_idle [OF c i(1)]) (use i(2) in simp)
qed (use coreD(7) [OF c] in auto)

section \<open>The calls\<close>

lemma marked_iff: "p < 64 \<Longrightarrow> marked p b \<longleftrightarrow> p \<in> prios_of b"
proof -
  have "w AND push_bit n 1 \<noteq> 0 \<longleftrightarrow> bit w n" for w :: u8 and n
    by (metis and_exp_eq_0_iff_not_bit push_bit_of_1)
  then show "p < 64 \<Longrightarrow> marked p b \<longleftrightarrow> p \<in> prios_of b" unfolding marked_def by (simp only: in_prios_of)
qed

lemma mutex_there: "mutex_ok lim base P ev k I H \<Longrightarrow> \<exists>e. ecbs k ev = Some e"
  by (auto simp: mutex_ok_def)

lemma mutex_okD:
  assumes w: "mutex_ok lim base P ev k I H" and e: "ecbs k ev = Some e"
  shows "OSEventType e = OS_EVENT_TYPE_MUTEX" "OSEventCnt e = mutex_cnt base P (OSEventPtr e)" "tbl_ok (wait_list e)"
    and "core lim base P ev (tcbs k) (OSTCBPrioTbl k) (prios_of (rdy_list k)) (prios_of (wait_list e)) (OSEventPtr e) I H"
    and "urgent lim base P (tcbs k) (prios_of (wait_list e)) (OSEventPtr e)" "tbl_ok (rdy_list k)" "OSIntNesting k = 0" "OSLockNesting k = 0"
  using assms unfolding mutex_ok_def by auto

lemma mutex_cntD:
  assumes w: "mutex_ok lim base P ev k I H" and e: "ecbs k ev = Some e"
  shows "P < 63" "pip e = P" "available e \<longleftrightarrow> OSEventPtr e = None" "OSEventPtr e = Some i \<Longrightarrow> mprio e = base i"
    "OSEventCnt e AND OS_MUTEX_KEEP_UPPER_8 OR of_nat (base j) = mutex_cnt base P (Some j)" "OSEventCnt e OR OS_MUTEX_AVAILABLE = mutex_cnt base P None"
proof -
  note co = mutex_okD(4) [OF w e]
  obtain z u where z: "tcbs k z = Some u" "base z = 63" using coreD(8) [OF co] by blast
  show P: "P < 63" using mtaskD(1) [OF coreD(2) [OF co z(1)]] z(2) by simp
  then have P64: "P < 64" by simp
  have b: "base i < 64" if o: "OSEventPtr e = Some i" for i
  proof -
    obtain u where "tcbs k i = Some u" using coreD(6) [OF co o] by blast
    from mtaskD(2) [OF coreD(2) [OF co this]] show ?thesis .
  qed
  note f = cnt_facts [OF P64 b mutex_okD(2) [OF w e]]
  show "pip e = P" by (rule f(1))
  show "available e \<longleftrightarrow> OSEventPtr e = None" by (rule f(2))
  show "OSEventPtr e = Some i \<Longrightarrow> mprio e = base i" by (rule f(3))
  show "OSEventCnt e AND OS_MUTEX_KEEP_UPPER_8 OR of_nat (base j) = mutex_cnt base P (Some j)" by (rule f(4))
  show "OSEventCnt e OR OS_MUTEX_AVAILABLE = mutex_cnt base P None" by (rule f(5))
qed

lemma mutex_okI:
  assumes w: "mutex_ok lim base P ev k I H" and e: "ecbs k' ev = Some e" "OSEventType e = OS_EVENT_TYPE_MUTEX" "OSEventCnt e = mutex_cnt base P (OSEventPtr e)"
    "tbl_ok (wait_list e)" "core lim base P ev (tcbs k') (OSTCBPrioTbl k') (prios_of (rdy_list k')) (prios_of (wait_list e)) (OSEventPtr e) I' H'"
    "urgent lim base P (tcbs k') (prios_of (wait_list e)) (OSEventPtr e)" "tbl_ok (rdy_list k')"
    and f: "OSIntNesting k' = OSIntNesting k" "OSLockNesting k' = OSLockNesting k" "OSTCBList k' = OSTCBList k" "dom (tcbs k') = dom (tcbs k)"
  shows "mutex_ok lim base P ev k' I' H'"
proof -
  have g: "OSIntNesting k = 0" "OSLockNesting k = 0" "\<exists>l z. OSTCBList k = l @ [z] \<and> base z = 63 \<and> set (OSTCBList k) = dom (tcbs k)"
    using w unfolding mutex_ok_def by blast+
  show ?thesis unfolding mutex_ok_def f using e g by blast
qed

lemma urgent_same:
  "urgent lim base P T wp ow \<Longrightarrow> T i = Some t \<Longrightarrow> OSTCBPrio t' = OSTCBPrio t \<Longrightarrow> urgent lim base P (T(i \<mapsto> t')) wp ow"
  unfolding urgent_def by (intro allI impI, erule conjE) (metis map_upd_Some_unfold)

text \<open>Scheduling: the highest priority is never that of a task that does not run and has it.\<close>

lemma sched_ok:
  assumes w: "mutex_ok lim base P ev k I H" and c: "tcbs k (OSTCBCur k) = Some t" "OSPrioCur k = OSTCBPrio t"
  obtains i p where "OS_Sched k = Inr (k\<lparr>OSTCBCur := i, OSPrioCur := p\<rparr>)" "mutex_ok lim base P ev (k\<lparr>OSTCBCur := i, OSPrioCur := p\<rparr>) I H"
    "runs_ok lim (k\<lparr>OSTCBCur := i, OSPrioCur := p\<rparr>)" "\<forall>q \<in> prios_of (rdy_list k). p \<le> q"
proof -
  obtain e0 where e0: "ecbs k ev = Some e0" using mutex_there [OF w] ..
  note e = mutex_okD(4,6,7,8) [OF w e0]
  obtain z u where z: "tcbs k z = Some u" "z \<notin> I" "OSEventPtr e0 \<noteq> Some z" "OSTCBDly u = 0" using coreD(8) [OF e(1)] by blast
  have "OSTCBPrio u \<in> prios_of (rdy_list k)" using coreD(2) [OF e(1) z(1)] z(2-4) unfolding mtask_def by auto
  then have ne: "prios_of (rdy_list k) \<noteq> {}" by blast
  define p where "p = highest (rdy_list k)"
  have p: "p \<in> prios_of (rdy_list k)" "p < 64" "\<forall>q \<in> prios_of (rdy_list k). p \<le> q" unfolding p_def using pl.top(1) [OF e(2) ne] pl.top_less [OF e(2) ne] pl.top(2) [OF e(2)] by blast+
  then obtain i v where i: "tcbs k i = Some v" "OSTCBPrio v = p" using coreD(3) [OF e(1)] by blast
  have "OSTCBPrioTbl k p = Tcb i" using mtaskD(4) [OF coreD(2) [OF e(1) i(1)]] i(2) by simp
  then have at: "task_at p k = Inr i" using p(2) by (simp add: task_at_def)
  have same: "i = OSTCBCur k" if "p = OSPrioCur k" using prio_inj [OF e(1) i(1) c(1)] i(2) c(2) that by simp
  have "OS_Sched k = Inr (k\<lparr>OSTCBCur := i, OSPrioCur := p\<rparr>)"
    using at e(3,4) same by (cases "p = OSPrioCur k") (simp_all add: OS_Sched_def Let_def flip: p_def)
  moreover have "mutex_ok lim base P ev (k\<lparr>OSTCBCur := i, OSPrioCur := p\<rparr>) I H" using w by (simp add: mutex_ok_def)
  moreover have "runs_ok lim (k\<lparr>OSTCBCur := i, OSPrioCur := p\<rparr>)" using i p by (simp add: runs_ok_def)
  ultimately show thesis using that p(3) by blast
qed

lemma acquire_ok:
  assumes w: "mutex_ok lim base P ev k I H" and e: "ecbs k ev = Some e" "available e"
    and c: "tcbs k (OSTCBCur k) = Some t" "OSTCBCur k \<notin> I" "OSPrioCur k = OSTCBPrio t" "OSPrioCur k \<noteq> 63"
  obtains k' where "acquire ev e t k = (OS_ERR_NONE, k')" "mutex_ok lim base P ev k' I (insert (OSTCBCur k) H)" "runs_ok lim k' = runs_ok lim k"
    "OSTCBCur k' = OSTCBCur k"
proof -
  let ?c = "OSTCBCur k"
  have ow: "OSEventPtr e = None" using mutex_cntD(3) [OF w e(1)] e(2) by simp
  note d = mutex_okD [OF w e(1)] and n = mutex_cntD [OF w e(1)]
  have co: "core lim base P ev (tcbs k) (OSTCBPrioTbl k) (prios_of (rdy_list k)) (prios_of (wait_list e)) None I H" using d(4) ow by simp
  have pt: "OSTCBPrio t = base ?c" "P < base ?c" using mtaskD(1,5) [OF coreD(2) [OF co c(1)]] by auto
  have nz: "base ?c \<noteq> 63" using pt(1) c(3,4) by simp
  let ?e = "e\<lparr>OSEventCnt := OSEventCnt e AND OS_MUTEX_KEEP_UPPER_8 OR of_nat (OSTCBPrio t), OSEventPtr := Some ?c\<rparr>"
  have u: "urgent lim base P (tcbs k) (prios_of (wait_list e)) (Some ?c)" using coreD(7) [OF co] c(1) pt by (simp add: urgent_def)
  have "mutex_ok lim base P ev (set_ecb ev ?e k) I (insert ?c H)"
    by (rule mutex_okI [OF w, of _ ?e]) (use d(1,3,6) n(5) [of ?c] pt core_acquire [OF co c(1,2) nz] u in \<open>simp_all add: set_ecb_def\<close>)
  moreover have "acquire ev e t k = (OS_ERR_NONE, set_ecb ev ?e k)" using n(2) pt by (simp add: acquire_def)
  moreover have "runs_ok lim (set_ecb ev ?e k) = runs_ok lim k" by (simp add: runs_ok_def set_ecb_def)
  moreover have "OSTCBCur (set_ecb ev ?e k) = ?c" by (simp add: set_ecb_def)
  ultimately show thesis using that by blast
qed

text \<open>The owner is ready at its priority or waits for no event, so raising it leaves the wait lists alone.\<close>

lemma raise_owner_ok:
  assumes w: "mutex_ok lim base P ev k I H" and e: "ecbs k ev = Some e" "OSEventPtr e = Some i" and i: "tcbs k i = Some t" "OSTCBPrio t = base i"
  obtains r where "raise_owner i P k = Inr (k\<lparr>tcbs := (tcbs k)(i \<mapsto> t\<lparr>OSTCBPrio := P\<rparr>), rdy_list := r, OSTCBPrioTbl := (OSTCBPrioTbl k)(P := Tcb i)\<rparr>)"
    "tbl_ok r" "core lim base P ev ((tcbs k)(i \<mapsto> t\<lparr>OSTCBPrio := P\<rparr>)) ((OSTCBPrioTbl k)(P := Tcb i)) (prios_of r) (prios_of (wait_list e)) (Some i) I H"
proof -
  note d = mutex_okD [OF w e(1)] and n = mutex_cntD [OF w e(1)]
  have co: "core lim base P ev (tcbs k) (OSTCBPrioTbl k) (prios_of (rdy_list k)) (prios_of (wait_list e)) (Some i) I H" using d(4) e(2) by simp
  note m = coreD(2) [OF co i(1)]
  have b: "base i < 64" "P < 64" "base i \<noteq> 63" using mtaskD(2) [OF m] n(1) not_idle [OF co i(1)] by simp_all
  define r where "r = (if base i \<in> prios_of (rdy_list k) then mark P (unmark (base i) (rdy_list k)) else rdy_list k)"
  have r: "tbl_ok r" "prios_of r = (if base i \<in> prios_of (rdy_list k) then insert P (prios_of (rdy_list k) - {base i}) else prios_of (rdy_list k))"
    using pl.add pl.del d(6) b by (simp_all add: r_def)
  have ep: "OSTCBEventPtr t = None" if "base i \<notin> prios_of (rdy_list k)" using m that i(2) unfolding mtask_def by (auto split: if_splits)
  have "raise_owner i P k = Inr (k\<lparr>tcbs := (tcbs k)(i \<mapsto> t\<lparr>OSTCBPrio := P\<rparr>), rdy_list := r, OSTCBPrioTbl := (OSTCBPrioTbl k)(P := Tcb i)\<rparr>)"
    using i b ep by (simp add: raise_owner_def tcb_of_def set_tcb_def set_entry_def Let_def marked_iff r_def)
  then show thesis using that r(1) core_raise [OF co i b(3) r(2)] by blast
qed

text \<open>The running task waits.\<close>

definition waiting_state :: "nat \<Rightarrow> u32 \<Rightarrow> mevent \<Rightarrow> mtcb \<Rightarrow> mkern \<Rightarrow> mkern" where
  "waiting_state ev timeout e t k =
     k\<lparr>tcbs := (tcbs k)(OSTCBCur k \<mapsto> t\<lparr>OSTCBStat := OS_STAT_MUTEX, OSTCBStatPend := OS_STAT_PEND_OK, OSTCBDly := timeout, OSTCBEventPtr := Some ev\<rparr>),
       ecbs := (ecbs k)(ev \<mapsto> e\<lparr>wait_list := mark (OSTCBPrio t) (wait_list e)\<rparr>), rdy_list := unmark (OSTCBPrio t) (rdy_list k)\<rparr>"

lemma OSMutexPend_waits:
  assumes g: "OSEventType e = OS_EVENT_TYPE_MUTEX" "OSIntNesting k = 0" "OSLockNesting k = 0" "\<not> available e"
    and e: "ecbs k ev = Some e" "OSEventPtr e = Some i" and t: "tcbs k i = Some t" and c: "tcbs k (OSTCBCur k) = Some tc" "OSTCBStat tc = OS_STAT_RDY"
    and k1: "(if pip e < OSTCBPrio t \<and> OSTCBPrio tc < mprio e then raise_owner i (pip e) k else Inr k) = Inr k1"
      "tcbs k1 (OSTCBCur k1) = Some tc" "ecbs k1 ev = Some e"
  shows "OSMutexPend ev timeout k = ebind (OS_Sched (waiting_state ev timeout e tc k1)) (\<lambda>k2. Inr (Waits, k2))"
  using g e t c k1
  by (simp add: OSMutexPend_def ecb_of_def tcb_of_def set_tcb_def set_ecb_def OS_EventTaskWait_def Let_def waiting_state_def)

text \<open>The owner \<open>i\<close> before a task of priority \<open>p\<close> waits: raised, if it has to be.\<close>

lemma raise_if_urgent:
  assumes w: "mutex_ok lim base P ev k I H" and e: "ecbs k ev = Some e" "OSEventPtr e = Some i" and t: "tcbs k i = Some t"
  obtains k1 t1 where "(if pip e < OSTCBPrio t \<and> p < mprio e then raise_owner i (pip e) k else Inr k) = Inr k1"
    "OSTCBCur k1 = OSTCBCur k" "ecbs k1 = ecbs k" "tcbs k1 = (tcbs k)(i \<mapsto> t1)" "OSTCBPrio t1 = (if P < OSTCBPrio t \<and> p < base i then P else OSTCBPrio t)"
    "tbl_ok (rdy_list k1)" "core lim base P ev (tcbs k1) (OSTCBPrioTbl k1) (prios_of (rdy_list k1)) (prios_of (wait_list e)) (Some i) I H"
    "OSIntNesting k1 = OSIntNesting k" "OSLockNesting k1 = OSLockNesting k" "OSTCBList k1 = OSTCBList k" "OSPrioCur k1 = OSPrioCur k"
proof -
  note d = mutex_okD [OF w e(1)] and n = mutex_cntD [OF w e(1)]
  show thesis
  proof (cases "P < OSTCBPrio t \<and> p < base i")
    case True
    then have "OSTCBPrio t = base i" using mtaskD(5) [OF coreD(2) [OF d(4) t]] by auto
    then obtain q where q: "raise_owner i P k = Inr (k\<lparr>tcbs := (tcbs k)(i \<mapsto> t\<lparr>OSTCBPrio := P\<rparr>), rdy_list := q, OSTCBPrioTbl := (OSTCBPrioTbl k)(P := Tcb i)\<rparr>)"
      "tbl_ok q" "core lim base P ev ((tcbs k)(i \<mapsto> t\<lparr>OSTCBPrio := P\<rparr>)) ((OSTCBPrioTbl k)(P := Tcb i)) (prios_of q) (prios_of (wait_list e)) (Some i) I H"
      by (rule raise_owner_ok [OF w e t])
    let ?k = "k\<lparr>tcbs := (tcbs k)(i \<mapsto> t\<lparr>OSTCBPrio := P\<rparr>), rdy_list := q, OSTCBPrioTbl := (OSTCBPrioTbl k)(P := Tcb i)\<rparr>"
    have "(if pip e < OSTCBPrio t \<and> p < mprio e then raise_owner i (pip e) k else Inr k) = Inr ?k" using True q(1) n(2) n(4) [OF e(2)] by simp
    from that [OF this, of "t\<lparr>OSTCBPrio := P\<rparr>"] show thesis using q(2,3) True by simp
  next
    case False
    then have "\<not> (pip e < OSTCBPrio t \<and> p < mprio e)" using n(2) n(4) [OF e(2)] by metis
    then have "(if pip e < OSTCBPrio t \<and> p < mprio e then raise_owner i (pip e) k else Inr k) = Inr k" by (rule if_not_P)
    from that [OF this, of t] show thesis using d(4,6) e(2) t False by (simp add: map_upd_triv)
  qed
qed

lemma OSMutexPend_blocks:
  assumes w: "mutex_ok lim base P ev k I H" and r: "runs_ok lim k" and c: "OSTCBCur k \<notin> I" "OSTCBCur k \<notin> H" "OSPrioCur k \<noteq> 63" and l: "lim \<or> timeout = 0"
    and e: "ecbs k ev = Some e" "OSEventPtr e = Some i"
  shows "\<exists>k'. OSMutexPend ev timeout k = Inr (Waits, k') \<and> runs_ok lim k' \<and> mutex_ok lim base P ev k' (insert (OSTCBCur k) I) H"
proof -
  let ?c = "OSTCBCur k"
  note d = mutex_okD [OF w e(1)] and n = mutex_cntD [OF w e(1)]
  obtain tc where tc: "tcbs k ?c = Some tc" "OSPrioCur k = OSTCBPrio tc" using r by (auto simp: runs_ok_def)
  note mc = coreD(2) [OF d(4) tc(1)]
  obtain t where t: "tcbs k i = Some t" using coreD(6) [OF d(4) e(2)] by blast
  have ci: "?c \<noteq> i" using mtaskD(9) [OF mc] c(1,2) e(2) by auto
  have pc: "OSTCBPrio tc = base ?c" "base ?c < 64" "base ?c \<noteq> 63" using mtaskD(2,5) [OF mc] ci e(2) c(3) tc(2) by auto
  have st: "OSTCBStat tc = OS_STAT_RDY" using mc c(1) unfolding mtask_def by auto
  have ti: "OSTCBPrio t = base i \<or> OSTCBPrio t = P" "P < base i" using mtaskD(1,5) [OF coreD(2) [OF d(4) t]] by auto
  obtain k1 t1 where k1: "(if pip e < OSTCBPrio t \<and> OSTCBPrio tc < mprio e then raise_owner i (pip e) k else Inr k) = Inr k1"
    "OSTCBCur k1 = ?c" "ecbs k1 = ecbs k" "tcbs k1 = (tcbs k)(i \<mapsto> t1)" "OSTCBPrio t1 = (if P < OSTCBPrio t \<and> OSTCBPrio tc < base i then P else OSTCBPrio t)"
    "tbl_ok (rdy_list k1)" "core lim base P ev (tcbs k1) (OSTCBPrioTbl k1) (prios_of (rdy_list k1)) (prios_of (wait_list e)) (Some i) I H"
    "OSIntNesting k1 = OSIntNesting k" "OSLockNesting k1 = OSLockNesting k" "OSTCBList k1 = OSTCBList k" "OSPrioCur k1 = OSPrioCur k"
    by (rule raise_if_urgent [OF w e t])
  have c1: "tcbs k1 (OSTCBCur k1) = Some tc" "ecbs k1 ev = Some e" using k1(2-4) tc(1) ci e(1) by simp_all
  define s where "s = waiting_state ev timeout e tc k1"
  have q: "OSMutexPend ev timeout k = ebind (OS_Sched s) (\<lambda>k2. Inr (Waits, k2))"
    unfolding s_def by (rule OSMutexPend_waits [OF d(1,7,8) _ e t tc(1) st k1(1) c1]) (use n(3) e(2) in simp)
  let ?e = "e\<lparr>wait_list := mark (base ?c) (wait_list e)\<rparr>" and ?t = "tc\<lparr>OSTCBStat := OS_STAT_MUTEX, OSTCBStatPend := OS_STAT_PEND_OK, OSTCBDly := timeout, OSTCBEventPtr := Some ev\<rparr>"
  have f: "tcbs s = (tcbs k)(i \<mapsto> t1, ?c \<mapsto> ?t)" "ecbs s ev = Some ?e" "rdy_list s = unmark (base ?c) (rdy_list k1)" "OSTCBPrioTbl s = OSTCBPrioTbl k1"
    "OSIntNesting s = OSIntNesting k" "OSLockNesting s = OSLockNesting k" "OSTCBList s = OSTCBList k" "OSTCBCur s = ?c" "OSPrioCur s = base ?c"
    using k1(2-4,8-11) tc(2) pc(1) by (simp_all add: s_def waiting_state_def)
  have pr: "tbl_ok (rdy_list s)" "prios_of (rdy_list s) = prios_of (rdy_list k1) - {base ?c}" "tbl_ok (wait_list ?e)"
    "prios_of (wait_list ?e) = insert (base ?c) (prios_of (wait_list e))"
    using pl.add [OF d(3) pc(2)] pl.del [OF k1(6) pc(2)] f(3) by simp_all
  have u: "urgent lim base P (tcbs s) (insert (base ?c) (prios_of (wait_list e))) (Some i)"
    using d(5) e(2) t ti k1(5) ci pc(1) unfolding urgent_def f(1) by (auto split: if_splits)
  have co: "core lim base P ev (tcbs s) (OSTCBPrioTbl s) (prios_of (rdy_list k1) - {base ?c}) (insert (base ?c) (prios_of (wait_list e))) (Some i) (insert ?c I) H"
    using core_block [OF k1(7), of ?c tc timeout] c1(1) k1(2,4) c(1,2) pc(1,3) l f(1,4) by simp
  have m: "mutex_ok lim base P ev s (insert ?c I) H"
    by (rule mutex_okI [OF w f(2)]) (use d(1,2) e(2) pr u co f(1,5-7) t tc(1) in \<open>auto simp: insert_absorb\<close>)
  obtain j p where "OS_Sched s = Inr (s\<lparr>OSTCBCur := j, OSPrioCur := p\<rparr>)" "mutex_ok lim base P ev (s\<lparr>OSTCBCur := j, OSPrioCur := p\<rparr>) (insert ?c I) H"
    "runs_ok lim (s\<lparr>OSTCBCur := j, OSPrioCur := p\<rparr>)"
    by (rule sched_ok [OF m, of ?t]) (use f(1,8,9) pc(1) in simp_all)
  then show ?thesis using q by simp
qed

lemma OSMutexPend_ok:
  assumes w: "mutex_ok lim base P ev k I H" and r: "runs_ok lim k" and c: "OSTCBCur k \<notin> I" "OSTCBCur k \<notin> H" "OSPrioCur k \<noteq> 63" and l: "lim \<or> timeout = 0"
  shows "\<exists>x k'. OSMutexPend ev timeout k = Inr (x, k') \<and> runs_ok lim k' \<and>
    (x = Returns OS_ERR_NONE \<and> mutex_ok lim base P ev k' I (insert (OSTCBCur k) H) \<or> x = Waits \<and> mutex_ok lim base P ev k' (insert (OSTCBCur k) I) H)"
proof -
  let ?c = "OSTCBCur k"
  obtain e where e: "ecbs k ev = Some e" using mutex_there [OF w] ..
  note d = mutex_okD [OF w e] and n = mutex_cntD [OF w e]
  show ?thesis
  proof (cases "OSEventPtr e")
    case None
    obtain tc where tc: "tcbs k ?c = Some tc" "OSPrioCur k = OSTCBPrio tc" using r by (auto simp: runs_ok_def)
    have av: "available e" using n(3) None by simp
    obtain k' where "acquire ev e tc k = (OS_ERR_NONE, k')" "mutex_ok lim base P ev k' I (insert ?c H)" "runs_ok lim k' = runs_ok lim k"
      by (rule acquire_ok [OF w e av tc(1) c(1) tc(2) c(3)])
    then show ?thesis using av d(1,7,8) e tc r by (simp add: OSMutexPend_def ecb_of_def tcb_of_def)
  next
    case (Some i)
    then show ?thesis using OSMutexPend_blocks [OF w r c l e] by blast
  qed
qed

lemma OSMutexAccept_ok:
  assumes w: "mutex_ok lim base P ev k I H" and r: "runs_ok lim k" and c: "OSTCBCur k \<notin> I" "OSPrioCur k \<noteq> 63"
  shows "\<exists>ok k'. OSMutexAccept ev k = Inr (ok, OS_ERR_NONE, k') \<and> runs_ok lim k' \<and>
    mutex_ok lim base P ev k' I (if ok then insert (OSTCBCur k) H else H) \<and> (\<not> ok \<longrightarrow> k' = k)"
proof -
  obtain e where e: "ecbs k ev = Some e" using mutex_there [OF w] ..
  note d = mutex_okD [OF w e]
  obtain tc where tc: "tcbs k (OSTCBCur k) = Some tc" "OSPrioCur k = OSTCBPrio tc" using r by (auto simp: runs_ok_def)
  show ?thesis
  proof (cases "available e")
    case True
    obtain k' where "acquire ev e tc k = (OS_ERR_NONE, k')" "mutex_ok lim base P ev k' I (insert (OSTCBCur k) H)" "runs_ok lim k' = runs_ok lim k"
      by (rule acquire_ok [OF w e True tc(1) c(1) tc(2) c(2)])
    then show ?thesis using True d(1,7) e tc r by (intro exI [of _ True] exI [of _ k']) (simp add: OSMutexAccept_def ecb_of_def tcb_of_def)
  next
    case False
    then show ?thesis using d(1,7) e w r by (intro exI [of _ False] exI [of _ k]) (simp add: OSMutexAccept_def ecb_of_def)
  qed
qed

text \<open>A task runs again that has waited: it has been given the mutex, or its time is over.\<close>

lemma OSMutexPend_resume_ok:
  assumes w: "mutex_ok lim base P ev k I H" and r: "runs_ok lim k" and c: "OSTCBCur k \<in> I"
  shows "\<exists>err k'. OSMutexPend_resume ev k = Inr (err, k') \<and> runs_ok lim k' \<and> (err = OS_ERR_NONE \<or> lim \<and> err = OS_ERR_TIMEOUT) \<and>
    mutex_ok lim base P ev k' (I - {OSTCBCur k}) (if err = OS_ERR_NONE then insert (OSTCBCur k) H else H)"
proof -
  let ?c = "OSTCBCur k"
  obtain e where e: "ecbs k ev = Some e" using mutex_there [OF w] ..
  note d = mutex_okD [OF w e]
  obtain t where t: "tcbs k ?c = Some t" "OSPrioCur k = OSTCBPrio t" using r by (auto simp: runs_ok_def)
  note m = coreD(2) [OF d(4) t(1)]
  have rd: "OSTCBPrio t \<in> prios_of (rdy_list k)" using r t(2) by (simp add: runs_ok_def)
  then have st: "OSTCBStat t = OS_STAT_RDY" using mtaskD(6) [OF m] by simp
  have b: "OSTCBPrio t < 64" using rd pl.bound [OF d(6)] by blast
  let ?t = "t\<lparr>OSTCBStat := OS_STAT_RDY, OSTCBStatPend := OS_STAT_PEND_OK, OSTCBEventPtr := None\<rparr>" and ?e = "e\<lparr>wait_list := unmark (OSTCBPrio t) (wait_list e)\<rparr>"
  note co = core_resume [OF d(4) t(1) c rd]
  show ?thesis
  proof (cases "OSEventPtr e = Some ?c")
    case True
    have sp: "OSTCBStatPend t = OS_STAT_PEND_OK" using m c True unfolding mtask_def by simp
    have "OSTCBPrio t \<notin> prios_of (wait_list e)" using mtaskD(7) [OF m] True by simp
    then have "prios_of (wait_list e) - {OSTCBPrio t} = prios_of (wait_list e)" by simp
    then have "mutex_ok lim base P ev (set_tcb ?c ?t k) (I - {?c}) (insert ?c H)"
      by (intro mutex_okI [OF w, of _ e]) (use d e co t(1) True urgent_same [OF d(5) t(1), of ?t] in \<open>auto simp: set_tcb_def\<close>)
    moreover have "runs_ok lim (set_tcb ?c ?t k)" using r t by (simp add: runs_ok_def set_tcb_def)
    moreover have "OSMutexPend_resume ev k = Inr (OS_ERR_NONE, set_tcb ?c ?t k)" using t(1) sp by (simp add: OSMutexPend_resume_def tcb_of_def Let_def)
    ultimately show ?thesis by simp
  next
    case False
    have sp: "OSTCBStatPend t = OS_STAT_PEND_TO" "lim" using m c False st unfolding mtask_def by auto
    let ?k = "set_tcb ?c ?t (set_ecb ev ?e k)"
    have pr: "tbl_ok (wait_list ?e)" "prios_of (wait_list ?e) = prios_of (wait_list e) - {OSTCBPrio t}" using pl.del [OF d(3) b] by simp_all
    have "urgent lim base P (tcbs k) (prios_of (wait_list e) - {OSTCBPrio t}) (OSEventPtr e)" using d(5) sp(2) unfolding urgent_def by blast
    then have u: "urgent lim base P ((tcbs k)(?c \<mapsto> ?t)) (prios_of (wait_list e) - {OSTCBPrio t}) (OSEventPtr e)" by (rule urgent_same) (use t(1) in simp_all)
    have "mutex_ok lim base P ev ?k (I - {?c}) H"
      by (intro mutex_okI [OF w, of _ ?e]) (use d pr co t(1) False u in \<open>auto simp: set_tcb_def set_ecb_def\<close>)
    moreover have "runs_ok lim ?k" using r t by (simp add: runs_ok_def set_tcb_def set_ecb_def)
    moreover have "OSMutexPend_resume ev k = Inr (OS_ERR_TIMEOUT, ?k)"
      using t(1) sp e by (simp add: OSMutexPend_resume_def tcb_of_def ecb_of_def OS_EventTaskRemove_def Let_def)
    ultimately show ?thesis using sp(2) by simp
  qed
qed

text \<open>The owner gives the mutex back: first it gets its own priority again.\<close>

lemma own_priority_again:
  assumes w: "mutex_ok lim base P ev k I H" and r: "runs_ok lim k" and e: "ecbs k ev = Some e" "OSEventPtr e = Some (OSTCBCur k)"
    and t: "tcbs k (OSTCBCur k) = Some t"
  obtains k2 where "ebind (if OSTCBPrio t = pip e then OSMutex_RdyAtPrio (OSTCBCur k) (mprio e) k else Inr k) (set_entry (pip e) OS_TCB_RESERVED) = Inr k2"
    "tcbs k2 = (tcbs k)(OSTCBCur k \<mapsto> t\<lparr>OSTCBPrio := base (OSTCBCur k)\<rparr>)" "ecbs k2 = ecbs k" "OSTCBCur k2 = OSTCBCur k" "OSPrioCur k2 = base (OSTCBCur k)"
    "tbl_ok (rdy_list k2)" "base (OSTCBCur k) \<in> prios_of (rdy_list k2)" "OSTCBPrio t \<noteq> P \<longrightarrow> rdy_list k2 = rdy_list k"
    "core lim base P ev (tcbs k2) (OSTCBPrioTbl k2) (prios_of (rdy_list k2)) (prios_of (wait_list e)) (Some (OSTCBCur k)) I H"
    "OSIntNesting k2 = OSIntNesting k" "OSLockNesting k2 = OSLockNesting k" "OSTCBList k2 = OSTCBList k"
proof -
  let ?c = "OSTCBCur k" and ?t = "t\<lparr>OSTCBPrio := base (OSTCBCur k)\<rparr>"
  note d = mutex_okD [OF w e(1)] and n = mutex_cntD [OF w e(1)]
  have co: "core lim base P ev (tcbs k) (OSTCBPrioTbl k) (prios_of (rdy_list k)) (prios_of (wait_list e)) (Some ?c) I H" using d(4) e(2) by simp
  note m = coreD(2) [OF co t]
  have cur: "OSPrioCur k = OSTCBPrio t" "OSTCBPrio t \<in> prios_of (rdy_list k)" using r t by (auto simp: runs_ok_def)
  have b: "base ?c < 64" "P < 64" "P < base ?c" using mtaskD(1,2) [OF m] n(1) by simp_all
  define k1 where "k1 = (if OSTCBPrio t = P then k\<lparr>tcbs := (tcbs k)(?c \<mapsto> ?t), OSPrioCur := base ?c, rdy_list := mark (base ?c) (unmark P (rdy_list k)),
      OSTCBPrioTbl := (OSTCBPrioTbl k)(base ?c := Tcb ?c)\<rparr> else k)"
  have k1: "(if OSTCBPrio t = pip e then OSMutex_RdyAtPrio ?c (mprio e) k else Inr k) = Inr k1"
    using t b n(2) n(4) [OF e(2)] by (simp add: k1_def OSMutex_RdyAtPrio_def tcb_of_def set_tcb_def set_entry_def)
  have same: "OSTCBPrio t \<noteq> P \<Longrightarrow> ?t = t" using mtaskD(5) [OF m] by (cases t) auto
  have pr: "tbl_ok (rdy_list k1)" "OSTCBPrio t = P \<Longrightarrow> prios_of (rdy_list k1) = insert (base ?c) (prios_of (rdy_list k) - {P})"
    using pl.add pl.del d(6) b by (auto simp: k1_def)
  have f: "tcbs k1 = (tcbs k)(?c \<mapsto> ?t)" "ecbs k1 = ecbs k" "OSTCBCur k1 = ?c" "OSPrioCur k1 = base ?c" "OSTCBPrio t \<noteq> P \<Longrightarrow> rdy_list k1 = rdy_list k"
    "OSIntNesting k1 = OSIntNesting k" "OSLockNesting k1 = OSLockNesting k" "OSTCBList k1 = OSTCBList k" "base ?c \<in> prios_of (rdy_list k1)"
    using same t cur mtaskD(5) [OF m] pr(2) by (auto simp: k1_def map_upd_triv)
  have co1: "core lim base P ev (tcbs k1) (OSTCBPrioTbl k1) (prios_of (rdy_list k1)) (prios_of (wait_list e)) (Some ?c) I H"
  proof (cases "OSTCBPrio t = P")
    case True
    then show ?thesis using core_lower [OF co t True] cur(2) pr(2) f(1) by (simp add: k1_def)
  next
    case False
    then show ?thesis using co by (simp add: k1_def)
  qed
  have no: "OSTCBPrio u \<noteq> P" if "tcbs k1 j = Some u" for j u
    using that f(1) other_prio(4) [OF co t] b(3) by (cases "j = ?c") auto
  have "ebind (if OSTCBPrio t = pip e then OSMutex_RdyAtPrio ?c (mprio e) k else Inr k) (set_entry (pip e) OS_TCB_RESERVED) =
      Inr (k1\<lparr>OSTCBPrioTbl := (OSTCBPrioTbl k1)(P := OS_TCB_RESERVED)\<rparr>)"
    unfolding k1 using n(2) b(2) by (simp add: set_entry_def)
  from that [OF this] show thesis using f pr(1) core_pip [OF co1 no] by simp
qed

text \<open>Then the task of highest priority among those that wait gets it.\<close>

lemma hand_over:
  assumes e: "ecbs k ev = Some e" "tbl_ok (wait_list e)" "prios_of (wait_list e) \<noteq> {}" "tbl_ok (rdy_list k)"
    and co: "core lim base P ev (tcbs k) (OSTCBPrioTbl k) (prios_of (rdy_list k)) (prios_of (wait_list e)) (Some i) I H"
    and t: "tcbs k i = Some t" "OSTCBPrio t = base i" "i \<in> H"
  obtains j u k' e' where "OS_EventTaskRdy ev OS_STAT_MUTEX OS_STAT_PEND_OK k = Inr (base j, k')" "tcbs k j = Some u" "OSTCBPrio u = base j" "j \<noteq> i"
    "base j \<in> prios_of (wait_list e)" "\<forall>q \<in> prios_of (wait_list e). base j \<le> q" "task_at (base j) k' = Inr j"
    "k' = k\<lparr>tcbs := (tcbs k)(j \<mapsto> u\<lparr>OSTCBDly := 0, OSTCBStat := OS_STAT_RDY, OSTCBStatPend := OS_STAT_PEND_OK\<rparr>), rdy_list := mark (base j) (rdy_list k),
        ecbs := (ecbs k)(ev \<mapsto> e')\<rparr>" "e' = e\<lparr>wait_list := unmark (base j) (wait_list e)\<rparr>"
    "core lim base P ev (tcbs k') (OSTCBPrioTbl k') (prios_of (rdy_list k')) (prios_of (wait_list e')) (Some j) I (H - {i})"
    "tbl_ok (rdy_list k')" "tbl_ok (wait_list e')" "prios_of (wait_list e') = prios_of (wait_list e) - {base j}" "P < base j"
proof -
  define p where "p = highest (wait_list e)"
  have p: "p \<in> prios_of (wait_list e)" "p < 64" "\<forall>q \<in> prios_of (wait_list e). p \<le> q"
    unfolding p_def using pl.top(1) [OF e(2,3)] pl.top_less [OF e(2,3)] pl.top(2) [OF e(2)] by blast+
  obtain j u where j: "tcbs k j = Some u" "OSTCBPrio u = p" using coreD(3) [OF co] p(1) by blast
  note m = coreD(2) [OF co j(1)]
  have ji: "j \<in> I" "j \<noteq> i" using mtaskD(7) [OF m] j(2) p(1) by auto
  then have pj: "p = base j" "P < base j" using mtaskD(1,5) [OF m] j(2) by auto
  have at: "task_at p k = Inr j" using mtaskD(4) [OF m] j(2) p(2) by (simp add: task_at_def)
  have st: "OSTCBStat u AND NOT OS_STAT_MUTEX = OS_STAT_RDY" using m ji unfolding mtask_def by auto
  let ?u = "u\<lparr>OSTCBDly := 0, OSTCBStat := OS_STAT_RDY, OSTCBStatPend := OS_STAT_PEND_OK\<rparr>" and ?e = "e\<lparr>wait_list := unmark p (wait_list e)\<rparr>"
  define k' where "k' = k\<lparr>tcbs := (tcbs k)(j \<mapsto> ?u), rdy_list := mark p (rdy_list k), ecbs := (ecbs k)(ev \<mapsto> ?e)\<rparr>"
  have rd: "OS_EventTaskRdy ev OS_STAT_MUTEX OS_STAT_PEND_OK k = Inr (p, k')"
    using e(1) at j st unfolding OS_EventTaskRdy_def
    by (simp add: ecb_of_def tcb_of_def set_tcb_def set_ecb_def OS_EventTaskRemove_def Let_def k'_def flip: p_def)
  have pr: "tbl_ok (rdy_list k')" "prios_of (rdy_list k') = insert p (prios_of (rdy_list k))" "tbl_ok (wait_list ?e)"
    "prios_of (wait_list ?e) = prios_of (wait_list e) - {p}"
    using pl.add [OF e(4) p(2)] pl.del [OF e(2) p(2)] by (simp_all add: k'_def)
  have c2: "core lim base P ev (tcbs k') (OSTCBPrioTbl k') (prios_of (rdy_list k')) (prios_of (wait_list ?e)) (Some j) I (H - {i})"
    using core_hand [OF co t j(1)] p(1) j(2) pr(2,4) by (simp add: k'_def)
  have "task_at p k' = task_at p k" by (simp add: task_at_def k'_def)
  then have "task_at p k' = Inr j" using at by simp
  then show thesis using that [OF _ j(1) _ ji(2) _ _ _ _ refl] rd j(2) p pj c2 pr(1,3,4) k'_def unfolding pj(1) [symmetric] by blast
qed

lemma OSMutexPost_owner:
  assumes "OSEventType e = OS_EVENT_TYPE_MUTEX" and "OSIntNesting k = 0" and "ecbs k ev = Some e" and "OSEventPtr e = Some (OSTCBCur k)"
    and "tcbs k (OSTCBCur k) = Some t"
    and "ebind (if OSTCBPrio t = pip e then OSMutex_RdyAtPrio (OSTCBCur k) (mprio e) k else Inr k) (set_entry (pip e) OS_TCB_RESERVED) = Inr k2"
  shows "OSMutexPost ev k =
    (if Grp (wait_list e) \<noteq> 0 then
       ebind (OS_EventTaskRdy ev OS_STAT_MUTEX OS_STAT_PEND_OK k2) (\<lambda>(prio, s3).
       ebind (ecb_of ev s3) (\<lambda>e3.
       ebind (task_at prio s3) (\<lambda>i.
       ebind (OS_Sched (set_ecb ev (e3\<lparr>OSEventCnt := OSEventCnt e3 AND OS_MUTEX_KEEP_UPPER_8 OR of_nat prio, OSEventPtr := Some i\<rparr>) s3)) (\<lambda>s5.
       Inr (if prio \<le> pip e then OS_ERR_PIP_LOWER else OS_ERR_NONE, s5)))))
     else Inr (OS_ERR_NONE, set_ecb ev (e\<lparr>OSEventCnt := OSEventCnt e OR OS_MUTEX_AVAILABLE, OSEventPtr := None\<rparr>) k2))"
proof -
  obtain k1 where "(if OSTCBPrio t = pip e then OSMutex_RdyAtPrio (OSTCBCur k) (mprio e) k else Inr k) = Inr k1" "set_entry (pip e) OS_TCB_RESERVED k1 = Inr k2"
    using assms(6) by (auto simp only: ebind_eq_Inr_iff)
  then show ?thesis using assms(1-5) by (simp add: OSMutexPost_def ecb_of_def tcb_of_def Let_def)
qed

lemma OSMutexPost_released:
  assumes w: "mutex_ok lim base P ev k I H" and r: "runs_ok lim k" and e: "ecbs k ev = Some e" "OSEventPtr e = Some (OSTCBCur k)"
    and c: "OSTCBCur k \<in> H" and ne: "prios_of (wait_list e) = {}"
  shows "\<exists>k' e' t. OSMutexPost ev k = Inr (OS_ERR_NONE, k') \<and> mutex_ok lim base P ev k' I (H - {OSTCBCur k}) \<and> runs_ok lim k' \<and>
    OSTCBCur k' = OSTCBCur k \<and> tcbs k' (OSTCBCur k) = Some t \<and> OSTCBPrio t = base (OSTCBCur k) \<and> ecbs k' ev = Some e' \<and> OSEventPtr e' = None"
proof -
  let ?c = "OSTCBCur k"
  note d = mutex_okD [OF w e(1)] and n = mutex_cntD [OF w e(1)]
  obtain t where t: "tcbs k ?c = Some t" "OSPrioCur k = OSTCBPrio t" using r by (auto simp: runs_ok_def)
  obtain k2 where k2: "ebind (if OSTCBPrio t = pip e then OSMutex_RdyAtPrio ?c (mprio e) k else Inr k) (set_entry (pip e) OS_TCB_RESERVED) = Inr k2"
    "tcbs k2 = (tcbs k)(?c \<mapsto> t\<lparr>OSTCBPrio := base ?c\<rparr>)" "ecbs k2 = ecbs k" "OSTCBCur k2 = ?c" "OSPrioCur k2 = base ?c"
    "tbl_ok (rdy_list k2)" "base ?c \<in> prios_of (rdy_list k2)" "OSTCBPrio t \<noteq> P \<longrightarrow> rdy_list k2 = rdy_list k"
    "core lim base P ev (tcbs k2) (OSTCBPrioTbl k2) (prios_of (rdy_list k2)) (prios_of (wait_list e)) (Some ?c) I H"
    "OSIntNesting k2 = OSIntNesting k" "OSLockNesting k2 = OSLockNesting k" "OSTCBList k2 = OSTCBList k"
    by (rule own_priority_again [OF w r e t(1)])
  let ?e = "e\<lparr>OSEventCnt := OSEventCnt e OR OS_MUTEX_AVAILABLE, OSEventPtr := None\<rparr>"
  let ?k = "set_ecb ev ?e k2"
  have co: "core lim base P ev (tcbs ?k) (OSTCBPrioTbl ?k) (prios_of (rdy_list ?k)) {} None I (H - {?c})"
    using core_release [OF k2(9) [unfolded ne], of "t\<lparr>OSTCBPrio := base ?c\<rparr>"] k2(2) c by (simp add: set_ecb_def)
  have m: "mutex_ok lim base P ev ?k I (H - {?c})"
    by (rule mutex_okI [OF w, of _ ?e]) (use d(1,3) n(6) co ne k2(2,6,10-12) t(1) in \<open>auto simp: set_ecb_def urgent_def\<close>)
  have low: "OSTCBPrio t \<noteq> P" if "\<not> lim" using d(5) e(2) t(1) ne that unfolding urgent_def by auto
  have "OSTCBPrio t = base ?c" if "\<not> lim" using mtaskD(5) [OF coreD(2) [OF d(4) t(1)]] low [OF that] by blast
  then have "runs_ok lim ?k" using r t(2) k2(2-8) low by (auto simp: runs_ok_def set_ecb_def)
  moreover have "OSMutexPost ev k = Inr (OS_ERR_NONE, ?k)"
    unfolding OSMutexPost_owner [OF d(1,7) e t(1) k2(1)] using ne pl.empty [OF d(3)] by simp
  ultimately show ?thesis using m k2(2,4) by (auto simp: set_ecb_def)
qed

lemma OSMutexPost_hands:
  assumes w: "mutex_ok lim base P ev k I H" and r: "runs_ok lim k" and e: "ecbs k ev = Some e" "OSEventPtr e = Some (OSTCBCur k)"
    and c: "OSTCBCur k \<in> H" and ne: "prios_of (wait_list e) \<noteq> {}"
  shows "\<exists>k' e' t j. OSMutexPost ev k = Inr (OS_ERR_NONE, k') \<and> mutex_ok lim base P ev k' I (H - {OSTCBCur k}) \<and> runs_ok lim k' \<and>
    tcbs k' (OSTCBCur k) = Some t \<and> OSTCBPrio t = base (OSTCBCur k) \<and> ecbs k' ev = Some e' \<and> OSEventPtr e' = Some j \<and>
    base j \<in> prios_of (wait_list e) \<and> (\<forall>q \<in> prios_of (wait_list e). base j \<le> q) \<and> (\<forall>q \<in> prios_of (rdy_list k'). OSPrioCur k' \<le> q)"
proof -
  let ?c = "OSTCBCur k"
  note d = mutex_okD [OF w e(1)] and n = mutex_cntD [OF w e(1)]
  obtain t where t: "tcbs k ?c = Some t" "OSPrioCur k = OSTCBPrio t" using r by (auto simp: runs_ok_def)
  let ?t = "t\<lparr>OSTCBPrio := base ?c\<rparr>"
  obtain k2 where k2: "ebind (if OSTCBPrio t = pip e then OSMutex_RdyAtPrio ?c (mprio e) k else Inr k) (set_entry (pip e) OS_TCB_RESERVED) = Inr k2"
    "tcbs k2 = (tcbs k)(?c \<mapsto> ?t)" "ecbs k2 = ecbs k" "OSTCBCur k2 = ?c" "OSPrioCur k2 = base ?c" "tbl_ok (rdy_list k2)"
    "base ?c \<in> prios_of (rdy_list k2)" "OSTCBPrio t \<noteq> P \<longrightarrow> rdy_list k2 = rdy_list k" "core lim base P ev (tcbs k2) (OSTCBPrioTbl k2) (prios_of (rdy_list k2)) (prios_of (wait_list e)) (Some ?c) I H"
    "OSIntNesting k2 = OSIntNesting k" "OSLockNesting k2 = OSLockNesting k" "OSTCBList k2 = OSTCBList k"
    by (rule own_priority_again [OF w r e t(1)])
  have e2: "ecbs k2 ev = Some e" using k2(3) e(1) by simp
  have t2: "tcbs k2 ?c = Some ?t" "OSTCBPrio ?t = base ?c" using k2(2) by simp_all
  obtain j u k3 e3 where h: "OS_EventTaskRdy ev OS_STAT_MUTEX OS_STAT_PEND_OK k2 = Inr (base j, k3)" "tcbs k2 j = Some u" "OSTCBPrio u = base j" "j \<noteq> ?c"
    "base j \<in> prios_of (wait_list e)" "\<forall>q \<in> prios_of (wait_list e). base j \<le> q" "task_at (base j) k3 = Inr j"
    "k3 = k2\<lparr>tcbs := (tcbs k2)(j \<mapsto> u\<lparr>OSTCBDly := 0, OSTCBStat := OS_STAT_RDY, OSTCBStatPend := OS_STAT_PEND_OK\<rparr>), rdy_list := mark (base j) (rdy_list k2),
        ecbs := (ecbs k2)(ev \<mapsto> e3)\<rparr>" "e3 = e\<lparr>wait_list := unmark (base j) (wait_list e)\<rparr>"
    "core lim base P ev (tcbs k3) (OSTCBPrioTbl k3) (prios_of (rdy_list k3)) (prios_of (wait_list e3)) (Some j) I (H - {?c})"
    "tbl_ok (rdy_list k3)" "tbl_ok (wait_list e3)" "prios_of (wait_list e3) = prios_of (wait_list e) - {base j}" "P < base j"
    by (rule hand_over [OF e2 d(3) ne k2(6,9) t2 c])
  let ?e = "e3\<lparr>OSEventCnt := OSEventCnt e3 AND OS_MUTEX_KEEP_UPPER_8 OR of_nat (base j), OSEventPtr := Some j\<rparr>"
  let ?k = "set_ecb ev ?e k3"
  have u: "urgent lim base P (tcbs k3) (prios_of (wait_list e) - {base j}) (Some j)"
    using h(3,6,8,14) by (auto simp: urgent_def)
  have m: "mutex_ok lim base P ev ?k I (H - {?c})"
    by (rule mutex_okI [OF w, of _ ?e])
      (use d(1) n(5) [of j] h(2,4,8-13) u k2(2,10-12) t(1) in \<open>auto simp: set_ecb_def\<close>)
  have tk: "tcbs ?k ?c = Some ?t" "OSTCBCur ?k = ?c" "OSPrioCur ?k = OSTCBPrio ?t" using h(4,8) t2 k2(4,5) by (simp_all add: set_ecb_def)
  obtain i p where s: "OS_Sched ?k = Inr (?k\<lparr>OSTCBCur := i, OSPrioCur := p\<rparr>)" "mutex_ok lim base P ev (?k\<lparr>OSTCBCur := i, OSPrioCur := p\<rparr>) I (H - {?c})"
    "runs_ok lim (?k\<lparr>OSTCBCur := i, OSPrioCur := p\<rparr>)" "\<forall>q \<in> prios_of (rdy_list ?k). p \<le> q"
    by (rule sched_ok [OF m, of ?t]) (use tk in simp_all)
  have "OSMutexPost ev k = Inr (OS_ERR_NONE, ?k\<lparr>OSTCBCur := i, OSPrioCur := p\<rparr>)"
    unfolding OSMutexPost_owner [OF d(1,7) e t(1) k2(1)] using ne pl.empty [OF d(3)] h(1,7,8,14) s(1) n(2) by (simp add: ecb_of_def)
  then show ?thesis using s(2-4) h(5,6) tk(1) by (auto simp: set_ecb_def)
qed

lemma owner_holds:
  assumes "mutex_ok lim base P ev k I H" and "ecbs k ev = Some e"
  shows "i \<in> H \<Longrightarrow> OSEventPtr e = Some i" and "OSEventPtr e = Some i \<Longrightarrow> i \<notin> I \<Longrightarrow> i \<in> H"
proof -
  note co = mutex_okD(4) [OF assms]
  show "OSEventPtr e = Some i" if h: "i \<in> H"
  proof -
    obtain t where "tcbs k i = Some t" using coreD(5) [OF co] h by auto
    from mtaskD(8) [OF coreD(2) [OF co this] h] show ?thesis ..
  qed
  show "i \<in> H" if o: "OSEventPtr e = Some i" and "i \<notin> I"
  proof -
    obtain t where "tcbs k i = Some t" using coreD(6) [OF co o] by blast
    from mtaskD(9) [OF coreD(2) [OF co this] o] \<open>i \<notin> I\<close> show ?thesis by blast
  qed
qed

lemma OSMutexPost_ok:
  assumes w: "mutex_ok lim base P ev k I H" and r: "runs_ok lim k" and c: "OSTCBCur k \<notin> I"
  shows "\<exists>err k'. OSMutexPost ev k = Inr (err, k') \<and> runs_ok lim k' \<and>
    (if OSTCBCur k \<in> H then err = OS_ERR_NONE \<and> mutex_ok lim base P ev k' I (H - {OSTCBCur k}) else err = OS_ERR_NOT_MUTEX_OWNER \<and> k' = k)"
proof -
  obtain e where e: "ecbs k ev = Some e" using mutex_there [OF w] ..
  note d = mutex_okD [OF w e] and o = owner_holds [OF w e]
  show ?thesis
  proof (cases "OSTCBCur k \<in> H")
    case True
    then show ?thesis
      using OSMutexPost_released [OF w r e o(1) [OF True]] OSMutexPost_hands [OF w r e o(1) [OF True]] by (cases "prios_of (wait_list e) = {}") auto
  next
    case False
    then have "OSEventPtr e \<noteq> Some (OSTCBCur k)" using o(2) c by blast
    then show ?thesis using False e d(1,7) r by (simp add: OSMutexPost_def ecb_of_def)
  qed
qed

lemma mutex_OSTimeDly_ok:
  assumes w: "mutex_ok lim base P ev k I H" and r: "runs_ok lim k" and c: "OSTCBCur k \<notin> I" "OSPrioCur k \<noteq> 63"
  shows "\<exists>k'. OSTimeDly ticks k = Inr k' \<and> mutex_ok lim base P ev k' I H \<and> runs_ok lim k'"
proof (cases "ticks = 0")
  case True
  then show ?thesis using w r by (simp add: OSTimeDly_def)
next
  case False
  let ?c = "OSTCBCur k"
  obtain e where e: "ecbs k ev = Some e" using mutex_there [OF w] ..
  note d = mutex_okD [OF w e]
  obtain t where t: "tcbs k ?c = Some t" "OSPrioCur k = OSTCBPrio t" using r by (auto simp: runs_ok_def)
  note m = coreD(2) [OF d(4) t(1)]
  have b: "OSTCBPrio t < 64" using r t(2) pl.bound [OF d(6)] by (auto simp: runs_ok_def)
  have nz: "base ?c \<noteq> 63" using mtaskD(5) [OF m] not_idle [OF d(4) t(1)] c(2) t(2) by auto
  let ?t = "t\<lparr>OSTCBDly := ticks\<rparr>"
  let ?k = "set_tcb ?c ?t (k\<lparr>rdy_list := unmark (OSTCBPrio t) (rdy_list k)\<rparr>)"
  have pr: "tbl_ok (rdy_list ?k)" "prios_of (rdy_list ?k) = prios_of (rdy_list k) - {OSTCBPrio t}" using pl.del [OF d(6) b] by (simp_all add: set_tcb_def)
  have u: "urgent lim base P ((tcbs k)(?c \<mapsto> ?t)) (prios_of (wait_list e)) (OSEventPtr e)" by (rule urgent_same [OF d(5) t(1)]) simp
  have m: "mutex_ok lim base P ev ?k I H"
    by (rule mutex_okI [OF w, of _ e]) (use d(1-3) e pr core_dly [OF d(4) t(1) c(1) nz False] u t(1) in \<open>auto simp: set_tcb_def\<close>)
  obtain i p where "OS_Sched ?k = Inr (?k\<lparr>OSTCBCur := i, OSPrioCur := p\<rparr>)" "mutex_ok lim base P ev (?k\<lparr>OSTCBCur := i, OSPrioCur := p\<rparr>) I H"
    "runs_ok lim (?k\<lparr>OSTCBCur := i, OSPrioCur := p\<rparr>)"
    by (rule sched_ok [OF m, of ?t]) (use t(2) in \<open>simp_all add: set_tcb_def\<close>)
  then show ?thesis using False d(7,8) t(1) by (simp add: OSTimeDly_def tcb_of_def Let_def)
qed

text \<open>The tick.\<close>

definition prios_kept :: "mkern \<Rightarrow> mkern \<Rightarrow> bool" where
  "prios_kept k k' \<longleftrightarrow> OSTCBCur k' = OSTCBCur k \<and> OSPrioCur k' = OSPrioCur k \<and> dom (tcbs k') = dom (tcbs k) \<and>
     (\<forall>j. map_option OSTCBPrio (tcbs k' j) = map_option OSTCBPrio (tcbs k j))"

lemma mutex_tick_task_ok:
  assumes w: "mutex_ok lim base P ev k I H" and t: "tcbs k i = Some t"
  shows "\<exists>k'. tick_task i k = Inr k' \<and> mutex_ok lim base P ev k' I H \<and> prios_kept k k'"
proof -
  obtain e where e: "ecbs k ev = Some e" using mutex_there [OF w] ..
  note d = mutex_okD [OF w e]
  note m = coreD(2) [OF d(4) t]
  have st: "OSTCBStat t = OS_STAT_RDY \<or> OSTCBStat t = OS_STAT_MUTEX" using m unfolding mtask_def by (auto split: if_splits)
  have us: "urgent lim base P ((tcbs k)(i \<mapsto> t')) (prios_of (wait_list e)) (OSEventPtr e)" if "OSTCBPrio t' = OSTCBPrio t" for t'
    by (rule urgent_same [OF d(5) t that])
  consider (idle) "OSTCBDly t = 0" | (count) "OSTCBDly t \<noteq> 0" "OSTCBDly t - 1 \<noteq> 0" | (wake) "OSTCBDly t \<noteq> 0" "OSTCBDly t - 1 = 0" by blast
  then show ?thesis
  proof cases
    case idle
    then show ?thesis using w t by (simp add: tick_task_def tcb_of_def prios_kept_def)
  next
    case count
    let ?k = "set_tcb i (t\<lparr>OSTCBDly := OSTCBDly t - 1\<rparr>) k"
    have "mutex_ok lim base P ev ?k I H"
      by (rule mutex_okI [OF w, of _ e]) (use d(1-3,6) e core_count [OF d(4) t count] us [of "t\<lparr>OSTCBDly := OSTCBDly t - 1\<rparr>"] t in \<open>auto simp: set_tcb_def\<close>)
    then show ?thesis using t count by (auto simp: tick_task_def tcb_of_def prios_kept_def set_tcb_def)
  next
    case wake
    define t' where "t' = t\<lparr>OSTCBDly := 0, OSTCBStat := OS_STAT_RDY, OSTCBStatPend := (if OSTCBStat t = OS_STAT_RDY then OS_STAT_PEND_OK else OS_STAT_PEND_TO)\<rparr>"
    let ?k = "(set_tcb i t' k)\<lparr>rdy_list := mark (OSTCBPrio t) (rdy_list k)\<rparr>"
    have b: "OSTCBPrio t < 64" using mtaskD(1,2,5) [OF m] by auto
    have pr: "tbl_ok (rdy_list ?k)" "prios_of (rdy_list ?k) = insert (OSTCBPrio t) (prios_of (rdy_list k))" using pl.add [OF d(6) b] by simp_all
    have "mutex_ok lim base P ev ?k I H"
      by (rule mutex_okI [OF w, of _ e]) (use d(1-3) e pr core_wake [OF d(4) t wake(1) t'_def] us [of t'] t in \<open>auto simp: set_tcb_def t'_def\<close>)
    moreover have "tick_task i k = Inr ?k"
      using t wake st by (cases t) (auto simp: tick_task_def tcb_of_def set_tcb_def Let_def t'_def)
    ultimately show ?thesis using t by (auto simp: prios_kept_def set_tcb_def t'_def)
  qed
qed

lemma mutex_tick_tasks_ok:
  assumes "mutex_ok lim base P ev k I H" and "set l \<subseteq> dom (tcbs k)" and "z \<in> dom (tcbs k)" and "base z = 63"
  shows "\<exists>k'. tick_tasks (l @ [z]) k = Inr k' \<and> mutex_ok lim base P ev k' I H \<and> prios_kept k k'"
  using assms(1-3)
proof (induction l arbitrary: k)
  case Nil
  obtain e where e: "ecbs k ev = Some e" using mutex_there [OF Nil(1)] ..
  note co = mutex_okD(4) [OF Nil(1) e]
  obtain t where t: "tcbs k z = Some t" using Nil(3) by auto
  have "OSTCBPrio t = 63" using mtaskD(5) [OF coreD(2) [OF co t]] not_idle [OF co t] assms(4) by auto
  then show ?case using Nil(1) t by (simp add: tcb_of_def prios_kept_def)
next
  case (Cons i l)
  obtain t where t: "tcbs k i = Some t" using Cons.prems(2) by auto
  obtain k1 where k1: "tick_task i k = Inr k1" "mutex_ok lim base P ev k1 I H" "prios_kept k k1" using mutex_tick_task_ok [OF Cons.prems(1) t] by blast
  then have "set l \<subseteq> dom (tcbs k1)" "z \<in> dom (tcbs k1)" using Cons.prems(2,3) by (auto simp: prios_kept_def)
  then obtain k2 where "tick_tasks (l @ [z]) k1 = Inr k2" "mutex_ok lim base P ev k2 I H" "prios_kept k1 k2" using Cons.IH [OF k1(2)] by blast
  moreover from this(3) have "prios_kept k k2" using k1(3) by (simp add: prios_kept_def)
  ultimately show ?case using t k1(1) Cons.prems(1) by (cases "OSTCBPrio t = 63") (auto simp: tcb_of_def prios_kept_def)
qed

lemma tick_interrupt_ok:
  assumes w: "mutex_ok lim base P ev k I H" and r: "runs_ok lim k"
  shows "\<exists>k'. tick_interrupt k = Inr k' \<and> mutex_ok lim base P ev k' I H \<and> runs_ok lim k'"
proof -
  obtain l z where l: "OSTCBList k = l @ [z]" "base z = 63" "set l \<subseteq> dom (tcbs k)" "z \<in> dom (tcbs k)" 
  proof -
    obtain l z where "OSTCBList k = l @ [z]" "base z = 63" "set (OSTCBList k) = dom (tcbs k)" using w unfolding mutex_ok_def by blast
    then show thesis using that [of l z] by auto
  qed
  obtain k1 where k1: "tick_tasks (l @ [z]) k = Inr k1" "mutex_ok lim base P ev k1 I H" "prios_kept k k1" using mutex_tick_tasks_ok [OF w l(3,4,2)] by blast
  obtain t where t: "tcbs k (OSTCBCur k) = Some t" "OSPrioCur k = OSTCBPrio t" using r by (auto simp: runs_ok_def)
  have "map_option OSTCBPrio (tcbs k1 (OSTCBCur k1)) = Some (OSPrioCur k1)" using k1(3) t by (simp add: prios_kept_def)
  then obtain t1 where t1: "tcbs k1 (OSTCBCur k1) = Some t1" "OSPrioCur k1 = OSTCBPrio t1" by auto
  obtain i p where "OS_Sched k1 = Inr (k1\<lparr>OSTCBCur := i, OSPrioCur := p\<rparr>)" "mutex_ok lim base P ev (k1\<lparr>OSTCBCur := i, OSPrioCur := p\<rparr>) I H"
    "runs_ok lim (k1\<lparr>OSTCBCur := i, OSPrioCur := p\<rparr>)"
    by (rule sched_ok [OF k1(2) t1])
  then show ?thesis using k1(1) l(1) by (simp add: tick_interrupt_def)
qed

lemma mstep_ok:
  assumes "mstep lim ev w w'" and "run_ok lim base P ev w"
  shows "run_ok lim base P ev w'"
  using assms
proof (induction rule: mstep.induct)
  case (accept w ok err k)
  then obtain k' where "OSMutexAccept ev (kern w) = Inr (ok, OS_ERR_NONE, k')" "runs_ok lim k'"
    "mutex_ok lim base P ev k' (inside w) (if ok then insert (OSTCBCur (kern w)) (holders w) else holders w)"
    using OSMutexAccept_ok [of lim base P ev "kern w" "inside w" "holders w"] by (auto simp: run_ok_def may_call_def)
  then show ?case using accept by (simp add: run_ok_def)
next
  case (pend w timeout err k)
  then show ?case using OSMutexPend_ok [of lim base P ev "kern w" "inside w" "holders w" timeout] by (auto simp: run_ok_def may_call_def told_def)
next
  case (block w timeout k)
  then show ?case using OSMutexPend_ok [of lim base P ev "kern w" "inside w" "holders w" timeout] by (auto simp: run_ok_def may_call_def)
next
  case (resume w err k)
  then show ?case using OSMutexPend_resume_ok [of lim base P ev "kern w" "inside w" "holders w"] by (auto simp: run_ok_def told_def)
next
  case (post w err k)
  then show ?case using OSMutexPost_ok [of lim base P ev "kern w" "inside w" "holders w"] by (auto simp: run_ok_def may_call_def split: if_splits)
next
  case (dly w ticks k)
  then show ?case using mutex_OSTimeDly_ok [of lim base P ev "kern w" "inside w" "holders w" ticks] by (auto simp: run_ok_def may_call_def)
next
  case (tick w k)
  then show ?case using tick_interrupt_ok [of lim base P ev "kern w" "inside w" "holders w"] by (auto simp: run_ok_def)
qed

end
