(* ===== verification/OsMutexProps.thy ===== *)
theory OsMutexProps
  imports OsMutexRun
begin

text \<open>
  The properties of mutexes over all runs, and runs that show them at work: one in which a task of low priority holds the mutex while one of high priority waits, and one
  in which giving it back leaves a task running that is not the most urgent.
\<close>

section \<open>All runs\<close>

definition free_task :: "nat \<Rightarrow> mtcb" where
  "free_task p = \<lparr>OSTCBPrio = p, OSTCBStat = OS_STAT_RDY, OSTCBStatPend = OS_STAT_PEND_OK, OSTCBDly = 0, OSTCBEventPtr = None\<rparr>"

text \<open>The start: the mutex of priority \<open>P\<close> as \<open>OSMutexCreate\<close> leaves it, and all tasks ready at priorities of their own, none as high.\<close>

definition mstart :: "(nat \<Rightarrow> nat) \<Rightarrow> nat \<Rightarrow> nat \<Rightarrow> mkern \<Rightarrow> bool" where
  "mstart base P ev k \<longleftrightarrow>
     ecbs k ev = Some \<lparr>OSEventType = OS_EVENT_TYPE_MUTEX, OSEventCnt = push_bit 8 (of_nat P) OR OS_MUTEX_AVAILABLE, OSEventPtr = None, wait_list = no_prios\<rparr> \<and>
     (\<forall>i t. tcbs k i = Some t \<longrightarrow> t = free_task (base i) \<and> P < base i \<and> base i < 64 \<and> OSTCBPrioTbl k (base i) = Tcb i) \<and>
     inj_on base (dom (tcbs k)) \<and> tbl_ok (rdy_list k) \<and> prios_of (rdy_list k) = base ` dom (tcbs k) \<and>
     (\<exists>l z. OSTCBList k = l @ [z] \<and> base z = 63 \<and> set (OSTCBList k) = dom (tcbs k)) \<and> OSIntNesting k = 0 \<and> OSLockNesting k = 0 \<and>
     OSTCBCur k \<in> dom (tcbs k) \<and> OSPrioCur k = base (OSTCBCur k) \<and> (\<forall>i \<in> dom (tcbs k). OSPrioCur k \<le> base i)"

inductive mreach :: "bool \<Rightarrow> (nat \<Rightarrow> nat) \<Rightarrow> nat \<Rightarrow> nat \<Rightarrow> mrun \<Rightarrow> bool" for lim base P ev where
  start: "mstart base P ev k \<Longrightarrow> mreach lim base P ev \<lparr>kern = k, inside = {}, holders = {}\<rparr>"
| step: "mreach lim base P ev w \<Longrightarrow> mstep lim ev w w' \<Longrightarrow> mreach lim base P ev w'"

lemma mstart_ok:
  assumes "mstart base P ev k"
  shows "run_ok lim base P ev \<lparr>kern = k, inside = {}, holders = {}\<rparr>"
proof -
  note a = assms [unfolded mstart_def]
  let ?e = "\<lparr>OSEventType = OS_EVENT_TYPE_MUTEX, OSEventCnt = push_bit 8 (of_nat P) OR OS_MUTEX_AVAILABLE, OSEventPtr = None, wait_list = no_prios\<rparr>"
  have e: "ecbs k ev = Some ?e" using a by blast
  have t: "t = free_task (base i)" "P < base i" "base i < 64" "OSTCBPrioTbl k (base i) = Tcb i" if "tcbs k i = Some t" for i t using a that by blast+
  have r: "tbl_ok (rdy_list k)" "prios_of (rdy_list k) = base ` dom (tcbs k)" using a by blast+
  have m: "mtask lim base P ev (OSTCBPrioTbl k) (prios_of (rdy_list k)) {} None {} {} i t" if "tcbs k i = Some t" for i t
    using t [OF that] that r(2) by (auto simp: mtask_def free_task_def)
  obtain l z where z: "base z = 63" "OSTCBList k = l @ [z]" "set (OSTCBList k) = dom (tcbs k)" using a by blast
  then obtain u where u: "tcbs k z = Some u" by auto
  have cover: "\<exists>i t. tcbs k i = Some t \<and> OSTCBPrio t = p" if p: "p \<in> prios_of (rdy_list k)" for p
  proof -
    obtain i v where "tcbs k i = Some v" "p = base i" using p r(2) by auto
    then show ?thesis using t(1) [of i v] by (intro exI [of _ i] exI [of _ v]) (simp add: free_task_def)
  qed
  have idle: "\<exists>z t. tcbs k z = Some t \<and> base z = 63 \<and> OSTCBDly t = 0"
    using u z(1) t(1) [OF u] by (intro exI [of _ z] exI [of _ u]) (simp add: free_task_def)
  have inj: "inj_on base (dom (tcbs k))" using a by blast
  have c: "core lim base P ev (tcbs k) (OSTCBPrioTbl k) (prios_of (rdy_list k)) (prios_of (wait_list ?e)) (OSEventPtr ?e) {} {}"
    unfolding core_def using inj m cover idle by (simp add: pl.none)
  have n: "OSIntNesting k = 0" "OSLockNesting k = 0" using a by blast+
  have w: "tbl_ok (wait_list ?e)" by (simp add: pl.none)
  have ur: "urgent lim base P (tcbs k) (prios_of (wait_list ?e)) (OSEventPtr ?e)" by (simp add: urgent_def)
  have ct: "OSEventCnt ?e = mutex_cnt base P (OSEventPtr ?e)" by (simp add: mutex_cnt_def)
  have ty: "OSEventType ?e = OS_EVENT_TYPE_MUTEX" by simp
  have lst: "\<exists>l z. OSTCBList k = l @ [z] \<and> base z = 63 \<and> set (OSTCBList k) = dom (tcbs k)" using z by blast
  have mo: "mutex_ok lim base P ev k {} {}"
    unfolding mutex_ok_def by (intro conjI exI [of _ ?e] e ty ct w c ur r(1) n lst)
  obtain v where v: "tcbs k (OSTCBCur k) = Some v" using a by blast
  have p: "OSPrioCur k = base (OSTCBCur k)" "\<forall>i \<in> dom (tcbs k). OSPrioCur k \<le> base i" using a by blast+
  have "OSTCBPrio v = base (OSTCBCur k)" using t(1) [OF v] by (simp add: free_task_def)
  moreover have "base (OSTCBCur k) \<in> prios_of (rdy_list k)" using r(2) v by blast
  ultimately have "runs_ok lim k" unfolding runs_ok_def r(2) using v p by auto
  then show ?thesis using mo by (simp add: run_ok_def)
qed

lemma mreach_ok: "mreach lim base P ev w \<Longrightarrow> run_ok lim base P ev w"
  by (induction rule: mreach.induct) (auto intro: mstart_ok mstep_ok)

lemma mreachD:
  assumes "mreach lim base P ev w"
  shows "mutex_ok lim base P ev (kern w) (inside w) (holders w)" and "runs_ok lim (kern w)"
  using mreach_ok [OF assms] by (simp_all add: run_ok_def)


text \<open>
  C4. Inheritance: while a task of higher priority waits for the mutex, the task that holds it has the priority of the mutex, which is above that of all tasks. Without time limits
  it therefore runs as long as it does not delay itself: no task in between keeps the waiting one from the mutex.
\<close>

theorem mutex_owner_inherits:
  assumes r: "mreach lim base P ev w" and h: "h \<in> holders w" and i: "i \<in> inside w" "base i < base h"
    and waits: "tcbs (kern w) i = Some t" "OSTCBStat t = OS_STAT_MUTEX"
  shows "\<exists>u. tcbs (kern w) h = Some u \<and> OSTCBPrio u = P \<and> (\<not> lim \<and> OSTCBDly u = 0 \<longrightarrow> OSTCBCur (kern w) = h)"
proof -
  note m = mreachD [OF r]
  obtain e where e: "ecbs (kern w) ev = Some e" using mutex_there [OF m(1)] ..
  note d = mutex_okD [OF m(1) e]
  have ow: "OSEventPtr e = Some h" by (rule owner_holds(1) [OF m(1) e h])
  obtain u where u: "tcbs (kern w) h = Some u" using coreD(6) [OF d(4) ow] by blast
  note mi = coreD(2) [OF d(4) waits(1)] and mh = coreD(2) [OF d(4) u]
  have ih: "h \<noteq> i" using i(2) by auto
  then have "OSTCBPrio t = base i" "base i \<in> prios_of (wait_list e)" using mtaskD(5,7) [OF mi] ow i(1) by auto
  then have P: "OSTCBPrio u = P" using d(5) ow u i(2) unfolding urgent_def by blast
  have "OSTCBCur (kern w) = h" if "\<not> lim" "OSTCBDly u = 0"
  proof -
    have "OSTCBStat u = OS_STAT_RDY" using mh h unfolding mtask_def by (auto split: if_splits)
    then have "P \<in> prios_of (rdy_list (kern w))" using mtaskD(6) [OF mh] that(2) P by simp
    moreover obtain v where v: "tcbs (kern w) (OSTCBCur (kern w)) = Some v" "OSPrioCur (kern w) = OSTCBPrio v" using m(2) by (auto simp: runs_ok_def)
    ultimately have "OSTCBPrio v \<le> P" using m(2) that(1) by (auto simp: runs_ok_def)
    then have "OSTCBPrio v = OSTCBPrio u" using mtaskD(1,5) [OF coreD(2) [OF d(4) v(1)]] P by auto
    then show ?thesis using prio_inj [OF d(4) v(1) u] by blast
  qed
  then show ?thesis using u P by blast
qed

text \<open>
  C5. Giving the mutex back while tasks wait: it goes to the one of highest priority, the task that gives it gets its own priority again, and the most urgent task that is ready runs.
\<close>

theorem mutex_goes_to_highest:
  assumes r: "mreach lim base P ev w" and c: "OSTCBCur (kern w) \<in> holders w" and i: "i \<in> inside w"
  shows "\<exists>k' e' t j. OSMutexPost ev (kern w) = Inr (OS_ERR_NONE, k') \<and> ecbs k' ev = Some e' \<and> OSEventPtr e' = Some j \<and> j \<in> inside w \<and>
    (\<forall>i \<in> inside w. base j \<le> base i) \<and> tcbs k' (OSTCBCur (kern w)) = Some t \<and> OSTCBPrio t = base (OSTCBCur (kern w)) \<and>
    (\<forall>q \<in> prios_of (rdy_list k'). OSPrioCur k' \<le> q)"
proof -
  note m = mreachD [OF r]
  obtain e where e: "ecbs (kern w) ev = Some e" using mutex_there [OF m(1)] ..
  note d = mutex_okD [OF m(1) e]
  have ow: "OSEventPtr e = Some (OSTCBCur (kern w))" by (rule owner_holds(1) [OF m(1) e c])
  obtain v where v: "tcbs (kern w) (OSTCBCur (kern w)) = Some v" using m(2) by (auto simp: runs_ok_def)
  have ci: "OSTCBCur (kern w) \<notin> inside w" using mtaskD(8) [OF coreD(2) [OF d(4) v] c] by blast
  have wait: "base l \<in> prios_of (wait_list e)" if l: "l \<in> inside w" for l
  proof -
    obtain u where u: "tcbs (kern w) l = Some u" using coreD(4) [OF d(4)] l by auto
    have "l \<noteq> OSTCBCur (kern w)" using ci l by blast
    then show ?thesis using mtaskD(5,7) [OF coreD(2) [OF d(4) u]] ow l by auto
  qed
  have ne: "prios_of (wait_list e) \<noteq> {}" using wait [OF i] by blast
  obtain k' e' t j where k': "OSMutexPost ev (kern w) = Inr (OS_ERR_NONE, k')" "tcbs k' (OSTCBCur (kern w)) = Some t" "OSTCBPrio t = base (OSTCBCur (kern w))"
    "ecbs k' ev = Some e'" "OSEventPtr e' = Some j" "base j \<in> prios_of (wait_list e)" "\<forall>q \<in> prios_of (wait_list e). base j \<le> q"
    "\<forall>q \<in> prios_of (rdy_list k'). OSPrioCur k' \<le> q" "mutex_ok lim base P ev k' (inside w) (holders w - {OSTCBCur (kern w)})"
    using OSMutexPost_hands [OF m e ow c ne] by blast
  have "j \<in> inside w"
  proof (rule ccontr)
    assume "j \<notin> inside w"
    then have "j \<in> holders w" "j \<noteq> OSTCBCur (kern w)" using owner_holds(2) [OF k'(9,4,5)] by auto
    then show False using owner_holds(1) [OF m(1) e] ow by auto
  qed
  then show ?thesis using k'(1-5,7,8) wait by blast
qed

section \<open>Deleting\<close>

text \<open>What the loop that readies the waiting tasks rests on: behind each priority in the two lists is a task of that priority.\<close>

definition listed :: "nat \<Rightarrow> nat \<Rightarrow> mevent \<Rightarrow> mkern \<Rightarrow> bool" where
  "listed P ev e k \<longleftrightarrow> ecbs k ev = Some e \<and> tbl_ok (wait_list e) \<and> tbl_ok (rdy_list k) \<and>
     (\<forall>p \<in> prios_of (rdy_list k) \<union> prios_of (wait_list e). p \<noteq> P \<and>
        (\<exists>i t. OSTCBPrioTbl k p = Tcb i \<and> tcbs k i = Some t \<and> OSTCBPrio t = p \<and> OSTCBStat t AND NOT OS_STAT_MUTEX = OS_STAT_RDY))"

text \<open>What stays as it is.\<close>

definition same_tasks :: "mkern \<Rightarrow> mkern \<Rightarrow> bool" where
  "same_tasks k k' \<longleftrightarrow> (\<forall>i. map_option OSTCBPrio (tcbs k' i) = map_option OSTCBPrio (tcbs k i)) \<and> OSTCBPrioTbl k' = OSTCBPrioTbl k \<and>
     OSIntNesting k' = OSIntNesting k \<and> OSLockNesting k' = OSLockNesting k \<and> OSTCBCur k' = OSTCBCur k \<and> OSPrioCur k' = OSPrioCur k \<and>
     OSEventFreeList k' = OSEventFreeList k"

lemma ready_one:
  assumes l: "listed P ev e k" and ne: "prios_of (wait_list e) \<noteq> {}"
  obtains k1 e1 where "OS_EventTaskRdy ev OS_STAT_MUTEX OS_STAT_PEND_OK k = Inr (highest (wait_list e), k1)" "listed P ev e1 k1" "same_tasks k k1"
    "e1 = e\<lparr>wait_list := unmark (highest (wait_list e)) (wait_list e)\<rparr>" "prios_of (wait_list e1) = prios_of (wait_list e) - {highest (wait_list e)}"
    "prios_of (rdy_list k1) = insert (highest (wait_list e)) (prios_of (rdy_list k))"
proof -
  define p where "p = highest (wait_list e)"
  note d = l [unfolded listed_def]
  have ok: "tbl_ok (wait_list e)" "tbl_ok (rdy_list k)" "ecbs k ev = Some e" using d by blast+
  have p: "p \<in> prios_of (wait_list e)" "p < 64" unfolding p_def using pl.top(1) [OF ok(1) ne] pl.top_less [OF ok(1) ne] by blast+
  then obtain i t where t: "OSTCBPrioTbl k p = Tcb i" "tcbs k i = Some t" "OSTCBPrio t = p" "OSTCBStat t AND NOT OS_STAT_MUTEX = OS_STAT_RDY" using d by blast
  let ?t = "t\<lparr>OSTCBDly := 0, OSTCBStat := OS_STAT_RDY, OSTCBStatPend := OS_STAT_PEND_OK\<rparr>" and ?e = "e\<lparr>wait_list := unmark p (wait_list e)\<rparr>"
  define k1 where "k1 = k\<lparr>tcbs := (tcbs k)(i \<mapsto> ?t), rdy_list := mark p (rdy_list k), ecbs := (ecbs k)(ev \<mapsto> ?e)\<rparr>"
  have at: "task_at p k = Inr i" using t(1) p(2) by (simp add: task_at_def)
  have r: "OS_EventTaskRdy ev OS_STAT_MUTEX OS_STAT_PEND_OK k = Inr (p, k1)"
    using ok(3) at t(2,3,4) unfolding OS_EventTaskRdy_def
    by (simp add: ecb_of_def tcb_of_def set_tcb_def set_ecb_def OS_EventTaskRemove_def Let_def k1_def flip: p_def)
  have s: "same_tasks k k1" using t(2) by (simp add: same_tasks_def k1_def)
  have pr: "tbl_ok (rdy_list k1)" "prios_of (rdy_list k1) = insert p (prios_of (rdy_list k))" "tbl_ok (wait_list ?e)"
    "prios_of (wait_list ?e) = prios_of (wait_list e) - {p}"
    using pl.add [OF ok(2) p(2)] pl.del [OF ok(1) p(2)] by (simp_all add: k1_def)
  have e1: "ecbs k1 ev = Some ?e" by (simp add: k1_def)
  have b: "q \<noteq> P \<and> (\<exists>j u. OSTCBPrioTbl k1 q = Tcb j \<and> tcbs k1 j = Some u \<and> OSTCBPrio u = q \<and> OSTCBStat u AND NOT OS_STAT_MUTEX = OS_STAT_RDY)"
    if "q \<in> prios_of (rdy_list k1) \<union> prios_of (wait_list ?e)" for q
  proof -
    have "q \<in> prios_of (rdy_list k) \<union> prios_of (wait_list e)" using that p(1) unfolding pr(2,4) by blast
    then obtain j u where q: "q \<noteq> P" and j: "OSTCBPrioTbl k q = Tcb j" "tcbs k j = Some u" "OSTCBPrio u = q" "OSTCBStat u AND NOT OS_STAT_MUTEX = OS_STAT_RDY" using d by blast
    show ?thesis
    proof (cases "j = i")
      case True
      then show ?thesis using q j t(2) by (intro conjI exI [of _ i] exI [of _ ?t]) (simp_all add: k1_def)
    next
      case False
      then show ?thesis using q j by (intro conjI exI [of _ j] exI [of _ u]) (simp_all add: k1_def)
    qed
  qed
  have "listed P ev ?e k1" unfolding listed_def using e1 pr(1,3) b by blast
  then show thesis using that [of k1 ?e] r s pr(2,4) unfolding p_def by blast
qed

lemma same_tasks_trans: "same_tasks k k1 \<Longrightarrow> same_tasks k1 k2 \<Longrightarrow> same_tasks k k2"
  by (simp add: same_tasks_def)

text \<open>As many rounds as tasks wait, which are 64 at most.\<close>

lemma ready_all_ends:
  assumes "listed P ev e k" and "card (prios_of (wait_list e)) \<le> fuel"
  shows "\<exists>k' e'. ready_all fuel ev k = Inr k' \<and> listed P ev e' k' \<and> same_tasks k k' \<and> prios_of (wait_list e') = {} \<and> OSEventCnt e' = OSEventCnt e \<and>
    prios_of (rdy_list k') = prios_of (rdy_list k) \<union> prios_of (wait_list e)"
  using assms
proof (induction fuel arbitrary: k e)
  case (0 k e)
  then have ok: "tbl_ok (wait_list e)" "ecbs k ev = Some e" by (auto simp: listed_def)
  then have z: "prios_of (wait_list e) = {}" using 0(2) pl.finite_prios [OF ok(1)] by simp
  then have "ready_all 0 ev k = Inr k" using ok pl.empty [OF ok(1)] by (simp add: ready_all.simps ecb_of_def)
  then show ?case using 0(1) z by (intro exI [of _ k] exI [of _ e]) (simp add: same_tasks_def)
next
  case (Suc n k e)
  have ok: "tbl_ok (wait_list e)" "ecbs k ev = Some e" using Suc(2) by (auto simp: listed_def)
  show ?case
  proof (cases "prios_of (wait_list e) = {}")
    case True
    then have "ready_all (Suc n) ev k = Inr k" using ok pl.empty [OF ok(1)] by (simp add: ready_all.simps ecb_of_def)
    then show ?thesis using Suc(2) True by (intro exI [of _ k] exI [of _ e]) (simp add: same_tasks_def)
  next
    case False
    then obtain k1 e1 where r: "OS_EventTaskRdy ev OS_STAT_MUTEX OS_STAT_PEND_OK k = Inr (highest (wait_list e), k1)" "listed P ev e1 k1" "same_tasks k k1"
      "e1 = e\<lparr>wait_list := unmark (highest (wait_list e)) (wait_list e)\<rparr>" "prios_of (wait_list e1) = prios_of (wait_list e) - {highest (wait_list e)}"
      "prios_of (rdy_list k1) = insert (highest (wait_list e)) (prios_of (rdy_list k))" using ready_one [OF Suc(2)] by blast
    have hi: "highest (wait_list e) \<in> prios_of (wait_list e)" by (rule pl.top(1) [OF ok(1) False])
    have "card (prios_of (wait_list e1)) < card (prios_of (wait_list e))" using pl.card_del_top [OF ok(1) False] r(4) by simp
    then have "card (prios_of (wait_list e1)) \<le> n" using Suc(3) by simp
    from Suc.IH [OF r(2) this] obtain k' e' where k': "ready_all n ev k1 = Inr k'" "listed P ev e' k'" "same_tasks k1 k'" "prios_of (wait_list e') = {}"
      "OSEventCnt e' = OSEventCnt e1" "prios_of (rdy_list k') = prios_of (rdy_list k1) \<union> prios_of (wait_list e1)" by blast
    have "ready_all (Suc n) ev k = Inr k'" using ok False pl.empty [OF ok(1)] r(1) k'(1) by (simp add: ready_all.simps ecb_of_def)
    moreover have "prios_of (rdy_list k') = prios_of (rdy_list k) \<union> prios_of (wait_list e)" unfolding k'(6) r(5,6) using hi by auto
    ultimately show ?thesis using k'(2,4,5) same_tasks_trans [OF r(3) k'(3)] r(4)
      by (intro exI [of _ k'] exI [of _ e']) simp
  qed
qed


lemma base_free: "core lim base P ev T tbl rp wp (Some i) I H \<Longrightarrow> T i = Some t \<Longrightarrow> OSTCBPrio t = base i \<Longrightarrow> T j = Some u \<Longrightarrow> OSTCBPrio u \<noteq> P \<and> OSTCBPrio u = base j"
  using mtaskD(1,5) [of lim base P ev tbl rp wp "Some i" I H j u] coreD(2) [of lim base P ev T tbl rp wp "Some i" I H j u] by auto

lemma inside_waits:
  assumes c: "core lim base P ev T tbl rp wp (Some c) I H" and l: "l \<in> I" "l \<noteq> c"
  shows "base l \<in> wp"
proof -
  obtain u where u: "T l = Some u" using coreD(4) [OF c] l(1) by auto
  then show ?thesis using mtaskD(5,7) [OF coreD(2) [OF c u]] l by auto
qed

lemma sched_any:
  assumes ok: "tbl_ok (rdy_list k)" "prios_of (rdy_list k) \<noteq> {}" and t: "\<And>p. p \<in> prios_of (rdy_list k) \<Longrightarrow> \<exists>i. OSTCBPrioTbl k p = Tcb i"
    and n: "OSIntNesting k = 0" "OSLockNesting k = 0"
  obtains i p where "OS_Sched k = Inr (k\<lparr>OSTCBCur := i, OSPrioCur := p\<rparr>)" "\<forall>q \<in> prios_of (rdy_list k). p \<le> q"
proof -
  define p where "p = highest (rdy_list k)"
  have p: "p \<in> prios_of (rdy_list k)" "p < 64" "\<forall>q \<in> prios_of (rdy_list k). p \<le> q"
    unfolding p_def using pl.top(1) [OF ok] pl.top_less [OF ok] pl.top(2) [OF ok(1)] by blast+
  then obtain i where i: "task_at p k = Inr i" using t [OF p(1)] by (auto simp: task_at_def)
  show thesis
  proof (cases "p = OSPrioCur k")
    case True
    then have "OS_Sched k = Inr (k\<lparr>OSTCBCur := OSTCBCur k, OSPrioCur := p\<rparr>)" by (simp add: OS_Sched_def Let_def flip: p_def)
    then show thesis using that p(3) by blast
  next
    case False
    then have "OS_Sched k = Inr (k\<lparr>OSTCBCur := i, OSPrioCur := p\<rparr>)" using i n by (simp add: OS_Sched_def Let_def flip: p_def)
    then show thesis using that p(3) by blast
  qed
qed

text \<open>Before the loop: the owner has its own priority, and so no task has that of the mutex.\<close>

lemma owner_lowered:
  assumes w: "mutex_ok lim base P ev k I H" and r: "runs_ok lim k" and e: "ecbs k ev = Some e" "OSEventPtr e = Some (OSTCBCur k)"
    and t: "tcbs k (OSTCBCur k) = Some t"
  obtains k1 where "(if OSTCBPrio t = pip e then OSMutex_RdyAtPrio (OSTCBCur k) (mprio e) k else Inr k) = Inr k1" "listed P ev e k1"
    "tcbs k1 (OSTCBCur k) = Some (t\<lparr>OSTCBPrio := base (OSTCBCur k)\<rparr>)" "base (OSTCBCur k) \<in> prios_of (rdy_list k1)" "OSIntNesting k1 = 0" "OSLockNesting k1 = 0"
    "OSEventFreeList k1 = OSEventFreeList k"
proof -
  let ?c = "OSTCBCur k"
  note d = mutex_okD [OF w e(1)] and n = mutex_cntD [OF w e(1)]
  obtain k2 where k2: "ebind (if OSTCBPrio t = pip e then OSMutex_RdyAtPrio ?c (mprio e) k else Inr k) (set_entry (pip e) OS_TCB_RESERVED) = Inr k2"
    "tcbs k2 = (tcbs k)(?c \<mapsto> t\<lparr>OSTCBPrio := base ?c\<rparr>)" "ecbs k2 = ecbs k" "tbl_ok (rdy_list k2)" "base ?c \<in> prios_of (rdy_list k2)"
    "core lim base P ev (tcbs k2) (OSTCBPrioTbl k2) (prios_of (rdy_list k2)) (prios_of (wait_list e)) (Some ?c) I H"
    "OSIntNesting k2 = OSIntNesting k" "OSLockNesting k2 = OSLockNesting k"
    by (rule own_priority_again [OF w r e t])
  obtain k1 where k1: "(if OSTCBPrio t = pip e then OSMutex_RdyAtPrio ?c (mprio e) k else Inr k) = Inr k1" "set_entry P OS_TCB_RESERVED k1 = Inr k2"
    using k2(1) n(2) by (auto simp only: ebind_eq_Inr_iff)
  have eq: "k2 = k1\<lparr>OSTCBPrioTbl := (OSTCBPrioTbl k1)(P := OS_TCB_RESERVED)\<rparr>" using k1(2) n(1) by (simp add: set_entry_def)
  have f: "OSEventFreeList k1 = OSEventFreeList k"
    using k1(1) t by (auto simp: OSMutex_RdyAtPrio_def tcb_of_def set_tcb_def set_entry_def split: if_splits)
  have t2: "tcbs k2 ?c = Some (t\<lparr>OSTCBPrio := base ?c\<rparr>)" "OSTCBPrio (t\<lparr>OSTCBPrio := base ?c\<rparr>) = base ?c" using k2(2) by simp_all
  have b: "q \<noteq> P \<and> (\<exists>j u. OSTCBPrioTbl k1 q = Tcb j \<and> tcbs k1 j = Some u \<and> OSTCBPrio u = q \<and> OSTCBStat u AND NOT OS_STAT_MUTEX = OS_STAT_RDY)"
    if "q \<in> prios_of (rdy_list k2) \<union> prios_of (wait_list e)" for q
  proof -
    have "q \<in> prios_of (rdy_list k2) \<or> q \<in> prios_of (wait_list e)" using that by simp
    from coreD(3) [OF k2(6) this] obtain j u where j: "tcbs k2 j = Some u" "OSTCBPrio u = q" by blast
    note m = coreD(2) [OF k2(6) j(1)]
    have q: "q \<noteq> P" using base_free [OF k2(6) t2 j(1)] j(2) by blast
    have "OSTCBStat u AND NOT OS_STAT_MUTEX = OS_STAT_RDY" using m unfolding mtask_def by (auto split: if_splits)
    then show ?thesis using q j mtaskD(4) [OF m] by (intro conjI exI [of _ j] exI [of _ u]) (simp_all add: eq)
  qed
  have "listed P ev e k1" using b e(1) d(3) k2(3,4) unfolding listed_def eq by simp
  then show thesis using that [OF k1(1)] t2(1) k2(5,7,8) d(7,8) f by (simp add: eq)
qed

text \<open>
  C6. The owner deletes the mutex: it gets its own priority again, all tasks that wait are readied in 64 rounds at most, the priority of the mutex is free, the control block
  goes back to the free list, and if tasks waited the most urgent task that is ready runs.
\<close>

theorem OSMutexDel_by_owner:
  assumes r: "mreach lim base P ev w" and c: "OSTCBCur (kern w) \<in> holders w"
  shows "\<exists>k' e' t. OSMutexDel ev 1 (kern w) = Inr (None, OS_ERR_NONE, k') \<and> ecbs k' ev = Some e' \<and> OSEventType e' = OS_EVENT_TYPE_UNUSED \<and>
    OSEventFreeList k' = ev # OSEventFreeList (kern w) \<and> OSTCBPrioTbl k' P = Unused \<and>
    tcbs k' (OSTCBCur (kern w)) = Some t \<and> OSTCBPrio t = base (OSTCBCur (kern w)) \<and> base (OSTCBCur (kern w)) \<in> prios_of (rdy_list k') \<and>
    (\<forall>i \<in> inside w. base i \<in> prios_of (rdy_list k')) \<and> (inside w \<noteq> {} \<longrightarrow> (\<forall>q \<in> prios_of (rdy_list k'). OSPrioCur k' \<le> q))"
proof -
  note m = mreachD [OF r]
  let ?k = "kern w" and ?c = "OSTCBCur (kern w)"
  obtain e where e: "ecbs ?k ev = Some e" using mutex_there [OF m(1)] ..
  note d = mutex_okD [OF m(1) e] and n = mutex_cntD [OF m(1) e]
  have ow: "OSEventPtr e = Some ?c" by (rule owner_holds(1) [OF m(1) e c])
  obtain v where v: "tcbs ?k ?c = Some v" using m(2) by (auto simp: runs_ok_def)
  have co: "core lim base P ev (tcbs ?k) (OSTCBPrioTbl ?k) (prios_of (rdy_list ?k)) (prios_of (wait_list e)) (Some ?c) (inside w) (holders w)" using d(4) ow by simp
  have wait: "base l \<in> prios_of (wait_list e)" if "l \<in> inside w" for l
    using inside_waits [OF co that] mtaskD(8) [OF coreD(2) [OF co v] c] that by blast
  obtain k1 where k1: "(if OSTCBPrio v = pip e then OSMutex_RdyAtPrio ?c (mprio e) ?k else Inr ?k) = Inr k1" "listed P ev e k1"
    "tcbs k1 ?c = Some (v\<lparr>OSTCBPrio := base ?c\<rparr>)" "base ?c \<in> prios_of (rdy_list k1)" "OSIntNesting k1 = 0" "OSLockNesting k1 = 0"
    "OSEventFreeList k1 = OSEventFreeList ?k"
    by (rule owner_lowered [OF m e ow v])
  have "prios_of (wait_list e) \<subseteq> {..<64}" using pl.bound [OF d(3)] by blast
  then have "card (prios_of (wait_list e)) \<le> 64" using card_mono [of "{..<64::nat}"] by fastforce
  from ready_all_ends [OF k1(2) this] obtain k2 e2 where k2: "ready_all 64 ev k1 = Inr k2" "listed P ev e2 k2" "same_tasks k1 k2" "OSEventCnt e2 = OSEventCnt e"
    "prios_of (rdy_list k2) = prios_of (rdy_list k1) \<union> prios_of (wait_list e)" by blast
  let ?e = "e2\<lparr>OSEventType := OS_EVENT_TYPE_UNUSED, OSEventPtr := None, OSEventCnt := 0\<rparr>"
  define k3 where "k3 = k2\<lparr>ecbs := (ecbs k2)(ev \<mapsto> ?e), OSEventFreeList := ev # OSEventFreeList k2, OSTCBPrioTbl := (OSTCBPrioTbl k2)(P := Unused)\<rparr>"
  have "pip e2 = P" using n(2) k2(4) by (simp add: pip_def)
  then have k3: "free_mutex ev k2 = Inr k3" using k2(2) n(1) by (simp add: free_mutex_def ecb_of_def set_ecb_def set_entry_def listed_def k3_def)
  have s: "OSIntNesting k3 = 0" "OSLockNesting k3 = 0" "OSEventFreeList k3 = ev # OSEventFreeList ?k" "rdy_list k3 = rdy_list k2"
    using k2(3) k1(5-7) by (simp_all add: same_tasks_def k3_def)
  have "map_option OSTCBPrio (tcbs k3 ?c) = Some (base ?c)" using k2(3) k1(3) by (simp add: same_tasks_def k3_def)
  then obtain t where t: "tcbs k3 ?c = Some t" "OSTCBPrio t = base ?c" by auto
  have rd: "base ?c \<in> prios_of (rdy_list k3)" "\<forall>i \<in> inside w. base i \<in> prios_of (rdy_list k3)" using k1(4) k2(5) wait by (auto simp: s(4))
  have tb: "tbl_ok (rdy_list k3)" "\<exists>i. OSTCBPrioTbl k3 p = Tcb i" if "p \<in> prios_of (rdy_list k3)" for p
    using k2(2) that unfolding listed_def by (auto simp: s(4) k3_def)
  obtain i p where sc: "OS_Sched k3 = Inr (k3\<lparr>OSTCBCur := i, OSPrioCur := p\<rparr>)" "\<forall>q \<in> prios_of (rdy_list k3). p \<le> q"
    by (rule sched_any [OF tb(1) _ tb(2) s(1,2)]) (use rd(1) in auto)
  have del: "OSMutexDel ev 1 ?k = ebind (if Grp (wait_list e) \<noteq> 0 then OS_Sched k3 else Inr k3) (\<lambda>s4. Inr (None, OS_ERR_NONE, s4))"
    using d(1,7) e ow v k1(1) k2(1) k3 by (simp add: OSMutexDel_def ecb_of_def tcb_of_def)
  have f: "ecbs k3 ev = Some ?e" "OSTCBPrioTbl k3 P = Unused" by (simp_all add: k3_def)
  show ?thesis
  proof (cases "Grp (wait_list e) = 0")
    case True
    then have "inside w = {}" using wait pl.empty [OF d(3)] by auto
    then show ?thesis using True del f s(3) t rd by simp
  next
    case False
    then show ?thesis using del sc f s(3) t rd by simp
  qed
qed

section \<open>Runs, step by step\<close>

datatype deed = Delay u32 | Pend u32 | Resume | Post | Tick

fun act :: "bool \<Rightarrow> nat \<Rightarrow> deed \<Rightarrow> mrun \<Rightarrow> mrun option" where
  "act lim ev (Delay n) w =
     (if may_call w then case OSTimeDly n (kern w) of Inr k \<Rightarrow> Some (w\<lparr>kern := k\<rparr>) | Inl _ \<Rightarrow> None else None)"
| "act lim ev (Pend n) w =
     (if may_call w \<and> OSTCBCur (kern w) \<notin> holders w \<and> (lim \<or> n = 0) then
        case OSMutexPend ev n (kern w) of
          Inr (Returns err, k) \<Rightarrow> Some (w\<lparr>kern := k, holders := told err w\<rparr>)
        | Inr (Waits, k) \<Rightarrow> Some (w\<lparr>kern := k, inside := insert (OSTCBCur (kern w)) (inside w)\<rparr>)
        | Inl _ \<Rightarrow> None
      else None)"
| "act lim ev Resume w =
     (if OSTCBCur (kern w) \<in> inside w then
        case OSMutexPend_resume ev (kern w) of
          Inr (err, k) \<Rightarrow> Some (w\<lparr>kern := k, inside := inside w - {OSTCBCur (kern w)}, holders := told err w\<rparr>)
        | Inl _ \<Rightarrow> None
      else None)"
| "act lim ev Post w =
     (if may_call w then
        case OSMutexPost ev (kern w) of
          Inr (err, k) \<Rightarrow> Some (w\<lparr>kern := k, holders := (if err = OS_ERR_NONE then holders w - {OSTCBCur (kern w)} else holders w)\<rparr>)
        | Inl _ \<Rightarrow> None
      else None)"
| "act lim ev Tick w = (case tick_interrupt (kern w) of Inr k \<Rightarrow> Some (w\<lparr>kern := k\<rparr>) | Inl _ \<Rightarrow> None)"

primrec acts :: "bool \<Rightarrow> nat \<Rightarrow> deed list \<Rightarrow> mrun \<Rightarrow> mrun option" where
  "acts lim ev [] w = Some w"
| "acts lim ev (a # as) w = (case act lim ev a w of None \<Rightarrow> None | Some w1 \<Rightarrow> acts lim ev as w1)"

lemma act_mstep:
  assumes "act lim ev a w = Some w'"
  shows "mstep lim ev w w'"
proof (cases a)
  case (Delay n)
  then show ?thesis using assms by (auto split: if_splits sum.splits intro: mstep.dly)
next
  case (Pend n)
  then show ?thesis using assms by (auto split: if_splits sum.splits prod.splits call.splits intro: mstep.pend mstep.block)
next
  case Resume
  then show ?thesis using assms by (auto split: if_splits sum.splits prod.splits intro: mstep.resume)
next
  case Post
  then have c: "may_call w" using assms by (simp split: if_splits)
  obtain err k where k: "OSMutexPost ev (kern w) = Inr (err, k)" using assms Post c by (auto split: sum.splits)
  show ?thesis using mstep.post [OF c k, of lim] assms Post c k by simp
next
  case Tick
  then show ?thesis using assms by (auto split: sum.splits intro: mstep.tick)
qed

lemma acts_mreach: "acts lim ev as w = Some w' \<Longrightarrow> mreach lim base P ev w \<Longrightarrow> mreach lim base P ev w'"
  by (induction as arbitrary: w) (auto split: option.splits intro: mreach.step dest: act_mstep)

text \<open>Two tasks of priority 5 and 8, the idle task, and a mutex of priority 2.\<close>

definition demo_base :: "nat \<Rightarrow> nat" where
  "demo_base i = (if i = 0 then 5 else if i = 1 then 8 else 63)"

definition demo_start :: mrun where
  "demo_start = \<lparr>kern = \<lparr>OSIntNesting = 0, OSLockNesting = 0, OSTCBCur = 0, OSPrioCur = 5, rdy_list = mark 5 (mark 8 (mark 63 no_prios)),
      OSTCBPrioTbl = (\<lambda>_. Unused)(5 := Tcb 0, 8 := Tcb 1, 63 := Tcb 2, 2 := OS_TCB_RESERVED), OSTCBList = [0, 1, 2],
      tcbs = [0 \<mapsto> free_task 5, 1 \<mapsto> free_task 8, 2 \<mapsto> free_task 63],
      ecbs = [0 \<mapsto> \<lparr>OSEventType = OS_EVENT_TYPE_MUTEX, OSEventCnt = 0x02FF, OSEventPtr = None, wait_list = no_prios\<rparr>], OSEventFreeList = []\<rparr>,
    inside = {}, holders = {}\<rparr>"

lemma mutex_demo_start: "mreach lim demo_base 2 0 demo_start"
proof -
  have d: "dom (tcbs (kern demo_start)) = {0, 1, 2}" by (auto simp: demo_start_def)
  have r: "tbl_ok (rdy_list (kern demo_start))" "prios_of (rdy_list (kern demo_start)) = {5, 8, 63}"
    by (simp_all add: demo_start_def pl.add pl.none)
  have t: "t = free_task (demo_base i) \<and> 2 < demo_base i \<and> demo_base i < 64 \<and> OSTCBPrioTbl (kern demo_start) (demo_base i) = Tcb i"
    if "tcbs (kern demo_start) i = Some t" for i t
    using that by (auto simp: demo_start_def demo_base_def split: if_splits)
  have l: "\<exists>l z. OSTCBList (kern demo_start) = l @ [z] \<and> demo_base z = 63 \<and> set (OSTCBList (kern demo_start)) = dom (tcbs (kern demo_start))"
    by (rule exI [of _ "[0, 1]"], rule exI [of _ 2]) (auto simp: demo_start_def demo_base_def)
  have "mstart demo_base 2 0 (kern demo_start)"
    unfolding mstart_def using t l r d by (auto simp: demo_start_def demo_base_def inj_on_def)
  from mreach.start [OF this] show ?thesis by (simp add: demo_start_def)
qed

text \<open>Task 0 delays itself, task 1 takes the mutex, a tick readies task 0, which asks for the mutex.\<close>

definition demo_raised :: mrun where
  "demo_raised = the (acts False 0 [Delay 1, Pend 0, Tick, Pend 0] demo_start)"

lemma demo_raised_mreach: "mreach False demo_base 2 0 demo_raised"
proof -
  have "acts False 0 [Delay 1, Pend 0, Tick, Pend 0] demo_start \<noteq> None" by code_simp
  then have "acts False 0 [Delay 1, Pend 0, Tick, Pend 0] demo_start = Some demo_raised" by (auto simp: demo_raised_def)
  then show ?thesis by (rule acts_mreach [OF _ mutex_demo_start])
qed

lemma demo_raised_at: "1 \<in> holders demo_raised \<and> 0 \<in> inside demo_raised \<and> OSTCBCur (kern demo_raised) = 1"
  by code_simp

lemma demo_raised_waits: "map_option OSTCBStat (tcbs (kern demo_raised) 0) = Some OS_STAT_MUTEX"
  by code_simp

lemma demo_raised_runs: "map_option OSTCBDly (tcbs (kern demo_raised) 1) = Some 0"
  by code_simp


lemma mutex_owner_inherits_witness: "\<exists>u. tcbs (kern demo_raised) 1 = Some u \<and> OSTCBPrio u = 2 \<and> OSTCBCur (kern demo_raised) = 1"
proof -
  obtain t where t: "tcbs (kern demo_raised) 0 = Some t" "OSTCBStat t = OS_STAT_MUTEX" using demo_raised_waits by auto
  have b: "demo_base 0 < demo_base 1" by (simp add: demo_base_def)
  show ?thesis using mutex_owner_inherits [OF demo_raised_mreach _ _ b t] demo_raised_at demo_raised_runs by auto
qed

lemma mutex_goes_to_highest_witness:
  "\<exists>k' e' j. OSMutexPost 0 (kern demo_raised) = Inr (OS_ERR_NONE, k') \<and> ecbs k' 0 = Some e' \<and> OSEventPtr e' = Some j \<and> j \<in> inside demo_raised"
  using mutex_goes_to_highest [OF demo_raised_mreach, of 0] demo_raised_at by auto

lemma OSMutexDel_by_owner_witness: "\<exists>k'. OSMutexDel 0 1 (kern demo_raised) = Inr (None, OS_ERR_NONE, k') \<and> OSTCBPrioTbl k' 2 = Unused \<and> 5 \<in> prios_of (rdy_list k')"
proof -
  have b: "demo_base 0 = 5" by (simp add: demo_base_def)
  show ?thesis using OSMutexDel_by_owner [OF demo_raised_mreach] demo_raised_at b by (metis (no_types))
qed

text \<open>
  The waiting tasks are told that they own the mutex, though it is gone: \<open>OSMutexPend\<close> returns \<open>OS_ERR_NONE\<close> to task 0.
\<close>

lemma deletion_tells_waiters_they_own:
  "ebind (OSMutexDel 0 1 (kern demo_raised)) (\<lambda>(_, err, k). ebind (OSMutexPend_resume 0 k) (\<lambda>(err', _). Inr (err, OSTCBCur k, err'))) =
     Inr (OS_ERR_NONE, 0, OS_ERR_NONE)"
  by code_simp

text \<open>
  With time limits: task 1 inherits the priority of the mutex from task 0 and delays itself; the wait of task 0 times out, which leaves the priority of task 1 as it is.
\<close>

definition demo_late :: mrun where
  "demo_late = the (acts True 0 [Delay 2, Pend 0, Tick, Tick, Pend 1, Delay 3, Tick, Resume] demo_start)"

lemma demo_late_mreach: "mreach True demo_base 2 0 demo_late"
proof -
  have "acts True 0 [Delay 2, Pend 0, Tick, Tick, Pend 1, Delay 3, Tick, Resume] demo_start \<noteq> None" by code_simp
  then have "acts True 0 [Delay 2, Pend 0, Tick, Tick, Pend 1, Delay 3, Tick, Resume] demo_start = Some demo_late" by (auto simp: demo_late_def)
  then show ?thesis by (rule acts_mreach [OF _ mutex_demo_start])
qed

text \<open>
  When task 1 then gives the mutex back its priority falls to 8, while task 0 of priority 5 is ready. No task waits, and so \<open>OSMutexPost\<close> returns without a call
  of \<open>OS_Sched\<close>: task 1 runs on.
\<close>

lemma release_leaves_lower_running:
  "map_option (\<lambda>w. (OSTCBCur (kern w), OSPrioCur (kern w), highest (rdy_list (kern w)))) (acts True 0 [Tick, Tick, Post] demo_late) = Some (1, 8, 5)"
  by code_simp

text \<open>When task 0 deletes the mutex because no task waits for it, task 1 keeps a priority that leads to no task any more: the scheduler follows a null pointer.\<close>

lemma deletion_leaves_raised_owner:
  "ebind (OSMutexDel 0 0 (kern demo_late)) (\<lambda>(_, _, k). ebind (tick_interrupt k) (\<lambda>k1. ebind (tick_interrupt k1) (\<lambda>k2. Inr (OSTCBCur k2)))) = Inl Bad_Pointer"
  by code_simp

text \<open>
  When task 0 deletes it in any case, \<open>OSMutex_RdyAtPrio\<close> readies the delayed task 1 and takes its priority for that of the running task: when task 0 then delays itself,
  the scheduler finds task 1 to be running already, and task 0 runs on.
\<close>

lemma deletion_takes_owner_for_running:
  "ebind (OSMutexDel 0 1 (kern demo_late)) (\<lambda>(_, _, k). ebind (OSTimeDly 5 k) (\<lambda>k1. Inr (OSTCBCur k1, map_option OSTCBDly (tcbs k1 0), OSPrioCur k1, marked 5 (rdy_list k1)))) =
     Inr (0, Some 5, 8, False)"
  by code_simp

end
