(* ===== verification/Spec2Isabelle.thy ===== *)
theory Spec2Isabelle
  imports SerialPort Tasks YmodemSend LwipStart OsMutexProps
begin

text \<open>
  The firmware of the YCKJ-ACU01 area controller.

  The program. The controller sits between up to 80 card readers and a server. It polls the readers
  over a CAN bus, keeps for each of them a row of data, and sends card events and heartbeats to the server over
  TCP; the answers of the server go back to the reader they name. Which physical reader has which
  logical address, and the configuration of the controller, are kept in a serial EEPROM on a bit-banged I2C bus.
  A serial port takes configuration commands. A file received over a second serial port with the YMODEM
  protocol is written to a serial flash on a bit-banged SPI bus. Two tasks of the kernel uC/OS-II (\<open>key_task\<close>, which polls, and
  \<open>led_task\<close>, which delivers answers) and the thread of the server connection share global variables and exchange messages
  through two queues of pointers into a heap of their own.

  Theories, in the order of the calls, from the bottom up:
    \<^item> \<open>ACU_Prelude\<close>: integers, faults (\<open>Out_Of_Bounds\<close>, \<open>Bad_Pointer\<close>, \<open>Still_Running\<close>) and their propagation with
      \<open>ebind\<close>, arrays whose out-of-range accesses are faults, overwriting a range of a memory.
    \<^item> \<open>Crc8\<close> (HARDWARE/BSP/bsp_crc8.c): the table CRC against the bit-serial polynomial code; every change of one byte
      is detected. The locale \<open>checksum\<close> states what error detection rests on.
    \<^item> \<open>Malloc\<close> (MALLOC/malloc.c): the block allocator; well-formed maps as an inductive predicate, soundness and completeness
      of the search, freeing, and clients that make any sequence of calls and keep what they are given (locale \<open>block_allocator\<close>): their
      answers are disjoint blocks of the pool.
    \<^item> \<open>Iic\<close>, \<open>Eeprom\<close> (bsp_myiic.c, bsp_24cxx.c): the two wires, an automaton of the AT24 memory from its data sheet,
      and the byte driver, shown to be a memory (locale \<open>byte_store\<close>, which the clients use).
    \<^item> \<open>CanBus\<close> (bsp_can.c, bsp_canapp.c): frames, packages and the request/answer exchanges with the readers.
    \<^item> \<open>AddrTable\<close> (bsp_useadd.c and \<open>AT24CXX_Check\<close>): the address table, refining an abstract map of logical to
      physical addresses, and the configuration block.
    \<^item> \<open>Fifo\<close>: a ring in an array with its two indices and its count, and the locale \<open>bounded_fifo\<close>, interpreted on the two rings of a
      serial port and on the message queues of the kernel.
    \<^item> \<open>UartFifo\<close> (SYSTEM/usart/bsp_uart_fifo.c): rings between tasks and interrupt handler, their runs as an inductive step relation, blocking of \<open>UartSend\<close>.
    \<^item> \<open>SerialPort\<close> (\<open>ReceiveSerialDat\<close>, bsp_serialport.c): frame receiver and command interpreter.
    \<^item> \<open>PowerBus\<close> (bsp_powerbus.c): polling one reader, passing an answer to a reader.
    \<^item> \<open>Tasks\<close> (USER/main.c, tcp_client_demo.c): the loop bodies of the tasks, message queues and heap.
    \<^item> \<open>SpiBus\<close>, \<open>SpiFlash\<close>, \<open>NorFlash\<close> (bsp_spi_bus.c, bsp_spi_flash.c): the four wires (locale \<open>spi_channel\<close>), the flash
      driver, and the driver on an automaton of the chip: a buffer written across sectors (locale \<open>sector_writer\<close>).
    \<^item> \<open>SerialTerm\<close> (common.c): numbers, strings, keys. \<open>Ymodem\<close>, \<open>YmodemSend\<close> (ymodem.c): the receiver and the sender;
      a session as the host sends it, what it leaves in the flash, the CRC, and what the receiver makes of the sender's
      packets.
    \<^item> \<open>Dm9000\<close>, \<open>EthChip\<close>, \<open>EthRun\<close> (dm9000.c, ethernetif.c): the Ethernet driver over a chip that is a parameter; what it relies on
      (locale \<open>eth_chip\<close>), interpreted on an automaton of the DM9000; start-up, and the runs of arrivals, interrupts,
      receptions and transmissions as an inductive relation with its invariant. \<open>pbuf_alloc\<close> is a parameter that may fail at any call: what is then lost, what is
      left in the chip, and when the reception ends is part of the properties.
    \<^item> \<open>OsReady\<close>, \<open>OsKernel\<close>, \<open>OsQueue\<close> (UCOSII/CORE/os_core.c, os_task.c, os_time.c, os_sem.c, os_q.c): the bitmaps of priorities as sets (locale
      \<open>prio_list\<close>, interpreted on the tables of \<open>OsReady\<close>, for the tasks that are ready and the tasks that wait for an event), the scheduler, ticks and
      delays, semaphores and message queues, creating mutexes, deleting tasks.
    \<^item> \<open>OsRun\<close>, \<open>OsCreate\<close>, \<open>OsWorld\<close>, \<open>OsProps\<close>: the invariant of the kernel and what each call does to it, on every branch; the start-up; a
      system of tasks and interrupts that make calls in any order as the step relation \<open>os_step\<close>, with ghost fields for what was posted and taken; its
      properties.
    \<^item> \<open>OsMutex\<close> (UCOSII/CORE/os_mutex.c): mutexes with the scheduler, ticks and delays they rest on. The table of priorities leads to the control block of an owner under two
      priorities, so control blocks are objects of their own here. \<open>OsMutexRun\<close>: runs of tasks that take and give a mutex, wait with and without time limits (\<open>lim\<close>), delay
      themselves and are interrupted, as the step relation \<open>mstep\<close>, and their invariant. \<open>OsMutexProps\<close>: mutual exclusion, inheritance of priority, handing over, deletion.
    \<^item> \<open>Delay\<close> (SYSTEM/delay/delay.c): the tick interrupt and the delays. \<open>SysArch\<close> (LWIP/arch/sys_arch.c): the mailboxes, semaphores and times of lwIP
      on the kernel and the heap.
    \<^item> \<open>HeapUse\<close>: several blocks taken from the heap and given back, by pointer. \<open>LwipComm\<close> (LWIP/lwip_app/lwip_comm/lwip_comm.c, USER/main.c, init.c, mem.c, tcpip.c,
      netif.c, etharp.c, ethernetif.c): the start of the network and of the system on heap, kernel and Ethernet driver, the ARP packet it sends before the kernel runs, and the
      DHCP task.
      \<open>LwipStart\<close>: the memory is taken as a whole or not at all; \<open>main\<close> gets to a running kernel, or faults at the null pointer of the task that does not run yet, or never ends when the chip fails once; what \<open>start_task\<close> and the
      DHCP task leave behind.

  How the model corresponds to the code. Definitions have the names of the C functions; a loop or a part of a long
  function is a definition of its own, named after what it does. Integers are words of the width of the C type, arrays are lists,
  structs are records, global variables are fields of the record of the state, passed and returned. A function that
  can fault returns \<open>fault + (result \<times> state)\<close>. Local arrays the C leaves uninitialised are arguments. What is
  outside the processor is a parameter: the device on a bus as an automaton of the levels of its wires, the CAN
  controller as the frames a poll finds, an interrupt as the flags pending, the host of a serial port as the outcomes of
  \<open>comGetChar\<close>, the network stack as the results of its calls. Properties name the assumptions about them
  (\<open>is_at24\<close> for the EEPROM, \<open>flash_ok\<close> for the flash, \<open>feeds\<close> for a host), and the witnesses instantiate them with concrete devices.

  Fuel. Loops without a bound of their own take fuel and give \<open>Still_Running\<close> without it: the waits for the ring (one round per byte
  when the buffer fits, property of \<open>UartSend\<close>), for a CAN packet (20 polls are enough when frames carry data), for the end of a transmission (\<open>late\<close> reads), for the words of a frame without a buffer (half its length, if that is even;
  otherwise none is enough), for the
  flash (\<open>np_lat\<close> status reads, part of \<open>flash_ok\<close>), for packets (one round per packet and three more for a
  session). Deleting an event or aborting the waits for it readies at most 64 tasks, and so takes 64 rounds at most (lemmas \<open>OSQPendAbort_all\<close>, \<open>ready_all_ends\<close>).
  \<open>delay_us\<close> has the readings of the counter as its fuel, and \<open>sys_mbox_post\<close> its attempts: it may try for ever while the mailbox is full. Where the C never
  returns, that is a theorem about all fuel. The loops of \<open>main\<close> over \<open>lwip_comm_init\<close> take one attempt when the chip answers, and none is enough when it does not answer the first;
  the DHCP task has the states it finds as its fuel.

  Tasks of the kernel. A call that may wait is two definitions, one that ends with an answer or with the task waiting, and one for what the call does when the
  task runs again; which task is in the middle of which call is the field \<open>pc\<close> of the world. A critical section is one step; a context switch
  changes the number of the task that runs.

  Not modelled, with reasons. LEDs, \<open>printf\<close> output and the writes that set up pins, clocks, baud rates and the registers of
  peripherals: they have no result the code reads. The first half of \<open>main\<close>, which sets up the drivers one by one. Preemption inside a part of a loop body of the application: its tasks interleave at the parts of \<open>Tasks\<close>. Delays inside the bit-banged
  drivers. The unused RS485 ports. The TFT display, the SRAM test functions, keys and timers. The mutexes of \<open>OsMutex\<close> are apart from the runs of \<open>OsWorld\<close>; of the one
  mutex of the program, which the Ethernet driver takes and gives in pairs, \<open>Dm9000\<close> has the contract. In the runs of \<open>OsMutexRun\<close> there is one mutex, its owner waits for no other event, as the manual of the
  kernel demands, and no task is suspended. Of uC/OS-II: mailboxes, event flags, memory partitions, software timers and
  changing priorities, which this program does not use; the statistics task, hooks and the assembler of the context switch. In the runs of \<open>OsWorld\<close>
  a task deletes only itself, as the DHCP task does. The vendored code below: lwIP but for the start-up functions named above, the STM32 peripheral library and CMSIS; what the modelled
  code relies on of them is a parameter: the outcome of \<open>pbuf_alloc\<close>, of which only the shape of the chain it gives is assumed (\<open>pbufs_ok\<close>), whether the heap of lwIP has room for the
  ARP packet of the start, the results of the calls of the server connection, and the number of bytes the pools need. Of the start-up of lwIP only the semaphore it creates is in the
  model: its other set-up functions write data of lwIP that no modelled code reads. What the processor reads at address 0 is a parameter of the start.
\<close>

end
